(* ===== verification/Prelude.thy ===== *)
theory Prelude
  imports Complex_Main "HOL-Library.Monad_Syntax"
begin

text \<open>
  Shared vocabulary of the development.

  C++ executions that have no defined continuation are modelled by \<^const>\<open>None\<close>: a failed
  \<open>AssertMsg\<close> of a debug build (\<open>helpers/assert.hpp\<close> calls \<open>std::terminate\<close>), a null pointer
  that is dereferenced, and an array access outside its bounds. Everything else returns
  \<^const>\<open>Some\<close>. A theorem of the form \<open>f x = Some y\<close> therefore says that the operation runs to its
  end without a failed assertion and without an invalid access, and that its result is \<open>y\<close>.

  The theory holds bounds-checked array access (\<open>idx\<close>, \<open>upd\<close> for the signed 64-bit \<open>IndexType\<close>,
  \<open>nth_opt\<close>, \<open>upd_opt\<close> for unsigned indices), the counting loop \<open>for_range\<close> and its monadic fold,
  C++ integer division, the 16-bit cast, list lemmas on strictly sorted key sequences and on even
  distribution, and the contract of the tasks of a parallel region (locale \<open>task_region\<close>).
\<close>

named_theorems arr_simps \<open>bounds-checked array access under its bounds\<close>
named_theorems loop_simps \<open>unfolding of counting loops\<close>

section \<open>Assertions\<close>

definition assertMsg :: "bool \<Rightarrow> bool \<Rightarrow> unit option" where
  "assertMsg ndebug c = (if ndebug \<or> c then Some () else None)"

lemma assertMsg_ok [simp]: "c \<Longrightarrow> assertMsg nd c = Some ()"
  by (simp add: assertMsg_def)

lemma assertMsg_ndebug [simp]: "assertMsg True c = Some ()"
  by (simp add: assertMsg_def)

lemma assertMsg_Some_iff: "assertMsg nd c = Some u \<longleftrightarrow> nd \<or> c"
  by (simp add: assertMsg_def)

section \<open>Bounds-checked arrays\<close>

definition nth_opt :: "'a list \<Rightarrow> nat \<Rightarrow> 'a option" where
  "nth_opt xs i = (if i < length xs then Some (xs ! i) else None)"

definition upd_opt :: "'a list \<Rightarrow> nat \<Rightarrow> 'a \<Rightarrow> 'a list option" where
  "upd_opt xs i v = (if i < length xs then Some (xs[i := v]) else None)"

definition idx :: "'a list \<Rightarrow> int \<Rightarrow> 'a option" where
  "idx xs i = (if 0 \<le> i then nth_opt xs (nat i) else None)"

definition upd :: "'a list \<Rightarrow> int \<Rightarrow> 'a \<Rightarrow> 'a list option" where
  "upd xs i v = (if 0 \<le> i then upd_opt xs (nat i) v else None)"

lemma nth_opt_in [simp, arr_simps]: "i < length xs \<Longrightarrow> nth_opt xs i = Some (xs ! i)"
  by (simp add: nth_opt_def)

lemma upd_opt_in [simp, arr_simps]: "i < length xs \<Longrightarrow> upd_opt xs i v = Some (xs[i := v])"
  by (simp add: upd_opt_def)

lemma idx_in [simp, arr_simps]:
  "0 \<le> i \<Longrightarrow> i < int (length xs) \<Longrightarrow> idx xs i = Some (xs ! nat i)"
  by (simp add: idx_def nat_less_iff)

lemma upd_in [simp, arr_simps]:
  "0 \<le> i \<Longrightarrow> i < int (length xs) \<Longrightarrow> upd xs i v = Some (xs[nat i := v])"
  by (simp add: upd_def nat_less_iff)

lemma idx_Some_iff: "idx xs i = Some x \<longleftrightarrow> 0 \<le> i \<and> i < int (length xs) \<and> xs ! nat i = x"
  by (auto simp: idx_def nth_opt_def nat_less_iff)

lemma upd_Some_iff:
  "upd xs i v = Some ys \<longleftrightarrow> 0 \<le> i \<and> i < int (length xs) \<and> ys = xs[nat i := v]"
  by (auto simp: upd_def upd_opt_def nat_less_iff)

lemma nth_opt_Some_iff: "nth_opt xs i = Some x \<longleftrightarrow> i < length xs \<and> xs ! i = x"
  by (auto simp: nth_opt_def)

lemma upd_opt_Some_iff: "upd_opt xs i v = Some ys \<longleftrightarrow> i < length xs \<and> ys = xs[i := v]"
  by (auto simp: upd_opt_def)

section \<open>Loops\<close>

fun foldM :: "('a \<Rightarrow> 's \<Rightarrow> 's option) \<Rightarrow> 'a list \<Rightarrow> 's \<Rightarrow> 's option" where
  "foldM f [] s = Some s"
| "foldM f (x # xs) s = f x s \<bind> foldM f xs"

lemma foldM_append [simp]: "foldM f (xs @ ys) s = foldM f xs s \<bind> foldM f ys"
  by (induction xs arbitrary: s) (auto split: bind_splits)

lemma foldM_cong [fundef_cong]:
  assumes "xs = ys" "s = t" "\<And>x s. x \<in> set ys \<Longrightarrow> f x s = g x s"
  shows "foldM f xs s = foldM g ys t"
  using assms
proof (induction xs arbitrary: ys s t)
  case (Cons x xs)
  have hd: "f x s = g x s" using Cons.prems by auto
  have tl: "foldM f xs u = foldM g xs u" for u
    by (rule Cons.IH) (use Cons.prems in auto)
  have "foldM f xs = foldM g xs" by (rule ext) (rule tl)
  then show ?case using Cons.prems hd by auto
qed auto

text \<open>
  An invariant rule for loops that run to their end: the state stays in \<open>I\<close>, and the loop returns.
\<close>

lemma foldM_keeps:
  assumes "foldM f xs s = Some t" "Q s" "\<And>x s t. x \<in> set xs \<Longrightarrow> Q s \<Longrightarrow> f x s = Some t \<Longrightarrow> Q t"
  shows "Q t"
  using assms
proof (induction xs arbitrary: s)
  case (Cons x xs)
  then obtain s' where "f x s = Some s'" "foldM f xs s' = Some t" by (auto simp: bind_eq_Some_conv)
  then show ?case using Cons by (meson list.set_intros)
qed simp

lemma foldM_inv:
  assumes "I 0 s"
    and "\<And>i s. i < length xs \<Longrightarrow> I i s \<Longrightarrow> \<exists>t. f (xs ! i) s = Some t \<and> I (Suc i) t"
  shows "\<exists>t. foldM f xs s = Some t \<and> I (length xs) t"
  using assms
proof (induction xs arbitrary: s I)
  case (Cons x xs)
  obtain t where t: "f x s = Some t" "I 1 t"
    using Cons.prems(2) [of 0 s] Cons.prems(1) by auto
  have "\<exists>u. foldM f xs t = Some u \<and> I (Suc (length xs)) u"
  proof (rule Cons.IH [of "\<lambda>i. I (Suc i)"])
    show "I (Suc 0) t" using t by simp
    show "\<exists>u. f (xs ! i) s = Some u \<and> I (Suc (Suc i)) u" if "i < length xs" "I (Suc i) s" for i s
      using Cons.prems(2) [of "Suc i" s] that by auto
  qed
  then show ?case using t by auto
qed auto

text \<open>The loop \<open>for (IndexType i = a; i < b; ++i)\<close> over a body that may fail.\<close>

definition for_range :: "int \<Rightarrow> int \<Rightarrow> (int \<Rightarrow> 's \<Rightarrow> 's option) \<Rightarrow> 's \<Rightarrow> 's option" where
  "for_range a b f s = foldM f [a..b - 1] s"

lemma for_range_empty [simp]: "b \<le> a \<Longrightarrow> for_range a b f s = Some s"
  by (simp add: for_range_def)

lemma for_range_step [loop_simps]:
  "a < b \<Longrightarrow> for_range a b f s = f a s \<bind> for_range (a + 1) b f"
proof -
  assume "a < b"
  then have "[a..b - 1] = a # [a + 1..b - 1]" by (simp add: upto_rec1)
  moreover have "for_range (a + 1) b f = foldM f [a + 1..b - 1]"
    by (rule ext) (simp add: for_range_def)
  ultimately show ?thesis by (simp add: for_range_def)
qed

lemma for_range_inv:
  assumes "a \<le> b" and "I a s"
    and "\<And>i s. a \<le> i \<Longrightarrow> i < b \<Longrightarrow> I i s \<Longrightarrow> \<exists>t. f i s = Some t \<and> I (i + 1) t"
  shows "\<exists>t. for_range a b f s = Some t \<and> I b t"
proof -
  have "\<exists>t. foldM f [a..b - 1] s = Some t \<and> I (a + int (length [a..b - 1])) t"
  proof (rule foldM_inv [where I = "\<lambda>i. I (a + int i)"])
    show "I (a + int 0) s" using assms(2) by simp
    fix i s assume "i < length [a..b - 1]" "I (a + int i) s"
    then show "\<exists>t. f ([a..b - 1] ! i) s = Some t \<and> I (a + int (Suc i)) t"
      using assms(3) [of "a + int i" s] by (auto simp: ac_simps)
  qed
  then show ?thesis using assms(1) by (simp add: for_range_def)
qed

text \<open>A counting loop whose body only adds to a counter computes a sum.\<close>

lemma for_range_sum:
  assumes "\<And>i s. a \<le> i \<Longrightarrow> i < b \<Longrightarrow> f i s = Some (s + g i)"
  shows "for_range a b f s = Some (s + (\<Sum>i\<in>{a..<b}. g i :: int))"
proof (cases "a \<le> b")
  case True
  have "\<exists>t. for_range a b f s = Some t \<and> t = s + (\<Sum>i\<in>{a..<b}. g i)"
  proof (rule for_range_inv [where I = "\<lambda>i t. t = s + (\<Sum>j\<in>{a..<i}. g j)"])
    fix i t assume "a \<le> i" "i < b" and t: "t = s + (\<Sum>j\<in>{a..<i}. g j)"
    moreover have "{a..<i + 1} = insert i {a..<i}" using \<open>a \<le> i\<close> by auto
    ultimately show "\<exists>u. f i t = Some u \<and> u = s + (\<Sum>j\<in>{a..<i + 1}. g j)"
      by (simp add: assms)
  qed (use True in auto)
  then show ?thesis by simp
next
  case False
  then show ?thesis by simp
qed

section \<open>Machine integers\<close>

text \<open>
  Integer division of C++ truncates towards zero. On the non-negative indices of the program it
  agrees with \<open>div\<close>, which the simplifier uses.
\<close>

definition cdiv :: "int \<Rightarrow> int \<Rightarrow> int" where
  "cdiv a b = sgn a * sgn b * (\<bar>a\<bar> div \<bar>b\<bar>)"

definition cmod :: "int \<Rightarrow> int \<Rightarrow> int" where
  "cmod a b = a - b * cdiv a b"

lemma cdiv_nonneg [simp]: "0 \<le> a \<Longrightarrow> 0 < b \<Longrightarrow> cdiv a b = a div b"
  by (cases "a = 0") (auto simp: cdiv_def)

lemma cmod_nonneg [simp]: "0 \<le> a \<Longrightarrow> 0 < b \<Longrightarrow> cmod a b = a mod b"
  by (simp add: cmod_def minus_mult_div_eq_mod)

text \<open>The cast to \<open>BlockSizeType\<close> and \<open>BlockIndexType\<close> (\<open>std::uint16_t\<close>).\<close>

definition u16 :: "int \<Rightarrow> nat" where
  "u16 x = nat (x mod 65536)"

lemma u16_id [simp]: "0 \<le> x \<Longrightarrow> x < 65536 \<Longrightarrow> u16 x = nat x"
  by (simp add: u16_def)

lemma u16_bound: "u16 x < 65536"
  by (simp add: u16_def nat_less_iff)

section \<open>Strictly sorted key sequences\<close>

abbreviation strictly_sorted :: "'k::linorder list \<Rightarrow> bool" where
  "strictly_sorted \<equiv> sorted_wrt (<)"

lemma strictly_sorted_snoc:
  "strictly_sorted (xs @ [x]) \<longleftrightarrow> strictly_sorted xs \<and> (\<forall>y\<in>set xs. y < x)"
  by (simp add: sorted_wrt_append)

lemma strictly_sorted_nth_less:
  "strictly_sorted xs \<Longrightarrow> i < j \<Longrightarrow> j < length xs \<Longrightarrow> xs ! i < xs ! j"
  by (simp add: sorted_wrt_nth_less)

lemma strictly_sorted_take: "strictly_sorted xs \<Longrightarrow> strictly_sorted (take n xs)"
  by (rule sorted_wrt_take)

lemma strictly_sorted_drop: "strictly_sorted xs \<Longrightarrow> strictly_sorted (drop n xs)"
  by (rule sorted_wrt_drop)

lemma take_drop_list_update_shift:
  "i \<le> n \<Longrightarrow> n < length xs \<Longrightarrow> take (Suc n) (take i xs @ v # take (n - i) (drop i xs) @ zs) =
     take i xs @ v # take (n - i) (drop i xs)"
  by (simp add: take_Cons')

section \<open>Segments of lists\<close>

text \<open>The elements \<open>lo, \<dots>, hi - 1\<close> of a list.\<close>

definition slice :: "'a list \<Rightarrow> nat \<Rightarrow> nat \<Rightarrow> 'a list" where
  "slice xs lo hi = take (hi - lo) (drop lo xs)"

lemma slice_empty [simp]: "slice xs lo lo = []"
  by (simp add: slice_def)

lemma slice_Suc: "lo \<le> i \<Longrightarrow> i < length xs \<Longrightarrow> slice xs lo (Suc i) = slice xs lo i @ [xs ! i]"
  by (simp add: slice_def Suc_diff_le take_Suc_conv_app_nth)

lemma length_slice [simp]: "hi \<le> length xs \<Longrightarrow> length (slice xs lo hi) = hi - lo"
  by (simp add: slice_def)

lemma in_slice: "hi \<le> length xs \<Longrightarrow> x \<in> set (slice xs lo hi) \<longleftrightarrow> (\<exists>j. lo \<le> j \<and> j < hi \<and> x = xs ! j)"
proof -
  assume hi: "hi \<le> length xs"
  have "x \<in> set (slice xs lo hi) \<longleftrightarrow> (\<exists>j<hi - lo. slice xs lo hi ! j = x)"
    using hi by (simp add: in_set_conv_nth)
  also have "\<dots> \<longleftrightarrow> (\<exists>j<hi - lo. xs ! (lo + j) = x)" using hi by (auto simp: slice_def)
  also have "\<dots> \<longleftrightarrow> (\<exists>j. lo \<le> j \<and> j < hi \<and> x = xs ! j)"
  proof
    assume "\<exists>j<hi - lo. xs ! (lo + j) = x"
    then obtain j where "j < hi - lo" "xs ! (lo + j) = x" by blast
    then show "\<exists>j. lo \<le> j \<and> j < hi \<and> x = xs ! j" by (intro exI [of _ "lo + j"]) auto
  next
    assume "\<exists>j. lo \<le> j \<and> j < hi \<and> x = xs ! j"
    then obtain j where "lo \<le> j" "j < hi" "x = xs ! j" by blast
    then show "\<exists>j<hi - lo. xs ! (lo + j) = x" by (intro exI [of _ "j - lo"]) auto
  qed
  finally show ?thesis .
qed

lemma set_slice_subset: "set (slice xs lo hi) \<subseteq> set xs"
  unfolding slice_def by (meson order_trans set_drop_subset set_take_subset)

lemma slice_mono: "lo \<le> i \<Longrightarrow> i' \<le> hi \<Longrightarrow> hi \<le> length xs \<Longrightarrow> set (slice xs i i') \<subseteq> set (slice xs lo hi)"
  by (auto simp: in_slice) (metis le_trans less_le_trans)

lemma slice_append: "lo \<le> i \<Longrightarrow> i \<le> i' \<Longrightarrow> slice xs lo i' = slice xs lo i @ slice xs i i'"
proof -
  assume a: "lo \<le> i" "i \<le> i'"
  have "take (i' - lo) (drop lo xs) = take ((i - lo) + (i' - i)) (drop lo xs)" using a by simp
  also have "\<dots> = take (i - lo) (drop lo xs) @ take (i' - i) (drop (i - lo) (drop lo xs))" by (rule take_add)
  finally show ?thesis using a by (simp add: slice_def)
qed

text \<open>\<open>ws\<close> written to consecutive cells of an array.\<close>

definition writeAt :: "nat \<Rightarrow> 'a list \<Rightarrow> 'a list \<Rightarrow> 'a list" where
  "writeAt start ws xs = take start xs @ ws @ drop (start + length ws) xs"

lemma writeAt_Nil [simp]: "writeAt start [] xs = xs"
  by (simp add: writeAt_def)

lemma length_writeAt [simp]: "start + length ws \<le> length xs \<Longrightarrow> length (writeAt start ws xs) = length xs"
  by (simp add: writeAt_def)

lemma writeAt_nth:
  assumes "start + length ws \<le> length xs" "i < length xs"
  shows "writeAt start ws xs ! i = (if start \<le> i \<and> i < start + length ws then ws ! (i - start) else xs ! i)"
  using assms by (auto simp: writeAt_def nth_append min_def)

lemma writeAt_snoc:
  assumes "start + length ws < length xs"
  shows "(writeAt start ws xs)[start + length ws := w] = writeAt start (ws @ [w]) xs"
  using assms by (intro nth_equalityI) (auto simp: writeAt_nth nth_list_update nth_append)

lemma slice_nth: "hi \<le> length xs \<Longrightarrow> i < hi - lo \<Longrightarrow> slice xs lo hi ! i = xs ! (lo + i)"
  by (simp add: slice_def)

lemma slice_writeAt_self: "start + length ws \<le> length xs \<Longrightarrow> slice (writeAt start ws xs) start (start + length ws) = ws"
  by (simp add: slice_def writeAt_def)

lemma writeAt_append:
  assumes "start + length ws \<le> length xs"
  shows "writeAt (start + length ws) ws1 (writeAt start ws xs) = writeAt start (ws @ ws1) xs"
  using assms by (simp add: writeAt_def add.assoc add.commute [of "length ws1"])

lemma writeAt_0: "writeAt 0 ws xs = ws @ drop (length ws) xs"
  by (simp add: writeAt_def)

lemma writeAt_next:
  assumes "length ws < length xs"
  shows "writeAt 0 (ws @ [x]) xs = (writeAt 0 ws xs)[length ws := x]"
  using writeAt_snoc [of 0 ws xs x] assms by simp

lemma for_range_states:
  assumes "\<And>k. k < n \<Longrightarrow> f (int k) (T k) = Some (T (Suc k))"
  shows "for_range 0 (int n) f (T 0) = Some (T n)"
proof -
  have "\<exists>t. for_range 0 (int n) f (T 0) = Some t \<and> t = T (nat (int n))"
  proof (rule for_range_inv)
    fix i s assume i: "0 \<le> i" "i < int n" "s = T (nat i)"
    then obtain k where "i = int k" by (metis nonneg_int_cases)
    then show "\<exists>t. f i s = Some t \<and> t = T (nat (i + 1))" using assms [of k] i by (simp add: nat_add_distrib)
  qed simp_all
  then show ?thesis by simp
qed

section \<open>Even distribution\<close>

text \<open>The write positions: block \<open>k\<close> of \<open>n\<close> goes to position \<open>k * len div n\<close> of a range of \<open>len\<close> entries.\<close>

lemma uniform_step:
  assumes "0 < n" "n \<le> len"
  shows "k * len div n < Suc k * len div (n::nat)"
proof -
  have "Suc (k * len div n) = (k * len + n) div n" using assms by simp
  also have "\<dots> \<le> Suc k * len div n" using assms by (intro div_le_mono) simp
  finally show ?thesis by simp
qed

lemma uniform_mono: "0 < n \<Longrightarrow> j \<le> k \<Longrightarrow> j * len div n \<le> k * len div (n::nat)"
  by (intro div_le_mono mult_le_mono1)

section \<open>Parallel regions\<close>

text \<open>
  The contract of the tasks of a parallel region: whatever tasks \<open>D\<close> are done, each further task runs and extends the set. Then the
  tasks may take effect in any order.
\<close>

locale task_region =
  fixes n :: nat and run :: "nat \<Rightarrow> 's \<Rightarrow> 's option" and after :: "nat set \<Rightarrow> 's \<Rightarrow> bool"
  assumes task: "after D s \<Longrightarrow> t < n \<Longrightarrow> t \<notin> D \<Longrightarrow> \<exists>s'. run t s = Some s' \<and> after (insert t D) s'"
begin

lemma any_order: "after D s \<Longrightarrow> distinct xs \<Longrightarrow> set xs \<subseteq> {0..<n} \<Longrightarrow> D \<inter> set xs = {} \<Longrightarrow> \<exists>s'. foldM run xs s = Some s' \<and> after (D \<union> set xs) s'"
proof (induction xs arbitrary: D s)
  case (Cons x xs)
  obtain s1 where s1: "run x s = Some s1" "after (insert x D) s1" using task [of D s x] Cons.prems by auto
  have "insert x D \<inter> set xs = {}" using Cons.prems(2,4) by auto
  then obtain s2 where "foldM run xs s1 = Some s2" "after (insert x D \<union> set xs) s2" using Cons.IH [OF s1(2)] Cons.prems(2,3) by auto
  then show ?case using s1(1) by auto
qed simp

lemma all_done: "after {} s \<Longrightarrow> distinct xs \<Longrightarrow> set xs = {0..<n} \<Longrightarrow> \<exists>s'. foldM run xs s = Some s' \<and> after {0..<n} s'"
  using any_order [of "{}" s xs] by simp

end

end
