(* ===== verification/Sds_Types.thy ===== *)
theory Sds_Types
  imports Prelude
begin

text \<open>
  The plain data types of \<open>dataStructures/helpers.hpp\<close> and \<open>dataStructures/typedefs.hpp\<close>, and the
  template parameters the data structures are instantiated with.

  \<open>IndexType\<close> and \<open>SizeType\<close> (\<open>std::int64_t\<close>) are \<^typ>\<open>int\<close>: their values are array positions and
  element counts, signed overflow of which is undefined behaviour the program never reaches with
  arrays that fit into memory. \<open>BlockSizeType\<close> and \<open>BlockIndexType\<close> (\<open>std::uint16_t\<close>) are \<^typ>\<open>nat\<close>
  with \<^const>\<open>u16\<close> at every cast.
\<close>

section \<open>Template parameters\<close>

text \<open>
  \<open>NULL_KEY\<close>, \<open>KEY_OF::keyOfValue\<close>, \<open>MIN_SIZE\<close>, \<open>MAX_SIZE\<close> and \<open>SEGMENT_WIDTH\<close> are template
  parameters; \<open>KEY_COMPARE\<close> is \<open>std::less<KEY>\<close> in every instantiation, so keys are of class
  \<open>linorder\<close> and \<open>comp\<close> is \<open><\<close>. \<open>nullValue\<close> is \<open>Some\<close> of \<open>NULL_KEY\<close> used as a value when
  \<open>KEY\<close> and \<open>VALUE\<close> are the same type (\<open>IsTrivialType\<close>), else \<open>None\<close>. \<open>defaultValue\<close> is what a
  value-initialised array cell holds, \<open>indeterminate\<close> what an uninitialised local \<open>VALUE\<close> happens to
  hold. \<open>NDEBUG\<close> tells release builds (\<open>AssertMsg\<close> does nothing, cells are not erased) from debug
  builds.
\<close>

record ('k, 'v) tparams =
  NULL_KEY :: 'k
  keyOfValue :: "'v \<Rightarrow> 'k"
  defaultValue :: 'v
  nullValue :: "'v option"
  indeterminate :: 'v
  MinSize :: nat
  MaxSize :: nat
  SegmentWidth :: int
  NDEBUG :: bool

section \<open>Intervals\<close>

record Interval =
  ileft :: int
  iright :: int

definition mkInterval :: "int \<Rightarrow> int \<Rightarrow> Interval" where
  "mkInterval l r = \<lparr>ileft = l, iright = r\<rparr>"

definition emptyInterval :: Interval where
  "emptyInterval = mkInterval 0 0"

definition intervalLength :: "Interval \<Rightarrow> int" where
  "intervalLength iv = iright iv - ileft iv"

definition intervalContains :: "Interval \<Rightarrow> int \<Rightarrow> bool" where
  "intervalContains iv index \<longleftrightarrow> index \<ge> ileft iv \<and> index < iright iv"

definition cut :: "Interval \<Rightarrow> Interval \<Rightarrow> Interval" where
  "cut self other =
     (let result = other;
          result = (if ileft self > ileft result then result\<lparr>ileft := ileft self\<rparr> else result);
          result = (if iright self < iright result then result\<lparr>iright := iright self\<rparr> else result)
      in if intervalLength result \<le> 0 then result\<lparr>ileft := 0, iright := 0\<rparr> else result)"

definition overlaps :: "Interval \<Rightarrow> Interval \<Rightarrow> bool" where
  "overlaps self other \<longleftrightarrow> cut self other \<noteq> emptyInterval"

lemma mkInterval_sel [simp]: "ileft (mkInterval l r) = l" "iright (mkInterval l r) = r"
  by (simp_all add: mkInterval_def)

lemma emptyInterval_sel [simp]: "ileft emptyInterval = 0" "iright emptyInterval = 0"
  by (simp_all add: emptyInterval_def)

lemma intervalLength_mk [simp]: "intervalLength (mkInterval l r) = r - l"
  by (simp add: intervalLength_def)

lemma Interval_eqI: "ileft a = ileft b \<Longrightarrow> iright a = iright b \<Longrightarrow> a = (b :: Interval)"
  by (cases a; cases b) simp

lemma cut_alt:
  "cut a b = (let l = max (ileft a) (ileft b); r = min (iright a) (iright b)
              in if r \<le> l then mkInterval 0 0 else mkInterval l r)"
  by (rule Interval_eqI) (auto simp: cut_def Let_def intervalLength_def max_def min_def)

lemma cut_mk [simp]:
  "cut (mkInterval a b) (mkInterval c d) =
     (if min b d \<le> max a c then mkInterval 0 0 else mkInterval (max a c) (min b d))"
  by (simp add: cut_alt)

lemma cut_contains: "intervalContains (cut a b) i \<longleftrightarrow> intervalContains a i \<and> intervalContains b i"
  by (auto simp: cut_alt intervalContains_def Let_def)

lemma overlaps_iff: "overlaps a b \<longleftrightarrow> (\<exists>i. intervalContains a i \<and> intervalContains b i)"
proof
  assume "overlaps a b"
  then have "max (ileft a) (ileft b) < min (iright a) (iright b)"
    by (auto simp: overlaps_def cut_alt emptyInterval_def Let_def split: if_splits)
  then have "intervalContains a (max (ileft a) (ileft b)) \<and> intervalContains b (max (ileft a) (ileft b))"
    by (auto simp: intervalContains_def)
  then show "\<exists>i. intervalContains a i \<and> intervalContains b i" by blast
next
  assume "\<exists>i. intervalContains a i \<and> intervalContains b i"
  then have "max (ileft a) (ileft b) < min (iright a) (iright b)"
    by (auto simp: intervalContains_def)
  then show "overlaps a b"
    by (auto simp: overlaps_def cut_alt emptyInterval_def mkInterval_def Let_def)
qed

section \<open>Logarithm\<close>

text \<open>\<open>std::bit_width\<close> of an unsigned value.\<close>

fun bit_width :: "nat \<Rightarrow> nat" where
  "bit_width n = (if n = 0 then 0 else Suc (bit_width (n div 2)))"

declare bit_width.simps [simp del]

definition integerLog2 :: "nat \<Rightarrow> int" where
  "integerLog2 v = int (bit_width v) - 1"

lemma bit_width_bounds: "n < 2 ^ bit_width n \<and> (0 < n \<longrightarrow> 2 ^ bit_width n \<le> 2 * n)"
proof (induction n rule: bit_width.induct)
  case (1 n)
  show ?case
  proof (cases "n = 0")
    case False
    with 1 have IH: "n div 2 < 2 ^ bit_width (n div 2)"
      "0 < n div 2 \<longrightarrow> 2 ^ bit_width (n div 2) \<le> 2 * (n div 2)" by auto
    moreover have "n div 2 = 0 \<Longrightarrow> bit_width (n div 2) = 0"
      by (subst bit_width.simps) simp
    ultimately show ?thesis
      using False by (cases "n div 2 = 0") (auto simp: bit_width.simps [of n])
  qed (simp add: bit_width.simps)
qed

lemma integerLog2_bounds:
  assumes "0 < v"
  shows "0 \<le> integerLog2 v \<and> 2 ^ nat (integerLog2 v) \<le> v \<and> v < 2 ^ Suc (nat (integerLog2 v))"
proof -
  obtain w where w: "bit_width v = Suc w" using assms by (cases "bit_width v") (auto simp: bit_width.simps)
  then show ?thesis using bit_width_bounds [of v] assms by (simp add: integerLog2_def)
qed

section \<open>Tasks and nodes\<close>

datatype TaskType = INSERTION | INVERSE_MERGE | DO_NOTHING | REBALANCE

record RecountingNode =
  rnIndex :: int
  rnNeedsRebalancing :: bool

definition RecountingNode_less :: "RecountingNode \<Rightarrow> RecountingNode \<Rightarrow> bool" where
  "RecountingNode_less lhs rhs \<longleftrightarrow>
     rnIndex lhs < rnIndex rhs \<or> (rnIndex lhs = rnIndex rhs \<and> rnNeedsRebalancing lhs)"

definition RecountingNode_eq :: "RecountingNode \<Rightarrow> RecountingNode \<Rightarrow> bool" where
  "RecountingNode_eq lhs rhs \<longleftrightarrow> rnIndex lhs = rnIndex rhs"

record RebalancingNode =
  nodeLevel :: int
  nodeIndex :: int

definition mkNode :: "int \<Rightarrow> int \<Rightarrow> RebalancingNode" where
  "mkNode l i = \<lparr>nodeLevel = l, nodeIndex = i\<rparr>"

lemma mkNode_sel [simp]: "nodeLevel (mkNode l i) = l" "nodeIndex (mkNode l i) = i"
  by (simp_all add: mkNode_def)

record RebalancingTask =
  pmaRange :: Interval
  taskNumberOfBlocks :: int
  rootNode :: RebalancingNode

datatype ExtendedPmaIndex = ExtendedPmaIndex (pmaIndex: int) (bufferIndex: int)

definition ExtendedPmaIndex_less :: "ExtendedPmaIndex \<Rightarrow> ExtendedPmaIndex \<Rightarrow> bool" where
  "ExtendedPmaIndex_less l r \<longleftrightarrow>
     pmaIndex l < pmaIndex r \<or> (pmaIndex l = pmaIndex r \<and> bufferIndex l < bufferIndex r)"

instantiation ExtendedPmaIndex :: linorder
begin

definition less_ExtendedPmaIndex :: "ExtendedPmaIndex \<Rightarrow> ExtendedPmaIndex \<Rightarrow> bool" where
  "less_ExtendedPmaIndex = ExtendedPmaIndex_less"

definition less_eq_ExtendedPmaIndex :: "ExtendedPmaIndex \<Rightarrow> ExtendedPmaIndex \<Rightarrow> bool" where
  "less_eq_ExtendedPmaIndex l r \<longleftrightarrow> l = r \<or> ExtendedPmaIndex_less l r"

instance
  by standard
    (auto simp: less_eq_ExtendedPmaIndex_def less_ExtendedPmaIndex_def ExtendedPmaIndex_less_def
      intro: ExtendedPmaIndex.expand)

end

record PartialRebalancingTask =
  blockStart :: ExtendedPmaIndex
  blockEnd :: ExtendedPmaIndex
  outputOffset :: int

definition emptyPartialTask :: PartialRebalancingTask where
  "emptyPartialTask = \<lparr>blockStart = ExtendedPmaIndex 0 (-1), blockEnd = ExtendedPmaIndex 0 (-1),
     outputOffset = 0\<rparr>"

record TaskInfo =
  blockForBatchSplitter :: int
  firstBatchElement :: int
  requiredWidth :: int
  startIndex :: int
  taskType :: TaskType
  mergedTasks :: nat
  mergedTaskIndex :: nat
  numberOfBlocksWritten :: int
  numberOfRebalancingTasks :: int
  nodesToRecount :: int
  rebalancingBlockRange :: Interval
  rebalancingTaskRange :: Interval
  firstRebalancingTask :: PartialRebalancingTask
  lastRebalancingTask :: PartialRebalancingTask

end
