(* ===== verification/Doubles.thy ===== *)
theory Doubles
  imports Sds_Types
begin

text \<open>
  The type \<open>double\<close> as far as the density and overallocation code uses it: values are rationals, and
  every arithmetic operation returns the exact result rounded to the nearest value with a 53-bit
  significand, ties to even (IEEE 754 binary64, the default rounding mode). Exponents are not
  bounded: the magnitudes here lie between \<open>2\<^sup>-\<^sup>6\<^sup>4\<close> and \<open>2\<^sup>6\<^sup>4\<close>, far inside the range of
  binary64, so neither overflow nor subnormal numbers occur.
\<close>

section \<open>Rounding to 53 bits\<close>

text \<open>The binary exponent of a positive rational: the greatest \<open>k\<close> with \<open>2\<^sup>k \<le> x\<close>.\<close>

definition expo :: "rat \<Rightarrow> int" where
  "expo x = (let (a, b) = quotient_of x; k = int (bit_width (nat a)) - int (bit_width (nat b))
             in if 2 powi k \<le> x then k else k - 1)"

definition round_even :: "rat \<Rightarrow> int" where
  "round_even x = (let f = \<lfloor>x\<rfloor>; d = x - of_int f in
     if d < 1/2 then f else if d > 1/2 then f + 1 else if even f then f else f + 1)"

definition rnd_pos :: "rat \<Rightarrow> rat" where
  "rnd_pos x = (let u = 2 powi (expo x - 52) in of_int (round_even (x / u)) * u)"

definition rnd :: "rat \<Rightarrow> rat" where
  "rnd x = (if x = 0 then 0 else if x > 0 then rnd_pos x else - rnd_pos (- x))"

definition dadd :: "rat \<Rightarrow> rat \<Rightarrow> rat" where "dadd x y = rnd (x + y)"

definition dsub :: "rat \<Rightarrow> rat \<Rightarrow> rat" where "dsub x y = rnd (x - y)"

definition dmul :: "rat \<Rightarrow> rat \<Rightarrow> rat" where "dmul x y = rnd (x * y)"

definition ddiv :: "rat \<Rightarrow> rat \<Rightarrow> rat" where "ddiv x y = rnd (x / y)"

text \<open>\<open>static_cast<double>\<close> of an integer, and the truncating cast back.\<close>

definition toDouble :: "int \<Rightarrow> rat" where "toDouble n = rnd (of_int n)"

definition toInt :: "rat \<Rightarrow> int" where "toInt x = (if 0 \<le> x then \<lfloor>x\<rfloor> else \<lceil>x\<rceil>)"

section \<open>Laws of the rounding\<close>

lemma pow2_less_iff [simp]: "(2::rat) powi k < 2 powi m \<longleftrightarrow> k < m"
  by (metis linorder_not_less nle_le one_less_numeral_iff power_int_increasing power_int_strict_increasing
      one_le_numeral semiring_norm(76))

lemma pow2_le_iff [simp]: "(2::rat) powi k \<le> 2 powi m \<longleftrightarrow> k \<le> m"
  by (simp flip: linorder_not_less)

lemma expo_bounds:
  assumes "0 < x"
  shows "2 powi expo x \<le> x \<and> x < 2 powi (expo x + 1)"
proof -
  obtain a b where ab: "quotient_of x = (a, b)" by (cases "quotient_of x")
  then have b: "0 < b" and x: "x = of_int a / of_int b"
    by (auto simp: quotient_of_denom_pos quotient_of_div)
  then have a: "0 < a" using assms by (simp add: zero_less_divide_iff)
  define m n where "m = bit_width (nat a)" and "n = bit_width (nat b)"
  have bw: "of_int c < (2::rat) ^ bit_width (nat c) \<and> (2::rat) ^ bit_width (nat c) \<le> 2 * of_int c" if c: "0 < c" for c :: int
  proof -
    have "nat c < 2 ^ bit_width (nat c)" "2 ^ bit_width (nat c) \<le> 2 * nat c"
      using bit_width_bounds [of "nat c"] c by auto
    then have "int (nat c) < int (2 ^ bit_width (nat c))" "int (2 ^ bit_width (nat c)) \<le> int (2 * nat c)"
      by linarith+
    then have "c < 2 ^ bit_width (nat c)" "2 ^ bit_width (nat c) \<le> 2 * c" using c by auto
    then have "of_int c < (of_int (2 ^ bit_width (nat c)) :: rat)"
      "(of_int (2 ^ bit_width (nat c)) :: rat) \<le> of_int (2 * c)"
      by (simp_all only: of_int_less_iff of_int_le_iff)
    then show ?thesis by simp
  qed
  have am: "of_int a < (2::rat) ^ m" "(2::rat) ^ m \<le> 2 * of_int a"
    and bn: "of_int b < (2::rat) ^ n" "(2::rat) ^ n \<le> 2 * of_int b"
    using bw [OF a] bw [OF b] by (simp_all add: m_def n_def)
  define k where "k = int m - int n"
  have pk: "2 powi k = (2::rat) ^ m / 2 ^ n" by (simp add: k_def power_int_diff)
  have hi: "x < 2 powi (k + 1)"
  proof -
    have "of_int a * 2 ^ n < 2 ^ m * (2 * (of_int b :: rat))"
      using am(1) bn(2) a b by (intro mult_less_le_imp_less) auto
    then show ?thesis using b by (simp add: x pk power_int_add field_simps)
  qed
  have lo: "2 powi (k - 1) \<le> x"
  proof -
    have "2 ^ m * of_int b \<le> (2 * of_int a) * (2::rat) ^ n"
      using am(2) bn(1) a b by (intro mult_mono) auto
    then show ?thesis using b by (simp add: x pk power_int_diff field_simps)
  qed
  have "expo x = (if 2 powi k \<le> x then k else k - 1)"
    by (simp add: expo_def ab k_def m_def n_def Let_def)
  then show ?thesis using hi lo by auto
qed

lemma expo_unique:
  assumes "0 < x" "2 powi k \<le> x" "x < 2 powi (k + 1)"
  shows "expo x = k"
proof -
  note e = expo_bounds [OF assms(1)]
  have "(2::rat) powi k < 2 powi (expo x + 1)" "(2::rat) powi expo x < 2 powi (k + 1)"
    using assms e by (meson le_less_trans)+
  then show ?thesis by simp
qed

lemma expo_mono: "0 < x \<Longrightarrow> x \<le> y \<Longrightarrow> expo x \<le> expo y"
proof -
  assume "0 < x" "x \<le> y"
  then have "(2::rat) powi expo x < 2 powi (expo y + 1)"
    using expo_bounds [of x] expo_bounds [of y] by linarith
  then show ?thesis by (simp only: pow2_less_iff)
qed

lemma round_even_int [simp]: "round_even (of_int n) = n"
  by (simp add: round_even_def)

lemma round_even_bounds: "\<lfloor>x\<rfloor> \<le> round_even x \<and> round_even x \<le> \<lfloor>x\<rfloor> + 1 \<and> \<bar>of_int (round_even x) - x\<bar> \<le> 1/2"
proof -
  have "of_int \<lfloor>x\<rfloor> \<le> x" "x < of_int \<lfloor>x\<rfloor> + 1" by linarith+
  then show ?thesis unfolding round_even_def Let_def by (auto simp: abs_le_iff)
qed

lemma round_even_mono: "x \<le> y \<Longrightarrow> round_even x \<le> round_even y"
proof -
  assume xy: "x \<le> y"
  show ?thesis
  proof (cases "\<lfloor>x\<rfloor> = \<lfloor>y\<rfloor>")
    case True
    then show ?thesis using xy by (auto simp: round_even_def Let_def)
  next
    case False
    then have "\<lfloor>x\<rfloor> + 1 \<le> \<lfloor>y\<rfloor>" using xy floor_mono [of x y] by linarith
    then show ?thesis using round_even_bounds [of x] round_even_bounds [of y] by linarith
  qed
qed

lemma pow2_pos [simp]: "(0::rat) < 2 powi k"
  by simp

lemma scaled_bounds:
  assumes "0 < x"
  shows "2 ^ 52 \<le> x / 2 powi (expo x - 52) \<and> x / 2 powi (expo x - 52) < 2 ^ 53"
proof -
  define q where "q = x / 2 powi expo x"
  have "x / 2 powi (expo x - 52) = q * 2 ^ 52"
    by (simp add: power_int_diff q_def)
  moreover have "1 \<le> q" "q < 2"
    using expo_bounds [OF assms] by (auto simp: power_int_add field_simps q_def)
  ultimately show ?thesis by auto
qed

lemma rnd_pos_range:
  assumes "0 < x"
  shows "2 powi expo x \<le> rnd_pos x \<and> rnd_pos x \<le> 2 powi (expo x + 1)"
proof -
  let ?u = "(2::rat) powi (expo x - 52)"
  have "round_even (of_int (2 ^ 52)) \<le> round_even (x / ?u)" "round_even (x / ?u) \<le> round_even (of_int (2 ^ 53))"
    using scaled_bounds [OF assms] by (auto intro!: round_even_mono)
  then have "2 ^ 52 \<le> round_even (x / ?u)" "round_even (x / ?u) \<le> 2 ^ 53"
    by (simp_all only: round_even_int)
  then have "(of_int (2 ^ 52) :: rat) \<le> of_int (round_even (x / ?u))" "(of_int (round_even (x / ?u)) :: rat) \<le> of_int (2 ^ 53)"
    by (simp_all only: of_int_le_iff)
  then have "2 ^ 52 * ?u \<le> of_int (round_even (x / ?u)) * ?u" "of_int (round_even (x / ?u)) * ?u \<le> 2 ^ 53 * ?u"
    by (auto intro!: mult_right_mono)
  moreover have "2 ^ 52 * ?u = 2 powi expo x" "2 ^ 53 * ?u = 2 powi (expo x + 1)"
    by (simp_all add: power_int_diff power_int_add)
  ultimately show ?thesis unfolding rnd_pos_def Let_def by (simp only: conj_ac)
qed

lemma rnd_pos_mono:
  assumes "0 < x" "x \<le> y"
  shows "rnd_pos x \<le> rnd_pos y"
proof (cases "expo x = expo y")
  case True
  then show ?thesis
    using assms by (auto simp: rnd_pos_def Let_def intro!: mult_right_mono round_even_mono divide_right_mono)
next
  case False
  then have "expo x + 1 \<le> expo y" using expo_mono [OF assms] by simp
  then have "(2::rat) powi (expo x + 1) \<le> 2 powi expo y" by simp
  then show ?thesis using rnd_pos_range [of x] rnd_pos_range [of y] assms by linarith
qed

lemma rnd_pos_pos: "0 < x \<Longrightarrow> 0 < rnd_pos x"
  using rnd_pos_range [of x] pow2_pos [of "expo x"] by linarith

lemma rnd_mono:
  assumes "x \<le> y"
  shows "rnd x \<le> rnd y"
proof -
  consider "0 < x" | "y < 0" | "x \<le> 0" "0 \<le> y" by linarith
  then show ?thesis
  proof cases
    case 1
    then show ?thesis using assms rnd_pos_mono [of x y] by (simp add: rnd_def)
  next
    case 2
    then show ?thesis using assms rnd_pos_mono [of "- y" "- x"] by (simp add: rnd_def)
  next
    case 3
    then have "rnd x \<le> 0" "0 \<le> rnd y"
      using rnd_pos_pos [of "- x"] rnd_pos_pos [of y] by (auto simp: rnd_def)
    then show ?thesis by linarith
  qed
qed

lemma rnd_0 [simp]: "rnd 0 = 0"
  by (simp add: rnd_def)

text \<open>Integers up to \<open>2\<^sup>5\<^sup>3\<close> are representable.\<close>

lemma rnd_of_int:
  assumes "\<bar>n\<bar> \<le> 2 ^ 53"
  shows "rnd (of_int n) = of_int n"
proof -
  have pos: "rnd_pos (of_int m) = of_int m" if m: "0 < m" "m \<le> 2 ^ 53" for m
  proof -
    let ?x = "of_int m :: rat"
    have top: "?x \<le> 2 powi 53"
    proof -
      have "?x \<le> of_int (2 ^ 53)" using m(2) by (simp only: of_int_le_iff)
      then show ?thesis by (simp add: power_int_def)
    qed
    have b: "2 powi expo ?x \<le> ?x" "?x < 2 powi (expo ?x + 1)" using expo_bounds [of ?x] m(1) by auto
    have "(2::rat) powi 0 \<le> ?x" using m(1) by simp
    from le_less_trans [OF this b(2)] order_trans [OF b(1) top]
    have e: "expo ?x \<le> 53" "0 \<le> expo ?x" by (simp_all only: pow2_less_iff pow2_le_iff)
    show ?thesis
    proof (cases "expo ?x = 53")
      case True
      then have "(of_int (2 ^ 53) :: rat) \<le> ?x" using b(1) by (simp add: power_int_def)
      then have "m = 2 ^ 53" using m(2) by (simp only: of_int_le_iff)
      then show ?thesis using True round_even_int [of "2 ^ 52"] by (simp add: rnd_pos_def power_int_def)
    next
      case False
      define d where "d = nat (52 - expo ?x)"
      then have "expo ?x - 52 = - int d" using e False by simp
      then have "?x / 2 powi (expo ?x - 52) = of_int (m * 2 ^ d)"
        by (simp only: power_int_minus) (simp add: divide_inverse)
      then have "rnd_pos ?x = of_int (m * 2 ^ d) * 2 powi (- int d)"
        using \<open>expo ?x - 52 = - int d\<close> by (simp only: rnd_pos_def Let_def round_even_int)
      then show ?thesis by (simp add: power_int_minus)
    qed
  qed
  show ?thesis using pos [of n] pos [of "- n"] assms by (auto simp: rnd_def)
qed

lemma rnd_nonneg: "0 \<le> x \<Longrightarrow> 0 \<le> rnd x"
  using rnd_mono [of 0 x] by simp

lemma rnd_le_int: "x \<le> of_int n \<Longrightarrow> \<bar>n\<bar> \<le> 2 ^ 53 \<Longrightarrow> rnd x \<le> of_int n"
  using rnd_mono [of x "of_int n"] rnd_of_int [of n] by simp

lemma rnd_ge_int: "of_int n \<le> x \<Longrightarrow> \<bar>n\<bar> \<le> 2 ^ 53 \<Longrightarrow> of_int n \<le> rnd x"
  using rnd_mono [of "of_int n" x] rnd_of_int [of n] by simp

lemma toDouble_exact [simp]: "\<bar>n\<bar> \<le> 2 ^ 53 \<Longrightarrow> toDouble n = of_int n"
  by (simp add: toDouble_def rnd_of_int)

lemma toInt_of_int [simp]: "toInt (of_int n) = n"
  by (simp add: toInt_def)

lemma toInt_mono: "x \<le> y \<Longrightarrow> toInt x \<le> toInt y"
proof -
  assume "x \<le> y"
  moreover have "\<lceil>x\<rceil> \<le> \<lfloor>y\<rfloor>" if "x < 0" "0 \<le> y"
    using that by (meson ceiling_le_zero less_imp_le order_trans zero_le_floor)
  ultimately show ?thesis by (fastforce simp: toInt_def floor_mono ceiling_mono)
qed

lemma rnd_pos_error:
  assumes "0 < x"
  shows "\<bar>rnd_pos x - x\<bar> \<le> x / 2 ^ 53"
proof -
  let ?u = "(2::rat) powi (expo x - 52)"
  have "rnd_pos x - x = (of_int (round_even (x / ?u)) - x / ?u) * ?u"
    by (simp add: rnd_pos_def Let_def left_diff_distrib)
  then have "\<bar>rnd_pos x - x\<bar> = \<bar>of_int (round_even (x / ?u)) - x / ?u\<bar> * ?u" by (simp add: abs_mult)
  also have "\<dots> \<le> 1/2 * ?u" using round_even_bounds [of "x / ?u"] by (intro mult_right_mono) auto
  also have "\<dots> = 2 powi expo x / 2 ^ 53" by (simp add: power_int_diff)
  also have "\<dots> \<le> x / 2 ^ 53" using expo_bounds [OF assms] by (intro divide_right_mono) auto
  finally show ?thesis .
qed

lemma rnd_error: "0 \<le> x \<Longrightarrow> \<bar>rnd x - x\<bar> \<le> x / 2 ^ 53"
  using rnd_pos_error [of x] by (cases "x = 0") (auto simp: rnd_def)

lemma rnd_upper: "0 \<le> x \<Longrightarrow> rnd x \<le> x * (1 + 1 / 2 ^ 53)"
proof -
  assume "0 \<le> x"
  then have "rnd x - x \<le> x / 2 ^ 53" using rnd_error [of x] by (meson abs_le_D1)
  then show ?thesis by (simp add: ring_distribs)
qed

lemma rnd_pos_scaled:
  assumes "0 < x" "expo x = k" "x = of_int m * 2 powi (k - 52)"
  shows "rnd_pos x = x"
proof -
  have "x / 2 powi (k - 52) = of_int m" using assms(3) by simp
  then show ?thesis using assms(2,3) by (simp only: rnd_pos_def Let_def round_even_int)
qed

lemma rnd_pos_idem:
  assumes "0 < x"
  shows "rnd_pos (rnd_pos x) = rnd_pos x"
proof -
  let ?u = "(2::rat) powi (expo x - 52)"
  define m where "m = round_even (x / ?u)"
  have r: "rnd_pos x = of_int m * ?u" by (simp add: rnd_pos_def m_def Let_def)
  note rg = rnd_pos_range [OF assms] and rp = rnd_pos_pos [OF assms]
  show ?thesis
  proof (cases "rnd_pos x < 2 powi (expo x + 1)")
    case True
    then have "expo (rnd_pos x) = expo x" using rg rp by (intro expo_unique) auto
    then show ?thesis by (rule rnd_pos_scaled [OF rp _ r])
  next
    case False
    then have eq: "rnd_pos x = 2 powi (expo x + 1)" using rg by simp
    have "expo (rnd_pos x) = expo x + 1" using eq by (intro expo_unique) auto
    moreover have "rnd_pos x = of_int (2 ^ 52) * 2 powi (expo x + 1 - 52)"
      by (simp add: eq power_int_diff power_int_add)
    ultimately show ?thesis by (rule rnd_pos_scaled [OF rp])
  qed
qed

lemma rnd_idem [simp]: "rnd (rnd x) = rnd x"
  using rnd_pos_idem [of x] rnd_pos_idem [of "- x"] rnd_pos_pos [of x] rnd_pos_pos [of "- x"]
  by (auto simp: rnd_def)

end
