(* ===== verification/Density.thy ===== *)
theory Density
  imports Doubles
begin

text \<open>
  The density managers of \<open>dataStructures/densityManager.hpp\<close> and the overallocation controller of
  \<open>dataStructures/overallocationFactorManager.hpp\<close>.

  The three density classes have the same member functions over different constants. What the
  rebalancing manager relies on is stated once, as the locale \<open>density_manager\<close>: the maximum density
  lies between 0 and 1, so a node never accepts more blocks than it has entries, and a range
  requested for \<open>n\<close> blocks has at least \<open>n\<close> entries. Each class is an interpretation.
\<close>

section \<open>Density managers\<close>

record density =
  maxDensity :: "int \<Rightarrow> int \<Rightarrow> rat"
  minRangeLength :: "int \<Rightarrow> int"

text \<open>The code of the member functions, as it stands in each of the three classes.\<close>

definition maxDensityOf :: "rat \<Rightarrow> int \<Rightarrow> int \<Rightarrow> rat" where
  "maxDensityOf deltaTau level height =
     dsub 1 (ddiv (dmul deltaTau (toDouble level)) (toDouble height))"

definition minRangeLengthOf :: "rat \<Rightarrow> int \<Rightarrow> int" where
  "minRangeLengthOf growingFactor numberOfBlocks = toInt (dmul (toDouble numberOfBlocks) growingFactor)"

definition deltaTauOf :: "rat \<Rightarrow> rat" where
  "deltaTauOf tauMax = dsub 1 tauMax"

definition DensityOne :: density where
  "DensityOne = \<lparr>maxDensity = maxDensityOf (deltaTauOf (rnd (9/10))), minRangeLength = minRangeLengthOf (rnd (18/10))\<rparr>"

definition DensityTwo :: density where
  "DensityTwo = \<lparr>maxDensity = maxDensityOf (deltaTauOf (rnd (9/10))), minRangeLength = minRangeLengthOf (rnd (12/10))\<rparr>"

definition DensityThree :: density where
  "DensityThree = \<lparr>maxDensity = maxDensityOf (deltaTauOf (rnd (7/10))), minRangeLength = minRangeLengthOf (rnd (18/10))\<rparr>"

section \<open>The overallocation factor\<close>

record OverallocationFactorManager =
  overallocationFactor :: rat
  totalInPlaceInserts :: nat
  totalOutOfPlaceInserts :: nat
  currentInPlaceInserts :: nat

definition MinOverallocationFactor :: rat where "MinOverallocationFactor = rnd (11/10)"

definition MaxOverallocationFactor :: rat where "MaxOverallocationFactor = rnd (28/10)"

definition MaxRelativeDifferencePerStep :: rat where "MaxRelativeDifferencePerStep = rnd (75/100)"

definition TargetNumberOfInPlaceInserts :: nat where "TargetNumberOfInPlaceInserts = 500"

definition newOverallocationFactorManager :: OverallocationFactorManager where
  "newOverallocationFactorManager = \<lparr>overallocationFactor = MaxOverallocationFactor, totalInPlaceInserts = 0,
     totalOutOfPlaceInserts = 0, currentInPlaceInserts = TargetNumberOfInPlaceInserts\<rparr>"

definition registerInPlaceInsert :: "OverallocationFactorManager \<Rightarrow> OverallocationFactorManager" where
  "registerInPlaceInsert m =
     m\<lparr>currentInPlaceInserts := currentInPlaceInserts m + 1, totalInPlaceInserts := totalInPlaceInserts m + 1\<rparr>"

definition relativeDifferenceOf :: "nat \<Rightarrow> rat" where
  "relativeDifferenceOf diff =
     min MaxRelativeDifferencePerStep
       (ddiv (toDouble (int diff)) (toDouble (int TargetNumberOfInPlaceInserts)))"

definition getNewOverallocationFactor ::
  "OverallocationFactorManager \<Rightarrow> rat \<times> OverallocationFactorManager" where
  "getNewOverallocationFactor m =
     (let factor = overallocationFactor m;
          newOverallocationFactor =
            (if currentInPlaceInserts m < TargetNumberOfInPlaceInserts
             then let diff = TargetNumberOfInPlaceInserts - currentInPlaceInserts m;
                      relativeDifference = relativeDifferenceOf diff
                  in dadd factor (dmul relativeDifference (dsub MaxOverallocationFactor factor))
             else let diff = currentInPlaceInserts m - TargetNumberOfInPlaceInserts;
                      relativeDifference = relativeDifferenceOf diff
                  in dsub factor (dmul relativeDifference (dsub factor MinOverallocationFactor)))
      in (newOverallocationFactor,
          m\<lparr>currentInPlaceInserts := 0, totalOutOfPlaceInserts := totalOutOfPlaceInserts m + 1,
            overallocationFactor := newOverallocationFactor\<rparr>))"

section \<open>What the density managers promise\<close>

locale density_manager =
  fixes dm :: density
  assumes max_density: "0 \<le> level \<Longrightarrow> level \<le> height \<Longrightarrow> 0 < height \<Longrightarrow> height \<le> 2 ^ 53 \<Longrightarrow>
      0 \<le> maxDensity dm level height \<and> maxDensity dm level height \<le> 1"
    and max_density_antimono: "0 \<le> level \<Longrightarrow> level \<le> level' \<Longrightarrow> level' \<le> height \<Longrightarrow> 0 < height \<Longrightarrow> height \<le> 2 ^ 53 \<Longrightarrow>
      maxDensity dm level' height \<le> maxDensity dm level height"
    and min_range: "0 \<le> n \<Longrightarrow> n \<le> 2 ^ 52 \<Longrightarrow> n \<le> minRangeLength dm n \<and> minRangeLength dm n \<le> 2 * n"
begin

text \<open>A threshold computed from the density never exceeds the number of entries it is scaled to.\<close>

lemma threshold_bounds:
  assumes "0 \<le> level" "level \<le> height" "0 < height" "height \<le> 2 ^ 53"
    and "0 \<le> w" "w \<le> 2 ^ 53" "0 \<le> l" "l \<le> 2 ^ 53" "w * l \<le> 2 ^ 53"
  shows "0 \<le> toInt (dmul (dmul (maxDensity dm level height) (toDouble w)) (toDouble l)) \<and>
         toInt (dmul (dmul (maxDensity dm level height) (toDouble w)) (toDouble l)) \<le> w * l"
proof -
  let ?d = "maxDensity dm level height"
  have d: "0 \<le> ?d" "?d \<le> 1" using max_density assms by auto
  have wd: "toDouble w = of_int w" "toDouble l = of_int l" using assms by simp_all
  have "?d * of_int w \<le> of_int w" using d assms by (simp add: mult_left_le_one_le)
  then have p: "0 \<le> rnd (?d * of_int w)" "rnd (?d * of_int w) \<le> of_int w"
    using d assms by (auto intro: rnd_nonneg rnd_le_int)
  have "rnd (?d * of_int w) * of_int l \<le> of_int (w * l)"
    using p assms by (simp add: mult_right_mono)
  then have q: "0 \<le> rnd (rnd (?d * of_int w) * of_int l)" "rnd (rnd (?d * of_int w) * of_int l) \<le> of_int (w * l)"
    using p assms by (auto intro!: rnd_nonneg rnd_le_int simp del: of_int_mult)
  then show ?thesis
    using toInt_mono [OF q(1)] toInt_mono [OF q(2)] toInt_of_int [of 0]
    by (simp add: dmul_def wd del: of_int_mult)
qed

end

lemma rnd_between: "of_int a \<le> x \<Longrightarrow> x \<le> of_int b \<Longrightarrow> \<bar>a\<bar> \<le> 2 ^ 53 \<Longrightarrow> \<bar>b\<bar> \<le> 2 ^ 53 \<Longrightarrow> of_int a \<le> rnd x \<and> rnd x \<le> of_int b"
  by (simp add: rnd_ge_int rnd_le_int)

lemma density_class:
  assumes "0 \<le> deltaTau" "deltaTau \<le> 1" "1 \<le> growingFactor" "growingFactor \<le> 2"
    and "maxDensity dm = maxDensityOf deltaTau" "minRangeLength dm = minRangeLengthOf growingFactor"
  shows "density_manager dm"
proof
  have frac: "0 \<le> ddiv (dmul deltaTau (toDouble level)) (toDouble height) \<and>
      ddiv (dmul deltaTau (toDouble level)) (toDouble height) \<le> 1"
    if h: "0 \<le> level" "level \<le> height" "0 < height" "height \<le> 2 ^ 53" for level height
  proof -
    have "deltaTau * of_int level \<le> of_int level" using assms(1,2) h by (simp add: mult_left_le_one_le)
    then have "0 \<le> rnd (deltaTau * of_int level)" "rnd (deltaTau * of_int level) \<le> of_int level"
      using assms(1) h by (auto intro: rnd_nonneg rnd_le_int)
    moreover have "(of_int level :: rat) \<le> of_int height" using h by simp
    ultimately have "0 \<le> rnd (deltaTau * of_int level) / of_int height" "rnd (deltaTau * of_int level) / of_int height \<le> 1"
      using h by (auto simp: field_simps)
    then have "0 \<le> rnd (rnd (deltaTau * of_int level) / of_int height)"
      "rnd (rnd (deltaTau * of_int level) / of_int height) \<le> 1"
      using rnd_le_int [of _ 1] by (auto intro: rnd_nonneg)
    then show ?thesis using h by (simp add: ddiv_def dmul_def)
  qed
  show "0 \<le> maxDensity dm level height \<and> maxDensity dm level height \<le> 1"
    if "0 \<le> level" "level \<le> height" "0 < height" "height \<le> 2 ^ 53" for level height
    using frac [OF that] rnd_between [of 0 "1 - ddiv (dmul deltaTau (toDouble level)) (toDouble height)" 1]
    by (simp add: assms(5) maxDensityOf_def dsub_def)
  show "maxDensity dm level' height \<le> maxDensity dm level height"
    if h: "0 \<le> level" "level \<le> level'" "level' \<le> height" "0 < height" "height \<le> 2 ^ 53" for level level' height
  proof -
    have "deltaTau * of_int level \<le> deltaTau * of_int level'" using assms(1) h by (simp add: mult_left_mono)
    then show ?thesis
      using h by (auto simp: assms(5) maxDensityOf_def dsub_def ddiv_def dmul_def
          intro!: rnd_mono diff_left_mono divide_right_mono)
  qed
  show "n \<le> minRangeLength dm n \<and> minRangeLength dm n \<le> 2 * n" if n: "0 \<le> n" "n \<le> 2 ^ 52" for n
  proof -
    have "of_int n * 1 \<le> of_int n * growingFactor" "of_int n * growingFactor \<le> of_int n * 2"
      using assms(3,4) n by (intro mult_left_mono; simp)+
    then have "of_int n \<le> rnd (of_int n * growingFactor)" "rnd (of_int n * growingFactor) \<le> of_int (2 * n)"
      using n rnd_ge_int [of n] rnd_le_int [of _ "2 * n"] by auto
    then show ?thesis
      using n toInt_mono [of "of_int n"] toInt_mono [of _ "of_int (2 * n)"]
      by (auto simp: assms(6) minRangeLengthOf_def dmul_def simp del: of_int_mult)
  qed
qed

lemma deltaTau_range: "0 \<le> x \<Longrightarrow> x \<le> 1 \<Longrightarrow> 0 \<le> deltaTauOf (rnd x) \<and> deltaTauOf (rnd x) \<le> 1"
  using rnd_between [of 0 x 1] rnd_between [of 0 "1 - rnd x" 1] by (auto simp: deltaTauOf_def dsub_def)

interpretation densityOne: density_manager DensityOne
  by (rule density_class [of "deltaTauOf (rnd (9/10))" "rnd (18/10)"])
    (use deltaTau_range [of "9/10"] rnd_between [of 1 "18/10" 2] in \<open>auto simp: DensityOne_def\<close>)

interpretation densityTwo: density_manager DensityTwo
  by (rule density_class [of "deltaTauOf (rnd (9/10))" "rnd (12/10)"])
    (use deltaTau_range [of "9/10"] rnd_between [of 1 "12/10" 2] in \<open>auto simp: DensityTwo_def\<close>)

interpretation densityThree: density_manager DensityThree
  by (rule density_class [of "deltaTauOf (rnd (7/10))" "rnd (18/10)"])
    (use deltaTau_range [of "7/10"] rnd_between [of 1 "18/10" 2] in \<open>auto simp: DensityThree_def\<close>)

section \<open>The overallocation factor stays within its bounds\<close>

definition factorInv :: "OverallocationFactorManager \<Rightarrow> bool" where
  "factorInv m \<longleftrightarrow> rnd (overallocationFactor m) = overallocationFactor m \<and>
     MinOverallocationFactor \<le> overallocationFactor m \<and> overallocationFactor m \<le> MaxOverallocationFactor"

lemma relativeDifference_bounds: "0 \<le> relativeDifferenceOf n \<and> relativeDifferenceOf n \<le> 76/100"
proof -
  have "rnd (75/100) \<le> (76/100 :: rat)" "0 \<le> rnd (75/100)"
    using rnd_upper [of "75/100"] by (auto intro: rnd_nonneg)
  moreover have "0 \<le> ddiv (toDouble (int n)) (toDouble (int TargetNumberOfInPlaceInserts))"
    by (auto simp: ddiv_def toDouble_def intro!: rnd_nonneg divide_nonneg_nonneg)
  ultimately show ?thesis by (simp add: relativeDifferenceOf_def MaxRelativeDifferencePerStep_def)
qed

text \<open>A step covers at most three quarters of the distance, and rounding cannot add the last quarter.\<close>

lemma damped_step:
  assumes "0 \<le> r" "r \<le> 76/100" "0 \<le> d"
  shows "0 \<le> dmul r (rnd d) \<and> dmul r (rnd d) \<le> d"
proof -
  have n: "0 \<le> rnd d" using assms by (intro rnd_nonneg) auto
  have e1: "rnd d \<le> d * (1 + 1 / 2 ^ 53)" by (rule rnd_upper [OF assms(3)])
  have p: "0 \<le> r * rnd d" using assms n by simp
  have "rnd (r * rnd d) \<le> r * rnd d * (1 + 1 / 2 ^ 53)"
    by (rule rnd_upper [OF p])
  also have "\<dots> \<le> 76/100 * (d * (1 + 1 / 2 ^ 53)) * (1 + 1 / 2 ^ 53)"
    using assms n e1 by (intro mult_right_mono mult_mono) auto
  also have "\<dots> = (76/100 * (1 + 1 / 2 ^ 53) * (1 + 1 / 2 ^ 53)) * d" by simp
  also have "\<dots> \<le> 1 * d" using assms(3) by (intro mult_right_mono) (auto simp: field_simps)
  finally show ?thesis using p by (simp add: dmul_def rnd_nonneg)
qed

lemma overallocation_init: "factorInv newOverallocationFactorManager"
proof -
  have "rnd (11/10) \<le> (rnd (28/10) :: rat)" by (rule rnd_mono) simp
  then show ?thesis
    by (simp add: factorInv_def newOverallocationFactorManager_def MinOverallocationFactor_def MaxOverallocationFactor_def)
qed

lemma overallocation_register: "factorInv m \<Longrightarrow> factorInv (registerInPlaceInsert m)"
  by (simp add: factorInv_def registerInPlaceInsert_def)

lemma overallocation_step:
  assumes inv: "factorInv m" and res: "getNewOverallocationFactor m = (factor, m')"
  shows "factorInv m'" "factor = overallocationFactor m'" "currentInPlaceInserts m' = 0"
    "currentInPlaceInserts m < TargetNumberOfInPlaceInserts \<Longrightarrow> overallocationFactor m \<le> factor"
    "TargetNumberOfInPlaceInserts \<le> currentInPlaceInserts m \<Longrightarrow> factor \<le> overallocationFactor m"
proof -
  let ?f = "overallocationFactor m"
  have f: "rnd ?f = ?f" "MinOverallocationFactor \<le> ?f" "?f \<le> MaxOverallocationFactor"
    using inv by (auto simp: factorInv_def)
  have c: "rnd MaxOverallocationFactor = MaxOverallocationFactor" "rnd MinOverallocationFactor = MinOverallocationFactor"
    by (simp_all add: MaxOverallocationFactor_def MinOverallocationFactor_def)
  show "factor = overallocationFactor m'" "currentInPlaceInserts m' = 0"
    using res by (auto simp: getNewOverallocationFactor_def Let_def)
  have up: "rnd (dadd ?f t) = dadd ?f t \<and> ?f \<le> dadd ?f t \<and> dadd ?f t \<le> MaxOverallocationFactor"
    if "t = dmul (relativeDifferenceOf n) (dsub MaxOverallocationFactor ?f)" for t n
  proof -
    have t: "0 \<le> t" "t \<le> MaxOverallocationFactor - ?f"
      using damped_step [of "relativeDifferenceOf n" "MaxOverallocationFactor - ?f"] relativeDifference_bounds [of n] f
      by (auto simp: that dsub_def)
    show ?thesis
      using rnd_mono [of ?f "?f + t"] rnd_mono [of "?f + t" MaxOverallocationFactor] t f c by (simp add: dadd_def)
  qed
  have down: "rnd (dsub ?f t) = dsub ?f t \<and> dsub ?f t \<le> ?f \<and> MinOverallocationFactor \<le> dsub ?f t"
    if "t = dmul (relativeDifferenceOf n) (dsub ?f MinOverallocationFactor)" for t n
  proof -
    have t: "0 \<le> t" "t \<le> ?f - MinOverallocationFactor"
      using damped_step [of "relativeDifferenceOf n" "?f - MinOverallocationFactor"] relativeDifference_bounds [of n] f
      by (auto simp: that dsub_def)
    show ?thesis
      using rnd_mono [of "?f - t" ?f] rnd_mono [of MinOverallocationFactor "?f - t"] t f c by (simp add: dsub_def)
  qed
  show "factorInv m'"
    using res up [OF refl] order_trans [OF f(2)] down [OF refl] order_trans [OF _ f(3)]
    by (auto simp: getNewOverallocationFactor_def factorInv_def Let_def split: if_splits)
  show "?f \<le> factor" if "currentInPlaceInserts m < TargetNumberOfInPlaceInserts"
    using res up [OF refl] that by (auto simp: getNewOverallocationFactor_def Let_def)
  show "factor \<le> ?f" if "TargetNumberOfInPlaceInserts \<le> currentInPlaceInserts m"
    using res down [OF refl] that by (auto simp: getNewOverallocationFactor_def Let_def)
qed

section \<open>Properties\<close>

text \<open>C26. For each of the three density managers, the number of blocks a node may hold lies between 0 and the
  number of entries below it, however the double computation rounds.\<close>

theorem density_threshold_fits:
  assumes "dm \<in> {DensityOne, DensityTwo, DensityThree}" and "0 \<le> level" "level \<le> height" "0 < height" "height \<le> 2 ^ 53"
    and "0 \<le> w" "w \<le> 2 ^ 53" "0 \<le> l" "l \<le> 2 ^ 53" "w * l \<le> 2 ^ 53"
  shows "0 \<le> toInt (dmul (dmul (maxDensity dm level height) (toDouble w)) (toDouble l)) \<and>
         toInt (dmul (dmul (maxDensity dm level height) (toDouble w)) (toDouble l)) \<le> w * l"
  using assms(1) densityOne.threshold_bounds [OF assms(2-)] densityTwo.threshold_bounds [OF assms(2-)]
    densityThree.threshold_bounds [OF assms(2-)] by auto

theorem density_threshold_fits_witness:
  "toInt (dmul (dmul (maxDensity DensityThree 14 14) (toDouble 2048)) (toDouble 16384)) \<le> 2048 * 16384"
  using density_threshold_fits [of DensityThree 14 14 2048 16384] by simp

text \<open>C27. The range a density manager asks for when the whole array is rebalanced has room for all blocks and at
  most twice as many entries.\<close>

theorem density_range_fits:
  assumes "dm \<in> {DensityOne, DensityTwo, DensityThree}" and "0 \<le> n" "n \<le> 2 ^ 52"
  shows "n \<le> minRangeLength dm n \<and> minRangeLength dm n \<le> 2 * n"
  using assms(1) densityOne.min_range [OF assms(2-)] densityTwo.min_range [OF assms(2-)]
    densityThree.min_range [OF assms(2-)] by auto

theorem density_range_fits_witness: "1000 \<le> minRangeLength DensityTwo 1000 \<and> minRangeLength DensityTwo 1000 \<le> 2000"
  using density_range_fits [of DensityTwo 1000] by simp

text \<open>The states an overallocation controller can reach.\<close>

inductive factorSteps :: "OverallocationFactorManager \<Rightarrow> bool" where
  factor_new: "factorSteps newOverallocationFactorManager"
| factor_in_place: "factorSteps m \<Longrightarrow> factorSteps (registerInPlaceInsert m)"
| factor_out_of_place: "factorSteps m \<Longrightarrow> getNewOverallocationFactor m = (factor, m') \<Longrightarrow> factorSteps m'"

lemma factorSteps_inv: "factorSteps m \<Longrightarrow> factorInv m"
  by (induction rule: factorSteps.induct) (auto intro: overallocation_init overallocation_register overallocation_step(1))

text \<open>C28. Whatever sequence of in-place and out-of-place inserts happens, the overallocation factor stays
  between its bounds; a shortage of in-place inserts never lowers it, a surplus never raises it, and the
  counter of in-place inserts restarts.\<close>

theorem overallocation_controlled:
  assumes "factorSteps m" "getNewOverallocationFactor m = (factor, m')"
  shows "MinOverallocationFactor \<le> factor \<and> factor \<le> MaxOverallocationFactor \<and> factor = overallocationFactor m' \<and>
    currentInPlaceInserts m' = 0 \<and>
    (if currentInPlaceInserts m < TargetNumberOfInPlaceInserts then overallocationFactor m \<le> factor
     else factor \<le> overallocationFactor m)"
  using overallocation_step [OF factorSteps_inv [OF assms(1)] assms(2)] by (auto simp: factorInv_def)

theorem overallocation_controlled_witness:
  "\<exists>factor m'. getNewOverallocationFactor (registerInPlaceInsert newOverallocationFactorManager) = (factor, m') \<and>
     MinOverallocationFactor \<le> factor \<and> factor \<le> MaxOverallocationFactor"
proof -
  let ?m = "registerInPlaceInsert newOverallocationFactorManager"
  obtain factor m' where r: "getNewOverallocationFactor ?m = (factor, m')" by (cases "getNewOverallocationFactor ?m")
  moreover have "factorSteps ?m" by (intro factor_in_place factor_new)
  ultimately show ?thesis using overallocation_controlled [of ?m factor m'] by blast
qed

end
