(* ===== verification/Bucket_Map.thy ===== *)
theory Bucket_Map
  imports Sds_Types "HOL-Library.AList"
begin

text \<open>
  The map of nodes to recount: class \<open>ConcurrentBucketMap\<close> of \<open>dataStructures/concurrentBucketMap.hpp\<close>.

  Each bucket's \<open>std::unordered_map\<close> is an association list without duplicate keys. What the standard
  leaves open is a parameter, the record \<open>runtime\<close>: the hash function, and the order in which a
  parallel loop over the entries performs its bodies (\<open>schedule\<close>, a permutation of the entries).
  A bucket's mutex makes each \<open>insert\<close> atomic, so a parallel region that inserts is a sequence of
  inserts in some order; \<open>bm.fold_ins\<close> shows that the order does not matter for the contents.
\<close>

record runtime =
  stdHash :: "int \<Rightarrow> nat"
  schedule :: "(int \<times> bool) list \<Rightarrow> (int \<times> bool) list"

definition okRuntime :: "runtime \<Rightarrow> bool" where
  "okRuntime R \<longleftrightarrow> (\<forall>xs. distinct (map fst xs) \<longrightarrow> distinct (map fst (schedule R xs)) \<and> set (schedule R xs) = set xs)"

record BucketMap =
  buckets :: "(int \<times> bool) list list"
  bmThreads :: nat

definition NumberOfBucketsFactor :: nat where "NumberOfBucketsFactor = 10"

definition newBucketMap :: "nat \<Rightarrow> BucketMap" where
  "newBucketMap numThreads = \<lparr>buckets = replicate (NumberOfBucketsFactor * numThreads) [], bmThreads = numThreads\<rparr>"

definition getBucket :: "runtime \<Rightarrow> BucketMap \<Rightarrow> int \<Rightarrow> nat option" where
  "getBucket R m index = (if buckets m = [] then None else Some (stdHash R index mod length (buckets m)))"

definition bucketInsert :: "int \<times> bool \<Rightarrow> (int \<times> bool) list \<Rightarrow> (int \<times> bool) list" where
  "bucketInsert newEntry mp =
     (case map_of mp (fst newEntry) of
        None \<Rightarrow> newEntry # mp
      | Some old \<Rightarrow> if snd newEntry \<and> \<not> old then AList.update (fst newEntry) True mp else mp)"

definition bmInsert :: "runtime \<Rightarrow> int \<times> bool \<Rightarrow> BucketMap \<Rightarrow> BucketMap option" where
  "bmInsert R newEntry m = do {
     bucket \<leftarrow> getBucket R m (fst newEntry);
     mp \<leftarrow> nth_opt (buckets m) bucket;
     bs \<leftarrow> upd_opt (buckets m) bucket (bucketInsert newEntry mp);
     Some (m\<lparr>buckets := bs\<rparr>) }"

definition executeInParallel :: "runtime \<Rightarrow> BucketMap \<Rightarrow> (int \<times> bool \<Rightarrow> 's \<Rightarrow> 's option) \<Rightarrow> 's \<Rightarrow> 's option" where
  "executeInParallel R m f s = foldM f (schedule R (concat (buckets m))) s"

definition bmNumberOfElements :: "BucketMap \<Rightarrow> int" where
  "bmNumberOfElements m = (\<Sum>b\<leftarrow>buckets m. int (length b))"

definition bmClear :: "BucketMap \<Rightarrow> BucketMap" where
  "bmClear m = m\<lparr>buckets := map (\<lambda>_. []) (buckets m)\<rparr>"

section \<open>Contents and invariant\<close>

definition bmEntries :: "BucketMap \<Rightarrow> (int \<times> bool) list" where
  "bmEntries m = concat (buckets m)"

definition bmLookup :: "BucketMap \<Rightarrow> int \<rightharpoonup> bool" where
  "bmLookup m = map_of (bmEntries m)"

definition bmInv :: "runtime \<Rightarrow> BucketMap \<Rightarrow> bool" where
  "bmInv R m \<longleftrightarrow> buckets m \<noteq> [] \<and>
     (\<forall>i<length (buckets m). distinct (map fst (buckets m ! i)) \<and>
        (\<forall>(k, v)\<in>set (buckets m ! i). stdHash R k mod length (buckets m) = i))"

text \<open>What a client of the map relies on: an insertion succeeds and takes the disjunction of the flags.\<close>

locale recount_map =
  fixes inv :: "'m \<Rightarrow> bool" and ins :: "int \<times> bool \<Rightarrow> 'm \<Rightarrow> 'm option" and look :: "'m \<Rightarrow> int \<Rightarrow> bool option"
  assumes ins_ok: "inv m \<Longrightarrow> \<exists>m'. ins (k, b) m = Some m' \<and> inv m' \<and> look m' = (look m)(k \<mapsto> b \<or> look m k = Some True)"
begin

lemma fold_ins:
  assumes "inv m"
  shows "\<exists>m'. foldM ins xs m = Some m' \<and> inv m' \<and>
     (\<forall>k. look m' k = (if look m k = None \<and> k \<notin> fst ` set xs then None
                        else Some (look m k = Some True \<or> (k, True) \<in> set xs)))"
  using assms
proof (induction xs arbitrary: m)
  case Nil
  have "look m k = (if look m k = None then None else Some (look m k = Some True))" for k
    by (cases "look m k") auto
  then show ?case using Nil by (intro exI [of _ m]) auto
next
  case (Cons x xs)
  obtain k b where x: "x = (k, b)" by (cases x)
  obtain m1 where m1: "ins (k, b) m = Some m1" "inv m1" "look m1 = (look m)(k \<mapsto> b \<or> look m k = Some True)"
    using ins_ok [OF Cons.prems] by blast
  obtain m2 where m2: "foldM ins xs m1 = Some m2" "inv m2"
    "\<forall>k. look m2 k = (if look m1 k = None \<and> k \<notin> fst ` set xs then None
                        else Some (look m1 k = Some True \<or> (k, True) \<in> set xs))"
    using Cons.IH [OF m1(2)] by blast
  have "look m2 j = (if look m j = None \<and> j \<notin> fst ` set (x # xs) then None
      else Some (look m j = Some True \<or> (j, True) \<in> set (x # xs)))" for j
    using m2(3) [rule_format, of j] by (cases "j = k") (auto simp: x m1(3))
  then show ?case using m1(1) m2(1,2) x by auto
qed

text \<open>The contents after a set of concurrent insertions do not depend on their order.\<close>

lemma order_irrelevant:
  assumes "inv m" "set xs = set ys"
  obtains m1 m2 where "foldM ins xs m = Some m1" "foldM ins ys m = Some m2" "look m1 = look m2"
proof -
  obtain m1 m2 where "foldM ins xs m = Some m1" "foldM ins ys m = Some m2"
    "\<forall>k. look m1 k = (if look m k = None \<and> k \<notin> fst ` set xs then None
                        else Some (look m k = Some True \<or> (k, True) \<in> set xs))"
    "\<forall>k. look m2 k = (if look m k = None \<and> k \<notin> fst ` set ys then None
                        else Some (look m k = Some True \<or> (k, True) \<in> set ys))"
    using fold_ins [OF assms(1)] by metis
  then show ?thesis using that assms(2) by (metis ext)
qed

end

lemma bucketInsert_lookup:
  "map_of (bucketInsert (k, b) mp) = (map_of mp)(k \<mapsto> b \<or> map_of mp k = Some True)"
  by (rule ext) (auto simp: bucketInsert_def update_conv' split: option.split)

lemma bucketInsert_keys: "fst ` set (bucketInsert e mp) = insert (fst e) (fst ` set mp)"
proof (cases "map_of mp (fst e)")
  case (Some v)
  then have "fst e \<in> fst ` set mp" by (auto dest: map_of_SomeD intro: rev_image_eqI)
  then show ?thesis using Some dom_update [of "fst e" True mp] by (auto simp: bucketInsert_def dom_map_of_conv_image_fst)
qed (simp add: bucketInsert_def)

lemma bucketInsert_distinct: "distinct (map fst mp) \<Longrightarrow> distinct (map fst (bucketInsert e mp))"
  by (auto simp: bucketInsert_def distinct_update map_of_eq_None_iff split: option.split)

lemma map_of_concat:
  assumes "j < length bss" and "\<And>i. i < length bss \<Longrightarrow> i \<noteq> j \<Longrightarrow> map_of (bss ! i) k = None"
  shows "map_of (concat bss) k = map_of (bss ! j) k"
  using assms
proof (induction bss arbitrary: j)
  case (Cons b bss)
  show ?case
  proof (cases j)
    case 0
    have "map_of (concat bss) k = None"
    proof -
      have "map_of bs k = None" if h: "bs \<in> set bss" for bs
      proof -
        obtain i where "i < length bss" "bs = bss ! i" using h by (auto simp: in_set_conv_nth)
        then show ?thesis using Cons.prems(2) [of "Suc i"] 0 by simp
      qed
      then have "k \<notin> fst ` set bs" if "bs \<in> set bss" for bs using that by (simp add: map_of_eq_None_iff)
      then show ?thesis by (auto simp: map_of_eq_None_iff)
    qed
    then show ?thesis using 0 by (simp add: map_add_def split: option.split)
  next
    case (Suc j')
    have "map_of b k = None" using Cons.prems(2) [of 0] Suc by simp
    moreover have "map_of (concat bss) k = map_of (bss ! j') k"
    proof (rule Cons.IH)
      show "j' < length bss" using Cons.prems(1) Suc by simp
      show "map_of (bss ! i) k = None" if "i < length bss" "i \<noteq> j'" for i
        using Cons.prems(2) [of "Suc i"] that Suc by simp
    qed
    ultimately show ?thesis using Suc by (auto simp: map_add_def split: option.split)
  qed
qed simp

lemma bmLookup_bucket:
  assumes "bmInv R m"
  shows "bmLookup m k = map_of (buckets m ! (stdHash R k mod length (buckets m))) k"
  unfolding bmLookup_def bmEntries_def
proof (rule map_of_concat)
  have "0 < length (buckets m)" using assms by (simp add: bmInv_def)
  then show "stdHash R k mod length (buckets m) < length (buckets m)" by simp
  fix i assume i: "i < length (buckets m)" "i \<noteq> stdHash R k mod length (buckets m)"
  have "\<forall>(k, v)\<in>set (buckets m ! i). stdHash R k mod length (buckets m) = i"
    using assms i(1) by (simp add: bmInv_def)
  then show "map_of (buckets m ! i) k = None" using i(2) by (force simp: map_of_eq_None_iff)
qed

lemma bmInsert_ok:
  assumes inv: "bmInv R m"
  shows "\<exists>m'. bmInsert R (k, b) m = Some m' \<and> bmInv R m' \<and>
     bmLookup m' = (bmLookup m)(k \<mapsto> b \<or> bmLookup m k = Some True)"
proof -
  let ?n = "length (buckets m)" and ?i = "stdHash R k mod length (buckets m)"
  have n: "0 < ?n" using inv by (simp add: bmInv_def)
  define m' where "m' = m\<lparr>buckets := (buckets m)[?i := bucketInsert (k, b) (buckets m ! ?i)]\<rparr>"
  have ins: "bmInsert R (k, b) m = Some m'"
    using n by (simp add: bmInsert_def getBucket_def m'_def)
  have hash: "stdHash R j mod ?n = ?i" if "(j, v) \<in> set (bucketInsert (k, b) (buckets m ! ?i))" for j v
  proof -
    have "j \<in> insert k (fst ` set (buckets m ! ?i))"
      using that bucketInsert_keys [of "(k, b)" "buckets m ! ?i"] by (metis fst_conv image_eqI)
    moreover have "\<forall>(k, v)\<in>set (buckets m ! ?i). stdHash R k mod ?n = ?i" using inv n by (simp add: bmInv_def)
    ultimately show ?thesis by auto
  qed
  have inv': "bmInv R m'"
    unfolding bmInv_def
  proof (intro conjI allI impI)
    show "buckets m' \<noteq> []" using n by (auto simp: m'_def)
    fix i assume i: "i < length (buckets m')"
    have old: "distinct (map fst (buckets m ! i))" "\<forall>(k, v)\<in>set (buckets m ! i). stdHash R k mod ?n = i"
      using inv i by (auto simp: bmInv_def m'_def)
    show "distinct (map fst (buckets m' ! i))"
      using old(1) i by (cases "i = ?i") (auto simp: m'_def bucketInsert_distinct)
    show "\<forall>(k, v)\<in>set (buckets m' ! i). stdHash R k mod length (buckets m') = i"
      using old(2) i hash by (cases "i = ?i") (auto simp: m'_def)
  qed
  have "bmLookup m' j = ((bmLookup m)(k \<mapsto> b \<or> bmLookup m k = Some True)) j" for j
  proof -
    have "bmLookup m' j = map_of (buckets m' ! (stdHash R j mod ?n)) j"
      using bmLookup_bucket [OF inv', of j] by (simp add: m'_def)
    then show ?thesis
      using n bmLookup_bucket [OF inv, of j] bmLookup_bucket [OF inv, of k]
      by (cases "stdHash R j mod ?n = ?i") (auto simp: m'_def nth_list_update bucketInsert_lookup)
  qed
  then show ?thesis using ins inv' by blast
qed

interpretation bm: recount_map "bmInv R" "bmInsert R" bmLookup for R
  by unfold_locales (rule bmInsert_ok)

lemma bmInv_new: "0 < n \<Longrightarrow> bmInv R (newBucketMap n) \<and> bmLookup (newBucketMap n) = Map.empty"
  by (auto simp: bmInv_def newBucketMap_def NumberOfBucketsFactor_def bmLookup_def bmEntries_def fun_eq_iff
      map_of_eq_None_iff)

lemma bmClear_ok: "bmInv R m \<Longrightarrow> bmInv R (bmClear m) \<and> bmLookup (bmClear m) = Map.empty"
  by (auto simp: bmInv_def bmClear_def bmLookup_def bmEntries_def fun_eq_iff map_of_eq_None_iff)

lemma distinct_concat_keys:
  assumes "\<And>i. i < length bss \<Longrightarrow> distinct (map fst (bss ! i))"
    and "\<And>i j k. i < length bss \<Longrightarrow> j < length bss \<Longrightarrow> k \<in> fst ` set (bss ! i) \<Longrightarrow> k \<in> fst ` set (bss ! j) \<Longrightarrow> i = j"
  shows "distinct (map fst (concat bss))"
  using assms
proof (induction bss)
  case (Cons b bss)
  have "distinct (map fst (concat bss))"
  proof (rule Cons.IH)
    show "distinct (map fst (bss ! i))" if "i < length bss" for i
      using Cons.prems(1) [of "Suc i"] that by simp
    show "i = j" if "i < length bss" "j < length bss" "k \<in> fst ` set (bss ! i)" "k \<in> fst ` set (bss ! j)" for i j k
      using Cons.prems(2) [of "Suc i" "Suc j" k] that by simp
  qed
  moreover have "fst ` set b \<inter> fst ` set (concat bss) = {}"
  proof -
    have False if h: "k \<in> fst ` set b" "bs \<in> set bss" "k \<in> fst ` set bs" for k bs
    proof -
      obtain i where "i < length bss" "bs = bss ! i" using h(2) by (auto simp: in_set_conv_nth)
      then show False using Cons.prems(2) [of 0 "Suc i" k] h by simp
    qed
    then show ?thesis by (fastforce simp: image_iff)
  qed
  moreover have "distinct (map fst b)" using Cons.prems(1) [of 0] by simp
  ultimately show ?case by simp
qed simp

lemma bmInv_hash:
  "bmInv R m \<Longrightarrow> i < length (buckets m) \<Longrightarrow> k \<in> fst ` set (buckets m ! i) \<Longrightarrow> stdHash R k mod length (buckets m) = i"
  by (fastforce simp: bmInv_def)

lemma bmEntries_distinct:
  assumes "bmInv R m"
  shows "distinct (map fst (bmEntries m))"
  unfolding bmEntries_def
proof (rule distinct_concat_keys)
  show "distinct (map fst (buckets m ! i))" if "i < length (buckets m)" for i
    using assms that by (simp add: bmInv_def)
qed (use bmInv_hash [OF assms] in metis)

lemma bmEntries_lookup: "bmInv R m \<Longrightarrow> (k, v) \<in> set (bmEntries m) \<longleftrightarrow> bmLookup m k = Some v"
  by (simp add: bmLookup_def bmEntries_distinct)

lemma int_sum_list: "int (sum_list (map length bss)) = (\<Sum>b\<leftarrow>bss. int (length b))"
  by (induction bss) auto

lemma bmNumberOfElements_ok:
  assumes "bmInv R m"
  shows "bmNumberOfElements m = int (card (dom (bmLookup m)))"
proof -
  have "bmNumberOfElements m = int (length (bmEntries m))"
    unfolding bmNumberOfElements_def bmEntries_def by (simp add: length_concat int_sum_list)
  also have "length (bmEntries m) = card (fst ` set (bmEntries m))"
    using distinct_card [OF bmEntries_distinct [OF assms]] by simp
  finally show ?thesis by (simp add: bmLookup_def dom_map_of_conv_image_fst)
qed

section \<open>Properties\<close>

text \<open>C24. A set of concurrent insertions into the bucket map succeeds, and the map afterwards holds for every
  node whether one of the insertions (or an earlier one) asked for rebalancing; the order of the
  insertions does not matter, since only the set of entries occurs.\<close>

theorem bucket_map_merges:
  assumes "bmInv R m"
  shows "\<exists>m'. foldM (bmInsert R) xs m = Some m' \<and> bmInv R m' \<and>
     (\<forall>k. bmLookup m' k = (if bmLookup m k = None \<and> k \<notin> fst ` set xs then None
                             else Some (bmLookup m k = Some True \<or> (k, True) \<in> set xs)))"
  by (rule bm.fold_ins [OF assms])

definition demoRuntime :: runtime where
  "demoRuntime = \<lparr>stdHash = nat, schedule = rev\<rparr>"

theorem bucket_map_merges_witness:
  "\<exists>m'. foldM (bmInsert demoRuntime) [(5, False), (15, True), (5, True)] (newBucketMap 1) = Some m' \<and>
     bmLookup m' 5 = Some True \<and> bmLookup m' 15 = Some True \<and> bmLookup m' 6 = None"
  using bucket_map_merges [of demoRuntime "newBucketMap 1" "[(5, False), (15, True), (5, True)]"]
    bmInv_new [of 1 demoRuntime] by auto

text \<open>C25. \<open>numberOfElements\<close> counts the nodes in the map.\<close>

theorem bucket_map_count:
  assumes "bmInv R m"
  shows "bmNumberOfElements m = int (card (dom (bmLookup m)))"
  by (rule bmNumberOfElements_ok [OF assms])

theorem bucket_map_count_witness:
  "\<exists>m. foldM (bmInsert demoRuntime) [(5, False), (15, True), (5, True)] (newBucketMap 2) = Some m \<and> bmNumberOfElements m = 2"
proof -
  obtain m where m: "foldM (bmInsert demoRuntime) [(5, False), (15, True), (5, True)] (newBucketMap 2) = Some m" "bmInv demoRuntime m"
     "\<forall>k. bmLookup m k = (if bmLookup (newBucketMap 2) k = None \<and> k \<notin> fst ` set [(5, False), (15, True), (5, True)] then None
        else Some (bmLookup (newBucketMap 2) k = Some True \<or> (k, True) \<in> set [(5, False), (15, True), (5, True)]))"
    using bm.fold_ins [of demoRuntime "newBucketMap 2" "[(5, False), (15, True), (5, True)]"] bmInv_new [of 2 demoRuntime] by auto
  have "dom (bmLookup m) = {5, 15}" using m(3) bmInv_new [of 2 demoRuntime] by (auto simp: dom_def)
  then show ?thesis using bucket_map_count [OF m(2)] m(1) by auto
qed

end
