(* ===== verification/Block_Size_Manager.thy ===== *)
theory Block_Size_Manager
  imports Sds_Types
begin

text \<open>
  The two block size managers of \<open>dataStructures/blockSizeManager.hpp\<close>. Both read the block sizes of
  the array through \<open>sds->blockSize\<close>; here the sizes of all \<open>capacity\<close> entries are a list \<open>sizes\<close>,
  and \<open>sdsSize\<close> is \<open>sds->size\<close>. The linear manager keeps no state; the hierarchical one keeps the sum of
  each run of \<open>AggregateWidth\<close> entries.

  The locale \<open>block_size_manager\<close> states their common contract; both classes are interpretations,
  which makes them interchangeable.
\<close>

section \<open>The linear manager\<close>

definition sumBlockSizes :: "int list \<Rightarrow> int \<Rightarrow> int \<Rightarrow> int \<Rightarrow> int option" where
  "sumBlockSizes sizes left right acc =
     for_range left right (\<lambda>current acc. do { b \<leftarrow> idx sizes current; Some (acc + b) }) acc"

definition lin_getNumberOfElements :: "int list \<Rightarrow> unit \<Rightarrow> int \<Rightarrow> int \<Rightarrow> int option" where
  "lin_getNumberOfElements sizes m left right = sumBlockSizes sizes left right 0"

definition lin_addElement :: "int \<Rightarrow> unit \<Rightarrow> unit option" where
  "lin_addElement blockIndex m = Some m"

definition lin_adjustBlockSize :: "int \<Rightarrow> int \<Rightarrow> int \<Rightarrow> unit \<Rightarrow> unit option" where
  "lin_adjustBlockSize blockIndex oldSize newSize m = Some m"

definition lin_shiftLeft :: "int list \<Rightarrow> int \<Rightarrow> int \<Rightarrow> unit \<Rightarrow> unit option" where
  "lin_shiftLeft sizes left right m = Some m"

definition lin_shiftRight :: "int list \<Rightarrow> int \<Rightarrow> int \<Rightarrow> unit \<Rightarrow> unit option" where
  "lin_shiftRight sizes left right m = Some m"

definition lin_recompute :: "int list \<Rightarrow> int \<Rightarrow> unit \<Rightarrow> unit option" where
  "lin_recompute sizes sdsSize m = Some m"

section \<open>The hierarchical manager\<close>

record Hierarchical =
  haggregates :: "int list"
  hsize :: int
  HAggregateWidth :: int

definition h_aggregateIndex :: "Hierarchical \<Rightarrow> int \<Rightarrow> int" where
  "h_aggregateIndex m blockIndex = cdiv blockIndex (HAggregateWidth m)"

definition h_nextAggregate :: "Hierarchical \<Rightarrow> int \<Rightarrow> int" where
  "h_nextAggregate m blockIndex =
     (if cmod blockIndex (HAggregateWidth m) = 0 then h_aggregateIndex m blockIndex
      else h_aggregateIndex m blockIndex + 1)"

definition h_getBlockIndex :: "Hierarchical \<Rightarrow> int \<Rightarrow> int" where
  "h_getBlockIndex m aggregateIndex = aggregateIndex * HAggregateWidth m"

definition newHierarchical :: "int \<Rightarrow> Hierarchical" where
  "newHierarchical sdsSize =
     (let m = \<lparr>haggregates = [], hsize = 0, HAggregateWidth = 64\<rparr>;
          size = h_aggregateIndex m sdsSize + 1
      in m\<lparr>hsize := size, haggregates := replicate (nat size) 0\<rparr>)"

definition h_getNumberOfElements :: "int list \<Rightarrow> Hierarchical \<Rightarrow> int \<Rightarrow> int \<Rightarrow> int option" where
  "h_getNumberOfElements sizes m left right = do {
     let aggregateStart = h_nextAggregate m left;
     let aggregateEnd = h_aggregateIndex m right;
     if aggregateStart < aggregateEnd
     then do {
       acc \<leftarrow> sumBlockSizes sizes left (h_getBlockIndex m aggregateStart) 0;
       acc \<leftarrow> for_range aggregateStart aggregateEnd
                (\<lambda>current acc. do { a \<leftarrow> idx (haggregates m) current; Some (acc + a) }) acc;
       sumBlockSizes sizes (h_getBlockIndex m aggregateEnd) right acc }
     else sumBlockSizes sizes left right 0 }"

definition h_recompute :: "int list \<Rightarrow> int \<Rightarrow> Hierarchical \<Rightarrow> Hierarchical option" where
  "h_recompute sizes sdsSize m = do {
     let newSize = h_aggregateIndex m sdsSize + 1;
     let m = (if newSize \<noteq> hsize m then m\<lparr>hsize := newSize, haggregates := replicate (nat newSize) 0\<rparr> else m);
     for_range 0 (min (hsize m) (h_aggregateIndex m sdsSize + 1))
       (\<lambda>i m. do {
          aggregate \<leftarrow> sumBlockSizes sizes (h_getBlockIndex m i) (h_getBlockIndex m (i + 1)) 0;
          ags \<leftarrow> upd (haggregates m) i aggregate;
          Some (m\<lparr>haggregates := ags\<rparr>) }) m }"

text \<open>\<open>aggregates[i].fetch_add(d)\<close>\<close>

definition fetchAdd :: "int \<Rightarrow> int \<Rightarrow> Hierarchical \<Rightarrow> Hierarchical option" where
  "fetchAdd i d m = do {
     a \<leftarrow> idx (haggregates m) i;
     ags \<leftarrow> upd (haggregates m) i (a + d);
     Some (m\<lparr>haggregates := ags\<rparr>) }"

definition h_addElement :: "int \<Rightarrow> Hierarchical \<Rightarrow> Hierarchical option" where
  "h_addElement blockIndex m = fetchAdd (h_aggregateIndex m blockIndex) 1 m"

definition h_adjustBlockSize :: "int \<Rightarrow> int \<Rightarrow> int \<Rightarrow> Hierarchical \<Rightarrow> Hierarchical option" where
  "h_adjustBlockSize blockIndex oldSize newSize m = fetchAdd (h_aggregateIndex m blockIndex) (newSize - oldSize) m"

definition h_shiftLeft :: "int list \<Rightarrow> int \<Rightarrow> int \<Rightarrow> Hierarchical \<Rightarrow> Hierarchical option" where
  "h_shiftLeft sizes left right m = do {
     let aggregateStart = h_aggregateIndex m left + 1;
     let aggregateEnd = h_aggregateIndex m (right + 1) + 1;
     for_range aggregateStart aggregateEnd
       (\<lambda>current m. do {
          let shiftedBlock = h_getBlockIndex m current - 1;
          b \<leftarrow> idx sizes shiftedBlock;
          m \<leftarrow> fetchAdd current (- b) m;
          fetchAdd (current - 1) b m }) m }"

definition h_shiftRight :: "int list \<Rightarrow> int \<Rightarrow> int \<Rightarrow> Hierarchical \<Rightarrow> Hierarchical option" where
  "h_shiftRight sizes left right m = do {
     let aggregateStart = h_nextAggregate m left;
     let aggregateEnd = h_aggregateIndex m right + 1;
     for_range aggregateStart aggregateEnd
       (\<lambda>current m. do {
          let shiftedBlock = h_getBlockIndex m current;
          b \<leftarrow> idx sizes shiftedBlock;
          m \<leftarrow> fetchAdd (current - 1) (- b) m;
          fetchAdd current b m }) m }"

definition h_validate :: "int list \<Rightarrow> int \<Rightarrow> Hierarchical \<Rightarrow> unit option" where
  "h_validate sizes sdsSize m =
     for_range 0 (min (hsize m) (h_aggregateIndex m sdsSize + 1))
       (\<lambda>i u. do {
          aggregate \<leftarrow> sumBlockSizes sizes (h_getBlockIndex m i) (h_getBlockIndex m (i + 1)) 0;
          a \<leftarrow> idx (haggregates m) i;
          assertMsg False (aggregate = a) }) ()"

section \<open>The contract\<close>

definition totalSize :: "int list \<Rightarrow> int \<Rightarrow> int \<Rightarrow> int" where
  "totalSize sizes left right = (\<Sum>i\<in>{left..<right}. sizes ! nat i)"

text \<open>
  \<open>isShiftLeft old new left right\<close>: the entries at \<open>[left + 1, right + 1]\<close> have moved one position to
  the left, over an empty entry at \<open>left\<close>, and left an empty entry behind; \<open>isShiftRight\<close> is the mirror
  image.
\<close>

definition isShiftLeft :: "int list \<Rightarrow> int list \<Rightarrow> int \<Rightarrow> int \<Rightarrow> bool" where
  "isShiftLeft old new left right \<longleftrightarrow>
     length new = length old \<and> 0 \<le> left \<and> left \<le> right \<and> right + 1 < int (length old) \<and>
     old ! nat left = 0 \<and> new ! nat (right + 1) = 0 \<and>
     (\<forall>i. left \<le> i \<and> i \<le> right \<longrightarrow> new ! nat i = old ! nat (i + 1)) \<and>
     (\<forall>i. 0 \<le> i \<and> i < int (length old) \<and> (i < left \<or> right + 1 < i) \<longrightarrow> new ! nat i = old ! nat i)"

definition isShiftRight :: "int list \<Rightarrow> int list \<Rightarrow> int \<Rightarrow> int \<Rightarrow> bool" where
  "isShiftRight old new left right \<longleftrightarrow> isShiftLeft new old (left - 1) (right - 1)"

lemma total_join: "left \<le> mid \<Longrightarrow> mid \<le> right \<Longrightarrow> totalSize sizes left mid + totalSize sizes mid right = totalSize sizes left right"
proof -
  assume "left \<le> mid" "mid \<le> right"
  then have "{left..<right} = {left..<mid} \<union> {mid..<right}" "{left..<mid} \<inter> {mid..<right} = {}" by auto
  then show ?thesis by (simp add: totalSize_def sum.union_disjoint)
qed

locale block_size_manager =
  fixes inv :: "int list \<Rightarrow> int \<Rightarrow> 'm \<Rightarrow> bool"
    and getNumberOfElements :: "int list \<Rightarrow> 'm \<Rightarrow> int \<Rightarrow> int \<Rightarrow> int option"
    and adjustBlockSize :: "int \<Rightarrow> int \<Rightarrow> int \<Rightarrow> 'm \<Rightarrow> 'm option"
    and shiftLeft :: "int list \<Rightarrow> int \<Rightarrow> int \<Rightarrow> 'm \<Rightarrow> 'm option"
    and shiftRight :: "int list \<Rightarrow> int \<Rightarrow> int \<Rightarrow> 'm \<Rightarrow> 'm option"
  assumes get_total: "inv sizes n m \<Longrightarrow> 0 \<le> left \<Longrightarrow> left \<le> right \<Longrightarrow> right \<le> n \<Longrightarrow>
      getNumberOfElements sizes m left right = Some (totalSize sizes left right)"
    and adjust_inv: "inv sizes n m \<Longrightarrow> 0 \<le> i \<Longrightarrow> i < n \<Longrightarrow>
      \<exists>m'. adjustBlockSize i (sizes ! nat i) new m = Some m' \<and> inv (sizes[nat i := new]) n m'"
    and shiftLeft_inv: "inv sizes n m \<Longrightarrow> isShiftLeft sizes sizes' left right \<Longrightarrow> right + 1 \<le> n \<Longrightarrow>
      \<exists>m'. shiftLeft sizes' left right m = Some m' \<and> inv sizes' n m'"
    and shiftRight_inv: "inv sizes n m \<Longrightarrow> isShiftRight sizes sizes' left right \<Longrightarrow> right \<le> n \<Longrightarrow>
      \<exists>m'. shiftRight sizes' left right m = Some m' \<and> inv sizes' n m'"
begin

text \<open>Queries over adjacent ranges add up.\<close>

lemma get_split:
  assumes "inv sizes n m" "0 \<le> left" "left \<le> mid" "mid \<le> right" "right \<le> n"
  obtains x y where "getNumberOfElements sizes m left mid = Some x" "getNumberOfElements sizes m mid right = Some y"
    "getNumberOfElements sizes m left right = Some (x + y)"
proof -
  show ?thesis using that [OF get_total get_total] assms total_join [of left mid right sizes] by (simp add: get_total)
qed

end

section \<open>Both managers fulfil it\<close>

definition linInv :: "int list \<Rightarrow> int \<Rightarrow> unit \<Rightarrow> bool" where
  "linInv sizes n m \<longleftrightarrow> n \<le> int (length sizes)"

text \<open>No operation changes the width.\<close>

definition fixedWidth :: "Hierarchical \<Rightarrow> bool" where
  "fixedWidth m \<longleftrightarrow> HAggregateWidth m = 64"

lemma fixedWidth_cong: "HAggregateWidth m' = HAggregateWidth m \<Longrightarrow> fixedWidth m' = fixedWidth m"
  by (simp add: fixedWidth_def)

lemma fixedWidth_aggregates [simp]: "fixedWidth (m\<lparr>haggregates := as\<rparr>) = fixedWidth m"
  by (simp add: fixedWidth_def)

definition hInv :: "int list \<Rightarrow> int \<Rightarrow> Hierarchical \<Rightarrow> bool" where
  "hInv sizes n m \<longleftrightarrow>
     fixedWidth m \<and> 0 < HAggregateWidth m \<and> 0 \<le> n \<and> hsize m = n div HAggregateWidth m + 1 \<and>
     int (length (haggregates m)) = hsize m \<and> hsize m * HAggregateWidth m \<le> int (length sizes) \<and>
     (\<forall>i. 0 \<le> i \<and> i < hsize m \<longrightarrow>
        haggregates m ! nat i = totalSize sizes (i * HAggregateWidth m) ((i + 1) * HAggregateWidth m))"

lemma sumBlockSizes_total:
  assumes "0 \<le> left" "right \<le> int (length sizes)"
  shows "sumBlockSizes sizes left right acc = Some (acc + totalSize sizes left right)"
  unfolding sumBlockSizes_def totalSize_def by (rule for_range_sum) (use assms in auto)

lemma total_cong: "(\<And>i. left \<le> i \<Longrightarrow> i < right \<Longrightarrow> xs ! nat i = ys ! nat i) \<Longrightarrow> totalSize xs left right = totalSize ys left right"
  by (auto simp: totalSize_def intro!: sum.cong)

lemma total_update:
  assumes "0 \<le> i" "i < int (length sizes)" "0 \<le> left"
  shows "totalSize (sizes[nat i := v]) left right =
     totalSize sizes left right + (if left \<le> i \<and> i < right then v - sizes ! nat i else 0)"
proof -
  have eq: "(sizes[nat i := v]) ! nat j = sizes ! nat j + (if j = i then v - sizes ! nat i else 0)" if "0 \<le> j" for j
    using assms that by (auto simp: nth_list_update nat_eq_iff)
  have "totalSize (sizes[nat i := v]) left right = (\<Sum>j\<in>{left..<right}. sizes ! nat j + (if j = i then v - sizes ! nat i else 0))"
    unfolding totalSize_def using assms(3) by (intro sum.cong) (auto simp: eq)
  also have "\<dots> = totalSize sizes left right + (if left \<le> i \<and> i < right then v - sizes ! nat i else 0)"
    by (simp add: sum.distrib totalSize_def)
  finally show ?thesis .
qed

text \<open>The aggregates of adjacent runs add up to the total of the covered entries.\<close>

lemma aggregates_total:
  assumes inv: "hInv sizes n m" and ab: "0 \<le> a" "a \<le> b" "b \<le> hsize m"
  shows "(\<Sum>i\<in>{a..<b}. haggregates m ! nat i) = totalSize sizes (a * HAggregateWidth m) (b * HAggregateWidth m)"
  using ab(2,3)
proof (induction b rule: int_ge_induct)
  case base
  then show ?case by (simp add: totalSize_def)
next
  case (step b)
  have "{a..<b + 1} = insert b {a..<b}" using step by auto
  then have "(\<Sum>i\<in>{a..<b + 1}. haggregates m ! nat i) = haggregates m ! nat b + (\<Sum>i\<in>{a..<b}. haggregates m ! nat i)"
    by simp
  also have "\<dots> = totalSize sizes (b * HAggregateWidth m) ((b + 1) * HAggregateWidth m) +
      totalSize sizes (a * HAggregateWidth m) (b * HAggregateWidth m)"
    using inv ab(1) step by (simp add: hInv_def)
  also have "\<dots> = totalSize sizes (a * HAggregateWidth m) ((b + 1) * HAggregateWidth m)"
    using total_join [of "a * HAggregateWidth m" "b * HAggregateWidth m" "(b + 1) * HAggregateWidth m" sizes] inv step
    by (simp add: hInv_def mult_right_mono)
  finally show ?case .
qed

lemma h_aggregateIndex_nonneg: "0 < HAggregateWidth m \<Longrightarrow> 0 \<le> i \<Longrightarrow> h_aggregateIndex m i = i div HAggregateWidth m"
  by (simp add: h_aggregateIndex_def)

lemma h_nextAggregate_bounds:
  assumes "0 < HAggregateWidth m" "0 \<le> i"
  shows "i \<le> h_nextAggregate m i * HAggregateWidth m" "c * HAggregateWidth m < i \<longleftrightarrow> c < h_nextAggregate m i"
    "0 \<le> h_nextAggregate m i"
proof -
  let ?W = "HAggregateWidth m"
  define q r where "q = i div ?W" and "r = i mod ?W"
  have eq: "i = q * ?W + r" and md: "0 \<le> r" "r < ?W" using assms by (auto simp: q_def r_def)
  have na: "h_nextAggregate m i = (if r = 0 then q else q + 1)"
    using assms by (simp add: h_nextAggregate_def h_aggregateIndex_def q_def r_def)
  show le: "i \<le> h_nextAggregate m i * ?W"
    unfolding na using eq md by (cases "r = 0") (simp_all add: distrib_right)
  show "0 \<le> h_nextAggregate m i" using assms by (simp add: na q_def pos_imp_zdiv_nonneg_iff)
  show "c * ?W < i \<longleftrightarrow> c < h_nextAggregate m i"
  proof (cases "c < h_nextAggregate m i")
    case True
    then have "c < q \<or> c = q \<and> r \<noteq> 0" by (auto simp: na split: if_splits)
    then have "c * ?W < i"
    proof
      assume "c < q"
      then have "c * ?W < q * ?W" using assms by simp
      then show ?thesis using eq md by linarith
    qed (use eq md in auto)
    then show ?thesis using True by simp
  next
    case False
    then have "h_nextAggregate m i * ?W \<le> c * ?W" using assms by simp
    then show ?thesis using False le by simp
  qed
qed

lemma div_window:
  fixes n w :: int
  assumes "0 < w"
  shows "n div w * w \<le> n" "n < (n div w + 1) * w"
proof -
  define q r where "q = n div w" and "r = n mod w"
  have "n = q * w + r" "0 \<le> r" "r < w" using assms by (auto simp: q_def r_def)
  then show "n div w * w \<le> n" "n < (n div w + 1) * w" by (auto simp: distrib_right simp flip: q_def)
qed

lemma div_border: "0 < (w :: int) \<Longrightarrow> c \<le> n div w \<longleftrightarrow> c * w \<le> n"
proof -
  assume w: "0 < w"
  show ?thesis
  proof (cases "c \<le> n div w")
    case True
    then have "c * w \<le> n div w * w" using w by simp
    then show ?thesis using True div_window(1) [OF w, of n] by linarith
  next
    case False
    then have "(n div w + 1) * w \<le> c * w" using w by simp
    then show ?thesis using False div_window(2) [OF w, of n] by linarith
  qed
qed

lemma h_get_total:
  assumes inv: "hInv sizes n m" and lr: "0 \<le> left" "left \<le> right" "right \<le> n"
  shows "h_getNumberOfElements sizes m left right = Some (totalSize sizes left right)"
proof -
  let ?W = "HAggregateWidth m"
  define a b where "a = h_nextAggregate m left" and "b = h_aggregateIndex m right"
  have W: "0 < ?W" and n: "n < int (length sizes)" "hsize m * ?W \<le> int (length sizes)"
  proof -
    show "0 < ?W" "hsize m * ?W \<le> int (length sizes)" using inv by (auto simp: hInv_def)
    have "n < (n div ?W + 1) * ?W"
      by (rule div_window) fact
    moreover have "(n div ?W + 1) * ?W \<le> int (length sizes)" using inv by (auto simp: hInv_def)
    ultimately show "n < int (length sizes)" by linarith
  qed
  have b: "b = right div ?W" "0 \<le> b" using W lr by (simp_all add: b_def h_aggregateIndex_def pos_imp_zdiv_nonneg_iff)
  have bW: "b * ?W \<le> right" using div_window [OF W] by (simp add: b)
  have bh: "b < hsize m" using inv lr zdiv_mono1 [of right n ?W] W by (simp add: hInv_def b)
  have a: "left \<le> a * ?W" "0 \<le> a" using h_nextAggregate_bounds [OF W lr(1)] by (auto simp: a_def)
  show ?thesis
  proof (cases "a < b")
    case True
    have aW: "a * ?W \<le> b * ?W" using True W by simp
    have lft: "sumBlockSizes sizes left (a * ?W) 0 = Some (totalSize sizes left (a * ?W))"
      using lr n bW aW by (subst sumBlockSizes_total) auto
    have mid: "for_range a b (\<lambda>current acc. do { x \<leftarrow> idx (haggregates m) current; Some (acc + x) }) acc =
        Some (acc + totalSize sizes (a * ?W) (b * ?W))" for acc
    proof -
      have "int (length (haggregates m)) = hsize m" using inv by (simp add: hInv_def)
      then have "for_range a b (\<lambda>current acc. do { x \<leftarrow> idx (haggregates m) current; Some (acc + x) }) acc =
          Some (acc + (\<Sum>i\<in>{a..<b}. haggregates m ! nat i))"
        using a bh by (intro for_range_sum) auto
      then show ?thesis using aggregates_total [OF inv a(2), of b] True bh by simp
    qed
    have rgt: "sumBlockSizes sizes (b * ?W) right acc = Some (acc + totalSize sizes (b * ?W) right)" for acc
      using lr n b W by (subst sumBlockSizes_total) auto
    show ?thesis
      using True lft mid rgt total_join [of left "a * ?W" "b * ?W" sizes] total_join [of left "b * ?W" right sizes] a aW bW
      by (simp add: h_getNumberOfElements_def h_getBlockIndex_def flip: a_def b_def)
  next
    case False
    then show ?thesis
      using lr n by (simp add: h_getNumberOfElements_def sumBlockSizes_total flip: a_def b_def)
  qed
qed

lemma fetchAdd_ok:
  "0 \<le> i \<Longrightarrow> i < int (length (haggregates m)) \<Longrightarrow>
   fetchAdd i d m = Some (m\<lparr>haggregates := (haggregates m)[nat i := haggregates m ! nat i + d]\<rparr>)"
  by (simp add: fetchAdd_def)

lemma h_adjust_inv:
  assumes inv: "hInv sizes n m" and i: "0 \<le> i" "i < n"
  shows "\<exists>m'. h_adjustBlockSize i (sizes ! nat i) new m = Some m' \<and> hInv (sizes[nat i := new]) n m'"
proof -
  let ?W = "HAggregateWidth m"
  have W: "0 < ?W" and len: "int (length (haggregates m)) = n div ?W + 1" "hsize m = n div ?W + 1"
    and fit: "(n div ?W + 1) * ?W \<le> int (length sizes)"
    using inv by (auto simp: hInv_def)
  let ?c = "i div ?W"
  have c: "0 \<le> ?c" "?c < n div ?W + 1"
    using i W zdiv_mono1 [of i n ?W] by (auto simp: pos_imp_zdiv_nonneg_iff)
  define m' where "m' = m\<lparr>haggregates := (haggregates m)[nat ?c := haggregates m ! nat ?c + (new - sizes ! nat i)]\<rparr>"
  have "h_adjustBlockSize i (sizes ! nat i) new m = Some m'"
    using c len W i by (simp add: h_adjustBlockSize_def h_aggregateIndex_def fetchAdd_ok m'_def)
  moreover have "hInv (sizes[nat i := new]) n m'"
  proof -
    have il: "i < int (length sizes)" using div_window(2) [OF W, of n] fit i by linarith
    have "haggregates m' ! nat j = totalSize (sizes[nat i := new]) (j * ?W) ((j + 1) * ?W)"
      if j: "0 \<le> j" "j < n div ?W + 1" for j
    proof -
      have "(j * ?W \<le> i \<and> i < (j + 1) * ?W) = (j = ?c)"
        using div_window [OF W, of i] W by (smt (verit) mult_less_cancel_right mult_le_cancel_right)
      moreover have "haggregates m ! nat j = totalSize sizes (j * ?W) ((j + 1) * ?W)"
        using inv j by (simp add: hInv_def)
      moreover have "haggregates m' ! nat j = haggregates m ! nat j + (if j = ?c then new - sizes ! nat i else 0)"
        using j c len by (auto simp: m'_def nth_list_update nat_eq_iff)
      ultimately show ?thesis using total_update [OF i(1) il, of "j * ?W"] j W by simp
    qed
    then show ?thesis using inv len by (simp add: hInv_def) (simp add: m'_def)
  qed
  ultimately show ?thesis by blast
qed

text \<open>
  Both shift loops move, at each border \<open>current\<close>, an amount \<open>v current\<close> from one aggregate to its
  neighbour.
\<close>

lemma border_loop:
  fixes m :: Hierarchical
  assumes ab: "1 \<le> a" "b \<le> int (length (haggregates m))"
    and body: "\<And>c m'. a \<le> c \<Longrightarrow> c < b \<Longrightarrow> length (haggregates m') = length (haggregates m) \<Longrightarrow>
       hsize m' = hsize m \<Longrightarrow> HAggregateWidth m' = HAggregateWidth m \<Longrightarrow>
       \<exists>m''. f c m' = Some m'' \<and> length (haggregates m'') = length (haggregates m) \<and> hsize m'' = hsize m \<and>
         HAggregateWidth m'' = HAggregateWidth m \<and>
         (\<forall>j. 0 \<le> j \<and> j < int (length (haggregates m)) \<longrightarrow> haggregates m'' ! nat j = haggregates m' ! nat j
            + (if j = c - 1 then v c else 0) - (if j = c then v c else 0))"
  shows "\<exists>m'. for_range a b f m = Some m' \<and> length (haggregates m') = length (haggregates m) \<and> hsize m' = hsize m \<and>
     HAggregateWidth m' = HAggregateWidth m \<and>
     (\<forall>j. 0 \<le> j \<and> j < int (length (haggregates m)) \<longrightarrow> haggregates m' ! nat j = haggregates m ! nat j
        + (if a \<le> j + 1 \<and> j + 1 < b then v (j + 1) else 0) - (if a \<le> j \<and> j < b then v j else 0))"
proof (cases "a \<le> b")
  case True
  show ?thesis
  proof (rule for_range_inv [OF True, where I = "\<lambda>c m'. length (haggregates m') = length (haggregates m) \<and> hsize m' = hsize m \<and>
     HAggregateWidth m' = HAggregateWidth m \<and>
     (\<forall>j. 0 \<le> j \<and> j < int (length (haggregates m)) \<longrightarrow> haggregates m' ! nat j = haggregates m ! nat j
        + (if a \<le> j + 1 \<and> j + 1 < c then v (j + 1) else 0) - (if a \<le> j \<and> j < c then v j else 0))"], goal_cases)
    case (2 c m')
    from body [OF 2(1,2), of m'] 2(3) obtain m'' where m'': "f c m' = Some m''"
      "length (haggregates m'') = length (haggregates m)" "hsize m'' = hsize m" "HAggregateWidth m'' = HAggregateWidth m"
      "\<forall>j. 0 \<le> j \<and> j < int (length (haggregates m)) \<longrightarrow> haggregates m'' ! nat j = haggregates m' ! nat j
            + (if j = c - 1 then v c else 0) - (if j = c then v c else 0)" by blast
    have "haggregates m'' ! nat j = haggregates m ! nat j
        + (if a \<le> j + 1 \<and> j + 1 < c + 1 then v (j + 1) else 0) - (if a \<le> j \<and> j < c + 1 then v j else 0)"
      if "0 \<le> j" "j < int (length (haggregates m))" for j
      using m''(5) 2 that by (cases "j = c - 1"; cases "j = c") auto
    then show ?case using m''(1-4) by blast
  qed auto
next
  case False
  then show ?thesis by auto
qed

text \<open>Totals below a position before and after a shift to the left.\<close>

lemma shiftLeft_prefix:
  assumes sh: "isShiftLeft old new left right" and x: "0 \<le> x" "x \<le> int (length old)"
  shows "totalSize new 0 x = totalSize old 0 x + (if left < x \<and> x \<le> right + 1 then new ! nat (x - 1) else 0)"
  using x
proof (induction x rule: int_ge_induct)
  case base
  then show ?case using sh by (simp add: totalSize_def isShiftLeft_def)
next
  case (step x)
  have "{x..<x + 1} = {x}" by auto
  then have one: "totalSize xs 0 (x + 1) = totalSize xs 0 x + xs ! nat x" for xs
    using total_join [of 0 x "x + 1" xs] step by (simp add: totalSize_def)
  note d = sh [unfolded isShiftLeft_def]
  consider "x < left \<or> right + 1 < x" | "x = left" | "left < x" "x \<le> right" | "x = right + 1" using d by linarith
  then show ?case
  proof cases
    case 1
    then have "new ! nat x = old ! nat x" using d step by auto
    then show ?thesis using 1 step one by auto
  next
    case 2
    then show ?thesis using d step one by auto
  next
    case 3
    then have "new ! nat (x - 1) = old ! nat (x - 1 + 1)" using d by auto
    then show ?thesis using 3 step one by auto
  next
    case 4
    have "new ! nat right = old ! nat (right + 1)" "new ! nat (right + 1) = 0" using d by auto
    then show ?thesis using 4 step one d by auto
  qed
qed

lemma total_prefix: "0 \<le> a \<Longrightarrow> a \<le> b \<Longrightarrow> totalSize xs a b = totalSize xs 0 b - totalSize xs 0 a"
  using total_join [of 0 a b xs] by simp

lemma run_bounds:
  assumes "0 < (w :: int)" "0 \<le> j" "j < k" "k * w \<le> n"
  shows "0 \<le> j * w" "j * w \<le> (j + 1) * w" "(j + 1) * w \<le> n"
proof -
  have "(j + 1) * w \<le> k * w" using assms by simp
  then show "(j + 1) * w \<le> n" using assms by linarith
qed (use assms in auto)

lemma h_shiftLeft_inv:
  assumes inv: "hInv sizes n m" and sh: "isShiftLeft sizes sizes' left right" and rn: "right + 1 \<le> n"
  shows "\<exists>m'. h_shiftLeft sizes' left right m = Some m' \<and> hInv sizes' n m'"
proof -
  let ?W = "HAggregateWidth m"
  have W: "0 < ?W" and hl: "int (length (haggregates m)) = n div ?W + 1" "hsize m = n div ?W + 1"
    and fit: "(n div ?W + 1) * ?W \<le> int (length sizes)" using inv by (auto simp: hInv_def)
  have l: "0 \<le> left" "left \<le> right" "length sizes' = length sizes" using sh by (auto simp: isShiftLeft_def)
  define a b where "a = left div ?W + 1" and "b = (right + 1) div ?W + 1"
  have ab: "h_aggregateIndex m left + 1 = a" "h_aggregateIndex m (right + 1) + 1 = b" "1 \<le> a"
    using l W by (auto simp: a_def b_def h_aggregateIndex_def pos_imp_zdiv_nonneg_iff)
  have bh: "b \<le> int (length (haggregates m))" using hl zdiv_mono1 [OF rn W] by (simp add: b_def)
  have border: "a \<le> c \<longleftrightarrow> left < c * ?W" "c < b \<longleftrightarrow> c * ?W \<le> right + 1" for c
    using div_border [OF W, of c left] div_border [OF W, of c "right + 1"] by (auto simp: a_def b_def)
  have "\<exists>m'. h_shiftLeft sizes' left right m = Some m' \<and> length (haggregates m') = length (haggregates m) \<and> hsize m' = hsize m \<and>
     HAggregateWidth m' = HAggregateWidth m \<and>
     (\<forall>j. 0 \<le> j \<and> j < int (length (haggregates m)) \<longrightarrow> haggregates m' ! nat j = haggregates m ! nat j
        + (if a \<le> j + 1 \<and> j + 1 < b then sizes' ! nat ((j + 1) * ?W - 1) else 0)
        - (if a \<le> j \<and> j < b then sizes' ! nat (j * ?W - 1) else 0))"
    unfolding h_shiftLeft_def Let_def ab
  proof (rule border_loop [OF ab(3) bh, where v = "\<lambda>c. sizes' ! nat (c * ?W - 1)"])
    fix c and m' :: Hierarchical assume c: "a \<le> c" "c < b" "length (haggregates m') = length (haggregates m)" "hsize m' = hsize m"
      "HAggregateWidth m' = HAggregateWidth m"
    have g: "idx sizes' (h_getBlockIndex m' c - 1) = Some (sizes' ! nat (c * ?W - 1))"
      using c border [of c] l sh by (simp add: h_getBlockIndex_def isShiftLeft_def)
    let ?b = "sizes' ! nat (c * ?W - 1)"
    show "\<exists>m''. do { b \<leftarrow> idx sizes' (h_getBlockIndex m' c - 1); m \<leftarrow> fetchAdd c (- b) m'; fetchAdd (c - 1) b m } = Some m'' \<and>
         length (haggregates m'') = length (haggregates m) \<and> hsize m'' = hsize m \<and>
         HAggregateWidth m'' = HAggregateWidth m \<and>
         (\<forall>j. 0 \<le> j \<and> j < int (length (haggregates m)) \<longrightarrow> haggregates m'' ! nat j = haggregates m' ! nat j
            + (if j = c - 1 then ?b else 0) - (if j = c then ?b else 0))"
      using c ab(3) bh g by (auto simp: fetchAdd_ok nth_list_update nat_eq_iff)
  qed
  then obtain m' where m': "h_shiftLeft sizes' left right m = Some m'" "length (haggregates m') = length (haggregates m)"
     "hsize m' = hsize m" "HAggregateWidth m' = ?W"
     "\<And>j. 0 \<le> j \<Longrightarrow> j < int (length (haggregates m)) \<Longrightarrow> haggregates m' ! nat j = haggregates m ! nat j
        + (if a \<le> j + 1 \<and> j + 1 < b then sizes' ! nat ((j + 1) * ?W - 1) else 0)
        - (if a \<le> j \<and> j < b then sizes' ! nat (j * ?W - 1) else 0)" by blast
  have "haggregates m' ! nat j = totalSize sizes' (j * ?W) ((j + 1) * ?W)" if j: "0 \<le> j" "j < n div ?W + 1" for j
  proof -
    note jW = run_bounds [OF W j fit]
    have "haggregates m ! nat j = totalSize sizes (j * ?W) ((j + 1) * ?W)" using inv j by (simp add: hInv_def)
    then show ?thesis
      using m'(5) [of j] j hl border [of j] border [of "j + 1"] jW
        shiftLeft_prefix [OF sh, of "j * ?W"] shiftLeft_prefix [OF sh, of "(j + 1) * ?W"]
      by (simp add: total_prefix [of "j * ?W"])
  qed
  then have "hInv sizes' n m'" using inv m'(2-4) hl l by (simp add: hInv_def fixedWidth_cong [of m' m])
  then show ?thesis using m'(1) by blast
qed

lemma h_shiftRight_inv:
  assumes inv: "hInv sizes n m" and sh: "isShiftRight sizes sizes' left right" and rn: "right \<le> n"
  shows "\<exists>m'. h_shiftRight sizes' left right m = Some m' \<and> hInv sizes' n m'"
proof -
  let ?W = "HAggregateWidth m"
  have W: "0 < ?W" and hl: "int (length (haggregates m)) = n div ?W + 1" "hsize m = n div ?W + 1"
    and fit: "(n div ?W + 1) * ?W \<le> int (length sizes)" using inv by (auto simp: hInv_def)
  note shl = sh [unfolded isShiftRight_def]
  have l: "1 \<le> left" "left \<le> right" "length sizes' = length sizes" "right < int (length sizes)"
    using shl by (auto simp: isShiftLeft_def)
  define a b where "a = h_nextAggregate m left" and "b = right div ?W + 1"
  have ab: "h_aggregateIndex m right + 1 = b" using l W by (simp add: b_def h_aggregateIndex_def)
  have border: "a \<le> c \<longleftrightarrow> left \<le> c * ?W" "c < b \<longleftrightarrow> c * ?W \<le> right" for c
    using h_nextAggregate_bounds(2) [OF W, of left c] div_border [OF W, of c right] l by (auto simp: a_def b_def)
  have a1: "1 \<le> a" using border(1) [of 0] l by auto
  have bh: "b \<le> int (length (haggregates m))" using hl zdiv_mono1 [OF rn W] by (simp add: b_def)
  have "\<exists>m'. h_shiftRight sizes' left right m = Some m' \<and> length (haggregates m') = length (haggregates m) \<and> hsize m' = hsize m \<and>
     HAggregateWidth m' = HAggregateWidth m \<and>
     (\<forall>j. 0 \<le> j \<and> j < int (length (haggregates m)) \<longrightarrow> haggregates m' ! nat j = haggregates m ! nat j
        + (if a \<le> j + 1 \<and> j + 1 < b then - sizes' ! nat ((j + 1) * ?W) else 0)
        - (if a \<le> j \<and> j < b then - sizes' ! nat (j * ?W) else 0))"
    unfolding h_shiftRight_def Let_def ab a_def [symmetric]
  proof (rule border_loop [OF a1 bh, where v = "\<lambda>c. - sizes' ! nat (c * ?W)"])
    fix c and m' :: Hierarchical assume c: "a \<le> c" "c < b" "length (haggregates m') = length (haggregates m)" "hsize m' = hsize m"
      "HAggregateWidth m' = HAggregateWidth m"
    have g: "idx sizes' (h_getBlockIndex m' c) = Some (sizes' ! nat (c * ?W))"
      using c border [of c] l by (simp add: h_getBlockIndex_def)
    let ?b = "sizes' ! nat (c * ?W)"
    show "\<exists>m''. do { b \<leftarrow> idx sizes' (h_getBlockIndex m' c); m \<leftarrow> fetchAdd (c - 1) (- b) m'; fetchAdd c b m } = Some m'' \<and>
         length (haggregates m'') = length (haggregates m) \<and> hsize m'' = hsize m \<and>
         HAggregateWidth m'' = HAggregateWidth m \<and>
         (\<forall>j. 0 \<le> j \<and> j < int (length (haggregates m)) \<longrightarrow> haggregates m'' ! nat j = haggregates m' ! nat j
            + (if j = c - 1 then - ?b else 0) - (if j = c then - ?b else 0))"
      using c a1 bh g by (auto simp: fetchAdd_ok nth_list_update nat_eq_iff)
  qed
  then obtain m' where m': "h_shiftRight sizes' left right m = Some m'" "length (haggregates m') = length (haggregates m)"
     "hsize m' = hsize m" "HAggregateWidth m' = ?W"
     "\<And>j. 0 \<le> j \<Longrightarrow> j < int (length (haggregates m)) \<Longrightarrow> haggregates m' ! nat j = haggregates m ! nat j
        + (if a \<le> j + 1 \<and> j + 1 < b then - sizes' ! nat ((j + 1) * ?W) else 0)
        - (if a \<le> j \<and> j < b then - sizes' ! nat (j * ?W) else 0)" by blast
  have moved: "sizes ! nat (x - 1) = sizes' ! nat x" if "left \<le> x" "x \<le> right" for x
    using shl that unfolding isShiftLeft_def by (metis add.commute diff_add_cancel diff_right_mono)
  have "haggregates m' ! nat j = totalSize sizes' (j * ?W) ((j + 1) * ?W)" if j: "0 \<le> j" "j < n div ?W + 1" for j
  proof -
    note jW = run_bounds [OF W j fit]
    have "haggregates m ! nat j = totalSize sizes (j * ?W) ((j + 1) * ?W)" using inv j by (simp add: hInv_def)
    then show ?thesis
      using m'(5) [of j] j hl border [of j] border [of "j + 1"] jW
        shiftLeft_prefix [OF shl, of "j * ?W"] shiftLeft_prefix [OF shl, of "(j + 1) * ?W"]
        moved [of "j * ?W"] moved [of "(j + 1) * ?W"] l
      by (simp add: total_prefix [of "j * ?W"] split: if_splits)
  qed
  then have "hInv sizes' n m'" using inv m'(2-4) hl l by (simp add: hInv_def fixedWidth_cong [of m' m])
  then show ?thesis using m'(1) by blast
qed

lemma h_recompute_inv:
  assumes fw: "fixedWidth m" and n: "0 \<le> n" "(n div HAggregateWidth m + 1) * HAggregateWidth m \<le> int (length sizes)"
    and len: "int (length (haggregates m)) = hsize m"
  shows "\<exists>m'. h_recompute sizes n m = Some m' \<and> hInv sizes n m'"
proof -
  let ?W = "HAggregateWidth m" and ?k = "n div HAggregateWidth m + 1"
  have W: "0 < ?W" using fw by (simp add: fixedWidth_def)
  have k: "h_aggregateIndex m n + 1 = ?k" "0 < ?k" using W n by (simp_all add: h_aggregateIndex_def pos_imp_zdiv_nonneg_iff add_pos_nonneg)
  define m0 where "m0 = (if ?k \<noteq> hsize m then m\<lparr>hsize := ?k, haggregates := replicate (nat ?k) 0\<rparr> else m)"
  have m0: "hsize m0 = ?k" "int (length (haggregates m0)) = ?k" "HAggregateWidth m0 = ?W"
    using len k by (auto simp: m0_def)
  define I where "I i m' \<longleftrightarrow> hsize m' = ?k \<and> int (length (haggregates m')) = ?k \<and> HAggregateWidth m' = ?W \<and>
      (\<forall>j. 0 \<le> j \<and> j < i \<longrightarrow> haggregates m' ! nat j = totalSize sizes (j * ?W) ((j + 1) * ?W))" for i and m' :: Hierarchical
  let ?f = "\<lambda>i m. do { aggregate \<leftarrow> sumBlockSizes sizes (h_getBlockIndex m i) (h_getBlockIndex m (i + 1)) 0;
      ags \<leftarrow> upd (haggregates m) i aggregate; Some (m\<lparr>haggregates := ags\<rparr>) }"
  have "\<exists>m'. for_range 0 ?k ?f m0 = Some m' \<and> I ?k m'"
  proof (rule for_range_inv)
    show "0 \<le> ?k" using k by simp
    show "I 0 m0" using m0 by (simp add: I_def)
    fix i m' assume i: "0 \<le> i" "i < ?k" "I i m'"
    note b = run_bounds [OF W i(1,2) n(2)]
    have "sumBlockSizes sizes (h_getBlockIndex m' i) (h_getBlockIndex m' (i + 1)) 0 =
        Some (totalSize sizes (i * ?W) ((i + 1) * ?W))"
      using i(3) b sumBlockSizes_total [of "i * ?W" "(i + 1) * ?W" sizes 0] by (simp add: I_def h_getBlockIndex_def)
    moreover have "upd (haggregates m') i v = Some ((haggregates m')[nat i := v])" for v
      using i by (simp add: I_def)
    ultimately show "\<exists>t. ?f i m' = Some t \<and> I (i + 1) t"
      using i by (auto simp: I_def nth_list_update nat_eq_iff)
  qed
  then obtain m' where m': "for_range 0 ?k ?f m0 = Some m'" "I ?k m'" by blast
  have "h_recompute sizes n m = Some m'"
    using m' k m0 by (simp add: h_recompute_def flip: m0_def)
      (simp add: h_aggregateIndex_def)
  moreover have "hInv sizes n m'" using m'(2) W fw n by (simp add: hInv_def I_def fixedWidth_cong [of m' m])
  ultimately show ?thesis by blast
qed

lemma newHierarchical_recompute:
  assumes "0 \<le> n" "(n div 64 + 1) * 64 \<le> int (length sizes)"
  shows "\<exists>m'. h_recompute sizes n (newHierarchical n) = Some m' \<and> hInv sizes n m'"
  using assms by (intro h_recompute_inv) (auto simp: fixedWidth_def newHierarchical_def Let_def h_aggregateIndex_def pos_imp_zdiv_nonneg_iff)

interpretation lin: block_size_manager linInv lin_getNumberOfElements lin_adjustBlockSize lin_shiftLeft lin_shiftRight
  by unfold_locales
    (auto simp: linInv_def lin_getNumberOfElements_def lin_adjustBlockSize_def lin_shiftLeft_def lin_shiftRight_def
      sumBlockSizes_total isShiftRight_def isShiftLeft_def)

interpretation hier: block_size_manager hInv h_getNumberOfElements h_adjustBlockSize h_shiftLeft h_shiftRight
  by unfold_locales (rule h_get_total h_adjust_inv h_shiftLeft_inv h_shiftRight_inv; assumption)+

text \<open>The optimised manager returns what the reference manager returns.\<close>

lemma hierarchical_eq_linear:
  assumes "hInv sizes n m" "0 \<le> left" "left \<le> right" "right \<le> n"
  shows "h_getNumberOfElements sizes m left right = lin_getNumberOfElements sizes () left right"
proof -
  have "linInv sizes n ()"
    using assms(1) div_window(2) [of "HAggregateWidth m" n] by (auto simp: hInv_def linInv_def)
  then show ?thesis using hier.get_total [OF assms] lin.get_total [of sizes n "()"] assms by simp
qed

lemma h_validate_ok: "hInv sizes n m \<Longrightarrow> h_validate sizes n m = Some ()"
proof -
  assume inv: "hInv sizes n m"
  let ?W = "HAggregateWidth m"
  have W: "0 < ?W" and k: "hsize m = n div ?W + 1" "0 \<le> n" "int (length (haggregates m)) = hsize m"
    and fit: "hsize m * ?W \<le> int (length sizes)" using inv by (auto simp: hInv_def)
  have "\<exists>u. h_validate sizes n m = Some u \<and> True"
    unfolding h_validate_def
  proof (rule for_range_inv)
    show "0 \<le> min (hsize m) (h_aggregateIndex m n + 1)"
      using k W by (simp add: h_aggregateIndex_def pos_imp_zdiv_nonneg_iff)
    fix i u assume i: "0 \<le> i" "i < min (hsize m) (h_aggregateIndex m n + 1)"
    then have i': "i < hsize m" by simp
    note b = run_bounds [OF W i(1) i' fit]
    have "haggregates m ! nat i = totalSize sizes (i * ?W) ((i + 1) * ?W)" using inv i by (simp add: hInv_def)
    then show "\<exists>t. do { aggregate \<leftarrow> sumBlockSizes sizes (h_getBlockIndex m i) (h_getBlockIndex m (i + 1)) 0;
        a \<leftarrow> idx (haggregates m) i; assertMsg False (aggregate = a) } = Some t \<and> True"
      using b i i' k sumBlockSizes_total [of "i * ?W" "(i + 1) * ?W" sizes 0] by (simp add: h_getBlockIndex_def)
  qed simp
  then show ?thesis by simp
qed

section \<open>Properties\<close>

text \<open>C19. The hierarchical manager and the linear manager return the same number of elements for every range of
  the array.\<close>

theorem hierarchical_equals_linear:
  assumes "hInv sizes n m" "0 \<le> left" "left \<le> right" "right \<le> n"
  shows "h_getNumberOfElements sizes m left right = lin_getNumberOfElements sizes () left right \<and>
    h_getNumberOfElements sizes m left right = Some (totalSize sizes left right)"
  using hierarchical_eq_linear [OF assms] hier.get_total [OF assms] by simp

definition demoSizes :: "int list" where "demoSizes = map (\<lambda>i. int i mod 5) [0..<256]"

theorem hierarchical_equals_linear_witness:
  "\<exists>m. h_recompute demoSizes 200 (newHierarchical 200) = Some m \<and>
     h_getNumberOfElements demoSizes m 10 150 = lin_getNumberOfElements demoSizes () 10 150"
proof -
  obtain m where "h_recompute demoSizes 200 (newHierarchical 200) = Some m" "hInv demoSizes 200 m"
    using newHierarchical_recompute [of 200 demoSizes] by (auto simp: demoSizes_def)
  then show ?thesis using hierarchical_equals_linear [of demoSizes 200 m 10 150] by auto
qed

text \<open>C20. After blocks have been shifted by one position to the left or to the right, or the size of one block has
  changed, the corresponding update keeps the aggregates equal to the sums of the block sizes.\<close>

theorem hierarchical_maintained:
  assumes "hInv sizes n m"
  shows "(0 \<le> i \<longrightarrow> i < n \<longrightarrow>
       (\<exists>m'. h_adjustBlockSize i (sizes ! nat i) new m = Some m' \<and> hInv (sizes[nat i := new]) n m')) \<and>
    (isShiftLeft sizes sizes' left right \<longrightarrow> right + 1 \<le> n \<longrightarrow>
       (\<exists>m'. h_shiftLeft sizes' left right m = Some m' \<and> hInv sizes' n m')) \<and>
    (isShiftRight sizes sizes' left right \<longrightarrow> right \<le> n \<longrightarrow>
       (\<exists>m'. h_shiftRight sizes' left right m = Some m' \<and> hInv sizes' n m'))"
  using hier.adjust_inv [OF assms] hier.shiftLeft_inv [OF assms] hier.shiftRight_inv [OF assms] by blast

theorem hierarchical_maintained_witness:
  "\<exists>m m'. h_recompute demoSizes 200 (newHierarchical 200) = Some m \<and>
     h_adjustBlockSize 70 (demoSizes ! 70) 4 m = Some m' \<and> hInv (demoSizes[70 := 4]) 200 m'"
proof -
  obtain m where "h_recompute demoSizes 200 (newHierarchical 200) = Some m" "hInv demoSizes 200 m"
    using newHierarchical_recompute [of 200 demoSizes] by (auto simp: demoSizes_def)
  then show ?thesis using hierarchical_maintained [of demoSizes 200 m 70 4] by auto
qed

section \<open>A block in place of an empty entry, after a shift\<close>

text \<open>The updates of the aggregates are atomic additions, so their order does not matter.\<close>

lemma bind_commute: "(\<And>t. g t \<bind> h = h t \<bind> g) \<Longrightarrow> (x \<bind> g) \<bind> h = (x \<bind> h) \<bind> (g :: 'a \<Rightarrow> 'a option)"
  by (cases x) auto

lemma foldM_commute:
  assumes "\<And>x s. f x s \<bind> g = g s \<bind> f x"
  shows "foldM f xs s \<bind> g = g s \<bind> foldM f xs"
proof (induction xs arbitrary: s)
  case Nil
  show ?case by (cases "g s") simp_all
next
  case (Cons x xs)
  have "foldM f (x # xs) s \<bind> g = f x s \<bind> (\<lambda>t. g t \<bind> foldM f xs)" using Cons by simp
  also have "\<dots> = (g s \<bind> f x) \<bind> foldM f xs" by (simp flip: assms)
  finally show ?case by simp
qed

lemma fetchAdd_commute: "fetchAdd i d m \<bind> fetchAdd j e = fetchAdd j e m \<bind> fetchAdd i d"
  by (cases "i = j") (auto simp: fetchAdd_def idx_def upd_def nth_opt_def upd_opt_def list_update_swap nth_list_update ac_simps)

lemma fetchAdd_width: "fetchAdd i d m = Some m' \<Longrightarrow> HAggregateWidth m' = HAggregateWidth m"
  by (auto simp: fetchAdd_def bind_eq_Some_conv)


lemma fetchAdd_pair_commute:
  "(fetchAdd i d m \<bind> fetchAdd j e) \<bind> fetchAdd k x = fetchAdd k x m \<bind> (\<lambda>m. fetchAdd i d m \<bind> fetchAdd j e)"
proof -
  have "(fetchAdd i d m \<bind> fetchAdd j e) \<bind> fetchAdd k x = (fetchAdd i d m \<bind> fetchAdd k x) \<bind> fetchAdd j e"
    by (rule bind_commute) (rule fetchAdd_commute)
  also have "\<dots> = (fetchAdd k x m \<bind> fetchAdd i d) \<bind> fetchAdd j e" by (simp only: fetchAdd_commute)
  finally show ?thesis by simp
qed

text \<open>Both shifts are loops over pairs of additions.\<close>

definition moveSizes :: "int list \<Rightarrow> int \<Rightarrow> int \<Rightarrow> int \<Rightarrow> int \<Rightarrow> Hierarchical \<Rightarrow> Hierarchical option" where
  "moveSizes sizes offset from to current m = do {
     b \<leftarrow> idx sizes (h_getBlockIndex m current + offset);
     m \<leftarrow> fetchAdd (current + from) (- b) m;
     fetchAdd (current + to) b m }"

lemma moveSizes_commute: "moveSizes sizes off f t current m \<bind> fetchAdd i d = fetchAdd i d m \<bind> moveSizes sizes off f t current"
proof (cases "fetchAdd i d m")
  case None
  then show ?thesis
    using fetchAdd_pair_commute [of "current + f" _ m "current + t" _ i d]
    by (cases "idx sizes (h_getBlockIndex m current + off)") (auto simp: moveSizes_def)
next
  case (Some m')
  then have "h_getBlockIndex m' current = h_getBlockIndex m current" using fetchAdd_width by (simp add: h_getBlockIndex_def)
  then show ?thesis
    using fetchAdd_pair_commute [of "current + f" _ m "current + t" _ i d] Some
    by (cases "idx sizes (h_getBlockIndex m current + off)") (auto simp: moveSizes_def)
qed

lemma h_shiftLeft_move:
  "h_shiftLeft sizes left right m = for_range (h_aggregateIndex m left + 1) (h_aggregateIndex m (right + 1) + 1) (moveSizes sizes (-1) 0 (-1)) m"
  by (simp add: h_shiftLeft_def moveSizes_def [abs_def])

lemma h_shiftRight_move:
  "h_shiftRight sizes left right m = for_range (h_nextAggregate m left) (h_aggregateIndex m right + 1) (moveSizes sizes 0 (-1) 0) m"
  by (simp add: h_shiftRight_def moveSizes_def [abs_def])

lemma foldM_preserves: "(\<And>x s t. f x s = Some t \<Longrightarrow> g t = g s) \<Longrightarrow> foldM f xs s = Some t \<Longrightarrow> g t = g s"
proof (induction xs arbitrary: s)
  case (Cons x xs)
  then obtain u where "f x s = Some u" "foldM f xs u = Some t" by (auto simp: bind_eq_Some_conv)
  then show ?case using Cons by metis
qed simp

lemma moveSizes_width:
  "moveSizes sizes off f t a m = Some m' \<Longrightarrow> HAggregateWidth m' = HAggregateWidth m"
  "for_range x y (moveSizes sizes off f t) m = Some m' \<Longrightarrow> HAggregateWidth m' = HAggregateWidth m"
proof -
  have one: "HAggregateWidth v = HAggregateWidth u" if "moveSizes sizes off f t a u = Some v" for a u v
    using that fetchAdd_width by (fastforce simp: moveSizes_def bind_eq_Some_conv)
  show "moveSizes sizes off f t a m = Some m' \<Longrightarrow> HAggregateWidth m' = HAggregateWidth m" by (rule one)
  show "for_range x y (moveSizes sizes off f t) m = Some m' \<Longrightarrow> HAggregateWidth m' = HAggregateWidth m"
    unfolding for_range_def by (rule foldM_preserves [where g = HAggregateWidth]) (rule one)
qed

lemma h_shift_commute:
  "h_shiftLeft sizes l r m \<bind> fetchAdd i d = fetchAdd i d m \<bind> h_shiftLeft sizes l r"
  "h_shiftRight sizes l r m \<bind> fetchAdd i d = fetchAdd i d m \<bind> h_shiftRight sizes l r"
proof -
  have c: "for_range a b (moveSizes sizes off f t) m \<bind> fetchAdd i d = fetchAdd i d m \<bind> for_range a b (moveSizes sizes off f t)" for a b off f t
    unfolding for_range_def by (rule foldM_commute) (rule moveSizes_commute)
  have "h_shiftLeft sizes l r m' = for_range (h_aggregateIndex m l + 1) (h_aggregateIndex m (r + 1) + 1) (moveSizes sizes (-1) 0 (-1)) m'"
      "h_shiftRight sizes l r m' = for_range (h_nextAggregate m l) (h_aggregateIndex m r + 1) (moveSizes sizes 0 (-1) 0) m'"
    if "fetchAdd i d m = Some m'" for m'
    using fetchAdd_width [OF that] by (simp_all add: h_shiftLeft_move h_shiftRight_move h_aggregateIndex_def h_nextAggregate_def)
  then show "h_shiftLeft sizes l r m \<bind> fetchAdd i d = fetchAdd i d m \<bind> h_shiftLeft sizes l r"
    "h_shiftRight sizes l r m \<bind> fetchAdd i d = fetchAdd i d m \<bind> h_shiftRight sizes l r"
    unfolding h_shiftLeft_move [of sizes l r m] h_shiftRight_move [of sizes l r m] c by (cases "fetchAdd i d m"; simp)+
qed

text \<open>The loops do not read the entry that the new block goes to.\<close>

lemma moveSizes_cong:
  "(\<And>current. a \<le> current \<Longrightarrow> current < b \<Longrightarrow> idx xs (current * HAggregateWidth m + off) = idx ys (current * HAggregateWidth m + off)) \<Longrightarrow>
     for_range a b (moveSizes xs off f t) m = for_range a b (moveSizes ys off f t) m"
proof (induction "nat (b - a)" arbitrary: a m)
  case (Suc k)
  then have ab: "a < b" by simp
  note w = moveSizes_width(1) [of ys off f t a m]
  have "moveSizes xs off f t a m = moveSizes ys off f t a m" using Suc.prems ab by (simp add: moveSizes_def h_getBlockIndex_def)
  moreover have "for_range (a + 1) b (moveSizes xs off f t) m' = for_range (a + 1) b (moveSizes ys off f t) m'"
    if "moveSizes ys off f t a m = Some m'" for m'
    using Suc.hyps(1) [of "a + 1" m'] Suc.hyps(2) Suc.prems w [OF that] by simp
  ultimately show ?case using ab by (cases "moveSizes ys off f t a m") (simp_all add: for_range_step)
qed simp

lemma idx_update_other: "i \<noteq> j \<Longrightarrow> 0 \<le> j \<Longrightarrow> idx (xs[nat j := v]) i = idx xs i"
  by (auto simp: idx_def nth_opt_def nat_eq_iff)

lemma h_adjust_fetchAdd: "HAggregateWidth m' = HAggregateWidth m \<Longrightarrow> h_adjustBlockSize i 0 s m' = fetchAdd (h_aggregateIndex m i) s m'"
  by (simp add: h_adjustBlockSize_def h_aggregateIndex_def)

lemma h_shiftRight_insert:
  assumes inv: "hInv sizes n m" and sh: "isShiftRight sizes mid l r" "r \<le> n"
  shows "\<exists>m'. (h_adjustBlockSize (l - 1) 0 s m \<bind> h_shiftRight (mid[nat (l - 1) := s]) l r) = Some m' \<and> hInv (mid[nat (l - 1) := s]) n m'"
proof -
  let ?new = "mid[nat (l - 1) := s]"
  have W: "0 < HAggregateWidth m" using inv by (simp add: hInv_def)
  have l: "1 \<le> l" "l \<le> r" "mid ! nat (l - 1) = 0" using sh(1) by (auto simp: isShiftRight_def isShiftLeft_def)
  obtain m1 where m1: "h_shiftRight mid l r m = Some m1" "hInv mid n m1" using hier.shiftRight_inv [OF inv sh] by blast
  have "idx ?new (current * HAggregateWidth m + 0) = idx mid (current * HAggregateWidth m + 0)" if "h_nextAggregate m l \<le> current" for current
  proof -
    have "l \<le> current * HAggregateWidth m"
      using h_nextAggregate_bounds(1) [OF W, of l] mult_right_mono [OF that, of "HAggregateWidth m"] W l(1) by linarith
    then show ?thesis using l by (intro idx_update_other) auto
  qed
  then have eq: "h_shiftRight ?new l r m = Some m1"
    using m1(1) moveSizes_cong [of "h_nextAggregate m l" _ ?new m 0 mid] by (simp add: h_shiftRight_move)
  have w: "HAggregateWidth m1 = HAggregateWidth m" using m1(1) moveSizes_width(2) by (metis h_shiftRight_move)
  obtain m2 where m2: "h_adjustBlockSize (l - 1) 0 s m1 = Some m2" "hInv ?new n m2"
    using hier.adjust_inv [OF m1(2), of "l - 1" s] l sh(2) by auto
  have "h_adjustBlockSize (l - 1) 0 s m \<bind> h_shiftRight ?new l r = h_shiftRight ?new l r m \<bind> fetchAdd (h_aggregateIndex m (l - 1)) s"
    using h_shift_commute(2) by (simp add: h_adjust_fetchAdd)
  then show ?thesis using eq m2 h_adjust_fetchAdd [OF w] by auto
qed

lemma h_shiftLeft_insert:
  assumes inv: "hInv sizes n m" and sh: "isShiftLeft sizes mid l r" "r + 1 < n"
  shows "\<exists>m'. (h_adjustBlockSize (r + 1) 0 s m \<bind> h_shiftLeft (mid[nat (r + 1) := s]) l r) = Some m' \<and> hInv (mid[nat (r + 1) := s]) n m'"
proof -
  let ?new = "mid[nat (r + 1) := s]"
  have W: "0 < HAggregateWidth m" using inv by (simp add: hInv_def)
  have l: "0 \<le> l" "l \<le> r" "mid ! nat (r + 1) = 0" using sh(1) by (auto simp: isShiftLeft_def)
  obtain m1 where m1: "h_shiftLeft mid l r m = Some m1" "hInv mid n m1" using hier.shiftLeft_inv [OF inv sh(1)] sh(2) by auto
  have "idx ?new (current * HAggregateWidth m + -1) = idx mid (current * HAggregateWidth m + -1)" if "current < h_aggregateIndex m (r + 1) + 1" for current
  proof -
    have "h_aggregateIndex m (r + 1) = (r + 1) div HAggregateWidth m" using W l by (intro h_aggregateIndex_nonneg) auto
    moreover have "(r + 1) div HAggregateWidth m * HAggregateWidth m \<le> r + 1"
      using minus_mod_eq_div_mult [of "r + 1" "HAggregateWidth m"] pos_mod_sign [OF W, of "r + 1"] by linarith
    ultimately have "h_aggregateIndex m (r + 1) * HAggregateWidth m \<le> r + 1" by simp
    then have "current * HAggregateWidth m \<le> r + 1" using that W mult_right_mono [of current "h_aggregateIndex m (r + 1)" "HAggregateWidth m"] by linarith
    then show ?thesis using l by (intro idx_update_other) auto
  qed
  then have eq: "h_shiftLeft ?new l r m = Some m1"
    using m1(1) moveSizes_cong [of _ "h_aggregateIndex m (r + 1) + 1" ?new m "-1" mid] by (simp add: h_shiftLeft_move)
  have w: "HAggregateWidth m1 = HAggregateWidth m" using m1(1) moveSizes_width(2) by (metis h_shiftLeft_move)
  obtain m2 where m2: "h_adjustBlockSize (r + 1) 0 s m1 = Some m2" "hInv ?new n m2"
    using hier.adjust_inv [OF m1(2), of "r + 1" s] l sh(2) by auto
  have "h_adjustBlockSize (r + 1) 0 s m \<bind> h_shiftLeft ?new l r = h_shiftLeft ?new l r m \<bind> fetchAdd (h_aggregateIndex m (r + 1)) s"
    using h_shift_commute(1) by (simp add: h_adjust_fetchAdd)
  then show ?thesis using eq m2 h_adjust_fetchAdd [OF w] by auto
qed

end
