(* ===== verification/Block.thy ===== *)
theory Block
  imports Sds_Types
begin

text \<open>
  The blocks of the packed memory array: class \<open>PmaEntry\<close> of \<open>dataStructures/block.hpp\<close>.

  An entry holds a pointer to a block (an array of \<open>MaxSize\<close> cells), the key of the block's first
  element and the number of elements. Blocks are moved between entries, never shared: whenever the
  code copies an entry it resets the source or drops it, so the block is part of the entry's value
  (\<^term>\<open>None\<close> is the null pointer). Cells behind the size keep whatever was stored there (\<open>stale\<close>);
  only debug builds with \<open>IsTrivialType\<close> erase them.

  The first part translates the member functions in the order of the file; the second part relates
  them to operations on the list of the block's elements (\<open>elems\<close>).
\<close>

section \<open>The entry and its member functions\<close>

record ('k, 'v) PmaEntry =
  block :: "'v list option"
  head :: 'k
  bsize :: nat

definition emptyEntry :: "('k, 'v) tparams \<Rightarrow> ('k, 'v) PmaEntry" where
  "emptyEntry P = \<lparr>block = None, head = NULL_KEY P, bsize = 0\<rparr>"

definition isEmpty :: "('k, 'v) PmaEntry \<Rightarrow> bool" where
  "isEmpty b \<longleftrightarrow> block b = None"

definition IsTrivialType :: "('k, 'v) tparams \<Rightarrow> bool" where
  "IsTrivialType P \<longleftrightarrow> nullValue P \<noteq> None"

definition get :: "('k, 'v) PmaEntry \<Rightarrow> nat \<Rightarrow> 'v option" where
  "get b i = do { cells \<leftarrow> block b; nth_opt cells i }"

definition setCell :: "('k, 'v) PmaEntry \<Rightarrow> nat \<Rightarrow> 'v \<Rightarrow> ('k, 'v) PmaEntry option" where
  "setCell b i v = do {
     cells \<leftarrow> block b;
     cells' \<leftarrow> upd_opt cells i v;
     Some (b\<lparr>block := Some cells'\<rparr>) }"

lemma setCell_frame: "setCell b i v = Some b' \<Longrightarrow> bsize b' = bsize b \<and> head b' = head b"
  by (auto simp: setCell_def bind_eq_Some_conv)

text \<open>The writes of \<open>TRIVIAL_NULL_VALUE\<close> that only debug builds of trivial types perform.\<close>

definition eraseCell :: "('k, 'v) tparams \<Rightarrow> ('k, 'v) PmaEntry \<Rightarrow> nat \<Rightarrow> ('k, 'v) PmaEntry option" where
  "eraseCell P b i =
     (case nullValue P of
        None \<Rightarrow> Some b
      | Some nv \<Rightarrow> if NDEBUG P then Some b else setCell b i nv)"

definition allocateBlock :: "('k, 'v) tparams \<Rightarrow> ('k, 'v) PmaEntry \<Rightarrow> ('k, 'v) PmaEntry option" where
  "allocateBlock P b = do {
     assertMsg (NDEBUG P) (block b = None);
     let cells = replicate (MaxSize P) (defaultValue P);
     let cells = (case nullValue P of
        None \<Rightarrow> cells
      | Some nv \<Rightarrow> if NDEBUG P then cells else replicate (MaxSize P) nv);
     Some (b\<lparr>block := Some cells\<rparr>) }"

definition deleteBlock :: "('k, 'v) tparams \<Rightarrow> ('k, 'v) PmaEntry \<Rightarrow> ('k, 'v) PmaEntry option" where
  "deleteBlock P b = do {
     assertMsg (NDEBUG P) (block b \<noteq> None);
     Some (b\<lparr>block := None\<rparr>) }"

definition updateHead :: "('k, 'v) tparams \<Rightarrow> ('k, 'v) PmaEntry \<Rightarrow> ('k, 'v) PmaEntry option" where
  "updateHead P b = do { v \<leftarrow> get b 0; Some (b\<lparr>head := keyOfValue P v\<rparr>) }"

text \<open>\<open>AssertMsg(size == 0 || head == KeyOf::keyOfValue(get(0)), "Wrong head")\<close>\<close>

definition assertHead :: "('k, 'v) tparams \<Rightarrow> ('k, 'v) PmaEntry \<Rightarrow> unit option" where
  "assertHead P b =
     (if NDEBUG P \<or> bsize b = 0 then Some ()
      else do { v \<leftarrow> get b 0; assertMsg False (head b = keyOfValue P v) })"

definition cellEmpty :: "('k, 'v) tparams \<Rightarrow> ('k, 'v) PmaEntry \<Rightarrow> nat \<Rightarrow> bool option" where
  "cellEmpty P b i = do { v \<leftarrow> get b i; Some (keyOfValue P v = NULL_KEY P) }"

function linearSearch ::
  "('k::linorder, 'v) tparams \<Rightarrow> ('k, 'v) PmaEntry \<Rightarrow> 'k \<Rightarrow> nat \<Rightarrow> nat option" where
  "linearSearch P b e pos =
     (if pos < bsize b
      then do {
        v \<leftarrow> get b pos;
        if keyOfValue P v < e then linearSearch P b e (Suc pos) else Some pos }
      else Some pos)"
  by pat_completeness auto
termination
  by (relation "measure (\<lambda>(P, b, e, pos). bsize b - pos)") auto

declare linearSearch.simps [simp del]

function makeFreeLoop ::
  "('k, 'v) PmaEntry \<Rightarrow> nat \<Rightarrow> 'v \<Rightarrow> ('k, 'v) PmaEntry option" where
  "makeFreeLoop b shift carry =
     (if shift \<le> bsize b
      then do {
        v \<leftarrow> get b shift;
        b' \<leftarrow> setCell b shift carry;
        makeFreeLoop b' (Suc shift) v }
      else Some b)"
  by pat_completeness auto
termination
  by (relation "measure (\<lambda>(b, shift, carry). Suc (bsize b) - shift)") (auto dest: setCell_frame)

declare makeFreeLoop.simps [simp del]

definition makeFree :: "('k, 'v) tparams \<Rightarrow> ('k, 'v) PmaEntry \<Rightarrow> nat \<Rightarrow> ('k, 'v) PmaEntry option" where
  "makeFree P b index = do {
     let carry = (case nullValue P of
        None \<Rightarrow> indeterminate P
      | Some nv \<Rightarrow> if NDEBUG P then indeterminate P else nv);
     b' \<leftarrow> makeFreeLoop b index carry;
     if NDEBUG P \<or> \<not> IsTrivialType P then Some b'
     else do { em \<leftarrow> cellEmpty P b' index; assertMsg False em; Some b' } }"

definition insertAtIndex ::
  "('k, 'v) tparams \<Rightarrow> ('k, 'v) PmaEntry \<Rightarrow> 'v \<Rightarrow> nat \<Rightarrow> ('k, 'v) PmaEntry option" where
  "insertAtIndex P b e index = do {
     assertMsg (NDEBUG P) (block b \<noteq> None);
     b \<leftarrow> makeFree P b index;
     b \<leftarrow> setCell b index e;
     Some (b\<lparr>bsize := Suc (bsize b)\<rparr>) }"

definition insertWithIndex ::
  "('k::linorder, 'v) tparams \<Rightarrow> ('k, 'v) PmaEntry \<Rightarrow> 'v \<Rightarrow> nat \<Rightarrow>
     (bool \<times> nat \<times> ('k, 'v) PmaEntry) option" where
  "insertWithIndex P b e searchStartIndex = do {
     assertMsg (NDEBUG P) (block b \<noteq> None);
     assertMsg (NDEBUG P) (bsize b < MaxSize P);
     insertionPosition \<leftarrow> linearSearch P b (keyOfValue P e) searchStartIndex;
     v \<leftarrow> get b insertionPosition;
     if keyOfValue P v = keyOfValue P e
     then do { assertHead P b; Some (False, insertionPosition, b) }
     else do {
       b \<leftarrow> insertAtIndex P b e insertionPosition;
       b \<leftarrow> (if insertionPosition = 0 then updateHead P b else Some b);
       assertHead P b;
       Some (True, insertionPosition, b) } }"

text \<open>
  \<open>merge\<close> reads \<open>numberOfElements\<close> elements from the batch pointer; the batch is a list whose reads
  are bounds-checked.
\<close>

function mergeLoop ::
  "('k::linorder, 'v) tparams \<Rightarrow> 'v list \<Rightarrow> nat \<Rightarrow> nat \<Rightarrow> nat \<Rightarrow> ('k, 'v) PmaEntry \<Rightarrow>
     ('k, 'v) PmaEntry option" where
  "mergeLoop P batch numberOfElements i insertionPosition b =
     (if i < numberOfElements
      then do {
        e \<leftarrow> nth_opt batch i;
        insertionPosition \<leftarrow> linearSearch P b (keyOfValue P e) insertionPosition;
        v \<leftarrow> get b insertionPosition;
        b \<leftarrow> (if keyOfValue P v \<noteq> keyOfValue P e then insertAtIndex P b e insertionPosition else Some b);
        mergeLoop P batch numberOfElements (Suc i) insertionPosition b }
      else Some b)"
  by pat_completeness auto
termination
  by (relation "measure (\<lambda>(P, batch, n, i, pos, b). n - i)") auto

declare mergeLoop.simps [simp del]

definition merge ::
  "('k::linorder, 'v) tparams \<Rightarrow> ('k, 'v) PmaEntry \<Rightarrow> 'v list \<Rightarrow> nat \<Rightarrow> ('k, 'v) PmaEntry option" where
  "merge P b batch numberOfElements = do {
     assertMsg (NDEBUG P) (block b \<noteq> None);
     assertMsg (NDEBUG P) (numberOfElements > 0);
     e \<leftarrow> nth_opt batch 0;
     insertionPosition \<leftarrow> linearSearch P b (keyOfValue P e) 0;
     v \<leftarrow> get b insertionPosition;
     b \<leftarrow> (if keyOfValue P v \<noteq> keyOfValue P e
           then do {
             b \<leftarrow> insertAtIndex P b e insertionPosition;
             if insertionPosition = 0 then updateHead P b else Some b }
           else Some b);
     b \<leftarrow> mergeLoop P batch numberOfElements 1 insertionPosition b;
     assertHead P b;
     Some b }"

text \<open>
  \<open>std::copy\<close> of \<open>n\<close> cells from position \<open>s\<close> of \<open>src\<close> to position \<open>d\<close> of \<open>dst\<close>. Inside one array the
  code copies forwards with \<open>d \<le> s\<close> (\<open>std::copy\<close>) or backwards with \<open>s \<le> d\<close>
  (\<open>std::copy_backward\<close>), where the result is the same.
\<close>

definition copyCells :: "'v list \<Rightarrow> nat \<Rightarrow> nat \<Rightarrow> 'v list \<Rightarrow> nat \<Rightarrow> 'v list option" where
  "copyCells src s n dst d =
     (if s + n \<le> length src \<and> d + n \<le> length dst
      then Some (take d dst @ take n (drop s src) @ drop (d + n) dst)
      else None)"

text \<open>\<open>for (i = from; i < to; ++i) block[i] = TRIVIAL_NULL_VALUE\<close> of debug builds.\<close>

definition eraseCells ::
  "('k, 'v) tparams \<Rightarrow> nat \<Rightarrow> nat \<Rightarrow> ('k, 'v) PmaEntry \<Rightarrow> ('k, 'v) PmaEntry option" where
  "eraseCells P from to b = foldM (\<lambda>i b. eraseCell P b i) [from..<to] b"

definition split ::
  "('k, 'v) tparams \<Rightarrow> ('k, 'v) PmaEntry \<Rightarrow> (('k, 'v) PmaEntry \<times> ('k, 'v) PmaEntry) option" where
  "split P b = do {
     assertHead P b;
     assertMsg (NDEBUG P) (block b \<noteq> None);
     assertMsg (NDEBUG P) (bsize b = MaxSize P);
     rightHalf \<leftarrow> allocateBlock P (emptyEntry P);
     let splitPosition = MaxSize P div 2;
     cells \<leftarrow> block b;
     rcells \<leftarrow> block rightHalf;
     rcells \<leftarrow> copyCells cells splitPosition (MaxSize P - splitPosition) rcells 0;
     b \<leftarrow> eraseCells P splitPosition (MaxSize P) b;
     let b = b\<lparr>bsize := splitPosition\<rparr>;
     rightHalf \<leftarrow> updateHead P (rightHalf\<lparr>block := Some rcells, bsize := splitPosition\<rparr>);
     assertHead P b;
     Some (b, rightHalf) }"

definition findIndex :: "('k::linorder, 'v) tparams \<Rightarrow> ('k, 'v) PmaEntry \<Rightarrow> 'k \<Rightarrow> nat option" where
  "findIndex P b e = do {
     assertMsg (NDEBUG P) (block b \<noteq> None);
     linearSearch P b e 0 }"

definition blockContains :: "('k::linorder, 'v) tparams \<Rightarrow> ('k, 'v) PmaEntry \<Rightarrow> 'k \<Rightarrow> bool option" where
  "blockContains P b e = do {
     assertMsg (NDEBUG P) (block b \<noteq> None);
     pos \<leftarrow> linearSearch P b e 0;
     if pos < bsize b then do { v \<leftarrow> get b pos; Some (e = keyOfValue P v) } else Some False }"

function moveForwardLoop :: "('k, 'v) PmaEntry \<Rightarrow> nat \<Rightarrow> ('k, 'v) PmaEntry option" where
  "moveForwardLoop b shift =
     (if shift + 1 < bsize b
      then do {
        v \<leftarrow> get b (shift + 1);
        b' \<leftarrow> setCell b shift v;
        moveForwardLoop b' (shift + 1) }
      else Some b)"
  by pat_completeness auto
termination
  by (relation "measure (\<lambda>(b, shift). bsize b - shift)") (auto dest: setCell_frame)

declare moveForwardLoop.simps [simp del]

definition moveForward :: "('k, 'v) tparams \<Rightarrow> ('k, 'v) PmaEntry \<Rightarrow> nat \<Rightarrow> ('k, 'v) PmaEntry option" where
  "moveForward P b index = do {
     b \<leftarrow> moveForwardLoop b index;
     eraseCell P b (bsize b - 1) }"

definition remove ::
  "('k::linorder, 'v) tparams \<Rightarrow> ('k, 'v) PmaEntry \<Rightarrow> 'v \<Rightarrow> (bool \<times> ('k, 'v) PmaEntry) option" where
  "remove P b e = do {
     assertMsg (NDEBUG P) (block b \<noteq> None);
     pos \<leftarrow> linearSearch P b (keyOfValue P e) 0;
     found \<leftarrow> (if pos < bsize b
               then do { v \<leftarrow> get b pos; Some (keyOfValue P v = keyOfValue P e) } else Some False);
     if found
     then do {
       b \<leftarrow> moveForward P b pos;
       b \<leftarrow> updateHead P (b\<lparr>bsize := bsize b - 1\<rparr>);
       assertHead P b;
       Some (True, b) }
     else do { assertHead P b; Some (False, b) } }"

text \<open>The loop of \<open>mergeSmaller\<close> that moves the elements to the back, from \<open>i - 1\<close> down to 0.\<close>

fun shiftBack ::
  "('k, 'v) tparams \<Rightarrow> nat \<Rightarrow> nat \<Rightarrow> ('k, 'v) PmaEntry \<Rightarrow> ('k, 'v) PmaEntry option" where
  "shiftBack P offset 0 b = Some b"
| "shiftBack P offset (Suc i) b = do {
     v \<leftarrow> get b i;
     b \<leftarrow> setCell b (offset + i) v;
     b \<leftarrow> eraseCell P b i;
     shiftBack P offset i b }"

definition mergeSmaller ::
  "('k, 'v) tparams \<Rightarrow> ('k, 'v) PmaEntry \<Rightarrow> ('k, 'v) PmaEntry \<Rightarrow> ('k, 'v) PmaEntry option" where
  "mergeSmaller P b other = do {
     assertMsg (NDEBUG P) (block b \<noteq> None);
     assertMsg (NDEBUG P) (block other \<noteq> None);
     b \<leftarrow> shiftBack P (bsize other) (bsize b) b;
     b \<leftarrow> foldM (\<lambda>i b. do { v \<leftarrow> get other i; setCell b i v }) [0..<bsize other] b;
     b \<leftarrow> updateHead P (b\<lparr>bsize := u16 (int (bsize b) + int (bsize other))\<rparr>);
     assertHead P b;
     Some b }"

definition steal ::
  "('k, 'v) tparams \<Rightarrow> ('k, 'v) PmaEntry \<Rightarrow> ('k, 'v) PmaEntry \<Rightarrow>
     (('k, 'v) PmaEntry \<times> ('k, 'v) PmaEntry) option" where
  "steal P b right = do {
     assertMsg (NDEBUG P) (block b \<noteq> None);
     assertMsg (NDEBUG P) (block right \<noteq> None);
     assertMsg (NDEBUG P) (bsize b > 0);
     assertMsg (NDEBUG P) (bsize b + bsize right \<ge> 2 * MinSize P);
     let needed = u16 (int (MinSize P) - int (bsize b));
     cells \<leftarrow> block b;
     rcells \<leftarrow> block right;
     cells \<leftarrow> copyCells rcells 0 needed cells (bsize b);
     right \<leftarrow> eraseCells P 0 needed right;
     let b = b\<lparr>block := Some cells, bsize := u16 (int (bsize b) + int needed)\<rparr>;
     rcells \<leftarrow> block right;
     rcells \<leftarrow> (if needed \<le> bsize right
                then copyCells rcells needed (bsize right - needed) rcells 0 else None);
     right \<leftarrow> eraseCells P (bsize right - needed) (bsize right) (right\<lparr>block := Some rcells\<rparr>);
     let right = right\<lparr>bsize := bsize right - needed\<rparr>;
     assertMsg (NDEBUG P) (bsize b \<ge> MinSize P);
     assertMsg (NDEBUG P) (bsize right \<ge> MinSize P);
     right \<leftarrow> updateHead P right;
     assertHead P b;
     Some (b, right) }"

definition stealFromSmaller ::
  "('k, 'v) tparams \<Rightarrow> ('k, 'v) PmaEntry \<Rightarrow> ('k, 'v) PmaEntry \<Rightarrow>
     (('k, 'v) PmaEntry \<times> ('k, 'v) PmaEntry) option" where
  "stealFromSmaller P b left = do {
     assertMsg (NDEBUG P) (block b \<noteq> None);
     assertMsg (NDEBUG P) (block left \<noteq> None);
     assertMsg (NDEBUG P) (bsize b > 0);
     assertMsg (NDEBUG P) (bsize b + bsize left \<ge> 2 * MinSize P);
     let needed = u16 (int (MinSize P) - int (bsize b));
     cells \<leftarrow> block b;
     cells \<leftarrow> copyCells cells 0 (bsize b) cells needed;
     b \<leftarrow> eraseCells P 0 needed (b\<lparr>block := Some cells\<rparr>);
     cells \<leftarrow> block b;
     lcells \<leftarrow> block left;
     cells \<leftarrow> (if needed \<le> bsize left
               then copyCells lcells (bsize left - needed) needed cells 0 else None);
     left \<leftarrow> eraseCells P (bsize left - needed) (bsize left) left;
     let b = b\<lparr>block := Some cells, bsize := u16 (int (bsize b) + int needed)\<rparr>;
     let left = left\<lparr>bsize := bsize left - needed\<rparr>;
     assertMsg (NDEBUG P) (bsize b \<ge> MinSize P);
     assertMsg (NDEBUG P) (bsize left \<ge> MinSize P);
     b \<leftarrow> updateHead P b;
     assertHead P b;
     Some (b, left) }"

definition removeLast :: "('k, 'v) tparams \<Rightarrow> ('k, 'v) PmaEntry \<Rightarrow> ('k, 'v) PmaEntry option" where
  "removeLast P b = do {
     b \<leftarrow> eraseCell P b (u16 (int (bsize b) - 1));
     let b = b\<lparr>bsize := u16 (int (bsize b) - 1)\<rparr>;
     assertHead P b;
     Some b }"

text \<open>
  \<open>isValid\<close> checks only debug builds of trivial types, and there every violation is an \<open>AssertMsg\<close>,
  so the function returns true or does not return.
\<close>

definition blockIsValid :: "('k::linorder, 'v) tparams \<Rightarrow> ('k, 'v) PmaEntry \<Rightarrow> bool option" where
  "blockIsValid P b =
     (if NDEBUG P \<or> \<not> IsTrivialType P then Some True
      else do {
        foldM (\<lambda>i values. do {
            em \<leftarrow> cellEmpty P b i;
            if em then Some False else do { assertMsg False values; Some values } })
          [0..<MaxSize P] True;
        foldM (\<lambda>i (stop, current). do {
            em \<leftarrow> cellEmpty P b i;
            v \<leftarrow> get b i;
            if stop \<or> em then Some (True, current)
            else do { assertMsg False (current < keyOfValue P v); Some (False, keyOfValue P v) } })
          [0..<MaxSize P] (False, NULL_KEY P);
        foldM (\<lambda>i u. do { em \<leftarrow> cellEmpty P b i; assertMsg False (\<not> em) }) [0..<bsize b] ();
        foldM (\<lambda>i u. do { em \<leftarrow> cellEmpty P b i; assertMsg False em }) [bsize b..<MaxSize P] ();
        Some True })"

section \<open>Blocks as sorted lists\<close>

text \<open>
  \<open>wfParams\<close> collects what the instantiations of the templates satisfy: \<open>NULL_KEY\<close> is the key of a
  value-initialised cell, the block size is even and fits \<open>BlockSizeType\<close>, and the minimum size is
  half of it, as \<open>BatchedSparseArray\<close> instantiates it.
\<close>

definition wfParams :: "('k, 'v) tparams \<Rightarrow> bool" where
  "wfParams P \<longleftrightarrow>
     keyOfValue P (defaultValue P) = NULL_KEY P \<and>
     (\<forall>nv. nullValue P = Some nv \<longrightarrow> keyOfValue P nv = NULL_KEY P) \<and>
     2 \<le> MaxSize P \<and> MaxSize P < 65536 \<and> MaxSize P = 2 * MinSize P \<and> 0 < SegmentWidth P"

definition cellsOf :: "('k, 'v) PmaEntry \<Rightarrow> 'v list" where
  "cellsOf b = (case block b of None \<Rightarrow> [] | Some cells \<Rightarrow> cells)"

definition elems :: "('k, 'v) PmaEntry \<Rightarrow> 'v list" where
  "elems b = take (bsize b) (cellsOf b)"

definition stale :: "('k, 'v) PmaEntry \<Rightarrow> 'v list" where
  "stale b = drop (bsize b) (cellsOf b)"

definition keysOf :: "('k, 'v) tparams \<Rightarrow> ('k, 'v) PmaEntry \<Rightarrow> 'k list" where
  "keysOf P b = map (keyOfValue P) (elems b)"

text \<open>Storage shape: the pointer is valid, the array has \<open>MaxSize\<close> cells, the size is within it.\<close>

definition okBlock :: "('k, 'v) tparams \<Rightarrow> ('k, 'v) PmaEntry \<Rightarrow> bool" where
  "okBlock P b \<longleftrightarrow> block b \<noteq> None \<and> length (cellsOf b) = MaxSize P \<and> bsize b \<le> MaxSize P"

definition wfBlock :: "('k::linorder, 'v) tparams \<Rightarrow> ('k, 'v) PmaEntry \<Rightarrow> bool" where
  "wfBlock P b \<longleftrightarrow>
     okBlock P b \<and> strictly_sorted (keysOf P b) \<and> (\<forall>k\<in>set (keysOf P b). NULL_KEY P < k) \<and>
     (0 < bsize b \<longrightarrow> head b = hd (keysOf P b))"

text \<open>
  What the comments at the members of \<open>PmaEntry\<close> say: the head is \<open>NULL_KEY\<close> and the size 0 exactly when there is no block.
\<close>

definition documented :: "('k, 'v) tparams \<Rightarrow> ('k, 'v) PmaEntry \<Rightarrow> bool" where
  "documented P b \<longleftrightarrow> (head b = NULL_KEY P \<longleftrightarrow> block b = None) \<and> (bsize b = 0 \<longleftrightarrow> block b = None)"

text \<open>The abstract insertion: keep the list sorted by key, prefer the element that is there.\<close>

fun insKey :: "('v \<Rightarrow> 'k::linorder) \<Rightarrow> 'v \<Rightarrow> 'v list \<Rightarrow> 'v list" where
  "insKey kf e [] = [e]"
| "insKey kf e (x # xs) =
     (if kf x < kf e then x # insKey kf e xs else if kf x = kf e then x # xs else e # x # xs)"

definition keyPos :: "('k::linorder, 'v) tparams \<Rightarrow> ('k, 'v) PmaEntry \<Rightarrow> 'k \<Rightarrow> nat" where
  "keyPos P b k = length (takeWhile (\<lambda>v. keyOfValue P v < k) (elems b))"

text \<open>
  The comparison with the cell behind the last element is harmless for a key that no unused cell
  holds, or that the block contains anyway.
\<close>

definition staleOk :: "('k, 'v) tparams \<Rightarrow> ('k, 'v) PmaEntry \<Rightarrow> 'k \<Rightarrow> bool" where
  "staleOk P b k \<longleftrightarrow> k \<in> keyOfValue P ` set (stale b) \<longrightarrow> k \<in> set (keysOf P b)"

text \<open>A key above all keys of the block that the first cell behind the elements still holds.\<close>

definition shadowed :: "('k::linorder, 'v) tparams \<Rightarrow> ('k, 'v) PmaEntry \<Rightarrow> 'k \<Rightarrow> bool" where
  "shadowed P b k \<longleftrightarrow> (\<forall>l\<in>set (keysOf P b). l < k) \<and> stale b \<noteq> [] \<and> keyOfValue P (hd (stale b)) = k"

text \<open>The cells after an insertion at position \<open>index\<close> of a block that is not full.\<close>

definition insCells :: "('k, 'v) PmaEntry \<Rightarrow> 'v \<Rightarrow> nat \<Rightarrow> 'v list" where
  "insCells b e index = take index (elems b) @ e # drop index (elems b) @ tl (stale b)"

lemma wfParamsD:
  assumes "wfParams P"
  shows "keyOfValue P (defaultValue P) = NULL_KEY P" "nullValue P = Some nv \<Longrightarrow> keyOfValue P nv = NULL_KEY P"
    "0 < MaxSize P" "MaxSize P < 65536" "MaxSize P = 2 * MinSize P" "0 < SegmentWidth P" "0 < MinSize P"
  using assms by (auto simp: wfParams_def)

lemma cellsOf_Some: "block b = Some cells \<Longrightarrow> cellsOf b = cells"
  by (simp add: cellsOf_def)

lemma okBlock_block: "okBlock P b \<Longrightarrow> block b = Some (cellsOf b)"
  by (auto simp: okBlock_def cellsOf_Some)

lemma okBlockD:
  assumes "okBlock P b"
  shows "block b = Some (cellsOf b)" "length (cellsOf b) = MaxSize P" "bsize b \<le> MaxSize P"
  using assms by (auto simp: okBlock_def cellsOf_Some)

lemma wfBlock_ok [simp]: "wfBlock P b \<Longrightarrow> okBlock P b"
  by (simp add: wfBlock_def)

lemma length_elems [simp]: "okBlock P b \<Longrightarrow> length (elems b) = bsize b"
  by (auto simp: elems_def okBlock_def)

lemma length_keysOf [simp]: "okBlock P b \<Longrightarrow> length (keysOf P b) = bsize b"
  by (simp add: keysOf_def)

lemma get_ok: "okBlock P b \<Longrightarrow> i < MaxSize P \<Longrightarrow> get b i = Some (cellsOf b ! i)"
  by (simp add: get_def okBlockD)

lemma get_elems: "okBlock P b \<Longrightarrow> i < bsize b \<Longrightarrow> get b i = Some (elems b ! i)"
  using okBlockD [of P b] by (simp add: get_def elems_def)

lemma setCell_ok:
  "okBlock P b \<Longrightarrow> i < MaxSize P \<Longrightarrow> setCell b i v = Some (b\<lparr>block := Some ((cellsOf b)[i := v])\<rparr>)"
  by (simp add: setCell_def okBlockD)

lemma cellsOf_upd [simp]: "cellsOf (b\<lparr>block := Some cells\<rparr>) = cells"
  "cellsOf (b\<lparr>block := Some cells, bsize := n\<rparr>) = cells"
  "cellsOf (b\<lparr>block := Some cells, bsize := n, head := h\<rparr>) = cells"
  "cellsOf (b\<lparr>bsize := n\<rparr>) = cellsOf b" "cellsOf (b\<lparr>head := h\<rparr>) = cellsOf b"
  by (simp_all add: cellsOf_def)

lemma okBlock_upd [simp]:
  "length cells = MaxSize P \<Longrightarrow> n \<le> MaxSize P \<Longrightarrow> okBlock P (b\<lparr>block := Some cells, bsize := n\<rparr>)"
  "length cells = MaxSize P \<Longrightarrow> bsize b \<le> MaxSize P \<Longrightarrow> okBlock P (b\<lparr>block := Some cells\<rparr>)"
  "length cells = MaxSize P \<Longrightarrow> n \<le> MaxSize P \<Longrightarrow> okBlock P (b\<lparr>block := Some cells, bsize := n, head := h\<rparr>)"
  by (simp_all add: okBlock_def)

subsection \<open>Searching\<close>

lemma linearSearch_run:
  assumes "okBlock P b" and "pos \<le> bsize b"
  shows "linearSearch P b e pos =
           Some (pos + length (takeWhile (\<lambda>v. keyOfValue P v < e) (drop pos (elems b))))"
  using assms
proof (induction P b e pos rule: linearSearch.induct)
  case (1 P b e pos)
  show ?case
  proof (cases "pos < bsize b")
    case True
    then have "get b pos = Some (elems b ! pos)" and "drop pos (elems b) = elems b ! pos # drop (Suc pos) (elems b)"
      using 1(2) by (auto simp: get_elems Cons_nth_drop_Suc)
    then show ?thesis
      using True 1 by (subst linearSearch.simps) auto
  next
    case False
    then show ?thesis using 1(2,3) by (subst linearSearch.simps) simp
  qed
qed

lemma keyPos_le [simp]: "okBlock P b \<Longrightarrow> keyPos P b k \<le> bsize b"
  unfolding keyPos_def by (metis length_elems length_takeWhile_le)

lemma takeWhile_prefix: "(\<forall>v\<in>set (take n xs). Q v) \<Longrightarrow> n \<le> length xs \<Longrightarrow>
   length (takeWhile Q xs) = n + length (takeWhile Q (drop n xs))"
  by (metis append_take_drop_id length_append length_take min.absorb2 takeWhile_append2)

lemma linearSearch_keyPos:
  assumes "okBlock P b" and "pos \<le> bsize b" and "\<forall>v\<in>set (take pos (elems b)). keyOfValue P v < e"
  shows "linearSearch P b e pos = Some (keyPos P b e)"
  using assms by (simp add: linearSearch_run keyPos_def takeWhile_prefix)

lemma keyPos_before: "v \<in> set (take (keyPos P b k) (elems b)) \<Longrightarrow> keyOfValue P v < k"
  unfolding keyPos_def by (metis set_takeWhileD takeWhile_eq_take)

lemma keyPos_at: "okBlock P b \<Longrightarrow> keyPos P b k < bsize b \<Longrightarrow> \<not> keyOfValue P (elems b ! keyPos P b k) < k"
  unfolding keyPos_def by (metis length_elems nth_length_takeWhile)

subsection \<open>Insertion\<close>

lemma insKey_pos:
  "insKey kf e xs =
     (let p = length (takeWhile (\<lambda>v. kf v < kf e) xs) in
      if p < length xs \<and> kf (xs ! p) = kf e then xs else take p xs @ e # drop p xs)"
  by (induction xs) (auto simp: Let_def)

lemma makeFreeLoop_run:
  assumes "okBlock P b" and "bsize b < MaxSize P" and "index \<le> Suc (bsize b)"
  shows "makeFreeLoop b index carry =
     Some (b\<lparr>block := Some (take index (cellsOf b) @
        (take (Suc (bsize b) - index) (carry # drop index (cellsOf b))) @ drop (Suc (bsize b)) (cellsOf b))\<rparr>)"
  using assms
proof (induction b index carry rule: makeFreeLoop.induct)
  case (1 b shift carry)
  note ok = okBlockD [OF 1(2)]
  show ?case
  proof (cases "shift \<le> bsize b")
    case True
    then have lt: "shift < length (cellsOf b)" using 1(3) ok by simp
    let ?b = "b\<lparr>block := Some ((cellsOf b)[shift := carry])\<rparr>"
    have g: "get b shift = Some (cellsOf b ! shift)" and st: "setCell b shift carry = Some ?b"
      using lt ok 1(2) by (auto simp: get_ok setCell_ok)
    have IH: "makeFreeLoop ?b (Suc shift) (cellsOf b ! shift) = Some (?b\<lparr>block := Some (take (Suc shift) (cellsOf ?b) @
        (take (Suc (bsize ?b) - Suc shift) (cellsOf b ! shift # drop (Suc shift) (cellsOf ?b))) @ drop (Suc (bsize ?b)) (cellsOf ?b))\<rparr>)"
      by (rule 1(1) [OF True g st]) (use 1 True ok in auto)
    have "take (Suc shift) ((cellsOf b)[shift := carry]) = take shift (cellsOf b) @ [carry]"
      using lt by (simp add: take_Suc_conv_app_nth)
    moreover have "drop shift (cellsOf b) = cellsOf b ! shift # drop (Suc shift) (cellsOf b)"
      using lt by (simp add: Cons_nth_drop_Suc)
    moreover have "Suc (bsize b) - shift = Suc (bsize b - shift)" using True by simp
    ultimately show ?thesis
      using True IH g st by (subst makeFreeLoop.simps) auto
  next
    case False
    then have "shift = Suc (bsize b)" using 1(4) by simp
    then show ?thesis using False ok by (subst makeFreeLoop.simps) simp
  qed
qed

lemma length_insCells [simp]:
  "okBlock P b \<Longrightarrow> bsize b < MaxSize P \<Longrightarrow> index \<le> bsize b \<Longrightarrow> length (insCells b e index) = MaxSize P"
  by (simp add: insCells_def stale_def okBlockD)

lemma insertAtIndex_run:
  assumes wf: "wfParams P" and ok: "okBlock P b" and lt: "bsize b < MaxSize P" and le: "index \<le> bsize b"
  shows "insertAtIndex P b e index =
     Some (b\<lparr>block := Some (insCells b e index), bsize := Suc (bsize b)\<rparr>)"
proof -
  note okd = okBlockD [OF ok]
  define shifted where "shifted c = take index (cellsOf b) @ c # take (bsize b - index) (drop index (cellsOf b)) @
     drop (Suc (bsize b)) (cellsOf b)" for c
  have loop: "makeFreeLoop b index c = Some (b\<lparr>block := Some (shifted c)\<rparr>)" for c
    using makeFreeLoop_run [OF ok lt, of index c] le by (simp add: shifted_def Suc_diff_le)
  have len: "length (shifted c) = MaxSize P" for c
    using okd lt le by (simp add: shifted_def)
  have ix: "shifted c ! index = c" for c
    using okd lt le by (simp add: shifted_def nth_append)
  have nv: "keyOfValue P nv = NULL_KEY P" if "nullValue P = Some nv" for nv
    using wfParamsD(2) [OF wf that] .
  have gc: "get (b\<lparr>block := Some (shifted c)\<rparr>) index = Some c" for c
    using lt le len ix by (simp add: get_def)
  define c where "c = (case nullValue P of None \<Rightarrow> indeterminate P
     | Some nv \<Rightarrow> if NDEBUG P then indeterminate P else nv)"
  have em: "\<not> NDEBUG P \<and> IsTrivialType P \<Longrightarrow> keyOfValue P c = NULL_KEY P"
    by (auto simp: c_def IsTrivialType_def nv)
  have mf: "makeFree P b index = Some (b\<lparr>block := Some (shifted c)\<rparr>)"
    unfolding makeFree_def Let_def c_def [symmetric] loop
    using em by (auto simp: cellEmpty_def gc)
  have "(shifted c)[index := e] = shifted e" using okd lt le by (simp add: shifted_def list_update_append)
  also have "\<dots> = insCells b e index"
    using le by (simp add: shifted_def insCells_def elems_def stale_def drop_Suc tl_drop min_absorb1 drop_take)
  finally show ?thesis
    using okd lt le len by (simp add: insertAtIndex_def mf setCell_def)
qed

lemma elems_insCells [simp]:
  assumes "okBlock P b" "bsize b < MaxSize P" "index \<le> bsize b"
  shows "elems (b\<lparr>block := Some (insCells b e index), bsize := Suc (bsize b)\<rparr>) =
           take index (elems b) @ e # drop index (elems b)"
    and "stale (b\<lparr>block := Some (insCells b e index), bsize := Suc (bsize b)\<rparr>) = tl (stale b)"
  using assms by (simp_all add: elems_def [of "b\<lparr>block := _, bsize := _\<rparr>"] stale_def [of "b\<lparr>block := _, bsize := _\<rparr>"]
      insCells_def length_elems [OF assms(1)] Suc_diff_le)

lemma set_insKey: "set xs \<subseteq> set (insKey kf e xs)"
  by (induction xs) auto

lemma keys_insKey: "kf ` set (insKey kf e xs) = insert (kf e) (kf ` set xs)"
  by (induction xs) auto

lemma staleOk_mono:
  assumes "staleOk P b k" "set (stale b') \<subseteq> set (stale b)" "set (elems b) \<subseteq> set (elems b')"
  shows "staleOk P b' k"
  using assms by (auto simp: staleOk_def keysOf_def)

lemma key_in_keysOf: "okBlock P b \<Longrightarrow> i < bsize b \<Longrightarrow> keyOfValue P (elems b ! i) \<in> set (keysOf P b)"
  by (simp add: keysOf_def)

lemma keyPos_member:
  assumes ok: "okBlock P b" and srt: "strictly_sorted (keysOf P b)"
  shows "keyPos P b k < bsize b \<and> keyOfValue P (elems b ! keyPos P b k) = k \<longleftrightarrow> k \<in> set (keysOf P b)"
proof
  let ?p = "keyPos P b k"
  assume "k \<in> set (keysOf P b)"
  then obtain i where i: "i < bsize b" "keyOfValue P (elems b ! i) = k"
    using ok by (auto simp: keysOf_def in_set_conv_nth)
  have "\<not> i < ?p"
  proof
    assume "i < ?p"
    then have "elems b ! i \<in> set (take ?p (elems b))" using i ok by (auto simp: in_set_conv_nth)
    then show False using keyPos_before [of "elems b ! i" P b k] i by simp
  qed
  moreover have "\<not> ?p < i"
    using keyPos_at [OF ok, of k] strictly_sorted_nth_less [OF srt, of ?p i] i ok
    by (auto simp: keysOf_def)
  ultimately show "?p < bsize b \<and> keyOfValue P (elems b ! ?p) = k" using i by (metis linorder_neqE_nat)
qed (use key_in_keysOf [OF ok] in metis)

lemma keyPos_end:
  assumes ok: "okBlock P b"
  shows "keyPos P b k = bsize b \<longleftrightarrow> (\<forall>l\<in>set (keysOf P b). l < k)"
proof -
  have "keyPos P b k = bsize b \<longleftrightarrow> length (takeWhile (\<lambda>v. keyOfValue P v < k) (elems b)) = length (elems b)" using ok by (simp add: keyPos_def)
  also have "\<dots> \<longleftrightarrow> takeWhile (\<lambda>v. keyOfValue P v < k) (elems b) = elems b"
    by (metis takeWhile_eq_take take_all_iff order_refl)
  finally show ?thesis by (simp add: takeWhile_eq_all_conv keysOf_def)
qed

lemma stale_first:
  assumes ok: "okBlock P b" and lt: "bsize b < MaxSize P"
  shows "stale b \<noteq> []" "hd (stale b) = cellsOf b ! bsize b"
  using okBlockD [OF ok] lt by (simp_all add: stale_def hd_drop_conv_nth)

text \<open>The comparison at the insertion position, for every block that is not full.\<close>

lemma get_keyPos:
  assumes ok: "okBlock P b" and lt: "bsize b < MaxSize P" and srt: "strictly_sorted (keysOf P b)"
  obtains v where "get b (keyPos P b k) = Some v" "keyOfValue P v = k \<longleftrightarrow> k \<in> set (keysOf P b) \<or> shadowed P b k"
proof (cases "keyPos P b k < bsize b")
  case True
  then have "\<not> shadowed P b k" using keyPos_end [OF ok, of k] by (auto simp: shadowed_def)
  then show ?thesis using that [OF get_elems [OF ok True]] keyPos_member [OF ok srt, of k] True by simp
next
  case False
  then have eq: "keyPos P b k = bsize b" using keyPos_le [OF ok, of k] by simp
  then have "get b (keyPos P b k) = Some (hd (stale b))" using ok lt stale_first(2) [OF ok lt] by (simp add: get_ok)
  moreover have "k \<notin> set (keysOf P b)" using keyPos_member [OF ok srt, of k] False by blast
  moreover have "shadowed P b k \<longleftrightarrow> keyOfValue P (hd (stale b)) = k" using eq keyPos_end [OF ok, of k] stale_first(1) [OF ok lt] by (simp add: shadowed_def)
  ultimately show ?thesis using that by blast
qed

lemma staleOk_shadowed: "staleOk P b k \<Longrightarrow> \<not> shadowed P b k"
  by (auto simp: staleOk_def shadowed_def)

lemma get_keyPos_match:
  assumes ok: "okBlock P b" and lt: "bsize b < MaxSize P" and st: "staleOk P b k"
    and srt: "strictly_sorted (keysOf P b)"
  obtains v where "get b (keyPos P b k) = Some v" "keyOfValue P v = k \<longleftrightarrow> k \<in> set (keysOf P b)"
  using get_keyPos [OF ok lt srt, of k] staleOk_shadowed [OF st] by blast

lemma strictly_sorted_insert:
  fixes e
  assumes ok: "okBlock P b" and srt: "strictly_sorted (keysOf P b)" and new: "keyOfValue P e \<notin> set (keysOf P b)"
  defines "p \<equiv> keyPos P b (keyOfValue P e)"
  shows "strictly_sorted (map (keyOfValue P) (take p (elems b) @ e # drop p (elems b)))"
proof -
  have "keyOfValue P e < keyOfValue P v" if v: "v \<in> set (drop p (elems b))" for v
  proof -
    obtain j where "j < bsize b - p" "v = elems b ! (p + j)"
      using v ok by (auto simp: in_set_conv_nth)
    then obtain i where i: "p \<le> i" "i < bsize b" "v = elems b ! i" by (auto intro: that [of "p + j"])
    have p: "p < bsize b" using i by simp
    have "\<not> keyOfValue P (elems b ! p) < keyOfValue P e" using keyPos_at [OF ok] p by (simp add: p_def)
    moreover have "keyOfValue P (elems b ! p) \<le> keyOfValue P v"
      using i strictly_sorted_nth_less [OF srt, of p i] ok by (cases "p = i") (auto simp: keysOf_def)
    moreover have "keyOfValue P v \<noteq> keyOfValue P e" using new i key_in_keysOf [OF ok] by metis
    ultimately show ?thesis by auto
  qed
  moreover have "keyOfValue P v < keyOfValue P e" if "v \<in> set (take p (elems b))" for v
    using keyPos_before [of v P b] that by (simp add: p_def)
  moreover have "strictly_sorted (map (keyOfValue P) (take p (elems b)) @ map (keyOfValue P) (drop p (elems b)))"
    using srt by (simp add: keysOf_def flip: map_append)
  ultimately show ?thesis by (fastforce simp: sorted_wrt_append)
qed

lemma insKey_elems:
  fixes e
  assumes ok: "okBlock P b" and srt: "strictly_sorted (keysOf P b)"
  defines "p \<equiv> keyPos P b (keyOfValue P e)"
  shows "insKey (keyOfValue P) e (elems b) =
    (if keyOfValue P e \<in> set (keysOf P b) then elems b else take p (elems b) @ e # drop p (elems b))"
  using keyPos_member [OF ok srt, of "keyOfValue P e"] ok
  by (simp add: insKey_pos [of "keyOfValue P"] p_def keyPos_def Let_def)


lemma head_upd [simp]: "elems (b\<lparr>head := h\<rparr>) = elems b" "stale (b\<lparr>head := h\<rparr>) = stale b"
  "keysOf P (b\<lparr>head := h\<rparr>) = keysOf P b" "okBlock P (b\<lparr>head := h\<rparr>) = okBlock P b"
  by (simp_all add: elems_def stale_def keysOf_def okBlock_def)

text \<open>Inserting one element where the search stopped, and the head afterwards.\<close>

lemma insert_at_keyPos:
  fixes e
  assumes wf: "wfParams P" "wfBlock P b" and lt: "bsize b < MaxSize P"
    and new: "keyOfValue P e \<notin> set (keysOf P b)" and nk: "NULL_KEY P < keyOfValue P e"
  defines "p \<equiv> keyPos P b (keyOfValue P e)"
  defines "b' \<equiv> b\<lparr>block := Some (insCells b e p), bsize := Suc (bsize b)\<rparr>"
  shows "insertAtIndex P b e p = Some b'"
    and "p = 0 \<Longrightarrow> updateHead P b' = Some (b'\<lparr>head := keyOfValue P e\<rparr>)"
    and "p = 0 \<Longrightarrow> wfBlock P (b'\<lparr>head := keyOfValue P e\<rparr>)" and "p \<noteq> 0 \<Longrightarrow> wfBlock P b'"
    and "elems b' = insKey (keyOfValue P) e (elems b)" and "stale b' = tl (stale b)"
proof -
  have ok: "okBlock P b" and srt: "strictly_sorted (keysOf P b)" using wf(2) by (auto simp: wfBlock_def)
  have ple: "p \<le> bsize b" using ok by (simp add: p_def)
  show "insertAtIndex P b e p = Some b'"
    unfolding b'_def by (rule insertAtIndex_run [OF wf(1) ok lt ple])
  have okb': "okBlock P b'" using ok lt ple by (simp add: b'_def)
  have el: "elems b' = take p (elems b) @ e # drop p (elems b)"
    unfolding b'_def using ok lt ple by simp
  then show "elems b' = insKey (keyOfValue P) e (elems b)"
    using insKey_elems [OF ok srt, of e] new by (simp add: p_def)
  show "stale b' = tl (stale b)" unfolding b'_def using ok lt ple by simp
  have keys: "strictly_sorted (keysOf P b')" "\<forall>k\<in>set (keysOf P b'). NULL_KEY P < k"
    using strictly_sorted_insert [OF ok srt new] nk wf(2)
    by (auto simp: keysOf_def el p_def wfBlock_def dest: in_set_takeD in_set_dropD)
  have sz: "0 < bsize b'" by (simp add: b'_def)
  have el0: "p = 0 \<Longrightarrow> elems b' ! 0 = e" by (simp add: el)
  have upd: "cellsOf b' ! 0 = elems b' ! 0" using sz by (simp add: elems_def)
  show "updateHead P b' = Some (b'\<lparr>head := keyOfValue P e\<rparr>)" if "p = 0"
    using get_elems [OF okb' sz] el0 that by (simp add: updateHead_def)
  show "wfBlock P (b'\<lparr>head := keyOfValue P e\<rparr>)" if "p = 0"
    using that keys okb' by (simp add: wfBlock_def) (simp add: keysOf_def el that)
  show "wfBlock P b'" if "p \<noteq> 0"
  proof -
    have "0 < bsize b" using that ple by simp
    then have "elems b \<noteq> []" and "head b = hd (keysOf P b)" using ok wf(2) by (auto simp: wfBlock_def elems_def okBlock_def)
    then have "head b' = hd (keysOf P b')"
      using that by (simp add: b'_def keysOf_def el [unfolded b'_def] hd_append hd_map hd_take)
    then show ?thesis using keys okb' by (simp add: wfBlock_def)
  qed
qed

lemma assertHead_wf [simp]: "wfBlock P b \<Longrightarrow> assertHead P b = Some ()"
  by (cases "elems b") (auto simp: assertHead_def wfBlock_def get_elems keysOf_def elems_def okBlock_def)

lemma set_tl_subset: "set (tl xs) \<subseteq> set xs"
  by (cases xs) auto

lemma insertWithIndex_exact:
  assumes wf: "wfParams P" "wfBlock P b" and lt: "bsize b < MaxSize P" and nk: "NULL_KEY P < keyOfValue P e"
    and hint: "start \<le> bsize b" "\<forall>v\<in>set (take start (elems b)). keyOfValue P v < keyOfValue P e"
  defines "there \<equiv> keyOfValue P e \<in> set (keysOf P b) \<or> shadowed P b (keyOfValue P e)"
  shows "\<exists>b'. insertWithIndex P b e start = Some (\<not> there, keyPos P b (keyOfValue P e), b') \<and> wfBlock P b' \<and>
     (there \<longrightarrow> b' = b) \<and> (\<not> there \<longrightarrow> elems b' = insKey (keyOfValue P) e (elems b) \<and> stale b' = tl (stale b) \<and> bsize b' = Suc (bsize b))"
proof -
  let ?p = "keyPos P b (keyOfValue P e)"
  have ok: "okBlock P b" and srt: "strictly_sorted (keysOf P b)" using wf(2) by (auto simp: wfBlock_def)
  have ls: "linearSearch P b (keyOfValue P e) start = Some ?p" by (rule linearSearch_keyPos [OF ok hint])
  obtain v where v: "get b ?p = Some v" "keyOfValue P v = keyOfValue P e \<longleftrightarrow> there" using get_keyPos [OF ok lt srt] unfolding there_def .
  have nn: "block b \<noteq> None" using ok by (simp add: okBlockD)
  show ?thesis
  proof (cases there)
    case True
    then show ?thesis using wf lt nn v by (simp add: insertWithIndex_def ls)
  next
    case False
    then have "keyOfValue P e \<notin> set (keysOf P b)" by (simp add: there_def)
    note ins = insert_at_keyPos [OF wf lt this nk]
    show ?thesis using wf lt nn v False ins by (cases "?p = 0") (simp_all add: insertWithIndex_def ls)
  qed
qed

lemma insertWithIndex_ok:
  assumes wf: "wfParams P" "wfBlock P b" and lt: "bsize b < MaxSize P"
    and nk: "NULL_KEY P < keyOfValue P e" and st: "staleOk P b (keyOfValue P e)"
    and hint: "start \<le> bsize b" "\<forall>v\<in>set (take start (elems b)). keyOfValue P v < keyOfValue P e"
  shows "\<exists>b'. insertWithIndex P b e start =
           Some (keyOfValue P e \<notin> set (keysOf P b), keyPos P b (keyOfValue P e), b') \<and>
         wfBlock P b' \<and> elems b' = insKey (keyOfValue P) e (elems b) \<and> set (stale b') \<subseteq> set (stale b) \<and>
         bsize b' = (if keyOfValue P e \<in> set (keysOf P b) then bsize b else Suc (bsize b))"
proof -
  have ok: "okBlock P b" and srt: "strictly_sorted (keysOf P b)" using wf(2) by (auto simp: wfBlock_def)
  show ?thesis
    using insertWithIndex_exact [OF wf lt nk hint] insKey_elems [OF ok srt, of e] staleOk_shadowed [OF st] set_tl_subset [of "stale b"] by force
qed

text \<open>
  One round of \<open>merge\<close>: search from a position whose predecessors are smaller, insert unless the key is
  there. The position found is again such a position for every key that is not smaller.
\<close>

lemma merge_round:
  fixes e
  assumes wf: "wfParams P" "wfBlock P b" and lt: "bsize b < MaxSize P"
    and nk: "NULL_KEY P < keyOfValue P e" and st: "staleOk P b (keyOfValue P e)"
    and hint: "pos \<le> bsize b" "\<forall>v\<in>set (take pos (elems b)). keyOfValue P v < keyOfValue P e"
  defines "p \<equiv> keyPos P b (keyOfValue P e)"
  defines "new \<equiv> keyOfValue P e \<notin> set (keysOf P b)"
  obtains v b' where "linearSearch P b (keyOfValue P e) pos = Some p" "get b p = Some v"
    "keyOfValue P v = keyOfValue P e \<longleftrightarrow> \<not> new"
    "new \<longrightarrow> p = 0 \<longrightarrow> insertAtIndex P b e p \<bind> updateHead P = Some b'"
    "new \<longrightarrow> p \<noteq> 0 \<longrightarrow> insertAtIndex P b e p = Some b' \<and> head b' = head b" "\<not> new \<longrightarrow> b' = b"
    "wfBlock P b'" "elems b' = insKey (keyOfValue P) e (elems b)" "set (stale b') \<subseteq> set (stale b)"
    "bsize b' \<le> Suc (bsize b)" "0 < bsize b'" "p \<le> bsize b'"
    "\<forall>v\<in>set (take p (elems b')). keyOfValue P v < keyOfValue P e"
proof -
  have ok: "okBlock P b" and srt: "strictly_sorted (keysOf P b)" using wf(2) by (auto simp: wfBlock_def)
  have ls: "linearSearch P b (keyOfValue P e) pos = Some p"
    unfolding p_def by (rule linearSearch_keyPos [OF ok hint])
  obtain v where v: "get b p = Some v" "keyOfValue P v = keyOfValue P e \<longleftrightarrow> \<not> new"
    using get_keyPos_match [OF ok lt st srt] unfolding p_def new_def by blast
  have ple: "p \<le> bsize b" using ok by (simp add: p_def)
  have before: "\<forall>v\<in>set (take p (elems b)). keyOfValue P v < keyOfValue P e"
    using keyPos_before [of _ P b "keyOfValue P e"] by (simp add: p_def)
  show ?thesis
  proof (cases new)
    case False
    then have "0 < bsize b" using keyPos_member [OF ok srt, of "keyOfValue P e"] by (auto simp: new_def)
    moreover have "elems b = insKey (keyOfValue P) e (elems b)"
      using False insKey_elems [OF ok srt, of e] by (simp add: new_def)
    ultimately show ?thesis using that [OF ls v, of b] False wf ple before by auto
  next
    case True
    note ins = insert_at_keyPos [OF wf lt True [unfolded new_def] nk, folded p_def]
    have el: "insKey (keyOfValue P) e (elems b) = take p (elems b) @ e # drop p (elems b)"
      using insKey_elems [OF ok srt, of e] True by (simp add: new_def p_def)
    have "take p (take p (elems b) @ e # drop p (elems b)) = take p (elems b)"
      using ple ok by simp
    then have "\<forall>v\<in>set (take p (insKey (keyOfValue P) e (elems b))). keyOfValue P v < keyOfValue P e"
      using before el by simp
    moreover have "set (tl (stale b)) \<subseteq> set (stale b)" by (rule set_tl_subset)
    ultimately show ?thesis
      using that [OF ls v, of "b\<lparr>block := Some (insCells b e p), bsize := Suc (bsize b)\<rparr>"]
        that [OF ls v, of "b\<lparr>block := Some (insCells b e p), bsize := Suc (bsize b), head := keyOfValue P e\<rparr>"]
        True ins ple by (cases "p = 0") simp_all
  qed
qed

lemma fold_insKey_step:
  "i < n \<Longrightarrow> n \<le> length batch \<Longrightarrow>
   fold f (take (n - i) (drop i batch)) xs = fold f (take (n - Suc i) (drop (Suc i) batch)) (f (batch ! i) xs)"
  by (cases "n - i") (auto simp flip: Cons_nth_drop_Suc, metis Suc_diff_Suc diff_Suc_Suc old.nat.inject)

lemma mergeLoop_ok:
  assumes "wfParams P" "wfBlock P b" "n \<le> length batch" "sorted (map (keyOfValue P) batch)"
    and "bsize b + (n - i) \<le> MaxSize P" "pos \<le> bsize b" "0 < bsize b"
    and "i < n \<Longrightarrow> \<forall>v\<in>set (take pos (elems b)). keyOfValue P v < keyOfValue P (batch ! i)"
    and "i < n \<Longrightarrow> head b \<le> keyOfValue P (batch ! i)"
    and "\<forall>e\<in>set batch. NULL_KEY P < keyOfValue P e \<and> staleOk P b (keyOfValue P e)"
  shows "\<exists>b'. mergeLoop P batch n i pos b = Some b' \<and> wfBlock P b' \<and>
     elems b' = fold (insKey (keyOfValue P)) (take (n - i) (drop i batch)) (elems b) \<and>
     set (stale b') \<subseteq> set (stale b)"
  using assms
proof (induction P batch n i pos b rule: mergeLoop.induct)
  case (1 P batch n i pos b)
  show ?case
  proof (cases "i < n")
    case True
    let ?e = "batch ! i"
    let ?p = "keyPos P b (keyOfValue P ?e)"
    have e: "nth_opt batch i = Some ?e" "?e \<in> set batch" using True 1(4) by auto
    have lt: "bsize b < MaxSize P" using 1(6) True by simp
    have nk: "NULL_KEY P < keyOfValue P ?e" and st: "staleOk P b (keyOfValue P ?e)"
      using 1(11) e(2) by auto
    obtain v b' where r: "linearSearch P b (keyOfValue P ?e) pos = Some ?p" "get b ?p = Some v"
      "keyOfValue P v = keyOfValue P ?e \<longleftrightarrow> \<not> keyOfValue P ?e \<notin> set (keysOf P b)"
      "keyOfValue P ?e \<notin> set (keysOf P b) \<longrightarrow> ?p = 0 \<longrightarrow> insertAtIndex P b ?e ?p \<bind> updateHead P = Some b'"
      "keyOfValue P ?e \<notin> set (keysOf P b) \<longrightarrow> ?p \<noteq> 0 \<longrightarrow> insertAtIndex P b ?e ?p = Some b' \<and> head b' = head b"
      "\<not> keyOfValue P ?e \<notin> set (keysOf P b) \<longrightarrow> b' = b" "wfBlock P b'"
      "elems b' = insKey (keyOfValue P) ?e (elems b)" "set (stale b') \<subseteq> set (stale b)"
      "bsize b' \<le> Suc (bsize b)" "0 < bsize b'" "?p \<le> bsize b'"
      "\<forall>v\<in>set (take ?p (elems b')). keyOfValue P v < keyOfValue P ?e"
      using merge_round [OF 1(2,3) lt nk st 1(7) 1(9) [OF True]] .
    have ok: "okBlock P b" using 1(3) by simp
    have p0: "?p \<noteq> 0" if "keyOfValue P ?e \<notin> set (keysOf P b)"
    proof
      assume "?p = 0"
      then have "\<not> keyOfValue P (elems b ! 0) < keyOfValue P ?e" using keyPos_at [OF ok] 1(8) by metis
      moreover have "head b = keyOfValue P (elems b ! 0)"
        using 1(3,8) by (cases "elems b") (auto simp: wfBlock_def keysOf_def elems_def okBlock_def)
      ultimately show False using 1(10) [OF True] that key_in_keysOf [OF ok 1(8)] by auto
    qed
    have step: "(if keyOfValue P v \<noteq> keyOfValue P ?e then insertAtIndex P b ?e ?p else Some b) = Some b'"
      using r(3,5,6) p0 by auto
    have hd: "head b' = head b" using r(5,6) p0 by auto
    have nxt: "keyOfValue P ?e \<le> keyOfValue P (batch ! Suc i)" if "Suc i < n"
      using 1(4,5) that sorted_nth_mono [of "map (keyOfValue P) batch" i "Suc i"] by simp
    have "\<exists>b''. mergeLoop P batch n (Suc i) ?p b' = Some b'' \<and> wfBlock P b'' \<and>
       elems b'' = fold (insKey (keyOfValue P)) (take (n - Suc i) (drop (Suc i) batch)) (elems b') \<and>
       set (stale b'') \<subseteq> set (stale b')"
    proof (rule "1.IH" [OF True e(1) r(1,2) step])
      show "head b' \<le> keyOfValue P (batch ! Suc i)" if "Suc i < n"
        using 1(10) [OF True] nxt [OF that] hd by simp
      show "\<forall>v\<in>set (take ?p (elems b')). keyOfValue P v < keyOfValue P (batch ! Suc i)" if "Suc i < n"
        using r(13) nxt [OF that] by auto
      show "bsize b' + (n - Suc i) \<le> MaxSize P" using r(10) 1(6) True by simp
      show "\<forall>e\<in>set batch. NULL_KEY P < keyOfValue P e \<and> staleOk P b' (keyOfValue P e)"
        using 1(11) staleOk_mono [OF _ r(9)] set_insKey [of "elems b"] r(8) by metis
    qed (fact 1(2) r(7) 1(4) 1(5) r(12) r(11))+
    then show ?thesis
      using True e(1) r(1,2,8,9) step 1(4) by (subst mergeLoop.simps) (auto simp: fold_insKey_step)
  next
    case False
    then show ?thesis using 1(3) by (subst mergeLoop.simps) auto
  qed
qed


text \<open>\<open>merge\<close> of a sorted batch that fits inserts its elements one by one.\<close>

lemma merge_ok:
  assumes wf: "wfParams P" "wfBlock P b" and n: "0 < n" "n \<le> length batch" "bsize b + n \<le> MaxSize P"
    and srt: "sorted (map (keyOfValue P) batch)"
    and new: "\<forall>e\<in>set batch. NULL_KEY P < keyOfValue P e \<and> staleOk P b (keyOfValue P e)"
  shows "\<exists>b'. merge P b batch n = Some b' \<and> wfBlock P b' \<and>
     elems b' = fold (insKey (keyOfValue P)) (take n batch) (elems b) \<and> set (stale b') \<subseteq> set (stale b)"
proof -
  let ?e = "batch ! 0"
  let ?p = "keyPos P b (keyOfValue P ?e)"
  have ne: "batch \<noteq> []" using n by auto
  have e: "nth_opt batch 0 = Some ?e" "?e \<in> set batch"
    using ne by auto
  have lt: "bsize b < MaxSize P" using n by simp
  have ok: "okBlock P b" using wf(2) by simp
  have nk: "NULL_KEY P < keyOfValue P ?e" and st: "staleOk P b (keyOfValue P ?e)"
    using new e(2) by auto
  have h: "\<forall>v\<in>set (take 0 (elems b)). keyOfValue P v < keyOfValue P ?e" by simp
  obtain v b' where r: "linearSearch P b (keyOfValue P ?e) 0 = Some ?p" "get b ?p = Some v"
    "keyOfValue P v = keyOfValue P ?e \<longleftrightarrow> \<not> keyOfValue P ?e \<notin> set (keysOf P b)"
    "keyOfValue P ?e \<notin> set (keysOf P b) \<longrightarrow> ?p = 0 \<longrightarrow> insertAtIndex P b ?e ?p \<bind> updateHead P = Some b'"
    "keyOfValue P ?e \<notin> set (keysOf P b) \<longrightarrow> ?p \<noteq> 0 \<longrightarrow> insertAtIndex P b ?e ?p = Some b' \<and> head b' = head b"
    "\<not> keyOfValue P ?e \<notin> set (keysOf P b) \<longrightarrow> b' = b" "wfBlock P b'"
    "elems b' = insKey (keyOfValue P) ?e (elems b)" "set (stale b') \<subseteq> set (stale b)"
    "bsize b' \<le> Suc (bsize b)" "0 < bsize b'" "?p \<le> bsize b'"
    "\<forall>v\<in>set (take ?p (elems b')). keyOfValue P v < keyOfValue P ?e"
    using merge_round [OF wf lt nk st le0 h] .
  have step: "(if keyOfValue P v \<noteq> keyOfValue P ?e
      then insertAtIndex P b ?e ?p \<bind> (\<lambda>b. if ?p = 0 then updateHead P b else Some b) else Some b) = Some b'"
    using r(3-6) by (cases "?p = 0") auto
  have mono: "keyOfValue P ?e \<le> keyOfValue P (batch ! 1)" if "1 < n"
    using srt that n ne sorted_nth_mono [of "map (keyOfValue P) batch" 0 1] by simp
  have new': "\<forall>e\<in>set batch. NULL_KEY P < keyOfValue P e \<and> staleOk P b' (keyOfValue P e)"
    using new staleOk_mono [OF _ r(9)] set_insKey [of "elems b"] r(8) by metis
  have "head b' \<le> keyOfValue P ?e"
  proof -
    have "keyOfValue P ?e \<in> set (keysOf P b')"
      by (simp add: keysOf_def r(8) keys_insKey)
    moreover have "head b' = hd (keysOf P b')" using r(7,11) by (simp add: wfBlock_def)
    ultimately show ?thesis using r(7) by (cases "keysOf P b'") (auto simp: wfBlock_def)
  qed
  then have "\<exists>b''. mergeLoop P batch n 1 ?p b' = Some b'' \<and> wfBlock P b'' \<and>
     elems b'' = fold (insKey (keyOfValue P)) (take (n - 1) (drop 1 batch)) (elems b') \<and>
     set (stale b'') \<subseteq> set (stale b')"
    using n r(7,10-13) mono by (intro mergeLoop_ok [OF wf(1)] srt new') (auto intro: order.strict_trans2)
  moreover have "fold (insKey (keyOfValue P)) (take n batch) (elems b) =
     fold (insKey (keyOfValue P)) (take (n - 1) (drop 1 batch)) (elems b')"
    using fold_insKey_step [of 0 n batch "insKey (keyOfValue P)" "elems b"] n ne r(8) by simp
  moreover have "block b \<noteq> None" using ok by (simp add: okBlockD)
  ultimately show ?thesis
    using e(1) n(1) r(1,2,9) step by (auto simp: merge_def)
qed

subsection \<open>Lookup and removal\<close>

lemma blockContains_ok:
  assumes "wfBlock P b"
  shows "blockContains P b k = Some (k \<in> set (keysOf P b))"
proof -
  have ok: "okBlock P b" and srt: "strictly_sorted (keysOf P b)" using assms by (auto simp: wfBlock_def)
  have ls: "linearSearch P b k 0 = Some (keyPos P b k)" by (rule linearSearch_keyPos [OF ok]) auto
  have nn: "block b \<noteq> None" using ok by (simp add: okBlockD)
  show ?thesis
  proof (cases "keyPos P b k < bsize b")
    case True
    then show ?thesis
      using ls nn get_elems [OF ok True] keyPos_member [OF ok srt, of k] by (auto simp: blockContains_def)
  next
    case False
    then show ?thesis using ls nn keyPos_member [OF ok srt, of k] by (auto simp: blockContains_def)
  qed
qed

lemma findIndex_ok:
  assumes "wfBlock P b"
  shows "findIndex P b k = Some (keyPos P b k)"
proof -
  have ok: "okBlock P b" using assms by simp
  then show ?thesis by (simp add: findIndex_def okBlockD linearSearch_keyPos)
qed

lemma moveForwardLoop_run:
  assumes "okBlock P b" and "index < bsize b"
  shows "moveForwardLoop b index =
     Some (b\<lparr>block := Some (take index (cellsOf b) @ take (bsize b - Suc index) (drop (Suc index) (cellsOf b)) @
        drop (bsize b - 1) (cellsOf b))\<rparr>)"
  using assms
proof (induction b index rule: moveForwardLoop.induct)
  case (1 b shift)
  note ok = okBlockD [OF 1(2)]
  show ?case
  proof (cases "shift + 1 < bsize b")
    case True
    let ?v = "cellsOf b ! Suc shift"
    let ?b = "b\<lparr>block := Some ((cellsOf b)[shift := ?v])\<rparr>"
    have lt: "Suc shift < length (cellsOf b)" using True ok by simp
    have g: "get b (shift + 1) = Some ?v" and st: "setCell b shift ?v = Some ?b"
      using lt ok 1(2) by (auto simp: get_ok setCell_ok)
    have IH: "moveForwardLoop ?b (shift + 1) = Some (?b\<lparr>block := Some (take (shift + 1) (cellsOf ?b) @
        take (bsize ?b - Suc (shift + 1)) (drop (Suc (shift + 1)) (cellsOf ?b)) @ drop (bsize ?b - 1) (cellsOf ?b))\<rparr>)"
      by (rule 1(1) [OF True g st]) (use 1 True ok in auto)
    have "take (Suc shift) ((cellsOf b)[shift := ?v]) = take shift (cellsOf b) @ [?v]"
      using lt by (simp add: take_Suc_conv_app_nth)
    moreover have "drop (Suc shift) (cellsOf b) = ?v # drop (Suc (Suc shift)) (cellsOf b)"
      using lt by (simp add: Cons_nth_drop_Suc)
    moreover have "bsize b - Suc shift = Suc (bsize b - Suc (Suc shift))" using True by simp
    ultimately show ?thesis
      using True IH g st by (subst moveForwardLoop.simps) auto
  next
    case False
    then have "bsize b = Suc shift" using 1(3) by simp
    then show ?thesis using False ok by (subst moveForwardLoop.simps) simp
  qed
qed

text \<open>Cells after the erasing writes of a debug build; release builds leave them as they are.\<close>

definition erased :: "('k, 'v) tparams \<Rightarrow> nat \<Rightarrow> nat \<Rightarrow> 'v list \<Rightarrow> 'v list" where
  "erased P from to cells =
     (case nullValue P of
        None \<Rightarrow> cells
      | Some nv \<Rightarrow> if NDEBUG P then cells else take from cells @ replicate (to - from) nv @ drop to cells)"

lemma block_self: "block b = Some cells \<Longrightarrow> b\<lparr>block := Some cells\<rparr> = b"
  by (cases b) simp

lemma length_erased [simp]: "from \<le> to \<Longrightarrow> to \<le> length cells \<Longrightarrow> length (erased P from to cells) = length cells"
  by (simp add: erased_def split: option.split)

lemma take_erased [simp]: "n \<le> from \<Longrightarrow> from \<le> length cells \<Longrightarrow> take n (erased P from to cells) = take n cells"
  by (simp add: erased_def split: option.split)

lemma drop_erased [simp]:
  "from \<le> to \<Longrightarrow> to \<le> n \<Longrightarrow> to \<le> length cells \<Longrightarrow> drop n (erased P from to cells) = drop n cells"
  by (auto simp: erased_def split: option.split)

lemma erased_empty [simp]: "erased P n n cells = cells"
  by (simp add: erased_def split: option.split)

lemma set_drop_erased:
  "n \<le> from \<Longrightarrow> from \<le> to \<Longrightarrow> to \<le> length cells \<Longrightarrow>
   set (drop n (erased P from to cells)) \<subseteq> set (drop n cells) \<union> set_option (nullValue P)"
  using set_take_subset [of "from - n" "drop n cells"] set_drop_subset_set_drop [of n to cells]
  by (auto simp: erased_def drop_take split: option.splits if_splits)

lemma eraseCell_run:
  assumes "okBlock P b" "i < MaxSize P"
  shows "eraseCell P b i = Some (b\<lparr>block := Some (erased P i (Suc i) (cellsOf b))\<rparr>)"
  using okBlockD [OF assms(1)] assms(2)
  by (auto simp: eraseCell_def erased_def setCell_ok [OF assms] block_self upd_conv_take_nth_drop split: option.split)

lemma erased_snoc:
  assumes "from \<le> to" "to < length cells"
  shows "erased P to (Suc to) (erased P from to cells) = erased P from (Suc to) cells"
  using assms by (auto simp: erased_def Suc_diff_le replicate_append_same split: option.split)

lemma eraseCells_run:
  assumes "okBlock P b" "from \<le> to" "to \<le> MaxSize P"
  shows "eraseCells P from to b = Some (b\<lparr>block := Some (erased P from to (cellsOf b))\<rparr>)"
  using assms(2,3)
proof (induction to rule: dec_induct)
  case base
  then show ?case using okBlockD [OF assms(1)] by (simp add: eraseCells_def block_self)
next
  case (step to)
  note okd = okBlockD [OF assms(1)]
  let ?b = "b\<lparr>block := Some (erased P from to (cellsOf b))\<rparr>"
  have "okBlock P ?b" using step okd by simp
  then have "eraseCell P ?b to = Some (b\<lparr>block := Some (erased P from (Suc to) (cellsOf b))\<rparr>)"
    using step okd by (simp add: eraseCell_run erased_snoc)
  then show ?case using step by (simp add: eraseCells_def)
qed

definition staleKeys :: "('k, 'v) tparams \<Rightarrow> ('k, 'v) PmaEntry \<Rightarrow> 'k set" where
  "staleKeys P b = keyOfValue P ` set (stale b)"

text \<open>In debug builds of trivial types the unused cells hold the null value.\<close>

definition nullStale :: "('k, 'v) tparams \<Rightarrow> ('k, 'v) PmaEntry \<Rightarrow> bool" where
  "nullStale P b \<longleftrightarrow> NDEBUG P \<or> nullValue P = None \<or> staleKeys P b \<subseteq> {NULL_KEY P}"

lemma okBlock_bsize [simp]: "okBlock P b \<Longrightarrow> n \<le> MaxSize P \<Longrightarrow> okBlock P (b\<lparr>bsize := n\<rparr>)"
  by (simp add: okBlock_def)

lemma updateHead_wf:
  assumes "wfParams P" and ok: "okBlock P b" and "strictly_sorted (keysOf P b)" "\<forall>k\<in>set (keysOf P b). NULL_KEY P < k"
  obtains h where "updateHead P b = Some (b\<lparr>head := h\<rparr>)" "wfBlock P (b\<lparr>head := h\<rparr>)"
proof -
  have "get b 0 = Some (cellsOf b ! 0)" using ok wfParamsD(3) [OF assms(1)] by (simp add: get_ok)
  moreover have "keyOfValue P (cellsOf b ! 0) = hd (keysOf P b)" if "0 < bsize b"
    using that okBlockD [OF ok] by (cases "cellsOf b"; cases "bsize b") (auto simp: keysOf_def elems_def)
  ultimately show ?thesis
    using that [of "keyOfValue P (cellsOf b ! 0)"] assms by (simp add: updateHead_def wfBlock_def)
qed

lemma elems_upd [simp]:
  "elems (b\<lparr>block := Some cells, bsize := n\<rparr>) = take n cells"
  "stale (b\<lparr>block := Some cells, bsize := n\<rparr>) = drop n cells"
  "elems (b\<lparr>block := Some cells\<rparr>) = take (bsize b) cells"
  "stale (b\<lparr>block := Some cells\<rparr>) = drop (bsize b) cells"
  by (simp_all add: elems_def stale_def)

lemma filter_neq_key:
  assumes "strictly_sorted (map kf xs)" and "p < length xs" and "kf (xs ! p) = k"
  shows "filter (\<lambda>v. kf v \<noteq> k) xs = take p xs @ drop (Suc p) xs"
proof -
  have xs: "xs = take p xs @ xs ! p # drop (Suc p) xs" using assms(2) by (rule id_take_nth_drop)
  have "strictly_sorted (map kf (take p xs) @ k # map kf (drop (Suc p) xs))"
    using assms by (metis xs map_append list.map(2))
  then have "\<forall>v\<in>set (take p xs). kf v \<noteq> k" "\<forall>v\<in>set (drop (Suc p) xs). kf v \<noteq> k"
    by (fastforce simp: sorted_wrt_append)+
  then show ?thesis
    by (subst xs) (simp add: assms(3) filter_id_conv)
qed

lemma moveForward_run:
  assumes ok: "okBlock P b" and p: "p < bsize b"
  obtains cells where "moveForward P b p = Some (b\<lparr>block := Some cells\<rparr>)" "length cells = MaxSize P"
    "take (bsize b - 1) cells = take p (elems b) @ drop (Suc p) (elems b)"
proof -
  note okd = okBlockD [OF ok]
  define cells where "cells = take p (cellsOf b) @ take (bsize b - Suc p) (drop (Suc p) (cellsOf b)) @
    drop (bsize b - 1) (cellsOf b)"
  have len: "length cells = MaxSize P" using okd p by (simp add: cells_def)
  have "okBlock P (b\<lparr>block := Some cells\<rparr>)" using len okd by simp
  then have "moveForward P b p = Some (b\<lparr>block := Some (erased P (bsize b - 1) (Suc (bsize b - 1)) cells)\<rparr>)"
    using okd p by (simp add: moveForward_def moveForwardLoop_run [OF ok p] cells_def [symmetric, simplified] eraseCell_run)
  moreover have "take (bsize b - 1) cells = take p (elems b) @ drop (Suc p) (elems b)"
    using okd p by (simp add: cells_def elems_def drop_take min_absorb1)
  ultimately show ?thesis using that len okd p by simp
qed

lemma remove_ok:
  assumes wf: "wfParams P" "wfBlock P b"
  shows "\<exists>b'. remove P b e = Some (keyOfValue P e \<in> set (keysOf P b), b') \<and> wfBlock P b' \<and>
     elems b' = filter (\<lambda>v. keyOfValue P v \<noteq> keyOfValue P e) (elems b)"
proof -
  let ?k = "keyOfValue P e"
  let ?p = "keyPos P b ?k"
  have ok: "okBlock P b" and srt: "strictly_sorted (keysOf P b)" using wf(2) by (auto simp: wfBlock_def)
  have ls: "linearSearch P b ?k 0 = Some ?p" by (rule linearSearch_keyPos [OF ok]) auto
  have nn: "block b \<noteq> None" using ok by (simp add: okBlockD)
  note mem = keyPos_member [OF ok srt, of ?k]
  show ?thesis
  proof (cases "?k \<in> set (keysOf P b)")
    case True
    then have p: "?p < bsize b" "keyOfValue P (elems b ! ?p) = ?k" using mem by auto
    obtain cells where c: "moveForward P b ?p = Some (b\<lparr>block := Some cells\<rparr>)" "length cells = MaxSize P"
      "take (bsize b - 1) cells = take ?p (elems b) @ drop (Suc ?p) (elems b)"
      using moveForward_run [OF ok p(1)] .
    define b1 where "b1 = b\<lparr>block := Some cells, bsize := bsize b - 1\<rparr>"
    have el: "elems b1 = filter (\<lambda>v. keyOfValue P v \<noteq> ?k) (elems b)"
      using c p ok srt by (simp add: b1_def keysOf_def filter_neq_key)
    have "okBlock P b1" using c okBlockD [OF ok] by (simp add: b1_def)
    moreover have "strictly_sorted (keysOf P b1)" "\<forall>k\<in>set (keysOf P b1). NULL_KEY P < k"
      using wf(2) by (auto simp: wfBlock_def keysOf_def el sorted_wrt_map intro: sorted_wrt_filter)
    ultimately obtain h where "updateHead P b1 = Some (b1\<lparr>head := h\<rparr>)" "wfBlock P (b1\<lparr>head := h\<rparr>)"
      using updateHead_wf [OF wf(1)] by blast
    then show ?thesis
      using True nn ls p get_elems [OF ok p(1)] c(1) el by (simp add: remove_def b1_def)
  next
    case False
    have "filter (\<lambda>v. keyOfValue P v \<noteq> ?k) (elems b) = elems b"
      unfolding filter_id_conv using False by (metis image_eqI keysOf_def set_map)
    moreover have "?p < bsize b \<Longrightarrow> get b ?p = Some (elems b ! ?p)" by (rule get_elems [OF ok])
    ultimately show ?thesis using False nn ls wf mem by (auto simp: remove_def)
  qed
qed

text \<open>In a release build, removing the greatest element leaves the cells as they are.\<close>

lemma remove_greatest:
  assumes wf: "wfParams P" "wfBlock P b" and nd: "NDEBUG P \<or> \<not> IsTrivialType P" and n: "0 < bsize b" and e: "keyOfValue P e = last (keysOf P b)"
  obtains b' where "remove P b e = Some (True, b')" "wfBlock P b'" "keysOf P b' = butlast (keysOf P b)" "cellsOf b' = cellsOf b" "bsize b' = bsize b - 1"
proof -
  let ?k = "keyOfValue P e"
  have ok: "okBlock P b" and srt: "strictly_sorted (keysOf P b)" using wf(2) by (auto simp: wfBlock_def)
  have len: "length (keysOf P b) = bsize b" "keysOf P b \<noteq> []" using length_elems [OF ok] n by (auto simp: keysOf_def)
  have mem: "?k \<in> set (keysOf P b)" using e len(2) by simp
  then have p: "keyPos P b ?k < bsize b" "keyOfValue P (elems b ! keyPos P b ?k) = ?k" using keyPos_member [OF ok srt, of ?k] by auto
  have "keysOf P b ! keyPos P b ?k = ?k" using p length_elems [OF ok] by (simp add: keysOf_def)
  then have "keysOf P b ! keyPos P b ?k = keysOf P b ! (bsize b - 1)" using e len by (simp add: last_conv_nth)
  moreover have "distinct (keysOf P b)" using srt by (simp add: strict_sorted_iff)
  ultimately have pos: "keyPos P b ?k = bsize b - 1" using nth_eq_iff_index_eq [of "keysOf P b"] p(1) len n by simp
  have ls: "linearSearch P b ?k 0 = Some (bsize b - 1)" unfolding pos [symmetric] by (rule linearSearch_keyPos [OF ok]) auto
  have er: "eraseCell P b i = Some b" for i using nd by (auto simp: eraseCell_def IsTrivialType_def split: option.split)
  have "moveForwardLoop b (bsize b - 1) = Some b" using n by (subst moveForwardLoop.simps) simp
  then have mv: "moveForward P b (bsize b - 1) = Some b" by (simp add: moveForward_def er)
  have gt: "get b (bsize b - 1) = Some (elems b ! (bsize b - 1))" using n by (intro get_elems [OF ok]) simp
  obtain b' where b': "remove P b e = Some (True, b')" "wfBlock P b'" "elems b' = filter (\<lambda>v. keyOfValue P v \<noteq> ?k) (elems b)"
    using remove_ok [OF wf, of e] mem by auto
  have "updateHead P (b\<lparr>bsize := bsize b - 1\<rparr>) = Some b'"
    using b'(1) mem ls gt p n mv unfolding pos by (auto simp: remove_def bind_eq_Some_conv)
  then have c: "cellsOf b' = cellsOf b" "bsize b' = bsize b - 1" by (auto simp: updateHead_def bind_eq_Some_conv cellsOf_def)
  then have "keysOf P b' = butlast (keysOf P b)" using okBlockD [OF ok] by (simp add: keysOf_def elems_def butlast_take map_butlast [symmetric])
  then show ?thesis using that [OF b'(1,2)] c by blast
qed


lemma wfBlock_documented:
  assumes "wfBlock P b"
  shows "documented P b \<longleftrightarrow> 0 < bsize b"
proof -
  have ok: "okBlock P b" using assms by (simp add: wfBlock_def)
  have "head b \<noteq> NULL_KEY P" if "0 < bsize b"
  proof -
    have "keysOf P b \<noteq> []" using length_elems [OF ok] that by (auto simp: keysOf_def)
    then show ?thesis using assms that hd_in_set [of "keysOf P b"] by (force simp: wfBlock_def)
  qed
  then show ?thesis using okBlockD [OF ok] by (auto simp: documented_def)
qed

lemma remove_only_undocumented:
  assumes wf: "wfParams P" "wfBlock P b" and one: "bsize b = 1" "keyOfValue P e \<in> set (keysOf P b)"
  shows "\<exists>b'. remove P b e = Some (True, b') \<and> bsize b' = 0 \<and> block b' \<noteq> None \<and> \<not> documented P b'"
proof -
  obtain b' where b': "remove P b e = Some (True, b')" "wfBlock P b'" "elems b' = filter (\<lambda>v. keyOfValue P v \<noteq> keyOfValue P e) (elems b)"
    using remove_ok [OF wf, of e] one(2) by auto
  have ok: "okBlock P b" "okBlock P b'" using wf(2) b'(2) by (simp_all add: wfBlock_def)
  obtain x where "elems b = [x]" using length_elems [OF ok(1)] one(1) by (cases "elems b") auto
  then have "elems b' = []" using b'(3) one(2) by (simp add: keysOf_def)
  then have "bsize b' = 0" using length_elems [OF ok(2)] by simp
  then show ?thesis using b'(1) wfBlock_documented [OF b'(2)] okBlockD [OF ok(2)] by auto
qed

subsection \<open>Splitting and merging blocks\<close>

lemma staleKeys_upd [simp]: "staleKeys P (b\<lparr>head := h\<rparr>) = staleKeys P b"
  by (simp add: staleKeys_def)

lemma nullValue_keys: "wfParams P \<Longrightarrow> keyOfValue P ` set_option (nullValue P) \<subseteq> {NULL_KEY P}"
  by (auto simp: wfParams_def)

lemma sorted_keys_take: "strictly_sorted (map kf xs) \<Longrightarrow> strictly_sorted (map kf (take n xs))"
  by (simp add: sorted_wrt_take flip: take_map)

lemma sorted_keys_drop: "strictly_sorted (map kf xs) \<Longrightarrow> strictly_sorted (map kf (drop n xs))"
  by (simp add: sorted_wrt_drop flip: drop_map)

lemma wfBlock_prefix:
  assumes "wfBlock P b" and "okBlock P b'" and "head b' = head b" and "0 < bsize b'"
    and "elems b' = take n (elems b)"
  shows "wfBlock P b'"
proof -
  have ne: "elems b' \<noteq> []" using assms(2,4) length_elems [of P b'] by force
  then have ne': "elems b \<noteq> []" "0 < n" using assms(5) by auto
  then have "0 < bsize b" by (auto simp: elems_def)
  then have "head b' = hd (keysOf P b')"
    using assms(1,3) ne ne' by (simp add: wfBlock_def keysOf_def assms(5) hd_map hd_take)
  moreover have "strictly_sorted (keysOf P b')" "\<forall>k\<in>set (keysOf P b'). NULL_KEY P < k"
    using assms(1) by (auto simp: wfBlock_def keysOf_def assms(5) sorted_keys_take dest: in_set_takeD)
  ultimately show ?thesis using assms(2) by (simp add: wfBlock_def)
qed

lemma allocateBlock_empty:
  obtains cells where "allocateBlock P (emptyEntry P) = Some ((emptyEntry P)\<lparr>block := Some cells\<rparr>)"
    "length cells = MaxSize P" "set cells \<subseteq> insert (defaultValue P) (set_option (nullValue P))"
proof (cases "nullValue P = None \<or> NDEBUG P")
  case True
  then show ?thesis
    using that [of "replicate (MaxSize P) (defaultValue P)"]
    by (auto simp: allocateBlock_def emptyEntry_def Let_def set_replicate_conv_if split: option.splits)
next
  case False
  then show ?thesis
    using that [of "replicate (MaxSize P) (the (nullValue P))"]
    by (auto simp: allocateBlock_def emptyEntry_def set_replicate_conv_if)
qed

lemma nullStale_erased:
  assumes "wfParams P" "length cells = n" "k \<le> n" "b = c\<lparr>block := Some (erased P k n cells), bsize := k\<rparr>"
  shows "nullStale P b"
proof (cases "nullValue P")
  case (Some nv)
  then have "keyOfValue P nv = NULL_KEY P" using assms(1) by (simp add: wfParams_def)
  moreover have "set (stale b) \<subseteq> {nv}" if "\<not> NDEBUG P" using that assms Some by (auto simp: erased_def)
  ultimately show ?thesis by (auto simp: nullStale_def staleKeys_def)
qed (simp add: nullStale_def)

lemma split_ok:
  assumes wf: "wfParams P" "wfBlock P b" and full: "bsize b = MaxSize P"
  shows "\<exists>l r. split P b = Some (l, r) \<and> wfBlock P l \<and> wfBlock P r \<and>
     elems l = take (MinSize P) (elems b) \<and> elems r = drop (MinSize P) (elems b) \<and>
     bsize l = MinSize P \<and> bsize r = MinSize P \<and> head l = head b \<and>
     staleKeys P l \<subseteq> insert (NULL_KEY P) (set (keysOf P r)) \<and> staleKeys P r \<subseteq> {NULL_KEY P} \<and> nullStale P l"
proof -
  have ok: "okBlock P b" using wf(2) by simp
  note okd = okBlockD [OF ok] and wp = wfParamsD [OF wf(1)]
  obtain fresh where f: "allocateBlock P (emptyEntry P) = Some ((emptyEntry P)\<lparr>block := Some fresh\<rparr>)"
    "length fresh = MaxSize P" "set fresh \<subseteq> insert (defaultValue P) (set_option (nullValue P))"
    by (rule allocateBlock_empty)
  define rcells where "rcells = drop (MinSize P) (cellsOf b) @ drop (MinSize P) fresh"
  have cp: "copyCells (cellsOf b) (MinSize P) (MinSize P) fresh 0 = Some rcells"
    using okd wp f(2) by (simp add: copyCells_def rcells_def)
  let ?lcells = "erased P (MinSize P) (MaxSize P) (cellsOf b)"
  have er: "eraseCells P (MinSize P) (MaxSize P) b = Some (b\<lparr>block := Some ?lcells\<rparr>)"
    using wp by (intro eraseCells_run [OF ok]) auto
  define l where "l = b\<lparr>block := Some ?lcells, bsize := MinSize P\<rparr>"
  define r0 where "r0 = (emptyEntry P)\<lparr>block := Some rcells, bsize := MinSize P\<rparr>"
  have el: "elems l = take (MinSize P) (elems b)" "elems r0 = drop (MinSize P) (elems b)"
    using okd wp full by (simp_all add: l_def r0_def rcells_def elems_def)
  have okl: "okBlock P l" and okr: "okBlock P r0" using okd wp f(2) by (simp_all add: l_def r0_def rcells_def)
  have wfl: "wfBlock P l"
    using wp by (intro wfBlock_prefix [OF wf(2) okl _ _ el(1)]) (auto simp: l_def)
  have "strictly_sorted (keysOf P r0)" "\<forall>k\<in>set (keysOf P r0). NULL_KEY P < k"
    using wf(2) by (auto simp: wfBlock_def keysOf_def el sorted_keys_drop dest: in_set_dropD)
  then obtain h where h: "updateHead P r0 = Some (r0\<lparr>head := h\<rparr>)" "wfBlock P (r0\<lparr>head := h\<rparr>)"
    using updateHead_wf [OF wf(1) okr] by blast
  have "elems b = cellsOf b" using okd full by (simp add: elems_def)
  then have "set (stale l) \<subseteq> set (elems r0) \<union> set_option (nullValue P)"
    using set_drop_erased [of "MinSize P" "MinSize P" "MaxSize P" "cellsOf b" P] okd wp el by (simp add: l_def)
  then have "staleKeys P l \<subseteq> insert (NULL_KEY P) (set (keysOf P r0))"
    using nullValue_keys [OF wf(1)] by (force simp: staleKeys_def keysOf_def)
  moreover have "staleKeys P r0 \<subseteq> {NULL_KEY P}"
    using f(3) okd wp nullValue_keys [OF wf(1)]
    by (auto simp: staleKeys_def r0_def rcells_def dest: in_set_dropD)
  moreover have "split P b = Some (l, r0\<lparr>head := h\<rparr>)"
    using wf okd wp full f cp er h(1) wfl by (simp add: split_def Let_def) (simp add: l_def r0_def)
  moreover have "nullStale P l" using okd wp by (intro nullStale_erased [OF wf(1) _ _ l_def]) auto
  ultimately show ?thesis using wfl h(2) el by (auto simp: l_def r0_def)
qed

lemma nat_int_plus [simp]: "nat (int a + int b) = a + b"
  by (simp flip: of_nat_add)

lemma shiftBack_run:
  assumes "okBlock P b" and "0 < offset" and "offset + n \<le> MaxSize P"
  shows "\<exists>cells. shiftBack P offset n b = Some (b\<lparr>block := Some cells\<rparr>) \<and> length cells = MaxSize P \<and>
     take n (drop offset cells) = take n (cellsOf b) \<and> drop (offset + n) cells = drop (offset + n) (cellsOf b)"
  using assms(1,3)
proof (induction n arbitrary: b)
  case 0
  then show ?case by (intro exI [of _ "cellsOf b"]) (simp add: okBlockD block_self)
next
  case (Suc i)
  note okd = okBlockD [OF Suc.prems(1)]
  let ?v = "cellsOf b ! i"
  let ?c1 = "(cellsOf b)[offset + i := ?v]"
  let ?c2 = "erased P i (Suc i) ?c1"
  let ?b1 = "b\<lparr>block := Some ?c1\<rparr>" and ?b2 = "b\<lparr>block := Some ?c2\<rparr>"
  have g: "get b i = Some ?v" "setCell b (offset + i) ?v = Some ?b1"
    using Suc.prems okd by (simp_all add: get_ok setCell_ok)
  have ok1: "okBlock P ?b1" using okd by simp
  have e: "eraseCell P ?b1 i = Some ?b2"
    using Suc.prems eraseCell_run [OF ok1, of i] by simp
  have "okBlock P ?b2" using okd Suc.prems by simp
  then obtain cells where c: "shiftBack P offset i ?b2 = Some (?b2\<lparr>block := Some cells\<rparr>)" "length cells = MaxSize P"
    "take i (drop offset cells) = take i ?c2" "drop (offset + i) cells = drop (offset + i) ?c2"
    using Suc.IH [of ?b2] Suc.prems(2) by auto
  have t: "take i ?c2 = take i (cellsOf b)" using Suc.prems okd by simp
  have d: "drop (offset + i) ?c2 = ?v # drop (offset + Suc i) (cellsOf b)"
  proof -
    have "drop (offset + i) ?c2 = drop (offset + i) ?c1"
      using Suc.prems okd assms(2) by (intro drop_erased) auto
    also have "\<dots> = (drop (offset + i) (cellsOf b))[0 := ?v]" by (simp add: drop_update_swap)
    finally show ?thesis using Suc.prems okd by (simp flip: Cons_nth_drop_Suc)
  qed
  then have "drop (offset + Suc i) cells = drop (offset + Suc i) (cellsOf b)"
    using c(4) by (metis drop_Suc_Cons drop0 drop_drop add_Suc_right plus_1_eq_Suc)
  moreover have "take (Suc i) (drop offset cells) = take (Suc i) (cellsOf b)"
  proof -
    have "drop offset cells ! i = ?v"
      using c(2,4) d Suc.prems by (metis add_lessD1 add_Suc_right hd_drop_conv_nth le_eq_less_or_eq less_le_trans lessI list.sel(1) nth_drop add_leD1 order_less_le)
    then show ?thesis
      using c(2,3) t Suc.prems okd by (simp add: take_Suc_conv_app_nth)
  qed
  ultimately show ?case using g e c(1,2) by auto
qed

lemma copyLoop_run:
  assumes "okBlock P b" "okBlock P other" "m \<le> MaxSize P"
  shows "foldM (\<lambda>i b. do { v \<leftarrow> get other i; setCell b i v }) [0..<m] b =
     Some (b\<lparr>block := Some (take m (cellsOf other) @ drop m (cellsOf b))\<rparr>)"
  using assms(3)
proof (induction m)
  case 0
  then show ?case using okBlockD [OF assms(1)] by (simp add: block_self)
next
  case (Suc m)
  note okb = okBlockD [OF assms(1)] and oko = okBlockD [OF assms(2)]
  let ?b = "b\<lparr>block := Some (take m (cellsOf other) @ drop m (cellsOf b))\<rparr>"
  have "okBlock P ?b" using okb oko Suc by simp
  then have "setCell ?b m (cellsOf other ! m) =
      Some (b\<lparr>block := Some ((take m (cellsOf other) @ drop m (cellsOf b))[m := cellsOf other ! m])\<rparr>)"
    using Suc by (simp add: setCell_ok)
  also have "(take m (cellsOf other) @ drop m (cellsOf b))[m := cellsOf other ! m] =
      take (Suc m) (cellsOf other) @ drop (Suc m) (cellsOf b)"
    using Suc okb oko by (simp add: list_update_append take_Suc_conv_app_nth flip: Cons_nth_drop_Suc)
  finally show ?case using Suc assms(2) by (simp add: get_ok)
qed

lemma mergeSmaller_ok:
  assumes wf: "wfParams P" "wfBlock P b" "wfBlock P other" and fits: "bsize b + bsize other \<le> MaxSize P"
    and ne: "0 < bsize other" and less: "\<forall>k\<in>set (keysOf P other). \<forall>l\<in>set (keysOf P b). k < l"
  shows "\<exists>b'. mergeSmaller P b other = Some b' \<and> wfBlock P b' \<and> elems b' = elems other @ elems b \<and>
     bsize b' = bsize b + bsize other \<and> staleKeys P b' \<subseteq> staleKeys P b"
proof -
  have ok: "okBlock P b" "okBlock P other" using wf by simp_all
  note okb = okBlockD [OF ok(1)] and oko = okBlockD [OF ok(2)]
  obtain cells where c: "shiftBack P (bsize other) (bsize b) b = Some (b\<lparr>block := Some cells\<rparr>)"
    "length cells = MaxSize P" "take (bsize b) (drop (bsize other) cells) = elems b"
    "drop (bsize other + bsize b) cells = drop (bsize other + bsize b) (cellsOf b)"
    using shiftBack_run [OF ok(1) ne, of "bsize b"] fits by (auto simp: elems_def add.commute)
  define b1 where "b1 = b\<lparr>block := Some (elems other @ drop (bsize other) cells), bsize := bsize b + bsize other\<rparr>"
  have "okBlock P (b\<lparr>block := Some cells\<rparr>)" using c okb by simp
  from copyLoop_run [OF this ok(2) oko(3)]
  have cp: "foldM (\<lambda>i b. do { v \<leftarrow> get other i; setCell b i v }) [0..<bsize other] (b\<lparr>block := Some cells\<rparr>) =
      Some (b\<lparr>block := Some (elems other @ drop (bsize other) cells)\<rparr>)"
    by (simp add: elems_def)
  have el: "elems b1 = elems other @ elems b"
    using c(3) ok by (simp add: b1_def add.commute)
  have okb1: "okBlock P b1" using ok c(2) oko fits by (simp add: b1_def)
  have srt: "strictly_sorted (keysOf P b1)" "\<forall>k\<in>set (keysOf P b1). NULL_KEY P < k"
    using wf less by (auto simp: wfBlock_def keysOf_def el sorted_wrt_append)
  obtain h where h: "updateHead P b1 = Some (b1\<lparr>head := h\<rparr>)" "wfBlock P (b1\<lparr>head := h\<rparr>)"
    using updateHead_wf [OF wf(1) okb1 srt] .
  have "stale b1 = drop (bsize other + bsize b) (cellsOf b)"
    using c(4) ok by (simp add: b1_def drop_append add.commute)
  then have "staleKeys P b1 \<subseteq> staleKeys P b"
    using set_drop_subset_set_drop [of "bsize b" "bsize other + bsize b" "cellsOf b"]
    by (auto simp: staleKeys_def stale_def)
  moreover have "mergeSmaller P b other = Some (b1\<lparr>head := h\<rparr>)"
    using okb oko c(1) cp h fits wfParamsD(4) [OF wf(1)] by (simp add: mergeSmaller_def) (simp add: b1_def add.commute)
  ultimately show ?thesis using h(2) el by (auto simp: b1_def)
qed

lemma neededBound:
  assumes "wfParams P" and "bsize b \<le> MinSize P"
  shows "u16 (int (MinSize P) - int (bsize b)) = MinSize P - bsize b"
  using wfParamsD [OF assms(1)] assms(2) by (simp add: nat_diff_distrib)

lemma steal_ok:
  assumes wf: "wfParams P" "wfBlock P b" "wfBlock P right"
    and sz: "0 < bsize b" "bsize b \<le> MinSize P" "2 * MinSize P \<le> bsize b + bsize right"
    and less: "\<forall>k\<in>set (keysOf P b). \<forall>l\<in>set (keysOf P right). k < l"
  shows "\<exists>b' right'. steal P b right = Some (b', right') \<and> wfBlock P b' \<and> wfBlock P right' \<and>
     elems b' = elems b @ take (MinSize P - bsize b) (elems right) \<and>
     elems right' = drop (MinSize P - bsize b) (elems right) \<and> bsize b' = MinSize P"
proof -
  have ok: "okBlock P b" "okBlock P right" using wf by simp_all
  note okb = okBlockD [OF ok(1)] and okr = okBlockD [OF ok(2)] and wp = wfParamsD [OF wf(1)]
  let ?n = "MinSize P - bsize b"
  have n: "?n \<le> bsize right" "bsize b + ?n \<le> MaxSize P" using sz okr wp by auto
  define b1 where "b1 = b\<lparr>block := Some (elems b @ take ?n (elems right) @ drop (MinSize P) (cellsOf b)),
    bsize := MinSize P\<rparr>"
  have cp1: "copyCells (cellsOf right) 0 ?n (cellsOf b) (bsize b) = Some (cellsOf b1)"
    using n okb okr sz by (simp add: copyCells_def b1_def elems_def min_absorb1)
  let ?r1 = "erased P 0 ?n (cellsOf right)"
  have er1: "eraseCells P 0 ?n right = Some (right\<lparr>block := Some ?r1\<rparr>)"
    using n okr by (intro eraseCells_run [OF ok(2)]) auto
  let ?r2 = "drop ?n (elems right) @ drop (bsize right - ?n) ?r1"
  have cp2: "copyCells ?r1 ?n (bsize right - ?n) ?r1 0 = Some ?r2"
    using n okr by (simp add: copyCells_def elems_def drop_take)
  have len2: "length ?r2 = MaxSize P" using n okr ok by simp
  let ?r3 = "erased P (bsize right - ?n) (bsize right) ?r2"
  have er2: "eraseCells P (bsize right - ?n) (bsize right) (right\<lparr>block := Some ?r2\<rparr>) = Some (right\<lparr>block := Some ?r3\<rparr>)"
    using eraseCells_run [of P "right\<lparr>block := Some ?r2\<rparr>" "bsize right - ?n" "bsize right"] len2 okr by simp
  define r0 where "r0 = right\<lparr>block := Some ?r3, bsize := bsize right - ?n\<rparr>"
  have el: "elems b1 = elems b @ take ?n (elems right)" "elems r0 = drop ?n (elems right)"
    using n len2 ok okr sz by (simp_all add: b1_def r0_def)
  have "okBlock P b1" "okBlock P r0" using n len2 ok okb okr sz by (simp_all add: b1_def r0_def)
  have srt: "strictly_sorted (keysOf P r0)" "\<forall>k\<in>set (keysOf P r0). NULL_KEY P < k"
    using wf(3) by (auto simp: wfBlock_def keysOf_def el sorted_keys_drop dest: in_set_dropD)
  obtain h where h: "updateHead P r0 = Some (r0\<lparr>head := h\<rparr>)" "wfBlock P (r0\<lparr>head := h\<rparr>)"
    using updateHead_wf [OF wf(1) \<open>okBlock P r0\<close> srt] .
  have "strictly_sorted (keysOf P b1)" "\<forall>k\<in>set (keysOf P b1). NULL_KEY P < k"
    using wf less by (auto simp: wfBlock_def keysOf_def el sorted_wrt_append sorted_keys_take dest: in_set_takeD)
  moreover have "head b1 = hd (keysOf P b1)"
  proof -
    have "elems b \<noteq> []" using ok(1) sz(1) length_elems [of P b] by force
    then show ?thesis using wf(2) sz(1) by (simp add: wfBlock_def keysOf_def el hd_append hd_map) (simp add: b1_def)
  qed
  ultimately have wfb1: "wfBlock P b1" using \<open>okBlock P b1\<close> by (simp add: wfBlock_def)
  have b1_eq: "b\<lparr>block := Some (cellsOf b1), bsize := MinSize P\<rparr> = b1" by (simp add: b1_def)
  have "steal P b right = Some (b1, r0\<lparr>head := h\<rparr>)"
    using okb okr sz n wp cp1 er1 cp2 er2 h(1) wfb1 neededBound [OF wf(1) sz(2)]
    by (simp add: steal_def Let_def) (simp add: b1_eq r0_def)
  then show ?thesis using wfb1 h(2) el by (auto simp: b1_def)
qed

lemma stealFromSmaller_ok:
  assumes wf: "wfParams P" "wfBlock P b" "wfBlock P left"
    and sz: "0 < bsize b" "bsize b \<le> MinSize P" "2 * MinSize P \<le> bsize b + bsize left"
    and less: "\<forall>k\<in>set (keysOf P left). \<forall>l\<in>set (keysOf P b). k < l"
  shows "\<exists>b' left'. stealFromSmaller P b left = Some (b', left') \<and> wfBlock P b' \<and> wfBlock P left' \<and>
     elems b' = drop (bsize left - (MinSize P - bsize b)) (elems left) @ elems b \<and>
     elems left' = take (bsize left - (MinSize P - bsize b)) (elems left) \<and> bsize b' = MinSize P"
proof -
  have ok: "okBlock P b" "okBlock P left" using wf by simp_all
  note okb = okBlockD [OF ok(1)] and okl = okBlockD [OF ok(2)] and wp = wfParamsD [OF wf(1)]
  let ?n = "MinSize P - bsize b" and ?m = "bsize left - (MinSize P - bsize b)"
  have n: "?n \<le> bsize left" "bsize b + ?n \<le> MaxSize P" "MinSize P \<le> ?m" using sz okl wp by auto
  let ?c1 = "take ?n (cellsOf b) @ elems b @ drop (MinSize P) (cellsOf b)"
  have cp1: "copyCells (cellsOf b) 0 (bsize b) (cellsOf b) ?n = Some ?c1"
    using n okb sz by (simp add: copyCells_def elems_def)
  have len1: "length ?c1 = MaxSize P" using n ok okb sz by simp
  let ?c2 = "erased P 0 ?n ?c1"
  have er1: "eraseCells P 0 ?n (b\<lparr>block := Some ?c1\<rparr>) = Some (b\<lparr>block := Some ?c2\<rparr>)"
    using eraseCells_run [of P "b\<lparr>block := Some ?c1\<rparr>" 0 ?n] len1 n okb by simp
  let ?c3 = "drop ?m (elems left) @ elems b @ drop (MinSize P) (cellsOf b)"
  have "drop ?n ?c2 = elems b @ drop (MinSize P) (cellsOf b)"
    using len1 n okb by (subst drop_erased) auto
  moreover have "length ?c2 = MaxSize P" using len1 n by (subst length_erased) auto
  ultimately have cp2: "copyCells (cellsOf left) ?m ?n ?c2 0 = Some ?c3"
    using n okl by (simp add: copyCells_def elems_def [of left] drop_take)
  let ?l1 = "erased P ?m (bsize left) (cellsOf left)"
  have er2: "eraseCells P ?m (bsize left) left = Some (left\<lparr>block := Some ?l1\<rparr>)"
    using n okl by (intro eraseCells_run [OF ok(2)]) auto
  define b0 where "b0 = b\<lparr>block := Some ?c3, bsize := MinSize P\<rparr>"
  define l where "l = left\<lparr>block := Some ?l1, bsize := ?m\<rparr>"
  have len3: "length (drop ?m (elems left)) + length (elems b) = MinSize P" using n ok sz by simp
  then have el: "elems b0 = drop ?m (elems left) @ elems b" "elems l = take ?m (elems left)"
    using n okl ok sz by (simp_all add: b0_def l_def elems_def [of left])
  have okb0: "okBlock P b0" and okl': "okBlock P l" using n len3 ok okb okl wp sz by (simp_all add: b0_def l_def)
  have srt: "strictly_sorted (keysOf P b0)" "\<forall>k\<in>set (keysOf P b0). NULL_KEY P < k"
    using wf less
    by (auto simp: wfBlock_def keysOf_def el sorted_wrt_append sorted_keys_drop dest: in_set_dropD)
  obtain h where h: "updateHead P b0 = Some (b0\<lparr>head := h\<rparr>)" "wfBlock P (b0\<lparr>head := h\<rparr>)"
    using updateHead_wf [OF wf(1) okb0 srt] .
  have wfl: "wfBlock P l" using n wp by (intro wfBlock_prefix [OF wf(3) okl' _ _ el(2)]) (auto simp: l_def)
  have "stealFromSmaller P b left = Some (b0\<lparr>head := h\<rparr>, l)"
    using okb okl sz n wp cp1 er1 cp2 er2 h neededBound [OF wf(1) sz(2)]
    by (simp add: stealFromSmaller_def Let_def) (simp add: b0_def l_def)
  then show ?thesis using wfl h(2) el by (auto simp: b0_def)
qed

section \<open>Properties\<close>

subsection \<open>Inserting several elements\<close>

lemma set_insKey_new:
  "strictly_sorted (map kf xs) \<Longrightarrow>
   set (insKey kf e xs) = (if kf e \<in> kf ` set xs then set xs else insert e (set xs))"
  by (induction xs) auto

lemma insKey_sorted: "strictly_sorted (map kf xs) \<Longrightarrow> strictly_sorted (map kf (insKey kf e xs))"
proof (induction xs)
  case (Cons x xs)
  have "kf ` set (insKey kf e xs) = insert (kf e) (kf ` set xs)" by (rule keys_insKey)
  then show ?case using Cons by (auto simp: not_less)
qed simp

lemma fold_insKey_sorted: "strictly_sorted (map kf E) \<Longrightarrow> strictly_sorted (map kf (fold (insKey kf) B E))"
  by (induction B arbitrary: E) (auto simp: insKey_sorted)

lemma set_fold_insKey:
  assumes "strictly_sorted (map kf E)" "strictly_sorted (map kf B)"
  shows "set (fold (insKey kf) B E) = set E \<union> {x\<in>set B. kf x \<notin> kf ` set E}"
  using assms
proof (induction B arbitrary: E)
  case (Cons x B)
  have "set (fold (insKey kf) B (insKey kf x E)) = set (insKey kf x E) \<union> {y\<in>set B. kf y \<notin> kf ` set (insKey kf x E)}"
    using Cons.prems by (intro Cons.IH) (auto simp: insKey_sorted)
  moreover have "kf y \<noteq> kf x" if "y \<in> set B" for y using Cons.prems(2) that by auto
  ultimately show ?case using Cons.prems(1) by (auto simp: set_insKey_new keys_insKey)
qed simp

lemma sorted_keys_unique:
  assumes "strictly_sorted (map kf xs)" "strictly_sorted (map kf ys)" "set xs = set ys"
  shows "xs = ys"
proof -
  have d: "distinct (map kf xs)" "distinct (map kf ys)" "sorted (map kf xs)" "sorted (map kf ys)"
    using assms by (auto simp: strict_sorted_iff)
  then have "inj_on kf (set xs \<union> set ys)" using assms(3) by (simp add: distinct_map)
  then show ?thesis using d assms(3) by (rule_tac map_sorted_distinct_set_unique) auto
qed

lemma insKey_append_left: "(\<And>x. x \<in> set A \<Longrightarrow> kf x < kf e) \<Longrightarrow> insKey kf e (A @ B) = A @ insKey kf e B"
  by (induction A) auto

lemma insKey_append_right: "(\<And>x. x \<in> set C \<Longrightarrow> kf e < kf x) \<Longrightarrow> insKey kf e (B @ C) = insKey kf e B @ C"
proof (induction B)
  case Nil
  show ?case
  proof (cases C)
    case (Cons c C')
    then have "kf e < kf c" using Nil by simp
    then show ?thesis using Cons by auto
  qed simp
qed auto

lemma fold_insKey_append:
  "(\<And>e x. e \<in> set es \<Longrightarrow> x \<in> set A \<Longrightarrow> kf x < kf e) \<Longrightarrow> (\<And>e x. e \<in> set es \<Longrightarrow> x \<in> set C \<Longrightarrow> kf e < kf x) \<Longrightarrow>
   fold (insKey kf) es (A @ B @ C) = A @ fold (insKey kf) es B @ C"
proof (induction es arbitrary: B)
  case (Cons e es)
  have "insKey kf e (A @ B @ C) = A @ insKey kf e B @ C"
    using Cons.prems by (simp add: insKey_append_left insKey_append_right)
  then show ?case using Cons.IH [of "insKey kf e B"] Cons.prems by simp
qed simp

lemma keys_fold_insKey: "kf ` set (fold (insKey kf) es xs) = kf ` set xs \<union> kf ` set es"
  by (induction es arbitrary: xs) (auto simp: keys_insKey)

lemma length_fold_insKey:
  "length (fold (insKey kf) es xs) \<le> length xs + length es" "length xs \<le> length (fold (insKey kf) es xs)"
proof -
  have one: "length (insKey kf e xs) \<le> Suc (length xs)" "length xs \<le> length (insKey kf e xs)" for e xs
    by (induction xs) auto
  show "length (fold (insKey kf) es xs) \<le> length xs + length es"
  proof (induction es arbitrary: xs)
    case (Cons e es)
    have "length (fold (insKey kf) es (insKey kf e xs)) \<le> length (insKey kf e xs) + length es" by (rule Cons)
    then show ?case using one(1) [of e xs] by simp
  qed simp
  show "length xs \<le> length (fold (insKey kf) es xs)"
  proof (induction es arbitrary: xs)
    case (Cons e es)
    have "length (insKey kf e xs) \<le> length (fold (insKey kf) es (insKey kf e xs))" by (rule Cons)
    then show ?case using one(2) [of xs e] by simp
  qed simp
qed

text \<open>A small instance (keys are the values, blocks of four) on which the hypotheses below are seen to hold.\<close>

definition demoParams :: "bool \<Rightarrow> (nat, nat) tparams" where
  "demoParams ndebug = \<lparr>NULL_KEY = 0, keyOfValue = id, defaultValue = 0, nullValue = Some 0, indeterminate = 9,
     MinSize = 2, MaxSize = 4, SegmentWidth = 2, NDEBUG = ndebug\<rparr>"

definition demoBlock :: "nat list \<Rightarrow> (nat, nat) PmaEntry" where
  "demoBlock xs = \<lparr>block = Some (xs @ replicate (4 - length xs) 0), head = hd xs, bsize = length xs\<rparr>"

lemma demoParams_sel [simp]:
  "NULL_KEY (demoParams nd) = 0" "keyOfValue (demoParams nd) = id" "MinSize (demoParams nd) = 2" "MaxSize (demoParams nd) = 4"
  "NDEBUG (demoParams nd) = nd" "SegmentWidth (demoParams nd) = 2" "wfParams (demoParams nd)"
  by (simp_all add: demoParams_def wfParams_def)

lemma demoBlock_sel [simp]:
  assumes "length xs \<le> 4"
  shows "bsize (demoBlock xs) = length xs" "elems (demoBlock xs) = xs" "keysOf (demoParams nd) (demoBlock xs) = xs"
    "staleOk (demoParams nd) (demoBlock xs) k = (k = 0 \<longrightarrow> length xs < 4 \<longrightarrow> 0 \<in> set xs)"
  using assms by (auto simp: demoBlock_def elems_def cellsOf_def keysOf_def staleOk_def stale_def)

lemma demoBlock_wf [simp]:
  "length xs \<le> 4 \<Longrightarrow> wfBlock (demoParams nd) (demoBlock xs) \<longleftrightarrow> strictly_sorted xs \<and> (\<forall>x\<in>set xs. 0 < x)"
  by (auto simp: wfBlock_def okBlock_def) (auto simp: demoBlock_def cellsOf_def)

lemma demoBlock_keyPos [simp]:
  "length xs \<le> 4 \<Longrightarrow> keyPos (demoParams nd) (demoBlock xs) k = length (takeWhile (\<lambda>x. x < k) xs)"
  by (simp add: keyPos_def)

text \<open>C30. \<open>insertWithIndex\<close> on a block that is not full, started at a position all of whose predecessors have smaller keys, runs without a failed
  assertion and returns the position of the key. It inserts the element at its place and reports success, unless its key is in the block, or the key is
  above all keys of the block and still stands in the cell behind the last element, where a removal in a release build leaves it: then nothing changes
  and the element is reported as present.\<close>

theorem insertWithIndex_inserts:
  assumes "wfParams P" "wfBlock P b" "bsize b < MaxSize P" "NULL_KEY P < keyOfValue P e"
    and "start \<le> bsize b" "\<forall>v\<in>set (take start (elems b)). keyOfValue P v < keyOfValue P e"
  shows "\<exists>b'. insertWithIndex P b e start =
           Some (keyOfValue P e \<notin> set (keysOf P b) \<and> \<not> shadowed P b (keyOfValue P e), keyPos P b (keyOfValue P e), b') \<and>
         wfBlock P b' \<and> elems b' = (if shadowed P b (keyOfValue P e) then elems b else insKey (keyOfValue P) e (elems b))"
proof -
  have "okBlock P b" "strictly_sorted (keysOf P b)" using assms(2) by (auto simp: wfBlock_def)
  then show ?thesis using insertWithIndex_exact [OF assms] insKey_elems [of P b e] by force
qed

theorem insertWithIndex_inserts_witness:
  "\<exists>b'. insertWithIndex (demoParams False) (demoBlock [3, 7]) 5 0 = Some (True, 1, b') \<and>
     wfBlock (demoParams False) b' \<and> elems b' = [3, 5, 7]"
  using insertWithIndex_inserts [of "demoParams False" "demoBlock [3, 7]" 5 0] by (simp add: shadowed_def)

text \<open>C31. \<open>merge\<close> of a sorted batch that fits into the block inserts the elements one after the other, and the result is the sorted block that results from
  inserting each of them, provided that every key of the batch that stands in an unused cell of the block also belongs to an element of the block.\<close>

theorem merge_inserts_all:
  assumes "wfParams P" "wfBlock P b" "0 < n" "n \<le> length batch" "bsize b + n \<le> MaxSize P"
    and "sorted (map (keyOfValue P) batch)"
    and "\<forall>e\<in>set batch. NULL_KEY P < keyOfValue P e \<and> staleOk P b (keyOfValue P e)"
  shows "\<exists>b'. merge P b batch n = Some b' \<and> wfBlock P b' \<and>
     elems b' = fold (insKey (keyOfValue P)) (take n batch) (elems b)"
  using merge_ok [OF assms] by blast

theorem merge_inserts_all_witness:
  "\<exists>b'. merge (demoParams True) (demoBlock [3, 7]) [1, 5] 2 = Some b' \<and> wfBlock (demoParams True) b' \<and> elems b' = [1, 3, 5, 7]"
  using merge_inserts_all [of "demoParams True" "demoBlock [3, 7]" 2 "[1, 5]"] by simp

text \<open>C32. \<open>split\<close> of a full block yields two blocks of \<open>MinSize\<close> elements each, both sorted and with correct
  heads, whose elements are the two halves of the block.\<close>

theorem split_halves:
  assumes "wfParams P" "wfBlock P b" "bsize b = MaxSize P"
  shows "\<exists>l r. split P b = Some (l, r) \<and> wfBlock P l \<and> wfBlock P r \<and> elems l @ elems r = elems b \<and>
     bsize l = MinSize P \<and> bsize r = MinSize P"
  using split_ok [OF assms] by fastforce

theorem split_halves_witness:
  "\<exists>l r. split (demoParams False) (demoBlock [1, 3, 5, 7]) = Some (l, r) \<and> elems l @ elems r = [1, 3, 5, 7] \<and> bsize l = 2"
  using split_halves [of "demoParams False" "demoBlock [1, 3, 5, 7]"] by auto

text \<open>C33. \<open>contains\<close> answers whether the key occurs in the block.\<close>

theorem blockContains_iff:
  assumes "wfBlock P b"
  shows "blockContains P b k = Some (k \<in> set (keysOf P b))"
  by (rule blockContains_ok [OF assms])

theorem blockContains_iff_witness:
  "blockContains (demoParams False) (demoBlock [3, 7]) 7 = Some True \<and> blockContains (demoParams False) (demoBlock [3, 7]) 5 = Some False"
  using blockContains_iff [of "demoParams False" "demoBlock [3, 7]" 7] blockContains_iff [of "demoParams False" "demoBlock [3, 7]" 5]
  by simp

text \<open>C34. \<open>remove\<close> from a block that does not lose its only element deletes the element with the given key if there is one, tells whether there was one,
  and leaves a sorted block that has the first key as its head and satisfies the documented conditions on head, size and block pointer.\<close>

theorem remove_deletes:
  assumes "wfParams P" "wfBlock P b" "1 < bsize b \<or> 0 < bsize b \<and> keyOfValue P e \<notin> set (keysOf P b)"
  shows "\<exists>b'. remove P b e = Some (keyOfValue P e \<in> set (keysOf P b), b') \<and> wfBlock P b' \<and> documented P b' \<and>
     elems b' = filter (\<lambda>v. keyOfValue P v \<noteq> keyOfValue P e) (elems b)"
proof -
  obtain b' where b': "remove P b e = Some (keyOfValue P e \<in> set (keysOf P b), b')" "wfBlock P b'"
     "elems b' = filter (\<lambda>v. keyOfValue P v \<noteq> keyOfValue P e) (elems b)" using remove_ok [OF assms(1,2), of e] by blast
  have ok: "okBlock P b" "okBlock P b'" "distinct (keysOf P b)" using assms(2) b'(2) by (simp_all add: wfBlock_def strict_sorted_iff)
  have "elems b' \<noteq> []"
  proof
    assume "elems b' = []"
    then have all: "keysOf P b = replicate (length (keysOf P b)) (keyOfValue P e)" using b'(3) by (auto simp: filter_empty_conv keysOf_def intro!: replicate_eqI)
    moreover have "length (keysOf P b) = bsize b" using length_elems [OF ok(1)] by (simp add: keysOf_def)
    moreover have "distinct (replicate n x) \<longleftrightarrow> n \<le> 1" for n and x :: 'a by (cases n rule: nat.exhaust; cases "n - 1"; simp)
    ultimately have "bsize b \<le> 1" "0 < bsize b \<Longrightarrow> keyOfValue P e \<in> set (keysOf P b)" using ok(3) by (metis, metis in_set_replicate not_gr_zero)
    then show False using assms(3) by auto
  qed
  then have "0 < bsize b'" using length_elems [OF ok(2)] by (metis length_greater_0_conv)
  then show ?thesis using b' wfBlock_documented [OF b'(2)] by blast
qed

theorem remove_deletes_witness:
  "\<exists>b'. remove (demoParams False) (demoBlock [3, 5, 7]) 5 = Some (True, b') \<and> documented (demoParams False) b' \<and> elems b' = [3, 7]"
  using remove_deletes [of "demoParams False" "demoBlock [3, 5, 7]" 5] by auto

text \<open>C37. \<open>mergeSmaller\<close> puts the elements of a non-empty block with smaller keys in front, when both fit.\<close>

theorem mergeSmaller_prepends:
  assumes "wfParams P" "wfBlock P b" "wfBlock P other" "bsize b + bsize other \<le> MaxSize P" "0 < bsize other"
    and "\<forall>k\<in>set (keysOf P other). \<forall>l\<in>set (keysOf P b). k < l"
  shows "\<exists>b'. mergeSmaller P b other = Some b' \<and> wfBlock P b' \<and> elems b' = elems other @ elems b"
  using mergeSmaller_ok [OF assms] by blast

theorem mergeSmaller_prepends_witness:
  "\<exists>b'. mergeSmaller (demoParams False) (demoBlock [5, 7]) (demoBlock [1, 3]) = Some b' \<and> elems b' = [1, 3, 5, 7]"
  using mergeSmaller_prepends [of "demoParams False" "demoBlock [5, 7]" "demoBlock [1, 3]"] by auto

text \<open>C35. \<open>steal\<close> fills a block that is too small to \<open>MinSize\<close> from its right neighbour and keeps both blocks
  sorted, with correct heads and at least \<open>MinSize\<close> elements; nothing is lost or reordered.\<close>

theorem steal_rebalances:
  assumes "wfParams P" "wfBlock P b" "wfBlock P right"
    and "0 < bsize b" "bsize b \<le> MinSize P" "2 * MinSize P \<le> bsize b + bsize right"
    and "\<forall>k\<in>set (keysOf P b). \<forall>l\<in>set (keysOf P right). k < l"
  shows "\<exists>b' right'. steal P b right = Some (b', right') \<and> wfBlock P b' \<and> wfBlock P right' \<and>
     elems b' @ elems right' = elems b @ elems right \<and> bsize b' = MinSize P \<and> MinSize P \<le> length (elems right')"
proof -
  have "length (elems right) = bsize right" using assms(3) by (meson length_elems wfBlock_ok)
  then show ?thesis using steal_ok [OF assms] assms(4-6) by fastforce
qed

theorem steal_rebalances_witness:
  "\<exists>b' r'. steal (demoParams False) (demoBlock [1]) (demoBlock [3, 5, 7]) = Some (b', r') \<and>
     elems b' @ elems r' = [1, 3, 5, 7] \<and> bsize b' = 2"
  using steal_rebalances [of "demoParams False" "demoBlock [1]" "demoBlock [3, 5, 7]"] by auto

text \<open>C36. \<open>stealFromSmaller\<close> does the same from the left neighbour.\<close>

theorem stealFromSmaller_rebalances:
  assumes "wfParams P" "wfBlock P b" "wfBlock P left"
    and "0 < bsize b" "bsize b \<le> MinSize P" "2 * MinSize P \<le> bsize b + bsize left"
    and "\<forall>k\<in>set (keysOf P left). \<forall>l\<in>set (keysOf P b). k < l"
  shows "\<exists>b' left'. stealFromSmaller P b left = Some (b', left') \<and> wfBlock P b' \<and> wfBlock P left' \<and>
     elems left' @ elems b' = elems left @ elems b \<and> bsize b' = MinSize P \<and> MinSize P \<le> length (elems left')"
proof -
  have "length (elems left) = bsize left" using assms(3) by (meson length_elems wfBlock_ok)
  then show ?thesis using stealFromSmaller_ok [OF assms] assms(4-6) by fastforce
qed

theorem stealFromSmaller_rebalances_witness:
  "\<exists>b' l'. stealFromSmaller (demoParams False) (demoBlock [7]) (demoBlock [1, 3, 5]) = Some (b', l') \<and>
     elems l' @ elems b' = [1, 3, 5, 7] \<and> bsize b' = 2"
  using stealFromSmaller_rebalances [of "demoParams False" "demoBlock [7]" "demoBlock [1, 3, 5]"] by auto

text \<open>C38. In a release build no block takes back its greatest element: after the element was removed, \<open>insertWithIndex\<close>, from any start position, compares
  the key with the cell behind the last element, finds the removed key there and reports that the element is present, although the block does not contain it.\<close>

theorem reinsert_after_remove_lost:
  assumes "wfParams P" "wfBlock P b" "NDEBUG P" "0 < bsize b" "keyOfValue P e = last (keysOf P b)" "start < bsize b"
  shows "\<exists>b'. remove P b e = Some (True, b') \<and> keysOf P b' = butlast (keysOf P b) \<and>
     insertWithIndex P b' e start = Some (False, bsize b', b') \<and> blockContains P b' (keyOfValue P e) = Some False"
proof -
  let ?k = "keyOfValue P e"
  obtain b' where b': "remove P b e = Some (True, b')" "wfBlock P b'" "keysOf P b' = butlast (keysOf P b)" "cellsOf b' = cellsOf b" "bsize b' = bsize b - 1"
    using remove_greatest [OF assms(1,2) _ assms(4,5)] assms(3) by blast
  have ok: "okBlock P b" "okBlock P b'" and srt: "strictly_sorted (keysOf P b)" "\<forall>k\<in>set (keysOf P b). NULL_KEY P < k"
    using assms(2) b'(2) by (auto simp: wfBlock_def)
  have len: "length (keysOf P b) = bsize b" "keysOf P b \<noteq> []" using length_elems [OF ok(1)] assms(4) by (auto simp: keysOf_def)
  have keys: "keysOf P b = keysOf P b' @ [?k]" using len(2) b'(3) assms(5) by simp
  then have below: "\<forall>l\<in>set (keysOf P b'). l < ?k" using srt(1) by (simp add: sorted_wrt_append)
  have lt: "bsize b' < MaxSize P" using b'(5) okBlockD [OF ok(1)] assms(4) by simp
  have "keyOfValue P (hd (stale b')) = keysOf P b ! bsize b'"
    using stale_first(2) [OF ok(2) lt] b'(4,5) assms(4) length_elems [OF ok(1)] by (simp add: keysOf_def elems_def)
  also have "\<dots> = ?k" using len b'(5) assms(4,5) by (simp add: last_conv_nth)
  finally have sh: "shadowed P b' ?k" using below stale_first(1) [OF ok(2) lt] by (simp add: shadowed_def)
  have nk: "NULL_KEY P < ?k" using srt(2) keys by auto
  have hint: "start \<le> bsize b'" "\<forall>v\<in>set (take start (elems b')). keyOfValue P v < ?k" using assms(6) b'(5) below by (auto simp: keysOf_def dest!: in_set_takeD)
  have "insertWithIndex P b' e start = Some (False, keyPos P b' ?k, b')" using insertWithIndex_exact [OF assms(1) b'(2) lt nk hint] sh by auto
  moreover have "keyPos P b' ?k = bsize b'" using keyPos_end [OF ok(2), of ?k] below by simp
  moreover have "?k \<notin> set (keysOf P b')" using below by blast
  ultimately show ?thesis using b'(1,3) blockContains_ok [OF b'(2), of ?k] by simp
qed

theorem reinsert_after_remove_lost_witness:
  "\<exists>b'. remove (demoParams True) (demoBlock [3, 7]) 7 = Some (True, b') \<and> insertWithIndex (demoParams True) b' 7 0 = Some (False, bsize b', b') \<and>
     blockContains (demoParams True) b' 7 = Some False"
  using reinsert_after_remove_lost [of "demoParams True" "demoBlock [3, 7]" 7 0] by auto

end
