(* ===== verification/Rebalancing.thy ===== *)
theory Rebalancing
  imports Density Bucket_Map
begin

text \<open>
  The binary hierarchy of block counts: class \<open>BinaryRebalancingManager\<close> of
  \<open>dataStructures/binaryRebalancingManager.hpp\<close>.

  The hierarchy is stored level by level in one array. A node of level 0 counts the blocks of
  \<open>SegmentWidth\<close> entries of the array (blocks in the array and blocks waiting in the buffer array), a
  node of a higher level the sum of its two children; above the root there is one extra level, the
  super root, for rebalancing the whole array into a longer one.

  The manager reads the array through \<open>sds->empty\<close>, \<open>sds->numberOfBufferBlocks\<close> and \<open>sds->size\<close>, collected
  in the record \<open>sdsView\<close>, and appends to \<open>sds->recountingNodesMap\<close> and \<open>sds->rebalancingNodes\<close>, which
  are passed through.
\<close>

section \<open>State\<close>

record BinaryRebalancingManagerEntry =
  numberOfBlocks :: int
  rebalanced :: bool

definition emptyManagerEntry :: BinaryRebalancingManagerEntry where
  "emptyManagerEntry = \<lparr>numberOfBlocks = 0, rebalanced = False\<rparr>"

record brm =
  aggregates :: "BinaryRebalancingManagerEntry list"
  levelStarts :: "int list"
  levelAggregateWidths :: "int list"
  brmSize :: int
  logCapacity :: int
  logCapacityWithSuperRoot :: int
  brmCapacity :: int
  nextLevelRecountingNodes :: BucketMap
  brmThreads :: nat

record sdsView =
  viewEmpty :: "int \<Rightarrow> bool option"
  viewBuffer :: "int \<Rightarrow> int option"
  viewSize :: int

definition INT64_MAX :: int where "INT64_MAX = 2 ^ 63 - 1"

definition LogInitialManagerCapacity :: int where "LogInitialManagerCapacity = 14"

definition InitialManagerCapacity :: int where "InitialManagerCapacity = 2 ^ 14"

section \<open>Index arithmetic\<close>

definition parent :: "int \<Rightarrow> int" where "parent node = cdiv node 2"

definition leftChild :: "int \<Rightarrow> int" where "leftChild node = node * 2"

definition rightChild :: "int \<Rightarrow> int" where "rightChild node = node * 2 + 1"

definition lowestLevelNodeIndex :: "('k, 'v) tparams \<Rightarrow> int \<Rightarrow> int" where
  "lowestLevelNodeIndex P blockIndex = cdiv blockIndex (SegmentWidth P)"

definition getBlockIndexLevelZero :: "('k, 'v) tparams \<Rightarrow> int \<Rightarrow> int" where
  "getBlockIndexLevelZero P index = index * SegmentWidth P"

definition numberOfAggregatesInLevel :: "('k, 'v) tparams \<Rightarrow> brm \<Rightarrow> int \<Rightarrow> int option" where
  "numberOfAggregatesInLevel P m level = do {
     assertMsg (NDEBUG P) (level \<le> logCapacityWithSuperRoot m);
     if level = 0 then Some (brmCapacity m)
     else do {
       w \<leftarrow> idx (levelAggregateWidths m) level;
       assertMsg (NDEBUG P) (cmod (brmCapacity m * SegmentWidth P) w = 0);
       Some (cdiv (brmCapacity m) w) } }"

definition aggregateIndex :: "('k, 'v) tparams \<Rightarrow> brm \<Rightarrow> int \<Rightarrow> int \<Rightarrow> int option" where
  "aggregateIndex P m aggregateNumber level = do {
     assertMsg (NDEBUG P) (level \<le> logCapacityWithSuperRoot m);
     start \<leftarrow> idx (levelStarts m) level;
     Some (start + aggregateNumber) }"

definition aggregateIndexNode :: "('k, 'v) tparams \<Rightarrow> brm \<Rightarrow> RebalancingNode \<Rightarrow> int option" where
  "aggregateIndexNode P m node = aggregateIndex P m (nodeIndex node) (nodeLevel node)"

text \<open>\<open>aggregates[aggregateIndex(index, level)]\<close>, read and written.\<close>

definition aggregateAt :: "('k, 'v) tparams \<Rightarrow> brm \<Rightarrow> int \<Rightarrow> int \<Rightarrow> BinaryRebalancingManagerEntry option" where
  "aggregateAt P m index level = do { i \<leftarrow> aggregateIndex P m index level; idx (aggregates m) i }"

definition setAggregate ::
  "('k, 'v) tparams \<Rightarrow> brm \<Rightarrow> int \<Rightarrow> int \<Rightarrow> (BinaryRebalancingManagerEntry \<Rightarrow> BinaryRebalancingManagerEntry) \<Rightarrow> brm option" where
  "setAggregate P m index level f = do {
     i \<leftarrow> aggregateIndex P m index level;
     e \<leftarrow> idx (aggregates m) i;
     ags \<leftarrow> upd (aggregates m) i (f e);
     Some (m\<lparr>aggregates := ags\<rparr>) }"

text \<open>\<open>AssertMsg(aggregateIndex(index, level) < 2 * capacity, "Invalid index")\<close>\<close>

definition assertIndex :: "('k, 'v) tparams \<Rightarrow> brm \<Rightarrow> int \<Rightarrow> int \<Rightarrow> unit option" where
  "assertIndex P m index level =
     (if NDEBUG P then Some ()
      else do { i \<leftarrow> aggregateIndex P m index level; assertMsg False (i < 2 * brmCapacity m) })"

section \<open>Construction and resizing\<close>

text \<open>\<open>std::vector::resize\<close>: keep the prefix, fill with value-initialised elements.\<close>

definition resizeVector :: "nat \<Rightarrow> 'a \<Rightarrow> 'a list \<Rightarrow> 'a list" where
  "resizeVector n x xs = take n xs @ replicate (n - length xs) x"

definition recomputeLevelInfo :: "brm \<Rightarrow> brm option" where
  "recomputeLevelInfo m = do {
     let n = nat (logCapacityWithSuperRoot m + 1);
     (starts, widths, currentStart, currentWidth, currentAggregateWidth) \<leftarrow>
       for_range 0 (logCapacity m + 1)
         (\<lambda>i (starts, widths, currentStart, currentWidth, currentAggregateWidth). do {
            starts \<leftarrow> upd starts i currentStart;
            widths \<leftarrow> upd widths i currentAggregateWidth;
            Some (starts, widths, currentStart + currentWidth, cdiv currentWidth 2, currentAggregateWidth * 2) })
         (resizeVector n 0 (levelStarts m), resizeVector n 0 (levelAggregateWidths m), 0, brmCapacity m, 1);
     starts \<leftarrow> upd starts (logCapacityWithSuperRoot m) currentStart;
     widths \<leftarrow> upd widths (logCapacityWithSuperRoot m) INT64_MAX;
     Some (m\<lparr>levelStarts := starts, levelAggregateWidths := widths\<rparr>) }"

definition getSizeForCapacity :: "int \<Rightarrow> int" where
  "getSizeForCapacity newCapacity = toInt (dmul 2 (toDouble newCapacity))"

definition newBrm :: "('k, 'v) tparams \<Rightarrow> int \<Rightarrow> nat \<Rightarrow> brm option" where
  "newBrm P sdsSize numThreads = do {
     let m = \<lparr>aggregates = replicate (nat (getSizeForCapacity InitialManagerCapacity)) emptyManagerEntry,
              levelStarts = [], levelAggregateWidths = [], brmSize = 0,
              logCapacity = LogInitialManagerCapacity,
              logCapacityWithSuperRoot = LogInitialManagerCapacity + 1,
              brmCapacity = InitialManagerCapacity,
              nextLevelRecountingNodes = newBucketMap numThreads, brmThreads = numThreads\<rparr>;
     m \<leftarrow> recomputeLevelInfo m;
     let m = m\<lparr>brmSize := lowestLevelNodeIndex P sdsSize + 1\<rparr>;
     assertMsg (NDEBUG P) (brmSize m \<le> brmCapacity m);
     Some m }"

text \<open>The loop \<open>while (capacity <= newSize)\<close> of \<open>resize\<close>; a non-positive capacity would never grow.\<close>

function growCapacity :: "int \<Rightarrow> brm \<Rightarrow> brm option" where
  "growCapacity newSize m =
     (if brmCapacity m \<le> newSize
      then if 0 < brmCapacity m
           then growCapacity newSize
             (m\<lparr>logCapacity := logCapacity m + 1, logCapacityWithSuperRoot := logCapacityWithSuperRoot m + 1,
                brmCapacity := brmCapacity m * 2\<rparr>)
           else None
      else Some m)"
  by pat_completeness auto
termination
  by (relation "measure (\<lambda>(n, m). nat (n + 1 - brmCapacity m))") auto

declare growCapacity.simps [simp del]

definition brmResize :: "('k, 'v) tparams \<Rightarrow> brm \<Rightarrow> int \<Rightarrow> brm option" where
  "brmResize P m newSdsSize = do {
     let newSize = lowestLevelNodeIndex P newSdsSize + 1;
     let sizeChanged = (newSize \<noteq> brmSize m);
     let m = m\<lparr>brmSize := newSize\<rparr>;
     if sizeChanged \<and> newSize > brmCapacity m
     then do {
       m \<leftarrow> growCapacity newSize m;
       recomputeLevelInfo
         (m\<lparr>aggregates := replicate (nat (getSizeForCapacity (brmCapacity m))) emptyManagerEntry\<rparr>) }
     else Some m }"

section \<open>Counting\<close>

text \<open>The loop over the entries of one node of level 0.\<close>

definition countBlocks :: "sdsView \<Rightarrow> int \<Rightarrow> int \<Rightarrow> int option" where
  "countBlocks V from to =
     for_range from to
       (\<lambda>current n. do {
          e \<leftarrow> viewEmpty V current;
          b \<leftarrow> viewBuffer V current;
          Some (n + (if e then 0 else 1) + b) }) 0"

definition aggregateNodeRangeLevelZero :: "('k, 'v) tparams \<Rightarrow> sdsView \<Rightarrow> int \<Rightarrow> int option" where
  "aggregateNodeRangeLevelZero P V index = do {
     let effectivePmaSize = max 1 (viewSize V);
     countBlocks V (getBlockIndexLevelZero P index)
       (min effectivePmaSize (getBlockIndexLevelZero P (index + 1))) }"

definition aggregateNodeHigherLevel :: "('k, 'v) tparams \<Rightarrow> brm \<Rightarrow> int \<Rightarrow> int \<Rightarrow> int option" where
  "aggregateNodeHigherLevel P m index level = do {
     assertIndex P m (leftChild index) (level - 1);
     assertIndex P m (rightChild index) (level - 1);
     l \<leftarrow> aggregateAt P m (leftChild index) (level - 1);
     r \<leftarrow> aggregateAt P m (rightChild index) (level - 1);
     Some (numberOfBlocks l + numberOfBlocks r) }"

definition recompute :: "('k, 'v) tparams \<Rightarrow> sdsView \<Rightarrow> brm \<Rightarrow> int \<Rightarrow> brm option" where
  "recompute P V m sdsSize = do {
     n \<leftarrow> numberOfAggregatesInLevel P m 0;
     m \<leftarrow> for_range 0 n
       (\<lambda>i m. do {
          c \<leftarrow> countBlocks V (getBlockIndexLevelZero P i) (min sdsSize (getBlockIndexLevelZero P (i + 1)));
          assertMsg (NDEBUG P) (i < 2 * brmCapacity m);
          setAggregate P m i 0 (\<lambda>e. e\<lparr>numberOfBlocks := c\<rparr>) }) m;
     for_range 1 (logCapacity m + 1)
       (\<lambda>level m. do {
          n \<leftarrow> numberOfAggregatesInLevel P m level;
          for_range 0 n
            (\<lambda>i m. do {
               c \<leftarrow> aggregateNodeHigherLevel P m i level;
               assertIndex P m i level;
               setAggregate P m i level (\<lambda>e. e\<lparr>numberOfBlocks := c\<rparr>) }) m }) m }"

section \<open>Updating the hierarchy\<close>

definition densityThreshold :: "('k, 'v) tparams \<Rightarrow> density \<Rightarrow> int \<Rightarrow> int \<Rightarrow> int \<Rightarrow> int" where
  "densityThreshold P dm level height width =
     toInt (dmul (dmul (maxDensity dm level height) (toDouble (SegmentWidth P))) (toDouble width))"

definition updateNode ::
  "('k, 'v) tparams \<Rightarrow> density \<Rightarrow> runtime \<Rightarrow> int \<Rightarrow> int \<Rightarrow> bool \<Rightarrow> int \<Rightarrow>
     brm \<times> RebalancingNode list \<Rightarrow> (brm \<times> RebalancingNode list) option" where
  "updateNode P dm R index level needsRebalancing newNumberOfBlocks s = do {
     let m = fst s;
     let nodes = snd s;
     assertIndex P m index level;
     width \<leftarrow> idx (levelAggregateWidths m) level;
     let withinThreshold = (newNumberOfBlocks \<le> densityThreshold P dm level (logCapacity m) width);
     let rebalanceNode = (needsRebalancing \<and> withinThreshold);
     let rebalanceParent = (needsRebalancing \<and> \<not> withinThreshold);
     old \<leftarrow> aggregateAt P m index level;
     assertMsg (NDEBUG P) (newNumberOfBlocks \<le> SegmentWidth P * width \<or> needsRebalancing);
     m \<leftarrow> (if newNumberOfBlocks \<noteq> numberOfBlocks old \<or> \<not> withinThreshold
           then do {
             m \<leftarrow> setAggregate P m index level (\<lambda>e. e\<lparr>numberOfBlocks := newNumberOfBlocks\<rparr>);
             next \<leftarrow> bmInsert R (parent index, rebalanceParent) (nextLevelRecountingNodes m);
             Some (m\<lparr>nextLevelRecountingNodes := next\<rparr>) }
           else Some m);
     if rebalanceNode
     then do {
       assertMsg (NDEBUG P) (\<not> rebalanceParent);
       e \<leftarrow> aggregateAt P m index level;
       if \<not> rebalanced e
       then do {
         m \<leftarrow> setAggregate P m index level (\<lambda>e. e\<lparr>rebalanced := True\<rparr>);
         Some (m, nodes @ [mkNode level index]) }
       else Some (m, nodes) }
     else Some (m, nodes) }"

definition updateLevelZero ::
  "('k, 'v) tparams \<Rightarrow> density \<Rightarrow> runtime \<Rightarrow> sdsView \<Rightarrow> BucketMap \<Rightarrow>
     brm \<times> RebalancingNode list \<Rightarrow> (brm \<times> RebalancingNode list) option" where
  "updateLevelZero P dm R V recountingNodesMap s =
     executeInParallel R recountingNodesMap
       (\<lambda>(recountingNode, needsRebalancing) s. do {
          c \<leftarrow> aggregateNodeRangeLevelZero P V recountingNode;
          updateNode P dm R recountingNode 0 needsRebalancing c s }) s"

definition updateHigherLevel ::
  "('k, 'v) tparams \<Rightarrow> density \<Rightarrow> runtime \<Rightarrow> BucketMap \<Rightarrow> int \<Rightarrow>
     brm \<times> RebalancingNode list \<Rightarrow> (brm \<times> RebalancingNode list) option" where
  "updateHigherLevel P dm R recountingNodesMap level s =
     executeInParallel R recountingNodesMap
       (\<lambda>(recountingNode, needsRebalancing) s. do {
          c \<leftarrow> aggregateNodeHigherLevel P (fst s) recountingNode level;
          updateNode P dm R recountingNode level needsRebalancing c s }) s"

definition brmUpdate ::
  "('k, 'v) tparams \<Rightarrow> density \<Rightarrow> runtime \<Rightarrow> sdsView \<Rightarrow> brm \<Rightarrow> BucketMap \<Rightarrow> RebalancingNode list \<Rightarrow>
     (brm \<times> BucketMap \<times> RebalancingNode list) option" where
  "brmUpdate P dm R V m recountingNodesMap nodes = do {
     (m, nodes) \<leftarrow> updateLevelZero P dm R V recountingNodesMap (m, nodes);
     (m, recountingNodesMap, nodes) \<leftarrow>
       for_range 1 (logCapacity m + 1)
         (\<lambda>level (m, recMap, nodes). do {
            let recMap' = nextLevelRecountingNodes m;
            let m = m\<lparr>nextLevelRecountingNodes := bmClear recMap\<rparr>;
            (m, nodes) \<leftarrow> updateHigherLevel P dm R recMap' level (m, nodes);
            Some (m, recMap', nodes) }) (m, recountingNodesMap, nodes);
     root \<leftarrow> aggregateAt P m 0 (logCapacity m);
     width \<leftarrow> idx (levelAggregateWidths m) (logCapacity m);
     if numberOfBlocks root > SegmentWidth P * width
     then do {
       super \<leftarrow> aggregateAt P m 0 (logCapacity m + 1);
       assertMsg (NDEBUG P) (\<not> rebalanced super);
       if \<not> rebalanced super
       then do {
         m \<leftarrow> setAggregate P m 0 (logCapacity m + 1) (\<lambda>e. e\<lparr>rebalanced := True\<rparr>);
         Some (m, recountingNodesMap, nodes @ [mkNode (logCapacity m + 1) 0]) }
       else Some (m, recountingNodesMap, nodes) }
     else Some (m, recountingNodesMap, nodes) }"

section \<open>Rebalancing nodes\<close>

definition assertAllRebalancingFlagsCleared :: "('k, 'v) tparams \<Rightarrow> brm \<Rightarrow> unit option" where
  "assertAllRebalancingFlagsCleared P m =
     for_range 0 (logCapacityWithSuperRoot m + 1)
       (\<lambda>level u. do {
          n \<leftarrow> numberOfAggregatesInLevel P m level;
          for_range 0 n
            (\<lambda>i u. if NDEBUG P then Some ()
                   else do {
                     assertIndex P m i level;
                     e \<leftarrow> aggregateAt P m i level;
                     assertMsg False (\<not> rebalanced e) }) u }) ()"

definition clearRebalancedFlag :: "('k, 'v) tparams \<Rightarrow> brm \<Rightarrow> RebalancingNode \<Rightarrow> brm option" where
  "clearRebalancedFlag P m node = do {
     assertIndex P m (nodeIndex node) (nodeLevel node);
     setAggregate P m (nodeIndex node) (nodeLevel node) (\<lambda>e. e\<lparr>rebalanced := False\<rparr>) }"

function dominatedLoop ::
  "('k, 'v) tparams \<Rightarrow> RebalancingNode \<Rightarrow> int \<Rightarrow> int \<Rightarrow> brm \<Rightarrow> (bool \<times> brm) option" where
  "dominatedLoop P node level index m =
     (if level \<le> logCapacityWithSuperRoot m
      then do {
        e \<leftarrow> aggregateAt P m index level;
        if rebalanced e
        then do {
          m \<leftarrow> setAggregate P m (nodeIndex node) (nodeLevel node) (\<lambda>e. e\<lparr>rebalanced := False\<rparr>);
          Some (True, m) }
        else dominatedLoop P node (level + 1) (parent index) m }
      else Some (False, m))"
  by pat_completeness auto
termination
  by (relation "measure (\<lambda>(P, node, level, index, m). nat (logCapacityWithSuperRoot m + 1 - level))") auto

declare dominatedLoop.simps [simp del]

definition rebalancingNodeDominated :: "('k, 'v) tparams \<Rightarrow> brm \<Rightarrow> RebalancingNode \<Rightarrow> (bool \<times> brm) option" where
  "rebalancingNodeDominated P m node = do {
     (if NDEBUG P then Some ()
      else do { e \<leftarrow> aggregateAt P m (nodeIndex node) (nodeLevel node); assertMsg False (rebalanced e) });
     dominatedLoop P node (nodeLevel node + 1) (parent (nodeIndex node)) m }"

definition nodeNumberOfBlocks :: "('k, 'v) tparams \<Rightarrow> brm \<Rightarrow> RebalancingNode \<Rightarrow> int option" where
  "nodeNumberOfBlocks P m node =
     (if nodeLevel node = logCapacityWithSuperRoot m
      then do {
        assertMsg (NDEBUG P) (nodeIndex node = 0);
        e \<leftarrow> aggregateAt P m 0 (nodeLevel node - 1);
        Some (numberOfBlocks e) }
      else do {
        e \<leftarrow> aggregateAt P m (nodeIndex node) (nodeLevel node);
        Some (numberOfBlocks e) })"

definition rebalancingRange :: "('k, 'v) tparams \<Rightarrow> density \<Rightarrow> brm \<Rightarrow> RebalancingNode \<Rightarrow> Interval option" where
  "rebalancingRange P dm m node =
     (if nodeLevel node = logCapacityWithSuperRoot m
      then do {
        e \<leftarrow> aggregateAt P m 0 (logCapacity m);
        Some (mkInterval 0 (minRangeLength dm (numberOfBlocks e))) }
      else do {
        width \<leftarrow> idx (levelAggregateWidths m) (nodeLevel node);
        let blocksPerAggregate = width * SegmentWidth P;
        Some (mkInterval (nodeIndex node * blocksPerAggregate) ((nodeIndex node + 1) * blocksPerAggregate)) })"

definition getRebalancingTask :: "('k, 'v) tparams \<Rightarrow> density \<Rightarrow> brm \<Rightarrow> RebalancingNode \<Rightarrow> RebalancingTask option" where
  "getRebalancingTask P dm m node = do {
     range \<leftarrow> rebalancingRange P dm m node;
     n \<leftarrow> nodeNumberOfBlocks P m node;
     Some \<lparr>pmaRange = range, taskNumberOfBlocks = n, rootNode = node\<rparr> }"

text \<open>The descent \<open>while (node.level > 0)\<close>; returns the index on level 0 and the blocks still to pass.\<close>

function descend :: "('k, 'v) tparams \<Rightarrow> brm \<Rightarrow> int \<Rightarrow> int \<Rightarrow> int \<Rightarrow> (int \<times> int) option" where
  "descend P m level index remainingBlocks =
     (if level > 0
      then do {
        l \<leftarrow> aggregateAt P m (leftChild index) (level - 1);
        let leftChildBlocks = numberOfBlocks l;
        let (index, remainingBlocks) =
          (if remainingBlocks > leftChildBlocks then (rightChild index, remainingBlocks - leftChildBlocks)
           else (leftChild index, remainingBlocks));
        e \<leftarrow> aggregateAt P m index (level - 1);
        assertMsg (NDEBUG P) (remainingBlocks \<le> numberOfBlocks e);
        descend P m (level - 1) index remainingBlocks }
      else Some (index, remainingBlocks))"
  by pat_completeness auto
termination
  by (relation "measure (\<lambda>(P, m, level, index, r). nat level)") auto

declare descend.simps [simp del]

text \<open>
  The scan \<open>while (remainingBlocks >= 0)\<close> over the entries of a node of level 0. In a release build it
  does not return when there are fewer blocks than asked for, which is the value \<^const>\<open>None\<close>.
\<close>

partial_function (option) findBlockScan ::
  "bool \<Rightarrow> sdsView \<Rightarrow> int \<Rightarrow> int \<Rightarrow> int \<Rightarrow> ExtendedPmaIndex option" where
  "findBlockScan ndebug V right remainingBlocks blockIndex =
     (if remainingBlocks \<ge> 0
      then if remainingBlocks = 0
        then do { assertMsg ndebug (blockIndex \<le> right); Some (ExtendedPmaIndex blockIndex (-1)) }
        else do {
          e \<leftarrow> viewEmpty V blockIndex;
          let remainingBlocks = (if e then remainingBlocks else remainingBlocks - 1);
          b \<leftarrow> viewBuffer V blockIndex;
          if remainingBlocks < b then Some (ExtendedPmaIndex blockIndex remainingBlocks)
          else do {
            assertMsg ndebug (blockIndex + 1 \<le> right);
            findBlockScan ndebug V right (remainingBlocks - b) (blockIndex + 1) } }
      else do { assertMsg ndebug False; Some (ExtendedPmaIndex (-1) (-1)) })"

declare findBlockScan.simps [code]

definition findBlockInRebalancingTask ::
  "('k, 'v) tparams \<Rightarrow> density \<Rightarrow> sdsView \<Rightarrow> brm \<Rightarrow> RebalancingNode \<Rightarrow> int \<Rightarrow> ExtendedPmaIndex option" where
  "findBlockInRebalancingTask P dm V m taskRoot blockNumber = do {
     node \<leftarrow> (if nodeLevel taskRoot > logCapacity m
              then do { assertMsg (NDEBUG P) (nodeIndex taskRoot = 0); Some (mkNode (logCapacity m) (nodeIndex taskRoot)) }
              else Some taskRoot);
     e \<leftarrow> aggregateAt P m (nodeIndex node) (nodeLevel node);
     if blockNumber > numberOfBlocks e
     then do { range \<leftarrow> rebalancingRange P dm m node; Some (ExtendedPmaIndex (iright range) (-1)) }
     else do {
       (index, remainingBlocks) \<leftarrow> descend P m (nodeLevel node) (nodeIndex node) blockNumber;
       range \<leftarrow> rebalancingRange P dm m (mkNode 0 index);
       e \<leftarrow> aggregateAt P m index 0;
       assertMsg (NDEBUG P) (remainingBlocks \<le> numberOfBlocks e);
       findBlockScan (NDEBUG P) V (iright range) remainingBlocks (ileft range) } }"

section \<open>Validation\<close>

definition brmValidate :: "('k, 'v) tparams \<Rightarrow> sdsView \<Rightarrow> brm \<Rightarrow> int \<Rightarrow> unit option" where
  "brmValidate P V m sdsSize = do {
     n \<leftarrow> numberOfAggregatesInLevel P m 0;
     for_range 0 n
       (\<lambda>i u. do {
          c \<leftarrow> countBlocks V (getBlockIndexLevelZero P i) (min sdsSize (getBlockIndexLevelZero P (i + 1)));
          assertMsg (NDEBUG P) (i < 2 * brmCapacity m);
          e \<leftarrow> aggregateAt P m i 0;
          assertMsg (NDEBUG P) (c = numberOfBlocks e) }) ();
     for_range 1 (logCapacity m + 1)
       (\<lambda>level u. do {
          n \<leftarrow> numberOfAggregatesInLevel P m level;
          for_range 0 n
            (\<lambda>i u. do {
               c \<leftarrow> aggregateNodeHigherLevel P m i level;
               assertIndex P m i level;
               e \<leftarrow> aggregateAt P m i level;
               assertMsg (NDEBUG P) (c = numberOfBlocks e) }) u }) () }"

definition nodeFitsAllBlocks :: "('k, 'v) tparams \<Rightarrow> brm \<Rightarrow> RebalancingNode \<Rightarrow> bool option" where
  "nodeFitsAllBlocks P m node =
     (if nodeLevel node > logCapacity m then Some True
      else do {
        e \<leftarrow> aggregateAt P m (nodeIndex node) (nodeLevel node);
        width \<leftarrow> idx (levelAggregateWidths m) (nodeLevel node);
        let blocksFit = (numberOfBlocks e \<le> width);
        assertMsg (NDEBUG P) blocksFit;
        Some blocksFit })"

section \<open>The layout of the levels\<close>

text \<open>
  With capacity \<open>2\<^sup>L\<close>, level \<open>i\<close> has \<open>2\<^sup>L\<^sup>-\<^sup>i\<close> nodes and starts behind the levels below it; the super root
  is the single node at the last position.
\<close>

definition levelStart :: "nat \<Rightarrow> nat \<Rightarrow> int" where
  "levelStart L i = 2 ^ (L + 1) - 2 ^ (L + 1 - i)"

definition brmLayout :: "nat \<Rightarrow> brm \<Rightarrow> bool" where
  "brmLayout L m \<longleftrightarrow>
     logCapacity m = int L \<and> logCapacityWithSuperRoot m = int L + 1 \<and> brmCapacity m = 2 ^ L \<and>
     levelStarts m = map (levelStart L) [0..<L + 2] \<and>
     levelAggregateWidths m = map (\<lambda>i. 2 ^ i) [0..<L + 1] @ [INT64_MAX] \<and>
     length (aggregates m) = 2 ^ (L + 1)"

definition agg :: "nat \<Rightarrow> brm \<Rightarrow> nat \<Rightarrow> int \<Rightarrow> BinaryRebalancingManagerEntry" where
  "agg L m level i = aggregates m ! nat (levelStart L level + i)"

text \<open>The nodes of the tree, without and with the super root.\<close>

definition validNode :: "nat \<Rightarrow> nat \<Rightarrow> int \<Rightarrow> bool" where
  "validNode L level i \<longleftrightarrow> level \<le> L + 1 \<and> 0 \<le> i \<and> i < 2 ^ (L - level)"

lemma levelStart_Suc: "i \<le> L \<Longrightarrow> levelStart L (Suc i) = levelStart L i + 2 ^ (L - i)"
proof -
  assume "i \<le> L"
  then have "L + 1 - i = Suc (L - i)" by simp
  then show ?thesis by (simp add: levelStart_def)
qed

lemma levelStart_0 [simp]: "levelStart L 0 = 0"
  by (simp add: levelStart_def)

lemma levelStart_nonneg: "0 \<le> levelStart L i"
  using power_increasing [of "L + 1 - i" "L + 1" "2 :: int"] by (simp add: levelStart_def del: power_Suc)

lemma levelStart_mono: "i \<le> j \<Longrightarrow> levelStart L i \<le> levelStart L j"
  by (simp add: levelStart_def power_increasing)

lemma levelStart_last: "levelStart L (L + 1) = 2 ^ (L + 1) - 1"
  by (simp add: levelStart_def)

lemma level_end:
  assumes "validNode L level i"
  shows "levelStart L level + i < 2 ^ (L + 1)" "level \<le> L \<Longrightarrow> levelStart L level + i < levelStart L (Suc level)"
proof -
  show 1: "level \<le> L \<Longrightarrow> levelStart L level + i < levelStart L (Suc level)"
    using assms by (simp add: levelStart_Suc validNode_def)
  show "levelStart L level + i < 2 ^ (L + 1)"
  proof (cases "level \<le> L")
    case True
    then have "levelStart L (Suc level) \<le> levelStart L (L + 1)" by (intro levelStart_mono) simp
    then show ?thesis using 1 [OF True] levelStart_last [of L] by linarith
  next
    case False
    then have "level = L + 1" "i = 0" using assms by (auto simp: validNode_def)
    then show ?thesis using levelStart_last [of L] by simp
  qed
qed

text \<open>Different nodes have different positions.\<close>

lemma level_injective:
  assumes "validNode L l i" "validNode L l' i'" "levelStart L l + i = levelStart L l' + i'"
  shows "l = l' \<and> i = i'"
proof -
  have aux: False if "validNode L l i" "validNode L l' i'" "levelStart L l + i = levelStart L l' + i'" "l < l'" for l i l' i'
  proof -
    have "l \<le> L" using that by (simp add: validNode_def)
    then have "levelStart L l + i < levelStart L (Suc l)" using level_end that by blast
    moreover have "levelStart L (Suc l) \<le> levelStart L l'" using that by (intro levelStart_mono) simp
    ultimately show False using that by (simp add: validNode_def)
  qed
  have "l = l'" using aux [of l i l' i'] aux [of l' i' l i] assms by (metis linorder_neqE_nat)
  then show ?thesis using assms by simp
qed

lemma brmLayoutD:
  assumes "brmLayout L m"
  shows "logCapacity m = int L" "logCapacityWithSuperRoot m = int L + 1" "brmCapacity m = 2 ^ L"
    "levelStarts m = map (levelStart L) [0..<L + 2]"
    "levelAggregateWidths m = map (\<lambda>i. 2 ^ i) [0..<L + 1] @ [INT64_MAX]"
    "length (aggregates m) = 2 ^ (L + 1)"
  using assms by (simp_all add: brmLayout_def)

lemma aggregateIndex_ok:
  assumes "brmLayout L m" "level \<le> L + 1"
  shows "aggregateIndex P m i (int level) = Some (levelStart L level + i)"
  using assms(2) by (simp add: aggregateIndex_def brmLayoutD [OF assms(1)] nth_append del: upt_Suc)

lemma aggregateAt_ok:
  assumes "brmLayout L m" "validNode L level i"
  shows "aggregateAt P m i (int level) = Some (agg L m level i)"
proof -
  have "level \<le> L + 1" "0 \<le> i" using assms(2) by (auto simp: validNode_def)
  then show ?thesis
    using level_end(1) [OF assms(2)] levelStart_nonneg [of L level] brmLayoutD(6) [OF assms(1)]
    by (simp add: aggregateAt_def aggregateIndex_ok [OF assms(1)] agg_def)
qed

lemma width_ok:
  assumes "brmLayout L m" "level \<le> L"
  shows "idx (levelAggregateWidths m) (int level) = Some (2 ^ level)"
  using assms(2) by (simp add: brmLayoutD [OF assms(1)] nth_append del: upt_Suc)

lemma width_super:
  assumes "brmLayout L m"
  shows "idx (levelAggregateWidths m) (int L + 1) = Some INT64_MAX"
  by (simp add: brmLayoutD [OF assms(1)] nth_append nat_add_distrib del: upt_Suc)

lemma assertIndex_ok:
  assumes "brmLayout L m" "validNode L level i"
  shows "assertIndex P m i (int level) = Some ()"
  using assms level_end(1) [OF assms(2)] brmLayoutD(3) [OF assms(1)]
  by (simp add: assertIndex_def aggregateIndex_ok validNode_def)

lemma setAggregate_ok:
  assumes lay: "brmLayout L m" and v: "validNode L level i"
  shows "\<exists>m'. setAggregate P m i (int level) f = Some m' \<and> brmLayout L m' \<and>
     nextLevelRecountingNodes m' = nextLevelRecountingNodes m \<and> brmSize m' = brmSize m \<and> brmThreads m' = brmThreads m \<and>
     (\<forall>l j. validNode L l j \<longrightarrow> agg L m' l j = (if l = level \<and> j = i then f (agg L m level i) else agg L m l j))"
proof -
  let ?p = "levelStart L level + i"
  define h where "h = f (agg L m level i)"
  let ?m = "m\<lparr>aggregates := (aggregates m)[nat ?p := h]\<rparr>"
  have p: "0 \<le> ?p" "?p < int (length (aggregates m))"
    using level_end(1) [OF v] levelStart_nonneg [of L level] brmLayoutD(6) [OF lay] v by (auto simp: validNode_def)
  have set: "setAggregate P m i (int level) f = Some ?m"
    using p v by (simp add: setAggregate_def aggregateIndex_ok [OF lay] validNode_def h_def agg_def)
  have "agg L ?m l j = (if l = level \<and> j = i then h else agg L m l j)" if w: "validNode L l j" for l j
  proof -
    have "nat (levelStart L l + j) = nat ?p \<longleftrightarrow> l = level \<and> j = i"
    proof -
      have "0 \<le> levelStart L l + j" using levelStart_nonneg [of L l] w by (simp add: validNode_def)
      then have "nat (levelStart L l + j) = nat ?p \<longleftrightarrow> levelStart L l + j = ?p" using p(1) by (simp add: eq_nat_nat_iff)
      then show ?thesis using level_injective [OF w v] by blast
    qed
    then have "(aggregates m)[nat ?p := h] ! nat (levelStart L l + j) =
        (if l = level \<and> j = i then h else aggregates m ! nat (levelStart L l + j))"
      using p by (metis nat_less_iff nth_list_update_eq nth_list_update_neq)
    then show ?thesis unfolding agg_def by simp
  qed
  moreover have "brmLayout L ?m" using lay by (simp add: brmLayout_def)
  ultimately show ?thesis using set unfolding h_def by simp
qed

lemma cmod_multiple [simp]: "b \<noteq> 0 \<Longrightarrow> cmod (b * k) b = 0"
  by (auto simp: cmod_def cdiv_def abs_mult sgn_if zero_less_mult_iff mult_less_0_iff)

lemma numberOfAggregates_ok:
  assumes "brmLayout L m" "level \<le> L"
  shows "numberOfAggregatesInLevel P m (int level) = Some (2 ^ (L - level))"
proof -
  have "(2::int) ^ L div 2 ^ level = 2 ^ (L - level)" using assms(2) by (simp add: power_diff)
  moreover have "(2::int) ^ L * SegmentWidth P = 2 ^ level * (2 ^ (L - level) * SegmentWidth P)"
    using assms(2) by (simp add: mult.assoc [symmetric] power_add [symmetric])
  then have "cmod (2 ^ L * SegmentWidth P) (2 ^ level) = 0" by (simp only: cmod_multiple) simp
  ultimately show ?thesis
    using assms width_ok [OF assms]
    by (simp add: numberOfAggregatesInLevel_def brmLayoutD(2,3) [OF assms(1)])
qed

subsection \<open>Construction and resizing establish the layout\<close>

lemma node_in_range:
  assumes "brmLayout L m" "validNode L l i"
  shows "nat (levelStart L l + i) < length (aggregates m)"
proof -
  have "nat (levelStart L l + i) < nat (2 ^ (L + 1))" using level_end(1) [OF assms(2)] by (subst nat_mono_iff) auto
  then show ?thesis using brmLayoutD(6) [OF assms(1)] by (simp add: nat_mult_distrib nat_power_eq)
qed

lemma length_resizeVector [simp]: "length (resizeVector n x xs) = n"
  by (simp add: resizeVector_def)

lemma take_Suc_update: "i < length xs \<Longrightarrow> take (Suc i) (xs[i := v]) = take i xs @ [v]"
  by (simp add: take_Suc_conv_app_nth)

lemma recomputeLevelInfo_ok:
  assumes L: "logCapacity m = int L" "logCapacityWithSuperRoot m = int L + 1" "brmCapacity m = 2 ^ L"
  shows "recomputeLevelInfo m = Some (m\<lparr>levelStarts := map (levelStart L) [0..<L + 2],
    levelAggregateWidths := map (\<lambda>i. 2 ^ i) [0..<L + 1] @ [INT64_MAX]\<rparr>)"
proof -
  let ?n = "nat (logCapacityWithSuperRoot m + 1)"
  have n: "?n = L + 2" using L by simp
  let ?f = "\<lambda>i (starts, widths, currentStart, currentWidth, currentAggregateWidth). do {
            starts \<leftarrow> upd starts i currentStart;
            widths \<leftarrow> upd widths i currentAggregateWidth;
            Some (starts, widths, currentStart + currentWidth, cdiv currentWidth 2, currentAggregateWidth * 2) }"
  define I where "I i s \<longleftrightarrow> (case s of (starts, widths, cs, cw, caw) \<Rightarrow>
     length starts = L + 2 \<and> length widths = L + 2 \<and>
     take (nat i) starts = map (levelStart L) [0..<nat i] \<and> take (nat i) widths = map (\<lambda>i. 2 ^ i) [0..<nat i] \<and>
     cs = levelStart L (nat i) \<and> cw = 2 ^ L div 2 ^ nat i \<and> caw = 2 ^ nat i)"
    for i :: int and s :: "int list \<times> int list \<times> int \<times> int \<times> int"
  have "\<exists>t. for_range 0 (logCapacity m + 1) ?f
      (resizeVector ?n 0 (levelStarts m), resizeVector ?n 0 (levelAggregateWidths m), 0, brmCapacity m, 1) = Some t \<and>
      I (logCapacity m + 1) t"
  proof (rule for_range_inv)
    show "I 0 (resizeVector ?n 0 (levelStarts m), resizeVector ?n 0 (levelAggregateWidths m), 0, brmCapacity m, 1)"
      using n L by (simp add: I_def)
    fix i s assume i: "0 \<le> i" "i < logCapacity m + 1" and inv: "I i s"
    obtain starts widths cs cw caw where s: "s = (starts, widths, cs, cw, caw)" by (cases s)
    define j where "j = nat i"
    then have ij: "i = int j" "j \<le> L" using i L by auto
    have "(2::int) ^ L div 2 ^ j = 2 ^ (L - j)" using ij by (simp add: power_diff)
    then have "levelStart L j + 2 ^ L div 2 ^ j = levelStart L (Suc j)" using ij by (simp add: levelStart_Suc)
    moreover have "cdiv ((2::int) ^ L div 2 ^ j) 2 = 2 ^ L div 2 ^ Suc j"
      by (simp add: zdiv_zmult2_eq [symmetric] pos_imp_zdiv_nonneg_iff mult.commute)
    moreover have "nat (int j + 1) = Suc j" by simp
    ultimately show "\<exists>t. ?f i s = Some t \<and> I (i + 1) t"
      using inv ij by (simp add: I_def s take_Suc_update)
  qed (use L in simp)
  then obtain s where t0: "for_range 0 (logCapacity m + 1) ?f
      (resizeVector ?n 0 (levelStarts m), resizeVector ?n 0 (levelAggregateWidths m), 0, brmCapacity m, 1) = Some s"
    "I (logCapacity m + 1) s" by blast
  obtain starts widths cs cw caw where s: "s = (starts, widths, cs, cw, caw)" by (cases s)
  note t = t0(1) [unfolded s] and inv = t0(2) [unfolded s]
  have N: "nat (logCapacity m + 1) = Suc L" "nat (logCapacityWithSuperRoot m) = Suc L" using L by auto
  have len: "length starts = L + 2" "length widths = L + 2"
    and tk: "take (Suc L) starts = map (levelStart L) [0..<Suc L]" "take (Suc L) widths = map (\<lambda>i. 2 ^ i) [0..<Suc L]"
    and cs: "cs = levelStart L (Suc L)"
    using inv N by (simp_all add: I_def)
  have last: "xs[Suc L := v] = take (Suc L) xs @ [v]" if "length xs = L + 2" for xs :: "int list" and v
    using that by (simp add: upd_conv_take_nth_drop)
  have "upd starts (logCapacityWithSuperRoot m) cs = Some (map (levelStart L) [0..<L + 2])"
    using len L N last [OF len(1), of cs] tk(1) cs by simp
  moreover have "upd widths (logCapacityWithSuperRoot m) INT64_MAX = Some (map (\<lambda>i. 2 ^ i) [0..<L + 1] @ [INT64_MAX])"
    using len L N last [OF len(2), of INT64_MAX] tk(2) by simp
  ultimately show ?thesis using t by (simp add: recomputeLevelInfo_def Let_def)
qed

lemma getSizeForCapacity_ok: "0 \<le> c \<Longrightarrow> c \<le> 2 ^ 52 \<Longrightarrow> getSizeForCapacity c = 2 * c"
  using rnd_of_int [of "2 * c"] toInt_of_int [of "2 * c"] by (simp add: getSizeForCapacity_def dmul_def)

lemma growCapacity_ok:
  assumes "logCapacity m = int L" "logCapacityWithSuperRoot m = int L + 1" "brmCapacity m = 2 ^ L"
  shows "\<exists>m' L'. growCapacity newSize m = Some m' \<and> L \<le> L' \<and> logCapacity m' = int L' \<and>
     logCapacityWithSuperRoot m' = int L' + 1 \<and> brmCapacity m' = 2 ^ L' \<and> newSize < 2 ^ L' \<and>
     (L < L' \<longrightarrow> 2 ^ L' \<le> 2 * newSize) \<and>
     nextLevelRecountingNodes m' = nextLevelRecountingNodes m \<and> brmSize m' = brmSize m \<and> brmThreads m' = brmThreads m"
  using assms
proof (induction newSize m arbitrary: L rule: growCapacity.induct)
  case (1 newSize m)
  show ?case
  proof (cases "brmCapacity m \<le> newSize")
    case True
    have pos: "0 < brmCapacity m" using 1 by simp
    let ?m = "m\<lparr>logCapacity := logCapacity m + 1, logCapacityWithSuperRoot := logCapacityWithSuperRoot m + 1,
                brmCapacity := brmCapacity m * 2\<rparr>"
    from "1.IH" [OF True pos, of "Suc L"] 1(2-4) obtain m' L' where m': "growCapacity newSize ?m = Some m'" "Suc L \<le> L'"
      "logCapacity m' = int L'" "logCapacityWithSuperRoot m' = int L' + 1" "brmCapacity m' = 2 ^ L'" "newSize < 2 ^ L'"
      "Suc L < L' \<longrightarrow> 2 ^ L' \<le> 2 * newSize" "nextLevelRecountingNodes m' = nextLevelRecountingNodes m"
      "brmSize m' = brmSize m" "brmThreads m' = brmThreads m" by auto
    have "2 ^ L' \<le> 2 * newSize"
      using m'(2,7) True 1(4) by (cases "L' = Suc L") auto
    then show ?thesis using m' True pos by (subst growCapacity.simps) (auto intro!: exI [of _ L'])
  next
    case False
    then show ?thesis using 1(2-4) by (subst growCapacity.simps) (auto intro!: exI [of _ L])
  qed
qed

lemma newBrm_ok:
  assumes "wfP": "0 < SegmentWidth P" and n: "0 \<le> n" "n div SegmentWidth P < 2 ^ 14"
  shows "\<exists>m. newBrm P n t = Some m \<and> brmLayout 14 m \<and> nextLevelRecountingNodes m = newBucketMap t \<and>
    (\<forall>l i. validNode 14 l i \<longrightarrow> agg 14 m l i = emptyManagerEntry)"
proof -
  have sz: "getSizeForCapacity InitialManagerCapacity = 2 ^ 15"
    using getSizeForCapacity_ok [of "2 ^ 14"] by (simp add: InitialManagerCapacity_def)
  define m0 where "m0 = \<lparr>aggregates = replicate (nat (getSizeForCapacity InitialManagerCapacity)) emptyManagerEntry,
              levelStarts = [], levelAggregateWidths = [], brmSize = 0,
              logCapacity = LogInitialManagerCapacity,
              logCapacityWithSuperRoot = LogInitialManagerCapacity + 1,
              brmCapacity = InitialManagerCapacity,
              nextLevelRecountingNodes = newBucketMap t, brmThreads = t\<rparr>"
  define m1 where "m1 = m0\<lparr>levelStarts := map (levelStart 14) [0..<16],
    levelAggregateWidths := map (\<lambda>i. 2 ^ i) [0..<15] @ [INT64_MAX], brmSize := n div SegmentWidth P + 1\<rparr>"
  have rc: "recomputeLevelInfo m0 = Some (m0\<lparr>levelStarts := map (levelStart 14) [0..<16],
    levelAggregateWidths := map (\<lambda>i. 2 ^ i) [0..<15] @ [INT64_MAX]\<rparr>)"
    using recomputeLevelInfo_ok [of m0 14]
    by (simp add: m0_def LogInitialManagerCapacity_def InitialManagerCapacity_def del: upt_rec_numeral)
  have lay: "brmLayout 14 m1"
    using sz by (simp add: brmLayout_def m1_def m0_def LogInitialManagerCapacity_def InitialManagerCapacity_def
        del: upt_rec_numeral)
  have "newBrm P n t = Some m1"
    unfolding newBrm_def Let_def m0_def [symmetric] using rc assms
    by (simp add: m1_def lowestLevelNodeIndex_def) (simp add: m0_def InitialManagerCapacity_def)
  moreover have "agg 14 m1 l i = emptyManagerEntry" if v: "validNode 14 l i" for l i
    using node_in_range [OF lay v] by (simp add: agg_def m1_def m0_def)
  ultimately show ?thesis using lay by (simp add: m1_def m0_def)
qed

lemma brmResize_ok:
  assumes lay: "brmLayout L m" and P: "0 < SegmentWidth P" and n: "0 \<le> n" "2 * (n div SegmentWidth P + 1) \<le> 2 ^ 52"
  shows "\<exists>m' L'. brmResize P m n = Some m' \<and> brmLayout L' m' \<and> L \<le> L' \<and>
     nextLevelRecountingNodes m' = nextLevelRecountingNodes m \<and>
     (L' = L \<longrightarrow> (\<forall>l i. validNode L l i \<longrightarrow> agg L m' l i = agg L m l i)) \<and>
     (L' \<noteq> L \<longrightarrow> (\<forall>l i. validNode L' l i \<longrightarrow> agg L' m' l i = emptyManagerEntry))"
proof -
  let ?s = "n div SegmentWidth P + 1"
  let ?m = "m\<lparr>brmSize := ?s\<rparr>"
  have ln: "lowestLevelNodeIndex P n + 1 = ?s" using P n by (simp add: lowestLevelNodeIndex_def)
  note d = brmLayoutD [OF lay]
  show ?thesis
  proof (cases "?s \<noteq> brmSize m \<and> ?s > brmCapacity m")
    case False
    then have "brmResize P m n = Some ?m" by (auto simp: brmResize_def ln)
    moreover have "brmLayout L ?m" using lay by (simp add: brmLayout_def)
    ultimately show ?thesis by (auto simp: agg_def intro!: exI [of _ L])
  next
    case True
    obtain m' L' where g: "growCapacity ?s ?m = Some m'" "L \<le> L'" "logCapacity m' = int L'"
      "logCapacityWithSuperRoot m' = int L' + 1" "brmCapacity m' = 2 ^ L'" "?s < 2 ^ L'" "L < L' \<longrightarrow> 2 ^ L' \<le> 2 * ?s"
      "nextLevelRecountingNodes m' = nextLevelRecountingNodes m"
      using growCapacity_ok [of ?m L ?s] d by auto
    have "L < L'" using g(2,6) True d(3) by (cases "L = L'") auto
    then have le: "2 ^ L' \<le> (2::int) ^ 52" using g(7) n(2) by linarith
    let ?m2 = "m'\<lparr>aggregates := replicate (nat (getSizeForCapacity (brmCapacity m'))) emptyManagerEntry\<rparr>"
    have sz: "getSizeForCapacity (brmCapacity m') = 2 * 2 ^ L'" using getSizeForCapacity_ok [of "2 ^ L'"] g(5) le by simp
    have rc: "recomputeLevelInfo ?m2 = Some (?m2\<lparr>levelStarts := map (levelStart L') [0..<L' + 2],
      levelAggregateWidths := map (\<lambda>i. 2 ^ i) [0..<L' + 1] @ [INT64_MAX]\<rparr>)" (is "_ = Some ?m3")
      by (rule recomputeLevelInfo_ok) (use g in auto)
    have lay3: "brmLayout L' ?m3" using g sz by (simp add: brmLayout_def nat_mult_distrib nat_power_eq)
    have "agg L' ?m3 l i = emptyManagerEntry" if v: "validNode L' l i" for l i
      using node_in_range [OF lay3 v] by (simp add: agg_def)
    moreover have "brmResize P m n = Some ?m3" using True g(1) rc by (simp add: brmResize_def ln)
    ultimately show ?thesis using lay3 g(2,8) \<open>L < L'\<close> by (intro exI [of _ ?m3] exI [of _ L']) auto
  qed
qed

section \<open>Counts\<close>

text \<open>
  What the manager relies on: every entry can be inspected, and from \<open>n\<close> on there is nothing. \<open>blk\<close> is the
  number of blocks that belong to an entry.
\<close>

definition okView :: "sdsView \<Rightarrow> int \<Rightarrow> bool" where
  "okView V n \<longleftrightarrow>
     (\<forall>i\<ge>0. \<exists>e b. viewEmpty V i = Some e \<and> viewBuffer V i = Some b \<and> 0 \<le> b \<and> (n \<le> i \<longrightarrow> e \<and> b = 0))"

definition blk :: "sdsView \<Rightarrow> int \<Rightarrow> int" where
  "blk V i = (if the (viewEmpty V i) then 0 else 1) + the (viewBuffer V i)"

definition blocksIn :: "sdsView \<Rightarrow> int \<Rightarrow> int \<Rightarrow> int" where
  "blocksIn V from to = (\<Sum>i\<in>{from..<to}. blk V i)"

text \<open>The entries below a node.\<close>

definition nodeStart :: "('k, 'v) tparams \<Rightarrow> nat \<Rightarrow> int \<Rightarrow> int" where
  "nodeStart P level i = i * (2 ^ level * SegmentWidth P)"

definition countsUpTo :: "('k, 'v) tparams \<Rightarrow> sdsView \<Rightarrow> nat \<Rightarrow> brm \<Rightarrow> nat \<Rightarrow> bool" where
  "countsUpTo P V L m k \<longleftrightarrow>
     (\<forall>level i. level < k \<longrightarrow> validNode L level i \<longrightarrow>
        numberOfBlocks (agg L m level i) = blocksIn V (nodeStart P level i) (nodeStart P level (i + 1)))"

definition consistent :: "('k, 'v) tparams \<Rightarrow> sdsView \<Rightarrow> nat \<Rightarrow> brm \<Rightarrow> bool" where
  "consistent P V L m \<longleftrightarrow> countsUpTo P V L m (L + 1)"

definition blocksBefore :: "sdsView \<Rightarrow> int \<Rightarrow> ExtendedPmaIndex \<Rightarrow> int" where
  "blocksBefore V from x = blocksIn V from (pmaIndex x) +
     (if bufferIndex x = -1 then 0 else (if the (viewEmpty V (pmaIndex x)) then 0 else 1) + bufferIndex x)"

lemma okViewE:
  assumes "okView V n" "0 \<le> i"
  obtains e b where "viewEmpty V i = Some e" "viewBuffer V i = Some b" "0 \<le> b" "n \<le> i \<Longrightarrow> e \<and> b = 0"
    "blk V i = (if e then 0 else 1) + b"
proof -
  obtain e b where "viewEmpty V i = Some e" "viewBuffer V i = Some b" "0 \<le> b" "n \<le> i \<longrightarrow> e \<and> b = 0"
    using assms unfolding okView_def by blast
  then show ?thesis using that by (simp add: blk_def)
qed

lemma blk_nonneg: "okView V n \<Longrightarrow> 0 \<le> i \<Longrightarrow> 0 \<le> blk V i"
  by (erule (1) okViewE) simp

lemma blk_beyond: "okView V n \<Longrightarrow> 0 \<le> i \<Longrightarrow> n \<le> i \<Longrightarrow> blk V i = 0"
  by (erule (1) okViewE) simp

lemma blocksIn_nonneg: "okView V n \<Longrightarrow> 0 \<le> a \<Longrightarrow> 0 \<le> blocksIn V a b"
  unfolding blocksIn_def by (rule sum_nonneg) (auto intro: blk_nonneg)

lemma blocksIn_join: "a \<le> b \<Longrightarrow> b \<le> c \<Longrightarrow> blocksIn V a b + blocksIn V b c = blocksIn V a c"
proof -
  assume "a \<le> b" "b \<le> c"
  then have "{a..<c} = {a..<b} \<union> {b..<c}" "{a..<b} \<inter> {b..<c} = {}" by auto
  then show ?thesis by (simp add: blocksIn_def sum.union_disjoint)
qed

lemma blocksIn_step: "a < b \<Longrightarrow> blocksIn V a b = blk V a + blocksIn V (a + 1) b"
proof -
  assume "a < b"
  then have "{a..<b} = insert a {a + 1..<b}" by auto
  then show ?thesis by (simp add: blocksIn_def)
qed

lemma blocksIn_empty [simp]: "b \<le> a \<Longrightarrow> blocksIn V a b = 0"
  by (simp add: blocksIn_def)

lemma blocksIn_cut:
  assumes "okView V n" "0 \<le> a" "n \<le> k"
  shows "blocksIn V a (min k b) = blocksIn V a b"
  unfolding blocksIn_def
proof (rule sum.mono_neutral_left)
  show "\<forall>i\<in>{a..<b} - {a..<min k b}. blk V i = 0" using assms by (auto intro: blk_beyond)
qed auto

lemma countBlocks_ok:
  assumes "okView V n" "0 \<le> a"
  shows "countBlocks V a b = Some (blocksIn V a b)"
proof -
  have "countBlocks V a b = Some (0 + (\<Sum>i\<in>{a..<b}. blk V i))"
    unfolding countBlocks_def
  proof (rule for_range_sum)
    fix i s assume "a \<le> i" "i < b"
    then show "do { e \<leftarrow> viewEmpty V i; b \<leftarrow> viewBuffer V i; Some (s + (if e then 0 else 1) + b) } = Some (s + blk V i)"
      using assms by (elim okViewE [of V n i]) auto
  qed
  then show ?thesis by (simp add: blocksIn_def)
qed

lemma validNode_children:
  assumes "validNode L (Suc l) i" "Suc l \<le> L"
  shows "validNode L l (leftChild i)" "validNode L l (rightChild i)"
proof -
  have "2 ^ (L - l) = (2::int) * 2 ^ (L - Suc l)" using assms(2) by (simp add: Suc_diff_Suc flip: power_Suc)
  then show "validNode L l (leftChild i)" "validNode L l (rightChild i)"
    using assms by (auto simp: validNode_def leftChild_def rightChild_def)
qed

lemma nodeStart_children:
  "nodeStart P l (leftChild i) = nodeStart P (Suc l) i" "nodeStart P l (leftChild i + 1) = nodeStart P l (rightChild i)"
  "nodeStart P l (rightChild i + 1) = nodeStart P (Suc l) (i + 1)"
  by (simp_all add: nodeStart_def leftChild_def rightChild_def algebra_simps)

lemma nodeStart_mono: "0 < SegmentWidth P \<Longrightarrow> i \<le> j \<Longrightarrow> nodeStart P l i \<le> nodeStart P l j"
  by (simp add: nodeStart_def)

lemma nodeStart_nonneg: "0 < SegmentWidth P \<Longrightarrow> 0 \<le> i \<Longrightarrow> 0 \<le> nodeStart P l i"
  by (simp add: nodeStart_def)

lemma nodeStart_zero: "nodeStart P 0 i = getBlockIndexLevelZero P i"
  by (simp add: nodeStart_def getBlockIndexLevelZero_def)

text \<open>A node whose children are counted is counted by adding them.\<close>

lemma blocks_children:
  assumes "0 < SegmentWidth P"
  shows "blocksIn V (nodeStart P l (leftChild i)) (nodeStart P l (leftChild i + 1)) +
     blocksIn V (nodeStart P l (rightChild i)) (nodeStart P l (rightChild i + 1)) =
     blocksIn V (nodeStart P (Suc l) i) (nodeStart P (Suc l) (i + 1))"
proof -
  have "nodeStart P (Suc l) i \<le> nodeStart P l (rightChild i)" "nodeStart P l (rightChild i) \<le> nodeStart P (Suc l) (i + 1)"
    using nodeStart_mono [OF assms, of "leftChild i" "rightChild i" l]
      nodeStart_mono [OF assms, of "rightChild i" "rightChild i + 1" l]
    by (simp_all add: nodeStart_children) (simp_all add: leftChild_def rightChild_def nodeStart_def)
  then show ?thesis by (simp add: nodeStart_children blocksIn_join)
qed

lemma aggregateNodeHigherLevel_ok:
  assumes lay: "brmLayout L m" and v: "validNode L (Suc l) i" "Suc l \<le> L"
  shows "aggregateNodeHigherLevel P m i (int (Suc l)) =
     Some (numberOfBlocks (agg L m l (leftChild i)) + numberOfBlocks (agg L m l (rightChild i)))"
  using validNode_children [OF v] by (simp add: aggregateNodeHigherLevel_def assertIndex_ok [OF lay] aggregateAt_ok [OF lay])

lemma higher_counts:
  assumes "brmLayout L m" "validNode L (Suc l) i" "Suc l \<le> L" "countsUpTo P V L m (Suc l)" "0 < SegmentWidth P"
  shows "aggregateNodeHigherLevel P m i (int (Suc l)) =
     Some (blocksIn V (nodeStart P (Suc l) i) (nodeStart P (Suc l) (i + 1)))"
  unfolding aggregateNodeHigherLevel_ok [OF assms(1-3)]
  using assms(4) validNode_children [OF assms(2,3)] blocks_children [OF assms(5), of V l i]
  by (simp add: countsUpTo_def)

subsection \<open>Recomputing the hierarchy\<close>

text \<open>What a write to the counter of one node leaves unchanged.\<close>

definition sameFlags :: "nat \<Rightarrow> brm \<Rightarrow> brm \<Rightarrow> bool" where
  "sameFlags L m m' \<longleftrightarrow> nextLevelRecountingNodes m' = nextLevelRecountingNodes m \<and> brmSize m' = brmSize m \<and>
     (\<forall>l i. validNode L l i \<longrightarrow> rebalanced (agg L m' l i) = rebalanced (agg L m l i))"

lemma sameFlags_refl [simp]: "sameFlags L m m"
  by (simp add: sameFlags_def)

lemma sameFlags_trans: "sameFlags L m1 m2 \<Longrightarrow> sameFlags L m2 m3 \<Longrightarrow> sameFlags L m1 m3"
  by (auto simp: sameFlags_def)

lemma setCount_ok:
  assumes lay: "brmLayout L m" and v: "validNode L level i"
  shows "\<exists>m'. setAggregate P m i (int level) (\<lambda>e. e\<lparr>numberOfBlocks := c\<rparr>) = Some m' \<and> brmLayout L m' \<and> sameFlags L m m' \<and>
     (\<forall>l j. validNode L l j \<longrightarrow>
        numberOfBlocks (agg L m' l j) = (if l = level \<and> j = i then c else numberOfBlocks (agg L m l j)))"
  using setAggregate_ok [OF lay v, of P "\<lambda>e. e\<lparr>numberOfBlocks := c\<rparr>"] unfolding sameFlags_def by fastforce

text \<open>One level is recomputed from counts \<open>f\<close> that do not depend on it.\<close>

lemma level_loop:
  assumes lay: "brmLayout L m" and l: "level \<le> L"
    and body: "\<And>i m'. validNode L level i \<Longrightarrow> brmLayout L m' \<Longrightarrow>
       (\<forall>l j. l < level \<longrightarrow> validNode L l j \<longrightarrow> numberOfBlocks (agg L m' l j) = numberOfBlocks (agg L m l j)) \<Longrightarrow>
       body i m' = setAggregate P m' i (int level) (\<lambda>e. e\<lparr>numberOfBlocks := f i\<rparr>)"
  shows "\<exists>m'. for_range 0 (2 ^ (L - level)) body m = Some m' \<and> brmLayout L m' \<and> sameFlags L m m' \<and>
     (\<forall>l j. l < level \<longrightarrow> validNode L l j \<longrightarrow> numberOfBlocks (agg L m' l j) = numberOfBlocks (agg L m l j)) \<and>
     (\<forall>j. validNode L level j \<longrightarrow> numberOfBlocks (agg L m' level j) = f j)"
proof -
  define I where "I i m' \<longleftrightarrow> brmLayout L m' \<and> sameFlags L m m' \<and>
     (\<forall>l j. l < level \<longrightarrow> validNode L l j \<longrightarrow> numberOfBlocks (agg L m' l j) = numberOfBlocks (agg L m l j)) \<and>
     (\<forall>j. validNode L level j \<longrightarrow> j < i \<longrightarrow> numberOfBlocks (agg L m' level j) = f j)" for i m'
  have "\<exists>m'. for_range 0 (2 ^ (L - level)) body m = Some m' \<and> I (2 ^ (L - level)) m'"
  proof (rule for_range_inv)
    show "I 0 m" using lay by (auto simp: I_def validNode_def)
    fix i m' assume i: "0 \<le> i" "i < 2 ^ (L - level)" and inv: "I i m'"
    have v: "validNode L level i" using i l by (simp add: validNode_def)
    have lay': "brmLayout L m'" using inv by (simp add: I_def)
    obtain m'' where m'': "setAggregate P m' i (int level) (\<lambda>e. e\<lparr>numberOfBlocks := f i\<rparr>) = Some m''" "brmLayout L m''"
      "sameFlags L m' m''" "\<forall>l j. validNode L l j \<longrightarrow>
        numberOfBlocks (agg L m'' l j) = (if l = level \<and> j = i then f i else numberOfBlocks (agg L m' l j))"
      using setCount_ok [OF lay' v] by blast
    have "body i m' = Some m''" using body [OF v lay'] inv m''(1) by (simp add: I_def)
    moreover have "I (i + 1) m''" using inv m'' sameFlags_trans unfolding I_def by fastforce
    ultimately show "\<exists>t. body i m' = Some t \<and> I (i + 1) t" by blast
  qed simp
  then show ?thesis by (auto simp: I_def validNode_def)
qed

lemma recompute_ok:
  assumes lay: "brmLayout L m" and V: "okView V n" and P: "0 < SegmentWidth P"
  shows "\<exists>m'. recompute P V m n = Some m' \<and> brmLayout L m' \<and> sameFlags L m m' \<and> consistent P V L m'"
proof -
  let ?zero = "\<lambda>i m. do {
          c \<leftarrow> countBlocks V (getBlockIndexLevelZero P i) (min n (getBlockIndexLevelZero P (i + 1)));
          assertMsg (NDEBUG P) (i < 2 * brmCapacity m);
          setAggregate P m i 0 (\<lambda>e. e\<lparr>numberOfBlocks := c\<rparr>) }"
  let ?f = "\<lambda>level m. do {
          n \<leftarrow> numberOfAggregatesInLevel P m level;
          for_range 0 n
            (\<lambda>i m. do {
               c \<leftarrow> aggregateNodeHigherLevel P m i level;
               assertIndex P m i level;
               setAggregate P m i level (\<lambda>e. e\<lparr>numberOfBlocks := c\<rparr>) }) m }"
  let ?cnt = "\<lambda>l i. blocksIn V (nodeStart P l i) (nodeStart P l (i + 1))"
  have "\<exists>m1. for_range 0 (2 ^ (L - 0)) ?zero m = Some m1 \<and> brmLayout L m1 \<and> sameFlags L m m1 \<and>
     (\<forall>l j. l < 0 \<longrightarrow> validNode L l j \<longrightarrow> numberOfBlocks (agg L m1 l j) = numberOfBlocks (agg L m l j)) \<and>
     (\<forall>j. validNode L 0 j \<longrightarrow> numberOfBlocks (agg L m1 0 j) = ?cnt 0 j)"
  proof (rule level_loop [OF lay])
    fix i m' assume v: "validNode L 0 i" and lay': "brmLayout L m'"
    have i: "0 \<le> i" "i < 2 ^ L" using v by (auto simp: validNode_def)
    have "0 \<le> nodeStart P 0 i" using nodeStart_nonneg [OF P] i by simp
    then have "countBlocks V (getBlockIndexLevelZero P i) (min n (getBlockIndexLevelZero P (i + 1))) = Some (?cnt 0 i)"
      using countBlocks_ok [OF V] blocksIn_cut [OF V] by (simp add: nodeStart_zero)
    then show "?zero i m' = setAggregate P m' i (int 0) (\<lambda>e. e\<lparr>numberOfBlocks := ?cnt 0 i\<rparr>)"
      using i brmLayoutD(3) [OF lay'] by simp
  qed simp
  then obtain m1 where m1: "for_range 0 (2 ^ L) ?zero m = Some m1" "brmLayout L m1" "sameFlags L m m1" "countsUpTo P V L m1 1"
    by (auto simp: countsUpTo_def)
  have "\<exists>m'. for_range 1 (int L + 1) ?f m1 = Some m' \<and>
     (brmLayout L m' \<and> sameFlags L m m' \<and> countsUpTo P V L m' (nat (int L + 1)))"
  proof (rule for_range_inv)
    show "brmLayout L m1 \<and> sameFlags L m m1 \<and> countsUpTo P V L m1 (nat 1)" using m1 by simp
    fix k m2 assume k: "1 \<le> k" "k < int L + 1" and inv: "brmLayout L m2 \<and> sameFlags L m m2 \<and> countsUpTo P V L m2 (nat k)"
    define l where "l = nat (k - 1)"
    have kl: "k = int (Suc l)" "nat k = Suc l" "Suc l \<le> L" "nat (k + 1) = Suc (Suc l)" using k by (auto simp: l_def)
    have num: "numberOfAggregatesInLevel P m2 k = Some (2 ^ (L - Suc l))"
      using numberOfAggregates_ok [of L m2 "Suc l" P] inv kl by simp
    have "\<exists>m3. for_range 0 (2 ^ (L - Suc l)) (\<lambda>i m. do {
               c \<leftarrow> aggregateNodeHigherLevel P m i k;
               assertIndex P m i k;
               setAggregate P m i k (\<lambda>e. e\<lparr>numberOfBlocks := c\<rparr>) }) m2 = Some m3 \<and> brmLayout L m3 \<and> sameFlags L m2 m3 \<and>
     (\<forall>l' j. l' < Suc l \<longrightarrow> validNode L l' j \<longrightarrow> numberOfBlocks (agg L m3 l' j) = numberOfBlocks (agg L m2 l' j)) \<and>
     (\<forall>j. validNode L (Suc l) j \<longrightarrow> numberOfBlocks (agg L m3 (Suc l) j) = ?cnt (Suc l) j)"
    proof (rule level_loop)
      fix i m' assume v: "validNode L (Suc l) i" and lay': "brmLayout L m'" and
        same: "\<forall>l' j. l' < Suc l \<longrightarrow> validNode L l' j \<longrightarrow> numberOfBlocks (agg L m' l' j) = numberOfBlocks (agg L m2 l' j)"
      have "countsUpTo P V L m' (Suc l)" using inv same kl by (simp add: countsUpTo_def)
      from higher_counts [OF lay' v kl(3) this P] assertIndex_ok [OF lay' v, of P]
      show "do { c \<leftarrow> aggregateNodeHigherLevel P m' i k; assertIndex P m' i k;
          setAggregate P m' i k (\<lambda>e. e\<lparr>numberOfBlocks := c\<rparr>) } =
        setAggregate P m' i (int (Suc l)) (\<lambda>e. e\<lparr>numberOfBlocks := ?cnt (Suc l) i\<rparr>)"
        unfolding kl(1) by simp
    qed (use inv kl in auto)
    then obtain m3 where "?f k m2 = Some m3" "brmLayout L m3" "sameFlags L m2 m3"
      "\<forall>l' j. l' < Suc l \<longrightarrow> validNode L l' j \<longrightarrow> numberOfBlocks (agg L m3 l' j) = numberOfBlocks (agg L m2 l' j)"
      "\<forall>j. validNode L (Suc l) j \<longrightarrow> numberOfBlocks (agg L m3 (Suc l) j) = ?cnt (Suc l) j"
      using num by auto
    moreover from this have "countsUpTo P V L m3 (nat (k + 1))"
      using inv kl by (auto simp: countsUpTo_def less_Suc_eq)
    ultimately show "\<exists>t. ?f k m2 = Some t \<and> (brmLayout L t \<and> sameFlags L m t \<and> countsUpTo P V L t (nat (k + 1)))"
      using inv sameFlags_trans by blast
  qed simp
  moreover have "numberOfAggregatesInLevel P m 0 = Some (2 ^ L)" using numberOfAggregates_ok [OF lay, of 0] by simp
  moreover have "logCapacity m1 = int L" using m1(2) by (simp add: brmLayout_def)
  moreover have "nat (int L + 1) = L + 1" by simp
  ultimately show ?thesis using m1(1) by (auto simp: recompute_def consistent_def)
qed

subsection \<open>Finding a block by its number\<close>

lemma findBlockScan_ok:
  assumes V: "okView V n" and "0 \<le> pos" "pos \<le> right" "0 \<le> r" "r \<le> blocksIn V pos right"
  shows "\<exists>x. findBlockScan nd V right r pos = Some x \<and> blocksBefore V pos x = r \<and>
     pos \<le> pmaIndex x \<and> pmaIndex x \<le> right \<and>
     (bufferIndex x = -1 \<or> 0 \<le> bufferIndex x \<and> bufferIndex x < the (viewBuffer V (pmaIndex x)) \<and> pmaIndex x < right) \<and> pmaIndex x \<le> max n pos"
  using assms(2-)
proof (induction "nat (right - pos)" arbitrary: pos r)
  case 0
  then have "r = 0" "pos = right" by auto
  then show ?case by (subst findBlockScan.simps) (simp add: blocksBefore_def)
next
  case (Suc k)
  show ?case
  proof (cases "r = 0")
    case True
    then show ?thesis using Suc.prems by (subst findBlockScan.simps) (simp add: blocksBefore_def)
  next
    case False
    have lt: "pos < right" using Suc.hyps(2) by simp
    obtain e b where eb: "viewEmpty V pos = Some e" "viewBuffer V pos = Some b" "0 \<le> b" "blk V pos = (if e then 0 else 1) + b"
      using okViewE [OF V Suc.prems(1)] by metis
    define r1 where "r1 = (if e then r else r - 1)"
    have r1: "0 \<le> r1" "r = (if e then 0 else 1) + r1" using False Suc.prems by (auto simp: r1_def)
    show ?thesis
    proof (cases "r1 < b")
      case True
      have "findBlockScan nd V right r pos = Some (ExtendedPmaIndex pos r1)"
        using eb False True Suc.prems by (subst findBlockScan.simps) (simp add: r1_def)
      then show ?thesis using r1 eb True lt by (simp add: blocksBefore_def)
    next
      case False
      have tot: "r1 - b \<le> blocksIn V (pos + 1) right"
        using Suc.prems blocksIn_step [OF lt, of V] eb r1(2) by (auto split: if_splits)
      have "\<exists>x. findBlockScan nd V right (r1 - b) (pos + 1) = Some x \<and> blocksBefore V (pos + 1) x = r1 - b \<and>
         pos + 1 \<le> pmaIndex x \<and> pmaIndex x \<le> right \<and>
         (bufferIndex x = -1 \<or> 0 \<le> bufferIndex x \<and> bufferIndex x < the (viewBuffer V (pmaIndex x)) \<and> pmaIndex x < right) \<and> pmaIndex x \<le> max n (pos + 1)"
        using Suc.hyps(2) Suc.prems lt False tot by (intro Suc.hyps(1)) auto
      then obtain x where x: "findBlockScan nd V right (r1 - b) (pos + 1) = Some x" "blocksBefore V (pos + 1) x = r1 - b"
         "pos + 1 \<le> pmaIndex x" "pmaIndex x \<le> right"
         "bufferIndex x = -1 \<or> 0 \<le> bufferIndex x \<and> bufferIndex x < the (viewBuffer V (pmaIndex x)) \<and> pmaIndex x < right" "pmaIndex x \<le> max n (pos + 1)" by blast
      have "pos < n"
      proof (rule ccontr)
        assume "\<not> pos < n"
        then have "blocksIn V pos right = 0" using blk_beyond [OF V] Suc.prems(1) by (auto simp: blocksIn_def intro!: sum.neutral)
        then show False using Suc.prems \<open>r \<noteq> 0\<close> by simp
      qed
      have "blocksBefore V pos x = r"
        using x(2,3) eb r1 blocksIn_step [of pos "pmaIndex x" V] by (simp add: blocksBefore_def)
      moreover have "findBlockScan nd V right r pos = Some x"
        using eb False \<open>r \<noteq> 0\<close> Suc.prems lt x(1) by (subst findBlockScan.simps) (simp add: r1_def)
      ultimately show ?thesis using x \<open>pos < n\<close> by auto
    qed
  qed
qed

lemma descend_ok:
  assumes lay: "brmLayout L m" and cons: "consistent P V L m" and P: "0 < SegmentWidth P"
    and v: "validNode L l i" "l \<le> L" and r: "0 \<le> r" "r \<le> blocksIn V (nodeStart P l i) (nodeStart P l (i + 1))"
  shows "\<exists>j r'. descend P m (int l) i r = Some (j, r') \<and> validNode L 0 j \<and>
     nodeStart P l i \<le> nodeStart P 0 j \<and> nodeStart P 0 (j + 1) \<le> nodeStart P l (i + 1) \<and>
     0 \<le> r' \<and> r' \<le> blocksIn V (nodeStart P 0 j) (nodeStart P 0 (j + 1)) \<and>
     blocksIn V (nodeStart P l i) (nodeStart P 0 j) + r' = r \<and> (r' = 0 \<longrightarrow> nodeStart P 0 j = nodeStart P l i)"
  using v r
proof (induction l arbitrary: i r)
  case 0
  then show ?case by (subst descend.simps) simp
next
  case (Suc l)
  let ?lc = "leftChild i" and ?rc = "rightChild i"
  note ch = validNode_children [OF Suc.prems(1,2)]
  have cnt: "numberOfBlocks (agg L m l j) = blocksIn V (nodeStart P l j) (nodeStart P l (j + 1))" if "validNode L l j" for j
    using cons that Suc.prems(2) by (simp add: consistent_def countsUpTo_def)
  have atl: "aggregateAt P m j (int (Suc l) - 1) = Some (agg L m l j)" if "validNode L l j" for j
    using aggregateAt_ok [OF lay that, of P] by simp
  note bc = blocks_children [OF P, of V l i]
  have ord: "nodeStart P (Suc l) i \<le> nodeStart P l ?rc" "nodeStart P l ?rc \<le> nodeStart P (Suc l) (i + 1)"
    using nodeStart_mono [OF P, of ?lc ?rc l] nodeStart_mono [OF P, of ?rc "?rc + 1" l]
    by (simp_all add: nodeStart_children) (simp_all add: leftChild_def rightChild_def nodeStart_def)
  define lb where "lb = numberOfBlocks (agg L m l ?lc)"
  have lb: "lb = blocksIn V (nodeStart P (Suc l) i) (nodeStart P l ?rc)"
    using cnt [OF ch(1)] by (simp add: lb_def nodeStart_children)
  have lev: "int (Suc l) - 1 = int l" by simp
  show ?case
  proof (cases "r > lb")
    case True
    have r': "0 \<le> r - lb" "r - lb \<le> blocksIn V (nodeStart P l ?rc) (nodeStart P l (?rc + 1))"
      using True Suc.prems(4) bc lb by (auto simp: nodeStart_children)
    obtain j q where j: "descend P m (int l) ?rc (r - lb) = Some (j, q)" "validNode L 0 j"
      "nodeStart P l ?rc \<le> nodeStart P 0 j" "nodeStart P 0 (j + 1) \<le> nodeStart P l (?rc + 1)"
      "0 \<le> q" "q \<le> blocksIn V (nodeStart P 0 j) (nodeStart P 0 (j + 1))"
      "blocksIn V (nodeStart P l ?rc) (nodeStart P 0 j) + q = r - lb" "q = 0 \<longrightarrow> nodeStart P 0 j = nodeStart P l ?rc"
      using Suc.IH [OF ch(2) _ r'] Suc.prems(2) by auto
    have "q \<noteq> 0" using j(7,8) True by auto
    have "descend P m (int (Suc l)) i r = Some (j, q)"
      using True r'(2) cnt [OF ch(2)] j(1) atl [OF ch(1)] atl [OF ch(2)]
      by (subst descend.simps) (simp add: lb_def)
    moreover have "blocksIn V (nodeStart P (Suc l) i) (nodeStart P 0 j) + q = r"
      using j(3,7) blocksIn_join [of "nodeStart P (Suc l) i" "nodeStart P l ?rc" "nodeStart P 0 j" V] ord lb by simp
    ultimately show ?thesis using j ord \<open>q \<noteq> 0\<close> by (auto simp: nodeStart_children)
  next
    case False
    have r': "r \<le> blocksIn V (nodeStart P l ?lc) (nodeStart P l (?lc + 1))"
      using False cnt [OF ch(1)] by (simp add: lb_def)
    obtain j q where j: "descend P m (int l) ?lc r = Some (j, q)" "validNode L 0 j"
      "nodeStart P l ?lc \<le> nodeStart P 0 j" "nodeStart P 0 (j + 1) \<le> nodeStart P l (?lc + 1)"
      "0 \<le> q" "q \<le> blocksIn V (nodeStart P 0 j) (nodeStart P 0 (j + 1))"
      "blocksIn V (nodeStart P l ?lc) (nodeStart P 0 j) + q = r" "q = 0 \<longrightarrow> nodeStart P 0 j = nodeStart P l ?lc"
      using Suc.IH [OF ch(1) _ Suc.prems(3) r'] Suc.prems(2) by auto
    have "descend P m (int (Suc l)) i r = Some (j, q)"
      using False r' cnt [OF ch(1)] j(1) atl [OF ch(1)]
      by (subst descend.simps) (simp add: lb_def)
    then show ?thesis using j ord by (auto simp: nodeStart_children)
  qed
qed

text \<open>The node whose counter stands for a rebalancing node: the super root shares the root's.\<close>

definition okNode :: "nat \<Rightarrow> RebalancingNode \<Rightarrow> bool" where
  "okNode L node \<longleftrightarrow> 0 \<le> nodeLevel node \<and> validNode L (nat (nodeLevel node)) (nodeIndex node)"

definition taskStart :: "('k, 'v) tparams \<Rightarrow> nat \<Rightarrow> RebalancingNode \<Rightarrow> int" where
  "taskStart P L node = nodeStart P (min L (nat (nodeLevel node))) (nodeIndex node)"

definition taskEnd :: "('k, 'v) tparams \<Rightarrow> nat \<Rightarrow> RebalancingNode \<Rightarrow> int" where
  "taskEnd P L node = nodeStart P (min L (nat (nodeLevel node))) (nodeIndex node + 1)"

lemma okNode_cases:
  assumes "okNode L node"
  obtains l where "nodeLevel node = int l" "l \<le> L" "validNode L l (nodeIndex node)"
    | "nodeLevel node = int L + 1" "nodeIndex node = 0"
proof -
  define l where "l = nat (nodeLevel node)"
  have l: "nodeLevel node = int l" "validNode L l (nodeIndex node)" using assms by (auto simp: okNode_def l_def)
  show ?thesis
  proof (cases "l \<le> L")
    case True
    then show ?thesis using that(1) l by blast
  next
    case False
    then have "l = L + 1" using l(2) by (simp add: validNode_def)
    moreover from this have "nodeIndex node = 0" using l(2) by (simp add: validNode_def)
    ultimately show ?thesis using that(2) l by simp
  qed
qed

lemma rebalancingRange_node:
  assumes "brmLayout L m" "l \<le> L"
  shows "rebalancingRange P dm m (mkNode (int l) i) = Some (mkInterval (nodeStart P l i) (nodeStart P l (i + 1)))"
  using assms width_ok [OF assms] by (simp add: rebalancingRange_def brmLayoutD(2) [OF assms(1)] nodeStart_def Let_def)

lemma consistent_count:
  "consistent P V L m \<Longrightarrow> validNode L l i \<Longrightarrow> l \<le> L \<Longrightarrow>
   numberOfBlocks (agg L m l i) = blocksIn V (nodeStart P l i) (nodeStart P l (i + 1))"
  by (simp add: consistent_def countsUpTo_def)

lemma validNode_root [simp]: "validNode L L 0" "validNode L (Suc L) 0"
  by (simp_all add: validNode_def)

lemma getRebalancingTask_ok:
  assumes lay: "brmLayout L m" and cons: "consistent P V L m" and ok: "okNode L node"
  shows "\<exists>range. getRebalancingTask P dm m node =
      Some \<lparr>pmaRange = range, taskNumberOfBlocks = blocksIn V (taskStart P L node) (taskEnd P L node), rootNode = node\<rparr> \<and>
    (nodeLevel node \<le> int L \<longrightarrow> range = mkInterval (taskStart P L node) (taskEnd P L node)) \<and>
    (nodeLevel node = int L + 1 \<longrightarrow>
       range = mkInterval 0 (minRangeLength dm (blocksIn V (taskStart P L node) (taskEnd P L node))))"
  using ok
proof (cases rule: okNode_cases)
  case (1 l)
  obtain i where node: "node = mkNode (int l) i" by (metis 1(1) RebalancingNode.cases mkNode_def RebalancingNode.select_convs(1))
  have "nodeNumberOfBlocks P m node = Some (blocksIn V (taskStart P L node) (taskEnd P L node))"
    using 1 consistent_count [OF cons 1(3,2)] aggregateAt_ok [OF lay 1(3), of P]
    by (simp add: nodeNumberOfBlocks_def brmLayoutD(2) [OF lay] taskStart_def taskEnd_def)
  moreover have "rebalancingRange P dm m node = Some (mkInterval (taskStart P L node) (taskEnd P L node))"
    using rebalancingRange_node [OF lay 1(2), of P dm i] 1(2) by (simp add: node taskStart_def taskEnd_def)
  ultimately show ?thesis using 1 by (simp add: getRebalancingTask_def)
next
  case 2
  have c: "numberOfBlocks (agg L m L 0) = blocksIn V (taskStart P L node) (taskEnd P L node)"
    using consistent_count [OF cons validNode_root(1)] 2 by (simp add: taskStart_def taskEnd_def)
  have "aggregateAt P m 0 (int L) = Some (agg L m L 0)" by (rule aggregateAt_ok [OF lay]) simp
  then show ?thesis
    using 2 c by (simp add: getRebalancingTask_def rebalancingRange_def nodeNumberOfBlocks_def
        brmLayoutD(1,2) [OF lay])
qed

text \<open>
  \<open>findBlockInRebalancingTask\<close> returns the position with exactly \<open>blockNumber\<close> blocks of the task before
  it; it runs without failing an assertion and always returns.
\<close>

lemma findBlock_ok:
  assumes lay: "brmLayout L m" and cons: "consistent P V L m" and V: "okView V n" and P: "0 < SegmentWidth P"
    and ok: "okNode L node" and k: "0 \<le> k" "k \<le> blocksIn V (taskStart P L node) (taskEnd P L node)"
  shows "\<exists>x. findBlockInRebalancingTask P dm V m node k = Some x \<and>
     taskStart P L node \<le> pmaIndex x \<and> pmaIndex x \<le> taskEnd P L node \<and>
     blocksBefore V (taskStart P L node) x = k \<and>
     (bufferIndex x = -1 \<or> 0 \<le> bufferIndex x \<and> bufferIndex x < the (viewBuffer V (pmaIndex x)) \<and> pmaIndex x < taskEnd P L node) \<and>
     pmaIndex x \<le> max n (taskStart P L node)"
proof -
  define l where "l = min L (nat (nodeLevel node))"
  define i where "i = nodeIndex node"
  have l: "l \<le> L" "validNode L l i"
    using ok by (auto simp: l_def i_def elim!: okNode_cases)
  have start: "(if nodeLevel node > logCapacity m
              then do { assertMsg (NDEBUG P) (nodeIndex node = 0); Some (mkNode (logCapacity m) (nodeIndex node)) }
              else Some node) = Some (mkNode (int l) i)"
    using ok by (cases rule: okNode_cases) (auto simp: l_def i_def brmLayoutD(1) [OF lay] mkNode_def)
  have k': "k \<le> blocksIn V (nodeStart P l i) (nodeStart P l (i + 1))" using k by (simp add: taskStart_def taskEnd_def l_def i_def)
  obtain j r where d: "descend P m (int l) i k = Some (j, r)" "validNode L 0 j"
     "nodeStart P l i \<le> nodeStart P 0 j" "nodeStart P 0 (j + 1) \<le> nodeStart P l (i + 1)"
     "0 \<le> r" "r \<le> blocksIn V (nodeStart P 0 j) (nodeStart P 0 (j + 1))"
     "blocksIn V (nodeStart P l i) (nodeStart P 0 j) + r = k" "r = 0 \<longrightarrow> nodeStart P 0 j = nodeStart P l i"
    using descend_ok [OF lay cons P l(2,1) k(1) k'] by auto
  have j0: "0 \<le> nodeStart P 0 j" "nodeStart P 0 j \<le> nodeStart P 0 (j + 1)"
    using d(2) nodeStart_nonneg [OF P] nodeStart_mono [OF P] by (auto simp: validNode_def)
  obtain x where x: "findBlockScan (NDEBUG P) V (nodeStart P 0 (j + 1)) r (nodeStart P 0 j) = Some x"
     "blocksBefore V (nodeStart P 0 j) x = r" "nodeStart P 0 j \<le> pmaIndex x" "pmaIndex x \<le> nodeStart P 0 (j + 1)"
     "bufferIndex x = -1 \<or> 0 \<le> bufferIndex x \<and> bufferIndex x < the (viewBuffer V (pmaIndex x)) \<and> pmaIndex x < nodeStart P 0 (j + 1)"
     "pmaIndex x \<le> max n (nodeStart P 0 j)"
    using findBlockScan_ok [OF V j0 d(5,6)] by blast
  have leaf: "nodeStart P 0 j \<le> max n (nodeStart P l i)"
  proof (rule ccontr)
    assume gt: "\<not> ?thesis"
    then have "blocksIn V (nodeStart P 0 j) (nodeStart P 0 (j + 1)) = 0"
      using blk_beyond [OF V] j0 by (auto simp: blocksIn_def intro!: sum.neutral)
    then show False using d(5,6,8) gt by simp
  qed
  have range: "rebalancingRange P dm m (mkNode 0 j) = Some (mkInterval (nodeStart P 0 j) (nodeStart P 0 (j + 1)))"
    using rebalancingRange_node [OF lay, of 0 P dm j] by simp
  have at0: "aggregateAt P m j 0 = Some (agg L m 0 j)" using aggregateAt_ok [OF lay d(2), of P] by simp
  have atl: "aggregateAt P m i (int l) = Some (agg L m l i)" by (rule aggregateAt_ok [OF lay l(2)])
  have "findBlockInRebalancingTask P dm V m node k = Some x"
    unfolding findBlockInRebalancingTask_def start
    using k' d(1,6) consistent_count [OF cons l(2,1)] consistent_count [OF cons d(2)] atl at0 range x(1)
    by simp
  moreover have "blocksBefore V (nodeStart P l i) x = k"
    using x(2,3) d(3,7) blocksIn_join [of "nodeStart P l i" "nodeStart P 0 j" "pmaIndex x" V]
    by (simp add: blocksBefore_def)
  moreover have "pmaIndex x \<le> max n (nodeStart P l i)" using x(6) leaf by linarith
  ultimately show ?thesis using x(3-5) d(3,4) by (auto simp: taskStart_def taskEnd_def l_def i_def)
qed

section \<open>Updating the hierarchy\<close>

text \<open>The true count of a node and the number of entries below it.\<close>

definition cnt :: "('k, 'v) tparams \<Rightarrow> sdsView \<Rightarrow> nat \<Rightarrow> int \<Rightarrow> int" where
  "cnt P V l i = blocksIn V (nodeStart P l i) (nodeStart P l (i + 1))"

definition width :: "('k, 'v) tparams \<Rightarrow> nat \<Rightarrow> int" where
  "width P l = SegmentWidth P * 2 ^ l"

definition thr :: "('k, 'v) tparams \<Rightarrow> density \<Rightarrow> nat \<Rightarrow> nat \<Rightarrow> int" where
  "thr P dm L l = densityThreshold P dm (int l) (int L) (2 ^ l)"

lemma cnt_children: "0 < SegmentWidth P \<Longrightarrow> cnt P V l (leftChild i) + cnt P V l (rightChild i) = cnt P V (Suc l) i"
  unfolding cnt_def by (rule blocks_children)

lemma parent_child: "0 \<le> i \<Longrightarrow> i = leftChild (parent i) \<or> i = rightChild (parent i)"
  by (simp add: parent_def leftChild_def rightChild_def) presburger

lemma parent_of_child [simp]: "0 \<le> i \<Longrightarrow> parent (leftChild i) = i" "0 \<le> i \<Longrightarrow> parent (rightChild i) = i"
  by (simp_all add: parent_def leftChild_def rightChild_def)

lemma validNode_parent:
  assumes "validNode L l i" "l \<le> L"
  shows "validNode L (Suc l) (parent i)"
proof (cases "l = L")
  case True
  then show ?thesis using assms by (simp add: validNode_def parent_def)
next
  case False
  then have "2 ^ (L - l) = (2::int) * 2 ^ (L - Suc l)" using assms(2) by (simp add: Suc_diff_Suc flip: power_Suc)
  then show ?thesis using assms False by (auto simp: validNode_def parent_def)
qed

lemma thr_bounds:
  assumes "density_manager dm" "0 < SegmentWidth P" "l \<le> L" "0 < L" "width P L \<le> 2 ^ 53"
  shows "0 \<le> thr P dm L l \<and> thr P dm L l \<le> width P l"
proof -
  have pw: "(2::int) ^ l \<le> 2 ^ L" using assms(3) by (simp add: power_increasing)
  have "(1::int) \<le> SegmentWidth P" "(1::int) \<le> 2 ^ L" using assms(2) by simp_all
  then have b: "SegmentWidth P \<le> width P L" "2 ^ L \<le> width P L"
    by (simp_all add: width_def mult_le_cancel_left1 mult_le_cancel_right1)
  have L: "int L \<le> 2 ^ L" using of_nat_less_two_power [of L] by (simp add: less_imp_le)
  have w: "SegmentWidth P * 2 ^ l \<le> width P L" using assms(2) pw by (simp add: width_def)
  have top: "int L \<le> 2 ^ 53" "(2::int) ^ l \<le> 2 ^ 53" "SegmentWidth P \<le> 2 ^ 53" "SegmentWidth P * 2 ^ l \<le> 2 ^ 53"
    using L b w pw assms(5) by linarith+
  show ?thesis
    unfolding thr_def densityThreshold_def width_def
    by (rule density_manager.threshold_bounds [OF assms(1) _ _ _ top(1) _ top(3) _ top(2,4)]) (use assms in auto)
qed

text \<open>One call of \<open>updateNode\<close> with a true count.\<close>

definition nodesOk :: "('k, 'v) tparams \<Rightarrow> density \<Rightarrow> sdsView \<Rightarrow> nat \<Rightarrow> brm \<Rightarrow> RebalancingNode list \<Rightarrow> bool" where
  "nodesOk P dm V L m nodes \<longleftrightarrow>
     distinct nodes \<and>
     (\<forall>l i. validNode L l i \<longrightarrow> rebalanced (agg L m l i) = (mkNode (int l) i \<in> set nodes)) \<and>
     (\<forall>node\<in>set nodes. \<exists>l i. node = mkNode (int l) i \<and> l \<le> L \<and> validNode L l i \<and> cnt P V l i \<le> thr P dm L l)"

lemma updateNode_ok:
  assumes lay: "brmLayout L m" and v: "validNode L l i" "l \<le> L" and inv: "bmInv R (nextLevelRecountingNodes m)"
    and fits: "cnt P V l i \<le> width P l \<or> needs" and nodes: "nodesOk P dm V L m nodes"
  shows "\<exists>m' nodes'. updateNode P dm R i (int l) needs (cnt P V l i) (m, nodes) = Some (m', nodes') \<and>
     brmLayout L m' \<and> bmInv R (nextLevelRecountingNodes m') \<and> nodesOk P dm V L m' nodes' \<and> set nodes \<subseteq> set nodes' \<and>
     (\<forall>l' j. validNode L l' j \<longrightarrow> numberOfBlocks (agg L m' l' j) =
        (if l' = l \<and> j = i then cnt P V l i else numberOfBlocks (agg L m l' j))) \<and>
     (let over = \<not> cnt P V l i \<le> thr P dm L l; old = bmLookup (nextLevelRecountingNodes m) in
        bmLookup (nextLevelRecountingNodes m') =
          (if cnt P V l i \<noteq> numberOfBlocks (agg L m l i) \<or> over
           then old(parent i \<mapsto> needs \<and> over \<or> old (parent i) = Some True) else old) \<and>
        (needs \<and> \<not> over \<longrightarrow> mkNode (int l) i \<in> set nodes') \<and> (\<forall>node\<in>set nodes'. node \<in> set nodes \<or> needs \<and> node = mkNode (int l) i))"
proof -
  let ?c = "cnt P V l i"
  let ?w = "?c \<le> densityThreshold P dm (int l) (logCapacity m) (2 ^ l)"
  define over where "over \<longleftrightarrow> \<not> ?c \<le> thr P dm L l"
  define chg where "chg \<longleftrightarrow> ?c \<noteq> numberOfBlocks (agg L m l i) \<or> over"
  define old where "old = bmLookup (nextLevelRecountingNodes m)"
  note lg = brmLayoutD(1) [OF lay]
  have pre: "assertIndex P m i (int l) = Some ()" "idx (levelAggregateWidths m) (int l) = Some (2 ^ l)"
    "aggregateAt P m i (int l) = Some (agg L m l i)"
    by (rule assertIndex_ok [OF lay v(1)], rule width_ok [OF lay v(2)], rule aggregateAt_ok [OF lay v(1)])
  have within: "?w = (\<not> over)"
    by (simp add: over_def thr_def lg)
  have asrt: "assertMsg (NDEBUG P) (?c \<le> SegmentWidth P * 2 ^ l \<or> needs) = Some ()"
    using fits by (auto simp: width_def)
  have "\<exists>m1. (if ?c \<noteq> numberOfBlocks (agg L m l i) \<or> \<not> ?w
           then do {
             m \<leftarrow> setAggregate P m i (int l) (\<lambda>e. e\<lparr>numberOfBlocks := ?c\<rparr>);
             next \<leftarrow> bmInsert R (parent i, needs \<and> \<not> ?w) (nextLevelRecountingNodes m);
             Some (m\<lparr>nextLevelRecountingNodes := next\<rparr>) }
           else Some m) = Some m1 \<and> brmLayout L m1 \<and> bmInv R (nextLevelRecountingNodes m1) \<and>
     (\<forall>l' j. validNode L l' j \<longrightarrow> rebalanced (agg L m1 l' j) = rebalanced (agg L m l' j) \<and>
        numberOfBlocks (agg L m1 l' j) = (if l' = l \<and> j = i then ?c else numberOfBlocks (agg L m l' j))) \<and>
     bmLookup (nextLevelRecountingNodes m1) = (if chg then old(parent i \<mapsto> needs \<and> over \<or> old (parent i) = Some True) else old)"
  proof (cases chg)
    case True
    obtain m0 where m0: "setAggregate P m i (int l) (\<lambda>e. e\<lparr>numberOfBlocks := ?c\<rparr>) = Some m0" "brmLayout L m0" "sameFlags L m m0"
      "\<forall>l' j. validNode L l' j \<longrightarrow> numberOfBlocks (agg L m0 l' j) = (if l' = l \<and> j = i then ?c else numberOfBlocks (agg L m l' j))"
      using setCount_ok [OF lay v(1)] by blast
    have nx: "nextLevelRecountingNodes m0 = nextLevelRecountingNodes m" using m0(3) by (simp add: sameFlags_def)
    obtain nxt where nxt: "bmInsert R (parent i, needs \<and> over) (nextLevelRecountingNodes m) = Some nxt" "bmInv R nxt"
      "bmLookup nxt = old(parent i \<mapsto> (needs \<and> over) \<or> old (parent i) = Some True)"
      using bmInsert_ok [OF inv, of "parent i" "needs \<and> over"] by (auto simp: old_def)
    have agg: "agg L (m0\<lparr>nextLevelRecountingNodes := nxt\<rparr>) = agg L m0" by (intro ext) (simp add: agg_def)
    have "brmLayout L (m0\<lparr>nextLevelRecountingNodes := nxt\<rparr>)" using m0(2) by (simp add: brmLayout_def)
    then show ?thesis
      using True m0 nx nxt by (intro exI [of _ "m0\<lparr>nextLevelRecountingNodes := nxt\<rparr>"]) (auto simp: chg_def agg sameFlags_def within)
  next
    case False
    then have same: "?c = numberOfBlocks (agg L m l i)" "?w" using within unfolding chg_def by blast+
    then have "(?c \<noteq> numberOfBlocks (agg L m l i) \<or> \<not> ?w) = False" by simp
    then show ?thesis using lay inv False same(1) by (intro exI [of _ m]) (simp add: old_def)
  qed
  then obtain m1 where m1: "(if ?c \<noteq> numberOfBlocks (agg L m l i) \<or> \<not> ?w
           then do {
             m \<leftarrow> setAggregate P m i (int l) (\<lambda>e. e\<lparr>numberOfBlocks := ?c\<rparr>);
             next \<leftarrow> bmInsert R (parent i, needs \<and> \<not> ?w) (nextLevelRecountingNodes m);
             Some (m\<lparr>nextLevelRecountingNodes := next\<rparr>) }
           else Some m) = Some m1" "brmLayout L m1" "bmInv R (nextLevelRecountingNodes m1)"
     "\<And>l' j. validNode L l' j \<Longrightarrow> rebalanced (agg L m1 l' j) = rebalanced (agg L m l' j)"
     "\<And>l' j. validNode L l' j \<Longrightarrow>
        numberOfBlocks (agg L m1 l' j) = (if l' = l \<and> j = i then ?c else numberOfBlocks (agg L m l' j))"
     "bmLookup (nextLevelRecountingNodes m1) = (if chg then old(parent i \<mapsto> needs \<and> over \<or> old (parent i) = Some True) else old)"
    by blast
  have nodes1: "nodesOk P dm V L m1 nodes" using nodes m1(4) by (simp add: nodesOk_def)
  have at1: "aggregateAt P m1 i (int l) = Some (agg L m1 l i)" by (rule aggregateAt_ok [OF m1(2) v(1)])
  have run: "updateNode P dm R i (int l) needs ?c (m, nodes) =
     (if needs \<and> \<not> over then if \<not> rebalanced (agg L m1 l i)
        then do { m \<leftarrow> setAggregate P m1 i (int l) (\<lambda>e. e\<lparr>rebalanced := True\<rparr>); Some (m, nodes @ [mkNode (int l) i]) }
        else Some (m1, nodes) else Some (m1, nodes))"
    unfolding updateNode_def Let_def fst_conv snd_conv pre asrt Option.bind.bind_lunit m1(1) at1
    by (simp add: within at1)
  show ?thesis
  proof (cases "needs \<and> \<not> over \<and> \<not> rebalanced (agg L m1 l i)")
    case True
    obtain m2 where m2: "setAggregate P m1 i (int l) (\<lambda>e. e\<lparr>rebalanced := True\<rparr>) = Some m2" "brmLayout L m2"
      "nextLevelRecountingNodes m2 = nextLevelRecountingNodes m1"
      "\<And>l' j. validNode L l' j \<Longrightarrow> agg L m2 l' j = (if l' = l \<and> j = i then (agg L m1 l i)\<lparr>rebalanced := True\<rparr> else agg L m1 l' j)"
      using setAggregate_ok [OF m1(2) v(1), of P "\<lambda>e. e\<lparr>rebalanced := True\<rparr>"] by auto
    have "mkNode (int l) i \<notin> set nodes" using nodes1 v True by (simp add: nodesOk_def)
    moreover have "mkNode (int l') j = mkNode (int l) i \<longleftrightarrow> l' = l \<and> j = i" for l' j
      by (auto simp: mkNode_def)
    ultimately have "nodesOk P dm V L m2 (nodes @ [mkNode (int l) i])"
      using nodes1 v m2(4) True by (auto simp: nodesOk_def over_def)
    then show ?thesis
      using run True m2 m1(3,5,6) v by (auto simp: Let_def chg_def over_def old_def)
  next
    case False
    then have "updateNode P dm R i (int l) needs ?c (m, nodes) = Some (m1, nodes)" using run by auto
    moreover have "needs \<and> \<not> over \<longrightarrow> mkNode (int l) i \<in> set nodes" using False nodes1 v by (auto simp: nodesOk_def)
    ultimately show ?thesis
      using m1(2,3,5,6) nodes1 by (auto simp: Let_def chg_def over_def old_def)
  qed
qed

text \<open>
  Between two levels of \<open>update\<close>: the levels below \<open>l\<close> are counted correctly, on level \<open>l\<close> only the nodes of
  the map may be wrong, above it every node is still the sum of its children; and a node with more
  blocks than entries is marked for rebalancing.
\<close>

definition levelInv :: "('k, 'v) tparams \<Rightarrow> sdsView \<Rightarrow> nat \<Rightarrow> brm \<Rightarrow> (int \<rightharpoonup> bool) \<Rightarrow> nat \<Rightarrow> bool" where
  "levelInv P V L m mp l \<longleftrightarrow>
     brmLayout L m \<and> countsUpTo P V L m l \<and>
     (\<forall>i. l \<le> L \<longrightarrow> validNode L l i \<longrightarrow> mp i = None \<longrightarrow> numberOfBlocks (agg L m l i) = cnt P V l i) \<and>
     (\<forall>k i. l \<le> k \<longrightarrow> Suc k \<le> L \<longrightarrow> validNode L (Suc k) i \<longrightarrow> numberOfBlocks (agg L m (Suc k) i) =
        numberOfBlocks (agg L m k (leftChild i)) + numberOfBlocks (agg L m k (rightChild i))) \<and>
     (\<forall>i. mp i \<noteq> None \<longrightarrow> validNode L l i) \<and>
     (\<forall>i. l \<le> L \<longrightarrow> validNode L l i \<longrightarrow> width P l < cnt P V l i \<longrightarrow> mp i = Some True)"

definition partialLevel ::
  "('k, 'v) tparams \<Rightarrow> density \<Rightarrow> runtime \<Rightarrow> sdsView \<Rightarrow> nat \<Rightarrow> nat \<Rightarrow> brm \<Rightarrow> RebalancingNode list \<Rightarrow>
     (int \<times> bool) list \<Rightarrow> brm \<Rightarrow> RebalancingNode list \<Rightarrow> bool" where
  "partialLevel P dm R V L l m nodes done m' nodes' \<longleftrightarrow>
     brmLayout L m' \<and> bmInv R (nextLevelRecountingNodes m') \<and> nodesOk P dm V L m' nodes' \<and> set nodes \<subseteq> set nodes' \<and>
     (\<forall>k j. validNode L k j \<longrightarrow> numberOfBlocks (agg L m' k j) =
        (if k = l \<and> j \<in> fst ` set done then cnt P V l j else numberOfBlocks (agg L m k j))) \<and>
     (\<forall>j\<in>fst ` set done. cnt P V l j \<noteq> numberOfBlocks (agg L m l j) \<longrightarrow>
        bmLookup (nextLevelRecountingNodes m') (parent j) \<noteq> None) \<and>
     (\<forall>k. bmLookup (nextLevelRecountingNodes m') k \<noteq> None \<longrightarrow> validNode L (Suc l) k) \<and>
     (\<forall>node\<in>set nodes'. node \<in> set nodes \<or> (\<exists>j. (j, True) \<in> set done \<and> node = mkNode (int l) j)) \<and>
     (\<forall>k. bmLookup (nextLevelRecountingNodes m') k = Some True \<longrightarrow>
        bmLookup (nextLevelRecountingNodes m) k = Some True \<or> (\<exists>j. (j, True) \<in> set done \<and> k = parent j)) \<and>
     (\<forall>j. (j, True) \<in> set done \<longrightarrow>
        (if cnt P V l j \<le> thr P dm L l then mkNode (int l) j \<in> set nodes'
         else bmLookup (nextLevelRecountingNodes m') (parent j) = Some True))"

lemma partialLevel_step:
  assumes part: "partialLevel P dm R V L l m nodes done m' nodes'" and v: "validNode L l i" "l \<le> L"
    and new: "i \<notin> fst ` set done" and fits: "cnt P V l i \<le> width P l \<or> needs"
  shows "\<exists>m'' nodes''. updateNode P dm R i (int l) needs (cnt P V l i) (m', nodes') = Some (m'', nodes'') \<and>
     partialLevel P dm R V L l m nodes (done @ [(i, needs)]) m'' nodes''"
proof -
  have lay: "brmLayout L m'" "bmInv R (nextLevelRecountingNodes m')" "nodesOk P dm V L m' nodes'"
    using part by (simp_all add: partialLevel_def)
  let ?old = "bmLookup (nextLevelRecountingNodes m')"
  define over where "over \<longleftrightarrow> \<not> cnt P V l i \<le> thr P dm L l"
  from updateNode_ok [OF lay(1) v lay(2) fits lay(3)] obtain m'' nodes'' where u:
    "updateNode P dm R i (int l) needs (cnt P V l i) (m', nodes') = Some (m'', nodes'')"
    "brmLayout L m''" "bmInv R (nextLevelRecountingNodes m'')" "nodesOk P dm V L m'' nodes''" "set nodes' \<subseteq> set nodes''"
    "\<And>k j. validNode L k j \<Longrightarrow> numberOfBlocks (agg L m'' k j) =
        (if k = l \<and> j = i then cnt P V l i else numberOfBlocks (agg L m' k j))"
    "bmLookup (nextLevelRecountingNodes m'') =
          (if cnt P V l i \<noteq> numberOfBlocks (agg L m' l i) \<or> over
           then ?old(parent i \<mapsto> needs \<and> over \<or> ?old (parent i) = Some True) else ?old)"
    "needs \<and> \<not> over \<longrightarrow> mkNode (int l) i \<in> set nodes''" "\<forall>node\<in>set nodes''. node \<in> set nodes' \<or> needs \<and> node = mkNode (int l) i"
    unfolding Let_def over_def by blast
  let ?new = "bmLookup (nextLevelRecountingNodes m'')"
  have mono: "?old k \<noteq> None \<Longrightarrow> ?new k \<noteq> None" "?old k = Some True \<Longrightarrow> ?new k = Some True" for k
    by (auto simp: u(7))
  have same: "numberOfBlocks (agg L m' l i) = numberOfBlocks (agg L m l i)"
    using part v new by (auto simp: partialLevel_def)
  have "partialLevel P dm R V L l m nodes (done @ [(i, needs)]) m'' nodes''"
    unfolding partialLevel_def
  proof (intro conjI)
    show "\<forall>k j. validNode L k j \<longrightarrow> numberOfBlocks (agg L m'' k j) =
        (if k = l \<and> j \<in> fst ` set (done @ [(i, needs)]) then cnt P V l j else numberOfBlocks (agg L m k j))"
      using part by (auto simp: u(6) partialLevel_def)
    show "\<forall>j\<in>fst ` set (done @ [(i, needs)]). cnt P V l j \<noteq> numberOfBlocks (agg L m l j) \<longrightarrow> ?new (parent j) \<noteq> None"
    proof
      fix j assume j: "j \<in> fst ` set (done @ [(i, needs)])"
      show "cnt P V l j \<noteq> numberOfBlocks (agg L m l j) \<longrightarrow> ?new (parent j) \<noteq> None"
      proof (cases "j = i")
        case True
        then show ?thesis by (simp add: u(7) same)
      next
        case False
        then have "j \<in> fst ` set done" using j by auto
        then show ?thesis using part mono(1) unfolding partialLevel_def by blast
      qed
    qed
    show "\<forall>node\<in>set nodes''. node \<in> set nodes \<or> (\<exists>j. (j, True) \<in> set (done @ [(i, needs)]) \<and> node = mkNode (int l) j)"
    proof
      fix node assume "node \<in> set nodes''"
      then have "node \<in> set nodes' \<or> needs \<and> node = mkNode (int l) i" using u(9) by blast
      then show "node \<in> set nodes \<or> (\<exists>j. (j, True) \<in> set (done @ [(i, needs)]) \<and> node = mkNode (int l) j)"
        using part unfolding partialLevel_def by auto
    qed
    show "\<forall>k. ?new k = Some True \<longrightarrow> bmLookup (nextLevelRecountingNodes m) k = Some True \<or> (\<exists>j. (j, True) \<in> set (done @ [(i, needs)]) \<and> k = parent j)"
    proof (intro allI impI)
      fix k assume k: "?new k = Some True"
      have "?old k = Some True \<or> k = parent i \<and> needs" using k by (auto simp: u(7) split: if_splits)
      then show "bmLookup (nextLevelRecountingNodes m) k = Some True \<or> (\<exists>j. (j, True) \<in> set (done @ [(i, needs)]) \<and> k = parent j)"
        using part unfolding partialLevel_def by auto
    qed
    show "\<forall>k. ?new k \<noteq> None \<longrightarrow> validNode L (Suc l) k"
      using part validNode_parent [OF v] by (auto simp: u(7) partialLevel_def split: if_splits)
    show "\<forall>j. (j, True) \<in> set (done @ [(i, needs)]) \<longrightarrow>
        (if cnt P V l j \<le> thr P dm L l then mkNode (int l) j \<in> set nodes'' else ?new (parent j) = Some True)"
    proof (intro allI impI)
      fix j assume j: "(j, True) \<in> set (done @ [(i, needs)])"
      show "if cnt P V l j \<le> thr P dm L l then mkNode (int l) j \<in> set nodes'' else ?new (parent j) = Some True"
      proof (cases "(j, True) \<in> set done")
        case True
        then have "if cnt P V l j \<le> thr P dm L l then mkNode (int l) j \<in> set nodes' else ?old (parent j) = Some True"
          using part by (simp add: partialLevel_def)
        then show ?thesis using u(5) mono(2) by (auto split: if_splits)
      next
        case False
        then have "j = i" "needs" using j by auto
        then show ?thesis using u(7,8) by (auto simp: over_def)
      qed
    qed
    show "set nodes \<subseteq> set nodes''" using part u(5) by (auto simp: partialLevel_def)
  qed (rule u)+
  then show ?thesis using u(1) by blast
qed

lemma key_not_before: "distinct (map fst xs) \<Longrightarrow> p < length xs \<Longrightarrow> fst (xs ! p) \<notin> fst ` set (take p xs)"
proof -
  assume d: "distinct (map fst xs)" and p: "p < length xs"
  have "xs = take p xs @ xs ! p # drop (Suc p) xs" by (rule id_take_nth_drop [OF p])
  then have "distinct (map fst (take p xs @ xs ! p # drop (Suc p) xs))" using d by metis
  then show ?thesis by auto
qed

lemma level_fold:
  assumes l: "l \<le> L" and inv: "levelInv P V L m mp l" and nodes: "nodesOk P dm V L m nodes"
    and nxt: "bmInv R (nextLevelRecountingNodes m)" "\<forall>k. bmLookup (nextLevelRecountingNodes m) k \<noteq> None \<longrightarrow> validNode L (Suc l) k"
    and xs: "distinct (map fst xs)" "\<forall>(i, b)\<in>set xs. mp i = Some b"
    and g: "\<And>i m'. validNode L l i \<Longrightarrow> brmLayout L m' \<Longrightarrow> countsUpTo P V L m' l \<Longrightarrow> g i m' = Some (cnt P V l i)"
  shows "\<exists>m' nodes'. foldM (\<lambda>(i, needs) s. do { c \<leftarrow> g i (fst s); updateNode P dm R i (int l) needs c s }) xs (m, nodes) =
       Some (m', nodes') \<and> partialLevel P dm R V L l m nodes xs m' nodes'"
proof -
  let ?f = "\<lambda>(i, needs) s. do { c \<leftarrow> g i (fst s); updateNode P dm R i (int l) needs c s }"
  have "\<exists>s. foldM ?f xs (m, nodes) = Some s \<and> partialLevel P dm R V L l m nodes (take (length xs) xs) (fst s) (snd s)"
  proof (rule foldM_inv [where I = "\<lambda>p s. partialLevel P dm R V L l m nodes (take p xs) (fst s) (snd s)"])
    show "partialLevel P dm R V L l m nodes (take 0 xs) (fst (m, nodes)) (snd (m, nodes))"
      using inv nodes nxt by (simp add: partialLevel_def levelInv_def)
    fix p s assume p: "p < length xs" and part: "partialLevel P dm R V L l m nodes (take p xs) (fst s) (snd s)"
    obtain i needs where x: "xs ! p = (i, needs)" by (cases "xs ! p")
    have mp: "mp i = Some needs" using xs(2) nth_mem [OF p] by (auto simp: x)
    have v: "validNode L l i" using inv mp by (auto simp: levelInv_def)
    have new: "i \<notin> fst ` set (take p xs)"
      using key_not_before [OF xs(1) p] x by simp
    have fits: "cnt P V l i \<le> width P l \<or> needs" using inv v l mp by (force simp: levelInv_def)
    have "countsUpTo P V L (fst s) l" using part inv by (auto simp: partialLevel_def levelInv_def countsUpTo_def)
    then have "g i (fst s) = Some (cnt P V l i)" using g [OF v] part by (simp add: partialLevel_def)
    moreover obtain m'' nodes'' where "updateNode P dm R i (int l) needs (cnt P V l i) s = Some (m'', nodes'')"
      "partialLevel P dm R V L l m nodes (take p xs @ [(i, needs)]) m'' nodes''"
      using partialLevel_step [OF part v l new fits] by auto
    ultimately show "\<exists>t. ?f (xs ! p) s = Some t \<and> partialLevel P dm R V L l m nodes (take (Suc p) xs) (fst t) (snd t)"
      using p by (simp add: x take_Suc_conv_app_nth)
  qed
  then show ?thesis by auto
qed

lemma levelInv_Suc:
  assumes l: "l \<le> L" and inv: "levelInv P V L m mp l" and P: "0 < SegmentWidth P"
    and thr: "thr P dm L l \<le> width P l"
    and part: "partialLevel P dm R V L l m nodes xs m' nodes'" and xs: "\<forall>i b. mp i = Some b \<longrightarrow> (i, b) \<in> set xs"
  shows "levelInv P V L m' (bmLookup (nextLevelRecountingNodes m')) (Suc l)"
proof -
  let ?nx = "bmLookup (nextLevelRecountingNodes m')"
  have nb: "numberOfBlocks (agg L m' k j) = (if k = l \<and> j \<in> fst ` set xs then cnt P V l j else numberOfBlocks (agg L m k j))"
    if "validNode L k j" for k j using part that by (simp add: partialLevel_def)
  have atl: "numberOfBlocks (agg L m' l j) = cnt P V l j" if v: "validNode L l j" for j
  proof (cases "mp j")
    case None
    then show ?thesis using nb [OF v] inv v l by (simp add: levelInv_def)
  next
    case (Some b)
    then have "j \<in> fst ` set xs" using xs by force
    then show ?thesis using nb [OF v] by simp
  qed
  have changed: "?nx (parent j) \<noteq> None" if v: "validNode L l j" and ne: "numberOfBlocks (agg L m' l j) \<noteq> numberOfBlocks (agg L m l j)" for j
  proof -
    have "j \<in> fst ` set xs" using nb [OF v] ne by (auto split: if_splits)
    then show ?thesis using part ne atl [OF v] unfolding partialLevel_def by auto
  qed
  have above: "numberOfBlocks (agg L m' (Suc k) i) = numberOfBlocks (agg L m (Suc k) i)" if "l \<le> k" "validNode L (Suc k) i" for k i
    using nb [OF that(2)] that(1) by simp
  have up: "numberOfBlocks (agg L m (Suc k) i) = numberOfBlocks (agg L m k (leftChild i)) + numberOfBlocks (agg L m k (rightChild i))"
    if "l \<le> k" "Suc k \<le> L" "validNode L (Suc k) i" for k i using inv that by (simp add: levelInv_def)
  show ?thesis
    unfolding levelInv_def
  proof (intro conjI allI impI)
    show "brmLayout L m'" using part by (simp add: partialLevel_def)
    show "countsUpTo P V L m' (Suc l)"
      using inv nb atl unfolding countsUpTo_def levelInv_def cnt_def by (auto simp: less_Suc_eq)
    fix i assume i: "Suc l \<le> L" "validNode L (Suc l) i" "?nx i = None"
    note ch = validNode_children [OF i(2,1)]
    have i0: "0 \<le> i" using i(2) by (simp add: validNode_def)
    have "numberOfBlocks (agg L m' l (leftChild i)) = numberOfBlocks (agg L m l (leftChild i))"
      "numberOfBlocks (agg L m' l (rightChild i)) = numberOfBlocks (agg L m l (rightChild i))"
      using changed [OF ch(1)] changed [OF ch(2)] i(3) i0 by auto
    then show "numberOfBlocks (agg L m' (Suc l) i) = cnt P V (Suc l) i"
      using above [OF le_refl i(2)] up [OF le_refl i(1,2)] atl [OF ch(1)] atl [OF ch(2)] cnt_children [OF P, of V l i] by simp
  next
    fix k i assume k: "Suc l \<le> k" "Suc k \<le> L" "validNode L (Suc k) i"
    obtain k' where k': "k = Suc k'" "l \<le> k'" using k(1) by (cases k) auto
    show "numberOfBlocks (agg L m' (Suc k) i) =
        numberOfBlocks (agg L m' k (leftChild i)) + numberOfBlocks (agg L m' k (rightChild i))"
      using above [of k i] up [of k i] above [of k' "leftChild i"] above [of k' "rightChild i"]
        validNode_children [OF k(3,2)] k k' by simp
  next
    fix i assume "?nx i \<noteq> None"
    then show "validNode L (Suc l) i" using part by (simp add: partialLevel_def)
  next
    fix i assume i: "Suc l \<le> L" "validNode L (Suc l) i" "width P (Suc l) < cnt P V (Suc l) i"
    note ch = validNode_children [OF i(2,1)]
    have i0: "0 \<le> i" using i(2) by (simp add: validNode_def)
    have "width P (Suc l) = 2 * width P l" by (simp add: width_def)
    then have "width P l < cnt P V l (leftChild i) \<or> width P l < cnt P V l (rightChild i)"
      using i(3) cnt_children [OF P, of V l i] by linarith
    then obtain j where j: "validNode L l j" "width P l < cnt P V l j" "parent j = i" using ch i0 by auto
    then have "(j, True) \<in> set xs" using inv l xs by (auto simp: levelInv_def)
    then show "?nx i = Some True" using part j thr unfolding partialLevel_def by auto
  qed
qed

text \<open>A rebalancing node covers a segment when it is the segment's node or one of its ancestors.\<close>

definition covers :: "RebalancingNode \<Rightarrow> int \<Rightarrow> bool" where
  "covers node i \<longleftrightarrow> nodeIndex node = i div 2 ^ nat (nodeLevel node)"

definition pending :: "RebalancingNode list \<Rightarrow> (int \<rightharpoonup> bool) \<Rightarrow> int set \<Rightarrow> nat \<Rightarrow> bool" where
  "pending nodes mp flagged l \<longleftrightarrow>
     (\<forall>i\<in>flagged. (\<exists>node\<in>set nodes. covers node i) \<or> mp (i div 2 ^ l) = Some True)"

text \<open>Conversely, every selected node and every mark comes from a marked segment.\<close>

definition traced :: "RebalancingNode list \<Rightarrow> (int \<rightharpoonup> bool) \<Rightarrow> int set \<Rightarrow> nat \<Rightarrow> bool" where
  "traced nodes mp flagged l \<longleftrightarrow>
     (\<forall>k. mp k = Some True \<longrightarrow> (\<exists>i\<in>flagged. k = i div 2 ^ l)) \<and> (\<forall>node\<in>set nodes. \<exists>i\<in>flagged. covers node i)"

lemma parent_segment: "0 \<le> i \<Longrightarrow> parent (i div 2 ^ l) = i div 2 ^ Suc l"
  by (simp add: parent_def pos_imp_zdiv_nonneg_iff zdiv_zmult2_eq [symmetric] mult.commute)

lemma level_run:
  assumes l: "l \<le> L" and inv: "levelInv P V L m (bmLookup rec) l" and rec: "bmInv R rec" and R: "okRuntime R"
    and nodes: "nodesOk P dm V L m nodes" and P: "0 < SegmentWidth P" and thr: "thr P dm L l \<le> width P l"
    and nxt: "bmInv R (nextLevelRecountingNodes m)" "\<forall>k. bmLookup (nextLevelRecountingNodes m) k \<noteq> None \<longrightarrow> validNode L (Suc l) k"
    and g: "\<And>i m'. validNode L l i \<Longrightarrow> brmLayout L m' \<Longrightarrow> countsUpTo P V L m' l \<Longrightarrow> g i m' = Some (cnt P V l i)"
    and pend: "pending nodes (bmLookup rec) flagged l" "\<forall>i\<in>flagged. 0 \<le> i"
  shows "\<exists>m' nodes'. executeInParallel R rec (\<lambda>(i, needs) s. do { c \<leftarrow> g i (fst s); updateNode P dm R i (int l) needs c s }) (m, nodes) =
       Some (m', nodes') \<and> levelInv P V L m' (bmLookup (nextLevelRecountingNodes m')) (Suc l) \<and>
     bmInv R (nextLevelRecountingNodes m') \<and> nodesOk P dm V L m' nodes' \<and>
     pending nodes' (bmLookup (nextLevelRecountingNodes m')) flagged (Suc l) \<and>
     (\<forall>i\<in>flagged. (\<exists>node\<in>set nodes'. covers node i) \<or> thr P dm L l < cnt P V l (i div 2 ^ l)) \<and>
     (traced nodes (bmLookup rec) flagged l \<longrightarrow> (\<forall>k. bmLookup (nextLevelRecountingNodes m) k \<noteq> Some True) \<longrightarrow>
        traced nodes' (bmLookup (nextLevelRecountingNodes m')) flagged (Suc l))"
proof -
  let ?xs = "schedule R (bmEntries rec)"
  have xs: "distinct (map fst ?xs)" "set ?xs = set (bmEntries rec)"
    using R bmEntries_distinct [OF rec] by (auto simp: okRuntime_def)
  have ent: "(i, b) \<in> set ?xs \<longleftrightarrow> bmLookup rec i = Some b" for i b using bmEntries_lookup [OF rec] xs(2) by simp
  obtain m' nodes' where r: "foldM (\<lambda>(i, needs) s. do { c \<leftarrow> g i (fst s); updateNode P dm R i (int l) needs c s }) ?xs (m, nodes) =
       Some (m', nodes')" and part: "partialLevel P dm R V L l m nodes ?xs m' nodes'"
  proof -
    have "\<forall>(i, b)\<in>set ?xs. bmLookup rec i = Some b" using ent by auto
    from level_fold [OF l inv nodes nxt xs(1) this, of g] g show ?thesis using that by blast
  qed
  let ?nx = "bmLookup (nextLevelRecountingNodes m')"
  have cov: "(\<exists>node\<in>set nodes'. covers node i) \<or> ?nx (i div 2 ^ Suc l) = Some True \<and> thr P dm L l < cnt P V l (i div 2 ^ l)"
    if i: "i \<in> flagged" for i
  proof (cases "\<exists>node\<in>set nodes. covers node i")
    case True
    then show ?thesis using part by (auto simp: partialLevel_def)
  next
    case False
    let ?j = "i div 2 ^ l"
    have "(?j, True) \<in> set ?xs" using pend(1) i False ent unfolding pending_def by blast
    then have "if cnt P V l ?j \<le> thr P dm L l then mkNode (int l) ?j \<in> set nodes' else ?nx (parent ?j) = Some True"
      using part by (simp add: partialLevel_def)
    moreover have "covers (mkNode (int l) ?j) i" by (simp add: covers_def)
    moreover have "parent ?j = i div 2 ^ Suc l" using pend(2) i parent_segment by blast
    ultimately show ?thesis by (auto split: if_splits)
  qed
  have tr: "traced nodes' ?nx flagged (Suc l)"
    if t: "traced nodes (bmLookup rec) flagged l" and e: "\<forall>k. bmLookup (nextLevelRecountingNodes m) k \<noteq> Some True"
  proof -
    have seg: "\<exists>i\<in>flagged. j = i div 2 ^ l" if "(j, True) \<in> set ?xs" for j using t that ent by (auto simp: traced_def)
    have "\<exists>i\<in>flagged. k = i div 2 ^ Suc l" if k: "?nx k = Some True" for k
    proof -
      obtain j where "(j, True) \<in> set ?xs" "k = parent j" using part k e unfolding partialLevel_def by blast
      then show ?thesis using seg [of j] pend(2) parent_segment by blast
    qed
    moreover have "\<exists>i\<in>flagged. covers node i" if node: "node \<in> set nodes'" for node
    proof -
      have "node \<in> set nodes \<or> (\<exists>j. (j, True) \<in> set ?xs \<and> node = mkNode (int l) j)" using part node unfolding partialLevel_def by blast
      then show ?thesis using t seg by (auto simp: traced_def covers_def)
    qed
    ultimately show ?thesis by (simp add: traced_def)
  qed
  have "levelInv P V L m' ?nx (Suc l)"
    using levelInv_Suc [OF l inv P thr part] ent by simp
  moreover have "pending nodes' ?nx flagged (Suc l)" using cov by (auto simp: pending_def)
  ultimately show ?thesis
    using r part cov tr by (auto simp: executeInParallel_def bmEntries_def partialLevel_def)
qed

lemma levelInv_next [simp]:
  "levelInv P V L (m\<lparr>nextLevelRecountingNodes := x\<rparr>) mp l = levelInv P V L m mp l"
  "nodesOk P dm V L (m\<lparr>nextLevelRecountingNodes := x\<rparr>) nodes = nodesOk P dm V L m nodes"
  by (simp_all add: levelInv_def nodesOk_def brmLayout_def countsUpTo_def agg_def)

lemma updateLevelZero_count:
  assumes "okView V (max 1 (viewSize V))" "0 < SegmentWidth P" "validNode L 0 i"
  shows "aggregateNodeRangeLevelZero P V i = Some (cnt P V 0 i)"
proof -
  have "0 \<le> nodeStart P 0 i" using assms nodeStart_nonneg [of P i 0] by (simp add: validNode_def)
  then show ?thesis
    using countBlocks_ok [OF assms(1)] blocksIn_cut [OF assms(1)]
    by (simp add: aggregateNodeRangeLevelZero_def cnt_def nodeStart_zero)
qed

lemma higher_levels:
  assumes L: "0 < L" and R: "okRuntime R" and P: "0 < SegmentWidth P"
    and thr: "\<And>l. l \<le> L \<Longrightarrow> thr P dm L l \<le> width P l" and fl: "\<forall>i\<in>flagged. 0 \<le> i"
    and start: "levelInv P V L m (bmLookup (nextLevelRecountingNodes m)) 1" "bmInv R (nextLevelRecountingNodes m)" "bmInv R rec"
      "nodesOk P dm V L m nodes" "pending nodes (bmLookup (nextLevelRecountingNodes m)) flagged 1"
  shows "\<exists>m' rec' nodes'. for_range 1 (int L + 1)
         (\<lambda>level (m, recMap, nodes). do {
            let recMap' = nextLevelRecountingNodes m;
            let m = m\<lparr>nextLevelRecountingNodes := bmClear recMap\<rparr>;
            (m, nodes) \<leftarrow> updateHigherLevel P dm R recMap' level (m, nodes);
            Some (m, recMap', nodes) }) (m, rec, nodes) = Some (m', rec', nodes') \<and>
     levelInv P V L m' (bmLookup (nextLevelRecountingNodes m')) (Suc L) \<and>
     bmInv R (nextLevelRecountingNodes m') \<and> bmInv R rec' \<and> nodesOk P dm V L m' nodes' \<and>
     (\<forall>i\<in>flagged. (\<exists>node\<in>set nodes'. covers node i) \<or> thr P dm L L < cnt P V L (i div 2 ^ L)) \<and>
     (traced nodes (bmLookup (nextLevelRecountingNodes m)) flagged 1 \<longrightarrow> (\<forall>node\<in>set nodes'. \<exists>i\<in>flagged. covers node i))"
proof -
  define start_traced where "start_traced \<longleftrightarrow> traced nodes (bmLookup (nextLevelRecountingNodes m)) flagged 1"
  let ?f = "\<lambda>level (m, recMap, nodes). do {
            let recMap' = nextLevelRecountingNodes m;
            let m = m\<lparr>nextLevelRecountingNodes := bmClear recMap\<rparr>;
            (m, nodes) \<leftarrow> updateHigherLevel P dm R recMap' level (m, nodes);
            Some (m, recMap', nodes) }"
  define I where "I k s \<longleftrightarrow> (case s of (m, recMap, nodes) \<Rightarrow>
      levelInv P V L m (bmLookup (nextLevelRecountingNodes m)) (nat k) \<and> bmInv R (nextLevelRecountingNodes m) \<and>
      bmInv R recMap \<and> nodesOk P dm V L m nodes \<and> pending nodes (bmLookup (nextLevelRecountingNodes m)) flagged (nat k) \<and>
      (1 < k \<longrightarrow> (\<forall>i\<in>flagged. (\<exists>node\<in>set nodes. covers node i) \<or>
         thr P dm L (nat (k - 1)) < cnt P V (nat (k - 1)) (i div 2 ^ nat (k - 1)))) \<and>
      (start_traced \<longrightarrow> traced nodes (bmLookup (nextLevelRecountingNodes m)) flagged (nat k)))"
    for k :: int and s :: "brm \<times> BucketMap \<times> RebalancingNode list"
  have "\<exists>s. for_range 1 (int L + 1) ?f (m, rec, nodes) = Some s \<and> I (int L + 1) s"
  proof (rule for_range_inv)
    show "I 1 (m, rec, nodes)" using start by (simp add: I_def start_traced_def)
    fix k s assume k: "1 \<le> k" "k < int L + 1" and inv: "I k s"
    obtain m1 rec1 nodes1 where s: "s = (m1, rec1, nodes1)" by (cases s)
    define l where "l = nat (k - 1)"
    have kl: "k = int (Suc l)" "Suc l \<le> L" using k by (simp_all add: l_def)
    have nk: "nat k = Suc l" using k by (simp add: l_def)
    let ?next = "nextLevelRecountingNodes m1"
    let ?m = "m1\<lparr>nextLevelRecountingNodes := bmClear rec1\<rparr>"
    have i: "levelInv P V L ?m (bmLookup ?next) (Suc l)" "bmInv R ?next" "bmInv R rec1" "nodesOk P dm V L ?m nodes1"
      "pending nodes1 (bmLookup ?next) flagged (Suc l)" "start_traced \<longrightarrow> traced nodes1 (bmLookup ?next) flagged (Suc l)"
      using inv by (simp_all add: I_def s nk)
    have g: "aggregateNodeHigherLevel P m' i (int (Suc l)) = Some (cnt P V (Suc l) i)"
      if "validNode L (Suc l) i" "brmLayout L m'" "countsUpTo P V L m' (Suc l)" for i m'
      using higher_counts [OF that(2,1) kl(2) that(3) P] by (simp add: cnt_def)
    have clr: "bmInv R (nextLevelRecountingNodes ?m)"
      "\<forall>k. bmLookup (nextLevelRecountingNodes ?m) k \<noteq> None \<longrightarrow> validNode L (Suc (Suc l)) k"
      "\<forall>k. bmLookup (nextLevelRecountingNodes ?m) k \<noteq> Some True"
      using bmClear_ok [OF i(3)] by simp_all
    from level_run [where g = "\<lambda>i m. aggregateNodeHigherLevel P m i (int (Suc l))",
        OF kl(2) i(1,2) R i(4) P thr [OF kl(2)] clr(1,2) g i(5) fl]
    obtain m2 nodes2 where "updateHigherLevel P dm R ?next k (?m, nodes1) = Some (m2, nodes2)"
      "levelInv P V L m2 (bmLookup (nextLevelRecountingNodes m2)) (Suc (Suc l))" "bmInv R (nextLevelRecountingNodes m2)"
      "nodesOk P dm V L m2 nodes2" "pending nodes2 (bmLookup (nextLevelRecountingNodes m2)) flagged (Suc (Suc l))"
      "\<forall>i\<in>flagged. (\<exists>node\<in>set nodes2. covers node i) \<or> thr P dm L (Suc l) < cnt P V (Suc l) (i div 2 ^ Suc l)"
      "start_traced \<longrightarrow> traced nodes2 (bmLookup (nextLevelRecountingNodes m2)) flagged (Suc (Suc l))"
      using i(6) clr(3) unfolding updateHigherLevel_def kl(1) by blast
    moreover have "nat (k + 1) = Suc (Suc l)" "nat (k + 1 - 1) = Suc l" using kl by simp_all
    ultimately show "\<exists>t. ?f k s = Some t \<and> I (k + 1) t"
      using i(2) by (simp add: s I_def)
  qed simp
  then obtain m' rec' nodes' where "for_range 1 (int L + 1) ?f (m, rec, nodes) = Some (m', rec', nodes')"
    "I (int L + 1) (m', rec', nodes')" by auto
  moreover have "nat (int L + 1) = Suc L" by simp
  ultimately show ?thesis using L by (auto simp: I_def start_traced_def traced_def)
qed

text \<open>
  The whole update. The nodes in \<open>nodes'\<close> are to be rebalanced: each of level at most \<open>L\<close> has a count within
  its threshold, and the super root is among them when the root has more blocks than entries. Every
  segment marked for rebalancing is covered, unless the total lies between the threshold of the root
  and the number of entries below it.
\<close>

lemma brmUpdate_ok:
  assumes L: "0 < L" and R: "okRuntime R" and P: "0 < SegmentWidth P" "width P L \<le> 2 ^ 53" and dm: "density_manager dm"
    and V: "okView V (max 1 (viewSize V))"
    and inv: "levelInv P V L m (bmLookup rec) 0" "bmInv R rec" "bmInv R (nextLevelRecountingNodes m)"
      "\<forall>k. bmLookup (nextLevelRecountingNodes m) k \<noteq> None \<longrightarrow> validNode L 1 k" "nodesOk P dm V L m []"
  shows "\<exists>m' rec' nodes'. brmUpdate P dm R V m rec [] = Some (m', rec', nodes') \<and>
     brmLayout L m' \<and> consistent P V L m' \<and> bmInv R rec' \<and> bmInv R (nextLevelRecountingNodes m') \<and> distinct nodes' \<and>
     (\<forall>l i. validNode L l i \<longrightarrow> rebalanced (agg L m' l i) = (mkNode (int l) i \<in> set nodes')) \<and>
     (\<forall>node\<in>set nodes'. okNode L node \<and>
        (if nodeLevel node \<le> int L then cnt P V (nat (nodeLevel node)) (nodeIndex node) \<le> thr P dm L (nat (nodeLevel node))
         else width P L < cnt P V L 0)) \<and>
     (\<forall>i. bmLookup rec i = Some True \<longrightarrow>
        (\<exists>node\<in>set nodes'. covers node i) \<or> thr P dm L L < cnt P V L 0 \<and> cnt P V L 0 \<le> width P L) \<and>
     ((\<forall>k. bmLookup (nextLevelRecountingNodes m) k \<noteq> Some True) \<longrightarrow>
        (\<forall>node\<in>set nodes'. nodeLevel node \<le> int L \<longrightarrow> (\<exists>i. bmLookup rec i = Some True \<and> covers node i)))"
proof -
  have thr: "thr P dm L l \<le> width P l" if "l \<le> L" for l using thr_bounds [OF dm P(1) that L P(2)] by simp
  define flagged where "flagged = {i. bmLookup rec i = Some True}"
  have v0: "validNode L 0 i" if "bmLookup rec i \<noteq> None" for i using inv(1) that by (simp add: levelInv_def)
  then have fl: "\<forall>i\<in>flagged. 0 \<le> i \<and> i < 2 ^ L" by (force simp: flagged_def validNode_def)
  have "\<exists>m1 nodes1. updateLevelZero P dm R V rec (m, []) = Some (m1, nodes1) \<and>
     levelInv P V L m1 (bmLookup (nextLevelRecountingNodes m1)) (Suc 0) \<and>
     bmInv R (nextLevelRecountingNodes m1) \<and> nodesOk P dm V L m1 nodes1 \<and>
     pending nodes1 (bmLookup (nextLevelRecountingNodes m1)) flagged (Suc 0) \<and>
     (\<forall>i\<in>flagged. (\<exists>node\<in>set nodes1. covers node i) \<or> thr P dm L 0 < cnt P V 0 (i div 2 ^ 0)) \<and>
     ((\<forall>k. bmLookup (nextLevelRecountingNodes m) k \<noteq> Some True) \<longrightarrow> traced nodes1 (bmLookup (nextLevelRecountingNodes m1)) flagged (Suc 0))"
    unfolding updateLevelZero_def
    using level_run [OF _ inv(1,2) R inv(5) P(1) thr inv(3), of "\<lambda>i m. aggregateNodeRangeLevelZero P V i" flagged]
      updateLevelZero_count [OF V P(1)] fl inv(4) by (simp add: pending_def flagged_def traced_def)
  then obtain m1 nodes1 where r1: "updateLevelZero P dm R V rec (m, []) = Some (m1, nodes1)"
     "levelInv P V L m1 (bmLookup (nextLevelRecountingNodes m1)) 1"
     "bmInv R (nextLevelRecountingNodes m1)" "nodesOk P dm V L m1 nodes1"
     "pending nodes1 (bmLookup (nextLevelRecountingNodes m1)) flagged 1"
     "(\<forall>k. bmLookup (nextLevelRecountingNodes m) k \<noteq> Some True) \<longrightarrow> traced nodes1 (bmLookup (nextLevelRecountingNodes m1)) flagged 1" by auto
  have lc: "logCapacity m1 = int L" using r1(2) by (simp add: levelInv_def brmLayout_def)
  have fl0: "\<forall>i\<in>flagged. 0 \<le> i" using fl by simp
  from higher_levels [OF L R P(1) thr fl0 r1(2,3) inv(2) r1(4,5)] obtain m2 rec2 nodes2 where r2:
    "for_range 1 (logCapacity m1 + 1)
         (\<lambda>level (m, recMap, nodes). do {
            let recMap' = nextLevelRecountingNodes m;
            let m = m\<lparr>nextLevelRecountingNodes := bmClear recMap\<rparr>;
            (m, nodes) \<leftarrow> updateHigherLevel P dm R recMap' level (m, nodes);
            Some (m, recMap', nodes) }) (m1, rec, nodes1) = Some (m2, rec2, nodes2)"
     "levelInv P V L m2 (bmLookup (nextLevelRecountingNodes m2)) (Suc L)"
     "bmInv R (nextLevelRecountingNodes m2)" "bmInv R rec2" "nodesOk P dm V L m2 nodes2"
     "\<forall>i\<in>flagged. (\<exists>node\<in>set nodes2. covers node i) \<or> thr P dm L L < cnt P V L (i div 2 ^ L)"
     "(\<forall>k. bmLookup (nextLevelRecountingNodes m) k \<noteq> Some True) \<longrightarrow> (\<forall>node\<in>set nodes2. \<exists>i\<in>flagged. covers node i)"
    using r1(6) unfolding lc by blast
  have lay: "brmLayout L m2" and cons: "consistent P V L m2" using r2(2) by (simp_all add: levelInv_def consistent_def)
  have root: "aggregateAt P m2 0 (logCapacity m2) = Some (agg L m2 L 0)"
    and super: "aggregateAt P m2 0 (logCapacity m2 + 1) = Some (agg L m2 (Suc L) 0)"
    and wd: "idx (levelAggregateWidths m2) (logCapacity m2) = Some (2 ^ L)"
    using aggregateAt_ok [OF lay validNode_root(1)] aggregateAt_ok [OF lay validNode_root(2)] width_ok [OF lay le_refl]
    by (simp_all add: brmLayoutD(1) [OF lay] add.commute)
  have c: "numberOfBlocks (agg L m2 L 0) = cnt P V L 0" using consistent_count [OF cons validNode_root(1)] by (simp add: cnt_def)
  have flag: "i div 2 ^ L = 0" if "i \<in> flagged" for i using fl that by (simp add: div_pos_pos_trivial)
  have old: "okNode L node \<and> nodeLevel node \<le> int L \<and> cnt P V (nat (nodeLevel node)) (nodeIndex node) \<le> thr P dm L (nat (nodeLevel node))"
    if "node \<in> set nodes2" for node using r2(5) that by (auto simp: nodesOk_def okNode_def)
  have nosup: "mkNode (int (Suc L)) 0 \<notin> set nodes2" using old by fastforce
  then have sup: "\<not> rebalanced (agg L m2 (Suc L) 0)" using r2(5) by (simp add: nodesOk_def)
  have run: "brmUpdate P dm R V m rec [] =
     (if width P L < cnt P V L 0
      then do { m \<leftarrow> setAggregate P m2 0 (int (Suc L)) (\<lambda>e. e\<lparr>rebalanced := True\<rparr>);
                Some (m, rec2, nodes2 @ [mkNode (logCapacity m + 1) 0]) }
      else Some (m2, rec2, nodes2))"
    unfolding brmUpdate_def r1(1) Option.bind.bind_lunit prod.case r2(1)
    using root super wd c sup by (simp add: width_def brmLayoutD(1) [OF lay] add.commute)
  show ?thesis
  proof (cases "width P L < cnt P V L 0")
    case False
    then have "brmUpdate P dm R V m rec [] = Some (m2, rec2, nodes2)" using run by simp
    moreover have "\<forall>i. bmLookup rec i = Some True \<longrightarrow>
        (\<exists>node\<in>set nodes2. covers node i) \<or> thr P dm L L < cnt P V L 0 \<and> cnt P V L 0 \<le> width P L"
      using r2(6) flag False by (force simp: flagged_def)
    ultimately show ?thesis using lay cons r2(3-5,7) old by (auto simp: nodesOk_def flagged_def)
  next
    case True
    obtain m3 where m3: "setAggregate P m2 0 (int (Suc L)) (\<lambda>e. e\<lparr>rebalanced := True\<rparr>) = Some m3" "brmLayout L m3"
      "nextLevelRecountingNodes m3 = nextLevelRecountingNodes m2"
      "\<And>l j. validNode L l j \<Longrightarrow> agg L m3 l j = (if l = Suc L \<and> j = 0 then (agg L m2 (Suc L) 0)\<lparr>rebalanced := True\<rparr> else agg L m2 l j)"
      using setAggregate_ok [OF lay validNode_root(2), of P "\<lambda>e. e\<lparr>rebalanced := True\<rparr>"] by auto
    let ?s = "mkNode (int L + 1) 0"
    have run': "brmUpdate P dm R V m rec [] = Some (m3, rec2, nodes2 @ [?s])"
      using run True m3(1) by (simp add: brmLayoutD(1) [OF m3(2)])
    have cons3: "consistent P V L m3" using cons m3(4) by (auto simp: consistent_def countsUpTo_def)
    have flags: "rebalanced (agg L m3 l i) = (mkNode (int l) i \<in> set (nodes2 @ [?s]))" if "validNode L l i" for l i
    proof -
      have "mkNode (int l) i = ?s \<longleftrightarrow> l = Suc L \<and> i = 0" by (auto simp: mkNode_def)
      then show ?thesis using r2(5) m3(4) [OF that] that by (auto simp: nodesOk_def)
    qed
    have "okNode L ?s" by (simp add: okNode_def nat_add_distrib)
    moreover have "covers ?s i" if "i \<in> flagged" for i
      using fl that by (auto simp: covers_def nat_add_distrib intro!: div_pos_pos_trivial [symmetric])
    moreover have "distinct (nodes2 @ [?s])" using r2(5) nosup by (simp add: nodesOk_def add.commute)
    ultimately show ?thesis
      using run' m3(2,3) cons3 r2(3,4,7) flags old True by (intro exI [of _ m3] exI [of _ rec2] exI [of _ "nodes2 @ [?s]"])
        (auto simp: flagged_def)
  qed
qed

section \<open>Properties\<close>

text \<open>An array with a single block, at entry 3, in segments of two entries.\<close>

definition segParams :: "(nat, nat) tparams" where
  "segParams = \<lparr>NULL_KEY = 0, keyOfValue = id, defaultValue = 0, nullValue = Some 0, indeterminate = 9,
     MinSize = 2, MaxSize = 4, SegmentWidth = 2, NDEBUG = False\<rparr>"

definition oneBlockView :: sdsView where
  "oneBlockView = \<lparr>viewEmpty = (\<lambda>i. Some (i \<noteq> 3)), viewBuffer = (\<lambda>i. Some 0), viewSize = 4\<rparr>"

lemma oneBlockView_ok: "okView oneBlockView 4"
  by (simp add: okView_def oneBlockView_def)

lemma oneBlockView_blocks: "blocksIn oneBlockView a b = (if a \<le> 3 \<and> 3 < b then 1 else 0)"
proof -
  have "blk oneBlockView i = (if i = 3 then 1 else 0)" for i
    by (simp add: blk_def oneBlockView_def)
  then show ?thesis by (simp add: blocksIn_def)
qed

lemma segParams_W [simp]: "SegmentWidth segParams = 2"
  by (simp add: segParams_def)

lemma oneBlock_manager:
  "\<exists>m. newBrm segParams 0 t = Some m \<and> brmLayout 14 m \<and> nextLevelRecountingNodes m = newBucketMap t \<and>
    (\<forall>l i. validNode 14 l i \<longrightarrow> agg 14 m l i = emptyManagerEntry)"
  by (rule newBrm_ok) simp_all

text \<open>C23. In a hierarchy with the layout the manager builds, every node of every level, the super root included, has its
  own position inside the array of aggregates, so the index assertions of the manager never fail.\<close>

theorem aggregate_positions:
  assumes "brmLayout L m" "validNode L l i" "validNode L l' i'"
  shows "\<exists>p p'. aggregateIndex P m i (int l) = Some p \<and> aggregateIndex P m i' (int l') = Some p' \<and>
     0 \<le> p \<and> p < int (length (aggregates m)) \<and> (p = p' \<longleftrightarrow> l = l' \<and> i = i')"
proof -
  have l: "l \<le> L + 1" "l' \<le> L + 1" "0 \<le> i" using assms by (auto simp: validNode_def)
  have bounds: "0 \<le> levelStart L l + i" "levelStart L l + i < int (length (aggregates m))"
    using l(3) level_end(1) [OF assms(2)] levelStart_nonneg [of L l] brmLayoutD(6) [OF assms(1)] by simp_all
  show ?thesis
    using aggregateIndex_ok [OF assms(1) l(1)] aggregateIndex_ok [OF assms(1) l(2)] bounds
      level_injective [OF assms(2,3)] by blast
qed

theorem aggregate_positions_witness:
  "\<exists>m p. newBrm segParams 0 1 = Some m \<and> aggregateIndex segParams m 0 15 = Some p \<and> 0 \<le> p \<and> p < int (length (aggregates m))"
proof -
  obtain m where m: "newBrm segParams 0 1 = Some m" "brmLayout 14 m" using oneBlock_manager [of 1] by blast
  have "validNode 14 15 0" by (simp add: validNode_def)
  then show ?thesis using aggregate_positions [OF m(2), of 15 0 15 0 segParams] m(1) by auto
qed



text \<open>C21. \<open>recompute\<close> makes every counter the number of blocks below its node, in the array and in the buffer, and
  changes no rebalancing flag.\<close>

theorem recompute_counts:
  assumes "brmLayout L m" "okView V n" "0 < SegmentWidth P"
  shows "\<exists>m'. recompute P V m n = Some m' \<and> brmLayout L m' \<and>
     (\<forall>l i. l \<le> L \<longrightarrow> validNode L l i \<longrightarrow>
        numberOfBlocks (agg L m' l i) = blocksIn V (nodeStart P l i) (nodeStart P l (i + 1)) \<and>
        rebalanced (agg L m' l i) = rebalanced (agg L m l i))"
  using recompute_ok [OF assms] by (auto simp: consistent_def countsUpTo_def sameFlags_def)

theorem recompute_counts_witness:
  "\<exists>m m'. newBrm segParams 0 1 = Some m \<and> recompute segParams oneBlockView m 4 = Some m' \<and>
     numberOfBlocks (agg 14 m' 0 1) = 1 \<and> numberOfBlocks (agg 14 m' 14 0) = 1"
proof -
  obtain m where m: "newBrm segParams 0 1 = Some m" "brmLayout 14 m" using oneBlock_manager [of 1] by blast
  have "validNode 14 0 1" "validNode 14 14 0" by (simp_all add: validNode_def)
  then show ?thesis
    using recompute_counts [OF m(2) oneBlockView_ok, of segParams] m(1)
    by (force simp: oneBlockView_blocks nodeStart_def)
qed

text \<open>C8. \<open>update\<close> brings all counters up to date from the segments in the recounting map, without failing an
  assertion and in whatever order the parallel loops run. The nodes it selects for rebalancing have the
  flags set and nothing else has, each can hold its blocks, and each segment marked for rebalancing is
  covered by one of them, except when the total lies above the root's threshold but still fits below
  the root: then neither the root nor the super root is selected.\<close>

theorem update_counts_and_covers:
  assumes "0 < L" "okRuntime R" "0 < SegmentWidth P" "width P L \<le> 2 ^ 53" "density_manager dm"
    and "okView V (max 1 (viewSize V))"
    and "levelInv P V L m (bmLookup rec) 0" "bmInv R rec" "bmInv R (nextLevelRecountingNodes m)"
    and "\<forall>k. bmLookup (nextLevelRecountingNodes m) k \<noteq> None \<longrightarrow> validNode L 1 k" "nodesOk P dm V L m []"
  shows "\<exists>m' rec' nodes'. brmUpdate P dm R V m rec [] = Some (m', rec', nodes') \<and>
     brmLayout L m' \<and> consistent P V L m' \<and> distinct nodes' \<and>
     (\<forall>l i. validNode L l i \<longrightarrow> rebalanced (agg L m' l i) = (mkNode (int l) i \<in> set nodes')) \<and>
     (\<forall>node\<in>set nodes'. okNode L node \<and>
        (if nodeLevel node \<le> int L then cnt P V (nat (nodeLevel node)) (nodeIndex node) \<le> thr P dm L (nat (nodeLevel node))
         else width P L < cnt P V L 0)) \<and>
     (\<forall>i. bmLookup rec i = Some True \<longrightarrow>
        (\<exists>node\<in>set nodes'. covers node i) \<or> thr P dm L L < cnt P V L 0 \<and> cnt P V L 0 \<le> width P L)"
  using brmUpdate_ok [OF assms] by blast

theorem update_counts_and_covers_witness:
  "\<exists>m rec m' rec' nodes'. newBrm segParams 0 1 = Some m \<and> bmInsert demoRuntime (1, True) (newBucketMap 1) = Some rec \<and>
     brmUpdate segParams DensityThree demoRuntime oneBlockView m rec [] = Some (m', rec', nodes') \<and>
     consistent segParams oneBlockView 14 m'"
proof -
  obtain m where m: "newBrm segParams 0 1 = Some m" "brmLayout 14 m" "nextLevelRecountingNodes m = newBucketMap 1"
    "\<forall>l i. validNode 14 l i \<longrightarrow> agg 14 m l i = emptyManagerEntry" using oneBlock_manager [of 1] by blast
  obtain rec where rec: "bmInsert demoRuntime (1, True) (newBucketMap 1) = Some rec" "bmInv demoRuntime rec"
    "bmLookup rec = [1 \<mapsto> True]"
    using bmInsert_ok [of demoRuntime "newBucketMap 1" 1 True] bmInv_new [of 1 demoRuntime] by auto
  have run: "okRuntime demoRuntime" by (auto simp: okRuntime_def demoRuntime_def rev_map [symmetric])
  have children: "validNode 14 k (leftChild i) \<and> validNode 14 k (rightChild i)" if "validNode 14 (Suc k) i" "Suc k \<le> 14" for k i
    using validNode_children [OF that] by simp
  have c0: "cnt segParams oneBlockView 0 i = (if i = 1 then 1 else 0)" for i
    by (auto simp: cnt_def nodeStart_def oneBlockView_blocks)
  have lev: "levelInv segParams oneBlockView 14 m (bmLookup rec) 0"
    using m(2,4) children
    by (auto simp: levelInv_def rec(3) countsUpTo_def c0 emptyManagerEntry_def width_def) (simp add: validNode_def)
  have nds: "nodesOk segParams DensityThree oneBlockView 14 m []" using m(4) by (simp add: nodesOk_def emptyManagerEntry_def)
  have W: "width segParams 14 \<le> 2 ^ 53" by (simp add: width_def)
  have V: "okView oneBlockView (max 1 (viewSize oneBlockView))" using oneBlockView_ok by (simp add: oneBlockView_def)
  have nx: "bmInv demoRuntime (nextLevelRecountingNodes m)" "bmLookup (nextLevelRecountingNodes m) = Map.empty"
    using m(3) bmInv_new [of 1 demoRuntime] by simp_all
  show ?thesis
    using update_counts_and_covers [OF _ run _ W densityThree.density_manager_axioms V lev rec(2) nx(1) _ nds] m(1) rec(1) nx(2)
    by fastforce
qed

end
