(* ===== verification/Sds_State.thy ===== *)
theory Sds_State
  imports Block Rebalancing
begin

text \<open>
  The state of \<open>BatchedSparseArray\<close> (\<open>dataStructures/batchedSparseArray.hpp\<close>) and the operations on
  its single parts: construction, access to entries, growing the arrays, writing blocks to the
  buffer, write indices, counting and the validation routines.

  The arrays behind \<open>unique_ptr\<close> are lists of entries; \<open>tasks\<close> is the fixed array of
  \<open>MaxNumberOfThreads + 1\<close> task descriptions. The parts that only exist for profiling and debug
  output are left out; \<open>bufferWrites\<close> and \<open>bufferReads\<close>, which only debug builds have, are counted in
  every build.
\<close>

section \<open>State\<close>

record ('k, 'v) sds =
  sdsCapacity :: int
  swapCapacity :: int
  bufferCapacity :: int
  sdsSize :: int
  pma :: "('k, 'v) PmaEntry list"
  swapPma :: "('k, 'v) PmaEntry list"
  bufferArray :: "('k, 'v) PmaEntry list"
  bufferPointers :: "Interval list"
  rebalancingManager :: brm
  rebalancingNodes :: "RebalancingNode list"
  recountingNodesMap :: BucketMap
  rebalancingTasks :: "RebalancingTask list"
  prefixNumberOfRebalancingBlocks :: "int list"
  tasks :: "TaskInfo list"
  numberOfThreads :: nat
  bufferWrites :: int
  bufferReads :: int

definition InitialArrayCapacity :: int where "InitialArrayCapacity = 2 ^ 12"

definition BinarySearchCutoff :: int where "BinarySearchCutoff = 100"

text \<open>\<open>std::make_unique<PmaEntryType[]>(n)\<close> and \<open>std::make_unique<Interval[]>(n)\<close>\<close>

definition makeEntries :: "('k, 'v) tparams \<Rightarrow> int \<Rightarrow> ('k, 'v) PmaEntry list" where
  "makeEntries P n = replicate (nat n) (emptyEntry P)"

definition makePointers :: "int \<Rightarrow> Interval list" where
  "makePointers n = replicate (nat n) emptyInterval"

text \<open>
  The constructor. The task descriptions are not initialised by the code; \<open>garbage\<close> is what they hold.
\<close>

definition newSds ::
  "('k, 'v) tparams \<Rightarrow> TaskInfo list \<Rightarrow> nat \<Rightarrow> ('k, 'v) sds option" where
  "newSds P garbage numThreads = do {
     m \<leftarrow> newBrm P 0 numThreads;
     Some \<lparr>sdsCapacity = InitialArrayCapacity, swapCapacity = InitialArrayCapacity,
       bufferCapacity = InitialArrayCapacity, sdsSize = 0,
       pma = makeEntries P InitialArrayCapacity, swapPma = makeEntries P InitialArrayCapacity,
       bufferArray = makeEntries P InitialArrayCapacity, bufferPointers = makePointers InitialArrayCapacity,
       rebalancingManager = m, rebalancingNodes = [], recountingNodesMap = newBucketMap numThreads,
       rebalancingTasks = [], prefixNumberOfRebalancingBlocks = [], tasks = garbage,
       numberOfThreads = numThreads, bufferWrites = 0, bufferReads = 0\<rparr> }"

text \<open>The destructor deletes the blocks of all entries up to the size.\<close>

definition destroySds :: "('k, 'v) tparams \<Rightarrow> ('k, 'v) sds \<Rightarrow> ('k, 'v) sds option" where
  "destroySds P S = for_range 0 (sdsSize S)
     (\<lambda>i S. do {
        b \<leftarrow> idx (pma S) i;
        if \<not> isEmpty b
        then do { b \<leftarrow> deleteBlock P b; p \<leftarrow> upd (pma S) i b; Some (S\<lparr>pma := p\<rparr>) }
        else Some S }) S"

section \<open>Access to entries\<close>

definition headAt :: "('k, 'v) sds \<Rightarrow> int \<Rightarrow> 'k option" where
  "headAt S index = do { b \<leftarrow> idx (pma S) index; Some (head b) }"

definition blockSizeAt :: "('k, 'v) sds \<Rightarrow> int \<Rightarrow> nat option" where
  "blockSizeAt S index = do { b \<leftarrow> idx (pma S) index; Some (bsize b) }"

definition emptyAt :: "('k, 'v) tparams \<Rightarrow> ('k, 'v) sds \<Rightarrow> int \<Rightarrow> bool option" where
  "emptyAt P S index =
     (if index \<ge> sdsSize S then Some True
      else do {
        b \<leftarrow> idx (pma S) index;
        assertMsg (NDEBUG P) ((head b = NULL_KEY P) = isEmpty b);
        assertMsg (NDEBUG P) ((head b = NULL_KEY P) = (bsize b = 0));
        Some (head b = NULL_KEY P) })"

definition numberOfBufferBlocks :: "('k, 'v) sds \<Rightarrow> int \<Rightarrow> int option" where
  "numberOfBufferBlocks S index =
     (if index \<ge> sdsCapacity S then Some 0
      else do { iv \<leftarrow> idx (bufferPointers S) index; Some (intervalLength iv) })"

text \<open>What the rebalancing manager sees of the array through its pointer \<open>sds\<close>.\<close>

definition viewOf :: "('k, 'v) tparams \<Rightarrow> ('k, 'v) sds \<Rightarrow> sdsView" where
  "viewOf P S = \<lparr>viewEmpty = emptyAt P S, viewBuffer = numberOfBufferBlocks S, viewSize = sdsSize S\<rparr>"

definition getBlockSize :: "('k, 'v) tparams \<Rightarrow> nat" where
  "getBlockSize P = MaxSize P"

definition getSegmentSize :: "('k, 'v) tparams \<Rightarrow> int" where
  "getSegmentSize P = SegmentWidth P"

section \<open>Write indices and growing arrays\<close>

definition getDenseWriteIndex :: "int \<Rightarrow> int \<Rightarrow> int" where
  "getDenseWriteIndex outputStart blockNumber = outputStart + blockNumber"

definition getUniformWriteIndex :: "int \<Rightarrow> int \<Rightarrow> int \<Rightarrow> int \<Rightarrow> int option" where
  "getUniformWriteIndex outputStart blockNumber outputLength nBlocks =
     (if nBlocks = 0 then None
      else Some (outputStart + cdiv (blockNumber * outputLength) nBlocks))"

definition getRequiredWidth :: "int \<Rightarrow> int" where
  "getRequiredWidth numberOfNewElements = 2 * numberOfNewElements"

definition maxRedistributionWidth :: "('k, 'v) tparams \<Rightarrow> int \<Rightarrow> int \<Rightarrow> int option" where
  "maxRedistributionWidth P numberOfElements newElements = do {
     assertMsg (NDEBUG P) (numberOfElements \<ge> 0 \<and> newElements \<ge> 0);
     let newNumberOfElements = numberOfElements + newElements;
     Some (if newNumberOfElements = 0 then 0 else cdiv newNumberOfElements (int (MinSize P)) + 1) }"

text \<open>The loop \<open>while (capacity <= newSize) capacity *= 2\<close>.\<close>

partial_function (option) doubleCapacity :: "int \<Rightarrow> int \<Rightarrow> int option" where
  "doubleCapacity capacity newSize =
     (if capacity \<le> newSize then doubleCapacity (capacity * 2) newSize else Some capacity)"

declare doubleCapacity.simps [code]

lemma doubleCapacity_ok: "0 < c \<Longrightarrow> \<exists>c'. doubleCapacity c n = Some c' \<and> n < c' \<and> c dvd c' \<and> 0 < c'"
proof (induction "nat (n + 1 - c)" arbitrary: c rule: less_induct)
  case less
  show ?case
  proof (cases "c \<le> n")
    case True
    have "nat (n + 1 - c * 2) < nat (n + 1 - c)" using True less(2) by linarith
    then obtain c' where "doubleCapacity (c * 2) n = Some c'" "n < c'" "c * 2 dvd c'" "0 < c'" using less(1) [of "c * 2"] less(2) by auto
    then show ?thesis using True by (subst doubleCapacity.simps) (auto intro: dvd_mult_left)
  next
    case False
    then show ?thesis using less(2) by (subst doubleCapacity.simps) auto
  qed
qed

definition resizeMainPma :: "('k, 'v) tparams \<Rightarrow> int \<Rightarrow> ('k, 'v) sds \<Rightarrow> ('k, 'v) sds" where
  "resizeMainPma P newSize S =
     (let S = S\<lparr>sdsSize := newSize\<rparr>
      in if swapCapacity S \<noteq> sdsCapacity S
         then S\<lparr>pma := makeEntries P (swapCapacity S), bufferPointers := makePointers (swapCapacity S),
                sdsCapacity := swapCapacity S\<rparr>
         else S)"

definition increaseBufferArraySize :: "('k, 'v) tparams \<Rightarrow> int \<Rightarrow> ('k, 'v) sds \<Rightarrow> ('k, 'v) sds option" where
  "increaseBufferArraySize P newSize S =
     (if newSize \<ge> bufferCapacity S
      then do {
        c \<leftarrow> doubleCapacity (bufferCapacity S) newSize;
        Some (S\<lparr>bufferCapacity := c, bufferArray := makeEntries P c\<rparr>) }
      else Some S)"

definition increaseSwapPmaSize :: "('k, 'v) tparams \<Rightarrow> int \<Rightarrow> ('k, 'v) sds \<Rightarrow> ('k, 'v) sds option" where
  "increaseSwapPmaSize P newSize S =
     (if newSize \<ge> swapCapacity S
      then do {
        c \<leftarrow> doubleCapacity (swapCapacity S) newSize;
        Some (S\<lparr>swapCapacity := c, swapPma := makeEntries P c\<rparr>) }
      else Some S)"

definition addRecountingNode ::
  "('k, 'v) tparams \<Rightarrow> runtime \<Rightarrow> int \<Rightarrow> bool \<Rightarrow> ('k, 'v) sds \<Rightarrow> ('k, 'v) sds option" where
  "addRecountingNode P R blockIndex needsRebalancing S = do {
     let recountingNodeIndex = lowestLevelNodeIndex P blockIndex;
     bm \<leftarrow> bmInsert R (recountingNodeIndex, needsRebalancing) (recountingNodesMap S);
     Some (S\<lparr>recountingNodesMap := bm\<rparr>) }"

definition writeToBufferArray ::
  "('k, 'v) tparams \<Rightarrow> runtime \<Rightarrow> ('k, 'v) PmaEntry \<Rightarrow> Interval \<Rightarrow> int \<Rightarrow> int \<Rightarrow>
     ('k, 'v) sds \<Rightarrow> ('k, 'v) sds option" where
  "writeToBufferArray P R b outputRange blockNumber originBlock S = do {
     assertMsg (NDEBUG P) (\<not> isEmpty b);
     assertMsg (NDEBUG P) (bsize b \<le> MaxSize P \<and> bsize b \<ge> MinSize P);
     let writeIndex = getDenseWriteIndex (ileft outputRange) blockNumber;
     assertMsg (NDEBUG P) (writeIndex < iright outputRange);
     assertMsg (NDEBUG P) (writeIndex < bufferCapacity S);
     old \<leftarrow> idx (bufferArray S) writeIndex;
     assertMsg (NDEBUG P) (block old = None);
     buf \<leftarrow> upd (bufferArray S) writeIndex b;
     S \<leftarrow> addRecountingNode P R originBlock True (S\<lparr>bufferArray := buf\<rparr>);
     Some (S\<lparr>bufferWrites := bufferWrites S + 1\<rparr>) }"

section \<open>Counting and validation\<close>

definition sdsNumberOfElements :: "('k, 'v) tparams \<Rightarrow> ('k, 'v) sds \<Rightarrow> int option" where
  "sdsNumberOfElements P S = for_range 0 (sdsCapacity S)
     (\<lambda>i n. do {
        e \<leftarrow> emptyAt P S i;
        if \<not> e then do { s \<leftarrow> blockSizeAt S i; Some (n + int s) } else Some n }) 0"

definition sdsNumberOfBlocks :: "('k, 'v) tparams \<Rightarrow> ('k, 'v) sds \<Rightarrow> int option" where
  "sdsNumberOfBlocks P S = for_range 0 (sdsCapacity S)
     (\<lambda>i n. do { e \<leftarrow> emptyAt P S i; Some (if \<not> e then n + 1 else n) }) 0"

text \<open>
  The loop of \<open>batchSorted\<close>; the state is \<^const>\<open>None\<close> once the function has returned false.
\<close>

definition batchSorted :: "('k::linorder, 'v) tparams \<Rightarrow> 'v list \<Rightarrow> int \<Rightarrow> bool option" where
  "batchSorted P batch batchSize = do {
     r \<leftarrow> for_range 0 batchSize
       (\<lambda>i s. case s of
          None \<Rightarrow> Some None
        | Some previous \<Rightarrow> do {
            v \<leftarrow> idx batch i;
            Some (if keyOfValue P v < previous then None else Some (keyOfValue P v)) }) (Some (NULL_KEY P));
     Some (r \<noteq> None) }"

text \<open>\<open>std::unique\<close> with equality of keys: the first element of every run of equal keys is kept.\<close>

fun uniqueByKey :: "('v \<Rightarrow> 'k) \<Rightarrow> 'v list \<Rightarrow> 'v list" where
  "uniqueByKey kf [] = []"
| "uniqueByKey kf [x] = [x]"
| "uniqueByKey kf (x # y # xs) = (if kf x = kf y then uniqueByKey kf (x # xs) else x # uniqueByKey kf (y # xs))"

definition deduplicate :: "('k, 'v) tparams \<Rightarrow> 'v list \<Rightarrow> int \<Rightarrow> ('v list \<times> int) option" where
  "deduplicate P batch batchSize =
     (if 0 \<le> batchSize \<and> batchSize \<le> int (length batch)
      then let newBatch = uniqueByKey (keyOfValue P) (take (nat batchSize) batch)
           in Some (newBatch, int (length newBatch))
      else None)"

text \<open>
  The checks that \<open>isValid\<close> performs for every block. The state is \<^term>\<open>Some (currentHead, currentElement)\<close>,
  or \<^const>\<open>None\<close> once the validation has returned false. Where the code asserts false before it
  returns, \<open>reject\<close> does.
\<close>

definition reject :: "('k, 'v) tparams \<Rightarrow> ('k \<times> 'k) option option" where
  "reject P = do { assertMsg (NDEBUG P) False; Some None }"

definition checkElements ::
  "('k::linorder, 'v) tparams \<Rightarrow> ('k, 'v) PmaEntry \<Rightarrow> 'k \<Rightarrow> 'k \<Rightarrow> ('k \<times> 'k) option option" where
  "checkElements P b currentHead currentElement = foldM
     (\<lambda>j s. case s of
        None \<Rightarrow> Some None
      | Some (h, el) \<Rightarrow> do {
          v \<leftarrow> get b j;
          let element = keyOfValue P v;
          if element < el \<or> element = el then reject P else Some (Some (h, element)) })
     [0..<bsize b] (Some (currentHead, currentElement))"

definition checkHeadAndElements ::
  "('k::linorder, 'v) tparams \<Rightarrow> ('k, 'v) PmaEntry \<Rightarrow> 'k \<Rightarrow> 'k \<Rightarrow> ('k \<times> 'k) option option" where
  "checkHeadAndElements P b currentHead currentElement =
     (if head b < currentHead \<or> head b = currentHead then reject P
      else do {
        v \<leftarrow> get b 0;
        if head b \<noteq> keyOfValue P v then reject P
        else checkElements P b (head b) currentElement })"

definition checkBufferEntry ::
  "('k::linorder, 'v) tparams \<Rightarrow> ('k, 'v) PmaEntry \<Rightarrow> ('k \<times> 'k) option \<Rightarrow> ('k \<times> 'k) option option" where
  "checkBufferEntry P b s =
     (case s of
        None \<Rightarrow> Some None
      | Some (currentHead, currentElement) \<Rightarrow>
          if bsize b \<noteq> 0
          then if bsize b > MaxSize P \<or> bsize b < MinSize P then Some None
               else checkHeadAndElements P b currentHead currentElement
          else do {
            assertMsg (NDEBUG P) (isEmpty b \<and> bsize b = 0);
            if \<not> isEmpty b \<or> bsize b \<noteq> 0 then Some None else Some (Some (currentHead, currentElement)) })"

definition checkPmaEntry ::
  "('k::linorder, 'v) tparams \<Rightarrow> ('k, 'v) sds \<Rightarrow> int \<Rightarrow> ('k \<times> 'k) option \<Rightarrow> ('k \<times> 'k) option option" where
  "checkPmaEntry P S i s =
     (case s of
        None \<Rightarrow> Some None
      | Some (currentHead, currentElement) \<Rightarrow> do {
          e \<leftarrow> emptyAt P S i;
          b \<leftarrow> idx (pma S) i;
          if \<not> e
          then do {
            assertMsg (NDEBUG P) (bsize b \<le> MaxSize P);
            assertMsg (NDEBUG P) (bsize b \<ge> MinSize P);
            if bsize b > MaxSize P \<or> bsize b < MinSize P then Some None
            else checkHeadAndElements P b currentHead currentElement }
          else do {
            assertMsg (NDEBUG P) (isEmpty b \<and> bsize b = 0);
            if \<not> isEmpty b \<or> bsize b \<noteq> 0 then Some None else Some (Some (currentHead, currentElement)) } })"

definition isValid :: "('k::linorder, 'v) tparams \<Rightarrow> ('k, 'v) sds \<Rightarrow> bool option" where
  "isValid P S = do {
     r \<leftarrow> for_range 0 (sdsCapacity S)
       (\<lambda>i s. do {
          s \<leftarrow> checkPmaEntry P S i s;
          if s = None then Some None
          else do {
            iv \<leftarrow> idx (bufferPointers S) i;
            for_range (ileft iv) (iright iv)
              (\<lambda>j s. if s = None then Some None
                     else do { b \<leftarrow> idx (bufferArray S) j; checkBufferEntry P b s }) s } })
       (Some (NULL_KEY P, NULL_KEY P));
     Some (r \<noteq> None) }"

text \<open>\<open>validateSwapPma\<close> has the same checks for the entries of the swap array, without the sizes.\<close>

definition validateSwapPma :: "('k::linorder, 'v) tparams \<Rightarrow> ('k, 'v) sds \<Rightarrow> bool option" where
  "validateSwapPma P S = do {
     r \<leftarrow> for_range 0 (sdsCapacity S)
       (\<lambda>i s. case s of
          None \<Rightarrow> Some None
        | Some (currentHead, currentElement) \<Rightarrow> do {
            b \<leftarrow> idx (swapPma S) i;
            if block b \<noteq> None
            then checkHeadAndElements P b currentHead currentElement
            else do {
              assertMsg (NDEBUG P) (block b = None \<and> bsize b = 0);
              if block b \<noteq> None \<or> bsize b \<noteq> 0 then Some None else Some (Some (currentHead, currentElement)) } })
       (Some (NULL_KEY P, NULL_KEY P));
     Some (r \<noteq> None) }"

definition validateTaskDistribution :: "('k, 'v) tparams \<Rightarrow> ('k, 'v) sds \<Rightarrow> int \<Rightarrow> bool \<Rightarrow> unit option" where
  "validateTaskDistribution P S batchSize isInPlace = do {
     t0 \<leftarrow> nth_opt (tasks S) 0;
     assertMsg (NDEBUG P) (firstBatchElement t0 = 0);
     foldM (\<lambda>thread u. do {
         t \<leftarrow> nth_opt (tasks S) thread;
         if \<not> isInPlace \<and> taskType t = INVERSE_MERGE
         then do {
           assertMsg (NDEBUG P) (mergedTasks t < numberOfThreads S);
           assertMsg (NDEBUG P) (mergedTaskIndex t < mergedTasks t) }
         else Some () }) [0..<numberOfThreads S + 1] ();
     tn \<leftarrow> nth_opt (tasks S) (numberOfThreads S);
     assertMsg (NDEBUG P) (firstBatchElement tn = batchSize);
     assertMsg (NDEBUG P) (blockForBatchSplitter tn = sdsSize S) }"

end
