(* ===== verification/Search.thy ===== *)
theory Search
  imports Sds_State
begin

text \<open>
  The search routines of \<open>BatchedSparseArray\<close>: the scans over empty entries, the linear, binary and
  exponential search for the block an element belongs to, and the searches in the batch.

  \<open>OverallocatedBatchedSparseArray\<close> has the same routines, so they are stated over what they read of
  the array (\<open>arrayView\<close>): its entries, the function \<open>empty\<close> and its size. The second part proves them
  correct for every array with sorted heads, in the locale \<open>sorted_heads\<close>.
\<close>

section \<open>Search routines\<close>

record ('k, 'v) arrayView =
  avEmpty :: "int \<Rightarrow> bool option"
  avEntry :: "int \<Rightarrow> ('k, 'v) PmaEntry option"
  avSize :: int

definition avHead :: "('k, 'v) arrayView \<Rightarrow> int \<Rightarrow> 'k option" where
  "avHead A index = do { b \<leftarrow> avEntry A index; Some (head b) }"

definition avBlockSize :: "('k, 'v) arrayView \<Rightarrow> int \<Rightarrow> nat option" where
  "avBlockSize A index = do { b \<leftarrow> avEntry A index; Some (bsize b) }"

text \<open>The loops \<open>while (current < upper && empty(current)) ++current\<close> and their downward counterparts.\<close>

function skipEmpty :: "('k, 'v) arrayView \<Rightarrow> int \<Rightarrow> int \<Rightarrow> int option" where
  "skipEmpty A upper current =
     (if current < upper
      then do { e \<leftarrow> avEmpty A current; if e then skipEmpty A upper (current + 1) else Some current }
      else Some current)"
  by pat_completeness auto
termination
  by (relation "measure (\<lambda>(A, upper, current). nat (upper - current))") auto

declare skipEmpty.simps [simp del]

function skipEmptyDown :: "('k, 'v) arrayView \<Rightarrow> int \<Rightarrow> int \<Rightarrow> int option" where
  "skipEmptyDown A lower current =
     (if current > lower
      then do { e \<leftarrow> avEmpty A current; if e then skipEmptyDown A lower (current - 1) else Some current }
      else Some current)"
  by pat_completeness auto
termination
  by (relation "measure (\<lambda>(A, lower, current). nat (current - lower))") auto

declare skipEmptyDown.simps [simp del]

lemma skipEmptyDown_le: "skipEmptyDown A lower current = Some r \<Longrightarrow> r \<le> current"
proof (induction A lower current arbitrary: r rule: skipEmptyDown.induct)
  case (1 A lower current)
  then show ?case by (subst (asm) (2) skipEmptyDown.simps) (fastforce simp: bind_eq_Some_conv split: if_splits)
qed

lemma skipEmpty_ge: "skipEmpty A upper current = Some r \<Longrightarrow> current \<le> r"
proof (induction A upper current arbitrary: r rule: skipEmpty.induct)
  case (1 A upper current)
  then show ?case by (subst (asm) (2) skipEmpty.simps) (fastforce simp: bind_eq_Some_conv split: if_splits)
qed

definition findNext :: "('k, 'v) arrayView \<Rightarrow> int \<Rightarrow> int \<Rightarrow> int option" where
  "findNext A start upperLimit = skipEmpty A upperLimit (start + 1)"

definition findPrevious :: "('k, 'v) arrayView \<Rightarrow> int \<Rightarrow> int \<Rightarrow> int option" where
  "findPrevious A start lowerLimit = skipEmptyDown A lowerLimit (start - 1)"

lemma findNext_gt: "findNext A start upper = Some r \<Longrightarrow> start < r"
  by (auto simp: findNext_def dest: skipEmpty_ge)

function pmaLinearLoop :: "('k::linorder, 'v) arrayView \<Rightarrow> 'k \<Rightarrow> int \<Rightarrow> int \<Rightarrow> int option" where
  "pmaLinearLoop A e upper firstLarger =
     (if firstLarger < upper
      then do {
        em \<leftarrow> avEmpty A firstLarger;
        if em then Some firstLarger
        else do {
          h \<leftarrow> avHead A firstLarger;
          if h < e \<or> e = h
          then do { n \<leftarrow> findNext A firstLarger upper; pmaLinearLoop A e upper n }
          else Some firstLarger } }
      else Some firstLarger)"
  by pat_completeness auto
termination
  by (relation "measure (\<lambda>(A, e, upper, firstLarger). nat (upper - firstLarger))") (auto dest: findNext_gt)

declare pmaLinearLoop.simps [simp del]

definition pmaLinearSearch :: "('k::linorder, 'v) arrayView \<Rightarrow> 'k \<Rightarrow> int \<Rightarrow> int \<Rightarrow> int option" where
  "pmaLinearSearch A e lower upper = do {
     firstLarger \<leftarrow> findNext A lower upper;
     firstLarger \<leftarrow> pmaLinearLoop A e upper firstLarger;
     findPrevious A firstLarger lower }"

text \<open>
  The bisection of \<open>binarySearch\<close> and of \<open>findContainingBlock\<close>: \<open>Inl\<close> is the block returned from inside
  the loop, \<open>Inr\<close> the interval and the candidate that the loop ends with.
\<close>

function binaryLoop ::
  "('k::linorder, 'v) arrayView \<Rightarrow> 'k \<Rightarrow> int \<Rightarrow> int \<Rightarrow> int \<Rightarrow> (int + int \<times> int \<times> int) option" where
  "binaryLoop A e left right candidate =
     (if right - left > BinarySearchCutoff
      then do {
        let mid = cdiv (left + right) 2;
        prev \<leftarrow> skipEmptyDown A (left - 1) mid;
        if prev < left then binaryLoop A e (mid + 1) right candidate
        else do {
          h \<leftarrow> avHead A prev;
          if h = e then Some (Inl prev)
          else if e < h then binaryLoop A e left (prev - 1) candidate
          else binaryLoop A e (mid + 1) right prev } }
      else Some (Inr (left, right, candidate)))"
  by pat_completeness auto
termination
proof (relation "measure (\<lambda>(A, e, left, right, candidate). nat (right - left))", goal_cases)
  case (2 A e left right candidate mid prev)
  then have "left \<le> mid" "mid < right" by (auto simp: BinarySearchCutoff_def cdiv_def sgn_if split: if_splits)
  then show ?case by simp
next
  case (3 A e left right candidate mid prev h)
  then have "mid < right" "prev \<le> mid"
    by (auto simp: BinarySearchCutoff_def cdiv_def sgn_if dest: skipEmptyDown_le split: if_splits)
  with 3 show ?case by (simp add: BinarySearchCutoff_def)
next
  case (4 A e left right candidate mid prev h)
  then have "left \<le> mid" "mid < right" by (auto simp: BinarySearchCutoff_def cdiv_def sgn_if split: if_splits)
  then show ?case by simp
qed auto

declare binaryLoop.simps [simp del]

definition binarySearch ::
  "('k::linorder, 'v) tparams \<Rightarrow> ('k, 'v) arrayView \<Rightarrow> 'k \<Rightarrow> int \<Rightarrow> int \<Rightarrow> int option" where
  "binarySearch P A e lower upper = do {
     r \<leftarrow> binaryLoop A e lower (upper - 1) (-1);
     case r of
       Inl prev \<Rightarrow> do {
         (if NDEBUG P then Some ()
          else do { l \<leftarrow> pmaLinearSearch A e lower upper; assertMsg False (prev = l) });
         Some prev }
     | Inr (left, right, candidate) \<Rightarrow> do {
         result \<leftarrow> pmaLinearSearch A e left upper;
         em \<leftarrow> avEmpty A result;
         wrong \<leftarrow> (if em then Some True
                  else do { h \<leftarrow> avHead A result; Some (e < h \<and> result \<noteq> lower) });
         if wrong
         then do {
           (if NDEBUG P then Some ()
            else do {
              assertMsg False (candidate \<noteq> -1);
              ec \<leftarrow> avEmpty A candidate;
              assertMsg False (\<not> ec);
              l \<leftarrow> pmaLinearSearch A e lower upper;
              assertMsg False (candidate = l) });
           Some candidate }
         else do {
           (if NDEBUG P then Some ()
            else do { l \<leftarrow> pmaLinearSearch A e lower upper; assertMsg False (result = l) });
           Some result } } }"

function exponentialLoop :: "('k::linorder, 'v) arrayView \<Rightarrow> 'k \<Rightarrow> int \<Rightarrow> int \<Rightarrow> int \<Rightarrow> nat \<Rightarrow> (int \<times> int) option" where
  "exponentialLoop A e upper start end delta =
     (if end < upper
      then do {
        h \<leftarrow> avHead A end;
        if h < e \<or> h = e
        then do { n \<leftarrow> findNext A (end + int delta) upper; exponentialLoop A e upper end n (delta * 2) }
        else Some (start, end) }
      else Some (start, end))"
  by pat_completeness auto
termination
  by (relation "measure (\<lambda>(A, e, upper, start, end, delta). nat (upper - end))") (auto dest: findNext_gt)

declare exponentialLoop.simps [simp del]

definition exponentialSearch ::
  "('k::linorder, 'v) tparams \<Rightarrow> ('k, 'v) arrayView \<Rightarrow> 'k \<Rightarrow> int \<Rightarrow> int \<Rightarrow> int option" where
  "exponentialSearch P A e lower upper = do {
     end \<leftarrow> skipEmpty A upper lower;
     (start, end) \<leftarrow> exponentialLoop A e upper lower end 1;
     binarySearch P A e start (min upper end) }"

function containingLoop ::
  "('k::linorder, 'v) arrayView \<Rightarrow> 'k \<Rightarrow> int \<Rightarrow> int \<Rightarrow> int \<Rightarrow> (int + int \<times> int \<times> int) option" where
  "containingLoop A e left right candidate =
     (if right - left > BinarySearchCutoff
      then do {
        let mid = cdiv (left + right) 2;
        prev \<leftarrow> skipEmptyDown A (left - 1) mid;
        if prev < left then containingLoop A e (mid + 1) right candidate
        else do {
          h \<leftarrow> avHead A prev;
          if e < h then containingLoop A e left (prev - 1) candidate
          else if h < e then containingLoop A e (prev + 1) right prev
          else Some (Inl prev) } }
      else Some (Inr (left, right, candidate)))"
  by pat_completeness auto
termination
proof (relation "measure (\<lambda>(A, e, left, right, candidate). nat (right - left))", goal_cases)
  case (2 A e left right candidate mid prev)
  then have "left \<le> mid" "mid < right" by (auto simp: BinarySearchCutoff_def cdiv_def sgn_if split: if_splits)
  then show ?case by simp
next
  case (3 A e left right candidate mid prev h)
  then have "mid < right" "prev \<le> mid"
    by (auto simp: BinarySearchCutoff_def cdiv_def sgn_if dest: skipEmptyDown_le split: if_splits)
  with 3 show ?case by (simp add: BinarySearchCutoff_def)
next
  case (4 A e left right candidate mid prev h)
  then show ?case by (simp add: BinarySearchCutoff_def)
qed auto

declare containingLoop.simps [simp del]

definition findContainingBlock :: "('k::linorder, 'v) tparams \<Rightarrow> ('k, 'v) arrayView \<Rightarrow> 'k \<Rightarrow> int option" where
  "findContainingBlock P A e = do {
     r \<leftarrow> containingLoop A e 0 (avSize A - 1) (-1);
     case r of
       Inl prev \<Rightarrow> Some prev
     | Inr (left, right, candidate) \<Rightarrow> do {
         result \<leftarrow> pmaLinearSearch A e left (right + 1);
         em \<leftarrow> avEmpty A result;
         wrong \<leftarrow> (if em then Some True else do { h \<leftarrow> avHead A result; Some (e < h) });
         if wrong
         then if candidate \<noteq> -1
           then do {
             (if NDEBUG P then Some ()
              else do { ec \<leftarrow> avEmpty A candidate; assertMsg False (\<not> ec) });
             Some candidate }
           else Some (-1)
         else Some result } }"

definition findBlockIndex :: "('k::linorder, 'v) tparams \<Rightarrow> ('k, 'v) arrayView \<Rightarrow> 'k \<Rightarrow> int option" where
  "findBlockIndex P A e = do {
     containingBlock \<leftarrow> findContainingBlock P A e;
     if containingBlock = -1 then skipEmpty A (avSize A) 0 else Some containingBlock }"

section \<open>Searches in the batch\<close>

text \<open>
  \<open>std::lower_bound\<close> on \<open>len\<close> elements from position \<open>first\<close>: the bisection of the standard library,
  with \<open>below\<close> for \<open>comp(element, value)\<close>.
\<close>

function std_lower_bound :: "('a \<Rightarrow> bool) \<Rightarrow> 'a list \<Rightarrow> int \<Rightarrow> int \<Rightarrow> int option" where
  "std_lower_bound below xs first len =
     (if len > 0
      then do {
        let half = len div 2;
        v \<leftarrow> idx xs (first + half);
        if below v then std_lower_bound below xs (first + half + 1) (len - half - 1)
        else std_lower_bound below xs first half }
      else Some first)"
  by pat_completeness auto
termination
  by (relation "measure (\<lambda>(below, xs, first, len). nat len)") (auto simp: zdiv_mono_strict)

declare std_lower_bound.simps [simp del]

text \<open>The exponential search to the left; \<open>delta\<close> is \<open>2\<close> to the power of \<open>k\<close>.\<close>

function firstBatchLoop :: "('k::linorder, 'v) tparams \<Rightarrow> 'v list \<Rightarrow> 'k \<Rightarrow> int \<Rightarrow> nat \<Rightarrow> (int \<times> nat) option" where
  "firstBatchLoop P batch blockHead current k =
     (if current > 0
      then do {
        v \<leftarrow> idx batch current;
        if blockHead < keyOfValue P v \<or> blockHead = keyOfValue P v
        then firstBatchLoop P batch blockHead (current - 2 ^ (k + 1)) (k + 1)
        else Some (current, k) }
      else Some (current, k))"
  by pat_completeness auto
termination
  by (relation "measure (\<lambda>(P, batch, blockHead, current, k). nat current)") auto

declare firstBatchLoop.simps [simp del]

definition findFirstBatchElement :: "('k::linorder, 'v) tparams \<Rightarrow> 'v list \<Rightarrow> int \<Rightarrow> 'k \<Rightarrow> int option" where
  "findFirstBatchElement P batch searchStart blockHead = do {
     (current, k) \<leftarrow> firstBatchLoop P batch blockHead (searchStart - 1) 0;
     let current = (if current < 0 then 0 else current);
     std_lower_bound (\<lambda>v. keyOfValue P v < blockHead) batch current (2 ^ k + 1) }"

function lastElementLoop :: "('k::linorder, 'v) tparams \<Rightarrow> 'v list \<Rightarrow> 'k \<Rightarrow> int \<Rightarrow> int \<Rightarrow> int option" where
  "lastElementLoop P batch nextHead right lastBlockElement =
     (if lastBlockElement < right
      then do {
        v \<leftarrow> idx batch lastBlockElement;
        if keyOfValue P v < nextHead then lastElementLoop P batch nextHead right (lastBlockElement + 1)
        else Some lastBlockElement }
      else Some lastBlockElement)"
  by pat_completeness auto
termination
  by (relation "measure (\<lambda>(P, batch, nextHead, right, i). nat (right - i))") auto

declare lastElementLoop.simps [simp del]

definition findLastBatchElementForBlock ::
  "('k::linorder, 'v) tparams \<Rightarrow> ('k, 'v) arrayView \<Rightarrow> 'v list \<Rightarrow> int \<Rightarrow> Interval \<Rightarrow> int \<Rightarrow> Interval \<Rightarrow> int option" where
  "findLastBatchElementForBlock P A batch batchIndex batchRange nextBlockIndex pmaRange' =
     (if nextBlockIndex = iright pmaRange' then Some (iright batchRange)
      else do {
        h \<leftarrow> (if batchIndex < iright batchRange then avHead A nextBlockIndex else Some (NULL_KEY P));
        lastElementLoop P batch h (iright batchRange) batchIndex })"

section \<open>Correctness on arrays with sorted heads\<close>

text \<open>
  What the searches return: the last non-empty block behind \<open>lower\<close> whose head does not exceed \<open>e\<close>, and
  \<open>lower\<close> if there is none. There is only one such index.
\<close>

definition lastBlock :: "(int \<Rightarrow> bool) \<Rightarrow> (int \<Rightarrow> 'k::linorder) \<Rightarrow> 'k \<Rightarrow> int \<Rightarrow> int \<Rightarrow> int \<Rightarrow> bool" where
  "lastBlock ne hk e lower upper r \<longleftrightarrow> lower \<le> r \<and> (r = lower \<or> r < upper \<and> ne r \<and> hk r \<le> e) \<and>
     (\<forall>i. r < i \<and> i < upper \<and> ne i \<longrightarrow> e < hk i)"

lemma lastBlock_unique: "lastBlock ne hk e lower upper r \<Longrightarrow> lastBlock ne hk e lower upper r' \<Longrightarrow> r = r'"
  unfolding lastBlock_def by (metis leD linorder_neqE_linordered_idom order.strict_trans1)

locale sorted_heads =
  fixes A :: "('k::linorder, 'v) arrayView" and n :: int and ne :: "int \<Rightarrow> bool" and hk :: "int \<Rightarrow> 'k"
  assumes size_at: "avSize A = n" "0 \<le> n"
    and empty_at: "0 \<le> i \<Longrightarrow> i < max 1 n \<Longrightarrow> avEmpty A i = Some (\<not> ne i)"
    and ne_in: "ne i \<Longrightarrow> 0 \<le> i \<and> i < n"
    and head_at: "0 \<le> i \<Longrightarrow> i < n \<Longrightarrow> avHead A i = Some (hk i)"
    and heads_sorted: "ne i \<Longrightarrow> ne j \<Longrightarrow> i < j \<Longrightarrow> hk i < hk j"
begin

lemma skipEmpty_ok:
  assumes "0 \<le> c" "u \<le> n"
  shows "\<exists>r. skipEmpty A u c = Some r \<and> c \<le> r \<and> r \<le> max c u \<and> (\<forall>i. c \<le> i \<and> i < r \<longrightarrow> \<not> ne i) \<and> (r < u \<longrightarrow> ne r)"
  using assms(1)
proof (induction "nat (u - c)" arbitrary: c rule: less_induct)
  case less
  show ?case
  proof (cases "c < u")
    case True
    then have e: "avEmpty A c = Some (\<not> ne c)" using less(2) assms(2) by (intro empty_at) auto
    show ?thesis
    proof (cases "ne c")
      case True
      then show ?thesis using e \<open>c < u\<close> by (subst skipEmpty.simps) auto
    next
      case False
      obtain r where r: "skipEmpty A u (c + 1) = Some r" "c + 1 \<le> r" "r \<le> max (c + 1) u"
        "\<forall>i. c + 1 \<le> i \<and> i < r \<longrightarrow> \<not> ne i" "r < u \<longrightarrow> ne r"
        using less(1) [of "c + 1"] less(2) True by auto
      have "\<forall>i. c \<le> i \<and> i < r \<longrightarrow> \<not> ne i"
      proof (intro allI impI)
        fix i assume "c \<le> i \<and> i < r"
        then show "\<not> ne i" using r(4) False by (cases "i = c") auto
      qed
      then show ?thesis using e r \<open>c < u\<close> False by (subst skipEmpty.simps) auto
    qed
  next
    case False
    then show ?thesis by (subst skipEmpty.simps) auto
  qed
qed

lemma skipEmptyDown_ok:
  assumes "-1 \<le> l" "c < max 1 n"
  shows "\<exists>r. skipEmptyDown A l c = Some r \<and> min l c \<le> r \<and> r \<le> c \<and> (\<forall>i. r < i \<and> i \<le> c \<longrightarrow> \<not> ne i) \<and> (l < r \<longrightarrow> ne r)"
  using assms(2)
proof (induction "nat (c - l)" arbitrary: c rule: less_induct)
  case less
  show ?case
  proof (cases "l < c")
    case True
    then have e: "avEmpty A c = Some (\<not> ne c)" using less(2) assms(1) by (intro empty_at) auto
    show ?thesis
    proof (cases "ne c")
      case True
      then show ?thesis using e \<open>l < c\<close> by (subst skipEmptyDown.simps) auto
    next
      case False
      obtain r where r: "skipEmptyDown A l (c - 1) = Some r" "min l (c - 1) \<le> r" "r \<le> c - 1"
        "\<forall>i. r < i \<and> i \<le> c - 1 \<longrightarrow> \<not> ne i" "l < r \<longrightarrow> ne r"
        using less(1) [of "c - 1"] less(2) True by auto
      have "\<forall>i. r < i \<and> i \<le> c \<longrightarrow> \<not> ne i"
      proof (intro allI impI)
        fix i assume "r < i \<and> i \<le> c"
        then show "\<not> ne i" using r(4) False by (cases "i = c") auto
      qed
      then show ?thesis using e r \<open>l < c\<close> False by (subst skipEmptyDown.simps) auto
    qed
  next
    case False
    then show ?thesis by (subst skipEmptyDown.simps) auto
  qed
qed

lemma linearLoop_ok:
  assumes "0 \<le> c" "u \<le> n" "c < u \<longrightarrow> ne c"
  shows "\<exists>r. pmaLinearLoop A e u c = Some r \<and> c \<le> r \<and> r \<le> max c u \<and> (\<forall>i. c \<le> i \<and> i < r \<and> ne i \<longrightarrow> hk i \<le> e) \<and>
    (r < u \<longrightarrow> ne r \<and> e < hk r)"
  using assms(1,3)
proof (induction "nat (u - c)" arbitrary: c rule: less_induct)
  case less
  show ?case
  proof (cases "c < u \<and> hk c \<le> e")
    case True
    obtain m where m: "skipEmpty A u (c + 1) = Some m" "c + 1 \<le> m" "m \<le> max (c + 1) u"
      "\<forall>i. c + 1 \<le> i \<and> i < m \<longrightarrow> \<not> ne i" "m < u \<longrightarrow> ne m"
      using skipEmpty_ok [of "c + 1" u] less(2) assms(2) by auto
    obtain r where r: "pmaLinearLoop A e u m = Some r" "m \<le> r" "r \<le> max m u"
      "\<forall>i. m \<le> i \<and> i < r \<and> ne i \<longrightarrow> hk i \<le> e" "r < u \<longrightarrow> ne r \<and> e < hk r"
      using less(1) [of m] less(2) m True by auto
    have "\<forall>i. c \<le> i \<and> i < r \<and> ne i \<longrightarrow> hk i \<le> e"
    proof (intro allI impI)
      fix i assume i: "c \<le> i \<and> i < r \<and> ne i"
      then consider "i = c" | "c + 1 \<le> i \<and> i < m" | "m \<le> i" by linarith
      then show "hk i \<le> e" using i r(4) m(4) True by cases auto
    qed
    moreover have "pmaLinearLoop A e u c = pmaLinearLoop A e u m"
    proof -
      have "avEmpty A c = Some False" "avHead A c = Some (hk c)" "hk c < e \<or> e = hk c"
        using True less(2,3) assms(2) by (auto simp: empty_at head_at)
      then show ?thesis using True m(1) by (subst pmaLinearLoop.simps) (simp add: findNext_def)
    qed
    moreover have "r \<le> max c u" using r(3) m(3) True by linarith
    ultimately show ?thesis using r(1,2,5) m(2) by auto
  next
    case False
    then show ?thesis
      using less(2,3) assms(2) by (subst pmaLinearLoop.simps) (auto simp: empty_at head_at)
  qed
qed

lemma linearSearch_ok:
  assumes "0 \<le> lower" "lower < max 1 n" "upper \<le> n"
  shows "\<exists>r. pmaLinearSearch A e lower upper = Some r \<and> lastBlock ne hk e lower upper r"
proof -
  obtain m where m: "skipEmpty A upper (lower + 1) = Some m" "lower + 1 \<le> m" "m \<le> max (lower + 1) upper"
    "\<forall>i. lower + 1 \<le> i \<and> i < m \<longrightarrow> \<not> ne i" "m < upper \<longrightarrow> ne m"
    using skipEmpty_ok [of "lower + 1" upper] assms by auto
  obtain f where f: "pmaLinearLoop A e upper m = Some f" "m \<le> f" "f \<le> max m upper"
    "\<forall>i. m \<le> i \<and> i < f \<and> ne i \<longrightarrow> hk i \<le> e" "f < upper \<longrightarrow> ne f \<and> e < hk f"
    using linearLoop_ok [of m upper e] m assms by auto
  have "f - 1 < max 1 n" using assms m(3) f(3) by linarith
  then obtain r where r: "skipEmptyDown A lower (f - 1) = Some r" "min lower (f - 1) \<le> r" "r \<le> f - 1"
    "\<forall>i. r < i \<and> i \<le> f - 1 \<longrightarrow> \<not> ne i" "lower < r \<longrightarrow> ne r"
    using skipEmptyDown_ok [of lower "f - 1"] assms(1) by auto
  have up: "e < hk i" if "f \<le> i" "i < upper" "ne i" for i
    using that f(5) heads_sorted [of f i] by (cases "f = i") fastforce+
  have "e < hk i" if "r < i" "i < upper" "ne i" for i
    using that r(4) up [of i] by (cases "f \<le> i") auto
  moreover have "hk r \<le> e" if "lower < r" using that r f(4) m(4) by (metis add1_zle_eq linorder_not_less zle_diff1_eq)
  moreover have "r < upper" if "lower < r" using that r(3) f(3) m by linarith
  ultimately have "lastBlock ne hk e lower upper r"
    using r m(2) f(2) by (auto simp: lastBlock_def)
  then show ?thesis using m(1) f(1) r(1) by (simp add: pmaLinearSearch_def findNext_def findPrevious_def)
qed

end

text \<open>
  The invariant of both bisections: everything non-empty in \<open>[lower, left)\<close> has a head that does not
  exceed \<open>e\<close>, the candidate being the last of it; everything behind \<open>right\<close> has a larger head.
\<close>

definition bisectInv :: "(int \<Rightarrow> bool) \<Rightarrow> (int \<Rightarrow> 'k::linorder) \<Rightarrow> 'k \<Rightarrow> int \<Rightarrow> int \<Rightarrow> int \<times> int \<times> int \<Rightarrow> bool" where
  "bisectInv ne hk e lower upper = (\<lambda>(left, right, candidate). lower \<le> left \<and> right < upper \<and>
     (\<forall>i. lower \<le> i \<and> i < left \<and> ne i \<longrightarrow> i \<le> candidate) \<and>
     (candidate = -1 \<or> lower \<le> candidate \<and> candidate < left \<and> ne candidate \<and> hk candidate < e) \<and>
     (\<forall>i. right < i \<and> i < upper \<and> ne i \<longrightarrow> e < hk i) \<and> (left = lower \<or> left < upper))"

context sorted_heads
begin

lemma bisectInv_mid:
  assumes "bisectInv ne hk e lower upper (left, right, candidate)" "right - left > BinarySearchCutoff" "0 \<le> lower" "upper \<le> n"
  defines "mid \<equiv> cdiv (left + right) 2"
  shows "\<exists>prev. skipEmptyDown A (left - 1) mid = Some prev \<and> prev \<le> mid \<and> left \<le> mid \<and> mid < right \<and>
     (prev < left \<longrightarrow> bisectInv ne hk e lower upper (mid + 1, right, candidate)) \<and>
     (left \<le> prev \<longrightarrow> ne prev \<and> avHead A prev = Some (hk prev) \<and>
       (e < hk prev \<longrightarrow> bisectInv ne hk e lower upper (left, prev - 1, candidate)) \<and>
       (hk prev < e \<longrightarrow> bisectInv ne hk e lower upper (mid + 1, right, prev) \<and> bisectInv ne hk e lower upper (prev + 1, right, prev)))"
proof -
  have inv: "lower \<le> left" "right < upper" "\<And>i. lower \<le> i \<Longrightarrow> i < left \<Longrightarrow> ne i \<Longrightarrow> i \<le> candidate"
    "candidate = -1 \<or> lower \<le> candidate \<and> candidate < left \<and> ne candidate \<and> hk candidate < e"
    "\<And>i. right < i \<Longrightarrow> i < upper \<Longrightarrow> ne i \<Longrightarrow> e < hk i"
    using assms(1) by (auto simp: bisectInv_def)
  have mid: "left \<le> mid" "mid < right" using assms(2,3) inv(1) by (auto simp: mid_def BinarySearchCutoff_def)
  obtain prev where prev: "skipEmptyDown A (left - 1) mid = Some prev" "left - 1 \<le> prev" "prev \<le> mid"
    "\<And>i. prev < i \<Longrightarrow> i \<le> mid \<Longrightarrow> \<not> ne i" "left - 1 < prev \<longrightarrow> ne prev"
    using skipEmptyDown_ok [of "left - 1" mid] assms(3,4) inv(1,2) mid by auto
  have h: "avHead A prev = Some (hk prev)" if "left \<le> prev"
    using that prev(3) mid inv(1,2) assms(3,4) by (intro head_at) auto
  have below: "hk i < e \<or> i = prev" if "hk prev < e" "ne i" "i \<le> prev" "left \<le> prev" for i
    using that heads_sorted [of i prev] prev(5) by (cases "i = prev") auto
  have low: "bisectInv ne hk e lower upper (mid + 1, right, candidate)" if "prev < left"
  proof -
    have "i \<le> candidate" if "lower \<le> i" "i < mid + 1" "ne i" for i
      using inv(3) [of i] prev(4) [of i] that \<open>prev < left\<close> by (cases "i < left") auto
    then show ?thesis using inv(1,2,4,5) mid by (auto simp: bisectInv_def)
  qed
  have right': "bisectInv ne hk e lower upper (left, prev - 1, candidate)" if "left \<le> prev" "e < hk prev"
  proof -
    have "e < hk i" if "prev - 1 < i" "i < upper" "ne i" for i
      using that heads_sorted [of prev i] prev(5) \<open>left \<le> prev\<close> \<open>e < hk prev\<close> by (cases "i = prev") auto
    then show ?thesis using inv(1,2,3,4) mid prev(3) \<open>left \<le> prev\<close> by (auto simp: bisectInv_def)
  qed
  have left': "bisectInv ne hk e lower upper (l, right, prev)" if "left \<le> prev" "hk prev < e" "l = mid + 1 \<or> l = prev + 1" for l
  proof -
    have "i \<le> prev" if "lower \<le> i" "i < l" "ne i" for i
      using prev(4) [of i] that \<open>l = mid + 1 \<or> l = prev + 1\<close> prev(3) by (cases "i \<le> prev") auto
    then show ?thesis using inv(1,2,5) mid prev(3,5) that by (auto simp: bisectInv_def)
  qed
  show ?thesis using prev(1,3,5) mid h low right' left' by auto
qed

lemma binaryLoop_ok:
  assumes "bisectInv ne hk e lower upper (left, right, candidate)" "0 \<le> lower" "upper \<le> n"
  shows "\<exists>r. binaryLoop A e left right candidate = Some r \<and>
     (case r of Inl p \<Rightarrow> lower \<le> p \<and> p < upper \<and> ne p \<and> hk p = e | Inr s \<Rightarrow> bisectInv ne hk e lower upper s)"
  using assms(1)
proof (induction "nat (right - left)" arbitrary: left right candidate rule: less_induct)
  case less
  show ?case
  proof (cases "right - left > BinarySearchCutoff")
    case True
    define mid where "mid = cdiv (left + right) 2"
    obtain prev where p: "skipEmptyDown A (left - 1) mid = Some prev" "prev \<le> mid" "left \<le> mid" "mid < right"
     "prev < left \<longrightarrow> bisectInv ne hk e lower upper (mid + 1, right, candidate)"
     "left \<le> prev \<longrightarrow> ne prev \<and> avHead A prev = Some (hk prev) \<and>
       (e < hk prev \<longrightarrow> bisectInv ne hk e lower upper (left, prev - 1, candidate)) \<and>
       (hk prev < e \<longrightarrow> bisectInv ne hk e lower upper (mid + 1, right, prev))"
      using bisectInv_mid [OF less(2) True assms(2,3)] unfolding mid_def [symmetric] by blast
    note unf = binaryLoop.simps [of A e left right candidate]
    consider "prev < left" | "left \<le> prev" "hk prev = e" | "left \<le> prev" "e < hk prev" | "left \<le> prev" "hk prev < e"
      by fastforce
    then show ?thesis
    proof cases
      case 1
      then have "binaryLoop A e left right candidate = binaryLoop A e (mid + 1) right candidate"
        using True p(1) by (simp add: unf mid_def)
      then show ?thesis using less(1) [of right "mid + 1" candidate] 1 p by simp
    next
      case 2
      then have "binaryLoop A e left right candidate = Some (Inl prev)" using True p by (simp add: unf mid_def)
      then show ?thesis using 2 p less(2) by (auto simp: bisectInv_def)
    next
      case 3
      then have "binaryLoop A e left right candidate = binaryLoop A e left (prev - 1) candidate"
        using True p by (auto simp add: unf mid_def)
      then show ?thesis using less(1) [of "prev - 1" left candidate] 3 p by simp
    next
      case 4
      then have "binaryLoop A e left right candidate = binaryLoop A e (mid + 1) right prev"
        using True p by (auto simp add: unf mid_def)
      then show ?thesis using less(1) [of right "mid + 1" prev] 4 p by simp
    qed
  next
    case False
    then show ?thesis using less(2) by (simp add: binaryLoop.simps [of A e left right candidate])
  qed
qed

lemma containingLoop_ok:
  assumes "bisectInv ne hk e lower upper (left, right, candidate)" "0 \<le> lower" "upper \<le> n"
  shows "\<exists>r. containingLoop A e left right candidate = Some r \<and>
     (case r of Inl p \<Rightarrow> lower \<le> p \<and> p < upper \<and> ne p \<and> hk p = e | Inr s \<Rightarrow> bisectInv ne hk e lower upper s)"
  using assms(1)
proof (induction "nat (right - left)" arbitrary: left right candidate rule: less_induct)
  case less
  show ?case
  proof (cases "right - left > BinarySearchCutoff")
    case True
    define mid where "mid = cdiv (left + right) 2"
    obtain prev where p: "skipEmptyDown A (left - 1) mid = Some prev" "prev \<le> mid" "left \<le> mid" "mid < right"
     "prev < left \<longrightarrow> bisectInv ne hk e lower upper (mid + 1, right, candidate)"
     "left \<le> prev \<longrightarrow> ne prev \<and> avHead A prev = Some (hk prev) \<and>
       (e < hk prev \<longrightarrow> bisectInv ne hk e lower upper (left, prev - 1, candidate)) \<and>
       (hk prev < e \<longrightarrow> bisectInv ne hk e lower upper (prev + 1, right, prev))"
      using bisectInv_mid [OF less(2) True assms(2,3)] unfolding mid_def [symmetric] by blast
    note unf = containingLoop.simps [of A e left right candidate]
    consider "prev < left" | "left \<le> prev" "hk prev = e" | "left \<le> prev" "e < hk prev" | "left \<le> prev" "hk prev < e"
      by fastforce
    then show ?thesis
    proof cases
      case 1
      then have "containingLoop A e left right candidate = containingLoop A e (mid + 1) right candidate"
        using True p(1) by (simp add: unf mid_def)
      then show ?thesis using less(1) [of right "mid + 1" candidate] 1 p by simp
    next
      case 2
      then have "containingLoop A e left right candidate = Some (Inl prev)" using True p by (simp add: unf mid_def)
      then show ?thesis using 2 p less(2) by (auto simp: bisectInv_def)
    next
      case 3
      then have "containingLoop A e left right candidate = containingLoop A e left (prev - 1) candidate"
        using True p by (auto simp add: unf mid_def)
      then show ?thesis using less(1) [of "prev - 1" left candidate] 3 p by simp
    next
      case 4
      then have "containingLoop A e left right candidate = containingLoop A e (prev + 1) right prev"
        using True p by (auto simp add: unf mid_def)
      then show ?thesis using less(1) [of right "prev + 1" prev] 4 p by simp
    qed
  next
    case False
    then show ?thesis using less(2) by (simp add: containingLoop.simps [of A e left right candidate])
  qed
qed

end

context sorted_heads
begin

lemma findContainingBlock_ok:
  "\<exists>r. findContainingBlock P A e = Some r \<and>
     (if r = -1 then \<forall>i. ne i \<longrightarrow> e < hk i else ne r \<and> hk r \<le> e \<and> (\<forall>i. r < i \<and> ne i \<longrightarrow> e < hk i))"
proof -
  have start: "bisectInv ne hk e 0 n (0, n - 1, -1)" using size_at by (auto simp: bisectInv_def)
  obtain x where x: "containingLoop A e 0 (n - 1) (-1) = Some x"
    "case x of Inl p \<Rightarrow> 0 \<le> p \<and> p < n \<and> ne p \<and> hk p = e | Inr s \<Rightarrow> bisectInv ne hk e 0 n s"
    using containingLoop_ok [OF start] by auto
  show ?thesis
  proof (cases x)
    case (Inl p)
    then show ?thesis
      using x heads_sorted [of p] by (auto simp: findContainingBlock_def size_at)
  next
    case (Inr s)
    obtain left right candidate where s: "s = (left, right, candidate)" by (cases s)
    have inv: "0 \<le> left" "right < n" "\<And>i. i < left \<Longrightarrow> ne i \<Longrightarrow> i \<le> candidate"
      "candidate = -1 \<or> 0 \<le> candidate \<and> candidate < left \<and> ne candidate \<and> hk candidate < e"
      "\<And>i. right < i \<Longrightarrow> ne i \<Longrightarrow> e < hk i" "left = 0 \<or> left < n"
      using x(2) s Inr ne_in by (auto simp: bisectInv_def)
    have left: "left < max 1 n" using inv(6) by auto
    obtain r where r: "pmaLinearSearch A e left (right + 1) = Some r" "lastBlock ne hk e left (right + 1) r"
      using linearSearch_ok [OF inv(1) left, of "right + 1" e] inv(2) by auto
    have rin: "left \<le> r" "0 \<le> r" "r < max 1 n" using r(2) inv(1,2) left by (auto simp: lastBlock_def)
    have em: "avEmpty A r = Some (\<not> ne r)" by (intro empty_at) (use rin in auto)
    have above: "e < hk i" if "r < i" "ne i" for i
      using that r(2) inv(5) [of i] by (cases "right < i") (auto simp: lastBlock_def)
    show ?thesis
    proof (cases "ne r \<and> hk r \<le> e")
      case True
      then have "findContainingBlock P A e = Some r"
        using x(1) Inr s r(1) em ne_in [of r] by (auto simp: findContainingBlock_def size_at head_at not_less)
      then show ?thesis using True above rin by auto
    next
      case False
      have none: "r = left" using r(2) False by (auto simp: lastBlock_def)
      have cand: "findContainingBlock P A e = Some candidate"
      proof -
        have "\<not> ec" if "candidate \<noteq> -1" "avEmpty A candidate = Some ec" for ec
          using that inv(4) empty_at [of candidate] left by auto
        moreover have "avEmpty A candidate = Some False" if "candidate \<noteq> -1"
          using that inv(4) left by (subst empty_at) auto
        ultimately show ?thesis
          using x(1) Inr s r(1) em False ne_in [of r]
          by (cases "ne r") (auto simp: findContainingBlock_def size_at head_at not_le)
      qed
      have up: "e < hk i" if "candidate < i" "ne i" for i
        using that above [of i] inv(3) [of i] none False by (cases i left rule: linorder_cases) (auto simp: not_le)
      have "e < hk i" if "candidate = -1" "ne i" for i using up [of i] that ne_in [of i] by auto
      then show ?thesis using cand up inv(4) by auto
    qed
  qed
qed

lemma findBlockIndex_ok:
  "\<exists>r. findBlockIndex P A e = Some r \<and>
     (if \<exists>i. ne i then ne r \<and> (hk r \<le> e \<or> (\<forall>i. ne i \<longrightarrow> r \<le> i)) \<and> (\<forall>i. r < i \<and> ne i \<longrightarrow> e < hk i) else r = n)"
proof -
  obtain c where c: "findContainingBlock P A e = Some c"
    "if c = -1 then \<forall>i. ne i \<longrightarrow> e < hk i else ne c \<and> hk c \<le> e \<and> (\<forall>i. c < i \<and> ne i \<longrightarrow> e < hk i)"
    using findContainingBlock_ok [of P e] by auto
  show ?thesis
  proof (cases "c = -1")
    case True
    obtain r where r: "skipEmpty A n 0 = Some r" "0 \<le> r" "r \<le> max 0 n" "\<forall>i. 0 \<le> i \<and> i < r \<longrightarrow> \<not> ne i" "r < n \<longrightarrow> ne r"
      using skipEmpty_ok [of 0 n] by auto
    have first: "r \<le> i" if "ne i" for i using that r(4) ne_in [of i] by (cases "r \<le> i") auto
    have "findBlockIndex P A e = Some r" using c(1) True r(1) by (simp add: findBlockIndex_def size_at)
    moreover have "ne r" if "ne i" for i using first [OF that] ne_in [OF that] r(5) by auto
    moreover have "r = n" if "\<not> (\<exists>i. ne i)" using that r(3,5) size_at by fastforce
    ultimately show ?thesis using c(2) True first by auto
  next
    case False
    then have "findBlockIndex P A e = Some c" using c(1) by (simp add: findBlockIndex_def)
    then show ?thesis using c(2) False by auto
  qed
qed

lemma binarySearch_ok:
  assumes "ne lower" "lower \<le> upper" "upper \<le> n"
  shows "\<exists>r. binarySearch P A e lower upper = Some r \<and> lastBlock ne hk e lower upper r"
proof -
  have lo: "0 \<le> lower" "lower < n" using ne_in [OF assms(1)] by auto
  obtain l where l: "pmaLinearSearch A e lower upper = Some l" "lastBlock ne hk e lower upper l"
    using linearSearch_ok [of lower upper e] lo assms(3) by auto
  have start: "bisectInv ne hk e lower upper (lower, upper - 1, -1)" by (auto simp: bisectInv_def)
  obtain x where x: "binaryLoop A e lower (upper - 1) (-1) = Some x"
    "case x of Inl p \<Rightarrow> lower \<le> p \<and> p < upper \<and> ne p \<and> hk p = e | Inr s \<Rightarrow> bisectInv ne hk e lower upper s"
    using binaryLoop_ok [OF start lo(1) assms(3)] by auto
  have same: "r = l" if "lastBlock ne hk e lower upper r" for r
    using lastBlock_unique that l(2) .
  show ?thesis
  proof (cases x)
    case (Inl p)
    then have "lastBlock ne hk e lower upper p"
      using x(2) heads_sorted [of p] by (auto simp: lastBlock_def)
    with same [OF this] show ?thesis using x(1) Inl l(1) by (auto simp: binarySearch_def)
  next
    case (Inr s)
    obtain left right candidate where s: "s = (left, right, candidate)" by (cases s)
    have inv: "lower \<le> left" "\<And>i. lower \<le> i \<Longrightarrow> i < left \<Longrightarrow> ne i \<Longrightarrow> i \<le> candidate"
      "candidate = -1 \<or> lower \<le> candidate \<and> candidate < left \<and> ne candidate \<and> hk candidate < e"
      "left = lower \<or> left < upper"
      using x(2) s Inr by (auto simp: bisectInv_def)
    have lin: "0 \<le> left" "left < n" using inv(1,4) lo assms(3) by auto
    obtain r where r: "pmaLinearSearch A e left upper = Some r" "lastBlock ne hk e left upper r"
      using linearSearch_ok [of left upper e] lin assms(3) by auto
    have rin: "0 \<le> r" "r < n" using r(2) lin assms(3) by (auto simp: lastBlock_def)
    have em: "avEmpty A r = Some (\<not> ne r)" "avHead A r = Some (hk r)" using rin by (auto simp: empty_at head_at)
    show ?thesis
    proof (cases "\<not> ne r \<or> e < hk r \<and> r \<noteq> lower")
      case True
      then have rl: "r = left" "left \<noteq> lower" using r(2) assms(1) by (auto simp: lastBlock_def)
      then have c: "lower \<le> candidate" "candidate < left" "ne candidate" "hk candidate < e"
        using inv(1,3) inv(2) [of lower] assms(1) lo by auto
      have "e < hk i" if "candidate < i" "i < upper" "ne i" for i
        using that inv(2) [of i] r(2) rl True c(1) by (cases i left rule: linorder_cases) (auto simp: lastBlock_def)
      then have "lastBlock ne hk e lower upper candidate"
        using c inv(4) rl by (auto simp: lastBlock_def)
      moreover have "avEmpty A candidate = Some False" using c lo lin by (subst empty_at) auto
      ultimately show ?thesis
        using x(1) Inr s r(1) em True same l(1) lo c by (auto simp: binarySearch_def)
    next
      case False
      then have "lastBlock ne hk e lower upper r"
        using r(2) inv(1,4) by (auto simp: lastBlock_def not_less)
      then show ?thesis
        using x(1) Inr s r(1) em False same [of r] l(1) by (auto simp: binarySearch_def)
    qed
  qed
qed

lemma exponentialLoop_ok:
  assumes "0 \<le> end" "start \<le> end" "lower \<le> start" "ne lower" "upper \<le> n" "end < upper \<longrightarrow> ne end"
    "ne start" "start = lower \<or> hk start \<le> e" "start < upper"
  shows "\<exists>s t. exponentialLoop A e upper start end delta = Some (s, t) \<and> start \<le> s \<and> s \<le> t \<and> s < upper \<and> ne s \<and>
     (s = lower \<or> hk s \<le> e) \<and> (t < upper \<longrightarrow> ne t \<and> e < hk t)"
  using assms(1,2,3,6,7,8,9)
proof (induction "nat (upper - end)" arbitrary: start "end" delta rule: less_induct)
  case less
  show ?case
  proof (cases "end < upper \<and> hk end \<le> e")
    case True
    then have h: "avHead A end = Some (hk end)" "hk end < e \<or> hk end = e"
      using less(2) assms(5) by (auto simp: head_at)
    obtain m where m: "skipEmpty A upper (end + int delta + 1) = Some m" "end + int delta + 1 \<le> m" "m < upper \<longrightarrow> ne m"
      using skipEmpty_ok [of "end + int delta + 1" upper] less(2) assms(5) by auto
    obtain s t where st: "exponentialLoop A e upper end m (delta * 2) = Some (s, t)" "end \<le> s" "s \<le> t" "s < upper" "ne s"
      "s = lower \<or> hk s \<le> e" "t < upper \<longrightarrow> ne t \<and> e < hk t"
      using less(1) [of m "end" "delta * 2"] less(2-7) m True by auto
    have "exponentialLoop A e upper start end delta = exponentialLoop A e upper end m (delta * 2)"
      using True h m(1) by (subst exponentialLoop.simps) (simp add: findNext_def)
    then show ?thesis using st less(3) by auto
  next
    case False
    then have "exponentialLoop A e upper start end delta = Some (start, end)"
      using less(2) assms(5) by (subst exponentialLoop.simps) (auto simp: head_at)
    then show ?thesis using False less(3-8) by auto
  qed
qed

lemma exponentialSearch_ok:
  assumes "ne lower" "lower < upper" "upper \<le> n"
  shows "\<exists>r. exponentialSearch P A e lower upper = Some r \<and> lastBlock ne hk e lower upper r"
proof -
  have lo: "0 \<le> lower" "lower < n" using ne_in [OF assms(1)] by auto
  have first: "skipEmpty A upper lower = Some lower"
    using assms(1,2) lo by (subst skipEmpty.simps) (simp add: empty_at)
  obtain s t where st: "exponentialLoop A e upper lower lower 1 = Some (s, t)" "lower \<le> s" "s \<le> t" "s < upper" "ne s"
    "s = lower \<or> hk s \<le> e" "t < upper \<longrightarrow> ne t \<and> e < hk t"
    using exponentialLoop_ok [of lower lower lower upper e 1] assms lo by auto
  have su: "s \<le> min upper t" using st by simp
  have tn: "min upper t \<le> n" using assms(3) by simp
  obtain r where r: "binarySearch P A e s (min upper t) = Some r" "lastBlock ne hk e s (min upper t) r"
    using binarySearch_ok [OF st(5) su tn, of P e] by blast
  have "e < hk i" if "t \<le> i" "i < upper" "ne i" for i
    using that st(7) heads_sorted [of t i] by (cases "i = t") fastforce+
  then have "lastBlock ne hk e lower upper r"
    using r(2) st su by (auto simp: lastBlock_def not_le) (metis not_le)+
  then show ?thesis using first st(1) r(1) by (simp add: exponentialSearch_def)
qed

end

context sorted_heads
begin

lemma exponentialSearch_skip:
  assumes "0 \<le> bi" "bi \<le> c" "\<And>j. bi \<le> j \<Longrightarrow> j < c \<Longrightarrow> \<not> ne j" "ne c" "c < upper" "upper \<le> n" "bi = c \<or> hk c \<le> e"
  shows "exponentialSearch P A e bi upper = exponentialSearch P A e c upper"
proof (cases "bi = c")
  case False
  have first: "skipEmpty A upper bi = Some c" "skipEmpty A upper c = Some c"
  proof -
    obtain r where r: "skipEmpty A upper bi = Some r" "bi \<le> r" "\<forall>i. bi \<le> i \<and> i < r \<longrightarrow> \<not> ne i" "r < upper \<longrightarrow> ne r"
      using skipEmpty_ok [of bi upper] assms by auto
    have "\<not> c < r" using r(3) assms(2,4) by auto
    moreover have "\<not> r < c" using r(2,4) assms(3,5) by force
    ultimately show "skipEmpty A upper bi = Some c" using r(1) by simp
    show "skipEmpty A upper c = Some c" using assms ne_in [of c] by (subst skipEmpty.simps) (simp add: empty_at)
  qed
  have "hk c < e \<or> hk c = e" using False assms(7) by auto
  then have "exponentialLoop A e upper bi c 1 = exponentialLoop A e upper c c 1"
    using assms ne_in [of c] by (subst (1 2) exponentialLoop.simps) (simp add: head_at)
  then show ?thesis using first by (simp add: exponentialSearch_def)
qed simp

text \<open>The search for the next block of an insertion that starts at \<open>bi\<close>, where \<open>c\<close> is the first block that is not empty.\<close>

lemma insertion_target:
  assumes "0 \<le> bi" "bi \<le> c" "\<And>j. bi \<le> j \<Longrightarrow> j < c \<Longrightarrow> \<not> ne j" "ne c" "c < upper" "upper \<le> n" "bi = c \<or> hk c \<le> e"
  shows "\<exists>r nb. exponentialSearch P A e bi upper = Some r \<and> c \<le> r \<and> r < upper \<and> ne r \<and> (r = c \<or> hk r \<le> e) \<and>
     findNext A r upper = Some nb \<and> r < nb \<and> nb \<le> upper \<and> (\<forall>j. r < j \<and> j < nb \<longrightarrow> \<not> ne j) \<and> (nb < upper \<longrightarrow> ne nb \<and> e < hk nb) \<and>
     pmaLinearSearch A e r upper = Some r"
proof -
  obtain r where r: "exponentialSearch P A e c upper = Some r" "lastBlock ne hk e c upper r"
    using exponentialSearch_ok [OF assms(4-6)] by blast
  have ner: "ne r" "r < upper" "c \<le> r" "r = c \<or> hk r \<le> e" using r(2) assms(4,5) by (auto simp: lastBlock_def)
  obtain nb where nb: "skipEmpty A upper (r + 1) = Some nb" "r + 1 \<le> nb" "nb \<le> max (r + 1) upper"
    "\<forall>i. r + 1 \<le> i \<and> i < nb \<longrightarrow> \<not> ne i" "nb < upper \<longrightarrow> ne nb"
    using skipEmpty_ok [of "r + 1" upper] assms(6) ne_in [OF ner(1)] by auto
  have "lastBlock ne hk e r upper r" using r(2) by (auto simp: lastBlock_def)
  moreover obtain l where l: "pmaLinearSearch A e r upper = Some l" "lastBlock ne hk e r upper l"
    using linearSearch_ok [of r upper e] ne_in [OF ner(1)] assms(6) by auto
  ultimately have "l = r" using lastBlock_unique by blast
  moreover have "e < hk nb" if "nb < upper" using that r(2) nb by (auto simp: lastBlock_def)
  moreover have "exponentialSearch P A e bi upper = Some r" using r(1) exponentialSearch_skip [OF assms, of P] by simp
  ultimately show ?thesis using ner nb l(1) by (auto simp: findNext_def)
qed

end

section \<open>Correctness of the searches in the batch\<close>

text \<open>On a partitioned range, \<open>std::lower_bound\<close> returns the partition point.\<close>

lemma std_lower_bound_ok:
  assumes "0 \<le> first" "0 \<le> len" "first + len \<le> int (length xs)"
    and "\<And>i j. first \<le> i \<Longrightarrow> i \<le> j \<Longrightarrow> j < first + len \<Longrightarrow> below (xs ! nat j) \<Longrightarrow> below (xs ! nat i)"
  shows "\<exists>r. std_lower_bound below xs first len = Some r \<and> first \<le> r \<and> r \<le> first + len \<and>
     (\<forall>i. first \<le> i \<and> i < r \<longrightarrow> below (xs ! nat i)) \<and> (\<forall>i. r \<le> i \<and> i < first + len \<longrightarrow> \<not> below (xs ! nat i))"
  using assms
proof (induction "nat len" arbitrary: first len rule: less_induct)
  case less
  show ?case
  proof (cases "0 < len")
    case True
    define half where "half = len div 2"
    have half: "0 \<le> half" "half < len" using True by (auto simp: half_def)
    have v: "idx xs (first + half) = Some (xs ! nat (first + half))" using less(2-4) half by (intro idx_in) auto
    show ?thesis
    proof (cases "below (xs ! nat (first + half))")
      case b: True
      have rec: "std_lower_bound below xs first len = std_lower_bound below xs (first + half + 1) (len - half - 1)"
        using True v b by (subst std_lower_bound.simps) (simp add: half_def Let_def)
      obtain r where r: "std_lower_bound below xs (first + half + 1) (len - half - 1) = Some r" "first + half + 1 \<le> r"
        "r \<le> first + len" "\<And>i. first + half + 1 \<le> i \<Longrightarrow> i < r \<Longrightarrow> below (xs ! nat i)"
        "\<And>i. r \<le> i \<Longrightarrow> i < first + len \<Longrightarrow> \<not> below (xs ! nat i)"
        using less(1) [of "len - half - 1" "first + half + 1"] less(2-5) half by (auto simp: algebra_simps)
      have "below (xs ! nat i)" if "first \<le> i" "i < r" for i
        using that r(4) [of i] less(5) [of i "first + half"] b half by (cases "i \<le> first + half") auto
      then show ?thesis using rec r(1,2,3,5) half(1) by auto
    next
      case b: False
      have rec: "std_lower_bound below xs first len = std_lower_bound below xs first half"
        using True v b by (subst std_lower_bound.simps) (simp add: half_def Let_def)
      obtain r where r: "std_lower_bound below xs first half = Some r" "first \<le> r"
        "r \<le> first + half" "\<And>i. first \<le> i \<Longrightarrow> i < r \<Longrightarrow> below (xs ! nat i)"
        "\<And>i. r \<le> i \<Longrightarrow> i < first + half \<Longrightarrow> \<not> below (xs ! nat i)"
        using less(1) [of half first] less(2-5) half by auto
      have "\<not> below (xs ! nat i)" if "r \<le> i" "i < first + len" for i
        using that r(5) [of i] less(5) [of "first + half" i] b r(2) half by (cases "i < first + half") auto
      then show ?thesis using rec r(1-4) half by auto
    qed
  next
    case False
    then show ?thesis using less(2,3) by (subst std_lower_bound.simps) auto
  qed
qed

definition sortedBatch :: "('k::linorder, 'v) tparams \<Rightarrow> 'v list \<Rightarrow> bool" where
  "sortedBatch P batch \<longleftrightarrow> sorted (map (keyOfValue P) batch) \<and> (\<forall>v\<in>set batch. NULL_KEY P < keyOfValue P v)"

lemma sortedBatch_mono:
  "sortedBatch P batch \<Longrightarrow> 0 \<le> i \<Longrightarrow> i \<le> j \<Longrightarrow> j < int (length batch) \<Longrightarrow>
     keyOfValue P (batch ! nat i) \<le> keyOfValue P (batch ! nat j)"
  using sorted_nth_mono [of "map (keyOfValue P) batch" "nat i" "nat j"] by (auto simp: sortedBatch_def nat_less_iff)

lemma firstBatchLoop_ok:
  assumes "start < int (length batch)" "c = start + 1 - 2 ^ (k + 1)" "0 < c + 2 ^ k" "h \<le> keyOfValue P (batch ! nat (c + 2 ^ k))"
  shows "\<exists>c' k'. firstBatchLoop P batch h c k = Some (c', k') \<and> c' = start + 1 - 2 ^ (k' + 1) \<and> 0 < c' + 2 ^ k' \<and>
     h \<le> keyOfValue P (batch ! nat (c' + 2 ^ k')) \<and> (0 < c' \<longrightarrow> keyOfValue P (batch ! nat c') < h)"
  using assms(2-4)
proof (induction "nat c" arbitrary: c k rule: less_induct)
  case less
  have "(1 :: int) \<le> 2 ^ k" by simp
  then have "c < start" using less(2) unfolding power_add power_one_right by linarith
  show ?case
  proof (cases "0 < c \<and> h \<le> keyOfValue P (batch ! nat c)")
    case True
    have v: "idx batch c = Some (batch ! nat c)" using True \<open>c < start\<close> assms(1) by (intro idx_in) auto
    have rec: "firstBatchLoop P batch h c k = firstBatchLoop P batch h (c - 2 ^ (k + 1)) (k + 1)"
      using True v by (subst firstBatchLoop.simps) (auto simp: order.order_iff_strict)
    show ?thesis unfolding rec using True less(2) by (intro less(1)) auto
  next
    case False
    have "firstBatchLoop P batch h c k = Some (c, k)"
    proof (cases "0 < c")
      case True
      then have "idx batch c = Some (batch ! nat c)" using \<open>c < start\<close> assms(1) by (intro idx_in) auto
      then show ?thesis using True False by (subst firstBatchLoop.simps) (auto simp: not_le)
    qed (subst firstBatchLoop.simps, simp)
    then show ?thesis using less(2,3,4) False by auto
  qed
qed

lemma findFirstBatchElement_ok:
  assumes "sortedBatch P batch" "0 < start" "start < int (length batch)" "h \<le> keyOfValue P (batch ! nat start)"
  shows "\<exists>r. findFirstBatchElement P batch start h = Some r \<and> 0 \<le> r \<and> r \<le> start \<and>
     (\<forall>i. 0 \<le> i \<and> i < r \<longrightarrow> keyOfValue P (batch ! nat i) < h) \<and> h \<le> keyOfValue P (batch ! nat r)"
proof -
  obtain c k where c: "firstBatchLoop P batch h (start - 1) 0 = Some (c, k)" "c = start + 1 - 2 ^ (k + 1)" "0 < c + 2 ^ k"
    "h \<le> keyOfValue P (batch ! nat (c + 2 ^ k))" "0 < c \<longrightarrow> keyOfValue P (batch ! nat c) < h"
    using firstBatchLoop_ok [OF assms(3), of "start - 1" 0 h P] assms(2,4) by auto
  define c' where "c' = (if c < 0 then 0 else c)"
  have bound: "0 \<le> c'" "c + 2 ^ k \<le> c' + 2 ^ k" "c' + 2 ^ k \<le> start"
    using c(2,3) one_le_power [of "2::int" k] by (auto simp: c'_def)
  note mono = sortedBatch_mono [OF assms(1)]
  have split: "keyOfValue P (batch ! nat i) < h"
    if "c' \<le> i" "i \<le> j" "j < c' + (2 ^ k + 1)" "keyOfValue P (batch ! nat j) < h" for i j
  proof -
    have "0 \<le> i" "j < int (length batch)" using that bound assms(3) by linarith+
    then show ?thesis using mono [OF _ that(2)] that(4) by (meson le_less_trans)
  qed
  obtain r where r: "std_lower_bound (\<lambda>v. keyOfValue P v < h) batch c' (2 ^ k + 1) = Some r" "c' \<le> r" "r \<le> c' + (2 ^ k + 1)"
    "\<And>i. c' \<le> i \<Longrightarrow> i < r \<Longrightarrow> keyOfValue P (batch ! nat i) < h"
    "\<And>i. r \<le> i \<Longrightarrow> i < c' + (2 ^ k + 1) \<Longrightarrow> h \<le> keyOfValue P (batch ! nat i)"
    using std_lower_bound_ok [of c' "2 ^ k + 1" batch "\<lambda>v. keyOfValue P v < h"] bound assms(3) split
    by (auto simp: not_less)
  have top: "h \<le> keyOfValue P (batch ! nat (c' + 2 ^ k))"
    using c(3,4) mono [of "c + 2 ^ k" "c' + 2 ^ k"] bound assms(3) by auto
  have rb: "r \<le> c' + 2 ^ k"
  proof (rule ccontr)
    assume "\<not> r \<le> c' + 2 ^ k"
    then have "keyOfValue P (batch ! nat (c' + 2 ^ k)) < h" by (intro r(4)) auto
    then show False using top by simp
  qed
  have low: "keyOfValue P (batch ! nat i) < h" if "0 \<le> i" "i < r" for i
  proof (cases "c' \<le> i")
    case False
    then have "0 < c" "i \<le> c" using that by (auto simp: c'_def split: if_splits)
    moreover have "c < int (length batch)" 
    proof -
      have "(0 :: int) \<le> 2 ^ k" "c = c'" using \<open>0 < c\<close> by (simp_all add: c'_def)
      then show ?thesis using bound(3) assms(3) by linarith
    qed
    ultimately show ?thesis using c(5) mono [of i c] that(1) by auto
  qed (use r(4) that in auto)
  have "h \<le> keyOfValue P (batch ! nat r)" using r(5) [of r] rb by auto
  moreover have "findFirstBatchElement P batch start h = Some r"
    using c(1) r(1) by (simp add: findFirstBatchElement_def c'_def)
  ultimately show ?thesis using low rb bound r(2) by auto
qed

lemma lastElementLoop_ok:
  assumes "sortedBatch P batch" "0 \<le> i" "i \<le> right" "right \<le> int (length batch)"
  shows "\<exists>r. lastElementLoop P batch h right i = Some r \<and> i \<le> r \<and> r \<le> right \<and>
     (\<forall>j. i \<le> j \<and> j < r \<longrightarrow> keyOfValue P (batch ! nat j) < h) \<and> (\<forall>j. r \<le> j \<and> j < right \<longrightarrow> h \<le> keyOfValue P (batch ! nat j))"
  using assms(2,3)
proof (induction "nat (right - i)" arbitrary: i rule: less_induct)
  case less
  show ?case
  proof (cases "i < right \<and> keyOfValue P (batch ! nat i) < h")
    case True
    then have rec: "lastElementLoop P batch h right i = lastElementLoop P batch h right (i + 1)"
      using less(2) assms(4) by (subst lastElementLoop.simps) auto
    obtain r where r: "lastElementLoop P batch h right (i + 1) = Some r" "i + 1 \<le> r" "r \<le> right"
      "\<And>j. i + 1 \<le> j \<Longrightarrow> j < r \<Longrightarrow> keyOfValue P (batch ! nat j) < h"
      "\<forall>j. r \<le> j \<and> j < right \<longrightarrow> h \<le> keyOfValue P (batch ! nat j)"
      using less(1) [of "i + 1"] less(2) True by auto
    have "keyOfValue P (batch ! nat j) < h" if "i \<le> j" "j < r" for j
      using that r(4) [of j] True by (cases "i = j") auto
    then show ?thesis using rec r by auto
  next
    case False
    have "lastElementLoop P batch h right i = Some i"
      using False less(2) assms(4) by (subst lastElementLoop.simps) auto
    moreover have "h \<le> keyOfValue P (batch ! nat j)" if "i \<le> j" "j < right" for j
      using that False sortedBatch_mono [OF assms(1), of i j] less(2) assms(4) by (auto simp: not_less)
    ultimately show ?thesis using less(3) by auto
  qed
qed

end
