(* ===== verification/Queries.thy ===== *)
theory Queries
  imports Search
begin

text \<open>
  The queries \<open>contains\<close>, \<open>find\<close>, \<open>lowerBound\<close>, \<open>rangeQuery\<close>, \<open>begin\<close> and \<open>end\<close>, and the iterator
  \<open>BlockSparseArrayIterator\<close> of \<open>dataStructures/iterators.hpp\<close>. As the search routines, they are the same
  text in both arrays and stated over \<open>arrayView\<close>.

  The locale \<open>block_store\<close> describes an array as the list of its entries: every entry is empty or a
  well-formed block, and the keys of all blocks together are strictly sorted. It gives the contract
  \<open>sorted_heads\<close> of the searches, and inside it the queries are related to the list of all elements.
  The interpretation \<open>bb\<close> is for the states of \<open>BatchedSparseArray\<close> that satisfy the invariant \<open>wfPma\<close>.
\<close>

section \<open>Iterators\<close>

record blockIter =
  itBlock :: int
  itElement :: int

definition mkIter :: "int \<Rightarrow> int \<Rightarrow> blockIter" where
  "mkIter b i = \<lparr>itBlock = b, itElement = i\<rparr>"

definition itFindNext :: "('k, 'v) arrayView \<Rightarrow> blockIter \<Rightarrow> blockIter option" where
  "itFindNext A it = do {
     s \<leftarrow> avBlockSize A (itBlock it);
     if itElement it + 1 < int s then Some (it\<lparr>itElement := itElement it + 1\<rparr>)
     else do { b \<leftarrow> skipEmpty A (avSize A) (itBlock it + 1); Some (mkIter b 0) } }"

text \<open>
  The increment operators return an iterator and change \<open>*this\<close>: the prefix operator returns the old
  position, the postfix operator the new one.
\<close>

definition itPrefixInc :: "('k, 'v) arrayView \<Rightarrow> blockIter \<Rightarrow> (blockIter \<times> blockIter) option" where
  "itPrefixInc A it = do { it' \<leftarrow> itFindNext A it; Some (it, it') }"

definition itPostfixInc :: "('k, 'v) arrayView \<Rightarrow> blockIter \<Rightarrow> (blockIter \<times> blockIter) option" where
  "itPostfixInc A it = do { it' \<leftarrow> itFindNext A it; Some (it', it') }"

definition itDeref :: "('k, 'v) arrayView \<Rightarrow> blockIter \<Rightarrow> 'v option" where
  "itDeref A it = do {
     b \<leftarrow> avEntry A (itBlock it);
     cells \<leftarrow> block b;
     idx cells (itElement it) }"

section \<open>Queries\<close>

text \<open>The loop \<open>while (empty(first) && first != size) ++first\<close> of \<open>begin\<close>.\<close>

partial_function (option) beginLoop :: "('k, 'v) arrayView \<Rightarrow> int \<Rightarrow> int option" where
  "beginLoop A first = do {
     e \<leftarrow> avEmpty A first;
     if e \<and> first \<noteq> avSize A then beginLoop A (first + 1) else Some first }"

declare beginLoop.simps [code]

definition itBegin :: "('k, 'v) arrayView \<Rightarrow> blockIter option" where
  "itBegin A = do { first \<leftarrow> beginLoop A 0; Some (mkIter first 0) }"

definition itEnd :: "('k, 'v) arrayView \<Rightarrow> blockIter" where
  "itEnd A = mkIter (avSize A) 0"

definition contains :: "('k::linorder, 'v) tparams \<Rightarrow> ('k, 'v) arrayView \<Rightarrow> 'k \<Rightarrow> bool option" where
  "contains P A e = do {
     blockIndex \<leftarrow> findContainingBlock P A e;
     if blockIndex \<ge> 0
     then do {
       b \<leftarrow> avEntry A blockIndex;
       if \<not> isEmpty b then blockContains P b e else Some False }
     else Some False }"

definition find :: "('k::linorder, 'v) tparams \<Rightarrow> ('k, 'v) arrayView \<Rightarrow> 'k \<Rightarrow> blockIter option" where
  "find P A e = do {
     blockIndex \<leftarrow> findContainingBlock P A e;
     if blockIndex < 0 then Some (itEnd A)
     else do {
       b \<leftarrow> avEntry A blockIndex;
       if isEmpty b then Some (itEnd A)
       else do {
         indexInBlock \<leftarrow> findIndex P b e;
         if indexInBlock \<ge> bsize b then Some (itEnd A)
         else do {
           v \<leftarrow> get b indexInBlock;
           if keyOfValue P v \<noteq> e then Some (itEnd A)
           else Some (mkIter blockIndex (int indexInBlock)) } } } }"

definition lowerBound :: "('k::linorder, 'v) tparams \<Rightarrow> ('k, 'v) arrayView \<Rightarrow> 'k \<Rightarrow> blockIter option" where
  "lowerBound P A e = do {
     blockIndex \<leftarrow> findBlockIndex P A e;
     if blockIndex \<ge> avSize A then Some (itEnd A)
     else do {
       b \<leftarrow> avEntry A blockIndex;
       indexInBlock \<leftarrow> findIndex P b e;
       if indexInBlock \<ge> bsize b
       then do {
         blockIndex \<leftarrow> findNext A blockIndex (avSize A);
         if blockIndex \<ge> avSize A then Some (itEnd A)
         else do {
           (if NDEBUG P then Some () else do { em \<leftarrow> avEmpty A blockIndex; assertMsg False (\<not> em) });
           Some (mkIter blockIndex 0) } }
       else Some (mkIter blockIndex (int indexInBlock)) } }"

text \<open>
  \<open>rangeQuery\<close> calls the evaluator \<open>f\<close> on every element of the range; \<open>f\<close> may change the state \<open>s\<close> of its
  caller.
\<close>

partial_function (option) rangeLoop ::
  "('k::linorder, 'v) tparams \<Rightarrow> ('k, 'v) arrayView \<Rightarrow> 'k \<Rightarrow> 'k \<Rightarrow> ('v \<Rightarrow> 's \<Rightarrow> 's) \<Rightarrow> blockIter \<Rightarrow> 's \<Rightarrow> 's option" where
  "rangeLoop P A left right f current s =
     (if current \<noteq> itEnd A
      then do {
        v \<leftarrow> itDeref A current;
        if keyOfValue P v < right
        then do {
          assertMsg (NDEBUG P) ((left < keyOfValue P v \<or> left = keyOfValue P v) \<and> keyOfValue P v < right);
          let s = f v s;
          current \<leftarrow> itFindNext A current;
          rangeLoop P A left right f current s }
        else Some s }
      else Some s)"

declare rangeLoop.simps [code]

definition rangeQuery ::
  "('k::linorder, 'v) tparams \<Rightarrow> ('k, 'v) arrayView \<Rightarrow> 'k \<Rightarrow> 'k \<Rightarrow> ('v \<Rightarrow> 's \<Rightarrow> 's) \<Rightarrow> 's \<Rightarrow> 's option" where
  "rangeQuery P A left right f s = do {
     current \<leftarrow> lowerBound P A left;
     rangeLoop P A left right f current s }"

section \<open>Arrays as sorted lists of blocks\<close>

text \<open>What the queries of \<open>BatchedSparseArray\<close> read of its state.\<close>

definition arrayOf :: "('k, 'v) tparams \<Rightarrow> ('k, 'v) sds \<Rightarrow> ('k, 'v) arrayView" where
  "arrayOf P S = \<lparr>avEmpty = emptyAt P S, avEntry = idx (pma S), avSize = sdsSize S\<rparr>"

definition okEntry :: "('k::linorder, 'v) tparams \<Rightarrow> ('k, 'v) PmaEntry \<Rightarrow> bool" where
  "okEntry P b \<longleftrightarrow> b = emptyEntry P \<or> wfBlock P b \<and> 0 < bsize b"

definition entriesKeys :: "('k, 'v) tparams \<Rightarrow> ('k, 'v) PmaEntry list \<Rightarrow> 'k list" where
  "entriesKeys P es = concat (map (keysOf P) es)"

definition entriesElems :: "('k, 'v) PmaEntry list \<Rightarrow> 'v list" where
  "entriesElems es = concat (map elems es)"

definition okEntries :: "('k::linorder, 'v) tparams \<Rightarrow> ('k, 'v) PmaEntry list \<Rightarrow> bool" where
  "okEntries P es \<longleftrightarrow> (\<forall>b\<in>set es. okEntry P b) \<and> strictly_sorted (entriesKeys P es)"

definition usedEntries :: "('k, 'v) sds \<Rightarrow> ('k, 'v) PmaEntry list" where
  "usedEntries S = take (nat (sdsSize S)) (pma S)"

definition wfPma :: "('k::linorder, 'v) tparams \<Rightarrow> ('k, 'v) sds \<Rightarrow> bool" where
  "wfPma P S \<longleftrightarrow> 0 \<le> sdsSize S \<and> sdsSize S \<le> sdsCapacity S \<and> sdsCapacity S = int (length (pma S)) \<and>
     okEntries P (usedEntries S) \<and> (\<forall>b\<in>set (drop (nat (sdsSize S)) (pma S)). b = emptyEntry P)"

lemma entriesKeys_elems: "entriesKeys P es = map (keyOfValue P) (entriesElems es)"
  by (simp add: entriesKeys_def entriesElems_def keysOf_def [abs_def] map_concat comp_def)

lemma emptyEntry_sel [simp]:
  "elems (emptyEntry P) = []" "keysOf P (emptyEntry P) = []" "isEmpty (emptyEntry P)" "bsize (emptyEntry P) = 0"
  "head (emptyEntry P) = NULL_KEY P" "block (emptyEntry P) = None"
  by (simp_all add: emptyEntry_def elems_def keysOf_def isEmpty_def cellsOf_def)

lemma okEntry_cases:
  assumes "okEntry P b"
  shows "(isEmpty b \<and> b = emptyEntry P) \<or> (\<not> isEmpty b \<and> wfBlock P b \<and> 0 < bsize b \<and> NULL_KEY P < head b \<and> keysOf P b \<noteq> [] \<and> head b = hd (keysOf P b))"
proof (cases "b = emptyEntry P")
  case False
  then have b: "wfBlock P b" "0 < bsize b" using assms by (auto simp: okEntry_def)
  then have "\<not> isEmpty b" by (auto simp: wfBlock_def okBlock_def isEmpty_def)
  moreover have "keysOf P b \<noteq> []" using b length_keysOf [of P b] by (auto simp del: length_keysOf)
  moreover have "head b = hd (keysOf P b)" using b by (auto simp: wfBlock_def)
  moreover have "NULL_KEY P < hd (keysOf P b)" using b(1) calculation(2) by (auto simp: wfBlock_def)
  ultimately show ?thesis using b by auto
qed auto

lemma okEntry_empty_iff:
  assumes "okEntry P b"
  shows "(head b = NULL_KEY P) = isEmpty b" "(bsize b = 0) = isEmpty b"
  using okEntry_cases [OF assms] by auto

text \<open>Splitting an array at a block.\<close>

lemma entriesElems_split:
  "i < length es \<Longrightarrow> entriesElems es = entriesElems (take i es) @ elems (es ! i) @ entriesElems (drop (Suc i) es)"
  by (subst id_take_nth_drop [of i es]) (auto simp: entriesElems_def)

lemma entriesKeys_split:
  "i < length es \<Longrightarrow> entriesKeys P es = entriesKeys P (take i es) @ keysOf P (es ! i) @ entriesKeys P (drop (Suc i) es)"
  by (subst id_take_nth_drop [of i es]) (auto simp: entriesKeys_def)

lemma okEntries_nth: "okEntries P es \<Longrightarrow> i < length es \<Longrightarrow> okEntry P (es ! i)"
  by (simp add: okEntries_def)

lemma keysOf_in_entries: "i < length es \<Longrightarrow> set (keysOf P (es ! i)) \<subseteq> set (entriesKeys P es)"
  using nth_mem [of i es] by (force simp: entriesKeys_def)

lemma okEntries_ordered:
  assumes "okEntries P es" "i < j" "j < length es" "x \<in> set (keysOf P (es ! i))" "y \<in> set (keysOf P (es ! j))"
  shows "x < y"
proof -
  have "strictly_sorted (entriesKeys P (take j es) @ keysOf P (es ! j) @ entriesKeys P (drop (Suc j) es))"
    using assms(1) entriesKeys_split [OF assms(3), of P] by (simp add: okEntries_def)
  moreover have "x \<in> set (entriesKeys P (take j es))"
    using keysOf_in_entries [of i "take j es" P] assms by auto
  ultimately show ?thesis using assms(5) by (auto simp: sorted_wrt_append)
qed

lemma wfBlock_head_le: "wfBlock P b \<Longrightarrow> k \<in> set (keysOf P b) \<Longrightarrow> head b \<le> k"
  by (cases "keysOf P b") (use length_keysOf [of P b] in \<open>auto simp: wfBlock_def simp del: length_keysOf\<close>)

locale block_store =
  fixes P :: "('k::linorder, 'v) tparams" and A :: "('k, 'v) arrayView" and es :: "('k, 'v) PmaEntry list"
  assumes store_size: "avSize A = int (length es)"
    and store_empty: "0 \<le> i \<Longrightarrow> i < max 1 (int (length es)) \<Longrightarrow>
      avEmpty A i = Some (if i < int (length es) then isEmpty (es ! nat i) else True)"
    and store_entry: "0 \<le> i \<Longrightarrow> i < int (length es) \<Longrightarrow> avEntry A i = Some (es ! nat i)"
    and store_ok: "okEntries P es"

definition usedIn :: "('k, 'v) PmaEntry list \<Rightarrow> int \<Rightarrow> bool" where
  "usedIn es i \<longleftrightarrow> 0 \<le> i \<and> i < int (length es) \<and> \<not> isEmpty (es ! nat i)"

definition headIn :: "('k, 'v) PmaEntry list \<Rightarrow> int \<Rightarrow> 'k" where
  "headIn es i = head (es ! nat i)"

sublocale block_store \<subseteq> sorted_heads A "int (length es)" "usedIn es" "headIn es"
proof (unfold_locales, goal_cases)
  case (3 i)
  then show ?case by (auto simp: store_empty usedIn_def)
next
  case (6 i j)
  then have ij: "nat i < nat j" "nat j < length es" "nat i < length es" by (auto simp: usedIn_def)
  then have "head (es ! nat i) \<in> set (keysOf P (es ! nat i))" "head (es ! nat j) \<in> set (keysOf P (es ! nat j))"
    using okEntry_cases [OF okEntries_nth [OF store_ok]] 6 by (metis hd_in_set usedIn_def)+
  then show ?case using okEntries_ordered [OF store_ok ij(1,2)] by (simp add: headIn_def)
qed (auto simp: store_size usedIn_def avHead_def store_entry headIn_def)

context block_store
begin

lemma used_block:
  assumes "usedIn es i"
  shows "nat i < length es" "wfBlock P (es ! nat i)" "0 < bsize (es ! nat i)" "avEntry A i = Some (es ! nat i)"
    "\<not> isEmpty (es ! nat i)" "0 \<le> i" "i < int (length es)"
  using assms okEntry_cases [OF okEntries_nth [OF store_ok, of "nat i"]] by (auto simp: usedIn_def store_entry)

text \<open>The block that contains a key is the one the searches find.\<close>

lemma key_in_last_block:
  assumes "k \<in> set (entriesKeys P es)"
  shows "\<exists>i. usedIn es i \<and> k \<in> set (keysOf P (es ! nat i)) \<and> headIn es i \<le> k"
proof -
  obtain b where b: "b \<in> set es" "k \<in> set (keysOf P b)" using assms by (auto simp: entriesKeys_def)
  then obtain j where j: "j < length es" "es ! j = b" by (auto simp: in_set_conv_nth)
  have "\<not> isEmpty b" "wfBlock P b" using okEntry_cases [OF okEntries_nth [OF store_ok j(1)]] b(2) j(2) by auto
  then show ?thesis using j b wfBlock_head_le [of P b k] by (intro exI [of _ "int j"]) (auto simp: usedIn_def headIn_def)
qed

lemma contains_ok: "contains P A e = Some (e \<in> set (entriesKeys P es))"
proof -
  obtain r where r: "findContainingBlock P A e = Some r"
    "if r = -1 then \<forall>i. usedIn es i \<longrightarrow> e < headIn es i
     else usedIn es r \<and> headIn es r \<le> e \<and> (\<forall>i. r < i \<and> usedIn es i \<longrightarrow> e < headIn es i)"
    using findContainingBlock_ok [of P e] by auto
  show ?thesis
  proof (cases "r = -1")
    case True
    then have "e \<notin> set (entriesKeys P es)" using r(2) key_in_last_block [of e] by fastforce
    then show ?thesis using r(1) True by (simp add: contains_def)
  next
    case False
    then have u: "usedIn es r" using r(2) by simp
    have "e \<in> set (keysOf P (es ! nat r))" if "e \<in> set (entriesKeys P es)"
    proof -
      obtain i where i: "usedIn es i" "e \<in> set (keysOf P (es ! nat i))" "headIn es i \<le> e" using key_in_last_block \<open>e \<in> _\<close> by blast
      have "headIn es r \<in> set (keysOf P (es ! nat r))"
        using okEntry_cases [OF okEntries_nth [OF store_ok]] used_block [OF u] by (metis hd_in_set headIn_def)
      then have "\<not> i < r" using okEntries_ordered [OF store_ok, of "nat i" "nat r" e "headIn es r"] i used_block [OF u] r(2) False
        by (auto simp: usedIn_def)
      moreover have "\<not> r < i" using i r(2) False by auto
      ultimately show ?thesis using i by (cases "i = r") auto
    qed
    moreover have "set (keysOf P (es ! nat r)) \<subseteq> set (entriesKeys P es)" using keysOf_in_entries used_block [OF u] by blast
    ultimately show ?thesis
      using r(1) used_block [OF u] blockContains_ok [of P "es ! nat r" e] by (auto simp: contains_def)
  qed
qed

end

text \<open>The elements from an iterator to the end of the array.\<close>

definition restFrom :: "('k, 'v) PmaEntry list \<Rightarrow> blockIter \<Rightarrow> 'v list" where
  "restFrom es it = drop (nat (itElement it)) (if itBlock it < int (length es) then elems (es ! nat (itBlock it)) else []) @
     entriesElems (drop (Suc (nat (itBlock it))) es)"

definition validIter :: "('k, 'v) PmaEntry list \<Rightarrow> blockIter \<Rightarrow> bool" where
  "validIter es it \<longleftrightarrow> it = mkIter (int (length es)) 0 \<or>
     usedIn es (itBlock it) \<and> 0 \<le> itElement it \<and> itElement it < int (bsize (es ! nat (itBlock it)))"

lemma mkIter_sel [simp]: "itBlock (mkIter b i) = b" "itElement (mkIter b i) = i"
  by (simp_all add: mkIter_def)

lemma restFrom_end [simp]: "restFrom es (mkIter (int (length es)) 0) = []"
  by (simp add: restFrom_def entriesElems_def)

context block_store
begin

lemma elems_unused: "\<not> usedIn es (int i) \<Longrightarrow> i < length es \<Longrightarrow> elems (es ! i) = []"
  using okEntry_cases [OF okEntries_nth [OF store_ok, of i]] by (auto simp: usedIn_def)

lemma skip_unused:
  assumes "a \<le> b" "b \<le> length es" "\<And>i. a \<le> i \<Longrightarrow> i < b \<Longrightarrow> \<not> usedIn es (int i)"
  shows "entriesElems (drop a es) = entriesElems (drop b es)"
  using assms
proof (induction b)
  case (Suc b)
  show ?case
  proof (cases "a = Suc b")
    case False
    then have "entriesElems (drop a es) = entriesElems (drop b es)" using Suc by auto
    also have "drop b es = es ! b # drop (Suc b) es" using Suc.prems(2) by (simp add: Cons_nth_drop_Suc)
    also have "entriesElems \<dots> = entriesElems (drop (Suc b) es)"
      using elems_unused [of b] Suc.prems False by (simp add: entriesElems_def)
    finally show ?thesis .
  qed simp
qed simp

lemma restFrom_start:
  assumes "skipEmpty A (int (length es)) (int a) = Some r" "a \<le> length es" "int a \<le> r" "r \<le> int (length es)"
    "\<And>i. int a \<le> i \<Longrightarrow> i < r \<Longrightarrow> \<not> usedIn es i" "r < int (length es) \<longrightarrow> usedIn es r"
  shows "validIter es (mkIter r 0) \<and> restFrom es (mkIter r 0) = entriesElems (drop a es)"
proof -
  have e: "entriesElems (drop a es) = entriesElems (drop (nat r) es)"
    by (rule skip_unused) (use assms in auto)
  show ?thesis
  proof (cases "r < int (length es)")
    case True
    then have "drop (nat r) es = es ! nat r # drop (Suc (nat r)) es"
      using assms(3) by (simp add: Cons_nth_drop_Suc nat_less_iff)
    then show ?thesis using True assms(6) e used_block [of r] by (simp add: validIter_def restFrom_def entriesElems_def)
  next
    case False
    then have "r = int (length es)" using assms(4) by simp
    then show ?thesis using e by (simp add: validIter_def entriesElems_def)
  qed
qed

lemma skip_from:
  assumes "a \<le> length es"
  shows "\<exists>r. skipEmpty A (int (length es)) (int a) = Some r \<and> validIter es (mkIter r 0) \<and>
     restFrom es (mkIter r 0) = entriesElems (drop a es) \<and> r \<le> int (length es)"
  using skipEmpty_ok [of "int a" "int (length es)"] restFrom_start [of a] assms by fastforce

lemma iter_step:
  assumes "validIter es it" "it \<noteq> itEnd A"
  shows "\<exists>v it'. itDeref A it = Some v \<and> itFindNext A it = Some it' \<and> validIter es it' \<and> restFrom es it = v # restFrom es it'"
proof -
  have u: "usedIn es (itBlock it)" and el: "0 \<le> itElement it" "itElement it < int (bsize (es ! nat (itBlock it)))"
    using assms by (auto simp: validIter_def itEnd_def store_size)
  note ub = used_block [OF u]
  let ?b = "es ! nat (itBlock it)"
  let ?i = "nat (itElement it)"
  have ok: "okBlock P ?b" using ub(2) by simp
  have d: "itDeref A it = Some (elems ?b ! ?i)"
    using ub(4) okBlockD [OF ok] el by (auto simp: itDeref_def elems_def)
  have cons: "drop ?i (elems ?b) = elems ?b ! ?i # drop (Suc ?i) (elems ?b)"
    using el ok by (simp add: Cons_nth_drop_Suc nat_less_iff)
  have bs: "avBlockSize A (itBlock it) = Some (bsize ?b)" using ub(4) by (simp add: avBlockSize_def)
  show ?thesis
  proof (cases "itElement it + 1 < int (bsize ?b)")
    case True
    then have "itFindNext A it = Some (it\<lparr>itElement := itElement it + 1\<rparr>)" using bs by (simp add: itFindNext_def)
    moreover have "validIter es (it\<lparr>itElement := itElement it + 1\<rparr>)" using True u el by (simp add: validIter_def)
    ultimately show ?thesis using d cons el ub(7) by (auto simp: restFrom_def nat_add_distrib)
  next
    case False
    obtain r where r: "skipEmpty A (int (length es)) (int (Suc (nat (itBlock it)))) = Some r" "validIter es (mkIter r 0)"
      "restFrom es (mkIter r 0) = entriesElems (drop (Suc (nat (itBlock it))) es)"
      using skip_from [of "Suc (nat (itBlock it))"] ub(1) by auto
    have "itFindNext A it = Some (mkIter r 0)" using bs False r(1) ub(6) by (simp add: itFindNext_def store_size algebra_simps)
    moreover have "drop (Suc ?i) (elems ?b) = []" using False el ok by auto
    ultimately show ?thesis using d cons r ub(7) by (auto simp: restFrom_def)
  qed
qed

lemma begin_ok: "\<exists>it. itBegin A = Some it \<and> validIter es it \<and> restFrom es it = entriesElems es"
  if "length es = 0 \<or> avEmpty A (int (length es)) = Some True"
proof -
  obtain r where r: "skipEmpty A (int (length es)) 0 = Some r" "validIter es (mkIter r 0)" "restFrom es (mkIter r 0) = entriesElems es"
    using skip_from [of 0] by auto
  have "beginLoop A c = skipEmpty A (int (length es)) c" if "0 \<le> c" "c \<le> int (length es)" for c
    using that
  proof (induction "nat (int (length es) - c)" arbitrary: c rule: less_induct)
    case less
    show ?case
    proof (cases "c = int (length es)")
      case True
      then have "avEmpty A c = Some True" using \<open>length es = 0 \<or> _\<close> store_empty [of 0] by auto
      then show ?thesis using True by (subst beginLoop.simps, subst skipEmpty.simps) (simp add: store_size)
    next
      case False
      then have "avEmpty A c = Some (isEmpty (es ! nat c))" using less(2,3) by (simp add: store_empty)
      then show ?thesis
        using False less(1) [of "c + 1"] less(2,3) by (subst beginLoop.simps, subst skipEmpty.simps) (auto simp: store_size)
    qed
  qed
  then show ?thesis using r by (simp add: itBegin_def)
qed

end

lemma dropWhile_split:
  assumes "\<forall>v\<in>set xs. Q v" "zs = [] \<or> \<not> Q (hd zs)"
  shows "dropWhile Q (xs @ ys @ zs) = (if \<forall>v\<in>set ys. Q v then zs else dropWhile Q ys @ zs)"
proof -
  have "dropWhile Q (xs @ ys @ zs) = dropWhile Q (ys @ zs)" using assms(1) by (simp add: dropWhile_append2)
  also have "\<dots> = (if \<forall>v\<in>set ys. Q v then dropWhile Q zs else dropWhile Q ys @ zs)"
    by (auto simp: dropWhile_append1 dropWhile_append2)
  also have "dropWhile Q zs = zs" using assms(2) by (cases zs) auto
  finally show ?thesis by simp
qed

lemma sorted_range_filter:
  assumes "sorted (map kf xs)"
  shows "takeWhile (\<lambda>v. kf v < r) (dropWhile (\<lambda>v. kf v < l) xs) = filter (\<lambda>v. l \<le> kf v \<and> kf v < (r :: 'k::linorder)) xs"
  using assms
proof (induction xs)
  case (Cons x xs)
  have "takeWhile (\<lambda>v. kf v < r) xs = filter (\<lambda>v. l \<le> kf v \<and> kf v < r) xs" if "l \<le> kf x"
    using Cons.prems that
  proof (induction xs)
    case (Cons y ys)
    then have "filter (\<lambda>v. l \<le> kf v \<and> kf v < r) ys = []" if "\<not> kf y < r" using that by (force simp: filter_empty_conv)
    then show ?case using Cons by auto
  qed simp
  moreover have "filter (\<lambda>v. l \<le> kf v \<and> kf v < r) xs = []" if "r \<le> kf x"
    using Cons.prems that by (fastforce simp: filter_empty_conv)
  ultimately show ?case using Cons by (auto simp: not_less)
qed simp

context block_store
begin

lemma entries_sorted: "strictly_sorted (map (keyOfValue P) (entriesElems es))"
  using store_ok by (simp add: okEntries_def entriesKeys_elems [symmetric])

lemma find_ok:
  "\<exists>it. find P A e = Some it \<and>
     (if e \<in> set (entriesKeys P es)
      then validIter es it \<and> it \<noteq> itEnd A \<and> (\<exists>v. itDeref A it = Some v \<and> keyOfValue P v = e)
      else it = itEnd A)"
proof -
  obtain r where r: "findContainingBlock P A e = Some r"
    "if r = -1 then \<forall>i. usedIn es i \<longrightarrow> e < headIn es i
     else usedIn es r \<and> headIn es r \<le> e \<and> (\<forall>i. r < i \<and> usedIn es i \<longrightarrow> e < headIn es i)"
    using findContainingBlock_ok [of P e] by auto
  have c: "contains P A e = Some (e \<in> set (entriesKeys P es))" by (rule contains_ok)
  show ?thesis
  proof (cases "r = -1")
    case True
    then show ?thesis using r(1) c by (simp add: find_def contains_def)
  next
    case False
    then have u: "usedIn es r" using r(2) by simp
    note ub = used_block [OF u]
    have ok: "okBlock P (es ! nat r)" and srt: "strictly_sorted (keysOf P (es ! nat r))" using ub(2) by (auto simp: wfBlock_def)
    have mem: "e \<in> set (entriesKeys P es) \<longleftrightarrow> e \<in> set (keysOf P (es ! nat r))"
      using c r(1) ub blockContains_ok [OF ub(2), of e] by (auto simp: contains_def)
    let ?p = "keyPos P (es ! nat r) e"
    show ?thesis
    proof (cases "?p < bsize (es ! nat r)")
      case True
      have g: "get (es ! nat r) ?p = Some (elems (es ! nat r) ! ?p)" using get_elems [OF ok True] .
      have it: "itDeref A (mkIter r (int ?p)) = Some (elems (es ! nat r) ! ?p)"
        using ub(4) okBlockD [OF ok] True by (auto simp: itDeref_def elems_def)
      have "e \<in> set (keysOf P (es ! nat r)) \<longleftrightarrow> keyOfValue P (elems (es ! nat r) ! ?p) = e"
        using keyPos_member [OF ok srt, of e] True by auto
      moreover have "mkIter r (int ?p) \<noteq> itEnd A" using ub(7) by (auto simp: mkIter_def itEnd_def store_size)
      ultimately show ?thesis
        using r(1) u ub True g it mem findIndex_ok [OF ub(2), of e]
        by (auto simp: find_def validIter_def)
    next
      case F: False
      then have "e \<notin> set (keysOf P (es ! nat r))" using keyPos_member [OF ok srt, of e] by auto
      then show ?thesis using r(1) ub F mem findIndex_ok [OF ub(2), of e] by (auto simp: find_def)
    qed
  qed
qed

lemma lowerBound_ok:
  "\<exists>it. lowerBound P A e = Some it \<and> validIter es it \<and>
     restFrom es it = dropWhile (\<lambda>v. keyOfValue P v < e) (entriesElems es)"
proof -
  obtain r where r: "findBlockIndex P A e = Some r"
    "if \<exists>i. usedIn es i then usedIn es r \<and> (headIn es r \<le> e \<or> (\<forall>i. usedIn es i \<longrightarrow> r \<le> i)) \<and> (\<forall>i. r < i \<and> usedIn es i \<longrightarrow> e < headIn es i)
     else r = int (length es)"
    using findBlockIndex_ok [of P e] by auto
  show ?thesis
  proof (cases "\<exists>i. usedIn es i")
    case False
    then have "entriesElems es = []" using skip_unused [of 0 "length es"] by (auto simp: entriesElems_def)
    then show ?thesis using r False by (simp add: lowerBound_def store_size itEnd_def validIter_def)
  next
    case True
    then have u: "usedIn es r" "headIn es r \<le> e \<or> (\<forall>i. usedIn es i \<longrightarrow> r \<le> i)" "\<And>i. r < i \<Longrightarrow> usedIn es i \<Longrightarrow> e < headIn es i"
      using r(2) by auto
    note ub = used_block [OF u(1)]
    let ?b = "es ! nat r"
    let ?p = "keyPos P ?b e"
    have ok: "okBlock P ?b" using ub(2) by simp
    have low: "keyOfValue P v < e" if v: "v \<in> set (entriesElems (take (nat r) es))" for v
    proof -
      obtain j where j: "j < nat r" "v \<in> set (elems (es ! j))" using v ub(1)
        by (auto simp: entriesElems_def in_set_conv_nth [of _ "take _ _"])
      then have uj: "usedIn es (int j)" using elems_unused [of j] ub(1) by fastforce
      then have "headIn es r \<le> e" using u(2) j(1) by auto
      moreover have "headIn es r \<in> set (keysOf P ?b)"
        using okEntry_cases [OF okEntries_nth [OF store_ok ub(1)]] ub(5) by (metis hd_in_set headIn_def)
      ultimately show ?thesis
        using okEntries_ordered [OF store_ok j(1) ub(1), of "keyOfValue P v" "headIn es r"] j(2) by (auto simp: keysOf_def)
    qed
    obtain m where m: "skipEmpty A (int (length es)) (int (Suc (nat r))) = Some m" "validIter es (mkIter m 0)"
      "restFrom es (mkIter m 0) = entriesElems (drop (Suc (nat r)) es)" "m \<le> int (length es)"
      using skip_from [of "Suc (nat r)"] ub(1) by auto
    have mr: "r < m" using skipEmpty_ge [OF m(1)] ub(6) by simp
    let ?R = "entriesElems (drop (Suc (nat r)) es)"
    have high: "?R = [] \<or> \<not> keyOfValue P (hd ?R) < e"
    proof (cases "m < int (length es)")
      case True
      then have um: "usedIn es m" "0 < bsize (es ! nat m)" "wfBlock P (es ! nat m)"
        using m(2) used_block [of m] by (auto simp: validIter_def mkIter_def)
      have ne: "elems (es ! nat m) \<noteq> []" using um length_elems [of P "es ! nat m"] by (auto simp del: length_elems)
      have "elems (es ! nat m) @ entriesElems (drop (Suc (nat m)) es) = ?R" using True m(3) by (simp add: restFrom_def)
      then have "hd ?R = hd (elems (es ! nat m))" using ne by (metis hd_append)
      moreover have "headIn es m = keyOfValue P (hd (elems (es ! nat m)))"
        using um ne by (auto simp: wfBlock_def headIn_def keysOf_def hd_map)
      ultimately show ?thesis using u(3) [OF mr um(1)] by auto
    next
      case False
      then have "m = int (length es)" using m(4) by simp
      then show ?thesis using m(3) by simp
    qed
    have split: "dropWhile (\<lambda>v. keyOfValue P v < e) (entriesElems es) =
       (if \<forall>v\<in>set (elems ?b). keyOfValue P v < e then ?R else dropWhile (\<lambda>v. keyOfValue P v < e) (elems ?b) @ ?R)"
      unfolding entriesElems_split [OF ub(1)] by (rule dropWhile_split) (use low high in auto)
    have fn: "findNext A r (int (length es)) = Some m" using m(1) ub(6) by (simp add: findNext_def algebra_simps)
    show ?thesis
    proof (cases "?p < bsize ?b")
      case True
      then have nall: "\<not> (\<forall>v\<in>set (elems ?b). keyOfValue P v < e)" using keyPos_at [OF ok True] ok by force
      have "lowerBound P A e = Some (mkIter r (int ?p))"
        using r(1) ub True findIndex_ok [OF ub(2), of e] by (auto simp: lowerBound_def store_size)
      moreover have "drop ?p (elems ?b) = dropWhile (\<lambda>v. keyOfValue P v < e) (elems ?b)"
        by (simp add: keyPos_def dropWhile_eq_drop)
      ultimately show ?thesis using True u(1) ub(7) split nall by (auto simp: validIter_def restFrom_def)
    next
      case F: False
      then have all: "\<forall>v\<in>set (elems ?b). keyOfValue P v < e"
        using keyPos_before [of _ P ?b e] ok by (auto simp: take_all)
      have lb: "lowerBound P A e = (if m \<ge> int (length es) then Some (itEnd A) else Some (mkIter m 0))"
      proof -
        have "avEmpty A m = Some False" if "m < int (length es)"
          using that m(2) mr ub(6) by (auto simp: store_empty validIter_def usedIn_def mkIter_def)
        then show ?thesis
          using r(1) ub F findIndex_ok [OF ub(2), of e] fn by (auto simp: lowerBound_def store_size)
      qed
      show ?thesis
      proof (cases "m < int (length es)")
        case True
        then show ?thesis using lb split all m(2,3) by auto
      next
        case False
        then have "m = int (length es)" using m(4) by simp
        then have "?R = []" "lowerBound P A e = Some (itEnd A)" using lb m(3) by simp_all
        then show ?thesis unfolding split if_P [OF all] by (simp add: itEnd_def store_size validIter_def)
      qed
    qed
  qed
qed

lemma rangeLoop_ok:
  assumes "validIter es it" "sorted (map (keyOfValue P) (restFrom es it))" "\<forall>v\<in>set (restFrom es it). left \<le> keyOfValue P v"
  shows "rangeLoop P A left right f it s = Some (fold f (takeWhile (\<lambda>v. keyOfValue P v < right) (restFrom es it)) s)"
  using assms
proof (induction "restFrom es it" arbitrary: it s)
  case Nil
  then have "it = itEnd A" using iter_step [OF Nil.prems(1)] by fastforce
  then show ?case using Nil by (subst rangeLoop.simps) simp
next
  case (Cons x xs)
  have ne: "it \<noteq> itEnd A" using Cons.hyps(2) by (auto simp: itEnd_def store_size)
  obtain v it' where v: "itDeref A it = Some v" "itFindNext A it = Some it'" "validIter es it'" "restFrom es it = v # restFrom es it'"
    using iter_step [OF Cons.prems(1) ne] by auto
  have "xs = restFrom es it'" "x = v" using v(4) Cons.hyps(2) by auto
  then have "rangeLoop P A left right f it' s' = Some (fold f (takeWhile (\<lambda>v. keyOfValue P v < right) (restFrom es it')) s')" for s'
    using Cons.hyps(1) [of it' s'] v(3,4) Cons.prems(2,3) by auto
  moreover have "left < keyOfValue P v \<or> left = keyOfValue P v" using Cons.prems(3) v(4) by auto
  ultimately show ?case using ne v(1,2,4) by (subst rangeLoop.simps) auto
qed

lemma rangeQuery_ok:
  "rangeQuery P A left right f s = Some (fold f (filter (\<lambda>v. left \<le> keyOfValue P v \<and> keyOfValue P v < right) (entriesElems es)) s)"
proof -
  obtain it where it: "lowerBound P A left = Some it" "validIter es it"
    "restFrom es it = dropWhile (\<lambda>v. keyOfValue P v < left) (entriesElems es)"
    using lowerBound_ok [of left] by auto
  have srt: "sorted (map (keyOfValue P) (entriesElems es))" using entries_sorted strict_sorted_iff by blast
  have d: "dropWhile (\<lambda>v. keyOfValue P v < left) (entriesElems es) = drop (length (takeWhile (\<lambda>v. keyOfValue P v < left) (entriesElems es))) (entriesElems es)"
    by (rule dropWhile_eq_drop)
  have srt': "sorted (map (keyOfValue P) (restFrom es it))" using srt it(3) d by (simp add: drop_map [symmetric] sorted_wrt_drop)
  have "left \<le> keyOfValue P v" if "v \<in> set (restFrom es it)" for v
  proof (cases "restFrom es it")
    case (Cons x xs)
    then have "left \<le> keyOfValue P x" using it(3) hd_dropWhile [of "\<lambda>v. keyOfValue P v < left" "entriesElems es"] by (metis list.sel(1) list.simps(3) not_less)
    then show ?thesis using that srt' Cons by (auto intro: order_trans)
  qed (use that in auto)
  then show ?thesis
    using rangeLoop_ok [OF it(2) srt', of left right f s] it(1,3) sorted_range_filter [OF srt] by (simp add: rangeQuery_def)
qed

end

section \<open>The queries of \<open>BatchedSparseArray\<close>\<close>

text \<open>
  On states that satisfy \<open>wfPma\<close> the array is a block store; elsewhere the interpretation speaks about
  an array without entries.
\<close>

definition noArray :: "('k, 'v) arrayView" where
  "noArray = \<lparr>avEmpty = (\<lambda>i. Some True), avEntry = (\<lambda>i. None), avSize = 0\<rparr>"

lemma wfPmaD:
  assumes "wfPma P S"
  shows "0 \<le> sdsSize S" "sdsSize S \<le> sdsCapacity S" "sdsCapacity S = int (length (pma S))" "okEntries P (usedEntries S)"
    "int (length (usedEntries S)) = sdsSize S" "length (usedEntries S) = nat (sdsSize S)"
  using assms by (auto simp: wfPma_def usedEntries_def)

lemma usedEntries_nth: "wfPma P S \<Longrightarrow> 0 \<le> i \<Longrightarrow> i < sdsSize S \<Longrightarrow> usedEntries S ! nat i = pma S ! nat i"
  by (auto simp: usedEntries_def)

lemma emptyAt_ok:
  assumes "wfPma P S" "0 \<le> i"
  shows "emptyAt P S i = Some (if i < sdsSize S then isEmpty (pma S ! nat i) else True)"
proof (cases "i < sdsSize S")
  case True
  then have "okEntry P (usedEntries S ! nat i)"
    using wfPmaD [OF assms(1)] assms(2) by (intro okEntries_nth) auto
  then have "okEntry P (pma S ! nat i)" using usedEntries_nth [OF assms True] by simp
  then show ?thesis using True wfPmaD [OF assms(1)] assms(2) okEntry_empty_iff [of P "pma S ! nat i"] by (auto simp: emptyAt_def)
qed (simp add: emptyAt_def)

interpretation bb: block_store P "if wfPma P S then arrayOf P S else noArray" "if wfPma P S then usedEntries S else []" for P S
proof (cases "wfPma P S")
  case True
  note d = wfPmaD [OF True]
  have "idx (pma S) i = Some (pma S ! nat i)" if "0 \<le> i" "i < sdsSize S" for i using that d(2,3) by (intro idx_in) auto
  then have "block_store P (arrayOf P S) (usedEntries S)"
    by unfold_locales (auto simp: arrayOf_def d(1,4,5) emptyAt_ok [OF True] usedEntries_nth [OF True])
  then show "block_store P (if wfPma P S then arrayOf P S else noArray) (if wfPma P S then usedEntries S else [])"
    using True by simp
next
  case False
  have "block_store P noArray []"
    by unfold_locales (auto simp: noArray_def okEntries_def entriesKeys_def)
  then show "block_store P (if wfPma P S then arrayOf P S else noArray) (if wfPma P S then usedEntries S else [])"
    using False by simp
qed

text \<open>A small array for the examples.\<close>

definition demoSds :: "(nat, nat) PmaEntry list \<Rightarrow> (nat, nat) sds" where
  "demoSds es = \<lparr>sdsCapacity = int (length es), swapCapacity = int (length es), bufferCapacity = 0, sdsSize = int (length es),
     pma = es, swapPma = [], bufferArray = [], bufferPointers = makePointers (int (length es)),
     rebalancingManager = \<lparr>aggregates = [], levelStarts = [], levelAggregateWidths = [], brmSize = 0, logCapacity = 0,
       logCapacityWithSuperRoot = 1, brmCapacity = 1, nextLevelRecountingNodes = newBucketMap 1, brmThreads = 1\<rparr>,
     rebalancingNodes = [], recountingNodesMap = newBucketMap 1, rebalancingTasks = [], prefixNumberOfRebalancingBlocks = [],
     tasks = [], numberOfThreads = 1, bufferWrites = 0, bufferReads = 0\<rparr>"

definition demoEntries :: "(nat, nat) PmaEntry list" where
  "demoEntries = [demoBlock [1, 2], emptyEntry (demoParams False), demoBlock [5, 7, 8]]"

lemma demoSds_wf [simp]: "wfPma (demoParams False) (demoSds demoEntries)" "usedEntries (demoSds demoEntries) = demoEntries"
  by (auto simp: wfPma_def usedEntries_def demoSds_def demoEntries_def okEntries_def okEntry_def entriesKeys_def)

lemma demoEntries_keys [simp]:
  "entriesKeys (demoParams False) demoEntries = [1, 2, 5, 7, 8]" "entriesElems demoEntries = [1, 2, 5, 7, 8]"
  by (simp_all add: demoEntries_def entriesKeys_def entriesElems_def)

text \<open>C7. On a valid array, \<open>contains\<close> answers whether the key is stored, without a failed assertion.\<close>

theorem contains_iff_stored:
  assumes "wfPma P S"
  shows "contains P (arrayOf P S) e = Some (e \<in> set (entriesKeys P (usedEntries S)))"
  using bb.contains_ok [of P S e] assms by simp

theorem contains_iff_stored_witness:
  "contains (demoParams False) (arrayOf (demoParams False) (demoSds demoEntries)) 7 = Some True \<and>
   contains (demoParams False) (arrayOf (demoParams False) (demoSds demoEntries)) 6 = Some False"
  using contains_iff_stored [of "demoParams False" "demoSds demoEntries"] by simp

text \<open>C12. \<open>find\<close> returns an iterator to the element with the key if it is stored, and \<open>end()\<close> otherwise.\<close>

theorem find_returns_element:
  assumes "wfPma P S"
  shows "\<exists>it. find P (arrayOf P S) e = Some it \<and>
     (if e \<in> set (entriesKeys P (usedEntries S))
      then \<exists>v. itDeref (arrayOf P S) it = Some v \<and> keyOfValue P v = e
      else it = itEnd (arrayOf P S))"
  using bb.find_ok [of P S e] assms by (auto split: if_splits)

theorem find_returns_element_witness:
  "\<exists>it. find (demoParams False) (arrayOf (demoParams False) (demoSds demoEntries)) 7 = Some it \<and>
     itDeref (arrayOf (demoParams False) (demoSds demoEntries)) it = Some 7"
  using find_returns_element [of "demoParams False" "demoSds demoEntries" 7] by auto

text \<open>C11. \<open>lowerBound\<close> returns the iterator from which exactly the elements with keys not below \<open>e\<close> follow.\<close>

theorem lowerBound_suffix:
  assumes "wfPma P S"
  shows "\<exists>it. lowerBound P (arrayOf P S) e = Some it \<and> validIter (usedEntries S) it \<and>
     restFrom (usedEntries S) it = dropWhile (\<lambda>v. keyOfValue P v < e) (entriesElems (usedEntries S))"
  using bb.lowerBound_ok [of P S e] assms by simp

theorem lowerBound_suffix_witness:
  "\<exists>it. lowerBound (demoParams False) (arrayOf (demoParams False) (demoSds demoEntries)) 3 = Some it \<and>
     restFrom demoEntries it = [5, 7, 8]"
  using lowerBound_suffix [of "demoParams False" "demoSds demoEntries" 3] by auto

text \<open>C10. \<open>rangeQuery\<close> terminates and calls the evaluator on exactly the elements with keys in
  \<open>[left, right)\<close>, in increasing order of their keys.\<close>

theorem rangeQuery_visits:
  assumes "wfPma P S"
  shows "rangeQuery P (arrayOf P S) left right f s =
     Some (fold f (filter (\<lambda>v. left \<le> keyOfValue P v \<and> keyOfValue P v < right) (entriesElems (usedEntries S))) s)"
  using bb.rangeQuery_ok [of P S left right f s] assms by simp

theorem rangeQuery_visits_witness:
  "rangeQuery (demoParams False) (arrayOf (demoParams False) (demoSds demoEntries)) 2 8 (#) [] = Some [7, 5, 2]"
  using rangeQuery_visits [of "demoParams False" "demoSds demoEntries" 2 8 "(#)" "[]"] by simp

text \<open>C18. Binary and exponential search return the same block as the linear search, the last non-empty block
  of the range whose head does not exceed the key, and pass their own assertions.\<close>

theorem searches_agree:
  assumes "wfPma P S" "usedIn (usedEntries S) lower" "lower < upper" "upper \<le> sdsSize S"
  shows "\<exists>r. exponentialSearch P (arrayOf P S) e lower upper = Some r \<and> binarySearch P (arrayOf P S) e lower upper = Some r \<and>
     pmaLinearSearch (arrayOf P S) e lower upper = Some r \<and>
     lastBlock (usedIn (usedEntries S)) (headIn (usedEntries S)) e lower upper r"
proof -
  have lo: "0 \<le> lower" "lower < sdsSize S" using assms(2) wfPmaD(5) [OF assms(1)] by (auto simp: usedIn_def)
  have up: "upper \<le> int (length (usedEntries S))" "lower < max 1 (int (length (usedEntries S)))"
    using assms(4) lo wfPmaD(5) [OF assms(1)] by auto
  obtain x where x: "exponentialSearch P (arrayOf P S) e lower upper = Some x"
    "lastBlock (usedIn (usedEntries S)) (headIn (usedEntries S)) e lower upper x"
    using bb.exponentialSearch_ok [of P S lower upper P e] assms(1-3) up by auto
  obtain y where y: "binarySearch P (arrayOf P S) e lower upper = Some y"
    "lastBlock (usedIn (usedEntries S)) (headIn (usedEntries S)) e lower upper y"
    using bb.binarySearch_ok [of P S lower upper P e] assms(1-3) up by auto
  obtain z where z: "pmaLinearSearch (arrayOf P S) e lower upper = Some z"
    "lastBlock (usedIn (usedEntries S)) (headIn (usedEntries S)) e lower upper z"
    using bb.linearSearch_ok [of lower P S upper e] assms(1) lo up by auto
  show ?thesis using x y(1) z(1) lastBlock_unique [OF x(2) y(2)] lastBlock_unique [OF x(2) z(2)] by simp
qed

theorem searches_agree_witness:
  "\<exists>r. exponentialSearch (demoParams False) (arrayOf (demoParams False) (demoSds demoEntries)) 6 0 3 = Some r \<and>
     pmaLinearSearch (arrayOf (demoParams False) (demoSds demoEntries)) 6 0 3 = Some r"
proof -
  have "usedIn demoEntries 0" by (simp add: usedIn_def demoEntries_def demoBlock_def isEmpty_def)
  moreover have "sdsSize (demoSds demoEntries) = 3" by (simp add: demoSds_def demoEntries_def)
  ultimately show ?thesis using searches_agree [of "demoParams False" "demoSds demoEntries" 0 3 6] by auto
qed

end
