(* ===== verification/Insertion.thy ===== *)
theory Insertion
  imports Queries
begin

text \<open>
  The insertion phase of \<open>insertBatch\<close>: inserting a range of the batch into a range of the array
  (\<open>insertBatchRange\<close> and what it calls), the inverse merge of one block with a range of the batch, the
  distribution of work among tasks that share a block, and the compaction of the buffer afterwards.

  Loops whose termination depends on the data are \<open>partial_function\<close>s, so that a call that does not
  return is \<^const>\<open>None\<close>. The pointer \<open>batch + i\<close> is the list \<^term>\<open>drop i batch\<close>.
\<close>

section \<open>Inserting into one block\<close>

definition setPma :: "int \<Rightarrow> ('k, 'v) PmaEntry \<Rightarrow> ('k, 'v) sds \<Rightarrow> ('k, 'v) sds option" where
  "setPma i b S = do { p \<leftarrow> upd (pma S) i b; Some (S\<lparr>pma := p\<rparr>) }"

definition setPointers :: "int \<Rightarrow> Interval \<Rightarrow> ('k, 'v) sds \<Rightarrow> ('k, 'v) sds option" where
  "setPointers i iv S = do { p \<leftarrow> upd (bufferPointers S) i iv; Some (S\<lparr>bufferPointers := p\<rparr>) }"

definition setBuffer :: "int \<Rightarrow> ('k, 'v) PmaEntry \<Rightarrow> ('k, 'v) sds \<Rightarrow> ('k, 'v) sds option" where
  "setBuffer i b S = do { p \<leftarrow> upd (bufferArray S) i b; Some (S\<lparr>bufferArray := p\<rparr>) }"

definition insertIntoBlockWithoutSplit ::
  "('k::linorder, 'v) tparams \<Rightarrow> int \<Rightarrow> 'v list \<Rightarrow> int \<Rightarrow> int \<Rightarrow> ('k, 'v) sds \<Rightarrow> (int \<times> ('k, 'v) sds) option" where
  "insertIntoBlockWithoutSplit P blockIndex batch batchIndex lastBlockElement S = do {
     let numberOfInsertions = u16 (lastBlockElement - batchIndex);
     b \<leftarrow> idx (pma S) blockIndex;
     b \<leftarrow> merge P b (drop (nat batchIndex) batch) numberOfInsertions;
     S \<leftarrow> setPma blockIndex b S;
     Some (lastBlockElement, S) }"

text \<open>
  The loop of \<open>insertIntoBlockWithSplit\<close>. Its state is the batch position, the block that is filled, the
  right half that was split off (or the null entry), the hint of the last insertion, the number of the
  next output block, and the array.
\<close>

partial_function (option) splitLoop ::
  "('k::linorder, 'v) tparams \<Rightarrow> runtime \<Rightarrow> int \<Rightarrow> 'v list \<Rightarrow> int \<Rightarrow> Interval \<Rightarrow>
     int \<Rightarrow> ('k, 'v) PmaEntry \<Rightarrow> ('k, 'v) PmaEntry \<Rightarrow> nat \<Rightarrow> int \<Rightarrow> ('k, 'v) sds \<Rightarrow>
     (int \<times> ('k, 'v) PmaEntry \<times> ('k, 'v) PmaEntry \<times> int \<times> ('k, 'v) sds) option" where
  "splitLoop P R blockIndex batch lastBlockElement bufferRange batchIndex insertionBlock rightHalf lastInsertionIndex outputBlockNumber S =
     (if batchIndex < lastBlockElement
      then do {
        assertHead P insertionBlock;
        v \<leftarrow> idx batch batchIndex;
        (insertionBlock, rightHalf, lastInsertionIndex, outputBlockNumber, S) \<leftarrow>
          (if \<not> isEmpty rightHalf \<and> (head rightHalf < keyOfValue P v \<or> keyOfValue P v = head rightHalf)
           then do {
             S \<leftarrow> writeToBufferArray P R insertionBlock bufferRange outputBlockNumber blockIndex S;
             Some (rightHalf, emptyEntry P, 0, outputBlockNumber + 1, S) }
           else Some (insertionBlock, rightHalf, lastInsertionIndex, outputBlockNumber, S));
        (batchIndex, insertionBlock, rightHalf, lastInsertionIndex, outputBlockNumber, S) \<leftarrow>
          (if bsize insertionBlock < MaxSize P
           then do {
             (_, lastInsertionIndex, insertionBlock) \<leftarrow> insertWithIndex P insertionBlock v lastInsertionIndex;
             assertHead P insertionBlock;
             Some (batchIndex + 1, insertionBlock, rightHalf, lastInsertionIndex, outputBlockNumber, S) }
           else do {
             (insertionBlock, newBlock) \<leftarrow> split P insertionBlock;
             if \<not> isEmpty rightHalf
             then do {
               S \<leftarrow> writeToBufferArray P R insertionBlock bufferRange outputBlockNumber blockIndex S;
               Some (batchIndex, newBlock, rightHalf, 0, outputBlockNumber + 1, S) }
             else Some (batchIndex, insertionBlock, newBlock, lastInsertionIndex, outputBlockNumber, S) });
        b \<leftarrow> idx (pma S) blockIndex;
        assertHead P b;
        assertHead P insertionBlock;
        splitLoop P R blockIndex batch lastBlockElement bufferRange batchIndex insertionBlock rightHalf lastInsertionIndex outputBlockNumber S }
      else Some (batchIndex, insertionBlock, rightHalf, outputBlockNumber, S))"

declare splitLoop.simps [code]

definition insertIntoBlockWithSplit ::
  "('k::linorder, 'v) tparams \<Rightarrow> runtime \<Rightarrow> int \<Rightarrow> 'v list \<Rightarrow> int \<Rightarrow> int \<Rightarrow> Interval \<Rightarrow> int \<Rightarrow> ('k, 'v) sds \<Rightarrow>
     (int \<times> int \<times> ('k, 'v) sds) option" where
  "insertIntoBlockWithSplit P R blockIndex batch batchIndex lastBlockElement bufferRange outputBlockNumber S = do {
     insertionBlock \<leftarrow> idx (pma S) blockIndex;
     S \<leftarrow> setPma blockIndex (emptyEntry P) S;
     assertHead P insertionBlock;
     let start = getDenseWriteIndex (ileft bufferRange) outputBlockNumber;
     S \<leftarrow> setPointers blockIndex (mkInterval start start) S;
     (batchIndex, insertionBlock, rightHalf, outputBlockNumber, S) \<leftarrow>
       splitLoop P R blockIndex batch lastBlockElement bufferRange batchIndex insertionBlock (emptyEntry P) 0 outputBlockNumber S;
     S \<leftarrow> writeToBufferArray P R insertionBlock bufferRange outputBlockNumber blockIndex S;
     let outputBlockNumber = outputBlockNumber + 1;
     (outputBlockNumber, S) \<leftarrow>
       (if \<not> isEmpty rightHalf
        then do {
          S \<leftarrow> writeToBufferArray P R rightHalf bufferRange outputBlockNumber blockIndex S;
          Some (outputBlockNumber + 1, S) }
        else Some (outputBlockNumber, S));
     let stop = getDenseWriteIndex (ileft bufferRange) (outputBlockNumber - 1) + 1;
     S \<leftarrow> setPointers blockIndex (mkInterval start stop) S;
     assertMsg (NDEBUG P) (start \<ge> 0 \<and> stop \<ge> start);
     Some (batchIndex, outputBlockNumber, S) }"

definition insertElementsIntoBlock ::
  "('k::linorder, 'v) tparams \<Rightarrow> runtime \<Rightarrow> int \<Rightarrow> int \<Rightarrow> Interval \<Rightarrow> Interval \<Rightarrow> 'v list \<Rightarrow> int \<Rightarrow> Interval \<Rightarrow> int \<Rightarrow>
     ('k, 'v) sds \<Rightarrow> (int \<times> int \<times> ('k, 'v) sds) option" where
  "insertElementsIntoBlock P R blockIndex nextBlockIndex pmaInputRange bufferRange batch batchIndex batchRange outputBlockNumber S = do {
     lastBlockElement \<leftarrow> findLastBatchElementForBlock P (arrayOf P S) batch batchIndex batchRange nextBlockIndex pmaInputRange;
     let elementsInBlock = lastBlockElement - batchIndex;
     assertMsg (NDEBUG P) (elementsInBlock > 0);
     s \<leftarrow> blockSizeAt S blockIndex;
     if int s + elementsInBlock \<le> int (MaxSize P)
     then do {
       (batchIndex, S) \<leftarrow> insertIntoBlockWithoutSplit P blockIndex batch batchIndex lastBlockElement S;
       Some (batchIndex, outputBlockNumber, S) }
     else insertIntoBlockWithSplit P R blockIndex batch batchIndex lastBlockElement bufferRange outputBlockNumber S }"

section \<open>Inserting into an empty array\<close>

partial_function (option) emptyRangeLoop ::
  "('k::linorder, 'v) tparams \<Rightarrow> runtime \<Rightarrow> 'v list \<Rightarrow> Interval \<Rightarrow> Interval \<Rightarrow> Interval \<Rightarrow>
     int \<Rightarrow> ('k, 'v) PmaEntry \<Rightarrow> int \<Rightarrow> ('k, 'v) sds \<Rightarrow> (int \<times> ('k, 'v) PmaEntry \<times> int \<times> ('k, 'v) sds) option" where
  "emptyRangeLoop P R batch batchRange inputRange bufferRange batchIndex insertionBlock outputBlockNumber S =
     (if batchIndex < iright batchRange
      then do {
        (current, outputBlockNumber, S) \<leftarrow>
          (if bsize insertionBlock = MaxSize P
           then do {
             let remainingElements = iright batchRange - batchIndex;
             (insertionBlock, newBlock) \<leftarrow>
               (if remainingElements > 0 \<and> remainingElements < int (MinSize P) then split P insertionBlock
                else do { newBlock \<leftarrow> allocateBlock P (emptyEntry P); Some (insertionBlock, newBlock) });
             S \<leftarrow> writeToBufferArray P R insertionBlock bufferRange outputBlockNumber (ileft inputRange) S;
             Some (newBlock, outputBlockNumber + 1, S) }
           else Some (insertionBlock, outputBlockNumber, S));
        if bsize insertionBlock = MaxSize P \<and> batchIndex \<ge> iright batchRange
        then Some (iright batchRange, current, outputBlockNumber, S)
        else do {
          let numberOfInsertions = min (int (MaxSize P)) (iright batchRange - batchIndex);
          insertionBlock \<leftarrow> merge P current (drop (nat batchIndex) batch) (u16 numberOfInsertions);
          emptyRangeLoop P R batch batchRange inputRange bufferRange (batchIndex + numberOfInsertions) insertionBlock outputBlockNumber S } }
      else Some (batchIndex, insertionBlock, outputBlockNumber, S))"

declare emptyRangeLoop.simps [code]

definition insertIntoEmptyRange ::
  "('k::linorder, 'v) tparams \<Rightarrow> runtime \<Rightarrow> 'v list \<Rightarrow> Interval \<Rightarrow> int \<Rightarrow> Interval \<Rightarrow> Interval \<Rightarrow> int \<Rightarrow>
     ('k, 'v) sds \<Rightarrow> (int \<times> ('k, 'v) sds) option" where
  "insertIntoEmptyRange P R batch batchRange batchIndex inputRange bufferRange outputBlockNumber S = do {
     insertionBlock \<leftarrow> allocateBlock P (emptyEntry P);
     (batchIndex, insertionBlock, outputBlockNumber, S) \<leftarrow>
       emptyRangeLoop P R batch batchRange inputRange bufferRange batchIndex insertionBlock outputBlockNumber S;
     (outputBlockNumber, S) \<leftarrow>
       (if bsize insertionBlock > 0
        then do {
          S \<leftarrow> writeToBufferArray P R insertionBlock bufferRange outputBlockNumber (ileft inputRange) S;
          Some (outputBlockNumber + 1, S) }
        else do { _ \<leftarrow> deleteBlock P insertionBlock; Some (outputBlockNumber, S) });
     assertMsg (NDEBUG P) (batchIndex = iright batchRange);
     S \<leftarrow> setPointers (ileft inputRange)
       (mkInterval (getDenseWriteIndex (ileft bufferRange) 0)
         (getDenseWriteIndex (ileft bufferRange) (outputBlockNumber - 1) + 1)) S;
     Some (outputBlockNumber, S) }"

section \<open>Inserting a range of the batch\<close>

partial_function (option) insertRangeLoop ::
  "('k::linorder, 'v) tparams \<Rightarrow> runtime \<Rightarrow> 'v list \<Rightarrow> Interval \<Rightarrow> Interval \<Rightarrow> Interval \<Rightarrow>
     int \<Rightarrow> int \<Rightarrow> int \<Rightarrow> ('k, 'v) sds \<Rightarrow> (int \<times> int \<times> ('k, 'v) sds) option" where
  "insertRangeLoop P R batch batchRange pmaInputRange bufferRange batchIndex blockIndex outputBlockNumber S =
     (if batchIndex < iright batchRange
      then do {
        v \<leftarrow> idx batch batchIndex;
        blockIndex \<leftarrow> exponentialSearch P (arrayOf P S) (keyOfValue P v) blockIndex (iright pmaInputRange);
        nextBlockIndex \<leftarrow> findNext (arrayOf P S) blockIndex (iright pmaInputRange);
        (if NDEBUG P then Some ()
         else do {
           l \<leftarrow> pmaLinearSearch (arrayOf P S) (keyOfValue P v) blockIndex (iright pmaInputRange);
           assertMsg False (blockIndex = l) });
        (batchIndex, outputBlockNumber, S) \<leftarrow>
          insertElementsIntoBlock P R blockIndex nextBlockIndex pmaInputRange bufferRange batch batchIndex batchRange outputBlockNumber S;
        insertRangeLoop P R batch batchRange pmaInputRange bufferRange batchIndex blockIndex outputBlockNumber S }
      else Some (batchIndex, outputBlockNumber, S))"

declare insertRangeLoop.simps [code]

definition insertBatchRange ::
  "('k::linorder, 'v) tparams \<Rightarrow> runtime \<Rightarrow> 'v list \<Rightarrow> Interval \<Rightarrow> Interval \<Rightarrow> Interval \<Rightarrow> ('k, 'v) sds \<Rightarrow>
     (int \<times> ('k, 'v) sds) option" where
  "insertBatchRange P R batch batchRange pmaInputRange bufferRange S = do {
     (if NDEBUG P \<or> intervalLength pmaInputRange = 0 then Some ()
      else do { e \<leftarrow> emptyAt P S (ileft pmaInputRange); assertMsg False (\<not> e) });
     if intervalLength pmaInputRange = 0
     then insertIntoEmptyRange P R batch batchRange (ileft batchRange) pmaInputRange bufferRange 0 S
     else do {
       (batchIndex, outputBlockNumber, S) \<leftarrow>
         insertRangeLoop P R batch batchRange pmaInputRange bufferRange (ileft batchRange) (ileft pmaInputRange) 0 S;
       assertMsg (NDEBUG P) (batchIndex = iright batchRange);
       Some (outputBlockNumber, S) } }"

section \<open>Inverse merge\<close>

text \<open>The loop \<open>while (batchIndex < batchRange.right && key(batch[batchIndex]) == lastWrittenKey) ++batchIndex\<close>.\<close>

function skipDuplicates :: "('k, 'v) tparams \<Rightarrow> 'v list \<Rightarrow> 'k \<Rightarrow> int \<Rightarrow> int \<Rightarrow> int option" where
  "skipDuplicates P batch lastWrittenKey right batchIndex =
     (if batchIndex < right
      then do {
        v \<leftarrow> idx batch batchIndex;
        if keyOfValue P v = lastWrittenKey then skipDuplicates P batch lastWrittenKey right (batchIndex + 1)
        else Some batchIndex }
      else Some batchIndex)"
  by pat_completeness auto
termination
  by (relation "measure (\<lambda>(P, batch, k, right, i). nat (right - i))") auto

declare skipDuplicates.simps [simp del]

text \<open>One round of the loop after the check for a full block: take an element from the block, from the batch, or the rest of one of them.\<close>

definition inverseMergeStep ::
  "('k::linorder, 'v) tparams \<Rightarrow> ('k, 'v) PmaEntry \<Rightarrow> 'v list \<Rightarrow> int \<Rightarrow> int \<Rightarrow>
     int \<times> nat \<times> ('k, 'v) PmaEntry \<times> 'k \<Rightarrow> (int \<times> nat \<times> ('k, 'v) PmaEntry \<times> 'k) option" where
  "inverseMergeStep P source batch batchRight mergeRight = (\<lambda>(batchIndex, readIndex, insertionBlock, lastWrittenKey).
     if batchIndex < batchRight \<and> int readIndex < mergeRight
     then do {
       u \<leftarrow> get source readIndex;
       v \<leftarrow> idx batch batchIndex;
       if keyOfValue P u < keyOfValue P v
       then do {
         (_, _, insertionBlock) \<leftarrow> insertWithIndex P insertionBlock u (bsize insertionBlock);
         batchIndex \<leftarrow> skipDuplicates P batch (keyOfValue P u) batchRight batchIndex;
         Some (batchIndex, readIndex + 1, insertionBlock, keyOfValue P u) }
       else if keyOfValue P u = keyOfValue P v
       then do {
         (_, _, insertionBlock) \<leftarrow> insertWithIndex P insertionBlock u (bsize insertionBlock);
         batchIndex \<leftarrow> skipDuplicates P batch (keyOfValue P u) batchRight (batchIndex + 1);
         Some (batchIndex, readIndex + 1, insertionBlock, keyOfValue P u) }
       else if keyOfValue P v \<noteq> lastWrittenKey
       then do {
         (_, _, insertionBlock) \<leftarrow> insertWithIndex P insertionBlock v (bsize insertionBlock);
         Some (batchIndex + 1, readIndex, insertionBlock, keyOfValue P v) }
       else Some (batchIndex + 1, readIndex, insertionBlock, lastWrittenKey) }
     else if batchIndex < batchRight
     then do {
       let numberOfInsertions = min (int (MaxSize P) - int (bsize insertionBlock)) (batchRight - batchIndex);
       insertionBlock \<leftarrow> merge P insertionBlock (drop (nat batchIndex) batch) (u16 numberOfInsertions);
       Some (batchIndex + numberOfInsertions, readIndex, insertionBlock, lastWrittenKey) }
     else if int readIndex < mergeRight
     then do {
       let numberOfInsertions = min (u16 (int (MaxSize P) - int (bsize insertionBlock))) (u16 (mergeRight - int readIndex));
       cells \<leftarrow> block source;
       insertionBlock \<leftarrow> merge P insertionBlock (drop readIndex cells) numberOfInsertions;
       Some (batchIndex, u16 (int (readIndex + numberOfInsertions)), insertionBlock, lastWrittenKey) }
     else do {
       assertMsg (NDEBUG P) False;
       Some (batchIndex, readIndex, insertionBlock, lastWrittenKey) })"

partial_function (option) inverseMergeLoop ::
  "('k::linorder, 'v) tparams \<Rightarrow> runtime \<Rightarrow> 'v list \<Rightarrow> Interval \<Rightarrow> Interval \<Rightarrow> int \<Rightarrow> Interval \<Rightarrow>
     int \<times> nat \<times> ('k, 'v) PmaEntry \<times> 'k \<Rightarrow> int \<Rightarrow> ('k, 'v) sds \<Rightarrow>
     ((int \<times> nat \<times> ('k, 'v) PmaEntry \<times> 'k) \<times> int \<times> ('k, 'v) sds) option" where
  "inverseMergeLoop P R batch batchRange mergeRange mergeBlock bufferRange s outputBlockNumber S =
     (case s of (batchIndex, readIndex, insertionBlock, lastWrittenKey) \<Rightarrow>
      if batchIndex < iright batchRange \<or> int readIndex < iright mergeRange
      then do {
        (insertionBlock, outputBlockNumber, S) \<leftarrow>
          (if bsize insertionBlock = MaxSize P
           then do {
             let remainingBatchElements = iright batchRange - batchIndex;
             let remainingBlockElements = iright mergeRange - int readIndex;
             let minRemainingElements = max remainingBatchElements remainingBlockElements;
             (insertionBlock, newBlock) \<leftarrow>
               (if minRemainingElements > 0 \<and> minRemainingElements < int (MinSize P) then split P insertionBlock
                else do { newBlock \<leftarrow> allocateBlock P (emptyEntry P); Some (insertionBlock, newBlock) });
             S \<leftarrow> writeToBufferArray P R insertionBlock bufferRange outputBlockNumber mergeBlock S;
             Some (newBlock, outputBlockNumber + 1, S) }
           else Some (insertionBlock, outputBlockNumber, S));
        source \<leftarrow> idx (pma S) mergeBlock;
        s \<leftarrow> inverseMergeStep P source batch (iright batchRange) (iright mergeRange) (batchIndex, readIndex, insertionBlock, lastWrittenKey);
        (case s of (batchIndex, readIndex, insertionBlock, lastWrittenKey) \<Rightarrow>
           assertMsg (NDEBUG P) (batchIndex < iright batchRange \<or> int readIndex < iright mergeRange \<or>
             bsize insertionBlock \<ge> MinSize P \<or> bsize insertionBlock = 0));
        inverseMergeLoop P R batch batchRange mergeRange mergeBlock bufferRange s outputBlockNumber S }
      else Some (s, outputBlockNumber, S))"

declare inverseMergeLoop.simps [code]

definition inverseMerge ::
  "('k::linorder, 'v) tparams \<Rightarrow> runtime \<Rightarrow> 'v list \<Rightarrow> Interval \<Rightarrow> Interval \<Rightarrow> Interval \<Rightarrow> Interval \<Rightarrow> ('k, 'v) sds \<Rightarrow>
     (int \<times> ('k, 'v) sds) option" where
  "inverseMerge P R batch batchRange mergeRange pmaInputRange bufferRange S = do {
     assertMsg (NDEBUG P) (max (intervalLength batchRange) (intervalLength mergeRange) \<ge> int (MinSize P));
     let mergeBlock = ileft pmaInputRange;
     insertionBlock \<leftarrow> allocateBlock P (emptyEntry P);
     ((batchIndex, readIndex, insertionBlock, _), outputBlockNumber, S) \<leftarrow>
       inverseMergeLoop P R batch batchRange mergeRange mergeBlock bufferRange
         (ileft batchRange, u16 (ileft mergeRange), insertionBlock, NULL_KEY P) 0 S;
     (outputBlockNumber, S) \<leftarrow>
       (if bsize insertionBlock > 0
        then do {
          S \<leftarrow> writeToBufferArray P R insertionBlock bufferRange outputBlockNumber mergeBlock S;
          Some (outputBlockNumber + 1, S) }
        else do { _ \<leftarrow> deleteBlock P insertionBlock; Some (outputBlockNumber, S) });
     assertMsg (NDEBUG P) (batchIndex = iright batchRange);
     assertMsg (NDEBUG P) (int readIndex = iright mergeRange);
     Some (outputBlockNumber, S) }"

end
