(* ===== verification/Tasks.thy ===== *)
theory Tasks
  imports Insertion
begin

text \<open>
  The tasks of the insertion phase: distributing the work of tasks that start at the same block
  (\<open>distributeWorkInMergedTasks\<close>), running one task (\<open>startInsertionTask\<close>), and the cleanup after
  inverse merges (\<open>postprocessInverseMergeTasks\<close>, \<open>compactifyBufferBlocks\<close>).

  Thread numbers are \<open>UnsignedIndexType\<close>; a subtraction of them that would wrap around makes the
  access to \<open>tasks\<close> invalid and is \<^const>\<open>None\<close>.
\<close>

text \<open>The compile-time switch of the class.\<close>

definition UseInverseMerge :: bool where "UseInverseMerge = True"

section \<open>Access to the tasks\<close>

definition getTask :: "('k, 'v) sds \<Rightarrow> nat \<Rightarrow> TaskInfo option" where
  "getTask S t = nth_opt (tasks S) t"

definition updateTask :: "nat \<Rightarrow> (TaskInfo \<Rightarrow> TaskInfo) \<Rightarrow> ('k, 'v) sds \<Rightarrow> ('k, 'v) sds option" where
  "updateTask t f S = do {
     task \<leftarrow> nth_opt (tasks S) t;
     ts \<leftarrow> upd_opt (tasks S) t (f task);
     Some (S\<lparr>tasks := ts\<rparr>) }"

definition minusThread :: "nat \<Rightarrow> nat \<Rightarrow> nat option" where
  "minusThread a b = (if b \<le> a then Some (a - b) else None)"

text \<open>Wrap-around of \<open>UnsignedSizeType\<close> for the index that idle tasks of a merge group get.\<close>

definition u64 :: "int \<Rightarrow> nat" where
  "u64 x = nat (x mod 2 ^ 64)"

section \<open>Distribution of shared blocks\<close>

text \<open>The assignments that make thread \<open>thread - mergeThread\<close> do nothing.\<close>

definition makeIdle ::
  "nat \<Rightarrow> int \<Rightarrow> int \<Rightarrow> nat \<Rightarrow> nat \<Rightarrow> nat \<Rightarrow> ('k, 'v) sds \<Rightarrow> ('k, 'v) sds option" where
  "makeIdle thread batchStart mergeBlock merged mergedIndex mergeThread S = do {
     t \<leftarrow> minusThread thread mergeThread;
     updateTask t (\<lambda>task. task\<lparr>taskType := DO_NOTHING, firstBatchElement := batchStart, blockForBatchSplitter := mergeBlock,
       mergedTasks := merged, mergedTaskIndex := mergedIndex, requiredWidth := 0\<rparr>) S }"

text \<open>The loops \<open>for (mergeThread = from; mergeThread > to; --mergeThread)\<close>.\<close>

definition downFrom :: "nat \<Rightarrow> nat \<Rightarrow> nat list" where
  "downFrom from to = rev [Suc to..<Suc from]"

definition distributeGroup ::
  "('k::linorder, 'v) tparams \<Rightarrow> 'v list \<Rightarrow> int \<Rightarrow> nat \<Rightarrow> ('k, 'v) sds \<Rightarrow> ('k, 'v) sds option" where
  "distributeGroup P batch batchSize thread S = do {
     task \<leftarrow> getTask S thread;
     next \<leftarrow> getTask S (thread + 1);
     let mergeBlock = blockForBatchSplitter task;
     let totalBatchRange = mkInterval (firstBatchElement task) (firstBatchElement next);
     let pmaInputRange = mkInterval (blockForBatchSplitter task) (blockForBatchSplitter next);
     firstNormalBlock \<leftarrow> findNext (arrayOf P S) mergeBlock (iright pmaInputRange);
     e \<leftarrow> emptyAt P S firstNormalBlock;
     lastTaskBatchStart \<leftarrow>
       (if e then Some (iright totalBatchRange)
        else do {
          h \<leftarrow> headAt S firstNormalBlock;
          l \<leftarrow> std_lower_bound (\<lambda>v. keyOfValue P v < h) batch 0 batchSize;
          Some (min l (iright totalBatchRange)) });
     assertMsg (NDEBUG P) (lastTaskBatchStart \<ge> ileft totalBatchRange \<and> lastTaskBatchStart \<le> iright totalBatchRange);
     let mergeBatchRange = mkInterval (ileft totalBatchRange) lastTaskBatchStart;
     if intervalLength mergeBatchRange \<ge> int (MinSize P)
     then do {
       S \<leftarrow> updateTask thread (\<lambda>t. t\<lparr>firstBatchElement := lastTaskBatchStart, blockForBatchSplitter := firstNormalBlock\<rparr>) S;
       let numberOfTasksWithWork = min (mergedTasks task) (nat (cdiv (intervalLength mergeBatchRange) (int (MinSize P))));
       assertMsg (NDEBUG P) (numberOfTasksWithWork \<ge> 1);
       if numberOfTasksWithWork = 0 then None
       else do {
         let elementsPerThread = cdiv (intervalLength mergeBatchRange) (int numberOfTasksWithWork);
         S \<leftarrow> foldM (\<lambda>mergeThread S.
             makeIdle thread (ileft mergeBatchRange) mergeBlock numberOfTasksWithWork
               (u64 (int numberOfTasksWithWork - int mergeThread)) mergeThread S)
           (downFrom (mergedTasks task) numberOfTasksWithWork) S;
         S \<leftarrow> foldM (\<lambda>mergeThread S. do {
             t \<leftarrow> minusThread thread mergeThread;
             let mergeTaskBatchStart = min (ileft mergeBatchRange + int (numberOfTasksWithWork - mergeThread) * elementsPerThread)
               (iright mergeBatchRange);
             assertMsg (NDEBUG P) (mergeTaskBatchStart = 0 \<or> iright mergeBatchRange - mergeTaskBatchStart \<ge> int (MinSize P));
             updateTask t (\<lambda>task. task\<lparr>firstBatchElement := mergeTaskBatchStart, blockForBatchSplitter := mergeBlock,
               mergedTasks := numberOfTasksWithWork, mergedTaskIndex := numberOfTasksWithWork - mergeThread,
               requiredWidth := getRequiredWidth elementsPerThread\<rparr>) S })
           (downFrom numberOfTasksWithWork 0) S;
         foldM (\<lambda>mergeThread S. do {
             t \<leftarrow> minusThread thread mergeThread;
             a \<leftarrow> getTask S t;
             b \<leftarrow> getTask S (t + 1);
             let elementsInThread = firstBatchElement b - firstBatchElement a;
             updateTask t (\<lambda>task. task\<lparr>requiredWidth := getRequiredWidth elementsInThread\<rparr>) S })
           (downFrom numberOfTasksWithWork 0) S } }
     else do {
       S \<leftarrow> foldM (\<lambda>mergeThread S. makeIdle thread (ileft mergeBatchRange) mergeBlock 0 0 mergeThread S)
         (downFrom (mergedTasks task) 0) S;
       updateTask thread (\<lambda>t. t\<lparr>mergedTasks := 0\<rparr>) S } }"

definition distributeWorkInMergedTasks ::
  "('k::linorder, 'v) tparams \<Rightarrow> 'v list \<Rightarrow> int \<Rightarrow> ('k, 'v) sds \<Rightarrow> ('k, 'v) sds option" where
  "distributeWorkInMergedTasks P batch batchSize S = do {
     S \<leftarrow> updateTask 0 (\<lambda>t. t\<lparr>mergedTasks := 0\<rparr>) S;
     foldM (\<lambda>thread S. do {
         task \<leftarrow> getTask S thread;
         if taskType task = INSERTION \<and> mergedTasks task > 0 then distributeGroup P batch batchSize thread S
         else Some S })
       [1..<numberOfThreads S] S }"

section \<open>Running a task\<close>

definition setBlocksWritten :: "nat \<Rightarrow> int \<Rightarrow> ('k, 'v) sds \<Rightarrow> ('k, 'v) sds option" where
  "setBlocksWritten taskIndex n S = updateTask taskIndex (\<lambda>t. t\<lparr>numberOfBlocksWritten := n\<rparr>) S"

text \<open>The part of the merge block that belongs to one subtask of an inverse merge.\<close>

definition mergeRangeOf ::
  "('k::linorder, 'v) tparams \<Rightarrow> 'v list \<Rightarrow> int \<Rightarrow> TaskInfo \<Rightarrow> Interval \<Rightarrow> ('k, 'v) PmaEntry \<Rightarrow> Interval option" where
  "mergeRangeOf P batch batchSize task batchRange b = do {
     l \<leftarrow> (if bsize b \<noteq> 0 \<and> mergedTaskIndex task \<noteq> 0
          then do {
            assertMsg (NDEBUG P) (ileft batchRange \<noteq> batchSize);
            v \<leftarrow> idx batch (ileft batchRange);
            i \<leftarrow> findIndex P b (keyOfValue P v);
            Some (int i) }
          else Some 0);
     r \<leftarrow> (if bsize b \<noteq> 0 \<and> mergedTaskIndex task + 1 \<noteq> mergedTasks task \<and> iright batchRange \<noteq> batchSize
          then do {
            v \<leftarrow> idx batch (iright batchRange);
            i \<leftarrow> findIndex P b (keyOfValue P v);
            Some (int i) }
          else Some (int (bsize b)));
     Some (mkInterval l r) }"

definition startInsertionTask ::
  "('k::linorder, 'v) tparams \<Rightarrow> runtime \<Rightarrow> 'v list \<Rightarrow> int \<Rightarrow> nat \<Rightarrow> ('k, 'v) sds \<Rightarrow> ('k, 'v) sds option" where
  "startInsertionTask P R batch batchSize taskIndex S = do {
     task \<leftarrow> getTask S taskIndex;
     next \<leftarrow> getTask S (taskIndex + 1);
     let batchRange = mkInterval (firstBatchElement task) (firstBatchElement next);
     let pmaInputRange = mkInterval (blockForBatchSplitter task) (blockForBatchSplitter next);
     let bufferRange = mkInterval (startIndex task) (startIndex next);
     case taskType task of
       INSERTION \<Rightarrow>
         if intervalLength batchRange = 0 then setBlocksWritten taskIndex 0 S
         else do {
           (n, S) \<leftarrow> insertBatchRange P R batch batchRange pmaInputRange bufferRange S;
           setBlocksWritten taskIndex n S }
     | INVERSE_MERGE \<Rightarrow> do {
         assertMsg (NDEBUG P) UseInverseMerge;
         if intervalLength batchRange = 0 then setBlocksWritten taskIndex 0 S
         else do {
           b \<leftarrow> idx (pma S) (ileft pmaInputRange);
           mergeRange \<leftarrow> mergeRangeOf P batch batchSize task batchRange b;
           (n, S) \<leftarrow> inverseMerge P R batch batchRange mergeRange pmaInputRange bufferRange S;
           setBlocksWritten taskIndex n S } }
     | DO_NOTHING \<Rightarrow> setBlocksWritten taskIndex 0 S
     | REBALANCE \<Rightarrow> Some S }"

section \<open>After the insertions\<close>

definition postprocessInverseMergeTasks :: "('k, 'v) tparams \<Rightarrow> ('k, 'v) sds \<Rightarrow> ('k, 'v) sds option" where
  "postprocessInverseMergeTasks P S = foldM
     (\<lambda>thread S. do {
        task \<leftarrow> getTask S thread;
        if thread > 0 \<and> taskType task = INSERTION \<and> mergedTasks task > 0
        then do {
          prev \<leftarrow> getTask S (thread - 1);
          if taskType prev = INVERSE_MERGE
          then do {
            let mergeBlock = blockForBatchSplitter prev;
            e \<leftarrow> emptyAt P S mergeBlock;
            if \<not> e
            then do {
              b \<leftarrow> idx (pma S) mergeBlock;
              _ \<leftarrow> deleteBlock P b;
              setPma mergeBlock (emptyEntry P) S }
            else Some S }
          else Some S }
        else Some S })
     [0..<numberOfThreads S] S"

text \<open>Moving one block to the front of the buffer range of its merge group.\<close>

definition moveBufferBlock :: "('k, 'v) tparams \<Rightarrow> int \<Rightarrow> int \<Rightarrow> ('k, 'v) sds \<Rightarrow> ('k, 'v) sds option" where
  "moveBufferBlock P source target S = do {
     b \<leftarrow> idx (bufferArray S) source;
     assertMsg (NDEBUG P) (bsize b > 0);
     t \<leftarrow> idx (bufferArray S) target;
     assertMsg (NDEBUG P) (bsize t = 0);
     S \<leftarrow> setBuffer target b S;
     setBuffer source (emptyEntry P) S }"

text \<open>
  One round of \<open>compactifyBufferBlocks\<close>; the state is \<open>bufferTargetIndex\<close>, \<open>mergeBlock\<close>, \<open>bufferPointerStart\<close> and
  the array. The flag \<open>stop\<close> of the inner loop is its \<open>break\<close>.
\<close>

definition compactifyThread ::
  "('k, 'v) tparams \<Rightarrow> nat \<Rightarrow> int \<times> int \<times> int \<times> ('k, 'v) sds \<Rightarrow> (int \<times> int \<times> int \<times> ('k, 'v) sds) option" where
  "compactifyThread P thread = (\<lambda>(bufferTargetIndex, mergeBlock, bufferPointerStart, S). do {
     task \<leftarrow> getTask S thread;
     next \<leftarrow> getTask S (thread + 1);
     let bufferLeft = startIndex task;
     let written = numberOfBlocksWritten task;
     if taskType task = INVERSE_MERGE \<and> mergedTasks task > 0
     then if bufferTargetIndex = -1
       then Some (bufferLeft + written, blockForBatchSplitter task, bufferLeft, S)
       else do {
         (target, S) \<leftarrow> for_range 0 written
           (\<lambda>i (target, S). do { S \<leftarrow> moveBufferBlock P (bufferLeft + i) target S; Some (target + 1, S) })
           (bufferTargetIndex, S);
         Some (target, mergeBlock, bufferPointerStart, S) }
     else do {
       S \<leftarrow> (if mergeBlock \<noteq> -1
             then do {
               (stop, target, S) \<leftarrow>
                 (if blockForBatchSplitter task = mergeBlock
                  then for_range 0 written
                    (\<lambda>i (stop, target, S).
                       if stop then Some (stop, target, S)
                       else if bufferLeft + i = target then Some (True, target + written, S)
                       else do { S \<leftarrow> moveBufferBlock P (bufferLeft + i) target S; Some (False, target + 1, S) })
                    (False, bufferTargetIndex, S)
                  else Some (False, bufferTargetIndex, S));
               let newBufferPointers = mkInterval bufferPointerStart target;
               old \<leftarrow> idx (bufferPointers S) mergeBlock;
               assertMsg (NDEBUG P) (intervalLength newBufferPointers \<le> intervalLength old);
               setPointers mergeBlock (if intervalLength newBufferPointers = 0 then mkInterval 0 0 else newBufferPointers) S }
             else Some S);
       Some (-1, -1, -1, S) } })"

definition compactifyBufferBlocks :: "('k, 'v) tparams \<Rightarrow> ('k, 'v) sds \<Rightarrow> ('k, 'v) sds option" where
  "compactifyBufferBlocks P S = do {
     (_, _, _, S) \<leftarrow> foldM (compactifyThread P) [0..<numberOfThreads S] (-1, -1, -1, S);
     Some S }"

end
