(* ===== verification/Rebalance_Exec.thy ===== *)
theory Rebalance_Exec
  imports Tasks
begin

text \<open>
  The execution of rebalancing tasks: the blocks of a task are written densely from the array and the
  buffer to the swap array (\<open>rebalanceBlocks\<close>), the buffer pointers are cleared, and the blocks are
  distributed uniformly over the task's range of the array (\<open>rewriteBlocks\<close>). Tasks can be split
  between threads by block numbers (\<open>getPartialRebalancingRange\<close>).
\<close>

section \<open>From the array and the buffer to the swap array\<close>

definition setSwap :: "int \<Rightarrow> ('k, 'v) PmaEntry \<Rightarrow> ('k, 'v) sds \<Rightarrow> ('k, 'v) sds option" where
  "setSwap i b S = do { p \<leftarrow> upd (swapPma S) i b; Some (S\<lparr>swapPma := p\<rparr>) }"

definition taskAt :: "('k, 'v) sds \<Rightarrow> int \<Rightarrow> RebalancingTask option" where
  "taskAt S i = idx (rebalancingTasks S) i"

text \<open>The global block numbers of a task, from the prefix sums.\<close>

definition taskBlockRange :: "('k, 'v) sds \<Rightarrow> int \<Rightarrow> Interval option" where
  "taskBlockRange S taskIndex = do {
     l \<leftarrow> (if taskIndex > 0 then idx (prefixNumberOfRebalancingBlocks S) (taskIndex - 1) else Some 0);
     r \<leftarrow> idx (prefixNumberOfRebalancingBlocks S) taskIndex;
     Some (mkInterval l r) }"

definition getPartialRebalancingRange ::
  "('k, 'v) tparams \<Rightarrow> density \<Rightarrow> ('k, 'v) sds \<Rightarrow> int \<Rightarrow> Interval \<Rightarrow> PartialRebalancingTask option" where
  "getPartialRebalancingRange P dm S taskIndex globalBlockRange = do {
     region \<leftarrow> taskBlockRange S taskIndex;
     let globalBlockRangePart = cut region globalBlockRange;
     if intervalLength globalBlockRangePart = 0 then Some emptyPartialTask
     else do {
       let localBlockRange = mkInterval (ileft globalBlockRangePart - ileft region) (iright globalBlockRangePart - ileft region);
       task \<leftarrow> taskAt S taskIndex;
       start \<leftarrow> findBlockInRebalancingTask P dm (viewOf P S) (rebalancingManager S) (rootNode task) (ileft localBlockRange);
       stop \<leftarrow> findBlockInRebalancingTask P dm (viewOf P S) (rebalancingManager S) (rootNode task) (iright localBlockRange);
       assertMsg (NDEBUG P) (ileft localBlockRange \<ge> 0 \<and> ileft localBlockRange < taskNumberOfBlocks task);
       Some \<lparr>blockStart = start, blockEnd = stop, outputOffset = ileft localBlockRange\<rparr> } }"

text \<open>Writing one block to the next dense position of the swap array.\<close>

definition writeToSwap ::
  "('k, 'v) tparams \<Rightarrow> Interval \<Rightarrow> int \<Rightarrow> int \<Rightarrow> ('k, 'v) PmaEntry \<Rightarrow> ('k, 'v) sds \<Rightarrow> ('k, 'v) sds option" where
  "writeToSwap P region swapPmaOutputStart swapPmaOutputNumber b S = do {
     let writeIndex = getDenseWriteIndex swapPmaOutputStart swapPmaOutputNumber;
     assertMsg (NDEBUG P) (intervalContains region writeIndex);
     setSwap writeIndex b S }"

text \<open>The loop over the buffer blocks of one entry; returns the number of the next output block.\<close>

definition moveBufferBlocks ::
  "('k, 'v) tparams \<Rightarrow> Interval \<Rightarrow> int \<Rightarrow> int \<Rightarrow> int \<Rightarrow> int \<times> ('k, 'v) sds \<Rightarrow> (int \<times> ('k, 'v) sds) option" where
  "moveBufferBlocks P region swapPmaOutputStart bufferBlockStart bufferBlockEnd = for_range bufferBlockStart bufferBlockEnd
     (\<lambda>bufferBlockIndex (swapPmaOutputNumber, S). do {
        b \<leftarrow> idx (bufferArray S) bufferBlockIndex;
        assertMsg (NDEBUG P) ((bsize b = 0) = (head b = NULL_KEY P));
        assertMsg (NDEBUG P) ((bsize b = 0) = (block b = None));
        if bsize b > 0
        then do {
          S \<leftarrow> writeToSwap P region swapPmaOutputStart swapPmaOutputNumber b S;
          S \<leftarrow> setBuffer bufferBlockIndex (emptyEntry P) S;
          Some (swapPmaOutputNumber + 1, S\<lparr>bufferReads := bufferReads S + 1\<rparr>) }
        else Some (swapPmaOutputNumber, S) })"

text \<open>
  The loop of \<open>rebalanceBlocks\<close> over extended indices. Every round moves to the next entry, so the
  distance to the end decreases.
\<close>

function rebalanceLoop ::
  "('k, 'v) tparams \<Rightarrow> Interval \<Rightarrow> int \<Rightarrow> ExtendedPmaIndex \<Rightarrow> ExtendedPmaIndex \<Rightarrow> int \<Rightarrow> ('k, 'v) sds \<Rightarrow>
     (int \<times> ('k, 'v) sds) option" where
  "rebalanceLoop P region swapPmaOutputStart stop blockIndex swapPmaOutputNumber S =
     (if blockIndex < stop
      then do {
        (bufferOffset, swapPmaOutputNumber, S) \<leftarrow>
          (if bufferIndex blockIndex = -1
           then do {
             e \<leftarrow> emptyAt P S (pmaIndex blockIndex);
             (swapPmaOutputNumber, S) \<leftarrow>
               (if \<not> e
                then do {
                  b \<leftarrow> idx (pma S) (pmaIndex blockIndex);
                  S \<leftarrow> writeToSwap P region swapPmaOutputStart swapPmaOutputNumber b S;
                  S \<leftarrow> setPma (pmaIndex blockIndex) (emptyEntry P) S;
                  Some (swapPmaOutputNumber + 1, S) }
                else Some (swapPmaOutputNumber, S));
             Some (0, swapPmaOutputNumber, S) }
           else Some (bufferIndex blockIndex, swapPmaOutputNumber, S));
        iv \<leftarrow> idx (bufferPointers S) (pmaIndex blockIndex);
        let bufferBlockStart = ileft iv + bufferOffset;
        let bufferBlockEnd = (if pmaIndex blockIndex = pmaIndex stop then ileft iv + bufferIndex stop else iright iv);
        (swapPmaOutputNumber, S) \<leftarrow> moveBufferBlocks P region swapPmaOutputStart bufferBlockStart bufferBlockEnd (swapPmaOutputNumber, S);
        rebalanceLoop P region swapPmaOutputStart stop (ExtendedPmaIndex (pmaIndex blockIndex + 1) (-1)) swapPmaOutputNumber S }
      else Some (swapPmaOutputNumber, S))"
  by pat_completeness auto
termination
  by (relation "measure (\<lambda>(P, region, out, stop, i, n, S). nat (pmaIndex stop + 1 - pmaIndex i))")
    (auto simp: less_ExtendedPmaIndex_def ExtendedPmaIndex_less_def)

declare rebalanceLoop.simps [simp del]

definition rebalanceBlocks ::
  "('k, 'v) tparams \<Rightarrow> int \<Rightarrow> ExtendedPmaIndex \<Rightarrow> ExtendedPmaIndex \<Rightarrow> int \<Rightarrow> ('k, 'v) sds \<Rightarrow> (int \<times> ('k, 'v) sds) option" where
  "rebalanceBlocks P taskIndex start stop offset S = do {
     task \<leftarrow> taskAt S taskIndex;
     m \<leftarrow> clearRebalancedFlag P (rebalancingManager S) (rootNode task);
     let S = S\<lparr>rebalancingManager := m\<rparr>;
     let swapPmaOutputStart = ileft (pmaRange task) + offset;
     rebalanceLoop P (pmaRange task) swapPmaOutputStart stop start 0 S }"

definition startPartialRebalancingTask ::
  "('k, 'v) tparams \<Rightarrow> int \<Rightarrow> PartialRebalancingTask \<Rightarrow> ('k, 'v) sds \<Rightarrow> (int \<times> ('k, 'v) sds) option" where
  "startPartialRebalancingTask P taskIndex task S = rebalanceBlocks P taskIndex (blockStart task) (blockEnd task) (outputOffset task) S"

text \<open>The part of a task's range inside the array, or \<open>None\<close> when there is nothing to do.\<close>

definition effectiveRange :: "('k, 'v) tparams \<Rightarrow> RebalancingTask \<Rightarrow> ('k, 'v) sds \<Rightarrow> Interval option option" where
  "effectiveRange P task S = do {
     let effectivePmaSize = max 1 (sdsSize S);
     let region = pmaRange task;
     if ileft region \<ge> effectivePmaSize
     then do { assertMsg (NDEBUG P) (taskNumberOfBlocks task = 0); Some None }
     else do {
       let region = (if iright region > effectivePmaSize then region\<lparr>iright := effectivePmaSize\<rparr> else region);
       if intervalLength region = 0
       then do { assertMsg (NDEBUG P) (taskNumberOfBlocks task = 0); Some None }
       else Some (Some region) } }"

definition startFullRebalancingTask :: "('k, 'v) tparams \<Rightarrow> int \<Rightarrow> ('k, 'v) sds \<Rightarrow> (int \<times> ('k, 'v) sds) option" where
  "startFullRebalancingTask P taskIndex S = do {
     task \<leftarrow> taskAt S taskIndex;
     r \<leftarrow> effectiveRange P task S;
     case r of
       None \<Rightarrow> Some (0, S)
     | Some region \<Rightarrow> rebalanceBlocks P taskIndex (ExtendedPmaIndex (ileft region) (-1)) (ExtendedPmaIndex (iright region) (-1)) 0 S }"

section \<open>Clearing the buffer pointers\<close>

function clearPointersLoop :: "ExtendedPmaIndex \<Rightarrow> ExtendedPmaIndex \<Rightarrow> ('k, 'v) sds \<Rightarrow> ('k, 'v) sds option" where
  "clearPointersLoop blockIndex stop S =
     (if blockIndex < stop
      then do {
        S \<leftarrow> setPointers (pmaIndex blockIndex) emptyInterval S;
        clearPointersLoop (ExtendedPmaIndex (pmaIndex blockIndex + 1) (bufferIndex blockIndex)) stop S }
      else Some S)"
  by pat_completeness auto
termination
  by (relation "measure (\<lambda>(i, stop, S). nat (pmaIndex stop + 1 - pmaIndex i))")
    (auto simp: less_ExtendedPmaIndex_def ExtendedPmaIndex_less_def)

declare clearPointersLoop.simps [simp del]

definition clearBufferBlockPointers :: "ExtendedPmaIndex \<Rightarrow> ExtendedPmaIndex \<Rightarrow> ('k, 'v) sds \<Rightarrow> ('k, 'v) sds option" where
  "clearBufferBlockPointers start stop S = clearPointersLoop start stop S"

definition startPartialClearTask :: "PartialRebalancingTask \<Rightarrow> ('k, 'v) sds \<Rightarrow> ('k, 'v) sds option" where
  "startPartialClearTask task S = clearBufferBlockPointers (blockStart task) (blockEnd task) S"

definition startFullClearTask :: "('k, 'v) tparams \<Rightarrow> int \<Rightarrow> ('k, 'v) sds \<Rightarrow> ('k, 'v) sds option" where
  "startFullClearTask P taskIndex S = do {
     task \<leftarrow> taskAt S taskIndex;
     r \<leftarrow> effectiveRange P task S;
     case r of
       None \<Rightarrow> Some S
     | Some region \<Rightarrow> clearBufferBlockPointers (ExtendedPmaIndex (ileft region) (-1)) (ExtendedPmaIndex (iright region) (-1)) S }"

definition findRebalancingTask :: "('k, 'v) sds \<Rightarrow> int \<Rightarrow> int option" where
  "findRebalancingTask S blockNumber =
     std_lower_bound (\<lambda>p. p < blockNumber) (prefixNumberOfRebalancingBlocks S) 0
       (int (length (prefixNumberOfRebalancingBlocks S)))"

text \<open>The variant that executes a whole task in one thread.\<close>

definition startRebalancingTask :: "('k, 'v) tparams \<Rightarrow> RebalancingTask \<Rightarrow> ('k, 'v) sds \<Rightarrow> ('k, 'v) sds option" where
  "startRebalancingTask P task S = do {
     r \<leftarrow> effectiveRange P task S;
     case r of
       None \<Rightarrow> Some S
     | Some region \<Rightarrow> do {
         (_, S) \<leftarrow> for_range (ileft region) (iright region)
           (\<lambda>blockIndex (swapPmaOutputNumber, S). do {
              e \<leftarrow> emptyAt P S blockIndex;
              (swapPmaOutputNumber, S) \<leftarrow>
                (if \<not> e
                 then do {
                   b \<leftarrow> idx (pma S) blockIndex;
                   S \<leftarrow> setSwap (getDenseWriteIndex (ileft region) swapPmaOutputNumber) b S;
                   S \<leftarrow> setPma blockIndex (emptyEntry P) S;
                   assertMsg (NDEBUG P) (swapPmaOutputNumber + 1 \<le> taskNumberOfBlocks task);
                   Some (swapPmaOutputNumber + 1, S) }
                 else Some (swapPmaOutputNumber, S));
              iv \<leftarrow> idx (bufferPointers S) blockIndex;
              (swapPmaOutputNumber, S) \<leftarrow> for_range (ileft iv) (iright iv)
                (\<lambda>bufferBlockIndex (swapPmaOutputNumber, S). do {
                   b \<leftarrow> idx (bufferArray S) bufferBlockIndex;
                   assertMsg (NDEBUG P) ((bsize b = 0) = (head b = NULL_KEY P));
                   assertMsg (NDEBUG P) ((bsize b = 0) = (block b = None));
                   if bsize b > 0
                   then do {
                     S \<leftarrow> setSwap (getDenseWriteIndex (ileft region) swapPmaOutputNumber) b S;
                     S \<leftarrow> setBuffer bufferBlockIndex (emptyEntry P) S;
                     assertMsg (NDEBUG P) (swapPmaOutputNumber + 1 \<le> taskNumberOfBlocks task);
                     Some (swapPmaOutputNumber + 1, S\<lparr>bufferReads := bufferReads S + 1\<rparr>) }
                   else Some (swapPmaOutputNumber, S) }) (swapPmaOutputNumber, S);
              S \<leftarrow> setPointers blockIndex (mkInterval 0 0) S;
              Some (swapPmaOutputNumber, S) }) (0, S);
         Some S } }"

section \<open>From the swap array to the array\<close>

definition rewriteBlocks ::
  "('k, 'v) tparams \<Rightarrow> runtime \<Rightarrow> Interval \<Rightarrow> Interval \<Rightarrow> int \<Rightarrow> ('k, 'v) sds \<Rightarrow> ('k, 'v) sds option" where
  "rewriteBlocks P R swapPmaRange region nBlocks S = do {
     assertMsg (NDEBUG P) (nBlocks \<le> intervalLength swapPmaRange);
     (_, S) \<leftarrow> for_range (ileft swapPmaRange) (ileft swapPmaRange + nBlocks)
       (\<lambda>blockIndex (pmaOutputNumber, S). do {
          b \<leftarrow> idx (swapPma S) blockIndex;
          assertMsg (NDEBUG P) (bsize b > 0);
          writeIndex \<leftarrow> getUniformWriteIndex (ileft region) pmaOutputNumber (intervalLength region) nBlocks;
          S \<leftarrow> addRecountingNode P R writeIndex False S;
          S \<leftarrow> setPma writeIndex b S;
          S \<leftarrow> setSwap blockIndex (emptyEntry P) S;
          Some (pmaOutputNumber + 1, S) }) (0, S);
     Some S }"

definition startPartialRewritingTask ::
  "('k, 'v) tparams \<Rightarrow> runtime \<Rightarrow> int \<Rightarrow> Interval \<Rightarrow> ('k, 'v) sds \<Rightarrow> ('k, 'v) sds option" where
  "startPartialRewritingTask P R taskIndex globalBlockRange S = do {
     assertMsg (NDEBUG P) ((if taskIndex > 0 then taskIndex - 1 else 0) < int (length (prefixNumberOfRebalancingBlocks S)));
     assertMsg (NDEBUG P) (taskIndex < int (length (prefixNumberOfRebalancingBlocks S)));
     blockRange \<leftarrow> taskBlockRange S taskIndex;
     let globalBlockRangePart = cut blockRange globalBlockRange;
     if intervalLength globalBlockRangePart = 0 then Some S
     else do {
       task \<leftarrow> taskAt S taskIndex;
       let region = pmaRange task;
       let swapPmaOffset = ileft globalBlockRangePart - ileft blockRange;
       let nBlocks = intervalLength globalBlockRangePart;
       let swapPmaStart = ileft region + swapPmaOffset;
       let swapPmaEnd = ileft region + swapPmaOffset + nBlocks;
       pmaStart \<leftarrow> getUniformWriteIndex (ileft region) swapPmaOffset (intervalLength region) (taskNumberOfBlocks task);
       pmaEnd \<leftarrow> getUniformWriteIndex (ileft region) (swapPmaOffset + nBlocks) (intervalLength region) (taskNumberOfBlocks task);
       rewriteBlocks P R (mkInterval swapPmaStart swapPmaEnd) (mkInterval pmaStart pmaEnd) nBlocks S } }"

definition startFullRewritingTask :: "('k, 'v) tparams \<Rightarrow> runtime \<Rightarrow> int \<Rightarrow> ('k, 'v) sds \<Rightarrow> ('k, 'v) sds option" where
  "startFullRewritingTask P R taskIndex S = do {
     task \<leftarrow> taskAt S taskIndex;
     rewriteBlocks P R (pmaRange task) (pmaRange task) (taskNumberOfBlocks task) S }"

text \<open>The variant that rewrites a whole task in one thread, which is not used.\<close>

definition startRewritingTask ::
  "('k, 'v) tparams \<Rightarrow> runtime \<Rightarrow> RebalancingTask \<Rightarrow> int \<Rightarrow> ('k, 'v) sds \<Rightarrow> ('k, 'v) sds option" where
  "startRewritingTask P R task pmaSize S = do {
     let region = pmaRange task;
     if ileft region \<ge> pmaSize then Some S
     else do {
       let region = (if iright region > pmaSize then region\<lparr>iright := pmaSize\<rparr> else region);
       if intervalLength region = 0 then Some S
       else do {
         (_, S) \<leftarrow> for_range (ileft region) (iright region)
           (\<lambda>blockIndex (pmaOutputNumber, S). do {
              b \<leftarrow> idx (swapPma S) blockIndex;
              if bsize b > 0
              then do {
                writeIndex \<leftarrow> getUniformWriteIndex (ileft region) pmaOutputNumber (intervalLength region) (taskNumberOfBlocks task);
                S \<leftarrow> addRecountingNode P R writeIndex False S;
                S \<leftarrow> setPma writeIndex b S;
                S \<leftarrow> setSwap blockIndex (emptyEntry P) S;
                Some (pmaOutputNumber + 1, S) }
              else Some (pmaOutputNumber, S) }) (0, S);
         Some S } } }"

end
