(* ===== verification/Insert_Batch.thy ===== *)
theory Insert_Batch
  imports Rebalance_Exec
begin

text \<open>
  The operation \<open>insertBatch\<close> of \<open>BatchedSparseArray\<close>, phase by phase: distributing the batch to tasks,
  running the tasks, updating the rebalancing hierarchy, collecting the rebalancing tasks, moving the
  blocks of these tasks to the swap array and back.

  An OpenMP region runs its body once per thread. The parameter \<open>W\<close> gives, for each of the six regions,
  the order in which the bodies take effect (a permutation of the thread numbers); within a region the
  bodies write different tasks, entries and buffer positions, and share only the bucket map, whose
  insertions are atomic. The compile-time switches of the class are constants here.
\<close>

definition SplitRebalancingTasks :: bool where "SplitRebalancingTasks = True"

type_synonym workers = "nat \<Rightarrow> nat list"

definition okWorkers :: "workers \<Rightarrow> nat \<Rightarrow> bool" where
  "okWorkers W n \<longleftrightarrow> (\<forall>r. distinct (W r) \<and> set (W r) = {0..<n})"

section \<open>A: Insertion phase\<close>

text \<open>A-1. The body of the first region: the block and the first batch element of each task.\<close>

definition findTaskStart ::
  "('k::linorder, 'v) tparams \<Rightarrow> 'v list \<Rightarrow> int \<Rightarrow> int \<Rightarrow> ('k, 'v) sds \<Rightarrow> (int \<times> int) option" where
  "findTaskStart P batch splitterDistance thread S = do {
     v \<leftarrow> idx batch (thread * splitterDistance);
     b \<leftarrow> findBlockIndex P (arrayOf P S) (keyOfValue P v);
     first \<leftarrow> (if thread > 0
              then do { h \<leftarrow> headAt S b; findFirstBatchElement P batch (thread * splitterDistance) h }
              else Some 0);
     Some (b, first) }"

definition distributeThread ::
  "('k::linorder, 'v) tparams \<Rightarrow> 'v list \<Rightarrow> int \<Rightarrow> int \<Rightarrow> nat \<Rightarrow> ('k, 'v) sds \<Rightarrow> ('k, 'v) sds option" where
  "distributeThread P batch batchSize splitterDistance thread S = do {
     (b, first) \<leftarrow> findTaskStart P batch splitterDistance (int thread) S;
     (_, nextFirst) \<leftarrow>
       (if thread = numberOfThreads S - 1 then Some (sdsSize S, batchSize)
        else findTaskStart P batch splitterDistance (int thread + 1) S);
     updateTask thread (\<lambda>t. t\<lparr>blockForBatchSplitter := b, firstBatchElement := first,
       requiredWidth := getRequiredWidth (nextFirst - first)\<rparr>) S }"

text \<open>A-2. Merging tasks that start at the same block; the state is \<open>mergedTasks\<close>, \<open>hasMergedTask\<close> and the array.\<close>

definition mergeThreadTasks :: "nat \<Rightarrow> nat \<times> bool \<times> ('k, 'v) sds \<Rightarrow> (nat \<times> bool \<times> ('k, 'v) sds) option" where
  "mergeThreadTasks thread = (\<lambda>(merged, hasMergedTask, S). do {
     task \<leftarrow> getTask S thread;
     prev \<leftarrow> getTask S (thread - 1);
     if blockForBatchSplitter task = blockForBatchSplitter prev
     then do {
       S \<leftarrow> updateTask thread (\<lambda>t. t\<lparr>firstBatchElement := firstBatchElement prev, taskType := INSERTION\<rparr>) S;
       (merged, hasMergedTask, S) \<leftarrow>
         (if UseInverseMerge
          then do {
            S \<leftarrow> updateTask (thread - 1) (\<lambda>t. t\<lparr>taskType := INVERSE_MERGE\<rparr>) S;
            S \<leftarrow> updateTask thread (\<lambda>t. t\<lparr>mergedTasks := merged + 1\<rparr>) S;
            Some (merged + 1, True, S) }
          else do {
            S \<leftarrow> updateTask thread (\<lambda>t. t\<lparr>requiredWidth := requiredWidth t + requiredWidth prev, mergedTasks := 0\<rparr>) S;
            Some (merged, hasMergedTask, S) });
       S \<leftarrow> updateTask (thread - 1) (\<lambda>t. t\<lparr>requiredWidth := 0\<rparr>) S;
       Some (merged, hasMergedTask, S) }
     else if UseInverseMerge
     then do {
       S \<leftarrow> updateTask thread (\<lambda>t. t\<lparr>taskType := INSERTION, mergedTasks := 0\<rparr>) S;
       Some (0, hasMergedTask, S) }
     else Some (merged, hasMergedTask, S) })"

text \<open>A-4. The prefix sum over the widths; also sets the buffer pointers of the shared blocks.\<close>

definition assignBufferRange :: "('k, 'v) tparams \<Rightarrow> nat \<Rightarrow> int \<times> ('k, 'v) sds \<Rightarrow> (int \<times> ('k, 'v) sds) option" where
  "assignBufferRange P thread = (\<lambda>(prefixWidth, S). do {
     S \<leftarrow> updateTask thread (\<lambda>t. t\<lparr>startIndex := prefixWidth\<rparr>) S;
     task \<leftarrow> getTask S thread;
     let prefixWidth = prefixWidth + requiredWidth task;
     if thread < numberOfThreads S \<and> taskType task = INSERTION \<and> mergedTasks task > 0
     then do {
       assertMsg (NDEBUG P) (thread \<ge> mergedTasks task);
       p \<leftarrow> minusThread thread 1;
       prev \<leftarrow> getTask S p;
       f \<leftarrow> minusThread thread (mergedTasks task);
       first \<leftarrow> getTask S f;
       let iv = mkInterval (startIndex first) (startIndex task);
       S \<leftarrow> setPointers (blockForBatchSplitter prev) iv S;
       assertMsg (NDEBUG P) (ileft iv \<ge> 0 \<and> iright iv \<ge> ileft iv);
       Some (prefixWidth, S) }
     else Some (prefixWidth, S) })"

text \<open>A-1 to A-5. Returns \<open>hasMergedTask\<close>.\<close>

definition distributionPhase ::
  "('k::linorder, 'v) tparams \<Rightarrow> workers \<Rightarrow> 'v list \<Rightarrow> int \<Rightarrow> ('k, 'v) sds \<Rightarrow> (bool \<times> ('k, 'v) sds) option" where
  "distributionPhase P W batch batchSize S = do {
     let n = numberOfThreads S;
     splitterDistance \<leftarrow> (if n = 0 then None else Some (cdiv batchSize (int n)));
     S \<leftarrow> updateTask n (\<lambda>t. t\<lparr>blockForBatchSplitter := sdsSize S, firstBatchElement := batchSize\<rparr>) S;
     S \<leftarrow> foldM (distributeThread P batch batchSize splitterDistance) (W 0) S;
     S \<leftarrow> updateTask 0 (\<lambda>t. t\<lparr>firstBatchElement := 0, taskType := INSERTION, mergedTasks := 0\<rparr>) S;
     (_, hasMergedTask, S) \<leftarrow> foldM mergeThreadTasks [1..<n] (0, False, S);
     S \<leftarrow> updateTask n (\<lambda>t. t\<lparr>requiredWidth := 0\<rparr>) S;
     S \<leftarrow> (if UseInverseMerge then distributeWorkInMergedTasks P batch batchSize S else Some S);
     t0 \<leftarrow> getTask S 0;
     (prefixWidth, S) \<leftarrow> foldM (assignBufferRange P) [0..<n + 1] (blockForBatchSplitter t0, S);
     S \<leftarrow> increaseBufferArraySize P prefixWidth S;
     Some (hasMergedTask, S) }"

text \<open>A-6 and A-7.\<close>

definition executionPhase ::
  "('k::linorder, 'v) tparams \<Rightarrow> runtime \<Rightarrow> workers \<Rightarrow> 'v list \<Rightarrow> int \<Rightarrow> bool \<Rightarrow> ('k, 'v) sds \<Rightarrow> ('k, 'v) sds option" where
  "executionPhase P R W batch batchSize hasMergedTask S = do {
     S \<leftarrow> foldM (startInsertionTask P R batch batchSize) (W 1) S;
     if UseInverseMerge \<and> hasMergedTask
     then do {
       S \<leftarrow> postprocessInverseMergeTasks P S;
       compactifyBufferBlocks P S }
     else Some S }"

section \<open>B: Rebalancing phase\<close>

text \<open>B-2 and B-3. The nodes that no node above them dominates become rebalancing tasks.\<close>

definition collectTask ::
  "('k, 'v) tparams \<Rightarrow> density \<Rightarrow> RebalancingNode \<Rightarrow> brm \<times> RebalancingTask list \<Rightarrow> (brm \<times> RebalancingTask list) option" where
  "collectTask P dm node = (\<lambda>(m, ts). do {
     (dominated, m) \<leftarrow> rebalancingNodeDominated P m node;
     if \<not> dominated
     then do { t \<leftarrow> getRebalancingTask P dm m node; Some (m, ts @ [t]) }
     else do { m \<leftarrow> clearRebalancedFlag P m node; Some (m, ts) } })"

definition updatePhase ::
  "('k, 'v) tparams \<Rightarrow> density \<Rightarrow> runtime \<Rightarrow> ('k, 'v) sds \<Rightarrow> ('k, 'v) sds option" where
  "updatePhase P dm R S = do {
     (m, recMap, nodes) \<leftarrow> brmUpdate P dm R (viewOf P S) (rebalancingManager S) (recountingNodesMap S) (rebalancingNodes S);
     (m, ts) \<leftarrow> foldM (collectTask P dm) nodes (m, []);
     Some (S\<lparr>rebalancingManager := m, recountingNodesMap := recMap, rebalancingNodes := [], rebalancingTasks := ts\<rparr>) }"

text \<open>The inclusive prefix sums over the numbers of blocks, with the sentinel behind them.\<close>

fun inclusiveScan :: "int \<Rightarrow> int list \<Rightarrow> int list" where
  "inclusiveScan acc [] = []"
| "inclusiveScan acc (x # xs) = (acc + x) # inclusiveScan (acc + x) xs"

definition computePrefixSums :: "('k, 'v) sds \<Rightarrow> ('k, 'v) sds" where
  "computePrefixSums S =
     (let ps = inclusiveScan 0 (map taskNumberOfBlocks (rebalancingTasks S))
      in S\<lparr>prefixNumberOfRebalancingBlocks := ps @ [last ps]\<rparr>)"

text \<open>The block numbers of one thread.\<close>

definition threadBlockRange :: "int \<Rightarrow> int \<Rightarrow> nat \<Rightarrow> Interval" where
  "threadBlockRange blocksPerThread nTotal thread =
     mkInterval (int thread * blocksPerThread) (min nTotal ((int thread + 1) * blocksPerThread))"

text \<open>B-5(a). The first region finds the parts of the tasks each thread works on, the second moves their blocks.\<close>

definition assignRebalancing ::
  "('k, 'v) tparams \<Rightarrow> density \<Rightarrow> int \<Rightarrow> int \<Rightarrow> nat \<Rightarrow> ('k, 'v) sds \<Rightarrow> ('k, 'v) sds option" where
  "assignRebalancing P dm blocksPerThread nTotal thread S = do {
     let blockRange = threadBlockRange blocksPerThread nTotal thread;
     S \<leftarrow> updateTask thread (\<lambda>t. t\<lparr>rebalancingBlockRange := blockRange\<rparr>) S;
     if intervalLength blockRange > 0
     then do {
       taskStart \<leftarrow> findRebalancingTask S (ileft blockRange);
       e \<leftarrow> findRebalancingTask S (iright blockRange);
       let taskEnd = e + 1;
       S \<leftarrow> updateTask thread (\<lambda>t. t\<lparr>rebalancingTaskRange := mkInterval taskStart taskEnd\<rparr>) S;
       f \<leftarrow> getPartialRebalancingRange P dm S taskStart blockRange;
       S \<leftarrow> updateTask thread (\<lambda>t. t\<lparr>firstRebalancingTask := f\<rparr>) S;
       if taskEnd - taskStart > 1
       then do {
         l \<leftarrow> getPartialRebalancingRange P dm S (taskEnd - 1) blockRange;
         updateTask thread (\<lambda>t. t\<lparr>lastRebalancingTask := l\<rparr>) S }
       else Some S }
     else Some S }"

definition executeRebalancing :: "('k, 'v) tparams \<Rightarrow> nat \<Rightarrow> ('k, 'v) sds \<Rightarrow> ('k, 'v) sds option" where
  "executeRebalancing P thread S = do {
     task \<leftarrow> getTask S thread;
     if intervalLength (rebalancingBlockRange task) > 0
     then do {
       let taskRange = rebalancingTaskRange task;
       (_, S) \<leftarrow> startPartialRebalancingTask P (ileft taskRange) (firstRebalancingTask task) S;
       S \<leftarrow> for_range (ileft taskRange + 1) (iright taskRange - 1)
         (\<lambda>i S. do { (_, S) \<leftarrow> startFullRebalancingTask P i S; Some S }) S;
       if intervalLength taskRange > 1
       then do {
         (_, S) \<leftarrow> startPartialRebalancingTask P (iright taskRange - 1) (lastRebalancingTask task) S;
         Some S }
       else Some S }
     else Some S }"

text \<open>B-5(b). The variant in which a thread executes whole tasks.\<close>

definition executeUnsplit :: "('k, 'v) tparams \<Rightarrow> int \<Rightarrow> int \<Rightarrow> nat \<Rightarrow> ('k, 'v) sds \<Rightarrow> ('k, 'v) sds option" where
  "executeUnsplit P tasksPerThread nTasks thread S =
     for_range (int thread * tasksPerThread) (min nTasks ((int thread + 1) * tasksPerThread))
       (\<lambda>i S. do {
          t \<leftarrow> taskAt S i;
          S \<leftarrow> startRebalancingTask P t S;
          m \<leftarrow> clearRebalancedFlag P (rebalancingManager S) (rootNode t);
          Some (S\<lparr>rebalancingManager := m\<rparr>) }) S"

text \<open>B-7(a). Clearing the buffer pointers of the same parts.\<close>

definition clearPointersOfThread :: "('k, 'v) tparams \<Rightarrow> nat \<Rightarrow> ('k, 'v) sds \<Rightarrow> ('k, 'v) sds option" where
  "clearPointersOfThread P thread S = do {
     task \<leftarrow> getTask S thread;
     if intervalLength (rebalancingBlockRange task) > 0
     then do {
       let taskRange = rebalancingTaskRange task;
       S \<leftarrow> startPartialClearTask (firstRebalancingTask task) S;
       S \<leftarrow> for_range (ileft taskRange + 1) (iright taskRange - 1) (startFullClearTask P) S;
       if intervalLength taskRange > 1 then startPartialClearTask (lastRebalancingTask task) S else Some S }
     else Some S }"

text \<open>B-9. Rewriting, split or unsplit.\<close>

definition executeRewriting ::
  "('k, 'v) tparams \<Rightarrow> runtime \<Rightarrow> int \<Rightarrow> int \<Rightarrow> nat \<Rightarrow> ('k, 'v) sds \<Rightarrow> ('k, 'v) sds option" where
  "executeRewriting P R blocksPerThread nTotal thread S = do {
     let blockRange = threadBlockRange blocksPerThread nTotal thread;
     if iright blockRange > ileft blockRange
     then do {
       taskStart \<leftarrow> findRebalancingTask S (ileft blockRange);
       e \<leftarrow> findRebalancingTask S (iright blockRange);
       let taskEnd = e + 1;
       S \<leftarrow> startPartialRewritingTask P R taskStart blockRange S;
       S \<leftarrow> for_range (taskStart + 1) (taskEnd - 1) (startFullRewritingTask P R) S;
       if taskEnd - taskStart > 1 then startPartialRewritingTask P R (taskEnd - 1) blockRange S else Some S }
     else Some S }"

definition rewriteUnsplit ::
  "('k, 'v) tparams \<Rightarrow> runtime \<Rightarrow> int \<Rightarrow> int \<Rightarrow> int \<Rightarrow> nat \<Rightarrow> ('k, 'v) sds \<Rightarrow> ('k, 'v) sds option" where
  "rewriteUnsplit P R tasksPerThread nTasks newPmaSize thread S =
     for_range (min nTasks (int thread * tasksPerThread)) (min nTasks ((int thread + 1) * tasksPerThread))
       (\<lambda>i S. do { t \<leftarrow> taskAt S i; startRewritingTask P R t newPmaSize S }) S"

text \<open>B-4 to B-8: moving the blocks of all tasks to the swap array, and growing the arrays.\<close>

definition rebalancePhase ::
  "('k, 'v) tparams \<Rightarrow> density \<Rightarrow> workers \<Rightarrow> int \<Rightarrow> int \<Rightarrow> int \<Rightarrow> ('k, 'v) sds \<Rightarrow> ('k, 'v) sds option" where
  "rebalancePhase P dm W nTasks nTotal newPmaSize S = do {
     S \<leftarrow> increaseSwapPmaSize P newPmaSize S;
     let n = int (numberOfThreads S);
     S \<leftarrow> (if SplitRebalancingTasks
           then do {
             let blocksPerThread = cdiv nTotal n + 1;
             S \<leftarrow> foldM (assignRebalancing P dm blocksPerThread nTotal) (W 2) S;
             foldM (executeRebalancing P) (W 3) S }
           else foldM (executeUnsplit P (cdiv nTasks n + 1) nTasks) (W 3) S);
     assertMsg (NDEBUG P) (bufferReads S = bufferWrites S);
     m \<leftarrow> brmResize P (rebalancingManager S) newPmaSize;
     let S = S\<lparr>rebalancingManager := m\<rparr>;
     S \<leftarrow> (if SplitRebalancingTasks then foldM (clearPointersOfThread P) (W 4) S else Some S);
     let S = resizeMainPma P newPmaSize S;
     assertMsg (NDEBUG P) (sdsSize S = newPmaSize);
     Some S }"

definition rewritePhase ::
  "('k, 'v) tparams \<Rightarrow> runtime \<Rightarrow> workers \<Rightarrow> int \<Rightarrow> int \<Rightarrow> int \<Rightarrow> ('k, 'v) sds \<Rightarrow> ('k, 'v) sds option" where
  "rewritePhase P R W nTasks nTotal newPmaSize S = do {
     let n = int (numberOfThreads S);
     if SplitRebalancingTasks then foldM (executeRewriting P R (cdiv nTotal n + 1) nTotal) (W 5) S
     else foldM (rewriteUnsplit P R (cdiv nTasks n + 1) nTasks newPmaSize) (W 5) S }"

definition clearRebalancingInfo :: "('k, 'v) sds \<Rightarrow> ('k, 'v) sds" where
  "clearRebalancingInfo S = S\<lparr>rebalancingTasks := [], prefixNumberOfRebalancingBlocks := []\<rparr>"

section \<open>The operation\<close>

definition insertBatch ::
  "('k::linorder, 'v) tparams \<Rightarrow> density \<Rightarrow> runtime \<Rightarrow> workers \<Rightarrow> 'v list \<Rightarrow> int \<Rightarrow> nat \<Rightarrow> ('k, 'v) sds \<Rightarrow> ('k, 'v) sds option" where
  "insertBatch P dm R W batch batchSize numThreads S = do {
     assertMsg (NDEBUG P) (numThreads = numberOfThreads S);
     let S = S\<lparr>bufferWrites := 0, bufferReads := 0\<rparr>;
     (if NDEBUG P then Some () else do { ok \<leftarrow> batchSorted P batch batchSize; assertMsg False ok });
     assertMsg (NDEBUG P) (numberOfThreads S < length (tasks S));
     assertMsg (NDEBUG P) (batchSize \<ge> int (numberOfThreads S));
     (hasMergedTask, S) \<leftarrow> distributionPhase P W batch batchSize S;
     S \<leftarrow> executionPhase P R W batch batchSize hasMergedTask S;
     S \<leftarrow> updatePhase P dm R S;
     if rebalancingTasks S = [] then Some (clearRebalancingInfo S)
     else do {
       let S = computePrefixSums S;
       let nTasks = int (length (rebalancingTasks S));
       let nTotal = last (prefixNumberOfRebalancingBlocks S);
       let newPmaSize = max (sdsSize S) (iright (pmaRange (last (rebalancingTasks S))));
       S \<leftarrow> rebalancePhase P dm W nTasks nTotal newPmaSize S;
       S \<leftarrow> rewritePhase P R W nTasks nTotal newPmaSize S;
       Some (clearRebalancingInfo S) } }"

text \<open>\<open>removeBatch\<close> ignores its arguments.\<close>

definition removeBatch :: "'v list \<Rightarrow> int \<Rightarrow> nat \<Rightarrow> ('k, 'v) sds \<Rightarrow> ('k, 'v) sds" where
  "removeBatch batch batchSize numThreads S = S"

end
