(* ===== verification/Insertion_Block.thy ===== *)
theory Insertion_Block
  imports Insertion
begin

text \<open>
  Correctness of the insertion into one block (\<open>insertElementsIntoBlock\<close> and what it calls): blocks written
  to the buffer (\<open>written\<close>), the loop that splits an overflowing block (\<open>splitInv\<close>), and the effect on the
  array (\<open>blockStep\<close>).
\<close>

section \<open>Writing blocks to the buffer\<close>

text \<open>Blocks that may be written: sorted, with a size between the bounds.\<close>

definition okSized :: "('k::linorder, 'v) tparams \<Rightarrow> ('k, 'v) PmaEntry \<Rightarrow> bool" where
  "okSized P b \<longleftrightarrow> wfBlock P b \<and> MinSize P \<le> bsize b \<and> bsize b \<le> MaxSize P"

lemma okSized_nonempty: "wfParams P \<Longrightarrow> okSized P b \<Longrightarrow> \<not> isEmpty b \<and> elems b \<noteq> []"
  using length_elems [of P b] by (auto simp: okSized_def wfBlock_def okBlock_def isEmpty_def wfParams_def simp del: length_elems)

text \<open>The state after the blocks \<open>ws\<close> were written from position \<open>start\<close> on behalf of the array entry \<open>origin\<close>.\<close>

definition written ::
  "('k, 'v) tparams \<Rightarrow> runtime \<Rightarrow> int \<Rightarrow> nat \<Rightarrow> ('k, 'v) PmaEntry list \<Rightarrow> ('k, 'v) sds \<Rightarrow> ('k, 'v) sds \<Rightarrow> bool" where
  "written P R origin start ws S S' \<longleftrightarrow>
     (\<exists>m. S' = S\<lparr>bufferArray := writeAt start ws (bufferArray S), recountingNodesMap := m,
                  bufferWrites := bufferWrites S + int (length ws)\<rparr> \<and> bmInv R m \<and>
        bmLookup m = (if ws = [] then bmLookup (recountingNodesMap S)
                      else (bmLookup (recountingNodesMap S))(lowestLevelNodeIndex P origin \<mapsto> True)))"

lemma written_Nil [simp]: "bmInv R (recountingNodesMap S) \<Longrightarrow> written P R origin start [] S S"
  by (auto simp: written_def intro!: exI [of _ "recountingNodesMap S"])

text \<open>Room for \<open>n\<close> blocks in the buffer array.\<close>

definition freeBuffer :: "('k, 'v) sds \<Rightarrow> nat \<Rightarrow> nat \<Rightarrow> bool" where
  "freeBuffer S start n \<longleftrightarrow> start + n \<le> length (bufferArray S) \<and> bufferCapacity S = int (length (bufferArray S)) \<and>
     (\<forall>i. start \<le> i \<and> i < start + n \<longrightarrow> block (bufferArray S ! i) = None)"

lemma writeToBufferArray_ok:
  assumes wr: "written P R origin start ws S S'" and free: "freeBuffer S start n" and room: "length ws < n"
    and b: "okSized P b" "wfParams P"
    and at: "ileft outputRange + blockNumber = int start + int (length ws)" "int start + int n \<le> iright outputRange"
  shows "\<exists>S''. writeToBufferArray P R b outputRange blockNumber origin S' = Some S'' \<and> written P R origin start (ws @ [b]) S S''"
proof -
  let ?w = "ileft outputRange + blockNumber" and ?buf = "writeAt start ws (bufferArray S)"
  obtain m where m: "S' = S\<lparr>bufferArray := ?buf, recountingNodesMap := m, bufferWrites := bufferWrites S + int (length ws)\<rparr>" "bmInv R m"
    "bmLookup m = (if ws = [] then bmLookup (recountingNodesMap S)
                      else (bmLookup (recountingNodesMap S))(lowestLevelNodeIndex P origin \<mapsto> True))"
    using wr by (auto simp: written_def)
  have len: "start + length ws < length (bufferArray S)" using free room by (simp add: freeBuffer_def)
  have "block (?buf ! (start + length ws)) = None"
    using free room len by (simp add: writeAt_nth freeBuffer_def)
  moreover have "?buf[start + length ws := b] = writeAt start (ws @ [b]) (bufferArray S)" using len by (rule writeAt_snoc)
  moreover have "idx ?buf ?w = Some (?buf ! (start + length ws))" "upd ?buf ?w b = Some (?buf[start + length ws := b])"
    using at(1) len by (simp_all add: nat_add_distrib)
  moreover have "?w < iright outputRange" "?w < bufferCapacity S" using at room free by (auto simp: freeBuffer_def)
  moreover obtain m' where m': "bmInsert R (lowestLevelNodeIndex P origin, True) m = Some m'" "bmInv R m'"
    "bmLookup m' = (bmLookup m)(lowestLevelNodeIndex P origin \<mapsto> True \<or> bmLookup m (lowestLevelNodeIndex P origin) = Some True)"
    using bm.ins_ok [OF m(2)] by blast
  ultimately have "writeToBufferArray P R b outputRange blockNumber origin S' =
      Some (S\<lparr>bufferArray := writeAt start (ws @ [b]) (bufferArray S), recountingNodesMap := m',
        bufferWrites := bufferWrites S + int (length (ws @ [b]))\<rparr>)"
    using b(1) okSized_nonempty [OF b(2,1)] m(1)
    by (simp add: writeToBufferArray_def getDenseWriteIndex_def okSized_def addRecountingNode_def ac_simps)
  moreover have "bmLookup m' = (bmLookup (recountingNodesMap S))(lowestLevelNodeIndex P origin \<mapsto> True)"
    using m'(3) m(3) by (auto simp: fun_eq_iff)
  ultimately show ?thesis using m'(2) by (auto simp: written_def)
qed

section \<open>Inserting into a block that overflows\<close>

text \<open>
  What is known while the elements \<open>lo, \<dots>, i - 1\<close> of the batch are inserted into the block \<open>b0\<close>: \<open>ws\<close>
  was written, \<open>cur\<close> is the block that is filled, \<open>rh\<close> the right half that was split off or the null
  entry, \<open>hint\<close> the position where the next search starts.
\<close>

definition splitSetting :: "('k::linorder, 'v) tparams \<Rightarrow> ('k, 'v) PmaEntry \<Rightarrow> 'v list \<Rightarrow> nat \<Rightarrow> nat \<Rightarrow> bool" where
  "splitSetting P b0 batch lo hi \<longleftrightarrow> wfParams P \<and> okSized P b0 \<and> lo \<le> hi \<and> hi \<le> length batch \<and>
     strictly_sorted (map (keyOfValue P) batch) \<and> (\<forall>v\<in>set batch. NULL_KEY P < keyOfValue P v) \<and>
     (\<forall>v\<in>set (slice batch lo hi). staleOk P b0 (keyOfValue P v))"

definition splitInv ::
  "('k::linorder, 'v) tparams \<Rightarrow> ('k, 'v) PmaEntry \<Rightarrow> 'v list \<Rightarrow> nat \<Rightarrow> nat \<Rightarrow> nat \<Rightarrow> ('k, 'v) PmaEntry \<Rightarrow> ('k, 'v) PmaEntry \<Rightarrow> nat \<Rightarrow>
     ('k, 'v) PmaEntry list \<Rightarrow> bool" where
  "splitInv P b0 batch lo hi i cur rh hint ws \<longleftrightarrow>
     lo \<le> i \<and> i \<le> hi \<and>
     entriesElems (ws @ [cur, rh]) = fold (insKey (keyOfValue P)) (slice batch lo i) (elems b0) \<and>
     okSized P cur \<and> (\<forall>w\<in>set ws. okSized P w) \<and>
     (rh = emptyEntry P \<or> okSized P rh \<and> bsize rh = MinSize P) \<and>
     (\<forall>b\<in>set (ws @ [cur, rh]). staleKeys P b \<subseteq> staleKeys P b0 \<union> {NULL_KEY P} \<union>
        keyOfValue P ` set (fold (insKey (keyOfValue P)) (slice batch lo i) (elems b0))) \<and>
     (nullStale P b0 \<longrightarrow> (\<forall>b\<in>set (ws @ [cur, rh]). nullStale P b)) \<and>
     (i < hi \<longrightarrow>
        (\<forall>x\<in>set (entriesElems ws). keyOfValue P x < keyOfValue P (batch ! i)) \<and>
        (rh \<noteq> emptyEntry P \<longrightarrow> bsize cur \<le> MinSize P + keyPos P cur (keyOfValue P (batch ! i))) \<and>
        (hint \<le> keyPos P cur (keyOfValue P (batch ! i)) \<or> rh \<noteq> emptyEntry P \<and> head rh \<le> keyOfValue P (batch ! i)))"

lemma entriesElems_simps [simp]:
  "entriesElems [] = []" "entriesElems (b # es) = elems b @ entriesElems es" "entriesElems (es @ fs) = entriesElems es @ entriesElems fs"
  by (simp_all add: entriesElems_def)

lemma splitSettingD:
  assumes "splitSetting P b0 batch lo hi"
  shows "wfParams P" "okSized P b0" "lo \<le> hi" "hi \<le> length batch" "strictly_sorted (map (keyOfValue P) batch)"
    "strictly_sorted (map (keyOfValue P) (elems b0))"
    "\<And>j. j < length batch \<Longrightarrow> NULL_KEY P < keyOfValue P (batch ! j)"
    "\<And>j j'. j < j' \<Longrightarrow> j' < length batch \<Longrightarrow> keyOfValue P (batch ! j) < keyOfValue P (batch ! j')"
  using assms sorted_wrt_nth_less [of "(<)" "map (keyOfValue P) batch"]
  by (auto simp: splitSetting_def okSized_def wfBlock_def keysOf_def)

lemma staleKeys_empty [simp]: "staleKeys P (emptyEntry P) = {}"
  by (simp add: staleKeys_def stale_def cellsOf_def)

lemma nullStale_empty [simp]: "nullStale P (emptyEntry P)"
  by (simp add: nullStale_def)

lemma nullStale_subset: "nullStale P b \<Longrightarrow> staleKeys P b' \<subseteq> staleKeys P b \<Longrightarrow> nullStale P b'"
  by (auto simp: nullStale_def)

lemma splitInv_start:
  assumes "splitSetting P b0 batch lo hi"
  shows "splitInv P b0 batch lo hi lo b0 (emptyEntry P) 0 []"
  using splitSettingD [OF assms] by (auto simp: splitInv_def)

text \<open>The contents are sorted, so the parts are ordered.\<close>

lemma splitInv_sorted:
  assumes "splitSetting P b0 batch lo hi" "splitInv P b0 batch lo hi i cur rh hint ws"
  shows "strictly_sorted (map (keyOfValue P) (entriesElems (ws @ [cur, rh])))"
  using assms(2) fold_insKey_sorted [OF splitSettingD(6) [OF assms(1)]] by (simp add: splitInv_def)

lemma okSized_head:
  assumes "wfParams P" "okSized P b"
  shows "head b = keyOfValue P (hd (elems b))" "elems b \<noteq> []" "\<And>x. x \<in> set (elems b) \<Longrightarrow> head b \<le> keyOfValue P x"
proof -
  show ne: "elems b \<noteq> []" using okSized_nonempty [OF assms] by simp
  have "0 < bsize b" using assms by (auto simp: okSized_def wfParams_def)
  then show hd: "head b = keyOfValue P (hd (elems b))"
    using assms(2) ne by (auto simp: okSized_def wfBlock_def keysOf_def hd_map)
  show "head b \<le> keyOfValue P x" if "x \<in> set (elems b)" for x
    using assms(2) wfBlock_head_le [of P b] that by (auto simp: okSized_def keysOf_def)
qed

text \<open>The next element is written to the buffered part only if it is not smaller than the right half.\<close>

lemma splitInv_switch:
  assumes set: "splitSetting P b0 batch lo hi" and inv: "splitInv P b0 batch lo hi i cur rh hint ws"
    and rh: "rh \<noteq> emptyEntry P" "i < hi" "head rh \<le> keyOfValue P (batch ! i)"
  shows "splitInv P b0 batch lo hi i rh (emptyEntry P) 0 (ws @ [cur])"
proof -
  note d = splitSettingD [OF set]
  have ok: "okSized P rh" using inv rh by (simp add: splitInv_def)
  have "keyOfValue P x < keyOfValue P (batch ! i)" if "x \<in> set (elems cur)" for x
  proof -
    have "keyOfValue P x < keyOfValue P (hd (elems rh))"
      using splitInv_sorted [OF set inv] that okSized_head(2) [OF d(1) ok] by (auto simp: sorted_wrt_append)
    then show ?thesis using rh(3) okSized_head(1) [OF d(1) ok] by simp
  qed
  then show ?thesis using inv ok by (auto simp: splitInv_def)
qed

lemma keyPos_ge:
  assumes "okBlock P b" "n \<le> bsize b" "\<And>x. x \<in> set (take n (elems b)) \<Longrightarrow> keyOfValue P x < k"
  shows "n \<le> keyPos P b k"
proof -
  have "takeWhile (\<lambda>v. keyOfValue P v < k) (take n (elems b) @ drop n (elems b)) =
     take n (elems b) @ takeWhile (\<lambda>v. keyOfValue P v < k) (drop n (elems b))"
    using assms(3) by (intro takeWhile_append2) auto
  then have "keyPos P b k = n + length (takeWhile (\<lambda>v. keyOfValue P v < k) (drop n (elems b)))"
    using assms(1,2) by (simp add: keyPos_def)
  then show ?thesis by simp
qed

lemma keyPos_insert:
  assumes "wfBlock P b" "wfBlock P b'" "elems b' = insKey (keyOfValue P) v (elems b)" "keyOfValue P v < k"
  shows "keyPos P b (keyOfValue P v) + bsize b' - bsize b \<le> keyPos P b' k"
proof (rule keyPos_ge)
  let ?p = "keyPos P b (keyOfValue P v)"
  have ok: "okBlock P b" "strictly_sorted (keysOf P b)" "okBlock P b'" using assms(1,2) by (auto simp: wfBlock_def)
  note el = insKey_elems [OF ok(1,2), of v]
  have le: "?p \<le> bsize b" using ok(1) by simp
  have len: "bsize b' = (if keyOfValue P v \<in> set (keysOf P b) then bsize b else Suc (bsize b))"
    using length_elems [OF ok(3)] length_elems [OF ok(1)] le assms(3) el by auto
  show "?p + bsize b' - bsize b \<le> bsize b'" using le by simp
  fix x assume x: "x \<in> set (take (?p + bsize b' - bsize b) (elems b'))"
  have "x \<in> set (take ?p (elems b)) \<or> x = v"
    using x assms(3) el len le ok(1) by (auto split: if_splits)
  then show "keyOfValue P x < k" using keyPos_before [of x P b "keyOfValue P v"] assms(4) by auto
qed (use assms(2) in simp)

text \<open>The right half holds larger keys, and the cells behind the block are harmless.\<close>

lemma splitInv_right:
  assumes set: "splitSetting P b0 batch lo hi" and inv: "splitInv P b0 batch lo hi i cur rh hint ws"
    and left: "rh = emptyEntry P \<or> k < head rh" and x: "x \<in> set (elems rh)"
  shows "k < keyOfValue P x"
proof (cases "rh = emptyEntry P")
  case False
  then have "okSized P rh" using inv by (simp add: splitInv_def)
  then show ?thesis
    using okSized_head(3) [OF splitSettingD(1) [OF set]] left False x by (metis order.strict_trans2)
qed (use x in simp)

lemma splitInv_staleOk:
  assumes set: "splitSetting P b0 batch lo hi" and inv: "splitInv P b0 batch lo hi i cur rh hint ws"
    and i: "i < hi" and left: "rh = emptyEntry P \<or> keyOfValue P (batch ! i) < head rh"
  shows "staleOk P cur (keyOfValue P (batch ! i))"
  unfolding staleOk_def
proof
  note d = splitSettingD [OF set]
  let ?k = "keyOfValue P (batch ! i)" and ?kf = "keyOfValue P"
  let ?E = "fold (insKey ?kf) (slice batch lo i) (elems b0)"
  assume "?k \<in> ?kf ` set (stale cur)"
  then have "?k \<in> staleKeys P b0 \<or> ?k = NULL_KEY P \<or> ?k \<in> ?kf ` set ?E"
    using inv by (auto simp: splitInv_def staleKeys_def)
  moreover have "batch ! i \<in> set (slice batch lo hi)" using i inv d(4) by (auto simp: in_slice splitInv_def)
  moreover have "?k \<noteq> NULL_KEY P" using d(7) [of i] i d(4) by simp
  ultimately have "?k \<in> ?kf ` set ?E"
    using set by (auto simp: splitSetting_def staleOk_def staleKeys_def keysOf_def keys_fold_insKey)
  then have "?k \<in> ?kf ` set (entriesElems (ws @ [cur, rh]))" using inv by (simp add: splitInv_def)
  moreover have "?k \<notin> ?kf ` set (entriesElems ws)" using inv i by (force simp: splitInv_def)
  moreover have "?k \<notin> ?kf ` set (elems rh)" using splitInv_right [OF set inv left] by force
  ultimately show "?k \<in> set (keysOf P cur)" by (auto simp: keysOf_def)
qed

lemma splitInv_insert:
  assumes set: "splitSetting P b0 batch lo hi" and inv: "splitInv P b0 batch lo hi i cur rh hint ws"
    and i: "i < hi" and room: "bsize cur < MaxSize P"
    and left: "rh = emptyEntry P \<or> keyOfValue P (batch ! i) < head rh"
  shows "\<exists>b' h new. insertWithIndex P cur (batch ! i) hint = Some (new, h, b') \<and> splitInv P b0 batch lo hi (Suc i) b' rh h ws"
proof -
  note d = splitSettingD [OF set]
  let ?v = "batch ! i" and ?k = "keyOfValue P (batch ! i)" and ?kf = "keyOfValue P"
  let ?E = "fold (insKey ?kf) (slice batch lo i) (elems b0)"
  have ok: "okSized P cur" "wfBlock P cur" "okBlock P cur" using inv by (auto simp: splitInv_def okSized_def)
  have ws: "\<And>x. x \<in> set (entriesElems ws) \<Longrightarrow> ?kf x < ?k" using inv i by (auto simp: splitInv_def)
  have hint: "hint \<le> keyPos P cur ?k" using inv i left by (auto simp: splitInv_def)
  have bef: "hint \<le> bsize cur" "\<forall>v\<in>set (take hint (elems cur)). ?kf v < ?k"
    using hint keyPos_le [OF ok(3), of ?k] keyPos_before set_take_subset_set_take [OF hint, of "elems cur"] by fastforce+
  have nk: "NULL_KEY P < ?k" using d(7) [of i] i d(4) by simp
  obtain b' where b': "insertWithIndex P cur ?v hint = Some (?k \<notin> set (keysOf P cur), keyPos P cur ?k, b')"
    "wfBlock P b'" "elems b' = insKey ?kf ?v (elems cur)" "set (stale b') \<subseteq> set (stale cur)"
    "bsize b' = (if ?k \<in> set (keysOf P cur) then bsize cur else Suc (bsize cur))"
    using insertWithIndex_ok [OF d(1) ok(2) room nk splitInv_staleOk [OF set inv i left] bef] by blast
  have "fold (insKey ?kf) (slice batch lo (Suc i)) (elems b0) = insKey ?kf ?v ?E"
    using inv i d(4) by (simp add: slice_Suc splitInv_def)
  also have "\<dots> = insKey ?kf ?v (entriesElems ws @ elems cur @ elems rh)" using inv by (simp add: splitInv_def)
  also have "\<dots> = entriesElems (ws @ [b', rh])"
    using ws splitInv_right [OF set inv left] b'(3) by (simp add: insKey_append_left insKey_append_right)
  finally have E': "entriesElems (ws @ [b', rh]) = fold (insKey ?kf) (slice batch lo (Suc i)) (elems b0)" ..
  have keys: "?kf ` set ?E \<subseteq> ?kf ` set (fold (insKey ?kf) (slice batch lo (Suc i)) (elems b0))"
    using inv i d(4) by (auto simp: slice_Suc splitInv_def keys_insKey)
  have next_key: "?k < ?kf (batch ! Suc i)" if "Suc i < hi" using that d(4,8) by simp
  have pos: "keyPos P cur ?k + bsize b' - bsize cur \<le> keyPos P b' (?kf (batch ! Suc i))" if "Suc i < hi"
    using keyPos_insert [OF ok(2) b'(2,3) next_key [OF that]] .
  have "splitInv P b0 batch lo hi (Suc i) b' rh (keyPos P cur ?k) ws"
    unfolding splitInv_def
  proof (intro conjI impI ballI)
    show "okSized P b'" using ok(1) b' room by (auto simp: okSized_def)
    have "staleKeys P b' \<subseteq> staleKeys P cur" using b'(4) by (auto simp: staleKeys_def)
    then show "nullStale P b" if "nullStale P b0" "b \<in> set (ws @ [b', rh])" for b
      using that inv nullStale_subset [of P cur b'] by (auto simp: splitInv_def)
    show "staleKeys P b \<subseteq> staleKeys P b0 \<union> {NULL_KEY P} \<union>
        ?kf ` set (fold (insKey ?kf) (slice batch lo (Suc i)) (elems b0))" if "b \<in> set (ws @ [b', rh])" for b
    proof -
      have "staleKeys P b' \<subseteq> staleKeys P cur" using b'(4) by (auto simp: staleKeys_def)
      then have "staleKeys P b \<subseteq> staleKeys P b0 \<union> {NULL_KEY P} \<union> ?kf ` set ?E" using inv that by (auto simp: splitInv_def)
      then show ?thesis using keys by blast
    qed
    show "?kf x < ?kf (batch ! Suc i)" if "Suc i < hi" "x \<in> set (entriesElems ws)" for x
      using ws [OF that(2)] next_key [OF that(1)] by (rule less_trans)
    show "bsize b' \<le> MinSize P + keyPos P b' (?kf (batch ! Suc i))" if "Suc i < hi" "rh \<noteq> emptyEntry P"
      using pos [OF that(1)] inv i that(2) b'(5) by (auto simp: splitInv_def split: if_splits)
    show "keyPos P cur ?k \<le> keyPos P b' (?kf (batch ! Suc i)) \<or> rh \<noteq> emptyEntry P \<and> head rh \<le> ?kf (batch ! Suc i)" if "Suc i < hi"
      using pos [OF that] b'(5) by (auto split: if_splits)
  qed (use E' inv i in \<open>auto simp: splitInv_def\<close>)
  then show ?thesis using b'(1) by blast
qed

lemma splitInv_full:
  assumes set: "splitSetting P b0 batch lo hi" and inv: "splitInv P b0 batch lo hi i cur rh hint ws"
    and full: "bsize cur = MaxSize P"
  obtains l r where "split P cur = Some (l, r)" "okSized P l" "okSized P r" "elems l @ elems r = elems cur"
    "elems l = take (MinSize P) (elems cur)" "bsize l = MinSize P" "bsize r = MinSize P"
    "staleKeys P l \<subseteq> insert (NULL_KEY P) (keyOfValue P ` set (elems r))" "staleKeys P r \<subseteq> {NULL_KEY P}" "nullStale P l" "nullStale P r"
proof -
  have ok: "wfBlock P cur" using inv by (auto simp: splitInv_def okSized_def)
  have wp: "wfParams P" using splitSettingD(1) [OF set] .
  obtain l r where "split P cur = Some (l, r)" "wfBlock P l" "wfBlock P r"
    "elems l = take (MinSize P) (elems cur)" "elems r = drop (MinSize P) (elems cur)" "bsize l = MinSize P" "bsize r = MinSize P"
    "staleKeys P l \<subseteq> insert (NULL_KEY P) (set (keysOf P r))" "staleKeys P r \<subseteq> {NULL_KEY P}" "nullStale P l"
    using split_ok [OF wp ok full] by blast
  then show ?thesis using that [of l r] wp by (simp add: okSized_def keysOf_def wfParams_def nullStale_def)
qed

lemma splitInv_split:
  assumes set: "splitSetting P b0 batch lo hi" and inv: "splitInv P b0 batch lo hi i cur (emptyEntry P) hint ws"
    and full: "bsize cur = MaxSize P"
  shows "\<exists>l r. split P cur = Some (l, r) \<and> bsize l < MaxSize P \<and> splitInv P b0 batch lo hi i l r hint ws"
proof -
  note wp = splitSettingD(1) [OF set]
  obtain l r where lr: "split P cur = Some (l, r)" "okSized P l" "okSized P r" "elems l @ elems r = elems cur"
    "elems l = take (MinSize P) (elems cur)" "bsize l = MinSize P" "bsize r = MinSize P"
    "staleKeys P l \<subseteq> insert (NULL_KEY P) (keyOfValue P ` set (elems r))" "staleKeys P r \<subseteq> {NULL_KEY P}" "nullStale P l" "nullStale P r"
    by (rule splitInv_full [OF set inv full])
  have ne: "r \<noteq> emptyEntry P" using okSized_nonempty [OF wp lr(3)] by auto
  have hint: "hint \<le> keyPos P l k \<or> head r \<le> k" if "hint \<le> keyPos P cur k" for k
  proof (cases "\<forall>x\<in>set (elems l). keyOfValue P x < k")
    case True
    then have "takeWhile (\<lambda>v. keyOfValue P v < k) (elems l @ elems r) = elems l @ takeWhile (\<lambda>v. keyOfValue P v < k) (elems r)"
      by (intro takeWhile_append2) auto
    then have sum: "keyPos P cur k = keyPos P l k + length (takeWhile (\<lambda>v. keyOfValue P v < k) (elems r))"
      using True unfolding keyPos_def lr(4) [symmetric] by (simp add: takeWhile_eq_all_conv [THEN iffD2])
    show ?thesis
    proof (cases "keyOfValue P (hd (elems r)) < k")
      case False
      then have "takeWhile (\<lambda>v. keyOfValue P v < k) (elems r) = []" by (cases "elems r") auto
      then show ?thesis using that sum by simp
    qed (use okSized_head(1) [OF wp lr(3)] in \<open>simp add: less_imp_le\<close>)
  next
    case False
    then have "takeWhile (\<lambda>v. keyOfValue P v < k) (elems l @ elems r) = takeWhile (\<lambda>v. keyOfValue P v < k) (elems l)"
      by (metis takeWhile_append1)
    then show ?thesis using that unfolding keyPos_def lr(4) [symmetric] by simp
  qed
  have "entriesElems (ws @ [l, r]) = entriesElems (ws @ [cur, emptyEntry P])" using lr(4) by simp
  also have "\<dots> = fold (insKey (keyOfValue P)) (slice batch lo i) (elems b0)" using inv by (simp add: splitInv_def)
  finally have E: "entriesElems (ws @ [l, r]) = fold (insKey (keyOfValue P)) (slice batch lo i) (elems b0)" .
  then have "set (elems r) \<subseteq> set (fold (insKey (keyOfValue P)) (slice batch lo i) (elems b0))" by (metis entriesElems_simps(2,3) Un_upper1 Un_upper2 order_trans set_append)
  then have st: "staleKeys P l \<subseteq> insert (NULL_KEY P) (keyOfValue P ` set (fold (insKey (keyOfValue P)) (slice batch lo i) (elems b0)))"
    using lr(8) by blast
  have "splitInv P b0 batch lo hi i l r hint ws"
    using E st inv lr(2,3,6,7,9-11) ne hint [of "keyOfValue P (batch ! i)"] by (auto simp: splitInv_def)
  then show ?thesis using lr wp by (auto simp: wfParams_def)
qed

lemma splitInv_split_again:
  assumes set: "splitSetting P b0 batch lo hi" and inv: "splitInv P b0 batch lo hi i cur rh hint ws"
    and full: "bsize cur = MaxSize P" and rh: "rh \<noteq> emptyEntry P" "i < hi"
  shows "\<exists>l r. split P cur = Some (l, r) \<and> bsize r < MaxSize P \<and> okSized P l \<and> splitInv P b0 batch lo hi i r rh 0 (ws @ [l])"
proof -
  note wp = splitSettingD(1) [OF set]
  obtain l r where lr: "split P cur = Some (l, r)" "okSized P l" "okSized P r" "elems l @ elems r = elems cur"
    "elems l = take (MinSize P) (elems cur)" "bsize l = MinSize P" "bsize r = MinSize P"
    "staleKeys P l \<subseteq> insert (NULL_KEY P) (keyOfValue P ` set (elems r))" "staleKeys P r \<subseteq> {NULL_KEY P}" "nullStale P l" "nullStale P r"
    by (rule splitInv_full [OF set inv full])
  have "MinSize P \<le> keyPos P cur (keyOfValue P (batch ! i))"
    using inv rh full wp by (auto simp: splitInv_def wfParams_def)
  then have "set (elems l) \<subseteq> set (take (keyPos P cur (keyOfValue P (batch ! i))) (elems cur))"
    unfolding lr(5) by (rule set_take_subset_set_take)
  then have below: "\<forall>x\<in>set (elems l). keyOfValue P x < keyOfValue P (batch ! i)"
    by (meson keyPos_before subsetD)
  have "entriesElems ((ws @ [l]) @ [r, rh]) = entriesElems (ws @ [cur, rh])" using lr(4) by simp
  also have "\<dots> = fold (insKey (keyOfValue P)) (slice batch lo i) (elems b0)" using inv by (simp add: splitInv_def)
  finally have E: "entriesElems ((ws @ [l]) @ [r, rh]) = fold (insKey (keyOfValue P)) (slice batch lo i) (elems b0)" .
  then have "set (elems r) \<subseteq> set (fold (insKey (keyOfValue P)) (slice batch lo i) (elems b0))" by (metis entriesElems_simps(2,3) Un_upper1 Un_upper2 order_trans set_append)
  then have st: "staleKeys P l \<subseteq> insert (NULL_KEY P) (keyOfValue P ` set (fold (insKey (keyOfValue P)) (slice batch lo i) (elems b0)))"
    using lr(8) by blast
  have "splitInv P b0 batch lo hi i r rh 0 (ws @ [l])"
    using E st below inv lr(2,3,7,9-11) rh by (auto simp: splitInv_def)
  then show ?thesis using lr wp by (auto simp: wfParams_def)
qed

text \<open>The number of blocks: all of them hold at least \<open>MinSize\<close> elements.\<close>

lemma okSized_length: "okSized P b \<Longrightarrow> MinSize P \<le> length (elems b)"
  using length_elems [of P b] by (simp add: okSized_def)

lemma sum_sizes: "(\<And>w. w \<in> set ws \<Longrightarrow> okSized P w) \<Longrightarrow> length ws * MinSize P \<le> length (entriesElems ws)"
proof (induction ws)
  case (Cons w ws)
  then have "MinSize P \<le> length (elems w)" "length ws * MinSize P \<le> length (entriesElems ws)" by (auto intro: okSized_length)
  then show ?case by simp
qed simp

lemma splitInv_count:
  assumes set: "splitSetting P b0 batch lo hi" and inv: "splitInv P b0 batch lo hi i cur rh hint ws" and two: "2 \<le> MinSize P"
    and over: "lo < hi"
  shows "length ws + (if rh = emptyEntry P then 1 else 2) \<le> 2 * (hi - lo)"
proof -
  note d = splitSettingD [OF set]
  let ?bs = "ws @ cur # (if rh = emptyEntry P then [] else [rh])"
  have "length ?bs * MinSize P \<le> length (entriesElems ?bs)"
    using inv by (intro sum_sizes) (auto simp: splitInv_def split: if_splits)
  also have "entriesElems ?bs = fold (insKey (keyOfValue P)) (slice batch lo i) (elems b0)"
    using inv by (auto simp: splitInv_def)
  also have "length \<dots> \<le> bsize b0 + (hi - lo)"
  proof -
    have "length (slice batch lo i) \<le> hi - lo" using d(4) inv by (auto simp: splitInv_def)
    moreover have "length (elems b0) = bsize b0" using d(2) length_elems [of P b0] by (simp add: okSized_def)
    ultimately show ?thesis using length_fold_insKey(1) [of "keyOfValue P" "slice batch lo i" "elems b0"] by simp
  qed
  also have "\<dots> \<le> 2 * MinSize P + (hi - lo)" using d(1,2) by (auto simp: okSized_def wfParams_def)
  finally have "length ?bs * MinSize P \<le> 2 * MinSize P + (hi - lo)" .
  then have "length ?bs \<le> 2 * (hi - lo)"
  proof -
    assume a: "length ?bs * MinSize P \<le> 2 * MinSize P + (hi - lo)"
    show ?thesis
    proof (rule ccontr)
      assume "\<not> ?thesis"
      then have "2 * (hi - lo) + 1 \<le> length ?bs" by simp
      then have "(2 * (hi - lo) + 1) * MinSize P \<le> 2 * MinSize P + (hi - lo)" using a by (meson mult_le_mono1 order_trans)
      moreover have "hi - lo < 2 * (hi - lo) * MinSize P - MinSize P"
      proof -
        have "(2 * (hi - lo) - 1) * 2 \<le> (2 * (hi - lo) - 1) * MinSize P" using two by (rule mult_le_mono2)
        moreover have "hi - lo < (2 * (hi - lo) - 1) * 2" using over by linarith
        ultimately show ?thesis by (simp add: diff_mult_distrib)
      qed
      ultimately show False by (simp add: add_mult_distrib)
    qed
  qed
  then show ?thesis by (simp split: if_splits)
qed

text \<open>The buffer part of the invariant: where the next block goes, and that there is room.\<close>

definition splitBuffer ::
  "('k::linorder, 'v) tparams \<Rightarrow> runtime \<Rightarrow> int \<Rightarrow> Interval \<Rightarrow> nat \<Rightarrow> nat \<Rightarrow> ('k, 'v) sds \<Rightarrow> int \<Rightarrow> ('k, 'v) PmaEntry list \<Rightarrow> ('k, 'v) sds \<Rightarrow> bool" where
  "splitBuffer P R origin br start n S0 ob ws S \<longleftrightarrow>
     written P R origin start ws S0 S \<and> freeBuffer S0 start n \<and> ileft br + ob = int start + int (length ws) \<and>
     int start + int n \<le> iright br \<and> idx (pma S0) origin = Some (emptyEntry P)"

lemma splitBuffer_write:
  assumes "splitBuffer P R origin br start n S0 ob ws S" "okSized P b" "wfParams P" "length ws < n"
  shows "\<exists>S'. writeToBufferArray P R b br ob origin S = Some S' \<and> splitBuffer P R origin br start n S0 (ob + 1) (ws @ [b]) S'"
  using writeToBufferArray_ok [of P R origin start ws S0 S n b br ob] assms by (auto simp: splitBuffer_def)

lemma splitBuffer_pma: "splitBuffer P R origin br start n S0 ob ws S \<Longrightarrow> idx (pma S) origin = Some (emptyEntry P)"
  by (auto simp: splitBuffer_def written_def)

lemma splitInv_rh: "wfParams P \<Longrightarrow> splitInv P b0 batch lo hi i cur rh hint ws \<Longrightarrow> isEmpty rh \<longleftrightarrow> rh = emptyEntry P"
  using okSized_nonempty [of P rh] by (auto simp: splitInv_def)

lemma splitInv_cur: "splitInv P b0 batch lo hi i cur rh hint ws \<Longrightarrow> okSized P cur"
  by (simp add: splitInv_def)

text \<open>First the roles of the two blocks may be switched, \<dots>\<close>

definition switchPart ::
  "('k::linorder, 'v) tparams \<Rightarrow> runtime \<Rightarrow> int \<Rightarrow> Interval \<Rightarrow> 'v \<Rightarrow> ('k, 'v) PmaEntry \<Rightarrow> ('k, 'v) PmaEntry \<Rightarrow> nat \<Rightarrow> int \<Rightarrow> ('k, 'v) sds \<Rightarrow>
     (('k, 'v) PmaEntry \<times> ('k, 'v) PmaEntry \<times> nat \<times> int \<times> ('k, 'v) sds) option" where
  "switchPart P R origin br v cur rh hint ob S =
     (if \<not> isEmpty rh \<and> (head rh < keyOfValue P v \<or> keyOfValue P v = head rh)
      then do { S \<leftarrow> writeToBufferArray P R cur br ob origin S; Some (rh, emptyEntry P, 0, ob + 1, S) }
      else Some (cur, rh, hint, ob, S))"

lemma switchPart_ok:
  assumes set: "splitSetting P b0 batch lo hi" and inv: "splitInv P b0 batch lo hi i cur rh hint ws" and i: "i < hi"
    and buf: "splitBuffer P R origin br start n S0 ob ws S" and n: "2 * (hi - lo) \<le> n" "2 \<le> MinSize P"
  shows "\<exists>cur' rh' h ob' S' ws'. switchPart P R origin br (batch ! i) cur rh hint ob S = Some (cur', rh', h, ob', S') \<and>
     splitInv P b0 batch lo hi i cur' rh' h ws' \<and> splitBuffer P R origin br start n S0 ob' ws' S' \<and>
     (rh' = emptyEntry P \<or> keyOfValue P (batch ! i) < head rh') \<and> (bsize cur' = MaxSize P \<longrightarrow> bsize cur = MaxSize P)"
proof (cases "rh \<noteq> emptyEntry P \<and> head rh \<le> keyOfValue P (batch ! i)")
  case True
  note d = splitSettingD [OF set]
  have "length ws < n" using splitInv_count [OF set inv n(2)] n(1) i inv by (auto simp: splitInv_def split: if_splits)
  then obtain S' where "writeToBufferArray P R cur br ob origin S = Some S'" "splitBuffer P R origin br start n S0 (ob + 1) (ws @ [cur]) S'"
    using splitBuffer_write [OF buf _ d(1)] splitInv_cur [OF inv] by blast
  moreover have "bsize rh < MaxSize P" using inv True d(1) by (auto simp: splitInv_def wfParams_def)
  ultimately show ?thesis
    using splitInv_switch [OF set inv _ i] True splitInv_rh [OF d(1) inv] by (auto simp: switchPart_def)
next
  case False
  then show ?thesis
    using inv buf splitInv_rh [OF splitSettingD(1) [OF set] inv] by (auto simp: switchPart_def)
qed

text \<open>\<dots> then the element is inserted, or the block is split.\<close>

definition insertPart ::
  "('k::linorder, 'v) tparams \<Rightarrow> runtime \<Rightarrow> int \<Rightarrow> Interval \<Rightarrow> 'v \<Rightarrow> int \<Rightarrow> ('k, 'v) PmaEntry \<Rightarrow> ('k, 'v) PmaEntry \<Rightarrow> nat \<Rightarrow> int \<Rightarrow> ('k, 'v) sds \<Rightarrow>
     (int \<times> ('k, 'v) PmaEntry \<times> ('k, 'v) PmaEntry \<times> nat \<times> int \<times> ('k, 'v) sds) option" where
  "insertPart P R origin br v i cur rh hint ob S =
     (if bsize cur < MaxSize P
      then do {
        (_, hint, cur) \<leftarrow> insertWithIndex P cur v hint;
        assertHead P cur;
        Some (i + 1, cur, rh, hint, ob, S) }
      else do {
        (cur, newBlock) \<leftarrow> split P cur;
        if \<not> isEmpty rh
        then do {
          S \<leftarrow> writeToBufferArray P R cur br ob origin S;
          Some (i, newBlock, rh, 0, ob + 1, S) }
        else Some (i, cur, newBlock, hint, ob, S) })"

lemma insertPart_ok:
  assumes set: "splitSetting P b0 batch lo hi" and inv: "splitInv P b0 batch lo hi i cur rh hint ws" and i: "i < hi"
    and buf: "splitBuffer P R origin br start n S0 ob ws S" and n: "2 * (hi - lo) \<le> n" "2 \<le> MinSize P"
    and left: "rh = emptyEntry P \<or> keyOfValue P (batch ! i) < head rh"
  shows "\<exists>i' cur' rh' h ob' S' ws'. insertPart P R origin br (batch ! i) (int i) cur rh hint ob S = Some (int i', cur', rh', h, ob', S') \<and>
     splitInv P b0 batch lo hi i' cur' rh' h ws' \<and> splitBuffer P R origin br start n S0 ob' ws' S' \<and>
     (i' = Suc i \<or> i' = i \<and> bsize cur = MaxSize P \<and> bsize cur' < MaxSize P)"
proof (cases "bsize cur < MaxSize P")
  case True
  obtain b' h new where "insertWithIndex P cur (batch ! i) hint = Some (new, h, b')" "splitInv P b0 batch lo hi (Suc i) b' rh h ws"
    using splitInv_insert [OF set inv i True left] by blast
  moreover from this have "wfBlock P b'" by (auto simp: splitInv_def okSized_def)
  ultimately show ?thesis using True buf by (auto simp: insertPart_def intro!: exI [of _ "Suc i"])
next
  case False
  note d = splitSettingD [OF set]
  have full: "bsize cur = MaxSize P" using False inv by (auto simp: splitInv_def okSized_def)
  show ?thesis
  proof (cases "rh = emptyEntry P")
    case True
    then show ?thesis using splitInv_split [OF set _ full, of i hint ws] inv buf full by (auto simp: insertPart_def)
  next
    case False
    obtain l r where lr: "split P cur = Some (l, r)" "bsize r < MaxSize P" "okSized P l" "splitInv P b0 batch lo hi i r rh 0 (ws @ [l])"
      using splitInv_split_again [OF set inv full False i] by blast
    have "length ws < n" using splitInv_count [OF set inv n(2)] n(1) i inv by (auto simp: splitInv_def split: if_splits)
    then obtain S' where "writeToBufferArray P R l br ob origin S = Some S'" "splitBuffer P R origin br start n S0 (ob + 1) (ws @ [l]) S'"
      using splitBuffer_write [OF buf lr(3) d(1)] by blast
    then show ?thesis using lr full splitInv_rh [OF d(1) inv] False by (auto simp: insertPart_def)
  qed
qed

lemma splitLoop_step:
  "splitLoop P R origin batch stop br i cur rh hint ob S =
     (if i < stop
      then do {
        assertHead P cur;
        v \<leftarrow> idx batch i;
        (cur, rh, hint, ob, S) \<leftarrow> switchPart P R origin br v cur rh hint ob S;
        (i, cur, rh, hint, ob, S) \<leftarrow> insertPart P R origin br v i cur rh hint ob S;
        b \<leftarrow> idx (pma S) origin;
        assertHead P b;
        assertHead P cur;
        splitLoop P R origin batch stop br i cur rh hint ob S }
      else Some (i, cur, rh, ob, S))"
  unfolding switchPart_def insertPart_def by (subst splitLoop.simps) (rule refl)

lemma splitLoop_ok:
  assumes set: "splitSetting P b0 batch lo hi" and n: "2 * (hi - lo) \<le> n" "2 \<le> MinSize P"
  shows "splitInv P b0 batch lo hi i cur rh hint ws \<Longrightarrow> splitBuffer P R origin br start n S0 ob ws S \<Longrightarrow>
    \<exists>cur' rh' h ob' ws' S'. splitLoop P R origin batch (int hi) br (int i) cur rh hint ob S = Some (int hi, cur', rh', ob', S') \<and>
      splitInv P b0 batch lo hi hi cur' rh' h ws' \<and> splitBuffer P R origin br start n S0 ob' ws' S'"
proof (induction "2 * (hi - i) + (if bsize cur = MaxSize P then 1 else 0)" arbitrary: i cur rh hint ob ws S rule: less_induct)
  case less
  show ?case
  proof (cases "i < hi")
    case True
    obtain cur1 rh1 h1 ob1 S1 ws1 where s: "switchPart P R origin br (batch ! i) cur rh hint ob S = Some (cur1, rh1, h1, ob1, S1)"
      "splitInv P b0 batch lo hi i cur1 rh1 h1 ws1" "splitBuffer P R origin br start n S0 ob1 ws1 S1"
      "rh1 = emptyEntry P \<or> keyOfValue P (batch ! i) < head rh1" "bsize cur1 = MaxSize P \<longrightarrow> bsize cur = MaxSize P"
      using switchPart_ok [OF set less(2) True less(3) n] by blast
    obtain i2 cur2 rh2 h2 ob2 S2 ws2 where t: "insertPart P R origin br (batch ! i) (int i) cur1 rh1 h1 ob1 S1 = Some (int i2, cur2, rh2, h2, ob2, S2)"
      "splitInv P b0 batch lo hi i2 cur2 rh2 h2 ws2" "splitBuffer P R origin br start n S0 ob2 ws2 S2"
      "i2 = Suc i \<or> i2 = i \<and> bsize cur1 = MaxSize P \<and> bsize cur2 < MaxSize P"
      using insertPart_ok [OF set s(2) True s(3) n s(4)] by blast
    have "2 * (hi - i2) + (if bsize cur2 = MaxSize P then 1 else 0) < 2 * (hi - i) + (if bsize cur = MaxSize P then 1 else 0)"
      using t(4) s(5) True by auto
    then obtain cur' rh' h ob' ws' S' where r: "splitLoop P R origin batch (int hi) br (int i2) cur2 rh2 h2 ob2 S2 = Some (int hi, cur', rh', ob', S')"
      "splitInv P b0 batch lo hi hi cur' rh' h ws'" "splitBuffer P R origin br start n S0 ob' ws' S'"
      using less(1) [OF _ t(2,3)] by blast
    have "wfBlock P cur" "wfBlock P cur2" using less(2) t(2) by (auto simp: splitInv_def okSized_def)
    moreover have "idx batch (int i) = Some (batch ! i)" using True splitSettingD(4) [OF set] by simp
    moreover have "assertHead P (emptyEntry P) = Some ()" by (simp add: assertHead_def)
    ultimately have "splitLoop P R origin batch (int hi) br (int i) cur rh hint ob S =
        splitLoop P R origin batch (int hi) br (int i2) cur2 rh2 h2 ob2 S2"
      using True s(1) t(1) splitBuffer_pma [OF t(3)] by (subst splitLoop_step) simp
    then show ?thesis using r by metis
  next
    case False
    then have "i = hi" using less(2) by (simp add: splitInv_def)
    then show ?thesis using less(2,3) by (subst splitLoop_step) auto
  qed
qed

lemma written_pointers:
  "written P R origin start ws S S' \<Longrightarrow> written P R origin start ws (S\<lparr>bufferPointers := p\<rparr>) (S'\<lparr>bufferPointers := p\<rparr>)"
  by (cases S) (fastforce simp: written_def)

text \<open>What an entry looks like after its block moved to the buffer.\<close>

definition moveToBuffer :: "int \<Rightarrow> Interval \<Rightarrow> ('k, 'v) tparams \<Rightarrow> ('k, 'v) sds \<Rightarrow> ('k, 'v) sds" where
  "moveToBuffer i iv P S = S\<lparr>pma := (pma S)[nat i := emptyEntry P], bufferPointers := (bufferPointers S)[nat i := iv]\<rparr>"

text \<open>The blocks that replace \<open>b0\<close> hold its elements and the inserted ones.\<close>

definition replaces :: "('k::linorder, 'v) tparams \<Rightarrow> ('k, 'v) PmaEntry \<Rightarrow> 'v list \<Rightarrow> ('k, 'v) PmaEntry list \<Rightarrow> bool" where
  "replaces P b0 vs ws \<longleftrightarrow> entriesElems ws = fold (insKey (keyOfValue P)) vs (elems b0) \<and>
     (\<forall>w\<in>set ws. okSized P w \<and> staleKeys P w \<subseteq> staleKeys P b0 \<union> {NULL_KEY P} \<union> keyOfValue P ` set (entriesElems ws)) \<and>
     (nullStale P b0 \<longrightarrow> (\<forall>w\<in>set ws. nullStale P w))"

lemma splitInv_replaces:
  assumes inv: "splitInv P b0 batch lo hi hi cur rh h ws"
  shows "replaces P b0 (slice batch lo hi) (ws @ cur # (if rh = emptyEntry P then [] else [rh]))"
proof -
  have "entriesElems (ws @ cur # (if rh = emptyEntry P then [] else [rh])) = entriesElems (ws @ [cur, rh])" by simp
  also have "\<dots> = fold (insKey (keyOfValue P)) (slice batch lo hi) (elems b0)" using inv by (simp add: splitInv_def)
  finally show ?thesis using inv unfolding replaces_def by (auto simp: splitInv_def split: if_splits)
qed

lemma insertIntoBlockWithSplit_ok:
  assumes set: "splitSetting P b0 batch lo hi" "lo < hi" "2 \<le> MinSize P"
    and b0: "0 \<le> blockIndex" "blockIndex < int (length (pma S))" "pma S ! nat blockIndex = b0" "length (bufferPointers S) = length (pma S)"
    and free: "freeBuffer S start (2 * (hi - lo))" "ileft br + ob = int start" "int start + int (2 * (hi - lo)) \<le> iright br"
    and bm: "bmInv R (recountingNodesMap S)"
  shows "\<exists>ws S'. insertIntoBlockWithSplit P R blockIndex batch (int lo) (int hi) br ob S = Some (int hi, ob + int (length ws), S') \<and>
     written P R blockIndex start ws (moveToBuffer blockIndex (mkInterval (int start) (int start + int (length ws))) P S) S' \<and>
     replaces P b0 (slice batch lo hi) ws \<and> length ws \<le> 2 * (hi - lo) \<and> ws \<noteq> []"
proof -
  note d = splitSettingD [OF set(1)]
  let ?n = "2 * (hi - lo)"
  define S0 where "S0 = moveToBuffer blockIndex (mkInterval (int start) (int start)) P S"
  have "splitBuffer P R blockIndex br start ?n S0 ob [] S0"
    using free bm b0 by (auto simp: splitBuffer_def S0_def moveToBuffer_def freeBuffer_def)
  then obtain cur rh h ob' ws S1 where loop: "splitLoop P R blockIndex batch (int hi) br (int lo) b0 (emptyEntry P) 0 ob S0 = Some (int hi, cur, rh, ob', S1)"
    "splitInv P b0 batch lo hi hi cur rh h ws" "splitBuffer P R blockIndex br start ?n S0 ob' ws S1"
    using splitLoop_ok [OF set(1) order_refl set(3) splitInv_start [OF set(1)]] by blast
  define ws' where "ws' = ws @ cur # (if rh = emptyEntry P then [] else [rh])"
  note cnt = splitInv_count [OF set(1) loop(2) set(3,2)]
  have ok: "okSized P cur" "rh = emptyEntry P \<or> okSized P rh" using loop(2) by (auto simp: splitInv_def)
  obtain S2 where S2: "writeToBufferArray P R cur br ob' blockIndex S1 = Some S2" "splitBuffer P R blockIndex br start ?n S0 (ob' + 1) (ws @ [cur]) S2"
    using splitBuffer_write [OF loop(3) ok(1) d(1)] cnt by (auto split: if_splits)
  have "\<exists>S3. (if \<not> isEmpty rh
        then do { S \<leftarrow> writeToBufferArray P R rh br (ob' + 1) blockIndex S2; Some (ob' + 1 + 1, S) }
        else Some (ob' + 1, S2)) = Some (ob + int (length ws'), S3) \<and> written P R blockIndex start ws' S0 S3"
  proof (cases "rh = emptyEntry P")
    case True
    then show ?thesis using S2(2) free(2) by (auto simp: ws'_def splitBuffer_def)
  next
    case False
    obtain S3 where "writeToBufferArray P R rh br (ob' + 1) blockIndex S2 = Some S3"
      "splitBuffer P R blockIndex br start ?n S0 (ob' + 1 + 1) ((ws @ [cur]) @ [rh]) S3"
      using splitBuffer_write [OF S2(2) _ d(1), of rh] ok(2) False cnt by auto
    then show ?thesis using False splitInv_rh [OF d(1) loop(2)] free(2) by (auto simp: ws'_def splitBuffer_def)
  qed
  then obtain S3 where S3: "(if \<not> isEmpty rh
        then do { S \<leftarrow> writeToBufferArray P R rh br (ob' + 1) blockIndex S2; Some (ob' + 1 + 1, S) }
        else Some (ob' + 1, S2)) = Some (ob + int (length ws'), S3)" "written P R blockIndex start ws' S0 S3" by blast
  have wf: "assertHead P b0 = Some ()" using d(2) by (simp add: okSized_def)
  define S4 where "S4 = S3\<lparr>bufferPointers := (bufferPointers S)[nat blockIndex := mkInterval (int start) (int start + int (length ws'))]\<rparr>"
  have ptr: "bufferPointers S3 = (bufferPointers S)[nat blockIndex := mkInterval (int start) (int start)]"
    using S3(2) by (auto simp: written_def S0_def moveToBuffer_def)
  have "setPointers blockIndex (mkInterval (int start) (ileft br + (ob + int (length ws')))) S3 = Some S4"
    using b0 free(2) by (simp add: setPointers_def ptr S4_def add.assoc [symmetric])
  moreover have "setPma blockIndex (emptyEntry P) S = Some (S\<lparr>pma := (pma S)[nat blockIndex := emptyEntry P]\<rparr>)"
    "setPointers blockIndex (mkInterval (int start) (int start)) (S\<lparr>pma := (pma S)[nat blockIndex := emptyEntry P]\<rparr>) = Some S0"
    using b0 by (simp_all add: setPma_def setPointers_def S0_def moveToBuffer_def)
  ultimately have run: "insertIntoBlockWithSplit P R blockIndex batch (int lo) (int hi) br ob S = Some (int hi, ob + int (length ws'), S4)"
    using b0 wf loop(1) S2(1) S3(1) free(2)
    by (simp add: insertIntoBlockWithSplit_def getDenseWriteIndex_def Let_def cong: if_cong)
  have "written P R blockIndex start ws' (moveToBuffer blockIndex (mkInterval (int start) (int start + int (length ws'))) P S) S4"
    using written_pointers [OF S3(2)] by (simp add: S0_def moveToBuffer_def S4_def)
  moreover have "length ws' \<le> ?n" using cnt by (auto simp: ws'_def)
  moreover have "replaces P b0 (slice batch lo hi) ws'" "ws' \<noteq> []" using splitInv_replaces [OF loop(2)] by (auto simp: ws'_def)
  ultimately show ?thesis using run by blast
qed

section \<open>Inserting into one block\<close>

text \<open>
  The effect of inserting \<open>vs\<close> into the entry \<open>r\<close> of the array: either the block \<open>b'\<close> takes its place, or
  the entry becomes empty and the blocks \<open>ws\<close> are in the buffer from \<open>start\<close> on.
\<close>

definition blockStep ::
  "('k::linorder, 'v) tparams \<Rightarrow> runtime \<Rightarrow> nat \<Rightarrow> 'v list \<Rightarrow> nat \<Rightarrow> ('k, 'v) PmaEntry \<Rightarrow> ('k, 'v) PmaEntry list \<Rightarrow> ('k, 'v) sds \<Rightarrow> ('k, 'v) sds \<Rightarrow> bool" where
  "blockStep P R r vs start b' ws S S' \<longleftrightarrow>
     (\<exists>ps m. S' = S\<lparr>pma := (pma S)[r := b'], bufferPointers := ps, bufferArray := writeAt start ws (bufferArray S),
            recountingNodesMap := m, bufferWrites := bufferWrites S + int (length ws)\<rparr> \<and> bmInv R m \<and>
        (if ws = [] then ps = bufferPointers S \<and> okSized P b' \<and> bmLookup m = bmLookup (recountingNodesMap S)
         else ps = (bufferPointers S)[r := mkInterval (int start) (int start + int (length ws))] \<and> b' = emptyEntry P \<and>
           bmLookup m = (bmLookup (recountingNodesMap S))(lowestLevelNodeIndex P (int r) \<mapsto> True))) \<and>
     (\<forall>w\<in>set ws. okSized P w) \<and> length ws \<le> 2 * length vs \<and>
     (\<forall>b\<in>set (b' # ws). staleKeys P b \<subseteq> staleKeys P (pma S ! r) \<union> {NULL_KEY P} \<union> keyOfValue P ` set (elems b' @ entriesElems ws)) \<and>
     elems b' @ entriesElems ws = fold (insKey (keyOfValue P)) vs (elems (pma S ! r))"

lemma sorted_keys_slice: "strictly_sorted (map kf xs) \<Longrightarrow> strictly_sorted (map kf (slice xs lo hi))"
  by (simp add: slice_def sorted_keys_take sorted_keys_drop)

lemma merge_slice:
  assumes "hi \<le> length batch" "lo < hi"
  shows "merge P b (slice batch lo hi) (hi - lo) = merge P b (drop lo batch) (hi - lo)"
proof -
  let ?vs = "slice batch lo hi"
  have loop: "mergeLoop P ?vs (hi - lo) i pos b = mergeLoop P (drop lo batch) (hi - lo) i pos b" for i pos b
  proof (induction P ?vs "hi - lo" i pos b rule: mergeLoop.induct)
    case (1 P i pos b)
    show ?case
    proof (cases "i < hi - lo")
      case True
      then have "nth_opt ?vs i = nth_opt (drop lo batch) i" using assms(1) by (simp add: nth_opt_def slice_def)
      then show ?thesis using True
        by (subst (1 2) mergeLoop.simps) (auto intro!: Option.bind_cong 1 split: if_splits)
    qed (simp add: mergeLoop.simps)
  qed
  have "nth_opt ?vs 0 = nth_opt (drop lo batch) 0" using assms by (simp add: nth_opt_def slice_def)
  then show ?thesis by (simp add: merge_def loop)
qed

lemma merge_slice_ok:
  assumes set: "splitSetting P b0 batch lo hi" "lo < hi" and fits: "bsize b0 + (hi - lo) \<le> MaxSize P"
  shows "\<exists>b'. merge P b0 (drop lo batch) (u16 (int hi - int lo)) = Some b' \<and> okSized P b' \<and>
     elems b' = fold (insKey (keyOfValue P)) (slice batch lo hi) (elems b0) \<and> set (stale b') \<subseteq> set (stale b0)"
proof -
  note d = splitSettingD [OF set(1)]
  let ?vs = "slice batch lo hi" and ?n = "hi - lo"
  have n: "u16 (int hi - int lo) = ?n" using fits wfParamsD [OF d(1)] set(2) by (subst u16_id) (auto simp: nat_diff_distrib)
  have "merge P b0 ?vs ?n = merge P b0 (drop lo batch) ?n" using d(4) set(2) by (rule merge_slice)
  moreover have "\<exists>b'. merge P b0 ?vs ?n = Some b' \<and> wfBlock P b' \<and>
     elems b' = fold (insKey (keyOfValue P)) (take ?n ?vs) (elems b0) \<and> set (stale b') \<subseteq> set (stale b0)"
  proof (rule merge_ok [OF d(1)])
    show "sorted (map (keyOfValue P) ?vs)" using sorted_keys_slice [OF d(5)] by (simp add: strict_sorted_iff)
    show "\<forall>e\<in>set ?vs. NULL_KEY P < keyOfValue P e \<and> staleOk P b0 (keyOfValue P e)"
      using set(1) set_slice_subset [of batch lo hi] by (auto simp: splitSetting_def)
  qed (use d set fits in \<open>auto simp: okSized_def\<close>)
  ultimately obtain b' where b': "merge P b0 (drop lo batch) ?n = Some b'" "wfBlock P b'" "elems b' = fold (insKey (keyOfValue P)) ?vs (elems b0)"
    "set (stale b') \<subseteq> set (stale b0)" by (auto simp: slice_def)
  have "okSized P b'"
    using b'(2,3) length_elems [of P b'] length_elems [of P b0] length_fold_insKey(2) [of "elems b0" "keyOfValue P" ?vs] d(2)
    by (auto simp: okSized_def wfBlock_def okBlock_def)
  then show ?thesis using b' by (auto simp: n)
qed

lemma insertElementsIntoBlock_ok:
  assumes found: "findLastBatchElementForBlock P (arrayOf P S) batch (int lo) batchRange nextIndex pmaRange' = Some (int hi)"
    and set: "splitSetting P (pma S ! r) batch lo hi" "lo < hi" "2 \<le> MinSize P"
    and r: "r < length (pma S)" "length (bufferPointers S) = length (pma S)"
    and free: "freeBuffer S start (2 * (hi - lo))" "ileft br + ob = int start" "int start + int (2 * (hi - lo)) \<le> iright br"
    and bm: "bmInv R (recountingNodesMap S)"
  shows "\<exists>b' ws S'. insertElementsIntoBlock P R (int r) nextIndex pmaRange' br batch (int lo) batchRange ob S =
       Some (int hi, ob + int (length ws), S') \<and> blockStep P R r (slice batch lo hi) start b' ws S S'"
proof (cases "bsize (pma S ! r) + (hi - lo) \<le> MaxSize P")
  case True
  let ?b0 = "pma S ! r" and ?vs = "slice batch lo hi"
  note d = splitSettingD [OF set(1)]
  obtain b' where b': "merge P ?b0 (drop lo batch) (u16 (int hi - int lo)) = Some b'" "okSized P b'"
    "elems b' = fold (insKey (keyOfValue P)) ?vs (elems ?b0)" "set (stale b') \<subseteq> set (stale ?b0)"
    using merge_slice_ok [OF set(1,2) True] by blast
  define S' where "S' = S\<lparr>pma := (pma S)[r := b']\<rparr>"
  have "blockStep P R r ?vs start b' [] S S'"
    unfolding blockStep_def
    using b' bm by (auto simp: S'_def staleKeys_def intro!: exI [of _ "recountingNodesMap S"] exI [of _ "bufferPointers S"])
  moreover have "int (bsize ?b0) + (int hi - int lo) \<le> int (MaxSize P)" using True set(2) by simp
  ultimately show ?thesis
    using found r b'(1) set(2)
    by (auto simp: insertElementsIntoBlock_def blockSizeAt_def insertIntoBlockWithoutSplit_def setPma_def S'_def Let_def)
next
  case False
  let ?b0 = "pma S ! r" and ?vs = "slice batch lo hi"
  note d = splitSettingD [OF set(1)]
  obtain ws S' where s: "insertIntoBlockWithSplit P R (int r) batch (int lo) (int hi) br ob S = Some (int hi, ob + int (length ws), S')"
    "written P R (int r) start ws (moveToBuffer (int r) (mkInterval (int start) (int start + int (length ws))) P S) S'"
    "replaces P ?b0 ?vs ws" "length ws \<le> 2 * (hi - lo)" "ws \<noteq> []"
    using insertIntoBlockWithSplit_ok [OF set, of "int r" S start br ob R] r free bm by auto
  have "blockStep P R r ?vs start (emptyEntry P) ws S S'"
    using s(2-5) d(4) by (auto simp: blockStep_def written_def moveToBuffer_def replaces_def) blast+
  moreover have "\<not> int (bsize ?b0) + (int hi - int lo) \<le> int (MaxSize P)" using False set(2) by simp
  ultimately show ?thesis
    using found r s(1) set(2) by (auto simp: insertElementsIntoBlock_def blockSizeAt_def Let_def)
qed

end
