(* ===== verification/Insertion_Range.thy ===== *)
theory Insertion_Range
  imports Insertion_Block
begin

text \<open>
  Correctness of \<open>insertBatchRange\<close>: the elements of a range of the batch are inserted into a range of the
  array. The array with its buffered blocks stands for the sorted list \<open>content\<close>; the operation refines the
  insertion of the elements into that list, and keeps the validity \<open>wfBuffered\<close> of the array.
\<close>

section \<open>Arrays with buffered blocks\<close>

text \<open>The blocks and the elements that belong to one entry of the array, in order.\<close>

definition bufferedAt :: "('k, 'v) sds \<Rightarrow> nat \<Rightarrow> ('k, 'v) PmaEntry list" where
  "bufferedAt S j = slice (bufferArray S) (nat (ileft (bufferPointers S ! j))) (nat (iright (bufferPointers S ! j)))"

definition entryContent :: "('k, 'v) sds \<Rightarrow> nat \<Rightarrow> 'v list" where
  "entryContent S j = elems (pma S ! j) @ entriesElems (bufferedAt S j)"

definition rangeContent :: "('k, 'v) sds \<Rightarrow> nat \<Rightarrow> nat \<Rightarrow> 'v list" where
  "rangeContent S a b = concat (map (entryContent S) [a..<b])"

abbreviation content :: "('k, 'v) sds \<Rightarrow> 'v list" where
  "content S \<equiv> rangeContent S 0 (nat (sdsSize S))"

definition unbuffered :: "('k, 'v) sds \<Rightarrow> nat \<Rightarrow> bool" where
  "unbuffered S j \<longleftrightarrow> ileft (bufferPointers S ! j) = iright (bufferPointers S ! j)"

text \<open>
  A valid array whose entries may have blocks in the buffer: the blocks of the array alone are valid for
  the searches, all blocks have legal sizes, the elements are sorted over all blocks, and no unused cell
  holds a key that is not stored.
\<close>

definition wfBuffered :: "('k::linorder, 'v) tparams \<Rightarrow> ('k, 'v) sds \<Rightarrow> bool" where
  "wfBuffered P S \<longleftrightarrow> wfPma P S \<and> length (bufferPointers S) = length (pma S) \<and>
     (\<forall>j<nat (sdsSize S). iright (bufferPointers S ! j) \<le> int (length (bufferArray S)) \<and>
        (pma S ! j = emptyEntry P \<or> okSized P (pma S ! j)) \<and> (\<forall>b\<in>set (bufferedAt S j). okSized P b) \<and>
        (\<forall>b\<in>set (pma S ! j # bufferedAt S j). staleKeys P b \<subseteq> insert (NULL_KEY P) (keyOfValue P ` set (content S)))) \<and>
     strictly_sorted (map (keyOfValue P) (content S))"

lemma rangeContent_split:
  assumes "a \<le> r" "r < b"
  shows "rangeContent S a b = rangeContent S a r @ entryContent S r @ rangeContent S (Suc r) b"
proof -
  have "[a..<b] = [a..<r] @ r # [Suc r..<b]" using assms upt_add_eq_append [of a r "b - r"] by (simp add: upt_conv_Cons)
  then show ?thesis by (simp add: rangeContent_def)
qed

lemma in_rangeContent: "x \<in> set (rangeContent S a b) \<longleftrightarrow> (\<exists>j. a \<le> j \<and> j < b \<and> x \<in> set (entryContent S j))"
  by (auto simp: rangeContent_def)

lemma rangeContent_cong: "(\<And>j. a \<le> j \<Longrightarrow> j < b \<Longrightarrow> entryContent S j = entryContent T j) \<Longrightarrow> rangeContent S a b = rangeContent T a b"
  unfolding rangeContent_def by (intro arg_cong [where f = concat] map_cong) auto

lemma unbuffered_content: "unbuffered S j \<Longrightarrow> bufferedAt S j = [] \<and> entryContent S j = elems (pma S ! j)"
  by (simp add: unbuffered_def bufferedAt_def entryContent_def)

lemma sorted_content_ordered:
  assumes "strictly_sorted (map kf (content S))" "i < j" "j < nat (sdsSize S)" "x \<in> set (entryContent S i)" "y \<in> set (entryContent S j)"
  shows "kf x < kf y"
proof -
  have "x \<in> set (rangeContent S 0 j)" using assms(2,4) by (auto simp: in_rangeContent)
  then show ?thesis
    using assms(1,3,5) rangeContent_split [of 0 j "nat (sdsSize S)" S] by (auto simp: sorted_wrt_append)
qed

lemma wfBuffered_ordered:
  assumes "wfBuffered P S" "i < j" "j < nat (sdsSize S)" "x \<in> set (entryContent S i)" "y \<in> set (entryContent S j)"
  shows "keyOfValue P x < keyOfValue P y"
  using sorted_content_ordered assms by (auto simp: wfBuffered_def)

lemma wfBuffered_pma: "wfBuffered P S \<Longrightarrow> nat (sdsSize S) \<le> length (pma S)"
  by (auto simp: wfBuffered_def wfPma_def)

lemma in_entriesKeys: "y \<in> set (entriesKeys P es) \<longleftrightarrow> (\<exists>i<length es. y \<in> set (keysOf P (es ! i)))"
  unfolding entriesKeys_def by (simp add: set_conv_nth [of es]) blast

text \<open>Replacing one entry of the array.\<close>

lemma okEntries_update:
  assumes "okEntries P es" "r < length es" "okEntry P b"
    and "\<And>j x y. j < length es \<Longrightarrow> j \<noteq> r \<Longrightarrow> x \<in> set (keysOf P b) \<Longrightarrow> y \<in> set (keysOf P (es ! j)) \<Longrightarrow> if j < r then y < x else x < y"
  shows "okEntries P (es[r := b])"
proof -
  have srt: "strictly_sorted (entriesKeys P (take r es) @ keysOf P (es ! r) @ entriesKeys P (drop (Suc r) es))"
    using assms(1) entriesKeys_split [OF assms(2), of P] by (simp add: okEntries_def)
  have "strictly_sorted (keysOf P b)" using assms(3) by (auto simp: okEntry_def wfBlock_def)
  moreover have "y < x" if xy: "x \<in> set (keysOf P b)" "y \<in> set (entriesKeys P (take r es))" for x y
  proof -
    obtain i where "i < length (take r es)" "y \<in> set (keysOf P (take r es ! i))"
      using xy(2) unfolding in_entriesKeys by blast
    then show ?thesis using assms(4) [of i x y] xy(1) by auto
  qed
  moreover have "x < y" if xy: "x \<in> set (keysOf P b)" "y \<in> set (entriesKeys P (drop (Suc r) es))" for x y
  proof -
    obtain i where "i < length (drop (Suc r) es)" "y \<in> set (keysOf P (drop (Suc r) es ! i))"
      using xy(2) unfolding in_entriesKeys by blast
    then show ?thesis using assms(4) [of "Suc r + i" x y] xy(1) by auto
  qed
  ultimately have "strictly_sorted (entriesKeys P (take r es) @ keysOf P b @ entriesKeys P (drop (Suc r) es))"
    using srt by (auto simp: sorted_wrt_append)
  moreover have "entriesKeys P (es[r := b]) = entriesKeys P (take r es) @ keysOf P b @ entriesKeys P (drop (Suc r) es)"
    using assms(2) by (simp add: upd_conv_take_nth_drop entriesKeys_def)
  moreover have "\<forall>c\<in>set (es[r := b]). okEntry P c"
    using assms(1,3) set_update_subset_insert [of es r b] by (auto simp: okEntries_def)
  ultimately show ?thesis by (simp add: okEntries_def)
qed

text \<open>Blocks that are in use are not overwritten, because the written cells were free.\<close>

lemma slice_writeAt_other:
  assumes "start + length ws \<le> length xs" "hi \<le> length xs"
    and "\<And>p. start \<le> p \<Longrightarrow> p < start + length ws \<Longrightarrow> block (xs ! p) = None"
    and "\<And>b. b \<in> set (slice xs lo hi) \<Longrightarrow> block b \<noteq> None"
  shows "slice (writeAt start ws xs) lo hi = slice xs lo hi"
proof (rule nth_equalityI)
  show "length (slice (writeAt start ws xs) lo hi) = length (slice xs lo hi)" using assms(1,2) by simp
  fix i assume "i < length (slice (writeAt start ws xs) lo hi)"
  then have i: "i < hi - lo" using assms(1,2) by simp
  have "xs ! (lo + i) \<in> set (slice xs lo hi)" using i assms(2) by (auto simp: in_slice intro!: exI [of _ "lo + i"])
  then have "\<not> (start \<le> lo + i \<and> lo + i < start + length ws)" using assms(3,4) by blast
  then show "slice (writeAt start ws xs) lo hi ! i = slice xs lo hi ! i"
    using i assms(1,2) by (auto simp: slice_nth writeAt_nth)
qed

lemma blockStep_entries:
  assumes wf: "wfParams P" "wfBuffered P S" and step: "blockStep P R r vs start b' ws S S'"
    and r: "r < nat (sdsSize S)" "unbuffered S r" and free: "freeBuffer S start n" "length ws \<le> n"
  shows "\<And>j. j < nat (sdsSize S) \<Longrightarrow> j \<noteq> r \<Longrightarrow> pma S' ! j = pma S ! j \<and> bufferPointers S' ! j = bufferPointers S ! j \<and> bufferedAt S' j = bufferedAt S j"
    "pma S' ! r = b'" "bufferedAt S' r = ws" "sdsSize S' = sdsSize S"
    "length (bufferArray S') = length (bufferArray S)" "bufferCapacity S' = bufferCapacity S" "length (pma S') = length (pma S)"
    "length (bufferPointers S') = length (pma S')" "sdsCapacity S' = sdsCapacity S" "pma S' = (pma S)[r := b']"
    "iright (bufferPointers S' ! r) \<le> int (length (bufferArray S))"
    "bufferArray S' = writeAt start ws (bufferArray S)" "\<And>j. j \<noteq> r \<Longrightarrow> bufferPointers S' ! j = bufferPointers S ! j" "bmInv R (recountingNodesMap S')"
proof -
  have len: "start + length ws \<le> length (bufferArray S)" and none: "\<And>p. start \<le> p \<Longrightarrow> p < start + length ws \<Longrightarrow> block (bufferArray S ! p) = None"
    using free by (auto simp: freeBuffer_def)
  have rl: "r < length (pma S)" "length (bufferPointers S) = length (pma S)" using r wfBuffered_pma [OF wf(2)] wf(2) by (auto simp: wfBuffered_def)
  obtain ps m where S': "S' = S\<lparr>pma := (pma S)[r := b'], bufferPointers := ps, bufferArray := writeAt start ws (bufferArray S),
            recountingNodesMap := m, bufferWrites := bufferWrites S + int (length ws)\<rparr>"
    and inv: "bmInv R m" and cases: "if ws = [] then ps = bufferPointers S \<and> okSized P b' \<and> bmLookup m = bmLookup (recountingNodesMap S)
         else ps = (bufferPointers S)[r := mkInterval (int start) (int start + int (length ws))] \<and> b' = emptyEntry P \<and>
           bmLookup m = (bmLookup (recountingNodesMap S))(lowestLevelNodeIndex P (int r) \<mapsto> True)"
    using step unfolding blockStep_def by blast
  then have ps: "if ws = [] then ps = bufferPointers S else ps = (bufferPointers S)[r := mkInterval (int start) (int start + int (length ws))]"
    by (auto split: if_splits)
  show "sdsCapacity S' = sdsCapacity S" "pma S' = (pma S)[r := b']" "bufferArray S' = writeAt start ws (bufferArray S)" by (simp_all add: S')
  show "length (bufferPointers S') = length (pma S')" using ps rl(2) by (auto simp: S' split: if_splits)
  show "bufferPointers S' ! j = bufferPointers S ! j" if "j \<noteq> r" for j using ps that by (auto simp: S' split: if_splits)
  show "bmInv R (recountingNodesMap S')" using inv by (simp add: S')
  show "iright (bufferPointers S' ! r) \<le> int (length (bufferArray S))"
    using ps rl len wf(2) r(1) by (auto simp: S' wfBuffered_def split: if_splits)
  show "sdsSize S' = sdsSize S" "bufferCapacity S' = bufferCapacity S" "length (pma S') = length (pma S)" by (simp_all add: S')
  show "length (bufferArray S') = length (bufferArray S)" using len by (simp add: S')
  show "pma S' ! r = b'" using rl by (simp add: S')
  show "bufferedAt S' r = ws"
  proof (cases "ws = []")
    case True
    then show ?thesis using ps r(2) by (simp add: S' bufferedAt_def unbuffered_def)
  next
    case False
    then show ?thesis using ps rl len slice_writeAt_self [OF len] by (simp add: S' bufferedAt_def nat_add_distrib)
  qed
  fix j assume j: "j < nat (sdsSize S)" "j \<noteq> r"
  have "block b \<noteq> None" if "b \<in> set (bufferedAt S j)" for b
    using that wf j okSized_nonempty [OF wf(1), of b] by (auto simp: wfBuffered_def isEmpty_def)
  then have "bufferedAt S' j = bufferedAt S j"
    using j ps none len wf(2) slice_writeAt_other [OF len]
    by (auto simp: S' bufferedAt_def wfBuffered_def split: if_splits)
  then show "pma S' ! j = pma S ! j \<and> bufferPointers S' ! j = bufferPointers S ! j \<and> bufferedAt S' j = bufferedAt S j"
    using j ps by (auto simp: S' split: if_splits)
qed

lemma blockStep_content:
  assumes "wfParams P" "wfBuffered P S" "blockStep P R r vs start b' ws S S'"
    and "r < nat (sdsSize S)" "unbuffered S r" "freeBuffer S start n" "length ws \<le> n"
    and ord: "\<And>j x v. j < nat (sdsSize S) \<Longrightarrow> j \<noteq> r \<Longrightarrow> x \<in> set (entryContent S j) \<Longrightarrow> v \<in> set vs \<Longrightarrow>
       if j < r then keyOfValue P x < keyOfValue P v else keyOfValue P v < keyOfValue P x"
  shows "entryContent S' r = fold (insKey (keyOfValue P)) vs (entryContent S r)"
    "\<And>j. j < nat (sdsSize S) \<Longrightarrow> j \<noteq> r \<Longrightarrow> entryContent S' j = entryContent S j"
    "content S' = fold (insKey (keyOfValue P)) vs (content S)"
proof -
  let ?n = "nat (sdsSize S)"
  note e = blockStep_entries [OF assms(1-7)]
  show r: "entryContent S' r = fold (insKey (keyOfValue P)) vs (entryContent S r)"
    using assms(3) e(2,3) unbuffered_content [OF assms(5)] by (simp add: entryContent_def blockStep_def)
  show o: "entryContent S' j = entryContent S j" if "j < ?n" "j \<noteq> r" for j
    using e(1) [OF that] by (simp add: entryContent_def)
  have "rangeContent S' 0 r = rangeContent S 0 r" "rangeContent S' (Suc r) ?n = rangeContent S (Suc r) ?n"
    using assms(4) by (auto intro!: rangeContent_cong o)
  then have "content S' = rangeContent S 0 r @ fold (insKey (keyOfValue P)) vs (entryContent S r) @ rangeContent S (Suc r) ?n"
    using rangeContent_split [of 0 r ?n S'] assms(4) r e(4) by simp
  also have "\<dots> = fold (insKey (keyOfValue P)) vs (rangeContent S 0 r @ entryContent S r @ rangeContent S (Suc r) ?n)"
  proof (rule fold_insKey_append [symmetric])
    fix v x assume v: "v \<in> set vs"
    show "keyOfValue P x < keyOfValue P v" if x: "x \<in> set (rangeContent S 0 r)"
    proof -
      obtain j where "j < r" "x \<in> set (entryContent S j)" using x by (auto simp: in_rangeContent)
      then show ?thesis using ord [of j x v] v assms(4) by simp
    qed
    show "keyOfValue P v < keyOfValue P x" if x: "x \<in> set (rangeContent S (Suc r) ?n)"
    proof -
      obtain j where "r < j" "j < ?n" "x \<in> set (entryContent S j)" using x by (auto simp: in_rangeContent Suc_le_eq)
      then show ?thesis using ord [of j x v] v by simp
    qed
  qed
  also have "\<dots> = fold (insKey (keyOfValue P)) vs (content S)" using rangeContent_split [of 0 r ?n S] assms(4) by simp
  finally show "content S' = fold (insKey (keyOfValue P)) vs (content S)" .
qed

lemma okSized_okEntry: "wfParams P \<Longrightarrow> b = emptyEntry P \<or> okSized P b \<Longrightarrow> okEntry P b"
  by (auto simp: okEntry_def okSized_def wfParams_def)

lemma blockStep_ok_block: "blockStep P R r vs start b' ws S S' \<Longrightarrow> b' = emptyEntry P \<or> okSized P b'"
  by (auto simp: blockStep_def split: if_splits)

lemma blockStep_wfPma:
  assumes wf: "wfParams P" "wfPma P S" and len: "r < nat (sdsSize S)"
    and S': "pma S' = (pma S)[r := b']" "sdsSize S' = sdsSize S" "sdsCapacity S' = sdsCapacity S"
    and b': "b' = emptyEntry P \<or> okSized P b'"
    and srt: "strictly_sorted (map (keyOfValue P) (content S'))"
  shows "wfPma P S'"
proof -
  let ?n = "nat (sdsSize S)"
  note d = wfPmaD [OF wf(2)]
  have nl: "?n \<le> length (pma S)" using d by simp
  have "okEntries P ((usedEntries S)[r := b'])"
  proof (rule okEntries_update)
    fix j x y assume j: "j < length (usedEntries S)" "j \<noteq> r" and x: "x \<in> set (keysOf P b')" and y: "y \<in> set (keysOf P (usedEntries S ! j))"
    obtain v where v: "v \<in> set (entryContent S' r)" "x = keyOfValue P v"
      using x len nl by (auto simp: keysOf_def entryContent_def S')
    obtain u where u: "u \<in> set (entryContent S' j)" "y = keyOfValue P u"
      using y j len nl d(6) by (auto simp: keysOf_def entryContent_def S' usedEntries_def)
    show "if j < r then y < x else x < y"
      using sorted_content_ordered [OF srt, of j r u v] sorted_content_ordered [OF srt, of r j v u] u v j len d(6) S'(2) by auto
  qed (use d len okSized_okEntry [OF wf(1) b'] in auto)
  moreover have "usedEntries S' = (usedEntries S)[r := b']" using len by (simp add: usedEntries_def S' take_update_swap)
  moreover have "drop ?n ((pma S)[r := b']) = drop ?n (pma S)" using len by simp
  ultimately show ?thesis using wf(2) S' by (auto simp: wfPma_def)
qed

lemma blockStep_wf:
  assumes wf: "wfParams P" "wfBuffered P S" and step: "blockStep P R r vs start b' ws S S'"
    and r: "r < nat (sdsSize S)" "unbuffered S r" "freeBuffer S start n" "length ws \<le> n"
    and ord: "\<And>j x v. j < nat (sdsSize S) \<Longrightarrow> j \<noteq> r \<Longrightarrow> x \<in> set (entryContent S j) \<Longrightarrow> v \<in> set vs \<Longrightarrow>
       if j < r then keyOfValue P x < keyOfValue P v else keyOfValue P v < keyOfValue P x"
  shows "wfBuffered P S'"
proof -
  let ?n = "nat (sdsSize S)" and ?kf = "keyOfValue P"
  note e = blockStep_entries [OF wf step r]
  have c: "content S' = fold (insKey ?kf) vs (content S)" by (rule blockStep_content(3) [OF wf step r]) (fact ord)
  have srt: "strictly_sorted (map ?kf (content S'))"
    using wf(2) unfolding c by (intro fold_insKey_sorted) (simp add: wfBuffered_def)
  have keys: "?kf ` set (content S) \<subseteq> ?kf ` set (content S')" unfolding c keys_fold_insKey by blast
  have new: "?kf ` set (elems b' @ entriesElems ws) \<subseteq> ?kf ` set (content S')"
    using r(1) e(2-4) by (intro image_mono) (auto simp: in_rangeContent entryContent_def)
  have pma: "wfPma P S'"
    using blockStep_wfPma [OF wf(1) _ r(1) e(10) e(4) e(9) blockStep_ok_block [OF step] srt] wf(2) by (simp add: wfBuffered_def)
  have old: "pma S ! r = emptyEntry P \<or> okSized P (pma S ! r)" "staleKeys P (pma S ! r) \<subseteq> insert (NULL_KEY P) (?kf ` set (content S))"
    using wf(2) r(1) by (auto simp: wfBuffered_def)
  have at_r: "staleKeys P b \<subseteq> insert (NULL_KEY P) (?kf ` set (content S'))" if "b \<in> set (b' # ws)" for b
  proof -
    have "staleKeys P b \<subseteq> staleKeys P (pma S ! r) \<union> {NULL_KEY P} \<union> ?kf ` set (elems b' @ entriesElems ws)"
      using step that unfolding blockStep_def by blast
    then show ?thesis using old(2) keys new by blast
  qed
  have ws: "\<forall>w\<in>set ws. okSized P w" using step by (simp add: blockStep_def)
  show ?thesis
    unfolding wfBuffered_def
  proof (intro conjI allI impI)
    fix j assume j: "j < nat (sdsSize S')"
    show "iright (bufferPointers S' ! j) \<le> int (length (bufferArray S'))"
      using j e(1) [of j] e(4,5,11) wf(2) by (cases "j = r") (auto simp: wfBuffered_def)
    show "pma S' ! j = emptyEntry P \<or> okSized P (pma S' ! j)"
      using j e(1) [of j] e(2,4) blockStep_ok_block [OF step] wf(2) by (cases "j = r") (auto simp: wfBuffered_def)
    show "\<forall>b\<in>set (bufferedAt S' j). okSized P b"
      using j e(1) [of j] e(3,4) ws wf(2) by (cases "j = r") (auto simp: wfBuffered_def)
    show "\<forall>b\<in>set (pma S' ! j # bufferedAt S' j). staleKeys P b \<subseteq> insert (NULL_KEY P) (?kf ` set (content S'))"
    proof (cases "j = r")
      case True
      then show ?thesis using at_r e(2,3) by simp
    next
      case False
      then have "\<forall>b\<in>set (pma S' ! j # bufferedAt S' j). staleKeys P b \<subseteq> insert (NULL_KEY P) (?kf ` set (content S))"
        using wf(2) e(1) [of j] e(4) j by (simp add: wfBuffered_def)
      then show ?thesis using keys by blast
    qed
  qed (use pma e(8) srt in auto)
qed

lemma findLast_ok:
  assumes "sortedBatch P batch" "i < hi" "hi \<le> length batch" "iright batchRange = int hi"
    and "nb \<noteq> iright pmaRange' \<Longrightarrow> avHead A nb = Some h \<and> keyOfValue P (batch ! i) < h"
  shows "\<exists>i'. findLastBatchElementForBlock P A batch (int i) batchRange nb pmaRange' = Some (int i') \<and> i < i' \<and> i' \<le> hi \<and>
     (if nb = iright pmaRange' then i' = hi
      else (\<forall>v\<in>set (slice batch i i'). keyOfValue P v < h) \<and> (i' < hi \<longrightarrow> h \<le> keyOfValue P (batch ! i')))"
proof (cases "nb = iright pmaRange'")
  case False
  obtain r where r: "lastElementLoop P batch h (int hi) (int i) = Some r" "int i \<le> r" "r \<le> int hi"
    "\<forall>j. int i \<le> j \<and> j < r \<longrightarrow> keyOfValue P (batch ! nat j) < h" "\<forall>j. r \<le> j \<and> j < int hi \<longrightarrow> h \<le> keyOfValue P (batch ! nat j)"
    using lastElementLoop_ok [OF assms(1), of "int i" "int hi" h] assms(2,3) by auto
  have "r \<noteq> int i" using r(5) assms(2,5) False by (auto simp: not_le dest!: spec [of _ "int i"])
  then have i': "i < nat r" "nat r \<le> hi" using r by auto
  have "keyOfValue P v < h" if v: "v \<in> set (slice batch i (nat r))" for v
  proof -
    obtain j where "i \<le> j" "j < nat r" "v = batch ! j" using v i'(2) assms(3) by (auto simp: in_slice)
    then show ?thesis using r(4) [rule_format, of "int j"] by simp
  qed
  moreover have "h \<le> keyOfValue P (batch ! nat r)" if "nat r < hi" using r(2,5) that by auto
  ultimately show ?thesis
    using False r(1,2) i' assms by (intro exI [of _ "nat r"]) (auto simp: findLastBatchElementForBlock_def)
qed (use assms in \<open>auto simp: findLastBatchElementForBlock_def intro!: exI [of _ hi]\<close>)

section \<open>Inserting a range of the batch\<close>

text \<open>
  A task inserts the elements \<open>lo, \<dots>, hi - 1\<close> of the batch into the entries \<open>L, \<dots>, M - 1\<close> of the array,
  which have nothing in the buffer yet; all other entries hold smaller or larger keys.
\<close>

definition insSetting :: "('k::linorder, 'v) tparams \<Rightarrow> ('k, 'v) sds \<Rightarrow> 'v list \<Rightarrow> nat \<Rightarrow> nat \<Rightarrow> nat \<Rightarrow> nat \<Rightarrow> bool" where
  "insSetting P S0 batch lo hi L M \<longleftrightarrow> wfParams P \<and> 2 \<le> MinSize P \<and> wfBuffered P S0 \<and>
     L < M \<and> M \<le> nat (sdsSize S0) \<and> pma S0 ! L \<noteq> emptyEntry P \<and> (\<forall>j. L \<le> j \<and> j < M \<longrightarrow> unbuffered S0 j) \<and>
     lo \<le> hi \<and> hi \<le> length batch \<and> strictly_sorted (map (keyOfValue P) batch) \<and> (\<forall>v\<in>set batch. NULL_KEY P < keyOfValue P v) \<and>
     (\<forall>j<nat (sdsSize S0). \<forall>x\<in>set (entryContent S0 j). \<forall>v\<in>set (slice batch lo hi).
        (j < L \<longrightarrow> keyOfValue P x < keyOfValue P v) \<and> (M \<le> j \<longrightarrow> keyOfValue P v < keyOfValue P x))"

text \<open>
  The invariant of the loop. While elements are left, the next search starts at \<open>bi\<close> and \<open>c\<close> is the first
  entry from there that is not empty; nothing from \<open>c\<close> on is in the buffer.
\<close>

definition insTarget :: "('k::linorder, 'v) tparams \<Rightarrow> nat \<Rightarrow> nat \<Rightarrow> 'k \<Rightarrow> nat \<Rightarrow> nat \<Rightarrow> ('k, 'v) sds \<Rightarrow> bool" where
  "insTarget P L M k bi c S \<longleftrightarrow> L \<le> bi \<and> bi \<le> c \<and> c < M \<and> pma S ! c \<noteq> emptyEntry P \<and> (\<forall>j. bi \<le> j \<and> j < c \<longrightarrow> pma S ! j = emptyEntry P) \<and>
     (c = L \<and> bi = L \<or> head (pma S ! c) \<le> k) \<and> (\<forall>j. c \<le> j \<and> j < M \<longrightarrow> unbuffered S j)"

definition insInv ::
  "('k::linorder, 'v) tparams \<Rightarrow> runtime \<Rightarrow> ('k, 'v) sds \<Rightarrow> 'v list \<Rightarrow> nat \<Rightarrow> nat \<Rightarrow> nat \<Rightarrow> nat \<Rightarrow> nat \<Rightarrow> nat \<Rightarrow> nat \<Rightarrow> nat \<Rightarrow> ('k, 'v) sds \<Rightarrow> bool" where
  "insInv P R S0 batch lo hi L M start i bi k S \<longleftrightarrow>
     lo \<le> i \<and> i \<le> hi \<and> k \<le> 2 * (i - lo) \<and> wfBuffered P S \<and> bmInv R (recountingNodesMap S) \<and>
     sdsSize S = sdsSize S0 \<and> length (bufferArray S) = length (bufferArray S0) \<and>
     content S = fold (insKey (keyOfValue P)) (slice batch lo i) (content S0) \<and>
     (\<forall>j<nat (sdsSize S0). j < L \<or> M \<le> j \<longrightarrow> entryContent S j = entryContent S0 j \<and> pma S ! j = pma S0 ! j \<and> bufferPointers S ! j = bufferPointers S0 ! j) \<and>
     freeBuffer S (start + k) (2 * (hi - i)) \<and>
     (\<forall>p<length (bufferArray S0). p < start \<or> start + k \<le> p \<longrightarrow> bufferArray S ! p = bufferArray S0 ! p) \<and>
     (i < hi \<longrightarrow> (\<exists>c. insTarget P L M (keyOfValue P (batch ! i)) bi c S))"

lemma insSettingD:
  assumes "insSetting P S0 batch lo hi L M"
  shows "wfParams P" "2 \<le> MinSize P" "wfBuffered P S0" "L < M" "M \<le> nat (sdsSize S0)" "lo \<le> hi" "hi \<le> length batch"
    "strictly_sorted (map (keyOfValue P) batch)" "sortedBatch P batch"
    "\<And>j j'. j < j' \<Longrightarrow> j' < length batch \<Longrightarrow> keyOfValue P (batch ! j) < keyOfValue P (batch ! j')"
  using assms sorted_wrt_nth_less [of "(<)" "map (keyOfValue P) batch"]
  by (auto simp: insSetting_def sortedBatch_def strict_sorted_iff)

text \<open>Facts about the entries that the searches use.\<close>

lemma wfBuffered_entry:
  assumes "wfParams P" "wfBuffered P S" "j < nat (sdsSize S)"
  shows "isEmpty (pma S ! j) \<longleftrightarrow> pma S ! j = emptyEntry P" "pma S ! j \<noteq> emptyEntry P \<Longrightarrow> okSized P (pma S ! j)"
    "usedIn (usedEntries S) (int j) \<longleftrightarrow> pma S ! j \<noteq> emptyEntry P" "headIn (usedEntries S) (int j) = head (pma S ! j)"
proof -
  have e: "pma S ! j = emptyEntry P \<or> okSized P (pma S ! j)" using assms(2,3) by (simp add: wfBuffered_def)
  then show 1: "isEmpty (pma S ! j) \<longleftrightarrow> pma S ! j = emptyEntry P" using okSized_nonempty [OF assms(1)] by auto
  show "pma S ! j \<noteq> emptyEntry P \<Longrightarrow> okSized P (pma S ! j)" using e by auto
  have u: "usedEntries S ! j = pma S ! j" using assms(3) by (simp add: usedEntries_def)
  have "length (usedEntries S) = nat (sdsSize S)" using assms(2) wfPmaD(6) by (auto simp: wfBuffered_def)
  then show "usedIn (usedEntries S) (int j) \<longleftrightarrow> pma S ! j \<noteq> emptyEntry P" using assms(3) 1 u by (auto simp: usedIn_def)
  show "headIn (usedEntries S) (int j) = head (pma S ! j)" using u by (simp add: headIn_def)
qed

lemma head_in_content:
  assumes "wfParams P" "wfBuffered P S" "j < nat (sdsSize S)" "pma S ! j \<noteq> emptyEntry P"
  obtains x where "x \<in> set (entryContent S j)" "keyOfValue P x = head (pma S ! j)"
  using okSized_head(1,2) [OF assms(1) wfBuffered_entry(2) [OF assms]] that [of "hd (elems (pma S ! j))"]
  by (simp add: entryContent_def)

lemma content_ge_head:
  assumes "wfParams P" "wfBuffered P S" "i \<le> j" "j < nat (sdsSize S)" "pma S ! i \<noteq> emptyEntry P" "unbuffered S i" "x \<in> set (entryContent S j)"
  shows "head (pma S ! i) \<le> keyOfValue P x"
proof (cases "i = j")
  case True
  have "x \<in> set (elems (pma S ! i))" using assms(7) unbuffered_content [OF assms(6)] True by simp
  moreover have "okSized P (pma S ! i)" using wfBuffered_entry(2) [OF assms(1,2,4)] assms(5) True by simp
  ultimately show ?thesis using okSized_head(3) [OF assms(1)] by blast
next
  case False
  have "i < nat (sdsSize S)" using assms(3,4) by simp
  then obtain y where "y \<in> set (entryContent S i)" "keyOfValue P y = head (pma S ! i)"
    by (rule head_in_content [OF assms(1,2) _ assms(5)])
  then show ?thesis using wfBuffered_ordered [OF assms(2), of i j y x] False assms by (simp add: less_imp_le)
qed

text \<open>The block that the next elements belong to.\<close>

lemma insTarget_search:
  assumes wf: "wfParams P" "wfBuffered P S" "M \<le> nat (sdsSize S)" and t: "insTarget P L M k bi c S"
  shows "\<exists>r nb. exponentialSearch P (arrayOf P S) k (int bi) (int M) = Some (int r) \<and> c \<le> r \<and> r < M \<and> pma S ! r \<noteq> emptyEntry P \<and>
     (r = c \<or> head (pma S ! r) \<le> k) \<and> findNext (arrayOf P S) (int r) (int M) = Some (int nb) \<and> r < nb \<and> nb \<le> M \<and>
     (\<forall>j. r < j \<and> j < nb \<longrightarrow> pma S ! j = emptyEntry P) \<and> (nb < M \<longrightarrow> pma S ! nb \<noteq> emptyEntry P \<and> k < head (pma S ! nb)) \<and>
     pmaLinearSearch (arrayOf P S) k (int r) (int M) = Some (int r)"
proof -
  have pma: "wfPma P S" using wf(2) by (simp add: wfBuffered_def)
  note d = wfPmaD [OF pma] and ent = wfBuffered_entry [OF wf(1,2)]
  have used: "usedIn (usedEntries S) j \<longleftrightarrow> pma S ! nat j \<noteq> emptyEntry P" if "0 \<le> j" "j < int M" for j
  proof -
    have "nat j < nat (sdsSize S)" using that wf(3) by linarith
    then show ?thesis using ent(3) [of "nat j"] that by simp
  qed
  have "\<exists>r nb. exponentialSearch P (arrayOf P S) k (int bi) (int M) = Some r \<and> int c \<le> r \<and> r < int M \<and> usedIn (usedEntries S) r \<and>
     (r = int c \<or> headIn (usedEntries S) r \<le> k) \<and> findNext (arrayOf P S) r (int M) = Some nb \<and> r < nb \<and> nb \<le> int M \<and>
     (\<forall>j. r < j \<and> j < nb \<longrightarrow> \<not> usedIn (usedEntries S) j) \<and> (nb < int M \<longrightarrow> usedIn (usedEntries S) nb \<and> k < headIn (usedEntries S) nb) \<and>
     pmaLinearSearch (arrayOf P S) k r (int M) = Some r"
  proof (rule sorted_heads.insertion_target)
    show "sorted_heads (arrayOf P S) (int (length (usedEntries S))) (usedIn (usedEntries S)) (headIn (usedEntries S))"
      using bb.sorted_heads_axioms [of P S] pma by simp
    show "int M \<le> int (length (usedEntries S))" using wf(3) d(6) by linarith
    show "usedIn (usedEntries S) (int c)" using used [of "int c"] t by (simp add: insTarget_def)
    show "int bi = int c \<or> headIn (usedEntries S) (int c) \<le> k" using t ent(4) [of c] wf(3) by (auto simp: insTarget_def)
    show "\<not> usedIn (usedEntries S) j" if "int bi \<le> j" "j < int c" for j
    proof -
      have "bi \<le> nat j" "nat j < c" "j < int M" "0 \<le> j" using that t by (auto simp: insTarget_def)
      then show ?thesis using used [of j] t by (auto simp: insTarget_def)
    qed
  qed (use t in \<open>auto simp: insTarget_def\<close>)
  then obtain r nb where r: "exponentialSearch P (arrayOf P S) k (int bi) (int M) = Some r" "int c \<le> r" "r < int M" "usedIn (usedEntries S) r"
     "r = int c \<or> headIn (usedEntries S) r \<le> k" "findNext (arrayOf P S) r (int M) = Some nb" "r < nb" "nb \<le> int M"
     "\<forall>j. r < j \<and> j < nb \<longrightarrow> \<not> usedIn (usedEntries S) j" "nb < int M \<longrightarrow> usedIn (usedEntries S) nb \<and> k < headIn (usedEntries S) nb"
     "pmaLinearSearch (arrayOf P S) k r (int M) = Some r" by blast
  obtain r' nb' where n: "r = int r'" "nb = int nb'" using r(2,7) by (metis nonneg_int_cases of_nat_0_le_iff order_trans less_imp_le)
  have "r' < nat (sdsSize S)" "nb' < M \<Longrightarrow> nb' < nat (sdsSize S)" using r(3) wf(3) n by auto
  then have h: "headIn (usedEntries S) (int r') = head (pma S ! r')" "nb' < M \<Longrightarrow> headIn (usedEntries S) (int nb') = head (pma S ! nb')"
    using ent(4) by auto
  have "pma S ! j = emptyEntry P" if "r' < j" "j < nb'" for j
    using r(8,9) used [of "int j"] that n by auto
  then show ?thesis
    using r used [of "int r'"] used [of "int nb'"] h unfolding n by (intro exI [of _ r'] exI [of _ nb']) auto
qed

lemma slice_ge:
  assumes "insSetting P S0 batch lo hi L M" "i' \<le> hi" "v \<in> set (slice batch i i')"
  shows "keyOfValue P (batch ! i) \<le> keyOfValue P v"
proof -
  obtain j where "i \<le> j" "j < i'" "v = batch ! j" using assms(2,3) insSettingD(7) [OF assms(1)] by (auto simp: in_slice)
  then show ?thesis using insSettingD(7,10) [OF assms(1)] assms(2) by (cases "i = j") (auto intro: less_imp_le)
qed

text \<open>All other entries hold smaller or larger keys than the elements that go into the found block.\<close>

lemma insTarget_order:
  assumes set: "insSetting P S0 batch lo hi L M" and inv: "insInv P R S0 batch lo hi L M start i bi k S" and i: "i < hi" "i' \<le> hi"
    and t: "insTarget P L M (keyOfValue P (batch ! i)) bi c S"
    and r: "c \<le> r" "r < M" "pma S ! r \<noteq> emptyEntry P" "r = c \<or> head (pma S ! r) \<le> keyOfValue P (batch ! i)"
    and nb: "r < nb" "nb \<le> M" "\<And>j. r < j \<Longrightarrow> j < nb \<Longrightarrow> pma S ! j = emptyEntry P" "nb < M \<Longrightarrow> pma S ! nb \<noteq> emptyEntry P"
    and below: "nb < M \<Longrightarrow> \<forall>v\<in>set (slice batch i i'). keyOfValue P v < head (pma S ! nb)"
    and j: "j < nat (sdsSize S)" "j \<noteq> r" "x \<in> set (entryContent S j)" "v \<in> set (slice batch i i')"
  shows "if j < r then keyOfValue P x < keyOfValue P v else keyOfValue P v < keyOfValue P x"
proof -
  note d = insSettingD [OF set]
  have wf: "wfBuffered P S" "sdsSize S = sdsSize S0" "lo \<le> i" using inv by (auto simp: insInv_def)
  have M: "M \<le> nat (sdsSize S)" using d(5) wf(2) by simp
  have unb: "unbuffered S q" if "c \<le> q" "q < M" for q using t that by (simp add: insTarget_def)
  have ge: "keyOfValue P (batch ! i) \<le> keyOfValue P v" by (rule slice_ge [OF set i(2) j(4)])
  have v: "v \<in> set (slice batch lo hi)" using slice_mono [OF wf(3) i(2) d(7)] j(4) by blast
  have outer: "(j < L \<longrightarrow> keyOfValue P x < keyOfValue P v) \<and> (M \<le> j \<longrightarrow> keyOfValue P v < keyOfValue P x)"
  proof (cases "j < L \<or> M \<le> j")
    case True
    then have "entryContent S j = entryContent S0 j" using inv j(1) wf(2) by (auto simp: insInv_def)
    then show ?thesis using set v j(1,3) wf(2) by (auto simp: insSetting_def)
  qed auto
  show ?thesis
  proof (cases "j < r")
    case True
    show ?thesis
    proof (cases "head (pma S ! r) \<le> keyOfValue P (batch ! i)")
      case le: True
      have "r < nat (sdsSize S)" using r(2) M by simp
      then obtain y where "y \<in> set (entryContent S r)" "keyOfValue P y = head (pma S ! r)"
        by (rule head_in_content [OF d(1) wf(1) _ r(3)])
      then have "keyOfValue P x < head (pma S ! r)" using wfBuffered_ordered [OF wf(1) True, of x y] r(2) M j(3) by simp
      then show ?thesis using le ge True by simp
    next
      case False
      then have "r = c" "c = L" using r(4) t by (auto simp: insTarget_def)
      then show ?thesis using True outer by simp
    qed
  next
    case False
    then have rj: "r < j" using j(2) by simp
    show ?thesis
    proof (cases "j < nb")
      case True
      then have "entryContent S j = []" using nb(2) nb(3) [OF rj True] unbuffered_content [OF unb [of j]] rj r(1) by simp
      then show ?thesis using j(3) by simp
    next
      case False
      show ?thesis
      proof (cases "nb < M")
        case True
        have "head (pma S ! nb) \<le> keyOfValue P x"
          by (rule content_ge_head [OF d(1) wf(1) _ j(1) nb(4) [OF True] unb j(3)]) (use False True r(1) nb(1) in auto)
        then show ?thesis using below [OF True] j(4) rj by force
      next
        case False
        then show ?thesis using outer \<open>\<not> j < nb\<close> nb(2) rj by simp
      qed
    qed
  qed
qed

lemma staleOk_target:
  assumes wf: "wfBuffered P S" "r < nat (sdsSize S)" "unbuffered S r" and nk: "NULL_KEY P < keyOfValue P v"
    and ord: "\<And>j x. j < nat (sdsSize S) \<Longrightarrow> j \<noteq> r \<Longrightarrow> x \<in> set (entryContent S j) \<Longrightarrow> keyOfValue P x \<noteq> keyOfValue P v"
  shows "staleOk P (pma S ! r) (keyOfValue P v)"
  unfolding staleOk_def
proof
  assume "keyOfValue P v \<in> keyOfValue P ` set (stale (pma S ! r))"
  then have "keyOfValue P v \<in> insert (NULL_KEY P) (keyOfValue P ` set (content S))"
    using wf(1,2) by (auto simp: wfBuffered_def staleKeys_def)
  then obtain x j where x: "j < nat (sdsSize S)" "x \<in> set (entryContent S j)" "keyOfValue P v = keyOfValue P x"
    using nk by (auto simp: in_rangeContent)
  then have "x \<in> set (elems (pma S ! r))" using ord [of j x] unbuffered_content [OF wf(3)] by (cases "j = r") auto
  then show "keyOfValue P v \<in> set (keysOf P (pma S ! r))" unfolding x(3) by (auto simp: keysOf_def)
qed

lemma blockStep_cases:
  "blockStep P R r vs start b' ws S S' \<Longrightarrow> if ws = [] then okSized P b' \<and> bufferPointers S' = bufferPointers S else b' = emptyEntry P"
  by (auto simp: blockStep_def split: if_splits)

lemma freeBuffer_mono: "freeBuffer S start n \<Longrightarrow> m \<le> n \<Longrightarrow> freeBuffer S start m"
  by (auto simp: freeBuffer_def)

text \<open>The next search starts at the block that was just filled, or behind it if the block moved to the buffer.\<close>

lemma insTarget_next:
  assumes wf: "wfParams P" "wfBuffered P S'" "M \<le> nat (sdsSize S')"
    and step: "blockStep P R r vs start b' ws S S'" and r: "L \<le> r" "r < nb" "nb < M" "pma S' ! r = b'"
    and between: "\<And>j. r < j \<Longrightarrow> j < nb \<Longrightarrow> pma S' ! j = emptyEntry P" and nb: "pma S' ! nb \<noteq> emptyEntry P" "head (pma S' ! nb) \<le> k"
    and unb: "\<And>j. r < j \<Longrightarrow> j < M \<Longrightarrow> unbuffered S' j" "unbuffered S r"
  shows "\<exists>c. insTarget P L M k r c S'"
proof (cases "ws = []")
  case True
  then have b': "okSized P b'" "bufferPointers S' = bufferPointers S" using blockStep_cases [OF step] by auto
  have rn: "r < nat (sdsSize S')" "nb < nat (sdsSize S')" using r wf(3) by auto
  have ne: "pma S' ! r \<noteq> emptyEntry P" using okSized_nonempty [OF wf(1) b'(1)] r(4) by auto
  obtain x where x: "x \<in> set (entryContent S' r)" "keyOfValue P x = head (pma S' ! r)" by (rule head_in_content [OF wf(1,2) rn(1) ne])
  obtain y where y: "y \<in> set (entryContent S' nb)" "keyOfValue P y = head (pma S' ! nb)" by (rule head_in_content [OF wf(1,2) rn(2) nb(1)])
  have "head (pma S' ! r) \<le> k" using wfBuffered_ordered [OF wf(2) r(2) rn(2) x(1) y(1)] x(2) y(2) nb(2) by simp
  moreover have "unbuffered S' j" if "r \<le> j" "j < M" for j
    using unb that b'(2) by (cases "r = j") (auto simp: unbuffered_def)
  ultimately show ?thesis using r ne by (intro exI [of _ r]) (auto simp: insTarget_def)
next
  case False
  then have "pma S' ! r = emptyEntry P" using blockStep_cases [OF step] r(4) by simp
  then have "pma S' ! j = emptyEntry P" if "r \<le> j" "j < nb" for j using between that by (cases "r = j") auto
  then show ?thesis using r nb unb by (intro exI [of _ nb]) (auto simp: insTarget_def)
qed

lemma insInv_step:
  assumes set: "insSetting P S0 batch lo hi L M" and inv: "insInv P R S0 batch lo hi L M start i bi k S" and i: "i < i'" "i' \<le> hi"
    and t: "insTarget P L M (keyOfValue P (batch ! i)) bi c S"
    and r: "c \<le> r" "r < M" "pma S ! r \<noteq> emptyEntry P" "r = c \<or> head (pma S ! r) \<le> keyOfValue P (batch ! i)"
    and nb: "r < nb" "nb \<le> M" "\<And>j. r < j \<Longrightarrow> j < nb \<Longrightarrow> pma S ! j = emptyEntry P" "nb < M \<Longrightarrow> pma S ! nb \<noteq> emptyEntry P"
    and last: "if nb = M then i' = hi else (\<forall>v\<in>set (slice batch i i'). keyOfValue P v < head (pma S ! nb)) \<and>
        (i' < hi \<longrightarrow> head (pma S ! nb) \<le> keyOfValue P (batch ! i'))"
    and step: "blockStep P R r (slice batch i i') (start + k) b' ws S S'"
  shows "insInv P R S0 batch lo hi L M start i' r (k + length ws) S'"
proof -
  note d = insSettingD [OF set]
  let ?n = "nat (sdsSize S0)" and ?kf = "keyOfValue P"
  have wf: "wfBuffered P S" "sdsSize S = sdsSize S0" "lo \<le> i" "i \<le> hi" "k \<le> 2 * (i - lo)"
    "freeBuffer S (start + k) (2 * (hi - i))" using inv by (auto simp: insInv_def)
  have ws: "length ws \<le> 2 * (i' - i)" using step i d(7) by (simp add: blockStep_def)
  then have ws': "length ws \<le> 2 * (hi - i)" using i by simp
  have rn: "r < nat (sdsSize S)" "unbuffered S r" "L \<le> r" using r t d(5) wf(2) by (auto simp: insTarget_def)
  have below: "nb < M \<Longrightarrow> \<forall>v\<in>set (slice batch i i'). ?kf v < head (pma S ! nb)" using last by auto
  have ihi: "i < hi" using i by simp
  note ord = insTarget_order [OF set inv ihi i(2) t r nb below]
  note e = blockStep_entries [OF d(1) wf(1) step rn(1,2) wf(6) ws']
  have wf': "wfBuffered P S'" by (rule blockStep_wf [OF d(1) wf(1) step rn(1,2) wf(6) ws']) (rule ord)
  have cont: "content S' = fold (insKey ?kf) (slice batch i i') (content S)"
    by (rule blockStep_content(3) [OF d(1) wf(1) step rn(1,2) wf(6) ws']) (rule ord)
  have other: "entryContent S' j = entryContent S j" if "j < nat (sdsSize S)" "j \<noteq> r" for j
    using e(1) [OF that] by (simp add: entryContent_def)
  have buf: "bufferArray S' ! p = bufferArray S ! p" if "p < length (bufferArray S)" "p < start + k \<or> start + k + length ws \<le> p" for p
    using that wf(6) ws' e(12) by (auto simp: freeBuffer_def writeAt_nth)
  show ?thesis
    unfolding insInv_def
  proof (intro conjI allI impI)
    show "content S' = fold (insKey ?kf) (slice batch lo i') (content S0)"
    proof -
      have "content S = fold (insKey ?kf) (slice batch lo i) (content S0)" using inv unfolding insInv_def by blast
      then show ?thesis unfolding cont slice_append [OF wf(3) less_imp_le [OF i(1)]] by simp
    qed
    show "freeBuffer S' (start + (k + length ws)) (2 * (hi - i'))"
      using wf(6) ws i buf e(5,6) by (auto simp: freeBuffer_def)
    show "k + length ws \<le> 2 * (i' - lo)" using wf(3,5) ws i by simp
    show "bufferArray S' ! p = bufferArray S0 ! p"
      if "p < length (bufferArray S0)" "p < start \<or> start + (k + length ws) \<le> p" for p
      using that buf [of p] inv by (auto simp: insInv_def)
    show "\<exists>c. insTarget P L M (?kf (batch ! i')) r c S'" if "i' < hi"
    proof (rule insTarget_next [OF d(1) wf' _ step])
      have "nb < M" using last that nb(2) by (auto split: if_splits)
      moreover have "M \<le> nat (sdsSize S)" using d(5) wf(2) by simp
      ultimately show "nb < M" "pma S' ! nb \<noteq> emptyEntry P" "head (pma S' ! nb) \<le> ?kf (batch ! i')"
        using e(1) [of nb] nb(1,4) last that by auto
      show "unbuffered S' j" if "r < j" "j < M" for j
        using e(13) [of j] t that r(1) by (auto simp: insTarget_def unbuffered_def)
      show "pma S' ! j = emptyEntry P" if "r < j" "j < nb" for j
        using e(1) [of j] nb(2) nb(3) [OF that] that d(5) wf(2) by auto
    qed (use rn nb(1) e(2,4) d(5) wf(2) in auto)
    show "entryContent S' j = entryContent S0 j" "pma S' ! j = pma S0 ! j" "bufferPointers S' ! j = bufferPointers S0 ! j"
      if "j < ?n" "j < L \<or> M \<le> j" for j
      using that inv other [of j] e(1) [of j] r(2) rn(3) wf(2) by (auto simp: insInv_def)
  qed (use wf' e wf inv i in \<open>auto simp: insInv_def\<close>)
qed

lemma insertRangeLoop_step:
  assumes set: "insSetting P S0 batch lo hi L M" and inv: "insInv P R S0 batch lo hi L M start i bi k S" and i: "i < hi"
    and rng: "iright batchRange = int hi" "iright pmaRange' = int M" "ileft br = int start" "int start + 2 * int (hi - lo) \<le> iright br"
  shows "\<exists>i' r k' S'. insertRangeLoop P R batch batchRange pmaRange' br (int i) (int bi) (int k) S =
       insertRangeLoop P R batch batchRange pmaRange' br (int i') (int r) (int k') S' \<and> i < i' \<and> i' \<le> hi \<and>
     insInv P R S0 batch lo hi L M start i' r k' S'"
proof -
  note d = insSettingD [OF set]
  let ?k = "keyOfValue P (batch ! i)" and ?A = "arrayOf P S"
  have wf: "wfBuffered P S" "sdsSize S = sdsSize S0" "lo \<le> i" "k \<le> 2 * (i - lo)" "bmInv R (recountingNodesMap S)"
    "freeBuffer S (start + k) (2 * (hi - i))" using inv by (auto simp: insInv_def)
  have M: "M \<le> nat (sdsSize S)" using d(5) wf(2) by simp
  have len: "nat (sdsSize S) \<le> length (pma S)" by (rule wfBuffered_pma [OF wf(1)])
  obtain c where t: "insTarget P L M ?k bi c S" using inv i by (auto simp: insInv_def)
  obtain r nb where r: "exponentialSearch P ?A ?k (int bi) (int M) = Some (int r)" "c \<le> r" "r < M" "pma S ! r \<noteq> emptyEntry P"
     "r = c \<or> head (pma S ! r) \<le> ?k" "findNext ?A (int r) (int M) = Some (int nb)" "r < nb" "nb \<le> M"
     "\<forall>j. r < j \<and> j < nb \<longrightarrow> pma S ! j = emptyEntry P" "nb < M \<longrightarrow> pma S ! nb \<noteq> emptyEntry P \<and> ?k < head (pma S ! nb)"
     "pmaLinearSearch ?A ?k (int r) (int M) = Some (int r)"
    using insTarget_search [OF d(1) wf(1) M t] by blast
  have "avHead ?A (int nb) = Some (head (pma S ! nb)) \<and> ?k < head (pma S ! nb)" if "int nb \<noteq> iright pmaRange'"
    using that r(8,10) rng(2) M len by (auto simp: avHead_def arrayOf_def)
  then obtain i' where i': "findLastBatchElementForBlock P ?A batch (int i) batchRange (int nb) pmaRange' = Some (int i')" "i < i'" "i' \<le> hi"
     "if nb = M then i' = hi else (\<forall>v\<in>set (slice batch i i'). keyOfValue P v < head (pma S ! nb)) \<and> (i' < hi \<longrightarrow> head (pma S ! nb) \<le> keyOfValue P (batch ! i'))"
    using findLast_ok [OF d(9) i d(7) rng(1), of "int nb" pmaRange' ?A "head (pma S ! nb)"] rng(2) by auto
  have rn: "r < nat (sdsSize S)" "unbuffered S r" using r t M by (auto simp: insTarget_def)
  have ord: "if j < r then keyOfValue P x < keyOfValue P v else keyOfValue P v < keyOfValue P x"
    if "j < nat (sdsSize S)" "j \<noteq> r" "x \<in> set (entryContent S j)" "v \<in> set (slice batch i i')" for j x v
    by (rule insTarget_order [OF set inv i i'(3) t r(2-5,7,8)]) (use that r(9,10) i'(4) in auto)
  have nk: "NULL_KEY P < keyOfValue P v" if "v \<in> set (slice batch i i')" for v
    using that set set_slice_subset [of batch i i'] by (auto simp: insSetting_def)
  have "staleOk P (pma S ! r) (keyOfValue P v)" if v: "v \<in> set (slice batch i i')" for v
    by (rule staleOk_target [OF wf(1) rn nk [OF v]]) (use ord v in \<open>fastforce split: if_splits\<close>)
  moreover have "\<forall>v\<in>set batch. NULL_KEY P < keyOfValue P v" using set by (simp add: insSetting_def)
  ultimately have split: "splitSetting P (pma S ! r) batch i i'"
    using d i'(2,3) wfBuffered_entry(2) [OF d(1) wf(1) rn(1) r(4)] by (simp add: splitSetting_def)
  have room: "freeBuffer S (start + k) (2 * (i' - i))" using freeBuffer_mono [OF wf(6)] i'(3) by simp
  have "int (start + k) + int (2 * (i' - i)) \<le> iright br" using rng(4) wf(3,4) i'(2,3) by linarith
  then obtain b' ws S' where s: "insertElementsIntoBlock P R (int r) (int nb) pmaRange' br batch (int i) batchRange (int k) S =
       Some (int i', int k + int (length ws), S')" "blockStep P R r (slice batch i i') (start + k) b' ws S S'"
    using insertElementsIntoBlock_ok [OF i'(1) split i'(2) d(2) _ _ room, of br "int k" R] rng(3) wf(1,5) rn(1) len
    by (auto simp: wfBuffered_def)
  have "insInv P R S0 batch lo hi L M start i' r (k + length ws) S'"
    by (rule insInv_step [OF set inv i'(2,3) t r(2-5,7,8) _ _ i'(4) s(2)]) (use r(9,10) in auto)
  moreover have "insertRangeLoop P R batch batchRange pmaRange' br (int i) (int bi) (int k) S =
     insertRangeLoop P R batch batchRange pmaRange' br (int i') (int r) (int (k + length ws)) S'"
    using i rng(1,2) d(7) r(1,6,11) s(1) by (subst insertRangeLoop.simps) simp
  ultimately show ?thesis using i'(2,3) by blast
qed

lemma insertRangeLoop_ok:
  assumes set: "insSetting P S0 batch lo hi L M"
    and rng: "iright batchRange = int hi" "iright pmaRange' = int M" "ileft br = int start" "int start + 2 * int (hi - lo) \<le> iright br"
  shows "insInv P R S0 batch lo hi L M start i bi k S \<Longrightarrow>
    \<exists>bi' k' S'. insertRangeLoop P R batch batchRange pmaRange' br (int i) (int bi) (int k) S = Some (int hi, int k', S') \<and>
      insInv P R S0 batch lo hi L M start hi bi' k' S'"
proof (induction "hi - i" arbitrary: i bi k S rule: less_induct)
  case less
  show ?case
  proof (cases "i < hi")
    case True
    obtain i' r k' S' where s: "insertRangeLoop P R batch batchRange pmaRange' br (int i) (int bi) (int k) S =
       insertRangeLoop P R batch batchRange pmaRange' br (int i') (int r) (int k') S'" "i < i'" "i' \<le> hi"
      "insInv P R S0 batch lo hi L M start i' r k' S'"
      using insertRangeLoop_step [OF set less(2) True rng] by blast
    have "hi - i' < hi - i" using s(2) True by simp
    then show ?thesis using less(1) [OF _ s(4)] s(1) by simp
  next
    case False
    then have "i = hi" using less(2) by (simp add: insInv_def)
    then show ?thesis using less(2) rng(1) by (subst insertRangeLoop.simps) auto
  qed
qed

text \<open>
  The whole operation on a range that is not empty: it returns, the array stays valid, its elements are
  the old ones with the elements of the batch inserted, and nothing else changes.
\<close>

lemma insertBatchRange_ok:
  assumes set: "insSetting P S batch lo hi L M" "lo < hi"
    and bm: "bmInv R (recountingNodesMap S)" and free: "freeBuffer S start (2 * (hi - lo))"
  shows "\<exists>k S'. insertBatchRange P R batch (mkInterval (int lo) (int hi)) (mkInterval (int L) (int M))
        (mkInterval (int start) (int start + 2 * int (hi - lo))) S = Some (int k, S') \<and>
     insInv P R S batch lo hi L M start hi L k S'"
proof -
  note d = insSettingD [OF set(1)]
  have "insTarget P L M (keyOfValue P (batch ! lo)) L L S"
    using set(1) by (auto simp: insTarget_def insSetting_def)
  then have "insInv P R S batch lo hi L M start lo L 0 S"
    using d bm free by (auto simp: insInv_def)
  then obtain bi k S' where l: "insertRangeLoop P R batch (mkInterval (int lo) (int hi)) (mkInterval (int L) (int M))
        (mkInterval (int start) (int start + 2 * int (hi - lo))) (int lo) (int L) 0 S = Some (int hi, int k, S')"
    "insInv P R S batch lo hi L M start hi bi k S'"
    using insertRangeLoop_ok [OF set(1), of "mkInterval (int lo) (int hi)" "mkInterval (int L) (int M)" "mkInterval (int start) (int start + 2 * int (hi - lo))" start R lo L 0 S]
    by auto
  have "emptyAt P S (int L) = Some False"
    using emptyAt_ok [of P S "int L"] d(3,4,5) wfBuffered_entry(1) [OF d(1,3), of L] set(1) by (auto simp: wfBuffered_def insSetting_def)
  moreover have "insInv P R S batch lo hi L M start hi L k S'" using l(2) unfolding insInv_def by blast
  ultimately show ?thesis using l(1) d(4) by (auto simp: insertBatchRange_def)
qed

section \<open>Inserting into an empty array\<close>

lemma fold_insKey_appends: "strictly_sorted (map kf (E @ vs)) \<Longrightarrow> fold (insKey kf) vs E = E @ vs"
proof (induction vs arbitrary: E)
  case (Cons v vs)
  have "insKey kf v (E @ []) = E @ insKey kf v []" using Cons.prems by (intro insKey_append_left) (auto simp: sorted_wrt_append)
  then show ?case using Cons.IH [of "E @ [v]"] Cons.prems by simp
qed simp

definition emptySetting :: "('k::linorder, 'v) tparams \<Rightarrow> 'v list \<Rightarrow> nat \<Rightarrow> nat \<Rightarrow> bool" where
  "emptySetting P batch lo hi \<longleftrightarrow> wfParams P \<and> lo + MinSize P \<le> hi \<and> hi \<le> length batch \<and>
     strictly_sorted (map (keyOfValue P) batch) \<and> (\<forall>v\<in>set batch. NULL_KEY P < keyOfValue P v)"

text \<open>\<open>ws\<close> was written, \<open>cur\<close> is the block that is filled; between rounds it is full, or nothing is left.\<close>

definition emptyInv ::
  "('k::linorder, 'v) tparams \<Rightarrow> 'v list \<Rightarrow> nat \<Rightarrow> nat \<Rightarrow> nat \<Rightarrow> ('k, 'v) PmaEntry \<Rightarrow> ('k, 'v) PmaEntry list \<Rightarrow> bool" where
  "emptyInv P batch lo hi i cur ws \<longleftrightarrow> lo \<le> i \<and> i \<le> hi \<and> entriesElems (ws @ [cur]) = slice batch lo i \<and>
     wfBlock P cur \<and> staleKeys P cur \<subseteq> {NULL_KEY P} \<and>
     (\<forall>w\<in>set ws. okSized P w \<and> staleKeys P w \<subseteq> insert (NULL_KEY P) (keyOfValue P ` set (slice batch lo i))) \<and>
     (if i < hi then bsize cur = MaxSize P \<or> bsize cur = 0 \<and> ws = [] else MinSize P \<le> bsize cur)"

lemma fresh_block:
  assumes "wfParams P"
  obtains b where "allocateBlock P (emptyEntry P) = Some b" "wfBlock P b" "bsize b = 0" "elems b = []" "staleKeys P b \<subseteq> {NULL_KEY P}"
proof -
  obtain cells where c: "allocateBlock P (emptyEntry P) = Some ((emptyEntry P)\<lparr>block := Some cells\<rparr>)" "length cells = MaxSize P"
    "set cells \<subseteq> insert (defaultValue P) (set_option (nullValue P))" by (rule allocateBlock_empty)
  have "staleKeys P ((emptyEntry P)\<lparr>block := Some cells\<rparr>) \<subseteq> {NULL_KEY P}"
    using c(3) assms by (auto simp: staleKeys_def wfParams_def dest!: subsetD)
  then show ?thesis using that [OF c(1)] c(2) by (auto simp: wfBlock_def keysOf_def)
qed

text \<open>Making room: a full block is written, and split before if less than \<open>MinSize\<close> elements are left.\<close>

definition roomPart ::
  "('k::linorder, 'v) tparams \<Rightarrow> runtime \<Rightarrow> Interval \<Rightarrow> Interval \<Rightarrow> int \<Rightarrow> ('k, 'v) PmaEntry \<Rightarrow> int \<Rightarrow> ('k, 'v) sds \<Rightarrow> (('k, 'v) PmaEntry \<times> int \<times> ('k, 'v) sds) option" where
  "roomPart P R inputRange br remaining cur ob S =
     (if bsize cur = MaxSize P
      then do {
        let remainingElements = remaining;
        (cur, newBlock) \<leftarrow>
          (if remainingElements > 0 \<and> remainingElements < int (MinSize P) then split P cur
           else do { newBlock \<leftarrow> allocateBlock P (emptyEntry P); Some (cur, newBlock) });
        S \<leftarrow> writeToBufferArray P R cur br ob (ileft inputRange) S;
        Some (newBlock, ob + 1, S) }
      else Some (cur, ob, S))"

lemma emptyRangeLoop_step:
  "emptyRangeLoop P R batch batchRange inputRange br i cur ob S =
     (if i < iright batchRange
      then do {
        (cur, ob, S) \<leftarrow> roomPart P R inputRange br (iright batchRange - i) cur ob S;
        let n = min (int (MaxSize P)) (iright batchRange - i);
        cur \<leftarrow> merge P cur (drop (nat i) batch) (u16 n);
        emptyRangeLoop P R batch batchRange inputRange br (i + n) cur ob S }
      else Some (i, cur, ob, S))"
  unfolding roomPart_def by (subst emptyRangeLoop.simps) (simp cong: if_cong)

lemma roomPart_ok:
  assumes set: "emptySetting P batch lo hi" and inv: "emptyInv P batch lo hi i cur ws" and i: "i < hi"
    and wr: "written P R (ileft inputRange) start ws S0 S" "freeBuffer S0 start n" "length ws < n"
      "ileft br + ob = int start + int (length ws)" "int start + int n \<le> iright br"
  shows "\<exists>cur' ob' S' ws'. roomPart P R inputRange br (int hi - int i) cur ob S = Some (cur', ob', S') \<and>
     written P R (ileft inputRange) start ws' S0 S' \<and> ileft br + ob' = int start + int (length ws') \<and>
     entriesElems (ws' @ [cur']) = slice batch lo i \<and> wfBlock P cur' \<and> staleKeys P cur' \<subseteq> {NULL_KEY P} \<and>
     (\<forall>w\<in>set ws'. okSized P w \<and> staleKeys P w \<subseteq> insert (NULL_KEY P) (keyOfValue P ` set (slice batch lo i))) \<and>
     (bsize cur' = 0 \<and> (ws' = [] \<or> MinSize P \<le> hi - i) \<or> bsize cur' = MinSize P \<and> hi - i < MinSize P)"
proof (cases "bsize cur = MaxSize P")
  case True
  have wp: "wfParams P" using set by (simp add: emptySetting_def)
  have cur: "wfBlock P cur" "staleKeys P cur \<subseteq> {NULL_KEY P}" "okSized P cur"
    using inv True wp by (auto simp: emptyInv_def okSized_def wfParams_def)
  have content: "entriesElems ws @ elems cur = slice batch lo i" using inv by (simp add: emptyInv_def)
  have "\<exists>w new. (if int hi - int i > 0 \<and> int hi - int i < int (MinSize P) then split P cur
           else do { newBlock \<leftarrow> allocateBlock P (emptyEntry P); Some (cur, newBlock) }) = Some (w, new) \<and>
      okSized P w \<and> wfBlock P new \<and> elems w @ elems new = elems cur \<and> staleKeys P w \<subseteq> insert (NULL_KEY P) (keyOfValue P ` set (elems cur)) \<and>
      staleKeys P new \<subseteq> {NULL_KEY P} \<and> (bsize new = 0 \<and> MinSize P \<le> hi - i \<or> bsize new = MinSize P \<and> hi - i < MinSize P)"
  proof (cases "hi - i < MinSize P")
    case small: True
    obtain l r where lr: "split P cur = Some (l, r)" "wfBlock P l" "wfBlock P r" "elems l = take (MinSize P) (elems cur)"
      "elems r = drop (MinSize P) (elems cur)" "bsize l = MinSize P" "bsize r = MinSize P"
      "staleKeys P l \<subseteq> insert (NULL_KEY P) (set (keysOf P r))" "staleKeys P r \<subseteq> {NULL_KEY P}"
      using split_ok [OF wp cur(1) True] by blast
    have "keyOfValue P ` set (elems r) \<subseteq> keyOfValue P ` set (elems cur)" unfolding lr(5) by (intro image_mono set_drop_subset)
    then have "staleKeys P l \<subseteq> insert (NULL_KEY P) (keyOfValue P ` set (elems cur))" using lr(8) unfolding keysOf_def set_map by blast
    then show ?thesis using small lr(1-7,9) i wp by (auto simp: okSized_def wfParams_def)
  next
    case False
    obtain b where "allocateBlock P (emptyEntry P) = Some b" "wfBlock P b" "bsize b = 0" "elems b = []" "staleKeys P b \<subseteq> {NULL_KEY P}"
      by (rule fresh_block [OF wp])
    then show ?thesis using False cur i by auto
  qed
  then obtain w new where w: "(if int hi - int i > 0 \<and> int hi - int i < int (MinSize P) then split P cur
           else do { newBlock \<leftarrow> allocateBlock P (emptyEntry P); Some (cur, newBlock) }) = Some (w, new)"
      "okSized P w" "wfBlock P new" "elems w @ elems new = elems cur" "staleKeys P w \<subseteq> insert (NULL_KEY P) (keyOfValue P ` set (elems cur))"
      "staleKeys P new \<subseteq> {NULL_KEY P}" "bsize new = 0 \<and> MinSize P \<le> hi - i \<or> bsize new = MinSize P \<and> hi - i < MinSize P" by blast
  obtain S' where S': "writeToBufferArray P R w br ob (ileft inputRange) S = Some S'" "written P R (ileft inputRange) start (ws @ [w]) S0 S'"
    using writeToBufferArray_ok [OF wr(1,2,3) w(2) wp wr(4,5)] by blast
  have "set (elems cur) \<subseteq> set (slice batch lo i)" unfolding content [symmetric] by simp
  then have st: "staleKeys P w \<subseteq> insert (NULL_KEY P) (keyOfValue P ` set (slice batch lo i))" using w(5) by blast
  have "entriesElems ((ws @ [w]) @ [new]) = slice batch lo i" using w(4) content by simp
  moreover have "roomPart P R inputRange br (int hi - int i) cur ob S = Some (new, ob + 1, S')"
    using True w(1) S'(1) by (simp add: roomPart_def)
  moreover have "\<forall>x\<in>set (ws @ [w]). okSized P x \<and> staleKeys P x \<subseteq> insert (NULL_KEY P) (keyOfValue P ` set (slice batch lo i))"
    using inv w(2) st by (simp add: emptyInv_def)
  moreover have "ileft br + (ob + 1) = int start + int (length (ws @ [w]))" using wr(4) by simp
  ultimately show ?thesis using w(3,6,7) S'(2) by blast
next
  case False
  then have "bsize cur = 0" "ws = []" using inv i by (auto simp: emptyInv_def)
  then show ?thesis using False inv wr(1,4) by (auto simp: roomPart_def emptyInv_def)
qed

text \<open>Every block that was written holds at least one element.\<close>

lemma emptyInv_count:
  assumes "emptySetting P batch lo hi" "emptyInv P batch lo hi i cur ws"
  shows "length ws \<le> i - lo"
proof -
  have "length ws * 1 \<le> length ws * MinSize P" using assms(1) by (intro mult_le_mono2) (auto simp: emptySetting_def wfParams_def)
  also have "\<dots> \<le> length (entriesElems ws)" using assms(2) by (intro sum_sizes) (auto simp: emptyInv_def)
  also have "\<dots> \<le> length (entriesElems (ws @ [cur]))" by simp
  also have "\<dots> = i - lo" using assms by (simp only: emptyInv_def) (simp add: emptySetting_def)
  finally show ?thesis by simp
qed

lemma emptyRange_merge:
  assumes set: "emptySetting P batch lo hi" and i: "lo \<le> i" "i < hi"
    and cur: "entriesElems (ws @ [cur]) = slice batch lo i" "wfBlock P cur" "staleKeys P cur \<subseteq> {NULL_KEY P}"
    and ws: "\<forall>w\<in>set ws. okSized P w \<and> staleKeys P w \<subseteq> insert (NULL_KEY P) (keyOfValue P ` set (slice batch lo i))"
    and room: "bsize cur = 0 \<and> (ws = [] \<or> MinSize P \<le> hi - i) \<or> bsize cur = MinSize P \<and> hi - i < MinSize P"
  shows "\<exists>b. merge P cur (drop i batch) (u16 (min (int (MaxSize P)) (int hi - int i))) = Some b \<and>
     emptyInv P batch lo hi (i + min (MaxSize P) (hi - i)) b ws"
proof -
  let ?n = "min (MaxSize P) (hi - i)"
  have wp: "wfParams P" and hi: "hi \<le> length batch" "lo + MinSize P \<le> hi" and srt: "strictly_sorted (map (keyOfValue P) batch)"
    and nk: "\<forall>v\<in>set batch. NULL_KEY P < keyOfValue P v" using set by (auto simp: emptySetting_def)
  note w = wfParamsD [OF wp]
  define i' where "i' = i + ?n"
  have i': "i < i'" "i' \<le> hi" "i' - i = ?n" using i w by (auto simp: i'_def)
  have n: "u16 (min (int (MaxSize P)) (int hi - int i)) = i' - i" using i w by (subst u16_id) (auto simp: i'_def)
  have fits: "bsize cur + (i' - i) \<le> MaxSize P" using room w i'(3) by auto
  have sl: "set (slice batch i i') \<subseteq> set batch" by (rule set_slice_subset)
  obtain b where b: "merge P cur (slice batch i i') (i' - i) = Some b" "wfBlock P b"
    "elems b = fold (insKey (keyOfValue P)) (slice batch i i') (elems cur)" "set (stale b) \<subseteq> set (stale cur)"
  proof -
    have st: "\<forall>e\<in>set (slice batch i i'). NULL_KEY P < keyOfValue P e \<and> staleOk P cur (keyOfValue P e)"
      using nk sl cur(3) by (fastforce simp: staleOk_def staleKeys_def)
    have "sorted (map (keyOfValue P) (slice batch i i'))" using sorted_keys_slice [OF srt] by (simp add: strict_sorted_iff)
    then show ?thesis using merge_ok [OF wp cur(2) _ _ fits _ st] that i' hi w by auto
  qed
  have whole: "slice batch lo i' = entriesElems ws @ elems cur @ slice batch i i'"
    using slice_append [of lo i i' batch] i i' cur(1) by simp
  have "strictly_sorted (map (keyOfValue P) (elems cur @ slice batch i i'))"
    using sorted_keys_slice [OF srt, of lo i'] unfolding whole by (simp add: sorted_wrt_append)
  then have el: "elems b = elems cur @ slice batch i i'" using b(3) fold_insKey_appends by metis
  have "bsize b = bsize cur + (i' - i)"
    using length_elems [of P b] length_elems [of P cur] b(2) cur(2) el i' hi by simp
  moreover have "i = lo" if "bsize cur = 0" "ws = []"
    using that arg_cong [OF cur(1), of length] length_elems [of P cur] cur(2) i hi by simp
  ultimately have "if i' < hi then bsize b = MaxSize P \<or> bsize b = 0 \<and> ws = [] else MinSize P \<le> bsize b"
    using room i' w hi(2) cur(1) i by (auto simp: i'_def min_def split: if_splits)
  moreover have "keyOfValue P ` set (slice batch lo i) \<subseteq> keyOfValue P ` set (slice batch lo i')"
    using slice_append [of lo i i' batch] i i' by auto
  then have "\<forall>w\<in>set ws. okSized P w \<and> staleKeys P w \<subseteq> insert (NULL_KEY P) (keyOfValue P ` set (slice batch lo i'))"
    using ws by blast
  moreover have "staleKeys P b \<subseteq> {NULL_KEY P}" using b(4) cur(3) unfolding staleKeys_def by blast
  ultimately have "emptyInv P batch lo hi i' b ws"
    using b(2) el whole i i' by (simp add: emptyInv_def)
  moreover have "merge P cur (drop i batch) (u16 (min (int (MaxSize P)) (int hi - int i))) = Some b"
    using b(1) merge_slice [of i' batch i P cur] i' hi n by simp
  ultimately show ?thesis unfolding i'_def by blast
qed

lemma emptyRangeLoop_ok:
  assumes set: "emptySetting P batch lo hi" and n: "hi - lo \<le> n"
    and rng: "iright batchRange = int hi" "freeBuffer S0 start n" "int start + int n \<le> iright br"
  shows "emptyInv P batch lo hi i cur ws \<Longrightarrow> written P R (ileft inputRange) start ws S0 S \<Longrightarrow> ileft br + ob = int start + int (length ws) \<Longrightarrow>
    \<exists>cur' ob' S' ws'. emptyRangeLoop P R batch batchRange inputRange br (int i) cur ob S = Some (int hi, cur', ob', S') \<and>
      emptyInv P batch lo hi hi cur' ws' \<and> written P R (ileft inputRange) start ws' S0 S' \<and> ileft br + ob' = int start + int (length ws')"
proof (induction "hi - i" arbitrary: i cur ws S ob rule: less_induct)
  case less
  have lo: "lo \<le> i" "i \<le> hi" using less(2) by (auto simp: emptyInv_def)
  show ?case
  proof (cases "i < hi")
    case True
    have "length ws < n" using emptyInv_count [OF set less(2)] True lo n by simp
    then obtain cur1 ob1 S1 ws1 where r: "roomPart P R inputRange br (int hi - int i) cur ob S = Some (cur1, ob1, S1)"
      "written P R (ileft inputRange) start ws1 S0 S1" "ileft br + ob1 = int start + int (length ws1)"
      "entriesElems (ws1 @ [cur1]) = slice batch lo i" "wfBlock P cur1" "staleKeys P cur1 \<subseteq> {NULL_KEY P}"
      "\<forall>w\<in>set ws1. okSized P w \<and> staleKeys P w \<subseteq> insert (NULL_KEY P) (keyOfValue P ` set (slice batch lo i))"
      "bsize cur1 = 0 \<and> (ws1 = [] \<or> MinSize P \<le> hi - i) \<or> bsize cur1 = MinSize P \<and> hi - i < MinSize P"
      using roomPart_ok [OF set less(2) True less(3) rng(2) _ less(4) rng(3)] by blast
    define i' where "i' = i + min (MaxSize P) (hi - i)"
    obtain b where b: "merge P cur1 (drop i batch) (u16 (min (int (MaxSize P)) (int hi - int i))) = Some b" "emptyInv P batch lo hi i' b ws1"
      using emptyRange_merge [OF set lo(1) True r(4-8)] unfolding i'_def by blast
    have "0 < MaxSize P" using set by (auto simp: emptySetting_def wfParams_def)
    then have "hi - i' < hi - i" using True by (auto simp: i'_def)
    moreover have "int i + min (int (MaxSize P)) (int hi - int i) = int i'" using True by (auto simp: i'_def)
    ultimately show ?thesis
      using less(1) [OF _ b(2) r(2,3)] r(1) b(1) True rng(1) by (subst emptyRangeLoop_step) simp
  next
    case False
    then have "i = hi" using lo by simp
    then show ?thesis using less(2-4) rng(1) by (subst emptyRangeLoop_step) auto
  qed
qed

text \<open>The whole operation on an empty range: the elements of the batch are in blocks of legal size.\<close>

lemma insertIntoEmptyRange_ok:
  assumes set: "emptySetting P batch lo hi" and x: "x < length (bufferPointers S)"
    and bm: "bmInv R (recountingNodesMap S)" and free: "freeBuffer S start (2 * (hi - lo))"
  shows "\<exists>ws S'. insertBatchRange P R batch (mkInterval (int lo) (int hi)) (mkInterval (int x) (int x))
        (mkInterval (int start) (int start + 2 * int (hi - lo))) S = Some (int (length ws), S') \<and>
     written P R (int x) start ws (S\<lparr>bufferPointers := (bufferPointers S)[x := mkInterval (int start) (int start + int (length ws))]\<rparr>) S' \<and>
     bufferedAt S' x = ws \<and> entriesElems ws = slice batch lo hi \<and>
     (\<forall>w\<in>set ws. okSized P w \<and> staleKeys P w \<subseteq> insert (NULL_KEY P) (keyOfValue P ` set (slice batch lo hi)))"
proof -
  have wp: "wfParams P" "lo < hi" using set by (auto simp: emptySetting_def wfParams_def)
  let ?br = "mkInterval (int start) (int start + 2 * int (hi - lo))"
  obtain b where b: "allocateBlock P (emptyEntry P) = Some b" "wfBlock P b" "bsize b = 0" "elems b = []" "staleKeys P b \<subseteq> {NULL_KEY P}"
    by (rule fresh_block [OF wp(1)])
  have "emptyInv P batch lo hi lo b []" using b wp by (auto simp: emptyInv_def)
  then obtain cur ob S1 ws where l: "emptyRangeLoop P R batch (mkInterval (int lo) (int hi)) (mkInterval (int x) (int x)) ?br (int lo) b 0 S = Some (int hi, cur, ob, S1)"
    "emptyInv P batch lo hi hi cur ws" "written P R (int x) start ws S S1" "ob = int (length ws)"
    using emptyRangeLoop_ok [OF set, of "2 * (hi - lo)" "mkInterval (int lo) (int hi)" S start ?br lo b "[]" R "mkInterval (int x) (int x)" S 0] free bm by auto
  have cur: "okSized P cur" using l(2) by (auto simp: emptyInv_def okSized_def wfBlock_def okBlock_def)
  have room: "length ws < 2 * (hi - lo)" using emptyInv_count [OF set l(2)] wp(2) by simp
  obtain S2 where S2: "writeToBufferArray P R cur ?br (int (length ws)) (int x) S1 = Some S2" "written P R (int x) start (ws @ [cur]) S S2"
    using writeToBufferArray_ok [OF l(3) free room cur wp(1), of ?br "int (length ws)"] by auto
  define ws' where "ws' = ws @ [cur]"
  define S3 where "S3 = S2\<lparr>bufferPointers := (bufferPointers S)[x := mkInterval (int start) (int start + int (length ws'))]\<rparr>"
  have "bufferPointers S2 = bufferPointers S" using S2(2) by (auto simp: written_def)
  then have "insertBatchRange P R batch (mkInterval (int lo) (int hi)) (mkInterval (int x) (int x)) ?br S = Some (int (length ws'), S3)"
    using b(1) l(1,4) cur S2(1) x wp by (simp add: insertBatchRange_def insertIntoEmptyRange_def okSized_def wfParams_def getDenseWriteIndex_def setPointers_def S3_def ws'_def ac_simps)
  moreover have wr: "written P R (int x) start ws' (S\<lparr>bufferPointers := (bufferPointers S)[x := mkInterval (int start) (int start + int (length ws'))]\<rparr>) S3"
    using written_pointers [OF S2(2)] by (simp add: S3_def ws'_def)
  moreover have "bufferedAt S3 x = ws'"
    using wr x slice_writeAt_self [of start ws' "bufferArray S"] free room
    by (auto simp: written_def bufferedAt_def freeBuffer_def ws'_def nat_add_distrib)
  moreover have "entriesElems ws' = slice batch lo hi" using l(2) by (simp add: emptyInv_def ws'_def)
  moreover have "\<forall>w\<in>set ws'. okSized P w \<and> staleKeys P w \<subseteq> insert (NULL_KEY P) (keyOfValue P ` set (slice batch lo hi))"
    using l(2) cur by (auto simp: emptyInv_def ws'_def)
  ultimately show ?thesis by blast
qed

section \<open>Properties\<close>

text \<open>An array with three entries, one of them empty, and a free buffer.\<close>

definition demoBuffered :: "(nat, nat) sds" where
  "demoBuffered = (demoSds demoEntries)\<lparr>bufferCapacity := 10, bufferArray := replicate 10 (emptyEntry (demoParams False))\<rparr>"

lemma demoBuffered_sel [simp]:
  "sdsSize demoBuffered = 3" "pma demoBuffered = demoEntries" "bufferArray demoBuffered = replicate 10 (emptyEntry (demoParams False))"
  "bufferPointers demoBuffered = [emptyInterval, emptyInterval, emptyInterval]" "recountingNodesMap demoBuffered = newBucketMap 1"
  "bufferCapacity demoBuffered = 10"
  by (auto simp: demoBuffered_def demoSds_def demoEntries_def makePointers_def numeral_3_eq_3)

lemma less_three: "j < 3 \<longleftrightarrow> j = 0 \<or> j = 1 \<or> j = (2::nat)"
  by auto

lemma demoBuffered_entry:
  assumes "j < 3"
  shows "unbuffered demoBuffered j" "entryContent demoBuffered j = elems (demoEntries ! j)" "bufferedAt demoBuffered j = []"
    "bufferPointers demoBuffered ! j = emptyInterval"
  using assms unfolding less_three by (auto simp: unbuffered_def entryContent_def bufferedAt_def)

lemma demoBuffered_content [simp]: "rangeContent demoBuffered 0 3 = [1, 2, 5, 7, 8]"
  by (simp add: rangeContent_def upt_rec demoBuffered_entry demoEntries_def)

lemma demoBlock_stale: "length xs \<le> 4 \<Longrightarrow> staleKeys (demoParams nd) (demoBlock xs) \<subseteq> {0}"
  by (auto simp: staleKeys_def stale_def demoBlock_def cellsOf_def)

lemma demoEntries_ok: "b \<in> set demoEntries \<Longrightarrow> b = emptyEntry (demoParams False) \<or> okSized (demoParams False) b"
  by (auto simp: demoEntries_def okSized_def)

lemma demoEntries_stale: "b \<in> set demoEntries \<Longrightarrow> staleKeys (demoParams False) b \<subseteq> {0}"
  using demoBlock_stale [of "[1, 2]" False] demoBlock_stale [of "[5, 7, 8]" False] by (auto simp: demoEntries_def)

lemma demoBuffered_wf: "wfBuffered (demoParams False) demoBuffered"
proof -
  have "wfPma (demoParams False) demoBuffered"
    using demoSds_wf(1) by (simp add: demoBuffered_def wfPma_def usedEntries_def)
  moreover have len: "length demoEntries = 3" by (simp add: demoEntries_def)
  moreover have "iright (bufferPointers demoBuffered ! j) \<le> int (length (bufferArray demoBuffered)) \<and>
      (pma demoBuffered ! j = emptyEntry (demoParams False) \<or> okSized (demoParams False) (pma demoBuffered ! j)) \<and>
      bufferedAt demoBuffered j = [] \<and> staleKeys (demoParams False) (pma demoBuffered ! j) \<subseteq> {0}" if "j < 3" for j
    using that len demoEntries_ok [of "demoEntries ! j"] demoEntries_stale [of "demoEntries ! j"] nth_mem [of j demoEntries]
    by (simp add: demoBuffered_entry del: demoBuffered_sel(4))
  ultimately show ?thesis unfolding wfBuffered_def by simp (blast dest: subset_singletonD)
qed


lemma demoBuffered_free: "n \<le> 10 \<Longrightarrow> freeBuffer demoBuffered 0 n"
  by (simp add: freeBuffer_def emptyEntry_def)

text \<open>C4. Inserting the elements of a non-empty range of a sorted batch into the blocks of a range of the array
  always succeeds with at most two new blocks per element, in the buffer area reserved for it. The array
  stays valid, the elements it stores, read in order, are the old ones with the batch elements inserted into
  the sorted sequence (an element whose key is stored already is dropped), and no block outside the range
  changes.
\<close>

theorem insertBatchRange_inserts:
  assumes "insSetting P S batch lo hi L M" and "lo < hi"
    and "bmInv R (recountingNodesMap S)" and "freeBuffer S start (2 * (hi - lo))"
  shows "\<exists>k S'. insertBatchRange P R batch (mkInterval (int lo) (int hi)) (mkInterval (int L) (int M))
        (mkInterval (int start) (int start + 2 * int (hi - lo))) S = Some (int k, S') \<and> k \<le> 2 * (hi - lo) \<and>
     wfBuffered P S' \<and> content S' = fold (insKey (keyOfValue P)) (slice batch lo hi) (content S) \<and>
     (\<forall>j<nat (sdsSize S). j < L \<or> M \<le> j \<longrightarrow> pma S' ! j = pma S ! j \<and> entryContent S' j = entryContent S j)"
  using insertBatchRange_ok [OF assms] unfolding insInv_def by blast

lemma demoBuffered_setting: "insSetting (demoParams False) demoBuffered [3, 4, 6, 9, 10] 0 5 0 3"
  using demoBuffered_wf by (auto simp: insSetting_def demoBuffered_entry demoEntries_def demoBlock_def emptyEntry_def)

theorem insertBatchRange_inserts_witness:
  "\<exists>k S'. insertBatchRange (demoParams False) demoRuntime [3, 4, 6, 9, 10] (mkInterval 0 5) (mkInterval 0 3)
     (mkInterval 0 10) demoBuffered = Some (int k, S') \<and> wfBuffered (demoParams False) S' \<and>
     content S' = [1, 2, 3, 4, 5, 6, 7, 8, 9, 10]"
  using insertBatchRange_inserts [OF demoBuffered_setting, of demoRuntime 0] demoBuffered_free [of 10]
    bmInv_new [of 1 demoRuntime]
  by (auto simp: slice_def)

text \<open>C16. Filling an empty range of the array: the elements of the range of the batch are distributed, in order
  and each exactly once, over new blocks of legal sizes in the buffer, the entry points to exactly those
  blocks, and the operation terminates.
\<close>

theorem insertIntoEmptyRange_fills:
  assumes "emptySetting P batch lo hi" and "x < length (bufferPointers S)"
    and "bmInv R (recountingNodesMap S)" and "freeBuffer S start (2 * (hi - lo))"
  shows "\<exists>ws S'. insertBatchRange P R batch (mkInterval (int lo) (int hi)) (mkInterval (int x) (int x))
        (mkInterval (int start) (int start + 2 * int (hi - lo))) S = Some (int (length ws), S') \<and>
     bufferedAt S' x = ws \<and> entriesElems ws = slice batch lo hi \<and> (\<forall>w\<in>set ws. okSized P w) \<and>
     bufferPointers S' ! x = mkInterval (int start) (int start + int (length ws))"
proof -
  obtain ws S' where ws: "insertBatchRange P R batch (mkInterval (int lo) (int hi)) (mkInterval (int x) (int x))
        (mkInterval (int start) (int start + 2 * int (hi - lo))) S = Some (int (length ws), S')"
      "written P R (int x) start ws (S\<lparr>bufferPointers := (bufferPointers S)[x := mkInterval (int start) (int start + int (length ws))]\<rparr>) S'"
      "bufferedAt S' x = ws" "entriesElems ws = slice batch lo hi" "\<forall>w\<in>set ws. okSized P w"
    using insertIntoEmptyRange_ok [OF assms] by blast
  moreover have "bufferPointers S' ! x = mkInterval (int start) (int start + int (length ws))"
    using ws(2) assms(2) by (auto simp: written_def)
  ultimately show ?thesis by blast
qed

theorem insertIntoEmptyRange_fills_witness:
  "\<exists>ws S'. insertBatchRange (demoParams False) demoRuntime [3, 4, 6, 9, 10] (mkInterval 0 5) (mkInterval 1 1)
     (mkInterval 0 10) demoBuffered = Some (int (length ws), S') \<and> bufferedAt S' 1 = ws \<and> entriesElems ws = [3, 4, 6, 9, 10]"
  using insertIntoEmptyRange_fills [of "demoParams False" "[3, 4, 6, 9, 10]" 0 5 1 demoBuffered demoRuntime 0] demoBuffered_free [of 10]
    bmInv_new [of 1 demoRuntime]
  by (auto simp: slice_def emptySetting_def)

end
