(* ===== verification/Iterators.thy ===== *)
theory Iterators
  imports Queries
begin

text \<open>
  The remaining operators of \<open>BlockSparseArrayIterator\<close> (\<open>iterators.hpp\<close>), and the class \<open>SparseArrayIterator\<close> of the same file.

  The decrement operators call \<open>sds_->block(i)\<close>. No array class of the repository has this function, so it is a
  parameter \<open>blockOf\<close> here. \<open>SparseArrayIterator\<close> is a template over an array with one element per entry; what it uses of
  that array (\<open>data\<close>, \<open>empty\<close>, \<open>activeStart\<close>, \<open>activeEnd\<close>) is the record \<open>sparseView\<close>.
\<close>

section \<open>Moving back\<close>

definition itFindPrevious :: "('k, 'v) arrayView \<Rightarrow> (int \<Rightarrow> ('k, 'v) PmaEntry option) \<Rightarrow> blockIter \<Rightarrow> blockIter option" where
  "itFindPrevious A blockOf it =
     (if itElement it > 0 then Some (it\<lparr>itElement := itElement it - 1\<rparr>)
      else do {
        b \<leftarrow> skipEmptyDown A 0 (itBlock it - 1);
        e \<leftarrow> blockOf b;
        Some (mkIter b (int (bsize e) - 1)) })"

text \<open>As for the increments, the prefix operator returns the old position and the postfix operator the new one.\<close>

definition itPrefixDec :: "('k, 'v) arrayView \<Rightarrow> (int \<Rightarrow> ('k, 'v) PmaEntry option) \<Rightarrow> blockIter \<Rightarrow> (blockIter \<times> blockIter) option" where
  "itPrefixDec A blockOf it = do { it' \<leftarrow> itFindPrevious A blockOf it; Some (it, it') }"

definition itPostfixDec :: "('k, 'v) arrayView \<Rightarrow> (int \<Rightarrow> ('k, 'v) PmaEntry option) \<Rightarrow> blockIter \<Rightarrow> (blockIter \<times> blockIter) option" where
  "itPostfixDec A blockOf it = do { it' \<leftarrow> itFindPrevious A blockOf it; Some (it', it') }"

section \<open>Comparison\<close>

text \<open>The first argument says whether both iterators belong to the same array.\<close>

definition itEqual :: "bool \<Rightarrow> blockIter \<Rightarrow> blockIter \<Rightarrow> bool" where
  "itEqual sameSds it other \<longleftrightarrow> sameSds \<and> itBlock it = itBlock other \<and> itElement it = itElement other"

definition itNotEqual :: "bool \<Rightarrow> blockIter \<Rightarrow> blockIter \<Rightarrow> bool" where
  "itNotEqual sameSds it other \<longleftrightarrow> \<not> sameSds \<or> itBlock it \<noteq> itBlock other \<or> itElement it \<noteq> itElement other"

lemma itNotEqual_iff [simp]: "itNotEqual same it other \<longleftrightarrow> \<not> itEqual same it other"
  by (auto simp: itEqual_def itNotEqual_def)

lemma itEqual_same: "itEqual True it other \<longleftrightarrow> it = other"
  by (cases it; cases other) (simp add: itEqual_def)

section \<open>Iterators over arrays without blocks\<close>

record 'v sparseView =
  svData :: "int \<Rightarrow> 'v option"
  svEmpty :: "int \<Rightarrow> bool option"
  activeStart :: int
  activeEnd :: int

function saFindNext :: "'v sparseView \<Rightarrow> int \<Rightarrow> int option" where
  "saFindNext A index =
     (if index + 1 < activeEnd A
      then do { e \<leftarrow> svEmpty A (index + 1); if e then saFindNext A (index + 1) else Some (index + 1) }
      else Some (index + 1))"
  by pat_completeness auto
termination
  by (relation "measure (\<lambda>(A, index). nat (activeEnd A - index))") auto

declare saFindNext.simps [simp del]

function saFindPrevious :: "'v sparseView \<Rightarrow> int \<Rightarrow> int option" where
  "saFindPrevious A index =
     (if index - 1 > activeStart A
      then do { e \<leftarrow> svEmpty A (index - 1); if e then saFindPrevious A (index - 1) else Some (index - 1) }
      else Some (index - 1))"
  by pat_completeness auto
termination
  by (relation "measure (\<lambda>(A, index). nat (index - activeStart A))") auto

declare saFindPrevious.simps [simp del]

definition saPrefixInc :: "'v sparseView \<Rightarrow> int \<Rightarrow> (int \<times> int) option" where
  "saPrefixInc A index = do { i \<leftarrow> saFindNext A index; Some (index, i) }"

definition saPostfixInc :: "'v sparseView \<Rightarrow> int \<Rightarrow> (int \<times> int) option" where
  "saPostfixInc A index = do { i \<leftarrow> saFindNext A index; Some (i, i) }"

definition saPrefixDec :: "'v sparseView \<Rightarrow> int \<Rightarrow> (int \<times> int) option" where
  "saPrefixDec A index = do { i \<leftarrow> saFindPrevious A index; Some (index, i) }"

definition saPostfixDec :: "'v sparseView \<Rightarrow> int \<Rightarrow> (int \<times> int) option" where
  "saPostfixDec A index = do { i \<leftarrow> saFindPrevious A index; Some (i, i) }"

definition saDeref :: "'v sparseView \<Rightarrow> int \<Rightarrow> 'v option" where
  "saDeref A index = svData A index"

definition saEqual :: "bool \<Rightarrow> int \<Rightarrow> int \<Rightarrow> bool" where
  "saEqual sameSds index other \<longleftrightarrow> sameSds \<and> index = other"

definition saNotEqual :: "bool \<Rightarrow> int \<Rightarrow> int \<Rightarrow> bool" where
  "saNotEqual sameSds index other \<longleftrightarrow> \<not> sameSds \<or> index \<noteq> other"

section \<open>Moving back after moving on\<close>

context block_store
begin

lemma skipEmptyDown_to:
  assumes "0 \<le> b" "b \<le> c" "c < int (length es)" "usedIn es b" "\<And>i. b < i \<Longrightarrow> i \<le> c \<Longrightarrow> \<not> usedIn es i"
  shows "skipEmptyDown A 0 c = Some b"
  using assms(2,3,5)
proof (induction "nat (c - b)" arbitrary: c)
  case 0
  then have "c = b" by simp
  then show ?case using assms(4) store_empty [of b] 0 by (subst skipEmptyDown.simps) (auto simp: usedIn_def)
next
  case (Suc n)
  then have c: "b < c" by simp
  have "avEmpty A c = Some True" using store_empty [of c] Suc.prems(2,3) c assms(1) by (auto simp: usedIn_def)
  moreover have "skipEmptyDown A 0 (c - 1) = Some b" using Suc.hyps(1) [of "c - 1"] Suc.hyps(2) Suc.prems c by simp
  ultimately show ?case using c assms(1) by (subst skipEmptyDown.simps) simp
qed

text \<open>If \<open>block(i)\<close> is the entry at \<open>i\<close>, the decrement takes back the increment at every element of the array, the last one included.\<close>

lemma previous_next:
  assumes "usedIn es (itBlock it)" "0 \<le> itElement it" "itElement it < int (bsize (es ! nat (itBlock it)))"
  shows "\<exists>it'. itFindNext A it = Some it' \<and> itFindPrevious A (avEntry A) it' = Some it"
proof -
  note u = used_block [OF assms(1)]
  have sz: "avBlockSize A (itBlock it) = Some (bsize (es ! nat (itBlock it)))" using u(4) by (simp add: avBlockSize_def)
  show ?thesis
  proof (cases "itElement it + 1 < int (bsize (es ! nat (itBlock it)))")
    case True
    then show ?thesis using sz assms(2) by (cases it) (auto simp: itFindNext_def itFindPrevious_def)
  next
    case False
    obtain r where r: "skipEmpty A (int (length es)) (itBlock it + 1) = Some r" "itBlock it + 1 \<le> r" "r \<le> max (itBlock it + 1) (int (length es))"
      "\<forall>i. itBlock it + 1 \<le> i \<and> i < r \<longrightarrow> \<not> usedIn es i"
      using skipEmpty_ok [of "itBlock it + 1" "int (length es)"] u by auto
    have "skipEmptyDown A 0 (r - 1) = Some (itBlock it)" using r u assms(1) by (intro skipEmptyDown_to) auto
    then have "itFindPrevious A (avEntry A) (mkIter r 0) = Some (mkIter (itBlock it) (int (bsize (es ! nat (itBlock it))) - 1))"
      using u(4) by (simp add: itFindPrevious_def)
    moreover have "mkIter (itBlock it) (int (bsize (es ! nat (itBlock it))) - 1) = it" using False assms(3) by (cases it) (simp add: mkIter_def)
    ultimately show ?thesis using sz False r(1) store_size by (auto simp: itFindNext_def)
  qed
qed

end

end
