(* ===== verification/Rebalance_Cells.thy ===== *)
theory Rebalance_Cells
  imports Insert_Batch Insertion_Range
begin

text \<open>
  The blocks of the buffered array as one sequence of cells: an entry of the array is followed by the part of the buffer that its
  pointers give. \<open>rebalanceLoop\<close> of theory \<open>Rebalance_Exec\<close> visits the cells of a range in this order and moves the filled ones to
  the swap array; the blocks of a task are the filled cells of its range, and \<open>findBlockInRebalancingTask\<close> finds the position of
  each of them.
\<close>

section \<open>The cells of a range\<close>

text \<open>A place for a block: an entry of the array, or a position of the buffer.\<close>

datatype cell = ArrayCell nat | BufferCell nat

primrec isBufferCell :: "cell \<Rightarrow> bool" where
  "isBufferCell (ArrayCell j) = False"
| "isBufferCell (BufferCell i) = True"

primrec cellAt :: "('k, 'v) sds \<Rightarrow> cell \<Rightarrow> ('k, 'v) PmaEntry" where
  "cellAt S (ArrayCell j) = pma S ! j"
| "cellAt S (BufferCell i) = bufferArray S ! i"

definition entryCells :: "Interval list \<Rightarrow> nat \<Rightarrow> cell list" where
  "entryCells ps j = ArrayCell j # map BufferCell [nat (ileft (ps ! j))..<nat (iright (ps ! j))]"

text \<open>The place of an extended index among the cells of its entry: \<open>-1\<close> is in front of the array cell.\<close>

definition offs :: "ExtendedPmaIndex \<Rightarrow> nat" where
  "offs x = nat (bufferIndex x + 1)"

text \<open>The cells from one extended index to another one, and from the beginning of a range.\<close>

function cellsFrom :: "Interval list \<Rightarrow> ExtendedPmaIndex \<Rightarrow> ExtendedPmaIndex \<Rightarrow> cell list" where
  "cellsFrom ps x y =
     (if x < y
      then if pmaIndex x = pmaIndex y then take (offs y - offs x) (drop (offs x) (entryCells ps (nat (pmaIndex x))))
           else drop (offs x) (entryCells ps (nat (pmaIndex x))) @ cellsFrom ps (ExtendedPmaIndex (pmaIndex x + 1) (-1)) y
      else [])"
  by pat_completeness auto
termination
  by (relation "measure (\<lambda>(ps, x, y). nat (pmaIndex y + 1 - pmaIndex x))")
    (auto simp: less_ExtendedPmaIndex_def ExtendedPmaIndex_less_def)

declare cellsFrom.simps [simp del]

definition cellsBefore :: "Interval list \<Rightarrow> nat \<Rightarrow> ExtendedPmaIndex \<Rightarrow> cell list" where
  "cellsBefore ps a x = concat (map (entryCells ps) [a..<nat (pmaIndex x)]) @ take (offs x) (entryCells ps (nat (pmaIndex x)))"

lemma offs_start [simp]: "offs (ExtendedPmaIndex p (-1)) = 0"
  by (simp add: offs_def)

lemma cellsBefore_start: "cellsBefore ps a (ExtendedPmaIndex (int b) (-1)) = concat (map (entryCells ps) [a..<b])"
  by (simp add: cellsBefore_def)

lemma cellsBefore_next:
  assumes "int a \<le> p"
  shows "cellsBefore ps a (ExtendedPmaIndex (p + 1) (-1)) = concat (map (entryCells ps) [a..<nat p]) @ entryCells ps (nat p)"
proof -
  have "nat (p + 1) = Suc (nat p)" "a \<le> nat p" using assms by linarith+
  then show ?thesis by (simp add: cellsBefore_def)
qed

lemma cellsBefore_from:
  assumes "x \<le> y" "int a \<le> pmaIndex x" "-1 \<le> bufferIndex x" "-1 \<le> bufferIndex y"
  shows "cellsBefore ps a y = cellsBefore ps a x @ cellsFrom ps x y"
  using assms
proof (induction ps x y rule: cellsFrom.induct)
  case (1 ps x y)
  let ?C = "concat (map (entryCells ps) [a..<nat (pmaIndex x)])" and ?E = "entryCells ps (nat (pmaIndex x))"
  consider "x = y" | "x < y" "pmaIndex x = pmaIndex y" | "x < y" "pmaIndex x < pmaIndex y"
    using 1(2) by (auto simp: less_eq_ExtendedPmaIndex_def less_ExtendedPmaIndex_def ExtendedPmaIndex_less_def)
  then show ?case
  proof cases
    case 1
    then show ?thesis by (simp add: cellsFrom.simps)
  next
    case 2
    then have "bufferIndex x < bufferIndex y" by (simp add: less_ExtendedPmaIndex_def ExtendedPmaIndex_less_def)
    then have "offs y = offs x + (offs y - offs x)" by (simp add: offs_def)
    then have "take (offs y) ?E = take (offs x) ?E @ take (offs y - offs x) (drop (offs x) ?E)" by (metis take_add)
    then show ?thesis using 2 by (simp add: cellsFrom.simps [of ps x y] cellsBefore_def)
  next
    case 3
    let ?x = "ExtendedPmaIndex (pmaIndex x + 1) (-1)"
    have "?x \<le> y" using 3(2) 1(5)
      by (cases y) (auto simp: less_eq_ExtendedPmaIndex_def less_ExtendedPmaIndex_def ExtendedPmaIndex_less_def)
    then have "cellsBefore ps a y = cellsBefore ps a ?x @ cellsFrom ps ?x y" using 1(1,3,5) 3 by simp
    also have "cellsBefore ps a ?x = ?C @ take (offs x) ?E @ drop (offs x) ?E" using cellsBefore_next [OF 1(3), of ps] by simp
    finally show ?thesis using 3 by (simp add: cellsFrom.simps [of ps x y] cellsBefore_def)
  qed
qed

section \<open>Moving the blocks of cells\<close>

text \<open>One block of a cell goes to the next dense position of the swap array and leaves its cell empty.\<close>

definition moveCell ::
  "('k, 'v) tparams \<Rightarrow> Interval \<Rightarrow> int \<Rightarrow> cell \<Rightarrow> int \<times> ('k, 'v) sds \<Rightarrow> (int \<times> ('k, 'v) sds) option" where
  "moveCell P region out c = (\<lambda>(n, S). case c of
       ArrayCell j \<Rightarrow> do {
         e \<leftarrow> emptyAt P S (int j);
         if \<not> e
         then do {
           b \<leftarrow> idx (pma S) (int j);
           S \<leftarrow> writeToSwap P region out n b S;
           S \<leftarrow> setPma (int j) (emptyEntry P) S;
           Some (n + 1, S) }
         else Some (n, S) }
     | BufferCell i \<Rightarrow> do {
         b \<leftarrow> idx (bufferArray S) (int i);
         assertMsg (NDEBUG P) ((bsize b = 0) = (head b = NULL_KEY P));
         assertMsg (NDEBUG P) ((bsize b = 0) = (block b = None));
         if bsize b > 0
         then do {
           S \<leftarrow> writeToSwap P region out n b S;
           S \<leftarrow> setBuffer (int i) (emptyEntry P) S;
           Some (n + 1, S\<lparr>bufferReads := bufferReads S + 1\<rparr>) }
         else Some (n, S) })"

lemma moveBufferBlocks_cells:
  assumes "0 \<le> l"
  shows "moveBufferBlocks P region out l r s = foldM (moveCell P region out) (map BufferCell [nat l..<nat r]) s"
proof -
  have e: "[l..r - 1] = map int [nat l..<nat r]"
  proof (rule nth_equalityI)
    show "length [l..r - 1] = length (map int [nat l..<nat r])" using assms by simp
    show "[l..r - 1] ! i = map int [nat l..<nat r] ! i" if "i < length [l..r - 1]" for i using that assms by (simp add: nth_upto)
  qed
  have m: "foldM f (map int xs) s = foldM g (map BufferCell xs) s" if "\<And>i s. f (int i) s = g (BufferCell i) s" for f g xs s
    using that by (induction xs arbitrary: s) (auto split: bind_splits)
  show ?thesis unfolding moveBufferBlocks_def for_range_def e by (rule m) (simp add: moveCell_def split_beta')
qed

lemma moveCell_pointers: "moveCell P region out c s = Some s' \<Longrightarrow> bufferPointers (snd s') = bufferPointers (snd s)"
  by (auto simp: moveCell_def writeToSwap_def setSwap_def setPma_def setBuffer_def Let_def split: cell.splits if_splits bind_splits prod.splits)

lemma moveCells_pointers: "foldM (moveCell P region out) cs s = Some s' \<Longrightarrow> bufferPointers (snd s') = bufferPointers (snd s)"
proof (induction cs arbitrary: s)
  case (Cons c cs)
  then obtain s1 where "moveCell P region out c s = Some s1" "foldM (moveCell P region out) cs s1 = Some s'" by (auto split: bind_splits)
  then show ?case using Cons.IH moveCell_pointers by metis
qed simp

text \<open>The pointers of all entries address the buffer.\<close>

definition okPointers :: "('k, 'v) sds \<Rightarrow> bool" where
  "okPointers S \<longleftrightarrow> (\<forall>j<length (bufferPointers S). 0 \<le> ileft (bufferPointers S ! j) \<and> ileft (bufferPointers S ! j) \<le> iright (bufferPointers S ! j))"

lemma entryCells_part:
  assumes "0 \<le> ileft (ps ! j)" "ileft (ps ! j) \<le> iright (ps ! j)" "0 \<le> k" "k \<le> int m" "ileft (ps ! j) + int m \<le> iright (ps ! j)"
  shows "take (m + 1 - nat (k + 1)) (drop (nat (k + 1)) (entryCells ps j)) = map BufferCell [nat (ileft (ps ! j) + k)..<nat (ileft (ps ! j) + int m)]"
proof -
  obtain l r k' where n: "ileft (ps ! j) = int l" "iright (ps ! j) = int r" "k = int k'" using assms(1-3) by (metis nonneg_int_cases order_trans)
  have e: "nat (int l + int k') = l + k'" "nat (int l + int m) = l + m" "nat (int k' + 1) = Suc k'" by linarith+
  have "take (m - k') [l + k'..<r] = [l + k'..<l + m]" using assms(4,5) n by (simp add: take_upt)
  then show ?thesis using n e by (simp add: entryCells_def drop_map take_map)
qed

lemma entryCells_rest:
  assumes "0 \<le> ileft (ps ! j)" "0 \<le> k"
  shows "drop (nat (k + 1)) (entryCells ps j) = map BufferCell [nat (ileft (ps ! j) + k)..<nat (iright (ps ! j))]"
proof -
  obtain l k' where n: "ileft (ps ! j) = int l" "k = int k'" using assms by (metis nonneg_int_cases)
  have e: "nat (int l + int k') = l + k'" "nat (int k' + 1) = Suc k'" by linarith+
  then show ?thesis using n e by (simp add: entryCells_def drop_map)
qed

text \<open>The positions that the code uses: in front of the array cell, or inside the buffered blocks of the entry.\<close>

definition okPosition :: "Interval list \<Rightarrow> ExtendedPmaIndex \<Rightarrow> bool" where
  "okPosition ps x \<longleftrightarrow> 0 \<le> pmaIndex x \<and> pmaIndex x \<le> int (length ps) \<and>
     (bufferIndex x = -1 \<or> 0 \<le> bufferIndex x \<and> pmaIndex x < int (length ps) \<and>
        ileft (ps ! nat (pmaIndex x)) + bufferIndex x < iright (ps ! nat (pmaIndex x)))"

lemma okPosition_start [simp]: "okPosition ps (ExtendedPmaIndex p (-1)) \<longleftrightarrow> 0 \<le> p \<and> p \<le> int (length ps)"
  by (auto simp: okPosition_def)

text \<open>The loop of \<open>rebalanceBlocks\<close> moves the blocks of the cells between its two indices.\<close>

lemma cellsFrom_entry:
  assumes lr: "0 \<le> ileft (ps ! j)" "ileft (ps ! j) \<le> iright (ps ! j)" and xy: "x < y" "pmaIndex x = int j"
    and pos: "okPosition ps x" "okPosition ps y"
  shows "cellsFrom ps x y = (if bufferIndex x = -1 then [ArrayCell j] else []) @
     map BufferCell [nat (ileft (ps ! j) + (if bufferIndex x = -1 then 0 else bufferIndex x))..<
       nat (if pmaIndex x = pmaIndex y then ileft (ps ! j) + bufferIndex y else iright (ps ! j))] @
     (if pmaIndex x = pmaIndex y then [] else cellsFrom ps (ExtendedPmaIndex (int j + 1) (-1)) y)"
proof (cases "pmaIndex x = pmaIndex y")
  case False
  have bx: "bufferIndex x = -1 \<or> 0 \<le> bufferIndex x" using pos(1) by (auto simp: okPosition_def)
  then have "drop (offs x) (entryCells ps j) = (if bufferIndex x = -1 then [ArrayCell j] else []) @
     map BufferCell [nat (ileft (ps ! j) + (if bufferIndex x = -1 then 0 else bufferIndex x))..<nat (iright (ps ! j))]"
    using entryCells_rest [OF lr(1), of "bufferIndex x"] by (auto simp: offs_def entryCells_def)
  then show ?thesis using False xy by (subst cellsFrom.simps) simp
next
  case True
  then have b: "bufferIndex x < bufferIndex y" using xy(1) by (simp add: less_ExtendedPmaIndex_def ExtendedPmaIndex_less_def)
  define m where "m = nat (bufferIndex y)"
  have nj: "nat (pmaIndex y) = j" using True xy(2) by simp
  have y: "bufferIndex y = int m" "ileft (ps ! j) + int m \<le> iright (ps ! j)"
    using pos(2) b pos(1) unfolding okPosition_def nj m_def by auto
  have nm: "nat (bufferIndex y + 1) = m + 1" using y(1) by simp
  have "take (offs y - offs x) (drop (offs x) (entryCells ps j)) = (if bufferIndex x = -1 then [ArrayCell j] else []) @
     map BufferCell [nat (ileft (ps ! j) + (if bufferIndex x = -1 then 0 else bufferIndex x))..<nat (ileft (ps ! j) + int m)]"
  proof (cases "bufferIndex x = -1")
    case True
    have "take m [nat (ileft (ps ! j))..<nat (iright (ps ! j))] = [nat (ileft (ps ! j))..<nat (ileft (ps ! j)) + m]"
      using y(2) lr by (intro take_upt) simp
    moreover have "nat (ileft (ps ! j) + int m) = nat (ileft (ps ! j)) + m" using lr(1) by simp
    ultimately show ?thesis using True nm by (simp add: offs_def entryCells_def take_map)
  next
    case False
    then have "0 \<le> bufferIndex x" "bufferIndex x \<le> int m" using pos(1) b y(1) by (auto simp: okPosition_def)
    then show ?thesis using entryCells_part [OF lr _ _ y(2)] False nm by (simp add: offs_def)
  qed
  then show ?thesis using True xy y(1) nj by (subst cellsFrom.simps) simp
qed

lemma rebalanceLoop_cells:
  assumes "okPointers S" "okPosition (bufferPointers S) x" "okPosition (bufferPointers S) y"
  shows "rebalanceLoop P region out y x n S = foldM (moveCell P region out) (cellsFrom (bufferPointers S) x y) (n, S)"
  using assms
proof (induction "nat (pmaIndex y + 1 - pmaIndex x)" arbitrary: x n S rule: less_induct)
  case less
  let ?f = "moveCell P region out" and ?ps = "bufferPointers S"
  show ?case
  proof (cases "x < y")
    case False
    then show ?thesis by (simp add: rebalanceLoop.simps [of _ _ _ y x] cellsFrom.simps [of _ x y])
  next
    case True
    define j where "j = nat (pmaIndex x)"
    have j: "pmaIndex x = int j" "j < length ?ps" "int j \<le> pmaIndex y"
      using True less(3,4) by (auto simp: okPosition_def j_def less_ExtendedPmaIndex_def ExtendedPmaIndex_less_def)
    have lr: "0 \<le> ileft (?ps ! j)" "ileft (?ps ! j) \<le> iright (?ps ! j)" using less(2) j(2) by (auto simp: okPointers_def)
    define hd where "hd = (if bufferIndex x = -1 then [ArrayCell j] else [])"
    define off where "off = (if bufferIndex x = -1 then 0 else bufferIndex x)"
    define stop where "stop = (if pmaIndex x = pmaIndex y then ileft (?ps ! j) + bufferIndex y else iright (?ps ! j))"
    define bufs where "bufs = map BufferCell [nat (ileft (?ps ! j) + off)..<nat stop]"
    let ?x = "ExtendedPmaIndex (int j + 1) (-1)"
    have cs: "cellsFrom ?ps x y = hd @ bufs @ cellsFrom ?ps ?x y"
    proof -
      have "cellsFrom ?ps ?x y = []" if "pmaIndex x = pmaIndex y"
        using that j(1) by (subst cellsFrom.simps) (simp add: less_ExtendedPmaIndex_def ExtendedPmaIndex_less_def)
      then show ?thesis
        using cellsFrom_entry [OF lr True j(1) less(3,4)] unfolding hd_def bufs_def off_def stop_def by (simp split: if_splits)
    qed
    have off0: "0 \<le> ileft (?ps ! j) + off" using lr less(3) by (auto simp: off_def okPosition_def)
    have rec: "rebalanceLoop P region out y ?x n' S' = foldM ?f (cellsFrom ?ps ?x y) (n', S')" if ps: "bufferPointers S' = ?ps" for n' S'
    proof -
      have "nat (pmaIndex y + 1 - pmaIndex ?x) < nat (pmaIndex y + 1 - pmaIndex x)" using j by simp
      then show ?thesis using less(1) [of ?x S' n'] less(2,4) ps j by (auto simp: okPointers_def)
    qed
    have head: "(if bufferIndex x = -1
           then do {
             e \<leftarrow> emptyAt P S (pmaIndex x);
             (n, S) \<leftarrow>
               (if \<not> e
                then do {
                  b \<leftarrow> idx (pma S) (pmaIndex x);
                  S \<leftarrow> writeToSwap P region out n b S;
                  S \<leftarrow> setPma (pmaIndex x) (emptyEntry P) S;
                  Some (n + 1, S) }
                else Some (n, S));
             Some (0, n, S) }
           else Some (bufferIndex x, n, S)) = foldM ?f hd (n, S) \<bind> (\<lambda>(n, S). Some (off, n, S))"
      unfolding hd_def off_def j(1) by (simp add: moveCell_def case_prod_unfold cong: if_cong)
    show ?thesis
    proof (cases "foldM ?f hd (n, S)")
      case None
      then show ?thesis using True by (simp add: rebalanceLoop.simps [of _ _ _ y x] head cs)
    next
      case (Some s1)
      obtain n1 S1 where s1: "s1 = (n1, S1)" by fastforce
      have ps1: "bufferPointers S1 = ?ps" using moveCells_pointers [OF Some] by (simp add: s1)
      have mv: "moveBufferBlocks P region out (ileft (?ps ! j) + off) stop (n1, S1) = foldM ?f bufs (n1, S1)"
        using moveBufferBlocks_cells [OF off0] by (simp add: bufs_def)
      have *: "rebalanceLoop P region out y x n S =
          moveBufferBlocks P region out (ileft (?ps ! j) + off) stop (n1, S1) \<bind> (\<lambda>(n, S). rebalanceLoop P region out y ?x n S)"
        using True Some j by (simp add: rebalanceLoop.simps [of _ _ _ y x] head s1 ps1 stop_def Let_def)
      show ?thesis
      proof (cases "foldM ?f bufs (n1, S1)")
        case None
        then show ?thesis using Some by (simp add: * mv cs s1)
      next
        case (Some s2)
        obtain n2 S2 where s2: "s2 = (n2, S2)" by fastforce
        have "bufferPointers S2 = ?ps" using moveCells_pointers [OF Some] ps1 by (simp add: s2)
        then show ?thesis using Some \<open>foldM ?f hd (n, S) = Some s1\<close> by (simp add: * mv cs s1 s2 rec)
      qed
    qed
  qed
qed

text \<open>The state in which the cells \<open>C\<close> were emptied.\<close>

definition cleared :: "('k, 'v) tparams \<Rightarrow> cell set \<Rightarrow> ('k, 'v) sds \<Rightarrow> ('k, 'v) sds" where
  "cleared P C S = S\<lparr>pma := map (\<lambda>j. if ArrayCell j \<in> C then emptyEntry P else pma S ! j) [0..<length (pma S)],
     bufferArray := map (\<lambda>i. if BufferCell i \<in> C then emptyEntry P else bufferArray S ! i) [0..<length (bufferArray S)]\<rparr>"

primrec hasCell :: "('k, 'v) sds \<Rightarrow> cell \<Rightarrow> bool" where
  "hasCell S (ArrayCell j) = (j < length (pma S))"
| "hasCell S (BufferCell i) = (i < length (bufferArray S))"

text \<open>The entries behind the size, which the code takes to be empty without looking at them.\<close>

primrec beyond :: "('k, 'v) sds \<Rightarrow> cell \<Rightarrow> bool" where
  "beyond S (ArrayCell j) = (sdsSize S \<le> int j)"
| "beyond S (BufferCell i) = False"

definition okCell :: "('k::linorder, 'v) tparams \<Rightarrow> ('k, 'v) sds \<Rightarrow> cell \<Rightarrow> bool" where
  "okCell P S c \<longleftrightarrow> hasCell S c \<and> okEntry P (cellAt S c) \<and> (beyond S c \<longrightarrow> cellAt S c = emptyEntry P)"

definition filled :: "('k, 'v) sds \<Rightarrow> cell \<Rightarrow> bool" where
  "filled S c \<longleftrightarrow> \<not> isEmpty (cellAt S c)"

lemma cleared_sel [simp]:
  "length (pma (cleared P C S)) = length (pma S)" "length (bufferArray (cleared P C S)) = length (bufferArray S)"
  "bufferPointers (cleared P C S) = bufferPointers S" "swapPma (cleared P C S) = swapPma S" "sdsSize (cleared P C S) = sdsSize S"
  "bufferReads (cleared P C S) = bufferReads S" "hasCell (cleared P C S) c = hasCell S c" "beyond (cleared P C S) c = beyond S c"
  by (simp_all add: cleared_def) (cases c; simp)+

lemma cleared_at [simp]: "hasCell S c \<Longrightarrow> cellAt (cleared P C S) c = (if c \<in> C then emptyEntry P else cellAt S c)"
  by (cases c) (auto simp: cleared_def)

lemma cleared_none: "(\<And>c. c \<in> C \<Longrightarrow> hasCell S c \<Longrightarrow> cellAt S c = emptyEntry P) \<Longrightarrow> cleared P C S = S"
proof -
  assume e: "\<And>c. c \<in> C \<Longrightarrow> hasCell S c \<Longrightarrow> cellAt S c = emptyEntry P"
  have "map (\<lambda>j. if ArrayCell j \<in> C then emptyEntry P else pma S ! j) [0..<length (pma S)] = pma S"
    using e [of "ArrayCell _"] by (intro nth_equalityI) auto
  moreover have "map (\<lambda>i. if BufferCell i \<in> C then emptyEntry P else bufferArray S ! i) [0..<length (bufferArray S)] = bufferArray S"
    using e [of "BufferCell _"] by (intro nth_equalityI) auto
  ultimately show ?thesis by (simp add: cleared_def)
qed

lemma cleared_empty [simp]: "cleared P {} S = S"
  by (rule cleared_none) simp

lemma cleared_cleared: "cleared P C (cleared P D S) = cleared P (C \<union> D) S"
  by (auto simp: cleared_def intro!: nth_equalityI)

lemma cleared_updates [simp]:
  "cleared P C (S\<lparr>swapPma := w\<rparr>) = (cleared P C S)\<lparr>swapPma := w\<rparr>"
  "cleared P C (S\<lparr>bufferReads := r\<rparr>) = (cleared P C S)\<lparr>bufferReads := r\<rparr>"
  "cleared P C (S\<lparr>rebalancingManager := m\<rparr>) = (cleared P C S)\<lparr>rebalancingManager := m\<rparr>"
  "cleared P C (S\<lparr>bufferPointers := p\<rparr>) = (cleared P C S)\<lparr>bufferPointers := p\<rparr>"
  "cleared P C (S\<lparr>tasks := t\<rparr>) = (cleared P C S)\<lparr>tasks := t\<rparr>"
  by (simp_all add: cleared_def)

lemma cleared_one:
  "j < length (pma S) \<Longrightarrow> cleared P {ArrayCell j} S = S\<lparr>pma := (pma S)[j := emptyEntry P]\<rparr>"
  "i < length (bufferArray S) \<Longrightarrow> cleared P {BufferCell i} S = S\<lparr>bufferArray := (bufferArray S)[i := emptyEntry P]\<rparr>"
proof -
  assume "j < length (pma S)"
  then have "map (\<lambda>k. if k = j then emptyEntry P else pma S ! k) [0..<length (pma S)] = (pma S)[j := emptyEntry P]"
    by (intro nth_equalityI) auto
  moreover have "map ((!) (bufferArray S)) [0..<length (bufferArray S)] = bufferArray S" by (simp add: map_nth)
  ultimately show "cleared P {ArrayCell j} S = S\<lparr>pma := (pma S)[j := emptyEntry P]\<rparr>" by (simp add: cleared_def)
next
  assume "i < length (bufferArray S)"
  then have "map (\<lambda>k. if k = i then emptyEntry P else bufferArray S ! k) [0..<length (bufferArray S)] = (bufferArray S)[i := emptyEntry P]"
    by (intro nth_equalityI) auto
  moreover have "map ((!) (pma S)) [0..<length (pma S)] = pma S" by (simp add: map_nth)
  ultimately show "cleared P {BufferCell i} S = S\<lparr>bufferArray := (bufferArray S)[i := emptyEntry P]\<rparr>" by (simp add: cleared_def)
qed

lemma emptyAt_cell:
  assumes "okCell P S (ArrayCell j)"
  shows "emptyAt P S (int j) = Some (\<not> filled S (ArrayCell j))"
  using assms okEntry_empty_iff [of P "pma S ! j"] by (auto simp: okCell_def emptyAt_def filled_def isEmpty_def emptyEntry_def)

lemma moveCell_ok:
  assumes ok: "okCell P S c" and out: "intervalContains region (int (out + n))" "out + n < length (swapPma S)"
  shows "moveCell P region (int out) c (int n, S) =
     Some (if filled S c
           then (int (Suc n), cleared P {c} (S\<lparr>swapPma := (swapPma S)[out + n := cellAt S c], bufferReads := bufferReads S + (if isBufferCell c then 1 else 0)\<rparr>))
           else (int n, S))"
proof -
  have w: "writeToSwap P region (int out) (int n) b S = Some (S\<lparr>swapPma := (swapPma S)[out + n := b]\<rparr>)" for b
    using out by (simp add: writeToSwap_def setSwap_def getDenseWriteIndex_def Let_def flip: of_nat_add)
  show ?thesis
  proof (cases c)
    case (ArrayCell j)
    have "j < length (pma S)" using ok ArrayCell by (simp add: okCell_def)
    then show ?thesis using emptyAt_cell [of P S j] ok ArrayCell by (simp add: moveCell_def w setPma_def cleared_one)
  next
    case (BufferCell i)
    have i: "i < length (bufferArray S)" "okEntry P (bufferArray S ! i)" using ok BufferCell by (simp_all add: okCell_def)
    have "(block (bufferArray S ! i) = None) = isEmpty (bufferArray S ! i)" by (simp add: isEmpty_def)
    then show ?thesis using i okEntry_empty_iff [OF i(2)] BufferCell
      by (simp add: moveCell_def w setBuffer_def cleared_one filled_def)
  qed
qed

text \<open>Moving the blocks of a list of cells: they are stored densely, and the cells become empty.\<close>

definition blocksAt :: "('k, 'v) sds \<Rightarrow> cell list \<Rightarrow> ('k, 'v) PmaEntry list" where
  "blocksAt S cs = map (cellAt S) (filter (filled S) cs)"

definition bufferedIn :: "('k, 'v) sds \<Rightarrow> cell list \<Rightarrow> int" where
  "bufferedIn S cs = int (length (filter isBufferCell (filter (filled S) cs)))"

lemma moveCells_ok:
  assumes "distinct cs" "\<And>c. c \<in> set cs \<Longrightarrow> okCell P S c"
    and "out + n + length (filter (filled S) cs) \<le> length (swapPma S)"
    and "\<And>k. k < length (filter (filled S) cs) \<Longrightarrow> intervalContains region (int (out + n + k))"
  shows "foldM (moveCell P region (int out)) cs (int n, S) =
     Some (int (n + length (filter (filled S) cs)),
       cleared P (set (filter (filled S) cs)) (S\<lparr>swapPma := writeAt (out + n) (blocksAt S cs) (swapPma S), bufferReads := bufferReads S + bufferedIn S cs\<rparr>))"
  using assms
proof (induction cs arbitrary: n S)
  case Nil
  then show ?case by (simp add: blocksAt_def bufferedIn_def)
next
  case (Cons c cs)
  have ok: "okCell P S c" using Cons.prems(2) by simp
  show ?case
  proof (cases "filled S c")
    case False
    have "moveCell P region (int out) c (int n, S) = Some (int n, S)"
    proof (cases c)
      case (ArrayCell j)
      then show ?thesis using emptyAt_cell [of P S j] ok False by (simp add: moveCell_def)
    next
      case (BufferCell i)
      then show ?thesis using ok False okEntry_empty_iff [of P "bufferArray S ! i"]
        by (simp add: moveCell_def okCell_def filled_def isEmpty_def)
    qed
    moreover have "foldM (moveCell P region (int out)) cs (int n, S) =
       Some (int (n + length (filter (filled S) cs)),
         cleared P (set (filter (filled S) cs)) (S\<lparr>swapPma := writeAt (out + n) (blocksAt S cs) (swapPma S), bufferReads := bufferReads S + bufferedIn S cs\<rparr>))"
      using Cons.prems False by (intro Cons.IH) auto
    ultimately show ?thesis using False by (simp add: blocksAt_def bufferedIn_def)
  next
    case True
    let ?T = "S\<lparr>swapPma := (swapPma S)[out + n := cellAt S c], bufferReads := bufferReads S + (if isBufferCell c then 1 else 0)\<rparr>"
    let ?S = "cleared P {c} ?T"
    have lt: "out + n < length (swapPma S)" using Cons.prems(3) True by simp
    have one: "moveCell P region (int out) c (int n, S) = Some (int (Suc n), ?S)"
      using moveCell_ok [OF ok _ lt, of region] Cons.prems(4) [of 0] True by simp
    have same: "cellAt ?S d = cellAt S d" "hasCell ?S d = hasCell S d" "beyond ?S d = beyond S d" if "d \<in> set cs" for d
    proof -
      have "hasCell S d" using Cons.prems(2) that by (simp add: okCell_def)
      then have "hasCell ?T d" by (cases d) auto
      moreover have "cellAt ?T d = cellAt S d" "d \<noteq> c" using Cons.prems(1) that by (cases d; auto)+
      ultimately show "cellAt ?S d = cellAt S d" using cleared_at [of ?T d P "{c}"] by (simp del: cleared_updates)
      show "hasCell ?S d = hasCell S d" "beyond ?S d = beyond S d" by (cases d; auto)+
    qed
    have fil: "filter (filled ?S) cs = filter (filled S) cs" using same by (auto simp: filled_def intro: filter_cong)
    have ok': "okCell P ?S d" if "d \<in> set cs" for d using Cons.prems(2) [of d] that same [OF that] by (simp add: okCell_def)
    have blk: "blocksAt ?S cs = blocksAt S cs" "bufferedIn ?S cs = bufferedIn S cs" using fil same by (auto simp: blocksAt_def bufferedIn_def)
    have "foldM (moveCell P region (int out)) cs (int (Suc n), ?S) =
       Some (int (Suc n + length (filter (filled ?S) cs)),
         cleared P (set (filter (filled ?S) cs)) (?S\<lparr>swapPma := writeAt (out + Suc n) (blocksAt ?S cs) (swapPma ?S), bufferReads := bufferReads ?S + bufferedIn ?S cs\<rparr>))"
    proof (rule Cons.IH)
      show "out + Suc n + length (filter (filled ?S) cs) \<le> length (swapPma ?S)" using Cons.prems(3) True fil by simp
      show "intervalContains region (int (out + Suc n + k))" if "k < length (filter (filled ?S) cs)" for k
        using Cons.prems(4) [of "Suc k"] that True fil by simp
    qed (use Cons.prems(1) ok' in auto)
    moreover have "writeAt (out + Suc n) (blocksAt S cs) ((swapPma S)[out + n := cellAt S c]) = writeAt (out + n) (blocksAt S (c # cs)) (swapPma S)"
    proof -
      have "(swapPma S)[out + n := cellAt S c] = writeAt (out + n) [cellAt S c] (swapPma S)"
        using writeAt_snoc [of "out + n" "[]" "swapPma S" "cellAt S c"] lt by simp
      then show ?thesis using writeAt_append [of "out + n" "[cellAt S c]" "swapPma S" "blocksAt S cs"] lt True by (simp add: blocksAt_def)
    qed
    ultimately show ?thesis using one True unfolding fil blk
      by (simp add: cleared_cleared Un_commute bufferedIn_def)
  qed
qed

section \<open>Clearing pointers\<close>

lemma clearPointersLoop_ok:
  assumes "0 \<le> pmaIndex x" "\<And>p. pmaIndex x \<le> p \<Longrightarrow> ExtendedPmaIndex p (bufferIndex x) < y \<Longrightarrow> p < int (length (bufferPointers S))"
  shows "\<exists>ps. clearPointersLoop x y S = Some (S\<lparr>bufferPointers := ps\<rparr>) \<and> length ps = length (bufferPointers S) \<and>
     (\<forall>j<length ps. if pmaIndex x \<le> int j \<and> ExtendedPmaIndex (int j) (bufferIndex x) < y then ps ! j = emptyInterval else ps ! j = bufferPointers S ! j)"
  using assms
proof (induction "nat (pmaIndex y + 1 - pmaIndex x)" arbitrary: x S rule: less_induct)
  case less
  show ?case
  proof (cases "x < y")
    case False
    have "\<not> ExtendedPmaIndex (int j) (bufferIndex x) < y" if "pmaIndex x \<le> int j" for j
      using False that by (auto simp: less_ExtendedPmaIndex_def ExtendedPmaIndex_less_def)
    then show ?thesis using False by (intro exI [of _ "bufferPointers S"]) (auto simp: clearPointersLoop.simps [of x y])
  next
    case True
    define j where "j = nat (pmaIndex x)"
    have j: "pmaIndex x = int j" using less(2) by (simp add: j_def)
    have xe: "ExtendedPmaIndex (int j) (bufferIndex x) = x" using j by (cases x) simp
    have lt: "j < length (bufferPointers S)" using less(3) [of "int j"] True j xe by simp
    define x' where "x' = ExtendedPmaIndex (int j + 1) (bufferIndex x)"
    define S' where "S' = S\<lparr>bufferPointers := (bufferPointers S)[j := emptyInterval]\<rparr>"
    have x': "pmaIndex x' = int j + 1" "bufferIndex x' = bufferIndex x" by (simp_all add: x'_def)
    have "pmaIndex x \<le> pmaIndex y" using True by (auto simp: less_ExtendedPmaIndex_def ExtendedPmaIndex_less_def)
    then have "nat (pmaIndex y + 1 - pmaIndex x') < nat (pmaIndex y + 1 - pmaIndex x)" using j x' by simp
    then obtain ps where ps: "clearPointersLoop x' y S' = Some (S'\<lparr>bufferPointers := ps\<rparr>)" "length ps = length (bufferPointers S')"
        "\<forall>k<length ps. if pmaIndex x' \<le> int k \<and> ExtendedPmaIndex (int k) (bufferIndex x') < y then ps ! k = emptyInterval
           else ps ! k = bufferPointers S' ! k"
      using less(1) [of x' S'] less(3) j x' by (auto simp: S'_def)
    have "clearPointersLoop x y S = Some (S\<lparr>bufferPointers := ps\<rparr>)"
      using True lt j ps(1) by (simp add: clearPointersLoop.simps [of x y] setPointers_def x'_def [symmetric] S'_def)
    moreover have "if pmaIndex x \<le> int k \<and> ExtendedPmaIndex (int k) (bufferIndex x) < y then ps ! k = emptyInterval
        else ps ! k = bufferPointers S ! k" if "k < length ps" for k
    proof (cases "k = j")
      case True
      then show ?thesis using spec [OF ps(3), of k] that x' j lt xe \<open>x < y\<close> by (simp add: S'_def)
    next
      case False
      then show ?thesis using spec [OF ps(3), of k] that x' j lt by (auto simp: S'_def split: if_splits)
    qed
    ultimately show ?thesis using ps(2) by (auto simp: S'_def)
  qed
qed

section \<open>The array before rebalancing\<close>

definition usedWidth :: "('k, 'v) sds \<Rightarrow> nat" where
  "usedWidth S = nat (max 1 (sdsSize S))"

text \<open>The cells of all entries below \<open>n\<close>.\<close>

definition cellsUpTo :: "('k, 'v) sds \<Rightarrow> nat \<Rightarrow> nat \<Rightarrow> cell list" where
  "cellsUpTo S a b = concat (map (entryCells (bufferPointers S)) [a..<b])"

definition wfCells :: "('k::linorder, 'v) tparams \<Rightarrow> ('k, 'v) sds \<Rightarrow> bool" where
  "wfCells P S \<longleftrightarrow> length (bufferPointers S) = length (pma S) \<and> sdsCapacity S = int (length (pma S)) \<and> 0 \<le> sdsSize S \<and> usedWidth S \<le> length (pma S) \<and>
     okPointers S \<and> (\<forall>j<length (pma S). usedWidth S \<le> j \<longrightarrow> pma S ! j = emptyEntry P \<and> unbuffered S j) \<and>
     distinct (cellsUpTo S 0 (usedWidth S)) \<and>
     (\<forall>c\<in>set (cellsUpTo S 0 (usedWidth S)). okCell P S c \<and> (isBufferCell c \<longrightarrow> filled S c))"

lemma cellsUpTo_split: "a \<le> b \<Longrightarrow> b \<le> c \<Longrightarrow> cellsUpTo S a c = cellsUpTo S a b @ cellsUpTo S b c"
  using upt_add_eq_append [of a b "c - b"] by (simp add: cellsUpTo_def)

lemma cellsUpTo_same [simp]: "b \<le> a \<Longrightarrow> cellsUpTo S a b = []"
  by (simp add: cellsUpTo_def)

lemma cellsUpTo_Suc: "a \<le> b \<Longrightarrow> cellsUpTo S a (Suc b) = cellsUpTo S a b @ entryCells (bufferPointers S) b"
  by (simp add: cellsUpTo_def)

lemma in_cellsUpTo: "c \<in> set (cellsUpTo S a b) \<longleftrightarrow> (\<exists>j. a \<le> j \<and> j < b \<and> c \<in> set (entryCells (bufferPointers S) j))"
  by (auto simp: cellsUpTo_def)

lemma wfCells_sub:
  assumes "wfCells P S" "b \<le> usedWidth S"
  shows "distinct (cellsUpTo S a b)" "\<And>c. c \<in> set (cellsUpTo S a b) \<Longrightarrow> okCell P S c \<and> (isBufferCell c \<longrightarrow> filled S c)"
proof -
  show "distinct (cellsUpTo S a b)"
  proof (cases "a \<le> b")
    case True
    then have "cellsUpTo S 0 (usedWidth S) = cellsUpTo S 0 a @ cellsUpTo S a b @ cellsUpTo S b (usedWidth S)"
      using assms(2) cellsUpTo_split [of 0 a "usedWidth S" S] cellsUpTo_split [of a b "usedWidth S" S] by simp
    then show ?thesis using assms(1) by (simp add: wfCells_def)
  qed simp
  fix c assume "c \<in> set (cellsUpTo S a b)"
  then have "c \<in> set (cellsUpTo S 0 (usedWidth S))" using assms(2) by (force simp: in_cellsUpTo)
  then show "okCell P S c \<and> (isBufferCell c \<longrightarrow> filled S c)" using assms(1) by (simp add: wfCells_def)
qed

lemma entryCells_cases:
  assumes "c \<in> set (entryCells ps j)"
  shows "c = ArrayCell j \<or> isBufferCell c"
  using assms by (auto simp: entryCells_def)

lemma wfCells_view:
  assumes "wfCells P S" "j < usedWidth S"
  shows "viewEmpty (viewOf P S) (int j) = Some (\<not> filled S (ArrayCell j))"
    "viewBuffer (viewOf P S) (int j) = Some (iright (bufferPointers S ! j) - ileft (bufferPointers S ! j))"
proof -
  have "ArrayCell j \<in> set (cellsUpTo S 0 (usedWidth S))" using assms(2) by (force simp: in_cellsUpTo entryCells_def)
  then have "okCell P S (ArrayCell j)" using wfCells_sub(2) [OF assms(1) order_refl] by blast
  then show "viewEmpty (viewOf P S) (int j) = Some (\<not> filled S (ArrayCell j))" by (simp add: viewOf_def emptyAt_cell)
  show "viewBuffer (viewOf P S) (int j) = Some (iright (bufferPointers S ! j) - ileft (bufferPointers S ! j))"
    using assms by (simp add: viewOf_def numberOfBufferBlocks_def wfCells_def intervalLength_def)
qed

lemma wfCells_okView:
  assumes "wfCells P S"
  shows "okView (viewOf P S) (int (usedWidth S))"
  unfolding okView_def
proof (intro allI impI)
  fix i :: int assume "0 \<le> i"
  then obtain j where i: "i = int j" by (metis nonneg_int_cases)
  have d: "length (bufferPointers S) = length (pma S)" "sdsCapacity S = int (length (pma S))" "usedWidth S \<le> length (pma S)" "okPointers S"
    "\<And>j. j < length (pma S) \<Longrightarrow> usedWidth S \<le> j \<Longrightarrow> unbuffered S j"
    using assms by (auto simp: wfCells_def)
  show "\<exists>e b. viewEmpty (viewOf P S) i = Some e \<and> viewBuffer (viewOf P S) i = Some b \<and> 0 \<le> b \<and> (int (usedWidth S) \<le> i \<longrightarrow> e \<and> b = 0)"
  proof (cases "j < usedWidth S")
    case True
    then show ?thesis using wfCells_view [OF assms True] d(1,3,4) by (auto simp: i okPointers_def)
  next
    case False
    then have "sdsSize S \<le> int j" by (simp add: usedWidth_def)
    then have e: "viewEmpty (viewOf P S) i = Some True" by (simp add: viewOf_def emptyAt_def i)
    have "viewBuffer (viewOf P S) i = Some 0"
      using d(1,2) d(5) [of j] False by (simp add: viewOf_def numberOfBufferBlocks_def i intervalLength_def unbuffered_def)
    then show ?thesis using e by (intro exI [of _ True] exI [of _ 0]) simp
  qed
qed

lemma filled_entry:
  assumes "wfCells P S" "j < usedWidth S"
  shows "filter (filled S) (map BufferCell [nat (ileft (bufferPointers S ! j))..<nat (iright (bufferPointers S ! j))]) =
     map BufferCell [nat (ileft (bufferPointers S ! j))..<nat (iright (bufferPointers S ! j))]" (is "filter _ ?B = ?B")
proof -
  have "filled S c" if "c \<in> set ?B" for c
  proof -
    have "c \<in> set (cellsUpTo S 0 (usedWidth S))" using assms(2) that by (force simp: in_cellsUpTo entryCells_def)
    then show ?thesis using wfCells_sub(2) [OF assms(1) order_refl] that by fastforce
  qed
  then show ?thesis by (simp add: filter_id_conv)
qed

lemma count_entry:
  assumes "wfCells P S" "j < usedWidth S"
  shows "blk (viewOf P S) (int j) = int (length (filter (filled S) (entryCells (bufferPointers S) j)))"
proof -
  have "0 \<le> ileft (bufferPointers S ! j) \<and> ileft (bufferPointers S ! j) \<le> iright (bufferPointers S ! j)"
    using assms by (auto simp: wfCells_def okPointers_def)
  then have "int (nat (iright (bufferPointers S ! j)) - nat (ileft (bufferPointers S ! j))) = iright (bufferPointers S ! j) - ileft (bufferPointers S ! j)"
    by linarith
  then show ?thesis using wfCells_view [OF assms] filled_entry [OF assms] by (simp add: blk_def entryCells_def)
qed

lemma count_cells:
  assumes "wfCells P S" "b \<le> usedWidth S"
  shows "blocksIn (viewOf P S) (int a) (int b) = int (length (filter (filled S) (cellsUpTo S a b)))"
proof (cases "a \<le> b")
  case True
  then show ?thesis using assms(2)
  proof (induction b rule: dec_induct)
    case (step b)
    have "blocksIn (viewOf P S) (int a) (int (Suc b)) = blocksIn (viewOf P S) (int a) (int b) + blk (viewOf P S) (int b)"
      using blocksIn_join [of "int a" "int b" "int (Suc b)" "viewOf P S"] blocksIn_step [of "int b" "int (Suc b)" "viewOf P S"] step(1) by simp
    then show ?case using step count_entry [OF assms(1), of b] by (simp add: cellsUpTo_Suc)
  qed simp
qed simp

section \<open>The blocks of a task\<close>

definition okTask :: "('k::linorder, 'v) tparams \<Rightarrow> nat \<Rightarrow> ('k, 'v) sds \<Rightarrow> RebalancingTask \<Rightarrow> bool" where
  "okTask P L S t \<longleftrightarrow> okNode L (rootNode t) \<and> ileft (pmaRange t) = taskStart P L (rootNode t) \<and>
     min (int (usedWidth S)) (iright (pmaRange t)) = min (int (usedWidth S)) (taskEnd P L (rootNode t)) \<and>
     taskNumberOfBlocks t = blocksIn (viewOf P S) (taskStart P L (rootNode t)) (taskEnd P L (rootNode t)) \<and>
     0 < taskNumberOfBlocks t \<and> taskNumberOfBlocks t \<le> iright (pmaRange t) - ileft (pmaRange t)"

definition taskLo :: "RebalancingTask \<Rightarrow> nat" where
  "taskLo t = nat (ileft (pmaRange t))"

definition taskHi :: "('k, 'v) sds \<Rightarrow> RebalancingTask \<Rightarrow> nat" where
  "taskHi S t = nat (min (int (usedWidth S)) (iright (pmaRange t)))"

definition taskCells :: "('k, 'v) sds \<Rightarrow> RebalancingTask \<Rightarrow> cell list" where
  "taskCells S t = filter (filled S) (cellsUpTo S (taskLo t) (taskHi S t))"

lemma taskStart_nonneg: "0 < SegmentWidth P \<Longrightarrow> okNode L node \<Longrightarrow> 0 \<le> taskStart P L node"
  by (auto simp: taskStart_def okNode_def validNode_def intro: nodeStart_nonneg)

lemma okTask_facts:
  assumes wf: "wfCells P S" and P: "0 < SegmentWidth P" and t: "okTask P L S t"
  shows "int (taskLo t) = taskStart P L (rootNode t)" "int (taskHi S t) = min (int (usedWidth S)) (taskEnd P L (rootNode t))"
    "taskLo t < taskHi S t" "taskHi S t \<le> usedWidth S" "taskNumberOfBlocks t = int (length (taskCells S t))"
proof -
  have V: "okView (viewOf P S) (int (usedWidth S))" by (rule wfCells_okView [OF wf])
  have st: "0 \<le> taskStart P L (rootNode t)" using taskStart_nonneg [OF P] t by (simp add: okTask_def)
  show lo: "int (taskLo t) = taskStart P L (rootNode t)" using st t by (simp add: okTask_def taskLo_def)
  have cut: "blocksIn (viewOf P S) (int (taskLo t)) (min (int (usedWidth S)) (taskEnd P L (rootNode t))) = taskNumberOfBlocks t"
    using blocksIn_cut [OF V st order_refl] t lo by (simp add: okTask_def)
  have lt: "int (taskLo t) < min (int (usedWidth S)) (taskEnd P L (rootNode t))"
  proof (rule ccontr)
    assume "\<not> ?thesis"
    then have "min (int (usedWidth S)) (taskEnd P L (rootNode t)) \<le> int (taskLo t)" by (rule leI)
    then have "taskNumberOfBlocks t = 0" unfolding cut [symmetric] by (rule blocksIn_empty)
    then show False using t by (simp add: okTask_def)
  qed
  show hi: "int (taskHi S t) = min (int (usedWidth S)) (taskEnd P L (rootNode t))"
    using lt t by (auto simp: taskHi_def okTask_def)
  show "taskLo t < taskHi S t" "taskHi S t \<le> usedWidth S" using lt hi by linarith+
  then show "taskNumberOfBlocks t = int (length (taskCells S t))"
    using count_cells [OF wf, of "taskHi S t" "taskLo t"] cut hi by (simp add: taskCells_def)
qed

lemma cellsBefore_in_task:
  assumes "x \<le> ExtendedPmaIndex (int h) (-1)" "int a \<le> pmaIndex x" "-1 \<le> bufferIndex x"
  shows "cellsUpTo S a h = cellsBefore (bufferPointers S) a x @ cellsFrom (bufferPointers S) x (ExtendedPmaIndex (int h) (-1))"
  using cellsBefore_from [OF assms, of "bufferPointers S"] by (simp add: cellsBefore_start cellsUpTo_def)

lemma count_before:
  assumes wf: "wfCells P S" and x: "int a \<le> pmaIndex x" "pmaIndex x \<le> int (usedWidth S)" "okPosition (bufferPointers S) x"
     "bufferIndex x = -1 \<or> pmaIndex x < int (usedWidth S)"
  shows "blocksBefore (viewOf P S) (int a) x = int (length (filter (filled S) (cellsBefore (bufferPointers S) a x)))"
proof -
  define j where "j = nat (pmaIndex x)"
  have j: "pmaIndex x = int j" "a \<le> j" "j \<le> usedWidth S" using x by (auto simp: j_def)
  have all: "blocksIn (viewOf P S) (int a) (int j) = int (length (filter (filled S) (cellsUpTo S a j)))" by (rule count_cells [OF wf j(3)])
  show ?thesis
  proof (cases "bufferIndex x = -1")
    case True
    then show ?thesis using all j by (simp add: blocksBefore_def cellsBefore_def offs_def cellsUpTo_def)
  next
    case False
    then have lt: "j < usedWidth S" using x(4) j by auto
    define m where "m = nat (bufferIndex x)"
    have "0 \<le> bufferIndex x" "ileft (bufferPointers S ! nat (pmaIndex x)) + bufferIndex x < iright (bufferPointers S ! nat (pmaIndex x))"
      using x(3) False by (auto simp: okPosition_def)
    then have m: "bufferIndex x = int m" "ileft (bufferPointers S ! j) + int m < iright (bufferPointers S ! j)" by (simp_all add: m_def j_def)
    have l0: "0 \<le> ileft (bufferPointers S ! j)" using wf lt by (auto simp: wfCells_def okPointers_def)
    let ?B = "map BufferCell [nat (ileft (bufferPointers S ! j))..<nat (iright (bufferPointers S ! j))]"
    have "filter (filled S) (take m ?B) = take m ?B"
    proof -
      have "\<forall>c\<in>set ?B. filled S c" using filled_entry [OF wf lt] by (metis filter_id_conv)
      then have "\<forall>c\<in>set (take m ?B). filled S c" by (meson in_set_takeD)
      then show ?thesis by (simp only: filter_id_conv)
    qed
    moreover have "m \<le> length ?B" using m(2) l0 by simp
    moreover have "offs x = Suc m" by (simp add: offs_def m(1))
    ultimately have "length (filter (filled S) (take (offs x) (entryCells (bufferPointers S) j))) = (if filled S (ArrayCell j) then 1 else 0) + m"
      by (simp add: entryCells_def)
    then show ?thesis
      using all j m(1) wfCells_view(1) [OF wf lt] by (simp add: blocksBefore_def cellsBefore_def cellsUpTo_def)
  qed
qed

text \<open>A position in front of block number \<open>k\<close> of a task.\<close>

definition atBlock :: "('k, 'v) sds \<Rightarrow> RebalancingTask \<Rightarrow> nat \<Rightarrow> ExtendedPmaIndex \<Rightarrow> bool" where
  "atBlock S t k x \<longleftrightarrow> okPosition (bufferPointers S) x \<and> int (taskLo t) \<le> pmaIndex x \<and> x \<le> ExtendedPmaIndex (int (taskHi S t)) (-1) \<and>
     filter (filled S) (cellsBefore (bufferPointers S) (taskLo t) x) = take k (taskCells S t)"

lemma find_position:
  assumes wf: "wfCells P S" and P: "0 < SegmentWidth P" and lay: "brmLayout L m" "consistent P (viewOf P S) L m"
    and t: "okTask P L S t" and k: "k \<le> length (taskCells S t)"
  shows "\<exists>x. findBlockInRebalancingTask P dm (viewOf P S) m (rootNode t) (int k) = Some x \<and> atBlock S t k x"
proof -
  note f = okTask_facts [OF wf P t]
  have V: "okView (viewOf P S) (int (usedWidth S))" by (rule wfCells_okView [OF wf])
  have k': "0 \<le> int k" "int k \<le> blocksIn (viewOf P S) (taskStart P L (rootNode t)) (taskEnd P L (rootNode t))"
    using k f(5) t by (auto simp: okTask_def)
  have node: "okNode L (rootNode t)" using t by (simp add: okTask_def)
  obtain x where x: "findBlockInRebalancingTask P dm (viewOf P S) m (rootNode t) (int k) = Some x"
     "taskStart P L (rootNode t) \<le> pmaIndex x" "pmaIndex x \<le> taskEnd P L (rootNode t)"
     "blocksBefore (viewOf P S) (taskStart P L (rootNode t)) x = int k"
     "bufferIndex x = -1 \<or> 0 \<le> bufferIndex x \<and> bufferIndex x < the (viewBuffer (viewOf P S) (pmaIndex x)) \<and> pmaIndex x < taskEnd P L (rootNode t)"
     "pmaIndex x \<le> max (int (usedWidth S)) (taskStart P L (rootNode t))"
    using findBlock_ok [OF lay V P node k'] by blast
  have hi: "pmaIndex x \<le> int (taskHi S t)" using x(3,6) f(1-3) by linarith
  have lo: "int (taskLo t) \<le> pmaIndex x" using x(2) f(1) by simp
  define j where "j = nat (pmaIndex x)"
  have j: "pmaIndex x = int j" using lo by (simp add: j_def)
  have len: "length (bufferPointers S) = length (pma S)" "usedWidth S \<le> length (pma S)" using wf by (auto simp: wfCells_def)
  have in_entry: "pmaIndex x < int (taskHi S t) \<and> 0 \<le> bufferIndex x \<and> ileft (bufferPointers S ! j) + bufferIndex x < iright (bufferPointers S ! j)"
    if b: "bufferIndex x \<noteq> -1"
  proof -
    have b: "0 \<le> bufferIndex x" "bufferIndex x < the (viewBuffer (viewOf P S) (int j))" "int j < taskEnd P L (rootNode t)"
      using x(5) b j by auto
    have "j < usedWidth S"
    proof (rule ccontr)
      assume "\<not> ?thesis"
      then show False using V b(1,2) unfolding okView_def by (metis not_le of_nat_0_le_iff of_nat_le_iff option.sel)
    qed
    then show ?thesis using b f(2) j wfCells_view(2) [OF wf, of j] by simp
  qed
  have pos: "okPosition (bufferPointers S) x" using in_entry j lo hi f(4) len by (auto simp: okPosition_def)
  have le: "x \<le> ExtendedPmaIndex (int (taskHi S t)) (-1)"
    using in_entry hi by (cases x) (auto simp: less_eq_ExtendedPmaIndex_def ExtendedPmaIndex_less_def)
  have "int (length (filter (filled S) (cellsBefore (bufferPointers S) (taskLo t) x))) = int k"
  proof -
    have "bufferIndex x = -1 \<or> pmaIndex x < int (usedWidth S)" "pmaIndex x \<le> int (usedWidth S)" using in_entry hi f(4) by (cases "bufferIndex x = -1"; auto)+
    then show ?thesis using count_before [OF wf lo _ pos] f(1) x(4) by simp
  qed
  moreover have "taskCells S t = filter (filled S) (cellsBefore (bufferPointers S) (taskLo t) x) @
      filter (filled S) (cellsFrom (bufferPointers S) x (ExtendedPmaIndex (int (taskHi S t)) (-1)))"
  proof -
    have "-1 \<le> bufferIndex x" using pos by (auto simp: okPosition_def)
    then show ?thesis unfolding taskCells_def using cellsBefore_in_task [OF le lo, of S] by simp
  qed
  ultimately have "filter (filled S) (cellsBefore (bufferPointers S) (taskLo t) x) = take k (taskCells S t)" by simp
  then show ?thesis using x(1) pos lo le by (auto simp: atBlock_def)
qed

text \<open>The beginning and the end of the range of a task, which are used when a thread executes all of it.\<close>

lemma whole_task:
  assumes wf: "wfCells P S" and P: "0 < SegmentWidth P" and t: "okTask P L S t"
  shows "atBlock S t 0 (ExtendedPmaIndex (int (taskLo t)) (-1))"
    "atBlock S t (length (taskCells S t)) (ExtendedPmaIndex (int (taskHi S t)) (-1))"
proof -
  note f = okTask_facts [OF wf P t]
  have len: "length (bufferPointers S) = length (pma S)" "usedWidth S \<le> length (pma S)" using wf by (auto simp: wfCells_def)
  then have "taskHi S t \<le> length (bufferPointers S)" using f by simp
  then show "atBlock S t 0 (ExtendedPmaIndex (int (taskLo t)) (-1))"
    "atBlock S t (length (taskCells S t)) (ExtendedPmaIndex (int (taskHi S t)) (-1))"
    using f(3) by (auto simp: atBlock_def cellsBefore_start taskCells_def cellsUpTo_def less_eq_ExtendedPmaIndex_def ExtendedPmaIndex_less_def)
qed

text \<open>Between two positions lie the blocks with the numbers in between.\<close>

lemma between_blocks:
  assumes "atBlock S t k x" "atBlock S t l y" "k < l" "l \<le> length (taskCells S t)"
  shows "x < y" "filter (filled S) (cellsFrom (bufferPointers S) x y) = slice (taskCells S t) k l"
    "set (cellsFrom (bufferPointers S) x y) \<subseteq> set (cellsUpTo S (taskLo t) (taskHi S t))"
    "distinct (cellsUpTo S (taskLo t) (taskHi S t)) \<Longrightarrow> distinct (cellsFrom (bufferPointers S) x y)"
proof -
  let ?ps = "bufferPointers S"
  have b: "-1 \<le> bufferIndex x" "-1 \<le> bufferIndex y" "int (taskLo t) \<le> pmaIndex x" "int (taskLo t) \<le> pmaIndex y"
    using assms by (auto simp: atBlock_def okPosition_def)
  have fx: "filter (filled S) (cellsBefore ?ps (taskLo t) x) = take k (taskCells S t)"
    and fy: "filter (filled S) (cellsBefore ?ps (taskLo t) y) = take l (taskCells S t)" using assms by (auto simp: atBlock_def)
  show "x < y"
  proof (rule ccontr)
    assume "\<not> x < y"
    then have "take k (taskCells S t) = take l (taskCells S t) @ filter (filled S) (cellsFrom ?ps y x)"
      using cellsBefore_from [of y x "taskLo t" ?ps] b fx fy by simp
    then have "length (take l (taskCells S t)) \<le> length (take k (taskCells S t))" by simp
    then show False using assms(3,4) by simp
  qed
  then have "cellsBefore ?ps (taskLo t) y = cellsBefore ?ps (taskLo t) x @ cellsFrom ?ps x y"
    using cellsBefore_from [of x y "taskLo t" ?ps] b by simp
  moreover from this have "take l (taskCells S t) = take k (taskCells S t) @ filter (filled S) (cellsFrom ?ps x y)" using fx fy by simp
  moreover have "cellsUpTo S (taskLo t) (taskHi S t) = cellsBefore ?ps (taskLo t) y @ cellsFrom ?ps y (ExtendedPmaIndex (int (taskHi S t)) (-1))"
    using cellsBefore_in_task [of y "taskHi S t" "taskLo t" S] b assms(2) by (simp add: atBlock_def)
  moreover have "take l (taskCells S t) = take k (taskCells S t) @ slice (taskCells S t) k l"
    using assms(3) by (simp add: slice_def flip: take_add)
  ultimately show "filter (filled S) (cellsFrom ?ps x y) = slice (taskCells S t) k l"
    "set (cellsFrom ?ps x y) \<subseteq> set (cellsUpTo S (taskLo t) (taskHi S t))"
    "distinct (cellsUpTo S (taskLo t) (taskHi S t)) \<Longrightarrow> distinct (cellsFrom ?ps x y)" by auto
qed

end
