(* ===== verification/Rebalance_Parts.thy ===== *)
theory Rebalance_Parts
  imports Rebalance_Cells
begin

text \<open>
  Phases B-4 to B-7 of \<open>insertBatch\<close>: the blocks of all tasks, numbered through, are divided evenly over the threads. A thread works
  on the end of one task, on whole tasks and on the beginning of another one (locale \<open>task_parts\<close>); its part is found, moved to the swap
  array and cleared from the buffer pointers. The parts of different threads are disjoint, so that each region of \<open>n\<close> threads does the
  whole work in every order (locale \<open>task_region\<close>).
\<close>

section \<open>Lists of lists\<close>

definition startIn :: "'a list list \<Rightarrow> nat \<Rightarrow> nat" where
  "startIn xss i = length (concat (take i xss))"

lemma startIn_simps [simp]: "startIn xss 0 = 0" "startIn xss (length xss) = length (concat xss)"
  by (simp_all add: startIn_def)

lemma startIn_Suc: "i < length xss \<Longrightarrow> startIn xss (Suc i) = startIn xss i + length (xss ! i)"
  by (simp add: startIn_def take_Suc_conv_app_nth)

lemma startIn_mono: "i \<le> j \<Longrightarrow> startIn xss i \<le> startIn xss j"
proof (induction j)
  case (Suc j)
  have "startIn xss j \<le> startIn xss (Suc j)"
  proof (cases "j < length xss")
    case True
    then show ?thesis by (simp add: startIn_Suc)
  qed (simp add: startIn_def)
  then show ?case using Suc by (cases "i = Suc j") auto
qed simp

lemma startIn_le: "startIn xss i \<le> length (concat xss)"
proof (cases "i \<le> length xss")
  case True
  then show ?thesis using startIn_mono [OF True, of xss] by simp
qed (simp add: startIn_def)

lemma nth_image_all: "(!) xs ` {..<length xs} = set xs"
  by (auto simp: set_conv_nth)

lemma concat_at:
  assumes "i < length xss" "k < length (xss ! i)"
  shows "concat xss ! (startIn xss i + k) = xss ! i ! k"
proof -
  have "concat xss = concat (take i xss) @ xss ! i @ concat (drop (Suc i) xss)"
    using assms(1) by (metis append_take_drop_id concat.simps(2) concat_append Cons_nth_drop_Suc)
  then show ?thesis using assms(2) by (simp add: startIn_def nth_append)
qed

lemma concat_find: "g < length (concat xss) \<Longrightarrow> \<exists>i k. i < length xss \<and> k < length (xss ! i) \<and> g = startIn xss i + k"
proof (induction xss arbitrary: g)
  case (Cons xs xss)
  show ?case
  proof (cases "g < length xs")
    case True
    then show ?thesis by (intro exI [of _ 0] exI [of _ g]) (simp add: startIn_def)
  next
    case False
    then have "g - length xs < length (concat xss)" using Cons.prems by simp
    then obtain i k where "i < length xss" "k < length (xss ! i)" "g - length xs = startIn xss i + k"
      using Cons.IH [of "g - length xs"] by blast
    then show ?thesis using False by (intro exI [of _ "Suc i"] exI [of _ k]) (simp add: startIn_def)
  qed
qed simp

lemma distinct_concatI:
  assumes "\<And>i. i < length xss \<Longrightarrow> distinct (xss ! i)" "\<And>i j. i < j \<Longrightarrow> j < length xss \<Longrightarrow> set (xss ! i) \<inter> set (xss ! j) = {}"
  shows "distinct (concat xss)"
  using assms
proof (induction xss)
  case (Cons xs xss)
  have "distinct (concat xss)"
  proof (rule Cons.IH)
    show "distinct (xss ! i)" if "i < length xss" for i using Cons.prems(1) [of "Suc i"] that by simp
    show "set (xss ! i) \<inter> set (xss ! j) = {}" if "i < j" "j < length xss" for i j using Cons.prems(2) [of "Suc i" "Suc j"] that by simp
  qed
  moreover have "set xs \<inter> set (concat xss) = {}"
  proof -
    have "set xs \<inter> set ys = {}" if ys: "ys \<in> set xss" for ys
    proof -
      obtain j where "j < length xss" "ys = xss ! j" using ys by (auto simp: in_set_conv_nth)
      then show ?thesis using Cons.prems(2) [of 0 "Suc j"] by simp
    qed
    then show ?thesis by auto
  qed
  ultimately show ?case using Cons.prems(1) [of 0] by simp
qed simp

section \<open>All tasks\<close>

definition cellLists :: "('k, 'v) sds \<Rightarrow> cell list list" where
  "cellLists S = map (taskCells S) (rebalancingTasks S)"

definition placeLists :: "('k, 'v) sds \<Rightarrow> nat list list" where
  "placeLists S = map (\<lambda>t. [taskLo t..<taskLo t + length (taskCells S t)]) (rebalancingTasks S)"

abbreviation moving :: "('k, 'v) sds \<Rightarrow> cell list" where
  "moving S \<equiv> concat (cellLists S)"

abbreviation places :: "('k, 'v) sds \<Rightarrow> nat list" where
  "places S \<equiv> concat (placeLists S)"

definition firstNumber :: "('k, 'v) sds \<Rightarrow> nat \<Rightarrow> nat" where
  "firstNumber S i = startIn (cellLists S) i"

definition rebSetting :: "('k::linorder, 'v) tparams \<Rightarrow> nat \<Rightarrow> ('k, 'v) sds \<Rightarrow> bool" where
  "rebSetting P L S \<longleftrightarrow> wfCells P S \<and> 0 < SegmentWidth P \<and> brmLayout L (rebalancingManager S) \<and> consistent P (viewOf P S) L (rebalancingManager S) \<and>
     (\<forall>t\<in>set (rebalancingTasks S). okTask P L S t \<and> iright (pmaRange t) \<le> int (length (swapPma S))) \<and>
     (\<forall>i j. i < j \<longrightarrow> j < length (rebalancingTasks S) \<longrightarrow>
        iright (pmaRange (rebalancingTasks S ! i)) \<le> ileft (pmaRange (rebalancingTasks S ! j)) \<or>
        iright (pmaRange (rebalancingTasks S ! j)) \<le> ileft (pmaRange (rebalancingTasks S ! i)))"

lemma length_lists [simp]: "length (cellLists S) = length (rebalancingTasks S)" "length (placeLists S) = length (rebalancingTasks S)"
  by (simp_all add: cellLists_def placeLists_def)

lemma startIn_places: "startIn (placeLists S) i = startIn (cellLists S) i"
  by (simp add: startIn_def placeLists_def cellLists_def length_concat o_def take_map)

lemma length_places [simp]: "length (places S) = length (moving S)"
  by (simp add: placeLists_def cellLists_def length_concat o_def)

lemma moving_at:
  assumes "i < length (rebalancingTasks S)" "k < length (taskCells S (rebalancingTasks S ! i))"
  shows "moving S ! (firstNumber S i + k) = taskCells S (rebalancingTasks S ! i) ! k"
    "places S ! (firstNumber S i + k) = taskLo (rebalancingTasks S ! i) + k"
  using assms concat_at [of i "cellLists S" k] concat_at [of i "placeLists S" k]
  by (simp_all add: firstNumber_def startIn_places) (simp_all add: cellLists_def placeLists_def)

lemma firstNumber_Suc: "i < length (rebalancingTasks S) \<Longrightarrow> firstNumber S (Suc i) = firstNumber S i + length (taskCells S (rebalancingTasks S ! i))"
  by (simp add: firstNumber_def startIn_Suc) (simp add: cellLists_def)

lemma firstNumber_ends [simp]: "firstNumber S 0 = 0" "firstNumber S (length (rebalancingTasks S)) = length (moving S)"
  unfolding firstNumber_def using startIn_simps(2) [of "cellLists S"] by simp_all

lemma rebSetting_task:
  assumes "rebSetting P L S" "i < length (rebalancingTasks S)"
  shows "okTask P L S (rebalancingTasks S ! i)" "iright (pmaRange (rebalancingTasks S ! i)) \<le> int (length (swapPma S))"
  using assms by (auto simp: rebSetting_def)

lemma rebSetting_facts:
  assumes set: "rebSetting P L S" and i: "i < length (rebalancingTasks S)"
  defines "t \<equiv> rebalancingTasks S ! i"
  shows "taskLo t < taskHi S t" "taskHi S t \<le> usedWidth S" "taskNumberOfBlocks t = int (length (taskCells S t))" "0 < length (taskCells S t)"
    "int (taskLo t) = ileft (pmaRange t)" "int (taskLo t) + int (length (taskCells S t)) \<le> iright (pmaRange t)" "int (taskHi S t) \<le> iright (pmaRange t)"
proof -
  have d: "wfCells P S" "0 < SegmentWidth P" "okTask P L S t" using assms by (auto simp: rebSetting_def)
  note f = okTask_facts [OF d]
  show "taskLo t < taskHi S t" "taskHi S t \<le> usedWidth S" and n: "taskNumberOfBlocks t = int (length (taskCells S t))" by (rule f)+
  show "0 < length (taskCells S t)" and lo: "int (taskLo t) = ileft (pmaRange t)" using f(1,5) d(3) by (auto simp: okTask_def)
  show "int (taskLo t) + int (length (taskCells S t)) \<le> iright (pmaRange t)" using f(1,5) d(3) by (auto simp: okTask_def)
  show "int (taskHi S t) \<le> iright (pmaRange t)" using f(2) d(3) by (auto simp: okTask_def)
qed

lemma rebSetting_apart:
  assumes "rebSetting P L S" "i < length (rebalancingTasks S)" "j < length (rebalancingTasks S)" "i \<noteq> j"
  shows "iright (pmaRange (rebalancingTasks S ! i)) \<le> ileft (pmaRange (rebalancingTasks S ! j)) \<or>
     iright (pmaRange (rebalancingTasks S ! j)) \<le> ileft (pmaRange (rebalancingTasks S ! i))"
  using assms unfolding rebSetting_def by (metis linorder_neqE_nat)

lemma entryCells_disjoint:
  assumes "distinct (cellsUpTo S 0 n)" "i < n" "j < n" "i \<noteq> j"
  shows "set (entryCells (bufferPointers S) i) \<inter> set (entryCells (bufferPointers S) j) = {}"
proof -
  have "set (entryCells (bufferPointers S) i) \<inter> set (entryCells (bufferPointers S) j) = {}" if "i < j" "j < n" for i j
  proof -
    have "cellsUpTo S 0 n = cellsUpTo S 0 (Suc i) @ cellsUpTo S (Suc i) n" using that by (intro cellsUpTo_split) auto
    moreover have "set (entryCells (bufferPointers S) i) \<subseteq> set (cellsUpTo S 0 (Suc i))" by (auto simp: in_cellsUpTo)
    moreover have "set (entryCells (bufferPointers S) j) \<subseteq> set (cellsUpTo S (Suc i) n)" using that by (auto simp: in_cellsUpTo Suc_le_eq)
    ultimately show ?thesis using assms(1) by fastforce
  qed
  then show ?thesis using assms(2-4) by (metis Int_commute linorder_neqE_nat)
qed

lemma moving_distinct:
  assumes set: "rebSetting P L S"
  shows "distinct (moving S)" "distinct (places S)"
proof -
  have wf: "wfCells P S" using set by (simp add: rebSetting_def)
  let ?t = "\<lambda>i. rebalancingTasks S ! i"
  note f = rebSetting_facts [OF set]
  show "distinct (moving S)"
  proof (rule distinct_concatI)
    show "distinct (cellLists S ! i)" if "i < length (cellLists S)" for i
      using that wfCells_sub(1) [OF wf f(2), of i] by (simp add: cellLists_def taskCells_def)
    show "set (cellLists S ! i) \<inter> set (cellLists S ! j) = {}" if ij: "i < j" "j < length (cellLists S)" for i j
    proof -
      have ij': "i < length (rebalancingTasks S)" "j < length (rebalancingTasks S)" using ij by auto
      have ap: "taskHi S (?t i) \<le> taskLo (?t j) \<or> taskHi S (?t j) \<le> taskLo (?t i)"
        using rebSetting_apart [OF set ij'] ij f(5,7) [OF ij'(1)] f(5,7) [OF ij'(2)] by linarith
      have "c \<notin> set (taskCells S (?t j))" if c: "c \<in> set (taskCells S (?t i))" for c
      proof
        assume "c \<in> set (taskCells S (?t j))"
        then obtain q where q: "taskLo (?t j) \<le> q" "q < taskHi S (?t j)" "c \<in> set (entryCells (bufferPointers S) q)"
          by (auto simp: taskCells_def in_cellsUpTo)
        obtain p where p: "taskLo (?t i) \<le> p" "p < taskHi S (?t i)" "c \<in> set (entryCells (bufferPointers S) p)"
          using c by (auto simp: taskCells_def in_cellsUpTo)
        have "p \<noteq> q" using ap p q by linarith
        moreover have "distinct (cellsUpTo S 0 (usedWidth S))" using wf by (simp add: wfCells_def)
        ultimately show False using entryCells_disjoint [of S "usedWidth S" p q] p q f(2) [OF ij'(1)] f(2) [OF ij'(2)] by auto
      qed
      then show ?thesis using ij by (auto simp: cellLists_def)
    qed
  qed
  show "distinct (places S)"
  proof (rule distinct_concatI)
    show "distinct (placeLists S ! i)" if "i < length (placeLists S)" for i using that by (simp add: placeLists_def)
    show "set (placeLists S ! i) \<inter> set (placeLists S ! j) = {}" if ij: "i < j" "j < length (placeLists S)" for i j
    proof -
      have ij': "i < length (rebalancingTasks S)" "j < length (rebalancingTasks S)" using ij by auto
      have "taskLo (?t i) + length (taskCells S (?t i)) \<le> taskLo (?t j) \<or> taskLo (?t j) + length (taskCells S (?t j)) \<le> taskLo (?t i)"
        using rebSetting_apart [OF set ij'] ij f(5,6) [OF ij'(1)] f(5,6) [OF ij'(2)] by linarith
      then show ?thesis using ij by (auto simp: placeLists_def)
    qed
  qed
qed

section \<open>Executing a part of a task\<close>

text \<open>The manager \<open>m\<close> has the counters of \<open>m0\<close>, and the flags of the nodes \<open>N\<close> are cleared.\<close>

definition flagsCleared :: "nat \<Rightarrow> brm \<Rightarrow> RebalancingNode set \<Rightarrow> brm \<Rightarrow> bool" where
  "flagsCleared L m0 N m \<longleftrightarrow> brmLayout L m \<and> nextLevelRecountingNodes m = nextLevelRecountingNodes m0 \<and> brmSize m = brmSize m0 \<and>
     (\<forall>l i. validNode L l i \<longrightarrow> agg L m l i = (agg L m0 l i)\<lparr>rebalanced := rebalanced (agg L m0 l i) \<and> mkNode (int l) i \<notin> N\<rparr>)"

lemma clearRebalancedFlag_ok:
  assumes f: "flagsCleared L m0 N m" and ok: "okNode L node"
  shows "\<exists>m'. clearRebalancedFlag P m node = Some m' \<and> flagsCleared L m0 (insert node N) m'"
proof -
  define l where "l = nat (nodeLevel node)"
  have l: "nodeLevel node = int l" "validNode L l (nodeIndex node)" using ok by (auto simp: okNode_def l_def)
  have node: "node = mkNode (int l) (nodeIndex node)" using l(1) by (cases node) (simp add: mkNode_def)
  have lay: "brmLayout L m" using f by (simp add: flagsCleared_def)
  obtain m' where m': "setAggregate P m (nodeIndex node) (int l) (\<lambda>e. e\<lparr>rebalanced := False\<rparr>) = Some m'" "brmLayout L m'"
     "nextLevelRecountingNodes m' = nextLevelRecountingNodes m" "brmSize m' = brmSize m"
     "\<forall>l' j. validNode L l' j \<longrightarrow> agg L m' l' j = (if l' = l \<and> j = nodeIndex node then (agg L m l (nodeIndex node))\<lparr>rebalanced := False\<rparr> else agg L m l' j)"
    using setAggregate_ok [OF lay l(2), of P "\<lambda>e. e\<lparr>rebalanced := False\<rparr>"] by blast
  have "agg L m' l' j = (agg L m0 l' j)\<lparr>rebalanced := rebalanced (agg L m0 l' j) \<and> mkNode (int l') j \<notin> insert node N\<rparr>" if v: "validNode L l' j" for l' j
  proof -
    have "mkNode (int l') j = node \<longleftrightarrow> l' = l \<and> j = nodeIndex node" by (subst node) (auto simp: mkNode_def)
    then show ?thesis using m'(5) v f by (auto simp: flagsCleared_def)
  qed
  then have "flagsCleared L m0 (insert node N) m'" using m'(2-4) f by (simp add: flagsCleared_def)
  then show ?thesis using m'(1) assertIndex_ok [OF lay l(2), of P] by (simp add: clearRebalancedFlag_def l(1))
qed

text \<open>
  The blocks with the numbers \<open>D\<close>, counted over all tasks, were moved to their places in the swap array; the manager is \<open>m\<close>.
\<close>

definition movedOut :: "('k::linorder, 'v) tparams \<Rightarrow> ('k, 'v) sds \<Rightarrow> nat set \<Rightarrow> brm \<Rightarrow> ('k, 'v) sds \<Rightarrow> bool" where
  "movedOut P S D m T \<longleftrightarrow> D \<subseteq> {..<length (moving S)} \<and>
     (\<exists>sw. T = cleared P ((!) (moving S) ` D) (S\<lparr>swapPma := sw, rebalancingManager := m,
           bufferReads := bufferReads S + int (card {g\<in>D. isBufferCell (moving S ! g)})\<rparr>) \<and>
        length sw = length (swapPma S) \<and> (\<forall>g\<in>D. sw ! (places S ! g) = cellAt S (moving S ! g)) \<and>
        (\<forall>p<length sw. p \<notin> (!) (places S) ` D \<longrightarrow> sw ! p = swapPma S ! p))"

lemma cleared_filled:
  assumes "hasCell S c"
  shows "filled (cleared P C S) c \<longleftrightarrow> filled S c \<and> c \<notin> C"
  using cleared_at [OF assms, of P C] by (simp add: filled_def isEmpty_def emptyEntry_def)

lemma movedOut_sel:
  assumes "movedOut P S D m T"
  shows "rebalancingManager T = m" "rebalancingTasks T = rebalancingTasks S" "bufferPointers T = bufferPointers S" "sdsSize T = sdsSize S"
    "length (swapPma T) = length (swapPma S)" "movedOut P S D m' (T\<lparr>rebalancingManager := m'\<rparr>)"
proof -
  let ?r = "bufferReads S + int (card {g\<in>D. isBufferCell (moving S ! g)})"
  obtain sw where T: "T = cleared P ((!) (moving S) ` D) (S\<lparr>swapPma := sw, rebalancingManager := m, bufferReads := ?r\<rparr>)"
     "length sw = length (swapPma S)" "\<forall>g\<in>D. sw ! (places S ! g) = cellAt S (moving S ! g)"
     "\<forall>p<length sw. p \<notin> (!) (places S) ` D \<longrightarrow> sw ! p = swapPma S ! p" using assms unfolding movedOut_def by blast
  show "rebalancingManager T = m" "rebalancingTasks T = rebalancingTasks S" "bufferPointers T = bufferPointers S" "sdsSize T = sdsSize S"
    "length (swapPma T) = length (swapPma S)" unfolding T(1) cleared_def by (simp_all add: T(2))
  have "T\<lparr>rebalancingManager := m'\<rparr> = cleared P ((!) (moving S) ` D) (S\<lparr>swapPma := sw, rebalancingManager := m', bufferReads := ?r\<rparr>)"
    unfolding T(1) cleared_def by simp
  moreover have "D \<subseteq> {..<length (moving S)}" using assms by (simp add: movedOut_def)
  ultimately show "movedOut P S D m' (T\<lparr>rebalancingManager := m'\<rparr>)" unfolding movedOut_def using T(2-) by blast
qed

text \<open>What the state shows of the cells of a part that is not moved yet.\<close>

lemma movedOut_cells:
  assumes mv: "movedOut P S D m T" and set: "rebSetting P L S" and i: "i < length (rebalancingTasks S)"
    and sub: "set cs \<subseteq> set (cellsUpTo S (taskLo (rebalancingTasks S ! i)) (taskHi S (rebalancingTasks S ! i)))"
    and fil: "filter (filled S) cs = map ((!) (moving S)) A" and A: "D \<inter> set A = {}" "set A \<subseteq> {..<length (moving S)}"
  shows "\<And>c. c \<in> set cs \<Longrightarrow> okCell P T c" "filter (filled T) cs = map ((!) (moving S)) A"
    "blocksAt T cs = map (\<lambda>g. cellAt S (moving S ! g)) A" "distinct A \<Longrightarrow> bufferedIn T cs = int (card {g\<in>set A. isBufferCell (moving S ! g)})"
proof -
  let ?G = "moving S" and ?C = "(!) (moving S) ` D"
  obtain U where T: "T = cleared P ?C U" and U: "pma U = pma S" "bufferArray U = bufferArray S" "sdsSize U = sdsSize S"
    using mv unfolding movedOut_def by (auto simp del: cleared_updates)
  have wf: "wfCells P S" using set by (simp add: rebSetting_def)
  have same: "hasCell U c = hasCell S c" "cellAt U c = cellAt S c" "beyond U c = beyond S c" for c by (cases c; simp add: U)+
  have ok: "okCell P S c" if "c \<in> set cs" for c using wfCells_sub(2) [OF wf rebSetting_facts(2) [OF set i]] sub that by blast
  have cellT: "cellAt T c = (if c \<in> ?C then emptyEntry P else cellAt S c)" if "c \<in> set cs" for c
    using ok [OF that] cleared_at [of U c P ?C] same unfolding T by (simp add: okCell_def)
  show "okCell P T c" if "c \<in> set cs" for c
    using ok [OF that] cellT [OF that] same unfolding okCell_def T by (auto simp: okEntry_def)
  have D: "D \<subseteq> {..<length ?G}" using mv by (simp add: movedOut_def)
  have notD: "c \<notin> ?C" if c: "c \<in> set cs" "filled S c" for c
  proof
    assume "c \<in> ?C"
    then obtain g where g: "g \<in> D" "c = ?G ! g" by blast
    have "c \<in> set (filter (filled S) cs)" using c by simp
    then obtain h where h: "h \<in> set A" "c = ?G ! h" unfolding fil by auto
    have "g < length ?G" "h < length ?G" using g(1) D h(1) A(2) by auto
    then have "g = h" using moving_distinct(1) [OF set] g(2) h(2) nth_eq_iff_index_eq by metis
    then show False using A(1) g h by blast
  qed
  have "filled T c = filled S c" if "c \<in> set cs" for c
  proof (cases "filled S c")
    case True
    then show ?thesis using cellT [OF that] notD [OF that] by (simp add: filled_def)
  next
    case False
    then show ?thesis using cellT [OF that] by (simp add: filled_def isEmpty_def emptyEntry_def)
  qed
  then have "filter (filled T) cs = filter (filled S) cs" by (intro filter_cong) auto
  then show f: "filter (filled T) cs = map ((!) ?G) A" by (simp add: fil)
  have "cellAt T (?G ! g) = cellAt S (?G ! g)" if "g \<in> set A" for g
  proof -
    have "?G ! g \<in> set (filter (filled S) cs)" using that fil by simp
    then show ?thesis using cellT notD by simp
  qed
  then show "blocksAt T cs = map (\<lambda>g. cellAt S (?G ! g)) A" by (simp add: blocksAt_def f)
  assume d: "distinct A"
  have "length (filter isBufferCell (map ((!) ?G) A)) = length (filter (\<lambda>g. isBufferCell (?G ! g)) A)" by (simp add: filter_map o_def)
  also have "\<dots> = card (set (filter (\<lambda>g. isBufferCell (?G ! g)) A))" using distinct_card [of "filter (\<lambda>g. isBufferCell (?G ! g)) A"] d by simp
  finally show "bufferedIn T cs = int (card {g\<in>set A. isBufferCell (?G ! g)})" by (simp add: bufferedIn_def f)
qed


lemma swap_part:
  assumes Q: "\<And>q. q < n \<Longrightarrow> Q ! (b + q) = p + q" and "p + n \<le> length sw" "distinct Q" "D \<subseteq> {..<length Q}" "b + n \<le> length Q" "D \<inter> {b..<b + n} = {}"
    and inn: "\<And>g. g \<in> D \<Longrightarrow> Q ! g < length sw" and old: "\<And>g. g \<in> D \<Longrightarrow> sw ! (Q ! g) = w g" "\<And>p. p < length sw \<Longrightarrow> p \<notin> (!) Q ` D \<Longrightarrow> sw ! p = e p"
  shows "\<And>g. g \<in> D \<union> {b..<b + n} \<Longrightarrow> writeAt p (map w [b..<b + n]) sw ! (Q ! g) = w g"
    "\<And>r. r < length sw \<Longrightarrow> r \<notin> (!) Q ` (D \<union> {b..<b + n}) \<Longrightarrow> writeAt p (map w [b..<b + n]) sw ! r = e r"
proof -
  have at: "writeAt p (map w [b..<b + n]) sw ! r = (if p \<le> r \<and> r < p + n then w (b + (r - p)) else sw ! r)" if "r < length sw" for r
    using assms(2) that by (auto simp: writeAt_nth)
  have apart: "\<not> (p \<le> Q ! g \<and> Q ! g < p + n)" if g: "g \<in> D" for g
  proof
    assume r: "p \<le> Q ! g \<and> Q ! g < p + n"
    then have "Q ! g - p < n" "p + (Q ! g - p) = Q ! g" by linarith+
    then have "Q ! (b + (Q ! g - p)) = Q ! g" using Q by metis
    moreover have "b + (Q ! g - p) < length Q" "g < length Q" using assms(4,5) g r by auto
    ultimately have "b + (Q ! g - p) = g" using assms(3) nth_eq_iff_index_eq by metis
    moreover have "b + (Q ! g - p) \<in> {b..<b + n}" using r by auto
    ultimately show False using assms(6) g by auto
  qed
  show "writeAt p (map w [b..<b + n]) sw ! (Q ! g) = w g" if g: "g \<in> D \<union> {b..<b + n}" for g
  proof (cases "g \<in> D")
    case True
    have "writeAt p (map w [b..<b + n]) sw ! (Q ! g) = sw ! (Q ! g)" using apart [OF True] at [OF inn [OF True]] by auto
    then show ?thesis using old(1) [OF True] by simp
  next
    case False
    then obtain q where q: "g = b + q" "q < n" using g by (metis UnE atLeastLessThan_iff le_Suc_ex nat_add_left_cancel_less)
    then show ?thesis using at [of "p + q"] Q [of q] assms(2) by simp
  qed
  show "writeAt p (map w [b..<b + n]) sw ! r = e r" if r: "r < length sw" "r \<notin> (!) Q ` (D \<union> {b..<b + n})" for r
  proof -
    have "\<not> (p \<le> r \<and> r < p + n)"
    proof
      assume "p \<le> r \<and> r < p + n"
      then have "r = Q ! (b + (r - p))" "b + (r - p) \<in> {b..<b + n}" using Q [of "r - p"] by auto
      then show False using r(2) by blast
    qed
    then show ?thesis using at [OF r(1)] old(2) [OF r(1)] r(2) by auto
  qed
qed

lemma places_in:
  assumes set: "rebSetting P L S" and g: "g < length (moving S)"
  shows "places S ! g < length (swapPma S)"
proof -
  obtain i k where i: "i < length (rebalancingTasks S)" "k < length (taskCells S (rebalancingTasks S ! i))" "g = firstNumber S i + k"
    using concat_find [OF g] by (auto simp: firstNumber_def) (auto simp: cellLists_def)
  then show ?thesis using moving_at(2) [OF i(1,2)] rebSetting_facts(5,6) [OF set i(1)] rebSetting_task(2) [OF set i(1)] by simp
qed

lemma move_part:
  assumes set: "rebSetting P L S" and mv: "movedOut P S D m T" and i: "i < length (rebalancingTasks S)"
    and x: "atBlock S (rebalancingTasks S ! i) k x" and y: "atBlock S (rebalancingTasks S ! i) l y"
    and kl: "k < l" "l \<le> length (taskCells S (rebalancingTasks S ! i))" and D: "D \<inter> {firstNumber S i + k..<firstNumber S i + l} = {}"
  shows "\<exists>T'. rebalanceLoop P (pmaRange (rebalancingTasks S ! i)) (int (taskLo (rebalancingTasks S ! i) + k)) y x 0 T = Some (int (l - k), T') \<and>
     movedOut P S (D \<union> {firstNumber S i + k..<firstNumber S i + l}) m T'"
proof -
  let ?t = "rebalancingTasks S ! i" and ?G = "moving S" and ?Q = "places S" and ?b = "firstNumber S i + k"
  let ?A = "[?b..<?b + (l - k)]" and ?w = "\<lambda>g. cellAt S (moving S ! g)"
  note f = rebSetting_facts [OF set i] and bt = between_blocks [OF x y kl] and sel = movedOut_sel [OF mv]
  have bl: "firstNumber S i + l \<le> length ?G" using kl(2) firstNumber_Suc [OF i] startIn_le [of "cellLists S" "Suc i"] by (simp add: firstNumber_def)
  have sum: "?b + (l - k) = firstNumber S i + l" using kl by simp
  define cs where "cs = cellsFrom (bufferPointers S) x y"
  have fil: "filter (filled S) cs = map ((!) ?G) ?A"
  proof -
    have "slice (taskCells S ?t) k l = map ((!) ?G) ?A" 
    proof (rule nth_equalityI)
      fix q assume "q < length (slice (taskCells S ?t) k l)"
      then have "q < l - k" using kl by simp
      then show "slice (taskCells S ?t) k l ! q = map ((!) ?G) ?A ! q" using moving_at(1) [OF i, of "k + q"] kl by (simp add: slice_nth ac_simps)
    qed (use kl in simp)
    then show ?thesis using bt(2) by (simp add: cs_def)
  qed
  have A: "D \<inter> set ?A = {}" "set ?A \<subseteq> {..<length ?G}" using D bl unfolding sum by auto
  note c = movedOut_cells [OF mv set i, of cs, OF bt(3) [folded cs_def] fil A]
  have pos: "okPosition (bufferPointers T) x" "okPosition (bufferPointers T) y" using x y by (auto simp: atBlock_def sel(3))
  have "okPointers T" using set by (simp add: rebSetting_def wfCells_def okPointers_def sel(3))
  then have loop: "rebalanceLoop P (pmaRange ?t) (int (taskLo ?t + k)) y x 0 T = foldM (moveCell P (pmaRange ?t) (int (taskLo ?t + k))) cs (int 0, T)"
    using rebalanceLoop_cells [of T x y P "pmaRange ?t" "int (taskLo ?t + k)" 0] pos by (simp add: sel(3) cs_def)
  have room: "taskLo ?t + l \<le> length (swapPma S)" using f(5,6) rebSetting_task(2) [OF set i] kl(2) by linarith
  let ?T = "T\<lparr>swapPma := writeAt (taskLo ?t + k) (map ?w ?A) (swapPma T), bufferReads := bufferReads T + int (card {g\<in>set ?A. isBufferCell (?G ! g)})\<rparr>"
  have "foldM (moveCell P (pmaRange ?t) (int (taskLo ?t + k))) cs (int 0, T) = Some (int (l - k), cleared P (set (map ((!) ?G) ?A)) ?T)"
  proof -
    have "foldM (moveCell P (pmaRange ?t) (int (taskLo ?t + k))) cs (int 0, T) =
       Some (int (0 + length (filter (filled T) cs)), cleared P (set (filter (filled T) cs))
          (T\<lparr>swapPma := writeAt (taskLo ?t + k + 0) (blocksAt T cs) (swapPma T), bufferReads := bufferReads T + bufferedIn T cs\<rparr>))"
    proof (rule moveCells_ok)
      have "wfCells P S" using set by (simp add: rebSetting_def)
      then show "distinct cs" using bt(4) wfCells_sub(1) [OF _ f(2)] by (simp add: cs_def)
      show "taskLo ?t + k + 0 + length (filter (filled T) cs) \<le> length (swapPma T)" using room kl unfolding c(2) by (simp add: sel(5))
      show "intervalContains (pmaRange ?t) (int (taskLo ?t + k + 0 + q))" if "q < length (filter (filled T) cs)" for q
        using that kl f(5,6) unfolding c(2) by (simp add: intervalContains_def)
    qed (rule c(1))
    then show ?thesis unfolding c(2) c(3) c(4) [OF distinct_upt] by simp
  qed
  moreover have "movedOut P S (D \<union> {firstNumber S i + k..<firstNumber S i + l}) m (cleared P (set (map ((!) ?G) ?A)) ?T)"
  proof -
    obtain sw where T: "T = cleared P ((!) ?G ` D) (S\<lparr>swapPma := sw, rebalancingManager := m, bufferReads := bufferReads S + int (card {g\<in>D. isBufferCell (?G ! g)})\<rparr>)"
        "length sw = length (swapPma S)" "\<And>g. g \<in> D \<Longrightarrow> sw ! (?Q ! g) = ?w g" "\<And>p. p < length sw \<Longrightarrow> p \<notin> (!) ?Q ` D \<Longrightarrow> sw ! p = swapPma S ! p"
      and D': "D \<subseteq> {..<length ?G}" using mv unfolding movedOut_def by blast
    have Q: "?Q ! (?b + q) = taskLo ?t + k + q" if "q < l - k" for q using moving_at(2) [OF i, of "k + q"] that kl(2) by (simp add: ac_simps)
    have rm: "taskLo ?t + k + (l - k) \<le> length sw" using room kl T(2) by simp
    have Ds: "D \<subseteq> {..<length ?Q}" "?b + (l - k) \<le> length ?Q" "D \<inter> {?b..<?b + (l - k)} = {}" using D' bl D unfolding sum by auto
    have inn: "?Q ! g < length sw" if "g \<in> D" for g using places_in [OF set, of g] D' that T(2) by auto
    note sp = swap_part [OF Q rm moving_distinct(2) [OF set] Ds inn T(3,4)]
    have sw: "swapPma T = sw" "bufferReads T = bufferReads S + int (card {g\<in>D. isBufferCell (?G ! g)})" unfolding T(1) by (simp_all add: cleared_def)
    have card: "card {g \<in> D \<union> {?b..<?b + (l - k)}. isBufferCell (?G ! g)} = card {g\<in>D. isBufferCell (?G ! g)} + card {g\<in>set ?A. isBufferCell (?G ! g)}"
    proof (subst card_Un_disjoint [symmetric])
      show "finite {g\<in>D. isBufferCell (?G ! g)}" using D' finite_subset by fastforce
      show "{g \<in> D. isBufferCell (?G ! g)} \<inter> {g \<in> set ?A. isBufferCell (?G ! g)} = {}" using A(1) by blast
    qed (auto intro: arg_cong [where f = card])
    have eq: "cleared P (set (map ((!) ?G) ?A)) ?T = cleared P ((!) ?G ` (D \<union> {?b..<?b + (l - k)}))
        (S\<lparr>swapPma := writeAt (taskLo ?t + k) (map ?w ?A) sw, rebalancingManager := m, bufferReads := bufferReads S + int (card {g \<in> D \<union> {?b..<?b + (l - k)}. isBufferCell (?G ! g)})\<rparr>)"
    proof -
      have "set (map ((!) ?G) ?A) \<union> (!) ?G ` D = (!) ?G ` (D \<union> {?b..<?b + (l - k)})" by auto
      then show ?thesis unfolding sw(2) card unfolding sw(1) unfolding T(1) by (simp add: cleared_cleared add.assoc)
    qed
    have "length (writeAt (taskLo ?t + k) (map ?w ?A) sw) = length (swapPma S)" using rm T(2) by simp
    moreover have "D \<union> {?b..<?b + (l - k)} \<subseteq> {..<length ?G}" using Ds by auto
    ultimately show ?thesis unfolding movedOut_def sum [symmetric]
    proof (intro conjI exI [of _ "writeAt (taskLo ?t + k) (map ?w ?A) sw"] ballI allI impI)
      fix p assume "p < length (writeAt (taskLo ?t + k) (map ?w ?A) sw)" "p \<notin> (!) ?Q ` (D \<union> {?b..<?b + (l - k)})"
      then show "writeAt (taskLo ?t + k) (map ?w ?A) sw ! p = swapPma S ! p" using sp(2) rm by simp
    next
      fix g assume "g \<in> D \<union> {?b..<?b + (l - k)}"
      then show "writeAt (taskLo ?t + k) (map ?w ?A) sw ! (?Q ! g) = ?w g" using sp(1) [of g] by simp
    qed (assumption | rule eq)+
  qed
  ultimately show ?thesis using loop by auto
qed

section \<open>The parts of a thread\<close>

text \<open>What the cells and tasks are depends on a few parts of the state only.\<close>

definition sameCells :: "('k, 'v) sds \<Rightarrow> ('k, 'v) sds \<Rightarrow> bool" where
  "sameCells S T \<longleftrightarrow> pma T = pma S \<and> bufferArray T = bufferArray S \<and> bufferPointers T = bufferPointers S \<and> sdsSize T = sdsSize S \<and>
     sdsCapacity T = sdsCapacity S \<and> rebalancingTasks T = rebalancingTasks S"

lemma sameCells_cell:
  assumes "sameCells S T"
  shows "cellAt T c = cellAt S c" "hasCell T c = hasCell S c" "beyond T c = beyond S c"
  using assms by (cases c; simp add: sameCells_def)+

lemma sameCells_cells:
  assumes "sameCells S T"
  shows "filled T = filled S" "okCell P T = okCell P S" "usedWidth T = usedWidth S" "cellsUpTo T = cellsUpTo S" "viewOf P T = viewOf P S" "unbuffered T = unbuffered S"
  using assms sameCells_cell [OF assms]
  by (simp_all add: fun_eq_iff filled_def okCell_def usedWidth_def cellsUpTo_def viewOf_def emptyAt_def numberOfBufferBlocks_def unbuffered_def sameCells_def)

lemma sameCells_tasks:
  assumes "sameCells S T"
  shows "wfCells P T = wfCells P S" "okTask P L T = okTask P L S" "taskHi T = taskHi S" "taskCells T = taskCells S" "cellLists T = cellLists S" "placeLists T = placeLists S"
    "firstNumber T = firstNumber S" "atBlock T = atBlock S"
proof -
  note c = sameCells_cells [OF assms]
  show w: "wfCells P T = wfCells P S" "okTask P L T = okTask P L S" and h: "taskHi T = taskHi S"
    using assms unfolding wfCells_def okTask_def taskHi_def okPointers_def c fun_eq_iff by (simp_all add: sameCells_def)
  show t: "taskCells T = taskCells S" unfolding taskCells_def h c ..
  show l: "cellLists T = cellLists S" "placeLists T = placeLists S" using assms unfolding cellLists_def placeLists_def t by (simp_all add: sameCells_def)
  show "firstNumber T = firstNumber S" unfolding firstNumber_def l ..
  show "atBlock T = atBlock S" using assms unfolding atBlock_def h t c by (simp add: sameCells_def)
qed

lemma sameCells_setting:
  assumes "sameCells S T" "rebalancingManager T = rebalancingManager S"
    and "rebSetting P L S" "\<And>t. t \<in> set (rebalancingTasks S) \<Longrightarrow> iright (pmaRange t) \<le> int (length (swapPma T))"
  shows "rebSetting P L T"
proof -
  have "rebalancingTasks T = rebalancingTasks S" using assms(1) by (simp add: sameCells_def)
  then show ?thesis using assms(2-4) unfolding rebSetting_def sameCells_tasks [OF assms(1)] sameCells_cells [OF assms(1)] by simp
qed

lemma sameCells_assign [simp]: "sameCells S (S\<lparr>tasks := x\<rparr>)"
  by (simp add: sameCells_def)

lemmas tasks_irrelevant [simp] = sameCells_cell [OF sameCells_assign] sameCells_cells [OF sameCells_assign] sameCells_tasks [OF sameCells_assign]

lemma tasks_irrelevant_setting: "rebSetting P L S \<Longrightarrow> rebSetting P L (S\<lparr>tasks := x\<rparr>)"
  by (rule sameCells_setting [OF sameCells_assign]) (auto simp: rebSetting_def)

definition okPrefixes :: "('k, 'v) sds \<Rightarrow> bool" where
  "okPrefixes S \<longleftrightarrow> rebalancingTasks S \<noteq> [] \<and>
     prefixNumberOfRebalancingBlocks S = map (\<lambda>i. int (firstNumber S (Suc i))) [0..<length (rebalancingTasks S)] @ [int (length (moving S))]"

lemma firstNumber_mono: "i \<le> j \<Longrightarrow> firstNumber S i \<le> firstNumber S j"
  unfolding firstNumber_def by (rule startIn_mono)

lemma firstNumber_le: "firstNumber S i \<le> length (moving S)"
  unfolding firstNumber_def by (rule startIn_le)

lemma okPrefixes_at:
  assumes "okPrefixes S" "i \<le> length (rebalancingTasks S)"
  shows "prefixNumberOfRebalancingBlocks S ! i = int (if i < length (rebalancingTasks S) then firstNumber S (Suc i) else length (moving S))"
  using assms by (simp add: okPrefixes_def nth_append)

lemma findRebalancingTask_ok:
  assumes pre: "okPrefixes S" and b: "b \<le> length (moving S)"
  shows "\<exists>i<length (rebalancingTasks S). findRebalancingTask S (int b) = Some (int i) \<and> b \<le> firstNumber S (Suc i) \<and> (i = 0 \<or> firstNumber S i < b)"
proof -
  let ?T = "length (rebalancingTasks S)" and ?xs = "prefixNumberOfRebalancingBlocks S" and ?bl = "\<lambda>p. p < int b"
  have T: "0 < ?T" "length ?xs = Suc ?T" using pre by (auto simp: okPrefixes_def)
  note at = okPrefixes_at [OF pre]
  have mono: "?xs ! i \<le> ?xs ! j" if "i \<le> j" "j \<le> ?T" for i j
    using at [of i] at [of j] that firstNumber_mono [of "Suc i" "Suc j" S] firstNumber_le [of S "Suc i"] by auto
  have part: "?bl (?xs ! nat i)" if i: "0 \<le> i" "i \<le> j" "j < 0 + int (length ?xs)" "?bl (?xs ! nat j)" for i j
  proof -
    have "nat i \<le> nat j" "nat j \<le> ?T" using i T by linarith+
    then show ?thesis using mono [of "nat i" "nat j"] i(4) by linarith
  qed
  obtain r where r: "std_lower_bound ?bl ?xs 0 (int (length ?xs)) = Some r" "0 \<le> r" "r \<le> int (length ?xs)"
     "\<forall>i. 0 \<le> i \<and> i < r \<longrightarrow> ?bl (?xs ! nat i)" "\<forall>i. r \<le> i \<and> i < int (length ?xs) \<longrightarrow> \<not> ?bl (?xs ! nat i)"
    using std_lower_bound_ok [of 0 "int (length ?xs)" ?xs ?bl] part by auto
  define i where "i = nat r"
  have ri: "r = int i" using r(2) by (simp add: i_def)
  have lastT: "\<not> ?bl (?xs ! (?T - 1))"
  proof -
    have "?xs ! (?T - 1) = int (firstNumber S ?T)" using at [of "?T - 1"] T(1) by simp
    then show ?thesis using b by simp
  qed
  have i: "i < ?T"
  proof (rule ccontr)
    assume "\<not> i < ?T"
    then show False using r(4) lastT T(1) ri by (metis diff_less less_one linorder_not_less nat_int of_nat_0_le_iff of_nat_less_iff order_less_le_trans)
  qed
  have "b \<le> firstNumber S (Suc i)" using spec [OF r(5), of r] ri i T at [of i] by simp
  moreover have "firstNumber S i < b" if "i \<noteq> 0"
  proof -
    have "?bl (?xs ! nat (int (i - 1)))" using spec [OF r(4), of "int (i - 1)"] ri that by linarith
    moreover have "i - 1 < ?T" "i - 1 \<le> ?T" "Suc (i - 1) = i" using i that by auto
    ultimately show ?thesis using at [of "i - 1"] unfolding nat_int by (simp del: One_nat_def)
  qed
  ultimately show ?thesis using r(1) i ri unfolding findRebalancingTask_def by auto
qed

text \<open>A part of task \<open>i\<close>: its blocks among the blocks from \<open>lo\<close> to \<open>hi\<close>, counted over all tasks.\<close>

definition partOk :: "('k, 'v) sds \<Rightarrow> nat \<Rightarrow> nat \<Rightarrow> nat \<Rightarrow> PartialRebalancingTask \<Rightarrow> bool" where
  "partOk S lo hi i f \<longleftrightarrow>
     (let k = max lo (firstNumber S i) - firstNumber S i; l = min hi (firstNumber S (Suc i)) - firstNumber S i
      in if l \<le> k then f = emptyPartialTask
         else \<exists>x y. f = \<lparr>blockStart = x, blockEnd = y, outputOffset = int k\<rparr> \<and> atBlock S (rebalancingTasks S ! i) k x \<and> atBlock S (rebalancingTasks S ! i) l y)"

lemma taskBlockRange_ok:
  assumes pre: "okPrefixes S" and i: "i < length (rebalancingTasks S)"
  shows "taskBlockRange S (int i) = Some (mkInterval (int (firstNumber S i)) (int (firstNumber S (Suc i))))"
proof -
  have len: "length (prefixNumberOfRebalancingBlocks S) = Suc (length (rebalancingTasks S))" using pre by (simp add: okPrefixes_def)
  have r: "idx (prefixNumberOfRebalancingBlocks S) (int i) = Some (int (firstNumber S (Suc i)))" using okPrefixes_at [OF pre, of i] i len by simp
  have l: "(if int i > 0 then idx (prefixNumberOfRebalancingBlocks S) (int i - 1) else Some 0) = Some (int (firstNumber S i))"
  proof (cases i)
    case (Suc k)
    then show ?thesis using okPrefixes_at [OF pre, of k] i len by simp
  qed simp
  show ?thesis unfolding taskBlockRange_def l r by simp
qed

lemma cut_local:
  assumes "lo \<le> hi" "a \<le> b"
  shows "cut (mkInterval (int a) (int b)) (mkInterval (int lo) (int hi)) =
     (if min hi b - a \<le> max lo a - a then mkInterval 0 0 else mkInterval (int a + int (max lo a - a)) (int a + int (min hi b - a)))"
  using assms by (auto simp: cut_def Let_def mkInterval_def intervalLength_def)

lemma getPartialRebalancingRange_ok:
  assumes set: "rebSetting P L S" and pre: "okPrefixes S" and i: "i < length (rebalancingTasks S)" and lohi: "lo \<le> hi"
  shows "\<exists>f. getPartialRebalancingRange P dm S (int i) (mkInterval (int lo) (int hi)) = Some f \<and> partOk S lo hi i f"
proof -
  let ?t = "rebalancingTasks S ! i" and ?a = "firstNumber S i" and ?b = "firstNumber S (Suc i)"
  define k where "k = max lo ?a - ?a"
  define l where "l = min hi ?b - ?a"
  have n: "?b = ?a + length (taskCells S ?t)" by (rule firstNumber_Suc [OF i])
  have cutE: "cut (mkInterval (int ?a) (int ?b)) (mkInterval (int lo) (int hi)) =
      (if l \<le> k then mkInterval 0 0 else mkInterval (int ?a + int k) (int ?a + int l))"
    unfolding k_def l_def using lohi n by (intro cut_local) simp_all
  show ?thesis
  proof (cases "l \<le> k")
    case True
    then show ?thesis using taskBlockRange_ok [OF pre i]
      by (intro exI [of _ emptyPartialTask]) (simp add: getPartialRebalancingRange_def cutE del: cut_mk, simp add: partOk_def k_def [symmetric] l_def [symmetric])
  next
    case False
    have l: "l \<le> length (taskCells S ?t)" using n by (simp add: l_def)
    have d: "wfCells P S" "0 < SegmentWidth P" "brmLayout L (rebalancingManager S)" "consistent P (viewOf P S) L (rebalancingManager S)"
      using set by (auto simp: rebSetting_def)
    have k: "k \<le> length (taskCells S ?t)" using False l by simp
    obtain x where x: "findBlockInRebalancingTask P dm (viewOf P S) (rebalancingManager S) (rootNode ?t) (int k) = Some x" "atBlock S ?t k x"
      using find_position [OF d rebSetting_task(1) [OF set i] k] by blast
    obtain y where y: "findBlockInRebalancingTask P dm (viewOf P S) (rebalancingManager S) (rootNode ?t) (int l) = Some y" "atBlock S ?t l y"
      using find_position [OF d rebSetting_task(1) [OF set i] l] by blast
    have "getPartialRebalancingRange P dm S (int i) (mkInterval (int lo) (int hi)) = Some \<lparr>blockStart = x, blockEnd = y, outputOffset = int k\<rparr>"
      using taskBlockRange_ok [OF pre i] x(1) y(1) False l i rebSetting_facts(3) [OF set i]
      by (simp add: getPartialRebalancingRange_def cutE taskAt_def del: cut_mk)
    then show ?thesis using x(2) y(2) False by (auto simp: partOk_def k_def [symmetric] l_def [symmetric])
  qed
qed

section \<open>Executing the parts\<close>

definition movedInv :: "('k::linorder, 'v) tparams \<Rightarrow> nat \<Rightarrow> ('k, 'v) sds \<Rightarrow> nat set \<Rightarrow> ('k, 'v) sds \<Rightarrow> bool" where
  "movedInv P L S D T \<longleftrightarrow> (\<exists>m N. movedOut P S D m T \<and> flagsCleared L (rebalancingManager S) N m \<and> N \<subseteq> rootNode ` set (rebalancingTasks S) \<and>
     (\<forall>i<length (rebalancingTasks S). D \<inter> {firstNumber S i..<firstNumber S (Suc i)} \<noteq> {} \<longrightarrow> rootNode (rebalancingTasks S ! i) \<in> N))"

lemma movedInv_clear:
  assumes set: "rebSetting P L S" and inv: "movedInv P L S D T" and i: "i < length (rebalancingTasks S)"
  obtains m N where "clearRebalancedFlag P (rebalancingManager T) (rootNode (rebalancingTasks S ! i)) = Some m" "movedOut P S D m (T\<lparr>rebalancingManager := m\<rparr>)"
    "flagsCleared L (rebalancingManager S) N m" "N \<subseteq> rootNode ` set (rebalancingTasks S)" "rootNode (rebalancingTasks S ! i) \<in> N"
    "\<forall>j<length (rebalancingTasks S). D \<inter> {firstNumber S j..<firstNumber S (Suc j)} \<noteq> {} \<longrightarrow> rootNode (rebalancingTasks S ! j) \<in> N"
    "rebalancingTasks T = rebalancingTasks S"
proof -
  let ?n = "rootNode (rebalancingTasks S ! i)"
  obtain m N where m: "movedOut P S D m T" "flagsCleared L (rebalancingManager S) N m" "N \<subseteq> rootNode ` set (rebalancingTasks S)"
     "\<forall>j<length (rebalancingTasks S). D \<inter> {firstNumber S j..<firstNumber S (Suc j)} \<noteq> {} \<longrightarrow> rootNode (rebalancingTasks S ! j) \<in> N"
    using inv by (auto simp: movedInv_def)
  note sel = movedOut_sel [OF m(1)]
  obtain m' where m': "clearRebalancedFlag P m ?n = Some m'" "flagsCleared L (rebalancingManager S) (insert ?n N) m'"
    using clearRebalancedFlag_ok [OF m(2), of ?n P] rebSetting_task(1) [OF set i] by (auto simp: okTask_def)
  show ?thesis using that [of m' "insert ?n N"] m' m(3,4) sel(1,2,6) i by auto
qed

lemma rebalanceBlocks_part:
  assumes set: "rebSetting P L S" and inv: "movedInv P L S D T" and i: "i < length (rebalancingTasks S)"
    and xy: "atBlock S (rebalancingTasks S ! i) k x" "atBlock S (rebalancingTasks S ! i) l y" "k < l" "l \<le> length (taskCells S (rebalancingTasks S ! i))"
    and D: "D \<inter> {firstNumber S i + k..<firstNumber S i + l} = {}"
  shows "\<exists>T'. rebalanceBlocks P (int i) x y (int k) T = Some (int (l - k), T') \<and> movedInv P L S (D \<union> {firstNumber S i + k..<firstNumber S i + l}) T'"
proof -
  let ?t = "rebalancingTasks S ! i" and ?A = "{firstNumber S i + k..<firstNumber S i + l}"
  obtain m N where m: "clearRebalancedFlag P (rebalancingManager T) (rootNode ?t) = Some m" "movedOut P S D m (T\<lparr>rebalancingManager := m\<rparr>)"
    "flagsCleared L (rebalancingManager S) N m" "N \<subseteq> rootNode ` set (rebalancingTasks S)" "rootNode ?t \<in> N"
    "\<forall>j<length (rebalancingTasks S). D \<inter> {firstNumber S j..<firstNumber S (Suc j)} \<noteq> {} \<longrightarrow> rootNode (rebalancingTasks S ! j) \<in> N"
    "rebalancingTasks T = rebalancingTasks S"
    by (rule movedInv_clear [OF set inv i])
  obtain T' where T': "rebalanceLoop P (pmaRange ?t) (int (taskLo ?t + k)) y x 0 (T\<lparr>rebalancingManager := m\<rparr>) = Some (int (l - k), T')"
     "movedOut P S (D \<union> ?A) m T'"
    using move_part [OF set m(2) i xy D] by blast
  have "rebalanceBlocks P (int i) x y (int k) T = Some (int (l - k), T')"
    using i m(1,7) T'(1) rebSetting_facts(5) [OF set i] by (simp add: rebalanceBlocks_def taskAt_def)
  moreover have "rootNode (rebalancingTasks S ! j) \<in> N" if j: "j < length (rebalancingTasks S)" "(D \<union> ?A) \<inter> {firstNumber S j..<firstNumber S (Suc j)} \<noteq> {}" for j
  proof (cases "D \<inter> {firstNumber S j..<firstNumber S (Suc j)} = {}")
    case True
    then obtain g where g: "firstNumber S i + k \<le> g" "g < firstNumber S i + l" "firstNumber S j \<le> g" "g < firstNumber S (Suc j)" using j(2) by auto
    have "firstNumber S i \<le> g" "g < firstNumber S (Suc i)" using g xy(4) firstNumber_Suc [OF i] by auto
    then have "j = i" using g(3,4) firstNumber_mono [of "Suc i" j S] firstNumber_mono [of "Suc j" i S] by (metis Suc_leI le_less_trans linorder_neqE_nat not_le)
    then show ?thesis using m(5) by simp
  qed (use m(6) j in auto)
  ultimately show ?thesis using T'(2) m(3,4) unfolding movedInv_def by blast
qed

lemma exec_partial:
  assumes set: "rebSetting P L S" and inv: "movedInv P L S D T" and i: "i < length (rebalancingTasks S)" and f: "partOk S lo hi i f"
    and D: "D \<inter> ({lo..<hi} \<inter> {firstNumber S i..<firstNumber S (Suc i)}) = {}"
  shows "\<exists>c T'. startPartialRebalancingTask P (int i) f T = Some (c, T') \<and> movedInv P L S (D \<union> ({lo..<hi} \<inter> {firstNumber S i..<firstNumber S (Suc i)})) T'"
proof -
  let ?t = "rebalancingTasks S ! i" and ?a = "firstNumber S i" and ?b = "firstNumber S (Suc i)"
  define k where "k = max lo ?a - ?a"
  define l where "l = min hi ?b - ?a"
  have n: "?b = ?a + length (taskCells S ?t)" by (rule firstNumber_Suc [OF i])
  show ?thesis
  proof (cases "l \<le> k")
    case True
    then have fe: "f = emptyPartialTask" using f by (simp add: partOk_def k_def l_def)
    have A: "{lo..<hi} \<inter> {?a..<?b} = {}" using True by (auto simp: k_def l_def)
    obtain m N where m: "clearRebalancedFlag P (rebalancingManager T) (rootNode ?t) = Some m" "movedOut P S D m (T\<lparr>rebalancingManager := m\<rparr>)"
      "flagsCleared L (rebalancingManager S) N m" "N \<subseteq> rootNode ` set (rebalancingTasks S)" "rootNode ?t \<in> N"
      "\<forall>j<length (rebalancingTasks S). D \<inter> {firstNumber S j..<firstNumber S (Suc j)} \<noteq> {} \<longrightarrow> rootNode (rebalancingTasks S ! j) \<in> N"
      "rebalancingTasks T = rebalancingTasks S"
      by (rule movedInv_clear [OF set inv i])
    have "startPartialRebalancingTask P (int i) f T = Some (0, T\<lparr>rebalancingManager := m\<rparr>)"
      using i m(1,7) by (simp add: fe emptyPartialTask_def startPartialRebalancingTask_def rebalanceBlocks_def taskAt_def rebalanceLoop.simps)
    then show ?thesis using m(2-4,6) unfolding movedInv_def A by auto
  next
    case False
    then obtain x y where xy: "f = \<lparr>blockStart = x, blockEnd = y, outputOffset = int k\<rparr>" "atBlock S ?t k x" "atBlock S ?t l y"
      using f by (auto simp: partOk_def k_def l_def)
    have A: "{lo..<hi} \<inter> {?a..<?b} = {?a + k..<?a + l}" using False by (auto simp: k_def l_def)
    have "l \<le> length (taskCells S ?t)" using n by (simp add: l_def)
    then show ?thesis
      using rebalanceBlocks_part [OF set inv i xy(2,3)] False D unfolding A by (auto simp: startPartialRebalancingTask_def xy(1))
  qed
qed

lemma exec_full:
  assumes set: "rebSetting P L S" and inv: "movedInv P L S D T" and i: "i < length (rebalancingTasks S)"
    and D: "D \<inter> {firstNumber S i..<firstNumber S (Suc i)} = {}"
  shows "\<exists>c T'. startFullRebalancingTask P (int i) T = Some (c, T') \<and> movedInv P L S (D \<union> {firstNumber S i..<firstNumber S (Suc i)}) T'"
proof -
  let ?t = "rebalancingTasks S ! i" and ?n = "length (taskCells S (rebalancingTasks S ! i))"
  obtain m where m: "movedOut P S D m T" using inv by (auto simp: movedInv_def)
  note sel = movedOut_sel [OF m] and f = rebSetting_facts [OF set i]
  have d: "wfCells P S" "0 < SegmentWidth P" using set by (auto simp: rebSetting_def)
  have hi: "int (taskHi S ?t) = min (max 1 (sdsSize S)) (iright (pmaRange ?t))" using f(1,7) unfolding taskHi_def usedWidth_def by linarith
  have "effectiveRange P ?t T = Some (Some (mkInterval (int (taskLo ?t)) (int (taskHi S ?t))))"
    using f(1,5) hi by (auto simp: effectiveRange_def Let_def intervalLength_def sel(4) mkInterval_def min_def split: if_splits)
  moreover obtain T' where "rebalanceBlocks P (int i) (ExtendedPmaIndex (int (taskLo ?t)) (-1)) (ExtendedPmaIndex (int (taskHi S ?t)) (-1)) (int 0) T = Some (int (?n - 0), T')"
     "movedInv P L S (D \<union> {firstNumber S i + 0..<firstNumber S i + ?n}) T'"
    using rebalanceBlocks_part [OF set inv i whole_task [OF d rebSetting_task(1) [OF set i]] f(4) order_refl] D firstNumber_Suc [OF i] by auto
  ultimately show ?thesis using i firstNumber_Suc [OF i] by (auto simp: startFullRebalancingTask_def taskAt_def sel(2))
qed


section \<open>The work of a thread\<close>

text \<open>
  A thread works on the blocks from \<open>lo\<close> to \<open>hi\<close>: on a part of its first task \<open>i\<close>, on all of the tasks behind it, and on a part of its last
  task \<open>j\<close>. Where each step adds its blocks to the set of finished ones, the thread adds all of its blocks.
\<close>

locale task_parts =
  fixes start :: "nat \<Rightarrow> nat" and first full final :: "int \<Rightarrow> 's \<Rightarrow> 's option" and lo hi i j :: nat and after :: "nat set \<Rightarrow> 's \<Rightarrow> bool"
  assumes start_mono: "a \<le> b \<Longrightarrow> start a \<le> start b"
    and spans: "after D s \<Longrightarrow> i \<le> j \<and> start i \<le> lo \<and> lo \<le> start (Suc i) \<and> hi \<le> start (Suc j) \<and> (i < j \<longrightarrow> start j \<le> hi) \<and> lo \<le> hi"
    and first_part: "after D s \<Longrightarrow> D \<inter> ({lo..<hi} \<inter> {start i..<start (Suc i)}) = {} \<Longrightarrow>
      \<exists>s'. first (int i) s = Some s' \<and> after (D \<union> ({lo..<hi} \<inter> {start i..<start (Suc i)})) s'"
    and full_task: "after D s \<Longrightarrow> i < q \<Longrightarrow> q < j \<Longrightarrow> D \<inter> {start q..<start (Suc q)} = {} \<Longrightarrow>
      \<exists>s'. full (int q) s = Some s' \<and> after (D \<union> {start q..<start (Suc q)}) s'"
    and final_part: "after D s \<Longrightarrow> i < j \<Longrightarrow> D \<inter> ({lo..<hi} \<inter> {start j..<start (Suc j)}) = {} \<Longrightarrow>
      \<exists>s'. final (int j) s = Some s' \<and> after (D \<union> ({lo..<hi} \<inter> {start j..<start (Suc j)})) s'"
begin

lemma full_tasks:
  assumes inv: "after D s" and i: "i < j" and D: "D \<inter> {start (Suc i)..<start j} = {}"
  shows "\<exists>s'. for_range (int i + 1) (int j) full s = Some s' \<and> after (D \<union> {start (Suc i)..<start j}) s'"
proof -
  have "\<exists>s'. for_range (int i + 1) (int j) full s = Some s' \<and> after (D \<union> {start (Suc i)..<start (nat (int j))}) s'"
  proof (rule for_range_inv)
    have "nat (int i + 1) = Suc i" by simp
    then show "after (D \<union> {start (Suc i)..<start (nat (int i + 1))}) s" using inv by (simp only: atLeastLessThan_empty order_refl Un_empty_right)
    fix r s assume r: "int i + 1 \<le> r" "r < int j" "after (D \<union> {start (Suc i)..<start (nat r)}) s"
    define q where "q = nat r"
    have q: "r = int q" "nat (r + 1) = Suc q" "i < q" "q < j" "Suc i \<le> q" "Suc q \<le> j" using r(1,2) by (auto simp: q_def)
    have bounds: "start (Suc i) \<le> start q" "start q \<le> start (Suc q)" "start (Suc q) \<le> start j" using q by (simp_all add: start_mono)
    have "(D \<union> {start (Suc i)..<start q}) \<inter> {start q..<start (Suc q)} = {}" using D bounds by fastforce
    then obtain s' where "full (int q) s = Some s'" "after (D \<union> {start (Suc i)..<start q} \<union> {start q..<start (Suc q)}) s'"
      using full_task [OF r(3) [unfolded q(1) nat_int] q(3,4)] by blast
    moreover have "D \<union> {start (Suc i)..<start q} \<union> {start q..<start (Suc q)} = D \<union> {start (Suc i)..<start (nat (r + 1))}"
      using bounds q(2) by auto
    ultimately show "\<exists>s'. full r s = Some s' \<and> after (D \<union> {start (Suc i)..<start (nat (r + 1))}) s'" using q(1) by simp
  qed (use i in simp)
  then show ?thesis by simp
qed

lemma all_parts:
  assumes inv: "after D s" and D: "D \<inter> {lo..<hi} = {}"
  shows "\<exists>s'. (do { s \<leftarrow> first (int i) s; s \<leftarrow> for_range (int i + 1) (int j) full s; if i < j then final (int j) s else Some s }) = Some s' \<and>
    after (D \<union> {lo..<hi}) s'"
proof -
  have sp: "i \<le> j" "start i \<le> lo" "lo \<le> start (Suc i)" "hi \<le> start (Suc j)" "i < j \<Longrightarrow> start j \<le> hi" "lo \<le> hi" using spans [OF inv] by auto
  obtain s1 where s1: "first (int i) s = Some s1" "after (D \<union> ({lo..<hi} \<inter> {start i..<start (Suc i)})) s1"
    using first_part [OF inv] D by blast
  show ?thesis
  proof (cases "i < j")
    case False
    then have "{lo..<hi} \<inter> {start i..<start (Suc i)} = {lo..<hi}" using sp by auto
    then show ?thesis using s1 False sp(1) by simp
  next
    case True
    have b: "start (Suc i) \<le> start j" "start j \<le> hi" using True sp(5) start_mono [of "Suc i" j] by auto
    have A: "{lo..<hi} \<inter> {start i..<start (Suc i)} = {lo..<start (Suc i)}" "{lo..<hi} \<inter> {start j..<start (Suc j)} = {start j..<hi}"
       "{lo..<start (Suc i)} \<union> {start (Suc i)..<start j} \<union> {start j..<hi} = {lo..<hi}" using sp b by auto
    have D1: "(D \<union> {lo..<start (Suc i)}) \<inter> {start (Suc i)..<start j} = {}"
      and D2: "(D \<union> {lo..<start (Suc i)} \<union> {start (Suc i)..<start j}) \<inter> {start j..<hi} = {}"
      using D A(3) b sp(3) by (fastforce, fastforce)
    obtain s2 where s2: "for_range (int i + 1) (int j) full s1 = Some s2" "after (D \<union> {lo..<start (Suc i)} \<union> {start (Suc i)..<start j}) s2"
      using full_tasks [OF s1(2) [unfolded A(1)] True D1] by blast
    obtain s3 where s3: "final (int j) s2 = Some s3" "after (D \<union> {lo..<start (Suc i)} \<union> {start (Suc i)..<start j} \<union> {start j..<hi}) s3"
      using final_part [OF s2(2) True, unfolded A(2), OF D2] by blast
    have "D \<union> {lo..<start (Suc i)} \<union> {start (Suc i)..<start j} \<union> {start j..<hi} = D \<union> {lo..<hi}" using A(3) by blast
    then show ?thesis using s1(1) s2(1) s3 True by simp
  qed
qed

end

definition spansTasks :: "('k, 'v) sds \<Rightarrow> nat \<Rightarrow> nat \<Rightarrow> nat \<Rightarrow> nat \<Rightarrow> bool" where
  "spansTasks S lo hi i j \<longleftrightarrow> i \<le> j \<and> j < length (rebalancingTasks S) \<and> lo \<le> firstNumber S (Suc i) \<and> firstNumber S i \<le> lo \<and>
     hi \<le> firstNumber S (Suc j) \<and> (i < j \<longrightarrow> firstNumber S j \<le> hi) \<and> lo \<le> hi"

text \<open>The end of the blocks of thread \<open>t\<close> of those that get \<open>w\<close> blocks each; they begin at \<open>t * w\<close>.\<close>

definition toOf :: "nat \<Rightarrow> nat \<Rightarrow> nat \<Rightarrow> nat" where
  "toOf N w t = min N (Suc t * w)"

definition parted :: "('k, 'v) sds \<Rightarrow> nat \<Rightarrow> nat \<Rightarrow> nat \<Rightarrow> nat \<Rightarrow> TaskInfo \<Rightarrow> bool" where
  "parted S lo hi i j r \<longleftrightarrow> rebalancingTaskRange r = mkInterval (int i) (int j + 1) \<and> spansTasks S lo hi i j \<and>
     partOk S lo hi i (firstRebalancingTask r) \<and> (i < j \<longrightarrow> partOk S lo hi j (lastRebalancingTask r))"

definition planned :: "('k, 'v) sds \<Rightarrow> nat \<Rightarrow> nat \<Rightarrow> TaskInfo \<Rightarrow> bool" where
  "planned S w t r \<longleftrightarrow> rebalancingBlockRange r = mkInterval (int (t * w)) (int (toOf (length (moving S)) w t)) \<and>
     (t * w < toOf (length (moving S)) w t \<longrightarrow> (\<exists>i j. parted S (t * w) (toOf (length (moving S)) w t) i j r))"

lemma after_state: "(\<exists>c s'. f s = Some (c, s') \<and> Q s') \<Longrightarrow> \<exists>s'. (do { (_, s) \<leftarrow> f s; Some s }) = Some s' \<and> Q s'"
  by auto

interpretation move_parts: task_parts "firstNumber S" "\<lambda>q T. do { (_, T) \<leftarrow> startPartialRebalancingTask P q (firstRebalancingTask r) T; Some T }"
  "\<lambda>q T. do { (_, T) \<leftarrow> startFullRebalancingTask P q T; Some T }"
  "\<lambda>q T. do { (_, T) \<leftarrow> startPartialRebalancingTask P q (lastRebalancingTask r) T; Some T }" lo hi i j
  "\<lambda>D T. rebSetting P L S \<and> parted S lo hi i j r \<and> movedInv P L S D T" for S P r lo hi i j L
proof
  show "firstNumber S a \<le> firstNumber S b" if "a \<le> b" for a b using that by (rule firstNumber_mono)
next
  fix D T assume inv: "rebSetting P L S \<and> parted S lo hi i j r \<and> movedInv P L S D T"
  then show "i \<le> j \<and> firstNumber S i \<le> lo \<and> lo \<le> firstNumber S (Suc i) \<and> hi \<le> firstNumber S (Suc j) \<and> (i < j \<longrightarrow> firstNumber S j \<le> hi) \<and> lo \<le> hi"
    by (auto simp: parted_def spansTasks_def)
  have le: "i < length (rebalancingTasks S)" "j < length (rebalancingTasks S)" using inv by (auto simp: parted_def spansTasks_def)
  show "\<exists>T'. (do { (_, T) \<leftarrow> startPartialRebalancingTask P (int i) (firstRebalancingTask r) T; Some T }) = Some T' \<and>
      (rebSetting P L S \<and> parted S lo hi i j r \<and> movedInv P L S (D \<union> ({lo..<hi} \<inter> {firstNumber S i..<firstNumber S (Suc i)})) T')"
    if "D \<inter> ({lo..<hi} \<inter> {firstNumber S i..<firstNumber S (Suc i)}) = {}"
    using exec_partial [of P L S D T i lo hi "firstRebalancingTask r"] inv le that by (intro after_state) (auto simp: parted_def)
  show "\<exists>T'. (do { (_, T) \<leftarrow> startFullRebalancingTask P (int q) T; Some T }) = Some T' \<and>
      (rebSetting P L S \<and> parted S lo hi i j r \<and> movedInv P L S (D \<union> {firstNumber S q..<firstNumber S (Suc q)}) T')"
    if "i < q" "q < j" "D \<inter> {firstNumber S q..<firstNumber S (Suc q)} = {}" for q
    using exec_full [of P L S D T q] inv le that by (intro after_state) auto
  show "\<exists>T'. (do { (_, T) \<leftarrow> startPartialRebalancingTask P (int j) (lastRebalancingTask r) T; Some T }) = Some T' \<and>
      (rebSetting P L S \<and> parted S lo hi i j r \<and> movedInv P L S (D \<union> ({lo..<hi} \<inter> {firstNumber S j..<firstNumber S (Suc j)})) T')"
    if "i < j" "D \<inter> ({lo..<hi} \<inter> {firstNumber S j..<firstNumber S (Suc j)}) = {}"
    using exec_partial [of P L S D T j lo hi "lastRebalancingTask r"] inv le that by (intro after_state) (auto simp: parted_def)
qed

lemma movedInv_tasks: "movedInv P L S D T \<Longrightarrow> tasks T = tasks S"
  unfolding movedInv_def movedOut_def by (auto simp: cleared_def)

lemma executeRebalancing_ok:
  assumes set: "rebSetting P L S" and inv: "movedInv P L S D T" and t: "t < length (tasks S)" "planned S w t (tasks S ! t)"
    and D: "D \<inter> {t * w..<toOf (length (moving S)) w t} = {}"
  shows "\<exists>T'. executeRebalancing P t T = Some T' \<and> movedInv P L S (D \<union> {t * w..<toOf (length (moving S)) w t}) T'"
proof -
  let ?lo = "t * w" and ?hi = "toOf (length (moving S)) w t" and ?r = "tasks S ! t"
  have get: "getTask T t = Some ?r" using t(1) movedInv_tasks [OF inv] by (simp add: getTask_def)
  have br: "rebalancingBlockRange ?r = mkInterval (int ?lo) (int ?hi)" using t(2) by (simp add: planned_def)
  show ?thesis
  proof (cases "?lo < ?hi")
    case False
    then show ?thesis using inv get br by (simp add: executeRebalancing_def del: of_nat_mult)
  next
    case True
    then obtain i j where p: "parted S ?lo ?hi i j ?r" using t(2) by (auto simp: planned_def)
    then have tr: "rebalancingTaskRange ?r = mkInterval (int i) (int j + 1)" "i \<le> j" by (auto simp: parted_def spansTasks_def)
    obtain T' where T': "(do { T \<leftarrow> (do { (_, T) \<leftarrow> startPartialRebalancingTask P (int i) (firstRebalancingTask ?r) T; Some T });
          T \<leftarrow> for_range (int i + 1) (int j) (\<lambda>q T. do { (_, T) \<leftarrow> startFullRebalancingTask P q T; Some T }) T;
          if i < j then do { (_, T) \<leftarrow> startPartialRebalancingTask P (int j) (lastRebalancingTask ?r) T; Some T } else Some T }) = Some T'"
        "movedInv P L S (D \<union> {?lo..<?hi}) T'"
      using move_parts.all_parts [of P L S ?lo ?hi i j ?r D T] set p inv D by auto
    have "executeRebalancing P t T = Some T'"
      using True get br tr T'(1) by (simp add: executeRebalancing_def split_beta' del: of_nat_mult cong: if_cong)
    then show ?thesis using T'(2) by blast
  qed
qed

section \<open>Distribution of the blocks to the threads\<close>

lemma tasks_irrelevant_parts [simp]:
  fixes S :: "('k::linorder, 'v) sds"
  shows "okPrefixes (S\<lparr>tasks := x\<rparr>) = okPrefixes S" "partOk (S\<lparr>tasks := x\<rparr>) lo hi i f = partOk S lo hi i f" "spansTasks (S\<lparr>tasks := x\<rparr>) lo hi i j = spansTasks S lo hi i j"
  by (simp_all add: okPrefixes_def partOk_def spansTasks_def)

lemma tasks_irrelevant_plan [simp]:
  fixes S :: "('k::linorder, 'v) sds"
  shows "planned (S\<lparr>tasks := x\<rparr>) w t r = planned S w t r"
  by (simp add: parted_def planned_def)

lemma thread_tasks:
  assumes pre: "okPrefixes S" and lt: "t * w < toOf (length (moving S)) w t"
  shows "\<exists>i j. findRebalancingTask S (int (t * w)) = Some (int i) \<and> findRebalancingTask S (int (toOf (length (moving S)) w t)) = Some (int j) \<and>
     spansTasks S (t * w) (toOf (length (moving S)) w t) i j"
proof -
  let ?lo = "t * w" and ?hi = "toOf (length (moving S)) w t"
  have hi: "?lo \<le> length (moving S)" "?hi \<le> length (moving S)" using lt by (auto simp: toOf_def)
  obtain i where i: "i < length (rebalancingTasks S)" "findRebalancingTask S (int ?lo) = Some (int i)" "?lo \<le> firstNumber S (Suc i)" "i = 0 \<or> firstNumber S i < ?lo"
    using findRebalancingTask_ok [OF pre hi(1)] by blast
  obtain j where j: "j < length (rebalancingTasks S)" "findRebalancingTask S (int ?hi) = Some (int j)" "?hi \<le> firstNumber S (Suc j)" "j = 0 \<or> firstNumber S j < ?hi"
    using findRebalancingTask_ok [OF pre hi(2)] by blast
  have ij: "i \<le> j"
  proof (rule ccontr)
    assume "\<not> i \<le> j"
    then have "firstNumber S (Suc j) \<le> firstNumber S i" "i \<noteq> 0" by (auto intro: firstNumber_mono)
    then show False using i(4) j(3) lt by simp
  qed
  have "spansTasks S ?lo ?hi i j" unfolding spansTasks_def using i j ij lt by auto
  then show ?thesis using i(2) j(2) by blast
qed

lemma assignRebalancing_ok:
  assumes set: "rebSetting P L S" and pre: "okPrefixes S" and t: "t < length (tasks S)"
  shows "\<exists>r. assignRebalancing P dm (int w) (int (length (moving S))) t S = Some (S\<lparr>tasks := (tasks S)[t := r]\<rparr>) \<and> planned S w t r"
proof -
  let ?N = "length (moving S)" and ?lo = "t * w" and ?hi = "toOf (length (moving S)) w t"
  let ?r0 = "(tasks S ! t)\<lparr>rebalancingBlockRange := mkInterval (int ?lo) (int ?hi)\<rparr>"
  have br: "threadBlockRange (int w) (int ?N) t = mkInterval (int ?lo) (int ?hi)"
    by (simp add: threadBlockRange_def toOf_def algebra_simps of_nat_min)
  show ?thesis
  proof (cases "?lo < ?hi")
    case False
    then have "assignRebalancing P dm (int w) (int ?N) t S = Some (S\<lparr>tasks := (tasks S)[t := ?r0]\<rparr>)"
      using t br by (simp add: assignRebalancing_def updateTask_def del: of_nat_mult)
    then show ?thesis using False by (intro exI [of _ ?r0]) (simp add: planned_def)
  next
    case True
    obtain i j where ij: "findRebalancingTask S (int ?lo) = Some (int i)" "findRebalancingTask S (int ?hi) = Some (int j)" and sp: "spansTasks S ?lo ?hi i j"
      using thread_tasks [OF pre True] by blast
    have i: "i < length (rebalancingTasks S)" and j: "j < length (rebalancingTasks S)" and le: "i \<le> j" using sp by (auto simp: spansTasks_def)
    have find: "findRebalancingTask (S\<lparr>tasks := x\<rparr>) b = findRebalancingTask S b" for x b by (simp add: findRebalancingTask_def)
    obtain f where f: "getPartialRebalancingRange P dm (S\<lparr>tasks := x\<rparr>) (int i) (mkInterval (int ?lo) (int ?hi)) = Some (f x)" "partOk S ?lo ?hi i (f x)" for x
    proof -
      have "\<exists>f. getPartialRebalancingRange P dm (S\<lparr>tasks := x\<rparr>) (int i) (mkInterval (int ?lo) (int ?hi)) = Some f \<and> partOk S ?lo ?hi i f" for x
        using getPartialRebalancingRange_ok [of P L "S\<lparr>tasks := x\<rparr>" i ?lo ?hi dm] tasks_irrelevant_setting [OF set] pre i True by auto
      then show thesis using that by metis
    qed
    obtain l where l: "getPartialRebalancingRange P dm (S\<lparr>tasks := x\<rparr>) (int j) (mkInterval (int ?lo) (int ?hi)) = Some (l x)" "partOk S ?lo ?hi j (l x)" for x
    proof -
      have "\<exists>f. getPartialRebalancingRange P dm (S\<lparr>tasks := x\<rparr>) (int j) (mkInterval (int ?lo) (int ?hi)) = Some f \<and> partOk S ?lo ?hi j f" for x
        using getPartialRebalancingRange_ok [of P L "S\<lparr>tasks := x\<rparr>" j ?lo ?hi dm] tasks_irrelevant_setting [OF set] pre j True by auto
      then show thesis using that by metis
    qed
    let ?r1 = "?r0\<lparr>rebalancingTaskRange := mkInterval (int i) (int j + 1)\<rparr>"
    define r2 where "r2 = ?r1\<lparr>firstRebalancingTask := f ((tasks S)[t := ?r1])\<rparr>"
    define r3 where "r3 = (if i < j then r2\<lparr>lastRebalancingTask := l ((tasks S)[t := r2])\<rparr> else r2)"
    have "assignRebalancing P dm (int w) (int ?N) t S = Some (S\<lparr>tasks := (tasks S)[t := r3]\<rparr>)"
      using t br True ij le f(1) l(1)
      by (simp add: assignRebalancing_def updateTask_def find r2_def r3_def Let_def del: of_nat_mult)
    moreover have "parted S ?lo ?hi i j r3" using sp f(2) l(2) by (simp add: parted_def r3_def r2_def)
    moreover have "rebalancingBlockRange r3 = mkInterval (int ?lo) (int ?hi)" by (simp add: r3_def r2_def)
    ultimately show ?thesis by (intro exI [of _ r3]) (auto simp: planned_def)
  qed
qed

definition assignedInv :: "('k::linorder, 'v) tparams \<Rightarrow> nat \<Rightarrow> nat \<Rightarrow> nat \<Rightarrow> ('k, 'v) sds \<Rightarrow> nat set \<Rightarrow> ('k, 'v) sds \<Rightarrow> bool" where
  "assignedInv P L w n S D T \<longleftrightarrow> rebSetting P L S \<and> okPrefixes S \<and> n \<le> length (tasks S) \<and>
     (\<exists>xs. T = S\<lparr>tasks := xs\<rparr> \<and> length xs = length (tasks S) \<and> (\<forall>t\<in>D. planned S w t (xs ! t)))"

interpretation assigning: task_region n "assignRebalancing P dm (int w) (int (length (moving S)))" "assignedInv P L w n S" for n P dm w S L
proof
  fix D T t assume inv: "assignedInv P L w n S D T" and t: "t < n" "t \<notin> D"
  then obtain xs where xs: "T = S\<lparr>tasks := xs\<rparr>" "length xs = length (tasks S)" "\<forall>t\<in>D. planned S w t (xs ! t)" by (auto simp: assignedInv_def)
  have d: "rebSetting P L T" "okPrefixes T" "t < length (tasks T)" using inv t xs tasks_irrelevant_setting by (auto simp: assignedInv_def)
  obtain r where r: "assignRebalancing P dm (int w) (int (length (moving T))) t T = Some (T\<lparr>tasks := (tasks T)[t := r]\<rparr>)" "planned T w t r"
    using assignRebalancing_ok [OF d] by blast
  have "T\<lparr>tasks := (tasks T)[t := r]\<rparr> = S\<lparr>tasks := xs[t := r]\<rparr>" "planned S w t r" "t < length xs" using xs r(2) d(3) by simp_all
  moreover from this have "\<forall>q\<in>insert t D. planned S w q (xs[t := r] ! q)" using xs(3) t(2) by (auto simp: nth_list_update)
  ultimately have "assignedInv P L w n S (insert t D) (T\<lparr>tasks := (tasks T)[t := r]\<rparr>)"
    using inv xs(2) unfolding assignedInv_def by (intro conjI exI [of _ "xs[t := r]"]) auto
  then show "\<exists>T'. assignRebalancing P dm (int w) (int (length (moving S))) t T = Some T' \<and> assignedInv P L w n S (insert t D) T'"
    using r(1) xs(1) by auto
qed

section \<open>All threads\<close>

definition blocksOfThreads :: "nat \<Rightarrow> nat \<Rightarrow> nat set \<Rightarrow> nat set" where
  "blocksOfThreads N w D = (\<Union>t\<in>D. {t * w..<toOf N w t})"

lemma blocksOfThreads_insert: "blocksOfThreads N w (insert t D) = blocksOfThreads N w D \<union> {t * w..<toOf N w t}"
  by (auto simp: blocksOfThreads_def)

lemma blocksOfThreads_apart:
  assumes "t \<notin> D"
  shows "blocksOfThreads N w D \<inter> {t * w..<toOf N w t} = {}"
proof -
  have apart: "{s * w..<toOf N w s} \<inter> {t * w..<toOf N w t} = {}" if "s \<noteq> t" for s
  proof (cases "s < t")
    case True
    then have "Suc s * w \<le> t * w" by (intro mult_le_mono1) simp
    then show ?thesis by (auto simp: toOf_def)
  next
    case False
    then have "Suc t * w \<le> s * w" using that by (intro mult_le_mono1) simp
    then show ?thesis by (auto simp: toOf_def)
  qed
  have "{s * w..<toOf N w s} \<inter> {t * w..<toOf N w t} = {}" if "s \<in> D" for s by (rule apart) (use that assms in metis)
  then show ?thesis unfolding blocksOfThreads_def by blast
qed

lemma blocksOfThreads_all:
  assumes "N < n * w"
  shows "blocksOfThreads N w {0..<n} = {..<N}"
proof -
  have "g \<in> blocksOfThreads N w {0..<n}" if g: "g < N" for g
  proof -
    have w: "0 < w" using assms by (cases w) auto
    have "g div w < n" using g assms w by (simp add: less_mult_imp_div_less)
    moreover have "(g div w) * w \<le> g" "g < Suc (g div w) * w" using w dividend_less_div_times [of w g] by (auto simp: div_times_less_eq_dividend)
    ultimately show ?thesis using g by (auto simp: blocksOfThreads_def toOf_def intro!: bexI [of _ "g div w"])
  qed
  then show ?thesis by (auto simp: blocksOfThreads_def toOf_def)
qed

text \<open>The number of blocks per thread is such that the threads get all of them.\<close>

lemma enough_threads: "0 < n \<Longrightarrow> N < n * (N div n + 1)" for n N :: nat
  using dividend_less_div_times [of n N] by (simp add: algebra_simps)

definition allMoved :: "('k::linorder, 'v) tparams \<Rightarrow> nat \<Rightarrow> nat \<Rightarrow> nat \<Rightarrow> ('k, 'v) sds \<Rightarrow> nat set \<Rightarrow> ('k, 'v) sds \<Rightarrow> bool" where
  "allMoved P L w n S D T \<longleftrightarrow> rebSetting P L S \<and> n \<le> length (tasks S) \<and> (\<forall>t<n. planned S w t (tasks S ! t)) \<and>
     movedInv P L S (blocksOfThreads (length (moving S)) w D) T"

interpretation moving_threads: task_region n "executeRebalancing P" "allMoved P L w n S" for n P L w S
proof
  fix D T t assume inv: "allMoved P L w n S D T" and t: "t < n" "t \<notin> D"
  then show "\<exists>T'. executeRebalancing P t T = Some T' \<and> allMoved P L w n S (insert t D) T'"
    using executeRebalancing_ok [of P L S "blocksOfThreads (length (moving S)) w D" T t w] blocksOfThreads_apart [OF t(2)]
    by (auto simp: allMoved_def blocksOfThreads_insert)
qed

section \<open>Clearing the pointers\<close>

definition pointersCleared :: "('k, 'v) sds \<Rightarrow> nat set \<Rightarrow> Interval list \<Rightarrow> bool" where
  "pointersCleared S D ps \<longleftrightarrow> length ps = length (bufferPointers S) \<and>
     (\<forall>j<length ps. ps ! j = bufferPointers S ! j \<or> ps ! j = emptyInterval) \<and>
     (\<forall>j<usedWidth S. \<not> unbuffered S j \<longrightarrow> last (entryCells (bufferPointers S) j) \<in> (!) (moving S) ` D \<longrightarrow> ps ! j = emptyInterval)"

text \<open>A part that has the last block of an entry ends behind this entry.\<close>

lemma last_cell_before:
  assumes wf: "wfCells P S" and pos: "okPosition (bufferPointers S) x" and j: "a \<le> j" "j < usedWidth S" "\<not> unbuffered S j" and x: "int a \<le> pmaIndex x" "pmaIndex x \<le> int (usedWidth S)"
  shows "last (entryCells (bufferPointers S) j) \<in> set (cellsBefore (bufferPointers S) a x) \<longleftrightarrow> int j < pmaIndex x"
proof
  let ?ps = "bufferPointers S" and ?c = "last (entryCells (bufferPointers S) j)"
  have nz: "entryCells ?ps j \<noteq> []" by (simp add: entryCells_def)
  define q where "q = nat (pmaIndex x)"
  have q: "pmaIndex x = int q" "a \<le> q" "q \<le> usedWidth S" using x by (auto simp: q_def)
  have d: "distinct (cellsUpTo S 0 (usedWidth S))" "okPointers S" "length ?ps = length (pma S)" "usedWidth S \<le> length (pma S)" using wf by (auto simp: wfCells_def)
  show "int j < pmaIndex x \<Longrightarrow> ?c \<in> set (cellsBefore ?ps a x)"
  proof -
    assume "int j < pmaIndex x"
    then have "j < q" using q by simp
    then show ?thesis using last_in_set [OF nz] j(1) q by (auto simp: cellsBefore_def)
  qed
  assume c: "?c \<in> set (cellsBefore ?ps a x)"
  show "int j < pmaIndex x"
  proof (rule ccontr)
    assume "\<not> ?thesis"
    then have qj: "q \<le> j" using q by simp
    have other: "?c \<notin> set (entryCells ?ps i)" if "i \<noteq> j" "i < usedWidth S" for i
      using entryCells_disjoint [OF d(1) that(2) j(2) that(1)] last_in_set [OF nz] by auto
    have "?c \<notin> set (concat (map (entryCells ?ps) [a..<q]))" using other qj j(2) by fastforce
    then have c': "?c \<in> set (take (offs x) (entryCells ?ps q))" using c q by (auto simp: cellsBefore_def)
    then have "?c \<in> set (entryCells ?ps q)" by (rule in_set_takeD)
    then have "q = j" using other [of q] qj j(2) by auto
    have b: "bufferIndex x \<noteq> -1" using c' by (auto simp: offs_def)
    then have "0 \<le> bufferIndex x" "ileft (?ps ! nat (pmaIndex x)) + bufferIndex x < iright (?ps ! nat (pmaIndex x))" using pos by (auto simp: okPosition_def)
    moreover have "0 \<le> ileft (?ps ! j)" using d j by (auto simp: okPointers_def)
    ultimately have lt: "offs x < length (entryCells ?ps j)" unfolding q(1) nat_int \<open>q = j\<close> by (simp add: offs_def entryCells_def)
    have "distinct (entryCells ?ps j)" by (auto simp: entryCells_def distinct_map inj_on_def)
    then have "?c \<notin> set (take (offs x) (entryCells ?ps j))"
      using lt nz by (auto simp: last_conv_nth in_set_conv_nth nth_eq_iff_index_eq)
    then show False using c' \<open>q = j\<close> by simp
  qed
qed

lemma clear_part:
  assumes set: "rebSetting P L S" and i: "i < length (rebalancingTasks S)" and ps: "pointersCleared S D ps"
    and x: "atBlock S (rebalancingTasks S ! i) k x" and y: "atBlock S (rebalancingTasks S ! i) l y"
    and kl: "k < l" "l \<le> length (taskCells S (rebalancingTasks S ! i))"
  shows "\<exists>ps'. clearPointersLoop x y (B\<lparr>bufferPointers := ps\<rparr>) = Some (B\<lparr>bufferPointers := ps'\<rparr>) \<and> pointersCleared S (D \<union> {firstNumber S i + k..<firstNumber S i + l}) ps'"
proof -
  let ?t = "rebalancingTasks S ! i" and ?A = "{firstNumber S i + k..<firstNumber S i + l}"
  note f = rebSetting_facts [OF set i]
  have wf: "wfCells P S" using set by (simp add: rebSetting_def)
  have len: "length ps = length (bufferPointers S)" using ps by (simp add: pointersCleared_def)
  have pos: "okPosition (bufferPointers S) x" "okPosition (bufferPointers S) y" "int (taskLo ?t) \<le> pmaIndex x" "int (taskLo ?t) \<le> pmaIndex y"
    "y \<le> ExtendedPmaIndex (int (taskHi S ?t)) (-1)" "x \<le> ExtendedPmaIndex (int (taskHi S ?t)) (-1)" using x y by (auto simp: atBlock_def)
  have uw: "pmaIndex x \<le> int (usedWidth S)" "pmaIndex y \<le> int (usedWidth S)" using pos(5,6) f(2)
    by (cases x; cases y; auto simp: less_eq_ExtendedPmaIndex_def ExtendedPmaIndex_less_def)+
  have bound: "p < int (length ps)" if p: "pmaIndex x \<le> p" "ExtendedPmaIndex p (bufferIndex x) < y" for p
    using p pos(1,2) unfolding len by (auto simp: less_ExtendedPmaIndex_def ExtendedPmaIndex_less_def okPosition_def)
  obtain ps' where ps': "clearPointersLoop x y (B\<lparr>bufferPointers := ps\<rparr>) = Some (B\<lparr>bufferPointers := ps\<rparr>\<lparr>bufferPointers := ps'\<rparr>)" "length ps' = length ps"
     "\<forall>j<length ps'. if pmaIndex x \<le> int j \<and> ExtendedPmaIndex (int j) (bufferIndex x) < y then ps' ! j = emptyInterval else ps' ! j = ps ! j"
    using clearPointersLoop_ok [of x y "B\<lparr>bufferPointers := ps\<rparr>"] bound pos(3) by auto
  have "ps' ! j = emptyInterval" if j: "j < usedWidth S" "\<not> unbuffered S j" "last (entryCells (bufferPointers S) j) \<in> (!) (moving S) ` (D \<union> ?A)" for j
  proof -
    have jl: "j < length ps'" using j(1) wf ps'(2) len by (auto simp: wfCells_def)
    let ?c = "last (entryCells (bufferPointers S) j)"
    show ?thesis
    proof (cases "?c \<in> (!) (moving S) ` D")
      case True
      then have "ps ! j = emptyInterval" using ps j by (auto simp: pointersCleared_def)
      then show ?thesis using spec [OF ps'(3), of j] jl by (auto split: if_splits)
    next
      case False
      then obtain g where g: "g \<in> ?A" "?c = moving S ! g" using j(3) by blast
      define q where "q = g - firstNumber S i"
      have q: "k \<le> q" "q < l" "?c = moving S ! (firstNumber S i + q)" using g by (auto simp: q_def)
      then have c: "?c = taskCells S ?t ! q" using moving_at(1) [OF i, of q] kl(2) by simp
      have fx: "filter (filled S) (cellsBefore (bufferPointers S) (taskLo ?t) x) = take k (taskCells S ?t)"
        and fy: "filter (filled S) (cellsBefore (bufferPointers S) (taskLo ?t) y) = take l (taskCells S ?t)" using x y by (auto simp: atBlock_def)
      have dt: "distinct (taskCells S ?t)" using wfCells_sub(1) [OF wf f(2)] by (simp add: taskCells_def)
      have "?c \<in> set (take l (taskCells S ?t))" using c q kl by (auto simp: in_set_conv_nth)
      then have iny: "?c \<in> set (cellsBefore (bufferPointers S) (taskLo ?t) y)" "filled S ?c" using fy [symmetric] by auto
      have "?c \<notin> set (take k (taskCells S ?t))" using c q kl dt by (auto simp: in_set_conv_nth nth_eq_iff_index_eq)
      then have notx: "?c \<notin> set (cellsBefore (bufferPointers S) (taskLo ?t) x)" using fx [symmetric] iny(2) by auto
      have "?c \<in> set (cellsUpTo S (taskLo ?t) (taskHi S ?t))" 
      proof -
        have "-1 \<le> bufferIndex y" using pos(2) by (auto simp: okPosition_def)
        then show ?thesis using iny(1) cellsBefore_in_task [OF pos(5,4), of S] by simp
      qed
      then obtain j' where j': "taskLo ?t \<le> j'" "j' < taskHi S ?t" "?c \<in> set (entryCells (bufferPointers S) j')" by (auto simp: in_cellsUpTo)
      have "?c \<in> set (entryCells (bufferPointers S) j)" by (rule last_in_set) (simp add: entryCells_def)
      moreover have "distinct (cellsUpTo S 0 (usedWidth S))" using wf by (simp add: wfCells_def)
      ultimately have "j' = j" using entryCells_disjoint [of S "usedWidth S" j' j] j' j(1) f(2) by auto
      then have lo: "taskLo ?t \<le> j" using j' by simp
      have "pmaIndex x \<le> int j" using last_cell_before [OF wf pos(1) lo j(1,2) pos(3) uw(1)] notx by auto
      moreover have "int j < pmaIndex y" using last_cell_before [OF wf pos(2) lo j(1,2) pos(4) uw(2)] iny(1) by auto
      ultimately show ?thesis using spec [OF ps'(3), of j] jl by (simp add: less_ExtendedPmaIndex_def ExtendedPmaIndex_less_def)
    qed
  qed
  moreover have "ps' ! j = bufferPointers S ! j \<or> ps' ! j = emptyInterval" if "j < length ps'" for j
    using spec [OF ps'(3), of j] that ps ps'(2) by (auto simp: pointersCleared_def split: if_splits)
  ultimately have "pointersCleared S (D \<union> ?A) ps'" unfolding pointersCleared_def using ps'(2) len
    by (intro conjI allI impI) simp_all
  then show ?thesis using ps'(1) by auto
qed


lemma effectiveRange_ok:
  assumes set: "rebSetting P L S" and i: "i < length (rebalancingTasks S)" and size: "sdsSize T = sdsSize S"
  shows "effectiveRange P (rebalancingTasks S ! i) T =
    Some (Some (mkInterval (int (taskLo (rebalancingTasks S ! i))) (int (taskHi S (rebalancingTasks S ! i)))))"
proof -
  let ?t = "rebalancingTasks S ! i"
  note f = rebSetting_facts [OF set i]
  have "int (taskHi S ?t) = min (max 1 (sdsSize S)) (iright (pmaRange ?t))" using f(1,7) unfolding taskHi_def usedWidth_def by linarith
  then show ?thesis using f(1,5) by (auto simp: effectiveRange_def Let_def intervalLength_def size mkInterval_def min_def split: if_splits)
qed

definition clearedInv :: "('k::linorder, 'v) tparams \<Rightarrow> nat \<Rightarrow> ('k, 'v) sds \<Rightarrow> ('k, 'v) sds \<Rightarrow> nat set \<Rightarrow> ('k, 'v) sds \<Rightarrow> bool" where
  "clearedInv P L S B D T \<longleftrightarrow> rebSetting P L S \<and> sdsSize B = sdsSize S \<and> rebalancingTasks B = rebalancingTasks S \<and> tasks B = tasks S \<and>
     (\<exists>ps. T = B\<lparr>bufferPointers := ps\<rparr> \<and> pointersCleared S D ps)"

lemma clear_partial:
  assumes inv: "clearedInv P L S B D T" and i: "i < length (rebalancingTasks S)" and f: "partOk S lo hi i f"
  shows "\<exists>T'. startPartialClearTask f T = Some T' \<and> clearedInv P L S B (D \<union> ({lo..<hi} \<inter> {firstNumber S i..<firstNumber S (Suc i)})) T'"
proof -
  let ?t = "rebalancingTasks S ! i" and ?a = "firstNumber S i" and ?b = "firstNumber S (Suc i)"
  define k where "k = max lo ?a - ?a"
  define l where "l = min hi ?b - ?a"
  obtain ps where ps: "T = B\<lparr>bufferPointers := ps\<rparr>" "pointersCleared S D ps" using inv by (auto simp: clearedInv_def)
  have set: "rebSetting P L S" using inv by (simp add: clearedInv_def)
  show ?thesis
  proof (cases "l \<le> k")
    case True
    then have e: "f = emptyPartialTask" "{lo..<hi} \<inter> {?a..<?b} = {}" using f by (auto simp: partOk_def k_def l_def)
    show ?thesis unfolding e Un_empty_right using inv
      by (simp add: startPartialClearTask_def clearBufferBlockPointers_def emptyPartialTask_def clearPointersLoop.simps)
  next
    case False
    then obtain x y where xy: "f = \<lparr>blockStart = x, blockEnd = y, outputOffset = int k\<rparr>" "atBlock S ?t k x" "atBlock S ?t l y"
      using f by (auto simp: partOk_def k_def l_def)
    have A: "{lo..<hi} \<inter> {?a..<?b} = {?a + k..<?a + l}" using False by (auto simp: k_def l_def)
    have "l \<le> length (taskCells S ?t)" using firstNumber_Suc [OF i] by (simp add: l_def)
    then obtain ps' where "clearPointersLoop x y T = Some (B\<lparr>bufferPointers := ps'\<rparr>)" "pointersCleared S (D \<union> {?a + k..<?a + l}) ps'"
      using clear_part [OF set i ps(2) xy(2,3), of B] False ps(1) by auto
    then show ?thesis using inv unfolding A by (auto simp: startPartialClearTask_def clearBufferBlockPointers_def xy(1) clearedInv_def)
  qed
qed

lemma clear_full:
  assumes inv: "clearedInv P L S B D T" and i: "i < length (rebalancingTasks S)"
  shows "\<exists>T'. startFullClearTask P (int i) T = Some T' \<and> clearedInv P L S B (D \<union> {firstNumber S i..<firstNumber S (Suc i)}) T'"
proof -
  let ?t = "rebalancingTasks S ! i" and ?n = "length (taskCells S (rebalancingTasks S ! i))"
  obtain ps where ps: "T = B\<lparr>bufferPointers := ps\<rparr>" "pointersCleared S D ps" using inv by (auto simp: clearedInv_def)
  have set: "rebSetting P L S" and d: "wfCells P S" "0 < SegmentWidth P" and B: "sdsSize T = sdsSize S" "rebalancingTasks T = rebalancingTasks S"
    using inv ps(1) by (auto simp: clearedInv_def rebSetting_def)
  obtain ps' where "clearPointersLoop (ExtendedPmaIndex (int (taskLo ?t)) (-1)) (ExtendedPmaIndex (int (taskHi S ?t)) (-1)) T = Some (B\<lparr>bufferPointers := ps'\<rparr>)"
     "pointersCleared S (D \<union> {firstNumber S i + 0..<firstNumber S i + ?n}) ps'"
    using clear_part [OF set i ps(2) whole_task [OF d rebSetting_task(1) [OF set i]] rebSetting_facts(4) [OF set i] order_refl, of B] ps(1) by auto
  then show ?thesis using inv i effectiveRange_ok [OF set i B(1)] firstNumber_Suc [OF i] B(2)
    by (auto simp: startFullClearTask_def taskAt_def clearBufferBlockPointers_def clearedInv_def)
qed

interpretation clear_parts: task_parts "firstNumber S" "\<lambda>q. startPartialClearTask (firstRebalancingTask r)" "startFullClearTask P"
  "\<lambda>q. startPartialClearTask (lastRebalancingTask r)" lo hi i j
  "\<lambda>D T. parted S lo hi i j r \<and> clearedInv P L S B D T" for S P r lo hi i j L B
proof
  show "firstNumber S a \<le> firstNumber S b" if "a \<le> b" for a b using that by (rule firstNumber_mono)
next
  fix D T assume inv: "parted S lo hi i j r \<and> clearedInv P L S B D T"
  then show "i \<le> j \<and> firstNumber S i \<le> lo \<and> lo \<le> firstNumber S (Suc i) \<and> hi \<le> firstNumber S (Suc j) \<and> (i < j \<longrightarrow> firstNumber S j \<le> hi) \<and> lo \<le> hi"
    by (auto simp: parted_def spansTasks_def)
  have le: "i < length (rebalancingTasks S)" "j < length (rebalancingTasks S)" using inv by (auto simp: parted_def spansTasks_def)
  show "\<exists>T'. startPartialClearTask (firstRebalancingTask r) T = Some T' \<and>
      (parted S lo hi i j r \<and> clearedInv P L S B (D \<union> ({lo..<hi} \<inter> {firstNumber S i..<firstNumber S (Suc i)})) T')"
    using clear_partial [of P L S B D T i lo hi "firstRebalancingTask r"] inv le by (auto simp: parted_def)
  show "\<exists>T'. startFullClearTask P (int q) T = Some T' \<and>
      (parted S lo hi i j r \<and> clearedInv P L S B (D \<union> {firstNumber S q..<firstNumber S (Suc q)}) T')" if "i < q" "q < j" for q
    using clear_full [of P L S B D T q] inv le that by auto
  show "\<exists>T'. startPartialClearTask (lastRebalancingTask r) T = Some T' \<and>
      (parted S lo hi i j r \<and> clearedInv P L S B (D \<union> ({lo..<hi} \<inter> {firstNumber S j..<firstNumber S (Suc j)})) T')" if "i < j"
    using clear_partial [of P L S B D T j lo hi "lastRebalancingTask r"] inv le that by (auto simp: parted_def)
qed

definition allCleared :: "('k::linorder, 'v) tparams \<Rightarrow> nat \<Rightarrow> nat \<Rightarrow> nat \<Rightarrow> ('k, 'v) sds \<Rightarrow> ('k, 'v) sds \<Rightarrow> nat set \<Rightarrow> ('k, 'v) sds \<Rightarrow> bool" where
  "allCleared P L w n S B D T \<longleftrightarrow> n \<le> length (tasks S) \<and> (\<forall>t<n. planned S w t (tasks S ! t)) \<and>
     clearedInv P L S B (blocksOfThreads (length (moving S)) w D) T"

lemma clearPointersOfThread_ok:
  assumes inv: "clearedInv P L S B D T" and t: "t < length (tasks S)" "planned S w t (tasks S ! t)" and D: "D \<inter> {t * w..<toOf (length (moving S)) w t} = {}"
  shows "\<exists>T'. clearPointersOfThread P t T = Some T' \<and> clearedInv P L S B (D \<union> {t * w..<toOf (length (moving S)) w t}) T'"
proof -
  let ?lo = "t * w" and ?hi = "toOf (length (moving S)) w t" and ?r = "tasks S ! t"
  have get: "getTask T t = Some ?r" using t(1) inv by (auto simp: getTask_def clearedInv_def)
  have br: "rebalancingBlockRange ?r = mkInterval (int ?lo) (int ?hi)" using t(2) by (simp add: planned_def)
  show ?thesis
  proof (cases "?lo < ?hi")
    case False
    then show ?thesis using inv get br by (simp add: clearPointersOfThread_def del: of_nat_mult)
  next
    case True
    then obtain i j where p: "parted S ?lo ?hi i j ?r" using t(2) by (auto simp: planned_def)
    then have tr: "rebalancingTaskRange ?r = mkInterval (int i) (int j + 1)" "i \<le> j" by (auto simp: parted_def spansTasks_def)
    obtain T' where "(do { T \<leftarrow> startPartialClearTask (firstRebalancingTask ?r) T; T \<leftarrow> for_range (int i + 1) (int j) (startFullClearTask P) T;
          if i < j then startPartialClearTask (lastRebalancingTask ?r) T else Some T }) = Some T'" "clearedInv P L S B (D \<union> {?lo..<?hi}) T'"
      using clear_parts.all_parts [of S ?lo ?hi i j ?r P L B D T] p inv D by auto
    then show ?thesis using True get br tr by (simp add: clearPointersOfThread_def del: of_nat_mult cong: if_cong)
  qed
qed

interpretation clearing_threads: task_region n "clearPointersOfThread P" "allCleared P L w n S B" for n P L w S B
proof
  fix D T t assume inv: "allCleared P L w n S B D T" and t: "t < n" "t \<notin> D"
  then show "\<exists>T'. clearPointersOfThread P t T = Some T' \<and> allCleared P L w n S B (insert t D) T'"
    using clearPointersOfThread_ok [of P L S B "blocksOfThreads (length (moving S)) w D" T t w] blocksOfThreads_apart [OF t(2)]
    by (auto simp: allCleared_def blocksOfThreads_insert)
qed

end
