(* ===== verification/Rebalance_Rewrite.thy ===== *)
theory Rebalance_Rewrite
  imports Rebalance_Parts
begin

text \<open>
  Phase B-8 of \<open>insertBatch\<close>: the blocks in the swap array are distributed over the ranges of their tasks. Every block has a target
  of its own, the targets of a task are increasing, and so the blocks of the array keep their order.
\<close>

section \<open>The target positions\<close>

text \<open>Block \<open>k\<close> of a task with \<open>n\<close> blocks and a range of \<open>len\<close> entries belongs to the position \<open>spreadAt\<close> of the range.\<close>

definition spreadAt :: "('k, 'v) sds \<Rightarrow> nat \<Rightarrow> nat \<Rightarrow> nat" where
  "spreadAt S i k = (let t = rebalancingTasks S ! i in
     taskLo t + k * nat (iright (pmaRange t) - ileft (pmaRange t)) div length (taskCells S t))"

text \<open>The part of task \<open>i\<close> that the thread of block \<open>k\<close> rewrites, and the position it gives to the block.\<close>

definition partFrom :: "('k, 'v) sds \<Rightarrow> nat \<Rightarrow> nat \<Rightarrow> nat \<Rightarrow> nat" where
  "partFrom S w i t = max (t * w) (firstNumber S i) - firstNumber S i"

definition partTo :: "('k, 'v) sds \<Rightarrow> nat \<Rightarrow> nat \<Rightarrow> nat \<Rightarrow> nat" where
  "partTo S w i t = min (toOf (length (moving S)) w t) (firstNumber S (Suc i)) - firstNumber S i"

definition targetOf :: "('k, 'v) sds \<Rightarrow> nat \<Rightarrow> nat \<Rightarrow> nat \<Rightarrow> nat" where
  "targetOf S w i k = (let t = (firstNumber S i + k) div w; a = partFrom S w i t; b = partTo S w i t in
     spreadAt S i a + (k - a) * (spreadAt S i b - spreadAt S i a) div (b - a))"

definition targetLists :: "('k, 'v) sds \<Rightarrow> nat \<Rightarrow> nat list list" where
  "targetLists S w = map (\<lambda>i. map (targetOf S w i) [0..<length (taskCells S (rebalancingTasks S ! i))]) [0..<length (rebalancingTasks S)]"

abbreviation targets :: "('k, 'v) sds \<Rightarrow> nat \<Rightarrow> nat list" where
  "targets S w \<equiv> concat (targetLists S w)"

lemma length_targets [simp]: "length (targetLists S w) = length (rebalancingTasks S)" "length (targets S w) = length (moving S)"
proof -
  show "length (targetLists S w) = length (rebalancingTasks S)" by (simp add: targetLists_def)
  have "map length (targetLists S w) = map length (cellLists S)" by (rule nth_equalityI) (auto simp: targetLists_def cellLists_def)
  then show "length (targets S w) = length (moving S)" by (simp add: length_concat)
qed

lemma startIn_targets: "startIn (targetLists S w) i = firstNumber S i"
proof -
  have "map length (targetLists S w) = map length (cellLists S)" by (rule nth_equalityI) (auto simp: targetLists_def cellLists_def)
  then show ?thesis by (simp add: startIn_def firstNumber_def length_concat take_map [symmetric])
qed

lemma targets_at:
  assumes "i < length (rebalancingTasks S)" "k < length (taskCells S (rebalancingTasks S ! i))"
  shows "targets S w ! (firstNumber S i + k) = targetOf S w i k"
  using concat_at [of i "targetLists S w" k] assms by (simp add: startIn_targets) (simp add: targetLists_def)

lemma part_of_block:
  assumes i: "i < length (rebalancingTasks S)" and k: "k < length (taskCells S (rebalancingTasks S ! i))" and w: "0 < w"
  shows "partFrom S w i ((firstNumber S i + k) div w) \<le> k" "k < partTo S w i ((firstNumber S i + k) div w)"
    "partTo S w i t \<le> length (taskCells S (rebalancingTasks S ! i))"
proof -
  let ?g = "firstNumber S i + k"
  have n: "firstNumber S (Suc i) = firstNumber S i + length (taskCells S (rebalancingTasks S ! i))" by (rule firstNumber_Suc [OF i])
  have le: "(?g div w) * w \<le> ?g" and "?g < Suc (?g div w) * w" using w dividend_less_div_times [of w ?g] by (auto simp: div_times_less_eq_dividend)
  moreover have "?g < length (moving S)" using k n firstNumber_le [of S "Suc i"] by simp
  ultimately show "k < partTo S w i (?g div w)" using n k by (auto simp: partTo_def toOf_def)
  show "partFrom S w i (?g div w) \<le> k" using le unfolding partFrom_def by linarith
  show "partTo S w i t \<le> length (taskCells S (rebalancingTasks S ! i))" using n by (simp add: partTo_def)
qed

lemma spreadAt_facts:
  assumes set: "rebSetting P L S" and i: "i < length (rebalancingTasks S)"
  defines "t \<equiv> rebalancingTasks S ! i"
  shows "a < b \<Longrightarrow> spreadAt S i a + (b - a) \<le> spreadAt S i b" "a \<le> b \<Longrightarrow> spreadAt S i a \<le> spreadAt S i b"
    "spreadAt S i 0 = taskLo t" "int (spreadAt S i (length (taskCells S t))) = iright (pmaRange t)"
proof -
  note f = rebSetting_facts [OF set i, folded t_def]
  let ?n = "length (taskCells S t)" and ?len = "nat (iright (pmaRange t) - ileft (pmaRange t))"
  have n: "0 < ?n" "?n \<le> ?len" using f(4,5,6) by linarith+
  have step: "Suc (spreadAt S i c) \<le> spreadAt S i (Suc c)" for c
    using uniform_step [OF n, of c] by (simp add: spreadAt_def t_def Let_def)
  show mono: "spreadAt S i a + (b - a) \<le> spreadAt S i b" if "a < b" for a b
    using less_imp_le [OF that]
  proof (induction b rule: dec_induct)
    case (step b)
    then show ?case using \<open>\<And>c. Suc (spreadAt S i c) \<le> spreadAt S i (Suc c)\<close> [of b] by simp
  qed simp
  show "a \<le> b \<Longrightarrow> spreadAt S i a \<le> spreadAt S i b" using mono [of a b] by (cases "a = b") auto
  show "spreadAt S i 0 = taskLo t" by (simp add: spreadAt_def t_def Let_def)
  show "int (spreadAt S i ?n) = iright (pmaRange t)" 
  proof -
    have "?n * ?len div ?n = ?len" using n(1) by simp
    then have "spreadAt S i ?n = taskLo t + ?len" by (simp add: spreadAt_def t_def [symmetric] Let_def)
    then show ?thesis using n f(5) by linarith
  qed
qed

lemma targetOf_bounds:
  assumes set: "rebSetting P L S" and i: "i < length (rebalancingTasks S)" and k: "k < length (taskCells S (rebalancingTasks S ! i))" and w: "0 < w"
  shows "spreadAt S i (partFrom S w i ((firstNumber S i + k) div w)) \<le> targetOf S w i k" "targetOf S w i k < spreadAt S i (partTo S w i ((firstNumber S i + k) div w))"
    "taskLo (rebalancingTasks S ! i) \<le> targetOf S w i k" "int (targetOf S w i k) < iright (pmaRange (rebalancingTasks S ! i))"
proof -
  let ?t = "(firstNumber S i + k) div w"
  let ?a = "partFrom S w i ?t" and ?b = "partTo S w i ?t" and ?n = "length (taskCells S (rebalancingTasks S ! i))"
  note pb = part_of_block [OF i k w] and sf = spreadAt_facts [OF set i]
  have ab: "?a < ?b" using pb(1,2) by simp
  have d: "?b - ?a \<le> spreadAt S i ?b - spreadAt S i ?a" "spreadAt S i ?a \<le> spreadAt S i ?b" using sf(1) [OF ab] by linarith+
  have "(k - ?a) * (spreadAt S i ?b - spreadAt S i ?a) div (?b - ?a) < spreadAt S i ?b - spreadAt S i ?a"
  proof -
    have "(k - ?a) * (spreadAt S i ?b - spreadAt S i ?a) < (?b - ?a) * (spreadAt S i ?b - spreadAt S i ?a)"
      using pb(1,2) ab d by (intro mult_strict_right_mono) linarith+
    then show ?thesis by (intro less_mult_imp_div_less) (simp add: mult.commute)
  qed
  then show lt: "targetOf S w i k < spreadAt S i ?b" using d by (simp add: targetOf_def Let_def)
  show ge: "spreadAt S i ?a \<le> targetOf S w i k" by (simp add: targetOf_def Let_def)
  show "taskLo (rebalancingTasks S ! i) \<le> targetOf S w i k" using ge sf(2) [of 0 ?a] sf(3) by simp
  have "spreadAt S i ?b \<le> spreadAt S i ?n" using sf(2) pb(3) by blast
  then show "int (targetOf S w i k) < iright (pmaRange (rebalancingTasks S ! i))" using lt sf(4) by linarith
qed

lemma targetOf_mono:
  assumes set: "rebSetting P L S" and i: "i < length (rebalancingTasks S)" and kl: "k < l" "l < length (taskCells S (rebalancingTasks S ! i))" and w: "0 < w"
  shows "targetOf S w i k < targetOf S w i l"
proof -
  let ?t = "(firstNumber S i + k) div w" and ?u = "(firstNumber S i + l) div w"
  have k: "k < length (taskCells S (rebalancingTasks S ! i))" using kl by simp
  note sf = spreadAt_facts [OF set i] and pk = part_of_block [OF i k w] and pl = part_of_block [OF i kl(2) w]
  show ?thesis
  proof (cases "?t = ?u")
    case True
    let ?a = "partFrom S w i ?t" and ?b = "partTo S w i ?t"
    have ab: "?a < ?b" using pk(1,2) by simp
    have "?b - ?a \<le> spreadAt S i ?b - spreadAt S i ?a" using sf(1) [OF ab] by linarith
    then have "(k - ?a) * (spreadAt S i ?b - spreadAt S i ?a) div (?b - ?a) < Suc (k - ?a) * (spreadAt S i ?b - spreadAt S i ?a) div (?b - ?a)"
      using ab by (intro uniform_step) simp
    also have "\<dots> \<le> (l - ?a) * (spreadAt S i ?b - spreadAt S i ?a) div (?b - ?a)" using ab kl(1) pk(1) by (intro uniform_mono) simp_all
    finally show ?thesis using True by (simp add: targetOf_def Let_def)
  next
    case False
    then have "?t < ?u" using kl(1) div_le_mono [of "firstNumber S i + k" "firstNumber S i + l" w] by linarith
    then have "Suc ?t * w \<le> ?u * w" by (intro mult_le_mono1) simp
    then have "partTo S w i ?t \<le> partFrom S w i ?u" by (auto simp: partTo_def partFrom_def toOf_def)
    then have "spreadAt S i (partTo S w i ?t) \<le> spreadAt S i (partFrom S w i ?u)" by (rule sf(2))
    then show ?thesis using targetOf_bounds(2) [OF set i k w] targetOf_bounds(1) [OF set i kl(2) w] by linarith
  qed
qed

lemma targets_distinct:
  assumes set: "rebSetting P L S" and w: "0 < w"
  shows "distinct (targets S w)"
proof (rule distinct_concatI)
  let ?n = "\<lambda>i. length (taskCells S (rebalancingTasks S ! i))"
  show "distinct (targetLists S w ! i)" if i: "i < length (targetLists S w)" for i
  proof -
    have i': "i < length (rebalancingTasks S)" using i by simp
    have "inj_on (targetOf S w i) {0..<?n i}"
    proof (rule inj_onI)
      fix k l assume "k \<in> {0..<?n i}" "l \<in> {0..<?n i}" "targetOf S w i k = targetOf S w i l"
      then show "k = l" using targetOf_mono [OF set i' _ _ w, of k l] targetOf_mono [OF set i' _ _ w, of l k] by (cases k l rule: linorder_cases) auto
    qed
    then show ?thesis using i' by (simp add: targetLists_def distinct_map)
  qed
  show "set (targetLists S w ! i) \<inter> set (targetLists S w ! j) = {}" if ij: "i < j" "j < length (targetLists S w)" for i j
  proof -
    have ij': "i < length (rebalancingTasks S)" "j < length (rebalancingTasks S)" using ij by auto
    have "targetOf S w i k \<noteq> targetOf S w j l" if "k < ?n i" "l < ?n j" for k l
      using targetOf_bounds(3,4) [OF set ij'(1) that(1) w] targetOf_bounds(3,4) [OF set ij'(2) that(2) w]
        rebSetting_apart [OF set ij'] ij rebSetting_facts(5) [OF set ij'(1)] rebSetting_facts(5) [OF set ij'(2)] by linarith
    then show ?thesis using ij by (auto simp: targetLists_def)
  qed
qed

section \<open>Rewriting the blocks\<close>

text \<open>The array \<open>B\<close> before rewriting: the swap array holds the blocks of all tasks.\<close>

definition rewriteBase :: "('k::linorder, 'v) tparams \<Rightarrow> nat \<Rightarrow> nat \<Rightarrow> ('k, 'v) sds \<Rightarrow> ('k, 'v) sds \<Rightarrow> bool" where
  "rewriteBase P L w S B \<longleftrightarrow> rebSetting P L S \<and> okPrefixes S \<and> 0 < w \<and> rebalancingTasks B = rebalancingTasks S \<and>
     prefixNumberOfRebalancingBlocks B = prefixNumberOfRebalancingBlocks S \<and> length (swapPma B) = length (swapPma S) \<and>
     (\<forall>t\<in>set (rebalancingTasks S). iright (pmaRange t) \<le> int (length (pma B))) \<and>
     (\<forall>g<length (moving S). swapPma B ! (places S ! g) = cellAt S (moving S ! g))"

text \<open>The blocks with the numbers \<open>D\<close> went to their target positions.\<close>

definition writtenInv ::
  "('k::linorder, 'v) tparams \<Rightarrow> runtime \<Rightarrow> nat \<Rightarrow> nat \<Rightarrow> ('k, 'v) sds \<Rightarrow> ('k, 'v) sds \<Rightarrow> nat set \<Rightarrow> ('k, 'v) sds \<Rightarrow> bool" where
  "writtenInv P R L w S B D T \<longleftrightarrow> rewriteBase P L w S B \<and> D \<subseteq> {..<length (moving S)} \<and>
     (\<exists>pm sw m. T = B\<lparr>pma := pm, swapPma := sw, recountingNodesMap := m\<rparr> \<and> length pm = length (pma B) \<and> length sw = length (swapPma B) \<and> bmInv R m \<and>
        (\<forall>g\<in>D. pm ! (targets S w ! g) = cellAt S (moving S ! g) \<and> sw ! (places S ! g) = emptyEntry P \<and>
           bmLookup m (lowestLevelNodeIndex P (int (targets S w ! g))) \<noteq> None) \<and>
        (\<forall>p<length pm. p \<notin> (!) (targets S w) ` D \<longrightarrow> pm ! p = pma B ! p) \<and>
        (\<forall>p<length sw. p \<notin> (!) (places S) ` D \<longrightarrow> sw ! p = swapPma B ! p) \<and>
        (\<forall>k. bmLookup (recountingNodesMap B) k \<noteq> None \<longrightarrow> bmLookup m k \<noteq> None) \<and>
        (\<forall>k. (bmLookup m k = Some True) = (bmLookup (recountingNodesMap B) k = Some True)))"

lemma block_number:
  assumes "g < length (moving S)"
  obtains i k where "i < length (rebalancingTasks S)" "k < length (taskCells S (rebalancingTasks S ! i))" "g = firstNumber S i + k"
  using concat_find [OF assms] by (auto simp: firstNumber_def) (auto simp: cellLists_def)

lemma moving_filled:
  assumes set: "rebSetting P L S" and g: "g < length (moving S)"
  shows "okCell P S (moving S ! g)" "filled S (moving S ! g)" "0 < bsize (cellAt S (moving S ! g))"
proof -
  obtain i k where i: "i < length (rebalancingTasks S)" "k < length (taskCells S (rebalancingTasks S ! i))" "g = firstNumber S i + k"
    using g by (rule block_number)
  let ?t = "rebalancingTasks S ! i"
  have c: "moving S ! g = taskCells S ?t ! k" using moving_at(1) [OF i(1,2)] i(3) by simp
  have "taskCells S ?t ! k \<in> set (taskCells S ?t)" using i(2) by simp
  then have "taskCells S ?t ! k \<in> set (cellsUpTo S (taskLo ?t) (taskHi S ?t))" and f: "filled S (taskCells S ?t ! k)" by (simp_all add: taskCells_def)
  moreover have "wfCells P S" using set by (simp add: rebSetting_def)
  ultimately have ok: "okCell P S (taskCells S ?t ! k)" using wfCells_sub(2) [OF _ rebSetting_facts(2) [OF set i(1)]] by blast
  then show "okCell P S (moving S ! g)" "filled S (moving S ! g)" using f c by simp_all
  then show "0 < bsize (cellAt S (moving S ! g))" using okEntry_empty_iff(2) [of P "cellAt S (moving S ! g)"] by (simp add: okCell_def filled_def)
qed

lemma targets_in:
  assumes base: "rewriteBase P L w S B" and g: "g < length (moving S)"
  shows "targets S w ! g < length (pma B)"
proof -
  have set: "rebSetting P L S" and w: "0 < w" using base by (simp_all add: rewriteBase_def)
  obtain i k where i: "i < length (rebalancingTasks S)" "k < length (taskCells S (rebalancingTasks S ! i))" "g = firstNumber S i + k"
    using g by (rule block_number)
  have "iright (pmaRange (rebalancingTasks S ! i)) \<le> int (length (pma B))" using base i(1) by (simp add: rewriteBase_def)
  then show ?thesis using targetOf_bounds(4) [OF set i(1,2) w] targets_at [OF i(1,2), of w] i(3) by simp
qed

lemma list_update_image:
  assumes "distinct Q" "D \<subseteq> {..<length Q}" "g < length Q" "g \<notin> D" "Q ! g < length xs"
  shows "\<And>h. h \<in> D \<Longrightarrow> xs[Q ! g := v] ! (Q ! h) = xs ! (Q ! h)" "Q ! g \<notin> (!) Q ` D"
    "\<And>p. p \<notin> (!) Q ` insert g D \<Longrightarrow> xs[Q ! g := v] ! p = xs ! p"
proof -
  have ne: "Q ! h \<noteq> Q ! g" if "h \<in> D" for h
  proof
    assume "Q ! h = Q ! g"
    moreover have "h < length Q" using assms(2) that by auto
    ultimately have "h = g" using assms(1,3) nth_eq_iff_index_eq by metis
    then show False using that assms(4) by simp
  qed
  show "xs[Q ! g := v] ! (Q ! h) = xs ! (Q ! h)" if "h \<in> D" for h using ne [OF that] by simp
  show "Q ! g \<notin> (!) Q ` D" using ne by fastforce
  show "xs[Q ! g := v] ! p = xs ! p" if "p \<notin> (!) Q ` insert g D" for p using that by auto
qed

text \<open>One round of \<open>rewriteBlocks\<close>.\<close>

lemma rewrite_step:
  assumes inv: "writtenInv P R L w S B D T" and g: "g < length (moving S)" "g \<notin> D"
    and wi: "getUniformWriteIndex l q len n = Some (int (targets S w ! g))"
  shows "\<exists>T'. (do {
          b \<leftarrow> idx (swapPma T) (int (places S ! g));
          assertMsg (NDEBUG P) (bsize b > 0);
          writeIndex \<leftarrow> getUniformWriteIndex l q len n;
          T \<leftarrow> addRecountingNode P R writeIndex False T;
          T \<leftarrow> setPma writeIndex b T;
          T \<leftarrow> setSwap (int (places S ! g)) (emptyEntry P) T;
          Some (q + 1, T) }) = Some (q + 1, T') \<and> writtenInv P R L w S B (insert g D) T'"
proof -
  let ?b = "cellAt S (moving S ! g)" and ?p = "places S ! g" and ?q = "targets S w ! g" and ?E = "emptyEntry P"
  obtain pm sw m where T': "T = B\<lparr>pma := pm, swapPma := sw, recountingNodesMap := m\<rparr>" "length pm = length (pma B)" "length sw = length (swapPma B)" "bmInv R m"
     "\<forall>h\<in>D. pm ! (targets S w ! h) = cellAt S (moving S ! h) \<and> sw ! (places S ! h) = ?E \<and> bmLookup m (lowestLevelNodeIndex P (int (targets S w ! h))) \<noteq> None"
     "\<forall>p<length pm. p \<notin> (!) (targets S w) ` D \<longrightarrow> pm ! p = pma B ! p"
     "\<forall>p<length sw. p \<notin> (!) (places S) ` D \<longrightarrow> sw ! p = swapPma B ! p"
     "\<forall>k. bmLookup (recountingNodesMap B) k \<noteq> None \<longrightarrow> bmLookup m k \<noteq> None"
     "\<forall>k. (bmLookup m k = Some True) = (bmLookup (recountingNodesMap B) k = Some True)"
    using inv unfolding writtenInv_def by (elim conjE exE)
  note T = T'(1-4) T'(5) [rule_format] T'(6) [rule_format] T'(7) [rule_format] T'(8) [rule_format] T'(9) [rule_format]
  have base: "rewriteBase P L w S B" and D: "D \<subseteq> {..<length (moving S)}" using inv by (simp_all add: writtenInv_def)
  have set: "rebSetting P L S" and w: "0 < w" using base by (simp_all add: rewriteBase_def)
  have lens: "?p < length sw" "?q < length pm" using places_in [OF set g(1)] targets_in [OF base g(1)] base T(2,3) by (simp_all add: rewriteBase_def)
  note up = list_update_image [OF moving_distinct(2) [OF set], of D g sw] and uq = list_update_image [OF targets_distinct [OF set w], of D g pm]
  have Ds: "D \<subseteq> {..<length (places S)}" "g < length (places S)" "D \<subseteq> {..<length (targets S w)}" "g < length (targets S w)" using D g(1) by simp_all
  note up = up [OF Ds(1,2) g(2) lens(1)] and uq = uq [OF Ds(3,4) g(2) lens(2)]
  have rd: "sw ! ?p = ?b" using T(7) [OF lens(1) up(2)] base g(1) by (simp add: rewriteBase_def)
  let ?n = "lowestLevelNodeIndex P (int ?q)"
  obtain m' where m': "bmInsert R (?n, False) m = Some m'" "bmInv R m'" "bmLookup m' = (bmLookup m)(?n \<mapsto> False \<or> bmLookup m ?n = Some True)"
    using bmInsert_ok [OF T(4)] by blast
  let ?T = "B\<lparr>pma := pm[?q := ?b], swapPma := sw[?p := ?E], recountingNodesMap := m'\<rparr>"
  have "0 < bsize ?b" by (rule moving_filled(3) [OF set g(1)])
  then have "(do {
          b \<leftarrow> idx (swapPma T) (int ?p);
          assertMsg (NDEBUG P) (bsize b > 0);
          writeIndex \<leftarrow> getUniformWriteIndex l q len n;
          T \<leftarrow> addRecountingNode P R writeIndex False T;
          T \<leftarrow> setPma writeIndex b T;
          T \<leftarrow> setSwap (int ?p) ?E T;
          Some (q + 1, T) }) = Some (q + 1, ?T)"
    using lens rd m'(1) by (simp add: T(1) wi addRecountingNode_def setPma_def setSwap_def)
  moreover have "writtenInv P R L w S B (insert g D) ?T"
    unfolding writtenInv_def
  proof (rule conjI [OF base], rule conjI [rotated], rule exI [of _ "pm[?q := ?b]"], rule exI [of _ "sw[?p := ?E]"], rule exI [of _ m'], intro conjI ballI allI impI)
    fix h assume h: "h \<in> insert g D"
    show "pm[?q := ?b] ! (targets S w ! h) = cellAt S (moving S ! h)" using h T(5) uq(1) lens by (cases "h = g") auto
    show "sw[?p := ?E] ! (places S ! h) = ?E" using h T(5) up(1) lens by (cases "h = g") auto
    show "bmLookup m' (lowestLevelNodeIndex P (int (targets S w ! h))) \<noteq> None" using h T(5) [of h] by (cases "h = g") (auto simp: m'(3))
  next
    fix p assume p: "p < length (pm[?q := ?b])" "p \<notin> (!) (targets S w) ` insert g D"
    show "pm[?q := ?b] ! p = pma B ! p" unfolding uq(3) [OF p(2)] by (rule T(6)) (use p in auto)
  next
    fix p assume p: "p < length (sw[?p := ?E])" "p \<notin> (!) (places S) ` insert g D"
    show "sw[?p := ?E] ! p = swapPma B ! p" unfolding up(3) [OF p(2)] by (rule T(7)) (use p in auto)
  next
    fix k assume "bmLookup (recountingNodesMap B) k \<noteq> None"
    then show "bmLookup m' k \<noteq> None" using T(8) [of k] by (auto simp: m'(3))
  next
    fix k show "(bmLookup m' k = Some True) = (bmLookup (recountingNodesMap B) k = Some True)" using T(9) [of k] by (auto simp: m'(3))
  qed (use D g T m' in auto)
  ultimately show ?thesis by blast
qed

lemma part_blocks:
  assumes i: "i < length (rebalancingTasks S)" and w: "0 < w" and q: "partFrom S w i t \<le> q" "q < partTo S w i t"
  shows "(firstNumber S i + q) div w = t" "q < length (taskCells S (rebalancingTasks S ! i))"
proof -
  have "t * w \<le> firstNumber S i + q" "firstNumber S i + q < Suc t * w" using q by (auto simp: partFrom_def partTo_def toOf_def)
  then show "(firstNumber S i + q) div w = t" using w by (intro div_nat_eqI) (auto simp: mult.commute)
  show "q < length (taskCells S (rebalancingTasks S ! i))" using q(2) firstNumber_Suc [OF i] by (simp add: partTo_def)
qed

lemma part_set: "{t * w..<toOf (length (moving S)) w t} \<inter> {firstNumber S i..<firstNumber S (Suc i)} = {firstNumber S i + partFrom S w i t..<firstNumber S i + partTo S w i t}"
  by (auto simp: partFrom_def partTo_def)

lemma getUniformWriteIndex_ok:
  assumes "0 < n"
  shows "getUniformWriteIndex (int a) (int k) (int len) (int n) = Some (int (a + k * len div n))"
  using assms cdiv_nonneg [of "int k * int len" "int n"] by (simp add: getUniformWriteIndex_def zdiv_int)

lemma rewriteBlocks_part:
  assumes inv: "writtenInv P R L w S B D T" and i: "i < length (rebalancingTasks S)"
    and k: "k = partFrom S w i t" "l = partTo S w i t" "k < l" and D: "D \<inter> {firstNumber S i + k..<firstNumber S i + l} = {}"
    and sr: "ileft sr = int (taskLo (rebalancingTasks S ! i) + k)" "int (l - k) \<le> iright sr - ileft sr"
    and rg: "ileft rg = int (spreadAt S i k)" "iright rg - ileft rg = int (spreadAt S i l - spreadAt S i k)"
  shows "\<exists>T'. rewriteBlocks P R sr rg (int (l - k)) T = Some T' \<and> writtenInv P R L w S B (D \<union> {firstNumber S i + k..<firstNumber S i + l}) T'"
proof -
  let ?b = "firstNumber S i + k" and ?p = "taskLo (rebalancingTasks S ! i) + k"
  have w: "0 < w" using inv by (simp add: writtenInv_def rewriteBase_def)
  define step where "step = (\<lambda>blockIndex (pmaOutputNumber, S :: ('a, 'b) sds). do {
          b \<leftarrow> idx (swapPma S) blockIndex;
          assertMsg (NDEBUG P) (bsize b > 0);
          writeIndex \<leftarrow> getUniformWriteIndex (ileft rg) pmaOutputNumber (intervalLength rg) (int (l - k));
          S \<leftarrow> addRecountingNode P R writeIndex False S;
          S \<leftarrow> setPma writeIndex b S;
          S \<leftarrow> setSwap blockIndex (emptyEntry P) S;
          Some (pmaOutputNumber + 1, S) })"
  have one: "\<exists>T'. step (int ?p + int q) (int q, T) = Some (int q + 1, T') \<and> writtenInv P R L w S B (insert (?b + q) D') T'"
    if inv: "writtenInv P R L w S B D' T" and q: "q < l - k" "?b + q \<notin> D'" for q D' T
  proof -
    have kq: "k + q < length (taskCells S (rebalancingTasks S ! i))" "(firstNumber S i + (k + q)) div w = t"
      using part_blocks [OF i w, of t "k + q"] q(1) k by auto
    have tg: "targets S w ! (?b + q) = spreadAt S i k + q * (spreadAt S i l - spreadAt S i k) div (l - k)"
      using targets_at [OF i kq(1), of w] kq(2) k(1,2) by (simp add: targetOf_def Let_def add.assoc)
    have pl: "int (places S ! (?b + q)) = int ?p + int q" using moving_at(2) [OF i kq(1)] by (simp add: add.assoc)
    have "getUniformWriteIndex (ileft rg) (int q) (intervalLength rg) (int (l - k)) = Some (int (targets S w ! (?b + q)))"
      using getUniformWriteIndex_ok [of "l - k" "spreadAt S i k" q "spreadAt S i l - spreadAt S i k"] k(3) unfolding intervalLength_def rg(2) unfolding rg(1) tg by simp
    moreover have "?b + q < length (moving S)" using kq(1) firstNumber_Suc [OF i] firstNumber_le [of S "Suc i"] by simp
    ultimately show ?thesis using rewrite_step [OF inv _ q(2), of "ileft rg" "int q" "intervalLength rg" "int (l - k)"] by (simp add: step_def pl)
  qed
  have "\<exists>s'. for_range (int ?p) (int ?p + int (l - k)) step (0, T) = Some s' \<and>
     fst s' = int ?p + int (l - k) - int ?p \<and> writtenInv P R L w S B (D \<union> {?b..<?b + nat (int ?p + int (l - k) - int ?p)}) (snd s')"
  proof (rule for_range_inv)
    fix x s assume x: "int ?p \<le> x" "x < int ?p + int (l - k)" "fst s = x - int ?p \<and> writtenInv P R L w S B (D \<union> {?b..<?b + nat (x - int ?p)}) (snd s)"
    define q where "q = nat (x - int ?p)"
    have q: "x = int ?p + int q" "q < l - k" "nat (x + 1 - int ?p) = Suc q" using x(1,2) by (auto simp: q_def)
    have s: "s = (int q, snd s)" using x(3) q(1) by (cases s) simp
    have "?b + q \<notin> D \<union> {?b..<?b + q}"
    proof -
      have "?b + q \<in> {firstNumber S i + k..<firstNumber S i + l}" using q(2) by auto
      then show ?thesis using D by auto
    qed
    then obtain T' where T': "step (int ?p + int q) (int q, snd s) = Some (int q + 1, T')" "writtenInv P R L w S B (insert (?b + q) (D \<union> {?b..<?b + q})) T'"
      using one [of "D \<union> {?b..<?b + q}" "snd s" q] x(3) q(2) by (auto simp: q_def)
    have ins: "insert (?b + q) (D \<union> {?b..<?b + q}) = D \<union> {?b..<?b + Suc q}" by auto
    have "step x s = Some (int q + 1, T')" using T'(1) s q(1) by metis
    then show "\<exists>s'. step x s = Some s' \<and> fst s' = x + 1 - int ?p \<and> writtenInv P R L w S B (D \<union> {?b..<?b + nat (x + 1 - int ?p)}) (snd s')"
      using T'(2) q(1) unfolding q(3) ins by auto
  qed (use inv in auto)
  then obtain s' where s': "for_range (int ?p) (int ?p + int (l - k)) step (0, T) = Some s'" "writtenInv P R L w S B (D \<union> {?b..<?b + (l - k)}) (snd s')" by auto
  have "rewriteBlocks P R sr rg (int (l - k)) T = Some (snd s')"
    using s'(1) sr(2) unfolding rewriteBlocks_def sr(1) step_def by (simp add: intervalLength_def sr(1) split_beta')
  moreover have "{?b..<?b + (l - k)} = {firstNumber S i + k..<firstNumber S i + l}" using k(3) by auto
  ultimately show ?thesis using s'(2) by auto
qed


lemma rewrite_partial:
  assumes inv: "writtenInv P R L w S B D T" and i: "i < length (rebalancingTasks S)" and lohi: "t * w \<le> toOf (length (moving S)) w t"
    and D: "D \<inter> ({t * w..<toOf (length (moving S)) w t} \<inter> {firstNumber S i..<firstNumber S (Suc i)}) = {}"
  shows "\<exists>T'. startPartialRewritingTask P R (int i) (mkInterval (int (t * w)) (int (toOf (length (moving S)) w t))) T = Some T' \<and>
     writtenInv P R L w S B (D \<union> ({t * w..<toOf (length (moving S)) w t} \<inter> {firstNumber S i..<firstNumber S (Suc i)})) T'"
proof -
  let ?t = "rebalancingTasks S ! i" and ?a = "firstNumber S i" and ?b = "firstNumber S (Suc i)" and ?lo = "t * w" and ?hi = "toOf (length (moving S)) w t"
  define k where "k = partFrom S w i t"
  define l where "l = partTo S w i t"
  have base: "rewriteBase P L w S B" using inv by (simp add: writtenInv_def)
  have set: "rebSetting P L S" and pre: "okPrefixes S" using base by (simp_all add: rewriteBase_def)
  note f = rebSetting_facts [OF set i] and sf = spreadAt_facts [OF set i]
  have T: "prefixNumberOfRebalancingBlocks T = prefixNumberOfRebalancingBlocks S" "rebalancingTasks T = rebalancingTasks S"
    using inv by (auto simp: writtenInv_def rewriteBase_def)
  have n: "?b = ?a + length (taskCells S ?t)" by (rule firstNumber_Suc [OF i])
  have cutE: "cut (mkInterval (int ?a) (int ?b)) (mkInterval (int ?lo) (int ?hi)) =
      (if l \<le> k then mkInterval 0 0 else mkInterval (int ?a + int k) (int ?a + int l))"
    unfolding k_def l_def partFrom_def partTo_def using lohi n by (intro cut_local) simp_all
  have tb: "taskBlockRange T (int i) = Some (mkInterval (int ?a) (int ?b))" using taskBlockRange_ok [OF pre i] unfolding taskBlockRange_def T(1) .
  have len: "length (prefixNumberOfRebalancingBlocks S) = Suc (length (rebalancingTasks S))" using pre by (simp add: okPrefixes_def)
  note A = part_set [of t w S i, folded k_def l_def]
  show ?thesis
  proof (cases "l \<le> k")
    case True
    then have "startPartialRewritingTask P R (int i) (mkInterval (int ?lo) (int ?hi)) T = Some T"
      using i len tb by (simp add: startPartialRewritingTask_def T(1) cutE del: cut_mk of_nat_mult)
    then show ?thesis using inv True unfolding A by simp
  next
    case False
    have kl: "k < l" "l \<le> length (taskCells S ?t)" using False n by (simp_all add: l_def partTo_def)
    have up: "getUniformWriteIndex (ileft (pmaRange ?t)) (int c) (intervalLength (pmaRange ?t)) (taskNumberOfBlocks ?t) = Some (int (spreadAt S i c))" for c
    proof -
      have "intervalLength (pmaRange ?t) = int (nat (iright (pmaRange ?t) - ileft (pmaRange ?t)))" using f(4,5,6) by (simp add: intervalLength_def)
      then show ?thesis using getUniformWriteIndex_ok [OF f(4), of "taskLo ?t" c "nat (iright (pmaRange ?t) - ileft (pmaRange ?t))"] f(3,5)
        by (simp add: spreadAt_def Let_def)
    qed
    let ?sr = "mkInterval (ileft (pmaRange ?t) + int k) (ileft (pmaRange ?t) + int k + int (l - k))"
    let ?rg = "mkInterval (int (spreadAt S i k)) (int (spreadAt S i l))"
    obtain T' where T': "rewriteBlocks P R ?sr ?rg (int (l - k)) T = Some T'" "writtenInv P R L w S B (D \<union> {?a + k..<?a + l}) T'"
      using rewriteBlocks_part [OF inv i k_def l_def kl(1), of ?sr ?rg] D sf(2) [of k l] kl f(5) unfolding A by (auto simp: of_nat_diff)
    have "startPartialRewritingTask P R (int i) (mkInterval (int ?lo) (int ?hi)) T = rewriteBlocks P R ?sr ?rg (int (l - k)) T"
    proof -
      have e: "int ?a + int k - int ?a = int k" "int k + (int l - int k) = int l" "int (l - k) = int l - int k" using kl by auto
      then show ?thesis using i len tb False up [of k] up [of l] by (simp add: startPartialRewritingTask_def T cutE taskAt_def Let_def del: cut_mk of_nat_mult)
    qed
    then show ?thesis using T' unfolding A by auto
  qed
qed

lemma rewrite_full:
  assumes inv: "writtenInv P R L w S B D T" and i: "i < length (rebalancingTasks S)"
    and own: "t * w \<le> firstNumber S i" "firstNumber S (Suc i) \<le> toOf (length (moving S)) w t" and D: "D \<inter> {firstNumber S i..<firstNumber S (Suc i)} = {}"
  shows "\<exists>T'. startFullRewritingTask P R (int i) T = Some T' \<and> writtenInv P R L w S B (D \<union> {firstNumber S i..<firstNumber S (Suc i)}) T'"
proof -
  let ?t = "rebalancingTasks S ! i" and ?n = "length (taskCells S (rebalancingTasks S ! i))"
  have set: "rebSetting P L S" using inv by (simp add: writtenInv_def rewriteBase_def)
  note f = rebSetting_facts [OF set i] and sf = spreadAt_facts [OF set i]
  have n: "firstNumber S (Suc i) = firstNumber S i + ?n" by (rule firstNumber_Suc [OF i])
  have k: "0 = partFrom S w i t" "?n = partTo S w i t" using own n by (simp_all add: partFrom_def partTo_def)
  have "rebalancingTasks T = rebalancingTasks S" using inv by (auto simp: writtenInv_def rewriteBase_def)
  then have "startFullRewritingTask P R (int i) T = rewriteBlocks P R (pmaRange ?t) (pmaRange ?t) (int ?n) T"
    using i f(3) by (simp add: startFullRewritingTask_def taskAt_def)
  moreover have "\<exists>T'. rewriteBlocks P R (pmaRange ?t) (pmaRange ?t) (int (?n - 0)) T = Some T' \<and> writtenInv P R L w S B (D \<union> {firstNumber S i + 0..<firstNumber S i + ?n}) T'"
  proof (rule rewriteBlocks_part [OF inv i k f(4)])
    have "spreadAt S i 0 \<le> spreadAt S i ?n" using sf(2) by simp
    then show "iright (pmaRange ?t) - ileft (pmaRange ?t) = int (spreadAt S i ?n - spreadAt S i 0)" using sf(3,4) f(5) by linarith
  qed (use D n f sf in auto)
  ultimately show ?thesis using n by auto
qed

interpretation rewrite_parts: task_parts "firstNumber S" "\<lambda>q. startPartialRewritingTask P R q (mkInterval (int (t * w)) (int (toOf (length (moving S)) w t)))"
  "startFullRewritingTask P R" "\<lambda>q. startPartialRewritingTask P R q (mkInterval (int (t * w)) (int (toOf (length (moving S)) w t)))"
  "t * w" "toOf (length (moving S)) w t" i j
  "\<lambda>D T. spansTasks S (t * w) (toOf (length (moving S)) w t) i j \<and> writtenInv P R L w S B D T" for S P R t w i j L B
proof
  let ?lo = "t * w" and ?hi = "toOf (length (moving S)) w t"
  show mono: "firstNumber S a \<le> firstNumber S b" if "a \<le> b" for a b using that by (rule firstNumber_mono)
  fix D T assume inv: "spansTasks S ?lo ?hi i j \<and> writtenInv P R L w S B D T"
  then show "i \<le> j \<and> firstNumber S i \<le> ?lo \<and> ?lo \<le> firstNumber S (Suc i) \<and> ?hi \<le> firstNumber S (Suc j) \<and> (i < j \<longrightarrow> firstNumber S j \<le> ?hi) \<and> ?lo \<le> ?hi"
    by (auto simp: spansTasks_def)
  have le: "i < length (rebalancingTasks S)" "j < length (rebalancingTasks S)" "?lo \<le> ?hi" using inv by (auto simp: spansTasks_def)
  show "\<exists>T'. startPartialRewritingTask P R (int i) (mkInterval (int ?lo) (int ?hi)) T = Some T' \<and>
      (spansTasks S ?lo ?hi i j \<and> writtenInv P R L w S B (D \<union> ({?lo..<?hi} \<inter> {firstNumber S i..<firstNumber S (Suc i)})) T')"
    if "D \<inter> ({?lo..<?hi} \<inter> {firstNumber S i..<firstNumber S (Suc i)}) = {}"
    using rewrite_partial [of P R L w S B D T i t] inv le that by auto
  show "\<exists>T'. startPartialRewritingTask P R (int j) (mkInterval (int ?lo) (int ?hi)) T = Some T' \<and>
      (spansTasks S ?lo ?hi i j \<and> writtenInv P R L w S B (D \<union> ({?lo..<?hi} \<inter> {firstNumber S j..<firstNumber S (Suc j)})) T')"
    if "D \<inter> ({?lo..<?hi} \<inter> {firstNumber S j..<firstNumber S (Suc j)}) = {}"
    using rewrite_partial [of P R L w S B D T j t] inv le that by auto
  show "\<exists>T'. startFullRewritingTask P R (int q) T = Some T' \<and>
      (spansTasks S ?lo ?hi i j \<and> writtenInv P R L w S B (D \<union> {firstNumber S q..<firstNumber S (Suc q)}) T')"
    if q: "i < q" "q < j" "D \<inter> {firstNumber S q..<firstNumber S (Suc q)} = {}" for q
  proof -
    have "?lo \<le> firstNumber S q" "firstNumber S (Suc q) \<le> ?hi"
      using inv q(1,2) mono [of "Suc i" q] mono [of "Suc q" j] by (auto simp: spansTasks_def)
    then show ?thesis using rewrite_full [of P R L w S B D T q t] inv le q by auto
  qed
qed

lemma executeRewriting_ok:
  assumes inv: "writtenInv P R L w S B D T" and D: "D \<inter> {t * w..<toOf (length (moving S)) w t} = {}"
  shows "\<exists>T'. executeRewriting P R (int w) (int (length (moving S))) t T = Some T' \<and> writtenInv P R L w S B (D \<union> {t * w..<toOf (length (moving S)) w t}) T'"
proof -
  let ?lo = "t * w" and ?hi = "toOf (length (moving S)) w t"
  have br: "threadBlockRange (int w) (int (length (moving S))) t = mkInterval (int ?lo) (int ?hi)"
    by (simp add: threadBlockRange_def toOf_def algebra_simps of_nat_min)
  have pre: "okPrefixes S" using inv by (simp add: writtenInv_def rewriteBase_def)
  have find: "findRebalancingTask T b = findRebalancingTask S b" for b using inv by (auto simp: writtenInv_def rewriteBase_def findRebalancingTask_def)
  show ?thesis
  proof (cases "?lo < ?hi")
    case False
    then show ?thesis using inv br by (simp add: executeRewriting_def del: of_nat_mult)
  next
    case True
    obtain i j where ij: "findRebalancingTask S (int ?lo) = Some (int i)" "findRebalancingTask S (int ?hi) = Some (int j)" "spansTasks S ?lo ?hi i j"
      using thread_tasks [OF pre True] by blast
    obtain T' where "(do { T \<leftarrow> startPartialRewritingTask P R (int i) (mkInterval (int ?lo) (int ?hi)) T;
          T \<leftarrow> for_range (int i + 1) (int j) (startFullRewritingTask P R) T;
          if i < j then startPartialRewritingTask P R (int j) (mkInterval (int ?lo) (int ?hi)) T else Some T }) = Some T'" "writtenInv P R L w S B (D \<union> {?lo..<?hi}) T'"
      using rewrite_parts.all_parts [of S t w i j P R L B D T] ij(3) inv D by auto
    moreover have "i \<le> j" using ij(3) by (simp add: spansTasks_def)
    ultimately show ?thesis using True br ij(1,2) by (simp add: executeRewriting_def find Let_def del: of_nat_mult cong: if_cong)
  qed
qed

definition allWritten :: "('k::linorder, 'v) tparams \<Rightarrow> runtime \<Rightarrow> nat \<Rightarrow> nat \<Rightarrow> ('k, 'v) sds \<Rightarrow> ('k, 'v) sds \<Rightarrow> nat set \<Rightarrow> ('k, 'v) sds \<Rightarrow> bool" where
  "allWritten P R L w S B D T \<longleftrightarrow> writtenInv P R L w S B (blocksOfThreads (length (moving S)) w D) T"

interpretation rewriting_threads: task_region n "executeRewriting P R (int w) (int (length (moving S)))" "allWritten P R L w S B" for n P R w S L B
  by unfold_locales (use executeRewriting_ok blocksOfThreads_apart in \<open>fastforce simp: allWritten_def blocksOfThreads_insert\<close>)

section \<open>The order of the blocks\<close>

definition arrayBlocks :: "('k, 'v) PmaEntry list \<Rightarrow> nat \<Rightarrow> nat \<Rightarrow> ('k, 'v) PmaEntry list" where
  "arrayBlocks pm a b = filter (\<lambda>e. \<not> isEmpty e) (map ((!) pm) [a..<b])"

lemma arrayBlocks_split: "a \<le> b \<Longrightarrow> b \<le> c \<Longrightarrow> arrayBlocks pm a c = arrayBlocks pm a b @ arrayBlocks pm b c"
  using upt_add_eq_append [of a b "c - b"] by (simp add: arrayBlocks_def)

lemma blocksAt_append [simp]: "blocksAt S (xs @ ys) = blocksAt S xs @ blocksAt S ys"
  by (simp add: blocksAt_def)

text \<open>Blocks at increasing positions between empty entries are read in their order.\<close>

lemma spread_blocks:
  assumes pos: "\<And>k. k < n \<Longrightarrow> a \<le> f k \<and> f k < b" "\<And>k l. k < l \<Longrightarrow> l < n \<Longrightarrow> f k < f l"
    and fill: "\<And>k. k < n \<Longrightarrow> pm ! f k = ws k \<and> \<not> isEmpty (ws k)" and free: "\<And>p. a \<le> p \<Longrightarrow> p < b \<Longrightarrow> p \<notin> f ` {..<n} \<Longrightarrow> isEmpty (pm ! p)"
  shows "arrayBlocks pm a b = map ws [0..<n]"
proof -
  have "filter (\<lambda>p. \<not> isEmpty (pm ! p)) [a..<b] = map f [0..<n]"
  proof (rule sorted_distinct_set_unique)
    show "sorted (map f [0..<n])" "distinct (map f [0..<n])"
    proof -
      have "sorted_wrt (<) (map f [0..<n])" using pos(2) by (auto simp: sorted_wrt_iff_nth_less)
      then show "sorted (map f [0..<n])" "distinct (map f [0..<n])" by (auto simp: strict_sorted_iff)
    qed
    show "set (filter (\<lambda>p. \<not> isEmpty (pm ! p)) [a..<b]) = set (map f [0..<n])" using pos(1) fill free by fastforce
  qed (simp_all add: sorted_wrt_filter)
  then have "map ((!) pm) (filter (\<lambda>p. \<not> isEmpty (pm ! p)) [a..<b]) = map (\<lambda>k. pm ! f k) [0..<n]" by simp
  then show ?thesis using fill by (simp add: arrayBlocks_def filter_map o_def)
qed

definition inTask :: "('k, 'v) sds \<Rightarrow> nat \<Rightarrow> bool" where
  "inTask S p \<longleftrightarrow> (\<exists>t\<in>set (rebalancingTasks S). taskLo t \<le> p \<and> int p < iright (pmaRange t))"

text \<open>The array after rewriting: the blocks of the tasks are at their targets, the rest of the tasks' ranges is empty, and the other entries are the old ones.\<close>

definition rewritten :: "('k::linorder, 'v) tparams \<Rightarrow> nat \<Rightarrow> ('k, 'v) sds \<Rightarrow> ('k, 'v) PmaEntry list \<Rightarrow> bool" where
  "rewritten P w S pm \<longleftrightarrow> (\<forall>g<length (moving S). pm ! (targets S w ! g) = cellAt S (moving S ! g)) \<and>
     (\<forall>p<length pm. inTask S p \<longrightarrow> p \<notin> set (targets S w) \<longrightarrow> pm ! p = emptyEntry P) \<and>
     (\<forall>p<length pm. \<not> inTask S p \<longrightarrow> pm ! p = (if p < usedWidth S then pma S ! p else emptyEntry P))"

lemma task_blocks:
  assumes set: "rebSetting P L S" and w: "0 < w" and pm: "rewritten P w S pm" and i: "i < length (rebalancingTasks S)"
    and len: "iright (pmaRange (rebalancingTasks S ! i)) \<le> int (length pm)"
  defines "t \<equiv> rebalancingTasks S ! i"
  shows "arrayBlocks pm (taskLo t) (nat (iright (pmaRange t))) = blocksAt S (cellsUpTo S (taskLo t) (taskHi S t))"
proof -
  let ?n = "length (taskCells S t)"
  note bounds = targetOf_bounds [OF set i _ w, folded t_def]
  have "arrayBlocks pm (taskLo t) (nat (iright (pmaRange t))) = map (\<lambda>k. cellAt S (taskCells S t ! k)) [0..<?n]"
  proof (rule spread_blocks [where f = "targetOf S w i"])
    show "taskLo t \<le> targetOf S w i k \<and> targetOf S w i k < nat (iright (pmaRange t))" if "k < ?n" for k using bounds(3,4) [OF that] by linarith
    show "targetOf S w i k < targetOf S w i l" if "k < l" "l < ?n" for k l using targetOf_mono [OF set i that(1) _ w] that(2) by (simp add: t_def)
    show "pm ! targetOf S w i k = cellAt S (taskCells S t ! k) \<and> \<not> isEmpty (cellAt S (taskCells S t ! k))" if k: "k < ?n" for k
    proof -
      have k': "k < length (taskCells S (rebalancingTasks S ! i))" using k by (simp add: t_def)
      have g: "firstNumber S i + k < length (moving S)" using k' firstNumber_Suc [OF i] firstNumber_le [of S "Suc i"] by simp
      have "pm ! (targets S w ! (firstNumber S i + k)) = cellAt S (moving S ! (firstNumber S i + k))" using pm g by (simp add: rewritten_def)
      then show ?thesis using targets_at [OF i k', of w] moving_at(1) [OF i k'] moving_filled(2) [OF set g] by (simp add: t_def filled_def)
    qed
    show "isEmpty (pm ! p)" if p: "taskLo t \<le> p" "p < nat (iright (pmaRange t))" "p \<notin> targetOf S w i ` {..<?n}" for p
    proof -
      have pl: "p < length pm" "int p < iright (pmaRange t)" using p(2) len by (auto simp: t_def)
      have "inTask S p" using p(1) pl i by (auto simp: inTask_def t_def intro!: bexI [of _ "rebalancingTasks S ! i"])
      moreover have "p \<notin> set (targets S w)"
      proof
        assume "p \<in> set (targets S w)"
        then obtain g where g: "g < length (moving S)" "p = targets S w ! g" by (metis in_set_conv_nth length_targets(2))
        obtain j k where j: "j < length (rebalancingTasks S)" "k < length (taskCells S (rebalancingTasks S ! j))" "g = firstNumber S j + k"
          using g(1) by (rule block_number)
        have pj: "p = targetOf S w j k" using g(2) targets_at [OF j(1,2), of w] j(3) by simp
        have "j = i"
        proof (rule ccontr)
          assume "j \<noteq> i"
          then show False
            using rebSetting_apart [OF set j(1) i] targetOf_bounds(3,4) [OF set j(1,2) w] p(1) pl(2) pj rebSetting_facts(5) [OF set i] rebSetting_facts(5) [OF set j(1)]
            unfolding t_def by linarith
        qed
        then show False using p(3) pj j(2) by (auto simp: t_def)
      qed
      ultimately have "pm ! p = emptyEntry P" using pm pl by (simp add: rewritten_def)
      then show ?thesis by (simp add: isEmpty_def emptyEntry_def)
    qed
  qed
  also have "\<dots> = map (cellAt S) (taskCells S t)" by (simp add: map_nth [of "taskCells S t"] flip: map_map [unfolded o_def, of "cellAt S" "(!) (taskCells S t)"])
  finally show ?thesis by (simp add: blocksAt_def taskCells_def)
qed

lemma entry_block:
  assumes set: "rebSetting P L S" and pm: "rewritten P w S pm" and p: "p < length pm" "\<not> inTask S p"
    and buf: "p < usedWidth S \<Longrightarrow> unbuffered S p"
  shows "arrayBlocks pm p (Suc p) = blocksAt S (cellsUpTo S (min p (usedWidth S)) (min (Suc p) (usedWidth S)))"
proof (cases "p < usedWidth S")
  case True
  then have "cellsUpTo S p (Suc p) = [ArrayCell p]" using buf by (simp add: cellsUpTo_def entryCells_def unbuffered_def)
  moreover have "pm ! p = pma S ! p" using pm p True by (simp add: rewritten_def)
  moreover have "min p (usedWidth S) = p" "min (Suc p) (usedWidth S) = Suc p" using True by auto
  ultimately show ?thesis by (simp add: arrayBlocks_def blocksAt_def filled_def)
next
  case False
  then have "pm ! p = emptyEntry P" using pm p by (simp add: rewritten_def)
  then show ?thesis using False by (simp add: arrayBlocks_def blocksAt_def isEmpty_def emptyEntry_def)
qed

lemma blocks_kept:
  assumes set: "rebSetting P L S" and w: "0 < w" and pm: "rewritten P w S pm"
    and len: "\<And>t. t \<in> set (rebalancingTasks S) \<Longrightarrow> iright (pmaRange t) \<le> int (length pm)"
    and buf: "\<And>j. j < usedWidth S \<Longrightarrow> \<not> unbuffered S j \<Longrightarrow> inTask S j"
    and p: "p \<le> length pm" "\<And>t. t \<in> set (rebalancingTasks S) \<Longrightarrow> \<not> (taskLo t < p \<and> int p < iright (pmaRange t))"
  shows "arrayBlocks pm 0 p = blocksAt S (cellsUpTo S 0 (min p (usedWidth S)))"
  using p
proof (induction p rule: less_induct)
  case (less p)
  show ?case
  proof (cases "p = 0")
    case True
    then show ?thesis by (simp add: arrayBlocks_def blocksAt_def)
  next
    case False
    then obtain q where q: "p = Suc q" by (cases p) auto
    show ?thesis
    proof (cases "inTask S q")
      case True
      then obtain i where i: "i < length (rebalancingTasks S)" "taskLo (rebalancingTasks S ! i) \<le> q" "int q < iright (pmaRange (rebalancingTasks S ! i))"
        by (auto simp: inTask_def in_set_conv_nth)
      let ?t = "rebalancingTasks S ! i"
      note f = rebSetting_facts [OF set i(1)]
      have end': "iright (pmaRange ?t) = int p"
        using less(3) [of ?t] i q by auto
      have lo: "taskLo ?t < p" using i(2) q by simp
      have "\<not> (taskLo u < taskLo ?t \<and> int (taskLo ?t) < iright (pmaRange u))" if u: "u \<in> set (rebalancingTasks S)" for u
      proof -
        obtain j where j: "j < length (rebalancingTasks S)" "u = rebalancingTasks S ! j" using u by (auto simp: in_set_conv_nth)
        show ?thesis
        proof (cases "j = i")
          case False
          have "int (taskLo ?t) < iright (pmaRange ?t)" using f(1,7) by linarith
          then show ?thesis using rebSetting_apart [OF set j(1) i(1) False] f(5) rebSetting_facts(5) [OF set j(1)] unfolding j(2) by linarith
        qed (simp add: j(2))
      qed
      then have IH: "arrayBlocks pm 0 (taskLo ?t) = blocksAt S (cellsUpTo S 0 (min (taskLo ?t) (usedWidth S)))"
        using less(1) [OF lo] less(2) lo by auto
      have mid: "arrayBlocks pm (taskLo ?t) p = blocksAt S (cellsUpTo S (taskLo ?t) (taskHi S ?t))"
        using task_blocks [OF set w pm i(1)] len [of ?t] i(1) end' by simp
      have hi: "min p (usedWidth S) = taskHi S ?t" "min (taskLo ?t) (usedWidth S) = taskLo ?t" using end' f(1,2) by (auto simp: taskHi_def)
      show ?thesis
        using IH mid arrayBlocks_split [of 0 "taskLo ?t" p pm] cellsUpTo_split [of 0 "taskLo ?t" "taskHi S ?t" S] lo f(1) unfolding hi by simp
    next
      case False
      have "\<not> (taskLo u < q \<and> int q < iright (pmaRange u))" if "u \<in> set (rebalancingTasks S)" for u using False that by (auto simp: inTask_def)
      then have IH: "arrayBlocks pm 0 q = blocksAt S (cellsUpTo S 0 (min q (usedWidth S)))" using less(1) [of q] less(2) q by auto
      have "arrayBlocks pm q (Suc q) = blocksAt S (cellsUpTo S (min q (usedWidth S)) (min (Suc q) (usedWidth S)))"
        using buf False less(2) q by (intro entry_block [OF set pm]) auto
      then show ?thesis
        using IH arrayBlocks_split [of 0 q p pm] cellsUpTo_split [of 0 "min q (usedWidth S)" "min p (usedWidth S)" S] q by simp
    qed
  qed
qed

end
