(* ===== verification/Rebalance_Phases.thy ===== *)
theory Rebalance_Phases
  imports Rebalance_Rewrite
begin

text \<open>
  The phases B-4 to B-8 one after the other: what the tasks have to satisfy, and that the array has the same blocks in the same order
  afterwards, with an empty buffer.
\<close>

section \<open>The phases\<close>

text \<open>
  What the phases rely on. The new size covers all tasks; every entry with blocks in the buffer belongs to a task; and if the array has to be
  reallocated, every block belongs to a task.
\<close>

definition rebalanceInput :: "('k::linorder, 'v) tparams \<Rightarrow> nat \<Rightarrow> nat \<Rightarrow> ('k, 'v) sds \<Rightarrow> bool" where
  "rebalanceInput P L newSize S \<longleftrightarrow> rebSetting P L (S\<lparr>swapPma := makeEntries P (int newSize)\<rparr>) \<and> rebalancingTasks S \<noteq> [] \<and>
     swapPma S = makeEntries P (swapCapacity S) \<and> swapCapacity S = sdsCapacity S \<and> sdsSize S \<le> int newSize \<and>
     (\<forall>j<usedWidth S. \<not> unbuffered S j \<longrightarrow> inTask S j) \<and>
     (int newSize < swapCapacity S \<or> (\<forall>j<usedWidth S. pma S ! j \<noteq> emptyEntry P \<longrightarrow> inTask S j))"

lemma sameCells_swap [simp]: "sameCells S (S\<lparr>swapPma := x\<rparr>)" "sameCells S (S\<lparr>swapCapacity := c, swapPma := x\<rparr>)"
  by (simp_all add: sameCells_def)

lemma sameCells_inTask: "sameCells S T \<Longrightarrow> inTask T = inTask S"
  by (simp add: fun_eq_iff inTask_def sameCells_def)

lemma sameCells_prefixes:
  fixes S T :: "('k::linorder, 'v) sds"
  assumes "sameCells S T" "prefixNumberOfRebalancingBlocks T = prefixNumberOfRebalancingBlocks S"
  shows "okPrefixes T = okPrefixes S"
  using assms sameCells_tasks(5,7) [OF assms(1)] by (simp add: okPrefixes_def sameCells_def)

lemma increaseSwapPmaSize_ok:
  assumes inp: "rebalanceInput P L newSize S"
  shows "\<exists>c. increaseSwapPmaSize P (int newSize) S = Some (S\<lparr>swapCapacity := c, swapPma := makeEntries P c\<rparr>) \<and> int newSize < c \<and> swapCapacity S \<le> c \<and>
     (int newSize < swapCapacity S \<longrightarrow> c = swapCapacity S) \<and> rebSetting P L (S\<lparr>swapCapacity := c, swapPma := makeEntries P c\<rparr>)"
proof -
  have set: "rebSetting P L (S\<lparr>swapPma := makeEntries P (int newSize)\<rparr>)" and sw: "swapPma S = makeEntries P (swapCapacity S)" "swapCapacity S = sdsCapacity S"
    using inp by (auto simp: rebalanceInput_def)
  have "wfCells P S" using set sameCells_tasks(1) [OF sameCells_swap(1)] by (auto simp: rebSetting_def)
  then have cap: "0 < swapCapacity S" unfolding sw(2) by (auto simp: wfCells_def usedWidth_def)
  have setc: "rebSetting P L (S\<lparr>swapCapacity := c, swapPma := makeEntries P c\<rparr>)" if "int newSize < c" for c
  proof (rule sameCells_setting [OF _ _ set])
    show "sameCells (S\<lparr>swapPma := makeEntries P (int newSize)\<rparr>) (S\<lparr>swapCapacity := c, swapPma := makeEntries P c\<rparr>)" by (simp add: sameCells_def)
    fix t assume "t \<in> set (rebalancingTasks (S\<lparr>swapPma := makeEntries P (int newSize)\<rparr>))"
    then have "iright (pmaRange t) \<le> int (length (swapPma (S\<lparr>swapPma := makeEntries P (int newSize)\<rparr>)))" using set unfolding rebSetting_def by blast
    then have "iright (pmaRange t) \<le> int newSize" by (simp add: makeEntries_def)
    then show "iright (pmaRange t) \<le> int (length (swapPma (S\<lparr>swapCapacity := c, swapPma := makeEntries P c\<rparr>)))" using that by (simp add: makeEntries_def)
  qed simp
  show ?thesis
  proof (cases "int newSize < swapCapacity S")
    case True
    then show ?thesis using sw setc [of "swapCapacity S"] by (intro exI [of _ "swapCapacity S"]) (simp add: increaseSwapPmaSize_def sw(1) [symmetric])
  next
    case False
    obtain c where c: "doubleCapacity (swapCapacity S) (int newSize) = Some c" "int newSize < c" "swapCapacity S dvd c" "0 < c"
      using doubleCapacity_ok [OF cap] by blast
    have "swapCapacity S \<le> c" using c(3,4) by (rule zdvd_imp_le)
    then show ?thesis using False c setc [of c] by (intro exI [of _ c]) (simp add: increaseSwapPmaSize_def)
  qed
qed

lemma move_phase:
  assumes set: "rebSetting P L S" and pre: "okPrefixes S" and n: "0 < n" "n \<le> length (tasks S)"
    and W: "\<And>r. distinct (W r) \<and> set (W r) = {0..<n}" and w: "w = length (moving S) div n + 1"
  shows "\<exists>xs T. foldM (assignRebalancing P dm (int w) (int (length (moving S)))) (W 2) S = Some (S\<lparr>tasks := xs\<rparr>) \<and> length xs = length (tasks S) \<and>
     (\<forall>t<n. planned S w t (xs ! t)) \<and>
     foldM (executeRebalancing P) (W 3) (S\<lparr>tasks := xs\<rparr>) = Some T \<and> movedInv P L (S\<lparr>tasks := xs\<rparr>) {..<length (moving S)} T"
proof -
  have "assignedInv P L w n S {} S" unfolding assignedInv_def using set pre n by (auto intro!: exI [of _ "tasks S"])
  then obtain S1 where S1: "foldM (assignRebalancing P dm (int w) (int (length (moving S)))) (W 2) S = Some S1" "assignedInv P L w n S {0..<n} S1"
    using assigning.all_done [of P L w n S S "W 2" dm] W by blast
  then obtain xs where xs: "S1 = S\<lparr>tasks := xs\<rparr>" "length xs = length (tasks S)" "\<forall>t<n. planned S w t (xs ! t)" by (auto simp: assignedInv_def)
  have set1: "rebSetting P L S1" unfolding xs(1) by (rule tasks_irrelevant_setting [OF set])
  have "movedOut P S1 {} (rebalancingManager S1) S1" by (auto simp: movedOut_def intro!: exI [of _ "swapPma S1"])
  moreover have "flagsCleared L (rebalancingManager S1) {} (rebalancingManager S1)" using set1 by (simp add: flagsCleared_def rebSetting_def)
  ultimately have "movedInv P L S1 {} S1" unfolding movedInv_def by blast
  then have "allMoved P L w n S1 {} S1" using set1 xs n by (simp add: allMoved_def blocksOfThreads_def)
  then obtain T where T: "foldM (executeRebalancing P) (W 3) S1 = Some T" "allMoved P L w n S1 {0..<n} T"
    using moving_threads.all_done [of P L w n S1 S1 "W 3"] W by blast
  have "length (moving S) < n * w" using enough_threads [OF n(1), of "length (moving S)"] w by simp
  then have "movedInv P L S1 {..<length (moving S)} T" using T(2) blocksOfThreads_all [of "length (moving S)" n w] by (simp add: allMoved_def xs(1))
  then show ?thesis using S1(1) T(1) xs by auto
qed

lemma clear_phase:
  assumes set: "rebSetting P L S" and B: "sdsSize B = sdsSize S" "rebalancingTasks B = rebalancingTasks S" "tasks B = tasks S" "bufferPointers B = bufferPointers S"
    and n: "n \<le> length (tasks S)" "\<forall>t<n. planned S w t (tasks S ! t)" "length (moving S) < n * w" and W: "distinct ws" "set ws = {0..<n}"
    and buf: "\<And>j. j < usedWidth S \<Longrightarrow> \<not> unbuffered S j \<Longrightarrow> inTask S j"
  shows "\<exists>ps. foldM (clearPointersOfThread P) ws B = Some (B\<lparr>bufferPointers := ps\<rparr>) \<and> length ps = length (bufferPointers S) \<and>
     (\<forall>j<length ps. ileft (ps ! j) = iright (ps ! j))"
proof -
  have "pointersCleared S {} (bufferPointers S)" by (simp add: pointersCleared_def)
  moreover have "B = B\<lparr>bufferPointers := bufferPointers S\<rparr>" using B(4) by simp
  ultimately have "\<exists>ps. B = B\<lparr>bufferPointers := ps\<rparr> \<and> pointersCleared S {} ps" by blast
  then have "allCleared P L w n S B {} B" using set B n unfolding allCleared_def clearedInv_def by (simp add: blocksOfThreads_def)
  then obtain T where T: "foldM (clearPointersOfThread P) ws B = Some T" "allCleared P L w n S B {0..<n} T"
    using clearing_threads.all_done [of P L w n S B B ws] W by blast
  then obtain ps where ps: "T = B\<lparr>bufferPointers := ps\<rparr>" "pointersCleared S {..<length (moving S)} ps"
    using blocksOfThreads_all [OF n(3)] by (auto simp: allCleared_def clearedInv_def)
  have wf: "wfCells P S" using set by (simp add: rebSetting_def)
  have len: "length ps = length (bufferPointers S)" "length ps = length (pma S)" using ps(2) wf by (auto simp: pointersCleared_def wfCells_def)
  have "ileft (ps ! j) = iright (ps ! j)" if j: "j < length ps" for j
  proof (cases "unbuffered S j")
    case True
    then show ?thesis using ps(2) j by (auto simp: pointersCleared_def unbuffered_def)
  next
    case False
    then have ju: "j < usedWidth S" using wf j len by (auto simp: wfCells_def not_le [symmetric])
    then obtain i where i: "i < length (rebalancingTasks S)" "taskLo (rebalancingTasks S ! i) \<le> j" "int j < iright (pmaRange (rebalancingTasks S ! i))"
      using buf [OF ju False] by (auto simp: inTask_def in_set_conv_nth)
    let ?c = "last (entryCells (bufferPointers S) j)" and ?t = "rebalancingTasks S ! i"
    have hi: "j < taskHi S ?t" using ju i(3) by (auto simp: taskHi_def)
    have ce: "?c \<in> set (entryCells (bufferPointers S) j)" by (rule last_in_set) (simp add: entryCells_def)
    have "0 \<le> ileft (bufferPointers S ! j)" "ileft (bufferPointers S ! j) < iright (bufferPointers S ! j)"
      using False wf ju by (auto simp: wfCells_def okPointers_def unbuffered_def order_less_le)
    then have "isBufferCell ?c" by (auto simp: entryCells_def last_map)
    moreover have "?c \<in> set (cellsUpTo S (taskLo ?t) (taskHi S ?t))" using ce i(2) hi by (auto simp: in_cellsUpTo)
    ultimately have "?c \<in> set (taskCells S ?t)"
      using wfCells_sub(2) [OF wf rebSetting_facts(2) [OF set i(1)]] by (auto simp: taskCells_def)
    then have "?c \<in> set (moving S)" using i(1) by (auto simp: cellLists_def)
    then have "?c \<in> (!) (moving S) ` {..<length (moving S)}" by (simp only: nth_image_all)
    then have "ps ! j = emptyInterval" using ps(2) ju False by (auto simp: pointersCleared_def)
    then show ?thesis by simp
  qed
  then show ?thesis using T(1) ps(1) len(1) by auto
qed

text \<open>The cells of the tasks are exactly the filled cells of their entries.\<close>

lemma moving_iff:
  assumes set: "rebSetting P L S" and j: "j < usedWidth S" and c: "c \<in> set (entryCells (bufferPointers S) j)"
  shows "c \<in> set (moving S) \<longleftrightarrow> inTask S j \<and> filled S c"
proof
  have wf: "wfCells P S" using set by (simp add: rebSetting_def)
  assume "c \<in> set (moving S)"
  then obtain t where "t \<in> set (rebalancingTasks S)" "c \<in> set (taskCells S t)" by (auto simp: cellLists_def)
  then obtain i where i: "i < length (rebalancingTasks S)" "c \<in> set (taskCells S (rebalancingTasks S ! i))" by (metis in_set_conv_nth)
  then obtain q where q: "taskLo (rebalancingTasks S ! i) \<le> q" "q < taskHi S (rebalancingTasks S ! i)" "c \<in> set (entryCells (bufferPointers S) q)" "filled S c"
    by (auto simp: taskCells_def in_cellsUpTo)
  note f = rebSetting_facts [OF set i(1)]
  have "distinct (cellsUpTo S 0 (usedWidth S))" using wf by (simp add: wfCells_def)
  then have "q = j" using entryCells_disjoint [of S "usedWidth S" q j] q(2,3) f(2) j c by auto
  moreover have "int q < iright (pmaRange (rebalancingTasks S ! i))" using q(2) f(7) by linarith
  ultimately show "inTask S j \<and> filled S c" using q i(1) by (auto simp: inTask_def intro!: bexI [of _ "rebalancingTasks S ! i"])
next
  assume a: "inTask S j \<and> filled S c"
  then obtain t where t: "t \<in> set (rebalancingTasks S)" "taskLo t \<le> j" "int j < iright (pmaRange t)" by (auto simp: inTask_def)
  then have "j < taskHi S t" using j by (auto simp: taskHi_def)
  then have "c \<in> set (taskCells S t)" using t c a by (auto simp: taskCells_def in_cellsUpTo)
  then show "c \<in> set (moving S)" using t(1) by (auto simp: cellLists_def)
qed

lemma emptied_entry:
  assumes set: "rebSetting P L S" and j: "j < length (pma S)"
  shows "(if ArrayCell j \<in> set (moving S) then emptyEntry P else pma S ! j) = (if inTask S j then emptyEntry P else pma S ! j)"
proof (cases "j < usedWidth S")
  case True
  have wf: "wfCells P S" using set by (simp add: rebSetting_def)
  have c: "ArrayCell j \<in> set (entryCells (bufferPointers S) j)" by (simp add: entryCells_def)
  have "ArrayCell j \<in> set (cellsUpTo S 0 (usedWidth S))" using True c by (auto simp: in_cellsUpTo)
  then have "okEntry P (pma S ! j)" using wfCells_sub(2) [OF wf order_refl, of "ArrayCell j" 0] by (simp add: okCell_def)
  then have "filled S (ArrayCell j) \<or> pma S ! j = emptyEntry P" using okEntry_cases by (auto simp: filled_def)
  then show ?thesis using moving_iff [OF set True c] by auto
next
  case False
  then have "pma S ! j = emptyEntry P" using set j by (auto simp: rebSetting_def wfCells_def)
  then show ?thesis by simp
qed

lemma targets_inTask:
  assumes set: "rebSetting P L S" and w: "0 < w" and p: "p \<in> set (targets S w)"
  shows "inTask S p"
proof -
  obtain g where g: "g < length (moving S)" "p = targets S w ! g" using p by (metis in_set_conv_nth length_targets(2))
  obtain i k where i: "i < length (rebalancingTasks S)" "k < length (taskCells S (rebalancingTasks S ! i))" "g = firstNumber S i + k"
    using g(1) by (rule block_number)
  then show ?thesis using targetOf_bounds(3,4) [OF set i(1,2) w] targets_at [OF i(1,2), of w] g(2)
    by (auto simp: inTask_def intro!: bexI [of _ "rebalancingTasks S ! i"])
qed

lemma rewrite_phase:
  assumes base: "rewriteBase P L w S B" and bm: "bmInv R (recountingNodesMap B)" and n: "length (moving S) < n * w" and W: "distinct ws" "set ws = {0..<n}"
    and arr: "\<And>p. p < length (pma B) \<Longrightarrow> pma B ! p = (if inTask S p then emptyEntry P else if p < usedWidth S then pma S ! p else emptyEntry P)"
    and sw: "\<And>p. p < length (swapPma B) \<Longrightarrow> p \<notin> set (places S) \<Longrightarrow> swapPma B ! p = emptyEntry P"
  shows "\<exists>pm m. foldM (executeRewriting P R (int w) (int (length (moving S)))) ws B =
       Some (B\<lparr>pma := pm, swapPma := replicate (length (swapPma B)) (emptyEntry P), recountingNodesMap := m\<rparr>) \<and>
     length pm = length (pma B) \<and> rewritten P w S pm \<and> bmInv R m"
proof -
  have set: "rebSetting P L S" and w: "0 < w" using base by (simp_all add: rewriteBase_def)
  have "writtenInv P R L w S B {} B"
    unfolding writtenInv_def
    by (rule conjI [OF base], rule conjI, simp, rule exI [of _ "pma B"], rule exI [of _ "swapPma B"], rule exI [of _ "recountingNodesMap B"]) (simp add: bm)
  then have "allWritten P R L w S B {} B" by (simp add: allWritten_def blocksOfThreads_def)
  then obtain T where T: "foldM (executeRewriting P R (int w) (int (length (moving S)))) ws B = Some T" "allWritten P R L w S B {0..<n} T"
    using rewriting_threads.all_done [of P R L w S B B ws n] W by blast
  have "writtenInv P R L w S B {..<length (moving S)} T" using T(2) blocksOfThreads_all [OF n] by (simp add: allWritten_def)
  then obtain pm sw' m where t: "T = B\<lparr>pma := pm, swapPma := sw', recountingNodesMap := m\<rparr>" "length pm = length (pma B)" "length sw' = length (swapPma B)" "bmInv R m"
     "\<forall>g\<in>{..<length (moving S)}. pm ! (targets S w ! g) = cellAt S (moving S ! g) \<and> sw' ! (places S ! g) = emptyEntry P \<and>
         bmLookup m (lowestLevelNodeIndex P (int (targets S w ! g))) \<noteq> None"
     "\<forall>p<length pm. p \<notin> (!) (targets S w) ` {..<length (moving S)} \<longrightarrow> pm ! p = pma B ! p"
     "\<forall>p<length sw'. p \<notin> (!) (places S) ` {..<length (moving S)} \<longrightarrow> sw' ! p = swapPma B ! p"
    unfolding writtenInv_def by (elim conjE exE)
  have im: "(!) (targets S w) ` {..<length (moving S)} = set (targets S w)" "(!) (places S) ` {..<length (moving S)} = set (places S)"
    using nth_image_all [of "targets S w"] nth_image_all [of "places S"] by (simp_all only: length_targets length_places)
  have "sw' ! p = emptyEntry P" if p: "p < length sw'" for p
  proof (cases "p \<in> set (places S)")
    case True
    then show ?thesis using t(5) unfolding im(2) [symmetric] by blast
  next
    case False
    then show ?thesis using t(3,7) sw p unfolding im by simp
  qed
  then have "sw' = replicate (length (swapPma B)) (emptyEntry P)" using t(3) by (intro nth_equalityI) auto
  moreover have "rewritten P w S pm"
    unfolding rewritten_def
  proof (intro conjI allI impI)
    show "pm ! (targets S w ! g) = cellAt S (moving S ! g)" if "g < length (moving S)" for g using t(5) that by simp
    show "pm ! p = emptyEntry P" if "p < length pm" "inTask S p" "p \<notin> set (targets S w)" for p using t(2,6) that arr unfolding im by simp
    show "pm ! p = (if p < usedWidth S then pma S ! p else emptyEntry P)" if "p < length pm" "\<not> inTask S p" for p
    proof -
      have "p \<notin> set (targets S w)" using targets_inTask [OF set w] that(2) by blast
      then have "pm ! p = pma B ! p" using t(6) that(1) unfolding im by blast
      then show ?thesis using arr [of p] that t(2) by simp
    qed
  qed
  ultimately show ?thesis using T(1) t by auto
qed


section \<open>All phases together\<close>

text \<open>
  The manager after the phases: the flags of the tasks' nodes are cleared and the counters are the old ones, unless the manager grew, which clears all of them.
\<close>

definition managerAfter :: "nat \<Rightarrow> RebalancingTask list \<Rightarrow> brm \<Rightarrow> brm \<Rightarrow> bool" where
  "managerAfter L ts m m' \<longleftrightarrow> (\<exists>L'. brmLayout L' m' \<and>
     (L' = L \<longrightarrow> (\<forall>l i. validNode L l i \<longrightarrow>
        agg L m' l i = (agg L m l i)\<lparr>rebalanced := rebalanced (agg L m l i) \<and> mkNode (int l) i \<notin> rootNode ` set ts\<rparr>)) \<and>
     (L' \<noteq> L \<longrightarrow> (\<forall>l i. validNode L' l i \<longrightarrow> agg L' m' l i = emptyManagerEntry)))"

text \<open>What holds after the phases: the array has the new size and all of its blocks in the old order, the buffer and the swap array are empty.\<close>

definition rebalancedArray :: "('k::linorder, 'v) tparams \<Rightarrow> runtime \<Rightarrow> nat \<Rightarrow> nat \<Rightarrow> ('k, 'v) sds \<Rightarrow> ('k, 'v) sds \<Rightarrow> bool" where
  "rebalancedArray P R L newSize S S' \<longleftrightarrow> sdsSize S' = int newSize \<and>
     arrayBlocks (pma S') 0 newSize = blocksAt S (cellsUpTo S 0 (usedWidth S)) \<and>
     (\<forall>t\<in>set (rebalancingTasks S). arrayBlocks (pma S') (taskLo t) (nat (iright (pmaRange t))) = blocksAt S (cellsUpTo S (taskLo t) (taskHi S t))) \<and>
     (\<forall>p. newSize \<le> p \<and> p < length (pma S') \<longrightarrow> pma S' ! p = emptyEntry P) \<and>
     (\<forall>j<length (bufferPointers S'). unbuffered S' j) \<and> length (bufferPointers S') = length (pma S') \<and> newSize < length (pma S') \<and>
     sdsCapacity S' = int (length (pma S')) \<and> swapCapacity S' = sdsCapacity S' \<and> swapPma S' = makeEntries P (swapCapacity S') \<and>
     bufferArray S' = map (\<lambda>i. if BufferCell i \<in> set (moving S) then emptyEntry P else bufferArray S ! i) [0..<length (bufferArray S)] \<and>
     bmInv R (recountingNodesMap S') \<and> managerAfter L (rebalancingTasks S) (rebalancingManager S) (rebalancingManager S')"

lemma all_flags:
  assumes set: "rebSetting P L S" and inv: "movedInv P L S {..<length (moving S)} T"
  shows "flagsCleared L (rebalancingManager S) (rootNode ` set (rebalancingTasks S)) (rebalancingManager T)"
proof -
  obtain m N where m: "movedOut P S {..<length (moving S)} m T" "flagsCleared L (rebalancingManager S) N m" "N \<subseteq> rootNode ` set (rebalancingTasks S)"
     "\<forall>i<length (rebalancingTasks S). {..<length (moving S)} \<inter> {firstNumber S i..<firstNumber S (Suc i)} \<noteq> {} \<longrightarrow> rootNode (rebalancingTasks S ! i) \<in> N"
    using inv by (auto simp: movedInv_def)
  have "rootNode (rebalancingTasks S ! i) \<in> N" if i: "i < length (rebalancingTasks S)" for i
  proof -
    have "firstNumber S i < firstNumber S (Suc i)" using firstNumber_Suc [OF i] rebSetting_facts(4) [OF set i] by simp
    then have "firstNumber S i \<in> {..<length (moving S)} \<inter> {firstNumber S i..<firstNumber S (Suc i)}" using firstNumber_le [of S "Suc i"] by simp
    then show ?thesis using m(4) i by blast
  qed
  then have "N = rootNode ` set (rebalancingTasks S)" using m(3) by (auto simp: in_set_conv_nth)
  then show ?thesis using m(2) movedOut_sel(1) [OF m(1)] by simp
qed

lemma thread_width: "cdiv (int a) (int n) + 1 = int (a div n + 1)"
  by (simp add: cdiv_def sgn_if zdiv_int)

lemma resizeMainPma_sel:
  fixes U :: "('k, 'v) sds"
  shows "sdsSize (resizeMainPma P n U) = n" "numberOfThreads (resizeMainPma P n U) = numberOfThreads U" "rebalancingTasks (resizeMainPma P n U) = rebalancingTasks U"
    "prefixNumberOfRebalancingBlocks (resizeMainPma P n U) = prefixNumberOfRebalancingBlocks U" "swapPma (resizeMainPma P n U) = swapPma U"
    "swapCapacity (resizeMainPma P n U) = swapCapacity U" "recountingNodesMap (resizeMainPma P n U) = recountingNodesMap U"
    "rebalancingManager (resizeMainPma P n U) = rebalancingManager U" "bufferArray (resizeMainPma P n U) = bufferArray U"
    "sdsCapacity (resizeMainPma P n U) = swapCapacity U"
    "pma (resizeMainPma P n U) = (if swapCapacity U = sdsCapacity U then pma U else makeEntries P (swapCapacity U))"
    "bufferPointers (resizeMainPma P n U) = (if swapCapacity U = sdsCapacity U then bufferPointers U else makePointers (swapCapacity U))"
  by (simp_all add: resizeMainPma_def Let_def)

text \<open>The state between the phases: the swap array holds the blocks of the tasks, their entries and the buffer are empty.\<close>

definition swappedOut :: "('k::linorder, 'v) tparams \<Rightarrow> nat \<Rightarrow> nat \<Rightarrow> nat \<Rightarrow> ('k, 'v) sds \<Rightarrow> ('k, 'v) sds \<Rightarrow> bool" where
  "swappedOut P L w newSize S B \<longleftrightarrow>
     sdsSize B = int newSize \<and> sdsCapacity B = int (length (pma B)) \<and> swapCapacity B = sdsCapacity B \<and> newSize < length (pma B) \<and>
     length (swapPma B) = length (pma B) \<and> length (bufferPointers B) = length (pma B) \<and> numberOfThreads B = numberOfThreads S \<and>
     recountingNodesMap B = recountingNodesMap S \<and>
     (\<forall>p<length (pma B). pma B ! p = (if inTask S p then emptyEntry P else if p < usedWidth S then pma S ! p else emptyEntry P)) \<and>
     (\<forall>p<length (swapPma B). p \<notin> set (places S) \<longrightarrow> swapPma B ! p = emptyEntry P) \<and>
     (\<forall>g<length (moving S). swapPma B ! (places S ! g) = cellAt S (moving S ! g)) \<and> (\<forall>j<length (bufferPointers B). unbuffered B j) \<and>
     bufferArray B = map (\<lambda>i. if BufferCell i \<in> set (moving S) then emptyEntry P else bufferArray S ! i) [0..<length (bufferArray S)] \<and>
     rebalancingTasks B = rebalancingTasks S \<and> prefixNumberOfRebalancingBlocks B = prefixNumberOfRebalancingBlocks S \<and>
     managerAfter L (rebalancingTasks S) (rebalancingManager S) (rebalancingManager B)"

lemma resized:
  assumes set: "rebSetting P L S" and mv: "movedOut P S {..<length (moving S)} m T" and pl: "swapPma S = makeEntries P (swapCapacity S)"
    and cap: "int newSize < swapCapacity S"
    and keep: "swapCapacity S = sdsCapacity S \<or> (\<forall>j<usedWidth S. pma S ! j \<noteq> emptyEntry P \<longrightarrow> inTask S j)"
    and ps: "length ps = length (bufferPointers S)" "\<forall>j<length ps. ileft (ps ! j) = iright (ps ! j)"
    and m': "brmLayout L' m'" "L' = L \<longrightarrow> (\<forall>l i. validNode L l i \<longrightarrow> agg L m' l i = agg L m l i)"
      "L' \<noteq> L \<longrightarrow> (\<forall>l i. validNode L' l i \<longrightarrow> agg L' m' l i = emptyManagerEntry)"
    and fl: "flagsCleared L (rebalancingManager S) (rootNode ` set (rebalancingTasks S)) m"
  shows "swappedOut P L w newSize S (resizeMainPma P (int newSize) (T\<lparr>rebalancingManager := m', bufferPointers := ps\<rparr>))" (is "swappedOut _ _ _ _ _ (resizeMainPma _ _ ?U)")
proof -
  let ?B = "resizeMainPma P (int newSize) ?U" and ?C = "set (moving S)"
  obtain sw where T: "T = cleared P ?C (S\<lparr>swapPma := sw, rebalancingManager := m, bufferReads := bufferReads S + int (card {g\<in>{..<length (moving S)}. isBufferCell (moving S ! g)})\<rparr>)"
     "length sw = length (swapPma S)" "\<forall>g\<in>{..<length (moving S)}. sw ! (places S ! g) = cellAt S (moving S ! g)"
     "\<forall>p<length sw. p \<notin> set (places S) \<longrightarrow> sw ! p = swapPma S ! p"
    using mv nth_image_all [of "moving S"] nth_image_all [of "places S"] unfolding movedOut_def length_places by auto
  have Tsel: "swapCapacity T = swapCapacity S" "sdsCapacity T = sdsCapacity S" "numberOfThreads T = numberOfThreads S" "recountingNodesMap T = recountingNodesMap S"
    "rebalancingTasks T = rebalancingTasks S" "prefixNumberOfRebalancingBlocks T = prefixNumberOfRebalancingBlocks S" "swapPma T = sw"
    "length (pma T) = length (pma S)" "\<And>p. p < length (pma S) \<Longrightarrow> pma T ! p = (if ArrayCell p \<in> ?C then emptyEntry P else pma S ! p)"
    "bufferArray T = map (\<lambda>i. if BufferCell i \<in> ?C then emptyEntry P else bufferArray S ! i) [0..<length (bufferArray S)]"
    unfolding T(1) cleared_def by simp_all
  have wf: "length (bufferPointers S) = length (pma S)" "sdsCapacity S = int (length (pma S))" "usedWidth S \<le> length (pma S)"
     "\<And>j. j < length (pma S) \<Longrightarrow> usedWidth S \<le> j \<Longrightarrow> pma S ! j = emptyEntry P"
    using set by (simp_all add: rebSetting_def wfCells_def)
  have len: "length (pma ?B) = nat (swapCapacity S)" "length (bufferPointers ?B) = nat (swapCapacity S)" "length sw = nat (swapCapacity S)"
    using wf ps(1) pl T(2) by (auto simp: resizeMainPma_sel Tsel makeEntries_def makePointers_def)
  have entry: "pma ?B ! p = (if inTask S p then emptyEntry P else if p < usedWidth S then pma S ! p else emptyEntry P)" if p: "p < length (pma ?B)" for p
  proof (cases "swapCapacity S = sdsCapacity S")
    case True
    then have p': "p < length (pma S)" using p len(1) wf(2) by simp
    show ?thesis using True emptied_entry [OF set p'] Tsel(9) [OF p'] wf(4) [OF p'] by (simp add: resizeMainPma_sel Tsel(1,2))
  next
    case False
    then have "pma ?B ! p = emptyEntry P" using p len(1) by (simp add: resizeMainPma_sel Tsel(1,2) makeEntries_def)
    then show ?thesis using keep False by auto
  qed
  have unb: "unbuffered ?B j" if "j < length (bufferPointers ?B)" for j
    using that ps wf len by (auto simp: unbuffered_def resizeMainPma_sel Tsel(1,2) makePointers_def)
  have man: "managerAfter L (rebalancingTasks S) (rebalancingManager S) (rebalancingManager ?B)"
    unfolding managerAfter_def using m' fl by (intro exI [of _ L']) (simp add: resizeMainPma_sel flagsCleared_def)
  have sw: "\<forall>p<length (swapPma ?B). p \<notin> set (places S) \<longrightarrow> swapPma ?B ! p = emptyEntry P" "\<forall>g<length (moving S). swapPma ?B ! (places S ! g) = cellAt S (moving S ! g)"
    using T(3,4) len(3) pl by (simp_all add: resizeMainPma_sel Tsel makeEntries_def)
  have sel: "sdsSize ?B = int newSize" "sdsCapacity ?B = int (length (pma ?B))" "swapCapacity ?B = sdsCapacity ?B" "newSize < length (pma ?B)"
     "length (swapPma ?B) = length (pma ?B)" "length (bufferPointers ?B) = length (pma ?B)" "numberOfThreads ?B = numberOfThreads S"
     "recountingNodesMap ?B = recountingNodesMap S" "rebalancingTasks ?B = rebalancingTasks S" "prefixNumberOfRebalancingBlocks ?B = prefixNumberOfRebalancingBlocks S"
     "bufferArray ?B = map (\<lambda>i. if BufferCell i \<in> ?C then emptyEntry P else bufferArray S ! i) [0..<length (bufferArray S)]"
    using len(3) cap unfolding len(1,2) by (simp_all add: resizeMainPma_sel Tsel)
  show ?thesis
    unfolding swappedOut_def
    by (intro conjI allI impI; (rule sel entry unb man | rule sw [rule_format])?; (assumption | blast)?)
qed

lemma swappedOut_cong:
  fixes S T :: "('k::linorder, 'v) sds"
  assumes "sameCells S T" "rebalancingManager T = rebalancingManager S" "prefixNumberOfRebalancingBlocks T = prefixNumberOfRebalancingBlocks S"
    "numberOfThreads T = numberOfThreads S" "recountingNodesMap T = recountingNodesMap S"
  shows "swappedOut P L w newSize T B = swappedOut P L w newSize S B"
proof -
  have e: "pma T = pma S" "bufferArray T = bufferArray S" "rebalancingTasks T = rebalancingTasks S" using assms(1) by (simp_all add: sameCells_def)
  show ?thesis
    unfolding swappedOut_def sameCells_inTask [OF assms(1)] sameCells_tasks [OF assms(1)] sameCells_cells(3) [OF assms(1)] sameCells_cell [OF assms(1)] e assms(2-5) ..
qed

lemma rebalancePhase_ok:
  assumes inp: "rebalanceInput P L newSize S" and pre: "okPrefixes S" and n: "0 < numberOfThreads S" "numberOfThreads S \<le> length (tasks S)" and W: "okWorkers W (numberOfThreads S)"
    and fits: "2 * (int newSize div SegmentWidth P + 1) \<le> 2 ^ 52"
    and reads: "NDEBUG P \<or> bufferWrites S = bufferReads S + int (card {g\<in>{..<length (moving S)}. isBufferCell (moving S ! g)})"
  shows "\<exists>B. rebalancePhase P dm W nTasks (int (length (moving S))) (int newSize) S = Some B \<and>
     swappedOut P L (length (moving S) div numberOfThreads S + 1) newSize S B"
proof -
  let ?N = "length (moving S)" and ?n = "numberOfThreads S"
  define w where "w = ?N div ?n + 1"
  obtain c where c: "increaseSwapPmaSize P (int newSize) S = Some (S\<lparr>swapCapacity := c, swapPma := makeEntries P c\<rparr>)" "int newSize < c"
     "int newSize < swapCapacity S \<longrightarrow> c = swapCapacity S" "rebSetting P L (S\<lparr>swapCapacity := c, swapPma := makeEntries P c\<rparr>)"
    using increaseSwapPmaSize_ok [OF inp] by blast
  define S0 where "S0 = S\<lparr>swapCapacity := c, swapPma := makeEntries P c\<rparr>"
  have s0: "sameCells S S0" by (simp add: S0_def)
  have pre0: "okPrefixes S0" using sameCells_prefixes [OF s0] pre by (simp add: S0_def)
  have mov0: "moving S0 = moving S" using sameCells_tasks(5) [OF s0] by simp
  obtain xs T where xs: "foldM (assignRebalancing P dm (int w) (int ?N)) (W 2) S0 = Some (S0\<lparr>tasks := xs\<rparr>)" "length xs = length (tasks S)"
     "\<forall>t<?n. planned S0 w t (xs ! t)" "foldM (executeRebalancing P) (W 3) (S0\<lparr>tasks := xs\<rparr>) = Some T" "movedInv P L (S0\<lparr>tasks := xs\<rparr>) {..<?N} T"
    using move_phase [OF c(4) [folded S0_def] pre0, of ?n W w dm] n W unfolding mov0 by (auto simp: okWorkers_def w_def S0_def)
  define S1 where "S1 = S0\<lparr>tasks := xs\<rparr>"
  have s1: "sameCells S S1" and mov1: "moving S1 = moving S" using mov0 by (simp_all add: S1_def S0_def sameCells_def)
  have set1: "rebSetting P L S1" unfolding S1_def S0_def by (rule tasks_irrelevant_setting [OF c(4)])
  obtain m where m: "movedOut P S1 {..<length (moving S1)} m T" using xs(5) unfolding S1_def [symmetric] mov1 movedInv_def by blast
  note sel = movedOut_sel [OF m]
  have fl: "flagsCleared L (rebalancingManager S1) (rootNode ` set (rebalancingTasks S1)) m"
    using all_flags [OF set1, unfolded mov1, OF xs(5) [folded S1_def]] unfolding sel(1) .
  have "brmLayout L m" "0 < SegmentWidth P" using fl set1 by (simp_all add: flagsCleared_def rebSetting_def)
  from brmResize_ok [OF this of_nat_0_le_iff fits] obtain m' L' where m': "brmResize P m (int newSize) = Some m'" "brmLayout L' m'"
     "L' = L \<longrightarrow> (\<forall>l i. validNode L l i \<longrightarrow> agg L m' l i = agg L m l i)" "L' \<noteq> L \<longrightarrow> (\<forall>l i. validNode L' l i \<longrightarrow> agg L' m' l i = emptyManagerEntry)"
    by (elim exE conjE) (rule that)
  have Tt: "tasks T = tasks S1" "bufferReads T = bufferReads S + int (card {g\<in>{..<?N}. isBufferCell (moving S ! g)})" "bufferWrites T = bufferWrites S"
    using m unfolding movedOut_def mov1 cleared_def by (auto simp: S1_def S0_def)
  obtain ps where ps: "foldM (clearPointersOfThread P) (W 4) (T\<lparr>rebalancingManager := m'\<rparr>) = Some (T\<lparr>rebalancingManager := m'\<rparr>\<lparr>bufferPointers := ps\<rparr>)"
     "length ps = length (bufferPointers S1)" "\<forall>j<length ps. ileft (ps ! j) = iright (ps ! j)"
  proof (rule exE [OF clear_phase [OF set1, of "T\<lparr>rebalancingManager := m'\<rparr>" ?n w "W 4"]])
    show "\<forall>t<?n. planned S1 w t (tasks S1 ! t)" using xs(3) unfolding S1_def planned_def by (simp add: parted_def partOk_def spansTasks_def cong: if_cong)
    show "length (moving S1) < ?n * w" unfolding mov1 w_def by (rule enough_threads [OF n(1)])
    show "inTask S1 j" if "j < usedWidth S1" "\<not> unbuffered S1 j" for j
      using inp that unfolding rebalanceInput_def sameCells_inTask [OF s1] sameCells_cells [OF s1] by blast
  qed (use sel Tt(1) xs(2) n W that in \<open>auto simp: S1_def S0_def okWorkers_def\<close>)
  define B where "B = resizeMainPma P (int newSize) (T\<lparr>rebalancingManager := m', bufferPointers := ps\<rparr>)"
  have "swappedOut P L w newSize S1 B"
    unfolding B_def
  proof (rule resized [OF set1 m _ _ _ ps(2,3) m'(2,3,4) fl])
    show "swapPma S1 = makeEntries P (swapCapacity S1)" "int newSize < swapCapacity S1" using c(2) by (simp_all add: S1_def S0_def)
    show "swapCapacity S1 = sdsCapacity S1 \<or> (\<forall>j<usedWidth S1. pma S1 ! j \<noteq> emptyEntry P \<longrightarrow> inTask S1 j)"
      using inp c(3) unfolding sameCells_inTask [OF s1] sameCells_cells [OF s1] by (auto simp: rebalanceInput_def S1_def S0_def)
  qed
  then have sw: "swappedOut P L w newSize S B" using swappedOut_cong [OF s1] by (simp add: S1_def S0_def)
  then have "sdsSize B = int newSize" by (simp add: swappedOut_def)
  moreover have "assertMsg (NDEBUG P) (bufferReads T = bufferWrites T) = Some ()" using reads Tt(2,3) by (auto simp: assertMsg_def)
  ultimately have "rebalancePhase P dm W nTasks (int ?N) (int newSize) S = Some B"
    using c(1) xs(1,4) ps(1) m'(1) sel(1)
    unfolding rebalancePhase_def S0_def [symmetric] B_def w_def by (simp add: S0_def thread_width SplitRebalancingTasks_def)
  then show ?thesis using sw unfolding w_def by blast
qed

lemma inclusiveScan_sums: "inclusiveScan acc xs = map (\<lambda>i. acc + sum_list (take (Suc i) xs)) [0..<length xs]"
proof (induction xs arbitrary: acc)
  case (Cons x xs)
  have "map f [0..<length (x # xs)] = f 0 # map (\<lambda>i. f (Suc i)) [0..<length xs]" for f :: "nat \<Rightarrow> int"
    by (rule nth_equalityI) (auto simp: nth_Cons' simp del: upt_Suc)
  then show ?case by (simp add: Cons add.assoc del: upt_Suc)
qed simp

lemma computePrefixSums_ok:
  fixes S :: "('k::linorder, 'v) sds"
  assumes ne: "rebalancingTasks S \<noteq> []" and num: "\<And>t. t \<in> set (rebalancingTasks S) \<Longrightarrow> taskNumberOfBlocks t = int (length (taskCells S t))"
  shows "okPrefixes (computePrefixSums S)" "last (prefixNumberOfRebalancingBlocks (computePrefixSums S)) = int (length (moving S))"
proof -
  let ?ts = "rebalancingTasks S"
  define S' where "S' = computePrefixSums S"
  have s': "sameCells S S'" by (simp add: S'_def computePrefixSums_def Let_def sameCells_def)
  have first: "int (firstNumber S i) = sum_list (take i (map taskNumberOfBlocks ?ts))" for i
  proof -
    have "int (firstNumber S i) = sum_list (map (\<lambda>t. int (length (taskCells S t))) (take i ?ts))"
      by (simp add: firstNumber_def startIn_def cellLists_def length_concat take_map o_def flip: sum_list_of_nat)
    also have "map (\<lambda>t. int (length (taskCells S t))) (take i ?ts) = map taskNumberOfBlocks (take i ?ts)" using num by (auto dest: in_set_takeD)
    finally show ?thesis by (simp add: take_map)
  qed
  have "prefixNumberOfRebalancingBlocks S' = map (\<lambda>i. int (firstNumber S (Suc i))) [0..<length ?ts] @ [int (firstNumber S (Suc (length ?ts - 1)))]"
    using ne unfolding first by (simp add: S'_def computePrefixSums_def Let_def inclusiveScan_sums last_map)
  moreover have "Suc (length ?ts - 1) = length ?ts" using ne by (cases ?ts) auto
  ultimately have p: "prefixNumberOfRebalancingBlocks S' = map (\<lambda>i. int (firstNumber S (Suc i))) [0..<length ?ts] @ [int (length (moving S))]" by simp
  then show "last (prefixNumberOfRebalancingBlocks (computePrefixSums S)) = int (length (moving S))" by (simp add: S'_def)
  show "okPrefixes (computePrefixSums S)"
    using p ne s' unfolding S'_def [symmetric] okPrefixes_def sameCells_tasks [OF s'] by (simp add: sameCells_def)
qed

lemma rewritePhase_ok:
  assumes inp: "rebalanceInput P L newSize S" and pre: "okPrefixes S" and out: "swappedOut P L w newSize S B" and w: "w = length (moving S) div numberOfThreads S + 1"
    and n: "0 < numberOfThreads S" and W: "okWorkers W (numberOfThreads S)" and bm: "bmInv R (recountingNodesMap S)"
  shows "\<exists>S'. rewritePhase P R W nTasks (int (length (moving S))) (int newSize) B = Some S' \<and> rebalancedArray P R L newSize S S'"
proof -
  let ?N = "length (moving S)"
  define Z where "Z = S\<lparr>swapPma := swapPma B\<rparr>"
  have z: "sameCells S Z" by (simp add: Z_def)
  note zz = sameCells_inTask [OF z] sameCells_tasks [OF z] sameCells_cells [OF z] sameCells_cell [OF z]
  have pz: "pma Z = pma S" "rebalancingTasks Z = rebalancingTasks S" by (simp_all add: Z_def)
  have set: "rebSetting P L (S\<lparr>swapPma := makeEntries P (int newSize)\<rparr>)" and sz: "sdsSize S \<le> int newSize" using inp by (simp_all add: rebalanceInput_def)
  have right: "iright (pmaRange t) \<le> int newSize" if "t \<in> set (rebalancingTasks S)" for t
    using set that by (auto simp: rebSetting_def makeEntries_def)
  have B: "newSize < length (pma B)" "length (swapPma B) = length (pma B)" "sdsSize B = int newSize" "sdsCapacity B = int (length (pma B))" "swapCapacity B = sdsCapacity B"
     "length (bufferPointers B) = length (pma B)" "numberOfThreads B = numberOfThreads S" "recountingNodesMap B = recountingNodesMap S"
     "rebalancingTasks B = rebalancingTasks S" "prefixNumberOfRebalancingBlocks B = prefixNumberOfRebalancingBlocks S"
     "\<forall>p<length (pma B). pma B ! p = (if inTask S p then emptyEntry P else if p < usedWidth S then pma S ! p else emptyEntry P)"
     "\<forall>p<length (swapPma B). p \<notin> set (places S) \<longrightarrow> swapPma B ! p = emptyEntry P"
     "\<forall>g<?N. swapPma B ! (places S ! g) = cellAt S (moving S ! g)" "\<forall>j<length (bufferPointers B). unbuffered B j"
     "bufferArray B = map (\<lambda>i. if BufferCell i \<in> set (moving S) then emptyEntry P else bufferArray S ! i) [0..<length (bufferArray S)]"
     "managerAfter L (rebalancingTasks S) (rebalancingManager S) (rebalancingManager B)"
    using out unfolding swappedOut_def by - (elim conjE, assumption)+
  have "sameCells (S\<lparr>swapPma := makeEntries P (int newSize)\<rparr>) Z" by (simp add: sameCells_def Z_def)
  then have setZ: "rebSetting P L Z" by (rule sameCells_setting [OF _ _ set]) (use right B(1,2) in \<open>force simp: Z_def\<close>)+
  have preZ: "okPrefixes Z" using sameCells_prefixes [OF z] pre by (simp add: Z_def)
  have base: "rewriteBase P L w Z B"
    unfolding rewriteBase_def zz pz using setZ preZ w B(1,9,10,13) right by (force simp: Z_def)
  have N: "length (moving Z) < numberOfThreads S * w" unfolding zz w by (rule enough_threads [OF n])
  obtain pm m where pm: "foldM (executeRewriting P R (int w) (int ?N)) (W 5) B = Some (B\<lparr>pma := pm, swapPma := replicate (length (swapPma B)) (emptyEntry P), recountingNodesMap := m\<rparr>)"
     "length pm = length (pma B)" "rewritten P w Z pm" "bmInv R m"
    using rewrite_phase [OF base _ N, of R "W 5", unfolded zz pz, OF _ _ _ B(11) [rule_format] B(12) [rule_format]] bm W B(8) by (auto simp: okWorkers_def)
  define S' where "S' = B\<lparr>pma := pm, swapPma := replicate (length (swapPma B)) (emptyEntry P), recountingNodesMap := m\<rparr>"
  have "rewritePhase P R W nTasks (int ?N) (int newSize) B = Some S'"
    using pm(1) by (simp add: rewritePhase_def SplitRebalancingTasks_def thread_width B(7) w S'_def)
  moreover have "rebalancedArray P R L newSize S S'"
    unfolding rebalancedArray_def
  proof (intro conjI ballI)
    have lo: "1 \<le> newSize"
    proof -
      have "0 < length (rebalancingTasks Z)" using inp by (simp add: rebalanceInput_def pz)
      then show ?thesis using rebSetting_facts(1,7) [OF setZ, of 0] right [of "rebalancingTasks S ! 0"] unfolding pz by force
    qed
    then have used: "min newSize (usedWidth S) = usedWidth S" using sz by (simp add: usedWidth_def)
    have len: "iright (pmaRange t) \<le> int (length pm)" if "t \<in> set (rebalancingTasks Z)" for t using right [of t] that B(1) pm(2) by (simp add: pz)
    have buf: "inTask Z j" if "j < usedWidth Z" "\<not> unbuffered Z j" for j using inp that unfolding rebalanceInput_def zz by blast
    have "arrayBlocks pm 0 newSize = blocksAt Z (cellsUpTo Z 0 (min newSize (usedWidth Z)))"
      using w B(1) pm(2) right by (intro blocks_kept [OF setZ _ pm(3) len buf]) (auto simp: pz dest: right)
    then show "arrayBlocks (pma S') 0 newSize = blocksAt S (cellsUpTo S 0 (usedWidth S))" by (simp add: S'_def blocksAt_def zz used)
    show "arrayBlocks (pma S') (taskLo t) (nat (iright (pmaRange t))) = blocksAt S (cellsUpTo S (taskLo t) (taskHi S t))" if t: "t \<in> set (rebalancingTasks S)" for t
    proof -
      obtain i where i: "i < length (rebalancingTasks Z)" "t = rebalancingTasks Z ! i" using t by (auto simp: pz in_set_conv_nth)
      show ?thesis using task_blocks [OF setZ _ pm(3) i(1)] len [of t] w i by (simp add: S'_def blocksAt_def zz)
    qed
    show "\<forall>p. newSize \<le> p \<and> p < length (pma S') \<longrightarrow> pma S' ! p = emptyEntry P"
    proof (intro allI impI)
      fix p assume p: "newSize \<le> p \<and> p < length (pma S')"
      have "\<not> inTask Z p" using right p by (force simp: inTask_def pz)
      moreover have "\<not> p < usedWidth Z" using p used unfolding zz by linarith
      ultimately show "pma S' ! p = emptyEntry P" using pm(3) p by (simp add: rewritten_def S'_def)
    qed
  qed (use B pm in \<open>simp_all add: S'_def makeEntries_def unbuffered_def\<close>)
  ultimately show ?thesis by blast
qed


lemma rebalancedArray_cong:
  fixes S T :: "('k::linorder, 'v) sds"
  assumes "sameCells S T" "rebalancingManager T = rebalancingManager S"
  shows "rebalancedArray P R L newSize T S' = rebalancedArray P R L newSize S S'"
proof -
  have e: "bufferArray T = bufferArray S" "rebalancingTasks T = rebalancingTasks S" using assms(1) by (simp_all add: sameCells_def)
  have "blocksAt T = blocksAt S" unfolding blocksAt_def fun_eq_iff sameCells_cell [OF assms(1)] sameCells_cells [OF assms(1)] by simp
  then show ?thesis
    unfolding rebalancedArray_def sameCells_tasks [OF assms(1)] sameCells_cells(3,4) [OF assms(1)] sameCells_cell [OF assms(1)] e assms(2) by simp
qed

lemma phases_ok:
  assumes inp: "rebalanceInput P L newSize S" and n: "0 < numberOfThreads S" "numberOfThreads S \<le> length (tasks S)" and W: "okWorkers W (numberOfThreads S)"
    and fits: "2 * (int newSize div SegmentWidth P + 1) \<le> 2 ^ 52" and bm: "bmInv R (recountingNodesMap S)"
    and reads: "NDEBUG P \<or> bufferWrites S = bufferReads S + int (card {g\<in>{..<length (moving S)}. isBufferCell (moving S ! g)})"
  shows "\<exists>B S'. rebalancePhase P dm W (int (length (rebalancingTasks S))) (last (prefixNumberOfRebalancingBlocks (computePrefixSums S))) (int newSize) (computePrefixSums S) = Some B \<and>
     rewritePhase P R W (int (length (rebalancingTasks S))) (last (prefixNumberOfRebalancingBlocks (computePrefixSums S))) (int newSize) B = Some S' \<and>
     rebalancedArray P R L newSize S S'"
proof -
  define C where "C = computePrefixSums S"
  have sc: "sameCells S C" "rebalancingManager C = rebalancingManager S" "numberOfThreads C = numberOfThreads S" "tasks C = tasks S"
     "recountingNodesMap C = recountingNodesMap S" "bufferWrites C = bufferWrites S" "bufferReads C = bufferReads S" "swapPma C = swapPma S" "swapCapacity C = swapCapacity S"
    by (simp_all add: C_def computePrefixSums_def Let_def sameCells_def)
  have mov: "moving C = moving S" unfolding sameCells_tasks(5) [OF sc(1)] ..
  have set: "rebSetting P L (S\<lparr>swapPma := makeEntries P (int newSize)\<rparr>)" using inp by (simp add: rebalanceInput_def)
  have "taskNumberOfBlocks t = int (length (taskCells S t))" if t: "t \<in> set (rebalancingTasks S)" for t
  proof -
    obtain i where "i < length (rebalancingTasks S)" "t = rebalancingTasks S ! i" using t by (auto simp: in_set_conv_nth)
    then show ?thesis using rebSetting_facts(3) [OF set, of i] sameCells_tasks(4) [OF sameCells_swap(1) [where S = S]] by simp
  qed
  then have pre: "okPrefixes C" and tot: "last (prefixNumberOfRebalancingBlocks C) = int (length (moving S))"
    using computePrefixSums_ok [of S] inp by (auto simp: rebalanceInput_def C_def)
  have "sameCells (S\<lparr>swapPma := makeEntries P (int newSize)\<rparr>) (C\<lparr>swapPma := makeEntries P (int newSize)\<rparr>)" using sc(1) by (simp add: sameCells_def)
  then have "rebSetting P L (C\<lparr>swapPma := makeEntries P (int newSize)\<rparr>)"
    by (rule sameCells_setting [OF _ _ set]) (use set sc(2) in \<open>auto simp: rebSetting_def\<close>)
  moreover have e: "pma C = pma S" "sdsSize C = sdsSize S" "sdsCapacity C = sdsCapacity S" "rebalancingTasks C = rebalancingTasks S"
    using sc(1) by (simp_all add: sameCells_def)
  ultimately have inpC: "rebalanceInput P L newSize C"
    using inp unfolding rebalanceInput_def sameCells_inTask [OF sc(1)] sameCells_cells(3,6) [OF sc(1)] e sc(8,9) by blast
  obtain B where B: "rebalancePhase P dm W (int (length (rebalancingTasks S))) (int (length (moving S))) (int newSize) C = Some B"
     "swappedOut P L (length (moving S) div numberOfThreads S + 1) newSize C B"
    using rebalancePhase_ok [OF inpC pre _ _ _ fits, of W dm] n W reads unfolding mov sc(3,4,6,7) by blast
  obtain S' where "rewritePhase P R W (int (length (rebalancingTasks S))) (int (length (moving S))) (int newSize) B = Some S'" "rebalancedArray P R L newSize C S'"
    using rewritePhase_ok [OF inpC pre B(2), of W R] n W bm unfolding mov sc(3,5) by blast
  then show ?thesis using B(1) tot rebalancedArray_cong [OF sc(1,2), of P R L newSize S'] unfolding C_def [symmetric] by auto
qed

section \<open>Properties\<close>

text \<open>
  An array with three blocks, one of them in the buffer behind the first entry, that the node over its first four entries has to rebalance.
  \<open>t\<close> is the content of the uninitialised task descriptions.
\<close>

definition demoMoving :: "TaskInfo \<Rightarrow> brm \<Rightarrow> (nat, nat) sds" where
  "demoMoving t m = (demoSds ([demoBlock [1, 2], emptyEntry (demoParams False), demoBlock [5, 7, 8]] @ replicate 5 (emptyEntry (demoParams False))))
     \<lparr>sdsSize := 4, swapPma := makeEntries (demoParams False) 8, bufferCapacity := 1, bufferArray := [demoBlock [3, 4]],
      bufferPointers := mkInterval 0 1 # replicate 7 emptyInterval, rebalancingManager := m,
      rebalancingTasks := [\<lparr>pmaRange = mkInterval 0 4, taskNumberOfBlocks = 3, rootNode = mkNode 1 0\<rparr>],
      tasks := [t, t, t], numberOfThreads := 2, bufferWrites := 1\<rparr>"

lemma demoMoving_sel [simp]:
  "sdsSize (demoMoving t m) = 4" "sdsCapacity (demoMoving t m) = 8" "swapCapacity (demoMoving t m) = 8" "length (pma (demoMoving t m)) = 8"
  "swapPma (demoMoving t m) = makeEntries (demoParams False) 8" "bufferArray (demoMoving t m) = [demoBlock [3, 4]]" "length (bufferPointers (demoMoving t m)) = 8"
  "rebalancingManager (demoMoving t m) = m" "recountingNodesMap (demoMoving t m) = newBucketMap 1" "bufferReads (demoMoving t m) = 0"
  "rebalancingTasks (demoMoving t m) = [\<lparr>pmaRange = mkInterval 0 4, taskNumberOfBlocks = 3, rootNode = mkNode 1 0\<rparr>]"
  "length (tasks (demoMoving t m)) = 3" "numberOfThreads (demoMoving t m) = 2" "bufferWrites (demoMoving t m) = 1" "usedWidth (demoMoving t m) = 4"
  by (simp_all add: demoMoving_def demoSds_def usedWidth_def)

lemma demoMoving_at:
  "pma (demoMoving t m) ! 0 = demoBlock [1, 2]" "pma (demoMoving t m) ! Suc 0 = emptyEntry (demoParams False)" "pma (demoMoving t m) ! 2 = demoBlock [5, 7, 8]"
  "3 \<le> j \<Longrightarrow> j < 8 \<Longrightarrow> pma (demoMoving t m) ! j = emptyEntry (demoParams False)"
  "bufferPointers (demoMoving t m) ! 0 = mkInterval 0 1" "0 < j \<Longrightarrow> j < 8 \<Longrightarrow> bufferPointers (demoMoving t m) ! j = emptyInterval"
  by (auto simp: demoMoving_def demoSds_def nth_append nth_Cons')

lemma demoMoving_cells: "cellsUpTo (demoMoving t m) 0 4 = [ArrayCell 0, BufferCell 0, ArrayCell 1, ArrayCell 2, ArrayCell 3]"
  by (simp add: cellsUpTo_def entryCells_def upt_rec demoMoving_at)

lemma demoBlock_isEmpty: "\<not> isEmpty (demoBlock xs)" "isEmpty (emptyEntry P)"
  by (simp_all add: demoBlock_def isEmpty_def emptyEntry_def)

lemma demoMoving_filled:
  "filled (demoMoving t m) (ArrayCell 0)" "filled (demoMoving t m) (BufferCell 0)" "\<not> filled (demoMoving t m) (ArrayCell (Suc 0))"
  "filled (demoMoving t m) (ArrayCell 2)" "\<not> filled (demoMoving t m) (ArrayCell 3)"
  by (simp_all add: filled_def demoMoving_at demoBlock_isEmpty)

lemma demoMoving_wf: "wfCells (demoParams False) (demoMoving t m)"
proof -
  have ok: "okEntry (demoParams False) (demoBlock [1, 2])" "okEntry (demoParams False) (demoBlock [5, 7, 8])" "okEntry (demoParams False) (demoBlock [3, 4])"
    "okEntry (demoParams False) (emptyEntry (demoParams False))"
    by (auto simp: okEntry_def)
  have "okPointers (demoMoving t m)"
    unfolding okPointers_def
  proof (intro allI impI)
    fix j assume "j < length (bufferPointers (demoMoving t m))"
    then show "0 \<le> ileft (bufferPointers (demoMoving t m) ! j) \<and> ileft (bufferPointers (demoMoving t m) ! j) \<le> iright (bufferPointers (demoMoving t m) ! j)"
      using demoMoving_at(5) [of t m] demoMoving_at(6) [of j t m] by (cases "j = 0") auto
  qed
  then show ?thesis
    using ok by (auto simp: wfCells_def demoMoving_cells okCell_def unbuffered_def demoMoving_at filled_def demoBlock_isEmpty numeral_3_eq_3)
qed


text \<open>C3. Moving the blocks of all rebalancing tasks to the swap array and back (phases B-4 to B-8 of \<open>insertBatch\<close>), divided over any number of threads
  that take effect in any order within each parallel region, returns without a failed assertion. Afterwards the array has the new size and the same blocks in the same order,
  those of the buffer included; the blocks of each task are in its range; no entry points into the buffer, the moved buffer cells and the swap array are empty. The tasks
  have to be disjoint and large enough for their blocks and to contain every entry with blocks in the buffer; the new size, below \<open>2\<^sup>5\<^sup>1\<close> segments, has to cover the
  array and all tasks; and if it reaches the capacity, so that the array is reallocated, every block has to belong to a task.\<close>

theorem rebalancing_keeps_blocks:
  assumes "rebalanceInput P L newSize S" and "0 < numberOfThreads S" "numberOfThreads S \<le> length (tasks S)" and "okWorkers W (numberOfThreads S)"
    and "2 * (int newSize div SegmentWidth P + 1) \<le> 2 ^ 52" and "bmInv R (recountingNodesMap S)"
    and "NDEBUG P \<or> bufferWrites S = bufferReads S + int (card {g\<in>{..<length (moving S)}. isBufferCell (moving S ! g)})"
  defines "C \<equiv> computePrefixSums S"
  shows "\<exists>B S'. rebalancePhase P dm W (int (length (rebalancingTasks S))) (last (prefixNumberOfRebalancingBlocks C)) (int newSize) C = Some B \<and>
     rewritePhase P R W (int (length (rebalancingTasks S))) (last (prefixNumberOfRebalancingBlocks C)) (int newSize) B = Some S' \<and>
     rebalancedArray P R L newSize S S'"
  using phases_ok [OF assms(1-7)] unfolding C_def .

theorem rebalancing_keeps_blocks_witness:
  "\<forall>t. \<exists>m m0 B S'. newBrm (demoParams False) 0 1 = Some m0 \<and> recompute (demoParams False) (viewOf (demoParams False) (demoMoving t m0)) m0 4 = Some m \<and>
     rebalancePhase (demoParams False) DensityThree (\<lambda>r. [1, 0]) 1 3 4 (computePrefixSums (demoMoving t m)) = Some B \<and>
     rewritePhase (demoParams False) demoRuntime (\<lambda>r. [1, 0]) 1 3 4 B = Some S' \<and>
     arrayBlocks (pma S') 0 4 = [demoBlock [1, 2], demoBlock [3, 4], demoBlock [5, 7, 8]]"
proof
  fix t
  let ?P = "demoParams False"
  obtain m0 where m0: "newBrm ?P 0 1 = Some m0" "brmLayout 14 m0" using newBrm_ok [of ?P 0 1] by auto
  have view: "viewOf ?P (demoMoving t m) = viewOf ?P (demoMoving t m0)" for m by (simp add: viewOf_def demoMoving_def emptyAt_def numberOfBufferBlocks_def fun_eq_iff)
  have V: "okView (viewOf ?P (demoMoving t m0)) 4" using wfCells_okView [OF demoMoving_wf [of t m0]] by simp
  obtain m where m: "recompute ?P (viewOf ?P (demoMoving t m0)) m0 4 = Some m" "brmLayout 14 m" "consistent ?P (viewOf ?P (demoMoving t m0)) 14 m"
    using recompute_ok [OF m0(2) V, of ?P] by auto
  let ?S = "demoMoving t m"
  have mov: "moving ?S = [ArrayCell 0, BufferCell 0, ArrayCell 2]"
    by (simp add: cellLists_def taskCells_def taskLo_def taskHi_def demoMoving_cells demoMoving_filled)
  have "blocksIn (viewOf ?P ?S) 0 4 = 3" using count_cells [OF demoMoving_wf [of t m], of 4 0] by (simp add: demoMoving_cells demoMoving_filled)
  moreover have "okNode 14 (mkNode 1 0)" by (simp add: okNode_def validNode_def)
  ultimately have task: "okTask ?P 14 ?S \<lparr>pmaRange = mkInterval 0 4, taskNumberOfBlocks = 3, rootNode = mkNode 1 0\<rparr>"
    by (simp add: okTask_def taskStart_def taskEnd_def nodeStart_def)
  have "rebSetting ?P 14 ?S" unfolding rebSetting_def using demoMoving_wf m(2,3) task by (simp add: makeEntries_def view [of m])
  then have set: "rebSetting ?P 14 (?S\<lparr>swapPma := makeEntries ?P (int 4)\<rparr>)"
    by (rule sameCells_setting [OF sameCells_swap(1), rotated 1]) (auto simp: makeEntries_def)
  have "rebalanceInput ?P 14 4 ?S" unfolding rebalanceInput_def using set by (simp add: inTask_def taskLo_def)
  moreover have "{g\<in>{..<length (moving ?S)}. isBufferCell (moving ?S ! g)} = {1}" unfolding mov by (auto simp: less_Suc_eq)
  moreover have "last (prefixNumberOfRebalancingBlocks (computePrefixSums ?S)) = 3" by (simp add: computePrefixSums_def)
  moreover have "okWorkers (\<lambda>r. [1, 0]) 2" by (auto simp: okWorkers_def)
  ultimately obtain B S' where S': "rebalancePhase ?P DensityThree (\<lambda>r. [1, 0]) 1 3 4 (computePrefixSums ?S) = Some B"
     "rewritePhase ?P demoRuntime (\<lambda>r. [1, 0]) 1 3 4 B = Some S'" "rebalancedArray ?P demoRuntime 14 4 ?S S'"
    using rebalancing_keeps_blocks [of ?P 14 4 ?S "\<lambda>r. [1, 0]" demoRuntime DensityThree] bmInv_new [of 1 demoRuntime] by auto
  have "arrayBlocks (pma S') 0 4 = [demoBlock [1, 2], demoBlock [3, 4], demoBlock [5, 7, 8]]"
    using S'(3) by (simp add: rebalancedArray_def blocksAt_def demoMoving_cells demoMoving_filled demoMoving_at)
  then show "\<exists>m m0 B S'. newBrm ?P 0 1 = Some m0 \<and> recompute ?P (viewOf ?P (demoMoving t m0)) m0 4 = Some m \<and>
     rebalancePhase ?P DensityThree (\<lambda>r. [1, 0]) 1 3 4 (computePrefixSums (demoMoving t m)) = Some B \<and>
     rewritePhase ?P demoRuntime (\<lambda>r. [1, 0]) 1 3 4 B = Some S' \<and> arrayBlocks (pma S') 0 4 = [demoBlock [1, 2], demoBlock [3, 4], demoBlock [5, 7, 8]]"
    using m0(1) m(1) S'(1,2) by blast
qed

end
