(* ===== verification/Rebalance_Select.thy ===== *)
theory Rebalance_Select
  imports Rebalance_Phases
begin

text \<open>
  Phases B-2 and B-3 of \<open>insertBatch\<close>: the nodes that \<open>update\<close> selects and that no other selected node contains become the
  rebalancing tasks. These satisfy what the phases of theory \<open>Rebalance_Phases\<close> rely on.
\<close>

section \<open>Collecting the tasks\<close>

text \<open>The nodes above a node are those whose subtree contains it.\<close>

definition above :: "RebalancingNode \<Rightarrow> RebalancingNode \<Rightarrow> bool" where
  "above x y \<longleftrightarrow> nodeLevel x < nodeLevel y \<and> nodeIndex y = nodeIndex x div 2 ^ nat (nodeLevel y - nodeLevel x)"

definition dominated :: "RebalancingNode set \<Rightarrow> RebalancingNode \<Rightarrow> bool" where
  "dominated F x \<longleftrightarrow> (\<exists>y\<in>F. above x y)"

lemma above_trans:
  assumes "above x y" "above y z"
  shows "above x z"
proof -
  have "nat (nodeLevel z - nodeLevel x) = nat (nodeLevel y - nodeLevel x) + nat (nodeLevel z - nodeLevel y)" using assms unfolding above_def by linarith
  then have "nodeIndex x div 2 ^ nat (nodeLevel z - nodeLevel x) = nodeIndex x div 2 ^ nat (nodeLevel y - nodeLevel x) div 2 ^ nat (nodeLevel z - nodeLevel y)"
    by (simp add: power_add zdiv_zmult2_eq)
  then show ?thesis using assms by (simp add: above_def)
qed

text \<open>A dominated node is dominated by a node that is not.\<close>

lemma dominated_by_top:
  assumes "finite F" "dominated F x"
  shows "\<exists>y\<in>F. above x y \<and> \<not> dominated F y"
proof -
  let ?A = "{y\<in>F. above x y}"
  have "finite ?A" "?A \<noteq> {}" using assms by (auto simp: dominated_def)
  then have fin: "finite (nodeLevel ` ?A)" and "nodeLevel ` ?A \<noteq> {}" by blast+
  then have "Max (nodeLevel ` ?A) \<in> nodeLevel ` ?A" by (rule Max_in)
  then obtain y where y: "Max (nodeLevel ` ?A) = nodeLevel y" "y \<in> ?A" by (rule imageE)
  have le: "nodeLevel z \<le> nodeLevel y" if "z \<in> ?A" for z unfolding y(1) [symmetric] by (rule Max_ge [OF fin imageI [OF that]])
  have "\<not> dominated F y"
  proof
    assume "dominated F y"
    then obtain z where z: "z \<in> F" "above y z" by (auto simp: dominated_def)
    then have "z \<in> ?A" using y(2) above_trans by blast
    then show False using le [of z] z(2) by (simp add: above_def)
  qed
  then show ?thesis using y(2) by blast
qed

lemma dominatedLoop_ok:
  assumes lay: "brmLayout L m" and set: "setAggregate P m (nodeIndex node) (nodeLevel node) (\<lambda>e. e\<lparr>rebalanced := False\<rparr>) = Some m'"
    and v: "validNode L l i" "l \<le> Suc L"
  shows "dominatedLoop P node (int l) i m =
     Some (if \<exists>k. l \<le> k \<and> k \<le> Suc L \<and> rebalanced (agg L m k (i div 2 ^ (k - l))) then (True, m') else (False, m))"
  using v
proof (induction "Suc L - l" arbitrary: l i)
  case 0
  then have l: "l = Suc L" by simp
  have at: "aggregateAt P m i (int l) = Some (agg L m l i)" by (rule aggregateAt_ok [OF lay 0(2)])
  have ex: "(\<exists>k. l \<le> k \<and> k \<le> Suc L \<and> rebalanced (agg L m k (i div 2 ^ (k - l)))) \<longleftrightarrow> rebalanced (agg L m l i)" using l by (auto simp: le_antisym)
  have stop: "dominatedLoop P node (int l + 1) (parent i) m = Some (False, m)" using l by (subst dominatedLoop.simps) (simp add: brmLayoutD(2) [OF lay])
  show ?case unfolding ex by (subst dominatedLoop.simps) (use l at set stop in \<open>simp add: brmLayoutD(2) [OF lay]\<close>)
next
  case (Suc x)
  then have l: "l \<le> L" by simp
  have at: "aggregateAt P m i (int l) = Some (agg L m l i)" by (rule aggregateAt_ok [OF lay Suc(3)])
  have i: "0 \<le> i" using Suc(3) by (simp add: validNode_def)
  have par: "parent i = i div 2" using i by (simp add: parent_def)
  have shift: "i div 2 ^ (k - l) = parent i div 2 ^ (k - Suc l)" if "Suc l \<le> k" for k
  proof -
    have "k - l = Suc (k - Suc l)" using that by simp
    then show ?thesis by (simp add: par zdiv_zmult2_eq [symmetric] mult.commute)
  qed
  have ex: "(\<exists>k. l \<le> k \<and> k \<le> Suc L \<and> rebalanced (agg L m k (i div 2 ^ (k - l)))) \<longleftrightarrow>
     rebalanced (agg L m l i) \<or> (\<exists>k. Suc l \<le> k \<and> k \<le> Suc L \<and> rebalanced (agg L m k (parent i div 2 ^ (k - Suc l))))" (is "?A \<longleftrightarrow> ?B \<or> ?C")
  proof
    assume ?A
    then obtain k where k: "l \<le> k" "k \<le> Suc L" "rebalanced (agg L m k (i div 2 ^ (k - l)))" by blast
    show "?B \<or> ?C" using k shift [of k] by (cases "k = l") auto
  next
    assume "?B \<or> ?C"
    then show ?A
    proof
      assume ?B
      then show ?A using l by (intro exI [of _ l]) simp
    next
      assume ?C
      then obtain k where k: "Suc l \<le> k" "k \<le> Suc L" "rebalanced (agg L m k (parent i div 2 ^ (k - Suc l)))" by blast
      then show ?A using shift [of k] by (intro exI [of _ k]) auto
    qed
  qed
  have rest: "dominatedLoop P node (int l + 1) (parent i) m =
     Some (if ?C then (True, m') else (False, m))"
    using Suc(1) [of "Suc l" "parent i"] Suc(2) validNode_parent [OF Suc(3) l] l by (simp add: add.commute)
  show ?case unfolding ex by (subst dominatedLoop.simps) (use l at set rest in \<open>simp add: brmLayoutD(2) [OF lay]\<close>)
qed


lemma node_level:
  assumes "okNode L node"
  obtains l where "nodeLevel node = int l" "validNode L l (nodeIndex node)" "l \<le> Suc L" "node = mkNode (int l) (nodeIndex node)"
proof -
  have "nodeLevel node = int (nat (nodeLevel node))" "validNode L (nat (nodeLevel node)) (nodeIndex node)" using assms by (auto simp: okNode_def)
  moreover from this(1) have "node = mkNode (int (nat (nodeLevel node))) (nodeIndex node)" by (cases node) (simp add: mkNode_def)
  moreover have "nat (nodeLevel node) \<le> Suc L" using assms by (simp add: okNode_def validNode_def)
  ultimately show ?thesis by (intro that)
qed

lemma validNode_above:
  assumes "validNode L l i" "l \<le> k" "k \<le> Suc L"
  shows "validNode L k (i div 2 ^ (k - l))"
  using assms(2,3)
proof (induction k rule: dec_induct)
  case base
  then show ?case using assms(1) by simp
next
  case (step k)
  then have v: "validNode L k (i div 2 ^ (k - l))" "k \<le> L" by auto
  have "0 \<le> i div 2 ^ (k - l)" using v(1) by (simp add: validNode_def)
  then have "parent (i div 2 ^ (k - l)) = i div 2 ^ (Suc k - l)"
    using step(1) by (simp add: parent_def Suc_diff_le zdiv_zmult2_eq [symmetric] mult.commute)
  then show ?case using validNode_parent [OF v] by simp
qed

text \<open>\<open>F\<close> are the nodes whose flag is set.\<close>

lemma rebalancingNodeDominated_ok:
  assumes lay: "brmLayout L m" and F: "\<And>l i. validNode L l i \<Longrightarrow> rebalanced (agg L m l i) \<longleftrightarrow> mkNode (int l) i \<in> F"
    and sub: "\<And>y. y \<in> F \<Longrightarrow> okNode L y" and ok: "node \<in> F"
    and clr: "clearRebalancedFlag P m node = Some m'"
  shows "rebalancingNodeDominated P m node = Some (if dominated F node then (True, m') else (False, m))"
proof -
  obtain l where l: "nodeLevel node = int l" "validNode L l (nodeIndex node)" "l \<le> Suc L" "node = mkNode (int l) (nodeIndex node)"
    using node_level [OF sub [OF ok]] .
  have set: "setAggregate P m (nodeIndex node) (nodeLevel node) (\<lambda>e. e\<lparr>rebalanced := False\<rparr>) = Some m'"
    using clr by (auto simp: clearRebalancedFlag_def bind_eq_Some_conv)
  have at: "aggregateAt P m (nodeIndex node) (nodeLevel node) = Some (agg L m l (nodeIndex node))" unfolding l(1) by (rule aggregateAt_ok [OF lay l(2)])
  have fl: "rebalanced (agg L m l (nodeIndex node))" using F [OF l(2)] ok l(4) by simp
  have i: "0 \<le> nodeIndex node" using l(2) by (simp add: validNode_def)
  have iff: "dominated F node \<longleftrightarrow> (\<exists>k. Suc l \<le> k \<and> k \<le> Suc L \<and> rebalanced (agg L m k (nodeIndex node div 2 ^ (k - l))))"
  proof
    assume "dominated F node"
    then obtain y where y: "y \<in> F" "above node y" by (auto simp: dominated_def)
    obtain k where k: "nodeLevel y = int k" "validNode L k (nodeIndex y)" "k \<le> Suc L" "y = mkNode (int k) (nodeIndex y)" using node_level [OF sub [OF y(1)]] .
    have "nodeIndex y = nodeIndex node div 2 ^ (k - l)" "Suc l \<le> k" using y(2) k(1) l(1) by (auto simp: above_def nat_diff_distrib)
    then show "\<exists>k. Suc l \<le> k \<and> k \<le> Suc L \<and> rebalanced (agg L m k (nodeIndex node div 2 ^ (k - l)))" using F [OF k(2)] y(1) k(3,4) by (intro exI [of _ k]) auto
  next
    assume "\<exists>k. Suc l \<le> k \<and> k \<le> Suc L \<and> rebalanced (agg L m k (nodeIndex node div 2 ^ (k - l)))"
    then obtain k where k: "Suc l \<le> k" "k \<le> Suc L" "rebalanced (agg L m k (nodeIndex node div 2 ^ (k - l)))" by blast
    have "validNode L k (nodeIndex node div 2 ^ (k - l))" using validNode_above [OF l(2)] k(1,2) by simp
    then have "mkNode (int k) (nodeIndex node div 2 ^ (k - l)) \<in> F" using F k(3) by simp
    moreover have "above node (mkNode (int k) (nodeIndex node div 2 ^ (k - l)))" using k(1) l(1) by (simp add: above_def mkNode_def nat_diff_distrib)
    ultimately show "dominated F node" by (auto simp: dominated_def)
  qed
  have loop: "dominatedLoop P node (nodeLevel node + 1) (parent (nodeIndex node)) m = Some (if dominated F node then (True, m') else (False, m))"
  proof (cases "l \<le> L")
    case True
    have "nodeIndex node div 2 ^ (k - l) = parent (nodeIndex node) div 2 ^ (k - Suc l)" if "Suc l \<le> k" for k
    proof -
      have "k - l = Suc (k - Suc l)" using that by simp
      then show ?thesis using i by (simp add: parent_def zdiv_zmult2_eq [symmetric] mult.commute)
    qed
    then have "dominated F node \<longleftrightarrow> (\<exists>k. Suc l \<le> k \<and> k \<le> Suc L \<and> rebalanced (agg L m k (parent (nodeIndex node) div 2 ^ (k - Suc l))))" unfolding iff by metis
    then show ?thesis using dominatedLoop_ok [OF lay set validNode_parent [OF l(2) True]] True l(1) by (simp add: add.commute)
  next
    case False
    then have "\<not> dominated F node" unfolding iff using l(3) by auto
    moreover have "l = Suc L" using False l(3) by simp
    ultimately show ?thesis by (subst dominatedLoop.simps) (simp add: l(1) brmLayoutD(2) [OF lay])
  qed
  then show ?thesis using at fl by (simp add: rebalancingNodeDominated_def)
qed

text \<open>The task of a node.\<close>

definition taskOfNode :: "('k, 'v) tparams \<Rightarrow> density \<Rightarrow> sdsView \<Rightarrow> nat \<Rightarrow> RebalancingNode \<Rightarrow> RebalancingTask" where
  "taskOfNode P dm V L node =
     (let n = blocksIn V (taskStart P L node) (taskEnd P L node)
      in \<lparr>pmaRange = (if nodeLevel node \<le> int L then mkInterval (taskStart P L node) (taskEnd P L node) else mkInterval 0 (minRangeLength dm n)),
          taskNumberOfBlocks = n, rootNode = node\<rparr>)"

lemma getRebalancingTask_node:
  assumes "brmLayout L m" "consistent P V L m" "okNode L node"
  shows "getRebalancingTask P dm m node = Some (taskOfNode P dm V L node)"
proof -
  have "nodeLevel node \<le> int L \<or> nodeLevel node = int L + 1" using assms(3) by (cases rule: okNode_cases) auto
  then show ?thesis using getRebalancingTask_ok [OF assms, of dm] by (auto simp: taskOfNode_def Let_def)
qed

lemma flagsCleared_consistent: "flagsCleared L m0 N m \<Longrightarrow> consistent P V L m0 \<Longrightarrow> consistent P V L m"
  by (auto simp: flagsCleared_def consistent_def countsUpTo_def)

lemma collect_ok:
  assumes lay: "brmLayout L m0" and cons: "consistent P V L m0" and d: "distinct nodes"
    and F: "\<And>l i. validNode L l i \<Longrightarrow> rebalanced (agg L m0 l i) \<longleftrightarrow> mkNode (int l) i \<in> set nodes" and ok: "\<And>y. y \<in> set nodes \<Longrightarrow> okNode L y"
  shows "\<exists>m. foldM (collectTask P dm) nodes (m0, []) =
       Some (m, map (taskOfNode P dm V L) (filter (\<lambda>x. \<not> dominated (set nodes) x) nodes)) \<and>
     flagsCleared L m0 {x\<in>set nodes. dominated (set nodes) x} m"
proof -
  let ?dom = "dominated (set nodes)"
  let ?I = "\<lambda>k (m, ts). ts = map (taskOfNode P dm V L) (filter (\<lambda>x. \<not> ?dom x) (take k nodes)) \<and> flagsCleared L m0 {x\<in>set (take k nodes). ?dom x} m"
  have "\<exists>s. foldM (collectTask P dm) nodes (m0, []) = Some s \<and> ?I (length nodes) s"
  proof (rule foldM_inv)
    show "?I 0 (m0, [])" using lay by (simp add: flagsCleared_def)
    fix k s assume k: "k < length nodes" and inv: "?I k s"
    obtain m ts where s: "s = (m, ts)" by (cases s)
    define x where "x = nodes ! k"
    have x: "x \<in> set nodes" "okNode L x" "x \<notin> set (take k nodes)"
      using k ok d by (auto simp: x_def nth_eq_iff_index_eq in_set_conv_nth)
    let ?D = "{y\<in>set (take k nodes). ?dom y}"
    have fl: "flagsCleared L m0 ?D m" and ts: "ts = map (taskOfNode P dm V L) (filter (\<lambda>x. \<not> ?dom x) (take k nodes))" using inv by (simp_all add: s)
    have flags: "rebalanced (agg L m l i) \<longleftrightarrow> mkNode (int l) i \<in> set nodes - ?D" if "validNode L l i" for l i
      using fl F [OF that] that by (auto simp: flagsCleared_def)
    obtain m' where m': "clearRebalancedFlag P m x = Some m'" "flagsCleared L m0 (insert x ?D) m'" using clearRebalancedFlag_ok [OF fl x(2), of P] by blast
    obtain m'' where m'': "clearRebalancedFlag P m' x = Some m''" "flagsCleared L m0 (insert x (insert x ?D)) m''" using clearRebalancedFlag_ok [OF m'(2) x(2), of P] by blast
    have same: "dominated (set nodes - ?D) x \<longleftrightarrow> ?dom x"
    proof
      assume "?dom x"
      then obtain y where "y \<in> set nodes" "above x y" "\<not> ?dom y" using dominated_by_top [of "set nodes" x] by auto
      then show "dominated (set nodes - ?D) x" by (auto simp: dominated_def)
    qed (auto simp: dominated_def)
    have layk: "brmLayout L m" using fl by (simp add: flagsCleared_def)
    have "rebalancingNodeDominated P m x = Some (if ?dom x then (True, m') else (False, m))"
      using rebalancingNodeDominated_ok [OF layk, of "set nodes - ?D" x P m'] flags m'(1) ok x same by auto
    moreover have "getRebalancingTask P dm m x = Some (taskOfNode P dm V L x)"
      by (rule getRebalancingTask_node [OF layk flagsCleared_consistent [OF fl cons] x(2)])
    ultimately have "collectTask P dm x s = Some (if ?dom x then (m'', ts) else (m, ts @ [taskOfNode P dm V L x]))"
      using m''(1) by (simp add: collectTask_def s)
    moreover have "{y\<in>set (take (Suc k) nodes). ?dom y} = (if ?dom x then insert x ?D else ?D)" using k by (auto simp: take_Suc_conv_app_nth x_def)
    ultimately show "\<exists>t. collectTask P dm (nodes ! k) s = Some t \<and> ?I (Suc k) t"
      using fl m''(2) ts k by (auto simp: take_Suc_conv_app_nth x_def [symmetric])
  qed
  then show ?thesis by auto
qed

text \<open>Nodes that do not contain each other have disjoint ranges.\<close>

lemma apart_nodes:
  assumes P: "0 < SegmentWidth P" and x: "okNode L x" "nodeLevel x \<le> int L" and y: "okNode L y" "nodeLevel y \<le> int L"
    and le: "nodeLevel x \<le> nodeLevel y" and ne: "x \<noteq> y" "\<not> above x y"
  shows "taskEnd P L x \<le> taskStart P L y \<or> taskEnd P L y \<le> taskStart P L x"
proof -
  obtain l where l: "nodeLevel x = int l" "x = mkNode (int l) (nodeIndex x)" using node_level [OF x(1)] .
  obtain k where k: "nodeLevel y = int k" "y = mkNode (int k) (nodeIndex y)" using node_level [OF y(1)] .
  have lk: "l \<le> k" "k \<le> L" "l \<le> L" using le y(2) x(2) l(1) k(1) by auto
  define i j w where "i = nodeIndex x" and "j = nodeIndex y" and "w = 2 ^ l * SegmentWidth P"
  have w: "0 < w" using P by (simp add: w_def)
  have pw: "2 ^ k * SegmentWidth P = 2 ^ (k - l) * w" using lk(1) by (simp add: w_def power_add [symmetric])
  have st: "taskStart P L x = i * w" "taskEnd P L x = (i + 1) * w" "taskStart P L y = j * 2 ^ (k - l) * w" "taskEnd P L y = (j + 1) * 2 ^ (k - l) * w"
    using lk pw by (simp_all add: taskStart_def taskEnd_def nodeStart_def l(1) k(1) i_def j_def w_def min.absorb2 mult.assoc)
  have "i div 2 ^ (k - l) \<noteq> j"
  proof
    assume e: "i div 2 ^ (k - l) = j"
    show False
    proof (cases "l = k")
      case True
      then show ?thesis using e ne(1) l(2) k(2) by (simp add: i_def j_def)
    next
      case False
      then show ?thesis using e ne(2) lk(1) l(1) k(1) by (simp add: above_def i_def j_def nat_diff_distrib)
    qed
  qed
  then have ne': "i div 2 ^ (k - l) < j \<or> j < i div 2 ^ (k - l)" by linarith
  define p :: int where "p = 2 ^ (k - l)"
  have p: "0 < p" by (simp add: p_def)
  have "i div p * p \<le> i" "i < i div p * p + p" using pos_mod_bound [OF p, of i] pos_mod_sign [OF p, of i] div_mult_mod_eq [of i p] by linarith+
  then have p: "0 < p" "i div p * p \<le> i" "i < (i div p + 1) * p" using p by (simp_all add: distrib_right)
  consider "i div 2 ^ (k - l) < j" | "j < i div 2 ^ (k - l)" using ne' by blast
  then show ?thesis
  proof cases
    case 1
    then have "(i div p + 1) * p \<le> j * p" using p(1) by (intro mult_right_mono) (auto simp: p_def)
    then have "i < j * 2 ^ (k - l)" using p(3) unfolding p_def by linarith
    then have "(i + 1) * w \<le> j * 2 ^ (k - l) * w" using w by (intro mult_right_mono) auto
    then show ?thesis unfolding st by blast
  next
    case 2
    then have "(j + 1) * p \<le> i div p * p" using p(1) by (intro mult_right_mono) (auto simp: p_def)
    then have "(j + 1) * 2 ^ (k - l) \<le> i" using p(2) unfolding p_def by linarith
    then have "(j + 1) * 2 ^ (k - l) * w \<le> i * w" using w by (intro mult_right_mono) auto
    then show ?thesis unfolding st by blast
  qed
qed

text \<open>
  What the update relies on. Apart from the entries of the recounting map the counters are right and no flag is set; a segment marked for
  rebalancing has blocks.
\<close>

definition updateInput :: "('k::linorder, 'v) tparams \<Rightarrow> runtime \<Rightarrow> nat \<Rightarrow> ('k, 'v) sds \<Rightarrow> bool" where
  "updateInput P R L S \<longleftrightarrow> wfCells P S \<and> 0 < L \<and> okRuntime R \<and> 0 < SegmentWidth P \<and> width P L \<le> 2 ^ 53 \<and> int (usedWidth S) \<le> width P L \<and>
     cnt P (viewOf P S) L 0 \<le> 2 ^ 52 \<and> rebalancingNodes S = [] \<and>
     levelInv P (viewOf P S) L (rebalancingManager S) (bmLookup (recountingNodesMap S)) 0 \<and> bmInv R (recountingNodesMap S) \<and>
     bmInv R (nextLevelRecountingNodes (rebalancingManager S)) \<and>
     (\<forall>k. bmLookup (nextLevelRecountingNodes (rebalancingManager S)) k \<noteq> None \<longrightarrow> validNode L 1 k) \<and>
     (\<forall>k. bmLookup (nextLevelRecountingNodes (rebalancingManager S)) k \<noteq> Some True) \<and>
     (\<forall>l i. validNode L l i \<longrightarrow> \<not> rebalanced (agg L (rebalancingManager S) l i)) \<and>
     (\<forall>i. bmLookup (recountingNodesMap S) i = Some True \<longrightarrow> 0 < cnt P (viewOf P S) 0 i)"

lemma covers_range:
  assumes P: "0 < SegmentWidth P" and c: "covers (mkNode (int l) k) i"
  shows "nodeStart P l k \<le> nodeStart P 0 i" "nodeStart P 0 (i + 1) \<le> nodeStart P l (k + 1)"
proof -
  define p :: int where "p = 2 ^ l"
  have p: "0 < p" by (simp add: p_def)
  have k: "k = i div p" using c by (simp add: covers_def mkNode_def p_def)
  have b: "k * p \<le> i" "i + 1 \<le> k * p + p" unfolding k using pos_mod_bound [OF p, of i] pos_mod_sign [OF p, of i] div_mult_mod_eq [of i p] by linarith+
  have "k * p * SegmentWidth P \<le> i * SegmentWidth P" "(i + 1) * SegmentWidth P \<le> (k * p + p) * SegmentWidth P"
    using b P by (auto intro: mult_right_mono)
  then show "nodeStart P l k \<le> nodeStart P 0 i" "nodeStart P 0 (i + 1) \<le> nodeStart P l (k + 1)"
    by (simp_all add: nodeStart_def p_def distrib_right mult.assoc)
qed

lemma blocksIn_sub:
  assumes V: "okView V n" and "0 \<le> a" "a \<le> b" "c \<le> d" "b \<le> c"
  shows "blocksIn V b c \<le> blocksIn V a d"
  using blocksIn_join [of a b d V] blocksIn_join [of b c d V] blocksIn_nonneg [OF V, of a b] blocksIn_nonneg [OF V, of c d] assms(2-) by linarith

text \<open>The task of a selected node fits, and has blocks.\<close>

lemma task_node_ok:
  assumes P: "0 < SegmentWidth P" and wf: "wfCells P S" and dm: "density_manager dm" and L: "0 < L" "width P L \<le> 2 ^ 53" "int (usedWidth S) \<le> width P L"
    and total: "cnt P (viewOf P S) L 0 \<le> 2 ^ 52" and ok: "okNode L node"
    and fits: "if nodeLevel node \<le> int L then cnt P (viewOf P S) (nat (nodeLevel node)) (nodeIndex node) \<le> thr P dm L (nat (nodeLevel node)) else width P L < cnt P (viewOf P S) L 0"
    and pos: "0 < blocksIn (viewOf P S) (taskStart P L node) (taskEnd P L node)"
  shows "okTask P L S (taskOfNode P dm (viewOf P S) L node)" (is "okTask P L S ?t")
  using ok
proof (cases rule: okNode_cases)
  case (1 l)
  have "cnt P (viewOf P S) l (nodeIndex node) \<le> thr P dm L l" using fits 1 by simp
  also have "\<dots> \<le> width P l" using thr_bounds [OF dm P 1(2) L(1,2)] by simp
  also have "\<dots> = taskEnd P L node - taskStart P L node" using 1 by (simp add: width_def taskStart_def taskEnd_def nodeStart_def min.absorb2 left_diff_distrib [symmetric] mult.commute)
  finally show ?thesis using ok pos 1 by (simp add: okTask_def taskOfNode_def Let_def cnt_def taskStart_def taskEnd_def min.absorb2)
next
  case 2
  let ?n = "cnt P (viewOf P S) L 0"
  have n: "blocksIn (viewOf P S) (taskStart P L node) (taskEnd P L node) = ?n" "taskStart P L node = 0" "taskEnd P L node = width P L"
    using 2 by (simp_all add: cnt_def taskStart_def taskEnd_def nodeStart_def width_def nat_add_distrib mult.commute)
  have "?n \<le> minRangeLength dm ?n" using density_manager.min_range [OF dm] pos n total by simp
  moreover have "width P L < ?n" using fits 2 by simp
  ultimately show ?thesis using ok pos n 2 L(3) by (simp add: okTask_def taskOfNode_def Let_def)
qed

lemma tasks_apart:
  fixes dm :: density and V' :: sdsView
  assumes P: "0 < SegmentWidth P" and V: "\<And>y. y \<in> set nodes \<Longrightarrow> okNode L y" and d: "distinct nodes"
    and i: "i < j" "j < length (filter (\<lambda>x. \<not> dominated (set nodes) x) nodes)"
  defines "ts \<equiv> map (taskOfNode P dm V' L) (filter (\<lambda>x. \<not> dominated (set nodes) x) nodes)"
  shows "iright (pmaRange (ts ! i)) \<le> ileft (pmaRange (ts ! j)) \<or> iright (pmaRange (ts ! j)) \<le> ileft (pmaRange (ts ! i))"
proof -
  let ?xs = "filter (\<lambda>x. \<not> dominated (set nodes) x) nodes"
  define x y where "x = ?xs ! i" and "y = ?xs ! j"
  have mem: "x \<in> set ?xs" "y \<in> set ?xs" using i by (auto simp: x_def y_def simp del: set_filter)
  have "distinct ?xs" using d by simp
  then have ne: "x \<noteq> y" using i nth_eq_iff_index_eq [of ?xs i j] by (auto simp: x_def y_def)
  have ok: "okNode L x" "okNode L y" "\<not> above x y" "\<not> above y x" using mem V by (auto simp: dominated_def)
  have low: "nodeLevel z \<le> int L" if z: "z \<in> {x, y}" for z
  proof -
    have "okNode L z" using z ok by blast
    then show ?thesis
    proof (cases rule: okNode_cases)
      case 2
      obtain v where v: "okNode L v" "v \<noteq> z" "\<not> above v z" using z ok ne by auto
      obtain l where l: "nodeLevel v = int l" "validNode L l (nodeIndex v)" "l \<le> Suc L" "v = mkNode (int l) (nodeIndex v)" using node_level [OF v(1)] .
      have z': "z = mkNode (int (Suc L)) 0" using 2 by (cases z) (simp add: mkNode_def)
      have "l \<noteq> Suc L"
      proof
        assume "l = Suc L"
        moreover from this have "nodeIndex v = 0" using l(2) by (simp add: validNode_def)
        ultimately show False using l(4) z' v(2) by simp
      qed
      moreover have "validNode L (Suc L) (nodeIndex v div 2 ^ (Suc L - l))" using validNode_above [OF l(2)] l(3) by simp
      then have "nodeIndex v div 2 ^ (Suc L - l) = 0" by (simp add: validNode_def)
      moreover have "nat (nodeLevel z - nodeLevel v) = Suc L - l" using 2(1) l(1) by simp
      ultimately have "above v z" using 2 l(1,3) by (simp add: above_def)
      then show ?thesis using v(3) by blast
    qed simp
  qed
  have "taskEnd P L x \<le> taskStart P L y \<or> taskEnd P L y \<le> taskStart P L x"
    using apart_nodes [OF P ok(1) low ok(2) low] apart_nodes [OF P ok(2) low ok(1) low] ok(3,4) ne by (cases "nodeLevel x \<le> nodeLevel y") auto
  moreover have "ts ! i = taskOfNode P dm V' L x" "ts ! j = taskOfNode P dm V' L y" using i by (simp_all add: ts_def x_def y_def)
  ultimately show ?thesis using low [of x] low [of y] by (simp add: taskOfNode_def Let_def)
qed


text \<open>The tasks are disjoint and fit, and every marked segment belongs to one of them or the root is in the gap below the super root.\<close>

definition tasksSelected :: "('k::linorder, 'v) tparams \<Rightarrow> density \<Rightarrow> runtime \<Rightarrow> nat \<Rightarrow> ('k, 'v) sds \<Rightarrow> ('k, 'v) sds \<Rightarrow> bool" where
  "tasksSelected P dm R L S S' \<longleftrightarrow>
     (\<exists>m r. S' = S\<lparr>rebalancingManager := m, recountingNodesMap := r, rebalancingNodes := [], rebalancingTasks := rebalancingTasks S'\<rparr>) \<and>
     brmLayout L (rebalancingManager S') \<and> consistent P (viewOf P S) L (rebalancingManager S') \<and> bmInv R (recountingNodesMap S') \<and>
     (\<forall>l i. validNode L l i \<longrightarrow> rebalanced (agg L (rebalancingManager S') l i) = (mkNode (int l) i \<in> rootNode ` set (rebalancingTasks S'))) \<and>
     (\<forall>t\<in>set (rebalancingTasks S'). okTask P L S t) \<and>
     (\<forall>i j. i < j \<longrightarrow> j < length (rebalancingTasks S') \<longrightarrow>
        iright (pmaRange (rebalancingTasks S' ! i)) \<le> ileft (pmaRange (rebalancingTasks S' ! j)) \<or>
        iright (pmaRange (rebalancingTasks S' ! j)) \<le> ileft (pmaRange (rebalancingTasks S' ! i))) \<and>
     (\<forall>i. bmLookup (recountingNodesMap S) i = Some True \<longrightarrow>
        (\<exists>t\<in>set (rebalancingTasks S'). ileft (pmaRange t) \<le> SegmentWidth P * i \<and> min (int (usedWidth S)) (SegmentWidth P * (i + 1)) \<le> iright (pmaRange t)) \<or>
        thr P dm L L < cnt P (viewOf P S) L 0 \<and> cnt P (viewOf P S) L 0 \<le> width P L)"

lemma node_covers_task:
  assumes P: "0 < SegmentWidth P" and i: "validNode L 0 i" and ok: "okNode L node" and c: "covers node i" and t: "okTask P L S (taskOfNode P dm V L node)"
  shows "ileft (pmaRange (taskOfNode P dm V L node)) \<le> SegmentWidth P * i" "min (int (usedWidth S)) (SegmentWidth P * (i + 1)) \<le> iright (pmaRange (taskOfNode P dm V L node))"
proof -
  let ?t = "taskOfNode P dm V L node"
  have seg: "taskStart P L node \<le> nodeStart P 0 i \<and> nodeStart P 0 (i + 1) \<le> taskEnd P L node"
    using ok
  proof (cases rule: okNode_cases)
    case (1 l)
    have "covers (mkNode (int l) (nodeIndex node)) i" using 1 c by (simp add: covers_def mkNode_def)
    then show ?thesis using covers_range [OF P, of l "nodeIndex node" i] 1 by (simp add: taskStart_def taskEnd_def min.absorb2)
  next
    case 2
    have "i div 2 ^ L = 0" using i by (simp add: validNode_def div_pos_pos_trivial)
    then have "covers (mkNode (int L) 0) i" by (simp add: covers_def mkNode_def)
    then show ?thesis using covers_range [OF P, of L 0 i] 2 by (simp add: taskStart_def taskEnd_def nat_add_distrib)
  qed
  have "rootNode ?t = node" by (simp add: taskOfNode_def Let_def)
  then have "ileft (pmaRange ?t) = taskStart P L node" "min (int (usedWidth S)) (iright (pmaRange ?t)) = min (int (usedWidth S)) (taskEnd P L node)"
    using t by (simp_all add: okTask_def)
  then show "ileft (pmaRange ?t) \<le> SegmentWidth P * i" "min (int (usedWidth S)) (SegmentWidth P * (i + 1)) \<le> iright (pmaRange ?t)"
    using seg by (auto simp: nodeStart_def mult.commute)
qed

lemma updatePhase_ok:
  assumes inp: "updateInput P R L S" and dm: "density_manager dm"
  shows "\<exists>S'. updatePhase P dm R S = Some S' \<and> tasksSelected P dm R L S S'"
proof -
  let ?V = "viewOf P S" and ?m = "rebalancingManager S" and ?rec = "recountingNodesMap S"
  note u = inp [unfolded updateInput_def]
  have wf: "wfCells P S" and P: "0 < SegmentWidth P" using u by blast+
  have V: "okView ?V (int (usedWidth S))" by (rule wfCells_okView [OF wf])
  have "max 1 (viewSize ?V) = int (usedWidth S)" by (simp add: viewOf_def usedWidth_def)
  then have V': "okView ?V (max 1 (viewSize ?V))" using V by simp
  have no: "nodesOk P dm ?V L ?m []" using u by (simp add: nodesOk_def)
  have h: "0 < L" "okRuntime R" "width P L \<le> 2 ^ 53" "levelInv P ?V L ?m (bmLookup ?rec) 0" "bmInv R ?rec" "bmInv R (nextLevelRecountingNodes ?m)"
     "\<forall>k. bmLookup (nextLevelRecountingNodes ?m) k \<noteq> None \<longrightarrow> validNode L 1 k" "\<forall>k. bmLookup (nextLevelRecountingNodes ?m) k \<noteq> Some True"
    using u by blast+
  from brmUpdate_ok [OF h(1,2) P h(3) dm V' h(4-7) no] obtain m rec nodes where b: "brmUpdate P dm R ?V ?m ?rec [] = Some (m, rec, nodes)"
     "brmLayout L m" "consistent P ?V L m" "bmInv R rec" "distinct nodes"
     "\<forall>l i. validNode L l i \<longrightarrow> rebalanced (agg L m l i) = (mkNode (int l) i \<in> set nodes)"
     "\<forall>node\<in>set nodes. okNode L node \<and> (if nodeLevel node \<le> int L then cnt P ?V (nat (nodeLevel node)) (nodeIndex node) \<le> thr P dm L (nat (nodeLevel node))
         else width P L < cnt P ?V L 0)"
     "\<forall>i. bmLookup ?rec i = Some True \<longrightarrow> (\<exists>node\<in>set nodes. covers node i) \<or> thr P dm L L < cnt P ?V L 0 \<and> cnt P ?V L 0 \<le> width P L"
     "(\<forall>k. bmLookup (nextLevelRecountingNodes ?m) k \<noteq> Some True) \<longrightarrow> (\<forall>node\<in>set nodes. nodeLevel node \<le> int L \<longrightarrow> (\<exists>i. bmLookup ?rec i = Some True \<and> covers node i))"
    by (elim exE conjE) (rule that)
  note traced = b(9) [rule_format, OF h(8) [rule_format]]
  have ok: "okNode L node" if "node \<in> set nodes" for node using b(7) that by blast
  let ?dom = "dominated (set nodes)"
  define ts where "ts = map (taskOfNode P dm ?V L) (filter (\<lambda>x. \<not> ?dom x) nodes)"
  obtain m' where m': "foldM (collectTask P dm) nodes (m, []) = Some (m', ts)" "flagsCleared L m {x\<in>set nodes. ?dom x} m'"
    using collect_ok [OF b(2,3,5) _ ok, of dm] b(6) unfolding ts_def by blast
  have v0: "validNode L 0 i" if "bmLookup ?rec i = Some True" for i using u that by (auto simp: levelInv_def)
  have pos: "0 < blocksIn ?V (taskStart P L node) (taskEnd P L node)" if node: "node \<in> set nodes" for node
  proof (cases "nodeLevel node \<le> int L")
    case True
    then obtain i where i: "bmLookup ?rec i = Some True" "covers node i" using traced [OF node] by blast
    have "0 < cnt P ?V 0 i" using u i(1) by blast
    moreover obtain l where l: "nodeLevel node = int l" "validNode L l (nodeIndex node)" "node = mkNode (int l) (nodeIndex node)" using node_level [OF ok [OF node]] .
    have "covers (mkNode (int l) (nodeIndex node)) i" using i(2) l(3) by simp
    note r = covers_range [OF P this]
    have "0 \<le> nodeStart P l (nodeIndex node)" using l(2) nodeStart_nonneg [OF P] by (simp add: validNode_def)
    then have "cnt P ?V 0 i \<le> blocksIn ?V (nodeStart P l (nodeIndex node)) (nodeStart P l (nodeIndex node + 1))"
      unfolding cnt_def using r P by (intro blocksIn_sub [OF V]) (auto simp: nodeStart_def)
    ultimately show ?thesis using True l(1) by (simp add: taskStart_def taskEnd_def min.absorb2)
  next
    case False
    then have w: "width P L < cnt P ?V L 0" using b(7) node by auto
    moreover have "0 < width P L" using P by (simp add: width_def)
    moreover have "nodeLevel node = int L + 1 \<and> nodeIndex node = 0" using ok [OF node] False by (cases rule: okNode_cases) auto
    ultimately show ?thesis by (simp add: taskStart_def taskEnd_def cnt_def nat_add_distrib)
  qed
  have okT: "okTask P L S (taskOfNode P dm ?V L node)" if node: "node \<in> set nodes" for node
    by (rule task_node_ok [OF P wf dm _ _ _ _ ok [OF node] _ pos [OF node]]) (use u b(7) node in blast)+
  define S' where "S' = S\<lparr>rebalancingManager := m', recountingNodesMap := rec, rebalancingNodes := [], rebalancingTasks := ts\<rparr>"
  have run: "updatePhase P dm R S = Some S'" using b(1) m'(1) u by (simp add: updatePhase_def S'_def)
  have root: "rootNode ` set ts = {x\<in>set nodes. \<not> ?dom x}" by (simp add: ts_def image_image) (simp add: taskOfNode_def Let_def)
  have flags: "rebalanced (agg L m' l i) = (mkNode (int l) i \<in> rootNode ` set ts)" if "validNode L l i" for l i
    using m'(2) b(6) that unfolding root flagsCleared_def by auto
  have seg: "\<exists>t\<in>set ts. ileft (pmaRange t) \<le> SegmentWidth P * i \<and> min (int (usedWidth S)) (SegmentWidth P * (i + 1)) \<le> iright (pmaRange t)"
    if i: "bmLookup ?rec i = Some True" and c: "\<exists>node\<in>set nodes. covers node i" for i
  proof -
    obtain x where x: "x \<in> set nodes" "covers x i" using c by blast
    obtain y where y: "y \<in> set nodes" "\<not> ?dom y" "y = x \<or> above x y" using dominated_by_top [of "set nodes" x] x(1) by auto
    have "covers y i" using y(3)
    proof
      assume a: "above x y"
      obtain l where "nodeLevel x = int l" using node_level [OF ok [OF x(1)]] .
      moreover obtain k where "nodeLevel y = int k" using node_level [OF ok [OF y(1)]] .
      moreover have "2 ^ k = (2::int) ^ l * 2 ^ (k - l)" if "l < k" using that by (simp add: power_add [symmetric])
      ultimately show ?thesis using a x(2) by (simp add: above_def covers_def nat_diff_distrib zdiv_zmult2_eq)
    qed (use x(2) in simp)
    then show ?thesis using node_covers_task [OF P v0 [OF i] ok [OF y(1)] _ okT [OF y(1)]] y(1,2)
      by (intro bexI [of _ "taskOfNode P dm ?V L y"]) (auto simp: ts_def)
  qed
  have "tasksSelected P dm R L S S'"
    unfolding tasksSelected_def
  proof (intro conjI)
    have "S' = S\<lparr>rebalancingManager := m', recountingNodesMap := rec, rebalancingNodes := [], rebalancingTasks := rebalancingTasks S'\<rparr>" by (simp add: S'_def)
    then show "\<exists>m r. S' = S\<lparr>rebalancingManager := m, recountingNodesMap := r, rebalancingNodes := [], rebalancingTasks := rebalancingTasks S'\<rparr>" by blast
    show "\<forall>t\<in>set (rebalancingTasks S'). okTask P L S t" using okT by (auto simp: S'_def ts_def)
    show "\<forall>i j. i < j \<longrightarrow> j < length (rebalancingTasks S') \<longrightarrow>
        iright (pmaRange (rebalancingTasks S' ! i)) \<le> ileft (pmaRange (rebalancingTasks S' ! j)) \<or>
        iright (pmaRange (rebalancingTasks S' ! j)) \<le> ileft (pmaRange (rebalancingTasks S' ! i))"
      using tasks_apart [OF P ok b(5), of _ _ dm ?V] by (auto simp: S'_def ts_def)
    show "\<forall>i. bmLookup ?rec i = Some True \<longrightarrow>
        (\<exists>t\<in>set (rebalancingTasks S'). ileft (pmaRange t) \<le> SegmentWidth P * i \<and> min (int (usedWidth S)) (SegmentWidth P * (i + 1)) \<le> iright (pmaRange t)) \<or>
        thr P dm L L < cnt P ?V L 0 \<and> cnt P ?V L 0 \<le> width P L"
      using b(8) seg by (simp add: S'_def) blast
    show "\<forall>l i. validNode L l i \<longrightarrow> rebalanced (agg L (rebalancingManager S') l i) = (mkNode (int l) i \<in> rootNode ` set (rebalancingTasks S'))"
      using flags by (simp add: S'_def)
    show "brmLayout L (rebalancingManager S')" using m'(2) by (simp add: S'_def flagsCleared_def)
    show "consistent P ?V L (rebalancingManager S')" using flagsCleared_consistent [OF m'(2) b(3)] by (simp add: S'_def)
    show "bmInv R (recountingNodesMap S')" using b(4) by (simp add: S'_def)
  qed
  then show ?thesis using run by blast
qed

text \<open>The selection changes nothing of the array.\<close>

lemma selection_irrelevant [simp]:
  fixes S :: "('k::linorder, 'v) sds" and m :: brm and r :: BucketMap and ns :: "RebalancingNode list" and ts :: "RebalancingTask list"
  defines "T \<equiv> S\<lparr>rebalancingManager := m, recountingNodesMap := r, rebalancingNodes := ns, rebalancingTasks := ts\<rparr>"
  shows "viewOf P T = viewOf P S" "usedWidth T = usedWidth S" "unbuffered T = unbuffered S" "wfCells P T = wfCells P S" "okTask P L T = okTask P L S"
proof -
  have cell: "cellAt T c = cellAt S c" "hasCell T c = hasCell S c" "beyond T c = beyond S c" for c by (cases c; simp add: T_def)+
  have cells: "filled T = filled S" "okCell P T = okCell P S" by (simp_all add: fun_eq_iff filled_def okCell_def cell)
  show vw: "viewOf P T = viewOf P S" and us: "usedWidth T = usedWidth S" and un: "unbuffered T = unbuffered S"
    by (simp_all add: T_def fun_eq_iff viewOf_def emptyAt_def numberOfBufferBlocks_def usedWidth_def unbuffered_def)
  have up: "cellsUpTo T = cellsUpTo S" "okPointers T = okPointers S" by (simp_all add: T_def fun_eq_iff cellsUpTo_def okPointers_def)
  show "wfCells P T = wfCells P S" unfolding wfCells_def us un up cells by (simp add: T_def)
  show "okTask P L T = okTask P L S" unfolding okTask_def fun_eq_iff us vw by simp
qed

text \<open>
  The tasks that the update selects are fit for the phases that move blocks, if the new size covers them; the entries with blocks in the buffer have to
  be marked, and the root must not be in the gap.
\<close>

lemma selected_ready:
  assumes inp: "updateInput P R L S" and sel: "tasksSelected P dm R L S S'" and ne: "rebalancingTasks S' \<noteq> []"
    and gap: "\<not> (thr P dm L L < cnt P (viewOf P S) L 0 \<and> cnt P (viewOf P S) L 0 \<le> width P L)"
    and marked: "\<And>j. j < usedWidth S \<Longrightarrow> \<not> unbuffered S j \<Longrightarrow> bmLookup (recountingNodesMap S) (int j div SegmentWidth P) = Some True"
    and sw: "swapPma S = makeEntries P (swapCapacity S)" "swapCapacity S = sdsCapacity S"
    and new: "sdsSize S \<le> int newSize" "\<And>t. t \<in> set (rebalancingTasks S') \<Longrightarrow> iright (pmaRange t) \<le> int newSize"
    and keep: "int newSize < swapCapacity S \<or> (\<forall>j<usedWidth S. pma S ! j \<noteq> emptyEntry P \<longrightarrow> inTask S' j)"
  shows "rebalanceInput P L newSize S'"
proof -
  obtain m r ts where S': "S' = S\<lparr>rebalancingManager := m, recountingNodesMap := r, rebalancingNodes := [], rebalancingTasks := ts\<rparr>"
    using sel unfolding tasksSelected_def by blast
  have P: "0 < SegmentWidth P" and wf: "wfCells P S" using inp by (simp_all add: updateInput_def)
  have t: "brmLayout L m" "consistent P (viewOf P S) L m" "\<forall>t\<in>set ts. okTask P L S t"
     "\<forall>i j. i < j \<longrightarrow> j < length ts \<longrightarrow> iright (pmaRange (ts ! i)) \<le> ileft (pmaRange (ts ! j)) \<or> iright (pmaRange (ts ! j)) \<le> ileft (pmaRange (ts ! i))"
     "\<forall>i. bmLookup (recountingNodesMap S) i = Some True \<longrightarrow>
        (\<exists>t\<in>set ts. ileft (pmaRange t) \<le> SegmentWidth P * i \<and> min (int (usedWidth S)) (SegmentWidth P * (i + 1)) \<le> iright (pmaRange t))"
    using sel gap unfolding tasksSelected_def S' by auto
  let ?Z = "S'\<lparr>swapPma := makeEntries P (int newSize)\<rparr>"
  have z: "sameCells S' ?Z" by simp
  have sel': "rebalancingTasks ?Z = ts" "rebalancingManager ?Z = m" "swapPma ?Z = makeEntries P (int newSize)" by (simp_all add: S')
  have "wfCells P ?Z" "okTask P L ?Z = okTask P L S" "viewOf P ?Z = viewOf P S" unfolding sameCells_tasks [OF z] sameCells_cells(5) [OF z] using wf by (simp_all add: S')
  moreover have "iright (pmaRange t) \<le> int (length (makeEntries P (int newSize)))" if "t \<in> set ts" for t using new(2) [of t] that by (simp add: S' makeEntries_def)
  ultimately have set: "rebSetting P L ?Z" unfolding rebSetting_def sel' using P t(1-4) by simp
  have "inTask S' j" if j: "j < usedWidth S" "\<not> unbuffered S j" for j
  proof -
    let ?i = "int j div SegmentWidth P"
    obtain u where u: "u \<in> set ts" "ileft (pmaRange u) \<le> SegmentWidth P * ?i" "min (int (usedWidth S)) (SegmentWidth P * (?i + 1)) \<le> iright (pmaRange u)"
      using t(5) marked [OF j] by blast
    have b: "SegmentWidth P * ?i \<le> int j" "int j < SegmentWidth P * ?i + SegmentWidth P"
      using pos_mod_bound [OF P, of "int j"] pos_mod_sign [OF P, of "int j"] mult_div_mod_eq [of "SegmentWidth P" "int j"] by linarith+
    have "taskLo u \<le> j" using u(2) b(1) by (simp add: taskLo_def)
    moreover have "int j < iright (pmaRange u)" using u(3) b(2) j(1) by (simp add: distrib_left min_le_iff_disj) linarith
    ultimately show ?thesis using u(1) by (auto simp: inTask_def S')
  qed
  then show ?thesis
    unfolding rebalanceInput_def using set ne sw new(1) keep by (simp add: S')
qed


text \<open>The array of the example before its tasks are selected: both segments are to be recounted, the first one to be rebalanced.\<close>

definition demoCounting :: "TaskInfo \<Rightarrow> brm \<Rightarrow> BucketMap \<Rightarrow> (nat, nat) sds" where
  "demoCounting t m r = (demoMoving t m)\<lparr>rebalancingManager := m, recountingNodesMap := r, rebalancingNodes := [], rebalancingTasks := []\<rparr>"

lemma demoCounting_blocks:
  "cnt (demoParams False) (viewOf (demoParams False) (demoCounting t m r)) 0 0 = 2"
  "cnt (demoParams False) (viewOf (demoParams False) (demoCounting t m r)) 0 1 = 1"
  "2 \<le> i \<Longrightarrow> cnt (demoParams False) (viewOf (demoParams False) (demoCounting t m r)) 0 i = 0"
  "cnt (demoParams False) (viewOf (demoParams False) (demoCounting t m r)) 14 0 = 3"
proof -
  let ?P = "demoParams False" and ?S = "demoMoving t m"
  have view: "viewOf ?P (demoCounting t m r) = viewOf ?P ?S" unfolding demoCounting_def by (rule selection_irrelevant)
  have V: "okView (viewOf ?P ?S) 4" using wfCells_okView [OF demoMoving_wf [of t m]] by simp
  have c: "cellsUpTo ?S 0 2 = [ArrayCell 0, BufferCell 0, ArrayCell 1]" "cellsUpTo ?S 2 4 = [ArrayCell 2, ArrayCell 3]"
    by (simp_all add: cellsUpTo_def entryCells_def upt_rec demoMoving_at)
  show "cnt ?P (viewOf ?P (demoCounting t m r)) 0 0 = 2" "cnt ?P (viewOf ?P (demoCounting t m r)) 0 1 = 1"
    using count_cells [OF demoMoving_wf [of t m], of 2 0] count_cells [OF demoMoving_wf [of t m], of 4 2]
    by (simp_all add: view cnt_def nodeStart_def c demoMoving_filled)
  show "cnt ?P (viewOf ?P (demoCounting t m r)) 0 i = 0" if "2 \<le> i"
    using blocksIn_cut [OF V, of "2 * i" 4 "2 * i + 2"] that by (simp add: view cnt_def nodeStart_def algebra_simps)
  have "blocksIn (viewOf ?P ?S) 0 4 = 3" using count_cells [OF demoMoving_wf [of t m], of 4 0] by (simp add: demoMoving_cells demoMoving_filled)
  then show "cnt ?P (viewOf ?P (demoCounting t m r)) 14 0 = 3" using blocksIn_cut [OF V, of 0 4 32768] by (simp add: view cnt_def nodeStart_def)
qed

text \<open>C9. Updating the hierarchy and collecting the tasks (phases B-2 and B-3 of \<open>insertBatch\<close>) returns, in whatever order the parallel loops run. The counters are
  right afterwards; the tasks have disjoint ranges, each has blocks, counts them correctly and has room for all of them; exactly the nodes of the tasks are flagged; and every
  segment marked for rebalancing lies in the range of a task, except when the number of blocks is above the threshold of the root but not above its width. Before, the
  counters have to be right outside of the segments to recount, no node may be flagged, marked segments must have blocks, and the widths stay below \<open>2\<^sup>5\<^sup>3\<close>, where
  \<open>double\<close> is exact.\<close>

theorem updatePhase_selects:
  assumes "updateInput P R L S" "density_manager dm"
  shows "\<exists>S'. updatePhase P dm R S = Some S' \<and> tasksSelected P dm R L S S'"
  by (rule updatePhase_ok [OF assms])

theorem updatePhase_selects_witness:
  "\<forall>t. \<exists>m r S'. newBrm (demoParams False) 0 1 = Some m \<and> foldM (bmInsert demoRuntime) [(0, True), (1, False)] (newBucketMap 1) = Some r \<and>
     updatePhase (demoParams False) DensityThree demoRuntime (demoCounting t m r) = Some S' \<and>
     tasksSelected (demoParams False) DensityThree demoRuntime 14 (demoCounting t m r) S'"
proof
  fix t
  let ?P = "demoParams False"
  obtain m where m: "newBrm ?P 0 1 = Some m" "brmLayout 14 m" "nextLevelRecountingNodes m = newBucketMap 1" "\<forall>l i. validNode 14 l i \<longrightarrow> agg 14 m l i = emptyManagerEntry"
    using newBrm_ok [of ?P 0 1] by auto
  obtain r where r: "foldM (bmInsert demoRuntime) [(0, True), (1, False)] (newBucketMap 1) = Some r" "bmInv demoRuntime r" "bmLookup r = [0 \<mapsto> True, 1 \<mapsto> False]"
    using bm.fold_ins [of demoRuntime "newBucketMap 1" "[(0, True), (1, False)]"] bmInv_new [of 1 demoRuntime] by (auto simp: fun_eq_iff)
  let ?S = "demoCounting t m r"
  have sel: "rebalancingManager ?S = m" "recountingNodesMap ?S = r" "rebalancingNodes ?S = []" "usedWidth ?S = 4" "wfCells ?P ?S"
    by (simp_all add: demoCounting_def demoMoving_wf)
  have run: "okRuntime demoRuntime" by (auto simp: okRuntime_def demoRuntime_def rev_map [symmetric])
  have children: "validNode 14 k (leftChild i) \<and> validNode 14 k (rightChild i)" if "validNode 14 (Suc k) i" "Suc k \<le> 14" for k i
    using validNode_children [OF that] by simp
  have other: "cnt ?P (viewOf ?P ?S) 0 i = 0" if "0 \<le> i" "i \<noteq> 0" "i \<noteq> 1" for i using demoCounting_blocks(3) [of i t m r] that by simp
  have lev: "levelInv ?P (viewOf ?P ?S) 14 m (bmLookup r) 0"
    unfolding levelInv_def
  proof (intro conjI allI impI)
    show "brmLayout 14 m" "countsUpTo ?P (viewOf ?P ?S) 14 m 0" using m(2) by (simp_all add: countsUpTo_def)
    show "numberOfBlocks (agg 14 m 0 i) = cnt ?P (viewOf ?P ?S) 0 i" if "validNode 14 0 i" "bmLookup r i = None" for i
      using m(4) that other [of i] by (simp add: r(3) emptyManagerEntry_def validNode_def split: if_splits)
    show "numberOfBlocks (agg 14 m (Suc k) i) = numberOfBlocks (agg 14 m k (leftChild i)) + numberOfBlocks (agg 14 m k (rightChild i))"
      if "Suc k \<le> 14" "validNode 14 (Suc k) i" for k i using m(4) that children [OF that(2,1)] by (simp add: emptyManagerEntry_def)
    show "validNode 14 0 i" if "bmLookup r i \<noteq> None" for i using that by (auto simp: r(3) validNode_def split: if_splits)
    show "bmLookup r i = Some True" if "validNode 14 0 i" "width ?P 0 < cnt ?P (viewOf ?P ?S) 0 i" for i
      using that other [of i] demoCounting_blocks(1,2) [of t m r] by (cases "i = 0 \<or> i = 1") (auto simp: width_def validNode_def)
  qed
  have "updateInput ?P demoRuntime 14 ?S"
    unfolding updateInput_def sel using sel(5) run lev m r(2,3) bmInv_new [of 1 demoRuntime] demoCounting_blocks(1,2,4) [of t m r]
    by (auto simp: width_def emptyManagerEntry_def)
  then show "\<exists>m r S'. newBrm ?P 0 1 = Some m \<and> foldM (bmInsert demoRuntime) [(0, True), (1, False)] (newBucketMap 1) = Some r \<and>
     updatePhase ?P DensityThree demoRuntime (demoCounting t m r) = Some S' \<and> tasksSelected ?P DensityThree demoRuntime 14 (demoCounting t m r) S'"
    using updatePhase_selects [of ?P demoRuntime 14 ?S DensityThree] densityThree.density_manager_axioms m(1) r(1) by blast
qed

end
