(* ===== verification/Merge_Faster.thy ===== *)
theory Merge_Faster
  imports Block
begin

text \<open>
  \<open>PmaEntry::mergeFaster\<close> of \<open>dataStructures/block.hpp\<close>: merging a batch into a block from the back, in
  place. The local variables are the record \<open>mfState\<close>; the signed 16-bit indices are integers with
  \<open>s16\<close> at every assignment. The literal 0 that an assertion compares a key with is the parameter
  \<open>zeroKey\<close>. The second part proves that the result is that of \<open>merge\<close>.
\<close>

section \<open>The operation\<close>

definition s16 :: "int \<Rightarrow> int" where
  "s16 x = (x + 32768) mod 65536 - 32768"

lemma s16_id [simp]: "-32768 \<le> x \<Longrightarrow> x < 32768 \<Longrightarrow> s16 x = x"
  by (simp add: s16_def)

lemma s16_pred: "0 \<le> x \<Longrightarrow> s16 (x - 1) < x"
  using zmod_le_nonneg_dividend [of "x - 1 + 32768" 65536] by (simp add: s16_def)

record ('k, 'v) mfState =
  mfEntry :: "('k, 'v) PmaEntry"
  mfBlockEnd :: int
  batchEnd :: int
  mfWriteIndex :: int
  lastWrittenKey :: 'k
  numberOfWrites :: nat
  dupl :: nat

text \<open>The assertion before each round, and a write with the bookkeeping that follows it.\<close>

definition mfAssert :: "('k, 'v) tparams \<Rightarrow> ('k, 'v) mfState \<Rightarrow> unit option" where
  "mfAssert P s =
     (if NDEBUG P then Some ()
      else do {
        assertMsg False (mfWriteIndex s \<ge> 0);
        if IsTrivialType P
        then do { em \<leftarrow> cellEmpty P (mfEntry s) (u16 (mfWriteIndex s)); assertMsg False em }
        else Some () })"

definition mfWrite :: "('k, 'v) tparams \<Rightarrow> 'v \<Rightarrow> ('k, 'v) mfState \<Rightarrow> ('k, 'v) mfState option" where
  "mfWrite P v s =
     (if mfWriteIndex s < 0 then None
      else do {
        b \<leftarrow> setCell (mfEntry s) (nat (mfWriteIndex s)) v;
        Some (s\<lparr>mfEntry := b, numberOfWrites := u16 (int (numberOfWrites s) + 1), lastWrittenKey := keyOfValue P v,
                mfWriteIndex := s16 (mfWriteIndex s - 1)\<rparr>) })"

text \<open>The inner loop: the first occurrence of the key in the batch.\<close>

function skipEqual :: "('k, 'v) tparams \<Rightarrow> 'v list \<Rightarrow> int \<Rightarrow> int option" where
  "skipEqual P batch j =
     (if j > 0
      then do {
        a \<leftarrow> idx batch j;
        c \<leftarrow> idx batch (j - 1);
        if keyOfValue P a = keyOfValue P c then skipEqual P batch (s16 (j - 1)) else Some j }
      else Some j)"
  by pat_completeness auto
termination
  by (relation "measure (\<lambda>(P, batch, j). nat j)") (auto dest: s16_pred [OF less_imp_le])

declare skipEqual.simps [simp del]

lemma skipEqual_le: "skipEqual P batch j = Some j' \<Longrightarrow> j' \<le> j"
proof (induction P batch j rule: skipEqual.induct)
  case (1 P batch j)
  show ?case
  proof (cases "j > 0")
    case True
    then show ?thesis
      using 1 s16_pred [of j] by (subst (asm) (2) skipEqual.simps) (force simp: bind_eq_Some_conv split: if_splits)
  next
    case False
    then show ?thesis using 1(2) by (subst (asm) skipEqual.simps) simp
  qed
qed

definition mfStep :: "('k::linorder, 'v) tparams \<Rightarrow> 'v list \<Rightarrow> ('k, 'v) mfState \<Rightarrow> ('k, 'v) mfState option" where
  "mfStep P batch s = do {
     mfAssert P s;
     x \<leftarrow> get (mfEntry s) (u16 (mfBlockEnd s));
     y \<leftarrow> idx batch (batchEnd s);
     if keyOfValue P x < keyOfValue P y
     then if keyOfValue P y \<noteq> lastWrittenKey s
          then do {
            j \<leftarrow> skipEqual P batch (batchEnd s);
            v \<leftarrow> idx batch j;
            s \<leftarrow> mfWrite P v s;
            Some (s\<lparr>batchEnd := s16 (j - 1)\<rparr>) }
          else Some (s\<lparr>dupl := dupl s + 1, batchEnd := s16 (batchEnd s - 1)\<rparr>)
     else do {
       s \<leftarrow> (if keyOfValue P x \<noteq> lastWrittenKey s then mfWrite P x s else Some (s\<lparr>dupl := dupl s + 1\<rparr>));
       b \<leftarrow> eraseCell P (mfEntry s) (u16 (mfBlockEnd s));
       Some (s\<lparr>mfEntry := b, mfBlockEnd := s16 (mfBlockEnd s - 1)\<rparr>) } }"

lemma mfWrite_frame: "mfWrite P v s = Some t \<Longrightarrow> mfBlockEnd t = mfBlockEnd s \<and> batchEnd t = batchEnd s"
  by (auto simp: mfWrite_def bind_eq_Some_conv split: if_splits)

lemma mfStep_decreases:
  assumes "mfStep P batch s = Some t" "mfBlockEnd s \<ge> 0" "batchEnd s \<ge> 0"
  shows "nat (mfBlockEnd t + 1) + nat (batchEnd t + 1) < nat (mfBlockEnd s + 1) + nat (batchEnd s + 1)"
  using assms s16_pred [of "mfBlockEnd s"] s16_pred [of "batchEnd s"]
  by (auto simp: mfStep_def bind_eq_Some_conv idx_Some_iff split: if_splits
      dest!: mfWrite_frame skipEqual_le dest: s16_pred)

function mfLoop :: "('k::linorder, 'v) tparams \<Rightarrow> 'v list \<Rightarrow> ('k, 'v) mfState \<Rightarrow> ('k, 'v) mfState option" where
  "mfLoop P batch s =
     (if mfBlockEnd s \<ge> 0 \<and> batchEnd s \<ge> 0 then do { s \<leftarrow> mfStep P batch s; mfLoop P batch s } else Some s)"
  by pat_completeness auto
termination
  by (relation "measure (\<lambda>(P, batch, s). nat (mfBlockEnd s + 1) + nat (batchEnd s + 1))") (auto dest: mfStep_decreases)

declare mfLoop.simps [simp del]

text \<open>The second loop writes what is left of the batch.\<close>

function mfRestLoop :: "('k, 'v) tparams \<Rightarrow> 'v list \<Rightarrow> ('k, 'v) mfState \<Rightarrow> ('k, 'v) mfState option" where
  "mfRestLoop P batch s =
     (if batchEnd s \<ge> 0
      then do {
        mfAssert P s;
        y \<leftarrow> idx batch (batchEnd s);
        s \<leftarrow> (if keyOfValue P y \<noteq> lastWrittenKey s then mfWrite P y s else Some (s\<lparr>dupl := dupl s + 1\<rparr>));
        mfRestLoop P batch (s\<lparr>batchEnd := s16 (batchEnd s - 1)\<rparr>) }
      else Some s)"
  by pat_completeness auto
termination
  by (relation "measure (\<lambda>(P, batch, s). nat (batchEnd s + 1))")
     (auto split: if_splits dest!: mfWrite_frame dest: s16_pred)

declare mfRestLoop.simps [simp del]

text \<open>Moving the written elements over the gap that the duplicates left.\<close>

definition mfShift :: "('k, 'v) tparams \<Rightarrow> 'k \<Rightarrow> nat \<Rightarrow> nat \<Rightarrow> nat \<Rightarrow> ('k, 'v) PmaEntry \<Rightarrow> ('k, 'v) PmaEntry option" where
  "mfShift P zeroKey emptyRegionStart numberOfDuplicates writes b = foldM
     (\<lambda>i b. do {
        v \<leftarrow> get b (u16 (int (emptyRegionStart + i + numberOfDuplicates)));
        assertMsg (NDEBUG P) (keyOfValue P v \<noteq> zeroKey);
        b \<leftarrow> setCell b (emptyRegionStart + i) v;
        eraseCell P b (emptyRegionStart + i + numberOfDuplicates) }) [0..<writes] b"

text \<open>The part of the block that was not rewritten ends with the key that was written last.\<close>

definition endsWithDuplicate :: "('k, 'v) tparams \<Rightarrow> ('k, 'v) mfState \<Rightarrow> bool option" where
  "endsWithDuplicate P s =
     (if mfBlockEnd s \<ge> 0 then do { v \<leftarrow> get (mfEntry s) (u16 (mfBlockEnd s)); Some (keyOfValue P v = lastWrittenKey s) }
      else Some False)"

definition mergeFaster ::
  "('k::linorder, 'v) tparams \<Rightarrow> 'k \<Rightarrow> ('k, 'v) PmaEntry \<Rightarrow> 'v list \<Rightarrow> nat \<Rightarrow> ('k, 'v) PmaEntry option" where
  "mergeFaster P zeroKey b batch numberOfElements = do {
     assertMsg (NDEBUG P) (block b \<noteq> None);
     let s = \<lparr>mfEntry = b, mfBlockEnd = s16 (int (bsize b) - 1), batchEnd = s16 (int numberOfElements - 1),
       mfWriteIndex = s16 (int (bsize b) + int numberOfElements - 1), lastWrittenKey = NULL_KEY P,
       numberOfWrites = 0, dupl = 0\<rparr>;
     s \<leftarrow> mfLoop P batch s;
     s \<leftarrow> mfRestLoop P batch s;
     dup \<leftarrow> endsWithDuplicate P s;
     let nDupl = (if dup then dupl s + 1 else dupl s);
     let emptyRegionStart = u16 (mfBlockEnd s + 1 - (if dup then 1 else 0));
     let numberOfDuplicates = u16 (int (bsize b) + int numberOfElements - (mfBlockEnd s + 1) - int (numberOfWrites s));
     assertMsg (NDEBUG P) (nDupl = numberOfDuplicates);
     let numberOfDuplicates = (if dup then u16 (int numberOfDuplicates + 1) else numberOfDuplicates);
     b' \<leftarrow> (if numberOfDuplicates > 0
            then mfShift P zeroKey emptyRegionStart numberOfDuplicates (numberOfWrites s) (mfEntry s)
            else Some (mfEntry s));
     let w = (if mfWriteIndex s \<ge> int emptyRegionStart then s16 (mfWriteIndex s - int numberOfDuplicates) else mfWriteIndex s);
     let b' = b'\<lparr>bsize := u16 (int (bsize b) + int numberOfElements - int numberOfDuplicates)\<rparr>;
     b' \<leftarrow> (if w + 1 = 0 then updateHead P b' else Some b');
     assertHead P b';
     Some b' }"

section \<open>The merged sequence\<close>

text \<open>
  \<open>T\<close> is what has been merged while \<open>i\<close> elements of the block \<open>E\<close> and \<open>j\<close> elements of the batch \<open>B\<close>
  are left.
\<close>

definition merged :: "('v \<Rightarrow> 'k::linorder) \<Rightarrow> 'v list \<Rightarrow> 'v list \<Rightarrow> nat \<Rightarrow> nat \<Rightarrow> 'v list \<Rightarrow> bool" where
  "merged kf E B i j T \<longleftrightarrow>
     i \<le> length E \<and> j \<le> length B \<and> strictly_sorted (map kf T) \<and>
     set T = set (drop i E) \<union> {x\<in>set (drop j B). kf x \<notin> kf ` set E} \<and>
     (\<forall>x\<in>set (take i E). \<forall>t\<in>set T. kf x < kf t) \<and> (\<forall>x\<in>set (take j B). \<forall>t\<in>set T. kf x \<le> kf t) \<and>
     i + j + length T \<le> length E + length B"

lemma take_Suc_snoc: "0 < i \<Longrightarrow> i \<le> length xs \<Longrightarrow> take i xs = take (i - 1) xs @ [xs ! (i - 1)]"
  by (cases i) (auto simp: take_Suc_conv_app_nth)

lemma drop_pred_Cons: "0 < i \<Longrightarrow> i \<le> length xs \<Longrightarrow> drop (i - 1) xs = xs ! (i - 1) # drop i xs"
  by (cases i) (auto simp: Cons_nth_drop_Suc)

lemma sorted_before_last:
  assumes "strictly_sorted (map kf xs)" "0 < i" "i \<le> length xs" "x \<in> set (take (i - 1) xs)"
  shows "kf x < kf (xs ! (i - 1))"
proof -
  have "strictly_sorted (map kf (take i xs))" using assms(1) by (rule sorted_keys_take)
  then show ?thesis using assms(2-4) take_Suc_snoc [OF assms(2,3)] by (auto simp: sorted_wrt_append)
qed

lemma merged_start: "merged kf E B (length E) (length B) []"
  by (simp add: merged_def)

lemma merged_block:
  assumes "strictly_sorted (map kf E)" "strictly_sorted (map kf B)" "merged kf E B i j T" "0 < i"
    and "0 < j \<Longrightarrow> kf (B ! (j - 1)) \<le> kf (E ! (i - 1))"
  shows "merged kf E B (i - 1) j (E ! (i - 1) # T)"
proof -
  let ?x = "E ! (i - 1)"
  have i: "i \<le> length E" and j: "j \<le> length B" using assms(3) by (auto simp: merged_def)
  have T: "set (take i E) = insert ?x (set (take (i - 1) E))" "set (drop (i - 1) E) = insert ?x (set (drop i E))"
    using take_Suc_snoc [OF assms(4) i] drop_pred_Cons [OF assms(4) i] by auto
  have "kf y \<le> kf ?x" if "y \<in> set (take j B)" for y
  proof (cases "0 < j")
    case True
    then have "y \<in> set (take (j - 1) B) \<or> y = B ! (j - 1)" using take_Suc_snoc [OF True j] that by auto
    then show ?thesis using sorted_before_last [OF assms(2) True j] assms(5) [OF True] by force
  qed (use that in simp)
  then show ?thesis
    using assms(3,4) T sorted_before_last [OF assms(1,4) i] by (auto simp: merged_def)
qed

lemma merged_batch:
  assumes "strictly_sorted (map kf E)" "strictly_sorted (map kf B)" "merged kf E B i j T" "0 < j"
    and "T \<noteq> [] \<Longrightarrow> kf (B ! (j - 1)) \<noteq> kf (hd T)" and "0 < i \<Longrightarrow> kf (E ! (i - 1)) < kf (B ! (j - 1))"
  shows "merged kf E B i (j - 1) (B ! (j - 1) # T)"
proof -
  let ?y = "B ! (j - 1)"
  have i: "i \<le> length E" and j: "j \<le> length B" using assms(3) by (auto simp: merged_def)
  have T: "set (take j B) = insert ?y (set (take (j - 1) B))" "set (drop (j - 1) B) = insert ?y (set (drop j B))"
    using take_Suc_snoc [OF assms(4) j] drop_pred_Cons [OF assms(4) j] by auto
  have less: "kf ?y < kf t" if "t \<in> set T" for t
  proof -
    have "\<forall>u\<in>set T. kf ?y \<le> kf u" using assms(3) T(1) unfolding merged_def by blast
    then have le: "kf ?y \<le> kf t" "kf ?y \<le> kf (hd T)" using that by (cases T; auto)+
    have "strictly_sorted (map kf T)" using assms(3) by (simp add: merged_def)
    then have "kf (hd T) \<le> kf t" using that by (cases T) auto
    then show ?thesis using le assms(5) that by (cases "T = []") auto
  qed
  have below: "kf x < kf ?y" if "x \<in> set (take i E)" for x
  proof (cases "0 < i")
    case True
    then have "x \<in> set (take (i - 1) E) \<or> x = E ! (i - 1)" using take_Suc_snoc [OF True i] that by auto
    then show ?thesis using sorted_before_last [OF assms(1) True i] assms(6) [OF True] by force
  qed (use that in simp)
  have "kf ?y \<notin> kf ` set E"
  proof
    assume "kf ?y \<in> kf ` set E"
    then obtain x where "x \<in> set E" "kf x = kf ?y" by auto
    then have "x \<in> set (take i E) \<or> x \<in> set (drop i E)" by (metis append_take_drop_id Un_iff set_append)
    then show False using below [of x] less [of x] assms(3) \<open>kf x = kf ?y\<close> by (auto simp: merged_def)
  qed
  then show ?thesis
    using assms(3,4) T less below sorted_before_last [OF assms(2,4) j] by (auto simp: merged_def less_imp_le)
qed

lemma merged_skip:
  assumes "strictly_sorted (map kf B)" "merged kf E B i j T" "0 < j" "T \<noteq> []" "kf (B ! (j - 1)) = kf (hd T)"
  shows "merged kf E B i (j - 1) T"
proof -
  let ?y = "B ! (j - 1)"
  have j: "j \<le> length B" using assms(2) by (auto simp: merged_def)
  have T: "set (take j B) = insert ?y (set (take (j - 1) B))" "set (drop (j - 1) B) = insert ?y (set (drop j B))"
    using take_Suc_snoc [OF assms(3) j] drop_pred_Cons [OF assms(3) j] by auto
  have "kf ?y < kf x" if "x \<in> set (drop j B)" for x
    using assms(1) sorted_keys_drop [of kf B "j - 1"] drop_pred_Cons [OF assms(3) j] that by auto
  then have "hd T \<in> set (drop i E)" using assms(2,4,5) by (cases T) (auto simp: merged_def)
  then have "kf ?y \<in> kf ` set E" using assms(5) by (metis imageI in_set_dropD)
  then show ?thesis using assms(2,3) T by (auto simp: merged_def)
qed

lemma merged_end:
  assumes "strictly_sorted (map kf E)" "strictly_sorted (map kf B)" "merged kf E B i 0 T"
  shows "take i E @ T = fold (insKey kf) B E"
proof (rule sorted_keys_unique)
  show "strictly_sorted (map kf (take i E @ T))"
    using assms(1,3) by (auto simp: merged_def sorted_wrt_append sorted_keys_take)
  have "set (take i E) \<union> set (drop i E) = set E" by (metis append_take_drop_id set_append)
  then show "set (take i E @ T) = set (fold (insKey kf) B E)"
    using assms by (auto simp: set_fold_insKey merged_def)
qed (use assms in \<open>auto simp: fold_insKey_sorted\<close>)

section \<open>Correctness\<close>

text \<open>The setting: a well-formed block with elements \<open>E\<close> and a strictly sorted batch \<open>B\<close> that fits.\<close>

definition mfSetting :: "('k::linorder, 'v) tparams \<Rightarrow> ('k, 'v) PmaEntry \<Rightarrow> 'v list \<Rightarrow> nat \<Rightarrow> bool" where
  "mfSetting P b batch n \<longleftrightarrow>
     wfParams P \<and> wfBlock P b \<and> n \<le> length batch \<and> bsize b + n \<le> MaxSize P \<and> MaxSize P \<le> 32768 \<and>
     strictly_sorted (map (keyOfValue P) (take n batch)) \<and> (\<forall>x\<in>set (take n batch). NULL_KEY P < keyOfValue P x) \<and>
     (\<not> NDEBUG P \<longrightarrow> IsTrivialType P \<longrightarrow> (\<forall>c\<in>set (stale b). keyOfValue P c = NULL_KEY P))"

text \<open>The cells during the loops: the rest of the block, a gap, the merged sequence.\<close>

definition mfCells :: "('k, 'v) tparams \<Rightarrow> 'v list \<Rightarrow> nat \<Rightarrow> nat \<Rightarrow> 'v list \<Rightarrow> 'v list \<Rightarrow> bool" where
  "mfCells P E m i T C \<longleftrightarrow>
     length C = MaxSize P \<and> (\<forall>p<i. C ! p = E ! p) \<and> (\<forall>p<length T. C ! (m - length T + p) = T ! p) \<and>
     (\<not> NDEBUG P \<longrightarrow> IsTrivialType P \<longrightarrow>
        (\<forall>p<MaxSize P. i \<le> p \<and> p < m - length T \<or> m \<le> p \<longrightarrow> keyOfValue P (C ! p) = NULL_KEY P))"

definition lastKey :: "('k, 'v) tparams \<Rightarrow> 'v list \<Rightarrow> 'k" where
  "lastKey P T = (case T of [] \<Rightarrow> NULL_KEY P | t # _ \<Rightarrow> keyOfValue P t)"

definition mfInv :: "('k::linorder, 'v) tparams \<Rightarrow> ('k, 'v) PmaEntry \<Rightarrow> 'v list \<Rightarrow> nat \<Rightarrow> nat \<Rightarrow> nat \<Rightarrow> 'v list \<Rightarrow> ('k, 'v) mfState \<Rightarrow> bool" where
  "mfInv P b batch n i j T s \<longleftrightarrow>
     merged (keyOfValue P) (elems b) (take n batch) i j T \<and>
     mfBlockEnd s = int i - 1 \<and> batchEnd s = int j - 1 \<and> mfWriteIndex s = int (bsize b + n - length T) - 1 \<and>
     numberOfWrites s = length T \<and> lastWrittenKey s = lastKey P T \<and> dupl s + length T + i + j = bsize b + n \<and>
     (\<exists>C. mfEntry s = b\<lparr>block := Some C\<rparr> \<and> mfCells P (elems b) (bsize b + n) i T C)"

lemma mfCells_write:
  assumes "mfCells P E m i T C" "length T < m" "m \<le> MaxSize P" "i < m - length T"
  shows "mfCells P E m i (v # T) (C[m - length T - 1 := v])"
  using assms by (auto simp: mfCells_def nth_list_update nth_Cons split: nat.splits)

lemma mfCells_release:
  assumes "mfCells P E m i T C" "0 < i" "i \<le> m - length T" "m \<le> MaxSize P" "wfParams P"
  shows "\<exists>C'. mfCells P E m (i - 1) T C' \<and>
     eraseCell P (b\<lparr>block := Some C\<rparr>) (i - 1) = Some (b\<lparr>block := Some C'\<rparr>)"
proof (cases "NDEBUG P \<or> nullValue P = None")
  case True
  then have "eraseCell P (b\<lparr>block := Some C\<rparr>) (i - 1) = Some (b\<lparr>block := Some C\<rparr>)"
    by (auto simp: eraseCell_def split: option.splits)
  then show ?thesis using assms True by (intro exI [of _ C]) (auto simp: mfCells_def IsTrivialType_def)
next
  case False
  then obtain nv where nv: "nullValue P = Some nv" "\<not> NDEBUG P" by auto
  then have "keyOfValue P nv = NULL_KEY P" using assms(5) by (auto simp: wfParams_def)
  moreover have "eraseCell P (b\<lparr>block := Some C\<rparr>) (i - 1) = Some (b\<lparr>block := Some (C[i - 1 := nv])\<rparr>)"
    using nv assms by (auto simp: eraseCell_def setCell_def mfCells_def)
  ultimately show ?thesis
    using assms by (intro exI [of _ "C[i - 1 := nv]"]) (auto simp: mfCells_def nth_list_update)
qed

lemma mfSettingD:
  assumes "mfSetting P b batch n"
  shows "wfParams P" "wfBlock P b" "okBlock P b" "n \<le> length batch" "bsize b + n \<le> MaxSize P" "MaxSize P \<le> 32768"
    "strictly_sorted (map (keyOfValue P) (take n batch))" "strictly_sorted (map (keyOfValue P) (elems b))"
    "length (elems b) = bsize b"
  using assms by (auto simp: mfSetting_def wfBlock_def keysOf_def)

lemma mfInv_bounds:
  assumes "mfSetting P b batch n" "mfInv P b batch n i j T s"
  shows "i \<le> bsize b" "j \<le> n" "i + j + length T \<le> bsize b + n"
  using assms(2) mfSettingD [OF assms(1)] by (auto simp: mfInv_def merged_def)

text \<open>The accesses of one round.\<close>

lemma mfInv_reads:
  assumes "mfSetting P b batch n" "mfInv P b batch n i j T s"
  shows "0 < i \<Longrightarrow> get (mfEntry s) (u16 (mfBlockEnd s)) = Some (elems b ! (i - 1))"
    "0 < j \<Longrightarrow> idx batch (batchEnd s) = Some (take n batch ! (j - 1))"
    "0 < j \<Longrightarrow> skipEqual P batch (batchEnd s) = Some (batchEnd s)"
    "0 < j \<Longrightarrow> mfAssert P s = Some ()"
proof -
  note d = mfSettingD [OF assms(1)] and bnd = mfInv_bounds [OF assms]
  obtain C where C: "mfEntry s = b\<lparr>block := Some C\<rparr>" "mfCells P (elems b) (bsize b + n) i T C"
    using assms(2) by (auto simp: mfInv_def)
  have ends: "mfBlockEnd s = int i - 1" "batchEnd s = int j - 1" "mfWriteIndex s = int (bsize b + n - length T) - 1"
    using assms(2) by (auto simp: mfInv_def)
  show "get (mfEntry s) (u16 (mfBlockEnd s)) = Some (elems b ! (i - 1))" if "0 < i"
    using that C bnd d by (auto simp: ends get_def mfCells_def nat_diff_distrib)
  show rd: "idx batch (batchEnd s) = Some (take n batch ! (j - 1))" if "0 < j"
    using that bnd d by (auto simp: ends nat_diff_distrib)
  show "skipEqual P batch (batchEnd s) = Some (batchEnd s)" if "0 < j"
  proof (cases "1 < j")
    case True
    have "keyOfValue P (take n batch ! (j - 2)) < keyOfValue P (take n batch ! (j - 1))"
      using sorted_wrt_nth_less [OF d(7), of "j - 2" "j - 1"] True bnd d by simp
    moreover have "idx batch (batchEnd s - 1) = Some (take n batch ! (j - 2))"
      using True bnd d by (auto simp: ends nat_diff_distrib)
    ultimately show ?thesis using rd True by (subst skipEqual.simps) (auto simp: ends)
  next
    case False
    then show ?thesis using that by (subst skipEqual.simps) (auto simp: ends)
  qed
  show "mfAssert P s = Some ()" if "0 < j"
  proof -
    have "cellEmpty P (mfEntry s) (u16 (mfWriteIndex s)) = Some True" if "\<not> NDEBUG P" "IsTrivialType P"
    proof -
      let ?p = "bsize b + n - Suc (length T)"
      have "i \<le> ?p" "?p < bsize b + n - length T" "?p < MaxSize P" using \<open>0 < j\<close> bnd d by auto
      then have "keyOfValue P (C ! ?p) = NULL_KEY P" using C(2) that unfolding mfCells_def by blast
      then show ?thesis
        using \<open>0 < j\<close> C bnd d by (auto simp: cellEmpty_def get_def ends mfCells_def nat_diff_distrib)
    qed
    then show ?thesis using \<open>0 < j\<close> bnd by (auto simp: mfAssert_def ends)
  qed
qed

lemma lastKey_neq_block:
  assumes "mfSetting P b batch n" "mfInv P b batch n i j T s" "0 < i"
  shows "keyOfValue P (elems b ! (i - 1)) \<noteq> lastKey P T"
proof (cases T)
  case Nil
  have "keyOfValue P (elems b ! (i - 1)) \<in> set (keysOf P b)"
    using mfSettingD [OF assms(1)] mfInv_bounds [OF assms(1,2)] assms(3) by (intro key_in_keysOf) auto
  then show ?thesis using Nil assms(1) by (auto simp: lastKey_def mfSetting_def wfBlock_def)
next
  case (Cons t T')
  have "elems b ! (i - 1) \<in> set (take i (elems b))"
    using mfSettingD [OF assms(1)] mfInv_bounds [OF assms(1,2)] assms(3) take_Suc_snoc [of i "elems b"] by auto
  then have "keyOfValue P (elems b ! (i - 1)) < keyOfValue P t"
    using assms(2) Cons unfolding mfInv_def merged_def by (meson list.set_intros(1))
  then show ?thesis using Cons by (simp add: lastKey_def)
qed

text \<open>A write extends the merged sequence to the front.\<close>

lemma mfWrite_ok:
  assumes "mfSetting P b batch n" "mfInv P b batch n i j T s" "0 < j"
  shows "\<exists>C s'. mfWrite P v s = Some s' \<and> mfCells P (elems b) (bsize b + n) i (v # T) C \<and>
     s' = s\<lparr>mfEntry := b\<lparr>block := Some C\<rparr>, numberOfWrites := Suc (length T), lastWrittenKey := keyOfValue P v,
       mfWriteIndex := int (bsize b + n - Suc (length T)) - 1\<rparr>"
proof -
  note d = mfSettingD [OF assms(1)] and bnd = mfInv_bounds [OF assms(1,2)]
  obtain C where C: "mfEntry s = b\<lparr>block := Some C\<rparr>" "mfCells P (elems b) (bsize b + n) i T C"
    using assms(2) by (auto simp: mfInv_def)
  have ends: "mfWriteIndex s = int (bsize b + n - length T) - 1" "numberOfWrites s = length T"
    using assms(2) by (auto simp: mfInv_def)
  have "setCell (mfEntry s) (nat (mfWriteIndex s)) v = Some (b\<lparr>block := Some (C[bsize b + n - length T - 1 := v])\<rparr>)"
    using C bnd d assms(3) by (auto simp: setCell_def mfCells_def ends nat_diff_distrib)
  moreover have "mfCells P (elems b) (bsize b + n) i (v # T) (C[bsize b + n - length T - 1 := v])"
    using C bnd d assms(3) by (intro mfCells_write) auto
  moreover have "s16 (mfWriteIndex s - 1) = int (bsize b + n - Suc (length T)) - 1"
    using bnd d assms(3) by (auto simp: ends)
  moreover have "u16 (int (numberOfWrites s) + 1) = Suc (length T)" using bnd d by (auto simp: ends)
  moreover have "mfWriteIndex s \<ge> 0" using bnd assms(3) by (auto simp: ends)
  ultimately show ?thesis by (auto simp: mfWrite_def)
qed

lemma mfInv_batch:
  assumes "mfSetting P b batch n" "mfInv P b batch n i j T s" "0 < j"
    and "keyOfValue P (take n batch ! (j - 1)) \<noteq> lastKey P T"
    and "0 < i \<Longrightarrow> keyOfValue P (elems b ! (i - 1)) < keyOfValue P (take n batch ! (j - 1))"
  shows "\<exists>s'. mfWrite P (take n batch ! (j - 1)) s = Some s' \<and>
     mfInv P b batch n i (j - 1) (take n batch ! (j - 1) # T) (s'\<lparr>batchEnd := s16 (batchEnd s' - 1)\<rparr>)"
proof -
  note d = mfSettingD [OF assms(1)] and bnd = mfInv_bounds [OF assms(1,2)]
  obtain C s' where w: "mfWrite P (take n batch ! (j - 1)) s = Some s'"
    "mfCells P (elems b) (bsize b + n) i (take n batch ! (j - 1) # T) C"
    "s' = s\<lparr>mfEntry := b\<lparr>block := Some C\<rparr>, numberOfWrites := Suc (length T), lastWrittenKey := keyOfValue P (take n batch ! (j - 1)),
       mfWriteIndex := int (bsize b + n - Suc (length T)) - 1\<rparr>"
    using mfWrite_ok [OF assms(1-3)] by blast
  have "merged (keyOfValue P) (elems b) (take n batch) i (j - 1) (take n batch ! (j - 1) # T)"
    using assms d by (intro merged_batch) (auto simp: mfInv_def lastKey_def split: list.splits)
  moreover have "batchEnd s = int j - 1" using assms(2) by (simp add: mfInv_def)
  ultimately show ?thesis
    using w assms(2,3) bnd d by (auto simp: mfInv_def lastKey_def)
qed

lemma mfInv_skip:
  assumes "mfSetting P b batch n" "mfInv P b batch n i j T s" "0 < j"
    and "keyOfValue P (take n batch ! (j - 1)) = lastKey P T"
  shows "mfInv P b batch n i (j - 1) T (s\<lparr>dupl := dupl s + 1, batchEnd := s16 (batchEnd s - 1)\<rparr>)"
proof -
  note d = mfSettingD [OF assms(1)] and bnd = mfInv_bounds [OF assms(1,2)]
  have "T \<noteq> []"
  proof
    assume "T = []"
    moreover have "take n batch ! (j - 1) \<in> set (take n batch)" using assms(3) bnd d by (intro nth_mem) auto
    ultimately show False using assms(1,4) by (auto simp: lastKey_def mfSetting_def)
  qed
  then have "merged (keyOfValue P) (elems b) (take n batch) i (j - 1) T"
    using assms d by (intro merged_skip) (auto simp: mfInv_def lastKey_def split: list.splits)
  then show ?thesis using assms(2,3) bnd d by (auto simp: mfInv_def)
qed

lemma mfInv_block:
  assumes "mfSetting P b batch n" "mfInv P b batch n i j T s" "0 < i" "0 < j"
    and "keyOfValue P (take n batch ! (j - 1)) \<le> keyOfValue P (elems b ! (i - 1))"
  shows "\<exists>s' b'. mfWrite P (elems b ! (i - 1)) s = Some s' \<and> eraseCell P (mfEntry s') (u16 (mfBlockEnd s')) = Some b' \<and>
     mfInv P b batch n (i - 1) j (elems b ! (i - 1) # T) (s'\<lparr>mfEntry := b', mfBlockEnd := s16 (mfBlockEnd s' - 1)\<rparr>)"
proof -
  note d = mfSettingD [OF assms(1)] and bnd = mfInv_bounds [OF assms(1,2)]
  let ?x = "elems b ! (i - 1)"
  obtain C s' where w: "mfWrite P ?x s = Some s'" "mfCells P (elems b) (bsize b + n) i (?x # T) C"
    "s' = s\<lparr>mfEntry := b\<lparr>block := Some C\<rparr>, numberOfWrites := Suc (length T), lastWrittenKey := keyOfValue P ?x,
       mfWriteIndex := int (bsize b + n - Suc (length T)) - 1\<rparr>"
    using mfWrite_ok [OF assms(1,2,4)] by blast
  have "i \<le> bsize b + n - length (?x # T)" using assms(4) bnd by auto
  then obtain C' where C': "mfCells P (elems b) (bsize b + n) (i - 1) (?x # T) C'"
    "eraseCell P (b\<lparr>block := Some C\<rparr>) (i - 1) = Some (b\<lparr>block := Some C'\<rparr>)"
    using mfCells_release [OF w(2) assms(3) _ d(5,1), of b] by blast
  have m: "merged (keyOfValue P) (elems b) (take n batch) (i - 1) j (?x # T)"
    using assms d by (intro merged_block) (auto simp: mfInv_def)
  have "mfBlockEnd s = int i - 1" using assms(2) by (simp add: mfInv_def)
  moreover have "u16 (int i - 1) = i - 1" using bnd d assms(3) by (auto simp: nat_diff_distrib)
  ultimately show ?thesis
    using w C' m assms(2,3,4) bnd d by (auto simp: mfInv_def lastKey_def)
qed

lemma mfStep_ok:
  assumes "mfSetting P b batch n" "mfInv P b batch n i j T s" "0 < i" "0 < j"
  shows "\<exists>i' j' T' s'. mfStep P batch s = Some s' \<and> mfInv P b batch n i' j' T' s'"
proof -
  let ?x = "elems b ! (i - 1)" and ?y = "take n batch ! (j - 1)"
  note rd = mfInv_reads [OF assms(1,2)]
  have last: "lastWrittenKey s = lastKey P T" using assms(2) by (simp add: mfInv_def)
  consider (batch) "keyOfValue P ?x < keyOfValue P ?y" "keyOfValue P ?y \<noteq> lastKey P T"
    | (skip) "keyOfValue P ?x < keyOfValue P ?y" "keyOfValue P ?y = lastKey P T"
    | (block) "keyOfValue P ?y \<le> keyOfValue P ?x" by force
  then show ?thesis
  proof cases
    case batch
    obtain s' where "mfWrite P ?y s = Some s'" "mfInv P b batch n i (j - 1) (?y # T) (s'\<lparr>batchEnd := s16 (batchEnd s' - 1)\<rparr>)"
      using mfInv_batch [OF assms(1,2,4) batch(2)] batch(1) by blast
    moreover from this have "batchEnd s' = batchEnd s" by (auto dest: mfWrite_frame)
    ultimately show ?thesis using batch rd assms(3,4) last by (auto simp: mfStep_def)
  next
    case skip
    then show ?thesis using mfInv_skip [OF assms(1,2,4) skip(2)] rd assms(3,4) last by (auto simp: mfStep_def)
  next
    case block
    obtain s' b' where "mfWrite P ?x s = Some s'" "eraseCell P (mfEntry s') (u16 (mfBlockEnd s')) = Some b'"
      "mfInv P b batch n (i - 1) j (?x # T) (s'\<lparr>mfEntry := b', mfBlockEnd := s16 (mfBlockEnd s' - 1)\<rparr>)"
      using mfInv_block [OF assms block] by blast
    moreover from this have "mfStep P batch s = Some (s'\<lparr>mfEntry := b', mfBlockEnd := s16 (mfBlockEnd s' - 1)\<rparr>)"
      using lastKey_neq_block [OF assms(1-3)] rd assms(3,4) last leD [OF block] by (simp add: mfStep_def)
    ultimately show ?thesis by blast
  qed
qed

lemma mfLoop_ok:
  "mfSetting P b batch n \<Longrightarrow> mfInv P b batch n i j T s \<Longrightarrow>
   \<exists>i' j' T' s'. mfLoop P batch s = Some s' \<and> mfInv P b batch n i' j' T' s' \<and> (i' = 0 \<or> j' = 0)"
proof (induction P batch s arbitrary: i j T rule: mfLoop.induct)
  case (1 P batch s)
  have ends: "mfBlockEnd s = int i - 1" "batchEnd s = int j - 1" using 1(3) by (auto simp: mfInv_def)
  show ?case
  proof (cases "0 < i \<and> 0 < j")
    case True
    then obtain i' j' T' s' where s': "mfStep P batch s = Some s'" "mfInv P b batch n i' j' T' s'"
      using mfStep_ok [OF 1(2,3)] by blast
    have "\<exists>i' j' T' t. mfLoop P batch s' = Some t \<and> mfInv P b batch n i' j' T' t \<and> (i' = 0 \<or> j' = 0)"
      using 1(1) [OF _ s'(1) 1(2) s'(2)] True ends by simp
    then show ?thesis using True ends s'(1) by (subst mfLoop.simps) auto
  next
    case False
    then show ?thesis using 1(3) ends by (subst mfLoop.simps) auto
  qed
qed

lemma mfRestLoop_ok:
  "mfSetting P b batch n \<Longrightarrow> mfInv P b batch n i j T s \<Longrightarrow> i = 0 \<or> j = 0 \<Longrightarrow>
   \<exists>T' s'. mfRestLoop P batch s = Some s' \<and> mfInv P b batch n i 0 T' s'"
proof (induction P batch s arbitrary: j T rule: mfRestLoop.induct)
  case (1 P batch s)
  have ends: "batchEnd s = int j - 1" "lastWrittenKey s = lastKey P T" using 1(3) by (auto simp: mfInv_def)
  let ?y = "take n batch ! (j - 1)"
  note rd = mfInv_reads [OF 1(2,3)]
  show ?case
  proof (cases "0 < j")
    case True
    define r where "r = (if keyOfValue P ?y \<noteq> lastKey P T then mfWrite P ?y s else Some (s\<lparr>dupl := dupl s + 1\<rparr>))"
    have "\<exists>s' T'. r = Some s' \<and> mfInv P b batch n i (j - 1) T' (s'\<lparr>batchEnd := s16 (batchEnd s' - 1)\<rparr>)"
    proof (cases "keyOfValue P ?y = lastKey P T")
      case True
      then show ?thesis using mfInv_skip [OF 1(2,3) \<open>0 < j\<close> True] by (auto simp: r_def)
    next
      case False
      have "i = 0" using 1(4) \<open>0 < j\<close> by simp
      then show ?thesis using mfInv_batch [OF 1(2,3) \<open>0 < j\<close> False] False by (auto simp: r_def)
    qed
    then obtain s' T' where s': "r = Some s'" "mfInv P b batch n i (j - 1) T' (s'\<lparr>batchEnd := s16 (batchEnd s' - 1)\<rparr>)"
      by blast
    have "mfRestLoop P batch s = mfRestLoop P batch (s'\<lparr>batchEnd := s16 (batchEnd s' - 1)\<rparr>)"
      using True ends rd(2,4) s'(1) by (subst mfRestLoop.simps) (auto simp: r_def)
    moreover have "\<exists>T' t. mfRestLoop P batch (s'\<lparr>batchEnd := s16 (batchEnd s' - 1)\<rparr>) = Some t \<and> mfInv P b batch n i 0 T' t"
      by (rule 1(1) [OF _ _ _ _ 1(2) s'(2)]) (use True ends rd(2,4) s'(1) 1(4) in \<open>auto simp: r_def\<close>)
    ultimately show ?thesis by (metis (no_types))
  next
    case False
    then show ?thesis using 1(3) ends by (subst mfRestLoop.simps) auto
  qed
qed

text \<open>Which elements can be in the cells.\<close>

lemma get_in_cells: "get b i = Some v \<Longrightarrow> v \<in> set (cellsOf b)"
  by (auto simp: get_def cellsOf_def nth_opt_Some_iff bind_eq_Some_conv)

lemma setCell_cells: "setCell b i v = Some b' \<Longrightarrow> set (cellsOf b') \<subseteq> insert v (set (cellsOf b))"
  using set_update_subset_insert by (fastforce simp: setCell_def cellsOf_def upd_opt_Some_iff bind_eq_Some_conv)

lemma eraseCell_cells: "eraseCell P b i = Some b' \<Longrightarrow> set (cellsOf b') \<subseteq> set (cellsOf b) \<union> set_option (nullValue P)"
  using setCell_cells by (fastforce simp: eraseCell_def split: option.splits if_splits)

definition mfCellsIn :: "('k, 'v) tparams \<Rightarrow> 'v list \<Rightarrow> nat \<Rightarrow> 'v set \<Rightarrow> ('k, 'v) mfState \<Rightarrow> bool" where
  "mfCellsIn P batch n X s \<longleftrightarrow> set (cellsOf (mfEntry s)) \<subseteq> X \<and> batchEnd s < int n \<and>
     set (take n batch) \<subseteq> X \<and> set_option (nullValue P) \<subseteq> X"

lemma mfWrite_cells:
  "mfWrite P v s = Some s' \<Longrightarrow> mfCellsIn P batch n X s \<Longrightarrow> v \<in> X \<Longrightarrow> mfCellsIn P batch n X s'"
  by (auto simp: mfWrite_def mfCellsIn_def bind_eq_Some_conv split: if_splits dest!: setCell_cells)

lemma idx_in_take: "idx batch j = Some v \<Longrightarrow> j < int n \<Longrightarrow> v \<in> set (take n batch)"
  by (auto simp: idx_Some_iff in_set_conv_nth intro!: exI [of _ "nat j"])

lemma mfStep_cells:
  assumes "mfStep P batch s = Some s'" "mfCellsIn P batch n X s" "batchEnd s \<ge> 0"
  shows "mfCellsIn P batch n X s'"
proof -
  obtain x y where xy: "get (mfEntry s) (u16 (mfBlockEnd s)) = Some x" "idx batch (batchEnd s) = Some y"
    and st: "(if keyOfValue P x < keyOfValue P y
     then if keyOfValue P y \<noteq> lastWrittenKey s
          then do {
            j \<leftarrow> skipEqual P batch (batchEnd s);
            v \<leftarrow> idx batch j;
            s \<leftarrow> mfWrite P v s;
            Some (s\<lparr>batchEnd := s16 (j - 1)\<rparr>) }
          else Some (s\<lparr>dupl := dupl s + 1, batchEnd := s16 (batchEnd s - 1)\<rparr>)
     else do {
       s \<leftarrow> (if keyOfValue P x \<noteq> lastWrittenKey s then mfWrite P x s else Some (s\<lparr>dupl := dupl s + 1\<rparr>));
       b \<leftarrow> eraseCell P (mfEntry s) (u16 (mfBlockEnd s));
       Some (s\<lparr>mfEntry := b, mfBlockEnd := s16 (mfBlockEnd s - 1)\<rparr>) }) = Some s'"
    using assms(1) by (auto simp: mfStep_def bind_eq_Some_conv)
  have x: "x \<in> X" using get_in_cells [OF xy(1)] assms(2) by (auto simp: mfCellsIn_def)
  have n: "batchEnd s < int n" using assms(2) by (simp add: mfCellsIn_def)
  consider (batch) j v t where "skipEqual P batch (batchEnd s) = Some j" "idx batch j = Some v" "mfWrite P v s = Some t" "s' = t\<lparr>batchEnd := s16 (j - 1)\<rparr>"
    | (skip) "s' = s\<lparr>dupl := dupl s + 1, batchEnd := s16 (batchEnd s - 1)\<rparr>"
    | (block) t b where "(if keyOfValue P x \<noteq> lastWrittenKey s then mfWrite P x s else Some (s\<lparr>dupl := dupl s + 1\<rparr>)) = Some t"
        "eraseCell P (mfEntry t) (u16 (mfBlockEnd t)) = Some b" "s' = t\<lparr>mfEntry := b, mfBlockEnd := s16 (mfBlockEnd t - 1)\<rparr>"
    using st by (cases "keyOfValue P x < keyOfValue P y"; cases "keyOfValue P y = lastWrittenKey s"; cases "keyOfValue P x = lastWrittenKey s") (auto simp: bind_eq_Some_conv)
  then show ?thesis
  proof cases
    case batch
    have j: "0 \<le> j" "j \<le> batchEnd s" using batch(2) skipEqual_le [OF batch(1)] by (auto simp: idx_Some_iff)
    have "v \<in> X" using idx_in_take [OF batch(2), of n] j n assms(2) by (auto simp: mfCellsIn_def)
    then show ?thesis using mfWrite_cells [OF batch(3) assms(2)] batch(4) j n s16_pred [of j] by (simp add: mfCellsIn_def)
  next
    case skip
    then show ?thesis using assms(2,3) s16_pred [of "batchEnd s"] by (simp add: mfCellsIn_def)
  next
    case block
    have "mfCellsIn P batch n X t" using block(1) mfWrite_cells [OF _ assms(2) x] assms(2) by (auto simp: mfCellsIn_def split: if_splits)
    then show ?thesis using eraseCell_cells [OF block(2)] block(3) by (auto simp: mfCellsIn_def)
  qed
qed

lemma mfLoop_cells: "mfLoop P batch s = Some t \<Longrightarrow> mfCellsIn P batch n X s \<Longrightarrow> mfCellsIn P batch n X t"
proof (induction P batch s rule: mfLoop.induct)
  case (1 P batch s)
  show ?case
  proof (cases "mfBlockEnd s \<ge> 0 \<and> batchEnd s \<ge> 0")
    case True
    then obtain u where u: "mfStep P batch s = Some u" "mfLoop P batch u = Some t"
      using 1(2) by (subst (asm) mfLoop.simps) (auto simp: bind_eq_Some_conv)
    then show ?thesis using 1(1) [OF True u mfStep_cells [OF u(1) 1(3)]] True by blast
  next
    case False
    then show ?thesis using 1(2,3) by (subst (asm) mfLoop.simps) auto
  qed
qed

lemma mfRestLoop_cells: "mfRestLoop P batch s = Some t \<Longrightarrow> mfCellsIn P batch n X s \<Longrightarrow> mfCellsIn P batch n X t"
proof (induction P batch s rule: mfRestLoop.induct)
  case (1 P batch s)
  show ?case
  proof (cases "batchEnd s \<ge> 0")
    case True
    obtain y u where u: "mfAssert P s = Some ()" "idx batch (batchEnd s) = Some y"
      "(if keyOfValue P y \<noteq> lastWrittenKey s then mfWrite P y s else Some (s\<lparr>dupl := dupl s + 1\<rparr>)) = Some u"
      "mfRestLoop P batch (u\<lparr>batchEnd := s16 (batchEnd u - 1)\<rparr>) = Some t"
      using 1(2) True by (subst (asm) mfRestLoop.simps) (auto simp: bind_eq_Some_conv)
    have "y \<in> X" using idx_in_take [OF u(2), of n] 1(3) by (auto simp: mfCellsIn_def)
    then have "mfCellsIn P batch n X u" using mfWrite_cells [OF _ 1(3)] u(3) 1(3) by (auto simp: mfCellsIn_def split: if_splits)
    moreover have "batchEnd u = batchEnd s" using u(3) by (auto split: if_splits dest: mfWrite_frame)
    ultimately have "mfCellsIn P batch n X (u\<lparr>batchEnd := s16 (batchEnd u - 1)\<rparr>)"
      using True s16_pred [of "batchEnd s"] by (simp add: mfCellsIn_def)
    then show ?thesis using 1(1) [OF True u(1,2,3,4)] by blast
  next
    case False
    then show ?thesis using 1(2,3) by (subst (asm) mfRestLoop.simps) auto
  qed
qed

lemma mfShift_cells:
  assumes "mfShift P zeroKey i d w b = Some b'" "set (cellsOf b) \<subseteq> X" "set_option (nullValue P) \<subseteq> X"
  shows "set (cellsOf b') \<subseteq> X"
proof -
  have "set (cellsOf b') \<subseteq> X" if "foldM (\<lambda>q b. do {
        v \<leftarrow> get b (u16 (int (i + q + d)));
        assertMsg (NDEBUG P) (keyOfValue P v \<noteq> zeroKey);
        b \<leftarrow> setCell b (i + q) v;
        eraseCell P b (i + q + d) }) qs b = Some b'" "set (cellsOf b) \<subseteq> X" for qs b
    using that
  proof (induction qs arbitrary: b)
    case (Cons q qs)
    obtain v b1 b2 where s: "get b (u16 (int (i + q + d))) = Some v" "setCell b (i + q) v = Some b1" "eraseCell P b1 (i + q + d) = Some b2"
      and r: "foldM (\<lambda>q b. do {
        v \<leftarrow> get b (u16 (int (i + q + d)));
        assertMsg (NDEBUG P) (keyOfValue P v \<noteq> zeroKey);
        b \<leftarrow> setCell b (i + q) v;
        eraseCell P b (i + q + d) }) qs b2 = Some b'"
      using Cons.prems(1) by (auto simp: bind_eq_Some_conv)
    have "set (cellsOf b2) \<subseteq> X"
      using get_in_cells [OF s(1)] setCell_cells [OF s(2)] eraseCell_cells [OF s(3)] Cons.prems(2) assms(3) by blast
    then show ?case by (rule Cons.IH [OF r])
  qed simp
  then show ?thesis using assms unfolding mfShift_def by blast
qed

text \<open>Closing the gap of \<open>d\<close> cells between the rest of the block and the merged sequence.\<close>

definition shiftInv :: "('k, 'v) tparams \<Rightarrow> ('k, 'v) PmaEntry \<Rightarrow> 'v list \<Rightarrow> nat \<Rightarrow> nat \<Rightarrow> 'v list \<Rightarrow> nat \<Rightarrow> ('k, 'v) PmaEntry \<Rightarrow> bool" where
  "shiftInv P b E i d T q b' \<longleftrightarrow>
     (\<exists>C. b' = b\<lparr>block := Some C\<rparr> \<and> length C = MaxSize P \<and> (\<forall>p<i. C ! p = E ! p) \<and> (\<forall>p<q. C ! (i + p) = T ! p) \<and>
        (\<forall>p. q \<le> p \<and> p < length T \<longrightarrow> C ! (i + d + p) = T ! p) \<and>
        (\<not> NDEBUG P \<longrightarrow> IsTrivialType P \<longrightarrow>
           (\<forall>p<MaxSize P. i + q \<le> p \<and> p < i + d + q \<or> i + d + length T \<le> p \<longrightarrow> keyOfValue P (C ! p) = NULL_KEY P)))"

lemma shiftInv_step:
  assumes "shiftInv P b E i d T q b'" "q < length T" "0 < d" "i + d + length T \<le> MaxSize P" "MaxSize P < 65536"
    and "keyOfValue P (T ! q) \<noteq> zeroKey" "wfParams P"
  shows "\<exists>b''. (do {
        v \<leftarrow> get b' (u16 (int (i + q + d)));
        assertMsg (NDEBUG P) (keyOfValue P v \<noteq> zeroKey);
        b \<leftarrow> setCell b' (i + q) v;
        eraseCell P b (i + q + d) }) = Some b'' \<and> shiftInv P b E i d T (Suc q) b''"
proof -
  obtain C where C: "b' = b\<lparr>block := Some C\<rparr>" "length C = MaxSize P" "\<forall>p<i. C ! p = E ! p" "\<forall>p<q. C ! (i + p) = T ! p"
    "\<forall>p. q \<le> p \<and> p < length T \<longrightarrow> C ! (i + d + p) = T ! p"
    "\<not> NDEBUG P \<longrightarrow> IsTrivialType P \<longrightarrow>
           (\<forall>p<MaxSize P. i + q \<le> p \<and> p < i + d + q \<or> i + d + length T \<le> p \<longrightarrow> keyOfValue P (C ! p) = NULL_KEY P)"
    using assms(1) by (auto simp: shiftInv_def)
  have "C ! (i + d + q) = T ! q" using C(5) assms(2) by blast
  moreover have "u16 (int (i + q + d)) = i + d + q" using assms(2-5) by (subst u16_id) auto
  ultimately have rd: "get b' (u16 (int (i + q + d))) = Some (T ! q)" using C assms(2-5) by (simp add: get_def)
  have wr: "setCell b' (i + q) (T ! q) = Some (b\<lparr>block := Some (C[i + q := T ! q])\<rparr>)"
    using C assms(2-5) by (simp add: setCell_def)
  have "\<exists>C'. eraseCell P (b\<lparr>block := Some (C[i + q := T ! q])\<rparr>) (i + q + d) = Some (b\<lparr>block := Some C'\<rparr>) \<and>
     ((NDEBUG P \<or> \<not> IsTrivialType P) \<and> C' = C[i + q := T ! q] \<or>
      (\<exists>nv. keyOfValue P nv = NULL_KEY P \<and> C' = C[i + q := T ! q, i + q + d := nv]))"
  proof (cases "NDEBUG P \<or> \<not> IsTrivialType P")
    case True
    then show ?thesis by (auto simp: eraseCell_def IsTrivialType_def split: option.split)
  next
    case False
    then obtain nv where "nullValue P = Some nv" "keyOfValue P nv = NULL_KEY P" using assms(7) by (auto simp: IsTrivialType_def wfParams_def)
    then show ?thesis using False C(1,2) assms(2-5)
      by (intro exI [of _ "C[i + q := T ! q, i + q + d := nv]"]) (auto simp: eraseCell_def setCell_def)
  qed
  then obtain C' where C': "eraseCell P (b\<lparr>block := Some (C[i + q := T ! q])\<rparr>) (i + q + d) = Some (b\<lparr>block := Some C'\<rparr>)"
    "(NDEBUG P \<or> \<not> IsTrivialType P) \<and> C' = C[i + q := T ! q] \<or>
     (\<exists>nv. keyOfValue P nv = NULL_KEY P \<and> C' = C[i + q := T ! q, i + q + d := nv])" by blast
  have "shiftInv P b E i d T (Suc q) (b\<lparr>block := Some C'\<rparr>)"
    using C C'(2) assms(2-4) by (auto simp: shiftInv_def nth_list_update less_Suc_eq)
  then show ?thesis using rd wr C'(1) assms(6) by simp
qed

lemma mfShift_ok:
  assumes "shiftInv P b E i d T 0 b'" "0 < d" "i + d + length T \<le> MaxSize P" "MaxSize P < 65536"
    and "\<forall>t\<in>set T. keyOfValue P t \<noteq> zeroKey" "wfParams P"
  shows "\<exists>b''. mfShift P zeroKey i d (length T) b' = Some b'' \<and> shiftInv P b E i d T (length T) b''"
proof -
  have "\<exists>b''. mfShift P zeroKey i d (length T) b' = Some b'' \<and> shiftInv P b E i d T (length [0..<length T]) b''"
    unfolding mfShift_def
  proof (rule foldM_inv)
    fix q c assume "q < length [0..<length T]" "shiftInv P b E i d T q c"
    then show "\<exists>t. (do {
        v \<leftarrow> get c (u16 (int (i + [0..<length T] ! q + d)));
        assertMsg (NDEBUG P) (keyOfValue P v \<noteq> zeroKey);
        b \<leftarrow> setCell c (i + [0..<length T] ! q) v;
        eraseCell P b (i + [0..<length T] ! q + d) }) = Some t \<and> shiftInv P b E i d T (Suc q) t"
      using shiftInv_step [of P b E i d T q c zeroKey] assms by simp
  qed (rule assms(1))
  then show ?thesis by simp
qed

lemma mfLoops_ok:
  assumes set: "mfSetting P b batch n"
  shows "\<exists>s1 s i T. mfLoop P batch \<lparr>mfEntry = b, mfBlockEnd = s16 (int (bsize b) - 1), batchEnd = s16 (int n - 1),
       mfWriteIndex = s16 (int (bsize b) + int n - 1), lastWrittenKey = NULL_KEY P, numberOfWrites = 0, dupl = 0\<rparr> = Some s1 \<and>
     mfRestLoop P batch s1 = Some s \<and> mfInv P b batch n i 0 T s"
proof -
  note d = mfSettingD [OF set]
  have "keyOfValue P (cellsOf b ! p) = NULL_KEY P"
    if "\<not> NDEBUG P" "IsTrivialType P" "bsize b \<le> p" "p < MaxSize P" for p
  proof -
    have "cellsOf b ! p \<in> set (stale b)"
      using that okBlockD [OF d(3)] by (auto simp: stale_def in_set_conv_nth intro!: exI [of _ "p - bsize b"])
    then show ?thesis using set that by (simp add: mfSetting_def)
  qed
  then have "mfCells P (elems b) (bsize b + n) (bsize b) [] (cellsOf b)"
    using okBlockD [OF d(3)] by (auto simp: mfCells_def elems_def)
  then have "mfInv P b batch n (bsize b) n [] \<lparr>mfEntry = b, mfBlockEnd = s16 (int (bsize b) - 1), batchEnd = s16 (int n - 1),
       mfWriteIndex = s16 (int (bsize b) + int n - 1), lastWrittenKey = NULL_KEY P, numberOfWrites = 0, dupl = 0\<rparr>"
    using merged_start [of "keyOfValue P" "elems b" "take n batch"] d okBlockD [OF d(3)]
    by (auto simp: mfInv_def lastKey_def block_self intro!: exI [of _ "cellsOf b"])
  then show ?thesis using mfLoop_ok [OF set] mfRestLoop_ok [OF set] by meson
qed

lemma mfClose_ok:
  assumes set: "mfSetting P b batch n" and z: "\<forall>x\<in>set (elems b) \<union> set (take n batch). keyOfValue P x \<noteq> zeroKey"
    and inv: "mfInv P b batch n i 0 T s" and D: "D = bsize b + n - i - length T"
  shows "\<exists>C. (if 0 < D then mfShift P zeroKey i D (length T) (mfEntry s) else Some (mfEntry s)) = Some (b\<lparr>block := Some C\<rparr>) \<and>
     length C = MaxSize P \<and> take (i + length T) C = fold (insKey (keyOfValue P)) (take n batch) (elems b) \<and>
     (\<not> NDEBUG P \<longrightarrow> IsTrivialType P \<longrightarrow> (\<forall>p<MaxSize P. i + length T \<le> p \<longrightarrow> keyOfValue P (C ! p) = NULL_KEY P))"
proof -
  note d = mfSettingD [OF set] and bnd = mfInv_bounds [OF set inv]
  obtain C where C: "mfEntry s = b\<lparr>block := Some C\<rparr>" "mfCells P (elems b) (bsize b + n) i T C"
    and mg: "merged (keyOfValue P) (elems b) (take n batch) i 0 T" using inv by (auto simp: mfInv_def)
  have T: "\<forall>t\<in>set T. keyOfValue P t \<noteq> zeroKey"
    using z mg by (auto simp: merged_def dest: in_set_dropD)
  have cells: "take (i + length T) C' = fold (insKey (keyOfValue P)) (take n batch) (elems b)"
    if "length C' = MaxSize P" "\<forall>p<i. C' ! p = elems b ! p" "\<forall>p<length T. C' ! (i + p) = T ! p" for C'
  proof -
    have "C' ! p = T ! (p - i)" if "\<not> p < i" "p < i + length T" for p
      using \<open>\<forall>p<length T. C' ! (i + p) = T ! p\<close> [rule_format, of "p - i"] that by simp
    then have "take (i + length T) C' = take i (elems b) @ T"
      using that bnd d by (intro nth_equalityI) (auto simp: nth_append)
    then show ?thesis using merged_end [OF d(8,7) mg] by simp
  qed
  show ?thesis
  proof (cases "0 < D")
    case True
    have "shiftInv P b (elems b) i D T 0 (mfEntry s)" using C bnd by (auto simp: shiftInv_def mfCells_def D)
    then obtain b'' where "mfShift P zeroKey i D (length T) (mfEntry s) = Some b''" "shiftInv P b (elems b) i D T (length T) b''"
      using mfShift_ok [OF _ True _ _ T d(1), of b "elems b" i "mfEntry s"] bnd d D by auto
    moreover from this(2) obtain C' where C': "b'' = b\<lparr>block := Some C'\<rparr>" "length C' = MaxSize P"
      "\<forall>p<i. C' ! p = elems b ! p" "\<forall>p<length T. C' ! (i + p) = T ! p"
      "\<not> NDEBUG P \<longrightarrow> IsTrivialType P \<longrightarrow>
         (\<forall>p<MaxSize P. i + length T \<le> p \<and> p < i + D + length T \<or> i + D + length T \<le> p \<longrightarrow> keyOfValue P (C' ! p) = NULL_KEY P)"
      by (auto simp: shiftInv_def)
    moreover have "keyOfValue P (C' ! p) = NULL_KEY P" if "\<not> NDEBUG P" "IsTrivialType P" "p < MaxSize P" "i + length T \<le> p" for p
      using C'(5) that by (meson not_le)
    ultimately show ?thesis using True cells [of C'] by auto
  next
    case False
    then have "bsize b + n - length T = i" using bnd D by simp
    then show ?thesis using C False cells [of C] bnd by (auto simp: mfCells_def)
  qed
qed

lemma mergeFaster_ok:
  assumes set: "mfSetting P b batch n" and z: "\<forall>x\<in>set (elems b) \<union> set (take n batch). keyOfValue P x \<noteq> zeroKey"
  shows "\<exists>b'. mergeFaster P zeroKey b batch n = Some b' \<and> wfBlock P b' \<and>
     elems b' = fold (insKey (keyOfValue P)) (take n batch) (elems b) \<and> nullStale P b' \<and>
     staleKeys P b' \<subseteq> staleKeys P b \<union> {NULL_KEY P} \<union> keyOfValue P ` set (elems b')"
proof -
  note d = mfSettingD [OF set]
  let ?R = "fold (insKey (keyOfValue P)) (take n batch) (elems b)"
  obtain s1 s i T where run: "mfLoop P batch \<lparr>mfEntry = b, mfBlockEnd = s16 (int (bsize b) - 1), batchEnd = s16 (int n - 1),
       mfWriteIndex = s16 (int (bsize b) + int n - 1), lastWrittenKey = NULL_KEY P, numberOfWrites = 0, dupl = 0\<rparr> = Some s1"
    "mfRestLoop P batch s1 = Some s" and inv: "mfInv P b batch n i 0 T s" using mfLoops_ok [OF set] by blast
  note bnd = mfInv_bounds [OF set inv]
  define D where "D = bsize b + n - i - length T"
  obtain C where C: "(if 0 < D then mfShift P zeroKey i D (length T) (mfEntry s) else Some (mfEntry s)) = Some (b\<lparr>block := Some C\<rparr>)"
    "length C = MaxSize P" "take (i + length T) C = ?R"
    "\<not> NDEBUG P \<longrightarrow> IsTrivialType P \<longrightarrow> (\<forall>p<MaxSize P. i + length T \<le> p \<longrightarrow> keyOfValue P (C ! p) = NULL_KEY P)"
    using mfClose_ok [OF set z inv D_def] by blast
  have ends: "mfBlockEnd s = int i - 1" "mfWriteIndex s = int (bsize b + n - length T) - 1" "numberOfWrites s = length T"
    "lastWrittenKey s = lastKey P T" "dupl s = D"
    using inv bnd by (auto simp: mfInv_def D_def)
  have nodup: "endsWithDuplicate P s = Some False"
    using lastKey_neq_block [OF set inv] mfInv_reads(1) [OF set inv] by (auto simp: endsWithDuplicate_def ends)
  define b1 where "b1 = b\<lparr>block := Some C, bsize := i + length T\<rparr>"
  have "u16 (int i) = i" "u16 (int (bsize b) + int n - int i - int (length T)) = D"
    "u16 (int (bsize b) + int n - int D) = i + length T"
    using bnd d by (auto simp: D_def)
  moreover have "(if mfWriteIndex s \<ge> int i then s16 (mfWriteIndex s - int D) else mfWriteIndex s) = int i - 1"
    using bnd d by (auto simp: D_def ends)
  ultimately have eq: "mergeFaster P zeroKey b batch n = do {
      b' \<leftarrow> (if i = 0 then updateHead P b1 else Some b1); assertHead P b'; Some b' }"
    using run nodup C(1) d(3) by (simp add: mergeFaster_def ends Let_def b1_def okBlockD cong: if_cong)
  have ok1: "okBlock P b1" and el: "elems b1 = ?R" using C bnd d by (auto simp: b1_def)
  have srt: "strictly_sorted (keysOf P b1)" by (simp add: keysOf_def el fold_insKey_sorted d(8))
  have "nullStale P b1"
    using C(2,4) by (auto simp: nullStale_def staleKeys_def b1_def IsTrivialType_def in_set_conv_nth)
  moreover have "staleKeys P b1 \<subseteq> staleKeys P b \<union> {NULL_KEY P} \<union> keyOfValue P ` set (elems b1)"
  proof -
    let ?X = "set (cellsOf b) \<union> set (take n batch) \<union> set_option (nullValue P)"
    have "mfCellsIn P batch n ?X s"
      by (rule mfRestLoop_cells [OF run(2) mfLoop_cells [OF run(1)]]) (use d in \<open>auto simp: mfCellsIn_def\<close>)
    then have "set C \<subseteq> ?X"
      using C(1) mfShift_cells [of P zeroKey i D "length T" "mfEntry s" "b\<lparr>block := Some C\<rparr>" ?X]
      by (auto simp: mfCellsIn_def cellsOf_def split: if_splits)
    then have "set (stale b1) \<subseteq> ?X" by (auto simp: b1_def dest: in_set_dropD)
    moreover have "set (cellsOf b) = set (elems b) \<union> set (stale b)" by (simp add: elems_def stale_def flip: set_append)
    moreover have "keyOfValue P ` set (elems b1) = keyOfValue P ` (set (elems b) \<union> set (take n batch))"
      by (simp add: el keys_fold_insKey image_Un Un_commute)
    ultimately show ?thesis using nullValue_keys [OF d(1)] by (fastforce simp: staleKeys_def)
  qed
  ultimately have st: "nullStale P (b1\<lparr>head := h\<rparr>) \<and> staleKeys P (b1\<lparr>head := h\<rparr>) \<subseteq> staleKeys P b \<union> {NULL_KEY P} \<union> keyOfValue P ` set (elems b1)" for h
    by (simp add: nullStale_def staleKeys_def stale_def cellsOf_def)
  have pos: "\<forall>k\<in>set (keysOf P b1). NULL_KEY P < k"
    using set by (auto simp: keysOf_def el set_fold_insKey [OF d(8,7)] mfSetting_def wfBlock_def)
  show ?thesis
  proof (cases "i = 0")
    case True
    obtain h where "updateHead P b1 = Some (b1\<lparr>head := h\<rparr>)" "wfBlock P (b1\<lparr>head := h\<rparr>)"
      using updateHead_wf [OF d(1) ok1 srt pos] by blast
    then show ?thesis using True el eq st [of h] by simp
  next
    case False
    have mg: "merged (keyOfValue P) (elems b) (take n batch) i 0 T" using inv by (simp add: mfInv_def)
    have ne: "elems b \<noteq> []" "take i (elems b) \<noteq> []" using False bnd d(9) by auto
    have "hd (take i (elems b) @ T) = hd (elems b)" "take i (elems b) @ T \<noteq> []" using ne False by (auto simp: hd_append hd_take)
    then have "hd ?R = hd (elems b)" "?R \<noteq> []" unfolding merged_end [OF d(8,7) mg] by auto
    then have "wfBlock P b1"
      using ok1 srt pos el d(2,9) ne(1) by (simp add: wfBlock_def keysOf_def hd_map)
        (cases "elems b"; auto simp: b1_def)
    then show ?thesis using False el eq st [of "head b1"] by simp
  qed
qed

text \<open>C17. \<open>mergeFaster\<close> and \<open>merge\<close> give well-formed blocks with the same elements, without a failed assertion, for every sorted batch without duplicate
  keys that fits into the block, when the unused cells cannot be mistaken for elements: a key of the batch that stands in an unused cell also belongs to an element of the block,
  unused cells of trivial types are null in debug builds, and no element has the key 0, which an assertion of \<open>mergeFaster\<close> excludes.\<close>

theorem mergeFaster_equals_merge:
  assumes "mfSetting P b batch n" "0 < n"
    and "\<forall>x\<in>set (take n batch). staleOk P b (keyOfValue P x)"
    and "\<forall>x\<in>set (elems b) \<union> set (take n batch). keyOfValue P x \<noteq> zeroKey"
  shows "\<exists>b1 b2. merge P b (take n batch) n = Some b1 \<and> mergeFaster P zeroKey b batch n = Some b2 \<and>
     wfBlock P b1 \<and> wfBlock P b2 \<and> elems b1 = elems b2"
proof -
  note d = mfSettingD [OF assms(1)]
  have "\<exists>b'. merge P b (take n batch) n = Some b' \<and> wfBlock P b' \<and>
     elems b' = fold (insKey (keyOfValue P)) (take n batch) (elems b)"
    using merge_ok [of P b n "take n batch"] assms d by (auto simp: mfSetting_def strict_sorted_iff)
  then show ?thesis using mergeFaster_ok [OF assms(1,4)] by auto
qed

theorem mergeFaster_equals_merge_witness:
  "\<exists>b1 b2. merge (demoParams False) (demoBlock [3, 7]) [3, 5] 2 = Some b1 \<and>
     mergeFaster (demoParams False) 0 (demoBlock [3, 7]) [3, 5] 2 = Some b2 \<and>
     wfBlock (demoParams False) b1 \<and> wfBlock (demoParams False) b2 \<and> elems b1 = elems b2"
proof -
  have "mfSetting (demoParams False) (demoBlock [3, 7]) [3, 5] 2"
    by (simp add: mfSetting_def) (simp add: demoBlock_def stale_def cellsOf_def)
  then show ?thesis
    using mergeFaster_equals_merge [of "demoParams False" "demoBlock [3, 7]" "[3, 5]" 2 0] by simp
qed

end
