(* ===== verification/Overallocated_Block.thy ===== *)
theory Overallocated_Block
  imports Merge_Faster
begin

text \<open>
  The blocks of the overallocated array: class \<open>OverallocatedPmaEntry\<close> of \<open>dataStructures/overallocatedBlock.hpp\<close>.
  It has the text of \<open>PmaEntry\<close> (theory \<open>Block\<close>, whose definitions the array uses for all functions with the same
  text) except that \<open>split\<close>, \<open>remove\<close>, \<open>mergeSmaller\<close>, \<open>steal\<close>, \<open>stealFromSmaller\<close> and \<open>removeLast\<close> do not assert the
  head. These six are translated here and agree with the checked versions wherever those return.
\<close>

section \<open>Member functions without the head assertion\<close>

definition oaSplit ::
  "('k, 'v) tparams \<Rightarrow> ('k, 'v) PmaEntry \<Rightarrow> (('k, 'v) PmaEntry \<times> ('k, 'v) PmaEntry) option" where
  "oaSplit P b = do {
     assertMsg (NDEBUG P) (block b \<noteq> None);
     assertMsg (NDEBUG P) (bsize b = MaxSize P);
     rightHalf \<leftarrow> allocateBlock P (emptyEntry P);
     let splitPosition = MaxSize P div 2;
     cells \<leftarrow> block b;
     rcells \<leftarrow> block rightHalf;
     rcells \<leftarrow> copyCells cells splitPosition (MaxSize P - splitPosition) rcells 0;
     b \<leftarrow> eraseCells P splitPosition (MaxSize P) b;
     let b = b\<lparr>bsize := splitPosition\<rparr>;
     rightHalf \<leftarrow> updateHead P (rightHalf\<lparr>block := Some rcells, bsize := splitPosition\<rparr>);
     assertHead P b;
     Some (b, rightHalf) }"

definition oaRemove ::
  "('k::linorder, 'v) tparams \<Rightarrow> ('k, 'v) PmaEntry \<Rightarrow> 'v \<Rightarrow> (bool \<times> ('k, 'v) PmaEntry) option" where
  "oaRemove P b e = do {
     assertMsg (NDEBUG P) (block b \<noteq> None);
     pos \<leftarrow> linearSearch P b (keyOfValue P e) 0;
     found \<leftarrow> (if pos < bsize b
               then do { v \<leftarrow> get b pos; Some (keyOfValue P v = keyOfValue P e) } else Some False);
     if found
     then do {
       b \<leftarrow> moveForward P b pos;
       b \<leftarrow> updateHead P (b\<lparr>bsize := bsize b - 1\<rparr>);
       Some (True, b) }
     else Some (False, b) }"

definition oaMergeSmaller ::
  "('k, 'v) tparams \<Rightarrow> ('k, 'v) PmaEntry \<Rightarrow> ('k, 'v) PmaEntry \<Rightarrow> ('k, 'v) PmaEntry option" where
  "oaMergeSmaller P b other = do {
     assertMsg (NDEBUG P) (block b \<noteq> None);
     assertMsg (NDEBUG P) (block other \<noteq> None);
     b \<leftarrow> shiftBack P (bsize other) (bsize b) b;
     b \<leftarrow> foldM (\<lambda>i b. do { v \<leftarrow> get other i; setCell b i v }) [0..<bsize other] b;
     b \<leftarrow> updateHead P (b\<lparr>bsize := u16 (int (bsize b) + int (bsize other))\<rparr>);
     Some b }"

definition oaSteal ::
  "('k, 'v) tparams \<Rightarrow> ('k, 'v) PmaEntry \<Rightarrow> ('k, 'v) PmaEntry \<Rightarrow>
     (('k, 'v) PmaEntry \<times> ('k, 'v) PmaEntry) option" where
  "oaSteal P b right = do {
     assertMsg (NDEBUG P) (block b \<noteq> None);
     assertMsg (NDEBUG P) (block right \<noteq> None);
     assertMsg (NDEBUG P) (bsize b > 0);
     assertMsg (NDEBUG P) (bsize b + bsize right \<ge> 2 * MinSize P);
     let needed = u16 (int (MinSize P) - int (bsize b));
     cells \<leftarrow> block b;
     rcells \<leftarrow> block right;
     cells \<leftarrow> copyCells rcells 0 needed cells (bsize b);
     right \<leftarrow> eraseCells P 0 needed right;
     let b = b\<lparr>block := Some cells, bsize := u16 (int (bsize b) + int needed)\<rparr>;
     rcells \<leftarrow> block right;
     rcells \<leftarrow> (if needed \<le> bsize right
                then copyCells rcells needed (bsize right - needed) rcells 0 else None);
     right \<leftarrow> eraseCells P (bsize right - needed) (bsize right) (right\<lparr>block := Some rcells\<rparr>);
     let right = right\<lparr>bsize := bsize right - needed\<rparr>;
     assertMsg (NDEBUG P) (bsize b \<ge> MinSize P);
     assertMsg (NDEBUG P) (bsize right \<ge> MinSize P);
     right \<leftarrow> updateHead P right;
     Some (b, right) }"

definition oaStealFromSmaller ::
  "('k, 'v) tparams \<Rightarrow> ('k, 'v) PmaEntry \<Rightarrow> ('k, 'v) PmaEntry \<Rightarrow>
     (('k, 'v) PmaEntry \<times> ('k, 'v) PmaEntry) option" where
  "oaStealFromSmaller P b left = do {
     assertMsg (NDEBUG P) (block b \<noteq> None);
     assertMsg (NDEBUG P) (block left \<noteq> None);
     assertMsg (NDEBUG P) (bsize b > 0);
     assertMsg (NDEBUG P) (bsize b + bsize left \<ge> 2 * MinSize P);
     let needed = u16 (int (MinSize P) - int (bsize b));
     cells \<leftarrow> block b;
     cells \<leftarrow> copyCells cells 0 (bsize b) cells needed;
     b \<leftarrow> eraseCells P 0 needed (b\<lparr>block := Some cells\<rparr>);
     cells \<leftarrow> block b;
     lcells \<leftarrow> block left;
     cells \<leftarrow> (if needed \<le> bsize left
               then copyCells lcells (bsize left - needed) needed cells 0 else None);
     left \<leftarrow> eraseCells P (bsize left - needed) (bsize left) left;
     let b = b\<lparr>block := Some cells, bsize := u16 (int (bsize b) + int needed)\<rparr>;
     let left = left\<lparr>bsize := bsize left - needed\<rparr>;
     assertMsg (NDEBUG P) (bsize b \<ge> MinSize P);
     assertMsg (NDEBUG P) (bsize left \<ge> MinSize P);
     b \<leftarrow> updateHead P b;
     Some (b, left) }"

definition oaRemoveLast :: "('k, 'v) tparams \<Rightarrow> ('k, 'v) PmaEntry \<Rightarrow> ('k, 'v) PmaEntry option" where
  "oaRemoveLast P b = do {
     b \<leftarrow> eraseCell P b (u16 (int (bsize b) - 1));
     let b = b\<lparr>bsize := u16 (int (bsize b) - 1)\<rparr>;
     Some b }"

section \<open>Agreement with the asserting versions\<close>

lemma oaSplit_eq: "split P b = Some r \<Longrightarrow> oaSplit P b = Some r"
  by (auto simp: split_def oaSplit_def bind_eq_Some_conv)

lemma oaMergeSmaller_eq: "mergeSmaller P b c = Some r \<Longrightarrow> oaMergeSmaller P b c = Some r"
  by (auto simp: mergeSmaller_def oaMergeSmaller_def bind_eq_Some_conv)

lemma oaRemoveLast_eq: "removeLast P b = Some r \<Longrightarrow> oaRemoveLast P b = Some r"
  by (auto simp: removeLast_def oaRemoveLast_def Let_def bind_eq_Some_conv)

lemma oaSteal_eq: "steal P b c = Some r \<Longrightarrow> oaSteal P b c = Some r"
  unfolding steal_def oaSteal_def Let_def by (auto simp: bind_eq_Some_conv split: if_splits)

lemma oaStealFromSmaller_eq: "stealFromSmaller P b c = Some r \<Longrightarrow> oaStealFromSmaller P b c = Some r"
  unfolding stealFromSmaller_def oaStealFromSmaller_def Let_def by (auto simp: bind_eq_Some_conv split: if_splits)

lemma oaRemove_eq: "remove P b e = Some r \<Longrightarrow> oaRemove P b e = Some r"
  unfolding remove_def oaRemove_def by (auto simp: bind_eq_Some_conv split: if_splits)

end
