(* ===== verification/Overallocated.thy ===== *)
theory Overallocated
  imports Overallocated_Block Queries Block_Size_Manager Density
begin

text \<open>
  The state of \<open>OverallocatedBatchedSparseArray\<close> (\<open>dataStructures/overallocatedBatchedSparseArray.hpp\<close>), the access
  to its entries, its queries, writing blocks to the array and to the swap array, growing, counting and validation.

  This array has no buffer: a batch is inserted in place when every task has room for its blocks, else all blocks
  are written to the swap array and distributed over a larger range. The sizes of the blocks are tracked by the
  hierarchical block size manager, which reads them from the array (\<open>blockSizes\<close>).

  The search routines and queries have the same text as those of \<open>BatchedSparseArray\<close>, which the theories \<open>Search\<close>
  and \<open>Queries\<close> state over \<open>arrayView\<close>; only \<open>empty\<close> differs, as it does not treat indices behind the size specially.
\<close>

section \<open>State\<close>

record ('k, 'v) oaSds =
  oaCapacity :: int
  oaSwapCapacity :: int
  oaSize :: int
  oaFactor :: rat
  oaPma :: "('k, 'v) PmaEntry list"
  oaSwapPma :: "('k, 'v) PmaEntry list"
  sizeManager :: Hierarchical
  oaTasks :: "TaskInfo list"
  FasterMergeMinimum :: int

definition InitialOverallocationFactor :: rat where "InitialOverallocationFactor = rnd (18 / 10)"

text \<open>The constructor; \<open>garbage\<close> is what the uninitialised task descriptions hold.\<close>

definition newOaSds :: "('k, 'v) tparams \<Rightarrow> TaskInfo list \<Rightarrow> ('k, 'v) oaSds" where
  "newOaSds P garbage = \<lparr>oaCapacity = InitialArrayCapacity, oaSwapCapacity = InitialArrayCapacity, oaSize = 0,
     oaFactor = InitialOverallocationFactor, oaPma = makeEntries P InitialArrayCapacity,
     oaSwapPma = makeEntries P InitialArrayCapacity, sizeManager = newHierarchical 0, oaTasks = garbage, FasterMergeMinimum = 3\<rparr>"

definition setOaPma :: "int \<Rightarrow> ('k, 'v) PmaEntry \<Rightarrow> ('k, 'v) oaSds \<Rightarrow> ('k, 'v) oaSds option" where
  "setOaPma i b S = do { p \<leftarrow> upd (oaPma S) i b; Some (S\<lparr>oaPma := p\<rparr>) }"

definition setOaSwap :: "int \<Rightarrow> ('k, 'v) PmaEntry \<Rightarrow> ('k, 'v) oaSds \<Rightarrow> ('k, 'v) oaSds option" where
  "setOaSwap i b S = do { p \<leftarrow> upd (oaSwapPma S) i b; Some (S\<lparr>oaSwapPma := p\<rparr>) }"

definition destroyOaSds :: "('k, 'v) tparams \<Rightarrow> ('k, 'v) oaSds \<Rightarrow> ('k, 'v) oaSds option" where
  "destroyOaSds P S = for_range 0 (oaSize S)
     (\<lambda>i S. do {
        b \<leftarrow> idx (oaPma S) i;
        if \<not> isEmpty b then do { b \<leftarrow> deleteBlock P b; setOaPma i b S } else Some S }) S"

section \<open>Access to entries, and queries\<close>

definition oaHeadAt :: "('k, 'v) oaSds \<Rightarrow> int \<Rightarrow> 'k option" where
  "oaHeadAt S index = do { b \<leftarrow> idx (oaPma S) index; Some (head b) }"

definition oaBlockSizeAt :: "('k, 'v) oaSds \<Rightarrow> int \<Rightarrow> nat option" where
  "oaBlockSizeAt S index = do { b \<leftarrow> idx (oaPma S) index; Some (bsize b) }"

definition oaEmptyAt :: "('k, 'v) tparams \<Rightarrow> ('k, 'v) oaSds \<Rightarrow> int \<Rightarrow> bool option" where
  "oaEmptyAt P S index = do {
     b \<leftarrow> idx (oaPma S) index;
     assertMsg (NDEBUG P) ((head b = NULL_KEY P) = isEmpty b);
     assertMsg (NDEBUG P) ((head b = NULL_KEY P) = (bsize b = 0));
     Some (head b = NULL_KEY P) }"

text \<open>What searches, queries and the iterator read of the array.\<close>

definition oaArrayOf :: "('k, 'v) tparams \<Rightarrow> ('k, 'v) oaSds \<Rightarrow> ('k, 'v) arrayView" where
  "oaArrayOf P S = \<lparr>avEmpty = oaEmptyAt P S, avEntry = idx (oaPma S), avSize = oaSize S\<rparr>"

definition oaContains :: "('k::linorder, 'v) tparams \<Rightarrow> ('k, 'v) oaSds \<Rightarrow> 'k \<Rightarrow> bool option" where
  "oaContains P S e = contains P (oaArrayOf P S) e"

definition oaFind :: "('k::linorder, 'v) tparams \<Rightarrow> ('k, 'v) oaSds \<Rightarrow> 'k \<Rightarrow> blockIter option" where
  "oaFind P S e = find P (oaArrayOf P S) e"

definition oaLowerBound :: "('k::linorder, 'v) tparams \<Rightarrow> ('k, 'v) oaSds \<Rightarrow> 'k \<Rightarrow> blockIter option" where
  "oaLowerBound P S e = lowerBound P (oaArrayOf P S) e"

definition oaRangeQuery ::
  "('k::linorder, 'v) tparams \<Rightarrow> ('k, 'v) oaSds \<Rightarrow> 'k \<Rightarrow> 'k \<Rightarrow> ('v \<Rightarrow> 's \<Rightarrow> 's) \<Rightarrow> 's \<Rightarrow> 's option" where
  "oaRangeQuery P S left right f s = rangeQuery P (oaArrayOf P S) left right f s"

definition oaRemoveBatch :: "'v list \<Rightarrow> int \<Rightarrow> nat \<Rightarrow> ('k, 'v) oaSds \<Rightarrow> ('k, 'v) oaSds" where
  "oaRemoveBatch batch batchSize numThreads S = S"

section \<open>The block size manager\<close>

definition blockSizes :: "('k, 'v) oaSds \<Rightarrow> int list" where
  "blockSizes S = map (\<lambda>b. int (bsize b)) (oaPma S)"

definition adjustSize :: "int \<Rightarrow> nat \<Rightarrow> nat \<Rightarrow> ('k, 'v) oaSds \<Rightarrow> ('k, 'v) oaSds option" where
  "adjustSize i oldSize newSize S = do {
     m \<leftarrow> h_adjustBlockSize i (int oldSize) (int newSize) (sizeManager S);
     Some (S\<lparr>sizeManager := m\<rparr>) }"

definition shiftSizesLeft :: "int \<Rightarrow> int \<Rightarrow> ('k, 'v) oaSds \<Rightarrow> ('k, 'v) oaSds option" where
  "shiftSizesLeft left right S = do {
     m \<leftarrow> h_shiftLeft (blockSizes S) left right (sizeManager S);
     Some (S\<lparr>sizeManager := m\<rparr>) }"

definition shiftSizesRight :: "int \<Rightarrow> int \<Rightarrow> ('k, 'v) oaSds \<Rightarrow> ('k, 'v) oaSds option" where
  "shiftSizesRight left right S = do {
     m \<leftarrow> h_shiftRight (blockSizes S) left right (sizeManager S);
     Some (S\<lparr>sizeManager := m\<rparr>) }"

definition recomputeSizes :: "('k, 'v) oaSds \<Rightarrow> ('k, 'v) oaSds option" where
  "recomputeSizes S = do {
     m \<leftarrow> h_recompute (blockSizes S) (oaSize S) (sizeManager S);
     Some (S\<lparr>sizeManager := m\<rparr>) }"

section \<open>Writing blocks in place\<close>

text \<open>The loops that swap \<open>carry\<close> into the array until it is a null entry, to the right and to the left.\<close>

function shiftRightLoop ::
  "int \<Rightarrow> int \<Rightarrow> ('k, 'v) PmaEntry \<Rightarrow> ('k, 'v) PmaEntry list \<Rightarrow> (int \<times> ('k, 'v) PmaEntry \<times> ('k, 'v) PmaEntry list) option" where
  "shiftRightLoop right shift carry ps =
     (if shift < right \<and> block carry \<noteq> None
      then do {
        b \<leftarrow> idx ps shift;
        ps \<leftarrow> upd ps shift carry;
        shiftRightLoop right (shift + 1) b ps }
      else Some (shift, carry, ps))"
  by pat_completeness auto
termination
  by (relation "measure (\<lambda>(right, shift, carry, ps). nat (right - shift))") auto

declare shiftRightLoop.simps [simp del]

function shiftLeftLoop ::
  "int \<Rightarrow> int \<Rightarrow> ('k, 'v) PmaEntry \<Rightarrow> ('k, 'v) PmaEntry list \<Rightarrow> (int \<times> ('k, 'v) PmaEntry \<times> ('k, 'v) PmaEntry list) option" where
  "shiftLeftLoop left shift carry ps =
     (if shift \<ge> left \<and> block carry \<noteq> None
      then do {
        b \<leftarrow> idx ps shift;
        ps \<leftarrow> upd ps shift carry;
        shiftLeftLoop left (shift - 1) b ps }
      else Some (shift, carry, ps))"
  by pat_completeness auto
termination
  by (relation "measure (\<lambda>(left, shift, carry, ps). nat (shift - left + 1))") auto

declare shiftLeftLoop.simps [simp del]

definition writeBlockInPlace ::
  "('k, 'v) tparams \<Rightarrow> ('k, 'v) PmaEntry \<Rightarrow> int \<Rightarrow> Interval \<Rightarrow> ('k, 'v) oaSds \<Rightarrow> (int \<times> ('k, 'v) oaSds) option" where
  "writeBlockInPlace P newBlock targetIndex rng S = do {
     assertMsg (NDEBUG P) (iright rng \<le> oaSize S);
     assertMsg (NDEBUG P) (targetIndex \<ge> ileft rng \<and> targetIndex \<le> iright rng);
     if targetIndex = iright rng
     then do {
       (shift, carry, ps) \<leftarrow> shiftLeftLoop (ileft rng) (targetIndex - 1) newBlock (oaPma S);
       assertMsg (NDEBUG P) (block carry = None);
       S \<leftarrow> adjustSize (targetIndex - 1) 0 (bsize newBlock) (S\<lparr>oaPma := ps\<rparr>);
       S \<leftarrow> shiftSizesLeft (shift + 1) (targetIndex - 2) S;
       Some (targetIndex - 1, S) }
     else do {
       e \<leftarrow> oaEmptyAt P S targetIndex;
       (insertionIndex, S) \<leftarrow>
         (if \<not> e
          then do {
            (shift, carry, ps) \<leftarrow> shiftRightLoop (iright rng) targetIndex newBlock (oaPma S);
            if block carry = None
            then do {
              S \<leftarrow> adjustSize targetIndex 0 (bsize newBlock) (S\<lparr>oaPma := ps\<rparr>);
              S \<leftarrow> shiftSizesRight (targetIndex + 1) (shift - 1) S;
              Some (targetIndex, S) }
            else do {
              assertMsg (NDEBUG P) (shift = iright rng);
              (shift, carry, ps) \<leftarrow> shiftLeftLoop (ileft rng) (iright rng - 1) carry ps;
              let insertionIndex = targetIndex - 1;
              S \<leftarrow> adjustSize insertionIndex 0 (bsize newBlock) (S\<lparr>oaPma := ps\<rparr>);
              S \<leftarrow> shiftSizesLeft (shift + 1) (insertionIndex - 1) S;
              Some (insertionIndex, S) } }
          else do {
            S \<leftarrow> adjustSize targetIndex 0 (bsize newBlock) S;
            S \<leftarrow> setOaPma targetIndex newBlock S;
            Some (targetIndex, S) });
       (if NDEBUG P then Some ()
        else do { b \<leftarrow> idx (oaPma S) insertionIndex; v \<leftarrow> get b 0; assertMsg False (head b = keyOfValue P v) });
       Some (insertionIndex, S) } }"

section \<open>Writing blocks to the swap array and back\<close>

definition oaWriteBlock :: "('k, 'v) tparams \<Rightarrow> ('k, 'v) PmaEntry \<Rightarrow> int \<Rightarrow> int \<Rightarrow> ('k, 'v) oaSds \<Rightarrow> ('k, 'v) oaSds option" where
  "oaWriteBlock P b outputStart blockNumber S = do {
     assertMsg (NDEBUG P) (\<not> isEmpty b);
     let writeIndex = getDenseWriteIndex outputStart blockNumber;
     assertMsg (NDEBUG P) (writeIndex < oaSwapCapacity S);
     assertMsg (NDEBUG P) (writeIndex < oaSize S);
     old \<leftarrow> idx (oaSwapPma S) writeIndex;
     assertMsg (NDEBUG P) (block old = None);
     setOaSwap writeIndex b S }"

text \<open>The overload that takes the block from the array.\<close>

definition oaWriteBlockAt :: "('k, 'v) tparams \<Rightarrow> int \<Rightarrow> int \<Rightarrow> int \<Rightarrow> ('k, 'v) oaSds \<Rightarrow> ('k, 'v) oaSds option" where
  "oaWriteBlockAt P blockIndex outputStart blockNumber S = do {
     b \<leftarrow> idx (oaPma S) blockIndex;
     assertMsg (NDEBUG P) (\<not> isEmpty b);
     let writeIndex = getDenseWriteIndex outputStart blockNumber;
     assertMsg (NDEBUG P) (writeIndex < oaSwapCapacity S);
     assertMsg (NDEBUG P) (writeIndex < oaSize S);
     old \<leftarrow> idx (oaSwapPma S) writeIndex;
     assertMsg (NDEBUG P) (block old = None);
     S \<leftarrow> setOaSwap writeIndex b S;
     setOaPma blockIndex (emptyEntry P) S }"

definition oaUniformWriteIndex :: "('k, 'v) tparams \<Rightarrow> int \<Rightarrow> int \<Rightarrow> int \<Rightarrow> int \<Rightarrow> int option" where
  "oaUniformWriteIndex P outputStart blockNumber outputLength nBlocks = do {
     assertMsg (NDEBUG P) (blockNumber < nBlocks);
     if nBlocks = 0 then None else Some (outputStart + cdiv (blockNumber * outputLength) nBlocks) }"

definition rewriteStep :: "('k, 'v) tparams \<Rightarrow> Interval \<Rightarrow> int \<Rightarrow> int \<Rightarrow> ('k, 'v) oaSds \<Rightarrow> ('k, 'v) oaSds option" where
  "rewriteStep P rng nBlocks currentBlock S = do {
     let readIndex = ileft rng + currentBlock;
     b \<leftarrow> idx (oaSwapPma S) readIndex;
     assertMsg (NDEBUG P) (block b \<noteq> None);
     writeIndex \<leftarrow> oaUniformWriteIndex P (ileft rng) currentBlock (intervalLength rng) nBlocks;
     assertMsg (NDEBUG P) (writeIndex < oaSize S);
     assertMsg (NDEBUG P) (writeIndex \<ge> ileft rng \<and> writeIndex < iright rng);
     (if NDEBUG P then Some () else do { e \<leftarrow> oaEmptyAt P S writeIndex; assertMsg False e });
     S \<leftarrow> setOaPma writeIndex b S;
     setOaSwap readIndex (emptyEntry P) S }"

definition rewrite :: "('k, 'v) tparams \<Rightarrow> Interval \<Rightarrow> int \<Rightarrow> ('k, 'v) oaSds \<Rightarrow> ('k, 'v) oaSds option" where
  "rewrite P rng nBlocks S = for_range 0 nBlocks (rewriteStep P rng nBlocks) S"

section \<open>Growing\<close>

definition oaResizeMainPma :: "('k, 'v) tparams \<Rightarrow> ('k, 'v) oaSds \<Rightarrow> ('k, 'v) oaSds" where
  "oaResizeMainPma P S =
     (if oaSwapCapacity S \<noteq> oaCapacity S
      then S\<lparr>oaPma := makeEntries P (oaSwapCapacity S), oaCapacity := oaSwapCapacity S\<rparr> else S)"

definition increaseSize :: "('k, 'v) tparams \<Rightarrow> int \<Rightarrow> ('k, 'v) oaSds \<Rightarrow> ('k, 'v) oaSds option" where
  "increaseSize P newSize S = do {
     S \<leftarrow> (if newSize \<ge> oaSwapCapacity S
           then do {
             c \<leftarrow> doubleCapacity (oaSwapCapacity S) newSize;
             Some (S\<lparr>oaSwapCapacity := c, oaSwapPma := makeEntries P c\<rparr>) }
           else Some S);
     Some (S\<lparr>oaSize := newSize\<rparr>) }"

section \<open>Counting and validation\<close>

definition oaNumberOfElements :: "('k, 'v) tparams \<Rightarrow> ('k, 'v) oaSds \<Rightarrow> int option" where
  "oaNumberOfElements P S = for_range 0 (oaSize S)
     (\<lambda>i n. do {
        e \<leftarrow> oaEmptyAt P S i;
        if \<not> e then do { s \<leftarrow> oaBlockSizeAt S i; Some (n + int s) } else Some n }) 0"

definition oaNumberOfBlocks :: "('k, 'v) tparams \<Rightarrow> ('k, 'v) oaSds \<Rightarrow> int option" where
  "oaNumberOfBlocks P S = for_range 0 (oaSize S)
     (\<lambda>i n. do { e \<leftarrow> oaEmptyAt P S i; Some (if \<not> e then n + 1 else n) }) 0"

text \<open>The state of the validation loops is as in \<open>isValid\<close> of the buffered array.\<close>

definition oaCheckEntry ::
  "('k::linorder, 'v) tparams \<Rightarrow> ('k, 'v) oaSds \<Rightarrow> int \<Rightarrow> ('k \<times> 'k) option \<Rightarrow> ('k \<times> 'k) option option" where
  "oaCheckEntry P S i s =
     (case s of
        None \<Rightarrow> Some None
      | Some (currentHead, currentElement) \<Rightarrow> do {
          e \<leftarrow> oaEmptyAt P S i;
          b \<leftarrow> idx (oaPma S) i;
          if \<not> e
          then do {
            assertMsg (NDEBUG P) (bsize b \<le> MaxSize P);
            assertMsg (NDEBUG P) (bsize b \<ge> MinSize P);
            if bsize b > MaxSize P \<or> bsize b < MinSize P then Some None
            else checkHeadAndElements P b currentHead currentElement }
          else do {
            assertMsg (NDEBUG P) (isEmpty b \<and> bsize b = 0);
            if \<not> isEmpty b \<or> bsize b \<noteq> 0 then Some None else Some (Some (currentHead, currentElement)) } })"

definition oaIsValid :: "('k::linorder, 'v) tparams \<Rightarrow> ('k, 'v) oaSds \<Rightarrow> bool option" where
  "oaIsValid P S = do {
     r \<leftarrow> for_range 0 (oaCapacity S) (oaCheckEntry P S) (Some (NULL_KEY P, NULL_KEY P));
     Some (r \<noteq> None) }"

definition oaCheckSwapEntry ::
  "('k::linorder, 'v) tparams \<Rightarrow> ('k, 'v) oaSds \<Rightarrow> int \<Rightarrow> ('k \<times> 'k) option \<Rightarrow> ('k \<times> 'k) option option" where
  "oaCheckSwapEntry P S i s =
     (case s of
        None \<Rightarrow> Some None
      | Some (currentHead, currentElement) \<Rightarrow> do {
          b \<leftarrow> idx (oaSwapPma S) i;
          if block b \<noteq> None then checkHeadAndElements P b currentHead currentElement
          else do {
            assertMsg (NDEBUG P) (block b = None \<and> bsize b = 0);
            if block b \<noteq> None \<or> bsize b \<noteq> 0 then Some None else Some (Some (currentHead, currentElement)) } })"

definition oaValidateSwapPma :: "('k::linorder, 'v) tparams \<Rightarrow> ('k, 'v) oaSds \<Rightarrow> bool option" where
  "oaValidateSwapPma P S = do {
     r \<leftarrow> for_range 0 (oaCapacity S) (oaCheckSwapEntry P S) (Some (NULL_KEY P, NULL_KEY P));
     Some (r \<noteq> None) }"

end
