(* ===== verification/Overallocated_Insert.thy ===== *)
theory Overallocated_Insert
  imports Overallocated
begin

text \<open>
  Inserting into the overallocated array: a range of the batch into a range of the array, in place or with all
  blocks written to the swap array (template parameter \<open>WRITE_TO_SWAP\<close>, here the argument \<open>swap\<close>), into an empty
  array, and the inverse merge of one block with a range of the batch.

  \<open>Z\<close> is the key 0 that an assertion of \<open>mergeFaster\<close> compares with. Loops whose termination depends on the data are
  \<open>partial_function\<close>s, so that a call that does not return is \<^const>\<open>None\<close>.
\<close>

section \<open>Inserting into one block\<close>

text \<open>The search in the batch; unlike that of the buffered array it is linear.\<close>

function oaFirstBatchLoop :: "('k::linorder, 'v) tparams \<Rightarrow> 'v list \<Rightarrow> 'k \<Rightarrow> int \<Rightarrow> int option" where
  "oaFirstBatchLoop P batch blockHead result =
     (if result \<ge> 0
      then do {
        v \<leftarrow> idx batch result;
        if blockHead < keyOfValue P v \<or> keyOfValue P v = blockHead then oaFirstBatchLoop P batch blockHead (result - 1)
        else Some result }
      else Some result)"
  by pat_completeness auto
termination
  by (relation "measure (\<lambda>(P, batch, h, result). nat (result + 1))") auto

declare oaFirstBatchLoop.simps [simp del]

definition oaFindFirstBatchElement :: "('k::linorder, 'v) tparams \<Rightarrow> 'v list \<Rightarrow> int \<Rightarrow> 'k \<Rightarrow> int option" where
  "oaFindFirstBatchElement P batch searchStart blockHead = do {
     result \<leftarrow> oaFirstBatchLoop P batch blockHead searchStart;
     Some (result + 1) }"

definition oaInsertWithoutSplit ::
  "('k::linorder, 'v) tparams \<Rightarrow> 'k \<Rightarrow> int \<Rightarrow> 'v list \<Rightarrow> int \<Rightarrow> int \<Rightarrow> ('k, 'v) oaSds \<Rightarrow> (int \<times> ('k, 'v) oaSds) option" where
  "oaInsertWithoutSplit P Z blockIndex batch batchIndex lastBlockElement S = do {
     b \<leftarrow> idx (oaPma S) blockIndex;
     let oldSize = bsize b;
     let numberOfInsertions = u16 (lastBlockElement - batchIndex);
     b \<leftarrow> (if int numberOfInsertions \<ge> FasterMergeMinimum S
           then mergeFaster P Z b (drop (nat batchIndex) batch) numberOfInsertions
           else merge P b (drop (nat batchIndex) batch) numberOfInsertions);
     S \<leftarrow> setOaPma blockIndex b S;
     S \<leftarrow> adjustSize blockIndex oldSize (bsize b) S;
     Some (lastBlockElement, S) }"

text \<open>
  Writing a finished block: to the next position of the swap array, or in place behind the block written last. The
  position is the pair of \<open>insertionBlockIndex\<close> and \<open>outputBlockNumber\<close>.
\<close>

definition emitBlock ::
  "('k, 'v) tparams \<Rightarrow> bool \<Rightarrow> Interval \<Rightarrow> ('k, 'v) PmaEntry \<Rightarrow> int \<times> int \<Rightarrow> ('k, 'v) oaSds \<Rightarrow> ((int \<times> int) \<times> ('k, 'v) oaSds) option" where
  "emitBlock P swap pmaOutputRange b = (\<lambda>(insertionBlockIndex, outputBlockNumber) S.
     if swap
     then do {
       S \<leftarrow> oaWriteBlock P b (ileft pmaOutputRange) outputBlockNumber S;
       Some ((insertionBlockIndex, outputBlockNumber + 1), S) }
     else do {
       (i, S) \<leftarrow> writeBlockInPlace P b insertionBlockIndex pmaOutputRange S;
       Some ((1 + i, outputBlockNumber), S) })"

partial_function (option) oaSplitLoop ::
  "('k::linorder, 'v) tparams \<Rightarrow> bool \<Rightarrow> Interval \<Rightarrow> 'v list \<Rightarrow> int \<Rightarrow>
     int \<Rightarrow> ('k, 'v) PmaEntry \<Rightarrow> ('k, 'v) PmaEntry \<Rightarrow> nat \<Rightarrow> int \<times> int \<Rightarrow> ('k, 'v) oaSds \<Rightarrow>
     (int \<times> ('k, 'v) PmaEntry \<times> ('k, 'v) PmaEntry \<times> (int \<times> int) \<times> ('k, 'v) oaSds) option" where
  "oaSplitLoop P swap pmaOutputRange batch lastBlockElement batchIndex insertionBlock rightHalf lastInsertionIndex pos S =
     (if batchIndex < lastBlockElement
      then do {
        v \<leftarrow> idx batch batchIndex;
        (insertionBlock, rightHalf, lastInsertionIndex, pos, S) \<leftarrow>
          (if \<not> isEmpty rightHalf \<and> (head rightHalf < keyOfValue P v \<or> keyOfValue P v = head rightHalf)
           then do {
             (pos, S) \<leftarrow> emitBlock P swap pmaOutputRange insertionBlock pos S;
             Some (rightHalf, emptyEntry P, 0, pos, S) }
           else Some (insertionBlock, rightHalf, lastInsertionIndex, pos, S));
        (batchIndex, insertionBlock, rightHalf, lastInsertionIndex, pos, S) \<leftarrow>
          (if bsize insertionBlock < MaxSize P
           then do {
             (_, lastInsertionIndex, insertionBlock) \<leftarrow> insertWithIndex P insertionBlock v lastInsertionIndex;
             Some (batchIndex + 1, insertionBlock, rightHalf, lastInsertionIndex, pos, S) }
           else do {
             (insertionBlock, newBlock) \<leftarrow> oaSplit P insertionBlock;
             if \<not> isEmpty rightHalf
             then do {
               (pos, S) \<leftarrow> emitBlock P swap pmaOutputRange insertionBlock pos S;
               Some (batchIndex, newBlock, rightHalf, 0, pos, S) }
             else Some (batchIndex, insertionBlock, newBlock, lastInsertionIndex, pos, S) });
        oaSplitLoop P swap pmaOutputRange batch lastBlockElement batchIndex insertionBlock rightHalf lastInsertionIndex pos S }
      else Some (batchIndex, insertionBlock, rightHalf, pos, S))"

declare oaSplitLoop.simps [code]

definition oaInsertWithSplit ::
  "('k::linorder, 'v) tparams \<Rightarrow> bool \<Rightarrow> int \<Rightarrow> 'v list \<Rightarrow> int \<Rightarrow> int \<Rightarrow> Interval \<Rightarrow> int \<Rightarrow> ('k, 'v) oaSds \<Rightarrow>
     (int \<times> int \<times> ('k, 'v) oaSds) option" where
  "oaInsertWithSplit P swap blockIndex batch batchIndex lastBlockElement pmaOutputRange outputBlockNumber S = do {
     insertionBlock \<leftarrow> idx (oaPma S) blockIndex;
     S \<leftarrow> adjustSize blockIndex (bsize insertionBlock) 0 S;
     S \<leftarrow> setOaPma blockIndex (emptyEntry P) S;
     (batchIndex, insertionBlock, rightHalf, pos, S) \<leftarrow>
       oaSplitLoop P swap pmaOutputRange batch lastBlockElement batchIndex insertionBlock (emptyEntry P) 0
         (blockIndex, outputBlockNumber) S;
     (pos, S) \<leftarrow> emitBlock P swap pmaOutputRange insertionBlock pos S;
     (pos, S) \<leftarrow> (if \<not> isEmpty rightHalf then emitBlock P swap pmaOutputRange rightHalf pos S else Some (pos, S));
     Some (batchIndex, snd pos, S) }"

definition oaInsertElementsIntoBlock ::
  "('k::linorder, 'v) tparams \<Rightarrow> 'k \<Rightarrow> bool \<Rightarrow> int \<Rightarrow> int \<Rightarrow> Interval \<Rightarrow> Interval \<Rightarrow> 'v list \<Rightarrow> int \<Rightarrow> Interval \<Rightarrow> int \<Rightarrow>
     ('k, 'v) oaSds \<Rightarrow> (int \<times> int \<times> ('k, 'v) oaSds) option" where
  "oaInsertElementsIntoBlock P Z swap blockIndex nextBlockIndex pmaInputRange pmaOutputRange batch batchIndex batchRange outputBlockNumber S = do {
     lastBlockElement \<leftarrow> findLastBatchElementForBlock P (oaArrayOf P S) batch batchIndex batchRange nextBlockIndex pmaInputRange;
     let elementsInBlock = lastBlockElement - batchIndex;
     assertMsg (NDEBUG P) (elementsInBlock > 0);
     s \<leftarrow> oaBlockSizeAt S blockIndex;
     if int s + elementsInBlock \<le> int (MaxSize P)
     then do {
       (batchIndex, S) \<leftarrow> oaInsertWithoutSplit P Z blockIndex batch batchIndex lastBlockElement S;
       if swap
       then do {
         S \<leftarrow> oaWriteBlockAt P blockIndex (ileft pmaOutputRange) outputBlockNumber S;
         Some (batchIndex, outputBlockNumber + 1, S) }
       else Some (batchIndex, outputBlockNumber, S) }
     else oaInsertWithSplit P swap blockIndex batch batchIndex lastBlockElement pmaOutputRange outputBlockNumber S }"

section \<open>Inserting a range of the batch in place\<close>

partial_function (option) inPlaceLoop ::
  "('k::linorder, 'v) tparams \<Rightarrow> 'k \<Rightarrow> 'v list \<Rightarrow> Interval \<Rightarrow> Interval \<Rightarrow> int \<Rightarrow> int \<Rightarrow> ('k, 'v) oaSds \<Rightarrow> (int \<times> ('k, 'v) oaSds) option" where
  "inPlaceLoop P Z batch batchRange rng batchIndex blockIndex S =
     (if batchIndex < iright batchRange
      then do {
        v \<leftarrow> idx batch batchIndex;
        blockIndex \<leftarrow> exponentialSearch P (oaArrayOf P S) (keyOfValue P v) blockIndex (iright rng);
        nextBlockIndex \<leftarrow> findNext (oaArrayOf P S) blockIndex (iright rng);
        (if NDEBUG P then Some ()
         else do {
           l \<leftarrow> pmaLinearSearch (oaArrayOf P S) (keyOfValue P v) blockIndex (iright rng);
           assertMsg False (blockIndex = l) });
        (batchIndex, _, S) \<leftarrow>
          oaInsertElementsIntoBlock P Z False blockIndex nextBlockIndex rng rng batch batchIndex batchRange 0 S;
        inPlaceLoop P Z batch batchRange rng batchIndex blockIndex S }
      else Some (batchIndex, S))"

declare inPlaceLoop.simps [code]

definition insertBatchRangeInPlace ::
  "('k::linorder, 'v) tparams \<Rightarrow> 'k \<Rightarrow> 'v list \<Rightarrow> Interval \<Rightarrow> Interval \<Rightarrow> ('k, 'v) oaSds \<Rightarrow> ('k, 'v) oaSds option" where
  "insertBatchRangeInPlace P Z batch batchRange rng S = do {
     (batchIndex, S) \<leftarrow> inPlaceLoop P Z batch batchRange rng (ileft batchRange) (ileft rng) S;
     assertMsg (NDEBUG P) (batchIndex = iright batchRange);
     Some S }"

section \<open>Inserting a range of the batch out of place\<close>

partial_function (option) oaEmptyRangeLoop ::
  "('k::linorder, 'v) tparams \<Rightarrow> 'k \<Rightarrow> 'v list \<Rightarrow> Interval \<Rightarrow> Interval \<Rightarrow> int \<Rightarrow> ('k, 'v) PmaEntry \<Rightarrow> int \<Rightarrow> ('k, 'v) oaSds \<Rightarrow>
     (int \<times> ('k, 'v) PmaEntry \<times> int \<times> ('k, 'v) oaSds) option" where
  "oaEmptyRangeLoop P Z batch batchRange pmaOutputRange batchIndex insertionBlock outputBlockNumber S =
     (if batchIndex < iright batchRange
      then do {
        (current, outputBlockNumber, S) \<leftarrow>
          (if bsize insertionBlock = MaxSize P
           then do {
             let remainingElements = iright batchRange - batchIndex;
             (insertionBlock, newBlock) \<leftarrow>
               (if remainingElements > 0 \<and> remainingElements < int (MinSize P) then oaSplit P insertionBlock
                else do { newBlock \<leftarrow> allocateBlock P (emptyEntry P); Some (insertionBlock, newBlock) });
             S \<leftarrow> oaWriteBlock P insertionBlock (ileft pmaOutputRange) outputBlockNumber S;
             Some (newBlock, outputBlockNumber + 1, S) }
           else Some (insertionBlock, outputBlockNumber, S));
        if bsize insertionBlock = MaxSize P \<and> batchIndex \<ge> iright batchRange
        then Some (iright batchRange, current, outputBlockNumber, S)
        else do {
          let numberOfInsertions = min (int (MaxSize P)) (iright batchRange - batchIndex);
          insertionBlock \<leftarrow> mergeFaster P Z current (drop (nat batchIndex) batch) (u16 numberOfInsertions);
          oaEmptyRangeLoop P Z batch batchRange pmaOutputRange (batchIndex + numberOfInsertions) insertionBlock outputBlockNumber S } }
      else Some (batchIndex, insertionBlock, outputBlockNumber, S))"

declare oaEmptyRangeLoop.simps [code]

text \<open>The end of \<open>insertIntoEmptyRange\<close> and of \<open>inverseMerge\<close>: the last block is written or dropped.\<close>

definition writeLastBlock ::
  "('k, 'v) tparams \<Rightarrow> ('k, 'v) PmaEntry \<Rightarrow> Interval \<Rightarrow> int \<Rightarrow> ('k, 'v) oaSds \<Rightarrow> (int \<times> ('k, 'v) oaSds) option" where
  "writeLastBlock P insertionBlock pmaOutputRange outputBlockNumber S =
     (if bsize insertionBlock > 0
      then do {
        S \<leftarrow> oaWriteBlock P insertionBlock (ileft pmaOutputRange) outputBlockNumber S;
        Some (outputBlockNumber + 1, S) }
      else do { _ \<leftarrow> deleteBlock P insertionBlock; Some (outputBlockNumber, S) })"

definition oaInsertIntoEmptyRange ::
  "('k::linorder, 'v) tparams \<Rightarrow> 'k \<Rightarrow> 'v list \<Rightarrow> Interval \<Rightarrow> int \<Rightarrow> Interval \<Rightarrow> int \<Rightarrow> ('k, 'v) oaSds \<Rightarrow> (int \<times> ('k, 'v) oaSds) option" where
  "oaInsertIntoEmptyRange P Z batch batchRange batchIndex pmaOutputRange outputBlockNumber S = do {
     insertionBlock \<leftarrow> allocateBlock P (emptyEntry P);
     (batchIndex, insertionBlock, outputBlockNumber, S) \<leftarrow>
       oaEmptyRangeLoop P Z batch batchRange pmaOutputRange batchIndex insertionBlock outputBlockNumber S;
     (outputBlockNumber, S) \<leftarrow> writeLastBlock P insertionBlock pmaOutputRange outputBlockNumber S;
     assertMsg (NDEBUG P) (batchIndex = iright batchRange);
     Some (outputBlockNumber, S) }"

text \<open>The walk over the input range: every block is written to the output, with the batch elements that belong to it.\<close>

partial_function (option) outOfPlaceLoop ::
  "('k::linorder, 'v) tparams \<Rightarrow> 'k \<Rightarrow> 'v list \<Rightarrow> Interval \<Rightarrow> Interval \<Rightarrow> Interval \<Rightarrow> int \<Rightarrow> int \<Rightarrow> int \<Rightarrow> int \<Rightarrow> ('k, 'v) oaSds \<Rightarrow>
     (int \<times> int \<times> ('k, 'v) oaSds) option" where
  "outOfPlaceLoop P Z batch batchRange pmaInputRange pmaOutputRange batchIndex blockIndex nextBlockIndex outputBlockNumber S =
     (if blockIndex < iright pmaInputRange
      then do {
        goesHere \<leftarrow> (if batchIndex < iright batchRange
                  then do {
                    v \<leftarrow> idx batch batchIndex;
                    h \<leftarrow> oaHeadAt S nextBlockIndex;
                    if keyOfValue P v < h then Some True else oaEmptyAt P S nextBlockIndex }
                  else Some False);
        (batchIndex, outputBlockNumber, S) \<leftarrow>
          (if goesHere
           then oaInsertElementsIntoBlock P Z True blockIndex nextBlockIndex pmaInputRange pmaOutputRange batch batchIndex batchRange
             outputBlockNumber S
           else do {
             S \<leftarrow> oaWriteBlockAt P blockIndex (ileft pmaOutputRange) outputBlockNumber S;
             Some (batchIndex, outputBlockNumber + 1, S) });
        next \<leftarrow> findNext (oaArrayOf P S) nextBlockIndex (iright pmaInputRange);
        outOfPlaceLoop P Z batch batchRange pmaInputRange pmaOutputRange batchIndex nextBlockIndex next outputBlockNumber S }
      else Some (batchIndex, outputBlockNumber, S))"

declare outOfPlaceLoop.simps [code]

definition insertBatchRangeOutOfPlace ::
  "('k::linorder, 'v) tparams \<Rightarrow> 'k \<Rightarrow> 'v list \<Rightarrow> Interval \<Rightarrow> Interval \<Rightarrow> Interval \<Rightarrow> ('k, 'v) oaSds \<Rightarrow> (int \<times> ('k, 'v) oaSds) option" where
  "insertBatchRangeOutOfPlace P Z batch batchRange pmaInputRange pmaOutputRange S = do {
     (if NDEBUG P \<or> intervalLength pmaInputRange = 0 then Some ()
      else do { e \<leftarrow> oaEmptyAt P S (ileft pmaInputRange); assertMsg False (\<not> e) });
     nextBlockIndex \<leftarrow> findNext (oaArrayOf P S) (ileft pmaInputRange) (iright pmaInputRange);
     (batchIndex, outputBlockNumber, S) \<leftarrow>
       outOfPlaceLoop P Z batch batchRange pmaInputRange pmaOutputRange (ileft batchRange) (ileft pmaInputRange) nextBlockIndex 0 S;
     if intervalLength pmaInputRange = 0
     then oaInsertIntoEmptyRange P Z batch batchRange batchIndex pmaOutputRange outputBlockNumber S
     else do {
       assertMsg (NDEBUG P) (batchIndex = iright batchRange);
       Some (outputBlockNumber, S) } }"

section \<open>Inverse merge\<close>

text \<open>The loop \<open>while (key(batch[batchIndex]) == lastWrittenKey) ++batchIndex\<close>, which has no upper limit.\<close>

function oaSkipDuplicates :: "('k, 'v) tparams \<Rightarrow> 'v list \<Rightarrow> 'k \<Rightarrow> int \<Rightarrow> int option" where
  "oaSkipDuplicates P batch lastWritten batchIndex = do {
     v \<leftarrow> idx batch batchIndex;
     if keyOfValue P v = lastWritten then oaSkipDuplicates P batch lastWritten (batchIndex + 1) else Some batchIndex }"
  by pat_completeness auto
termination
  by (relation "measure (\<lambda>(P, batch, k, i). nat (int (length batch) - i))") (auto simp: idx_Some_iff)

declare oaSkipDuplicates.simps [simp del]

definition oaInverseMergeStep ::
  "('k::linorder, 'v) tparams \<Rightarrow> ('k, 'v) PmaEntry \<Rightarrow> 'v list \<Rightarrow> int \<Rightarrow> int \<Rightarrow>
     int \<times> nat \<times> ('k, 'v) PmaEntry \<times> 'k \<Rightarrow> (int \<times> nat \<times> ('k, 'v) PmaEntry \<times> 'k) option" where
  "oaInverseMergeStep P source batch batchRight mergeRight = (\<lambda>(batchIndex, readIndex, insertionBlock, lastWritten).
     if batchIndex < batchRight \<and> int readIndex < mergeRight
     then do {
       u \<leftarrow> get source readIndex;
       v \<leftarrow> idx batch batchIndex;
       if keyOfValue P u < keyOfValue P v
       then do {
         (_, _, insertionBlock) \<leftarrow> insertWithIndex P insertionBlock u (bsize insertionBlock);
         Some (batchIndex, readIndex + 1, insertionBlock, keyOfValue P u) }
       else if keyOfValue P u = keyOfValue P v
       then do {
         (_, _, insertionBlock) \<leftarrow> insertWithIndex P insertionBlock u (bsize insertionBlock);
         Some (batchIndex + 1, readIndex + 1, insertionBlock, keyOfValue P u) }
       else if keyOfValue P v \<noteq> lastWritten
       then do {
         (_, _, insertionBlock) \<leftarrow> insertWithIndex P insertionBlock v (bsize insertionBlock);
         Some (batchIndex + 1, readIndex, insertionBlock, keyOfValue P v) }
       else Some (batchIndex + 1, readIndex, insertionBlock, lastWritten) }
     else if batchIndex < batchRight
     then do {
       batchIndex \<leftarrow> oaSkipDuplicates P batch lastWritten batchIndex;
       let numberOfInsertions = min (int (MaxSize P) - int (bsize insertionBlock)) (batchRight - batchIndex);
       insertionBlock \<leftarrow> merge P insertionBlock (drop (nat batchIndex) batch) (u16 numberOfInsertions);
       Some (batchIndex + numberOfInsertions, readIndex, insertionBlock, lastWritten) }
     else if int readIndex < mergeRight
     then do {
       let numberOfInsertions = min (u16 (int (MaxSize P) - int (bsize insertionBlock))) (u16 (mergeRight - int readIndex));
       cells \<leftarrow> block source;
       insertionBlock \<leftarrow> merge P insertionBlock (drop readIndex cells) numberOfInsertions;
       Some (batchIndex, u16 (int (readIndex + numberOfInsertions)), insertionBlock, lastWritten) }
     else do {
       assertMsg (NDEBUG P) False;
       Some (batchIndex, readIndex, insertionBlock, lastWritten) })"

partial_function (option) oaInverseMergeLoop ::
  "('k::linorder, 'v) tparams \<Rightarrow> 'v list \<Rightarrow> Interval \<Rightarrow> Interval \<Rightarrow> int \<Rightarrow> Interval \<Rightarrow>
     int \<times> nat \<times> ('k, 'v) PmaEntry \<times> 'k \<Rightarrow> int \<Rightarrow> ('k, 'v) oaSds \<Rightarrow>
     ((int \<times> nat \<times> ('k, 'v) PmaEntry \<times> 'k) \<times> int \<times> ('k, 'v) oaSds) option" where
  "oaInverseMergeLoop P batch batchRange mergeRange mergeBlock pmaOutputRange s outputBlockNumber S =
     (case s of (batchIndex, readIndex, insertionBlock, lastWritten) \<Rightarrow>
      if batchIndex < iright batchRange \<or> int readIndex < iright mergeRange
      then do {
        (insertionBlock, outputBlockNumber, S) \<leftarrow>
          (if bsize insertionBlock = MaxSize P
           then do {
             newBlock \<leftarrow> allocateBlock P (emptyEntry P);
             S \<leftarrow> oaWriteBlock P insertionBlock (ileft pmaOutputRange) outputBlockNumber S;
             Some (newBlock, outputBlockNumber + 1, S) }
           else Some (insertionBlock, outputBlockNumber, S));
        source \<leftarrow> idx (oaPma S) mergeBlock;
        s \<leftarrow> oaInverseMergeStep P source batch (iright batchRange) (iright mergeRange) (batchIndex, readIndex, insertionBlock, lastWritten);
        oaInverseMergeLoop P batch batchRange mergeRange mergeBlock pmaOutputRange s outputBlockNumber S }
      else Some (s, outputBlockNumber, S))"

declare oaInverseMergeLoop.simps [code]

definition oaInverseMerge ::
  "('k::linorder, 'v) tparams \<Rightarrow> 'v list \<Rightarrow> Interval \<Rightarrow> Interval \<Rightarrow> Interval \<Rightarrow> Interval \<Rightarrow> ('k, 'v) oaSds \<Rightarrow>
     (int \<times> ('k, 'v) oaSds) option" where
  "oaInverseMerge P batch batchRange mergeRange pmaInputRange pmaOutputRange S = do {
     let mergeBlock = ileft pmaInputRange;
     insertionBlock \<leftarrow> allocateBlock P (emptyEntry P);
     ((batchIndex, readIndex, insertionBlock, _), outputBlockNumber, S) \<leftarrow>
       oaInverseMergeLoop P batch batchRange mergeRange mergeBlock pmaOutputRange
         (ileft batchRange, u16 (ileft mergeRange), insertionBlock, NULL_KEY P) 0 S;
     (outputBlockNumber, S) \<leftarrow> writeLastBlock P insertionBlock pmaOutputRange outputBlockNumber S;
     assertMsg (NDEBUG P) (batchIndex = iright batchRange);
     assertMsg (NDEBUG P) (int readIndex = iright mergeRange);
     Some (outputBlockNumber, S) }"

end
