(* ===== verification/Overallocated_Batch.thy ===== *)
theory Overallocated_Batch
  imports Overallocated_Insert Insert_Batch
begin

text \<open>
  The operation \<open>insertBatch\<close> of \<open>OverallocatedBatchedSparseArray\<close>: distributing the batch to tasks, deciding
  between insertion in place and rewriting the whole array, running the tasks, merging blocks that inverse merges left
  too small (\<open>oaPostprocess\<close>), and distributing the blocks of the swap array over the array again.

  As in theory \<open>Insert_Batch\<close>, \<open>W\<close> gives the order in which the bodies of each OpenMP region take effect.
\<close>

section \<open>Tasks\<close>

definition oaTask :: "('k, 'v) oaSds \<Rightarrow> nat \<Rightarrow> TaskInfo option" where
  "oaTask S t = nth_opt (oaTasks S) t"

definition oaUpdateTask :: "nat \<Rightarrow> (TaskInfo \<Rightarrow> TaskInfo) \<Rightarrow> ('k, 'v) oaSds \<Rightarrow> ('k, 'v) oaSds option" where
  "oaUpdateTask t f S = do {
     task \<leftarrow> nth_opt (oaTasks S) t;
     ts \<leftarrow> upd_opt (oaTasks S) t (f task);
     Some (S\<lparr>oaTasks := ts\<rparr>) }"

definition oaSetWritten :: "nat \<Rightarrow> int \<Rightarrow> ('k, 'v) oaSds \<Rightarrow> ('k, 'v) oaSds option" where
  "oaSetWritten t n S = oaUpdateTask t (\<lambda>task. task\<lparr>numberOfBlocksWritten := n\<rparr>) S"

text \<open>1. The body of the first region: block, first batch element and width of each task.\<close>

definition oaFindTaskStart ::
  "('k::linorder, 'v) tparams \<Rightarrow> 'v list \<Rightarrow> int \<Rightarrow> int \<Rightarrow> ('k, 'v) oaSds \<Rightarrow> (int \<times> int) option" where
  "oaFindTaskStart P batch splitterDistance thread S = do {
     v \<leftarrow> idx batch (thread * splitterDistance);
     b \<leftarrow> findBlockIndex P (oaArrayOf P S) (keyOfValue P v);
     h \<leftarrow> oaHeadAt S b;
     first \<leftarrow> oaFindFirstBatchElement P batch (thread * splitterDistance) h;
     Some (b, first) }"

definition oaDistributeThread ::
  "('k::linorder, 'v) tparams \<Rightarrow> 'v list \<Rightarrow> int \<Rightarrow> int \<Rightarrow> nat \<Rightarrow> nat \<Rightarrow> ('k, 'v) oaSds \<Rightarrow> ('k, 'v) oaSds option" where
  "oaDistributeThread P batch batchSize splitterDistance n thread S = do {
     (b, first) \<leftarrow> oaFindTaskStart P batch splitterDistance (int thread) S;
     (nextB, nextFirst) \<leftarrow>
       (if thread = n - 1 then Some (oaSize S, batchSize) else oaFindTaskStart P batch splitterDistance (int thread + 1) S);
     numberOfOldElements \<leftarrow> h_getNumberOfElements (blockSizes S) (sizeManager S) b nextB;
     w \<leftarrow> maxRedistributionWidth P numberOfOldElements (nextFirst - first);
     oaUpdateTask thread (\<lambda>t. t\<lparr>blockForBatchSplitter := b, firstBatchElement := first, requiredWidth := w\<rparr>) S }"

text \<open>2. Merging tasks that start at the same block; the state is \<open>mergedTasks\<close>, \<open>hasMergedTask\<close> and the array.\<close>

definition oaMergeThreadTasks :: "nat \<Rightarrow> nat \<times> bool \<times> ('k, 'v) oaSds \<Rightarrow> (nat \<times> bool \<times> ('k, 'v) oaSds) option" where
  "oaMergeThreadTasks thread = (\<lambda>(merged, hasMergedTask, S). do {
     task \<leftarrow> oaTask S thread;
     prev \<leftarrow> oaTask S (thread - 1);
     if blockForBatchSplitter task = blockForBatchSplitter prev
     then do {
       S \<leftarrow> oaUpdateTask thread (\<lambda>t. t\<lparr>firstBatchElement := firstBatchElement prev, taskType := INSERTION\<rparr>) S;
       (merged, hasMergedTask, S) \<leftarrow>
         (if UseInverseMerge
          then do {
            S \<leftarrow> oaUpdateTask (thread - 1) (\<lambda>t. t\<lparr>taskType := INVERSE_MERGE\<rparr>) S;
            S \<leftarrow> oaUpdateTask thread (\<lambda>t. t\<lparr>mergedTasks := merged + 1\<rparr>) S;
            Some (merged + 1, True, S) }
          else do {
            S \<leftarrow> oaUpdateTask thread (\<lambda>t. t\<lparr>requiredWidth := requiredWidth t + requiredWidth prev\<rparr>) S;
            Some (merged, hasMergedTask, S) });
       S \<leftarrow> oaUpdateTask (thread - 1) (\<lambda>t. t\<lparr>requiredWidth := 0\<rparr>) S;
       Some (merged, hasMergedTask, S) }
     else if UseInverseMerge
     then do {
       S \<leftarrow> oaUpdateTask thread (\<lambda>t. t\<lparr>taskType := INSERTION, mergedTasks := 0\<rparr>) S;
       Some (0, hasMergedTask, S) }
     else Some (merged, hasMergedTask, S) })"

text \<open>The work of one group of merged tasks; the division of the code is unsigned.\<close>

definition oaDistributeGroup ::
  "('k::linorder, 'v) tparams \<Rightarrow> 'v list \<Rightarrow> int \<Rightarrow> nat \<Rightarrow> ('k, 'v) oaSds \<Rightarrow> ('k, 'v) oaSds option" where
  "oaDistributeGroup P batch batchSize thread S = do {
     task \<leftarrow> oaTask S thread;
     next \<leftarrow> oaTask S (thread + 1);
     let mergeBlock = blockForBatchSplitter task;
     let totalBatchRange = mkInterval (firstBatchElement task) (firstBatchElement next);
     let pmaInputRange = mkInterval (blockForBatchSplitter task) (blockForBatchSplitter next);
     firstNormalBlock \<leftarrow> findNext (oaArrayOf P S) mergeBlock (iright pmaInputRange);
     e \<leftarrow> oaEmptyAt P S firstNormalBlock;
     lastTaskBatchStart \<leftarrow>
       (if e then Some (iright totalBatchRange)
        else do {
          h \<leftarrow> oaHeadAt S firstNormalBlock;
          l \<leftarrow> std_lower_bound (\<lambda>v. keyOfValue P v < h) batch 0 batchSize;
          Some (min l (iright totalBatchRange)) });
     assertMsg (NDEBUG P) (lastTaskBatchStart \<ge> ileft totalBatchRange \<and> lastTaskBatchStart \<le> iright totalBatchRange);
     S \<leftarrow> (if lastTaskBatchStart \<noteq> ileft totalBatchRange
           then oaUpdateTask thread (\<lambda>t. t\<lparr>firstBatchElement := lastTaskBatchStart, blockForBatchSplitter := firstNormalBlock\<rparr>) S
           else Some S);
     let mergeBatchRange = mkInterval (ileft totalBatchRange) lastTaskBatchStart;
     let merged = mergedTasks task;
     let elementsPerThread = int (u64 (intervalLength mergeBatchRange) div merged) + 1;
     foldM (\<lambda>mergeThread S. do {
         t \<leftarrow> minusThread thread mergeThread;
         let mergeTaskBatchStart = min (ileft mergeBatchRange + int (merged - mergeThread) * elementsPerThread) (iright mergeBatchRange);
         s \<leftarrow> oaBlockSizeAt S mergeBlock;
         w \<leftarrow> maxRedistributionWidth P (int s) elementsPerThread;
         oaUpdateTask t (\<lambda>task. task\<lparr>firstBatchElement := mergeTaskBatchStart, blockForBatchSplitter := mergeBlock,
           mergedTasks := merged, mergedTaskIndex := merged - mergeThread, requiredWidth := w\<rparr>) S })
       (downFrom merged 0) S }"

definition oaDistributeWork ::
  "('k::linorder, 'v) tparams \<Rightarrow> 'v list \<Rightarrow> int \<Rightarrow> nat \<Rightarrow> ('k, 'v) oaSds \<Rightarrow> ('k, 'v) oaSds option" where
  "oaDistributeWork P batch batchSize n S = foldM
     (\<lambda>thread S. do {
        task \<leftarrow> oaTask S thread;
        if taskType task = INSERTION \<and> mergedTasks task > 0 then oaDistributeGroup P batch batchSize thread S else Some S })
     [1..<n] S"

text \<open>3. Can every task work in its own range of the array?\<close>

definition fitsInPlace :: "nat \<Rightarrow> bool \<Rightarrow> ('k, 'v) oaSds \<Rightarrow> bool option" where
  "fitsInPlace n allowInPlace S = foldM
     (\<lambda>thread useInPlace.
        if useInPlace
        then do {
          task \<leftarrow> oaTask S thread;
          next \<leftarrow> oaTask S (thread + 1);
          let currentWidth = blockForBatchSplitter next - blockForBatchSplitter task;
          Some (\<not> (requiredWidth task > currentWidth \<or> UseInverseMerge \<and> taskType task = INVERSE_MERGE)) }
        else Some False)
     [0..<n] allowInPlace"

definition oaValidateTasks :: "('k, 'v) tparams \<Rightarrow> nat \<Rightarrow> int \<Rightarrow> bool \<Rightarrow> ('k, 'v) oaSds \<Rightarrow> unit option" where
  "oaValidateTasks P n batchSize isInPlace S = do {
     t0 \<leftarrow> oaTask S 0;
     assertMsg (NDEBUG P) (firstBatchElement t0 = 0);
     foldM (\<lambda>thread u. do {
         t \<leftarrow> oaTask S thread;
         if \<not> isInPlace \<and> taskType t = INVERSE_MERGE
         then do {
           assertMsg (NDEBUG P) (mergedTasks t < n);
           assertMsg (NDEBUG P) (mergedTaskIndex t < mergedTasks t) }
         else Some () }) [0..<n + 1] ();
     tn \<leftarrow> oaTask S n;
     assertMsg (NDEBUG P) (firstBatchElement tn = batchSize);
     assertMsg (NDEBUG P) (blockForBatchSplitter tn = oaSize S) }"

text \<open>Steps 1 to 3. Returns \<open>hasMergedTask\<close> and \<open>useInPlaceInserts\<close>.\<close>

definition oaDistributionPhase ::
  "('k::linorder, 'v) tparams \<Rightarrow> workers \<Rightarrow> bool \<Rightarrow> 'v list \<Rightarrow> int \<Rightarrow> nat \<Rightarrow> ('k, 'v) oaSds \<Rightarrow> (bool \<times> bool \<times> ('k, 'v) oaSds) option" where
  "oaDistributionPhase P W allowInPlace batch batchSize n S = do {
     splitterDistance \<leftarrow> (if n = 0 then None else Some (cdiv batchSize (int n)));
     S \<leftarrow> oaUpdateTask n (\<lambda>t. t\<lparr>blockForBatchSplitter := oaSize S, firstBatchElement := batchSize\<rparr>) S;
     S \<leftarrow> foldM (oaDistributeThread P batch batchSize splitterDistance n) (W 0) S;
     S \<leftarrow> oaUpdateTask 0 (\<lambda>t. t\<lparr>firstBatchElement := 0, taskType := INSERTION\<rparr>) S;
     (_, hasMergedTask, S) \<leftarrow> foldM oaMergeThreadTasks [1..<n] (0, False, S);
     S \<leftarrow> (if UseInverseMerge then oaDistributeWork P batch batchSize n S else Some S);
     useInPlace \<leftarrow> fitsInPlace n allowInPlace S;
     S \<leftarrow> oaUpdateTask n (\<lambda>t. t\<lparr>requiredWidth := 0\<rparr>) S;
     (if NDEBUG P then Some () else oaValidateTasks P n batchSize useInPlace S);
     Some (hasMergedTask, useInPlace, S) }"

section \<open>Running the tasks\<close>

definition startTaskInPlace ::
  "('k::linorder, 'v) tparams \<Rightarrow> 'k \<Rightarrow> 'v list \<Rightarrow> nat \<Rightarrow> ('k, 'v) oaSds \<Rightarrow> ('k, 'v) oaSds option" where
  "startTaskInPlace P Z batch taskIndex S = do {
     task \<leftarrow> oaTask S taskIndex;
     next \<leftarrow> oaTask S (taskIndex + 1);
     assertMsg (NDEBUG P) (taskType task = INSERTION);
     let batchRange = mkInterval (firstBatchElement task) (firstBatchElement next);
     if intervalLength batchRange = 0 then Some S
     else insertBatchRangeInPlace P Z batch batchRange (mkInterval (blockForBatchSplitter task) (blockForBatchSplitter next)) S }"

definition startTaskOutOfPlace ::
  "('k::linorder, 'v) tparams \<Rightarrow> 'k \<Rightarrow> 'v list \<Rightarrow> int \<Rightarrow> nat \<Rightarrow> ('k, 'v) oaSds \<Rightarrow> ('k, 'v) oaSds option" where
  "startTaskOutOfPlace P Z batch batchSize taskIndex S = do {
     task \<leftarrow> oaTask S taskIndex;
     next \<leftarrow> oaTask S (taskIndex + 1);
     let batchRange = mkInterval (firstBatchElement task) (firstBatchElement next);
     let pmaInputRange = mkInterval (blockForBatchSplitter task) (blockForBatchSplitter next);
     let pmaOutputRange = mkInterval (startIndex task) (startIndex next);
     S \<leftarrow> (if taskIndex = 0
           then for_range 0 (ileft pmaInputRange)
             (\<lambda>blockIndex S. do {
                e \<leftarrow> oaEmptyAt P S blockIndex;
                if \<not> e
                then do {
                  b \<leftarrow> idx (oaPma S) blockIndex;
                  S \<leftarrow> setOaSwap blockIndex b S;
                  setOaPma blockIndex (emptyEntry P) S }
                else Some S }) S
           else Some S);
     if taskType task = INSERTION
     then if intervalLength batchRange = 0
       then do {
         (n, S) \<leftarrow> for_range (ileft pmaInputRange) (iright pmaInputRange)
           (\<lambda>blockIndex (n, S). do {
              e \<leftarrow> oaEmptyAt P S blockIndex;
              if \<not> e
              then do { S \<leftarrow> oaWriteBlockAt P blockIndex (ileft pmaOutputRange) n S; Some (n + 1, S) }
              else Some (n, S) }) (0, S);
         oaSetWritten taskIndex n S }
       else do {
         (n, S) \<leftarrow> insertBatchRangeOutOfPlace P Z batch batchRange pmaInputRange pmaOutputRange S;
         oaSetWritten taskIndex n S }
     else do {
       assertMsg (NDEBUG P) UseInverseMerge;
       assertMsg (NDEBUG P) (taskType task = INVERSE_MERGE);
       if intervalLength batchRange = 0 then oaSetWritten taskIndex 0 S
       else do {
         b \<leftarrow> idx (oaPma S) (ileft pmaInputRange);
         mergeRange \<leftarrow> mergeRangeOf P batch batchSize task batchRange b;
         (n, S) \<leftarrow> oaInverseMerge P batch batchRange mergeRange pmaInputRange pmaOutputRange S;
         oaSetWritten taskIndex n S } } }"

section \<open>After inverse merges\<close>

text \<open>The carried block goes to the first block of a task, or both share their elements and it is written behind the task before.\<close>

definition mergeCarryIntoTask ::
  "('k, 'v) tparams \<Rightarrow> nat \<Rightarrow> ('k, 'v) PmaEntry \<times> ('k, 'v) oaSds \<Rightarrow> (('k, 'v) PmaEntry \<times> ('k, 'v) oaSds) option" where
  "mergeCarryIntoTask P thread = (\<lambda>(carryBlock, S). do {
     task \<leftarrow> oaTask S thread;
     if block carryBlock \<noteq> None \<and> numberOfBlocksWritten task > 0
     then do {
       assertMsg (NDEBUG P) (bsize carryBlock > 0);
       b \<leftarrow> idx (oaSwapPma S) (startIndex task);
       if bsize b + bsize carryBlock < MaxSize P
       then do {
         b \<leftarrow> oaMergeSmaller P b carryBlock;
         S \<leftarrow> setOaSwap (startIndex task) b S;
         _ \<leftarrow> deleteBlock P carryBlock;
         Some (emptyEntry P, S) }
       else do {
         (carryBlock, b) \<leftarrow> oaSteal P carryBlock b;
         S \<leftarrow> setOaSwap (startIndex task) b S;
         p \<leftarrow> minusThread thread 1;
         prev \<leftarrow> oaTask S p;
         S \<leftarrow> setOaSwap (startIndex prev + numberOfBlocksWritten prev) carryBlock S;
         S \<leftarrow> oaSetWritten p (numberOfBlocksWritten prev + 1) S;
         Some (emptyEntry P, S) } }
     else Some (carryBlock, S) })"

text \<open>The last block of an inverse merge task becomes the carried block if it is too small.\<close>

definition takeSmallBlock ::
  "('k, 'v) tparams \<Rightarrow> nat \<Rightarrow> ('k, 'v) PmaEntry \<times> ('k, 'v) oaSds \<Rightarrow> (('k, 'v) PmaEntry \<times> ('k, 'v) oaSds) option" where
  "takeSmallBlock P thread = (\<lambda>(carryBlock, S). do {
     task \<leftarrow> oaTask S thread;
     if taskType task = INVERSE_MERGE \<and> numberOfBlocksWritten task > 0
     then do {
       let lastWrittenBlock = startIndex task + numberOfBlocksWritten task - 1;
       b \<leftarrow> idx (oaSwapPma S) lastWrittenBlock;
       assertMsg (NDEBUG P) (bsize b > 0);
       if bsize b < MinSize P
       then do {
         assertMsg (NDEBUG P) (block carryBlock = None);
         S \<leftarrow> setOaSwap lastWrittenBlock (emptyEntry P) S;
         S \<leftarrow> oaSetWritten thread (numberOfBlocksWritten task - 1) S;
         Some (b, S) }
       else Some (carryBlock, S) }
     else Some (carryBlock, S) })"

definition deleteMergeBlock ::
  "('k, 'v) tparams \<Rightarrow> nat \<Rightarrow> ('k, 'v) oaSds \<Rightarrow> ('k, 'v) oaSds option" where
  "deleteMergeBlock P thread S =
     (if thread > 0
      then do {
        task \<leftarrow> oaTask S thread;
        prev \<leftarrow> oaTask S (thread - 1);
        if taskType task = INSERTION \<and> taskType prev = INVERSE_MERGE
        then do {
          let mergeBlock = blockForBatchSplitter prev;
          e \<leftarrow> oaEmptyAt P S mergeBlock;
          if \<not> e
          then do {
            b \<leftarrow> idx (oaPma S) mergeBlock;
            _ \<leftarrow> deleteBlock P b;
            setOaPma mergeBlock (emptyEntry P) S }
          else Some S }
        else Some S }
      else Some S)"

text \<open>
  No task to the right has a block: the carried block goes to the last task that wrote one. Once it is placed the
  entry is null, which is the \<open>break\<close> of the loop.
\<close>

definition placeCarry ::
  "('k, 'v) tparams \<Rightarrow> nat \<Rightarrow> nat \<Rightarrow> ('k, 'v) PmaEntry \<times> ('k, 'v) oaSds \<Rightarrow> (('k, 'v) PmaEntry \<times> ('k, 'v) oaSds) option" where
  "placeCarry P n thread = (\<lambda>(carryBlock, S). do {
     task \<leftarrow> oaTask S thread;
     if block carryBlock \<noteq> None \<and> numberOfBlocksWritten task > 0
     then do {
       let lastWrittenBlock = startIndex task + numberOfBlocksWritten task - 1;
       b \<leftarrow> idx (oaSwapPma S) lastWrittenBlock;
       if bsize b + bsize carryBlock < MaxSize P
       then do {
         carryBlock \<leftarrow> oaMergeSmaller P carryBlock b;
         _ \<leftarrow> deleteBlock P b;
         S \<leftarrow> setOaSwap lastWrittenBlock carryBlock S;
         Some (emptyEntry P, S) }
       else do {
         (carryBlock, b) \<leftarrow> oaStealFromSmaller P carryBlock b;
         S \<leftarrow> setOaSwap lastWrittenBlock b S;
         if numberOfBlocksWritten task < requiredWidth task
         then do {
           S \<leftarrow> oaSetWritten thread (numberOfBlocksWritten task + 1) S;
           S \<leftarrow> setOaSwap (startIndex task + numberOfBlocksWritten task) carryBlock S;
           Some (emptyEntry P, S) }
         else do {
           assertMsg (NDEBUG P) (thread + 1 < n);
           next \<leftarrow> oaTask S (thread + 1);
           assertMsg (NDEBUG P) (numberOfBlocksWritten next = 0);
           S \<leftarrow> oaSetWritten (thread + 1) (numberOfBlocksWritten next + 1) S;
           S \<leftarrow> setOaSwap (startIndex next) carryBlock S;
           Some (emptyEntry P, S) } } }
     else Some (carryBlock, S) })"

definition oaPostprocess :: "('k, 'v) tparams \<Rightarrow> nat \<Rightarrow> ('k, 'v) oaSds \<Rightarrow> ('k, 'v) oaSds option" where
  "oaPostprocess P n S = do {
     (carryBlock, S) \<leftarrow> foldM
       (\<lambda>thread s. do {
          s \<leftarrow> mergeCarryIntoTask P thread s;
          (carryBlock, S) \<leftarrow> takeSmallBlock P thread s;
          S \<leftarrow> deleteMergeBlock P thread S;
          Some (carryBlock, S) })
       [0..<n] (emptyEntry P, S);
     (carryBlock, S) \<leftarrow> foldM (placeCarry P n) (rev [0..<n]) (carryBlock, S);
     assertMsg (NDEBUG P) (block carryBlock = None);
     Some S }"

section \<open>Back to the array\<close>

definition oaStartRewritingTask :: "('k, 'v) tparams \<Rightarrow> nat \<Rightarrow> ('k, 'v) oaSds \<Rightarrow> ('k, 'v) oaSds option" where
  "oaStartRewritingTask P taskIndex S = do {
     task \<leftarrow> oaTask S taskIndex;
     next \<leftarrow> oaTask S (taskIndex + 1);
     S \<leftarrow> (if taskIndex = 0
           then for_range 0 (blockForBatchSplitter task)
             (\<lambda>blockIndex S. do {
                b \<leftarrow> idx (oaSwapPma S) blockIndex;
                if \<not> isEmpty b
                then do { S \<leftarrow> setOaPma blockIndex b S; setOaSwap blockIndex (emptyEntry P) S }
                else Some S }) S
           else Some S);
     rewrite P (mkInterval (startIndex task) (startIndex next)) (numberOfBlocksWritten task) S }"

section \<open>The operation\<close>

text \<open>B-1. The prefix sum over the widths; in-place arrays get extra space.\<close>

definition assignOutputRange :: "bool \<Rightarrow> nat \<Rightarrow> int \<times> ('k, 'v) oaSds \<Rightarrow> (int \<times> ('k, 'v) oaSds) option" where
  "assignOutputRange allowInPlace i = (\<lambda>(prefixWidth, S). do {
     S \<leftarrow> oaUpdateTask i (\<lambda>t. t\<lparr>startIndex := prefixWidth\<rparr>) S;
     task \<leftarrow> oaTask S i;
     let width = (if allowInPlace then toInt (dmul (oaFactor S) (toDouble (requiredWidth task))) else requiredWidth task);
     Some (prefixWidth + width, S) })"

definition outOfPlacePhase ::
  "('k::linorder, 'v) tparams \<Rightarrow> 'k \<Rightarrow> workers \<Rightarrow> bool \<Rightarrow> 'v list \<Rightarrow> int \<Rightarrow> nat \<Rightarrow> bool \<Rightarrow> ('k, 'v) oaSds \<Rightarrow> ('k, 'v) oaSds option" where
  "outOfPlacePhase P Z W allowInPlace batch batchSize n hasMergedTask S = do {
     t0 \<leftarrow> oaTask S 0;
     (prefixWidth, S) \<leftarrow> foldM (assignOutputRange allowInPlace) [0..<n + 1] (blockForBatchSplitter t0, S);
     S \<leftarrow> increaseSize P prefixWidth S;
     S \<leftarrow> foldM (startTaskOutOfPlace P Z batch batchSize) (W 1) S;
     S \<leftarrow> (if UseInverseMerge \<and> hasMergedTask then oaPostprocess P n S else Some S);
     let S = oaResizeMainPma P S;
     S \<leftarrow> foldM (oaStartRewritingTask P) (W 2) S;
     recomputeSizes S }"

definition oaInsertBatch ::
  "('k::linorder, 'v) tparams \<Rightarrow> 'k \<Rightarrow> workers \<Rightarrow> bool \<Rightarrow> 'v list \<Rightarrow> int \<Rightarrow> nat \<Rightarrow> ('k, 'v) oaSds \<Rightarrow> ('k, 'v) oaSds option" where
  "oaInsertBatch P Z W allowInPlace batch batchSize n S = do {
     (if NDEBUG P then Some () else do { ok \<leftarrow> batchSorted P batch batchSize; assertMsg False ok });
     assertMsg (NDEBUG P) (n < length (oaTasks S));
     assertMsg (NDEBUG P) (batchSize \<ge> int n);
     (hasMergedTask, useInPlace, S) \<leftarrow> oaDistributionPhase P W allowInPlace batch batchSize n S;
     if useInPlace
     then do {
       S \<leftarrow> foldM (startTaskInPlace P Z batch) (W 1) S;
       (if NDEBUG P then Some () else h_validate (blockSizes S) (oaSize S) (sizeManager S));
       Some S }
     else outOfPlacePhase P Z W allowInPlace batch batchSize n hasMergedTask S }"

end
