(* ===== verification/Overallocated_Write.thy ===== *)
theory Overallocated_Write
  imports Overallocated_Batch Insertion_Range
begin

text \<open>
  Correctness of the overallocated array, first part: the invariant \<open>wfOa\<close> and the queries on valid arrays (by
  interpretation of \<open>block_store\<close>), and \<open>writeBlockInPlace\<close>, which makes room for a block by shifting others and keeps the
  block size manager up to date.
\<close>

section \<open>Valid arrays\<close>

definition oaUsed :: "('k, 'v) oaSds \<Rightarrow> ('k, 'v) PmaEntry list" where
  "oaUsed S = take (nat (oaSize S)) (oaPma S)"

text \<open>
  The used entries are empty or hold well-formed blocks with strictly sorted keys, all other entries are empty, and the
  size manager knows the sizes of the blocks.
\<close>

definition wfOa :: "('k::linorder, 'v) tparams \<Rightarrow> ('k, 'v) oaSds \<Rightarrow> bool" where
  "wfOa P S \<longleftrightarrow> 0 \<le> oaSize S \<and> oaSize S < oaCapacity S \<and> oaCapacity S = int (length (oaPma S)) \<and> okEntries P (oaUsed S) \<and>
     (\<forall>b\<in>set (drop (nat (oaSize S)) (oaPma S)). b = emptyEntry P) \<and> hInv (blockSizes S) (oaSize S) (sizeManager S)"

lemma wfOaD:
  assumes "wfOa P S"
  shows "0 \<le> oaSize S" "oaSize S < int (length (oaPma S))" "okEntries P (oaUsed S)"
    "int (length (oaUsed S)) = oaSize S" "length (oaUsed S) = nat (oaSize S)" "hInv (blockSizes S) (oaSize S) (sizeManager S)"
  using assms by (auto simp: wfOa_def oaUsed_def)

lemma wfOa_entry:
  assumes "wfOa P S" "j < length (oaPma S)"
  shows "okEntry P (oaPma S ! j)" "nat (oaSize S) \<le> j \<Longrightarrow> oaPma S ! j = emptyEntry P"
proof -
  show em: "oaPma S ! j = emptyEntry P" if "nat (oaSize S) \<le> j"
  proof -
    have "drop (nat (oaSize S)) (oaPma S) ! (j - nat (oaSize S)) \<in> set (drop (nat (oaSize S)) (oaPma S))"
      using assms(2) that by (intro nth_mem) auto
    moreover have "drop (nat (oaSize S)) (oaPma S) ! (j - nat (oaSize S)) = oaPma S ! j" using assms(2) that by simp
    ultimately show ?thesis using assms(1) by (auto simp: wfOa_def)
  qed
  show "okEntry P (oaPma S ! j)"
  proof (cases "j < nat (oaSize S)")
    case True
    then have "okEntry P (oaUsed S ! j)" using wfOaD [OF assms(1)] by (intro okEntries_nth) auto
    then show ?thesis using True by (simp add: oaUsed_def)
  qed (use em in \<open>simp add: okEntry_def\<close>)
qed

lemma oaEmptyAt_ok:
  assumes "okEntry P (oaPma S ! nat i)" "0 \<le> i" "i < int (length (oaPma S))"
  shows "oaEmptyAt P S i = Some (isEmpty (oaPma S ! nat i))"
  using okEntry_empty_iff [OF assms(1)] assms(2,3) by (simp add: oaEmptyAt_def)

lemma wfOa_store:
  assumes "wfOa P S"
  shows "block_store P (oaArrayOf P S) (oaUsed S)"
proof -
  note d = wfOaD [OF assms]
  have "idx (oaPma S) i = Some (oaUsed S ! nat i)" if "0 \<le> i" "i < oaSize S" for i using that d by (simp add: oaUsed_def)
  moreover have "oaEmptyAt P S i = Some (if i < oaSize S then isEmpty (oaUsed S ! nat i) else True)" if "0 \<le> i" "i < max 1 (oaSize S)" for i
  proof (cases "i < oaSize S")
    case True
    then show ?thesis using oaEmptyAt_ok [of P S i] wfOa_entry(1) [OF assms, of "nat i"] that d by (simp add: oaUsed_def)
  next
    case False
    then have "i = 0" "oaSize S = 0" using that d(1) by auto
    moreover have "oaPma S ! 0 = emptyEntry P" using wfOa_entry(2) [OF assms, of 0] d(2) \<open>oaSize S = 0\<close> by simp
    ultimately show ?thesis using oaEmptyAt_ok [of P S 0] d(2) by (simp add: okEntry_def)
  qed
  ultimately show ?thesis by unfold_locales (simp_all add: oaArrayOf_def d(3,4))
qed

interpretation oa: block_store P "if wfOa P S then oaArrayOf P S else noArray" "if wfOa P S then oaUsed S else []" for P S
proof (cases "wfOa P S")
  case False
  have "block_store P noArray []"
    by unfold_locales (auto simp: noArray_def okEntries_def entriesKeys_def)
  then show "block_store P (if wfOa P S then oaArrayOf P S else noArray) (if wfOa P S then oaUsed S else [])"
    using False by simp
qed (simp add: wfOa_store)

section \<open>Shifting blocks\<close>

lemma shiftRightLoop_step:
  "shift < right \<Longrightarrow> block c \<noteq> None \<Longrightarrow> 0 \<le> shift \<Longrightarrow> shift < int (length ps) \<Longrightarrow>
     shiftRightLoop right shift c ps = shiftRightLoop right (shift + 1) (ps ! nat shift) (ps[nat shift := c])"
  by (subst shiftRightLoop.simps) simp

lemma shiftRightLoop_stop: "block c = None \<or> right \<le> shift \<Longrightarrow> shiftRightLoop right shift c ps = Some (shift, c, ps)"
  by (subst shiftRightLoop.simps) auto

lemma shiftLeftLoop_step:
  "left \<le> shift \<Longrightarrow> block c \<noteq> None \<Longrightarrow> 0 \<le> shift \<Longrightarrow> shift < int (length ps) \<Longrightarrow>
     shiftLeftLoop left shift c ps = shiftLeftLoop left (shift - 1) (ps ! nat shift) (ps[nat shift := c])"
  by (subst shiftLeftLoop.simps) simp

lemma shiftLeftLoop_stop: "block c = None \<Longrightarrow> shiftLeftLoop left shift c ps = Some (shift, c, ps)"
  by (subst shiftLeftLoop.simps) simp

lemma shiftRightLoop_run:
  assumes "list_all (\<lambda>b. block b \<noteq> None) (c # ys)" "int (length (xs @ ys)) \<le> right"
  shows "shiftRightLoop right (int (length xs)) c (xs @ ys @ zs) =
     shiftRightLoop right (int (length (xs @ ys))) (last (c # ys)) (xs @ butlast (c # ys) @ zs)"
  using assms
proof (induction ys arbitrary: xs c)
  case (Cons y ys)
  have "shiftRightLoop right (int (length xs)) c (xs @ (y # ys) @ zs) = shiftRightLoop right (int (length (xs @ [c]))) y ((xs @ [c]) @ ys @ zs)"
    using Cons.prems by (subst shiftRightLoop_step) (simp_all add: ac_simps)
  also have "\<dots> = shiftRightLoop right (int (length ((xs @ [c]) @ ys))) (last (y # ys)) ((xs @ [c]) @ butlast (y # ys) @ zs)"
    by (rule Cons.IH) (use Cons.prems in auto)
  finally show ?case by simp
qed simp

lemma shiftRightLoop_last:
  "block c \<noteq> None \<Longrightarrow> block n = None \<Longrightarrow> int (length ws) < right \<Longrightarrow>
     shiftRightLoop right (int (length ws)) c (ws @ n # zs) = Some (int (length ws) + 1, n, ws @ c # zs)"
  by (subst shiftRightLoop_step) (simp_all add: shiftRightLoop_stop)

lemma shiftRightLoop_free:
  assumes "list_all (\<lambda>b. block b \<noteq> None) (c # ys)" "block n = None" "int (length (xs @ ys)) < right"
  shows "shiftRightLoop right (int (length xs)) c (xs @ ys @ n # zs) = Some (int (length (xs @ ys)) + 1, n, xs @ c # ys @ zs)"
proof -
  let ?ws = "xs @ butlast (c # ys)"
  have len: "length (xs @ ys) = length ?ws" by simp
  have c: "block (last (c # ys)) \<noteq> None" using assms(1) by (cases ys rule: rev_cases) auto
  have "shiftRightLoop right (int (length xs)) c (xs @ ys @ n # zs) = shiftRightLoop right (int (length ?ws)) (last (c # ys)) (?ws @ n # zs)"
    using shiftRightLoop_run [OF assms(1), of xs right "n # zs"] assms(3) len by simp
  also have "\<dots> = Some (int (length ?ws) + 1, n, ?ws @ last (c # ys) # zs)"
    by (rule shiftRightLoop_last) (use c assms(2,3) len in auto)
  also have "?ws @ last (c # ys) # zs = xs @ c # ys @ zs"
    by (cases ys rule: rev_cases) auto
  finally show ?thesis using len by simp
qed

lemma shiftRightLoop_full:
  assumes "list_all (\<lambda>b. block b \<noteq> None) (c # ys)" "int (length (xs @ ys)) = right"
  shows "shiftRightLoop right (int (length xs)) c (xs @ ys @ zs) = Some (right, last (c # ys), xs @ butlast (c # ys) @ zs)"
  using shiftRightLoop_run [OF assms(1), of xs right zs] assms(2) shiftRightLoop_stop [of _ right right] by (metis order_refl)

lemma shiftLeftLoop_run:
  assumes "list_all (\<lambda>b. block b \<noteq> None) (ys @ [c])" "left \<le> int (length xs)"
  shows "shiftLeftLoop left (int (length (xs @ ys)) - 1) c (xs @ ys @ zs) =
     shiftLeftLoop left (int (length xs) - 1) (hd (ys @ [c])) (xs @ tl (ys @ [c]) @ zs)"
  using assms
proof (induction ys arbitrary: zs c rule: rev_induct)
  case (snoc y ys)
  have "shiftLeftLoop left (int (length (xs @ ys @ [y])) - 1) c (xs @ (ys @ [y]) @ zs) = shiftLeftLoop left (int (length (xs @ ys)) - 1) y (xs @ ys @ c # zs)"
    using snoc.prems by (subst shiftLeftLoop_step) (simp_all add: ac_simps nth_append list_update_append nat_add_distrib)
  also have "\<dots> = shiftLeftLoop left (int (length xs) - 1) (hd (ys @ [y])) (xs @ tl (ys @ [y]) @ c # zs)"
    by (rule snoc.IH) (use snoc.prems in auto)
  finally show ?case by (cases ys) simp_all
qed simp

lemma shiftLeftLoop_free:
  assumes "list_all (\<lambda>b. block b \<noteq> None) (ys @ [c])" "block n = None" "left \<le> int (length xs)"
  shows "shiftLeftLoop left (int (length xs) + int (length ys)) c (xs @ n # ys @ zs) = Some (int (length xs) - 1, n, xs @ ys @ c # zs)"
proof -
  have h: "block (hd (ys @ [c])) \<noteq> None" using assms(1) by (cases ys) auto
  have "shiftLeftLoop left (int (length xs)) (hd (ys @ [c])) (xs @ n # tl (ys @ [c]) @ zs) =
      Some (int (length xs) - 1, n, xs @ hd (ys @ [c]) # tl (ys @ [c]) @ zs)"
    using h assms(2,3) by (subst shiftLeftLoop_step) (simp_all add: shiftLeftLoop_stop)
  moreover have "hd (ys @ [c]) # tl (ys @ [c]) @ zs = ys @ c # zs" by (cases ys) simp_all
  ultimately show ?thesis using shiftLeftLoop_run [OF assms(1), of left "xs @ [n]" zs] assms(3) by simp
qed

section \<open>Writing a block in place\<close>

definition blocksIn :: "('k, 'v) PmaEntry list \<Rightarrow> nat \<Rightarrow> nat \<Rightarrow> ('k, 'v) PmaEntry list" where
  "blocksIn ps a b = filter (\<lambda>b. \<not> isEmpty b) (slice ps a b)"

text \<open>
  The effect on the entries: the blocks from the target to the next free entry move to the right, or, if there is
  none, the blocks in front of the target move to the left over the last free entry.
\<close>

definition insertedAt ::
  "('k, 'v) PmaEntry list \<Rightarrow> nat \<Rightarrow> nat \<Rightarrow> nat \<Rightarrow> ('k, 'v) PmaEntry \<Rightarrow> nat \<Rightarrow> ('k, 'v) PmaEntry list \<Rightarrow> bool" where
  "insertedAt ps l r t b i ps' \<longleftrightarrow> (\<exists>xs n ys zs. isEmpty n \<and> list_all (\<lambda>b. \<not> isEmpty b) ys \<and>
     (ps = xs @ ys @ n # zs \<and> ps' = xs @ b # ys @ zs \<and> length xs = t \<and> i = t \<and> length (xs @ ys) < r \<or>
      ps = xs @ n # ys @ zs \<and> ps' = xs @ ys @ b # zs \<and> l \<le> length xs \<and> length xs + length ys + 1 = t \<and> i = t - 1 \<and> t \<le> r))"

definition oaSetting :: "('k::linorder, 'v) tparams \<Rightarrow> ('k, 'v) oaSds \<Rightarrow> nat \<Rightarrow> nat \<Rightarrow> bool" where
  "oaSetting P S l r \<longleftrightarrow> l \<le> r \<and> int r \<le> oaSize S \<and> oaSize S < int (length (oaPma S)) \<and> (\<forall>b\<in>set (oaPma S). okEntry P b) \<and>
     hInv (blockSizes S) (oaSize S) (sizeManager S)"

lemma isShift_lists:
  assumes "Y \<noteq> []"
  shows "isShiftLeft (X @ 0 # Y @ Z) (X @ Y @ 0 # Z) (int (length X)) (int (length X) + int (length Y) - 1)"
    "isShiftRight (X @ Y @ 0 # Z) (X @ 0 # Y @ Z) (int (length X) + 1) (int (length X) + int (length Y))"
proof -
  have Y: "0 < length Y" using assms by simp
  have "nat (int (length X) + int (length Y) - 1 + 1) = length X + length Y" by simp
  moreover have "(X @ Y @ 0 # Z) ! nat i = (X @ 0 # Y @ Z) ! nat (i + 1)"
    if "int (length X) \<le> i" "i \<le> int (length X) + int (length Y) - 1" for i
  proof -
    define k where "k = nat (i - int (length X))"
    have k: "i = int (length X) + int k" "k < length Y" using that by (auto simp: k_def)
    then show ?thesis by (simp add: nth_append nat_add_distrib)
  qed
  moreover have "(X @ Y @ 0 # Z) ! nat i = (X @ 0 # Y @ Z) ! nat i"
    if "0 \<le> i" "i < int (length X) \<or> int (length X) + int (length Y) - 1 + 1 < i" for i
    using that(2)
  proof
    assume "i < int (length X)"
    then show ?thesis using that(1) by (simp add: nth_append nat_less_iff)
  next
    assume "int (length X) + int (length Y) - 1 + 1 < i"
    then have "nat i > length X + length Y" using that(1) by linarith
    then show ?thesis by (simp add: nth_append nth_Cons' Suc_diff_le)
  qed
  ultimately show l: "isShiftLeft (X @ 0 # Y @ Z) (X @ Y @ 0 # Z) (int (length X)) (int (length X) + int (length Y) - 1)"
    unfolding isShiftLeft_def using Y by (auto simp: nth_append)
  then show "isShiftRight (X @ Y @ 0 # Z) (X @ 0 # Y @ Z) (int (length X) + 1) (int (length X) + int (length Y))"
    by (simp add: isShiftRight_def)
qed


lemma nonempty_block: "list_all (\<lambda>b. \<not> isEmpty b) ys \<longleftrightarrow> list_all (\<lambda>b. block b \<noteq> None) ys"
  by (simp add: isEmpty_def)

lemma okEntry_isEmpty: "okEntry P n \<Longrightarrow> isEmpty n \<Longrightarrow> bsize n = 0 \<and> n = emptyEntry P"
  using okEntry_cases [of P n] by auto

text \<open>Where the free entry is.\<close>

lemma free_right:
  assumes "t \<le> j" "j < length ps" "isEmpty (ps ! j)"
  obtains xs ys n zs where "ps = xs @ ys @ n # zs" "length xs = t" "isEmpty n" "list_all (\<lambda>b. \<not> isEmpty b) ys" "length (xs @ ys) \<le> j"
proof -
  have "drop t ps ! (j - t) \<in> set (drop t ps)" using assms by (intro nth_mem) auto
  moreover have "drop t ps ! (j - t) = ps ! j" using assms by auto
  ultimately have "ps ! j \<in> set (drop t ps)" by simp
  then obtain ys n zs where d: "drop t ps = ys @ n # zs" "isEmpty n" "\<forall>y\<in>set ys. \<not> isEmpty y"
    using split_list_first_prop [of "drop t ps" isEmpty] assms(3) by metis
  have "length ys \<le> j - t"
  proof (rule ccontr)
    assume "\<not> ?thesis"
    then have "drop t ps ! (j - t) \<in> set ys" unfolding d(1) by (simp add: nth_append)
    then show False using d(3) assms by auto
  qed
  moreover have "ps = take t ps @ ys @ n # zs" by (simp flip: d(1))
  moreover have "length (take t ps) = t" using assms by simp
  ultimately show ?thesis using that [of "take t ps" ys n zs] d(2,3) assms(1) by (simp add: list_all_iff)
qed

lemma free_left:
  assumes "l \<le> j" "j < t" "t \<le> length ps" "isEmpty (ps ! j)"
  obtains xs n ys zs where "ps = xs @ n # ys @ zs" "length xs + length ys + 1 = t" "isEmpty n" "list_all (\<lambda>b. \<not> isEmpty b) ys" "l \<le> length xs"
proof -
  have "take t ps ! j \<in> set (take t ps)" using assms by (intro nth_mem) auto
  then obtain xs n ys where d: "take t ps = xs @ n # ys" "isEmpty n" "\<forall>y\<in>set ys. \<not> isEmpty y"
    using split_list_last_prop [of "take t ps" isEmpty] assms(2,4) by auto
  have len: "length xs + length ys + 1 = t" using arg_cong [OF d(1), of length] assms(3) by simp
  have "j \<le> length xs"
  proof (rule ccontr)
    assume "\<not> ?thesis"
    then have "take t ps ! j \<in> set ys" unfolding d(1) using len assms(2) by (auto simp: nth_append nth_Cons')
    then show False using d(3) assms by auto
  qed
  then show ?thesis
    using that [of xs n ys "drop t ps"] d len assms(1) append_take_drop_id [of t ps] by (auto simp: list_all_iff)
qed


text \<open>The size manager follows: a new block between two groups, one of which was shifted over a free entry.\<close>

lemma adjustSize_bind:
  "(adjustSize i 0 s S \<bind> shiftSizesLeft l r) = (h_adjustBlockSize i 0 (int s) (sizeManager S) \<bind> h_shiftLeft (blockSizes S) l r) \<bind> (\<lambda>m. Some (S\<lparr>sizeManager := m\<rparr>))"
  "(adjustSize i 0 s S \<bind> shiftSizesRight l r) = (h_adjustBlockSize i 0 (int s) (sizeManager S) \<bind> h_shiftRight (blockSizes S) l r) \<bind> (\<lambda>m. Some (S\<lparr>sizeManager := m\<rparr>))"
  by (cases "h_adjustBlockSize i 0 (int s) (sizeManager S)"; simp add: adjustSize_def shiftSizesLeft_def shiftSizesRight_def blockSizes_def)+

lemma sizes_shiftRight:
  assumes set: "oaSetting P S l r" and ps: "oaPma S = xs @ ys @ n # zs" "isEmpty n" "ys \<noteq> []" "length (xs @ ys) < r"
  shows "\<exists>m. (adjustSize (int (length xs)) 0 (bsize b) (S\<lparr>oaPma := xs @ b # ys @ zs\<rparr>)
      \<bind> shiftSizesRight (int (length xs) + 1) (int (length xs) + int (length ys))) = Some (S\<lparr>oaPma := xs @ b # ys @ zs, sizeManager := m\<rparr>) \<and>
     hInv (blockSizes (S\<lparr>oaPma := xs @ b # ys @ zs\<rparr>)) (oaSize S) m"
proof -
  let ?f = "map (\<lambda>b. int (bsize b))"
  have "bsize n = 0" using set ps by (auto simp: oaSetting_def dest: okEntry_isEmpty)
  then have sz: "blockSizes S = ?f xs @ ?f ys @ 0 # ?f zs" using ps by (simp add: blockSizes_def)
  have "isShiftRight (blockSizes S) (?f xs @ 0 # ?f ys @ ?f zs) (int (length xs) + 1) (int (length xs) + int (length ys))"
    using isShift_lists(2) [of "?f ys" "?f xs" "?f zs"] ps(3) sz by simp
  from h_shiftRight_insert [OF _ this, of "oaSize S" "sizeManager S" "int (bsize b)"]
  obtain m where "h_adjustBlockSize (int (length xs)) 0 (int (bsize b)) (sizeManager S)
      \<bind> h_shiftRight (?f xs @ int (bsize b) # ?f ys @ ?f zs) (int (length xs) + 1) (int (length xs) + int (length ys)) = Some m"
    "hInv (?f xs @ int (bsize b) # ?f ys @ ?f zs) (oaSize S) m"
    using set ps(4) by (auto simp: oaSetting_def list_update_append)
  then show ?thesis by (intro exI [of _ m]) (simp add: adjustSize_bind blockSizes_def)
qed

lemma sizes_adjust:
  assumes set: "oaSetting P S l r" and ps: "oaPma S = xs @ n # zs" "isEmpty n" "length xs < r"
  shows "\<exists>m. h_adjustBlockSize (int (length xs)) 0 (int (bsize b)) (sizeManager S) = Some m \<and>
     hInv (blockSizes (S\<lparr>oaPma := xs @ b # zs\<rparr>)) (oaSize S) m"
proof -
  let ?f = "map (\<lambda>b. int (bsize b))"
  have "bsize n = 0" using set ps by (auto simp: oaSetting_def dest: okEntry_isEmpty)
  then have sz: "blockSizes S = ?f xs @ 0 # ?f zs" using ps by (simp add: blockSizes_def)
  obtain m where "h_adjustBlockSize (int (length xs)) 0 (int (bsize b)) (sizeManager S) = Some m"
    "hInv ((blockSizes S)[length xs := int (bsize b)]) (oaSize S) m"
    using hier.adjust_inv [of "blockSizes S" "oaSize S" "sizeManager S" "int (length xs)" "int (bsize b)"] set ps(3) sz
    by (auto simp: oaSetting_def nth_append)
  then have "hInv (?f xs @ int (bsize b) # ?f zs) (oaSize S) m" by (simp add: sz list_update_append)
  then show ?thesis using \<open>h_adjustBlockSize _ _ _ _ = Some m\<close> by (simp add: blockSizes_def)
qed

lemma sizes_shiftLeft:
  assumes set: "oaSetting P S l r" and ps: "oaPma S = xs @ n # ys @ zs" "isEmpty n" "length xs + length ys < r"
  shows "\<exists>m. (adjustSize (int (length xs) + int (length ys)) 0 (bsize b) (S\<lparr>oaPma := xs @ ys @ b # zs\<rparr>)
      \<bind> shiftSizesLeft (int (length xs)) (int (length xs) + int (length ys) - 1)) = Some (S\<lparr>oaPma := xs @ ys @ b # zs, sizeManager := m\<rparr>) \<and>
     hInv (blockSizes (S\<lparr>oaPma := xs @ ys @ b # zs\<rparr>)) (oaSize S) m"
proof (cases "ys = []")
  case True
  have "h_shiftLeft sizes (int (length xs)) (int (length xs) - 1) m = Some m" for sizes m by (simp add: h_shiftLeft_def)
  moreover obtain m where "h_adjustBlockSize (int (length xs)) 0 (int (bsize b)) (sizeManager S) = Some m"
    "hInv (blockSizes (S\<lparr>oaPma := xs @ b # zs\<rparr>)) (oaSize S) m"
    using sizes_adjust [OF set, of xs n zs b] True ps by auto
  ultimately show ?thesis using True by (intro exI [of _ m]) (simp add: adjustSize_bind)
next
  case False
  let ?f = "map (\<lambda>b. int (bsize b))"
  have "bsize n = 0" using set ps by (auto simp: oaSetting_def dest: okEntry_isEmpty)
  then have sz: "blockSizes S = ?f xs @ 0 # ?f ys @ ?f zs" using ps by (simp add: blockSizes_def)
  have "isShiftLeft (blockSizes S) (?f xs @ ?f ys @ 0 # ?f zs) (int (length xs)) (int (length xs) + int (length ys) - 1)"
    using isShift_lists(1) [of "?f ys" "?f xs" "?f zs"] False sz by simp
  from h_shiftLeft_insert [OF _ this, of "oaSize S" "sizeManager S" "int (bsize b)"]
  obtain m where "h_adjustBlockSize (int (length xs) + int (length ys)) 0 (int (bsize b)) (sizeManager S)
      \<bind> h_shiftLeft (?f xs @ ?f ys @ int (bsize b) # ?f zs) (int (length xs)) (int (length xs) + int (length ys) - 1) = Some m"
    "hInv (?f xs @ ?f ys @ int (bsize b) # ?f zs) (oaSize S) m"
    using set ps(3) by (auto simp: oaSetting_def list_update_append nat_add_distrib)
  then show ?thesis by (intro exI [of _ m]) (simp add: adjustSize_bind blockSizes_def)
qed

lemma wfBlock_first:
  assumes "wfBlock P b" "0 < bsize b"
  obtains v where "get b 0 = Some v" "head b = keyOfValue P v"
proof -
  obtain cells where c: "block b = Some cells" using assms(1) by (auto simp: wfBlock_def okBlock_def)
  then have len: "0 < length cells" "elems b = take (bsize b) cells"
    using assms by (auto simp: wfBlock_def okBlock_def cellsOf_def elems_def)
  then have "head b = keyOfValue P (cells ! 0)" using assms by (cases cells; cases "bsize b") (auto simp: wfBlock_def keysOf_def)
  then show ?thesis using that c len by (simp add: get_def)
qed

lemma writeBlockInPlace_left:
  assumes set: "oaSetting P S l r" and b: "wfBlock P b" "0 < bsize b"
    and ps: "oaPma S = xs @ n # ys @ zs" "isEmpty n" "list_all (\<lambda>b. \<not> isEmpty b) ys" "l \<le> length xs" "length xs + length ys + 1 = r"
  shows "\<exists>m. writeBlockInPlace P b (int r) (mkInterval (int l) (int r)) S =
     Some (int r - 1, S\<lparr>oaPma := xs @ ys @ b # zs, sizeManager := m\<rparr>) \<and> hInv (blockSizes (S\<lparr>oaPma := xs @ ys @ b # zs\<rparr>)) (oaSize S) m"
proof -
  have nb: "block b \<noteq> None" using b(1) by (auto simp: wfBlock_def okBlock_def)
  have r: "int r - 1 = int (length xs) + int (length ys)" "int r - 2 = int (length xs) + int (length ys) - 1" using ps(5) by auto
  have loop: "shiftLeftLoop (int l) (int r - 1) b (oaPma S) = Some (int (length xs) - 1, n, xs @ ys @ b # zs)"
    unfolding r ps(1) by (rule shiftLeftLoop_free) (use ps nb in \<open>auto simp: isEmpty_def\<close>)
  obtain m where m: "(adjustSize (int r - 1) 0 (bsize b) (S\<lparr>oaPma := xs @ ys @ b # zs\<rparr>)
      \<bind> shiftSizesLeft (int (length xs)) (int r - 2)) = Some (S\<lparr>oaPma := xs @ ys @ b # zs, sizeManager := m\<rparr>)"
    "hInv (blockSizes (S\<lparr>oaPma := xs @ ys @ b # zs\<rparr>)) (oaSize S) m"
    using sizes_shiftLeft [OF set ps(1,2), of b] ps(5) r by auto
  then obtain S1 where "adjustSize (int r - 1) 0 (bsize b) (S\<lparr>oaPma := xs @ ys @ b # zs\<rparr>) = Some S1"
    "shiftSizesLeft (int (length xs)) (int r - 2) S1 = Some (S\<lparr>oaPma := xs @ ys @ b # zs, sizeManager := m\<rparr>)"
    by (auto simp: bind_eq_Some_conv)
  then show ?thesis using m(2) loop set ps(2) by (intro exI [of _ m]) (simp add: writeBlockInPlace_def oaSetting_def isEmpty_def)
qed

lemma writeBlockInPlace_free:
  assumes set: "oaSetting P S l r" and b: "wfBlock P b" "0 < bsize b"
    and ps: "oaPma S = xs @ n # zs" "isEmpty n" "l \<le> length xs" "length xs < r"
  shows "\<exists>m. writeBlockInPlace P b (int (length xs)) (mkInterval (int l) (int r)) S =
     Some (int (length xs), S\<lparr>oaPma := xs @ b # zs, sizeManager := m\<rparr>) \<and> hInv (blockSizes (S\<lparr>oaPma := xs @ b # zs\<rparr>)) (oaSize S) m"
proof -
  obtain v where v: "get b 0 = Some v" "head b = keyOfValue P v" using wfBlock_first [OF b] by blast
  have e: "oaEmptyAt P S (int (length xs)) = Some True"
    using oaEmptyAt_ok [of P S "int (length xs)"] set ps by (auto simp: oaSetting_def)
  obtain m where "h_adjustBlockSize (int (length xs)) 0 (int (bsize b)) (sizeManager S) = Some m"
    "hInv (blockSizes (S\<lparr>oaPma := xs @ b # zs\<rparr>)) (oaSize S) m" using sizes_adjust [OF set ps(1,2,4)] by blast
  then show ?thesis
    using e v set ps by (intro exI [of _ m]) (simp add: writeBlockInPlace_def oaSetting_def adjustSize_def setOaPma_def)
qed

lemma writeBlockInPlace_right:
  assumes set: "oaSetting P S l r" and b: "wfBlock P b" "0 < bsize b"
    and ps: "oaPma S = xs @ ys @ n # zs" "isEmpty n" "list_all (\<lambda>b. \<not> isEmpty b) ys" "ys \<noteq> []" "l \<le> length xs" "length (xs @ ys) < r"
  shows "\<exists>m. writeBlockInPlace P b (int (length xs)) (mkInterval (int l) (int r)) S =
     Some (int (length xs), S\<lparr>oaPma := xs @ b # ys @ zs, sizeManager := m\<rparr>) \<and> hInv (blockSizes (S\<lparr>oaPma := xs @ b # ys @ zs\<rparr>)) (oaSize S) m"
proof -
  obtain v where v: "get b 0 = Some v" "head b = keyOfValue P v" using wfBlock_first [OF b] by blast
  have nb: "block b \<noteq> None" using b(1) by (auto simp: wfBlock_def okBlock_def)
  have "oaPma S ! length xs = hd ys" using ps by (cases ys) auto
  then have e: "oaEmptyAt P S (int (length xs)) = Some False"
    using oaEmptyAt_ok [of P S "int (length xs)"] set ps by (cases ys) (auto simp: oaSetting_def)
  have loop: "shiftRightLoop (int r) (int (length xs)) b (oaPma S) = Some (int (length (xs @ ys)) + 1, n, xs @ b # ys @ zs)"
    unfolding ps(1) by (rule shiftRightLoop_free) (use ps nb in \<open>auto simp: isEmpty_def\<close>)
  obtain m where m: "(adjustSize (int (length xs)) 0 (bsize b) (S\<lparr>oaPma := xs @ b # ys @ zs\<rparr>)
      \<bind> shiftSizesRight (int (length xs) + 1) (int (length xs) + int (length ys))) = Some (S\<lparr>oaPma := xs @ b # ys @ zs, sizeManager := m\<rparr>)"
    "hInv (blockSizes (S\<lparr>oaPma := xs @ b # ys @ zs\<rparr>)) (oaSize S) m"
    using sizes_shiftRight [OF set ps(1,2,4,6)] by blast
  then obtain S1 where "adjustSize (int (length xs)) 0 (bsize b) (S\<lparr>oaPma := xs @ b # ys @ zs\<rparr>) = Some S1"
    "shiftSizesRight (int (length xs) + 1) (int (length xs) + int (length ys)) S1 = Some (S\<lparr>oaPma := xs @ b # ys @ zs, sizeManager := m\<rparr>)"
    by (auto simp: bind_eq_Some_conv)
  then show ?thesis
    using m(2) loop e v set ps(2,5,6) by (intro exI [of _ m]) (simp add: writeBlockInPlace_def oaSetting_def isEmpty_def)
qed

lemma writeBlockInPlace_back:
  assumes set: "oaSetting P S l r" and b: "wfBlock P b" "0 < bsize b"
    and ps: "oaPma S = xs @ n # ys @ us @ ws" "isEmpty n" "list_all (\<lambda>b. \<not> isEmpty b) (ys @ us)" "us \<noteq> []" "l \<le> length xs"
      "length xs + length ys + 1 = t" "t + length us = r"
  shows "\<exists>m. writeBlockInPlace P b (int t) (mkInterval (int l) (int r)) S =
     Some (int t - 1, S\<lparr>oaPma := xs @ ys @ b # us @ ws, sizeManager := m\<rparr>) \<and> hInv (blockSizes (S\<lparr>oaPma := xs @ ys @ b # us @ ws\<rparr>)) (oaSize S) m"
proof -
  obtain v where v: "get b 0 = Some v" "head b = keyOfValue P v" using wfBlock_first [OF b] by blast
  have nb: "block b \<noteq> None" using b(1) by (auto simp: wfBlock_def okBlock_def)
  have t: "int t - 1 = int (length xs) + int (length ys)" "int t - 2 = int (length xs) + int (length ys) - 1" using ps(6) by auto
  have "oaPma S ! t = hd us" using ps by (cases us) (auto simp: nth_append)
  then have e: "oaEmptyAt P S (int t) = Some False"
    using oaEmptyAt_ok [of P S "int t"] set ps by (cases us) (auto simp: oaSetting_def)
  obtain bs c where bc: "bs @ [c] = b # us" "bs = butlast (b # us)" "c = last (b # us)" using append_butlast_last_id [of "b # us"] by blast
  have lbs: "length bs = length us" using arg_cong [OF bc(1), of length] by simp
  have "list_all (\<lambda>b. block b \<noteq> None) (b # us)" using nb ps(3) by (auto simp: isEmpty_def)
  then have nc: "list_all (\<lambda>b. block b \<noteq> None) (bs @ [c])" unfolding bc(1) .
  have loop1: "shiftRightLoop (int r) (int t) b (oaPma S) = Some (int r, c, (xs @ n # ys) @ bs @ ws)"
  proof -
    have "shiftRightLoop (int r) (int (length (xs @ n # ys))) b ((xs @ n # ys) @ us @ ws) = Some (int r, last (b # us), (xs @ n # ys) @ butlast (b # us) @ ws)"
      by (rule shiftRightLoop_full) (use nb ps in \<open>auto simp: isEmpty_def\<close>)
    moreover have "length (xs @ n # ys) = t" "(xs @ n # ys) @ us @ ws = oaPma S" using ps(1,6) by simp_all
    ultimately show ?thesis using bc(2,3) by (simp only:)
  qed
  have "int r - 1 = int (length xs) + int (length (ys @ bs))" using ps(6,7) lbs by simp
  then have "shiftLeftLoop (int l) (int r - 1) c (xs @ n # (ys @ bs) @ ws) = Some (int (length xs) - 1, n, xs @ (ys @ bs) @ c # ws)"
    using shiftLeftLoop_free [of "ys @ bs" c n "int l" xs ws] nc ps(2,3,5) by (simp add: isEmpty_def)
  moreover have "xs @ (ys @ bs) @ c # ws = xs @ ys @ b # us @ ws" using arg_cong [OF bc(1), of "\<lambda>zs. xs @ ys @ zs @ ws"] by simp
  ultimately have loop2: "shiftLeftLoop (int l) (int r - 1) c ((xs @ n # ys) @ bs @ ws) = Some (int (length xs) - 1, n, xs @ ys @ b # us @ ws)" by simp
  obtain m where m: "(adjustSize (int t - 1) 0 (bsize b) (S\<lparr>oaPma := xs @ ys @ b # us @ ws\<rparr>)
      \<bind> shiftSizesLeft (int (length xs)) (int t - 2)) = Some (S\<lparr>oaPma := xs @ ys @ b # us @ ws, sizeManager := m\<rparr>)"
    "hInv (blockSizes (S\<lparr>oaPma := xs @ ys @ b # us @ ws\<rparr>)) (oaSize S) m"
    using sizes_shiftLeft [OF set ps(1,2), of b] ps(6,7) t by auto
  then obtain S1 where "adjustSize (int t - 1) 0 (bsize b) (S\<lparr>oaPma := xs @ ys @ b # us @ ws\<rparr>) = Some S1"
    "shiftSizesLeft (int (length xs)) (int t - 2) S1 = Some (S\<lparr>oaPma := xs @ ys @ b # us @ ws, sizeManager := m\<rparr>)"
    by (auto simp: bind_eq_Some_conv)
  moreover obtain cells where "block c = Some cells" using nc by auto
  moreover have "t \<noteq> r" using ps(4,7) by auto
  moreover have "(xs @ ys @ b # us @ ws) ! nat (int t - 1) = b" "int t - 1 < int (length (oaPma S))" unfolding t ps(1) by (simp_all add: nth_append nat_add_distrib)
  ultimately show ?thesis
    using m(2) loop1 loop2 e v set ps(5-7) by (intro exI [of _ m]) (simp add: writeBlockInPlace_def oaSetting_def isEmpty_def)
qed


lemma writeBlockInPlace_ok:
  assumes set: "oaSetting P S l r" and t: "l \<le> t" "t \<le> r" and b: "wfBlock P b" "0 < bsize b"
    and free: "l \<le> j" "j < r" "isEmpty (oaPma S ! j)"
  shows "\<exists>i ps' m. writeBlockInPlace P b (int t) (mkInterval (int l) (int r)) S = Some (int i, S\<lparr>oaPma := ps', sizeManager := m\<rparr>) \<and>
     insertedAt (oaPma S) l r t b i ps' \<and> hInv (blockSizes (S\<lparr>oaPma := ps'\<rparr>)) (oaSize S) m"
proof -
  have r: "r \<le> length (oaPma S)" using set by (simp add: oaSetting_def)
  consider (right) j' where "t \<le> j'" "j' < r" "isEmpty (oaPma S ! j')" | (left) "\<forall>j'. t \<le> j' \<and> j' < r \<longrightarrow> \<not> isEmpty (oaPma S ! j')" by blast
  then show ?thesis
  proof cases
    case right
    obtain xs ys n zs where d: "oaPma S = xs @ ys @ n # zs" "length xs = t" "isEmpty n" "list_all (\<lambda>b. \<not> isEmpty b) ys" "length (xs @ ys) \<le> j'"
      by (rule free_right [OF right(1) order.strict_trans2 [OF right(2) r] right(3)])
    have ins: "insertedAt (oaPma S) l r t b t (xs @ b # ys @ zs)" unfolding insertedAt_def using d right(2) by fastforce
    show ?thesis
    proof (cases "ys = []")
      case True
      then show ?thesis using writeBlockInPlace_free [OF set b, of xs n zs] ins d right(2) t by auto
    next
      case False
      then show ?thesis using writeBlockInPlace_right [OF set b d(1,3,4)] ins d right(2) t by auto
    qed
  next
    case left
    then have jt: "j < t" using free by (meson not_less)
    obtain xs n ys zs where d: "oaPma S = xs @ n # ys @ zs" "length xs + length ys + 1 = t" "isEmpty n" "list_all (\<lambda>b. \<not> isEmpty b) ys" "l \<le> length xs"
      by (rule free_left [OF free(1) jt order_trans [OF t(2) r] free(3)])
    have ins: "insertedAt (oaPma S) l r t b (t - 1) (xs @ ys @ b # zs)" unfolding insertedAt_def using d t by fastforce
    have t1: "int (t - 1) = int t - 1" using jt by simp
    let ?us = "take (r - t) zs" and ?ws = "drop (r - t) zs"
    have len: "length ?us = r - t" using r d(1,2) by simp
    show ?thesis
    proof (cases "t = r")
      case True
      then have "length xs + length ys + 1 = r" using d(2) by simp
      from writeBlockInPlace_left [OF set b d(1,3,4,5) this]
      obtain m where "writeBlockInPlace P b (int t) (mkInterval (int l) (int r)) S = Some (int (t - 1), S\<lparr>oaPma := xs @ ys @ b # zs, sizeManager := m\<rparr>)"
        "hInv (blockSizes (S\<lparr>oaPma := xs @ ys @ b # zs\<rparr>)) (oaSize S) m" using t1 True by auto
      then show ?thesis using ins by blast
    next
      case False
      have "\<not> isEmpty (?us ! k)" if "k < r - t" for k
      proof -
        have "((xs @ n # ys) @ zs) ! (length (xs @ n # ys) + k) = zs ! k" by (rule nth_append_length_plus)
        moreover have "(xs @ n # ys) @ zs = oaPma S" "length (xs @ n # ys) = t" using d(1,2) by simp_all
        ultimately have "oaPma S ! (t + k) = zs ! k" by (simp only:)
        then show ?thesis using left [rule_format, of "t + k"] that by simp
      qed
      then have "list_all (\<lambda>b. \<not> isEmpty b) ?us" using len by (auto simp: list_all_length)
      then have us: "list_all (\<lambda>b. \<not> isEmpty b) (ys @ ?us)" using d(4) by simp
      have "?us \<noteq> []" using False t(2) len by auto
      moreover have "oaPma S = xs @ n # ys @ ?us @ ?ws" "t + length ?us = r" using d(1) len t(2) by simp_all
      ultimately obtain m where "writeBlockInPlace P b (int t) (mkInterval (int l) (int r)) S = Some (int (t - 1), S\<lparr>oaPma := xs @ ys @ b # zs, sizeManager := m\<rparr>)"
        "hInv (blockSizes (S\<lparr>oaPma := xs @ ys @ b # zs\<rparr>)) (oaSize S) m"
        using writeBlockInPlace_back [OF set b, of xs n ys ?us ?ws t] d(2,3,5) us t1 by auto
      then show ?thesis using ins by blast
    qed
  qed
qed

lemma insertedAt_ok:
  assumes ins: "insertedAt ps l r t b i ps'" and b: "\<not> isEmpty b" and lt: "l \<le> t" and r: "r \<le> length ps"
  shows "length ps' = length ps" "l \<le> i" "i < r" "i = t \<or> i + 1 = t" "ps' ! i = b"
    "blocksIn ps' l i = blocksIn ps l t" "blocksIn ps' (i + 1) r = blocksIn ps t r"
    "\<And>j. j < l \<or> r \<le> j \<Longrightarrow> ps' ! j = ps ! j" "set ps' \<subseteq> insert b (set ps)"
proof -
  obtain xs n ys zs where e: "isEmpty n" "list_all (\<lambda>b. \<not> isEmpty b) ys"
    and d: "ps = xs @ ys @ n # zs \<and> ps' = xs @ b # ys @ zs \<and> length xs = t \<and> i = t \<and> length (xs @ ys) < r \<or>
      ps = xs @ n # ys @ zs \<and> ps' = xs @ ys @ b # zs \<and> l \<le> length xs \<and> length xs + length ys + 1 = t \<and> i = t - 1 \<and> t \<le> r"
    using ins unfolding insertedAt_def by blast
  have ys: "filter (\<lambda>b. \<not> isEmpty b) ys = ys" using e(2) by (simp add: list_all_iff)
  show "length ps' = length ps" "l \<le> i" "i < r" "i = t \<or> i + 1 = t" "set ps' \<subseteq> insert b (set ps)" using d lt by auto
  show "ps' ! i = b" using d
  proof
    assume "ps = xs @ n # ys @ zs \<and> ps' = xs @ ys @ b # zs \<and> l \<le> length xs \<and> length xs + length ys + 1 = t \<and> i = t - 1 \<and> t \<le> r"
    then have "ps' = (xs @ ys) @ b # zs" "i = length (xs @ ys)" by auto
    then show ?thesis by (metis nth_append_length)
  qed auto
  show "blocksIn ps' l i = blocksIn ps l t" using d
  proof
    assume "ps = xs @ n # ys @ zs \<and> ps' = xs @ ys @ b # zs \<and> l \<le> length xs \<and> length xs + length ys + 1 = t \<and> i = t - 1 \<and> t \<le> r"
    then have "slice ps' l i = drop l xs @ ys" "slice ps l t = drop l xs @ n # ys" by (auto simp: slice_def)
    then show ?thesis using e(1) by (simp add: blocksIn_def)
  qed (use lt in \<open>auto simp: blocksIn_def slice_def\<close>)
  show "blocksIn ps' (i + 1) r = blocksIn ps t r" using d
  proof
    assume a: "ps = xs @ ys @ n # zs \<and> ps' = xs @ b # ys @ zs \<and> length xs = t \<and> i = t \<and> length (xs @ ys) < r"
    define k where "k = r - t - length ys - 1"
    have k: "r - t = length ys + 1 + k" "r - Suc t = length ys + k" using a by (auto simp: k_def)
    have "slice ps' (i + 1) r = ys @ take k zs" "slice ps t r = ys @ n # take k zs" using a k by (auto simp: slice_def)
    then show ?thesis using e(1) by (simp add: blocksIn_def)
  next
    assume "ps = xs @ n # ys @ zs \<and> ps' = xs @ ys @ b # zs \<and> l \<le> length xs \<and> length xs + length ys + 1 = t \<and> i = t - 1 \<and> t \<le> r"
    then show ?thesis by (auto simp: blocksIn_def slice_def)
  qed
  show "ps' ! j = ps ! j" if "j < l \<or> r \<le> j" for j
    using d that lt by (auto simp: nth_append nth_Cons')
qed

text \<open>The new array.\<close>

lemma newOaSds_wf: "wfOa P (newOaSds P garbage) \<and> oaUsed (newOaSds P garbage) = []"
proof -
  let ?z = "replicate (nat InitialArrayCapacity) (0 :: int)"
  have "totalSize ?z (i * 64) (i * 64 + 64) = 0" if "0 \<le> i" "i < 1" for i
    unfolding totalSize_def by (rule sum.neutral) (use that in \<open>auto simp: InitialArrayCapacity_def nat_less_iff\<close>)
  then have "hInv ?z 0 (newHierarchical 0)"
    by (auto simp: hInv_def fixedWidth_def newHierarchical_def h_aggregateIndex_def Let_def InitialArrayCapacity_def cdiv_def)
  then show ?thesis
    by (auto simp: wfOa_def oaUsed_def newOaSds_def makeEntries_def blockSizes_def okEntries_def entriesKeys_def InitialArrayCapacity_def)
qed

section \<open>Properties\<close>

text \<open>C13. On a valid overallocated array, \<open>contains\<close> and \<open>rangeQuery\<close> answer as the sorted sequence of the stored elements
  does, \<open>find\<close> returns an element with the key or \<open>end()\<close>, and no assertion fails.\<close>

theorem oa_queries_refine:
  assumes "wfOa P S"
  shows "oaContains P S e = Some (e \<in> set (entriesKeys P (oaUsed S))) \<and>
     oaRangeQuery P S left right f s =
      Some (fold f (filter (\<lambda>v. left \<le> keyOfValue P v \<and> keyOfValue P v < right) (entriesElems (oaUsed S))) s) \<and>
     (\<exists>it. oaFind P S e = Some it \<and>
      (if e \<in> set (entriesKeys P (oaUsed S)) then \<exists>v. itDeref (oaArrayOf P S) it = Some v \<and> keyOfValue P v = e
       else it = itEnd (oaArrayOf P S)))"
  using oa.contains_ok [of P S e] oa.rangeQuery_ok [of P S left right f s] oa.find_ok [of P S e] assms
  by (auto simp: oaContains_def oaRangeQuery_def oaFind_def split: if_splits)

text \<open>An array with three entries in a capacity of 64.\<close>

definition demoOa :: "Hierarchical \<Rightarrow> (nat, nat) oaSds" where
  "demoOa m = (newOaSds (demoParams False) [])\<lparr>oaSize := 3, oaCapacity := 64, oaSwapCapacity := 64,
     oaPma := demoEntries @ replicate 61 (emptyEntry (demoParams False)), sizeManager := m\<rparr>"

lemma demoOa_sel [simp]:
  "oaSize (demoOa m) = 3" "oaCapacity (demoOa m) = 64" "oaPma (demoOa m) = demoEntries @ replicate 61 (emptyEntry (demoParams False))"
  "sizeManager (demoOa m) = m" "oaUsed (demoOa m) = demoEntries" "blockSizes (demoOa m) = [2, 0, 3] @ replicate 61 0"
  by (simp_all add: demoOa_def oaUsed_def demoEntries_def blockSizes_def)

lemma demoOa_wf: "\<exists>m. wfOa (demoParams False) (demoOa m)"
proof -
  obtain m where "hInv ([2, 0, 3] @ replicate 61 0) 3 m"
    using newHierarchical_recompute [of 3 "[2, 0, 3] @ replicate 61 0"] by auto
  then have "wfOa (demoParams False) (demoOa m)"
    using demoSds_wf(1) by (auto simp: wfOa_def wfPma_def usedEntries_def demoSds_def demoEntries_def)
  then show ?thesis ..
qed

theorem oa_queries_refine_witness:
  "\<exists>m. oaContains (demoParams False) (demoOa m) 7 = Some True \<and> oaContains (demoParams False) (demoOa m) 6 = Some False \<and>
     oaRangeQuery (demoParams False) (demoOa m) 2 8 (#) [] = Some [7, 5, 2]"
proof -
  obtain m where "wfOa (demoParams False) (demoOa m)" using demoOa_wf ..
  from oa_queries_refine [OF this, of 7 2 8 "(#)" "[]"] oa_queries_refine [OF this, of 6 2 8 "(#)" "[]"] show ?thesis by (intro exI [of _ m]) auto
qed

text \<open>C14. Writing a block in place at an index of a range with at least one free entry: the block is inserted into the
  sequence of the blocks of the range in front of the blocks at and behind the index and behind all others, no entry
  outside the range changes, the returned index is that of the block, and the aggregates of the size manager stay the
  sums of the block sizes.\<close>

theorem writeBlockInPlace_inserts:
  assumes "oaSetting P S l r" and "l \<le> t" and "t \<le> r" and "wfBlock P b" and "0 < bsize b"
    and "l \<le> j" and "j < r" and "isEmpty (oaPma S ! j)"
  shows "\<exists>i S'. writeBlockInPlace P b (int t) (mkInterval (int l) (int r)) S = Some (int i, S') \<and> l \<le> i \<and> i < r \<and>
     oaPma S' ! i = b \<and> blocksIn (oaPma S') l i = blocksIn (oaPma S) l t \<and> blocksIn (oaPma S') (i + 1) r = blocksIn (oaPma S) t r \<and>
     (\<forall>k. k < l \<or> r \<le> k \<longrightarrow> oaPma S' ! k = oaPma S ! k) \<and> hInv (blockSizes S') (oaSize S') (sizeManager S')"
proof -
  obtain i ps' m where w: "writeBlockInPlace P b (int t) (mkInterval (int l) (int r)) S = Some (int i, S\<lparr>oaPma := ps', sizeManager := m\<rparr>)"
    and ins: "insertedAt (oaPma S) l r t b i ps'" and h: "hInv (blockSizes (S\<lparr>oaPma := ps'\<rparr>)) (oaSize S) m"
    using writeBlockInPlace_ok [OF assms] by blast
  have "\<not> isEmpty b" using assms(4) by (auto simp: wfBlock_def okBlock_def isEmpty_def)
  moreover have "r \<le> length (oaPma S)" using assms(1) by (simp add: oaSetting_def)
  ultimately show ?thesis
    using insertedAt_ok [OF ins _ assms(2)] w h by (intro exI [of _ i] exI [of _ "S\<lparr>oaPma := ps', sizeManager := m\<rparr>"]) (simp add: blockSizes_def)
qed

theorem writeBlockInPlace_inserts_witness:
  "\<exists>m i S'. writeBlockInPlace (demoParams False) (demoBlock [3, 4]) 2 (mkInterval 0 3) (demoOa m) = Some (int i, S') \<and>
     blocksIn (oaPma S') 0 i = [demoBlock [1, 2]] \<and> blocksIn (oaPma S') (i + 1) 3 = [demoBlock [5, 7, 8]]"
proof -
  obtain m where wf: "wfOa (demoParams False) (demoOa m)" using demoOa_wf ..
  have "okEntry (demoParams False) b" if "b \<in> set (oaPma (demoOa m))" for b
    using that wfOa_entry(1) [OF wf] by (metis in_set_conv_nth)
  then have "oaSetting (demoParams False) (demoOa m) 0 3" using wfOaD [OF wf] by (auto simp: oaSetting_def)
  from writeBlockInPlace_inserts [OF this, of 2 "demoBlock [3, 4]" 1]
  have "\<exists>i S'. writeBlockInPlace (demoParams False) (demoBlock [3, 4]) 2 (mkInterval 0 3) (demoOa m) = Some (int i, S') \<and>
     blocksIn (oaPma S') 0 i = blocksIn (oaPma (demoOa m)) 0 2 \<and> blocksIn (oaPma S') (i + 1) 3 = blocksIn (oaPma (demoOa m)) 2 3"
    by (auto simp: demoEntries_def)
  moreover have "blocksIn (oaPma (demoOa m)) 0 2 = [demoBlock [1, 2]]" "blocksIn (oaPma (demoOa m)) 2 3 = [demoBlock [5, 7, 8]]"
    by (simp_all add: blocksIn_def slice_def demoEntries_def eval_nat_numeral demoBlock_def isEmpty_def)
  ultimately show ?thesis by auto
qed

end
