(* ===== verification/Overallocated_Split.thy ===== *)
theory Overallocated_Split
  imports Overallocated_Write
begin

text \<open>
  Correctness of the insertion into an overflowing block of the overallocated array (\<open>oaSplitLoop\<close>,
  \<open>oaInsertWithSplit\<close>), for every place the finished blocks can go to: the locale \<open>block_sink\<close> states what the insertion
  needs of \<open>emitBlock\<close>, and the writing in place provides it.
\<close>

section \<open>Where finished blocks go\<close>

text \<open>
  The insertion into an overflowing block hands finished blocks to \<open>emitBlock\<close>, which writes them to the swap array or
  in place. \<open>sunk ws pos S\<close> says that \<open>ws\<close> was written so far; a sink takes at least \<open>limit\<close> blocks.
\<close>

locale block_sink =
  fixes P :: "('k::linorder, 'v) tparams" and swap :: bool and rng :: Interval and limit :: nat
    and sunk :: "('k, 'v) PmaEntry list \<Rightarrow> int \<times> int \<Rightarrow> ('k, 'v) oaSds \<Rightarrow> bool"
  assumes emit_ok: "sunk ws pos S \<Longrightarrow> okSized P b \<Longrightarrow> length ws < limit \<Longrightarrow>
    \<exists>pos' S'. emitBlock P swap rng b pos S = Some (pos', S') \<and> sunk (ws @ [b]) pos' S'"

lemma splitInv_blocks:
  assumes set: "splitSetting P b0 batch lo hi" and inv: "splitInv P b0 batch lo hi i cur rh hint ws"
  shows "length ws + (if rh = emptyEntry P then 1 else 2) \<le> (bsize b0 + (hi - lo)) div MinSize P"
proof -
  note d = splitSettingD [OF set]
  let ?bs = "ws @ cur # (if rh = emptyEntry P then [] else [rh])"
  have "length ?bs * MinSize P \<le> length (entriesElems ?bs)"
    using inv by (intro sum_sizes) (auto simp: splitInv_def split: if_splits)
  also have "entriesElems ?bs = fold (insKey (keyOfValue P)) (slice batch lo i) (elems b0)"
    using inv by (auto simp: splitInv_def)
  also have "length \<dots> \<le> bsize b0 + (hi - lo)"
  proof -
    have "length (slice batch lo i) \<le> hi - lo" using d(4) inv by (auto simp: splitInv_def)
    moreover have "length (elems b0) = bsize b0" using d(2) length_elems [of P b0] by (simp add: okSized_def)
    ultimately show ?thesis using length_fold_insKey(1) [of "keyOfValue P" "slice batch lo i" "elems b0"] by simp
  qed
  finally have "length ?bs * MinSize P \<le> bsize b0 + (hi - lo)" .
  then have "length ?bs \<le> (bsize b0 + (hi - lo)) div MinSize P"
    using d(1) by (simp add: less_eq_div_iff_mult_less_eq wfParams_def)
  then show ?thesis by (simp split: if_splits)
qed

context block_sink
begin

lemma oaSwitch_ok:
  assumes set: "splitSetting P b0 batch lo hi" and inv: "splitInv P b0 batch lo hi i cur rh hint ws" and i: "i < hi"
    and sk: "sunk ws pos S" and lim: "(bsize b0 + (hi - lo)) div MinSize P \<le> limit"
  shows "\<exists>cur' rh' h pos' S' ws'.
     (if \<not> isEmpty rh \<and> (head rh < keyOfValue P (batch ! i) \<or> keyOfValue P (batch ! i) = head rh)
      then do { (pos, S) \<leftarrow> emitBlock P swap rng cur pos S; Some (rh, emptyEntry P, 0, pos, S) }
      else Some (cur, rh, hint, pos, S)) = Some (cur', rh', h, pos', S') \<and>
     splitInv P b0 batch lo hi i cur' rh' h ws' \<and> sunk ws' pos' S' \<and>
     (rh' = emptyEntry P \<or> keyOfValue P (batch ! i) < head rh') \<and> (bsize cur' = MaxSize P \<longrightarrow> bsize cur = MaxSize P)"
proof (cases "rh \<noteq> emptyEntry P \<and> head rh \<le> keyOfValue P (batch ! i)")
  case True
  note d = splitSettingD [OF set]
  have "length ws < limit" using splitInv_blocks [OF set inv] lim by (auto split: if_splits)
  then obtain pos' S' where "emitBlock P swap rng cur pos S = Some (pos', S')" "sunk (ws @ [cur]) pos' S'"
    using emit_ok [OF sk splitInv_cur [OF inv]] by blast
  moreover have "bsize rh < MaxSize P" using inv True d(1) by (auto simp: splitInv_def wfParams_def)
  ultimately show ?thesis
    using splitInv_switch [OF set inv _ i] True splitInv_rh [OF d(1) inv] by (cases pos') auto
next
  case False
  then show ?thesis using inv sk splitInv_rh [OF splitSettingD(1) [OF set] inv] by (cases pos) auto
qed

lemma oaInsertPart_ok:
  assumes set: "splitSetting P b0 batch lo hi" and inv: "splitInv P b0 batch lo hi i cur rh hint ws" and i: "i < hi"
    and sk: "sunk ws pos S" and lim: "(bsize b0 + (hi - lo)) div MinSize P \<le> limit"
    and left: "rh = emptyEntry P \<or> keyOfValue P (batch ! i) < head rh"
  shows "\<exists>i' cur' rh' h pos' S' ws'.
     (if bsize cur < MaxSize P
      then do {
        (_, hint, cur) \<leftarrow> insertWithIndex P cur (batch ! i) hint;
        Some (int i + 1, cur, rh, hint, pos, S) }
      else do {
        (cur, newBlock) \<leftarrow> oaSplit P cur;
        if \<not> isEmpty rh
        then do {
          (pos, S) \<leftarrow> emitBlock P swap rng cur pos S;
          Some (int i, newBlock, rh, 0, pos, S) }
        else Some (int i, cur, newBlock, hint, pos, S) }) = Some (int i', cur', rh', h, pos', S') \<and>
     splitInv P b0 batch lo hi i' cur' rh' h ws' \<and> sunk ws' pos' S' \<and>
     (i' = Suc i \<or> i' = i \<and> bsize cur = MaxSize P \<and> bsize cur' < MaxSize P)"
proof (cases "bsize cur < MaxSize P")
  case True
  obtain b' h new where "insertWithIndex P cur (batch ! i) hint = Some (new, h, b')" "splitInv P b0 batch lo hi (Suc i) b' rh h ws"
    using splitInv_insert [OF set inv i True left] by blast
  then show ?thesis using True sk by (cases pos) (auto intro!: exI [of _ "Suc i"])
next
  case False
  note d = splitSettingD [OF set]
  have full: "bsize cur = MaxSize P" using False inv by (auto simp: splitInv_def okSized_def)
  show ?thesis
  proof (cases "rh = emptyEntry P")
    case True
    obtain l r where lr: "split P cur = Some (l, r)" "bsize l < MaxSize P" "splitInv P b0 batch lo hi i l r hint ws"
      using splitInv_split [OF set _ full, of i hint ws] inv True by blast
    then show ?thesis using True sk full oaSplit_eq [OF lr(1)] by (cases pos) auto
  next
    case False
    obtain l r where lr: "split P cur = Some (l, r)" "bsize r < MaxSize P" "okSized P l" "splitInv P b0 batch lo hi i r rh 0 (ws @ [l])"
      using splitInv_split_again [OF set inv full False i] by blast
    have "length ws < limit" using splitInv_blocks [OF set inv] lim by (auto split: if_splits)
    then obtain pos' S' where "emitBlock P swap rng l pos S = Some (pos', S')" "sunk (ws @ [l]) pos' S'"
      using emit_ok [OF sk lr(3)] by blast
    then show ?thesis using lr full oaSplit_eq [OF lr(1)] splitInv_rh [OF d(1) inv] False by (cases pos') auto
  qed
qed

lemma oaSplitLoop_ok:
  assumes set: "splitSetting P b0 batch lo hi" and lim: "(bsize b0 + (hi - lo)) div MinSize P \<le> limit"
  shows "splitInv P b0 batch lo hi i cur rh hint ws \<Longrightarrow> sunk ws pos S \<Longrightarrow>
    \<exists>cur' rh' h pos' ws' S'. oaSplitLoop P swap rng batch (int hi) (int i) cur rh hint pos S = Some (int hi, cur', rh', pos', S') \<and>
      splitInv P b0 batch lo hi hi cur' rh' h ws' \<and> sunk ws' pos' S'"
proof (induction "2 * (hi - i) + (if bsize cur = MaxSize P then 1 else 0)" arbitrary: i cur rh hint pos ws S rule: less_induct)
  case less
  show ?case
  proof (cases "i < hi")
    case True
    obtain cur1 rh1 h1 pos1 S1 ws1 where s: "(if \<not> isEmpty rh \<and> (head rh < keyOfValue P (batch ! i) \<or> keyOfValue P (batch ! i) = head rh)
      then do { (pos, S) \<leftarrow> emitBlock P swap rng cur pos S; Some (rh, emptyEntry P, 0, pos, S) }
      else Some (cur, rh, hint, pos, S)) = Some (cur1, rh1, h1, pos1, S1)"
      "splitInv P b0 batch lo hi i cur1 rh1 h1 ws1" "sunk ws1 pos1 S1"
      "rh1 = emptyEntry P \<or> keyOfValue P (batch ! i) < head rh1" "bsize cur1 = MaxSize P \<longrightarrow> bsize cur = MaxSize P"
      using oaSwitch_ok [OF set less(2) True less(3) lim] by blast
    obtain i2 cur2 rh2 h2 pos2 S2 ws2 where t: "(if bsize cur1 < MaxSize P
      then do {
        (_, hint, cur) \<leftarrow> insertWithIndex P cur1 (batch ! i) h1;
        Some (int i + 1, cur, rh1, hint, pos1, S1) }
      else do {
        (cur, newBlock) \<leftarrow> oaSplit P cur1;
        if \<not> isEmpty rh1
        then do {
          (pos, S) \<leftarrow> emitBlock P swap rng cur pos1 S1;
          Some (int i, newBlock, rh1, 0, pos, S) }
        else Some (int i, cur, newBlock, h1, pos1, S1) }) = Some (int i2, cur2, rh2, h2, pos2, S2)"
      "splitInv P b0 batch lo hi i2 cur2 rh2 h2 ws2" "sunk ws2 pos2 S2"
      "i2 = Suc i \<or> i2 = i \<and> bsize cur1 = MaxSize P \<and> bsize cur2 < MaxSize P"
      using oaInsertPart_ok [OF set s(2) True s(3) lim s(4)] by blast
    have "2 * (hi - i2) + (if bsize cur2 = MaxSize P then 1 else 0) < 2 * (hi - i) + (if bsize cur = MaxSize P then 1 else 0)"
      using t(4) s(5) True by auto
    then obtain cur' rh' h pos' ws' S' where r: "oaSplitLoop P swap rng batch (int hi) (int i2) cur2 rh2 h2 pos2 S2 = Some (int hi, cur', rh', pos', S')"
      "splitInv P b0 batch lo hi hi cur' rh' h ws'" "sunk ws' pos' S'"
      using less(1) [OF _ t(2,3)] by blast
    have "idx batch (int i) = Some (batch ! i)" using True splitSettingD(4) [OF set] by simp
    then have "oaSplitLoop P swap rng batch (int hi) (int i) cur rh hint pos S =
        oaSplitLoop P swap rng batch (int hi) (int i2) cur2 rh2 h2 pos2 S2"
      using True s(1) t(1) by (subst oaSplitLoop.simps) simp
    then show ?thesis using r by metis
  next
    case False
    then have "i = hi" using less(2) by (simp add: splitInv_def)
    then show ?thesis using less(2,3) by (subst oaSplitLoop.simps) auto
  qed
qed

text \<open>The whole insertion, once the block was taken out of the array (state \<open>S1\<close>).\<close>

lemma oaInsertWithSplit_ok:
  assumes set: "splitSetting P b0 batch lo hi" and lim: "(bsize b0 + (hi - lo)) div MinSize P \<le> limit"
    and b0: "idx (oaPma S) bi = Some b0"
    and out: "adjustSize bi (bsize b0) 0 S \<bind> setOaPma bi (emptyEntry P) = Some S1" and sk: "sunk [] (bi, ob) S1"
  shows "\<exists>ws pos S'. oaInsertWithSplit P swap bi batch (int lo) (int hi) rng ob S = Some (int hi, snd pos, S') \<and>
     sunk ws pos S' \<and> replaces P b0 (slice batch lo hi) ws \<and> ws \<noteq> [] \<and> length ws \<le> (bsize b0 + (hi - lo)) div MinSize P"
proof -
  note d = splitSettingD [OF set]
  obtain cur rh h pos ws S2 where loop: "oaSplitLoop P swap rng batch (int hi) (int lo) b0 (emptyEntry P) 0 (bi, ob) S1 = Some (int hi, cur, rh, pos, S2)"
    "splitInv P b0 batch lo hi hi cur rh h ws" "sunk ws pos S2"
    using oaSplitLoop_ok [OF set lim splitInv_start [OF set] sk] by blast
  note cnt = splitInv_blocks [OF set loop(2)]
  have ok: "okSized P cur" "rh = emptyEntry P \<or> okSized P rh" using loop(2) by (auto simp: splitInv_def)
  obtain pos1 S3 where S3: "emitBlock P swap rng cur pos S2 = Some (pos1, S3)" "sunk (ws @ [cur]) pos1 S3"
    using emit_ok [OF loop(3) ok(1)] cnt lim by (auto split: if_splits)
  define ws' where "ws' = ws @ cur # (if rh = emptyEntry P then [] else [rh])"
  have "\<exists>pos2 S4. (if \<not> isEmpty rh then emitBlock P swap rng rh pos1 S3 else Some (pos1, S3)) = Some (pos2, S4) \<and> sunk ws' pos2 S4"
  proof (cases "rh = emptyEntry P")
    case True
    then show ?thesis using S3(2) by (cases pos1) (auto simp: ws'_def)
  next
    case False
    then obtain pos2 S4 where "emitBlock P swap rng rh pos1 S3 = Some (pos2, S4)" "sunk ((ws @ [cur]) @ [rh]) pos2 S4"
      using emit_ok [OF S3(2), of rh] ok(2) cnt lim by auto
    then show ?thesis using False splitInv_rh [OF d(1) loop(2)] by (cases pos2) (auto simp: ws'_def)
  qed
  then obtain pos2 S4 where S4: "(if \<not> isEmpty rh then emitBlock P swap rng rh pos1 S3 else Some (pos1, S3)) = Some (pos2, S4)" "sunk ws' pos2 S4" by blast
  obtain S0 where "adjustSize bi (bsize b0) 0 S = Some S0" "setOaPma bi (emptyEntry P) S0 = Some S1"
    using out by (auto simp: bind_eq_Some_conv)
  then have "oaInsertWithSplit P swap bi batch (int lo) (int hi) rng ob S = Some (int hi, snd pos2, S4)"
    using b0 loop(1) S3(1) S4(1) by (simp add: oaInsertWithSplit_def)
  moreover have "replaces P b0 (slice batch lo hi) ws'" "ws' \<noteq> []" using splitInv_replaces [OF loop(2)] by (auto simp: ws'_def)
  moreover have "length ws' \<le> (bsize b0 + (hi - lo)) div MinSize P" using cnt by (auto simp: ws'_def)
  ultimately show ?thesis using S4(2) by blast
qed

end

section \<open>The sink in place\<close>

text \<open>
  The entry \<open>t\<close> of the range \<open>[l, r)\<close> is free in \<open>S1\<close>; the blocks \<open>ws\<close> are inserted there, the next one goes to the
  position \<open>p\<close>. The entries between \<open>t\<close> and \<open>p\<close> hold written blocks, wherever others were shifted to.
\<close>

definition placed ::
  "('k::linorder, 'v) tparams \<Rightarrow> nat \<Rightarrow> nat \<Rightarrow> nat \<Rightarrow> nat \<Rightarrow> ('k, 'v) oaSds \<Rightarrow> ('k, 'v) PmaEntry list \<Rightarrow> int \<times> int \<Rightarrow> ('k, 'v) oaSds \<Rightarrow> bool" where
  "placed P l r t n S1 ws pos S \<longleftrightarrow> wfParams P \<and> l \<le> t \<and> t < r \<and> length (blocksIn (oaPma S1) l r) + n \<le> r - l \<and>
     (\<exists>p ps m. fst pos = int p \<and> S = S1\<lparr>oaPma := ps, sizeManager := m\<rparr> \<and> oaSetting P S l r \<and> length ps = length (oaPma S1) \<and>
        blocksIn ps l p = blocksIn (oaPma S1) l t @ ws \<and> blocksIn ps p r = blocksIn (oaPma S1) t r \<and>
        (\<forall>k. k < l \<or> r \<le> k \<longrightarrow> ps ! k = oaPma S1 ! k) \<and> (\<forall>w\<in>set ws. okSized P w) \<and>
        (if ws = [] then p = t \<and> isEmpty (ps ! t) else t < p \<and> p \<le> r \<and> (\<forall>k. t \<le> k \<and> k < p \<longrightarrow> ps ! k \<in> set ws)))"

lemma blocksIn_split: "l \<le> p \<Longrightarrow> p \<le> r \<Longrightarrow> blocksIn ps l r = blocksIn ps l p @ blocksIn ps p r"
  by (simp add: blocksIn_def slice_append [of l p r])

lemma blocksIn_single: "i < length ps \<Longrightarrow> blocksIn ps i (Suc i) = (if isEmpty (ps ! i) then [] else [ps ! i])"
  by (simp add: blocksIn_def slice_Suc)

lemma free_entry:
  assumes "length (blocksIn ps l r) < r - l" "r \<le> length ps"
  obtains j where "l \<le> j" "j < r" "isEmpty (ps ! j)"
proof -
  have "\<exists>x\<in>set (slice ps l r). isEmpty x"
  proof (rule ccontr)
    assume "\<not> ?thesis"
    then have "blocksIn ps l r = slice ps l r" by (simp add: blocksIn_def)
    then show False using assms by simp
  qed
  then show ?thesis using that assms(2) by (auto simp: in_slice)
qed

lemma insertedAt_run:
  assumes ins: "insertedAt ps l r p b i ps'" and t: "t < p" "p \<le> length ps" and run: "\<forall>k. t \<le> k \<and> k < p \<longrightarrow> ps ! k \<in> X" and X: "\<forall>x\<in>X. \<not> isEmpty x"
    and k: "t \<le> k" "k \<le> i"
  shows "ps' ! k \<in> insert b X"
proof -
  obtain xs n ys zs where e: "isEmpty n"
    and d: "ps = xs @ ys @ n # zs \<and> ps' = xs @ b # ys @ zs \<and> length xs = p \<and> i = p \<or>
      ps = xs @ n # ys @ zs \<and> ps' = xs @ ys @ b # zs \<and> length xs + length ys + 1 = p \<and> i = p - 1"
    using ins unfolding insertedAt_def by blast
  show ?thesis using d
  proof
    assume a: "ps = xs @ ys @ n # zs \<and> ps' = xs @ b # ys @ zs \<and> length xs = p \<and> i = p"
    then have "k = p \<or> k < p \<and> ps' ! k = ps ! k" using k by (auto simp: nth_append)
    moreover have "k = p \<Longrightarrow> ps' ! k = b" using a by auto
    ultimately show ?thesis using run k by auto
  next
    assume a: "ps = xs @ n # ys @ zs \<and> ps' = xs @ ys @ b # zs \<and> length xs + length ys + 1 = p \<and> i = p - 1"
    then have "ps ! length xs = n" by simp
    then have xs: "length xs < t" using run X e a by (metis add_lessD1 less_add_one not_le_imp_less)
    show ?thesis
    proof (cases "k = i")
      case True
      have "ps' = (xs @ ys) @ b # zs" "k = length (xs @ ys)" using a True by auto
      then show ?thesis by (metis insertI1 nth_append_length)
    next
      case False
      then have "k - length xs < length ys" using a k xs by linarith
      then have "ps' ! k = ps ! Suc k" using a k xs by (auto simp: nth_append Suc_diff_le)
      then show ?thesis using run k False a by auto
    qed
  qed
qed

lemma oaSetting_write:
  assumes "oaSetting P S l r" "insertedAt (oaPma S) l r t b i ps'" "okEntry P b" "hInv (blockSizes (S\<lparr>oaPma := ps'\<rparr>)) (oaSize S) m" "\<not> isEmpty b" "l \<le> t"
  shows "oaSetting P (S\<lparr>oaPma := ps', sizeManager := m\<rparr>) l r"
proof -
  have "r \<le> length (oaPma S)" using assms(1) by (simp add: oaSetting_def)
  note i = insertedAt_ok(1,9) [OF assms(2,5,6) this]
  show ?thesis using assms(1,3,4) i by (auto simp: oaSetting_def blockSizes_def)
qed

lemma placed_emit:
  assumes pl: "placed P l r t n S1 ws pos S" and b: "okSized P b" and n: "length ws < n"
  shows "\<exists>pos' S'. emitBlock P False (mkInterval (int l) (int r)) b pos S = Some (pos', S') \<and> placed P l r t n S1 (ws @ [b]) pos' S'"
proof -
  have pl': "wfParams P" "l \<le> t" "t < r" "length (blocksIn (oaPma S1) l r) + n \<le> r - l" using pl by (auto simp: placed_def)
  obtain p ps m where p: "fst pos = int p" "S = S1\<lparr>oaPma := ps, sizeManager := m\<rparr>" "oaSetting P S l r" "length ps = length (oaPma S1)"
    "blocksIn ps l p = blocksIn (oaPma S1) l t @ ws" "blocksIn ps p r = blocksIn (oaPma S1) t r"
    "\<forall>k. k < l \<or> r \<le> k \<longrightarrow> ps ! k = oaPma S1 ! k" "\<forall>w\<in>set ws. okSized P w"
    "if ws = [] then p = t \<and> isEmpty (ps ! t) else t < p \<and> p \<le> r \<and> (\<forall>k. t \<le> k \<and> k < p \<longrightarrow> ps ! k \<in> set ws)"
    using pl by (auto simp: placed_def)
  have ps: "oaPma S = ps" "oaSize S = oaSize S1" using p(2) by simp_all
  have r: "r \<le> length ps" using p(3) ps by (simp add: oaSetting_def)
  have lp: "l \<le> p" "p \<le> r" using p(9) pl' by (auto split: if_splits)
  have wf: "wfBlock P b" "0 < bsize b" and ne: "\<not> isEmpty b" using b pl'(1) okSized_nonempty [OF pl'(1) b] by (auto simp: okSized_def wfParams_def)
  have okb: "okEntry P b" using okSized_okEntry [OF pl'(1)] b by blast
  have wsne: "\<forall>x\<in>set ws. \<not> isEmpty x" using p(8) okSized_nonempty [OF pl'(1)] by blast
  have "length (blocksIn ps l r) = length (blocksIn (oaPma S1) l r) + length ws"
    using blocksIn_split [OF lp, of ps] blocksIn_split [of l t r "oaPma S1"] p(5,6) pl' by simp
  then have "length (blocksIn ps l r) < r - l" using pl'(4) n by simp
  then obtain j where j: "l \<le> j" "j < r" "isEmpty (ps ! j)" by (rule free_entry [OF _ r])
  have "\<exists>i ps' m'. writeBlockInPlace P b (int p) (mkInterval (int l) (int r)) S = Some (int i, S1\<lparr>oaPma := ps', sizeManager := m'\<rparr>) \<and>
     insertedAt ps l r p b i ps' \<and> hInv (blockSizes (S\<lparr>oaPma := ps'\<rparr>)) (oaSize S) m' \<and> (ws = [] \<longrightarrow> i = p)"
  proof (cases "ws = []")
    case True
    then have pt: "p = t" "isEmpty (ps ! t)" using p(9) by auto
    have "t < length ps" using r pl'(3) by simp
    then have d: "ps = take t ps @ ps ! t # drop (Suc t) ps" by (rule id_take_nth_drop)
    have len: "length (take t ps) = t" using r pl'(3) by simp
    obtain m' where m': "writeBlockInPlace P b (int t) (mkInterval (int l) (int r)) S =
        Some (int t, S\<lparr>oaPma := take t ps @ b # drop (Suc t) ps, sizeManager := m'\<rparr>)"
      "hInv (blockSizes (S\<lparr>oaPma := take t ps @ b # drop (Suc t) ps\<rparr>)) (oaSize S) m'"
      using writeBlockInPlace_free [OF p(3) wf, of "take t ps" "ps ! t" "drop (Suc t) ps"] d ps(1) pt(2) len pl' r by auto
    moreover have "insertedAt ps l r t b t (take t ps @ b # drop (Suc t) ps)"
      unfolding insertedAt_def using d pt(2) len pl' by (intro exI [of _ "take t ps"] exI [of _ "ps ! t"] exI [of _ "[]"] exI [of _ "drop (Suc t) ps"]) simp
    ultimately show ?thesis using pt(1) p(2) by auto
  next
    case False
    then show ?thesis using writeBlockInPlace_ok [OF p(3) lp wf j(1,2)] j(3) ps p(2) by auto
  qed
  then obtain i ps' m' where w: "writeBlockInPlace P b (int p) (mkInterval (int l) (int r)) S = Some (int i, S1\<lparr>oaPma := ps', sizeManager := m'\<rparr>)"
     "insertedAt ps l r p b i ps'" "hInv (blockSizes (S\<lparr>oaPma := ps'\<rparr>)) (oaSize S) m'" "ws = [] \<longrightarrow> i = p" by blast
  note i = insertedAt_ok [OF w(2) ne lp(1) r]
  have "blocksIn ps' i (Suc i) = [b]" using blocksIn_single [of i ps'] i(1,3,5) r ne by simp
  then have bl: "blocksIn ps' l (Suc i) = blocksIn (oaPma S1) l t @ ws @ [b]"
    using blocksIn_split [of l i "Suc i" ps'] i(2,6) p(5) by simp
  have "oaSetting P (S1\<lparr>oaPma := ps', sizeManager := m'\<rparr>) l r"
    using oaSetting_write [OF p(3) _ okb w(3) ne lp(1)] w(2) ps(1) p(2) by simp
  moreover have "\<forall>k. t \<le> k \<and> k < Suc i \<longrightarrow> ps' ! k \<in> set (ws @ [b])"
  proof (cases "ws = []")
    case True
    then show ?thesis using w(4) p(9) i(5) by (auto simp: less_Suc_eq)
  next
    case False
    then have "ps' ! k \<in> insert b (set ws)" if "t \<le> k" "k \<le> i" for k
      using insertedAt_run [OF w(2) _ _ _ wsne that] p(9) lp r by auto
    then show ?thesis by auto
  qed
  moreover have "t < Suc i" "Suc i \<le> r" using i(3,4) w(4) p(9) by (auto split: if_splits)
  ultimately have "placed P l r t n S1 (ws @ [b]) (1 + int i, snd pos) (S1\<lparr>oaPma := ps', sizeManager := m'\<rparr>)"
    using pl' p(4,6,7,8) b i(1,7,8) bl unfolding placed_def
    by (intro conjI exI [of _ "Suc i"] exI [of _ ps'] exI [of _ m']) auto
  moreover have "emitBlock P False (mkInterval (int l) (int r)) b pos S = Some ((1 + int i, snd pos), S1\<lparr>oaPma := ps', sizeManager := m'\<rparr>)"
    using w(1) p(1) by (cases pos) (simp add: emitBlock_def)
  ultimately show ?thesis by blast
qed

interpretation place: block_sink P False "mkInterval (int l) (int r)" n "placed P l r t n S1" for P l r t n S1
  by unfold_locales (rule placed_emit)

end
