(* ===== verification/Overallocated_Place.thy ===== *)
theory Overallocated_Place
  imports Overallocated_Split
begin

text \<open>
  Correctness of \<open>insertBatchRangeInPlace\<close>: the effect of inserting into one block (\<open>oaStep\<close>), valid arrays whose blocks
  have legal sizes (\<open>wfOaSized\<close>), and the loop over the batch, which refines the insertion of the elements into the
  sorted list \<open>oaContent\<close>.
\<close>

section \<open>Inserting into one block in place\<close>

lemma slice_update_out [simp]:
  assumes "t < lo \<or> hi \<le> t"
  shows "slice (xs[t := b]) lo hi = slice xs lo hi"
proof (cases "lo \<le> t \<and> hi \<le> t")
  case True
  then show ?thesis by (simp add: slice_def drop_update_swap take_update_cancel diff_le_mono)
qed (use assms in \<open>auto simp: slice_def\<close>)

text \<open>The block takes the elements: \<open>merge\<close> or \<open>mergeFaster\<close>, whichever the number of elements selects.\<close>

lemma mergeBlock_ok:
  assumes set: "splitSetting P b0 batch lo hi" "lo < hi" and fits: "bsize b0 + (hi - lo) \<le> MaxSize P"
    and st: "nullStale P b0" "MaxSize P \<le> 32768" and Z: "Z \<notin> keyOfValue P ` (set (elems b0) \<union> set batch)"
  shows "\<exists>b'. (if int (u16 (int hi - int lo)) \<ge> F then mergeFaster P Z b0 (drop lo batch) (u16 (int hi - int lo))
        else merge P b0 (drop lo batch) (u16 (int hi - int lo))) = Some b' \<and> replaces P b0 (slice batch lo hi) [b']"
proof -
  note d = splitSettingD [OF set(1)]
  have n: "u16 (int hi - int lo) = hi - lo" using fits wfParamsD [OF d(1)] set(2) by (subst u16_id) (auto simp: nat_diff_distrib)
  have sl: "take (hi - lo) (drop lo batch) = slice batch lo hi" by (simp add: slice_def)
  obtain b1 where b1: "merge P b0 (drop lo batch) (u16 (int hi - int lo)) = Some b1" "okSized P b1"
    "elems b1 = fold (insKey (keyOfValue P)) (slice batch lo hi) (elems b0)" "set (stale b1) \<subseteq> set (stale b0)"
    using merge_slice_ok [OF set fits] by blast
  then have r1: "replaces P b0 (slice batch lo hi) [b1]"
    using nullStale_subset [of P b0 b1] by (auto simp: replaces_def staleKeys_def)
  have nk: "\<forall>x\<in>set (slice batch lo hi). NULL_KEY P < keyOfValue P x"
    using set(1) set_slice_subset [of batch lo hi] by (auto simp: splitSetting_def)
  have "mfSetting P b0 (drop lo batch) (hi - lo)"
    using d st fits nk sorted_keys_slice [OF d(5)]
    by (auto simp: mfSetting_def sl okSized_def nullStale_def staleKeys_def IsTrivialType_def)
  moreover have "\<forall>x\<in>set (elems b0) \<union> set (take (hi - lo) (drop lo batch)). keyOfValue P x \<noteq> Z"
    using Z set_slice_subset [of batch lo hi] by (auto simp: sl)
  ultimately obtain b2 where b2: "mergeFaster P Z b0 (drop lo batch) (hi - lo) = Some b2" "wfBlock P b2"
    "elems b2 = fold (insKey (keyOfValue P)) (slice batch lo hi) (elems b0)" "nullStale P b2"
    "staleKeys P b2 \<subseteq> staleKeys P b0 \<union> {NULL_KEY P} \<union> keyOfValue P ` set (elems b2)"
    using mergeFaster_ok [of P b0 "drop lo batch" "hi - lo" Z] unfolding sl by blast
  have ok1: "okBlock P b1" "okBlock P b2" using b1(2) b2(2) by (auto simp: okSized_def wfBlock_def)
  have "bsize b2 = bsize b1" using length_elems [OF ok1(1)] length_elems [OF ok1(2)] b1(3) b2(3) by simp
  then have "replaces P b0 (slice batch lo hi) [b2]"
    using b1(2) b2(2-5) by (auto simp: replaces_def okSized_def)
  then show ?thesis using r1 b1(1) b2(1) by (auto simp: n)
qed

text \<open>The effect on the array: the blocks \<open>ws\<close> take the place of the block at \<open>t\<close>.\<close>

definition oaStep ::
  "('k::linorder, 'v) tparams \<Rightarrow> nat \<Rightarrow> nat \<Rightarrow> nat \<Rightarrow> 'v list \<Rightarrow> ('k, 'v) PmaEntry list \<Rightarrow> ('k, 'v) oaSds \<Rightarrow> ('k, 'v) oaSds \<Rightarrow> bool" where
  "oaStep P l r t vs ws S S' \<longleftrightarrow> ws \<noteq> [] \<and> replaces P (oaPma S ! t) vs ws \<and>
     (\<exists>p ps m. S' = S\<lparr>oaPma := ps, sizeManager := m\<rparr> \<and> oaSetting P S' l r \<and> length ps = length (oaPma S) \<and> t < p \<and> p \<le> r \<and>
        blocksIn ps l p = blocksIn (oaPma S) l t @ ws \<and> blocksIn ps p r = blocksIn (oaPma S) (Suc t) r \<and>
        (\<forall>k. k < l \<or> r \<le> k \<longrightarrow> ps ! k = oaPma S ! k) \<and> (\<forall>k. t \<le> k \<and> k < p \<longrightarrow> ps ! k \<in> set ws))"

lemma oaSetting_update:
  assumes set: "oaSetting P S l r" and t: "t < r" and b: "okEntry P b"
  shows "\<exists>m. h_adjustBlockSize (int t) (int (bsize (oaPma S ! t))) (int (bsize b)) (sizeManager S) = Some m \<and>
     oaSetting P (S\<lparr>oaPma := (oaPma S)[t := b], sizeManager := m\<rparr>) l r"
proof -
  have tl: "t < length (oaPma S)" "int t < oaSize S" using set t by (auto simp: oaSetting_def)
  obtain m where m: "h_adjustBlockSize (int t) (blockSizes S ! t) (int (bsize b)) (sizeManager S) = Some m"
    "hInv ((blockSizes S)[t := int (bsize b)]) (oaSize S) m"
    using hier.adjust_inv [of "blockSizes S" "oaSize S" "sizeManager S" "int t" "int (bsize b)"] set tl
    by (auto simp: oaSetting_def)
  then show ?thesis
    using set b tl set_update_subset_insert [of "oaPma S" t b] by (auto simp: oaSetting_def blockSizes_def map_update)
qed

lemma oaInsertElements_ok:
  assumes found: "findLastBatchElementForBlock P (oaArrayOf P S) batch (int lo) batchRange nextIndex rng' = Some (int hi)"
    and set: "splitSetting P (oaPma S ! t) batch lo hi" "lo < hi" and S: "oaSetting P S l r" and t: "l \<le> t" "t < r"
    and st: "nullStale P (oaPma S ! t)" "MaxSize P \<le> 32768" and Z: "Z \<notin> keyOfValue P ` (set (elems (oaPma S ! t)) \<union> set batch)"
    and room: "length (blocksIn (oaPma S) l r) + (bsize (oaPma S ! t) + (hi - lo)) div MinSize P \<le> Suc (r - l)"
  shows "\<exists>ob' ws S'. oaInsertElementsIntoBlock P Z False (int t) nextIndex rng' (mkInterval (int l) (int r)) batch (int lo) batchRange ob S =
       Some (int hi, ob', S') \<and> oaStep P l r t (slice batch lo hi) ws S S'"
proof -
  let ?b0 = "oaPma S ! t" and ?vs = "slice batch lo hi"
  note d = splitSettingD [OF set(1)]
  have tl: "t < length (oaPma S)" "int t < oaSize S" using S t by (auto simp: oaSetting_def)
  have ne: "\<not> isEmpty ?b0" using okSized_nonempty [OF d(1,2)] by simp
  have len: "length (blocksIn (oaPma S) l r) = length (blocksIn (oaPma S) l t) + 1 + length (blocksIn (oaPma S) (Suc t) r)"
    using blocksIn_split [of l t r "oaPma S"] blocksIn_split [of t "Suc t" r "oaPma S"] blocksIn_single [OF tl(1)] ne t by simp
  have upd: "blocksIn ((oaPma S)[t := b]) l t = blocksIn (oaPma S) l t" "blocksIn ((oaPma S)[t := b]) (Suc t) r = blocksIn (oaPma S) (Suc t) r" for b
    by (simp_all add: blocksIn_def)
  show ?thesis
  proof (cases "bsize ?b0 + (hi - lo) \<le> MaxSize P")
    case True
    obtain b' where b': "(if int (u16 (int hi - int lo)) \<ge> FasterMergeMinimum S then mergeFaster P Z ?b0 (drop lo batch) (u16 (int hi - int lo))
        else merge P ?b0 (drop lo batch) (u16 (int hi - int lo))) = Some b'" "replaces P ?b0 ?vs [b']"
      using mergeBlock_ok [OF set True st Z] by blast
    have ok: "okSized P b'" using b'(2) by (simp add: replaces_def)
    then obtain m where m: "h_adjustBlockSize (int t) (int (bsize ?b0)) (int (bsize b')) (sizeManager S) = Some m"
      "oaSetting P (S\<lparr>oaPma := (oaPma S)[t := b'], sizeManager := m\<rparr>) l r"
      using oaSetting_update [OF S t(2) okSized_okEntry [OF d(1)]] by blast
    have "blocksIn ((oaPma S)[t := b']) l (Suc t) = blocksIn (oaPma S) l t @ [b']"
      using blocksIn_split [of l t "Suc t" "(oaPma S)[t := b']"] blocksIn_single [of t "(oaPma S)[t := b']"] t(1) tl(1)
        okSized_nonempty [OF d(1) ok] upd by simp
    then have "oaStep P l r t ?vs [b'] S (S\<lparr>oaPma := (oaPma S)[t := b'], sizeManager := m\<rparr>)"
      unfolding oaStep_def using b'(2) m(2) t tl(1) upd
      by (intro conjI exI [of _ "Suc t"] exI [of _ "(oaPma S)[t := b']"] exI [of _ m]) (auto simp: less_Suc_eq)
    moreover have "int (bsize ?b0) + (int hi - int lo) \<le> int (MaxSize P)" using True set(2) by simp
    ultimately show ?thesis
      using found tl(1) b'(1) m(1) set(2)
      by (auto simp: oaInsertElementsIntoBlock_def oaBlockSizeAt_def oaInsertWithoutSplit_def setOaPma_def adjustSize_def Let_def)
  next
    case False
    obtain m where m: "h_adjustBlockSize (int t) (int (bsize ?b0)) (int (bsize (emptyEntry P))) (sizeManager S) = Some m"
      "oaSetting P (S\<lparr>oaPma := (oaPma S)[t := emptyEntry P], sizeManager := m\<rparr>) l r"
      using oaSetting_update [OF S t(2), of "emptyEntry P"] by (auto simp: okEntry_def)
    define S1 where "S1 = S\<lparr>oaPma := (oaPma S)[t := emptyEntry P], sizeManager := m\<rparr>"
    let ?n = "(bsize ?b0 + (hi - lo)) div MinSize P"
    have em: "blocksIn (oaPma S1) t (Suc t) = []" using blocksIn_single [of t "oaPma S1"] tl(1) by (simp add: S1_def)
    have S1b: "blocksIn (oaPma S1) l t = blocksIn (oaPma S) l t" "blocksIn (oaPma S1) t r = blocksIn (oaPma S) (Suc t) r"
      using upd blocksIn_split [of t "Suc t" r "oaPma S1"] em t by (simp_all add: S1_def)
    have "length (blocksIn (oaPma S1) l r) + ?n \<le> r - l"
      using room len blocksIn_split [of l t r "oaPma S1"] S1b t by simp
    then have "placed P l r t ?n S1 [] (int t, ob) S1"
      unfolding placed_def using d(1) t m(2) tl(1) S1b
      by (intro conjI exI [of _ t] exI [of _ "oaPma S1"] exI [of _ "sizeManager S1"]) (auto simp: S1_def)
    moreover have "idx (oaPma S) (int t) = Some ?b0" using tl(1) by simp
    moreover have "adjustSize (int t) (bsize ?b0) 0 S \<bind> setOaPma (int t) (emptyEntry P) = Some S1"
      using m(1) tl(1) by (simp add: adjustSize_def setOaPma_def S1_def)
    ultimately obtain ws pos S' where s: "oaInsertWithSplit P False (int t) batch (int lo) (int hi) (mkInterval (int l) (int r)) ob S = Some (int hi, snd pos, S')"
      "placed P l r t ?n S1 ws pos S'" "replaces P ?b0 ?vs ws" "ws \<noteq> []"
      using place.oaInsertWithSplit_ok [OF set(1) order_refl, of S "int t" S1 l r t S1 ob] by blast
    obtain p ps m' where p: "S' = S1\<lparr>oaPma := ps, sizeManager := m'\<rparr>" "oaSetting P S' l r" "length ps = length (oaPma S1)"
        "blocksIn ps l p = blocksIn (oaPma S1) l t @ ws" "blocksIn ps p r = blocksIn (oaPma S1) t r"
        "\<forall>k. k < l \<or> r \<le> k \<longrightarrow> ps ! k = oaPma S1 ! k" "t < p" "p \<le> r" "\<forall>k. t \<le> k \<and> k < p \<longrightarrow> ps ! k \<in> set ws"
      using s(2,4) by (auto simp: placed_def)
    have "oaStep P l r t ?vs ws S S'"
      unfolding oaStep_def using s(3,4) p S1b t
      by (intro conjI exI [of _ p] exI [of _ ps] exI [of _ m']) (auto simp: S1_def)
    moreover have "\<not> int (bsize ?b0) + (int hi - int lo) \<le> int (MaxSize P)" using False set(2) by simp
    ultimately show ?thesis
      using found tl(1) s(1) set(2) by (auto simp: oaInsertElementsIntoBlock_def oaBlockSizeAt_def Let_def)
  qed
qed

section \<open>Valid arrays of blocks with legal sizes\<close>

abbreviation oaContent :: "('k, 'v) oaSds \<Rightarrow> 'v list" where
  "oaContent S \<equiv> entriesElems (oaUsed S)"

definition okStored :: "('k::linorder, 'v) tparams \<Rightarrow> 'k set \<Rightarrow> ('k, 'v) PmaEntry \<Rightarrow> bool" where
  "okStored P K b \<longleftrightarrow> b = emptyEntry P \<or> okSized P b \<and> nullStale P b \<and> staleKeys P b \<subseteq> insert (NULL_KEY P) K"

definition wfOaSized :: "('k::linorder, 'v) tparams \<Rightarrow> ('k, 'v) oaSds \<Rightarrow> bool" where
  "wfOaSized P S \<longleftrightarrow> wfOa P S \<and> (\<forall>b\<in>set (oaUsed S). okStored P (keyOfValue P ` set (oaContent S)) b)"

lemma okStored_mono: "okStored P K b \<Longrightarrow> K \<subseteq> K' \<Longrightarrow> okStored P K' b"
  by (auto simp: okStored_def)

lemma elems_isEmpty: "isEmpty b \<Longrightarrow> elems b = []"
  by (simp add: isEmpty_def elems_def cellsOf_def)

lemma entriesElems_filter: "entriesElems (filter (\<lambda>b. \<not> isEmpty b) es) = entriesElems es"
  by (induction es) (auto simp: elems_isEmpty)

lemma entriesElems_blocksIn: "entriesElems (blocksIn ps a b) = entriesElems (slice ps a b)"
  by (simp add: blocksIn_def entriesElems_filter)

lemma set_entriesElems: "x \<in> set (entriesElems es) \<longleftrightarrow> (\<exists>b\<in>set es. x \<in> set (elems b))"
  by (auto simp: entriesElems_def)

lemma oaUsed_slice: "oaUsed S = slice (oaPma S) 0 (nat (oaSize S))"
  by (simp add: oaUsed_def slice_def)

lemma elems_slice_split: "a \<le> p \<Longrightarrow> p \<le> b \<Longrightarrow> entriesElems (slice ps a b) = entriesElems (slice ps a p) @ entriesElems (slice ps p b)"
  by (simp add: slice_append [of a p b])

lemma elems_slice_at:
  "a \<le> t \<Longrightarrow> t < b \<Longrightarrow> t < length ps \<Longrightarrow>
   entriesElems (slice ps a b) = entriesElems (slice ps a t) @ elems (ps ! t) @ entriesElems (slice ps (Suc t) b)"
  using elems_slice_split [of a t b ps] elems_slice_split [of t "Suc t" b ps] by (simp add: slice_Suc)

lemma slice_eqI:
  assumes "length xs = length ys" "\<And>k. a \<le> k \<Longrightarrow> k < b \<Longrightarrow> xs ! k = ys ! k"
  shows "slice xs a b = slice ys a b"
  unfolding slice_def
proof (rule nth_equalityI)
  fix i assume "i < length (take (b - a) (drop a xs))"
  then have "i < b - a" "a + i < length xs" "a + i < b" by auto
  then show "take (b - a) (drop a xs) ! i = take (b - a) (drop a ys) ! i" using assms by simp
qed (use assms(1) in simp)

lemma wfOaSizedD:
  assumes "wfOaSized P S"
  shows "wfOa P S" "nat (oaSize S) < length (oaPma S)" "strictly_sorted (map (keyOfValue P) (oaContent S))" "oaSetting P S l' (nat (oaSize S)) \<longleftrightarrow> l' \<le> nat (oaSize S)"
    "\<And>j. j < nat (oaSize S) \<Longrightarrow> okStored P (keyOfValue P ` set (oaContent S)) (oaPma S ! j)"
    "\<And>j. j < nat (oaSize S) \<Longrightarrow> oaPma S ! j \<noteq> emptyEntry P \<Longrightarrow> okSized P (oaPma S ! j)"
proof -
  show wf: "wfOa P S" using assms by (simp add: wfOaSized_def)
  note d = wfOaD [OF wf]
  show len: "nat (oaSize S) < length (oaPma S)" using d(1,2) by linarith
  show "strictly_sorted (map (keyOfValue P) (oaContent S))" using d(3) by (simp add: okEntries_def entriesKeys_elems)
  have "okEntry P b" if "b \<in> set (oaPma S)" for b using that wfOa_entry(1) [OF wf] by (metis in_set_conv_nth)
  then show "oaSetting P S l' (nat (oaSize S)) \<longleftrightarrow> l' \<le> nat (oaSize S)" using d by (auto simp: oaSetting_def)
  show st: "okStored P (keyOfValue P ` set (oaContent S)) (oaPma S ! j)" if "j < nat (oaSize S)" for j
  proof -
    have "oaPma S ! j \<in> set (oaUsed S)" using that d(5) len by (auto simp: oaUsed_def in_set_conv_nth)
    then show ?thesis using assms by (simp add: wfOaSized_def)
  qed
  show "okSized P (oaPma S ! j)" if "j < nat (oaSize S)" "oaPma S ! j \<noteq> emptyEntry P" for j
    using st [OF that(1)] that(2) by (simp add: okStored_def)
qed

lemma wfOaSized_ordered:
  assumes "wfOaSized P S" "i < j" "j < nat (oaSize S)" "x \<in> set (elems (oaPma S ! i))" "y \<in> set (elems (oaPma S ! j))"
  shows "keyOfValue P x < keyOfValue P y"
proof -
  note d = wfOaSizedD [OF assms(1)]
  have "oaContent S = entriesElems (slice (oaPma S) 0 j) @ elems (oaPma S ! j) @ entriesElems (slice (oaPma S) (Suc j) (nat (oaSize S)))"
    unfolding oaUsed_slice using assms(3) d(2) by (intro elems_slice_at) auto
  moreover have "x \<in> set (entriesElems (slice (oaPma S) 0 j))"
    unfolding set_entriesElems using assms(2-4) d(2) by (intro bexI [of _ "oaPma S ! i"]) (auto simp: in_slice)
  ultimately show ?thesis using d(3) assms(5) by (auto simp: sorted_wrt_append)
qed

text \<open>An update of the entries of a range.\<close>

lemma wfOa_update:
  assumes wf: "wfOa P S" and r: "r \<le> nat (oaSize S)" and S': "S' = S\<lparr>oaPma := ps, sizeManager := m\<rparr>" "length ps = length (oaPma S)"
    and frame: "\<And>k. r \<le> k \<Longrightarrow> ps ! k = oaPma S ! k" and set: "oaSetting P S' l r"
    and srt: "strictly_sorted (map (keyOfValue P) (oaContent S'))"
  shows "wfOa P S'"
proof -
  note d = wfOaD [OF wf]
  have "drop (nat (oaSize S)) ps = drop (nat (oaSize S)) (oaPma S)"
    using S'(2) frame r by (intro nth_equalityI) auto
  moreover have "\<forall>b\<in>set (oaUsed S'). okEntry P b" using set by (auto simp: oaSetting_def oaUsed_def dest: in_set_takeD)
  ultimately show ?thesis
    using wf set srt S' by (auto simp: wfOa_def okEntries_def entriesKeys_elems oaSetting_def)
qed

text \<open>What one step does to the elements.\<close>

lemma oaStep_elems:
  assumes step: "oaStep P l r t vs ws S S'" and t: "l \<le> t" "t < r" "r \<le> n" "n \<le> length (oaPma S)"
  shows "entriesElems (slice (oaPma S') l r) =
       entriesElems (slice (oaPma S) l t) @ fold (insKey (keyOfValue P)) vs (elems (oaPma S ! t)) @ entriesElems (slice (oaPma S) (Suc t) r)"
    "b \<le> l \<or> r \<le> a \<Longrightarrow> slice (oaPma S') a b = slice (oaPma S) a b"
    "\<forall>b\<in>set (blocksIn (oaPma S') l r). b \<in> set (slice (oaPma S) l r) \<or> b \<in> set ws"
    "set (entriesElems (slice (oaPma S') l t)) \<subseteq> set (entriesElems (slice (oaPma S) l t) @ entriesElems ws)" "oaPma S' ! t \<in> set ws"
    "length (oaPma S') = length (oaPma S)" "oaSize S' = oaSize S"
proof -
  obtain p ps m where p: "S' = S\<lparr>oaPma := ps, sizeManager := m\<rparr>" "length ps = length (oaPma S)" "t < p" "p \<le> r"
        "blocksIn ps l p = blocksIn (oaPma S) l t @ ws" "blocksIn ps p r = blocksIn (oaPma S) (Suc t) r"
        "\<forall>k. k < l \<or> r \<le> k \<longrightarrow> ps ! k = oaPma S ! k" "\<forall>k. t \<le> k \<and> k < p \<longrightarrow> ps ! k \<in> set ws"
    and ws: "entriesElems ws = fold (insKey (keyOfValue P)) vs (elems (oaPma S ! t))"
    using step by (auto simp: oaStep_def replaces_def)
  have ps: "oaPma S' = ps" using p(1) by simp
  have bl: "blocksIn ps l r = blocksIn (oaPma S) l t @ ws @ blocksIn (oaPma S) (Suc t) r"
    using blocksIn_split [of l p r ps] p(3-6) t by simp
  then show "entriesElems (slice (oaPma S') l r) =
       entriesElems (slice (oaPma S) l t) @ fold (insKey (keyOfValue P)) vs (elems (oaPma S ! t)) @ entriesElems (slice (oaPma S) (Suc t) r)"
    unfolding ps by (simp add: entriesElems_blocksIn [symmetric] ws)
  show "slice (oaPma S') a b = slice (oaPma S) a b" if "b \<le> l \<or> r \<le> a"
    unfolding ps using p(2,7) that by (intro slice_eqI) auto
  have "set (slice (oaPma S) l t) \<subseteq> set (slice (oaPma S) l r)" "set (slice (oaPma S) (Suc t) r) \<subseteq> set (slice (oaPma S) l r)"
    using slice_mono [of l l t r "oaPma S"] slice_mono [of l "Suc t" r r "oaPma S"] t by auto
  then show "\<forall>b\<in>set (blocksIn (oaPma S') l r). b \<in> set (slice (oaPma S) l r) \<or> b \<in> set ws"
    unfolding ps bl by (auto simp: blocksIn_def)
  have "set (entriesElems (slice ps l t)) \<subseteq> set (entriesElems (slice ps l p))" using elems_slice_split [of l t p ps] t p(3) by auto
  then show "set (entriesElems (slice (oaPma S') l t)) \<subseteq> set (entriesElems (slice (oaPma S) l t) @ entriesElems ws)"
    unfolding ps by (simp add: entriesElems_blocksIn [symmetric] p(5))
  show "oaPma S' ! t \<in> set ws" unfolding ps using p(3,8) by blast
  show "length (oaPma S') = length (oaPma S)" "oaSize S' = oaSize S" using p(1,2) by simp_all
qed

lemma oaStep_ok:
  assumes wf: "wfParams P" "wfOaSized P S" and step: "oaStep P l r t vs ws S S'" and t: "l \<le> t" "t < r" "r \<le> nat (oaSize S)"
    and less: "\<And>x v. x \<in> set (entriesElems (slice (oaPma S) 0 t)) \<Longrightarrow> v \<in> set vs \<Longrightarrow> keyOfValue P x < keyOfValue P v"
    and greater: "\<And>x v. x \<in> set (entriesElems (slice (oaPma S) (Suc t) (nat (oaSize S)))) \<Longrightarrow> v \<in> set vs \<Longrightarrow> keyOfValue P v < keyOfValue P x"
  shows "oaContent S' = fold (insKey (keyOfValue P)) vs (oaContent S)" "wfOaSized P S'"
    "entriesElems (slice (oaPma S') l r) = fold (insKey (keyOfValue P)) vs (entriesElems (slice (oaPma S) l r))"
proof -
  let ?n = "nat (oaSize S)" and ?kf = "keyOfValue P"
  note d = wfOaSizedD [OF wf(2)]
  have nl: "?n \<le> length (oaPma S)" "t < length (oaPma S)" using d(2) t by auto
  note e = oaStep_elems [OF step t nl(1)]
  let ?A = "entriesElems (slice (oaPma S) 0 l)" and ?B = "entriesElems (slice (oaPma S) l t)"
  let ?C = "entriesElems (slice (oaPma S) (Suc t) r)" and ?D = "entriesElems (slice (oaPma S) r ?n)"
  let ?E = "elems (oaPma S ! t)"
  have AB: "entriesElems (slice (oaPma S) 0 t) = ?A @ ?B" "entriesElems (slice (oaPma S) (Suc t) ?n) = ?C @ ?D"
    using t by (simp_all add: elems_slice_split [of 0 l t] elems_slice_split [of "Suc t" r ?n])
  have in_ABCD: "?kf x < ?kf v" if "x \<in> set ?A \<or> x \<in> set ?B" "v \<in> set vs" for x v using less that by (simp add: AB)
  have in_CD: "?kf v < ?kf x" if "x \<in> set ?C \<or> x \<in> set ?D" "v \<in> set vs" for x v using greater that by (simp add: AB)
  have rng: "entriesElems (slice (oaPma S) l r) = ?B @ ?E @ ?C" using elems_slice_at [OF t(1,2) nl(2)] .
  show rng': "entriesElems (slice (oaPma S') l r) = fold (insKey ?kf) vs (entriesElems (slice (oaPma S) l r))"
    unfolding e(1) rng by (rule fold_insKey_append [symmetric]) (use in_ABCD in_CD in auto)
  have "oaContent S = ?A @ entriesElems (slice (oaPma S) l r) @ ?D"
    unfolding oaUsed_slice using t by (simp add: elems_slice_split [of 0 l ?n] elems_slice_split [of l r ?n])
  moreover have "oaContent S' = ?A @ entriesElems (slice (oaPma S') l r) @ ?D"
    unfolding oaUsed_slice using t e(2,7) by (simp add: elems_slice_split [of 0 l ?n] elems_slice_split [of l r ?n])
  ultimately show cont: "oaContent S' = fold (insKey ?kf) vs (oaContent S)"
    unfolding rng' by (simp only:) (rule fold_insKey_append [symmetric], use in_ABCD in_CD in auto)
  have srt: "strictly_sorted (map ?kf (oaContent S'))" unfolding cont by (rule fold_insKey_sorted [OF d(3)])
  obtain ps m where S': "S' = S\<lparr>oaPma := ps, sizeManager := m\<rparr>" "length ps = length (oaPma S)" "oaSetting P S' l r"
    "\<forall>k. k < l \<or> r \<le> k \<longrightarrow> ps ! k = oaPma S ! k"
    using step by (auto simp: oaStep_def)
  have keys: "?kf ` set (oaContent S) \<subseteq> ?kf ` set (oaContent S')" unfolding cont keys_fold_insKey by blast
  have old: "okStored P (?kf ` set (oaContent S')) b" if "b \<in> set (slice (oaPma S) a c)" "c \<le> ?n" for b a c
    using that d(2) by (auto simp: in_slice intro!: okStored_mono [OF d(5) keys])
  have new: "okStored P (?kf ` set (oaContent S')) w" if "w \<in> set ws" for w
  proof -
    have rp: "replaces P (oaPma S ! t) vs ws" using step by (simp add: oaStep_def)
    have stt: "okStored P (?kf ` set (oaContent S)) (oaPma S ! t)" using d(5) t by simp
    then have t1: "nullStale P (oaPma S ! t)" and t2: "staleKeys P (oaPma S ! t) \<subseteq> insert (NULL_KEY P) (?kf ` set (oaContent S))"
      by (auto simp: okStored_def)
    have "set (entriesElems ws) \<subseteq> set (oaContent S')"
      using e(1) rp \<open>oaContent S' = ?A @ entriesElems (slice (oaPma S') l r) @ ?D\<close> by (auto simp: replaces_def)
    then have t3: "?kf ` set (entriesElems ws) \<subseteq> ?kf ` set (oaContent S')" by (rule image_mono)
    have w: "okSized P w" "nullStale P w" "staleKeys P w \<subseteq> staleKeys P (oaPma S ! t) \<union> {NULL_KEY P} \<union> ?kf ` set (entriesElems ws)"
      using rp that t1 unfolding replaces_def by blast+
    have "staleKeys P w \<subseteq> insert (NULL_KEY P) (?kf ` set (oaContent S'))" using w(3) t2 t3 keys by blast
    then show ?thesis using w(1,2) by (simp add: okStored_def)
  qed
  have "okStored P (?kf ` set (oaContent S')) b" if b: "b \<in> set (oaUsed S')" for b
  proof -
    consider "b \<in> set (slice (oaPma S') 0 l)" | "b \<in> set (slice (oaPma S') l r)" | "b \<in> set (slice (oaPma S') r ?n)"
      using b t e(7) slice_append [of 0 l ?n "oaPma S'"] slice_append [of l r ?n "oaPma S'"] by (auto simp: oaUsed_slice)
    then show ?thesis
    proof cases
      case 2
      show ?thesis
      proof (cases "isEmpty b")
        case True
        have "b \<in> set (oaPma S')" using 2 set_slice_subset by fast
        then have "okEntry P b" using S'(3) by (simp add: oaSetting_def)
        then show ?thesis using okEntry_isEmpty [OF _ True] by (simp add: okStored_def)
      next
        case False
        then have "b \<in> set (blocksIn (oaPma S') l r)" using 2 by (simp add: blocksIn_def)
        then show ?thesis using e(3) old [of b l r] new t(3) by blast
      qed
    qed (use e(2) old t in auto)
  qed
  then show "wfOaSized P S'"
    using wfOa_update [OF d(1) t(3) S'(1,2) _ S'(3) srt] S'(4) by (simp add: wfOaSized_def)
qed

section \<open>Inserting a range of the batch in place\<close>

text \<open>
  A task inserts the elements \<open>lo, \<dots>, hi - 1\<close> of the batch into the entries \<open>l, \<dots>, r - 1\<close> of the array. The entries
  outside hold smaller or larger keys, and even blocks of the minimal size would fit into the range.
\<close>

definition placeSetting :: "('k::linorder, 'v) tparams \<Rightarrow> 'k \<Rightarrow> ('k, 'v) oaSds \<Rightarrow> 'v list \<Rightarrow> nat \<Rightarrow> nat \<Rightarrow> nat \<Rightarrow> nat \<Rightarrow> bool" where
  "placeSetting P Z S0 batch lo hi l r \<longleftrightarrow> wfParams P \<and> MaxSize P \<le> 32768 \<and> wfOaSized P S0 \<and>
     l < r \<and> r \<le> nat (oaSize S0) \<and> oaPma S0 ! l \<noteq> emptyEntry P \<and>
     lo \<le> hi \<and> hi \<le> length batch \<and> strictly_sorted (map (keyOfValue P) batch) \<and> (\<forall>v\<in>set batch. NULL_KEY P < keyOfValue P v) \<and>
     Z \<notin> keyOfValue P ` (set batch \<union> set (oaContent S0)) \<and>
     (\<forall>v\<in>set (slice batch lo hi). (\<forall>x\<in>set (entriesElems (slice (oaPma S0) 0 l)). keyOfValue P x < keyOfValue P v) \<and>
        (\<forall>x\<in>set (entriesElems (slice (oaPma S0) r (nat (oaSize S0)))). keyOfValue P v < keyOfValue P x)) \<and>
     (length (entriesElems (slice (oaPma S0) l r)) + (hi - lo)) div MinSize P \<le> r - l"

definition placeInv ::
  "('k::linorder, 'v) tparams \<Rightarrow> ('k, 'v) oaSds \<Rightarrow> 'v list \<Rightarrow> nat \<Rightarrow> nat \<Rightarrow> nat \<Rightarrow> nat \<Rightarrow> nat \<Rightarrow> nat \<Rightarrow> ('k, 'v) oaSds \<Rightarrow> bool" where
  "placeInv P S0 batch lo hi l r i bi S \<longleftrightarrow> lo \<le> i \<and> i \<le> hi \<and> wfOaSized P S \<and>
     (\<exists>ps m. S = S0\<lparr>oaPma := ps, sizeManager := m\<rparr> \<and> length ps = length (oaPma S0) \<and> (\<forall>k. k < l \<or> r \<le> k \<longrightarrow> ps ! k = oaPma S0 ! k)) \<and>
     oaContent S = fold (insKey (keyOfValue P)) (slice batch lo i) (oaContent S0) \<and>
     entriesElems (slice (oaPma S) l r) = fold (insKey (keyOfValue P)) (slice batch lo i) (entriesElems (slice (oaPma S0) l r)) \<and>
     (i < hi \<longrightarrow> l \<le> bi \<and> bi < r \<and> oaPma S ! bi \<noteq> emptyEntry P \<and>
        (\<forall>x\<in>set (entriesElems (slice (oaPma S) l bi)). keyOfValue P x < keyOfValue P (batch ! i)))"

lemma placeSettingD:
  assumes "placeSetting P Z S0 batch lo hi l r"
  shows "wfParams P" "MaxSize P \<le> 32768" "wfOaSized P S0" "l < r" "r \<le> nat (oaSize S0)" "lo \<le> hi" "hi \<le> length batch"
    "strictly_sorted (map (keyOfValue P) batch)" "sortedBatch P batch"
    "\<And>j j'. j < j' \<Longrightarrow> j' < length batch \<Longrightarrow> keyOfValue P (batch ! j) < keyOfValue P (batch ! j')"
    "\<And>v. v \<in> set batch \<Longrightarrow> NULL_KEY P < keyOfValue P v"
  using assms sorted_wrt_nth_less [of "(<)" "map (keyOfValue P) batch"]
  by (auto simp: placeSetting_def sortedBatch_def strict_sorted_iff)

lemma slice_ge_first:
  assumes "strictly_sorted (map kf batch)" "i' \<le> length batch" "v \<in> set (slice batch i i')"
  shows "kf (batch ! i) \<le> kf v"
proof -
  obtain j where "i \<le> j" "j < i'" "v = batch ! j" using assms(2,3) by (auto simp: in_slice)
  then show ?thesis
    using sorted_wrt_nth_less [OF assms(1), of i j] assms(2) by (cases "i = j") (auto intro: less_imp_le)
qed

text \<open>The block that the next elements belong to.\<close>

lemma oaTarget_search:
  assumes wf: "wfParams P" "wfOaSized P S" and M: "M \<le> nat (oaSize S)" "bi < M" "oaPma S ! bi \<noteq> emptyEntry P"
  shows "\<exists>t nb. exponentialSearch P (oaArrayOf P S) k (int bi) (int M) = Some (int t) \<and> bi \<le> t \<and> t < M \<and> oaPma S ! t \<noteq> emptyEntry P \<and>
     (t = bi \<or> head (oaPma S ! t) \<le> k) \<and> findNext (oaArrayOf P S) (int t) (int M) = Some (int nb) \<and> t < nb \<and> nb \<le> M \<and>
     (\<forall>j. t < j \<and> j < nb \<longrightarrow> oaPma S ! j = emptyEntry P) \<and> (nb < M \<longrightarrow> oaPma S ! nb \<noteq> emptyEntry P \<and> k < head (oaPma S ! nb)) \<and>
     pmaLinearSearch (oaArrayOf P S) k (int t) (int M) = Some (int t)"
proof -
  note d = wfOaSizedD [OF wf(2)] and dd = wfOaD [OF wfOaSizedD(1) [OF wf(2)]]
  have used: "usedIn (oaUsed S) j \<longleftrightarrow> oaPma S ! nat j \<noteq> emptyEntry P" "headIn (oaUsed S) j = head (oaPma S ! nat j)"
    if "0 \<le> j" "j < int M" for j
  proof -
    have j: "nat j < nat (oaSize S)" using that M(1) by linarith
    have "isEmpty (oaPma S ! nat j) \<longleftrightarrow> oaPma S ! nat j = emptyEntry P"
      using d(6) [OF j] okSized_nonempty [OF wf(1)] by auto
    then show "usedIn (oaUsed S) j \<longleftrightarrow> oaPma S ! nat j \<noteq> emptyEntry P" "headIn (oaUsed S) j = head (oaPma S ! nat j)"
      using j that dd(5) by (auto simp: usedIn_def headIn_def oaUsed_def)
  qed
  have "\<exists>t nb. exponentialSearch P (oaArrayOf P S) k (int bi) (int M) = Some t \<and> int bi \<le> t \<and> t < int M \<and> usedIn (oaUsed S) t \<and>
     (t = int bi \<or> headIn (oaUsed S) t \<le> k) \<and> findNext (oaArrayOf P S) t (int M) = Some nb \<and> t < nb \<and> nb \<le> int M \<and>
     (\<forall>j. t < j \<and> j < nb \<longrightarrow> \<not> usedIn (oaUsed S) j) \<and> (nb < int M \<longrightarrow> usedIn (oaUsed S) nb \<and> k < headIn (oaUsed S) nb) \<and>
     pmaLinearSearch (oaArrayOf P S) k t (int M) = Some t"
  proof (rule sorted_heads.insertion_target)
    show "sorted_heads (oaArrayOf P S) (int (length (oaUsed S))) (usedIn (oaUsed S)) (headIn (oaUsed S))"
      using oa.sorted_heads_axioms [of P S] d(1) by simp
    show "int M \<le> int (length (oaUsed S))" using M(1) dd(5) by (simp only: of_nat_le_iff)
    show "usedIn (oaUsed S) (int bi)" using used [of "int bi"] M(2,3) by simp
  qed (use M in auto)
  then obtain t nb where r: "exponentialSearch P (oaArrayOf P S) k (int bi) (int M) = Some t" "int bi \<le> t" "t < int M" "usedIn (oaUsed S) t"
     "t = int bi \<or> headIn (oaUsed S) t \<le> k" "findNext (oaArrayOf P S) t (int M) = Some nb" "t < nb" "nb \<le> int M"
     "\<forall>j. t < j \<and> j < nb \<longrightarrow> \<not> usedIn (oaUsed S) j" "nb < int M \<longrightarrow> usedIn (oaUsed S) nb \<and> k < headIn (oaUsed S) nb"
     "pmaLinearSearch (oaArrayOf P S) k t (int M) = Some t" by blast
  obtain t' nb' where n: "t = int t'" "nb = int nb'" using r(2,7) by (metis nonneg_int_cases of_nat_0_le_iff order_trans less_imp_le)
  have "oaPma S ! j = emptyEntry P" if "t' < j" "j < nb'" for j
    using r(8,9) used(1) [of "int j"] that n by auto
  then show ?thesis
    using r used [of "int t'"] used [of "int nb'"] unfolding n by (intro exI [of _ t'] exI [of _ nb']) auto
qed

text \<open>All other entries hold smaller or larger keys than the elements that go into the found block.\<close>

lemma oaTarget_order:
  assumes set: "placeSetting P Z S0 batch lo hi l r" and inv: "placeInv P S0 batch lo hi l r i bi S" and i: "i < i'" "i' \<le> hi"
    and t: "bi \<le> t" "t < r" "oaPma S ! t \<noteq> emptyEntry P" "t = bi \<or> head (oaPma S ! t) \<le> keyOfValue P (batch ! i)"
    and nb: "t < nb" "nb \<le> r" "\<And>j. t < j \<Longrightarrow> j < nb \<Longrightarrow> oaPma S ! j = emptyEntry P" "nb < r \<Longrightarrow> oaPma S ! nb \<noteq> emptyEntry P"
      "nb < r \<Longrightarrow> \<forall>v\<in>set (slice batch i i'). keyOfValue P v < head (oaPma S ! nb)"
    and v: "v \<in> set (slice batch i i')"
  shows "x \<in> set (entriesElems (slice (oaPma S) 0 t)) \<Longrightarrow> keyOfValue P x < keyOfValue P v"
    "x \<in> set (entriesElems (slice (oaPma S) (Suc t) (nat (oaSize S)))) \<Longrightarrow> keyOfValue P v < keyOfValue P x"
proof -
  note d = placeSettingD [OF set]
  let ?kf = "keyOfValue P" and ?n = "nat (oaSize S)"
  obtain ps m where S: "S = S0\<lparr>oaPma := ps, sizeManager := m\<rparr>" "length ps = length (oaPma S0)" "\<forall>k. k < l \<or> r \<le> k \<longrightarrow> ps ! k = oaPma S0 ! k"
    and wf: "wfOaSized P S" using inv by (auto simp: placeInv_def)
  have lo: "lo \<le> i" using inv by (simp add: placeInv_def)
  have n: "?n = nat (oaSize S0)" "r \<le> ?n" "?n < length (oaPma S)" using S(1) d(5) wfOaSizedD(2) [OF wf] by auto
  have v': "v \<in> set (slice batch lo hi)" using v slice_mono [of lo i i' hi batch] lo i d(7) by auto
  have vi: "?kf (batch ! i) \<le> ?kf v" using slice_ge_first [OF d(8) _ v] i d(7) by simp
  have l: "l \<le> bi" "\<forall>x\<in>set (entriesElems (slice (oaPma S) l bi)). ?kf x < ?kf (batch ! i)" using inv i by (auto simp: placeInv_def)
  have outl: "slice (oaPma S) 0 l = slice (oaPma S0) 0 l" and outr: "slice (oaPma S) r ?n = slice (oaPma S0) r (nat (oaSize S0))"
    using S by (auto intro!: slice_eqI)
  show "?kf x < ?kf v" if x: "x \<in> set (entriesElems (slice (oaPma S) 0 t))"
  proof (cases "t = bi")
    case True
    then consider "x \<in> set (entriesElems (slice (oaPma S) 0 l))" | "x \<in> set (entriesElems (slice (oaPma S) l bi))"
      using x elems_slice_split [of 0 l bi "oaPma S"] l(1) by auto
    then show ?thesis
    proof cases
      case 1
      then show ?thesis using set v' unfolding outl by (simp add: placeSetting_def)
    next
      case 2
      then show ?thesis using l(2) vi by (meson less_le_trans)
    qed
  next
    case False
    have tn: "t < ?n" using t(2) n(2) by simp
    have ok: "okSized P (oaPma S ! t)" by (rule wfOaSizedD(6) [OF wf tn t(3)])
    note h = okSized_head [OF d(1) ok]
    obtain b where "b \<in> set (slice (oaPma S) 0 t)" "x \<in> set (elems b)" using x by (auto simp: set_entriesElems)
    then obtain j where "j < t" "x \<in> set (elems (oaPma S ! j))" using tn n(3) by (auto simp: in_slice)
    then have "?kf x < ?kf (hd (elems (oaPma S ! t)))" using wfOaSized_ordered [OF wf, of j t x] tn h(2) by simp
    then show ?thesis using t(4) False h(1) vi by simp
  qed
  show "?kf v < ?kf x" if x: "x \<in> set (entriesElems (slice (oaPma S) (Suc t) ?n))"
  proof -
    obtain b where "b \<in> set (slice (oaPma S) (Suc t) ?n)" "x \<in> set (elems b)" using x by (auto simp: set_entriesElems)
    then obtain j where j: "t < j" "j < ?n" "x \<in> set (elems (oaPma S ! j))" using n(3) by (auto simp: in_slice Suc_le_eq)
    have "nb \<le> j" using nb(3) [OF j(1)] j(3) by (cases "nb \<le> j") auto
    show ?thesis
    proof (cases "nb < r")
      case True
      then have nbn: "nb < ?n" using n(2) by simp
      have ok: "okSized P (oaPma S ! nb)" by (rule wfOaSizedD(6) [OF wf nbn nb(4) [OF True]])
      note h = okSized_head [OF d(1) ok]
      have "head (oaPma S ! nb) \<le> ?kf x"
      proof (cases "j = nb")
        case False
        then have "?kf (hd (elems (oaPma S ! nb))) < ?kf x" using wfOaSized_ordered [OF wf, of nb j "hd (elems (oaPma S ! nb))" x] j \<open>nb \<le> j\<close> h(2) by simp
        then show ?thesis using h(1) by simp
      qed (use h(3) j(3) in auto)
      then show ?thesis using nb(5) [OF True] v by (meson less_le_trans)
    next
      case False
      then have "r \<le> j" using nb(2) \<open>nb \<le> j\<close> by simp
      then have "x \<in> set (entriesElems (slice (oaPma S) r ?n))"
        unfolding set_entriesElems using j n(3) by (intro bexI [of _ "oaPma S ! j"]) (auto simp: in_slice)
      then show ?thesis using set v' unfolding outr by (simp add: placeSetting_def)
    qed
  qed
qed

lemma placeRoom:
  assumes set: "placeSetting P Z S0 batch lo hi l r" and inv: "placeInv P S0 batch lo hi l r i bi S" and i: "i < i'" "i' \<le> hi"
    and t: "l \<le> t" "t < r" "oaPma S ! t \<noteq> emptyEntry P"
  shows "length (blocksIn (oaPma S) l r) + (bsize (oaPma S ! t) + (i' - i)) div MinSize P \<le> Suc (r - l)"
proof -
  note d = placeSettingD [OF set]
  let ?k = "length (blocksIn (oaPma S) l t @ blocksIn (oaPma S) (Suc t) r)" and ?b0 = "oaPma S ! t" and ?M = "MinSize P"
  have wf: "wfOaSized P S" and lo: "lo \<le> i" "i \<le> hi" using inv by (auto simp: placeInv_def)
  have sz: "oaSize S = oaSize S0" using inv by (auto simp: placeInv_def)
  have rn: "r \<le> nat (oaSize S)" "t < nat (oaSize S)" "t < length (oaPma S)" using d(5) sz t(2) wfOaSizedD(2) [OF wf] by auto
  have okt: "okSized P ?b0" by (rule wfOaSizedD(6) [OF wf rn(2) t(3)])
  have lb0: "length (elems ?b0) = bsize ?b0" using okt length_elems [of P ?b0] by (simp add: okSized_def)
  have ok: "okSized P b" if b: "b \<in> set (blocksIn (oaPma S) a c)" "c \<le> r" for b a c
  proof -
    have "b \<in> set (slice (oaPma S) a c)" and ne: "\<not> isEmpty b" using b(1) by (auto simp: blocksIn_def)
    then obtain j where "j < c" "b = oaPma S ! j" using b(2) rn wfOaSizedD(2) [OF wf] by (auto simp: in_slice)
    moreover have "b \<noteq> emptyEntry P" using ne by auto
    ultimately show ?thesis using wfOaSizedD(6) [OF wf, of j] b(2) rn(1) by simp
  qed
  have "?k * ?M \<le> length (entriesElems (blocksIn (oaPma S) l t @ blocksIn (oaPma S) (Suc t) r))"
    using t(2) by (intro sum_sizes) (auto intro: ok)
  then have k: "?k * ?M + bsize ?b0 \<le> length (entriesElems (slice (oaPma S) l r))"
    using elems_slice_at [OF t(1,2) rn(3)] lb0 by (simp add: entriesElems_blocksIn)
  have "length (slice batch lo i) \<le> i - lo" using lo d(7) by simp
  then have "length (entriesElems (slice (oaPma S) l r)) \<le> length (entriesElems (slice (oaPma S0) l r)) + (i - lo)"
  proof -
    have eq: "entriesElems (slice (oaPma S) l r) = fold (insKey (keyOfValue P)) (slice batch lo i) (entriesElems (slice (oaPma S0) l r))"
      using inv by (simp add: placeInv_def)
    show ?thesis unfolding eq
      using \<open>length (slice batch lo i) \<le> i - lo\<close>
        length_fold_insKey(1) [of "keyOfValue P" "slice batch lo i" "entriesElems (slice (oaPma S0) l r)"] by linarith
  qed
  then have "?k * ?M + (bsize ?b0 + (i' - i)) \<le> length (entriesElems (slice (oaPma S0) l r)) + (hi - lo)" using k i lo by linarith
  then have "(?k * ?M + (bsize ?b0 + (i' - i))) div ?M \<le> (length (entriesElems (slice (oaPma S0) l r)) + (hi - lo)) div ?M" by (rule div_le_mono)
  also have "\<dots> \<le> r - l" using set unfolding placeSetting_def by blast
  finally have "(?k * ?M + (bsize ?b0 + (i' - i))) div ?M \<le> r - l" .
  moreover have "(?k * ?M + (bsize ?b0 + (i' - i))) div ?M = ?k + (bsize ?b0 + (i' - i)) div ?M"
    using d(1) by (simp only: mult.commute [of ?k]) (simp add: wfParams_def)
  moreover have "length (blocksIn (oaPma S) l r) = Suc ?k"
    using blocksIn_split [of l t r "oaPma S"] blocksIn_split [of t "Suc t" r "oaPma S"] blocksIn_single [OF rn(3)] okSized_nonempty [OF d(1) okt] t by simp
  ultimately show ?thesis by simp
qed

lemma placeTarget_next:
  assumes wf: "wfParams P" "wfOaSized P S" and step: "oaStep P l r t vs ws S S'" and t: "l \<le> t" "t < nb" "nb < r" "r \<le> nat (oaSize S)"
    and wf': "wfOaSized P S'"
    and nb: "oaPma S ! nb \<noteq> emptyEntry P" "head (oaPma S ! nb) \<le> k" "\<And>v. v \<in> set vs \<Longrightarrow> keyOfValue P v < head (oaPma S ! nb)"
  shows "oaPma S' ! t \<noteq> emptyEntry P" "\<And>x. x \<in> set (entriesElems (slice (oaPma S') l t)) \<Longrightarrow> keyOfValue P x < k"
proof -
  have tr: "t < r" using t by simp
  have nl: "nat (oaSize S) \<le> length (oaPma S)" "t < length (oaPma S)" using wfOaSizedD(2) [OF wf(2)] t by auto
  note e = oaStep_elems [OF step t(1) tr t(4) nl(1)]
  have rp: "replaces P (oaPma S ! t) vs ws" using step by (simp add: oaStep_def)
  have "okSized P (oaPma S' ! t)" using rp e(5) by (simp add: replaces_def)
  then show "oaPma S' ! t \<noteq> emptyEntry P" using okSized_nonempty [OF wf(1), of "oaPma S' ! t"] by auto
  have nbn: "nb < nat (oaSize S)" using t by simp
  have ok: "okSized P (oaPma S ! nb)" by (rule wfOaSizedD(6) [OF wf(2) nbn nb(1)])
  note h = okSized_head [OF wf(1) ok]
  have low: "keyOfValue P x < head (oaPma S ! nb)" if x: "x \<in> set (elems (oaPma S ! j))" "j < nb" for x j
    using wfOaSized_ordered [OF wf(2) x(2) nbn x(1), of "hd (elems (oaPma S ! nb))"] h by simp
  show "keyOfValue P x < k" if x: "x \<in> set (entriesElems (slice (oaPma S') l t))" for x
  proof -
    consider "x \<in> set (entriesElems (slice (oaPma S) l t))" | "x \<in> set (entriesElems ws)" using e(4) x by auto
    then have "keyOfValue P x < head (oaPma S ! nb)"
    proof cases
      case 1
      then obtain b where "b \<in> set (slice (oaPma S) l t)" "x \<in> set (elems b)" by (auto simp: set_entriesElems)
      then obtain j where "j < t" "x \<in> set (elems (oaPma S ! j))" using nl(2) by (auto simp: in_slice)
      then show ?thesis using low [of x j] t(2) by simp
    next
      case 2
      then have "keyOfValue P x \<in> keyOfValue P ` set (fold (insKey (keyOfValue P)) vs (elems (oaPma S ! t)))" using rp by (simp add: replaces_def)
      then show ?thesis using nb(3) low [of _ t] t(2) by (auto simp: keys_fold_insKey)
    qed
    then show ?thesis using nb(2) by simp
  qed
qed

lemma placeStaleOk:
  assumes wf: "wfOaSized P S" and t: "t < nat (oaSize S)" "oaPma S ! t \<noteq> emptyEntry P" and nk: "NULL_KEY P < keyOfValue P v"
    and less: "\<And>x. x \<in> set (entriesElems (slice (oaPma S) 0 t)) \<Longrightarrow> keyOfValue P x < keyOfValue P v"
    and greater: "\<And>x. x \<in> set (entriesElems (slice (oaPma S) (Suc t) (nat (oaSize S)))) \<Longrightarrow> keyOfValue P v < keyOfValue P x"
  shows "staleOk P (oaPma S ! t) (keyOfValue P v)"
  unfolding staleOk_def
proof
  note d = wfOaSizedD [OF wf]
  assume "keyOfValue P v \<in> keyOfValue P ` set (stale (oaPma S ! t))"
  then have "keyOfValue P v \<in> staleKeys P (oaPma S ! t)" by (simp add: staleKeys_def)
  then have "keyOfValue P v \<in> keyOfValue P ` set (oaContent S)" using d(5) [OF t(1)] t(2) nk by (auto simp: okStored_def)
  then obtain x where x: "x \<in> set (oaContent S)" "keyOfValue P v = keyOfValue P x" by auto
  have "oaContent S = entriesElems (slice (oaPma S) 0 t) @ elems (oaPma S ! t) @ entriesElems (slice (oaPma S) (Suc t) (nat (oaSize S)))"
    unfolding oaUsed_slice using t(1) d(2) by (intro elems_slice_at) auto
  then have "x \<in> set (elems (oaPma S ! t))" using x less [of x] greater [of x] by auto
  then show "keyOfValue P v \<in> set (keysOf P (oaPma S ! t))" using x(2) by (simp add: keysOf_def)
qed

lemma inPlaceLoop_step:
  assumes set: "placeSetting P Z S0 batch lo hi l r" and inv: "placeInv P S0 batch lo hi l r i bi S" and i: "i < hi"
    and rng: "iright batchRange = int hi"
  shows "\<exists>i' t S'. inPlaceLoop P Z batch batchRange (mkInterval (int l) (int r)) (int i) (int bi) S =
       inPlaceLoop P Z batch batchRange (mkInterval (int l) (int r)) (int i') (int t) S' \<and> i < i' \<and> i' \<le> hi \<and>
     placeInv P S0 batch lo hi l r i' t S'"
proof -
  note d = placeSettingD [OF set]
  let ?k = "keyOfValue P (batch ! i)" and ?A = "oaArrayOf P S"
  have wf: "wfOaSized P S" "lo \<le> i" and S: "\<exists>ps m. S = S0\<lparr>oaPma := ps, sizeManager := m\<rparr> \<and> length ps = length (oaPma S0) \<and> (\<forall>k. k < l \<or> r \<le> k \<longrightarrow> ps ! k = oaPma S0 ! k)"
    and bi: "l \<le> bi" "bi < r" "oaPma S ! bi \<noteq> emptyEntry P" using inv i by (auto simp: placeInv_def)
  have M: "r \<le> nat (oaSize S)" using d(5) S by auto
  have len: "nat (oaSize S) < length (oaPma S)" using wfOaSizedD(2) [OF wf(1)] .
  obtain t nb where t: "exponentialSearch P ?A ?k (int bi) (int r) = Some (int t)" "bi \<le> t" "t < r" "oaPma S ! t \<noteq> emptyEntry P"
     "t = bi \<or> head (oaPma S ! t) \<le> ?k" "findNext ?A (int t) (int r) = Some (int nb)" "t < nb" "nb \<le> r"
     "\<forall>j. t < j \<and> j < nb \<longrightarrow> oaPma S ! j = emptyEntry P" "nb < r \<longrightarrow> oaPma S ! nb \<noteq> emptyEntry P \<and> ?k < head (oaPma S ! nb)"
     "pmaLinearSearch ?A ?k (int t) (int r) = Some (int t)"
    using oaTarget_search [OF d(1) wf(1) M bi(2,3)] by blast
  have tn: "t < nat (oaSize S)" "l \<le> t" using t(2,3) M bi(1) by auto
  let ?rng = "mkInterval (int l) (int r)"
  have "avHead ?A (int nb) = Some (head (oaPma S ! nb)) \<and> ?k < head (oaPma S ! nb)" if "int nb \<noteq> iright ?rng"
    using that t(8,10) M len by (auto simp: avHead_def oaArrayOf_def)
  then obtain i' where i': "findLastBatchElementForBlock P ?A batch (int i) batchRange (int nb) ?rng = Some (int i')" "i < i'" "i' \<le> hi"
     "if nb = r then i' = hi else (\<forall>v\<in>set (slice batch i i'). keyOfValue P v < head (oaPma S ! nb)) \<and> (i' < hi \<longrightarrow> head (oaPma S ! nb) \<le> keyOfValue P (batch ! i'))"
    using findLast_ok [OF d(9) i d(7) rng, of "int nb" ?rng ?A "head (oaPma S ! nb)"] by auto
  have below: "nb < r \<Longrightarrow> \<forall>v\<in>set (slice batch i i'). keyOfValue P v < head (oaPma S ! nb)" using i'(4) by auto
  have gap: "\<And>j. t < j \<Longrightarrow> j < nb \<Longrightarrow> oaPma S ! j = emptyEntry P" and nbe: "nb < r \<Longrightarrow> oaPma S ! nb \<noteq> emptyEntry P" using t(9,10) by auto
  note ord = oaTarget_order [OF set inv i'(2,3) t(2-5,7,8) gap nbe below]
  have nk: "NULL_KEY P < keyOfValue P v" if "v \<in> set (slice batch i i')" for v using that d(11) set_slice_subset by fast
  have "staleOk P (oaPma S ! t) (keyOfValue P v)" if v: "v \<in> set (slice batch i i')" for v
    by (rule placeStaleOk [OF wf(1) tn(1) t(4) nk [OF v]]) (use ord v in blast)+
  moreover have okt: "okSized P (oaPma S ! t)" by (rule wfOaSizedD(6) [OF wf(1) tn(1) t(4)])
  ultimately have split: "splitSetting P (oaPma S ! t) batch i i'"
    using d i'(2,3) by (simp add: splitSetting_def)
  have stl: "nullStale P (oaPma S ! t)" using wfOaSizedD(5) [OF wf(1) tn(1)] t(4) by (simp add: okStored_def)
  have Z: "Z \<notin> keyOfValue P ` (set (elems (oaPma S ! t)) \<union> set batch)"
  proof -
    have "oaPma S ! t \<in> set (oaUsed S)" using tn(1) len by (auto simp: oaUsed_def in_set_conv_nth)
    then have "set (elems (oaPma S ! t)) \<subseteq> set (oaContent S)" by (auto simp: set_entriesElems)
    moreover have "keyOfValue P ` set (oaContent S) \<subseteq> keyOfValue P ` (set batch \<union> set (oaContent S0))"
      using inv set_slice_subset [of batch lo i] by (auto simp: placeInv_def keys_fold_insKey)
    ultimately show ?thesis using set unfolding placeSetting_def by blast
  qed
  have "oaSetting P S l r" using wfOaSizedD(4) [OF wf(1), of 0] M d(4) by (auto simp: oaSetting_def)
  then obtain ob ws S' where s: "oaInsertElementsIntoBlock P Z False (int t) (int nb) ?rng ?rng batch (int i) batchRange 0 S = Some (int i', ob, S')"
    "oaStep P l r t (slice batch i i') ws S S'"
    using oaInsertElements_ok [OF i'(1) split i'(2) _ tn(2) t(3) stl d(2) Z placeRoom [OF set inv i'(2,3) tn(2) t(3,4)]] by blast
  have o: "oaContent S' = fold (insKey (keyOfValue P)) (slice batch i i') (oaContent S)" "wfOaSized P S'"
    "entriesElems (slice (oaPma S') l r) = fold (insKey (keyOfValue P)) (slice batch i i') (entriesElems (slice (oaPma S) l r))"
    by (rule oaStep_ok [OF d(1) wf(1) s(2) tn(2) t(3) M], rule ord, assumption+, rule ord, assumption+)+
  have sl: "slice batch lo i' = slice batch lo i @ slice batch i i'" using wf(2) i'(2) by (intro slice_append) auto
  have nxt: "oaPma S' ! t \<noteq> emptyEntry P \<and> (\<forall>x\<in>set (entriesElems (slice (oaPma S') l t)). keyOfValue P x < keyOfValue P (batch ! i'))" if "i' < hi"
  proof -
    have nb: "nb < r" "head (oaPma S ! nb) \<le> keyOfValue P (batch ! i')" using i'(4) that t(8) by (auto split: if_splits)
    show ?thesis
      using placeTarget_next [OF d(1) wf(1) s(2) tn(2) t(7) nb(1) M o(2) nbe [OF nb(1)] nb(2)] below [OF nb(1)] by blast
  qed
  have "\<exists>ps m. S' = S0\<lparr>oaPma := ps, sizeManager := m\<rparr> \<and> length ps = length (oaPma S0) \<and> (\<forall>k. k < l \<or> r \<le> k \<longrightarrow> ps ! k = oaPma S0 ! k)"
  proof -
    obtain ps m where "S' = S\<lparr>oaPma := ps, sizeManager := m\<rparr>" "length ps = length (oaPma S)" "\<forall>k. k < l \<or> r \<le> k \<longrightarrow> ps ! k = oaPma S ! k"
      using s(2) by (auto simp: oaStep_def)
    then show ?thesis using S by (intro exI [of _ ps] exI [of _ m]) auto
  qed
  then have "placeInv P S0 batch lo hi l r i' t S'"
    using inv i' o nxt tn(2) t(3) wf(2) by (simp add: placeInv_def sl)
  moreover have "inPlaceLoop P Z batch batchRange ?rng (int i) (int bi) S = inPlaceLoop P Z batch batchRange ?rng (int i') (int t) S'"
    using i rng d(7) t(1,6,11) s(1) by (subst inPlaceLoop.simps) simp
  ultimately show ?thesis using i'(2,3) by blast
qed

lemma inPlaceLoop_ok:
  assumes set: "placeSetting P Z S0 batch lo hi l r" and rng: "iright batchRange = int hi"
  shows "placeInv P S0 batch lo hi l r i bi S \<Longrightarrow>
    \<exists>bi' S'. inPlaceLoop P Z batch batchRange (mkInterval (int l) (int r)) (int i) (int bi) S = Some (int hi, S') \<and>
      placeInv P S0 batch lo hi l r hi bi' S'"
proof (induction "hi - i" arbitrary: i bi S rule: less_induct)
  case less
  show ?case
  proof (cases "i < hi")
    case True
    obtain i' t S' where s: "inPlaceLoop P Z batch batchRange (mkInterval (int l) (int r)) (int i) (int bi) S =
       inPlaceLoop P Z batch batchRange (mkInterval (int l) (int r)) (int i') (int t) S'" "i < i'" "i' \<le> hi"
      "placeInv P S0 batch lo hi l r i' t S'"
      using inPlaceLoop_step [OF set less(2) True rng] by blast
    have "hi - i' < hi - i" using s(2) True by simp
    then show ?thesis using less(1) [OF _ s(4)] s(1) by simp
  next
    case False
    then have "i = hi" using less(2) by (simp add: placeInv_def)
    then show ?thesis using less(2) rng by (subst inPlaceLoop.simps) auto
  qed
qed

lemma insertBatchRangeInPlace_ok:
  assumes set: "placeSetting P Z S batch lo hi l r"
  shows "\<exists>bi S'. insertBatchRangeInPlace P Z batch (mkInterval (int lo) (int hi)) (mkInterval (int l) (int r)) S = Some S' \<and>
     placeInv P S batch lo hi l r hi bi S'"
proof -
  note d = placeSettingD [OF set]
  have "placeInv P S batch lo hi l r lo l S"
    using set d by (auto simp: placeInv_def placeSetting_def intro!: exI [of _ "oaPma S"] exI [of _ "sizeManager S"])
  then show ?thesis
    using inPlaceLoop_ok [OF set, of "mkInterval (int lo) (int hi)" lo l S] by (force simp: insertBatchRangeInPlace_def)
qed

section \<open>Properties\<close>

text \<open>C5. Inserting a range of a sorted batch in place, into a range of the array whose width suffices for blocks of the
  minimal size: the operation returns, the array stays valid, its elements are the old ones with those of the batch
  inserted, and no entry outside the range changes; blocks are split and others shifted as needed.\<close>

theorem insertBatchRangeInPlace_inserts:
  assumes "placeSetting P Z S batch lo hi l r"
  shows "\<exists>S'. insertBatchRangeInPlace P Z batch (mkInterval (int lo) (int hi)) (mkInterval (int l) (int r)) S = Some S' \<and>
     wfOaSized P S' \<and> oaContent S' = fold (insKey (keyOfValue P)) (slice batch lo hi) (oaContent S) \<and>
     oaSize S' = oaSize S \<and> (\<forall>k. k < l \<or> r \<le> k \<longrightarrow> oaPma S' ! k = oaPma S ! k)"
proof -
  obtain bi S' where r: "insertBatchRangeInPlace P Z batch (mkInterval (int lo) (int hi)) (mkInterval (int l) (int r)) S = Some S'"
    and inv: "placeInv P S batch lo hi l r hi bi S'" using insertBatchRangeInPlace_ok [OF assms] by blast
  then show ?thesis by (auto simp: placeInv_def)
qed

text \<open>Two blocks with two free entries between them; the first block overflows.\<close>

definition placeOa :: "Hierarchical \<Rightarrow> (nat, nat) oaSds" where
  "placeOa m = (newOaSds (demoParams False) [])\<lparr>oaSize := 4, oaCapacity := 64, oaSwapCapacity := 64,
     oaPma := [demoBlock [1, 2, 3], emptyEntry (demoParams False), emptyEntry (demoParams False), demoBlock [9, 10]]
       @ replicate 60 (emptyEntry (demoParams False)), sizeManager := m\<rparr>"

lemma placeOa_sel [simp]:
  "oaSize (placeOa m) = 4" "oaCapacity (placeOa m) = 64" "sizeManager (placeOa m) = m"
  "oaPma (placeOa m) = [demoBlock [1, 2, 3], emptyEntry (demoParams False), emptyEntry (demoParams False), demoBlock [9, 10]]
     @ replicate 60 (emptyEntry (demoParams False))"
  "oaUsed (placeOa m) = [demoBlock [1, 2, 3], emptyEntry (demoParams False), emptyEntry (demoParams False), demoBlock [9, 10]]"
  "blockSizes (placeOa m) = [3, 0, 0, 2] @ replicate 60 0"
  by (simp_all add: placeOa_def oaUsed_def blockSizes_def)

lemma demoBlock_stored:
  assumes "length xs \<le> 4" "2 \<le> length xs" "strictly_sorted xs" "\<forall>x\<in>set xs. 0 < x"
  shows "okStored (demoParams False) K (demoBlock xs)"
proof -
  have "staleKeys (demoParams False) (demoBlock xs) \<subseteq> {NULL_KEY (demoParams False)}"
    by (auto simp: staleKeys_def stale_def demoBlock_def cellsOf_def demoParams_def)
  moreover have "okSized (demoParams False) (demoBlock xs)" using assms by (simp add: okSized_def)
  ultimately show ?thesis by (auto simp: okStored_def nullStale_def)
qed

lemma placeOa_wf: "\<exists>m. placeSetting (demoParams False) 0 (placeOa m) [4, 5, 12] 0 3 0 4"
proof -
  obtain m where m: "hInv ([3, 0, 0, 2] @ replicate 60 0) 4 m"
    using newHierarchical_recompute [of 4 "[3, 0, 0, 2] @ replicate 60 0"] by auto
  have "wfOa (demoParams False) (placeOa m)"
    using m by (auto simp: wfOa_def okEntries_def okEntry_def entriesKeys_def)
  then have "wfOaSized (demoParams False) (placeOa m)"
    unfolding wfOaSized_def by (auto intro!: demoBlock_stored) (auto simp: okStored_def)
  then have "placeSetting (demoParams False) 0 (placeOa m) [4, 5, 12] 0 3 0 4"
    by (auto simp: placeSetting_def slice_def) (auto simp: demoBlock_def emptyEntry_def demoParams_def)
  then show ?thesis ..
qed

theorem insertBatchRangeInPlace_inserts_witness:
  "\<exists>m S'. insertBatchRangeInPlace (demoParams False) 0 [4, 5, 12] (mkInterval 0 3) (mkInterval 0 4) (placeOa m) = Some S' \<and>
     wfOaSized (demoParams False) S' \<and> oaContent S' = [1, 2, 3, 4, 5, 9, 10, 12]"
proof -
  obtain m where "placeSetting (demoParams False) 0 (placeOa m) [4, 5, 12] 0 3 0 4" using placeOa_wf ..
  from insertBatchRangeInPlace_inserts [OF this] show ?thesis by (auto simp: slice_def)
qed

end
