(* ===== verification/Overallocated_Out.thy ===== *)
theory Overallocated_Out
  imports Overallocated_Place
begin

text \<open>
  Inserting a range of the batch out of place (\<open>insertBatchRangeOutOfPlace\<close> of \<open>OverallocatedBatchedSparseArray\<close>): every block of
  the input range is written to the swap array, with the batch elements that belong to it merged or split in.
  The swap array is the second interpretation of the locale \<open>block_sink\<close> of theory \<open>Overallocated_Split\<close>. While blocks move, the size
  manager is adjusted but does not describe the array any more; \<open>sizesKept\<close> says what remains of it until it is recomputed.
\<close>

section \<open>The sink in the swap array\<close>

text \<open>Room for \<open>n\<close> blocks from position \<open>a\<close> of the swap array on.\<close>

definition swapFree :: "('k, 'v) oaSds \<Rightarrow> nat \<Rightarrow> nat \<Rightarrow> bool" where
  "swapFree S a n \<longleftrightarrow> a + n \<le> length (oaSwapPma S) \<and> oaSwapCapacity S = int (length (oaSwapPma S)) \<and> int (a + n) \<le> oaSize S \<and>
     (\<forall>i. a \<le> i \<and> i < a + n \<longrightarrow> block (oaSwapPma S ! i) = None)"

definition swapSunk ::
  "int \<Rightarrow> nat \<Rightarrow> nat \<Rightarrow> nat \<Rightarrow> ('k, 'v) oaSds \<Rightarrow> ('k, 'v) PmaEntry list \<Rightarrow> int \<times> int \<Rightarrow> ('k, 'v) oaSds \<Rightarrow> bool" where
  "swapSunk bi start k n S1 ws pos S \<longleftrightarrow> swapFree S1 (start + k) n \<and> pos = (bi, int (k + length ws)) \<and>
     S = S1\<lparr>oaSwapPma := writeAt (start + k) ws (oaSwapPma S1)\<rparr>"

lemma swapFree_mono: "swapFree S a n \<Longrightarrow> m \<le> n \<Longrightarrow> swapFree S a m"
  by (auto simp: swapFree_def)

lemma swapFree_sel:
  "swapFree (S\<lparr>oaPma := ps\<rparr>) a n = swapFree S a n" "swapFree (S\<lparr>sizeManager := m\<rparr>) a n = swapFree S a n"
  by (simp_all add: swapFree_def)

lemma swapFree_next:
  assumes "swapFree S a n" "length ws \<le> n"
  shows "swapFree (S\<lparr>oaSwapPma := writeAt a ws (oaSwapPma S)\<rparr>) (a + length ws) (n - length ws)"
  using assms by (auto simp: swapFree_def writeAt_nth)

lemma oaWriteBlock_ok:
  assumes free: "swapFree S1 a n" and ws: "length ws < n" and b: "okSized P b" and at: "outputStart + num = int (a + length ws)"
  shows "oaWriteBlock P b outputStart num (S1\<lparr>oaSwapPma := writeAt a ws (oaSwapPma S1)\<rparr>) =
     Some (S1\<lparr>oaSwapPma := writeAt a (ws @ [b]) (oaSwapPma S1)\<rparr>)"
proof -
  let ?sw = "writeAt a ws (oaSwapPma S1)"
  have len: "a + length ws < length (oaSwapPma S1)" using free ws by (simp add: swapFree_def)
  have "block (?sw ! (a + length ws)) = None" using free ws len by (simp add: writeAt_nth swapFree_def)
  moreover have "?sw[a + length ws := b] = writeAt a (ws @ [b]) (oaSwapPma S1)" using len by (rule writeAt_snoc)
  moreover have "idx ?sw (int (a + length ws)) = Some (?sw ! (a + length ws))" "upd ?sw (int (a + length ws)) b = Some (?sw[a + length ws := b])"
    using len by simp_all
  moreover have "\<not> isEmpty b" using b by (auto simp: okSized_def wfBlock_def okBlock_def isEmpty_def)
  moreover have "int (a + length ws) < oaSwapCapacity S1" "int (a + length ws) < oaSize S1" using free ws by (auto simp: swapFree_def)
  ultimately show ?thesis
    by (simp add: oaWriteBlock_def getDenseWriteIndex_def at setOaSwap_def del: of_nat_add)
qed

lemma swapSunk_emit:
  assumes sk: "swapSunk bi start k n S1 ws pos S" and b: "okSized P b" and n: "length ws < n"
  shows "\<exists>pos' S'. emitBlock P True (mkInterval (int start) e) b pos S = Some (pos', S') \<and> swapSunk bi start k n S1 (ws @ [b]) pos' S'"
proof -
  have S: "swapFree S1 (start + k) n" "pos = (bi, int (k + length ws))" "S = S1\<lparr>oaSwapPma := writeAt (start + k) ws (oaSwapPma S1)\<rparr>"
    using sk by (auto simp: swapSunk_def)
  have "oaWriteBlock P b (int start) (int (k + length ws)) S = Some (S1\<lparr>oaSwapPma := writeAt (start + k) (ws @ [b]) (oaSwapPma S1)\<rparr>)"
    unfolding S(3) by (rule oaWriteBlock_ok [OF S(1) n b]) simp
  then show ?thesis using S by (auto simp: emitBlock_def swapSunk_def)
qed

interpretation swapped: block_sink P True "mkInterval (int start) e" n "swapSunk bi start k n S1" for P start e n bi k S1
  by unfold_locales (rule swapSunk_emit)

section \<open>Moving the elements of one block\<close>

text \<open>While blocks move to the swap array the size manager is only adjusted; it is recomputed in the end.\<close>

definition sizesKept :: "Hierarchical \<Rightarrow> Hierarchical \<Rightarrow> bool" where
  "sizesKept m m' \<longleftrightarrow> HAggregateWidth m' = HAggregateWidth m \<and> hsize m' = hsize m \<and> length (haggregates m') = length (haggregates m)"

definition counted :: "Hierarchical \<Rightarrow> nat \<Rightarrow> bool" where
  "counted m i \<longleftrightarrow> 0 < HAggregateWidth m \<and> int i div HAggregateWidth m < int (length (haggregates m))"

lemma sizesKept_refl [simp]: "sizesKept m m"
  by (simp add: sizesKept_def)

lemma sizesKept_trans: "sizesKept a b \<Longrightarrow> sizesKept b c \<Longrightarrow> sizesKept a c"
  by (simp add: sizesKept_def)

lemma counted_kept: "counted m i \<Longrightarrow> sizesKept m m' \<Longrightarrow> counted m' i"
  by (simp add: counted_def sizesKept_def)

lemma hInv_counted:
  assumes "hInv sizes n m" "int i \<le> n"
  shows "counted m i"
  using assms zdiv_mono1 [of "int i" n "HAggregateWidth m"] by (auto simp: hInv_def counted_def)

lemma adjust_kept:
  assumes "counted m i"
  shows "\<exists>m'. h_adjustBlockSize (int i) a b m = Some m' \<and> sizesKept m m'"
  using assms
  by (auto simp: counted_def h_adjustBlockSize_def h_aggregateIndex_def fetchAdd_ok pos_imp_zdiv_nonneg_iff sizesKept_def)

definition moved ::
  "('k::linorder, 'v) tparams \<Rightarrow> nat \<Rightarrow> nat \<Rightarrow> 'v list \<Rightarrow> ('k, 'v) PmaEntry list \<Rightarrow> ('k, 'v) oaSds \<Rightarrow> ('k, 'v) oaSds \<Rightarrow> bool" where
  "moved P a t vs ws S S' \<longleftrightarrow> replaces P (oaPma S ! t) vs ws \<and> ws \<noteq> [] \<and>
     (\<exists>m. S' = S\<lparr>oaPma := (oaPma S)[t := emptyEntry P], oaSwapPma := writeAt a ws (oaSwapPma S), sizeManager := m\<rparr> \<and> sizesKept (sizeManager S) m)"

lemma oaWriteBlockAt_eq:
  "idx (oaPma S) t = Some b \<Longrightarrow> oaWriteBlockAt P t s k S = oaWriteBlock P b s k S \<bind> setOaPma t (emptyEntry P)"
  by (simp add: oaWriteBlockAt_def oaWriteBlock_def Let_def)

lemma oaWriteBlockAt_ok:
  assumes free: "swapFree S a 1" and t: "t < length (oaPma S)" and b: "okSized P (oaPma S ! t)" and at: "outputStart + num = int a"
  shows "oaWriteBlockAt P (int t) outputStart num S =
     Some (S\<lparr>oaPma := (oaPma S)[t := emptyEntry P], oaSwapPma := writeAt a [oaPma S ! t] (oaSwapPma S)\<rparr>)"
proof -
  have "oaWriteBlock P (oaPma S ! t) outputStart num S = Some (S\<lparr>oaSwapPma := writeAt a [oaPma S ! t] (oaSwapPma S)\<rparr>)"
    using oaWriteBlock_ok [OF free, of "[]" P "oaPma S ! t" outputStart num] b at by simp
  then show ?thesis using t oaWriteBlockAt_eq [of S "int t" "oaPma S ! t"] by (simp add: setOaPma_def)
qed

lemma moved_plain:
  assumes free: "swapFree S a 1" and t: "t < length (oaPma S)" and b: "okSized P (oaPma S ! t)" and at: "outputStart + num = int a"
  shows "\<exists>S'. oaWriteBlockAt P (int t) outputStart num S = Some S' \<and> moved P a t [] [oaPma S ! t] S S'"
  using oaWriteBlockAt_ok [OF assms] b by (auto simp: moved_def replaces_def intro!: exI [of _ "sizeManager S"])

lemma oaInsertOut_ok:
  assumes found: "findLastBatchElementForBlock P (oaArrayOf P S) batch (int lo) batchRange nextIndex rng' = Some (int hi)"
    and set: "splitSetting P (oaPma S ! t) batch lo hi" "lo < hi" and t: "t < length (oaPma S)" "counted (sizeManager S) t"
    and st: "nullStale P (oaPma S ! t)" "MaxSize P \<le> 32768" and Z: "Z \<notin> keyOfValue P ` (set (elems (oaPma S ! t)) \<union> set batch)"
    and free: "swapFree S (start + k) ((bsize (oaPma S ! t) + (hi - lo)) div MinSize P)"
  shows "\<exists>ws S'. oaInsertElementsIntoBlock P Z True (int t) nextIndex rng' (mkInterval (int start) e) batch (int lo) batchRange (int k) S =
       Some (int hi, int (k + length ws), S') \<and> moved P (start + k) t (slice batch lo hi) ws S S' \<and>
     length ws \<le> (bsize (oaPma S ! t) + (hi - lo)) div MinSize P"
proof -
  let ?b0 = "oaPma S ! t" and ?vs = "slice batch lo hi" and ?n = "(bsize (oaPma S ! t) + (hi - lo)) div MinSize P"
  note d = splitSettingD [OF set(1)]
  have "MinSize P \<le> bsize ?b0" "0 < MinSize P" using d(1,2) by (auto simp: okSized_def wfParams_def)
  then have n1: "1 \<le> ?n" by (simp add: Suc_le_eq div_greater_zero_iff)
  show ?thesis
  proof (cases "bsize ?b0 + (hi - lo) \<le> MaxSize P")
    case True
    obtain b' where b': "(if int (u16 (int hi - int lo)) \<ge> FasterMergeMinimum S then mergeFaster P Z ?b0 (drop lo batch) (u16 (int hi - int lo))
        else merge P ?b0 (drop lo batch) (u16 (int hi - int lo))) = Some b'" "replaces P ?b0 ?vs [b']"
      using mergeBlock_ok [OF set True st Z] by blast
    have ok: "okSized P b'" using b'(2) by (simp add: replaces_def)
    obtain m where m: "h_adjustBlockSize (int t) (int (bsize ?b0)) (int (bsize b')) (sizeManager S) = Some m" "sizesKept (sizeManager S) m"
      using adjust_kept [OF t(2)] by blast
    define S1 where "S1 = S\<lparr>oaPma := (oaPma S)[t := b'], sizeManager := m\<rparr>"
    have S1: "oaInsertWithoutSplit P Z (int t) batch (int lo) (int hi) S = Some (int hi, S1)"
      using t(1) b'(1) m(1)
      by (simp add: oaInsertWithoutSplit_def setOaPma_def adjustSize_def Let_def S1_def split: if_splits)
    have "swapFree S1 (start + k) 1" using swapFree_mono [OF free n1] by (simp add: S1_def swapFree_sel)
    then have "oaWriteBlockAt P (int t) (int start) (int k) S1 =
        Some (S1\<lparr>oaPma := (oaPma S1)[t := emptyEntry P], oaSwapPma := writeAt (start + k) [b'] (oaSwapPma S1)\<rparr>)"
      using oaWriteBlockAt_ok [of S1 "start + k" t P "int start" "int k"] ok t(1) by (simp add: S1_def)
    moreover have "moved P (start + k) t ?vs [b'] S (S1\<lparr>oaPma := (oaPma S1)[t := emptyEntry P], oaSwapPma := writeAt (start + k) [b'] (oaSwapPma S1)\<rparr>)"
      using b'(2) m(2) by (auto simp: moved_def S1_def intro!: exI [of _ m])
    moreover have "int (bsize ?b0) + (int hi - int lo) \<le> int (MaxSize P)" using True set(2) by simp
    ultimately show ?thesis
      using found t(1) S1 set(2) n1 by (auto simp: oaInsertElementsIntoBlock_def oaBlockSizeAt_def Let_def intro!: exI [of _ "[b']"])
  next
    case False
    obtain m where m: "h_adjustBlockSize (int t) (int (bsize ?b0)) 0 (sizeManager S) = Some m" "sizesKept (sizeManager S) m"
      using adjust_kept [OF t(2)] by blast
    define S1 where "S1 = S\<lparr>oaPma := (oaPma S)[t := emptyEntry P], sizeManager := m\<rparr>"
    have "swapSunk (int t) start k ?n S1 [] (int t, int k) S1" using free by (simp add: swapSunk_def S1_def swapFree_sel)
    moreover have "idx (oaPma S) (int t) = Some ?b0" using t(1) by simp
    moreover have "adjustSize (int t) (bsize ?b0) 0 S \<bind> setOaPma (int t) (emptyEntry P) = Some S1"
      using m(1) t(1) by (simp add: adjustSize_def setOaPma_def S1_def)
    ultimately obtain ws pos S' where s: "oaInsertWithSplit P True (int t) batch (int lo) (int hi) (mkInterval (int start) e) (int k) S = Some (int hi, snd pos, S')"
      "swapSunk (int t) start k ?n S1 ws pos S'" "replaces P ?b0 ?vs ws" "ws \<noteq> []" "length ws \<le> ?n"
      using swapped.oaInsertWithSplit_ok [OF set(1) order_refl, of S "int t" S1 "int t" start k S1 "int k" e] by blast
    have "moved P (start + k) t ?vs ws S S'"
      using s(2-4) m(2) by (auto simp: moved_def swapSunk_def S1_def intro!: exI [of _ m])
    moreover have "snd pos = int (k + length ws)" using s(2) by (simp add: swapSunk_def)
    moreover have "\<not> int (bsize ?b0) + (int hi - int lo) \<le> int (MaxSize P)" using False set(2) by simp
    ultimately show ?thesis
      using found t(1) s(1,5) set(2) by (auto simp: oaInsertElementsIntoBlock_def oaBlockSizeAt_def Let_def)
  qed
qed

section \<open>Inserting a range of the batch out of place\<close>

lemma oaSkipEmpty:
  assumes "b \<le> length (oaPma S)" "\<And>j. a \<le> j \<Longrightarrow> j < b \<Longrightarrow> okEntry P (oaPma S ! j)"
  shows "\<exists>r. skipEmpty (oaArrayOf P S) (int b) (int a) = Some (int r) \<and> a \<le> r \<and> r \<le> max a b \<and>
     (\<forall>j. a \<le> j \<and> j < r \<longrightarrow> isEmpty (oaPma S ! j)) \<and> (r < b \<longrightarrow> \<not> isEmpty (oaPma S ! r))"
  using assms(2)
proof (induction "b - a" arbitrary: a rule: less_induct)
  case less
  show ?case
  proof (cases "a < b")
    case True
    have e: "oaEmptyAt P S (int a) = Some (isEmpty (oaPma S ! a))" using oaEmptyAt_ok [of P S "int a"] less(2) True assms(1) by simp
    show ?thesis
    proof (cases "isEmpty (oaPma S ! a)")
      case empty: True
      have "b - Suc a < b - a" using True by simp
      from less(1) [OF this less(2)]
      obtain r where r: "skipEmpty (oaArrayOf P S) (int b) (int (Suc a)) = Some (int r)" "Suc a \<le> r" "r \<le> max (Suc a) b"
        "\<forall>j. Suc a \<le> j \<and> j < r \<longrightarrow> isEmpty (oaPma S ! j)" "r < b \<longrightarrow> \<not> isEmpty (oaPma S ! r)"
        using Suc_leD by blast
      have "isEmpty (oaPma S ! j)" if "a \<le> j" "j < r" for j using r(4) empty that by (cases "j = a") auto
      moreover have "skipEmpty (oaArrayOf P S) (int b) (int a) = Some (int r)"
        using r(1) e empty True by (subst skipEmpty.simps) (simp add: oaArrayOf_def add.commute)
      ultimately show ?thesis using r True by auto
    next
      case False
      then show ?thesis using e True by (subst skipEmpty.simps) (auto simp: oaArrayOf_def)
    qed
  next
    case False
    then show ?thesis by (subst skipEmpty.simps) auto
  qed
qed

text \<open>
  All blocks of the entries \<open>L, \<dots>, M - 1\<close> move to the swap array from \<open>start\<close> on, together with the elements
  \<open>lo, \<dots>, hi - 1\<close> of the batch. \<open>K\<close> are the keys that unused cells may hold. The entry \<open>M\<close> behind the range is read: it may
  belong to the next task, and then its head is larger than the elements of the batch.
\<close>

definition outSetting ::
  "('k::linorder, 'v) tparams \<Rightarrow> 'k \<Rightarrow> 'k set \<Rightarrow> ('k, 'v) oaSds \<Rightarrow> 'v list \<Rightarrow> nat \<Rightarrow> nat \<Rightarrow> nat \<Rightarrow> nat \<Rightarrow> nat \<Rightarrow> bool" where
  "outSetting P Z K S0 batch lo hi L M start \<longleftrightarrow> wfParams P \<and> MaxSize P \<le> 32768 \<and>
     L < M \<and> M < length (oaPma S0) \<and> oaPma S0 ! L \<noteq> emptyEntry P \<and>
     (oaPma S0 ! M = emptyEntry P \<or> (\<forall>v\<in>set (slice batch lo hi). keyOfValue P v < head (oaPma S0 ! M))) \<and>
     (\<forall>j. L \<le> j \<and> j < M \<longrightarrow> okStored P K (oaPma S0 ! j) \<and> counted (sizeManager S0) j) \<and>
     strictly_sorted (map (keyOfValue P) (entriesElems (slice (oaPma S0) L M))) \<and>
     lo \<le> hi \<and> hi \<le> length batch \<and> strictly_sorted (map (keyOfValue P) batch) \<and> (\<forall>v\<in>set batch. NULL_KEY P < keyOfValue P v) \<and>
     (\<forall>v\<in>set (slice batch lo hi). keyOfValue P v \<in> K \<longrightarrow> keyOfValue P v \<in> keyOfValue P ` set (entriesElems (slice (oaPma S0) L M))) \<and>
     Z \<notin> keyOfValue P ` (set batch \<union> set (entriesElems (slice (oaPma S0) L M))) \<and>
     swapFree S0 start ((length (entriesElems (slice (oaPma S0) L M)) + (hi - lo)) div MinSize P)"

definition outInv ::
  "('k::linorder, 'v) tparams \<Rightarrow> 'k set \<Rightarrow> ('k, 'v) oaSds \<Rightarrow> 'v list \<Rightarrow> nat \<Rightarrow> nat \<Rightarrow> nat \<Rightarrow> nat \<Rightarrow> nat \<Rightarrow> nat \<Rightarrow> nat \<Rightarrow> ('k, 'v) PmaEntry list \<Rightarrow> ('k, 'v) oaSds \<Rightarrow> bool" where
  "outInv P K S0 batch lo hi L M start i t ws S \<longleftrightarrow> lo \<le> i \<and> i \<le> hi \<and> L \<le> t \<and> t \<le> M \<and>
     (\<exists>ps m. S = S0\<lparr>oaPma := ps, oaSwapPma := writeAt start ws (oaSwapPma S0), sizeManager := m\<rparr> \<and> sizesKept (sizeManager S0) m \<and>
        length ps = length (oaPma S0) \<and> (\<forall>j. ps ! j = (if L \<le> j \<and> j < t then emptyEntry P else oaPma S0 ! j))) \<and>
     entriesElems ws = fold (insKey (keyOfValue P)) (slice batch lo i) (entriesElems (slice (oaPma S0) L t)) \<and>
     (\<forall>w\<in>set ws. okSized P w \<and> okStored P (K \<union> keyOfValue P ` set (entriesElems ws)) w) \<and>
     (t < M \<longrightarrow> oaPma S0 ! t \<noteq> emptyEntry P \<and> (\<forall>v\<in>set (slice batch lo i). keyOfValue P v < head (oaPma S0 ! t))) \<and>
     (i < hi \<longrightarrow> t < M \<and> (t = L \<and> i = lo \<or> head (oaPma S0 ! t) \<le> keyOfValue P (batch ! i)))"

lemma outSettingD:
  assumes "outSetting P Z K S0 batch lo hi L M start"
  shows "wfParams P" "MaxSize P \<le> 32768" "L < M" "M < length (oaPma S0)" "lo \<le> hi" "hi \<le> length batch"
    "strictly_sorted (map (keyOfValue P) batch)" "sortedBatch P batch" "\<And>v. v \<in> set batch \<Longrightarrow> NULL_KEY P < keyOfValue P v"
    "\<And>j. L \<le> j \<Longrightarrow> j < M \<Longrightarrow> okStored P K (oaPma S0 ! j)" "\<And>j. L \<le> j \<Longrightarrow> j < M \<Longrightarrow> okEntry P (oaPma S0 ! j)"
    "\<And>j. L \<le> j \<Longrightarrow> j < M \<Longrightarrow> oaPma S0 ! j \<noteq> emptyEntry P \<Longrightarrow> okSized P (oaPma S0 ! j)"
    "\<And>j. L \<le> j \<Longrightarrow> j < M \<Longrightarrow> isEmpty (oaPma S0 ! j) \<longleftrightarrow> oaPma S0 ! j = emptyEntry P"
proof -
  show wp: "wfParams P" and st: "\<And>j. L \<le> j \<Longrightarrow> j < M \<Longrightarrow> okStored P K (oaPma S0 ! j)"
    using assms by (auto simp: outSetting_def)
  show "okEntry P (oaPma S0 ! j)" if "L \<le> j" "j < M" for j
    using st [OF that] okSized_okEntry [OF wp] by (auto simp: okStored_def)
  show "okSized P (oaPma S0 ! j)" if "L \<le> j" "j < M" "oaPma S0 ! j \<noteq> emptyEntry P" for j
    using st [OF that(1,2)] that(3) by (auto simp: okStored_def)
  show "isEmpty (oaPma S0 ! j) \<longleftrightarrow> oaPma S0 ! j = emptyEntry P" if "L \<le> j" "j < M" for j
    using st [OF that] okSized_nonempty [OF wp] by (auto simp: okStored_def)
qed (use assms in \<open>auto simp: outSetting_def sortedBatch_def strict_sorted_iff\<close>)

lemma out_ordered:
  assumes "outSetting P Z K S0 batch lo hi L M start" "L \<le> i" "i < j" "j < M" "x \<in> set (elems (oaPma S0 ! i))" "y \<in> set (elems (oaPma S0 ! j))"
  shows "keyOfValue P x < keyOfValue P y"
proof -
  note d = outSettingD [OF assms(1)]
  have "entriesElems (slice (oaPma S0) L M) =
      entriesElems (slice (oaPma S0) L j) @ elems (oaPma S0 ! j) @ entriesElems (slice (oaPma S0) (Suc j) M)"
    using assms(2-4) d(4) by (intro elems_slice_at) auto
  moreover have "x \<in> set (entriesElems (slice (oaPma S0) L j))"
    unfolding set_entriesElems using assms(2-5) d(4) by (intro bexI [of _ "oaPma S0 ! i"]) (auto simp: in_slice)
  ultimately show ?thesis using assms(1,6) by (auto simp: outSetting_def sorted_wrt_append)
qed

lemma out_below:
  assumes set: "outSetting P Z K S0 batch lo hi L M start" and t: "L \<le> t" "t < M" "oaPma S0 ! t \<noteq> emptyEntry P"
    and x: "x \<in> set (entriesElems (slice (oaPma S0) L t))"
  shows "keyOfValue P x < head (oaPma S0 ! t)"
proof -
  note d = outSettingD [OF set]
  note h = okSized_head [OF d(1) d(12) [OF t]]
  obtain b where "b \<in> set (slice (oaPma S0) L t)" "x \<in> set (elems b)" using x by (auto simp: set_entriesElems)
  then obtain j where "L \<le> j" "j < t" "x \<in> set (elems (oaPma S0 ! j))" using t(2) d(4) by (auto simp: in_slice)
  then show ?thesis using out_ordered [OF set, of j t x "hd (elems (oaPma S0 ! t))"] t(2) h(1,2) by simp
qed

definition nextBlock :: "('k, 'v) tparams \<Rightarrow> ('k, 'v) oaSds \<Rightarrow> nat \<Rightarrow> nat \<Rightarrow> nat \<Rightarrow> bool" where
  "nextBlock P S0 M t nb \<longleftrightarrow> t < nb \<and> nb \<le> M \<and> (\<forall>j. t < j \<and> j < nb \<longrightarrow> oaPma S0 ! j = emptyEntry P) \<and>
     (nb < M \<longrightarrow> oaPma S0 ! nb \<noteq> emptyEntry P)"

lemma out_findNext:
  assumes set: "outSetting P Z K S0 batch lo hi L M start" and inv: "outInv P K S0 batch lo hi L M start i t' ws S" and t: "t' \<le> Suc t" "t < M" "L \<le> t"
  shows "\<exists>nb. findNext (oaArrayOf P S) (int t) (int M) = Some (int nb) \<and> nextBlock P S0 M t nb"
proof -
  note d = outSettingD [OF set]
  obtain ps where ps: "oaPma S = ps" "length ps = length (oaPma S0)" "\<forall>j. ps ! j = (if L \<le> j \<and> j < t' then emptyEntry P else oaPma S0 ! j)"
    using inv by (auto simp: outInv_def)
  have same: "ps ! j = oaPma S0 ! j" if "Suc t \<le> j" for j using ps(3) that t(1) by simp
  obtain nb where nb: "skipEmpty (oaArrayOf P S) (int M) (int (Suc t)) = Some (int nb)" "Suc t \<le> nb" "nb \<le> max (Suc t) M"
     "\<forall>j. Suc t \<le> j \<and> j < nb \<longrightarrow> isEmpty (oaPma S ! j)" "nb < M \<longrightarrow> \<not> isEmpty (oaPma S ! nb)"
  proof -
    have "\<exists>r. skipEmpty (oaArrayOf P S) (int M) (int (Suc t)) = Some (int r) \<and> Suc t \<le> r \<and> r \<le> max (Suc t) M \<and>
       (\<forall>j. Suc t \<le> j \<and> j < r \<longrightarrow> isEmpty (oaPma S ! j)) \<and> (r < M \<longrightarrow> \<not> isEmpty (oaPma S ! r))"
    proof (rule oaSkipEmpty)
      show "M \<le> length (oaPma S)" using d(4) ps by simp
      show "okEntry P (oaPma S ! j)" if "Suc t \<le> j" "j < M" for j using d(11) [of j] that same [OF that(1)] ps(1) t(3) by simp
    qed
    then show ?thesis using that by blast
  qed
  have "oaPma S0 ! j = emptyEntry P" if "t < j" "j < nb" for j
  proof -
    have "isEmpty (oaPma S ! j)" using nb(4) that by simp
    then have "isEmpty (oaPma S0 ! j)" using that same [of j] ps(1) by simp
    then show ?thesis using d(13) [of j] nb(3) that t by simp
  qed
  moreover have "oaPma S0 ! nb \<noteq> emptyEntry P" if "nb < M"
    using nb(2,5) that same [of nb] ps(1) by auto
  ultimately have "nextBlock P S0 M t nb" using nb(2,3) t(2) by (simp add: nextBlock_def)
  then show ?thesis using nb(1) by (auto simp: findNext_def add.commute)
qed

lemma nextBlock_elems:
  assumes "nextBlock P S0 M t nb" "L \<le> t" "M < length (oaPma S0)"
  shows "entriesElems (slice (oaPma S0) L nb) = entriesElems (slice (oaPma S0) L t) @ elems (oaPma S0 ! t)"
proof -
  have "entriesElems (slice (oaPma S0) (Suc t) nb) = []"
    using assms by (auto simp: nextBlock_def entriesElems_def in_slice)
  then show ?thesis using elems_slice_at [of L t nb "oaPma S0"] assms by (simp add: nextBlock_def)
qed

lemma out_room:
  assumes set: "outSetting P Z K S0 batch lo hi L M start" and inv: "outInv P K S0 batch lo hi L M start i t ws S"
    and t: "t < M" "oaPma S0 ! t \<noteq> emptyEntry P" and i: "i \<le> i'" "i' \<le> hi"
  shows "swapFree S (start + length ws) ((bsize (oaPma S0 ! t) + (i' - i)) div MinSize P)"
proof -
  note d = outSettingD [OF set]
  let ?N = "(length (entriesElems (slice (oaPma S0) L M)) + (hi - lo)) div MinSize P" and ?M = "MinSize P" and ?b0 = "oaPma S0 ! t"
  have lo: "lo \<le> i" "L \<le> t" "\<forall>w\<in>set ws. okSized P w" using inv by (auto simp: outInv_def)
  have lb0: "length (elems ?b0) = bsize ?b0" using d(12) [OF lo(2) t] length_elems [of P ?b0] by (simp add: okSized_def)
  have "length ws * ?M \<le> length (entriesElems ws)" using lo(3) by (intro sum_sizes) auto
  also have "entriesElems ws = fold (insKey (keyOfValue P)) (slice batch lo i) (entriesElems (slice (oaPma S0) L t))"
    using inv by (simp add: outInv_def)
  also have "length \<dots> \<le> length (entriesElems (slice (oaPma S0) L t)) + (i - lo)"
    using length_fold_insKey(1) [of "keyOfValue P" "slice batch lo i" "entriesElems (slice (oaPma S0) L t)"] i d(6) by simp
  finally have "length ws * ?M + (bsize ?b0 + (i' - i)) \<le> length (entriesElems (slice (oaPma S0) L M)) + (hi - lo)"
    using elems_slice_at [OF lo(2) t(1), of "oaPma S0"] t d(4) lb0 i lo by simp
  then have "(length ws * ?M + (bsize ?b0 + (i' - i))) div ?M \<le> ?N" by (rule div_le_mono)
  moreover have "(length ws * ?M + (bsize ?b0 + (i' - i))) div ?M = length ws + (bsize ?b0 + (i' - i)) div ?M"
    using d(1) by (simp only: mult.commute [of "length ws"]) (simp add: wfParams_def)
  ultimately have n: "length ws + (bsize ?b0 + (i' - i)) div ?M \<le> ?N" by simp
  have free: "swapFree S0 start ?N" using set unfolding outSetting_def by blast
  obtain ps m where S: "S = S0\<lparr>oaPma := ps, oaSwapPma := writeAt start ws (oaSwapPma S0), sizeManager := m\<rparr>" using inv by (auto simp: outInv_def)
  have "swapFree (S0\<lparr>oaSwapPma := writeAt start ws (oaSwapPma S0)\<rparr>) (start + length ws) (?N - length ws)"
    using swapFree_next [OF free, of ws] n by simp
  then have "swapFree S (start + length ws) (?N - length ws)" by (simp add: S swapFree_def)
  then show ?thesis by (rule swapFree_mono) (use n in simp)
qed

lemma outInv_advance:
  assumes set: "outSetting P Z K S0 batch lo hi L M start" and inv: "outInv P K S0 batch lo hi L M start i t ws S"
    and nb: "nextBlock P S0 M t nb" and t: "t < M" and i: "i \<le> i'" "i' \<le> hi"
    and mv: "moved P (start + length ws) t (slice batch i i') ws1 S S'"
    and below: "\<And>v. v \<in> set (slice batch i i') \<Longrightarrow> nb < M \<Longrightarrow> keyOfValue P v < head (oaPma S0 ! nb)"
    and nxt: "i' < hi \<Longrightarrow> nb < M \<and> head (oaPma S0 ! nb) \<le> keyOfValue P (batch ! i')"
  shows "outInv P K S0 batch lo hi L M start i' nb (ws @ ws1) S'"
proof -
  note d = outSettingD [OF set]
  let ?kf = "keyOfValue P" and ?b0 = "oaPma S0 ! t"
  have lo: "lo \<le> i" "L \<le> t" and ws: "\<forall>w\<in>set ws. okSized P w \<and> okStored P (K \<union> ?kf ` set (entriesElems ws)) w"
    and el: "entriesElems ws = fold (insKey ?kf) (slice batch lo i) (entriesElems (slice (oaPma S0) L t))"
    and lt: "\<forall>v\<in>set (slice batch lo i). ?kf v < head ?b0" "?b0 \<noteq> emptyEntry P"
    using inv t by (auto simp: outInv_def)
  obtain ps m where S: "S = S0\<lparr>oaPma := ps, oaSwapPma := writeAt start ws (oaSwapPma S0), sizeManager := m\<rparr>" "sizesKept (sizeManager S0) m"
        "length ps = length (oaPma S0)" "\<forall>j. ps ! j = (if L \<le> j \<and> j < t then emptyEntry P else oaPma S0 ! j)" using inv by (auto simp: outInv_def)
  have ok: "okSized P ?b0" by (rule d(12) [OF lo(2) t lt(2)])
  note h = okSized_head [OF d(1) ok]
  have nb': "t < nb" "nb \<le> M" "\<And>j. t < j \<Longrightarrow> j < nb \<Longrightarrow> oaPma S0 ! j = emptyEntry P" using nb by (auto simp: nextBlock_def)
  have rp: "replaces P ?b0 (slice batch i i') ws1" using mv S(1,4) by (simp add: moved_def)
  obtain m' where S': "S' = S\<lparr>oaPma := ps[t := emptyEntry P], oaSwapPma := writeAt (start + length ws) ws1 (oaSwapPma S), sizeManager := m'\<rparr>"
    "sizesKept m m'" using mv S(1) by (auto simp: moved_def)
  have Et: "?kf x < ?kf v" if v: "v \<in> set (slice batch i i')" and x: "x \<in> set (entriesElems (slice (oaPma S0) L t)) \<or> x \<in> set (slice batch lo i)" for v x
  proof -
    have "i < i'" using v i d(6) by (auto simp: in_slice)
    then have "t = L \<and> i = lo \<or> head ?b0 \<le> ?kf (batch ! i)" using inv i by (auto simp: outInv_def)
    moreover have "?kf (batch ! i) \<le> ?kf v" using slice_ge_first [OF d(7) _ v] i d(6) by simp
    moreover have "?kf x < head ?b0" using x out_below [OF set lo(2) t lt(2)] lt(1) by blast
    moreover have "t \<noteq> L \<or> i \<noteq> lo" using x by (auto simp: slice_def)
    ultimately show ?thesis by auto
  qed
  have E: "entriesElems (ws @ ws1) = fold (insKey ?kf) (slice batch lo i') (entriesElems (slice (oaPma S0) L nb))"
  proof -
    let ?E = "entriesElems (slice (oaPma S0) L t)"
    have a1: "fold (insKey ?kf) (slice batch lo i) ([] @ ?E @ elems ?b0) = [] @ fold (insKey ?kf) (slice batch lo i) ?E @ elems ?b0"
      by (rule fold_insKey_append) (use lt(1) h(3) in \<open>auto intro: less_le_trans\<close>)
    have "fold (insKey ?kf) (slice batch i i') (fold (insKey ?kf) (slice batch lo i) ?E @ elems ?b0 @ []) =
        fold (insKey ?kf) (slice batch lo i) ?E @ fold (insKey ?kf) (slice batch i i') (elems ?b0) @ []"
    proof (rule fold_insKey_append)
      fix v x assume v: "v \<in> set (slice batch i i')" and x: "x \<in> set (fold (insKey ?kf) (slice batch lo i) ?E)"
      then have "?kf x \<in> ?kf ` set (fold (insKey ?kf) (slice batch lo i) ?E)" by blast
      then show "?kf x < ?kf v" using Et [OF v] by (auto simp: keys_fold_insKey)
    qed simp
    then have a2: "fold (insKey ?kf) (slice batch i i') (fold (insKey ?kf) (slice batch lo i) ?E @ elems ?b0) = entriesElems ws @ entriesElems ws1"
      using rp el by (simp add: replaces_def)
    have "fold (insKey ?kf) (slice batch lo i') (entriesElems (slice (oaPma S0) L nb)) =
        fold (insKey ?kf) (slice batch i i') (fold (insKey ?kf) (slice batch lo i) (?E @ elems ?b0))"
      unfolding nextBlock_elems [OF nb lo(2) d(4)] slice_append [OF lo(1) i(1)] by simp
    also have "\<dots> = entriesElems ws @ entriesElems ws1" using a1 a2 by simp
    finally show ?thesis by simp
  qed
  have keys: "?kf ` set (entriesElems ws) \<subseteq> ?kf ` set (entriesElems (ws @ ws1))" "?kf ` set (entriesElems ws1) \<subseteq> ?kf ` set (entriesElems (ws @ ws1))"
    by auto
  have "okSized P w \<and> okStored P (K \<union> ?kf ` set (entriesElems (ws @ ws1))) w" if "w \<in> set (ws @ ws1)" for w
  proof (cases "w \<in> set ws")
    case True
    then have "okSized P w" "okStored P (K \<union> ?kf ` set (entriesElems ws)) w" using ws by auto
    moreover have "K \<union> ?kf ` set (entriesElems ws) \<subseteq> K \<union> ?kf ` set (entriesElems (ws @ ws1))" using keys(1) by blast
    ultimately show ?thesis using okStored_mono by blast
  next
    case False
    then have w1: "w \<in> set ws1" using that by simp
    have st: "nullStale P ?b0" "staleKeys P ?b0 \<subseteq> insert (NULL_KEY P) K" using d(10) [OF lo(2) t] lt(2) by (auto simp: okStored_def)
    have w: "okSized P w" "nullStale P w" "staleKeys P w \<subseteq> staleKeys P ?b0 \<union> {NULL_KEY P} \<union> ?kf ` set (entriesElems ws1)"
      using rp w1 st(1) unfolding replaces_def by blast+
    then have "staleKeys P w \<subseteq> insert (NULL_KEY P) (K \<union> ?kf ` set (entriesElems (ws @ ws1)))" using st(2) keys(2) by blast
    then show ?thesis using w(1,2) by (simp add: okStored_def)
  qed
  then have Wb: "\<forall>w\<in>set (ws @ ws1). okSized P w \<and> okStored P (K \<union> ?kf ` set (entriesElems (ws @ ws1))) w" by blast
  have St: "\<exists>ps m. S' = S0\<lparr>oaPma := ps, oaSwapPma := writeAt start (ws @ ws1) (oaSwapPma S0), sizeManager := m\<rparr> \<and> sizesKept (sizeManager S0) m \<and>
        length ps = length (oaPma S0) \<and> (\<forall>j. ps ! j = (if L \<le> j \<and> j < nb then emptyEntry P else oaPma S0 ! j))"
  proof (intro exI [of _ "ps[t := emptyEntry P]"] exI [of _ m'] conjI allI)
    have "swapFree S0 start ((length (entriesElems (slice (oaPma S0) L M)) + (hi - lo)) div MinSize P)"
      using set unfolding outSetting_def by blast
    then have "int (length (oaSwapPma S0)) = oaSwapCapacity S" by (simp add: swapFree_def S(1))
    then have "start + length ws \<le> length (oaSwapPma S0)" using out_room [OF set inv t lt(2) i] by (simp add: swapFree_def)
    then show "S' = S0\<lparr>oaPma := ps[t := emptyEntry P], oaSwapPma := writeAt start (ws @ ws1) (oaSwapPma S0), sizeManager := m'\<rparr>"
      using S' S(1) writeAt_append [of start ws "oaSwapPma S0" ws1] by simp
    show "sizesKept (sizeManager S0) m'" by (rule sizesKept_trans [OF S(2) S'(2)])
    show "ps[t := emptyEntry P] ! j = (if L \<le> j \<and> j < nb then emptyEntry P else oaPma S0 ! j)" for j
    proof (cases "t < j \<and> j < nb")
      case True
      then show ?thesis using S(4) nb'(3) [of j] lo(2) by simp
    next
      case False
      then have "j = t \<or> j < t \<or> nb \<le> j" by auto
      then show ?thesis using S(3,4) nb'(1) lo(2) t d(4) by (auto simp: nth_list_update)
    qed
  qed (use S(3) in simp)
  have lt': "\<forall>v\<in>set (slice batch lo i'). ?kf v < head (oaPma S0 ! nb)" if nM: "nb < M"
  proof
    fix v assume "v \<in> set (slice batch lo i')"
    then consider "v \<in> set (slice batch lo i)" | "v \<in> set (slice batch i i')" using slice_append [OF lo(1) i(1), of batch] by auto
    then show "?kf v < head (oaPma S0 ! nb)"
    proof cases
      case 1
      have ne: "oaPma S0 ! nb \<noteq> emptyEntry P" using nb nM by (simp add: nextBlock_def)
      have "L \<le> nb" using lo(2) nb'(1) by simp
      note hn = okSized_head [OF d(1) d(12) [OF this nM ne]]
      have "?kf (hd (elems ?b0)) < ?kf (hd (elems (oaPma S0 ! nb)))"
        by (rule out_ordered [OF set lo(2) nb'(1) nM]) (use h(2) hn(2) in simp_all)
      then show ?thesis using lt(1) 1 h(1) hn(1) by auto
    qed (use below nM in blast)
  qed
  have "nb < M \<longrightarrow> oaPma S0 ! nb \<noteq> emptyEntry P \<and> (\<forall>v\<in>set (slice batch lo i'). ?kf v < head (oaPma S0 ! nb))"
    using nb lt' by (simp add: nextBlock_def)
  moreover have "i' < hi \<longrightarrow> nb < M \<and> (nb = L \<and> i' = lo \<or> head (oaPma S0 ! nb) \<le> ?kf (batch ! i'))" using nxt by simp
  moreover have "lo \<le> i'" "L \<le> nb" using lo i nb'(1) by simp_all
  ultimately show ?thesis
    unfolding outInv_def using St E Wb i(2) nb'(2) by (intro conjI) assumption+
qed

lemma out_staleOk:
  assumes set: "outSetting P Z K S0 batch lo hi L M start" and inv: "outInv P K S0 batch lo hi L M start i t ws S"
    and nb: "nextBlock P S0 M t nb" and t: "t < M" and v: "v \<in> set (slice batch i i')" and i: "i < i'" "i' \<le> hi"
    and below: "nb < M \<Longrightarrow> keyOfValue P v < head (oaPma S0 ! nb)"
  shows "staleOk P (oaPma S0 ! t) (keyOfValue P v)"
  unfolding staleOk_def
proof
  note d = outSettingD [OF set]
  let ?kf = "keyOfValue P" and ?b0 = "oaPma S0 ! t"
  have lo: "lo \<le> i" "L \<le> t" "?b0 \<noteq> emptyEntry P" using inv t by (auto simp: outInv_def)
  have vb: "v \<in> set batch" "v \<in> set (slice batch lo hi)"
    using v set_slice_subset [of batch i i'] slice_append [of lo i hi batch] slice_append [of i i' hi batch] lo(1) i by auto
  assume "?kf v \<in> ?kf ` set (stale ?b0)"
  then have "?kf v \<in> staleKeys P ?b0" by (simp add: staleKeys_def)
  then have "?kf v \<in> K" using d(10) [OF lo(2) t] lo(3) d(9) [OF vb(1)] by (auto simp: okStored_def)
  then obtain x where x: "x \<in> set (entriesElems (slice (oaPma S0) L M))" "?kf v = ?kf x"
    using set vb(2) unfolding outSetting_def by blast
  have "x \<notin> set (entriesElems (slice (oaPma S0) L t))"
  proof
    assume b: "x \<in> set (entriesElems (slice (oaPma S0) L t))"
    then have "t \<noteq> L" by (auto simp: slice_def)
    then have "head ?b0 \<le> ?kf (batch ! i)" using inv i by (auto simp: outInv_def)
    also have "\<dots> \<le> ?kf v" using slice_ge_first [OF d(7) _ v] i d(6) by simp
    finally show False using out_below [OF set lo(2) t lo(3) b] x(2) by simp
  qed
  moreover have "x \<notin> set (entriesElems (slice (oaPma S0) (Suc t) M))"
  proof
    assume "x \<in> set (entriesElems (slice (oaPma S0) (Suc t) M))"
    then obtain b where "b \<in> set (slice (oaPma S0) (Suc t) M)" "x \<in> set (elems b)" by (auto simp: set_entriesElems)
    then obtain j where j: "t < j" "j < M" "x \<in> set (elems (oaPma S0 ! j))" using d(4) by (auto simp: in_slice Suc_le_eq)
    then have ne: "oaPma S0 ! j \<noteq> emptyEntry P" by (auto simp: entriesElems_def)
    then have nbj: "nb \<le> j" using nb j by (auto simp: nextBlock_def not_le [symmetric])
    then have nM: "nb < M" "L \<le> nb" "oaPma S0 ! nb \<noteq> emptyEntry P" using nb j(2) lo(2) by (auto simp: nextBlock_def)
    note h = okSized_head [OF d(1) d(12) [OF nM(2,1,3)]]
    have "head (oaPma S0 ! nb) \<le> ?kf x"
    proof (cases "nb = j")
      case False
      then have "nb < j" using nbj by simp
      from out_ordered [OF set nM(2) this j(2) _ j(3), of "hd (elems (oaPma S0 ! nb))"] h(1,2) show ?thesis by simp
    qed (use h(3) j(3) in simp)
    then show False using below [OF nM(1)] x(2) by simp
  qed
  ultimately have "x \<in> set (elems ?b0)" using x(1) elems_slice_at [OF lo(2) t, of "oaPma S0"] t d(4) by simp
  then show "?kf v \<in> set (keysOf P ?b0)" using x(2) by (simp add: keysOf_def)
qed

lemma out_state:
  assumes "outInv P K S0 batch lo hi L M start i t ws S" "t \<le> j"
  shows "oaPma S ! j = oaPma S0 ! j" "length (oaPma S) = length (oaPma S0)" "sizesKept (sizeManager S0) (sizeManager S)"
  using assms by (auto simp: outInv_def)

lemma out_insert:
  assumes set: "outSetting P Z K S0 batch lo hi L M start" and inv: "outInv P K S0 batch lo hi L M start i t ws S"
    and nb: "nextBlock P S0 M t nb" and t: "t < M" and i: "i < hi" and goes: "nb < M \<Longrightarrow> keyOfValue P (batch ! i) < head (oaPma S0 ! nb)"
    and rng: "iright batchRange = int hi"
  shows "\<exists>i' ws' S'. oaInsertElementsIntoBlock P Z True (int t) (int nb) (mkInterval (int L) (int M)) (mkInterval (int start) e) batch (int i) batchRange
       (int (length ws)) S = Some (int i', int (length ws'), S') \<and> outInv P K S0 batch lo hi L M start i' nb ws' S'"
proof -
  note d = outSettingD [OF set]
  let ?rng = "mkInterval (int L) (int M)" and ?A = "oaArrayOf P S" and ?b0 = "oaPma S0 ! t"
  have nb': "t < nb" "nb \<le> M" using nb by (auto simp: nextBlock_def)
  note s = out_state [OF inv order_refl] and sn = out_state [OF inv less_imp_le, of nb]
  have lo: "L \<le> t" "?b0 \<noteq> emptyEntry P" using inv t by (auto simp: outInv_def)
  have "avHead ?A (int nb) = Some (head (oaPma S0 ! nb)) \<and> keyOfValue P (batch ! i) < head (oaPma S0 ! nb)" if "int nb \<noteq> iright ?rng"
    using that goes nb' sn d(4) by (auto simp: avHead_def oaArrayOf_def)
  then obtain i' where i': "findLastBatchElementForBlock P ?A batch (int i) batchRange (int nb) ?rng = Some (int i')" "i < i'" "i' \<le> hi"
     "if nb = M then i' = hi else (\<forall>v\<in>set (slice batch i i'). keyOfValue P v < head (oaPma S0 ! nb)) \<and> (i' < hi \<longrightarrow> head (oaPma S0 ! nb) \<le> keyOfValue P (batch ! i'))"
    using findLast_ok [OF d(8) i d(6) rng, of "int nb" ?rng ?A "head (oaPma S0 ! nb)"] by auto
  have below: "keyOfValue P v < head (oaPma S0 ! nb)" if "v \<in> set (slice batch i i')" "nb < M" for v using i'(4) that by auto
  have nxt: "nb < M \<and> head (oaPma S0 ! nb) \<le> keyOfValue P (batch ! i')" if "i' < hi" using i'(4) that nb'(2) by (auto split: if_splits)
  have stl: "staleOk P ?b0 (keyOfValue P v)" if v: "v \<in> set (slice batch i i')" for v
    by (rule out_staleOk [OF set inv nb t v i'(2,3) below [OF v]])
  have ok: "okSized P ?b0" by (rule d(12) [OF lo(1) t lo(2)])
  then have split: "splitSetting P (oaPma S ! t) batch i i'"
    using d i'(2,3) stl s(1) by (simp add: splitSetting_def)
  have nst: "nullStale P (oaPma S ! t)" using d(10) [OF lo(1) t] lo(2) s(1) by (simp add: okStored_def)
  have "set (elems ?b0) \<subseteq> set (entriesElems (slice (oaPma S0) L M))"
    using elems_slice_at [OF lo(1) t, of "oaPma S0"] t d(4) by auto
  then have Z: "Z \<notin> keyOfValue P ` (set (elems (oaPma S ! t)) \<union> set batch)"
    using set s(1) unfolding outSetting_def by auto
  have cnt: "counted (sizeManager S) t" using set lo(1) t s(3) by (auto simp: outSetting_def intro: counted_kept)
  have tl: "t < length (oaPma S)" using t d(4) s(2) by simp
  have room: "swapFree S (start + length ws) ((bsize (oaPma S ! t) + (i' - i)) div MinSize P)"
    using out_room [OF set inv t lo(2) less_imp_le [OF i'(2)] i'(3)] s(1) by simp
  obtain ws1 S' where r: "oaInsertElementsIntoBlock P Z True (int t) (int nb) ?rng (mkInterval (int start) e) batch (int i) batchRange (int (length ws)) S =
       Some (int i', int (length ws + length ws1), S')" "moved P (start + length ws) t (slice batch i i') ws1 S S'"
    using oaInsertOut_ok [OF i'(1) split i'(2) tl cnt nst d(2) Z room] by blast
  then show ?thesis
    using outInv_advance [OF set inv nb t less_imp_le [OF i'(2)] i'(3) r(2) below nxt]
    by (intro exI [of _ i'] exI [of _ "ws @ ws1"] exI [of _ S']) simp
qed

lemma out_skip:
  assumes set: "outSetting P Z K S0 batch lo hi L M start" and inv: "outInv P K S0 batch lo hi L M start i t ws S"
    and nb: "nextBlock P S0 M t nb" and t: "t < M" and stays: "i < hi \<Longrightarrow> nb < M \<and> head (oaPma S0 ! nb) \<le> keyOfValue P (batch ! i)"
  shows "\<exists>ws' S'. oaWriteBlockAt P (int t) (int start) (int (length ws)) S = Some S' \<and> length ws' = Suc (length ws) \<and>
     outInv P K S0 batch lo hi L M start i nb ws' S'"
proof -
  note d = outSettingD [OF set] and s = out_state [OF inv order_refl]
  have lo: "L \<le> t" "oaPma S0 ! t \<noteq> emptyEntry P" "i \<le> hi" using inv t by (auto simp: outInv_def)
  have ok: "okSized P (oaPma S ! t)" using d(12) [OF lo(1) t lo(2)] s(1) by simp
  have "1 \<le> bsize (oaPma S0 ! t) div MinSize P"
    using ok s(1) d(1) by (simp add: Suc_le_eq div_greater_zero_iff okSized_def wfParams_def)
  then have "swapFree S (start + length ws) 1"
    using out_room [OF set inv t lo(2) order_refl lo(3)] by (auto intro: swapFree_mono)
  then obtain S' where S': "oaWriteBlockAt P (int t) (int start) (int (length ws)) S = Some S'" "moved P (start + length ws) t [] [oaPma S ! t] S S'"
    using moved_plain [of S "start + length ws" t P "int start" "int (length ws)"] ok t d(4) s(2) by auto
  have "outInv P K S0 batch lo hi L M start i nb (ws @ [oaPma S ! t]) S'"
    by (rule outInv_advance [OF set inv nb t order_refl lo(3)]) (use S'(2) stays in \<open>auto simp: slice_def\<close>)
  then show ?thesis using S'(1) by (intro exI [of _ "ws @ [oaPma S ! t]"] exI [of _ S']) simp
qed

lemma out_step:
  assumes set: "outSetting P Z K S0 batch lo hi L M start" and inv: "outInv P K S0 batch lo hi L M start i t ws S"
    and nb: "nextBlock P S0 M t nb" and t: "t < M" and rng: "iright batchRange = int hi"
  shows "\<exists>i' ws' S' nb'. outOfPlaceLoop P Z batch batchRange (mkInterval (int L) (int M)) (mkInterval (int start) e) (int i) (int t) (int nb) (int (length ws)) S =
      outOfPlaceLoop P Z batch batchRange (mkInterval (int L) (int M)) (mkInterval (int start) e) (int i') (int nb) nb' (int (length ws')) S' \<and>
      outInv P K S0 batch lo hi L M start i' nb ws' S' \<and> (nb < M \<longrightarrow> (\<exists>n. nb' = int n \<and> nextBlock P S0 M nb n))"
proof -
  note d = outSettingD [OF set] and s = out_state [OF inv less_imp_le, of nb]
  have nb': "t < nb" "nb \<le> M" "L \<le> nb" using nb inv by (auto simp: nextBlock_def outInv_def)
  have hd: "oaHeadAt S (int nb) = Some (head (oaPma S0 ! nb))" using nb' s d(4) by (simp add: oaHeadAt_def)
  have lt: "keyOfValue P (batch ! i) < head (oaPma S0 ! nb)" if "nb = M" "oaPma S0 ! nb \<noteq> emptyEntry P" "i < hi"
  proof -
    have "batch ! i \<in> set (slice batch lo hi)" using inv that(3) d(6) by (auto simp: outInv_def in_slice)
    then show ?thesis using set that by (auto simp: outSetting_def)
  qed
  have emp: "oaEmptyAt P S (int nb) = Some (nb = M)" if "nb < M \<or> oaPma S0 ! nb = emptyEntry P"
  proof (cases "nb = M")
    case True
    then have "oaPma S ! nb = emptyEntry P" using that s(1) nb'(1) by simp
    then have "oaEmptyAt P S (int nb) = Some (isEmpty (emptyEntry P))"
      using True nb' s(2) d(4) oaEmptyAt_ok [of P S "int nb"] by (simp add: okEntry_def)
    then show ?thesis using True by (simp add: isEmpty_def emptyEntry_def)
  next
    case False
    then have nM: "nb < M" using nb'(2) by simp
    have "oaPma S0 ! nb \<noteq> emptyEntry P" using nb nM by (simp add: nextBlock_def)
    then show ?thesis using False nb' s d(4) d(11,13) [OF nb'(3) nM] oaEmptyAt_ok [of P S "int nb"] by simp
  qed
  have goesHere: "(if int i < iright batchRange
      then do { v \<leftarrow> idx batch (int i); h \<leftarrow> oaHeadAt S (int nb); if keyOfValue P v < h then Some True else oaEmptyAt P S (int nb) }
      else Some False) = Some (i < hi \<and> (nb = M \<or> keyOfValue P (batch ! i) < head (oaPma S0 ! nb)))"
    using rng hd emp lt d(6) nb'(2) by (cases "nb < M \<or> oaPma S0 ! nb = emptyEntry P") auto
  have "\<exists>i' ws' S'. (if i < hi \<and> (nb = M \<or> keyOfValue P (batch ! i) < head (oaPma S0 ! nb))
           then oaInsertElementsIntoBlock P Z True (int t) (int nb) (mkInterval (int L) (int M)) (mkInterval (int start) e) batch (int i) batchRange (int (length ws)) S
           else do { S \<leftarrow> oaWriteBlockAt P (int t) (ileft (mkInterval (int start) e)) (int (length ws)) S; Some (int i, int (length ws) + 1, S) }) = Some (int i', int (length ws'), S') \<and>
       outInv P K S0 batch lo hi L M start i' nb ws' S'"
  proof (cases "i < hi \<and> (nb = M \<or> keyOfValue P (batch ! i) < head (oaPma S0 ! nb))")
    case True
    then have "i < hi" "nb < M \<Longrightarrow> keyOfValue P (batch ! i) < head (oaPma S0 ! nb)" by auto
    then show ?thesis using out_insert [OF set inv nb t _ _ rng, of e] True by simp
  next
    case False
    then have "i < hi \<Longrightarrow> nb < M \<and> head (oaPma S0 ! nb) \<le> keyOfValue P (batch ! i)" using nb'(2) by auto
    then obtain ws' S' where w: "oaWriteBlockAt P (int t) (int start) (int (length ws)) S = Some S'" "length ws' = Suc (length ws)"
      "outInv P K S0 batch lo hi L M start i nb ws' S'" using out_skip [OF set inv nb t] by blast
    then show ?thesis unfolding if_not_P [OF False] by (intro exI [of _ i] exI [of _ ws'] exI [of _ S']) simp
  qed
  then obtain i' ws' S' where st: "(if i < hi \<and> (nb = M \<or> keyOfValue P (batch ! i) < head (oaPma S0 ! nb))
           then oaInsertElementsIntoBlock P Z True (int t) (int nb) (mkInterval (int L) (int M)) (mkInterval (int start) e) batch (int i) batchRange (int (length ws)) S
           else do { S \<leftarrow> oaWriteBlockAt P (int t) (ileft (mkInterval (int start) e)) (int (length ws)) S; Some (int i, int (length ws) + 1, S) }) = Some (int i', int (length ws'), S')"
       "outInv P K S0 batch lo hi L M start i' nb ws' S'" by blast
  have "\<exists>n. findNext (oaArrayOf P S') (int nb) (int M) = Some n \<and> (nb < M \<longrightarrow> (\<exists>n'. n = int n' \<and> nextBlock P S0 M nb n'))"
  proof (cases "nb < M")
    case True
    then show ?thesis using out_findNext [OF set st(2) _ True nb'(3)] by auto
  next
    case False
    then show ?thesis using nb'(2) by (simp add: findNext_def) (subst skipEmpty.simps, simp)
  qed
  then obtain n where n: "findNext (oaArrayOf P S') (int nb) (int M) = Some n" "nb < M \<longrightarrow> (\<exists>n'. n = int n' \<and> nextBlock P S0 M nb n')" by blast
  have "outOfPlaceLoop P Z batch batchRange (mkInterval (int L) (int M)) (mkInterval (int start) e) (int i) (int t) (int nb) (int (length ws)) S =
      outOfPlaceLoop P Z batch batchRange (mkInterval (int L) (int M)) (mkInterval (int start) e) (int i') (int nb) n (int (length ws')) S'"
    using t n(1) by (subst outOfPlaceLoop.simps) (simp add: goesHere st(1) split del: if_split)
  then show ?thesis using st(2) n(2) by blast
qed

lemma outOfPlaceLoop_ok:
  assumes set: "outSetting P Z K S0 batch lo hi L M start" and rng: "iright batchRange = int hi"
  shows "outInv P K S0 batch lo hi L M start i t ws S \<Longrightarrow> (t < M \<longrightarrow> (\<exists>n. nb = int n \<and> nextBlock P S0 M t n)) \<Longrightarrow>
    \<exists>ws' S'. outOfPlaceLoop P Z batch batchRange (mkInterval (int L) (int M)) (mkInterval (int start) e) (int i) (int t) nb (int (length ws)) S =
       Some (int hi, int (length ws'), S') \<and> outInv P K S0 batch lo hi L M start hi M ws' S'"
proof (induction "M - t" arbitrary: i t ws S nb rule: less_induct)
  case less
  show ?case
  proof (cases "t < M")
    case True
    then obtain n where n: "nb = int n" "nextBlock P S0 M t n" using less(3) by blast
    obtain i' ws' S' nb' where s: "outOfPlaceLoop P Z batch batchRange (mkInterval (int L) (int M)) (mkInterval (int start) e) (int i) (int t) nb (int (length ws)) S =
      outOfPlaceLoop P Z batch batchRange (mkInterval (int L) (int M)) (mkInterval (int start) e) (int i') (int n) nb' (int (length ws')) S'"
      "outInv P K S0 batch lo hi L M start i' n ws' S'" "n < M \<longrightarrow> (\<exists>n'. nb' = int n' \<and> nextBlock P S0 M n n')"
      using out_step [OF set less(2) n(2) True rng] unfolding n(1) by blast
    have "M - n < M - t" using n(2) True by (auto simp: nextBlock_def)
    from less(1) [OF this s(2,3)] show ?thesis using s(1) by simp
  next
    case False
    then have "t = M" "i = hi" using less(2) by (auto simp: outInv_def)
    then show ?thesis using less(2) by (subst outOfPlaceLoop.simps) auto
  qed
qed

section \<open>Inserting into an empty array\<close>

text \<open>As in theory \<open>Insertion_Range\<close>, but the blocks are filled by \<open>mergeFaster\<close>, which may leave copies of elements in unused cells.\<close>

definition fillInv ::
  "('k::linorder, 'v) tparams \<Rightarrow> 'v list \<Rightarrow> nat \<Rightarrow> nat \<Rightarrow> nat \<Rightarrow> ('k, 'v) PmaEntry \<Rightarrow> ('k, 'v) PmaEntry list \<Rightarrow> bool" where
  "fillInv P batch lo hi i cur ws \<longleftrightarrow> lo \<le> i \<and> i \<le> hi \<and> entriesElems (ws @ [cur]) = slice batch lo i \<and>
     wfBlock P cur \<and> nullStale P cur \<and> staleKeys P cur \<subseteq> insert (NULL_KEY P) (keyOfValue P ` set (slice batch lo i)) \<and>
     (\<forall>w\<in>set ws. okSized P w \<and> nullStale P w \<and> staleKeys P w \<subseteq> insert (NULL_KEY P) (keyOfValue P ` set (slice batch lo i)))"

definition fillPhase :: "('k, 'v) tparams \<Rightarrow> nat \<Rightarrow> nat \<Rightarrow> ('k, 'v) PmaEntry \<Rightarrow> ('k, 'v) PmaEntry list \<Rightarrow> bool" where
  "fillPhase P hi i cur ws \<longleftrightarrow> (if i < hi then bsize cur = MaxSize P \<or> bsize cur = 0 \<and> ws = [] else MinSize P \<le> bsize cur)"

definition oaRoom ::
  "('k::linorder, 'v) tparams \<Rightarrow> Interval \<Rightarrow> int \<Rightarrow> ('k, 'v) PmaEntry \<Rightarrow> int \<Rightarrow> ('k, 'v) oaSds \<Rightarrow> (('k, 'v) PmaEntry \<times> int \<times> ('k, 'v) oaSds) option" where
  "oaRoom P out remaining cur ob S =
     (if bsize cur = MaxSize P
      then do {
        let remainingElements = remaining;
        (cur, newBlock) \<leftarrow>
          (if remainingElements > 0 \<and> remainingElements < int (MinSize P) then oaSplit P cur
           else do { newBlock \<leftarrow> allocateBlock P (emptyEntry P); Some (cur, newBlock) });
        S \<leftarrow> oaWriteBlock P cur (ileft out) ob S;
        Some (newBlock, ob + 1, S) }
      else Some (cur, ob, S))"

lemma oaEmptyRangeLoop_step:
  "oaEmptyRangeLoop P Z batch batchRange out i cur ob S =
     (if i < iright batchRange
      then do {
        (cur, ob, S) \<leftarrow> oaRoom P out (iright batchRange - i) cur ob S;
        let n = min (int (MaxSize P)) (iright batchRange - i);
        cur \<leftarrow> mergeFaster P Z cur (drop (nat i) batch) (u16 n);
        oaEmptyRangeLoop P Z batch batchRange out (i + n) cur ob S }
      else Some (i, cur, ob, S))"
  unfolding oaRoom_def by (subst oaEmptyRangeLoop.simps) (simp cong: if_cong)

text \<open>The swap array holds the blocks \<open>ws\<close> from \<open>start\<close> on.\<close>

definition stacked :: "('k, 'v) oaSds \<Rightarrow> nat \<Rightarrow> ('k, 'v) PmaEntry list \<Rightarrow> ('k, 'v) oaSds" where
  "stacked S0 start ws = S0\<lparr>oaSwapPma := writeAt start ws (oaSwapPma S0)\<rparr>"

lemma oaRoom_ok:
  assumes set: "emptySetting P batch lo hi" and inv: "fillInv P batch lo hi i cur ws" "fillPhase P hi i cur ws" and i: "i < hi"
    and free: "swapFree S0 start n" "length ws < n"
  shows "\<exists>cur' ws'. oaRoom P (mkInterval (int start) e) (int hi - int i) cur (int (length ws)) (stacked S0 start ws) = Some (cur', int (length ws'), stacked S0 start ws') \<and>
     fillInv P batch lo hi i cur' ws' \<and> (bsize cur' = 0 \<and> (ws' = [] \<or> MinSize P \<le> hi - i) \<or> bsize cur' = MinSize P \<and> hi - i < MinSize P)"
proof (cases "bsize cur = MaxSize P")
  case True
  let ?K = "insert (NULL_KEY P) (keyOfValue P ` set (slice batch lo i))"
  have wp: "wfParams P" using set by (simp add: emptySetting_def)
  have cur: "wfBlock P cur" "staleKeys P cur \<subseteq> ?K" "okSized P cur" "nullStale P cur"
    using inv True wp by (auto simp: fillInv_def okSized_def wfParams_def)
  have content: "entriesElems ws @ elems cur = slice batch lo i" using inv by (simp add: fillInv_def)
  have sub: "keyOfValue P ` set (elems cur) \<subseteq> ?K" unfolding content [symmetric] by auto
  have "\<exists>w new. (if int hi - int i > 0 \<and> int hi - int i < int (MinSize P) then oaSplit P cur
           else do { newBlock \<leftarrow> allocateBlock P (emptyEntry P); Some (cur, newBlock) }) = Some (w, new) \<and>
      okSized P w \<and> wfBlock P new \<and> elems w @ elems new = elems cur \<and> staleKeys P w \<subseteq> ?K \<and> nullStale P w \<and>
      staleKeys P new \<subseteq> {NULL_KEY P} \<and> (bsize new = 0 \<and> MinSize P \<le> hi - i \<or> bsize new = MinSize P \<and> hi - i < MinSize P)"
  proof (cases "hi - i < MinSize P")
    case small: True
    obtain l r where lr: "split P cur = Some (l, r)" "wfBlock P l" "wfBlock P r" "elems l = take (MinSize P) (elems cur)"
      "elems r = drop (MinSize P) (elems cur)" "bsize l = MinSize P" "bsize r = MinSize P"
      "staleKeys P l \<subseteq> insert (NULL_KEY P) (set (keysOf P r))" "staleKeys P r \<subseteq> {NULL_KEY P}" "nullStale P l"
      using split_ok [OF wp cur(1) True] by blast
    have "keyOfValue P ` set (elems r) \<subseteq> keyOfValue P ` set (elems cur)" unfolding lr(5) by (intro image_mono set_drop_subset)
    then have "insert (NULL_KEY P) (set (keysOf P r)) \<subseteq> ?K" using sub unfolding keysOf_def set_map by (meson insert_subset insertI1 order_trans)
    then have "staleKeys P l \<subseteq> ?K" using lr(8) by (rule order_trans [rotated])
    moreover have "okSized P l" using lr(2,6) wp by (simp add: okSized_def wfParams_def)
    moreover have "elems l @ elems r = elems cur" unfolding lr(4,5) by simp
    moreover have "int hi - int i < int (MinSize P)" "0 < int hi - int i" using small i by auto
    ultimately show ?thesis using small oaSplit_eq [OF lr(1)] lr(3,7,9,10) by (simp only: if_True simp_thms) (auto simp: not_less)
  next
    case False
    obtain b where "allocateBlock P (emptyEntry P) = Some b" "wfBlock P b" "bsize b = 0" "elems b = []" "staleKeys P b \<subseteq> {NULL_KEY P}"
      by (rule fresh_block [OF wp])
    then show ?thesis using False cur i by auto
  qed
  then obtain w new where w: "(if int hi - int i > 0 \<and> int hi - int i < int (MinSize P) then oaSplit P cur
           else do { newBlock \<leftarrow> allocateBlock P (emptyEntry P); Some (cur, newBlock) }) = Some (w, new)"
      "okSized P w" "wfBlock P new" "elems w @ elems new = elems cur" "staleKeys P w \<subseteq> ?K" "nullStale P w"
      "staleKeys P new \<subseteq> {NULL_KEY P}" "bsize new = 0 \<and> MinSize P \<le> hi - i \<or> bsize new = MinSize P \<and> hi - i < MinSize P" by blast
  have "oaWriteBlock P w (int start) (int (length ws)) (stacked S0 start ws) = Some (stacked S0 start (ws @ [w]))"
    unfolding stacked_def by (rule oaWriteBlock_ok [OF free w(2)]) simp
  then have "oaRoom P (mkInterval (int start) e) (int hi - int i) cur (int (length ws)) (stacked S0 start ws) =
      Some (new, int (length (ws @ [w])), stacked S0 start (ws @ [w]))"
    using True w(1) by (simp add: oaRoom_def)
  moreover have "fillInv P batch lo hi i new (ws @ [w])"
    using inv(1) w(2-7) content by (auto simp: fillInv_def nullStale_def)
  ultimately show ?thesis using w(8) by blast
next
  case False
  then have "bsize cur = 0" "ws = []" using inv i by (auto simp: fillPhase_def)
  then show ?thesis using False inv(1) by (intro exI [of _ cur] exI [of _ ws]) (simp add: oaRoom_def)
qed

lemma fill_merge:
  assumes set: "emptySetting P batch lo hi" "MaxSize P \<le> 32768" "Z \<notin> keyOfValue P ` set batch" and i: "i < hi" and inv: "fillInv P batch lo hi i cur ws"
    and room: "bsize cur = 0 \<and> (ws = [] \<or> MinSize P \<le> hi - i) \<or> bsize cur = MinSize P \<and> hi - i < MinSize P"
  shows "\<exists>b. mergeFaster P Z cur (drop i batch) (u16 (min (int (MaxSize P)) (int hi - int i))) = Some b \<and>
     fillInv P batch lo hi (i + min (MaxSize P) (hi - i)) b ws \<and> fillPhase P hi (i + min (MaxSize P) (hi - i)) b ws"
proof -
  let ?n = "min (MaxSize P) (hi - i)"
  have wp: "wfParams P" and hi: "hi \<le> length batch" "lo + MinSize P \<le> hi" and srt: "strictly_sorted (map (keyOfValue P) batch)"
    and nk: "\<forall>v\<in>set batch. NULL_KEY P < keyOfValue P v" using set by (auto simp: emptySetting_def)
  have cur: "entriesElems (ws @ [cur]) = slice batch lo i" "wfBlock P cur" "nullStale P cur" "lo \<le> i"
      "staleKeys P cur \<subseteq> insert (NULL_KEY P) (keyOfValue P ` set (slice batch lo i))"
    and ws: "\<forall>w\<in>set ws. okSized P w \<and> nullStale P w \<and> staleKeys P w \<subseteq> insert (NULL_KEY P) (keyOfValue P ` set (slice batch lo i))"
    using inv by (auto simp: fillInv_def)
  note w = wfParamsD [OF wp]
  define i' where "i' = i + ?n"
  have i': "i < i'" "i' \<le> hi" "i' - i = ?n" using i w by (auto simp: i'_def)
  have n: "u16 (min (int (MaxSize P)) (int hi - int i)) = i' - i" using i w by (subst u16_id) (auto simp: i'_def)
  have sl: "take (i' - i) (drop i batch) = slice batch i i'" by (simp add: slice_def)
  have sub: "set (slice batch i i') \<subseteq> set batch" by (rule set_slice_subset)
  have whole: "slice batch lo i' = entriesElems ws @ elems cur @ slice batch i i'"
    using slice_append [of lo i i' batch] cur(4) i' cur(1) by simp
  have "mfSetting P cur (drop i batch) (i' - i)"
    unfolding mfSetting_def sl using wp cur(2,3) i' hi room w set(2) nk sub sorted_keys_slice [OF srt, of i i']
    by (auto simp: nullStale_def staleKeys_def IsTrivialType_def)
  moreover have "set (elems cur) \<union> set (slice batch i i') \<subseteq> set batch"
    using set_slice_subset [of batch lo i'] unfolding whole by auto
  then have "\<forall>x\<in>set (elems cur) \<union> set (take (i' - i) (drop i batch)). keyOfValue P x \<noteq> Z" unfolding sl using set(3) by blast
  ultimately obtain b where b: "mergeFaster P Z cur (drop i batch) (i' - i) = Some b" "wfBlock P b"
    "elems b = fold (insKey (keyOfValue P)) (slice batch i i') (elems cur)" "nullStale P b"
    "staleKeys P b \<subseteq> staleKeys P cur \<union> {NULL_KEY P} \<union> keyOfValue P ` set (elems b)"
    using mergeFaster_ok [of P cur "drop i batch" "i' - i" Z] unfolding sl by blast
  have "strictly_sorted (map (keyOfValue P) (elems cur @ slice batch i i'))"
    using sorted_keys_slice [OF srt, of lo i'] unfolding whole by (simp add: sorted_wrt_append)
  then have el: "elems b = elems cur @ slice batch i i'" using b(3) fold_insKey_appends by metis
  have sz: "bsize b = bsize cur + (i' - i)"
    using length_elems [of P b] length_elems [of P cur] b(2) cur(2) el i' hi by simp
  have "i = lo" if "bsize cur = 0" "ws = []"
    using that arg_cong [OF cur(1), of length] length_elems [of P cur] cur(2,4) i hi by simp
  then have ph: "fillPhase P hi i' b ws" unfolding fillPhase_def
    using room i' w hi(2) sz by (auto simp: i'_def min_def split: if_splits)
  have sub: "keyOfValue P ` set (slice batch lo i) \<subseteq> keyOfValue P ` set (slice batch lo i')" "keyOfValue P ` set (elems b) \<subseteq> keyOfValue P ` set (slice batch lo i')"
  proof -
    show "keyOfValue P ` set (slice batch lo i) \<subseteq> keyOfValue P ` set (slice batch lo i')"
      using slice_append [of lo i i' batch] cur(4) i'(1) by (intro image_mono) auto
    show "keyOfValue P ` set (elems b) \<subseteq> keyOfValue P ` set (slice batch lo i')" unfolding el whole by auto
  qed
  then have "\<forall>w\<in>set ws. okSized P w \<and> nullStale P w \<and> staleKeys P w \<subseteq> insert (NULL_KEY P) (keyOfValue P ` set (slice batch lo i'))"
    using ws insert_mono [OF sub(1)] by (meson order_trans)
  moreover have "staleKeys P b \<subseteq> insert (NULL_KEY P) (keyOfValue P ` set (slice batch lo i'))" 
    by (rule order_trans [OF b(5) Un_least [OF Un_least [OF order_trans [OF cur(5) insert_mono [OF sub(1)]] _] subset_insertI2 [OF sub(2)]]]) simp
  ultimately have "fillInv P batch lo hi i' b ws"
    using b(2,4) el whole cur(4) i' by (simp add: fillInv_def)
  then show ?thesis using ph b(1) n unfolding i'_def by metis
qed

lemma fill_count:
  assumes "emptySetting P batch lo hi" "fillInv P batch lo hi i cur ws"
  shows "length ws * MinSize P + bsize cur \<le> i - lo"
proof -
  have "length ws * MinSize P \<le> length (entriesElems ws)" using assms(2) by (intro sum_sizes) (auto simp: fillInv_def)
  moreover have "length (entriesElems ws) + length (elems cur) = i - lo"
  proof -
    have "entriesElems ws @ elems cur = slice batch lo i" "i \<le> length batch" using assms by (auto simp: fillInv_def emptySetting_def)
    then show ?thesis using length_append [of "entriesElems ws" "elems cur"] by simp
  qed
  moreover have "length (elems cur) = bsize cur" using assms(2) length_elems [of P cur] by (simp add: fillInv_def)
  ultimately show ?thesis by simp
qed

lemma oaEmptyRangeLoop_ok:
  assumes set: "emptySetting P batch lo hi" "MaxSize P \<le> 32768" "Z \<notin> keyOfValue P ` set batch"
    and free: "swapFree S0 start ((hi - lo) div MinSize P)" and rng: "iright batchRange = int hi"
  shows "fillInv P batch lo hi i cur ws \<Longrightarrow> fillPhase P hi i cur ws \<Longrightarrow>
    \<exists>cur' ws'. oaEmptyRangeLoop P Z batch batchRange (mkInterval (int start) e) (int i) cur (int (length ws)) (stacked S0 start ws) =
         Some (int hi, cur', int (length ws'), stacked S0 start ws') \<and> fillInv P batch lo hi hi cur' ws' \<and> MinSize P \<le> bsize cur'"
proof (induction "hi - i" arbitrary: i cur ws rule: less_induct)
  case less
  have lo: "lo \<le> i" "i \<le> hi" using less(2) by (auto simp: fillInv_def)
  show ?case
  proof (cases "i < hi")
    case True
    have wp: "wfParams P" "lo + MinSize P \<le> hi" using set(1) by (auto simp: emptySetting_def)
    have "length ws < (hi - lo) div MinSize P"
    proof (cases "ws = []")
      case True
      then show ?thesis using wp by (simp add: div_greater_zero_iff wfParams_def)
    next
      case False
      then have "MaxSize P \<le> bsize cur" using less(3) True by (auto simp: fillPhase_def)
      then have "(length ws + 1) * MinSize P \<le> hi - lo" using fill_count [OF set(1) less(2)] lo wfParamsD [OF wp(1)] by simp
      then have "length ws + 1 \<le> (hi - lo) div MinSize P" using wp(1) by (subst less_eq_div_iff_mult_less_eq) (auto simp: wfParams_def)
      then show ?thesis by simp
    qed
    then obtain cur1 ws1 where r: "oaRoom P (mkInterval (int start) e) (int hi - int i) cur (int (length ws)) (stacked S0 start ws) = Some (cur1, int (length ws1), stacked S0 start ws1)"
       "fillInv P batch lo hi i cur1 ws1" "bsize cur1 = 0 \<and> (ws1 = [] \<or> MinSize P \<le> hi - i) \<or> bsize cur1 = MinSize P \<and> hi - i < MinSize P"
      using oaRoom_ok [OF set(1) less(2,3) True free] by blast
    define i' where "i' = i + min (MaxSize P) (hi - i)"
    obtain b where b: "mergeFaster P Z cur1 (drop i batch) (u16 (min (int (MaxSize P)) (int hi - int i))) = Some b" "fillInv P batch lo hi i' b ws1" "fillPhase P hi i' b ws1"
      using fill_merge [OF set True r(2,3)] unfolding i'_def by blast
    have "hi - i' < hi - i" using True wp(1) by (auto simp: i'_def wfParams_def)
    moreover have "int i + min (int (MaxSize P)) (int hi - int i) = int i'" using True by (auto simp: i'_def)
    ultimately show ?thesis
      using less(1) [OF _ b(2,3)] r(1) b(1) True rng(1) by (subst oaEmptyRangeLoop_step) simp
  next
    case False
    then have "i = hi" using lo by simp
    then show ?thesis using less(2-3) rng(1) by (subst oaEmptyRangeLoop_step) (auto simp: fillPhase_def)
  qed
qed

lemma oaInsertIntoEmptyRange_ok:
  assumes set: "emptySetting P batch lo hi" "MaxSize P \<le> 32768" "Z \<notin> keyOfValue P ` set batch"
    and free: "swapFree S start ((hi - lo) div MinSize P)" and rng: "iright batchRange = int hi"
  shows "\<exists>ws. oaInsertIntoEmptyRange P Z batch batchRange (int lo) (mkInterval (int start) e) 0 S = Some (int (length ws), stacked S start ws) \<and>
     entriesElems ws = slice batch lo hi \<and> length ws \<le> (hi - lo) div MinSize P \<and>
     (\<forall>w\<in>set ws. okSized P w \<and> okStored P (keyOfValue P ` set (slice batch lo hi)) w)"
proof -
  have wp: "wfParams P" "lo < hi" using set by (auto simp: emptySetting_def wfParams_def)
  obtain b where b: "allocateBlock P (emptyEntry P) = Some b" "wfBlock P b" "bsize b = 0" "elems b = []" "staleKeys P b \<subseteq> {NULL_KEY P}"
    by (rule fresh_block [OF wp(1)])
  have "fillInv P batch lo hi lo b []" "fillPhase P hi lo b []"
    using b wp by (auto simp: fillInv_def fillPhase_def nullStale_def)
  then obtain cur ws where l: "oaEmptyRangeLoop P Z batch batchRange (mkInterval (int start) e) (int lo) b 0 S = Some (int hi, cur, int (length ws), stacked S start ws)"
     "fillInv P batch lo hi hi cur ws" "MinSize P \<le> bsize cur"
    using oaEmptyRangeLoop_ok [OF set free rng, of lo b "[]" e] by (auto simp: stacked_def)
  have cur: "okSized P cur" using l(2,3) by (auto simp: fillInv_def okSized_def wfBlock_def okBlock_def)
  have "(length ws + 1) * MinSize P \<le> hi - lo" using fill_count [OF set(1) l(2)] l(3) by simp
  then have room: "length ws + 1 \<le> (hi - lo) div MinSize P" using wp(1) by (subst less_eq_div_iff_mult_less_eq) (auto simp: wfParams_def)
  have "oaWriteBlock P cur (int start) (int (length ws)) (stacked S start ws) = Some (stacked S start (ws @ [cur]))"
    unfolding stacked_def by (rule oaWriteBlock_ok [OF free _ cur]) (use room in simp_all)
  moreover have "0 < bsize cur" using l(3) wp(1) by (auto simp: wfParams_def)
  ultimately have "oaInsertIntoEmptyRange P Z batch batchRange (int lo) (mkInterval (int start) e) 0 S = Some (int (length (ws @ [cur])), stacked S start (ws @ [cur]))"
    using b(1) l(1) rng by (simp add: oaInsertIntoEmptyRange_def writeLastBlock_def)
  moreover have "\<forall>w\<in>set (ws @ [cur]). okSized P w \<and> okStored P (keyOfValue P ` set (slice batch lo hi)) w"
    using l(2) cur by (auto simp: fillInv_def okStored_def)
  moreover have "entriesElems (ws @ [cur]) = slice batch lo hi" using l(2) by (simp only: fillInv_def)
  ultimately show ?thesis using room by (intro exI [of _ "ws @ [cur]"]) simp
qed

section \<open>The whole operation out of place\<close>

lemma insertOutOfPlace_ok:
  assumes set: "outSetting P Z K S0 batch lo hi L M start"
  shows "\<exists>ws S'. insertBatchRangeOutOfPlace P Z batch (mkInterval (int lo) (int hi)) (mkInterval (int L) (int M)) (mkInterval (int start) e) S0 =
       Some (int (length ws), S') \<and> outInv P K S0 batch lo hi L M start hi M ws S'"
proof -
  note d = outSettingD [OF set]
  have start: "outInv P K S0 batch lo hi L M start lo L [] S0"
    using set d(3,5) by (auto simp: outInv_def outSetting_def slice_def intro!: exI [of _ "oaPma S0"] exI [of _ "sizeManager S0"])
  obtain nb where nb: "findNext (oaArrayOf P S0) (int L) (int M) = Some (int nb)" "nextBlock P S0 M L nb"
    using out_findNext [OF set start, of L] d(3) by auto
  then obtain ws S' where l: "outOfPlaceLoop P Z batch (mkInterval (int lo) (int hi)) (mkInterval (int L) (int M)) (mkInterval (int start) e) (int lo) (int L) (int nb) 0 S0 =
       Some (int hi, int (length ws), S')" "outInv P K S0 batch lo hi L M start hi M ws S'"
    using outOfPlaceLoop_ok [OF set _ start, of "mkInterval (int lo) (int hi)" "int nb" e] by auto
  have "oaPma S0 ! L \<noteq> emptyEntry P" using set by (simp add: outSetting_def)
  then have "oaEmptyAt P S0 (int L) = Some False" using oaEmptyAt_ok [of P S0 "int L"] d(11,13) [OF order_refl d(3)] d(3,4) by simp
  then show ?thesis using nb(1) l d(3) by (auto simp: insertBatchRangeOutOfPlace_def)
qed

lemma insertOutOfPlace_empty:
  assumes set: "emptySetting P batch lo hi" "MaxSize P \<le> 32768" "Z \<notin> keyOfValue P ` set batch"
    and free: "swapFree S start ((hi - lo) div MinSize P)"
  shows "\<exists>ws. insertBatchRangeOutOfPlace P Z batch (mkInterval (int lo) (int hi)) (mkInterval (int L) (int L)) (mkInterval (int start) e) S =
       Some (int (length ws), stacked S start ws) \<and>
     entriesElems ws = slice batch lo hi \<and> length ws \<le> (hi - lo) div MinSize P \<and>
     (\<forall>w\<in>set ws. okSized P w \<and> okStored P (keyOfValue P ` set (slice batch lo hi)) w)"
proof -
  obtain ws where ws: "oaInsertIntoEmptyRange P Z batch (mkInterval (int lo) (int hi)) (int lo) (mkInterval (int start) e) 0 S = Some (int (length ws), stacked S start ws)"
     "entriesElems ws = slice batch lo hi" "length ws \<le> (hi - lo) div MinSize P"
     "\<forall>w\<in>set ws. okSized P w \<and> okStored P (keyOfValue P ` set (slice batch lo hi)) w"
    using oaInsertIntoEmptyRange_ok [OF set free, of "mkInterval (int lo) (int hi)" e] by auto
  have "findNext (oaArrayOf P S) (int L) (int L) = Some (int L + 1)"
    by (simp add: findNext_def) (subst skipEmpty.simps, simp)
  then have "insertBatchRangeOutOfPlace P Z batch (mkInterval (int lo) (int hi)) (mkInterval (int L) (int L)) (mkInterval (int start) e) S = Some (int (length ws), stacked S start ws)"
    using ws(1) by (simp add: insertBatchRangeOutOfPlace_def intervalLength_def) (subst outOfPlaceLoop.simps, simp)
  then show ?thesis using ws(2-4) by blast
qed

text \<open>Both cases as one: \<open>E\<close> are the elements of the input range.\<close>

definition moveOut ::
  "('k::linorder, 'v) tparams \<Rightarrow> 'k set \<Rightarrow> ('k, 'v) oaSds \<Rightarrow> 'v list \<Rightarrow> nat \<Rightarrow> nat \<Rightarrow> nat \<Rightarrow> ('k, 'v) PmaEntry list \<Rightarrow> ('k, 'v) oaSds \<Rightarrow> bool" where
  "moveOut P K S0 vs L M start ws S \<longleftrightarrow>
     (\<exists>ps m. S = S0\<lparr>oaPma := ps, oaSwapPma := writeAt start ws (oaSwapPma S0), sizeManager := m\<rparr> \<and> sizesKept (sizeManager S0) m \<and>
        length ps = length (oaPma S0) \<and> (\<forall>j. ps ! j = (if L \<le> j \<and> j < M then emptyEntry P else oaPma S0 ! j))) \<and>
     entriesElems ws = fold (insKey (keyOfValue P)) vs (entriesElems (slice (oaPma S0) L M)) \<and>
     (\<forall>w\<in>set ws. okSized P w \<and> okStored P (K \<union> keyOfValue P ` set (entriesElems ws)) w)"

lemma insertOutOfPlace_moves:
  assumes "outSetting P Z K S batch lo hi L M start \<or>
     M = L \<and> emptySetting P batch lo hi \<and> MaxSize P \<le> 32768 \<and> Z \<notin> keyOfValue P ` set batch \<and> swapFree S start ((hi - lo) div MinSize P)"
  shows "\<exists>ws S'. insertBatchRangeOutOfPlace P Z batch (mkInterval (int lo) (int hi)) (mkInterval (int L) (int M)) (mkInterval (int start) e) S =
       Some (int (length ws), S') \<and> moveOut P K S (slice batch lo hi) L M start ws S'"
  using assms
proof (elim disjE conjE)
  assume "outSetting P Z K S batch lo hi L M start"
  then obtain ws S' where ws: "insertBatchRangeOutOfPlace P Z batch (mkInterval (int lo) (int hi)) (mkInterval (int L) (int M)) (mkInterval (int start) e) S =
       Some (int (length ws), S')" "outInv P K S batch lo hi L M start hi M ws S'" using insertOutOfPlace_ok by blast
  then have "moveOut P K S (slice batch lo hi) L M start ws S'" unfolding outInv_def moveOut_def by blast
  then show ?thesis using ws(1) by blast
next
  assume a: "M = L" "emptySetting P batch lo hi" "MaxSize P \<le> 32768" "Z \<notin> keyOfValue P ` set batch" "swapFree S start ((hi - lo) div MinSize P)"
  then obtain ws where ws: "insertBatchRangeOutOfPlace P Z batch (mkInterval (int lo) (int hi)) (mkInterval (int L) (int L)) (mkInterval (int start) e) S =
       Some (int (length ws), stacked S start ws)" "entriesElems ws = slice batch lo hi"
     "\<forall>w\<in>set ws. okSized P w \<and> okStored P (keyOfValue P ` set (slice batch lo hi)) w"
    using insertOutOfPlace_empty [of P batch lo hi Z S start L e] by blast
  have "strictly_sorted (map (keyOfValue P) (slice batch lo hi))" using a(2) sorted_keys_slice by (auto simp: emptySetting_def)
  then have f: "fold (insKey (keyOfValue P)) (slice batch lo hi) [] = slice batch lo hi"
    using fold_insKey_appends [of "keyOfValue P" "[]" "slice batch lo hi"] by simp
  have st: "okStored P (K \<union> keyOfValue P ` set (entriesElems ws)) w" if "w \<in> set ws" for w
    using ws(2,3) that by (auto intro: okStored_mono)
  have "moveOut P K S (slice batch lo hi) L L start ws (stacked S start ws)"
    unfolding moveOut_def using ws(3) st
    by (auto simp: stacked_def f slice_def [of "oaPma S"] ws(2) intro!: exI [of _ "oaPma S"] exI [of _ "sizeManager S"])
  then show ?thesis using ws(1) a(1) by blast
qed

section \<open>Properties\<close>

text \<open>C6. Inserting a range of a sorted batch out of place: the operation returns, all blocks of the input range together
  with the elements of the batch are in blocks of legal sizes in the swap array from the start of the output range on,
  in order and without duplicates, the returned number counts these blocks, the entries of the input range are empty
  and all others are unchanged.\<close>

theorem insertBatchRangeOutOfPlace_inserts:
  assumes "outSetting P Z K S batch lo hi L M start"
  shows "\<exists>ws S'. insertBatchRangeOutOfPlace P Z batch (mkInterval (int lo) (int hi)) (mkInterval (int L) (int M)) (mkInterval (int start) e) S =
       Some (int (length ws), S') \<and>
     entriesElems ws = fold (insKey (keyOfValue P)) (slice batch lo hi) (entriesElems (slice (oaPma S) L M)) \<and>
     list_all (okSized P) ws \<and> oaSwapPma S' = writeAt start ws (oaSwapPma S) \<and> length (oaPma S') = length (oaPma S) \<and>
     (\<forall>j. oaPma S' ! j = (if L \<le> j \<and> j < M then emptyEntry P else oaPma S ! j))"
proof -
  obtain ws S' where ws: "insertBatchRangeOutOfPlace P Z batch (mkInterval (int lo) (int hi)) (mkInterval (int L) (int M)) (mkInterval (int start) e) S =
       Some (int (length ws), S')" "moveOut P K S (slice batch lo hi) L M start ws S'"
    using insertOutOfPlace_moves [of P Z K S batch lo hi L M start e] assms by blast
  then obtain ps m where S': "S' = S\<lparr>oaPma := ps, oaSwapPma := writeAt start ws (oaSwapPma S), sizeManager := m\<rparr>" "length ps = length (oaPma S)"
     "\<forall>j. ps ! j = (if L \<le> j \<and> j < M then emptyEntry P else oaPma S ! j)" by (auto simp: moveOut_def)
  moreover have "list_all (okSized P) ws" "entriesElems ws = fold (insKey (keyOfValue P)) (slice batch lo hi) (entriesElems (slice (oaPma S) L M))"
    using ws(2) by (auto simp: moveOut_def list_all_iff)
  ultimately show ?thesis using ws(1) by (intro exI [of _ ws] exI [of _ S']) auto
qed

definition outOa :: "Hierarchical \<Rightarrow> (nat, nat) oaSds" where
  "outOa m = (placeOa m)\<lparr>oaSwapPma := replicate 64 (emptyEntry (demoParams False))\<rparr>"

lemma outOa_setting: "\<exists>m. outSetting (demoParams False) 0 {} (outOa m) [4, 5, 12] 0 3 0 4 0"
proof -
  obtain m where m: "hInv ([3, 0, 0, 2] @ replicate 60 0) 4 m"
    using newHierarchical_recompute [of 4 "[3, 0, 0, 2] @ replicate 60 0"] by auto
  have pm: "oaPma (outOa m) = [demoBlock [1, 2, 3], emptyEntry (demoParams False), emptyEntry (demoParams False), demoBlock [9, 10]] @ replicate 60 (emptyEntry (demoParams False))"
    "sizeManager (outOa m) = m" by (simp_all add: outOa_def)
  have free: "swapFree (outOa m) 0 4" by (simp add: swapFree_def outOa_def placeOa_def emptyEntry_def)
  have "okStored (demoParams False) {} (oaPma (outOa m) ! j) \<and> counted (sizeManager (outOa m)) j" if "j < 4" for j
  proof -
    have "j = 0 \<or> j = 1 \<or> j = 2 \<or> j = 3" using that by linarith
    moreover have "counted (sizeManager (outOa m)) j" using hInv_counted [OF m, of j] that by (simp add: pm)
    ultimately show ?thesis by (auto simp: pm intro!: demoBlock_stored) (auto simp: okStored_def)
  qed
  then have "outSetting (demoParams False) 0 {} (outOa m) [4, 5, 12] 0 3 0 4 0"
    using free by (simp add: outSetting_def pm slice_def) (simp add: demoBlock_def emptyEntry_def demoParams_def)
  then show ?thesis ..
qed

theorem insertBatchRangeOutOfPlace_inserts_witness:
  "\<exists>m (ws :: (nat, nat) PmaEntry list) S'. insertBatchRangeOutOfPlace (demoParams False) 0 [4, 5, 12] (mkInterval 0 3) (mkInterval 0 4) (mkInterval 0 4) (outOa m) = Some (int (length ws), S') \<and>
     entriesElems ws = [1, 2, 3, 4, 5, 9, 10, 12]"
proof -
  obtain m where "outSetting (demoParams False) 0 {} (outOa m) [4, 5, 12] 0 3 0 4 0" using outOa_setting ..
  from insertBatchRangeOutOfPlace_inserts [OF this, of 4] obtain ws :: "(nat, nat) PmaEntry list" and S' where
    "insertBatchRangeOutOfPlace (demoParams False) 0 [4, 5, 12] (mkInterval (int 0) (int 3)) (mkInterval (int 0) (int 4)) (mkInterval (int 0) 4) (outOa m) =
       Some (int (length ws), S')"
    "entriesElems ws = fold (insKey (keyOfValue (demoParams False))) (slice [4, 5, 12] 0 3) (entriesElems (slice (oaPma (outOa m)) 0 4))" by blast
  moreover have "fold (insKey id) (slice [4, 5, 12] 0 3) (entriesElems (slice (oaPma (outOa m)) 0 4)) = [1, 2, 3, 4, 5, 9, 10, 12]"
    by (simp add: outOa_def slice_def)
  ultimately show ?thesis by (intro exI [of _ m] exI [of _ ws] exI [of _ S']) simp
qed

end
