(* ===== verification/Overallocated_Rewrite.thy ===== *)
theory Overallocated_Rewrite
  imports Overallocated_Out
begin

text \<open>
  The way back from the swap array: \<open>rewrite\<close> spreads the blocks of a task evenly over its range, the blocks in front of
  the first task are moved out and back unchanged, and the capacities grow (\<open>increaseSize\<close>, whose loop terminates for every positive
  capacity).
\<close>

section \<open>Distributing the blocks over the array again\<close>

lemma oaUniformWriteIndex_eq:
  assumes "k < n"
  shows "oaUniformWriteIndex P (int a) (int k) (int len) (int n) = Some (int (a + k * len div n))"
proof -
  have "cdiv (int k * int len) (int n) = int (k * len div n)" using cdiv_nonneg [of "int k * int len" "int n"] assms by (simp add: zdiv_int)
  then show ?thesis using assms by (simp add: oaUniformWriteIndex_def)
qed

definition rewriteInv ::
  "('k, 'v) tparams \<Rightarrow> nat \<Rightarrow> nat \<Rightarrow> ('k, 'v) PmaEntry list \<Rightarrow> ('k, 'v) oaSds \<Rightarrow> nat \<Rightarrow> ('k, 'v) oaSds \<Rightarrow> bool" where
  "rewriteInv P a len ws S0 k S \<longleftrightarrow>
     (\<exists>ps. S = S0\<lparr>oaPma := ps, oaSwapPma := writeAt a (replicate k (emptyEntry P)) (oaSwapPma S0)\<rparr> \<and> length ps = length (oaPma S0) \<and>
        (\<forall>j. j < a \<or> a + k * len div length ws \<le> j \<longrightarrow> ps ! j = oaPma S0 ! j) \<and>
        blocksIn ps a (a + k * len div length ws) = take k ws \<and>
        (\<forall>j. a \<le> j \<and> j < a + k * len div length ws \<longrightarrow> ps ! j \<in> insert (emptyEntry P) (set ws)) \<and>
        (\<forall>i<k. ps ! (a + i * len div length ws) = ws ! i))"

lemma blocksIn_empties:
  assumes "\<And>j. l \<le> j \<Longrightarrow> j < r \<Longrightarrow> isEmpty (ps ! j)" "r \<le> length ps"
  shows "Overallocated_Write.blocksIn ps l r = []"
  using assms by (auto simp: Overallocated_Write.blocksIn_def filter_empty_conv in_slice)

lemma blocksIn_cong:
  assumes "\<And>j. l \<le> j \<Longrightarrow> j < r \<Longrightarrow> ps ! j = qs ! j" "length ps = length qs" "r \<le> length ps"
  shows "Overallocated_Write.blocksIn ps l r = Overallocated_Write.blocksIn qs l r"
proof -
  have "slice ps l r = slice qs l r" using assms by (intro slice_eqI) auto
  then show ?thesis by (simp add: Overallocated_Write.blocksIn_def)
qed

lemma rewriteStep_ok:
  assumes inv: "rewriteInv P a len ws S0 k S" and k: "k < length ws" and n: "length ws \<le> len"
    and ok: "\<And>w. w \<in> set ws \<Longrightarrow> okSized P w" and wp: "wfParams P"
    and swap: "a + length ws \<le> length (oaSwapPma S0)" "\<And>j. j < length ws \<Longrightarrow> oaSwapPma S0 ! (a + j) = ws ! j"
    and room: "a + len \<le> length (oaPma S0)" "int (a + len) \<le> oaSize S0" "\<And>j. a \<le> j \<Longrightarrow> j < a + len \<Longrightarrow> oaPma S0 ! j = emptyEntry P"
  shows "\<exists>S'. rewriteStep P (mkInterval (int a) (int (a + len))) (int (length ws)) (int k) S = Some S' \<and> rewriteInv P a len ws S0 (Suc k) S'"
proof -
  let ?n = "length ws" and ?E = "emptyEntry P"
  obtain ps where S: "S = S0\<lparr>oaPma := ps, oaSwapPma := writeAt a (replicate k ?E) (oaSwapPma S0)\<rparr>" "length ps = length (oaPma S0)"
     "\<And>j. j < a \<or> a + k * len div ?n \<le> j \<Longrightarrow> ps ! j = oaPma S0 ! j" "Overallocated_Write.blocksIn ps a (a + k * len div ?n) = take k ws"
     "\<And>j. a \<le> j \<Longrightarrow> j < a + k * len div ?n \<Longrightarrow> ps ! j \<in> insert ?E (set ws)" "\<And>i. i < k \<Longrightarrow> ps ! (a + i * len div ?n) = ws ! i"
    using inv unfolding rewriteInv_def by blast
  define p where "p = a + k * len div ?n"
  define q where "q = a + Suc k * len div ?n"
  have n0: "0 < ?n" using k by (cases ws) auto
  have pq: "p < q" "a \<le> p" "q \<le> a + len" 
    using uniform_step [OF n0 n, of k] uniform_mono [OF n0, of "Suc k" ?n len] k n0 by (auto simp: p_def q_def split: if_splits)
  have pl: "p < length ps" using pq room(1) S(2) by simp
  have wk: "okSized P (ws ! k)" "ws ! k \<in> set ws" "\<not> isEmpty (ws ! k)"
    using ok k okSized_nonempty [OF wp, of "ws ! k"] by (auto dest: nth_mem)
  have blk: "block (ws ! k) \<noteq> None" using wk(1) by (auto simp: okSized_def wfBlock_def okBlock_def)
  have rd: "idx (oaSwapPma S) (int a + int k) = Some (ws ! k)"
    using swap k by (simp add: S(1) writeAt_nth of_nat_add [symmetric] del: of_nat_add)
  have em: "ps ! p = ?E" using S(3) [of p] room(3) pq by (simp add: p_def)
  have wi: "oaUniformWriteIndex P (int a) (int k) (int len) (int ?n) = Some (int p)" using oaUniformWriteIndex_eq [OF k, of P a len] by (simp add: p_def)
  have oe: "oaEmptyAt P S (int p) = Some True"
    using oaEmptyAt_ok [of P S "int p"] em pl S(1) by (simp add: okEntry_def)
  define ps' where "ps' = ps[p := ws ! k]"
  define S' where "S' = S0\<lparr>oaPma := ps', oaSwapPma := writeAt a (replicate (Suc k) ?E) (oaSwapPma S0)\<rparr>"
  have sw: "upd (oaSwapPma S) (int a + int k) ?E = Some (writeAt a (replicate (Suc k) ?E) (oaSwapPma S0))"
    using writeAt_snoc [of a "replicate k ?E" "oaSwapPma S0" ?E] swap(1) k
    by (simp add: S(1) of_nat_add [symmetric] replicate_append_same del: of_nat_add)
  have "rewriteStep P (mkInterval (int a) (int (a + len))) (int ?n) (int k) S = Some S'"
    using rd blk wi oe pl sw pq room(2) S(1)
    by (simp add: rewriteStep_def setOaPma_def setOaSwap_def intervalLength_def S'_def ps'_def)
  moreover have "rewriteInv P a len ws S0 (Suc k) S'"
    unfolding rewriteInv_def q_def [symmetric]
  proof (intro exI [of _ ps'] conjI allI impI)
    show "ps' ! j = oaPma S0 ! j" if "j < a \<or> q \<le> j" for j using S(3) [of j] that pq by (auto simp: ps'_def p_def [symmetric])
    have "Overallocated_Write.blocksIn ps' a q = Overallocated_Write.blocksIn ps' a p @ Overallocated_Write.blocksIn ps' p (Suc p) @ Overallocated_Write.blocksIn ps' (Suc p) q"
      using pq by (simp add: blocksIn_split [of a p q] blocksIn_split [of p "Suc p" q])
    moreover have "Overallocated_Write.blocksIn ps' a p = take k ws"
      using S(4) blocksIn_cong [of a p ps' ps] pl by (simp add: ps'_def p_def)
    moreover have "Overallocated_Write.blocksIn ps' p (Suc p) = [ws ! k]" using pl wk(3) by (simp add: blocksIn_single ps'_def)
    moreover have "Overallocated_Write.blocksIn ps' (Suc p) q = []"
    proof (rule blocksIn_empties)
      show "isEmpty (ps' ! j)" if "Suc p \<le> j" "j < q" for j
        using that S(3) [of j] room(3) [of j] pq by (simp add: ps'_def p_def [symmetric] isEmpty_def emptyEntry_def)
      show "q \<le> length ps'" using pq room(1) S(2) by (simp add: ps'_def)
    qed
    ultimately show "Overallocated_Write.blocksIn ps' a q = take (Suc k) ws" using k by (simp add: take_Suc_conv_app_nth)
    show "ps' ! j \<in> insert ?E (set ws)" if "a \<le> j \<and> j < q" for j
    proof (cases "j < p")
      case True
      then show ?thesis using S(5) [of j] that by (simp add: ps'_def p_def)
    next
      case False
      then show ?thesis using S(3) [of j] room(3) [of j] that pq wk(2) pl by (cases "j = p") (auto simp: ps'_def p_def [symmetric])
    qed
    show "ps' ! (a + i * len div ?n) = ws ! i" if "i < Suc k" for i
    proof (cases "i = k")
      case False
      then have "i < k" using that by simp
      moreover from this have "a + i * len div ?n < p"
        using uniform_step [OF n0 n, of i] uniform_mono [OF n0, of "Suc i" k len] by (simp add: p_def)
      ultimately show ?thesis using S(6) [of i] by (simp add: ps'_def)
    qed (use pl in \<open>simp add: ps'_def p_def\<close>)
  qed (simp_all add: S'_def ps'_def S(2))
  ultimately show ?thesis by blast
qed

lemma rewrite_ok:
  assumes n: "length ws \<le> len" "ws \<noteq> []" and ok: "\<And>w. w \<in> set ws \<Longrightarrow> okSized P w" and wp: "wfParams P"
    and swap: "a + length ws \<le> length (oaSwapPma S)" "\<And>j. j < length ws \<Longrightarrow> oaSwapPma S ! (a + j) = ws ! j"
    and room: "a + len \<le> length (oaPma S)" "int (a + len) \<le> oaSize S" "\<And>j. a \<le> j \<Longrightarrow> j < a + len \<Longrightarrow> oaPma S ! j = emptyEntry P"
  shows "\<exists>ps. rewrite P (mkInterval (int a) (int (a + len))) (int (length ws)) S =
       Some (S\<lparr>oaPma := ps, oaSwapPma := writeAt a (replicate (length ws) (emptyEntry P)) (oaSwapPma S)\<rparr>) \<and>
     length ps = length (oaPma S) \<and> (\<forall>j. j < a \<or> a + len \<le> j \<longrightarrow> ps ! j = oaPma S ! j) \<and>
     Overallocated_Write.blocksIn ps a (a + len) = ws \<and> (\<forall>j. a \<le> j \<and> j < a + len \<longrightarrow> ps ! j \<in> insert (emptyEntry P) (set ws)) \<and>
     (\<forall>i<length ws. ps ! (a + i * len div length ws) = ws ! i)"
proof -
  have "\<exists>S'. for_range 0 (int (length ws)) (rewriteStep P (mkInterval (int a) (int (a + len))) (int (length ws))) S = Some S' \<and>
      rewriteInv P a len ws S (nat (int (length ws))) S'"
  proof (rule for_range_inv)
    show "rewriteInv P a len ws S (nat 0) S" by (auto simp: rewriteInv_def Overallocated_Write.blocksIn_def slice_def intro!: exI [of _ "oaPma S"])
    fix i T assume i: "0 \<le> i" "i < int (length ws)" "rewriteInv P a len ws S (nat i) T"
    have "nat i < length ws" using i by simp
    from rewriteStep_ok [OF i(3) this n(1) ok wp swap room] i(1)
    show "\<exists>T'. rewriteStep P (mkInterval (int a) (int (a + len))) (int (length ws)) i T = Some T' \<and> rewriteInv P a len ws S (nat (i + 1)) T'"
      by (simp add: nat_add_distrib)
  qed simp
  then show ?thesis using n(2) unfolding rewrite_def rewriteInv_def by auto
qed

section \<open>The blocks in front of the first task\<close>

definition emptied :: "('k, 'v) tparams \<Rightarrow> nat \<Rightarrow> ('k, 'v) PmaEntry list \<Rightarrow> ('k, 'v) PmaEntry list" where
  "emptied P k xs = writeAt 0 (replicate k (emptyEntry P)) xs"

definition copied :: "nat \<Rightarrow> 'a list \<Rightarrow> 'a list \<Rightarrow> 'a list" where
  "copied k xs ys = writeAt 0 (take k xs) ys"

lemma emptied_Suc: "k < length xs \<Longrightarrow> emptied P (Suc k) xs = (emptied P k xs)[k := emptyEntry P]"
  using writeAt_next [of "replicate k (emptyEntry P)" xs "emptyEntry P"] by (simp add: emptied_def replicate_append_same)

lemma copied_Suc: "k < length xs \<Longrightarrow> k < length ys \<Longrightarrow> copied (Suc k) xs ys = (copied k xs ys)[k := xs ! k]"
  using writeAt_next [of "take k xs" ys "xs ! k"] by (simp add: copied_def take_Suc_conv_app_nth)

lemma emptied_sel [simp]:
  "emptied P 0 xs = xs" "k \<le> length xs \<Longrightarrow> length (emptied P k xs) = length xs"
  "k \<le> j \<Longrightarrow> k \<le> length xs \<Longrightarrow> j < length xs \<Longrightarrow> emptied P k xs ! j = xs ! j" "j < k \<Longrightarrow> k \<le> length xs \<Longrightarrow> emptied P k xs ! j = emptyEntry P"
  by (auto simp: emptied_def writeAt_nth)

lemma copied_sel [simp]:
  "copied 0 xs ys = ys" "k \<le> length xs \<Longrightarrow> k \<le> length ys \<Longrightarrow> length (copied k xs ys) = length ys"
  "k \<le> j \<Longrightarrow> k \<le> length xs \<Longrightarrow> j < length ys \<Longrightarrow> copied k xs ys ! j = ys ! j"
  "j < k \<Longrightarrow> k \<le> length xs \<Longrightarrow> k \<le> length ys \<Longrightarrow> copied k xs ys ! j = xs ! j"
  by (auto simp: copied_def writeAt_nth)

lemma prefixOut_ok:
  assumes wp: "wfParams P" and L: "L \<le> length (oaPma S)" "L \<le> length (oaSwapPma S)"
    and ok: "\<And>j. j < L \<Longrightarrow> oaPma S ! j = emptyEntry P \<or> okSized P (oaPma S ! j)" and sw: "\<And>j. j < L \<Longrightarrow> oaSwapPma S ! j = emptyEntry P"
  shows "for_range 0 (int L) (\<lambda>blockIndex S. do {
      e \<leftarrow> oaEmptyAt P S blockIndex;
      if \<not> e
      then do {
        b \<leftarrow> idx (oaPma S) blockIndex;
        S \<leftarrow> setOaSwap blockIndex b S;
        setOaPma blockIndex (emptyEntry P) S }
      else Some S }) S = Some (S\<lparr>oaPma := emptied P L (oaPma S), oaSwapPma := copied L (oaPma S) (oaSwapPma S)\<rparr>)" (is "for_range 0 _ ?f S = _")
proof -
  define T where "T i = S\<lparr>oaPma := emptied P i (oaPma S), oaSwapPma := copied i (oaPma S) (oaSwapPma S)\<rparr>" for i
  have step: "?f (int k) (T k) = Some (T (Suc k))" if k: "k < L" for k
  proof (cases "oaPma S ! k = emptyEntry P")
    case True
    have "(emptied P k (oaPma S))[k := emptyEntry P] = emptied P k (oaPma S)" using True k L by (intro list_update_same_conv [THEN iffD2]) auto
    moreover have "(copied k (oaPma S) (oaSwapPma S))[k := oaPma S ! k] = copied k (oaPma S) (oaSwapPma S)"
      using True k L sw by (intro list_update_same_conv [THEN iffD2]) auto
    ultimately have "T (Suc k) = T k" using k L by (simp add: T_def emptied_Suc copied_Suc)
    moreover have "oaEmptyAt P (T k) (int k) = Some True"
      using oaEmptyAt_ok [of P "T k" "int k"] True k L by (simp add: T_def okEntry_def)
    ultimately show ?thesis by simp
  next
    case False
    then have "okSized P (oaPma S ! k)" using ok k by blast
    then have "oaEmptyAt P (T k) (int k) = Some False"
      using oaEmptyAt_ok [of P "T k" "int k"] okSized_okEntry [OF wp] okSized_nonempty [OF wp] k L by (simp add: T_def)
    then show ?thesis using k L by (simp add: T_def setOaSwap_def setOaPma_def emptied_Suc copied_Suc)
  qed
  have "for_range 0 (int L) ?f (T 0) = Some (T L)" by (rule for_range_states) (rule step)
  then show ?thesis by (simp add: T_def)
qed

lemma prefixBack_ok:
  assumes wp: "wfParams P" and L: "L \<le> length (oaPma S)" "L \<le> length (oaSwapPma S)"
    and ok: "\<And>j. j < L \<Longrightarrow> oaSwapPma S ! j = emptyEntry P \<or> okSized P (oaSwapPma S ! j)" and sw: "\<And>j. j < L \<Longrightarrow> oaPma S ! j = emptyEntry P"
  shows "for_range 0 (int L) (\<lambda>blockIndex S. do {
      b \<leftarrow> idx (oaSwapPma S) blockIndex;
      if \<not> isEmpty b
      then do { S \<leftarrow> setOaPma blockIndex b S; setOaSwap blockIndex (emptyEntry P) S }
      else Some S }) S = Some (S\<lparr>oaPma := copied L (oaSwapPma S) (oaPma S), oaSwapPma := emptied P L (oaSwapPma S)\<rparr>)" (is "for_range 0 _ ?f S = _")
proof -
  define T where "T i = S\<lparr>oaPma := copied i (oaSwapPma S) (oaPma S), oaSwapPma := emptied P i (oaSwapPma S)\<rparr>" for i
  have step: "?f (int k) (T k) = Some (T (Suc k))" if k: "k < L" for k
  proof (cases "oaSwapPma S ! k = emptyEntry P")
    case True
    have "(emptied P k (oaSwapPma S))[k := emptyEntry P] = emptied P k (oaSwapPma S)" using True k L by (intro list_update_same_conv [THEN iffD2]) auto
    moreover have "(copied k (oaSwapPma S) (oaPma S))[k := oaSwapPma S ! k] = copied k (oaSwapPma S) (oaPma S)"
      using True k L sw by (intro list_update_same_conv [THEN iffD2]) auto
    ultimately have "T (Suc k) = T k" using k L by (simp add: T_def emptied_Suc copied_Suc)
    then show ?thesis using True k L by (simp add: T_def)
  next
    case False
    then have "okSized P (oaSwapPma S ! k)" using ok k by blast
    then show ?thesis using okSized_nonempty [OF wp] k L by (simp add: T_def setOaSwap_def setOaPma_def emptied_Suc copied_Suc)
  qed
  have "for_range 0 (int L) ?f (T 0) = Some (T L)" by (rule for_range_states) (rule step)
  then show ?thesis by (simp add: T_def)
qed

section \<open>Growing\<close>

lemma increaseSize_ok:
  assumes "0 < oaSwapCapacity S" "oaSwapPma S = makeEntries P (oaSwapCapacity S)"
  shows "\<exists>c. increaseSize P n S = Some (S\<lparr>oaSwapCapacity := c, oaSwapPma := makeEntries P c, oaSize := n\<rparr>) \<and> n < c \<and> oaSwapCapacity S dvd c \<and> 0 < c"
proof (cases "oaSwapCapacity S \<le> n")
  case True
  then show ?thesis using doubleCapacity_ok [OF assms(1), of n] by (auto simp: increaseSize_def)
next
  case False
  then show ?thesis using assms by (intro exI [of _ "oaSwapCapacity S"]) (simp add: increaseSize_def assms(2) [symmetric])
qed

text \<open>Multiplying by a factor of at least one does not shrink the range, in spite of the rounding.\<close>

lemma overallocated_width:
  assumes "1 \<le> f" "0 \<le> w" "w \<le> 2 ^ 53"
  shows "w \<le> toInt (dmul f (toDouble w))"
proof -
  have "(of_int w :: rat) \<le> f * of_int w" using assms mult_right_mono [of 1 f "of_int w"] by simp
  then have "of_int w \<le> rnd (f * of_int w)" using assms by (intro rnd_ge_int) auto
  then show ?thesis using assms toInt_mono [of "of_int w"] by (simp add: dmul_def)
qed

lemma totalSize_elems:
  assumes "\<And>j. a \<le> j \<Longrightarrow> j < b \<Longrightarrow> okEntry P (oaPma S ! j)" "b \<le> length (oaPma S)" "a \<le> b"
  shows "totalSize (blockSizes S) (int a) (int b) = int (length (entriesElems (slice (oaPma S) a b)))"
  using assms(3,1)
proof (induction a rule: inc_induct)
  case base
  then show ?case by (simp add: totalSize_def slice_def)
next
  case (step a)
  have "totalSize (blockSizes S) (int a) (int b) = totalSize (blockSizes S) (int a) (int (Suc a)) + totalSize (blockSizes S) (int (Suc a)) (int b)"
    using step(2) by (intro total_join [symmetric]) auto
  moreover have "totalSize (blockSizes S) (int a) (int (Suc a)) = int (bsize (oaPma S ! a))"
  proof -
    have "{int a..<int (Suc a)} = {int a}" by auto
    then show ?thesis using step(2) assms(2) by (simp add: totalSize_def blockSizes_def)
  qed
  moreover have "bsize (oaPma S ! a) = length (elems (oaPma S ! a))"
    using okEntry_cases [OF step(4) [OF order_refl step(2)]] length_elems [of P "oaPma S ! a"] by (auto simp: wfBlock_def)
  moreover have "entriesElems (slice (oaPma S) a b) = elems (oaPma S ! a) @ entriesElems (slice (oaPma S) (Suc a) b)"
    using elems_slice_at [of a a b "oaPma S"] step(2) assms(2) by (simp add: slice_def)
  moreover have "totalSize (blockSizes S) (int (Suc a)) (int b) = int (length (entriesElems (slice (oaPma S) (Suc a) b)))"
    using step(3,4) by simp
  ultimately show ?case by simp
qed

section \<open>Properties\<close>

text \<open>C15. \<open>rewrite\<close> moves the blocks of a range of the swap array back into the main array: block number \<open>k\<close> of \<open>n\<close> goes to
  position \<open>k * length / n\<close> of the range, so that they are spread evenly and keep their order; the remaining entries
  of the range stay empty, the blocks leave the swap array, and nothing outside the range changes.\<close>

theorem rewrite_distributes:
  assumes "length ws \<le> len" and "ws \<noteq> []" and "\<forall>w\<in>set ws. okSized P w" and "wfParams P"
    and "a + length ws \<le> length (oaSwapPma S)" and "\<forall>j<length ws. oaSwapPma S ! (a + j) = ws ! j"
    and "a + len \<le> length (oaPma S)" and "int (a + len) \<le> oaSize S" and "\<forall>j. a \<le> j \<and> j < a + len \<longrightarrow> oaPma S ! j = emptyEntry P"
  shows "\<exists>ps. rewrite P (mkInterval (int a) (int (a + len))) (int (length ws)) S =
       Some (S\<lparr>oaPma := ps, oaSwapPma := writeAt a (replicate (length ws) (emptyEntry P)) (oaSwapPma S)\<rparr>) \<and>
     length ps = length (oaPma S) \<and> (\<forall>i<length ws. ps ! (a + i * len div length ws) = ws ! i) \<and>
     Overallocated_Write.blocksIn ps a (a + len) = ws \<and> (\<forall>j. j < a \<or> a + len \<le> j \<longrightarrow> ps ! j = oaPma S ! j)"
proof -
  have "\<exists>ps. rewrite P (mkInterval (int a) (int (a + len))) (int (length ws)) S =
       Some (S\<lparr>oaPma := ps, oaSwapPma := writeAt a (replicate (length ws) (emptyEntry P)) (oaSwapPma S)\<rparr>) \<and>
     length ps = length (oaPma S) \<and> (\<forall>j. j < a \<or> a + len \<le> j \<longrightarrow> ps ! j = oaPma S ! j) \<and>
     Overallocated_Write.blocksIn ps a (a + len) = ws \<and> (\<forall>j. a \<le> j \<and> j < a + len \<longrightarrow> ps ! j \<in> insert (emptyEntry P) (set ws)) \<and>
     (\<forall>i<length ws. ps ! (a + i * len div length ws) = ws ! i)"
    by (rule rewrite_ok) (use assms in auto)
  then show ?thesis by blast
qed

theorem rewrite_distributes_witness:
  "\<exists>ps. rewrite (demoParams False) (mkInterval 0 5) 2 ((outOa (newHierarchical 0))\<lparr>oaSize := 5, oaPma := replicate 64 (emptyEntry (demoParams False)),
        oaSwapPma := [demoBlock [1, 2], demoBlock [5, 7, 8]] @ replicate 62 (emptyEntry (demoParams False))\<rparr>) =
       Some ((outOa (newHierarchical 0))\<lparr>oaSize := 5, oaPma := ps, oaSwapPma := replicate 64 (emptyEntry (demoParams False))\<rparr>) \<and>
     ps ! 0 = demoBlock [1, 2] \<and> ps ! 2 = demoBlock [5, 7, 8]"
proof -
  let ?P = "demoParams False" and ?ws = "[demoBlock [1, 2], demoBlock [5, 7, 8]]" and ?z = "replicate 62 (emptyEntry (demoParams False))"
  let ?S = "(outOa (newHierarchical 0))\<lparr>oaSize := 5, oaPma := replicate 64 (emptyEntry ?P), oaSwapPma := ?ws @ ?z\<rparr>"
  have "\<forall>w\<in>set ?ws. okSized ?P w" by (simp add: okSized_def)
  then obtain ps where ps: "rewrite ?P (mkInterval (int 0) (int (0 + 5))) (int (length ?ws)) ?S =
       Some (?S\<lparr>oaPma := ps, oaSwapPma := writeAt 0 (replicate (length ?ws) (emptyEntry ?P)) (oaSwapPma ?S)\<rparr>)"
     "\<forall>i<length ?ws. ps ! (0 + i * 5 div length ?ws) = ?ws ! i"
    using rewrite_distributes [of ?ws 5 ?P 0 ?S] by (auto simp: less_Suc_eq_0_disj nth_append)
  have "writeAt 0 (replicate (length ?ws) (emptyEntry ?P)) (oaSwapPma ?S) = replicate 64 (emptyEntry ?P)"
    by (simp add: writeAt_0 numeral_eq_Suc)
  moreover have two: "length ?ws = 2" by simp
  moreover have e: "ps ! 0 = demoBlock [1, 2]" "ps ! Suc (Suc 0) = demoBlock [5, 7, 8]"
    using spec [OF ps(2), of 0] spec [OF ps(2) [unfolded two], of 1] by simp_all
  moreover have "ps ! 2 = demoBlock [5, 7, 8]" using e(2) by (simp only: numeral_2_eq_2)
  ultimately show ?thesis using ps(1) by (intro exI [of _ ps]) simp
qed

end
