(* ===== verification/Overallocated_Distribution.thy ===== *)
theory Overallocated_Distribution
  imports Overallocated_Rewrite Overallocated_Batch
begin

text \<open>
  The first phase of \<open>insertBatch\<close> of \<open>OverallocatedBatchedSparseArray\<close> with any number of threads: what the threads find for their
  splitter elements (\<open>findBlockIndex\<close>, \<open>findFirstBatchElement\<close>), the plan this gives (every task has its own entries of the array
  and its own elements of the batch), and the decision between insertion in place and rewriting. The locale \<open>task_region\<close> is the
  contract of the bodies of a parallel region: they may take effect in any order.
\<close>

section \<open>A batch and an array\<close>

definition oaReady :: "('k::linorder, 'v) tparams \<Rightarrow> ('k, 'v) oaSds \<Rightarrow> bool" where
  "oaReady P S \<longleftrightarrow> wfOaSized P S \<and> oaSwapCapacity S = oaCapacity S \<and> oaSwapPma S = makeEntries P (oaSwapCapacity S) \<and>
     64 dvd oaCapacity S \<and> 1 \<le> oaFactor S"

definition oaInput :: "('k::linorder, 'v) tparams \<Rightarrow> 'k \<Rightarrow> 'v list \<Rightarrow> ('k, 'v) oaSds \<Rightarrow> bool" where
  "oaInput P Z batch S \<longleftrightarrow> wfParams P \<and> MaxSize P \<le> 32768 \<and> batch \<noteq> [] \<and> strictly_sorted (map (keyOfValue P) batch) \<and>
     (\<forall>v\<in>set batch. NULL_KEY P < keyOfValue P v) \<and> Z \<notin> keyOfValue P ` (set batch \<union> set (oaContent S)) \<and>
     (oaContent S = [] \<longrightarrow> MinSize P \<le> length batch) \<and> int (length (oaContent S) + length batch) < 2 ^ 53"

lemma batchSorted_ok:
  assumes "strictly_sorted (map (keyOfValue P) batch)" "\<And>v. v \<in> set batch \<Longrightarrow> NULL_KEY P < keyOfValue P v"
  shows "batchSorted P batch (int (length batch)) = Some True"
proof -
  let ?f = "\<lambda>i s. case s of None \<Rightarrow> Some None
     | Some previous \<Rightarrow> do { v \<leftarrow> idx batch i; Some (if keyOfValue P v < previous then None else Some (keyOfValue P v)) }"
  define T where "T k = Some (if k = 0 then NULL_KEY P else keyOfValue P (batch ! (k - 1)))" for k
  have "?f (int k) (T k) = Some (T (Suc k))" if "k < length batch" for k
  proof (cases k)
    case 0
    have "NULL_KEY P < keyOfValue P (batch ! 0)" using assms(2) that by (simp add: 0)
    then show ?thesis using that by (simp add: T_def 0)
  next
    case (Suc j)
    have "keyOfValue P (batch ! j) < keyOfValue P (batch ! k)"
      using sorted_wrt_nth_less [OF assms(1), of j k] that Suc by simp
    moreover have "idx batch (int k) = Some (batch ! k)" using that by simp
    ultimately show ?thesis by (simp add: T_def Suc del: of_nat_Suc)
  qed
  then have "for_range 0 (int (length batch)) ?f (T 0) = Some (T (length batch))" by (rule for_range_states)
  then show ?thesis by (simp add: batchSorted_def T_def)
qed

lemma task_ops:
  "t < length (oaTasks S) \<Longrightarrow> oaTask S t = Some (oaTasks S ! t)"
  "t < length (oaTasks S) \<Longrightarrow> oaUpdateTask t f S = Some (S\<lparr>oaTasks := (oaTasks S)[t := f (oaTasks S ! t)]\<rparr>)"
  by (simp_all add: oaTask_def oaUpdateTask_def nth_opt_def upd_opt_def)

lemma width_bounds:
  assumes "wfParams P" "0 \<le> first" "first \<le> (1::int)" "0 < N" "0 < E \<or> first = 0" "int (E + N) < 2 ^ 53"
  shows "\<exists>w. maxRedistributionWidth P (int E) (int N - first) = Some w \<and> int ((E + N) div MinSize P) \<le> w \<and> 1 \<le> w \<and> w \<le> 2 ^ 53"
proof -
  have m: "0 < MinSize P" using assms(1) by (simp add: wfParams_def)
  define n where "n = nat (int E + (int N - first))"
  have n: "int E + (int N - first) = int n" "0 < n" "E + N \<le> n + 1" "n \<le> E + N" using assms by (auto simp: n_def)
  have "(E + N) div MinSize P \<le> (n + MinSize P) div MinSize P" using n(3) m by (intro div_le_mono) simp
  also have "\<dots> = n div MinSize P + 1" using m by simp
  finally have "int ((E + N) div MinSize P) \<le> int (n div MinSize P) + 1" by linarith
  moreover have "int (n div MinSize P) + 1 \<le> 2 ^ 53" using n(4) assms(6) div_le_dividend [of n "MinSize P"] by linarith
  moreover have "maxRedistributionWidth P (int E) (int N - first) = Some (int (n div MinSize P) + 1)"
    using assms(2-4) n(1,2) m by (simp add: maxRedistributionWidth_def zdiv_int)
  ultimately show ?thesis by auto
qed

lemma oaInputD:
  assumes "oaInput P Z batch S"
  shows "wfParams P" "MaxSize P \<le> 32768" "0 < length batch" "strictly_sorted (map (keyOfValue P) batch)"
    "\<And>v. v \<in> set batch \<Longrightarrow> NULL_KEY P < keyOfValue P v" "Z \<notin> keyOfValue P ` (set batch \<union> set (oaContent S))"
  using assms by (auto simp: oaInput_def)

lemma wfOaSized_tasks [simp]:
  "wfOaSized P (S\<lparr>oaTasks := ts\<rparr>) = wfOaSized P S" "oaUsed (S\<lparr>oaTasks := ts\<rparr>) = oaUsed S"
  by (simp_all add: wfOaSized_def wfOa_def oaUsed_def blockSizes_def)

section \<open>The start of a task\<close>

text \<open>The search of \<open>findFirstBatchElement\<close> to the left.\<close>

lemma oaFirstBatchLoop_ok:
  assumes "p < length batch" "sorted (map (keyOfValue P) batch)"
  shows "\<exists>first. oaFirstBatchLoop P batch h (int p) = Some (int first - 1) \<and> first \<le> p + 1 \<and>
     (\<forall>i. first \<le> i \<and> i \<le> p \<longrightarrow> h \<le> keyOfValue P (batch ! i)) \<and> (\<forall>i<first. keyOfValue P (batch ! i) < h)"
  using assms(1)
proof (induction p)
  case 0
  have "idx batch 0 = Some (batch ! 0)" using 0 by (simp add: idx_def)
  then show ?case
    by (intro exI [of _ "if h \<le> keyOfValue P (batch ! 0) then 0 else 1"])
      (subst oaFirstBatchLoop.simps, subst oaFirstBatchLoop.simps, auto)
next
  case (Suc p)
  show ?case
  proof (cases "h \<le> keyOfValue P (batch ! Suc p)")
    case True
    obtain first where f: "oaFirstBatchLoop P batch h (int p) = Some (int first - 1)" "first \<le> p + 1"
       "\<forall>i. first \<le> i \<and> i \<le> p \<longrightarrow> h \<le> keyOfValue P (batch ! i)" "\<forall>i<first. keyOfValue P (batch ! i) < h" using Suc by auto
    have "idx batch (int (Suc p)) = Some (batch ! Suc p)" using Suc.prems by (simp del: of_nat_Suc)
    then have "oaFirstBatchLoop P batch h (int (Suc p)) = oaFirstBatchLoop P batch h (int p)"
      using True by (subst oaFirstBatchLoop.simps) (auto simp: le_less)
    then show ?thesis using f True by (intro exI [of _ first]) (auto simp: le_Suc_eq)
  next
    case False
    have "idx batch (int (Suc p)) = Some (batch ! Suc p)" using Suc.prems by (simp del: of_nat_Suc)
    then have "oaFirstBatchLoop P batch h (int (Suc p)) = Some (int (Suc (Suc p)) - 1)"
      using False by (subst oaFirstBatchLoop.simps) (auto simp del: of_nat_Suc simp: le_less)
    moreover have "keyOfValue P (batch ! i) < h" if "i < Suc (Suc p)" for i
      using sorted_nth_mono [OF assms(2), of i "Suc p"] that Suc.prems False by simp
    ultimately show ?thesis by (intro exI [of _ "Suc (Suc p)"]) auto
  qed
qed

lemma oaContent_used:
  assumes "wfParams P" "wfOaSized P S"
  shows "(\<exists>i. usedIn (oaUsed S) i) \<longleftrightarrow> oaContent S \<noteq> []"
proof -
  let ?n = "nat (oaSize S)"
  note d = wfOaSizedD [OF assms(2)] and dd = wfOaD [OF wfOaSizedD(1) [OF assms(2)]]
  have us: "oaUsed S ! j = oaPma S ! j" if "j < ?n" for j using that by (simp add: oaUsed_def)
  have "oaContent S \<noteq> [] \<longleftrightarrow> (\<exists>b\<in>set (oaUsed S). elems b \<noteq> [])" by (induction "oaUsed S") (auto simp: entriesElems_def)
  also have "\<dots> \<longleftrightarrow> (\<exists>j<?n. elems (oaPma S ! j) \<noteq> [])" using dd(5) us by (metis in_set_conv_nth)
  also have "\<dots> \<longleftrightarrow> (\<exists>j<?n. \<not> isEmpty (oaPma S ! j))"
    using d(6) okSized_head(2) [OF assms(1)] okSized_nonempty [OF assms(1)] by (metis elems_isEmpty emptyEntry_sel(3))
  also have "\<dots> \<longleftrightarrow> (\<exists>i. usedIn (oaUsed S) i)" using us dd(5) unfolding usedIn_def by (metis nat_int nonneg_int_cases of_nat_less_iff of_nat_0_le_iff)
  finally show ?thesis by simp
qed

text \<open>
  What a thread finds for the batch element at its splitter position \<open>p\<close>: the block \<open>L\<close> the element goes to, and the first
  batch element that is not below the head of this block.
\<close>

definition startFound :: "('k::linorder, 'v) tparams \<Rightarrow> 'v list \<Rightarrow> ('k, 'v) oaSds \<Rightarrow> nat \<Rightarrow> nat \<Rightarrow> nat \<Rightarrow> bool" where
  "startFound P batch S p L first \<longleftrightarrow> L \<le> nat (oaSize S) \<and> first \<le> p + 1 \<and>
     (if oaContent S = [] then L = nat (oaSize S) \<and> first = 0 \<and> (\<forall>j<L. oaPma S ! j = emptyEntry P)
      else L < nat (oaSize S) \<and> oaPma S ! L \<noteq> emptyEntry P \<and>
        (head (oaPma S ! L) \<le> keyOfValue P (batch ! p) \<or> (\<forall>j<L. oaPma S ! j = emptyEntry P)) \<and>
        (\<forall>j. L < j \<and> j < nat (oaSize S) \<and> oaPma S ! j \<noteq> emptyEntry P \<longrightarrow> keyOfValue P (batch ! p) < head (oaPma S ! j)) \<and>
        (\<forall>i. first \<le> i \<and> i \<le> p \<longrightarrow> head (oaPma S ! L) \<le> keyOfValue P (batch ! i)) \<and> (\<forall>i<first. keyOfValue P (batch ! i) < head (oaPma S ! L)))"

lemma oaFindTaskStart_at:
  assumes wf: "wfOaSized P S" and inp: "oaInput P Z batch S" and p: "p < length batch" "thread * d = int p"
  shows "\<exists>L first. oaFindTaskStart P batch d thread S = Some (int L, int first) \<and> startFound P batch S p L first"
proof -
  note dd = wfOaD [OF wfOaSizedD(1) [OF wf]]
  note d = wfOaSizedD [OF wf]
  have wp: "wfParams P" and nk: "\<And>v. v \<in> set batch \<Longrightarrow> NULL_KEY P < keyOfValue P v" and srt: "sorted (map (keyOfValue P) batch)"
    using inp by (auto simp: oaInput_def strict_sorted_iff)
  let ?k = "keyOfValue P (batch ! p)" and ?n = "nat (oaSize S)"
  have em: "isEmpty (oaPma S ! j) \<longleftrightarrow> oaPma S ! j = emptyEntry P" if "j < ?n" for j
    using d(6) [OF that] okSized_nonempty [OF wp] by auto
  have used: "usedIn (oaUsed S) (int j) \<longleftrightarrow> j < ?n \<and> oaPma S ! j \<noteq> emptyEntry P" "j < ?n \<Longrightarrow> headIn (oaUsed S) (int j) = head (oaPma S ! j)" for j
    using em [of j] dd(5) by (auto simp: usedIn_def headIn_def oaUsed_def)
  have pos: "0 \<le> i" if "usedIn (oaUsed S) i" for i using that by (simp add: usedIn_def)
  have sh: "sorted_heads (oaArrayOf P S) (int (length (oaUsed S))) (usedIn (oaUsed S)) (headIn (oaUsed S))"
    using oa.sorted_heads_axioms [of P S] d(1) by simp
  obtain r where r: "findBlockIndex P (oaArrayOf P S) ?k = Some r"
     "if \<exists>i. usedIn (oaUsed S) i then usedIn (oaUsed S) r \<and> (headIn (oaUsed S) r \<le> ?k \<or> (\<forall>i. usedIn (oaUsed S) i \<longrightarrow> r \<le> i)) \<and>
         (\<forall>i. r < i \<and> usedIn (oaUsed S) i \<longrightarrow> ?k < headIn (oaUsed S) i) else r = int (length (oaUsed S))"
    using sorted_heads.findBlockIndex_ok [OF sh, of P ?k] by blast
  have some: "(\<exists>i. usedIn (oaUsed S) i) \<longleftrightarrow> oaContent S \<noteq> []" by (rule oaContent_used [OF wp wf])
  obtain L where L: "r = int L" using r(2) pos [of r] by (metis nonneg_int_cases of_nat_0_le_iff)
  have ln: "L < length (oaPma S)" "L \<le> ?n" using r(2) d(2) dd(5) used(1) [of L] unfolding L by (auto split: if_splits)
  obtain first where f: "oaFirstBatchLoop P batch (head (oaPma S ! L)) (int p) = Some (int first - 1)" "first \<le> p + 1"
     "\<forall>i. first \<le> i \<and> i \<le> p \<longrightarrow> head (oaPma S ! L) \<le> keyOfValue P (batch ! i)" "\<forall>i<first. keyOfValue P (batch ! i) < head (oaPma S ! L)"
    using oaFirstBatchLoop_ok [OF p(1) srt, of "head (oaPma S ! L)"] by blast
  have "startFound P batch S p L first"
  proof (cases "oaContent S = []")
    case True
    have e: "oaPma S ! j = emptyEntry P" if "j < ?n" for j using some used(1) [of j] True that by blast
    have Ln: "L = ?n"
    proof -
      have "int L = int (length (oaUsed S))" using True r(2) some L by (simp split: if_splits)
      then show ?thesis using dd(5) by linarith
    qed
    then have "head (oaPma S ! L) = NULL_KEY P" using wfOa_entry(2) [OF d(1) ln(1)] by simp
    moreover have "NULL_KEY P < keyOfValue P (batch ! 0)" using p(1) by (intro nk nth_mem) linarith
    ultimately have "first = 0" using f(4) by (cases first) (auto dest!: spec [of _ 0])
    then show ?thesis using True e Ln f(2) by (simp add: startFound_def)
  next
    case False
    then have u: "L < ?n" "oaPma S ! L \<noteq> emptyEntry P" and h: "head (oaPma S ! L) \<le> ?k \<or> (\<forall>i. usedIn (oaUsed S) i \<longrightarrow> int L \<le> i)"
      using r(2) some used [of L] unfolding L by auto
    have "oaPma S ! j = emptyEntry P" if "\<forall>i. usedIn (oaUsed S) i \<longrightarrow> int L \<le> i" "j < L" for j
      using that spec [OF that(1), of "int j"] used(1) [of j] u(1) by auto
    moreover have "?k < head (oaPma S ! j)" if j: "L < j" "j < ?n" "oaPma S ! j \<noteq> emptyEntry P" for j
    proof -
      have "usedIn (oaUsed S) (int j)" using j used(1) [of j] by simp
      moreover have "\<forall>i. int L < i \<and> usedIn (oaUsed S) i \<longrightarrow> ?k < headIn (oaUsed S) i" using r(2) some False L by simp
      ultimately have "?k < headIn (oaUsed S) (int j)" using j(1) by simp
      then show ?thesis using used(2) [of j] j(2) by simp
    qed
    ultimately show ?thesis using False u h f(2-4) by (auto simp: startFound_def)
  qed
  moreover have "oaFindTaskStart P batch d thread S = Some (int L, int first)"
    using p r(1) L f(1) ln by (simp add: oaFindTaskStart_def oaFindFirstBatchElement_def oaHeadAt_def)
  ultimately show ?thesis by blast
qed

lemma startFound_below:
  assumes wf: "wfOaSized P S" "wfParams P" and st: "startFound P batch S p L first" and x: "x \<in> set (entriesElems (slice (oaPma S) 0 L))"
  shows "keyOfValue P x < head (oaPma S ! L)" "keyOfValue P x < keyOfValue P (batch ! p)"
proof -
  note d = wfOaSizedD [OF wf(1)]
  have ln: "L \<le> nat (oaSize S)" using st by (simp add: startFound_def)
  obtain b where "b \<in> set (slice (oaPma S) 0 L)" "x \<in> set (elems b)" using x by (auto simp: set_entriesElems)
  then obtain j where j: "j < L" "x \<in> set (elems (oaPma S ! j))" using ln d(2) by (auto simp: in_slice)
  then have ne: "oaPma S ! j \<noteq> emptyEntry P" by (auto simp: entriesElems_def)
  then have u: "L < nat (oaSize S)" "oaPma S ! L \<noteq> emptyEntry P" "head (oaPma S ! L) \<le> keyOfValue P (batch ! p)"
    using st j(1) by (auto simp: startFound_def split: if_splits)
  show "keyOfValue P x < head (oaPma S ! L)"
    using wfOaSized_ordered [OF wf(1) j(1) u(1) j(2), of "hd (elems (oaPma S ! L))"] okSized_head [OF wf(2) d(6) [OF u(1,2)]] by simp
  then show "keyOfValue P x < keyOfValue P (batch ! p)" using u(3) by simp
qed

section \<open>The ranges of the threads\<close>

text \<open>The batch elements at the splitter positions of neighbouring threads belong to different blocks, so that no tasks are merged.\<close>

definition splittersApart :: "('k::linorder, 'v) tparams \<Rightarrow> 'v list \<Rightarrow> nat \<Rightarrow> ('k, 'v) oaSds \<Rightarrow> bool" where
  "splittersApart P batch n S \<longleftrightarrow> (\<forall>t<n - 1.
     map_option fst (oaFindTaskStart P batch (int (length batch) div int n) (int t) S) \<noteq>
     map_option fst (oaFindTaskStart P batch (int (length batch) div int n) (int t + 1) S))"

text \<open>What the threads find: \<open>bs t\<close> is the block, \<open>fs t\<close> the first batch element of thread \<open>t\<close>.\<close>

definition splitStarts ::
  "('k::linorder, 'v) tparams \<Rightarrow> 'v list \<Rightarrow> nat \<Rightarrow> ('k, 'v) oaSds \<Rightarrow> (nat \<Rightarrow> nat) \<Rightarrow> (nat \<Rightarrow> nat) \<Rightarrow> bool" where
  "splitStarts P batch n S bs fs \<longleftrightarrow> bs n = nat (oaSize S) \<and> fs n = length batch \<and>
     (\<forall>t<n. oaFindTaskStart P batch (int (length batch) div int n) (int t) S = Some (int (bs t), int (fs t)) \<and>
        startFound P batch S (t * (length batch div n)) (bs t) (fs t))"

text \<open>The first batch element of a task; the code sets that of the first task to 0.\<close>

definition firstOf :: "(nat \<Rightarrow> nat) \<Rightarrow> nat \<Rightarrow> nat" where
  "firstOf fs t = (if t = 0 then 0 else fs t)"

lemma firstOf_simps [simp]: "firstOf fs 0 = 0" "firstOf fs (Suc t) = fs (Suc t)"
  by (simp_all add: firstOf_def)

text \<open>
  The plan: task \<open>t\<close> inserts the elements \<open>g t, \<dots>, g (t + 1) - 1\<close> of the batch into the entries \<open>bs t, \<dots>, bs (t + 1) - 1\<close>, and
  these elements belong there.
\<close>

definition taskPlan ::
  "('k::linorder, 'v) tparams \<Rightarrow> 'v list \<Rightarrow> nat \<Rightarrow> ('k, 'v) oaSds \<Rightarrow> (nat \<Rightarrow> nat) \<Rightarrow> (nat \<Rightarrow> nat) \<Rightarrow> bool" where
  "taskPlan P batch n S bs g \<longleftrightarrow> 0 < n \<and> bs n = nat (oaSize S) \<and> g 0 = 0 \<and> g n = length batch \<and> (\<forall>t<n. g t < g (Suc t)) \<and>
     (if oaContent S = [] then n = 1 \<and> bs 0 = nat (oaSize S) else \<forall>t<n. bs t < bs (Suc t) \<and> oaPma S ! bs t \<noteq> emptyEntry P) \<and>
     (\<forall>t<n. \<forall>v\<in>set (slice batch (g t) (g (Suc t))).
        (\<forall>x\<in>set (entriesElems (slice (oaPma S) 0 (bs t))). keyOfValue P x < keyOfValue P v) \<and>
        (\<forall>x\<in>set (entriesElems (slice (oaPma S) (bs (Suc t)) (nat (oaSize S)))). keyOfValue P v < keyOfValue P x))"

lemma splitter_bound:
  assumes "0 < n" "t < n" "n \<le> (N::nat)"
  shows "t * (N div n) < N"
proof -
  have "0 < N div n" using assms by (simp add: div_greater_zero_iff)
  then have "t * (N div n) < n * (N div n)" using assms by simp
  also have "\<dots> \<le> N" by simp
  finally show ?thesis .
qed

lemma splitStarts_exist:
  assumes wf: "wfOaSized P S" and inp: "oaInput P Z batch S" and n: "0 < n" "n \<le> length batch"
  shows "\<exists>bs fs. splitStarts P batch n S bs fs"
proof -
  let ?d = "length batch div n"
  define start where "start t = (SOME (L, first). oaFindTaskStart P batch (int (length batch) div int n) (int t) S = Some (int L, int first) \<and>
      startFound P batch S (t * ?d) L first)" for t
  have "oaFindTaskStart P batch (int (length batch) div int n) (int t) S = Some (int (fst (start t)), int (snd (start t))) \<and>
      startFound P batch S (t * ?d) (fst (start t)) (snd (start t))" if t: "t < n" for t
  proof -
    have "int t * (int (length batch) div int n) = int (t * ?d)" by (simp add: zdiv_int)
    then have "\<exists>a. case a of (L, first) \<Rightarrow> oaFindTaskStart P batch (int (length batch) div int n) (int t) S = Some (int L, int first) \<and>
        startFound P batch S (t * ?d) L first"
      using oaFindTaskStart_at [OF wf inp splitter_bound [OF n(1) t n(2)]] by auto
    from someI_ex [OF this] show ?thesis unfolding start_def [symmetric] by (simp add: case_prod_beta)
  qed
  then have "splitStarts P batch n S (\<lambda>t. if t = n then nat (oaSize S) else fst (start t)) (\<lambda>t. if t = n then length batch else snd (start t))"
    by (simp add: splitStarts_def)
  then show ?thesis by blast
qed

lemma startFound_used:
  assumes "startFound P batch S p L first" "oaContent S \<noteq> []"
  shows "L < nat (oaSize S)" "oaPma S ! L \<noteq> emptyEntry P"
    "\<And>j. j < L \<Longrightarrow> oaPma S ! j \<noteq> emptyEntry P \<Longrightarrow> head (oaPma S ! L) \<le> keyOfValue P (batch ! p)"
    "\<And>j. L < j \<Longrightarrow> j < nat (oaSize S) \<Longrightarrow> oaPma S ! j \<noteq> emptyEntry P \<Longrightarrow> keyOfValue P (batch ! p) < head (oaPma S ! j)"
    "\<And>i. first \<le> i \<Longrightarrow> i \<le> p \<Longrightarrow> head (oaPma S ! L) \<le> keyOfValue P (batch ! i)" "\<And>i. i < first \<Longrightarrow> keyOfValue P (batch ! i) < head (oaPma S ! L)"
  using assms by (auto simp: startFound_def)

lemma starts_increase:
  assumes inp: "oaInput P Z batch S" and s: "splitStarts P batch n S bs fs" and apart: "splittersApart P batch n S"
    and n: "0 < n" "n \<le> length batch" and t: "Suc t < n"
  shows "bs t < bs (Suc t)" "oaContent S \<noteq> []"
proof -
  let ?d = "length batch div n"
  have st: "startFound P batch S (t * ?d) (bs t) (fs t)" "startFound P batch S (Suc t * ?d) (bs (Suc t)) (fs (Suc t))"
    using s t unfolding splitStarts_def by (meson Suc_lessD)+
  have "oaFindTaskStart P batch (int (length batch) div int n) (int t) S = Some (int (bs t), int (fs t))"
    "oaFindTaskStart P batch (int (length batch) div int n) (int (Suc t)) S = Some (int (bs (Suc t)), int (fs (Suc t)))"
    using s t unfolding splitStarts_def by (meson Suc_lessD)+
  moreover have "t < n - 1" using t by simp
  ultimately have ne: "bs t \<noteq> bs (Suc t)" using apart unfolding splittersApart_def by (auto simp: add.commute)
  show c: "oaContent S \<noteq> []" using ne st by (auto simp: startFound_def)
  have p: "t * ?d \<le> Suc t * ?d" "Suc t * ?d < length batch" using splitter_bound [OF n(1) t n(2)] by simp_all
  then have le: "keyOfValue P (batch ! (t * ?d)) \<le> keyOfValue P (batch ! (Suc t * ?d))"
    using sorted_nth_mono [OF strict_sorted_imp_sorted [OF oaInputD(4) [OF inp]] p(1)] by simp
  show "bs t < bs (Suc t)"
  proof (rule ccontr)
    assume "\<not> bs t < bs (Suc t)"
    then have lt: "bs (Suc t) < bs t" using ne by simp
    note u = startFound_used [OF st(1) c] and v = startFound_used [OF st(2) c]
    show False using v(4) [OF lt u(1,2)] u(3) [OF lt v(2)] le by simp
  qed
qed

lemma splitStarts_block: "splitStarts P batch n S bs fs \<Longrightarrow> t < n \<Longrightarrow> startFound P batch S (t * (length batch div n)) (bs t) (fs t)"
  by (simp add: splitStarts_def)

lemma starts_mono:
  assumes inp: "oaInput P Z batch S" and s: "splitStarts P batch n S bs fs" and apart: "splittersApart P batch n S" and n: "n \<le> length batch"
  shows "s < t \<Longrightarrow> t < n \<Longrightarrow> bs s < bs t"
proof (induction t)
  case (Suc t)
  have "bs t < bs (Suc t)" using starts_increase [OF inp s apart _ n, of t] Suc.prems(2) by simp
  then show ?case using Suc by (cases "s = t") auto
qed simp

text \<open>The splitter element of a thread is one of the elements its task inserts.\<close>

lemma splitter_in_part:
  assumes inp: "oaInput P Z batch S" and s: "splitStarts P batch n S bs fs" and apart: "splittersApart P batch n S" and n: "n \<le> length batch" and t: "t < n"
  shows "firstOf fs t \<le> t * (length batch div n)" "t * (length batch div n) < firstOf fs (Suc t)"
proof -
  let ?d = "length batch div n"
  have n0: "0 < n" using t by simp
  show "firstOf fs t \<le> t * ?d"
  proof (cases t)
    case (Suc t')
    then have c: "oaContent S \<noteq> []" and lt: "bs t' < bs t" using starts_increase [OF inp s apart n0 n, of t'] t by auto
    note u = startFound_used [OF splitStarts_block [OF s t] c]
    have "oaPma S ! bs t' \<noteq> emptyEntry P" using startFound_used(2) [OF splitStarts_block [OF s] c, of t'] t Suc by simp
    then have "head (oaPma S ! bs t) \<le> keyOfValue P (batch ! (t * ?d))" by (rule u(3) [OF lt])
    then show ?thesis using u(6) [of "t * ?d"] Suc by (auto simp: not_less [symmetric] simp del: mult_Suc)
  qed simp
  show "t * ?d < firstOf fs (Suc t)"
  proof (cases "Suc t = n")
    case True
    then show ?thesis using splitter_bound [OF n0 t n] s n0 by (simp add: splitStarts_def firstOf_def)
  next
    case False
    then have st: "Suc t < n" using t by simp
    note inc = starts_increase [OF inp s apart n0 n st]
    note u = startFound_used [OF splitStarts_block [OF s t] inc(2)] and v = startFound_used [OF splitStarts_block [OF s st] inc(2)]
    show ?thesis using u(4) [OF inc(1) v(1,2)] v(5) [of "t * ?d"] by (auto simp: not_le [symmetric])
  qed
qed

lemma head_le_elems:
  assumes "wfOaSized P S" "wfParams P" "L < nat (oaSize S)" "oaPma S ! L \<noteq> emptyEntry P" "x \<in> set (entriesElems (slice (oaPma S) L (nat (oaSize S))))"
  shows "head (oaPma S ! L) \<le> keyOfValue P x"
proof -
  note d = wfOaSizedD [OF assms(1)]
  have "strictly_sorted (map (keyOfValue P) (entriesElems (slice (oaPma S) L (nat (oaSize S)))))"
    using d(3) elems_slice_split [of 0 L "nat (oaSize S)" "oaPma S"] assms(3) by (simp add: oaUsed_slice sorted_wrt_append)
  moreover have "entriesElems (slice (oaPma S) L (nat (oaSize S))) = elems (oaPma S ! L) @ entriesElems (slice (oaPma S) (Suc L) (nat (oaSize S)))"
    using elems_slice_at [of L L "nat (oaSize S)" "oaPma S"] assms(3) d(2) by simp
  moreover note h = okSized_head [OF assms(2) d(6) [OF assms(3,4)]]
  moreover obtain y ys where y: "elems (oaPma S ! L) = y # ys" using h(2) by (cases "elems (oaPma S ! L)") auto
  ultimately show ?thesis using assms(5) by (auto intro: less_imp_le)
qed

lemma taskPlan_ok:
  assumes wf: "wfOaSized P S" and inp: "oaInput P Z batch S" and s: "splitStarts P batch n S bs fs" and apart: "splittersApart P batch n S"
    and n: "0 < n" "n \<le> length batch"
  shows "taskPlan P batch n S bs (firstOf fs)"
proof -
  note i = oaInputD [OF inp] and part = splitter_in_part [OF inp s apart n(2)] and d = wfOaSizedD [OF wf]
  have srt: "keyOfValue P (batch ! j) \<le> keyOfValue P (batch ! k)" if "j \<le> k" "k < length batch" for j k
    using sorted_nth_mono [OF strict_sorted_imp_sorted [OF i(4)] that(1)] that by simp
  have fin: "bs n = nat (oaSize S)" "firstOf fs n = length batch" using s n(1) by (auto simp: splitStarts_def firstOf_def)
  have fle: "firstOf fs (Suc t) \<le> length batch" if t: "t < n" for t
    using part(1) [of "Suc t"] splitter_bound [OF n(1) _ n(2), of "Suc t"] fin that by (cases "Suc t = n") auto
  have own: "oaContent S \<noteq> [] \<Longrightarrow> t < n \<Longrightarrow> bs t < bs (Suc t) \<and> oaPma S ! bs t \<noteq> emptyEntry P" for t
    using starts_increase(1) [OF inp s apart n, of t] startFound_used(1,2) [OF splitStarts_block [OF s], of t] fin by (cases "Suc t = n") auto
  have none: "n = 1 \<and> bs 0 = nat (oaSize S)" if "oaContent S = []"
    using starts_increase(2) [OF inp s apart n, of 0] that n splitStarts_block [OF s n(1)] by (cases "n = 1") (auto simp: startFound_def)
  have below: "keyOfValue P x < keyOfValue P v" if t: "t < n" and v: "v \<in> set (slice batch (firstOf fs t) (firstOf fs (Suc t)))"
    and x: "x \<in> set (entriesElems (slice (oaPma S) 0 (bs t)))" for t v x
  proof -
    obtain j where j: "firstOf fs t \<le> j" "j < length batch" "v = batch ! j" using v fle [OF t] by (auto simp: in_slice)
    note b = startFound_below [OF wf i(1) splitStarts_block [OF s t] x]
    have c: "oaContent S \<noteq> []"
    proof
      assume c: "oaContent S = []"
      then have "entriesElems (slice (oaPma S) 0 (bs t)) = []" using none t by (simp add: oaUsed_slice)
      then show False using x by simp
    qed
    let ?p = "t * (length batch div n)"
    show ?thesis
    proof (cases "?p \<le> j")
      case True
      then show ?thesis using b(2) srt [OF True j(2)] j(3) by simp
    next
      case False
      then have "t \<noteq> 0" by (cases t) auto
      then have "fs t \<le> j" using j(1) by (simp add: firstOf_def)
      then show ?thesis using startFound_used(5) [OF splitStarts_block [OF s t] c, of j] False b(1) j(3) by simp
    qed
  qed
  have above: "keyOfValue P v < keyOfValue P x" if t: "t < n" and v: "v \<in> set (slice batch (firstOf fs t) (firstOf fs (Suc t)))"
    and x: "x \<in> set (entriesElems (slice (oaPma S) (bs (Suc t)) (nat (oaSize S))))" for t v x
  proof -
    have st: "Suc t < n" using x t fin by (cases "Suc t = n") auto
    have c: "oaContent S \<noteq> []" using starts_increase(2) [OF inp s apart n st] .
    note u = startFound_used [OF splitStarts_block [OF s st] c]
    obtain j where "j < fs (Suc t)" "v = batch ! j" using v fle [OF t] by (auto simp: in_slice)
    then show ?thesis using u(6) [of j] head_le_elems [OF wf i(1) u(1,2) x] by simp
  qed
  have "firstOf fs t < firstOf fs (Suc t)" if "t < n" for t using part [OF that] by linarith
  then show ?thesis unfolding taskPlan_def using n(1) fin own none below above by simp
qed

section \<open>Distribution to several threads\<close>

definition partOf :: "'v list \<Rightarrow> (nat \<Rightarrow> nat) \<Rightarrow> nat \<Rightarrow> 'v list" where
  "partOf batch g t = slice batch (g t) (g (Suc t))"

definition spanOf :: "('k, 'v) oaSds \<Rightarrow> (nat \<Rightarrow> nat) \<Rightarrow> nat \<Rightarrow> 'v list" where
  "spanOf S bs t = entriesElems (slice (oaPma S) (bs t) (bs (Suc t)))"

text \<open>The width that suffices for blocks of the minimal size.\<close>

definition widthOf :: "('k, 'v) tparams \<Rightarrow> ('k, 'v) oaSds \<Rightarrow> (nat \<Rightarrow> nat) \<Rightarrow> (nat \<Rightarrow> nat) \<Rightarrow> nat \<Rightarrow> int" where
  "widthOf P S bs fs t = the (maxRedistributionWidth P (int (length (spanOf S bs t))) (int (fs (Suc t)) - int (fs t)))"

definition wideEnough :: "('k, 'v) tparams \<Rightarrow> ('k, 'v) oaSds \<Rightarrow> (nat \<Rightarrow> nat) \<Rightarrow> (nat \<Rightarrow> nat) \<Rightarrow> (nat \<Rightarrow> int) \<Rightarrow> nat \<Rightarrow> bool" where
  "wideEnough P S bs g w n \<longleftrightarrow> (\<forall>t<n. int ((length (spanOf S bs t) + (g (Suc t) - g t)) div MinSize P) \<le> w t \<and> 1 \<le> w t \<and> w t \<le> 2 ^ 53)"

definition distSetting ::
  "('k::linorder, 'v) tparams \<Rightarrow> 'k \<Rightarrow> 'v list \<Rightarrow> nat \<Rightarrow> ('k, 'v) oaSds \<Rightarrow> (nat \<Rightarrow> nat) \<Rightarrow> (nat \<Rightarrow> nat) \<Rightarrow> bool" where
  "distSetting P Z batch n S bs fs \<longleftrightarrow> wfOaSized P S \<and> oaInput P Z batch S \<and> splitStarts P batch n S bs fs \<and> splittersApart P batch n S \<and>
     0 < n \<and> n \<le> length batch \<and> n < length (oaTasks S)"

lemma plan_blocks:
  assumes "taskPlan P batch n S bs g"
  shows "\<And>t. t < n \<Longrightarrow> bs t \<le> bs (Suc t)" "\<And>s t. s \<le> t \<Longrightarrow> t \<le> n \<Longrightarrow> bs s \<le> bs t" "\<And>t. t \<le> n \<Longrightarrow> bs t \<le> nat (oaSize S)"
    "\<And>s t. s \<le> t \<Longrightarrow> t \<le> n \<Longrightarrow> g s \<le> g t" "\<And>t. t \<le> n \<Longrightarrow> g t \<le> length batch"
proof -
  show step: "bs t \<le> bs (Suc t)" if "t < n" for t using assms that by (auto simp: taskPlan_def split: if_splits intro: less_imp_le)
  show mono: "bs s \<le> bs t" if "s \<le> t" "t \<le> n" for s t
    using that
  proof (induction t)
    case (Suc t)
    then show ?case using step [of t] by (cases "s = Suc t") auto
  qed simp
  show "bs t \<le> nat (oaSize S)" if "t \<le> n" for t using mono [OF that order_refl] assms by (simp add: taskPlan_def)
  show gm: "g s \<le> g t" if "s \<le> t" "t \<le> n" for s t
    using that
  proof (induction t)
    case (Suc t)
    then have "g t < g (Suc t)" using assms by (auto simp: taskPlan_def)
    then show ?case using Suc by (cases "s = Suc t") auto
  qed simp
  show "g t \<le> length batch" if "t \<le> n" for t using gm [OF that order_refl] assms by (simp add: taskPlan_def)
qed

lemma span_content:
  assumes wf: "wfOaSized P S" and plan: "taskPlan P batch n S bs g" and t: "t < n"
  shows "\<exists>A B. oaContent S = A @ spanOf S bs t @ B"
proof -
  have "bs t \<le> bs (Suc t)" "bs (Suc t) \<le> nat (oaSize S)" using plan_blocks(1,3) [OF plan] t by auto
  then have "oaContent S = entriesElems (slice (oaPma S) 0 (bs t)) @ spanOf S bs t @ entriesElems (slice (oaPma S) (bs (Suc t)) (nat (oaSize S)))"
    using elems_slice_split [of 0 "bs t" "nat (oaSize S)" "oaPma S"] elems_slice_split [of "bs t" "bs (Suc t)" "nat (oaSize S)" "oaPma S"]
    by (simp add: oaUsed_slice spanOf_def)
  then show ?thesis by blast
qed

lemma span_nonempty:
  assumes wf: "wfOaSized P S" "wfParams P" and plan: "taskPlan P batch n S bs g" and t: "t < n" "oaContent S \<noteq> []"
  shows "spanOf S bs t \<noteq> []"
proof -
  note d = wfOaSizedD [OF wf(1)]
  have lt: "bs t < bs (Suc t)" "oaPma S ! bs t \<noteq> emptyEntry P" using plan t by (auto simp: taskPlan_def)
  have le: "bs (Suc t) \<le> nat (oaSize S)" using plan_blocks(3) [OF plan] t(1) by simp
  have "elems (oaPma S ! bs t) \<noteq> []" by (rule okSized_head(2) [OF wf(2) d(6)]) (use lt le in auto)
  moreover have "spanOf S bs t = elems (oaPma S ! bs t) @ entriesElems (slice (oaPma S) (Suc (bs t)) (bs (Suc t)))"
    using elems_slice_at [of "bs t" "bs t" "bs (Suc t)" "oaPma S"] lt le d(2) by (simp add: spanOf_def)
  ultimately show ?thesis by simp
qed

lemma widthOf_ok:
  assumes set: "distSetting P Z batch n S bs fs" and t: "t < n"
  defines "g \<equiv> firstOf fs"
  shows "maxRedistributionWidth P (int (length (spanOf S bs t))) (int (fs (Suc t)) - int (fs t)) = Some (widthOf P S bs fs t)"
    "int ((length (spanOf S bs t) + (g (Suc t) - g t)) div MinSize P) \<le> widthOf P S bs fs t" "1 \<le> widthOf P S bs fs t" "widthOf P S bs fs t \<le> 2 ^ 53"
proof -
  have s: "wfOaSized P S" "oaInput P Z batch S" "splitStarts P batch n S bs fs" "splittersApart P batch n S" "0 < n" "n \<le> length batch"
    using set by (auto simp: distSetting_def)
  note i = oaInputD [OF s(2)]
  have plan: "taskPlan P batch n S bs g" unfolding g_def by (rule taskPlan_ok [OF s])
  have gl: "g t < g (Suc t)" "g (Suc t) \<le> length batch" using plan t plan_blocks(5) [OF plan, of "Suc t"] by (auto simp: taskPlan_def)
  define first where "first = int (fs t) - int (g t)"
  have f0: "fs 0 \<le> 1" "oaContent S = [] \<Longrightarrow> fs 0 = 0" using splitStarts_block [OF s(3,5)] by (auto simp: startFound_def)
  have first: "0 \<le> first" "first \<le> 1" using f0(1) by (auto simp: first_def g_def firstOf_def)
  have E: "0 < length (spanOf S bs t) \<or> first = 0"
  proof (cases "oaContent S = []")
    case True
    then have "t = 0" using plan t by (auto simp: taskPlan_def)
    then show ?thesis using f0(2) True by (simp add: first_def g_def)
  qed (use span_nonempty [OF s(1) i(1) plan t] in simp)
  obtain A B where "oaContent S = A @ spanOf S bs t @ B" using span_content [OF s(1) plan t] by blast
  then have "length (spanOf S bs t) \<le> length (oaContent S)" by simp
  moreover have "int (length (oaContent S) + length batch) < 2 ^ 53" using s(2) by (simp add: oaInput_def)
  ultimately have big: "int (length (spanOf S bs t) + (g (Suc t) - g t)) < 2 ^ 53" using gl by linarith
  have eq: "int (g (Suc t) - g t) - first = int (fs (Suc t)) - int (fs t)" using gl(1) by (simp add: first_def) (simp add: g_def)
  obtain w where w: "maxRedistributionWidth P (int (length (spanOf S bs t))) (int (fs (Suc t)) - int (fs t)) = Some w"
     "int ((length (spanOf S bs t) + (g (Suc t) - g t)) div MinSize P) \<le> w" "1 \<le> w" "w \<le> 2 ^ 53"
    using width_bounds [OF i(1) first _ E big] gl(1) unfolding eq by auto
  then have ww: "widthOf P S bs fs t = w" by (simp add: widthOf_def)
  show "maxRedistributionWidth P (int (length (spanOf S bs t))) (int (fs (Suc t)) - int (fs t)) = Some (widthOf P S bs fs t)" unfolding ww by (rule w(1))
  show "int ((length (spanOf S bs t) + (g (Suc t) - g t)) div MinSize P) \<le> widthOf P S bs fs t" unfolding ww by (rule w(2))
  show "1 \<le> widthOf P S bs fs t" "widthOf P S bs fs t \<le> 2 ^ 53" unfolding ww by (rule w(3), rule w(4))
qed

text \<open>Outside of merged groups the type of a task only becomes \<open>INSERTION\<close>.\<close>

definition keepsInsertion :: "TaskInfo list \<Rightarrow> TaskInfo list \<Rightarrow> bool" where
  "keepsInsertion ts ts' \<longleftrightarrow> length ts' = length ts \<and> (\<forall>t<length ts. taskType (ts ! t) = INSERTION \<longrightarrow> taskType (ts' ! t) = INSERTION)"

lemma keepsInsertion_update:
  "keepsInsertion ts ts' \<Longrightarrow> (\<And>a. taskType a = INSERTION \<Longrightarrow> taskType (f a) = INSERTION) \<Longrightarrow> keepsInsertion ts (ts'[t := f (ts' ! t)])"
  by (cases "t < length ts'") (auto simp: keepsInsertion_def nth_list_update)

lemma keepsInsertion_refl [simp]: "keepsInsertion ts ts"
  by (simp add: keepsInsertion_def)

lemma keepsInsertion_trans: "keepsInsertion ts ts' \<Longrightarrow> keepsInsertion ts' ts'' \<Longrightarrow> keepsInsertion ts ts''"
  by (simp add: keepsInsertion_def)

text \<open>The state while the threads of the first region describe their tasks.\<close>

definition distInv ::
  "('k::linorder, 'v) tparams \<Rightarrow> 'k \<Rightarrow> 'v list \<Rightarrow> nat \<Rightarrow> ('k, 'v) oaSds \<Rightarrow> (nat \<Rightarrow> nat) \<Rightarrow> (nat \<Rightarrow> nat) \<Rightarrow> nat set \<Rightarrow> ('k, 'v) oaSds \<Rightarrow> bool" where
  "distInv P Z batch n S bs fs D S' \<longleftrightarrow> distSetting P Z batch n S bs fs \<and> (\<exists>ts. S' = S\<lparr>oaTasks := ts\<rparr> \<and> keepsInsertion (oaTasks S) ts \<and>
     ts ! n = (oaTasks S ! n)\<lparr>blockForBatchSplitter := oaSize S, firstBatchElement := int (length batch)\<rparr> \<and>
     (\<forall>t\<in>D. blockForBatchSplitter (ts ! t) = int (bs t) \<and> firstBatchElement (ts ! t) = int (fs t) \<and> requiredWidth (ts ! t) = widthOf P S bs fs t))"

lemma oaFindTaskStart_tasks [simp]: "oaFindTaskStart P batch d t (S\<lparr>oaTasks := ts\<rparr>) = oaFindTaskStart P batch d t S"
proof -
  have "oaEmptyAt P (S\<lparr>oaTasks := ts\<rparr>) = oaEmptyAt P S" "oaHeadAt (S\<lparr>oaTasks := ts\<rparr>) = oaHeadAt S"
    by (simp_all add: fun_eq_iff oaEmptyAt_def oaHeadAt_def)
  then show ?thesis by (simp add: oaFindTaskStart_def oaArrayOf_def)
qed

lemma span_total:
  assumes wf: "wfOaSized P S" and plan: "taskPlan P batch n S bs g" and t: "t < n"
  shows "h_getNumberOfElements (blockSizes S) (sizeManager S) (int (bs t)) (int (bs (Suc t))) = Some (int (length (spanOf S bs t)))"
proof -
  note d = wfOaSizedD [OF wf] and dd = wfOaD [OF wfOaSizedD(1) [OF wf]]
  have bl: "bs t \<le> bs (Suc t)" "bs (Suc t) \<le> nat (oaSize S)" using plan_blocks(1,3) [OF plan] t by auto
  have "h_getNumberOfElements (blockSizes S) (sizeManager S) (int (bs t)) (int (bs (Suc t))) = Some (totalSize (blockSizes S) (int (bs t)) (int (bs (Suc t))))"
    using hier.get_total [OF dd(6)] bl dd(1) by simp
  moreover have "totalSize (blockSizes S) (int (bs t)) (int (bs (Suc t))) = int (length (spanOf S bs t))"
    using totalSize_elems [of "bs t" "bs (Suc t)" P S] wfOa_entry(1) [OF d(1)] bl d(2) by (simp add: spanOf_def)
  ultimately show ?thesis by simp
qed

lemma distributeThread_ok:
  assumes set: "distSetting P Z batch n S bs fs" and t: "t < n" "t < length ts"
  shows "oaDistributeThread P batch (int (length batch)) (int (length batch) div int n) n t (S\<lparr>oaTasks := ts\<rparr>) =
     Some (S\<lparr>oaTasks := ts[t := (ts ! t)\<lparr>blockForBatchSplitter := int (bs t), firstBatchElement := int (fs t), requiredWidth := widthOf P S bs fs t\<rparr>]\<rparr>)"
proof -
  have s: "wfOaSized P S" "oaInput P Z batch S" "splitStarts P batch n S bs fs" "splittersApart P batch n S" "0 < n" "n \<le> length batch"
    using set by (auto simp: distSetting_def)
  have st: "oaFindTaskStart P batch (int (length batch) div int n) (int t) S = Some (int (bs t), int (fs t))" if "t < n" for t
    using s(3) that by (simp add: splitStarts_def)
  have nxt: "(if t = n - Suc 0 then Some (oaSize (S\<lparr>oaTasks := ts\<rparr>), int (length batch))
        else oaFindTaskStart P batch (int (length batch) div int n) (int t + 1) (S\<lparr>oaTasks := ts\<rparr>)) =
      Some (int (bs (Suc t)), int (fs (Suc t)))"
  proof (cases "t = n - Suc 0")
    case True
    then have "Suc t = n" using t(1) by simp
    then show ?thesis using True s(3) wfOaD(1) [OF wfOaSizedD(1) [OF s(1)]] by (simp add: splitStarts_def)
  next
    case False
    then show ?thesis using st [of "Suc t"] t(1) by (simp add: add.commute)
  qed
  show ?thesis
    using st [OF t(1)] t(2) span_total [OF s(1) taskPlan_ok [OF s] t(1)] widthOf_ok(1) [OF set t(1)]
    by (simp add: oaDistributeThread_def task_ops blockSizes_def nxt split del: if_split)
qed

interpretation distribution: task_region n "oaDistributeThread P batch (int (length batch)) (int (length batch) div int n) n" "distInv P Z batch n S bs fs"
  for P Z batch n S bs fs
proof
  fix D S' t assume inv: "distInv P Z batch n S bs fs D S'" and t: "t < n" "t \<notin> D"
  then obtain ts where ts: "S' = S\<lparr>oaTasks := ts\<rparr>" "keepsInsertion (oaTasks S) ts"
     "ts ! n = (oaTasks S ! n)\<lparr>blockForBatchSplitter := oaSize S, firstBatchElement := int (length batch)\<rparr>"
     "\<forall>t\<in>D. blockForBatchSplitter (ts ! t) = int (bs t) \<and> firstBatchElement (ts ! t) = int (fs t) \<and> requiredWidth (ts ! t) = widthOf P S bs fs t"
    by (auto simp: distInv_def)
  have set: "distSetting P Z batch n S bs fs" using inv by (simp add: distInv_def)
  then have len: "t < length ts" using ts(2) t(1) by (auto simp: distSetting_def keepsInsertion_def)
  let ?ts = "ts[t := (ts ! t)\<lparr>blockForBatchSplitter := int (bs t), firstBatchElement := int (fs t), requiredWidth := widthOf P S bs fs t\<rparr>]"
  have "distInv P Z batch n S bs fs (insert t D) (S\<lparr>oaTasks := ?ts\<rparr>)"
    unfolding distInv_def using set ts(2-4) t len by (intro conjI exI [of _ ?ts] keepsInsertion_update) (auto simp: nth_list_update)
  then show "\<exists>S''. oaDistributeThread P batch (int (length batch)) (int (length batch) div int n) n t S' = Some S'' \<and>
      distInv P Z batch n S bs fs (insert t D) S''"
    using distributeThread_ok [OF set t(1) len] ts(1) by auto
qed

text \<open>The descriptions of all tasks, and of the sentinel behind them.\<close>

definition described :: "nat \<Rightarrow> (nat \<Rightarrow> nat) \<Rightarrow> (nat \<Rightarrow> nat) \<Rightarrow> (nat \<Rightarrow> int) \<Rightarrow> TaskInfo list \<Rightarrow> bool" where
  "described n bs g w ts \<longleftrightarrow> n < length ts \<and> (\<forall>t\<le>n. blockForBatchSplitter (ts ! t) = int (bs t) \<and> firstBatchElement (ts ! t) = int (g t)) \<and>
     (\<forall>t<n. requiredWidth (ts ! t) = w t)"

text \<open>No two tasks start at the same block, so none is merged with its neighbour.\<close>

definition ownTasks :: "nat \<Rightarrow> TaskInfo list \<Rightarrow> bool" where
  "ownTasks k ts \<longleftrightarrow> (\<forall>t<k. taskType (ts ! t) = INSERTION \<and> (0 < t \<longrightarrow> mergedTasks (ts ! t) = 0))"

lemma mergeTasks_ok:
  fixes S :: "('k, 'v) oaSds"
  assumes bs: "\<And>t. Suc t < n \<Longrightarrow> bs t < bs (Suc t)" and n: "0 < n" and ts: "described n bs g w ts" "ownTasks 1 ts"
  shows "\<exists>ts'. foldM oaMergeThreadTasks [1..<n] (0, False, S\<lparr>oaTasks := ts\<rparr>) = Some (0, False, S\<lparr>oaTasks := ts'\<rparr>) \<and>
     described n bs g w ts' \<and> ownTasks n ts' \<and> keepsInsertion ts ts' \<and> ts' ! n = ts ! n"
proof -
  have "\<exists>T. foldM oaMergeThreadTasks [1..<n] (0, False, S\<lparr>oaTasks := ts\<rparr>) = Some T \<and>
     (\<exists>ts'. T = (0, False, S\<lparr>oaTasks := ts'\<rparr>) \<and> described n bs g w ts' \<and> ownTasks (Suc (length [1..<n])) ts' \<and> keepsInsertion ts ts' \<and> ts' ! n = ts ! n)"
  proof (rule foldM_inv)
    fix k T assume k: "k < length [1..<n]" "\<exists>ts'. T = (0::nat, False, S\<lparr>oaTasks := ts'\<rparr>) \<and> described n bs g w ts' \<and> ownTasks (Suc k) ts' \<and> keepsInsertion ts ts' \<and> ts' ! n = ts ! n"
    then obtain ts' where t': "T = (0, False, S\<lparr>oaTasks := ts'\<rparr>)" "described n bs g w ts'" "ownTasks (Suc k) ts'" "keepsInsertion ts ts'" "ts' ! n = ts ! n" by blast
    have t: "[1..<n] ! k = Suc k" "Suc k < n" using k(1) by auto
    have len: "Suc k < length ts'" "k < length ts'" using t'(2) t(2) n by (auto simp: described_def)
    have "blockForBatchSplitter (ts' ! Suc k) \<noteq> blockForBatchSplitter (ts' ! k)"
      using t'(2) t(2) bs [of k] by (simp add: described_def)
    then have r: "oaMergeThreadTasks (Suc k) T = Some (0, False, S\<lparr>oaTasks := ts'[Suc k := (ts' ! Suc k)\<lparr>taskType := INSERTION, mergedTasks := 0\<rparr>]\<rparr>)"
      using len by (simp add: t'(1) oaMergeThreadTasks_def task_ops UseInverseMerge_def)
    have "described n bs g w (ts'[Suc k := (ts' ! Suc k)\<lparr>taskType := INSERTION, mergedTasks := 0\<rparr>])"
      using t'(2) len t(2) by (auto simp: described_def nth_list_update)
    moreover have "ownTasks (Suc (Suc k)) (ts'[Suc k := (ts' ! Suc k)\<lparr>taskType := INSERTION, mergedTasks := 0\<rparr>])"
      using t'(3) len by (auto simp: ownTasks_def nth_list_update less_Suc_eq)
    moreover have "keepsInsertion ts (ts'[Suc k := (ts' ! Suc k)\<lparr>taskType := INSERTION, mergedTasks := 0\<rparr>])"
      by (rule keepsInsertion_update [OF t'(4)]) simp
    ultimately show "\<exists>T'. oaMergeThreadTasks ([1..<n] ! k) T = Some T' \<and>
        (\<exists>ts'. T' = (0, False, S\<lparr>oaTasks := ts'\<rparr>) \<and> described n bs g w ts' \<and> ownTasks (Suc (Suc k)) ts' \<and> keepsInsertion ts ts' \<and> ts' ! n = ts ! n)"
      unfolding t(1) using r t'(5) t(2)
      by (intro exI [of _ "(0, False, S\<lparr>oaTasks := ts'[Suc k := (ts' ! Suc k)\<lparr>taskType := INSERTION, mergedTasks := 0\<rparr>]\<rparr>)"] conjI
        exI [of _ "ts'[Suc k := (ts' ! Suc k)\<lparr>taskType := INSERTION, mergedTasks := 0\<rparr>]"]) auto
  qed (use ts in auto)
  then show ?thesis using n by auto
qed

lemma foldM_idle: "(\<And>x. x \<in> set xs \<Longrightarrow> f x s = Some s) \<Longrightarrow> foldM f xs s = Some s"
  by (induction xs) auto

lemma distributeWork_none:
  assumes "ownTasks n (oaTasks S)" "n < length (oaTasks S)"
  shows "oaDistributeWork P batch batchSize n S = Some S"
  unfolding oaDistributeWork_def
proof (rule foldM_idle)
  fix t assume "t \<in> set [1..<n]"
  then have "0 < t" "t < n" by auto
  then show "(do { task \<leftarrow> oaTask S t; if taskType task = INSERTION \<and> mergedTasks task > 0 then oaDistributeGroup P batch batchSize t S else Some S }) = Some S"
    using assms by (simp add: task_ops ownTasks_def)
qed

lemma fitsInPlace_ok:
  assumes ts: "described n bs g w (oaTasks S)" "ownTasks n (oaTasks S)"
  shows "fitsInPlace n allow S = Some (allow \<and> (\<forall>t<n. w t \<le> int (bs (Suc t)) - int (bs t)))"
proof -
  have "\<exists>u. fitsInPlace n allow S = Some u \<and> u = (allow \<and> (\<forall>t<length [0..<n]. w t \<le> int (bs (Suc t)) - int (bs t)))"
    unfolding fitsInPlace_def
  proof (rule foldM_inv)
    fix k u assume "k < length [0..<n]" and u: "u = (allow \<and> (\<forall>t<k. w t \<le> int (bs (Suc t)) - int (bs t)))"
    then have k: "[0..<n] ! k = k" "k < length (oaTasks S)" "Suc k < length (oaTasks S)" "k < n" using ts by (auto simp: described_def)
    then show "\<exists>u'. (if u then do { task \<leftarrow> oaTask S ([0..<n] ! k); next \<leftarrow> oaTask S ([0..<n] ! k + 1);
          let currentWidth = blockForBatchSplitter next - blockForBatchSplitter task;
          Some (\<not> (requiredWidth task > currentWidth \<or> UseInverseMerge \<and> taskType task = INVERSE_MERGE)) } else Some False) = Some u' \<and>
        u' = (allow \<and> (\<forall>t<Suc k. w t \<le> int (bs (Suc t)) - int (bs t)))"
      using ts u by (auto simp: task_ops described_def ownTasks_def less_Suc_eq)
  qed simp
  then show ?thesis by simp
qed

lemma validateTasks_ok:
  assumes ts: "described n bs g w (oaTasks S)" "ownTasks n (oaTasks S)" and g: "g 0 = 0" "g n = N" "bs n = nat (oaSize S)" "0 \<le> oaSize S"
    and last: "taskType (oaTasks S ! n) = INSERTION"
  shows "oaValidateTasks P n (int N) u S = Some ()"
proof -
  have ty: "taskType (oaTasks S ! t) = INSERTION" "t < length (oaTasks S)" if "t < n + 1" for t
    using that ts last by (cases "t = n"; simp add: ownTasks_def described_def)+
  have "foldM (\<lambda>thread u'. do {
         t \<leftarrow> oaTask S thread;
         if \<not> u \<and> taskType t = INVERSE_MERGE
         then do {
           assertMsg (NDEBUG P) (mergedTasks t < n);
           assertMsg (NDEBUG P) (mergedTaskIndex t < mergedTasks t) }
         else Some () }) [0..<n + 1] () = Some ()"
    by (rule foldM_idle) (use ty in \<open>auto simp: task_ops simp del: upt_Suc\<close>)
  then show ?thesis
    unfolding oaValidateTasks_def using ts(1) g ty(2) [of 0] by (simp add: task_ops described_def del: upt_Suc)
qed

text \<open>The whole phase: all tasks are described, and it is decided whether they can work in place.\<close>

lemma oaDistribution_apart:
  assumes wf: "wfOaSized P S" and inp: "oaInput P Z batch S" and apart: "splittersApart P batch n S"
    and n: "0 < n" "n \<le> length batch" "n < length (oaTasks S)" and last: "NDEBUG P \<or> taskType (oaTasks S ! n) = INSERTION"
    and W: "okWorkers W n"
  shows "\<exists>bs g w ts. oaDistributionPhase P W allow batch (int (length batch)) n S =
       Some (False, allow \<and> (\<forall>t<n. w t \<le> int (bs (Suc t)) - int (bs t)), S\<lparr>oaTasks := ts\<rparr>) \<and>
     taskPlan P batch n S bs g \<and> wideEnough P S bs g w n \<and> described n bs g w ts \<and> ownTasks n ts \<and> requiredWidth (ts ! n) = 0 \<and>
     keepsInsertion (oaTasks S) ts"
proof -
  let ?N = "length batch"
  obtain bs fs where s: "splitStarts P batch n S bs fs" using splitStarts_exist [OF wf inp n(1,2)] by blast
  have set: "distSetting P Z batch n S bs fs" unfolding distSetting_def using wf inp s apart n by simp
  define g w where "g = firstOf fs" and "w = widthOf P S bs fs"
  have plan: "taskPlan P batch n S bs g" unfolding g_def by (rule taskPlan_ok [OF wf inp s apart n(1,2)])
  then have gn: "g 0 = 0" "g n = ?N" "bs n = nat (oaSize S)" "0 \<le> oaSize S"
    using wfOaD(1) [OF wfOaSizedD(1) [OF wf]] by (auto simp: taskPlan_def)
  have wide: "wideEnough P S bs g w n" unfolding wideEnough_def g_def w_def using widthOf_ok [OF set] by blast
  define sentinel where "sentinel = (oaTasks S ! n)\<lparr>blockForBatchSplitter := oaSize S, firstBatchElement := int ?N\<rparr>"
  have u0: "oaUpdateTask n (\<lambda>t. t\<lparr>blockForBatchSplitter := oaSize S, firstBatchElement := int ?N\<rparr>) S = Some (S\<lparr>oaTasks := (oaTasks S)[n := sentinel]\<rparr>)"
    using n(3) by (simp add: task_ops sentinel_def)
  have "distInv P Z batch n S bs fs {} (S\<lparr>oaTasks := (oaTasks S)[n := sentinel]\<rparr>)"
    unfolding distInv_def using set n(3) by (intro conjI exI [of _ "(oaTasks S)[n := sentinel]"]) (auto simp: sentinel_def keepsInsertion_def nth_list_update)
  then obtain S1 where S1: "foldM (oaDistributeThread P batch (int ?N) (int ?N div int n) n) (W 0) (S\<lparr>oaTasks := (oaTasks S)[n := sentinel]\<rparr>) = Some S1"
     "distInv P Z batch n S bs fs {0..<n} S1"
    using distribution.all_done [of P Z batch n S bs fs _ "W 0"] W unfolding okWorkers_def by blast
  then obtain ts1 where t1: "S1 = S\<lparr>oaTasks := ts1\<rparr>" "keepsInsertion (oaTasks S) ts1" "ts1 ! n = sentinel"
     "\<And>t. t < n \<Longrightarrow> blockForBatchSplitter (ts1 ! t) = int (bs t) \<and> firstBatchElement (ts1 ! t) = int (fs t) \<and> requiredWidth (ts1 ! t) = w t"
    by (auto simp: distInv_def sentinel_def w_def)
  have len1: "length ts1 = length (oaTasks S)" using t1(2) by (simp add: keepsInsertion_def)
  define ts2 where "ts2 = ts1[0 := (ts1 ! 0)\<lparr>firstBatchElement := 0, taskType := INSERTION\<rparr>]"
  have u1: "oaUpdateTask 0 (\<lambda>t. t\<lparr>firstBatchElement := 0, taskType := INSERTION\<rparr>) (S\<lparr>oaTasks := ts1\<rparr>) = Some (S\<lparr>oaTasks := ts2\<rparr>)"
    by (subst task_ops(2)) (use n len1 in \<open>auto simp: ts2_def\<close>)
  have "ts1 \<noteq> []" using n len1 by auto
  then have nth2: "ts2 ! t = (if t = 0 then (ts1 ! 0)\<lparr>firstBatchElement := 0, taskType := INSERTION\<rparr> else ts1 ! t)" for t
    by (auto simp: ts2_def nth_list_update)
  have d2: "described n bs g w ts2"
    unfolding described_def
  proof (intro conjI allI impI)
    show "n < length ts2" using n len1 by (simp add: ts2_def)
    show "requiredWidth (ts2 ! t) = w t" if "t < n" for t using t1(4) [OF that] by (auto simp: nth2)
    fix t assume t: "t \<le> n"
    show "blockForBatchSplitter (ts2 ! t) = int (bs t)" using t1(4) [of t] t1(3) t n(1) gn by (cases "t = n") (auto simp: nth2 sentinel_def)
    show "firstBatchElement (ts2 ! t) = int (g t)"
      using t1(4) [of t] t1(3) t n(1) gn by (cases "t = n") (auto simp: nth2 sentinel_def g_def firstOf_def)
  qed
  have o2: "ownTasks 1 ts2" by (simp add: ownTasks_def nth2)
  have inc: "bs t < bs (Suc t)" if "Suc t < n" for t using starts_increase(1) [OF inp s apart n(1,2) that] .
  obtain ts3 where t3: "foldM oaMergeThreadTasks [1..<n] (0, False, S\<lparr>oaTasks := ts2\<rparr>) = Some (0, False, S\<lparr>oaTasks := ts3\<rparr>)"
     "described n bs g w ts3" "ownTasks n ts3" "keepsInsertion ts2 ts3" "ts3 ! n = ts2 ! n"
    using mergeTasks_ok [of n bs g w ts2 S] inc n(1) d2 o2 by auto
  have n3: "n < length ts3" using t3(2) by (simp add: described_def)
  define ts4 where "ts4 = ts3[n := (ts3 ! n)\<lparr>requiredWidth := 0\<rparr>]"
  have d4: "described n bs g w ts4" "ownTasks n ts4" using t3(2,3) n3 by (auto simp: ts4_def described_def ownTasks_def nth_list_update)
  have "keepsInsertion (oaTasks S) ts2" unfolding ts2_def by (rule keepsInsertion_update [OF t1(2)]) simp
  then have "keepsInsertion (oaTasks S) ts4" unfolding ts4_def using keepsInsertion_trans [OF _ t3(4)] by (intro keepsInsertion_update) simp_all
  moreover have "requiredWidth (ts4 ! n) = 0" "taskType (ts4 ! n) = taskType (oaTasks S ! n)"
    using t3(5) n3 t1(3) n(1) by (simp_all add: ts4_def nth2 sentinel_def)
  ultimately have sz: "keepsInsertion (oaTasks S) ts4" "requiredWidth (ts4 ! n) = 0" "taskType (ts4 ! n) = taskType (oaTasks S ! n)" by auto
  have work: "oaDistributeWork P batch (int ?N) n (S\<lparr>oaTasks := ts3\<rparr>) = Some (S\<lparr>oaTasks := ts3\<rparr>)"
    by (rule distributeWork_none) (use t3(3) n3 in simp_all)
  have fits: "fitsInPlace n allow (S\<lparr>oaTasks := ts3\<rparr>) = Some (allow \<and> (\<forall>t<n. w t \<le> int (bs (Suc t)) - int (bs t)))"
    by (rule fitsInPlace_ok) (use t3(2,3) in simp_all)
  have u4: "oaUpdateTask n (\<lambda>t. t\<lparr>requiredWidth := 0\<rparr>) (S\<lparr>oaTasks := ts3\<rparr>) = Some (S\<lparr>oaTasks := ts4\<rparr>)" using n3 by (simp add: task_ops ts4_def)
  have val: "oaValidateTasks P n (int ?N) u (S\<lparr>oaTasks := ts4\<rparr>) = Some ()" if "\<not> NDEBUG P" for u
    by (rule validateTasks_ok [of n bs g w]) (use d4 gn last sz that in auto)
  have cd: "cdiv (int ?N) (int n) = int ?N div int n" using n(1) by simp
  have "oaDistributionPhase P W allow batch (int ?N) n S = Some (False, allow \<and> (\<forall>t<n. w t \<le> int (bs (Suc t)) - int (bs t)), S\<lparr>oaTasks := ts4\<rparr>)"
    unfolding oaDistributionPhase_def using n(1) u0 S1(1) u1 t3(1) work fits u4 val by (simp add: cd t1(1) UseInverseMerge_def)
  then show ?thesis using plan wide d4 sz by blast
qed

end
