(* ===== verification/Overallocated_Tasks.thy ===== *)
theory Overallocated_Tasks
  imports Overallocated_Distribution
begin

text \<open>
  The tasks of \<open>insertBatch\<close> of \<open>OverallocatedBatchedSparseArray\<close> in the parallel region that inserts: in place
  (\<open>startTaskInPlace\<close>) and out of place (\<open>startTaskOutOfPlace\<close>), each with an invariant over the set of tasks that are done.
\<close>

lemma set_fold_insKey_sub: "set (fold (insKey kf) es xs) \<subseteq> set xs \<union> set es"
proof (induction es arbitrary: xs)
  case (Cons e es)
  have "set (insKey kf e xs) \<subseteq> insert e (set xs)" by (induction xs) auto
  then show ?case using Cons [of "insKey kf e xs"] by auto
qed simp

section \<open>The parts of the batch\<close>

lemma strict_keys_inj: "strictly_sorted (map kf batch) \<Longrightarrow> inj_on kf (set batch)"
  by (simp add: strict_sorted_iff distinct_map)

lemma part_sub: "set (partOf batch g t) \<subseteq> set batch"
  unfolding partOf_def slice_def by (meson order_trans set_take_subset set_drop_subset)

lemma part_sorted: "strictly_sorted (map kf batch) \<Longrightarrow> strictly_sorted (map kf (partOf batch g t))"
  unfolding partOf_def by (rule sorted_keys_slice)

lemma part_order:
  assumes plan: "taskPlan P batch n S bs g" and srt: "strictly_sorted (map kf batch)" and t: "s < t" "t < n"
    and v: "x \<in> set (partOf batch g s)" "v \<in> set (partOf batch g t)"
  shows "kf x < kf v"
proof -
  have le: "g (Suc s) \<le> g t" "g (Suc t) \<le> length batch" "g (Suc s) \<le> length batch"
    using plan_blocks(4) [OF plan, of "Suc s" t] plan_blocks(5) [OF plan, of "Suc t"] plan_blocks(5) [OF plan, of "Suc s"] t by auto
  obtain i j where "i < g (Suc s)" "x = batch ! i" "g t \<le> j" "j < g (Suc t)" "v = batch ! j"
    using v le by (auto simp: partOf_def in_slice)
  then show ?thesis using sorted_wrt_nth_less [OF srt, of i j] le by simp
qed

lemma parts_cover:
  assumes plan: "taskPlan P batch n S bs g"
  shows "(\<Union>t\<in>{0..<n}. set (partOf batch g t)) = set batch"
proof -
  have "(\<Union>t\<in>{0..<k}. set (partOf batch g t)) = set (take (g k) batch)" if "k \<le> n" for k
    using that
  proof (induction k)
    case 0
    then show ?case using plan by (simp add: taskPlan_def)
  next
    case (Suc k)
    have "take (g (Suc k)) batch = take (g k) batch @ partOf batch g k"
      using plan_blocks(4) [OF plan, of k "Suc k"] Suc.prems by (simp add: partOf_def slice_def flip: take_add)
    then show ?case using Suc by (simp add: atLeast0_lessThan_Suc Un_commute)
  qed
  then show ?thesis using plan by (simp add: taskPlan_def)
qed

text \<open>The elements that tasks \<open>D\<close> bring into the array with the elements \<open>xs\<close>.\<close>

definition gained :: "('v \<Rightarrow> 'k) \<Rightarrow> 'v list \<Rightarrow> (nat \<Rightarrow> nat) \<Rightarrow> nat set \<Rightarrow> 'v list \<Rightarrow> 'v set" where
  "gained kf batch g D xs = set xs \<union> {v \<in> (\<Union>t\<in>D. set (partOf batch g t)). kf v \<notin> kf ` set xs}"

lemma gained_empty [simp]: "gained kf batch g {} xs = set xs"
  by (simp add: gained_def)

lemma gained_sub: "gained kf batch g D xs \<subseteq> set xs \<union> set batch"
  using part_sub by (fastforce simp: gained_def)

lemma gained_insert:
  assumes "strictly_sorted (map kf batch)" "strictly_sorted (map kf ys)" "set ys = gained kf batch g D xs"
  shows "set (fold (insKey kf) (partOf batch g t) ys) = gained kf batch g (insert t D) xs"
proof -
  have inj: "v = x" if "kf v = kf x" "x \<in> set (partOf batch g s)" "v \<in> set (partOf batch g t)" for v x s
  proof -
    have "v \<in> set batch" "x \<in> set batch" using that(2,3) part_sub [of batch g] by blast+
    then show ?thesis using strict_keys_inj [OF assms(1)] that(1) by (simp add: inj_on_eq_iff)
  qed
  have eq: "set (fold (insKey kf) (partOf batch g t) ys) = gained kf batch g D xs \<union> {e \<in> set (partOf batch g t). kf e \<notin> kf ` gained kf batch g D xs}"
    using set_fold_insKey [OF assms(2) part_sorted [OF assms(1), of g t]] assms(3) by simp
  show ?thesis
  proof
    show "set (fold (insKey kf) (partOf batch g t) ys) \<subseteq> gained kf batch g (insert t D) xs" unfolding eq by (auto simp: gained_def)
    show "gained kf batch g (insert t D) xs \<subseteq> set (fold (insKey kf) (partOf batch g t) ys)"
    proof
      fix v assume "v \<in> gained kf batch g (insert t D) xs"
      then consider "v \<in> gained kf batch g D xs" | "v \<in> set (partOf batch g t)" "kf v \<notin> kf ` set xs" by (auto simp: gained_def)
      then show "v \<in> set (fold (insKey kf) (partOf batch g t) ys)"
      proof cases
        case 2
        show ?thesis
        proof (cases "kf v \<in> kf ` gained kf batch g D xs")
          case True
          then obtain x where x: "kf v = kf x" "x \<in> gained kf batch g D xs" by auto
          then obtain s where "x \<in> set (partOf batch g s)" using 2(2) by (auto simp: gained_def)
          then have "v = x" using inj [OF x(1) _ 2(1)] by blast
          then show ?thesis unfolding eq using x(2) by simp
        qed (use 2(1) in \<open>simp add: eq\<close>)
      qed (simp add: eq)
    qed
  qed
qed

lemma gained_all:
  assumes "taskPlan P batch n S bs g" "strictly_sorted (map kf batch)" "strictly_sorted (map kf xs)" "strictly_sorted (map kf ys)"
    and "set ys = gained kf batch g {0..<n} xs"
  shows "ys = fold (insKey kf) batch xs"
proof (rule sorted_keys_unique [of kf])
  show "strictly_sorted (map kf (fold (insKey kf) batch xs))" using assms(3) by (rule fold_insKey_sorted)
  have "set (fold (insKey kf) batch xs) = set xs \<union> {e \<in> set batch. kf e \<notin> kf ` set xs}"
    by (rule set_fold_insKey [OF assms(3,2)])
  then show "set ys = set (fold (insKey kf) batch xs)" unfolding assms(5) gained_def parts_cover [OF assms(1)] by blast
qed (rule assms(4))

section \<open>Tasks in place\<close>

text \<open>The array with its task descriptions when the tasks start.\<close>

definition runSetting ::
  "('k::linorder, 'v) tparams \<Rightarrow> 'k \<Rightarrow> 'v list \<Rightarrow> nat \<Rightarrow> ('k, 'v) oaSds \<Rightarrow> (nat \<Rightarrow> nat) \<Rightarrow> (nat \<Rightarrow> nat) \<Rightarrow> (nat \<Rightarrow> int) \<Rightarrow> bool" where
  "runSetting P Z batch n S bs g w \<longleftrightarrow> wfOaSized P S \<and> oaInput P Z batch S \<and> taskPlan P batch n S bs g \<and> wideEnough P S bs g w n \<and>
     described n bs g w (oaTasks S) \<and> ownTasks n (oaTasks S)"

definition inPlaceInv ::
  "('k::linorder, 'v) tparams \<Rightarrow> 'k \<Rightarrow> 'v list \<Rightarrow> nat \<Rightarrow> ('k, 'v) oaSds \<Rightarrow> (nat \<Rightarrow> nat) \<Rightarrow> (nat \<Rightarrow> nat) \<Rightarrow> (nat \<Rightarrow> int) \<Rightarrow> nat set \<Rightarrow> ('k, 'v) oaSds \<Rightarrow> bool" where
  "inPlaceInv P Z batch n S bs g w D S' \<longleftrightarrow> runSetting P Z batch n S bs g w \<and> (\<forall>t<n. w t \<le> int (bs (Suc t)) - int (bs t)) \<and>
     (\<exists>ps m. S' = S\<lparr>oaPma := ps, sizeManager := m\<rparr> \<and> length ps = length (oaPma S) \<and>
        (\<forall>j. j < bs 0 \<or> nat (oaSize S) \<le> j \<or> (\<exists>t<n. t \<notin> D \<and> bs t \<le> j \<and> j < bs (Suc t)) \<longrightarrow> ps ! j = oaPma S ! j)) \<and>
     wfOaSized P S' \<and> (\<forall>t<n. set (spanOf S' bs t) \<subseteq> set (spanOf S bs t) \<union> set (partOf batch g t)) \<and>
     set (oaContent S') = gained (keyOfValue P) batch g D (oaContent S)"

lemma inPlaceInvD:
  assumes "inPlaceInv P Z batch n S bs g w D S'"
  shows "wfOaSized P S" "oaInput P Z batch S" "taskPlan P batch n S bs g" "wideEnough P S bs g w n" "described n bs g w (oaTasks S)" "ownTasks n (oaTasks S)"
    "\<And>t. t < n \<Longrightarrow> w t \<le> int (bs (Suc t)) - int (bs t)" "wfOaSized P S'" "\<And>t. t < n \<Longrightarrow> set (spanOf S' bs t) \<subseteq> set (spanOf S bs t) \<union> set (partOf batch g t)"
    "set (oaContent S') = gained (keyOfValue P) batch g D (oaContent S)" "oaSize S' = oaSize S" "length (oaPma S') = length (oaPma S)" "oaTasks S' = oaTasks S"
    "\<And>j. j < bs 0 \<Longrightarrow> oaPma S' ! j = oaPma S ! j" "\<And>t j. t < n \<Longrightarrow> t \<notin> D \<Longrightarrow> bs t \<le> j \<Longrightarrow> j < bs (Suc t) \<Longrightarrow> oaPma S' ! j = oaPma S ! j"
  using assms unfolding inPlaceInv_def runSetting_def by auto

text \<open>An element of the array in front of a task, or behind it, was there or belongs to another task.\<close>

lemma inPlace_before:
  assumes inv: "inPlaceInv P Z batch n S bs g w D S'"
  shows "t \<le> n \<Longrightarrow> x \<in> set (entriesElems (slice (oaPma S') 0 (bs t))) \<Longrightarrow>
     x \<in> set (entriesElems (slice (oaPma S) 0 (bs t))) \<or> (\<exists>s<t. x \<in> set (partOf batch g s))"
proof (induction t)
  case 0
  have "slice (oaPma S') 0 (bs 0) = slice (oaPma S) 0 (bs 0)" using inPlaceInvD [OF inv] by (intro slice_eqI) auto
  then show ?case using 0 by simp
next
  case (Suc t)
  have le: "bs t \<le> bs (Suc t)" using plan_blocks(1) [OF inPlaceInvD(3) [OF inv]] Suc.prems(1) by simp
  have "x \<in> set (entriesElems (slice (oaPma S') 0 (bs t))) \<or> x \<in> set (spanOf S' bs t)"
    using Suc.prems(2) elems_slice_split [of 0 "bs t" "bs (Suc t)" "oaPma S'"] le by (auto simp: spanOf_def)
  then have "x \<in> set (entriesElems (slice (oaPma S) 0 (bs t))) \<or> x \<in> set (spanOf S bs t) \<or> (\<exists>s<Suc t. x \<in> set (partOf batch g s))"
    using Suc.IH Suc.prems(1) inPlaceInvD(9) [OF inv, of t] by (auto intro: less_SucI)
  then show ?case using elems_slice_split [of 0 "bs t" "bs (Suc t)" "oaPma S"] le by (auto simp: spanOf_def)
qed

lemma inPlace_behind:
  assumes inv: "inPlaceInv P Z batch n S bs g w D S'"
  shows "t \<le> n \<Longrightarrow> x \<in> set (entriesElems (slice (oaPma S') (bs t) (nat (oaSize S)))) \<Longrightarrow>
     x \<in> set (entriesElems (slice (oaPma S) (bs t) (nat (oaSize S)))) \<or> (\<exists>s\<ge>t. s < n \<and> x \<in> set (partOf batch g s))"
proof (induction rule: inc_induct)
  case base
  then show ?case using inPlaceInvD(3) [OF inv] by (simp add: taskPlan_def)
next
  case (step t)
  have le: "bs t \<le> bs (Suc t)" "bs (Suc t) \<le> nat (oaSize S)" using plan_blocks(1,3) [OF inPlaceInvD(3) [OF inv]] step.hyps by auto
  have "x \<in> set (spanOf S' bs t) \<or> x \<in> set (entriesElems (slice (oaPma S') (bs (Suc t)) (nat (oaSize S))))"
    using step.prems elems_slice_split [OF le, of "oaPma S'"] by (auto simp: spanOf_def)
  then have "x \<in> set (spanOf S bs t) \<or> x \<in> set (entriesElems (slice (oaPma S) (bs (Suc t)) (nat (oaSize S)))) \<or> (\<exists>s\<ge>t. s < n \<and> x \<in> set (partOf batch g s))"
    using step.IH step.hyps inPlaceInvD(9) [OF inv, of t] by (auto dest: Suc_leD)
  then show ?case using elems_slice_split [OF le, of "oaPma S"] by (auto simp: spanOf_def)
qed

lemma span_unchanged:
  assumes inv: "inPlaceInv P Z batch n S bs g w D S'" and t: "t < n" "t \<notin> D"
  shows "spanOf S' bs t = spanOf S bs t"
proof -
  have "slice (oaPma S') (bs t) (bs (Suc t)) = slice (oaPma S) (bs t) (bs (Suc t))"
    using inPlaceInvD(12,15) [OF inv] t by (intro slice_eqI) auto
  then show ?thesis by (simp add: spanOf_def)
qed

lemma inPlace_placeSetting:
  assumes inv: "inPlaceInv P Z batch n S bs g w D S'" and t: "t < n" "t \<notin> D"
  shows "placeSetting P Z S' batch (g t) (g (Suc t)) (bs t) (bs (Suc t))"
proof -
  note d = inPlaceInvD [OF inv] and i = oaInputD [OF inPlaceInvD(2) [OF inv]]
  have wd: "w t \<le> int (bs (Suc t)) - int (bs t)" "1 \<le> w t" "int ((length (spanOf S bs t) + (g (Suc t) - g t)) div MinSize P) \<le> w t"
    using d(4,7) t(1) by (auto simp: wideEnough_def)
  have lt: "bs t < bs (Suc t)" using wd by linarith
  have le: "bs (Suc t) \<le> nat (oaSize S)" using plan_blocks(3) [OF d(3)] t(1) by simp
  have "oaContent S \<noteq> []" using d(3) lt le t(1) by (auto simp: taskPlan_def split: if_splits)
  then have ne: "oaPma S' ! bs t \<noteq> emptyEntry P" using d(3) d(15) [OF t] lt t(1) by (auto simp: taskPlan_def)
  have gt: "g t \<le> g (Suc t)" "g (Suc t) \<le> length batch" using plan_blocks(4,5) [OF d(3)] t(1) by auto
  have Z: "Z \<notin> keyOfValue P ` (set batch \<union> set (oaContent S'))" using i(6) d(10) gained_sub [of "keyOfValue P" batch g D "oaContent S"] by auto
  have room: "(length (entriesElems (slice (oaPma S') (bs t) (bs (Suc t)))) + (g (Suc t) - g t)) div MinSize P \<le> bs (Suc t) - bs t"
  proof -
    have "int ((length (spanOf S' bs t) + (g (Suc t) - g t)) div MinSize P) \<le> int (bs (Suc t)) - int (bs t)"
      using wd(1,3) unfolding span_unchanged [OF inv t] by linarith
    then have "(length (spanOf S' bs t) + (g (Suc t) - g t)) div MinSize P \<le> bs (Suc t) - bs t" by linarith
    then show ?thesis by (simp only: spanOf_def)
  qed
  have pl: "\<forall>x\<in>set (entriesElems (slice (oaPma S) 0 (bs t))). keyOfValue P x < keyOfValue P v"
     "\<forall>x\<in>set (entriesElems (slice (oaPma S) (bs (Suc t)) (nat (oaSize S)))). keyOfValue P v < keyOfValue P x" if "v \<in> set (partOf batch g t)" for v
    using d(3) t(1) that unfolding taskPlan_def partOf_def by blast+
  have below: "keyOfValue P x < keyOfValue P v" if "v \<in> set (partOf batch g t)" "x \<in> set (entriesElems (slice (oaPma S') 0 (bs t)))" for v x
    using inPlace_before [OF inv _ that(2)] pl(1) [OF that(1)] part_order [OF d(3) i(4) _ t(1) _ that(1)] t(1) by auto
  have above: "keyOfValue P v < keyOfValue P x"
    if "v \<in> set (partOf batch g t)" "x \<in> set (entriesElems (slice (oaPma S') (bs (Suc t)) (nat (oaSize S))))" for v x
    using inPlace_behind [OF inv _ that(2)] pl(2) [OF that(1)] part_order [OF d(3) i(4) _ _ that(1)] t(1) by (auto simp: Suc_le_eq)
  show ?thesis unfolding placeSetting_def using i d(8,11) lt le ne gt Z room below above by (simp add: partOf_def)
qed

text \<open>One task: entries of other tasks are left alone.\<close>

lemma inPlace_task:
  assumes inv: "inPlaceInv P Z batch n S bs g w D S'" and t: "t < n" "t \<notin> D"
  shows "\<exists>S''. startTaskInPlace P Z batch t S' = Some S'' \<and> inPlaceInv P Z batch n S bs g w (insert t D) S''"
proof -
  note d = inPlaceInvD [OF inv] and i = oaInputD [OF inPlaceInvD(2) [OF inv]]
  obtain bi S'' where r: "insertBatchRangeInPlace P Z batch (mkInterval (int (g t)) (int (g (Suc t)))) (mkInterval (int (bs t)) (int (bs (Suc t)))) S' = Some S''"
     and p: "placeInv P S' batch (g t) (g (Suc t)) (bs t) (bs (Suc t)) (g (Suc t)) bi S''"
    using insertBatchRangeInPlace_ok [OF inPlace_placeSetting [OF inv t]] by blast
  obtain ps m where S'': "S'' = S'\<lparr>oaPma := ps, sizeManager := m\<rparr>" "length ps = length (oaPma S')" "\<And>k. k < bs t \<or> bs (Suc t) \<le> k \<Longrightarrow> ps ! k = oaPma S' ! k"
    using p unfolding placeInv_def by blast
  have wf: "wfOaSized P S''" and cont: "oaContent S'' = fold (insKey (keyOfValue P)) (partOf batch g t) (oaContent S')"
     and own: "spanOf S'' bs t = fold (insKey (keyOfValue P)) (partOf batch g t) (spanOf S' bs t)"
    using p by (simp_all add: placeInv_def partOf_def spanOf_def)
  have gt: "g t < g (Suc t)" using d(3) t(1) by (simp add: taskPlan_def)
  have "startTaskInPlace P Z batch t S' = Some S''"
    using r gt t(1) d(5,6,13) by (simp add: startTaskInPlace_def task_ops described_def ownTasks_def intervalLength_def)
  moreover have "set (spanOf S'' bs s) \<subseteq> set (spanOf S bs s) \<union> set (partOf batch g s)" if s: "s < n" for s
  proof (cases "s = t")
    case True
    have "set (spanOf S'' bs t) \<subseteq> set (spanOf S' bs t) \<union> set (partOf batch g t)"
      unfolding own by (rule set_fold_insKey_sub)
    then show ?thesis using d(9) [OF s] True by auto
  next
    case False
    have "bs (Suc s) \<le> bs t \<or> bs (Suc t) \<le> bs s"
      using plan_blocks(2) [OF d(3), of "Suc s" t] plan_blocks(2) [OF d(3), of "Suc t" s] False s t(1) by (cases "s < t") auto
    then have "slice (oaPma S'') (bs s) (bs (Suc s)) = slice (oaPma S') (bs s) (bs (Suc s))"
      using S'' by (intro slice_eqI) auto
    then show ?thesis using d(9) [OF s] by (simp add: spanOf_def)
  qed
  moreover have "set (oaContent S'') = gained (keyOfValue P) batch g (insert t D) (oaContent S)"
    unfolding cont using gained_insert [OF i(4) wfOaSizedD(3) [OF d(8)] d(10)] .
  moreover have "\<exists>ps m. S'' = S\<lparr>oaPma := ps, sizeManager := m\<rparr> \<and> length ps = length (oaPma S) \<and>
        (\<forall>j. j < bs 0 \<or> nat (oaSize S) \<le> j \<or> (\<exists>u<n. u \<notin> insert t D \<and> bs u \<le> j \<and> j < bs (Suc u)) \<longrightarrow> ps ! j = oaPma S ! j)"
  proof -
    have out: "j < bs t \<or> bs (Suc t) \<le> j" if "j < bs 0 \<or> nat (oaSize S) \<le> j \<or> (\<exists>u<n. u \<notin> insert t D \<and> bs u \<le> j \<and> j < bs (Suc u))" for j
    proof -
      have b: "bs 0 \<le> bs t" "bs (Suc t) \<le> nat (oaSize S)" using plan_blocks(2) [OF d(3), of 0 t] plan_blocks(3) [OF d(3), of "Suc t"] t(1) by auto
      have "j < bs t \<or> bs (Suc t) \<le> j" if u: "u < n" "u \<noteq> t" "bs u \<le> j" "j < bs (Suc u)" for u
        using plan_blocks(2) [OF d(3), of "Suc u" t] plan_blocks(2) [OF d(3), of "Suc t" u] u t(1) by (cases "u < t") auto
      then show ?thesis using that b by auto
    qed
    obtain ps' m' where S': "S' = S\<lparr>oaPma := ps', sizeManager := m'\<rparr>" "length ps' = length (oaPma S)"
       "\<And>j. j < bs 0 \<or> nat (oaSize S) \<le> j \<or> (\<exists>u<n. u \<notin> D \<and> bs u \<le> j \<and> j < bs (Suc u)) \<Longrightarrow> ps' ! j = oaPma S ! j"
      using inv unfolding inPlaceInv_def by blast
    have "ps ! j = oaPma S ! j" if j: "j < bs 0 \<or> nat (oaSize S) \<le> j \<or> (\<exists>u<n. u \<notin> insert t D \<and> bs u \<le> j \<and> j < bs (Suc u))" for j
    proof -
      have "ps ! j = ps' ! j" using S''(3) [OF out [OF j]] S'(1) by simp
      moreover have "ps' ! j = oaPma S ! j" by (rule S'(3)) (use j in blast)
      ultimately show ?thesis by simp
    qed
    then show ?thesis using S''(1,2) S'(1,2) by (intro exI [of _ ps] exI [of _ m]) simp
  qed
  ultimately show ?thesis using inv wf unfolding inPlaceInv_def by auto
qed

interpretation inPlace: task_region n "startTaskInPlace P Z batch" "inPlaceInv P Z batch n S bs g w" for P Z batch n S bs g w
  by unfold_locales (rule inPlace_task)

lemma inPlace_all:
  assumes set: "runSetting P Z batch n S bs g w" "\<forall>t<n. w t \<le> int (bs (Suc t)) - int (bs t)" and W: "distinct xs" "set xs = {0..<n}"
  shows "\<exists>ps m. foldM (startTaskInPlace P Z batch) xs S = Some (S\<lparr>oaPma := ps, sizeManager := m\<rparr>) \<and>
     wfOaSized P (S\<lparr>oaPma := ps, sizeManager := m\<rparr>) \<and>
     oaContent (S\<lparr>oaPma := ps, sizeManager := m\<rparr>) = fold (insKey (keyOfValue P)) batch (oaContent S)"
proof -
  have "inPlaceInv P Z batch n S bs g w {} S"
    unfolding inPlaceInv_def using set by (intro conjI exI [of _ "oaPma S"] exI [of _ "sizeManager S"]) (auto simp: runSetting_def)
  then obtain S' where S': "foldM (startTaskInPlace P Z batch) xs S = Some S'" "inPlaceInv P Z batch n S bs g w {0..<n} S'"
    using inPlace.all_done [OF _ W] by blast
  note d = inPlaceInvD [OF S'(2)]
  have "oaContent S' = fold (insKey (keyOfValue P)) batch (oaContent S)"
    using gained_all [OF d(3) oaInputD(4) [OF d(2)] wfOaSizedD(3) [OF d(1)] wfOaSizedD(3) [OF d(8)] d(10)] .
  moreover obtain ps m where "S' = S\<lparr>oaPma := ps, sizeManager := m\<rparr>" using S'(2) unfolding inPlaceInv_def by blast
  ultimately show ?thesis using S'(1) d(8) by blast
qed

lemma okStored_okEntry: "wfParams P \<Longrightarrow> okStored P K b \<Longrightarrow> okEntry P b"
  using okSized_okEntry [of P b] by (auto simp: okStored_def okEntry_def)

lemma moved_width:
  assumes "wfParams P" "batch \<noteq> []" "entriesElems ws = fold (insKey (keyOfValue P)) batch E" "\<And>w. w \<in> set ws \<Longrightarrow> okSized P w"
    and "(length E + length batch) div MinSize P \<le> wd"
  shows "length ws \<le> wd" "ws \<noteq> []"
proof -
  have m: "0 < MinSize P" using assms(1) by (simp add: wfParams_def)
  have "length ws * MinSize P \<le> length (entriesElems ws)" using assms(4) by (rule sum_sizes)
  also have "\<dots> \<le> length E + length batch" unfolding assms(3) by (rule length_fold_insKey(1))
  finally have "length ws \<le> (length E + length batch) div MinSize P" using m by (simp add: less_eq_div_iff_mult_less_eq)
  then show "length ws \<le> wd" using assms(5) by simp
  have "keyOfValue P (hd batch) \<in> keyOfValue P ` set (entriesElems ws)" unfolding assms(3) keys_fold_insKey using assms(2) by auto
  then show "ws \<noteq> []" by auto
qed

section \<open>The swap array\<close>

text \<open>The output ranges: task \<open>t\<close> writes from \<open>os t\<close> on.\<close>

definition outRanges :: "nat \<Rightarrow> (nat \<Rightarrow> nat) \<Rightarrow> (nat \<Rightarrow> int) \<Rightarrow> (nat \<Rightarrow> nat) \<Rightarrow> int \<Rightarrow> bool" where
  "outRanges n bs w os c \<longleftrightarrow> os 0 = bs 0 \<and> (\<forall>t<n. int (os t) + w t \<le> int (os (Suc t)) \<and> 1 \<le> w t) \<and> int (os n) < c"

lemma outRangesD:
  assumes "outRanges n bs w os c"
  shows "os 0 = bs 0" "\<And>t. t < n \<Longrightarrow> int (os t) + w t \<le> int (os (Suc t))" "\<And>s t. s \<le> t \<Longrightarrow> t \<le> n \<Longrightarrow> os s \<le> os t" "\<And>t. t \<le> n \<Longrightarrow> bs 0 \<le> os t"
    "\<And>t. t \<le> n \<Longrightarrow> os t < nat c"
proof -
  show z: "os 0 = bs 0" and st: "\<And>t. t < n \<Longrightarrow> int (os t) + w t \<le> int (os (Suc t))" using assms by (auto simp: outRanges_def)
  show mono: "os s \<le> os t" if "s \<le> t" "t \<le> n" for s t
    using that
  proof (induction t)
    case (Suc t)
    then have "int (os t) + w t \<le> int (os (Suc t))" "1 \<le> w t" using assms by (auto simp: outRanges_def)
    then have "os t \<le> os (Suc t)" by linarith
    then show ?case using Suc by (cases "s = Suc t") auto
  qed simp
  show "bs 0 \<le> os t" if "t \<le> n" for t using mono [of 0 t] that z by simp
  have "int (os n) < c" using assms by (simp add: outRanges_def)
  then show "os t < nat c" if "t \<le> n" for t using mono [OF that order_refl] by linarith
qed

text \<open>What the swap array holds: the blocks \<open>ws t\<close> of the tasks \<open>t \<in> D\<close>, and with those of the first task the blocks in front of it.\<close>

definition swapHolds ::
  "('k, 'v) tparams \<Rightarrow> ('k, 'v) oaSds \<Rightarrow> nat \<Rightarrow> (nat \<Rightarrow> nat) \<Rightarrow> (nat \<Rightarrow> ('k, 'v) PmaEntry list) \<Rightarrow> int \<Rightarrow> nat set \<Rightarrow> ('k, 'v) PmaEntry list \<Rightarrow> bool" where
  "swapHolds P S L os ws c D sw \<longleftrightarrow> length sw = nat c \<and> (0 \<in> D \<longrightarrow> (\<forall>j<L. sw ! j = oaPma S ! j)) \<and>
     (\<forall>t\<in>D. \<forall>i<length (ws t). sw ! (os t + i) = ws t ! i) \<and>
     (\<forall>j<nat c. \<not> (0 \<in> D \<and> j < L) \<and> (\<forall>t\<in>D. \<not> (os t \<le> j \<and> j < os t + length (ws t))) \<longrightarrow> sw ! j = emptyEntry P)"

lemma swapHolds_none: "swapHolds P S L os ws c {} sw \<longleftrightarrow> sw = makeEntries P c"
  by (auto simp: swapHolds_def makeEntries_def list_eq_iff_nth_eq)

definition rangesFit :: "nat \<Rightarrow> (nat \<Rightarrow> nat) \<Rightarrow> (nat \<Rightarrow> ('k, 'v) PmaEntry list) \<Rightarrow> nat set \<Rightarrow> bool" where
  "rangesFit n os ws D \<longleftrightarrow> D \<subseteq> {0..<n} \<and> (\<forall>t\<in>D. os t + length (ws t) \<le> os (Suc t))"

lemma ranges_disjoint:
  assumes r: "outRanges n bs w os c" and t: "s < n" "t < n" "s \<noteq> t" and j: "os t \<le> j" "j < os (Suc t)"
  shows "\<not> (os s \<le> j \<and> j < os (Suc s))"
  using outRangesD(3) [OF r, of "Suc s" t] outRangesD(3) [OF r, of "Suc t" s] t j by (cases "s < t") auto

lemma swapHolds_free:
  assumes r: "outRanges n bs w os c" and sw: "swapHolds P S (bs 0) os ws c D sw" "rangesFit n os ws D" and t: "t < n" "t \<notin> D" and j: "os t \<le> j" "j < os (Suc t)"
  shows "sw ! j = emptyEntry P"
proof -
  have "\<not> (os s \<le> j \<and> j < os s + length (ws s))" if s: "s \<in> D" for s
  proof -
    have "s < n" "s \<noteq> t" "os s + length (ws s) \<le> os (Suc s)" using sw(2) s t by (auto simp: rangesFit_def)
    then show ?thesis using ranges_disjoint [OF r _ t(1) _ j, of s] by auto
  qed
  moreover have "bs 0 \<le> os t" "os (Suc t) < nat c" using outRangesD(4,5) [OF r] t(1) by auto
  ultimately have "j < nat c" "\<not> (0 \<in> D \<and> j < bs 0) \<and> (\<forall>s\<in>D. \<not> (os s \<le> j \<and> j < os s + length (ws s)))" using j by auto
  then show ?thesis using sw(1) unfolding swapHolds_def by blast
qed

lemma swapHolds_prefix_free:
  assumes r: "outRanges n bs w os c" and sw: "swapHolds P S (bs 0) os ws c D sw" "rangesFit n os ws D" "0 \<notin> D" and j: "j < bs 0" "0 < n"
  shows "sw ! j = emptyEntry P"
proof -
  have "bs 0 \<le> os s" if "s \<in> D" for s using outRangesD(4) [OF r, of s] sw(2) that by (auto simp: rangesFit_def)
  then have "\<forall>s\<in>D. \<not> (os s \<le> j \<and> j < os s + length (ws s))" using j(1) by fastforce
  moreover have "j < nat c" using outRangesD(4,5) [OF r, of 0] j by auto
  ultimately show ?thesis using sw(1,3) unfolding swapHolds_def by blast
qed

text \<open>A task adds its blocks, and later takes them away.\<close>

lemma swapHolds_add:
  assumes r: "outRanges n bs w os c" and sw: "swapHolds P S (bs 0) os ws c D sw" "rangesFit n os ws D" and t: "t < n" "t \<notin> D"
    and b: "os t + length bl \<le> os (Suc t)" and pre: "sw' = (if t = 0 then copied (bs 0) ps sw else sw)" "bs 0 \<le> length ps" "\<And>j. t = 0 \<Longrightarrow> j < bs 0 \<Longrightarrow> ps ! j = oaPma S ! j"
  shows "swapHolds P S (bs 0) os (ws(t := bl)) c (insert t D) (writeAt (os t) bl sw')" "rangesFit n os (ws(t := bl)) (insert t D)"
proof -
  let ?sw = "writeAt (os t) bl sw'"
  note o = outRangesD [OF r]
  have len: "length sw = nat c" using sw(1) by (simp add: swapHolds_def)
  have c: "os (Suc t) < nat c" "bs 0 \<le> os t" "bs 0 < nat c" using o(5) [of "Suc t"] o(4) [of t] o(5) [of 0] o(1) t(1) by auto
  have len': "length sw' = nat c" using pre(1,2) len c by simp
  have fit: "os t + length bl \<le> length sw'" using b c len' by simp
  have nth: "?sw ! j = (if os t \<le> j \<and> j < os t + length bl then bl ! (j - os t) else if t = 0 \<and> j < bs 0 then oaPma S ! j else sw ! j)" if "j < nat c" for j
    using writeAt_nth [OF fit, of j] that pre c len len' by auto
  have D: "s < n" "s \<noteq> t" "os s + length (ws s) \<le> os (Suc s)" "os (Suc s) < nat c" "bs 0 \<le> os s" if "s \<in> D" for s
    using sw(2) that t(2) o(5) [of "Suc s"] o(4) [of s] by (auto simp: rangesFit_def)
  show "rangesFit n os (ws(t := bl)) (insert t D)" using sw(2) t b by (auto simp: rangesFit_def)
  show "swapHolds P S (bs 0) os (ws(t := bl)) c (insert t D) ?sw"
    unfolding swapHolds_def
  proof (intro conjI ballI allI impI)
    show "length ?sw = nat c" using fit len' by simp
    show "?sw ! j = oaPma S ! j" if "0 \<in> insert t D" "j < bs 0" for j
      using that sw(1) nth [of j] c by (auto simp: swapHolds_def)
    show "?sw ! (os s + i) = (ws(t := bl)) s ! i" if s: "s \<in> insert t D" "i < length ((ws(t := bl)) s)" for s i
    proof (cases "s = t")
      case True
      then show ?thesis using nth [of "os t + i"] s(2) fit len' by simp
    next
      case False
      then have sD: "s \<in> D" using s(1) by simp
      note d = D [OF sD]
      have i: "os s + i < os (Suc s)" using s(2) d(3) False by simp
      have "\<not> (os t \<le> os s + i \<and> os s + i < os (Suc t))" using ranges_disjoint [OF r t(1) d(1), of "os s + i"] i False by auto
      then have "\<not> (os t \<le> os s + i \<and> os s + i < os t + length bl)" using b by auto
      then show ?thesis using nth [of "os s + i"] i d(4,5) sw(1) sD s(2) False by (auto simp: swapHolds_def)
    qed
    fix j assume j: "j < nat c" "\<not> (0 \<in> insert t D \<and> j < bs 0) \<and> (\<forall>s\<in>insert t D. \<not> (os s \<le> j \<and> j < os s + length ((ws(t := bl)) s)))"
    have "\<not> (os s \<le> j \<and> j < os s + length (ws s))" if "s \<in> D" for s using j(2) that t(2) by (cases "s = t") (auto dest!: bspec [of _ _ s])
    then show "?sw ! j = emptyEntry P" using nth [OF j(1)] j sw(1) by (auto simp: swapHolds_def)
  qed
qed

lemma swapHolds_remove:
  assumes r: "outRanges n bs w os c" and sw: "swapHolds P S (bs 0) os ws c D sw" "rangesFit n os ws D" and t: "t \<in> D"
    and pre: "sw' = (if t = 0 then emptied P (bs 0) sw else sw)"
  shows "swapHolds P S (bs 0) os ws c (D - {t}) (writeAt (os t) (replicate (length (ws t)) (emptyEntry P)) sw')" "rangesFit n os ws (D - {t})"
proof -
  let ?sw = "writeAt (os t) (replicate (length (ws t)) (emptyEntry P)) sw'"
  note o = outRangesD [OF r]
  have len: "length sw = nat c" using sw(1) by (simp add: swapHolds_def)
  have D: "s < n" "os s + length (ws s) \<le> os (Suc s)" "os (Suc s) < nat c" "bs 0 \<le> os s" if "s \<in> D" for s
    using sw(2) that o(5) [of "Suc s"] o(4) [of s] by (auto simp: rangesFit_def)
  have c: "bs 0 < nat c" using o(5) [of 0] o(1) by simp
  have len': "length sw' = nat c" using pre len c by simp
  have fit: "os t + length (replicate (length (ws t)) (emptyEntry P)) \<le> length sw'" using D [OF t] len' by simp
  have nth: "?sw ! j = (if os t \<le> j \<and> j < os t + length (ws t) then emptyEntry P else if t = 0 \<and> j < bs 0 then emptyEntry P else sw ! j)" if "j < nat c" for j
    using writeAt_nth [OF fit, of j] that pre c len len' by auto
  show "rangesFit n os ws (D - {t})" using sw(2) by (auto simp: rangesFit_def)
  show "swapHolds P S (bs 0) os ws c (D - {t}) ?sw"
    unfolding swapHolds_def
  proof (intro conjI ballI allI impI)
    show "length ?sw = nat c" using fit len' by simp
    show "?sw ! j = oaPma S ! j" if "0 \<in> D - {t}" "j < bs 0" for j
      using that sw(1) nth [of j] c D(4) [OF t] by (auto simp: swapHolds_def)
    show "?sw ! (os s + i) = ws s ! i" if s: "s \<in> D - {t}" "i < length (ws s)" for s i
    proof -
      have sD: "s \<in> D" "s \<noteq> t" using s(1) by auto
      note d = D [OF sD(1)]
      have i: "os s + i < os (Suc s)" using s(2) d(2) by simp
      have "\<not> (os t \<le> os s + i \<and> os s + i < os (Suc t))" using ranges_disjoint [OF r D(1) [OF t] d(1), of "os s + i"] i sD by auto
      then have "\<not> (os t \<le> os s + i \<and> os s + i < os t + length (ws t))" using D(2) [OF t] by auto
      then show ?thesis using nth [of "os s + i"] i d(3,4) sw(1) sD s(2) by (auto simp: swapHolds_def)
    qed
    fix j assume j: "j < nat c" "\<not> (0 \<in> D - {t} \<and> j < bs 0) \<and> (\<forall>s\<in>D - {t}. \<not> (os s \<le> j \<and> j < os s + length (ws s)))"
    show "?sw ! j = emptyEntry P"
    proof (cases "os t \<le> j \<and> j < os t + length (ws t) \<or> t = 0 \<and> j < bs 0")
      case False
      then have "sw ! j = emptyEntry P" using sw(1) j t unfolding swapHolds_def by (cases "t = 0") auto
      then show ?thesis using nth [OF j(1)] by simp
    qed (use nth [OF j(1)] in auto)
  qed
qed

section \<open>Tasks out of place\<close>

lemma runSettingD:
  assumes "runSetting P Z batch n S bs g w"
  shows "wfOaSized P S" "oaInput P Z batch S" "taskPlan P batch n S bs g" "wideEnough P S bs g w n" "described n bs g w (oaTasks S)" "ownTasks n (oaTasks S)"
  using assms by (simp_all add: runSetting_def)

lemma plan_order:
  assumes "taskPlan P batch n S bs g" "t < n" "v \<in> set (partOf batch g t)"
  shows "x \<in> set (entriesElems (slice (oaPma S) 0 (bs t))) \<Longrightarrow> keyOfValue P x < keyOfValue P v"
    "x \<in> set (entriesElems (slice (oaPma S) (bs (Suc t)) (nat (oaSize S)))) \<Longrightarrow> keyOfValue P v < keyOfValue P x"
  using assms unfolding taskPlan_def partOf_def by blast+

lemma task_keys:
  assumes plan: "taskPlan P batch n S bs g" and t: "t < n" and v: "v \<in> set (partOf batch g t)" "keyOfValue P v \<in> keyOfValue P ` set (oaContent S)"
  shows "keyOfValue P v \<in> keyOfValue P ` set (spanOf S bs t)"
proof -
  obtain x where x: "x \<in> set (oaContent S)" "keyOfValue P v = keyOfValue P x" using v(2) by auto
  have le: "bs t \<le> bs (Suc t)" "bs (Suc t) \<le> nat (oaSize S)" using plan_blocks(1,3) [OF plan] t by auto
  have "oaContent S = entriesElems (slice (oaPma S) 0 (bs t)) @ spanOf S bs t @ entriesElems (slice (oaPma S) (bs (Suc t)) (nat (oaSize S)))"
    using elems_slice_split [of 0 "bs t" "nat (oaSize S)" "oaPma S"] elems_slice_split [OF le, of "oaPma S"] le by (simp add: oaUsed_slice spanOf_def)
  then consider "x \<in> set (spanOf S bs t)" | "x \<in> set (entriesElems (slice (oaPma S) 0 (bs t)))" | "x \<in> set (entriesElems (slice (oaPma S) (bs (Suc t)) (nat (oaSize S))))"
    using x(1) by auto
  then show ?thesis
  proof cases
    case 1
    then show ?thesis using x(2) by auto
  next
    case 2
    then have "keyOfValue P x < keyOfValue P v" using plan_order(1) [OF plan t v(1)] by blast
    then show ?thesis using x(2) by simp
  next
    case 3
    then have "keyOfValue P v < keyOfValue P x" using plan_order(2) [OF plan t v(1)] by blast
    then show ?thesis using x(2) by simp
  qed
qed

lemma next_head:
  assumes wf: "wfOaSized P S" "wfParams P" and plan: "taskPlan P batch n S bs g" and t: "Suc t < n" and v: "v \<in> set (partOf batch g t)" and ne: "oaContent S \<noteq> []"
  shows "keyOfValue P v < head (oaPma S ! bs (Suc t))"
proof -
  let ?M = "bs (Suc t)"
  note d = wfOaSizedD [OF wf(1)]
  have M: "?M < bs (Suc (Suc t))" "oaPma S ! ?M \<noteq> emptyEntry P" "bs (Suc (Suc t)) \<le> nat (oaSize S)" using plan t ne plan_blocks(3) [OF plan, of "Suc (Suc t)"] by (auto simp: taskPlan_def)
  then have Mn: "?M < nat (oaSize S)" by simp
  note h = okSized_head [OF wf(2) d(6) [OF Mn M(2)]]
  have "entriesElems (slice (oaPma S) ?M (nat (oaSize S))) = elems (oaPma S ! ?M) @ entriesElems (slice (oaPma S) (Suc ?M) (nat (oaSize S)))"
    using elems_slice_at [of ?M ?M "nat (oaSize S)" "oaPma S"] Mn d(2) by simp
  then have "hd (elems (oaPma S ! ?M)) \<in> set (entriesElems (slice (oaPma S) ?M (nat (oaSize S))))" using h(2) by simp
  then show ?thesis using plan_order(2) [OF plan Suc_lessD [OF t] v] h by simp
qed

text \<open>The situation of a task: its entries are untouched, and its output range is free.\<close>

lemma task_outSetting:
  assumes set: "runSetting P Z batch n S bs g w" and t: "t < n"
    and pm: "\<And>j. bs t \<le> j \<Longrightarrow> j < bs (Suc t) \<Longrightarrow> oaPma S4 ! j = oaPma S ! j" "oaPma S4 ! bs (Suc t) = emptyEntry P \<or> oaPma S4 ! bs (Suc t) = oaPma S ! bs (Suc t)"
      "length (oaPma S4) = length (oaPma S)" "sizesKept (sizeManager S) (sizeManager S4)"
    and free: "swapFree S4 start ((length (spanOf S bs t) + (g (Suc t) - g t)) div MinSize P)"
  shows "outSetting P Z (keyOfValue P ` set (oaContent S)) S4 batch (g t) (g (Suc t)) (bs t) (bs (Suc t)) start \<or>
     bs (Suc t) = bs t \<and> emptySetting P batch (g t) (g (Suc t)) \<and> MaxSize P \<le> 32768 \<and> Z \<notin> keyOfValue P ` set batch \<and>
     swapFree S4 start ((g (Suc t) - g t) div MinSize P)"
proof -
  note s = runSettingD [OF set] and d = wfOaSizedD [OF runSettingD(1) [OF set]] and dd = wfOaD [OF wfOaSizedD(1) [OF runSettingD(1) [OF set]]]
  note i = oaInputD [OF s(2)]
  have le: "bs t \<le> bs (Suc t)" "bs (Suc t) \<le> nat (oaSize S)" "g (Suc t) \<le> length batch" "g t < g (Suc t)"
    using plan_blocks(1,3,5) [OF s(3)] t s(3) by (auto simp: taskPlan_def)
  obtain A B where AB: "oaContent S = A @ spanOf S bs t @ B" using span_content [OF s(1,3) t] by blast
  show ?thesis
  proof (cases "oaContent S = []")
    case True
    then have n1: "n = 1" "t = 0" "bs 0 = nat (oaSize S)" "bs 1 = nat (oaSize S)" "g 0 = 0" "g 1 = length batch" using s(3) t by (auto simp: taskPlan_def)
    moreover have "spanOf S bs t = []" using AB True by simp
    ultimately show ?thesis using free i True s(2) by (auto simp: emptySetting_def oaInput_def)
  next
    case False
    then have LM: "bs t < bs (Suc t)" "oaPma S ! bs t \<noteq> emptyEntry P" using s(3) t by (auto simp: taskPlan_def)
    have Ml: "bs (Suc t) < length (oaPma S)" using le(2) d(2) by simp
    have sl: "entriesElems (slice (oaPma S4) (bs t) (bs (Suc t))) = spanOf S bs t"
      unfolding spanOf_def by (rule arg_cong [where f = entriesElems], rule slice_eqI) (use pm in auto)
    have "oaPma S4 ! bs (Suc t) = emptyEntry P \<or> (\<forall>v\<in>set (slice batch (g t) (g (Suc t))). keyOfValue P v < head (oaPma S4 ! bs (Suc t)))"
    proof (cases "Suc t < n")
      case True
      then show ?thesis using pm(2) next_head [OF s(1) i(1) s(3) True _ False] by (auto simp: partOf_def)
    next
      case False
      then have "bs (Suc t) = nat (oaSize S)" using t s(3) by (simp add: taskPlan_def less_Suc_eq not_less_eq)
      then show ?thesis using pm(2) wfOa_entry(2) [OF d(1) Ml] by simp
    qed
    moreover have "okStored P (keyOfValue P ` set (oaContent S)) (oaPma S4 ! j)" "counted (sizeManager S4) j" if "bs t \<le> j" "j < bs (Suc t)" for j
      using d(5) [of j] pm(1) [OF that] that le(2) counted_kept [OF hInv_counted [OF dd(6), of j] pm(4)] by auto
    moreover have "keyOfValue P v \<in> keyOfValue P ` set (spanOf S bs t)"
      if "v \<in> set (slice batch (g t) (g (Suc t)))" "keyOfValue P v \<in> keyOfValue P ` set (oaContent S)" for v
      using task_keys [OF s(3) t] that by (simp add: partOf_def)
    moreover have "Z \<notin> keyOfValue P ` (set batch \<union> set (spanOf S bs t))" using i(6) AB by auto
    moreover have "strictly_sorted (map (keyOfValue P) (spanOf S bs t))" using d(3) AB by (simp add: sorted_wrt_append)
    ultimately have "outSetting P Z (keyOfValue P ` set (oaContent S)) S4 batch (g t) (g (Suc t)) (bs t) (bs (Suc t)) start"
      unfolding outSetting_def sl using i LM le Ml pm(1,3) free by simp
    then show ?thesis ..
  qed
qed

definition outSettingAll ::
  "('k::linorder, 'v) tparams \<Rightarrow> 'k \<Rightarrow> 'v list \<Rightarrow> nat \<Rightarrow> ('k, 'v) oaSds \<Rightarrow> (nat \<Rightarrow> nat) \<Rightarrow> (nat \<Rightarrow> nat) \<Rightarrow> (nat \<Rightarrow> int) \<Rightarrow> (nat \<Rightarrow> nat) \<Rightarrow> int \<Rightarrow> bool" where
  "outSettingAll P Z batch n S bs g w os c \<longleftrightarrow> runSetting P Z batch n S bs g w \<and> outRanges n bs w os c \<and> (\<forall>t\<le>n. startIndex (oaTasks S ! t) = int (os t))"

text \<open>The blocks \<open>bl\<close> that task \<open>t\<close> writes.\<close>

definition movedTo :: "('k::linorder, 'v) tparams \<Rightarrow> 'v list \<Rightarrow> ('k, 'v) oaSds \<Rightarrow> (nat \<Rightarrow> nat) \<Rightarrow> (nat \<Rightarrow> nat) \<Rightarrow> nat \<Rightarrow> ('k, 'v) PmaEntry list \<Rightarrow> bool" where
  "movedTo P batch S bs g t bl \<longleftrightarrow> entriesElems bl = fold (insKey (keyOfValue P)) (partOf batch g t) (spanOf S bs t) \<and>
     (\<forall>b\<in>set bl. okSized P b \<and> okStored P (keyOfValue P ` set (oaContent S) \<union> keyOfValue P ` set (entriesElems bl)) b)"

definition movedAway :: "(nat \<Rightarrow> nat) \<Rightarrow> nat set \<Rightarrow> nat \<Rightarrow> bool" where
  "movedAway bs D j \<longleftrightarrow> 0 \<in> D \<and> j < bs 0 \<or> (\<exists>t\<in>D. bs t \<le> j \<and> j < bs (Suc t))"

definition written :: "TaskInfo list \<Rightarrow> (nat \<Rightarrow> 'b list) \<Rightarrow> nat set \<Rightarrow> TaskInfo list \<Rightarrow> bool" where
  "written ts0 ws D ts \<longleftrightarrow> length ts = length ts0 \<and>
     (\<forall>t<length ts. ts ! t = (if t \<in> D then (ts0 ! t)\<lparr>numberOfBlocksWritten := int (length (ws t))\<rparr> else ts0 ! t))"

definition outTasksInv ::
  "('k::linorder, 'v) tparams \<Rightarrow> 'k \<Rightarrow> 'v list \<Rightarrow> nat \<Rightarrow> ('k, 'v) oaSds \<Rightarrow> (nat \<Rightarrow> nat) \<Rightarrow> (nat \<Rightarrow> nat) \<Rightarrow> (nat \<Rightarrow> int) \<Rightarrow> (nat \<Rightarrow> nat) \<Rightarrow> int \<Rightarrow>
     nat set \<Rightarrow> ('k, 'v) oaSds \<Rightarrow> bool" where
  "outTasksInv P Z batch n S bs g w os c D S' \<longleftrightarrow> outSettingAll P Z batch n S bs g w os c \<and>
     (\<exists>ps sw m ts ws. S' = S\<lparr>oaSwapCapacity := c, oaSize := int (os n), oaPma := ps, oaSwapPma := sw, sizeManager := m, oaTasks := ts\<rparr> \<and>
        sizesKept (sizeManager S) m \<and> length ps = length (oaPma S) \<and>
        (\<forall>j<length ps. ps ! j = (if movedAway bs D j then emptyEntry P else oaPma S ! j)) \<and>
        swapHolds P S (bs 0) os ws c D sw \<and> rangesFit n os ws D \<and> (\<forall>t\<in>D. movedTo P batch S bs g t (ws t)) \<and> written (oaTasks S) ws D ts)"

lemma written_insert:
  assumes "written ts0 ws D ts" "t < length ts" "t \<notin> D"
  shows "written ts0 (ws(t := bl)) (insert t D) (ts[t := (ts ! t)\<lparr>numberOfBlocksWritten := int (length bl)\<rparr>])"
  using assms by (auto simp: written_def nth_list_update)

lemma movedTo_fits:
  assumes set: "runSetting P Z batch n S bs g w" and t: "t < n" and r: "outRanges n bs w os c" and mv: "movedTo P batch S bs g t bl"
  shows "os t + length bl \<le> os (Suc t)" "bl \<noteq> []"
proof -
  note s = runSettingD [OF set]
  have gt: "g t < g (Suc t)" "g (Suc t) \<le> length batch" using s(3) t plan_blocks(5) [OF s(3), of "Suc t"] by (auto simp: taskPlan_def)
  then have lp: "length (partOf batch g t) = g (Suc t) - g t" by (simp add: partOf_def slice_def)
  then have "partOf batch g t \<noteq> []" using gt by auto
  moreover have "int ((length (spanOf S bs t) + (g (Suc t) - g t)) div MinSize P) \<le> w t" using s(4) t by (simp add: wideEnough_def)
  then have "(length (spanOf S bs t) + length (partOf batch g t)) div MinSize P \<le> nat (w t)" unfolding lp by linarith
  ultimately have "length bl \<le> nat (w t)" "bl \<noteq> []"
    using moved_width [OF oaInputD(1) [OF s(2)], of "partOf batch g t" bl "spanOf S bs t" "nat (w t)"] mv by (auto simp: movedTo_def)
  moreover have "int (os t) + w t \<le> int (os (Suc t))" "1 \<le> w t" using r t by (auto simp: outRanges_def)
  ultimately show "os t + length bl \<le> os (Suc t)" "bl \<noteq> []" by linarith+
qed

text \<open>The blocks in front of the first task move with it.\<close>

lemma prefix_moves:
  assumes inv: "outTasksInv P Z batch n S bs g w os c D S'" and n: "0 < n" "0 \<notin> D"
  shows "for_range 0 (int (bs 0)) (\<lambda>blockIndex S. do {
      e \<leftarrow> oaEmptyAt P S blockIndex;
      if \<not> e
      then do {
        b \<leftarrow> idx (oaPma S) blockIndex;
        S \<leftarrow> setOaSwap blockIndex b S;
        setOaPma blockIndex (emptyEntry P) S }
      else Some S }) S' = Some (S'\<lparr>oaPma := emptied P (bs 0) (oaPma S'), oaSwapPma := copied (bs 0) (oaPma S') (oaSwapPma S')\<rparr>)"
    "bs 0 \<le> length (oaPma S)" "\<And>j. j < bs 0 \<Longrightarrow> oaPma S' ! j = oaPma S ! j"
proof -
  obtain ps sw m ts ws where i: "S' = S\<lparr>oaSwapCapacity := c, oaSize := int (os n), oaPma := ps, oaSwapPma := sw, sizeManager := m, oaTasks := ts\<rparr>"
     "length ps = length (oaPma S)" "\<forall>j<length ps. ps ! j = (if movedAway bs D j then emptyEntry P else oaPma S ! j)"
     "swapHolds P S (bs 0) os ws c D sw" "rangesFit n os ws D"
    using inv unfolding outTasksInv_def by blast
  have set: "runSetting P Z batch n S bs g w" and r: "outRanges n bs w os c" using inv by (auto simp: outTasksInv_def outSettingAll_def)
  note s = runSettingD [OF set] and d = wfOaSizedD [OF runSettingD(1) [OF set]]
  have b0: "bs 0 \<le> nat (oaSize S)" using plan_blocks(3) [OF s(3), of 0] by simp
  then show bl: "bs 0 \<le> length (oaPma S)" using d(2) by simp
  show pm: "oaPma S' ! j = oaPma S ! j" if "j < bs 0" for j
  proof -
    have "bs 0 \<le> bs t" if "t \<in> D" for t using plan_blocks(2) [OF s(3), of 0 t] i(5) that by (auto simp: rangesFit_def)
    then have "\<not> movedAway bs D j" using n(2) that by (fastforce simp: movedAway_def)
    then show ?thesis using i(1-3) that bl by simp
  qed
  have sl: "length sw = nat c" "bs 0 < nat c" using i(4) outRangesD(1) [OF r] outRangesD(5) [OF r, of 0] by (auto simp: swapHolds_def)
  show "for_range 0 (int (bs 0)) (\<lambda>blockIndex S. do {
      e \<leftarrow> oaEmptyAt P S blockIndex;
      if \<not> e
      then do {
        b \<leftarrow> idx (oaPma S) blockIndex;
        S \<leftarrow> setOaSwap blockIndex b S;
        setOaPma blockIndex (emptyEntry P) S }
      else Some S }) S' = Some (S'\<lparr>oaPma := emptied P (bs 0) (oaPma S'), oaSwapPma := copied (bs 0) (oaPma S') (oaSwapPma S')\<rparr>)"
  proof (rule prefixOut_ok [OF oaInputD(1) [OF s(2)]])
    show "bs 0 \<le> length (oaPma S')" "bs 0 \<le> length (oaSwapPma S')" using i(1,2) bl sl by auto
    show "oaPma S' ! j = emptyEntry P \<or> okSized P (oaPma S' ! j)" if "j < bs 0" for j using pm [OF that] d(6) [of j] that b0 by auto
    show "oaSwapPma S' ! j = emptyEntry P" if "j < bs 0" for j using swapHolds_prefix_free [OF r i(4,5) n(2) that n(1)] i(1) by simp
  qed
qed

lemma moved_entry:
  assumes plan: "taskPlan P batch n S bs g" and D: "D \<subseteq> {0..<n}" and t: "t < n" "t \<notin> D" and j: "bs t \<le> j" "j < bs (Suc t)"
  shows "\<not> movedAway bs D j"
proof -
  have "\<not> (bs s \<le> j \<and> j < bs (Suc s))" if s: "s \<in> D" for s
  proof -
    have "s < n" "s \<noteq> t" using D t s by auto
    then show ?thesis using plan_blocks(2) [OF plan, of "Suc s" t] plan_blocks(2) [OF plan, of "Suc t" s] t j by (cases "s < t") auto
  qed
  moreover have "bs 0 \<le> j" using plan_blocks(2) [OF plan, of 0 t] t(1) j(1) by simp
  ultimately show ?thesis by (auto simp: movedAway_def)
qed

lemma movedAway_insert: "movedAway bs (insert t D) j \<longleftrightarrow> movedAway bs D j \<or> bs t \<le> j \<and> j < bs (Suc t) \<or> t = 0 \<and> j < bs 0"
  by (auto simp: movedAway_def)

lemma out_task:
  assumes inv: "outTasksInv P Z batch n S bs g w os c D S'" and t: "t < n" "t \<notin> D"
  shows "\<exists>S''. startTaskOutOfPlace P Z batch (int (length batch)) t S' = Some S'' \<and> outTasksInv P Z batch n S bs g w os c (insert t D) S''"
proof -
  obtain ps sw m ts ws where i: "S' = S\<lparr>oaSwapCapacity := c, oaSize := int (os n), oaPma := ps, oaSwapPma := sw, sizeManager := m, oaTasks := ts\<rparr>"
     "sizesKept (sizeManager S) m" "length ps = length (oaPma S)" "\<And>j. j < length ps \<Longrightarrow> ps ! j = (if movedAway bs D j then emptyEntry P else oaPma S ! j)"
     "swapHolds P S (bs 0) os ws c D sw" "rangesFit n os ws D" "\<forall>t\<in>D. movedTo P batch S bs g t (ws t)" "written (oaTasks S) ws D ts"
    using inv unfolding outTasksInv_def by blast
  have set: "runSetting P Z batch n S bs g w" and r: "outRanges n bs w os c" and all: "outSettingAll P Z batch n S bs g w os c"
    and st: "\<And>t. t \<le> n \<Longrightarrow> startIndex (oaTasks S ! t) = int (os t)" using inv by (auto simp: outTasksInv_def outSettingAll_def)
  note s = runSettingD [OF set] and d = wfOaSizedD [OF runSettingD(1) [OF set]]
  have D: "D \<subseteq> {0..<n}" using i(6) by (simp add: rangesFit_def)
  define ps4 sw4 where "ps4 = (if t = 0 then emptied P (bs 0) ps else ps)" and "sw4 = (if t = 0 then copied (bs 0) ps sw else sw)"
  define S4 where "S4 = S'\<lparr>oaPma := ps4, oaSwapPma := sw4\<rparr>"
  have bl: "bs 0 \<le> length ps" "bs 0 \<le> bs t" "bs (Suc t) < length ps" using plan_blocks(2) [OF s(3), of 0 t] plan_blocks(3) [OF s(3), of "Suc t"] plan_blocks(3) [OF s(3), of 0] d(2) i(3) t(1) by auto
  have p0: "ps ! j = oaPma S ! j" if "t = 0" "j < bs 0" for j using prefix_moves(3) [OF inv _ _ that(2)] that(1) t i(1) by simp
  have l4: "length sw = nat c" "length sw4 = nat c" "length ps4 = length (oaPma S)"
    using i(3,5) bl(1) outRangesD(1) [OF r] outRangesD(5) [OF r, of 0] by (auto simp: swapHolds_def sw4_def ps4_def)
  have nth4: "ps4 ! j = (if t = 0 \<and> j < bs 0 then emptyEntry P else ps ! j)" if "j < length ps" for j
    using that bl(1) by (auto simp: ps4_def)
  have pre: "(if t = 0 then for_range 0 (int (bs t)) (\<lambda>blockIndex S. do {
        e \<leftarrow> oaEmptyAt P S blockIndex;
        if \<not> e
        then do {
          b \<leftarrow> idx (oaPma S) blockIndex;
          S \<leftarrow> setOaSwap blockIndex b S;
          setOaPma blockIndex (emptyEntry P) S }
        else Some S }) S' else Some S') = Some S4"
  proof (cases "t = 0")
    case True
    have "0 < n" "0 \<notin> D" using True t by auto
    then show ?thesis using prefix_moves(1) [OF inv] True i(1) by (simp add: S4_def ps4_def sw4_def)
  qed (simp add: S4_def ps4_def sw4_def i(1))
  have free4: "sw4 ! j = emptyEntry P" if "os t \<le> j" "j < os (Suc t)" for j
  proof -
    have "sw ! j = emptyEntry P" by (rule swapHolds_free [OF r i(5,6) t that])
    moreover have "j < nat c" "bs 0 \<le> os t" using that(2) outRangesD(5) [OF r, of "Suc t"] outRangesD(4) [OF r, of t] t(1) by auto
    ultimately show ?thesis using that(1) bl(1) l4(1) by (auto simp: sw4_def)
  qed
  let ?need = "(length (spanOf S bs t) + (g (Suc t) - g t)) div MinSize P"
  have need: "os t + ?need \<le> os (Suc t)" "os (Suc t) \<le> os n" "os n < nat c"
  proof -
    have "int ?need \<le> w t" "int (os t) + w t \<le> int (os (Suc t))" using s(4) r t(1) by (auto simp: wideEnough_def outRanges_def)
    then show "os t + ?need \<le> os (Suc t)" by linarith
    show "os (Suc t) \<le> os n" "os n < nat c" using outRangesD(3) [OF r, of "Suc t" n] outRangesD(5) [OF r, of n] t(1) by auto
  qed
  have free: "swapFree S4 (os t) ?need"
    using need l4(2) free4 by (auto simp: swapFree_def S4_def i(1) emptyEntry_def)
  have pm4: "oaPma S4 ! j = oaPma S ! j" if "bs t \<le> j" "j < bs (Suc t)" for j
    using nth4 [of j] i(4) [of j] moved_entry [OF s(3) D t that] that bl by (simp add: S4_def)
  have pmM: "oaPma S4 ! bs (Suc t) = emptyEntry P \<or> oaPma S4 ! bs (Suc t) = oaPma S ! bs (Suc t)"
    using nth4 [OF bl(3)] i(4) [OF bl(3)] by (auto simp: S4_def)
  have len4: "length (oaPma S4) = length (oaPma S)" "sizesKept (sizeManager S) (sizeManager S4)" using l4(3) i(1,2) by (simp_all add: S4_def)
  obtain bl' S5 where m5: "insertBatchRangeOutOfPlace P Z batch (mkInterval (int (g t)) (int (g (Suc t)))) (mkInterval (int (bs t)) (int (bs (Suc t))))
        (mkInterval (int (os t)) (int (os (Suc t)))) S4 = Some (int (length bl'), S5)"
      "moveOut P (keyOfValue P ` set (oaContent S)) S4 (partOf batch g t) (bs t) (bs (Suc t)) (os t) bl' S5"
    using insertOutOfPlace_moves [OF task_outSetting [OF set t(1) pm4 pmM len4 free], of "int (os (Suc t))"] unfolding partOf_def by blast
  have sp4: "entriesElems (slice (oaPma S4) (bs t) (bs (Suc t))) = spanOf S bs t"
    unfolding spanOf_def by (rule arg_cong [where f = entriesElems], rule slice_eqI) (use pm4 len4 in auto)
  have mv: "movedTo P batch S bs g t bl'" using m5(2) unfolding moveOut_def movedTo_def sp4 by blast
  obtain ps5 m' where S5: "S5 = S4\<lparr>oaPma := ps5, oaSwapPma := writeAt (os t) bl' sw4, sizeManager := m'\<rparr>" "sizesKept m m'" "length ps5 = length ps"
     "\<And>j. ps5 ! j = (if bs t \<le> j \<and> j < bs (Suc t) then emptyEntry P else ps4 ! j)"
    using m5(2) i(1,3) l4(3) unfolding moveOut_def by (auto simp: S4_def)
  have tl: "t < length ts" "Suc t < length ts" using i(8) s(5) t(1) by (auto simp: written_def described_def)
  have tk: "blockForBatchSplitter (ts ! u) = int (bs u)" "firstBatchElement (ts ! u) = int (g u)" "startIndex (ts ! u) = int (os u)" if "u \<le> n" for u
    using i(8) s(5) st [OF that] that by (auto simp: written_def described_def)
  have ty: "taskType (ts ! t) = INSERTION" using i(8) s(6) t(1) tl by (auto simp: written_def ownTasks_def)
  define ts' where "ts' = ts[t := (ts ! t)\<lparr>numberOfBlocksWritten := int (length bl')\<rparr>]"
  have wr: "oaSetWritten t (int (length bl')) S5 = Some (S5\<lparr>oaTasks := ts'\<rparr>)"
    using task_ops(2) [of t S5] tl(1) by (simp add: S5(1) S4_def i(1) oaSetWritten_def ts'_def)
  have gt: "g t < g (Suc t)" using s(3) t(1) by (simp add: taskPlan_def)
  have tasks: "oaTask S' t = Some (ts ! t)" "oaTask S' (t + 1) = Some (ts ! Suc t)" using task_ops(1) [of _ S'] tl i(1) by simp_all
  have "startTaskOutOfPlace P Z batch (int (length batch)) t S' = Some (S5\<lparr>oaTasks := ts'\<rparr>)"
    unfolding startTaskOutOfPlace_def using tasks tk [of t] tk [of "Suc t"] t(1) ty gt pre m5(1) wr by (cases "t = 0") (simp_all add: intervalLength_def Let_def)
  moreover have "outTasksInv P Z batch n S bs g w os c (insert t D) (S5\<lparr>oaTasks := ts'\<rparr>)"
    unfolding outTasksInv_def
  proof (intro conjI all exI)
    show "S5\<lparr>oaTasks := ts'\<rparr> = S\<lparr>oaSwapCapacity := c, oaSize := int (os n), oaPma := ps5, oaSwapPma := writeAt (os t) bl' sw4, sizeManager := m', oaTasks := ts'\<rparr>"
      by (simp add: S5(1) S4_def i(1))
    show "sizesKept (sizeManager S) m'" using sizesKept_trans [OF i(2) S5(2)] .
    show "length ps5 = length (oaPma S)" using S5(3) i(3) by simp
    show "\<forall>j<length ps5. ps5 ! j = (if movedAway bs (insert t D) j then emptyEntry P else oaPma S ! j)"
      using S5(3,4) nth4 i(4) by (auto simp: movedAway_insert)
    show "swapHolds P S (bs 0) os (ws(t := bl')) c (insert t D) (writeAt (os t) bl' sw4)" "rangesFit n os (ws(t := bl')) (insert t D)"
      using swapHolds_add [OF r i(5,6) t movedTo_fits(1) [OF set t(1) r mv] sw4_def bl(1)] p0 by blast+
    show "\<forall>u\<in>insert t D. movedTo P batch S bs g u ((ws(t := bl')) u)" using i(7) mv by auto
    show "written (oaTasks S) (ws(t := bl')) (insert t D) ts'" unfolding ts'_def by (rule written_insert [OF i(8) tl(1) t(2)])
  qed
  ultimately show ?thesis by blast
qed

interpretation outOfPlace: task_region n "startTaskOutOfPlace P Z batch (int (length batch))" "outTasksInv P Z batch n S bs g w os c"
  for P Z batch n S bs g w os c
  by unfold_locales (rule out_task)

end
