(* ===== verification/Overallocated_Parallel.thy ===== *)
theory Overallocated_Parallel
  imports Overallocated_Tasks
begin

text \<open>
  The rest of \<open>insertBatch\<close> of \<open>OverallocatedBatchedSparseArray\<close>: the output ranges, growth of the array, the parallel region that
  writes the blocks back, and the whole operation for several threads whose splitter elements belong to different blocks.
\<close>

section \<open>Output ranges\<close>

definition oneWidth :: "bool \<Rightarrow> ('k, 'v) oaSds \<Rightarrow> int \<Rightarrow> nat" where
  "oneWidth allow S w = nat (if allow then toInt (dmul (oaFactor S) (toDouble w)) else w)"

lemma oneWidth_ge: "1 \<le> oaFactor S \<Longrightarrow> 1 \<le> w \<Longrightarrow> w \<le> 2 ^ 53 \<Longrightarrow> w \<le> int (oneWidth allow S w)"
  using overallocated_width [of "oaFactor S" w] by (auto simp: oneWidth_def)

definition startOf :: "bool \<Rightarrow> ('k, 'v) oaSds \<Rightarrow> nat \<Rightarrow> (nat \<Rightarrow> int) \<Rightarrow> nat \<Rightarrow> nat" where
  "startOf allow S L w k = L + (\<Sum>t<k. oneWidth allow S (w t))"

lemma oneWidth_eq:
  assumes "1 \<le> oaFactor S" "1 \<le> w" "w \<le> 2 ^ 53"
  shows "int (oneWidth allow S w) = (if allow then toInt (dmul (oaFactor S) (toDouble w)) else w)"
  using oneWidth_ge [OF assms, of allow] assms(2) by (simp add: oneWidth_def split: if_splits)

text \<open>The prefix sum over the widths; the sentinel has the width 0.\<close>

lemma assignRanges_ok:
  fixes allow :: bool and S :: "('k, 'v) oaSds"
  assumes ts: "described n bs g w ts" "ownTasks n ts" "requiredWidth (ts ! n) = 0" and f: "1 \<le> oaFactor S"
    and w: "\<And>t. t < n \<Longrightarrow> 1 \<le> w t \<and> w t \<le> 2 ^ 53"
  defines "os \<equiv> startOf allow S (bs 0) w"
  shows "\<exists>ts'. foldM (assignOutputRange allow) [0..<n + 1] (int (bs 0), S\<lparr>oaTasks := ts\<rparr>) = Some (int (os n), S\<lparr>oaTasks := ts'\<rparr>) \<and>
     described n bs g w ts' \<and> ownTasks n ts' \<and> (\<forall>t\<le>n. startIndex (ts' ! t) = int (os t)) \<and> keepsInsertion ts ts'"
proof -
  let ?xs = "[0..<n + 1]"
  define I where "I k T \<longleftrightarrow> (\<exists>ts'. T = (int (os (min k n)), S\<lparr>oaTasks := ts'\<rparr>) \<and> described n bs g w ts' \<and> ownTasks n ts' \<and> requiredWidth (ts' ! n) = 0 \<and>
     (\<forall>t<k. startIndex (ts' ! t) = int (os t)) \<and> keepsInsertion ts ts')" for k T
  have z: "toInt (dmul (oaFactor S) (toDouble 0)) = 0" using toInt_of_int [of 0] by (simp add: dmul_def)
  have "\<exists>T. foldM (assignOutputRange allow) ?xs (int (bs 0), S\<lparr>oaTasks := ts\<rparr>) = Some T \<and> I (length ?xs) T"
  proof (rule foldM_inv)
    show "I 0 (int (bs 0), S\<lparr>oaTasks := ts\<rparr>)" unfolding I_def using ts by (intro exI [of _ ts]) (simp add: os_def startOf_def)
    fix k T assume "k < length ?xs" and inv: "I k T"
    then have k: "k \<le> n" "?xs ! k = k" by (auto simp del: upt_Suc)
    obtain ts' where t': "T = (int (os k), S\<lparr>oaTasks := ts'\<rparr>)" "described n bs g w ts'" "ownTasks n ts'" "requiredWidth (ts' ! n) = 0"
      "\<forall>t<k. startIndex (ts' ! t) = int (os t)" "keepsInsertion ts ts'"
      using inv k(1) by (auto simp: I_def)
    have kl: "k < length ts'" using t'(2) k(1) by (simp add: described_def)
    let ?ts = "ts'[k := (ts' ! k)\<lparr>startIndex := int (os k)\<rparr>]"
    have "int (os k) + (if allow then toInt (dmul (oaFactor S) (toDouble (requiredWidth (ts' ! k)))) else requiredWidth (ts' ! k)) = int (os (min (Suc k) n))"
    proof (cases "k < n")
      case True
      then have "requiredWidth (ts' ! k) = w k" "1 \<le> w k" "w k \<le> 2 ^ 53" using t'(2) w by (auto simp: described_def)
      then show ?thesis using oneWidth_eq [OF f, of "w k" allow] True by (simp add: os_def startOf_def)
    next
      case False
      then show ?thesis using k(1) t'(4) z by (simp add: le_antisym)
    qed
    then have "assignOutputRange allow k T = Some (int (os (min (Suc k) n)), S\<lparr>oaTasks := ?ts\<rparr>)"
      using kl by (cases allow) (simp_all add: t'(1) assignOutputRange_def task_ops)
    moreover have "described n bs g w ?ts" "ownTasks n ?ts" using t'(2,3) kl by (auto simp: described_def ownTasks_def nth_list_update)
    moreover have "requiredWidth (?ts ! n) = 0" using t'(4) kl by (auto simp: nth_list_update)
    moreover have "\<forall>t<Suc k. startIndex (?ts ! t) = int (os t)" using t'(5) kl by (auto simp: nth_list_update less_Suc_eq)
    moreover have "keepsInsertion ts ?ts" by (rule keepsInsertion_update [OF t'(6)]) simp
    ultimately show "\<exists>T'. assignOutputRange allow (?xs ! k) T = Some T' \<and> I (Suc k) T'"
      unfolding k(2) I_def by (intro exI [of _ "(int (os (min (Suc k) n)), S\<lparr>oaTasks := ?ts\<rparr>)"] conjI exI [of _ ?ts]) simp_all
  qed
  then show ?thesis by (auto simp: I_def simp del: upt_Suc)
qed

lemma startOf_ranges:
  assumes f: "1 \<le> oaFactor S" and w: "\<And>t. t < n \<Longrightarrow> 1 \<le> w t \<and> w t \<le> 2 ^ 53" and c: "int (startOf allow S (bs 0) w n) < c"
  shows "outRanges n bs w (startOf allow S (bs 0) w) c"
  unfolding outRanges_def
proof (intro conjI allI impI)
  fix t assume t: "t < n"
  then show "int (startOf allow S (bs 0) w t) + w t \<le> int (startOf allow S (bs 0) w (Suc t))" "1 \<le> w t"
    using oneWidth_ge [OF f, of "w t" allow] w by (auto simp: startOf_def)
qed (use c in \<open>simp_all add: startOf_def\<close>)

section \<open>Back to the array\<close>

definition spread ::
  "('k, 'v) tparams \<Rightarrow> ('k, 'v) oaSds \<Rightarrow> nat \<Rightarrow> (nat \<Rightarrow> nat) \<Rightarrow> (nat \<Rightarrow> ('k, 'v) PmaEntry list) \<Rightarrow> int \<Rightarrow> nat set \<Rightarrow> ('k, 'v) PmaEntry list \<Rightarrow> bool" where
  "spread P S L os ws c D ps \<longleftrightarrow> length ps = nat c \<and> (0 \<in> D \<longrightarrow> (\<forall>j<L. ps ! j = oaPma S ! j)) \<and>
     (\<forall>t\<in>D. Overallocated_Write.blocksIn ps (os t) (os (Suc t)) = ws t \<and> (\<forall>j. os t \<le> j \<and> j < os (Suc t) \<longrightarrow> ps ! j \<in> insert (emptyEntry P) (set (ws t)))) \<and>
     (\<forall>j<nat c. \<not> (0 \<in> D \<and> j < L) \<and> (\<forall>t\<in>D. \<not> (os t \<le> j \<and> j < os (Suc t))) \<longrightarrow> ps ! j = emptyEntry P)"

lemma spread_none: "spread P S L os ws c {} (makeEntries P c)"
  by (simp add: spread_def makeEntries_def)

lemma spread_free:
  assumes r: "outRanges n bs w os c" and pl: "spread P S (bs 0) os ws c D ps" "D \<subseteq> {0..<n}" and t: "t < n" "t \<notin> D"
  shows "os t \<le> j \<Longrightarrow> j < os (Suc t) \<Longrightarrow> ps ! j = emptyEntry P" "t = 0 \<Longrightarrow> j < bs 0 \<Longrightarrow> ps ! j = emptyEntry P"
proof -
  have c: "bs 0 \<le> os t" "os (Suc t) < nat c" "os 0 = bs 0" "os 0 < nat c" using outRangesD(1) [OF r] outRangesD(4) [OF r, of t] outRangesD(5) [OF r, of "Suc t"] outRangesD(5) [OF r, of 0] t(1) by auto
  show "ps ! j = emptyEntry P" if j: "os t \<le> j" "j < os (Suc t)"
  proof -
    have "\<not> (os s \<le> j \<and> j < os (Suc s))" if s: "s \<in> D" for s
    proof -
      have "s < n" "s \<noteq> t" using pl(2) t s by auto
      then show ?thesis using ranges_disjoint [OF r _ t(1) _ j] by blast
    qed
    then show ?thesis using pl(1) c j unfolding spread_def by auto
  qed
  show "ps ! j = emptyEntry P" if j: "t = 0" "j < bs 0"
  proof -
    have "os 0 \<le> os s" if "s \<in> D" for s using outRangesD(3) [OF r, of 0 s] pl(2) that by auto
    then have "\<forall>s\<in>D. \<not> (os s \<le> j \<and> j < os (Suc s))" using j c by fastforce
    then show ?thesis using pl(1) c j t unfolding spread_def by auto
  qed
qed

lemma spread_add:
  assumes r: "outRanges n bs w os c" and pl: "spread P S (bs 0) os ws c D ps" "D \<subseteq> {0..<n}" and t: "t < n" "t \<notin> D"
    and ps1: "length ps1 = nat c" "\<And>j. j < nat c \<Longrightarrow> ps1 ! j = (if t = 0 \<and> j < bs 0 then oaPma S ! j else ps ! j)"
    and ps': "length ps' = length ps1" "\<And>j. j < os t \<or> os (Suc t) \<le> j \<Longrightarrow> ps' ! j = ps1 ! j" "Overallocated_Write.blocksIn ps' (os t) (os (Suc t)) = ws t"
      "\<And>j. os t \<le> j \<Longrightarrow> j < os (Suc t) \<Longrightarrow> ps' ! j \<in> insert (emptyEntry P) (set (ws t))"
  shows "spread P S (bs 0) os ws c (insert t D) ps'"
proof -
  note o = outRangesD [OF r]
  have len: "length ps = nat c" using pl(1) by (simp add: spread_def)
  have c: "os (Suc t) < nat c" "bs 0 \<le> os t" "bs 0 < nat c" using o(5) [of "Suc t"] o(4) [of t] o(5) [of 0] o(1) t(1) by auto
  have same: "ps' ! j = ps ! j" if s: "s \<in> D" "os s \<le> j" "j < os (Suc s)" for s j
  proof -
    have sn: "s < n" "s \<noteq> t" using pl(2) t s(1) by auto
    then have "\<not> (os t \<le> j \<and> j < os (Suc t))" using ranges_disjoint [OF r t(1) _ _ s(2,3)] by blast
    moreover have "j < nat c" "bs 0 \<le> j" using o(5) [of "Suc s"] o(4) [of s] sn s(2,3) by auto
    ultimately show ?thesis using ps'(2) [of j] ps1(2) [of j] by auto
  qed
  show ?thesis
    unfolding spread_def
  proof (intro conjI ballI allI impI)
    show "length ps' = nat c" using ps'(1) ps1(1) by simp
    show "ps' ! j = oaPma S ! j" if "0 \<in> insert t D" "j < bs 0" for j
      using that pl(1) ps'(2) [of j] ps1(2) [of j] c by (auto simp: spread_def)
    show "Overallocated_Write.blocksIn ps' (os s) (os (Suc s)) = ws s" if s: "s \<in> insert t D" for s
    proof (cases "s = t")
      case False
      then have "slice ps' (os s) (os (Suc s)) = slice ps (os s) (os (Suc s))" using same [of s] s ps'(1) ps1(1) len by (intro slice_eqI) auto
      then show ?thesis using pl(1) s False by (simp add: spread_def Overallocated_Write.blocksIn_def)
    qed (use ps'(3) in simp)
    show "ps' ! j \<in> insert (emptyEntry P) (set (ws s))" if s: "s \<in> insert t D" "os s \<le> j \<and> j < os (Suc s)" for s j
      using ps'(4) same [of s j] pl(1) s by (cases "s = t") (auto simp: spread_def)
    fix j assume j: "j < nat c" "\<not> (0 \<in> insert t D \<and> j < bs 0) \<and> (\<forall>s\<in>insert t D. \<not> (os s \<le> j \<and> j < os (Suc s)))"
    then have "ps ! j = emptyEntry P" using pl(1) by (auto simp: spread_def)
    then show "ps' ! j = emptyEntry P" using ps'(2) [of j] ps1(2) [of j] j by auto
  qed
qed

text \<open>The array when the tasks start to write back.\<close>

definition backSetting ::
  "('k::linorder, 'v) tparams \<Rightarrow> 'k \<Rightarrow> 'v list \<Rightarrow> nat \<Rightarrow> ('k, 'v) oaSds \<Rightarrow> (nat \<Rightarrow> nat) \<Rightarrow> (nat \<Rightarrow> nat) \<Rightarrow> (nat \<Rightarrow> int) \<Rightarrow> (nat \<Rightarrow> nat) \<Rightarrow> int \<Rightarrow>
     (nat \<Rightarrow> ('k, 'v) PmaEntry list) \<Rightarrow> Hierarchical \<Rightarrow> TaskInfo list \<Rightarrow> bool" where
  "backSetting P Z batch n S bs g w os c ws m ts \<longleftrightarrow> outSettingAll P Z batch n S bs g w os c \<and> sizesKept (sizeManager S) m \<and>
     (\<forall>t<n. movedTo P batch S bs g t (ws t)) \<and> written (oaTasks S) ws {0..<n} ts"

definition backInv ::
  "('k::linorder, 'v) tparams \<Rightarrow> 'k \<Rightarrow> 'v list \<Rightarrow> nat \<Rightarrow> ('k, 'v) oaSds \<Rightarrow> (nat \<Rightarrow> nat) \<Rightarrow> (nat \<Rightarrow> nat) \<Rightarrow> (nat \<Rightarrow> int) \<Rightarrow> (nat \<Rightarrow> nat) \<Rightarrow> int \<Rightarrow>
     (nat \<Rightarrow> ('k, 'v) PmaEntry list) \<Rightarrow> Hierarchical \<Rightarrow> TaskInfo list \<Rightarrow> nat set \<Rightarrow> ('k, 'v) oaSds \<Rightarrow> bool" where
  "backInv P Z batch n S bs g w os c ws m ts D S' \<longleftrightarrow> backSetting P Z batch n S bs g w os c ws m ts \<and> D \<subseteq> {0..<n} \<and>
     (\<exists>ps sw. S' = S\<lparr>oaSwapCapacity := c, oaSize := int (os n), oaCapacity := c, sizeManager := m, oaTasks := ts, oaPma := ps, oaSwapPma := sw\<rparr> \<and>
        spread P S (bs 0) os ws c D ps \<and> swapHolds P S (bs 0) os ws c ({0..<n} - D) sw)"

lemma back_task:
  assumes inv: "backInv P Z batch n S bs g w os c ws m ts D S'" and t: "t < n" "t \<notin> D"
  shows "\<exists>S''. oaStartRewritingTask P t S' = Some S'' \<and> backInv P Z batch n S bs g w os c ws m ts (insert t D) S''"
proof -
  obtain ps sw where i: "S' = S\<lparr>oaSwapCapacity := c, oaSize := int (os n), oaCapacity := c, sizeManager := m, oaTasks := ts, oaPma := ps, oaSwapPma := sw\<rparr>"
     "spread P S (bs 0) os ws c D ps" "swapHolds P S (bs 0) os ws c ({0..<n} - D) sw"
    using inv unfolding backInv_def by blast
  have all: "backSetting P Z batch n S bs g w os c ws m ts" and D: "D \<subseteq> {0..<n}" using inv by (auto simp: backInv_def)
  have set: "runSetting P Z batch n S bs g w" and r: "outRanges n bs w os c" and mv: "\<And>t. t < n \<Longrightarrow> movedTo P batch S bs g t (ws t)"
    and st: "\<And>t. t \<le> n \<Longrightarrow> startIndex (oaTasks S ! t) = int (os t)" and wr: "written (oaTasks S) ws {0..<n} ts"
    using all by (auto simp: backSetting_def outSettingAll_def)
  note s = runSettingD [OF set] and d = wfOaSizedD [OF runSettingD(1) [OF set]] and o = outRangesD [OF r]
  have tD: "t \<in> {0..<n} - D" using t by simp
  have fit: "rangesFit n os ws ({0..<n} - D)" using movedTo_fits(1) [OF set _ r mv] by (auto simp: rangesFit_def)
  have c: "os (Suc t) < nat c" "bs 0 \<le> os t" "bs 0 < nat c" "os (Suc t) \<le> os n" "os t \<le> os (Suc t)"
    using o(5) [of "Suc t"] o(4) [of t] o(5) [of 0] o(3) [of "Suc t" n] o(3) [of t "Suc t"] o(1) t(1) by auto
  have len: "length ps = nat c" "length sw = nat c" using i(2,3) by (auto simp: spread_def swapHolds_def)
  define ps1 sw1 where "ps1 = (if t = 0 then copied (bs 0) sw ps else ps)" and "sw1 = (if t = 0 then emptied P (bs 0) sw else sw)"
  define S1 where "S1 = S'\<lparr>oaPma := ps1, oaSwapPma := sw1\<rparr>"
  have l1: "length ps1 = nat c" "length sw1 = nat c" using len c by (auto simp: ps1_def sw1_def)
  have sw0: "sw ! j = oaPma S ! j" if "t = 0" "j < bs 0" for j using i(3) tD that by (simp add: swapHolds_def)
  have b0: "bs 0 \<le> nat (oaSize S)" using plan_blocks(3) [OF s(3), of 0] by simp
  have n1: "ps1 ! j = (if t = 0 \<and> j < bs 0 then oaPma S ! j else ps ! j)" if "j < nat c" for j using that c len sw0 by (auto simp: ps1_def)
  have pre: "(if t = 0 then for_range 0 (int (bs t)) (\<lambda>blockIndex S. do {
      b \<leftarrow> idx (oaSwapPma S) blockIndex;
      if \<not> isEmpty b
      then do { S \<leftarrow> setOaPma blockIndex b S; setOaSwap blockIndex (emptyEntry P) S }
      else Some S }) S' else Some S') = Some S1"
  proof (cases "t = 0")
    case True
    have "for_range 0 (int (bs 0)) (\<lambda>blockIndex S. do {
      b \<leftarrow> idx (oaSwapPma S) blockIndex;
      if \<not> isEmpty b
      then do { S \<leftarrow> setOaPma blockIndex b S; setOaSwap blockIndex (emptyEntry P) S }
      else Some S }) S' = Some (S'\<lparr>oaPma := copied (bs 0) (oaSwapPma S') (oaPma S'), oaSwapPma := emptied P (bs 0) (oaSwapPma S')\<rparr>)"
    proof (rule prefixBack_ok [OF oaInputD(1) [OF s(2)]])
      show "bs 0 \<le> length (oaPma S')" "bs 0 \<le> length (oaSwapPma S')" using i(1) len c by auto
      show "oaSwapPma S' ! j = emptyEntry P \<or> okSized P (oaSwapPma S' ! j)" if "j < bs 0" for j
        using sw0 [OF True that] d(6) [of j] that b0 i(1) by auto
      show "oaPma S' ! j = emptyEntry P" if "j < bs 0" for j using spread_free(2) [OF r i(2) D t True that] i(1) by simp
    qed
    then show ?thesis using True i(1) by (simp add: S1_def ps1_def sw1_def)
  qed (simp add: S1_def ps1_def sw1_def i(1))
  define a where "a = os (Suc t) - os t"
  have a: "os t + a = os (Suc t)" using c by (simp add: a_def)
  have q: "oaPma S1 = ps1" "oaSwapPma S1 = sw1" by (simp_all add: S1_def)
  have "\<exists>ps'. rewrite P (mkInterval (int (os t)) (int (os t + a))) (int (length (ws t))) S1 =
       Some (S1\<lparr>oaPma := ps', oaSwapPma := writeAt (os t) (replicate (length (ws t)) (emptyEntry P)) (oaSwapPma S1)\<rparr>) \<and>
     length ps' = length (oaPma S1) \<and> (\<forall>j. j < os t \<or> os t + a \<le> j \<longrightarrow> ps' ! j = oaPma S1 ! j) \<and>
     Overallocated_Write.blocksIn ps' (os t) (os t + a) = ws t \<and> (\<forall>j. os t \<le> j \<and> j < os t + a \<longrightarrow> ps' ! j \<in> insert (emptyEntry P) (set (ws t))) \<and>
     (\<forall>i<length (ws t). ps' ! (os t + i * a div length (ws t)) = ws t ! i)"
  proof (rule rewrite_ok)
    show "length (ws t) \<le> a" "ws t \<noteq> []" using movedTo_fits [OF set t(1) r mv [OF t(1)]] by (auto simp: a_def)
    then show "os t + length (ws t) \<le> length (oaSwapPma S1)" using a c l1 by (simp add: S1_def)
    show "wfParams P" by (rule oaInputD(1) [OF s(2)])
    show "okSized P b" if "b \<in> set (ws t)" for b using mv [OF t(1)] that by (simp add: movedTo_def)
    show "oaSwapPma S1 ! (os t + j) = ws t ! j" if "j < length (ws t)" for j
      using i(3) tD that c len \<open>length (ws t) \<le> a\<close> a by (auto simp: S1_def sw1_def swapHolds_def)
    show "os t + a \<le> length (oaPma S1)" "int (os t + a) \<le> oaSize S1" using a c l1 i(1) by (auto simp: S1_def)
    show "oaPma S1 ! j = emptyEntry P" if "os t \<le> j" "j < os t + a" for j
      using spread_free(1) [OF r i(2) D t that(1)] that(2) a n1 [of j] c that(1) by (auto simp: S1_def)
  qed
  then obtain ps' where e: "rewrite P (mkInterval (int (os t)) (int (os (Suc t)))) (int (length (ws t))) S1 =
       Some (S1\<lparr>oaPma := ps', oaSwapPma := writeAt (os t) (replicate (length (ws t)) (emptyEntry P)) sw1\<rparr>)"
     "length ps' = length ps1" "\<forall>j. j < os t \<or> os (Suc t) \<le> j \<longrightarrow> ps' ! j = ps1 ! j"
     "Overallocated_Write.blocksIn ps' (os t) (os (Suc t)) = ws t" "\<forall>j. os t \<le> j \<and> j < os (Suc t) \<longrightarrow> ps' ! j \<in> insert (emptyEntry P) (set (ws t))"
    unfolding a q by (elim exE conjE)
  have rw: "ps' ! j = ps1 ! j" if "j < os t \<or> os (Suc t) \<le> j" for j using e(3) that by blast
  have rw': "ps' ! j \<in> insert (emptyEntry P) (set (ws t))" if "os t \<le> j" "j < os (Suc t)" for j using e(5) that by simp
  let ?S = "S1\<lparr>oaPma := ps', oaSwapPma := writeAt (os t) (replicate (length (ws t)) (emptyEntry P)) sw1\<rparr>"
  have tl: "t < length ts" "Suc t < length ts" using wr s(5) t(1) by (auto simp: written_def described_def)
  have tk: "blockForBatchSplitter (ts ! t) = int (bs t)" "startIndex (ts ! t) = int (os t)" "startIndex (ts ! Suc t) = int (os (Suc t))" "numberOfBlocksWritten (ts ! t) = int (length (ws t))"
    using wr s(5) st [of t] st [of "Suc t"] t(1) tl by (auto simp: written_def described_def)
  have tasks: "oaTask S' t = Some (ts ! t)" "oaTask S' (t + 1) = Some (ts ! Suc t)" using task_ops(1) [of _ S'] tl i(1) by simp_all
  have "oaStartRewritingTask P t S' = Some ?S"
    unfolding oaStartRewritingTask_def using tasks tk pre e(1) by (cases "t = 0") (simp_all add: Let_def)
  moreover have "spread P S (bs 0) os ws c (insert t D) ps'"
    by (rule spread_add [OF r i(2) D t l1(1) n1 e(2) rw e(4) rw'])
  moreover have "swapHolds P S (bs 0) os ws c ({0..<n} - insert t D) (writeAt (os t) (replicate (length (ws t)) (emptyEntry P)) sw1)"
    unfolding Diff_insert [of "{0..<n}" t D] by (rule swapHolds_remove(1) [OF r i(3) fit tD sw1_def])
  moreover have "?S = S\<lparr>oaSwapCapacity := c, oaSize := int (os n), oaCapacity := c, sizeManager := m, oaTasks := ts, oaPma := ps',
      oaSwapPma := writeAt (os t) (replicate (length (ws t)) (emptyEntry P)) sw1\<rparr>" by (simp add: S1_def i(1))
  moreover have "insert t D \<subseteq> {0..<n}" using D t(1) by simp
  ultimately have "backInv P Z batch n S bs g w os c ws m ts (insert t D) ?S" unfolding backInv_def using all by blast
  then show ?thesis using \<open>oaStartRewritingTask P t S' = Some ?S\<close> by blast
qed

interpretation rewriting: task_region n "oaStartRewritingTask P" "backInv P Z batch n S bs g w os c ws m ts" for P Z batch n S bs g w os c ws m ts
  by unfold_locales (rule back_task)

lemma take_parts: "taskPlan P batch n S bs g \<Longrightarrow> k < n \<Longrightarrow> take (g (Suc k)) batch = take (g k) batch @ partOf batch g k"
  using plan_blocks(4) [of P batch n S bs g k "Suc k"] by (simp add: partOf_def slice_def flip: take_add)

lemma take_in_part:
  assumes plan: "taskPlan P batch n S bs g"
  shows "k \<le> n \<Longrightarrow> v \<in> set (take (g k) batch) \<Longrightarrow> \<exists>s<k. v \<in> set (partOf batch g s)"
proof (induction k)
  case 0
  then show ?case using plan by (simp add: taskPlan_def)
next
  case (Suc k)
  then consider "v \<in> set (take (g k) batch)" | "v \<in> set (partOf batch g k)" using take_parts [OF plan, of k] by auto
  then show ?case using Suc by cases (auto intro: less_SucI)
qed

text \<open>The tasks together: the elements up to task \<open>k\<close> are those of the array with those of the batch.\<close>

lemma spread_elems:
  assumes all: "backSetting P Z batch n S bs g w os c ws m ts" and pl: "spread P S (bs 0) os ws c {0..<n} ps"
  shows "k \<le> n \<Longrightarrow> entriesElems (slice ps 0 (os k)) = fold (insKey (keyOfValue P)) (take (g k) batch) (entriesElems (slice (oaPma S) 0 (bs k)))"
proof (induction k)
  case 0
  have set: "runSetting P Z batch n S bs g w" and r: "outRanges n bs w os c" using all by (auto simp: backSetting_def outSettingAll_def)
  note s = runSettingD [OF set] and d = wfOaSizedD [OF runSettingD(1) [OF set]]
  have n: "0 < n" "g 0 = 0" using s(3) by (auto simp: taskPlan_def)
  have "bs 0 \<le> nat (oaSize S)" "os 0 = bs 0" "os 0 < nat c" using plan_blocks(3) [OF s(3), of 0] outRangesD(1) [OF r] outRangesD(5) [OF r, of 0] by auto
  then have "slice ps 0 (os 0) = slice (oaPma S) 0 (bs 0)"
    using pl n(1) d(2) by (intro nth_equalityI) (auto simp: spread_def slice_nth)
  then show ?case using n(2) by simp
next
  case (Suc k)
  have set: "runSetting P Z batch n S bs g w" and r: "outRanges n bs w os c" and mv: "movedTo P batch S bs g k (ws k)"
    using all Suc.prems by (auto simp: backSetting_def outSettingAll_def)
  note s = runSettingD [OF set]
  have k: "k < n" using Suc.prems by simp
  let ?kf = "keyOfValue P" and ?A = "entriesElems (slice (oaPma S) 0 (bs k))"
  have le: "bs k \<le> bs (Suc k)" "bs (Suc k) \<le> nat (oaSize S)" "os k \<le> os (Suc k)"
    using plan_blocks(1,3) [OF s(3)] outRangesD(3) [OF r, of k "Suc k"] k by auto
  have "entriesElems (slice ps (os k) (os (Suc k))) = entriesElems (ws k)"
    using pl k entriesElems_blocksIn [of ps "os k" "os (Suc k)"] by (auto simp: spread_def)
  then have "entriesElems (slice ps 0 (os (Suc k))) = fold (insKey ?kf) (take (g k) batch) ?A @ fold (insKey ?kf) (partOf batch g k) (spanOf S bs k)"
    using elems_slice_split [of 0 "os k" "os (Suc k)" ps] le Suc mv by (simp add: movedTo_def)
  also have "\<dots> = fold (insKey ?kf) (partOf batch g k) (fold (insKey ?kf) (take (g k) batch) ?A @ spanOf S bs k)"
  proof -
    have "?kf x < ?kf e" if e: "e \<in> set (partOf batch g k)" and x: "x \<in> set (fold (insKey ?kf) (take (g k) batch) ?A)" for e x
    proof -
      have "x \<in> set ?A \<or> x \<in> set (take (g k) batch)" using x set_fold_insKey_sub [of ?kf "take (g k) batch" ?A] by blast
      then show ?thesis
        using plan_order(1) [OF s(3) k e] take_in_part [OF s(3) less_imp_le [OF k], of x] part_order [OF s(3) oaInputD(4) [OF s(2)] _ k _ e] by blast
    qed
    then show ?thesis using fold_insKey_append [of "partOf batch g k" "fold (insKey ?kf) (take (g k) batch) ?A" ?kf "[]" "spanOf S bs k"] by simp
  qed
  also have "fold (insKey ?kf) (take (g k) batch) ?A @ spanOf S bs k = fold (insKey ?kf) (take (g k) batch) (?A @ spanOf S bs k)"
  proof -
    have "?kf e < ?kf x" if e: "e \<in> set (take (g k) batch)" and x: "x \<in> set (spanOf S bs k)" for e x
    proof -
      obtain j where j: "j < k" "e \<in> set (partOf batch g j)" using take_in_part [OF s(3) less_imp_le [OF k] e] by blast
      have b: "bs (Suc j) \<le> bs k" using plan_blocks(2) [OF s(3), of "Suc j" k] j(1) k by simp
      have "x \<in> set (entriesElems (slice (oaPma S) (bs (Suc j)) (nat (oaSize S))))"
        using x elems_slice_split [OF b, of "nat (oaSize S)" "oaPma S"] elems_slice_split [OF le(1,2), of "oaPma S"] le by (auto simp: spanOf_def)
      then show ?thesis using plan_order(2) [OF s(3) _ j(2)] j(1) k by simp
    qed
    then show ?thesis using fold_insKey_append [of "take (g k) batch" "[]" ?kf "spanOf S bs k" "?A"] by simp
  qed
  also have "fold (insKey ?kf) (partOf batch g k) \<dots> = fold (insKey ?kf) (take (g (Suc k)) batch) (?A @ spanOf S bs k)"
    using take_parts [OF s(3) k] by simp
  also have "?A @ spanOf S bs k = entriesElems (slice (oaPma S) 0 (bs (Suc k)))"
    using elems_slice_split [of 0 "bs k" "bs (Suc k)" "oaPma S"] le by (simp add: spanOf_def)
  finally show ?case .
qed

lemma spread_entry:
  assumes r: "outRanges n bs w os c" and pl: "spread P S (bs 0) os ws c {0..<n} ps" and n: "0 < n" and j: "j < nat c"
  obtains "j < bs 0" "ps ! j = oaPma S ! j" | t where "t < n" "ps ! j \<in> insert (emptyEntry P) (set (ws t))" | "os n \<le> j" "ps ! j = emptyEntry P"
proof -
  have "\<exists>t<n. os t \<le> j \<and> j < os (Suc t)" if "bs 0 \<le> j" "j < os n"
  proof -
    have "\<exists>t<k. os t \<le> j \<and> j < os (Suc t)" if "j < os k" "k \<le> n" for k
      using that
    proof (induction k)
      case 0
      then show ?case using \<open>bs 0 \<le> j\<close> outRangesD(1) [OF r] by simp
    next
      case (Suc k)
      then show ?case by (cases "j < os k") (auto intro: less_SucI)
    qed
    then show ?thesis using \<open>j < os n\<close> by blast
  qed
  then consider "j < bs 0" | t where "t < n" "os t \<le> j" "j < os (Suc t)" | "os n \<le> j" by (meson not_le)
  then show thesis
  proof cases
    case 1
    then show ?thesis using that(1) pl n by (simp add: spread_def)
  next
    case (2 t)
    then show ?thesis using that(2) [of t] pl by (simp add: spread_def)
  next
    case 3
    have "\<not> (os t \<le> j \<and> j < os (Suc t))" if "t < n" for t using outRangesD(3) [OF r, of "Suc t" n] that 3 by auto
    moreover have "bs 0 \<le> j" using outRangesD(4) [OF r, of n] 3 by simp
    ultimately have "ps ! j = emptyEntry P" using pl j by (auto simp: spread_def)
    then show ?thesis using that(3) 3 by blast
  qed
qed

lemma spread_ok:
  assumes all: "backSetting P Z batch n S bs g w os c ws m ts" and pl: "spread P S (bs 0) os ws c {0..<n} ps"
    and S': "oaPma S' = ps" "oaSize S' = int (os n)" "oaCapacity S' = c" "hInv (blockSizes S') (oaSize S') (sizeManager S')"
  shows "wfOaSized P S'" "oaContent S' = fold (insKey (keyOfValue P)) batch (oaContent S)"
proof -
  have set: "runSetting P Z batch n S bs g w" and r: "outRanges n bs w os c" and mv: "\<And>t. t < n \<Longrightarrow> movedTo P batch S bs g t (ws t)"
    using all by (auto simp: backSetting_def outSettingAll_def)
  note s = runSettingD [OF set] and d = wfOaSizedD [OF runSettingD(1) [OF set]] and i = oaInputD [OF runSettingD(2) [OF set]]
  let ?kf = "keyOfValue P"
  have n: "0 < n" "g n = length batch" "bs n = nat (oaSize S)" using s(3) by (auto simp: taskPlan_def)
  have len: "length ps = nat c" "os n < nat c" using pl outRangesD(5) [OF r, of n] by (auto simp: spread_def)
  show cont: "oaContent S' = fold (insKey ?kf) batch (oaContent S)"
    using spread_elems [OF all pl order_refl] n(2,3) by (simp add: oaUsed_slice S'(1,2))
  have keys: "?kf ` set (oaContent S') = ?kf ` set (oaContent S) \<union> ?kf ` set batch" unfolding cont keys_fold_insKey by blast
  have st: "okStored P (?kf ` set (oaContent S')) (ps ! j)" if "j < os n" for j
  proof -
    have jc: "j < nat c" using that len(2) by simp
    show ?thesis
    proof (rule spread_entry [OF r pl n(1) jc])
      assume j: "j < bs 0" "ps ! j = oaPma S ! j"
      moreover have "bs 0 \<le> nat (oaSize S)" using plan_blocks(3) [OF s(3), of 0] by simp
      ultimately show ?thesis using okStored_mono [OF d(5) [of j]] keys by auto
    next
      fix t assume t: "t < n" "ps ! j \<in> insert (emptyEntry P) (set (ws t))"
      obtain A B where "oaContent S = A @ spanOf S bs t @ B" using span_content [OF s(1,3) t(1)] by blast
      then have "?kf ` set (entriesElems (ws t)) \<subseteq> ?kf ` set (oaContent S')"
        unfolding keys using mv [OF t(1)] set_fold_insKey_sub [of ?kf "partOf batch g t" "spanOf S bs t"] part_sub [of batch g t] by (fastforce simp: movedTo_def)
      then have "okStored P (?kf ` set (oaContent S')) b" if "b \<in> set (ws t)" for b
        using mv [OF t(1)] that keys unfolding movedTo_def by (blast intro: okStored_mono)
      then show ?thesis using t(2) by (auto simp: okStored_def)
    next
      assume "ps ! j = emptyEntry P"
      then show ?thesis by (simp add: okStored_def)
    qed
  qed
  have us: "\<exists>j<os n. b = ps ! j" if "b \<in> set (oaUsed S')" for b
    using that len by (auto simp: oaUsed_def in_set_conv_nth S'(1,2))
  have srt: "strictly_sorted (map ?kf (oaContent S'))" unfolding cont by (rule fold_insKey_sorted [OF d(3)])
  have "okEntries P (oaUsed S')"
    unfolding okEntries_def entriesKeys_elems using srt us st okStored_okEntry [OF i(1)] by blast
  moreover have "b = emptyEntry P" if b: "b \<in> set (drop (os n) ps)" for b
  proof -
    obtain j where j: "j < nat c - os n" "b = ps ! (os n + j)" using b len by (auto simp: in_set_conv_nth)
    have "bs 0 \<le> os n" using outRangesD(4) [OF r, of n] by simp
    moreover have "\<not> (os t \<le> os n + j \<and> os n + j < os (Suc t))" if "t < n" for t using outRangesD(3) [OF r, of "Suc t" n] that by auto
    ultimately show ?thesis using pl j by (auto simp: spread_def)
  qed
  ultimately have "wfOa P S'" using S' len by (auto simp: wfOa_def)
  then show "wfOaSized P S'" unfolding wfOaSized_def using us st by blast
qed

section \<open>The operation with several threads\<close>

lemma setting_tasks [simp]:
  "oaInput P Z batch (S\<lparr>oaTasks := ts\<rparr>) = oaInput P Z batch S" "taskPlan P batch n (S\<lparr>oaTasks := ts\<rparr>) bs g = taskPlan P batch n S bs g"
  "wideEnough P (S\<lparr>oaTasks := ts\<rparr>) bs g w n = wideEnough P S bs g w n"
  by (simp_all add: oaInput_def taskPlan_def wideEnough_def spanOf_def)

lemma blocks_cover:
  assumes plan: "taskPlan P batch n S bs g" and j: "j < nat (oaSize S)"
  shows "movedAway bs {0..<n} j"
proof -
  have n: "0 < n" "bs n = nat (oaSize S)" using plan by (auto simp: taskPlan_def)
  have "j < bs k \<Longrightarrow> k \<le> n \<Longrightarrow> j < bs 0 \<or> (\<exists>t<k. bs t \<le> j \<and> j < bs (Suc t))" for k
  proof (induction k)
    case (Suc k)
    then show ?case by (cases "j < bs k") (auto intro: less_SucI)
  qed simp
  from this [of n] show ?thesis using j n by (auto simp: movedAway_def)
qed

text \<open>All tasks done: the main array is empty, and is replaced if it is too small.\<close>

lemma out_all_resized:
  assumes inv: "outTasksInv P Z batch n S bs g w os c {0..<n} S'"
  shows "\<exists>ws m ts. backSetting P Z batch n S bs g w os c ws m ts \<and> backInv P Z batch n S bs g w os c ws m ts {} (oaResizeMainPma P S')"
proof -
  obtain ps sw m ts ws where i: "S' = S\<lparr>oaSwapCapacity := c, oaSize := int (os n), oaPma := ps, oaSwapPma := sw, sizeManager := m, oaTasks := ts\<rparr>"
     "sizesKept (sizeManager S) m" "length ps = length (oaPma S)" "\<And>j. j < length ps \<Longrightarrow> ps ! j = (if movedAway bs {0..<n} j then emptyEntry P else oaPma S ! j)"
     "swapHolds P S (bs 0) os ws c {0..<n} sw" "\<forall>t\<in>{0..<n}. movedTo P batch S bs g t (ws t)" "written (oaTasks S) ws {0..<n} ts"
    using inv unfolding outTasksInv_def by blast
  have all: "outSettingAll P Z batch n S bs g w os c" using inv by (simp add: outTasksInv_def)
  then have s: "wfOaSized P S" "taskPlan P batch n S bs g" by (auto simp: outSettingAll_def runSetting_def)
  note d = wfOaSizedD [OF s(1)]
  have "ps = makeEntries P (oaCapacity S)"
  proof (rule nth_equalityI)
    show "length ps = length (makeEntries P (oaCapacity S))" using i(3) d(1) by (simp add: wfOa_def makeEntries_def)
    fix j assume j: "j < length ps"
    have "ps ! j = emptyEntry P"
      using i(4) [OF j] blocks_cover [OF s(2), of j] wfOa_entry(2) [OF d(1), of j] j i(3) by (cases "j < nat (oaSize S)") auto
    then show "ps ! j = makeEntries P (oaCapacity S) ! j" using j i(3) d(1) by (simp add: wfOa_def makeEntries_def)
  qed
  then have "oaResizeMainPma P S' = S\<lparr>oaSwapCapacity := c, oaSize := int (os n), oaCapacity := c, sizeManager := m, oaTasks := ts, oaPma := makeEntries P c, oaSwapPma := sw\<rparr>"
    using i(1) by (auto simp: oaResizeMainPma_def)
  moreover have bk: "backSetting P Z batch n S bs g w os c ws m ts" unfolding backSetting_def using all i(2,6,7) by auto
  ultimately have "backInv P Z batch n S bs g w os c ws m ts {} (oaResizeMainPma P S')"
    unfolding backInv_def using i(5) spread_none [of P S "bs 0" os ws c] by (intro conjI exI [of _ "makeEntries P c"] exI [of _ sw]) simp_all
  then show ?thesis using bk by blast
qed

lemma h_recompute_kept:
  assumes "hInv sizes k m0" "sizesKept m0 m" "64 dvd c" "0 \<le> n" "n < c" "int (length sizes') = c"
  shows "\<exists>m'. h_recompute sizes' n m = Some m' \<and> hInv sizes' n m'"
proof -
  have fw: "fixedWidth m" "int (length (haggregates m)) = hsize m"
    using assms(1,2) fixedWidth_cong [of m m0] by (auto simp: hInv_def sizesKept_def)
  obtain q where q: "c = 64 * q" using assms(3) by (auto simp: dvd_def)
  have "n div 64 < q" using assms(5) q by linarith
  then have "(n div HAggregateWidth m + 1) * HAggregateWidth m \<le> int (length sizes')" using fw(1) assms(6) q by (simp add: fixedWidth_def)
  then show ?thesis using h_recompute_inv [OF fw(1) assms(4) _ fw(2), of sizes'] by auto
qed

lemma back_all_ok:
  assumes inv: "backInv P Z batch n S bs g w os c ws m ts {0..<n} S'" and c: "64 dvd c"
  shows "\<exists>S''. recomputeSizes S' = Some S'' \<and> wfOaSized P S'' \<and> oaContent S'' = fold (insKey (keyOfValue P)) batch (oaContent S) \<and> oaCapacity S'' = c \<and>
     oaSwapCapacity S'' = c \<and> oaSwapPma S'' = makeEntries P c \<and> oaFactor S'' = oaFactor S \<and> oaTasks S'' = ts"
proof -
  obtain ps sw where i: "S' = S\<lparr>oaSwapCapacity := c, oaSize := int (os n), oaCapacity := c, sizeManager := m, oaTasks := ts, oaPma := ps, oaSwapPma := sw\<rparr>"
     "spread P S (bs 0) os ws c {0..<n} ps" "swapHolds P S (bs 0) os ws c {} sw"
    using inv unfolding backInv_def by auto
  have all: "backSetting P Z batch n S bs g w os c ws m ts" using inv by (simp add: backInv_def)
  then have s: "wfOaSized P S" "outRanges n bs w os c" "sizesKept (sizeManager S) m" by (auto simp: backSetting_def outSettingAll_def runSetting_def)
  have lc: "int (os n) < c" "int (length (blockSizes S')) = c" using s(2) i(1,2) by (auto simp: outRanges_def spread_def blockSizes_def)
  obtain m' where m': "h_recompute (blockSizes S') (int (os n)) m = Some m'" "hInv (blockSizes S') (int (os n)) m'"
    using h_recompute_kept [OF wfOaD(6) [OF wfOaSizedD(1) [OF s(1)]] s(3) c _ lc] by auto
  define S'' where "S'' = S'\<lparr>sizeManager := m'\<rparr>"
  have fl: "oaPma S'' = ps" "oaSize S'' = int (os n)" "oaCapacity S'' = c" "oaSwapCapacity S'' = c" "oaSwapPma S'' = sw" "oaFactor S'' = oaFactor S" "oaTasks S'' = ts"
    by (simp_all add: S''_def i(1))
  have h: "hInv (blockSizes S'') (oaSize S'') (sizeManager S'')" using m'(2) by (simp add: S''_def i(1) blockSizes_def)
  have "recomputeSizes S' = Some S''" using m'(1) by (simp add: recomputeSizes_def S''_def i(1))
  then show ?thesis using spread_ok [OF all i(2) fl(1-3) h] fl i(3) swapHolds_none by blast
qed

lemma outOfPlacePhase_ok:
  assumes rd: "oaReady P S" and set: "runSetting P Z batch n (S\<lparr>oaTasks := ts\<rparr>) bs g w" "requiredWidth (ts ! n) = 0" and W: "okWorkers W n"
  shows "\<exists>S'. outOfPlacePhase P Z W allow batch (int (length batch)) n False (S\<lparr>oaTasks := ts\<rparr>) = Some S' \<and> oaReady P S' \<and>
     oaContent S' = fold (insKey (keyOfValue P)) batch (oaContent S) \<and> keepsInsertion ts (oaTasks S')"
proof -
  have wf: "wfOaSized P S" and cap: "oaSwapCapacity S = oaCapacity S" "oaSwapPma S = makeEntries P (oaSwapCapacity S)" "64 dvd oaCapacity S" "1 \<le> oaFactor S"
    using rd by (auto simp: oaReady_def)
  note s = runSettingD [OF set(1), simplified]
  have w: "1 \<le> w t \<and> w t \<le> 2 ^ 53" if "t < n" for t using s(4) that by (simp add: wideEnough_def)
  have n: "0 < n" using s(3) by (simp add: taskPlan_def)
  define os where "os = startOf allow S (bs 0) w"
  obtain ts2 where t2: "foldM (assignOutputRange allow) [0..<n + 1] (int (bs 0), S\<lparr>oaTasks := ts\<rparr>) = Some (int (os n), S\<lparr>oaTasks := ts2\<rparr>)"
     "described n bs g w ts2" "ownTasks n ts2" "\<forall>t\<le>n. startIndex (ts2 ! t) = int (os t)" "keepsInsertion ts ts2"
    using assignRanges_ok [OF s(5,6) set(2) cap(4) w, of allow] unfolding os_def by blast
  define S2 where "S2 = S\<lparr>oaTasks := ts2\<rparr>"
  have "0 \<le> oaSize S" "oaSize S < oaCapacity S" using wfOaSizedD(1) [OF wf] unfolding wfOa_def by blast+
  then have "0 < oaSwapCapacity S" using cap(1) by linarith
  then obtain c where c: "increaseSize P (int (os n)) S2 = Some (S2\<lparr>oaSwapCapacity := c, oaSwapPma := makeEntries P c, oaSize := int (os n)\<rparr>)"
     "int (os n) < c" "oaSwapCapacity S dvd c"
    using increaseSize_ok [of S2 P "int (os n)"] cap(2) by (auto simp: S2_def)
  have c64: "64 dvd c" using cap(1,3) c(3) by (metis dvd_trans)
  have r: "outRanges n bs w os c" unfolding os_def by (rule startOf_ranges [OF cap(4) w]) (use c(2) in \<open>simp_all add: os_def\<close>)
  have run: "runSetting P Z batch n S2 bs g w" unfolding runSetting_def S2_def using s t2(2,3) by simp
  have all: "outSettingAll P Z batch n S2 bs g w os c" unfolding outSettingAll_def using run r t2(4) by (simp add: S2_def)
  have "outTasksInv P Z batch n S2 bs g w os c {} (S2\<lparr>oaSwapCapacity := c, oaSwapPma := makeEntries P c, oaSize := int (os n)\<rparr>)"
    unfolding outTasksInv_def
    by (intro conjI all exI [of _ "oaPma S2"] exI [of _ "makeEntries P c"] exI [of _ "sizeManager S2"] exI [of _ ts2] exI [of _ "\<lambda>t. []"])
      (auto simp: S2_def movedAway_def swapHolds_none rangesFit_def written_def)
  then obtain S5 where S5: "foldM (startTaskOutOfPlace P Z batch (int (length batch))) (W 1) (S2\<lparr>oaSwapCapacity := c, oaSwapPma := makeEntries P c, oaSize := int (os n)\<rparr>) = Some S5"
     "outTasksInv P Z batch n S2 bs g w os c {0..<n} S5"
    using outOfPlace.all_done [of P Z batch n S2 bs g w os c _ "W 1"] W unfolding okWorkers_def by blast
  obtain ws m ts5 where b: "backSetting P Z batch n S2 bs g w os c ws m ts5" "backInv P Z batch n S2 bs g w os c ws m ts5 {} (oaResizeMainPma P S5)"
    using out_all_resized [OF S5(2)] by blast
  obtain S8 where S8: "foldM (oaStartRewritingTask P) (W 2) (oaResizeMainPma P S5) = Some S8" "backInv P Z batch n S2 bs g w os c ws m ts5 {0..<n} S8"
    using rewriting.all_done [OF b(2), of "W 2"] W unfolding okWorkers_def by blast
  obtain S' where S': "recomputeSizes S8 = Some S'" "wfOaSized P S'" "oaContent S' = fold (insKey (keyOfValue P)) batch (oaContent S2)" "oaCapacity S' = c"
     "oaSwapCapacity S' = c" "oaSwapPma S' = makeEntries P c" "oaFactor S' = oaFactor S2" "oaTasks S' = ts5"
    using back_all_ok [OF S8(2) c64] by blast
  have "written ts2 ws {0..<n} ts5" using b(1) by (simp add: backSetting_def S2_def)
  then have "keepsInsertion ts2 ts5" by (auto simp: written_def keepsInsertion_def)
  then have "keepsInsertion ts (oaTasks S')" using keepsInsertion_trans [OF t2(5)] S'(8) by simp
  moreover have "oaReady P S'" using S' c64 cap(4) by (simp add: oaReady_def S2_def)
  moreover have "outOfPlacePhase P Z W allow batch (int (length batch)) n False (S\<lparr>oaTasks := ts\<rparr>) = Some S'"
  proof -
    define xs where "xs = [0..<n + 1]"
    have "oaTask (S\<lparr>oaTasks := ts\<rparr>) 0 = Some (ts ! 0)" "blockForBatchSplitter (ts ! 0) = int (bs 0)"
      using s(5) by (auto simp: described_def oaTask_def nth_opt_def)
    moreover have "foldM (assignOutputRange allow) xs (int (bs 0), S\<lparr>oaTasks := ts\<rparr>) = Some (int (os n), S2)" using t2(1) by (simp only: xs_def S2_def)
    ultimately show ?thesis unfolding outOfPlacePhase_def xs_def [symmetric] using c(1) S5(1) S8(1) S'(1) by simp
  qed
  ultimately show ?thesis using S'(3) by (auto simp: S2_def)
qed

lemma oaInsertBatch_apart:
  assumes rd: "oaReady P S" and inp: "oaInput P Z batch S" and apart: "splittersApart P batch n S"
    and n: "0 < n" "n \<le> length batch" "n < length (oaTasks S)" and last: "NDEBUG P \<or> taskType (oaTasks S ! n) = INSERTION" and W: "okWorkers W n"
  shows "\<exists>S'. oaInsertBatch P Z W allow batch (int (length batch)) n S = Some S' \<and> oaReady P S' \<and>
     oaContent S' = fold (insKey (keyOfValue P)) batch (oaContent S) \<and> keepsInsertion (oaTasks S) (oaTasks S')"
proof -
  have wf: "wfOaSized P S" and cap: "oaSwapCapacity S = oaCapacity S" "oaSwapPma S = makeEntries P (oaSwapCapacity S)" "64 dvd oaCapacity S" "1 \<le> oaFactor S"
    using rd by (auto simp: oaReady_def)
  note i = oaInputD [OF inp]
  obtain bs g w ts where p: "oaDistributionPhase P W allow batch (int (length batch)) n S =
       Some (False, allow \<and> (\<forall>t<n. w t \<le> int (bs (Suc t)) - int (bs t)), S\<lparr>oaTasks := ts\<rparr>)"
     "taskPlan P batch n S bs g" "wideEnough P S bs g w n" "described n bs g w ts" "ownTasks n ts" "requiredWidth (ts ! n) = 0" "keepsInsertion (oaTasks S) ts"
    using oaDistribution_apart [OF wf inp apart n last W, of allow] by blast
  have run: "runSetting P Z batch n (S\<lparr>oaTasks := ts\<rparr>) bs g w" unfolding runSetting_def using wf inp p by simp
  have "oaInsertBatch P Z W allow batch (int (length batch)) n S =
      (if allow \<and> (\<forall>t<n. w t \<le> int (bs (Suc t)) - int (bs t))
       then do { S \<leftarrow> foldM (startTaskInPlace P Z batch) (W 1) (S\<lparr>oaTasks := ts\<rparr>);
         (if NDEBUG P then Some () else h_validate (blockSizes S) (oaSize S) (sizeManager S));
         Some S }
       else outOfPlacePhase P Z W allow batch (int (length batch)) n False (S\<lparr>oaTasks := ts\<rparr>))"
    using p(1) batchSorted_ok [OF i(4,5)] n by (simp add: oaInsertBatch_def)
  note chk = this
  show ?thesis
  proof (cases "allow \<and> (\<forall>t<n. w t \<le> int (bs (Suc t)) - int (bs t))")
    case True
    then obtain ps m where r: "foldM (startTaskInPlace P Z batch) (W 1) (S\<lparr>oaTasks := ts\<rparr>) = Some (S\<lparr>oaTasks := ts, oaPma := ps, sizeManager := m\<rparr>)"
      "wfOaSized P (S\<lparr>oaTasks := ts, oaPma := ps, sizeManager := m\<rparr>)"
      "oaContent (S\<lparr>oaTasks := ts, oaPma := ps, sizeManager := m\<rparr>) = fold (insKey (keyOfValue P)) batch (oaContent S)"
      using inPlace_all [OF run, of "W 1"] W unfolding okWorkers_def by auto
    let ?S = "S\<lparr>oaTasks := ts, oaPma := ps, sizeManager := m\<rparr>"
    have "h_validate (blockSizes ?S) (oaSize ?S) (sizeManager ?S) = Some ()"
      using wfOaD(6) [OF wfOaSizedD(1) [OF r(2)]] by (rule h_validate_ok)
    then have "oaInsertBatch P Z W allow batch (int (length batch)) n S = Some ?S" unfolding chk if_P [OF True] using r(1) by simp
    moreover have "oaReady P ?S" using r(2) cap by (simp add: oaReady_def)
    ultimately show ?thesis using r(3) p(7) by (intro exI [of _ ?S]) simp
  next
    case False
    then show ?thesis unfolding chk if_not_P [OF False] using outOfPlacePhase_ok [OF rd run p(6) W, of allow] keepsInsertion_trans [OF p(7)] by blast
  qed
qed

end
