(* ===== verification/Overallocated_History.thy ===== *)
theory Overallocated_History
  imports Overallocated_Parallel
begin

text \<open>
  Sequences of calls of \<open>insertBatch\<close> of \<open>OverallocatedBatchedSparseArray\<close>, each with its own number of threads, from the constructor
  to the queries, and the properties of the operation.
\<close>

section \<open>Sequences of batches\<close>

text \<open>The calls \<open>insertBatch(batch, batchSize, n)\<close> for the pairs \<open>(batch, n)\<close> of a list; \<open>W n\<close> are the orders of \<open>n\<close> threads.\<close>

definition insertCalls ::
  "('k::linorder, 'v) tparams \<Rightarrow> 'k \<Rightarrow> (nat \<Rightarrow> workers) \<Rightarrow> bool \<Rightarrow> ('v list \<times> nat) list \<Rightarrow> ('k, 'v) oaSds \<Rightarrow> ('k, 'v) oaSds option" where
  "insertCalls P Z W allow calls S = foldM (\<lambda>(batch, n) S. oaInsertBatch P Z (W n) allow batch (int (length batch)) n S) calls S"

definition okCall :: "('k::linorder, 'v) tparams \<Rightarrow> 'k \<Rightarrow> nat \<Rightarrow> 'v list \<times> nat \<Rightarrow> bool" where
  "okCall P Z k = (\<lambda>(batch, n). strictly_sorted (map (keyOfValue P) batch) \<and> (\<forall>v\<in>set batch. NULL_KEY P < keyOfValue P v \<and> keyOfValue P v \<noteq> Z) \<and>
     0 < n \<and> n \<le> length batch \<and> n < k)"

text \<open>In every call the splitter elements of the threads belong to different blocks; for one thread there is nothing to check.\<close>

fun callsApart ::
  "('k::linorder, 'v) tparams \<Rightarrow> 'k \<Rightarrow> (nat \<Rightarrow> workers) \<Rightarrow> bool \<Rightarrow> ('v list \<times> nat) list \<Rightarrow> ('k, 'v) oaSds \<Rightarrow> bool" where
  "callsApart P Z W allow [] S = True"
| "callsApart P Z W allow ((batch, n) # calls) S =
     (splittersApart P batch n S \<and>
      (case oaInsertBatch P Z (W n) allow batch (int (length batch)) n S of None \<Rightarrow> True | Some S' \<Rightarrow> callsApart P Z W allow calls S'))"

lemma splittersApart_one [simp]: "splittersApart P batch (Suc 0) S"
  by (simp add: splittersApart_def)

lemma callsApart_one: "(\<forall>c\<in>set calls. snd c = 1) \<Longrightarrow> callsApart P Z W allow calls S"
  by (induction calls arbitrary: S) (auto split: option.splits)

definition allInsertion :: "TaskInfo list \<Rightarrow> bool" where
  "allInsertion ts \<longleftrightarrow> (\<forall>t\<in>set ts. taskType t = INSERTION)"

lemma allInsertion_kept: "keepsInsertion ts ts' \<Longrightarrow> allInsertion ts \<Longrightarrow> allInsertion ts'"
  by (simp add: allInsertion_def keepsInsertion_def all_set_conv_all_nth)

lemma insertCalls_ok:
  assumes P: "wfParams P" "MaxSize P \<le> 32768" and W: "\<And>n. okWorkers (W n) n"
  shows "oaReady P S \<Longrightarrow> NDEBUG P \<or> allInsertion (oaTasks S) \<Longrightarrow> (\<forall>c\<in>set calls. okCall P Z (length (oaTasks S)) c) \<Longrightarrow> callsApart P Z W allow calls S \<Longrightarrow>
     Z \<notin> keyOfValue P ` set (oaContent S) \<Longrightarrow> (oaContent S = [] \<longrightarrow> calls \<noteq> [] \<longrightarrow> MinSize P \<le> length (fst (hd calls))) \<Longrightarrow>
     int (length (oaContent S) + length (concat (map fst calls))) < 2 ^ 53 \<Longrightarrow>
     \<exists>S'. insertCalls P Z W allow calls S = Some S' \<and> oaReady P S' \<and>
       oaContent S' = fold (insKey (keyOfValue P)) (concat (map fst calls)) (oaContent S)"
proof (induction calls arbitrary: S)
  case Nil
  then show ?case by (simp add: insertCalls_def)
next
  case (Cons c calls)
  obtain batch n where c: "c = (batch, n)" by (cases c)
  have ok: "okCall P Z (length (oaTasks S)) (batch, n)" using Cons.prems(3) c by simp
  then have n: "0 < n" "n \<le> length batch" "n < length (oaTasks S)" and b0: "batch \<noteq> []" by (auto simp: okCall_def)
  have inp: "oaInput P Z batch S"
    unfolding oaInput_def using P ok b0 Cons.prems(5-7) by (auto simp: okCall_def c)
  have apart: "splittersApart P batch n S" using Cons.prems(4) by (simp add: c)
  have last: "NDEBUG P \<or> taskType (oaTasks S ! n) = INSERTION" using Cons.prems(2) n(3) by (auto simp: allInsertion_def)
  obtain S1 where s: "oaInsertBatch P Z (W n) allow batch (int (length batch)) n S = Some S1" "oaReady P S1"
    "oaContent S1 = fold (insKey (keyOfValue P)) batch (oaContent S)" "keepsInsertion (oaTasks S) (oaTasks S1)"
    using oaInsertBatch_apart [OF Cons.prems(1) inp apart n last W] by blast
  have keys: "keyOfValue P ` set (oaContent S1) = keyOfValue P ` set (oaContent S) \<union> keyOfValue P ` set batch"
    unfolding s(3) keys_fold_insKey by blast
  have "Z \<notin> keyOfValue P ` set (oaContent S1)" unfolding keys using Cons.prems(5) ok by (auto simp: okCall_def)
  moreover have "oaContent S1 \<noteq> []" using keys b0 by auto
  moreover have "int (length (oaContent S1) + length (concat (map fst calls))) < 2 ^ 53"
    using Cons.prems(7) length_fold_insKey(1) [of "keyOfValue P" batch "oaContent S"] s(3) by (simp add: c)
  moreover have "NDEBUG P \<or> allInsertion (oaTasks S1)" using Cons.prems(2) allInsertion_kept [OF s(4)] by blast
  moreover have "\<forall>c\<in>set calls. okCall P Z (length (oaTasks S1)) c" using Cons.prems(3) s(4) by (simp add: keepsInsertion_def)
  moreover have "callsApart P Z W allow calls S1" using Cons.prems(4) s(1) by (simp add: c)
  ultimately obtain S' where "insertCalls P Z W allow calls S1 = Some S'" "oaReady P S'"
     "oaContent S' = fold (insKey (keyOfValue P)) (concat (map fst calls)) (oaContent S1)"
    using Cons.IH [OF s(2)] by auto
  then show ?case using s(1,3) by (simp add: insertCalls_def c)
qed

lemma newOaSds_oaReady: "oaReady P (newOaSds P garbage) \<and> oaContent (newOaSds P garbage) = []"
proof -
  have "(1::rat) \<le> rnd (18 / 10)" using rnd_ge_int [of 1 "18 / 10"] by simp
  then show ?thesis
    using newOaSds_wf [of P garbage]
    by (simp add: oaReady_def wfOaSized_def) (simp add: newOaSds_def InitialOverallocationFactor_def InitialArrayCapacity_def)
qed

section \<open>Properties\<close>

text \<open>C29. The constructor of the overallocated array establishes the condition under which batches can be inserted: the
  entries, the swap array, the capacities and the size manager are consistent, and no element is stored.\<close>

theorem newOaSds_valid: "oaReady P (newOaSds P garbage) \<and> wfOa P (newOaSds P garbage) \<and> oaContent (newOaSds P garbage) = []"
  using newOaSds_oaReady newOaSds_wf by blast



definition demoTask :: TaskInfo where
  "demoTask = \<lparr>blockForBatchSplitter = 0, firstBatchElement = 0, requiredWidth = 0, startIndex = 0, taskType = INSERTION, mergedTasks = 0,
     mergedTaskIndex = 0, numberOfBlocksWritten = 0, numberOfRebalancingTasks = 0, nodesToRecount = 0, rebalancingBlockRange = mkInterval 0 0,
     rebalancingTaskRange = mkInterval 0 0, firstRebalancingTask = emptyPartialTask, lastRebalancingTask = emptyPartialTask\<rparr>"

lemma demo_tasks [simp]: "taskType demoTask = INSERTION" "oaTasks (newOaSds P garbage) = garbage"
  by (simp_all add: demoTask_def newOaSds_def)

text \<open>The array of the in-place example with a swap array; 4 belongs to its first block and 12 to its last.\<close>

definition threadsOa :: "Hierarchical \<Rightarrow> (nat, nat) oaSds" where
  "threadsOa m = (placeOa m)\<lparr>oaSwapPma := replicate 64 (emptyEntry (demoParams False)), oaTasks := replicate 3 demoTask, oaFactor := 1\<rparr>"

lemma threadsOa_ok:
  "\<exists>m. oaReady (demoParams False) (threadsOa m) \<and> oaInput (demoParams False) 0 [4, 12] (threadsOa m) \<and> splittersApart (demoParams False) [4, 12] 2 (threadsOa m)"
proof -
  obtain m where "placeSetting (demoParams False) 0 (placeOa m) [4, 5, 12] 0 3 0 4" using placeOa_wf ..
  then have wf: "wfOaSized (demoParams False) (placeOa m)" by (simp add: placeSetting_def)
  have eq: "oaUsed (threadsOa m) = oaUsed (placeOa m)" by (simp add: threadsOa_def oaUsed_def)
  have "wfOaSized (demoParams False) (threadsOa m)"
    using wf unfolding wfOaSized_def eq by (simp add: wfOa_def eq) (simp add: threadsOa_def blockSizes_def)
  then have "oaReady (demoParams False) (threadsOa m)" by (simp add: oaReady_def) (simp add: threadsOa_def placeOa_def makeEntries_def)
  moreover have "oaInput (demoParams False) 0 [4, 12] (threadsOa m)" unfolding oaInput_def eq by simp
  moreover have "oaFindTaskStart (demoParams False) [4, 12] 1 0 (threadsOa m) = Some (0, 0)"
    "oaFindTaskStart (demoParams False) [4, 12] 1 1 (threadsOa m) = Some (3, 1)"
    by code_simp+
  then have "splittersApart (demoParams False) [4, 12] 2 (threadsOa m)" by (simp add: splittersApart_def)
  ultimately show ?thesis by blast
qed



section \<open>The sentinel\<close>

text \<open>An inverse merge task with too many merged tasks in the position behind the tasks of \<open>n\<close> threads.\<close>

definition staleSentinel :: "nat \<Rightarrow> ('k, 'v) oaSds \<Rightarrow> bool" where
  "staleSentinel n S \<longleftrightarrow> n < length (oaTasks S) \<and> taskType (oaTasks S ! n) = INVERSE_MERGE \<and> n \<le> mergedTasks (oaTasks S ! n)"

lemma oaUpdateTask_sentinel:
  assumes "staleSentinel n S" "oaUpdateTask i f S = Some T"
    and "i \<noteq> n \<or> (\<forall>t. taskType (f t) = taskType t \<and> mergedTasks (f t) = mergedTasks t)"
  shows "staleSentinel n T"
  using assms by (auto simp: staleSentinel_def oaUpdateTask_def bind_eq_Some_conv upd_opt_def nth_opt_def nth_list_update split: if_splits)

lemma sentinel_other: "oaUpdateTask i f S = Some T \<Longrightarrow> i < n \<Longrightarrow> staleSentinel n S \<Longrightarrow> staleSentinel n T"
  using oaUpdateTask_sentinel [of n S i f T] by simp

lemma oaDistributeThread_sentinel:
  assumes "staleSentinel n S" "oaDistributeThread P batch batchSize d k thread S = Some T"
  shows "staleSentinel n T"
proof -
  obtain b first w where "oaUpdateTask thread (\<lambda>t. t\<lparr>blockForBatchSplitter := b, firstBatchElement := first, requiredWidth := w\<rparr>) S = Some T"
    using assms(2) by (auto simp: oaDistributeThread_def bind_eq_Some_conv)
  then show ?thesis using oaUpdateTask_sentinel [OF assms(1)] by simp
qed

lemma oaMergeThreadTasks_sentinel:
  assumes S: "staleSentinel n S" and run: "oaMergeThreadTasks thread (c, h, S) = Some (c', h', T)" and i: "thread < n"
  shows "staleSentinel n T"
proof -
  have lt: "thread - Suc 0 < n" using i by simp
  show ?thesis
    using run S unfolding oaMergeThreadTasks_def prod.case
    by (auto simp: bind_eq_Some_conv UseInverseMerge_def split: if_splits) (metis sentinel_other i lt)+
qed

lemma oaDistributeGroup_sentinel:
  assumes S: "staleSentinel n S" and run: "oaDistributeGroup P batch batchSize thread S = Some T" and i: "thread < n"
  shows "staleSentinel n T"
proof -
  have bindE: thesis if "f \<bind> g = Some r" "\<And>x. f = Some x \<Longrightarrow> g x = Some r \<Longrightarrow> thesis" for f :: "'x option" and g :: "'x \<Rightarrow> 'y option" and r thesis
    using that by (auto simp: bind_eq_Some_conv)
  have lower: "t < n" if "minusThread thread x = Some t" for x t using that i by (auto simp: minusThread_def split: if_splits)
  have init: "staleSentinel n U" if "(if c then oaUpdateTask thread f S else Some S) = Some U" for c f U
    using that S sentinel_other [OF _ i] by (auto split: if_splits)
  show ?thesis
    using run unfolding oaDistributeGroup_def Let_def
    by (elim bindE) (erule foldM_keeps, erule init, elim bindE, erule sentinel_other [OF _ lower], assumption+)
qed

lemma oaValidateTasks_sentinel:
  assumes "staleSentinel n S" "\<not> NDEBUG P"
  shows "oaValidateTasks P n batchSize False S = None"
proof -
  have "oaTask S n = Some (oaTasks S ! n)" using assms(1) by (simp add: staleSentinel_def oaTask_def nth_opt_def)
  then show ?thesis using assms by (auto simp: oaValidateTasks_def staleSentinel_def assertMsg_def bind_eq_None_conv)
qed

lemma oaDistributionPhase_sentinel:
  assumes S: "staleSentinel n S" and nd: "\<not> NDEBUG P"
  shows "oaDistributionPhase P W False batch batchSize n S = None"
proof (rule ccontr)
  assume "oaDistributionPhase P W False batch batchSize n S \<noteq> None"
  then obtain d S1 S2 S3 c hm S4 S5 u S6 where r: "oaUpdateTask n (\<lambda>t. t\<lparr>blockForBatchSplitter := oaSize S, firstBatchElement := batchSize\<rparr>) S = Some S1"
     "foldM (oaDistributeThread P batch batchSize d n) (W 0) S1 = Some S2"
     "oaUpdateTask 0 (\<lambda>t. t\<lparr>firstBatchElement := 0, taskType := INSERTION\<rparr>) S2 = Some S3" "0 < n"
     "foldM oaMergeThreadTasks [1..<n] (0, False, S3) = Some (c, hm, S4)" "oaDistributeWork P batch batchSize n S4 = Some S5"
     "fitsInPlace n False S5 = Some u" "oaUpdateTask n (\<lambda>t. t\<lparr>requiredWidth := 0\<rparr>) S5 = Some S6" "oaValidateTasks P n batchSize u S6 = Some ()"
    using nd unfolding oaDistributionPhase_def by (auto simp: bind_eq_Some_conv UseInverseMerge_def split: if_splits)
  have s1: "staleSentinel n S1" using oaUpdateTask_sentinel [OF S r(1)] by simp
  have s2: "staleSentinel n S2" by (rule foldM_keeps [OF r(2)]) (rule s1, rule oaDistributeThread_sentinel)
  have s3: "staleSentinel n S3" using oaUpdateTask_sentinel [OF s2 r(3)] r(4) by simp
  have s4: "case (c, hm, S4) of (c, h, S) \<Rightarrow> staleSentinel n S"
    by (rule foldM_keeps [OF r(5)]) (use s3 oaMergeThreadTasks_sentinel [of n] in \<open>auto\<close>)
  have s5: "staleSentinel n S5"
    by (rule foldM_keeps [OF r(6) [unfolded oaDistributeWork_def]])
       (use s4 oaDistributeGroup_sentinel [of n] in \<open>auto simp: bind_eq_Some_conv split: if_splits\<close>)
  have s6: "staleSentinel n S6" using oaUpdateTask_sentinel [OF s5 r(8)] by simp
  have "foldM (\<lambda>x u. if u then g x else Some False) xs False = Some False" for g :: "nat \<Rightarrow> bool option" and xs by (induction xs) auto
  then have "\<not> u" using r(7) by (simp add: fitsInPlace_def)
  then show False using r(9) oaValidateTasks_sentinel [OF s6 nd] by simp
qed

text \<open>
  A run that leaves such a task: three threads insert into an empty array, where they all start at the first entry.
\<close>

definition startOa :: "(nat, nat) oaSds" where
  "startOa = (newOaSds (demoParams False) [demoTask, demoTask, demoTask, demoTask])\<lparr>oaCapacity := 64, oaSwapCapacity := 64,
     oaPma := replicate 64 (emptyEntry (demoParams False)), oaSwapPma := replicate 64 (emptyEntry (demoParams False))\<rparr>"

lemma startOa_leaves:
  "map_option (\<lambda>S. (length (oaTasks S), taskType (oaTasks S ! 1), mergedTasks (oaTasks S ! 1)))
     (oaInsertBatch (demoParams False) 0 (\<lambda>r. [0, 1, 2]) False [2, 4, 6, 9, 12, 15] 6 3 startOa) = Some (4, INVERSE_MERGE, 2)"
  by code_simp

text \<open>C39. In debug builds the validation of the task distribution also checks the type of the sentinel task behind the tasks of the \<open>n\<close> threads, which
  \<open>insertBatch\<close> never sets: on any array whose sentinel is an inverse merge task of at least \<open>n\<close> merged tasks, as an earlier call with more threads leaves it,
  every call with \<open>n\<close> threads that may not insert in place fails an assertion, whatever the batch.\<close>

theorem stale_sentinel_aborts:
  assumes "\<not> NDEBUG P" "n < length (oaTasks S)" "taskType (oaTasks S ! n) = INVERSE_MERGE" "n \<le> mergedTasks (oaTasks S ! n)"
  shows "oaInsertBatch P Z W False batch batchSize n S = None"
proof -
  have "staleSentinel n S" using assms by (simp add: staleSentinel_def)
  then show ?thesis using oaDistributionPhase_sentinel [OF _ assms(1)] by (auto simp: oaInsertBatch_def bind_eq_None_conv)
qed

theorem stale_sentinel_aborts_witness:
  "\<exists>S. oaInsertBatch (demoParams False) 0 (\<lambda>r. [0, 1, 2]) False [2, 4, 6, 9, 12, 15] 6 3 startOa = Some S \<and>
     oaInsertBatch (demoParams False) 0 (\<lambda>r. [0]) False [3, 5] 2 1 S = None"
proof -
  obtain S where S: "oaInsertBatch (demoParams False) 0 (\<lambda>r. [0, 1, 2]) False [2, 4, 6, 9, 12, 15] 6 3 startOa = Some S"
     "length (oaTasks S) = 4" "taskType (oaTasks S ! 1) = INVERSE_MERGE" "mergedTasks (oaTasks S ! 1) = 2"
    using startOa_leaves by auto
  then show ?thesis using stale_sentinel_aborts [of "demoParams False" 1 S 0 "\<lambda>r. [0]" "[3, 5]" 2] by simp
qed

end
