(* ===== verification/Simple_Sets.thy ===== *)
theory Simple_Sets
  imports Prelude
begin

text \<open>
  The reference sets that the arrays are tested against: \<open>SimpleOrderedSet\<close> and \<open>SimpleUnorderedSet\<close> of
  \<open>dataStructures/simpleOrderedSet.hpp\<close> and \<open>simpleUnorderedSet.hpp\<close>.

  \<open>std::set\<close> and \<open>std::unordered_set\<close> are finite sets; the order in which the latter is iterated is not
  specified and is the parameter \<open>iter\<close> of the operations that iterate. Every operation holds the mutex,
  so it is one step. What is proved is the code around the containers: the batch loops and the range query.
\<close>

section \<open>SimpleOrderedSet\<close>

definition so_insert :: "'t \<Rightarrow> 't set \<Rightarrow> 't set" where
  "so_insert e d = insert e d"

definition so_remove :: "'t \<Rightarrow> 't set \<Rightarrow> 't set" where
  "so_remove e d = d - {e}"

definition so_search :: "'t \<Rightarrow> 't set \<Rightarrow> bool" where
  "so_search e d \<longleftrightarrow> e \<in> d"

definition so_size :: "'t set \<Rightarrow> nat" where
  "so_size d = card d"

section \<open>SimpleUnorderedSet\<close>

definition su_insert :: "'t \<Rightarrow> 't set \<Rightarrow> 't set" where
  "su_insert e d = insert e d"

definition su_remove :: "'t \<Rightarrow> 't set \<Rightarrow> 't set" where
  "su_remove e d = d - {e}"

definition su_search :: "'t \<Rightarrow> 't set \<Rightarrow> bool" where
  "su_search e d \<longleftrightarrow> e \<in> d"

definition su_size :: "'t set \<Rightarrow> nat" where
  "su_size d = card d"

definition su_numberOfElements :: "'t set \<Rightarrow> int" where
  "su_numberOfElements d = int (card d)"

text \<open>
  The loops of \<open>insertBatch\<close> and \<open>removeBatch\<close> count with a 32-bit \<open>int\<close> up to a 64-bit batch size:
  the increment of \<open>INT_MAX\<close> is undefined, so the round that would end with it fails.
\<close>

definition INT_MAX :: int where "INT_MAX = 2147483647"

definition su_batchLoop :: "('t \<Rightarrow> 't set \<Rightarrow> 't set) \<Rightarrow> 't list \<Rightarrow> int \<Rightarrow> 't set \<Rightarrow> 't set option" where
  "su_batchLoop f batch batchSize d =
     for_range 0 batchSize (\<lambda>i d. if i = INT_MAX then None else do { e \<leftarrow> idx batch i; Some (f e d) }) d"

definition su_insertBatch :: "'t list \<Rightarrow> int \<Rightarrow> 't set \<Rightarrow> 't set option" where
  "su_insertBatch batch batchSize d = su_batchLoop su_insert batch batchSize d"

definition su_removeBatch :: "'t list \<Rightarrow> int \<Rightarrow> 't set \<Rightarrow> 't set option" where
  "su_removeBatch batch batchSize d = su_batchLoop su_remove batch batchSize d"

text \<open>\<open>rangeQuery\<close> applies the evaluator \<open>f\<close>, here a state transformer, to the matching elements.\<close>

definition su_rangeQuery ::
  "('t set \<Rightarrow> 't list) \<Rightarrow> 't::linorder \<Rightarrow> 't \<Rightarrow> ('t \<Rightarrow> 's \<Rightarrow> 's) \<Rightarrow> 't set \<Rightarrow> 's \<Rightarrow> 's" where
  "su_rangeQuery iter left right f d s =
     fold (\<lambda>el s. if el \<ge> left \<and> el < right then f el s else s) (iter d) s"

section \<open>Properties\<close>

lemma su_batchLoop_ok:
  assumes "int (length batch) \<le> INT_MAX"
  shows "su_batchLoop f batch (int (length batch)) d = Some (fold f batch d)"
proof -
  have "\<exists>t. for_range 0 (int (length batch))
          (\<lambda>i d. if i = INT_MAX then None else do { e \<leftarrow> idx batch i; Some (f e d) }) d = Some t \<and>
        t = fold f (take (nat (int (length batch))) batch) d"
    by (rule for_range_inv [where I = "\<lambda>i t. t = fold f (take (nat i) batch) d"])
       (use assms in \<open>auto simp: nat_add_distrib take_Suc_conv_app_nth nat_less_iff\<close>)
  then show ?thesis by (simp add: su_batchLoop_def)
qed

lemma fold_su_insert: "fold su_insert xs d = set xs \<union> d"
  by (induction xs arbitrary: d) (auto simp: su_insert_def)

lemma fold_su_remove: "fold su_remove xs d = d - set xs"
  by (induction xs arbitrary: d) (auto simp: su_remove_def)

text \<open>C40. Inserting a batch and then removing it restores the unordered set if it held none of the elements, and a
  range query in between visits exactly the elements of the range, each once.\<close>

theorem reference_batch_roundtrip:
  assumes "int (length batch) \<le> INT_MAX" "d \<inter> set batch = {}"
    and "\<forall>A. finite A \<longrightarrow> distinct (iter A) \<and> set (iter A) = A" "finite d"
  shows "\<exists>d'. su_insertBatch batch (int (length batch)) d = Some d' \<and>
      su_removeBatch batch (int (length batch)) d' = Some d \<and>
      (let xs = su_rangeQuery iter left right (\<lambda>x s. s @ [x]) d' []
       in distinct xs \<and> set xs = {x. (x \<in> d \<or> x \<in> set batch) \<and> left \<le> x \<and> x < right})"
proof -
  have visits: "fold (\<lambda>el s. if el \<ge> left \<and> el < right then s @ [el] else s) xs ys =
     ys @ filter (\<lambda>el. el \<ge> left \<and> el < right) xs" for xs ys
    by (induction xs arbitrary: ys) auto
  have "finite (set batch \<union> d)" using assms by simp
  then show ?thesis
    using assms by (auto simp: su_insertBatch_def su_removeBatch_def su_batchLoop_ok fold_su_insert fold_su_remove
        su_rangeQuery_def visits Let_def)
qed

theorem reference_batch_roundtrip_witness:
  "\<exists>d'. su_insertBatch [1, 2, 3] 3 {5, 7::int} = Some d' \<and> su_removeBatch [1, 2, 3] 3 d' = Some {5, 7} \<and>
     (let xs = su_rangeQuery sorted_list_of_set 2 6 (\<lambda>x s. s @ [x]) d' []
      in distinct xs \<and> set xs = {x. (x \<in> {5, 7} \<or> x \<in> set [1, 2, 3]) \<and> 2 \<le> x \<and> x < 6})"
  using reference_batch_roundtrip [of "[1, 2, 3::int]" "{5, 7}" sorted_list_of_set 2 6] by (simp add: INT_MAX_def)

end
