(* ===== verification/Spec2Isabelle.thy ===== *)
theory Spec2Isabelle
  imports Density Bucket_Map Block_Size_Manager Insert_Batch Insertion_Range Iterators Rebalance_Select Overallocated_History Simple_Sets
begin

text \<open>
  \<^bold>\<open>Batch-parallel packed memory arrays\<close>

  The program (\<open>src/dataStructures\<close>) stores a set of elements, ordered by key, in an array of pointers to small sorted blocks
  with free entries between them. Elements are added in sorted batches by several threads. There are two variants:

  \<^item> \<open>BatchedSparseArray\<close> (BBPMA, \<open>batchedSparseArray.hpp\<close>) writes blocks that find no place into a buffer array, and afterwards
    moves the blocks of those parts of the array that became too dense, as selected by a binary hierarchy of block
    counts (\<open>binaryRebalancingManager.hpp\<close>) with density thresholds (\<open>densityManager.hpp\<close>); the nodes to look at are collected in
    \<open>concurrentBucketMap.hpp\<close>.
  \<^item> \<open>OverallocatedBatchedSparseArray\<close> (GBPMA, \<open>overallocatedBatchedSparseArray.hpp\<close>) inserts in place as long as every thread
    has room in its range of the array, and otherwise writes all blocks to a swap array and spreads them over a larger
    range; how much room a range needs it learns from a block size manager (\<open>blockSizeManager.hpp\<close>).

  Blocks are \<open>block.hpp\<close> and \<open>overallocatedBlock.hpp\<close>; \<open>iterators.hpp\<close>, \<open>helpers.hpp\<close> and \<open>typedefs.hpp\<close> are shared, and
  \<open>simpleOrderedSet.hpp\<close>, \<open>simpleUnorderedSet.hpp\<close> are the sets the tests compare with.

  \<^bold>\<open>How the code is modelled\<close>

  \<^item> A function of the code is a definition with its name (with a prefix where two classes have the same: \<open>oa\<close> for
    \<open>OverallocatedBatchedSparseArray\<close>, \<open>h_\<close> and \<open>lin_\<close> for the block size managers, \<open>it\<close> for iterators). Objects are records that the
    operations take and return. A failed assertion, an access out of bounds or a null dereference is the result \<open>None\<close>;
    hence every theorem that an operation returns \<open>Some\<close> also says that none of these happens. The flag \<open>NDEBUG\<close> of the record \<open>tparams\<close>
    says whether assertions and debug-only code are compiled in; the theorems hold for both kinds of builds.
  \<^item> \<open>tparams\<close> collects the template arguments (null key, key of a value, block and segment sizes, default values).
  \<^item> 64-bit indices are \<open>int\<close>, with the division of C++ (\<open>cdiv\<close>, \<open>cmod\<close>); block sizes are \<open>nat\<close> with the cast \<open>u16\<close> where the code casts,
    and \<open>mergeFaster\<close> keeps its signed 16-bit indices (\<open>s16\<close>). \<open>double\<close> values are rationals that are rounded to 53 bits after every operation
    (theory \<open>Doubles\<close>); bounds on element counts keep integers exactly representable (below \<open>2\<^sup>5\<^sup>3\<close>).
  \<^item> Loops are \<open>for_range\<close>, \<open>foldM\<close>, functions with a measure, or \<open>partial_function\<close> where termination needs an invariant; for these
    the theorems state that a result is returned.
  \<^item> An OpenMP region is the list of its thread bodies in the order in which they take effect; this order is an argument
    (\<open>workers\<close>). What the compiler and the OpenMP runtime provide (hash functions, number of buckets) is the record \<open>runtime\<close>.

  \<^bold>\<open>Theories and components\<close>

  \<^item> \<open>Prelude\<close>: checked array access, loops, integer division, slices, strictly sorted lists, even distribution over a range, and the locale
    \<open>task_region\<close> of a parallel region: an invariant over the set of tasks that are done, kept by each further task, so that the tasks may take
    effect in any order.
  \<^item> \<open>Sds_Types\<close>: the data types of \<open>helpers.hpp\<close>.
  \<^item> \<open>Block\<close>, \<open>Merge_Faster\<close>, \<open>Overallocated_Block\<close>: blocks. \<open>wfBlock\<close> is their invariant, \<open>elems\<close> the sorted list of elements; cells behind the
    end keep stale values (\<open>staleOk\<close>, \<open>nullStale\<close>), on which several operations depend: an element whose key stands in the cell behind the last
    element (\<open>shadowed\<close>) is taken for present. \<open>documented\<close> is the condition on head, size and pointer that the comments of \<open>block.hpp\<close> state; every
    nonempty well-formed block has it, and \<open>remove\<close> of the only element breaks it. Shown: every operation on every branch, with the loss of
    reinserted elements in release builds, and that \<open>mergeFaster\<close> is \<open>merge\<close> as long as stale cells cannot be mistaken for elements.
  \<^item> \<open>Doubles\<close>, \<open>Density\<close>: density thresholds and the overallocation factor, within their bounds in spite of rounding.
  \<^item> \<open>Bucket_Map\<close>: the map of nodes to recount, for concurrent insertions in any order.
  \<^item> \<open>Block_Size_Manager\<close>: the linear and the hierarchical manager as interpretations of the locale \<open>block_size_manager\<close>.
  \<^item> \<open>Rebalancing\<close>: the hierarchy of counts; layout, recounting, and which nodes \<open>update\<close> selects.
  \<^item> \<open>Sds_State\<close>, \<open>Search\<close>, \<open>Queries\<close>, \<open>Iterators\<close>: state, searches, queries and iterators. The searches are proved in the locale \<open>sorted_heads\<close>,
    the queries in \<open>block_store\<close>, which both array classes interpret (\<open>bb\<close> and \<open>oa\<close>).
  \<^item> \<open>Insertion\<close>, \<open>Insertion_Block\<close>, \<open>Insertion_Range\<close>: inserting a range of the batch into a range of the BBPMA. Shown: refinement of the insertion
    into the sorted list of elements (\<open>insKey\<close>).
  \<^item> \<open>Tasks\<close>, \<open>Rebalance_Exec\<close>, \<open>Insert_Batch\<close>: the phases of \<open>insertBatch\<close> of the BBPMA, as definitions.
  \<^item> \<open>Rebalance_Cells\<close>, \<open>Rebalance_Parts\<close>, \<open>Rebalance_Rewrite\<close>, \<open>Rebalance_Phases\<close>: phases B-4 to B-8, moving the blocks of the rebalancing tasks to the swap array
    and back. The blocks of the array and of the buffer are one sequence of cells, which the threads divide evenly; a thread works on the end of a
    task, on whole tasks and on the beginning of a task (locale \<open>task_parts\<close>, interpreted for moving, clearing and rewriting), and each parallel region is an
    interpretation of \<open>task_region\<close>. Shown: all blocks are kept in order, and the buffer and the swap array are empty afterwards.
  \<^item> \<open>Rebalance_Select\<close>: phases B-2 and B-3, which update the hierarchy and collect the tasks. Shown: the tasks are disjoint, fit their blocks and cover the
    marked segments, outside of the gap between root and super root, so that they satisfy what the phases behind rely on (\<open>selected_ready\<close>); what
    remains to assume there is that the new size covers all tasks, which \<open>insertBatch\<close> computes from the last task only.
  \<^item> \<open>Overallocated\<close>, \<open>Overallocated_Insert\<close>, \<open>Overallocated_Batch\<close>: the GBPMA, as definitions.
  \<^item> \<open>Overallocated_Write\<close>: its invariant, queries and \<open>writeBlockInPlace\<close>. \<open>Overallocated_Split\<close>: splitting a block into a sequence of blocks that are handed to
    a sink (locale \<open>block_sink\<close>, interpreted for writing in place and to the swap array). \<open>Overallocated_Place\<close>, \<open>Overallocated_Out\<close>: inserting a range in place
    and out of place. \<open>Overallocated_Rewrite\<close>: the way back and growth.
  \<^item> \<open>Overallocated_Distribution\<close>, \<open>Overallocated_Tasks\<close>, \<open>Overallocated_Parallel\<close>: \<open>insertBatch\<close> of the GBPMA with any number of threads that start at
    different blocks. Each parallel region is an interpretation of the locale \<open>task_region\<close>.
  \<^item> \<open>Overallocated_History\<close>: sequences of calls from the constructor to the queries.
  \<^item> \<open>Simple_Sets\<close>: the reference sets; shown are the batch loops and the range query around the library containers.

  \<^bold>\<open>Hypotheses that recur\<close>

  \<open>wfParams\<close>: at least one element per minimal block, full blocks are twice minimal ones, sizes fit 16 bits, default values have the
  null key. Batches are strictly sorted with keys above the null key: the code only checks weak order, and batches with duplicate
  keys violate assertions or store keys twice. The first batch of an empty array has at least a minimal block of elements, which
  the code needs to form a legal block. Keys differ from the value \<open>Z\<close> that \<open>mergeFaster\<close> compares with in debug builds. Blocks have at most
  \<open>32768\<close> cells where \<open>mergeFaster\<close> is used.

  \<^bold>\<open>Not modelled\<close>

  The vendored competitors and libraries (\<open>src/parallelBST\<close>, \<open>src/CPMA\<close>, \<open>src/lib\<close>), benchmarks, tests, input generators and drivers, textual
  output and profiling, code only compiled with \<open>EXTENDED_TESTS\<close>, the template
  \<open>insertElementsIntoBlockWithoutPrecalculatedInsertionWidths\<close>, which is never instantiated, and memory addresses: a block is a value that one entry owns.
  Data races are outside of the model: the bodies of a parallel region take effect one after the other.
  Not proved is, for both arrays, an insertion in which threads start at the same block, so that their tasks are merged and one block is divided
  among them (\<open>inverseMerge\<close>). For the BBPMA the phases are proved one by one, and not as one theorem about \<open>insertBatch\<close>.
\<close>

end
